(* ===== verification/Prelude.thy ===== *)
theory Prelude
  imports Main "HOL-Library.Word" "HOL-Library.Multiset" "HOL-Library.AList"
begin

text \<open>
  Shared vocabulary of the development: machine integer types, C++ exceptions as values of
  a sum type, the model of the standard containers and algorithms the program uses
  (\<open>std::unordered_map\<close>, \<open>std::sort\<close>, \<open>std::priority_queue\<close>), and the generic
  lemmas and interfaces (locales) that the component theories build on.
\<close>

section \<open>Types and fact collections\<close>

type_synonym u8 = "8 word"
type_synonym u16 = "16 word"
type_synonym u32 = "32 word"
type_synonym u64 = "64 word"
type_synonym bytes = "u8 list"

text \<open>A node identifier (\<open>NodeId\<close>) and the bit pattern of a \<open>float\<close> are both 32 bits.\<close>

type_synonym node_id = u32
type_synonym f32 = u32

named_theorems codec_simps "round-trip equations of the byte codecs"
named_theorems frame_simps "fields an operation leaves unchanged"
named_theorems key_simps "what the comparators mean in terms of integer keys"

section \<open>C++ exceptions as values\<close>

text \<open>
  \<open>std::runtime_error\<close> and \<open>std::out_of_range\<close> with their messages. A message built from
  a path or from \<open>errno\<close> keeps only its fixed text.
\<close>

datatype cpp_error = Runtime_error string | Out_of_range string | Invalid_argument string

type_synonym 'a result = "cpp_error + 'a"

definition throw_if :: "bool \<Rightarrow> cpp_error \<Rightarrow> unit result" where
  "throw_if c e = (if c then Inl e else Inr ())"

definition seq_result :: "'a result \<Rightarrow> ('a \<Rightarrow> 'b result) \<Rightarrow> 'b result" where
  "seq_result r f = (case r of Inl e \<Rightarrow> Inl e | Inr x \<Rightarrow> f x)"

lemma seq_result_simps [simp]:
  "seq_result (Inl e) f = Inl e"
  "seq_result (Inr x) f = f x"
  by (simp_all add: seq_result_def)

lemma seq_result_Inr_iff: "seq_result r f = Inr y \<longleftrightarrow> (\<exists>x. r = Inr x \<and> f x = Inr y)"
  by (cases r) auto

lemma throw_if_simps [simp]:
  "throw_if True e = Inl e"
  "throw_if False e = Inr ()"
  by (simp_all add: throw_if_def)

lemma throw_if_Inr_iff: "throw_if c e = Inr u \<longleftrightarrow> \<not> c"
  by (simp add: throw_if_def)

lemma throw_if_Inl_iff: "throw_if c e = Inl e' \<longleftrightarrow> c \<and> e' = e"
  by (auto simp: throw_if_def)

lemmas result_iffs = seq_result_Inr_iff throw_if_Inr_iff throw_if_Inl_iff

text \<open>An invariant of a loop over a list.\<close>

lemma foldl_inv:
  assumes "P s" and "\<And>s x. x \<in> set xs \<Longrightarrow> P s \<Longrightarrow> P (f s x)"
  shows "P (foldl f s xs)"
  using assms by (induction xs arbitrary: s) auto

section \<open>Comparators, \<open>std::sort\<close> and \<open>std::priority_queue\<close>\<close>

text \<open>
  \<open>std::sort\<close> under a comparator is modelled by a stable insertion sort: the standard
  requires the comparator to be a strict weak order and then fixes the result up to the
  order of equivalent elements. The locale \<open>keyed_order\<close> is that requirement: on the
  values a caller sorts, the comparator compares integer keys.
\<close>

fun ins_by :: "('a \<Rightarrow> 'a \<Rightarrow> bool) \<Rightarrow> 'a \<Rightarrow> 'a list \<Rightarrow> 'a list" where
  "ins_by lt x [] = [x]"
| "ins_by lt x (y # ys) = (if lt y x then y # ins_by lt x ys else x # y # ys)"

definition std_sort :: "('a \<Rightarrow> 'a \<Rightarrow> bool) \<Rightarrow> 'a list \<Rightarrow> 'a list" where
  "std_sort lt xs = foldr (ins_by lt) xs []"

lemma mset_ins_by [simp]: "mset (ins_by lt x ys) = add_mset x (mset ys)"
  by (induction ys) auto

lemma mset_std_sort [simp]: "mset (std_sort lt xs) = mset xs"
  by (induction xs) (auto simp: std_sort_def)

lemma set_std_sort [simp]: "set (std_sort lt xs) = set xs"
  by (metis mset_std_sort set_mset_mset)

lemma length_std_sort [simp]: "length (std_sort lt xs) = length xs"
  by (metis mset_std_sort size_mset)

lemma std_sort_Nil [simp]: "std_sort lt [] = []"
  by (simp add: std_sort_def)

lemma distinct_map_std_sort [simp]: "distinct (map f (std_sort lt xs)) = distinct (map f xs)"
  by (metis mset_map mset_std_sort mset_eq_imp_distinct_iff)

text \<open>
  A priority queue is kept as a list in comparator order; \<open>top()\<close> is its last element.
  \<open>heap_step\<close> is the bounded-heap idiom of the search routines: push while there is room,
  otherwise replace the worst element by a strictly better one.
\<close>

fun push_by :: "('a \<Rightarrow> 'a \<Rightarrow> bool) \<Rightarrow> 'a \<Rightarrow> 'a list \<Rightarrow> 'a list" where
  "push_by lt x [] = [x]"
| "push_by lt x (y # ys) = (if lt x y then x # y # ys else y # push_by lt x ys)"

definition heap_step :: "('a \<Rightarrow> 'a \<Rightarrow> bool) \<Rightarrow> nat \<Rightarrow> 'a list \<Rightarrow> 'a \<Rightarrow> 'a list" where
  "heap_step lt k h x =
     (if length h < k then push_by lt x h
      else if h \<noteq> [] \<and> lt x (last h) then push_by lt x (butlast h)
      else h)"

lemma mset_push_by [simp]: "mset (push_by lt x ys) = add_mset x (mset ys)"
  by (induction ys) auto

lemma set_push_by [simp]: "set (push_by lt x ys) = insert x (set ys)"
  by (induction ys) auto

lemma length_push_by [simp]: "length (push_by lt x ys) = Suc (length ys)"
  by (induction ys) auto

lemma set_heap_step: "set (heap_step lt k h x) \<subseteq> insert x (set h)"
  by (auto simp: heap_step_def dest: in_set_butlastD)

text \<open>Stable insertion from the right, the order in which a fold meets its elements.\<close>

lemma insort_key_push_commute:
  "insort_key f y (push_by (\<lambda>a b. f a < f b) x S) =
   push_by (\<lambda>a b. f a < f b) x (insort_key f y S)"
  if "sorted (map f S)" for f :: "'a \<Rightarrow> 'b::linorder"
  using that
proof (induction S)
  case Nil
  show ?case by (simp add: leD not_less)
next
  case (Cons s S)
  then have IH: "insort_key f y (push_by (\<lambda>a b. f a < f b) x S) =
    push_by (\<lambda>a b. f a < f b) x (insort_key f y S)" by simp
  consider "f y \<le> f s" "f x < f s" | "f y \<le> f s" "\<not> f x < f s"
    | "\<not> f y \<le> f s" "f x < f s" | "\<not> f y \<le> f s" "\<not> f x < f s"
    by blast
  then show ?case
  proof cases
    case 1
    then show ?thesis by (simp add: leD not_less)
  next
    case 2
    then have "f y \<le> f x" by (metis not_less order_trans)
    with 2 show ?thesis by (simp add: leD)
  next
    case 3
    then have "\<not> f y \<le> f x" by (metis not_less order_trans le_less)
    with 3 show ?thesis by simp
  next
    case 4
    with IH show ?thesis by simp
  qed
qed

lemma sort_key_snoc:
  fixes f :: "'a \<Rightarrow> 'b::linorder"
  shows "sort_key f (xs @ [x]) = push_by (\<lambda>a b. f a < f b) x (sort_key f xs)"
  by (induction xs) (auto simp: insort_key_push_commute)

lemma take_push_by_less:
  fixes f :: "'a \<Rightarrow> 'b::linorder"
  assumes "sorted (map f S)" and "k \<le> length S" and "0 < k"
  shows "take k (push_by (\<lambda>a b. f a < f b) x S) =
    (if f x < f (S ! (k - 1)) then push_by (\<lambda>a b. f a < f b) x (take (k - 1) S) else take k S)"
  using assms
proof (induction S arbitrary: k)
  case Nil
  then show ?case by simp
next
  case (Cons y S)
  then obtain j where k: "k = Suc j" by (cases k) auto
  show ?case
  proof (cases "j = 0")
    case True
    with k show ?thesis by auto
  next
    case False
    then obtain i where j: "j = Suc i" by (cases j) auto
    have "f y \<le> f (S ! i)" using Cons.prems k j by (auto simp: Suc_le_eq)
    then have nth: "f x < f y \<Longrightarrow> f x < f (S ! i)" by (metis less_le_trans)
    show ?thesis
      using Cons.IH[of j] Cons.prems k j nth by auto
  qed
qed

text \<open>With distinct keys sorting does not depend on the order the elements come in.\<close>

lemma sort_key_mset:
  assumes "mset xs = mset ys" and "inj_on f (set xs)"
  shows "sort_key f xs = sort_key f ys"
  using assms by (metis mset_sort sort_key_inj_key_eq sorted_sort_key)

text \<open>Elements behind \<open>k\<close> others do not change the first \<open>k\<close>.\<close>

lemma take_sort_extend:
  fixes key :: "'a \<Rightarrow> 'b::linorder"
  assumes "\<forall>c\<in>set cs. k \<le> length (filter (\<lambda>x. key x < key c) xs)"
  shows "take k (sort_key key (xs @ cs)) = take k (sort_key key xs)"
  using assms
proof (induction cs rule: rev_induct)
  case (snoc c cs)
  let ?S = "sort_key key (xs @ cs)" and ?lt = "\<lambda>x. key x < key c"
  have IH: "take k ?S = take k (sort_key key xs)" using snoc by simp
  show ?case
  proof (cases "k = 0")
    case False
    have "k \<le> length (filter ?lt (xs @ cs))" using snoc.prems by simp
    also have "\<dots> = length (filter ?lt ?S)" by (metis mset_filter mset_sort size_mset)
    finally have many: "k \<le> length (filter ?lt ?S)" .
    then have len: "k \<le> length ?S" using length_filter_le le_trans by blast
    have "\<not> key c < key (?S ! (k - 1))"
    proof
      assume c: "key c < key (?S ! (k - 1))"
      have "\<not> ?lt y" if mem: "y \<in> set (drop (k - 1) ?S)" for y
      proof -
        obtain i where i: "i < length (drop (k - 1) ?S)" "drop (k - 1) ?S ! i = y"
          using mem by (meson in_set_conv_nth)
        then have at: "k - 1 + i < length ?S" "y = ?S ! (k - 1 + i)" by auto
        have "map key ?S ! (k - 1) \<le> map key ?S ! (k - 1 + i)"
          by (rule sorted_nth_mono[OF sorted_sort_key]) (use at(1) in simp_all)
        then have "key (?S ! (k - 1)) \<le> key y" using at False by simp
        then show ?thesis using c by simp
      qed
      then have "filter ?lt (drop (k - 1) ?S) = []" by (auto simp: filter_empty_conv)
      then have "filter ?lt ?S = filter ?lt (take (k - 1) ?S)"
        by (metis append_Nil2 append_take_drop_id filter_append)
      then have "length (filter ?lt ?S) \<le> k - 1"
        by (metis length_filter_le length_take min.cobounded2 order_trans)
      then show False using many False by simp
    qed
    then have "take k (sort_key key ((xs @ cs) @ [c])) = take k ?S"
      unfolding sort_key_snoc using take_push_by_less[of key ?S k c] len False by simp
    then show ?thesis using IH by simp
  qed simp
qed simp

lemma take_sort_subset:
  fixes key :: "'a \<Rightarrow> 'b::linorder"
  assumes "distinct as" and "inj_on key (set as)" and "distinct bs" and "set bs \<subseteq> set as"
    and "\<forall>c\<in>set as - set bs. k \<le> length (filter (\<lambda>x. key x < key c) bs)"
  shows "take k (sort_key key as) = take k (sort_key key bs)"
proof -
  let ?cs = "filter (\<lambda>x. x \<notin> set bs) as"
  have "mset as = mset (bs @ ?cs)"
    using assms(1,3,4) by (subst set_eq_iff_mset_eq_distinct[symmetric]) auto
  from sort_key_mset[OF this assms(2)] have "sort_key key as = sort_key key (bs @ ?cs)" .
  then show ?thesis using take_sort_extend[of ?cs k key bs] assms(5) by simp
qed

text \<open>What a cut leaves out lies behind what it keeps.\<close>

lemma take_sort_cut:
  fixes key :: "'a \<Rightarrow> 'b::linorder"
  assumes "x \<in> set xs" and "x \<notin> set (take k (sort_key key xs))"
  shows "length (take k (sort_key key xs)) = k" and "y \<in> set (take k (sort_key key xs)) \<Longrightarrow> key y \<le> key x"
proof -
  let ?S = "sort_key key xs"
  have "x \<in> set (take k ?S @ drop k ?S)" using assms(1) by (simp only: append_take_drop_id set_sort)
  then have x: "x \<in> set (drop k ?S)" using assms(2) unfolding set_append by blast
  then show "length (take k ?S) = k" by (cases "k < length ?S") auto
  have "sorted (map key (take k ?S @ drop k ?S))" by (simp only: append_take_drop_id sorted_sort_key)
  then have "\<forall>y\<in>set (take k ?S). \<forall>x\<in>set (drop k ?S). key y \<le> key x"
    unfolding map_append sorted_append by simp
  then show "key y \<le> key x" if "y \<in> set (take k ?S)" using x that by blast
qed

locale keyed_order =
  fixes lt :: "'a \<Rightarrow> 'a \<Rightarrow> bool"
    and key :: "'a \<Rightarrow> int"
    and valid :: "'a \<Rightarrow> bool"
  assumes less_key: "valid a \<Longrightarrow> valid b \<Longrightarrow> lt a b \<longleftrightarrow> key a < key b"
begin

lemma ins_by_insort:
  "valid x \<Longrightarrow> \<forall>y\<in>set ys. valid y \<Longrightarrow> ins_by lt x ys = insort_key key x ys"
  by (induction ys) (auto simp: less_key)

lemma std_sort_eq: "\<forall>x\<in>set xs. valid x \<Longrightarrow> std_sort lt xs = sort_key key xs"
  by (induction xs) (auto simp: std_sort_def ins_by_insort)

lemma sorted_std_sort: "\<forall>x\<in>set xs. valid x \<Longrightarrow> sorted (map key (std_sort lt xs))"
  by (simp add: std_sort_eq)

text \<open>
  With distinct keys the sorted list does not depend on the order the elements came in:
  the iteration order of an unordered container cannot be observed through it.
\<close>

lemma std_sort_cong:
  assumes "mset xs = mset ys" and "inj_on key (set xs)" and "\<forall>x\<in>set xs. valid x"
  shows "std_sort lt xs = std_sort lt ys"
proof -
  have "\<forall>y\<in>set ys. valid y" using assms(1,3) by (metis set_mset_mset)
  moreover have "sort_key key xs = sort_key key ys" by (rule sort_key_mset[OF assms(1,2)])
  ultimately show ?thesis using assms(3) by (simp add: std_sort_eq)
qed

lemma push_by_key:
  "valid x \<Longrightarrow> \<forall>y\<in>set ys. valid y \<Longrightarrow>
   push_by lt x ys = push_by (\<lambda>a b. key a < key b) x ys"
  by (induction ys) (auto simp: less_key)

lemma heap_step_take_sort:
  assumes v: "\<forall>y\<in>set xs. valid y" "valid x" and k: "0 < k"
  shows "heap_step lt k (take k (sort_key key xs)) x = take k (sort_key key (xs @ [x]))"
proof -
  let ?S = "sort_key key xs"
  have vS: "\<forall>y\<in>set ?S. valid y" using v by simp
  show ?thesis
  proof (cases "length ?S < k")
    case True
    then show ?thesis
      using v vS by (simp add: heap_step_def sort_key_snoc push_by_key)
  next
    case False
    then have len: "k \<le> length ?S" by simp
    have "0 < length ?S" using len k by linarith
    then have ne: "?S \<noteq> []" by (metis length_greater_0_conv)
    have last: "last (take k ?S) = ?S ! (k - 1)"
      using len k ne by (subst last_conv_nth) (simp_all add: min_def)
    have but: "butlast (take k ?S) = take (k - 1) ?S"
      using len by (simp add: butlast_take)
    have vl: "valid (?S ! (k - 1))" using vS len k nth_mem[of "k - 1" ?S] by auto
    have "take k (sort_key key (xs @ [x])) =
      (if key x < key (?S ! (k - 1)) then push_by (\<lambda>a b. key a < key b) x (take (k - 1) ?S)
       else take k ?S)"
      using take_push_by_less[of key ?S k x] len k by (simp add: sort_key_snoc)
    moreover have "push_by lt x (take (k - 1) ?S) = push_by (\<lambda>a b. key a < key b) x (take (k - 1) ?S)"
      using v(2) vS by (intro push_by_key) (auto dest: in_set_takeD)
    ultimately show ?thesis
      using len k ne v(2) vl by (simp add: heap_step_def last but less_key min_def)
  qed
qed

theorem bounded_heap:
  assumes "\<forall>y\<in>set xs. valid y" and "0 < k"
  shows "foldl (heap_step lt k) [] xs = take k (sort_key key xs)"
  using assms
proof (induction xs rule: rev_induct)
  case Nil
  then show ?case by simp
next
  case (snoc x xs)
  then show ?case by (simp add: heap_step_take_sort)
qed

text \<open>Draining the heap worst first and sorting restores the order, when keys are distinct.\<close>

lemma heap_result:
  assumes "\<forall>y\<in>set xs. valid y" and "0 < k" and "inj_on key (set xs)"
  shows "std_sort lt (rev (foldl (heap_step lt k) [] xs)) = take k (sort_key key xs)"
proof -
  let ?T = "take k (sort_key key xs)"
  have sub: "set ?T \<subseteq> set xs" using set_take_subset[of k "sort_key key xs"] by simp
  have "std_sort lt (rev ?T) = std_sort lt ?T"
    using sub assms(1,3) by (intro std_sort_cong) (auto intro: inj_on_subset)
  also have "\<dots> = sort_key key ?T" using sub assms(1) by (intro std_sort_eq) auto
  also have "\<dots> = ?T"
    by (intro sort_key_id_if_sorted) (metis sorted_sort_key sorted_wrt_take take_map)
  finally show ?thesis by (simp add: bounded_heap assms(1,2))
qed

text \<open>The smallest \<open>k\<close> of a sorted list bound everything that was cut off.\<close>

lemma take_sort_key_le:
  assumes "x \<in> set (take k (sort_key key xs))" and "y \<in># mset xs - mset (take k (sort_key key xs))"
  shows "key x \<le> key y"
proof -
  let ?S = "sort_key key xs"
  have "mset xs = mset (take k ?S) + mset (drop k ?S)"
    by (metis append_take_drop_id mset_append mset_sort)
  then have "y \<in> set (drop k ?S)" using assms(2) by simp
  moreover have "sorted (map key (take k ?S @ drop k ?S))" by (simp only: append_take_drop_id sorted_sort_key)
  ultimately show ?thesis using assms(1) by (auto simp: sorted_append simp del: append_take_drop_id)
qed

end

section \<open>\<open>std::unordered_map\<close>\<close>

text \<open>
  A hash map is an association list with distinct keys; the list order stands for the
  iteration order, which the standard leaves open. The locale states what clients may
  rely on; whatever they prove inside it holds for every iteration order.
\<close>

type_synonym ('k, 'v) umap = "('k \<times> 'v) list"

definition um_empty :: "('k, 'v) umap" where
  "um_empty = []"

definition um_find :: "('k, 'v) umap \<Rightarrow> 'k \<Rightarrow> 'v option" where
  "um_find m k = map_of m k"

definition um_assign :: "'k \<Rightarrow> 'v \<Rightarrow> ('k, 'v) umap \<Rightarrow> ('k, 'v) umap" where
  "um_assign k v m = AList.update k v m"

definition um_erase :: "'k \<Rightarrow> ('k, 'v) umap \<Rightarrow> ('k, 'v) umap" where
  "um_erase k m = AList.delete k m"

definition um_items :: "('k, 'v) umap \<Rightarrow> ('k \<times> 'v) list" where
  "um_items m = m"

definition um_ok :: "('k, 'v) umap \<Rightarrow> bool" where
  "um_ok m \<longleftrightarrow> distinct (map fst m)"

text \<open>
  The "keep the newest" loop body over a map, and what it does to the entry of one key:
  the first record among those with the greatest stamp stays.
\<close>

definition keep_newest :: "('m \<Rightarrow> 'k \<Rightarrow> 'v option) \<Rightarrow> ('k \<Rightarrow> 'v \<Rightarrow> 'm \<Rightarrow> 'm) \<Rightarrow> ('v \<Rightarrow> 'k) \<Rightarrow>
  ('v \<Rightarrow> 'o::linorder) \<Rightarrow> 'm \<Rightarrow> 'v \<Rightarrow> 'm" where
  "keep_newest lkp assign key stamp m r =
     (case lkp m (key r) of
        None \<Rightarrow> assign (key r) r m
      | Some q \<Rightarrow> if stamp q < stamp r then assign (key r) r m else m)"

definition newer :: "('v \<Rightarrow> 'o::linorder) \<Rightarrow> 'v option \<Rightarrow> 'v \<Rightarrow> 'v option" where
  "newer stamp acc r =
     (case acc of None \<Rightarrow> Some r | Some q \<Rightarrow> if stamp q < stamp r then Some r else Some q)"

lemma newer_simps [simp]:
  "newer stamp None r = Some r"
  "newer stamp (Some q) r = (if stamp q < stamp r then Some r else Some q)"
  by (simp_all add: newer_def)

lemma newer_Some [simp]: "foldl (newer stamp) (Some q) rs \<noteq> None"
  by (induction rs arbitrary: q) (auto simp: newer_def)

lemma newest_None_iff [simp]: "foldl (newer stamp) None rs = None \<longleftrightarrow> rs = []"
  by (cases rs) (auto simp: newer_def)

lemma newest_from:
  "foldl (newer stamp) (Some q) rs = Some r \<Longrightarrow>
   r \<in> insert q (set rs) \<and> (\<forall>x\<in>insert q (set rs). stamp x \<le> stamp r)"
proof (induction rs arbitrary: q)
  case Nil
  then show ?case by simp
next
  case (Cons x rs)
  show ?case
  proof (cases "stamp q < stamp x")
    case True
    then show ?thesis using Cons.IH[of x] Cons.prems by (auto simp: newer_def)
  next
    case False
    then show ?thesis using Cons.IH[of q] Cons.prems by (auto simp: newer_def)
  qed
qed

lemma newest_max:
  assumes "foldl (newer stamp) None rs = Some r"
  shows "r \<in> set rs" and "x \<in> set rs \<Longrightarrow> stamp x \<le> stamp r"
  using assms newest_from by (cases rs; force simp: newer_def)+

locale unordered_map =
  fixes empty :: "'m"
    and lkp :: "'m \<Rightarrow> 'k \<Rightarrow> 'v option"
    and assign :: "'k \<Rightarrow> 'v \<Rightarrow> 'm \<Rightarrow> 'm"
    and erase :: "'k \<Rightarrow> 'm \<Rightarrow> 'm"
    and items :: "'m \<Rightarrow> ('k \<times> 'v) list"
    and ok :: "'m \<Rightarrow> bool"
  assumes ok_empty: "ok empty"
    and ok_assign: "ok m \<Longrightarrow> ok (assign k v m)"
    and ok_erase: "ok m \<Longrightarrow> ok (erase k m)"
    and lkp_empty: "lkp empty k = None"
    and lkp_assign: "ok m \<Longrightarrow> lkp (assign k v m) k' = (if k' = k then Some v else lkp m k')"
    and lkp_erase: "ok m \<Longrightarrow> lkp (erase k m) k' = (if k' = k then None else lkp m k')"
    and items_lkp: "ok m \<Longrightarrow> (k, v) \<in> set (items m) \<longleftrightarrow> lkp m k = Some v"
    and items_distinct: "ok m \<Longrightarrow> distinct (map fst (items m))"
begin

lemma distinct_items: "ok m \<Longrightarrow> distinct (items m)"
  using items_distinct distinct_map by blast

lemma set_values: "ok m \<Longrightarrow> set (map snd (items m)) = {v. \<exists>k. lkp m k = Some v}"
  by (force simp: items_lkp [symmetric])

lemma items_keys: "ok m \<Longrightarrow> fst ` set (items m) = {k. lkp m k \<noteq> None}"
  by (force simp: items_lkp [symmetric])

lemma keep_newest_step:
  assumes "ok m" and "\<And>k r. lkp m k = Some r \<Longrightarrow> key r = k"
  shows "ok (keep_newest lkp assign key stamp m r)"
    and "lkp (keep_newest lkp assign key stamp m r) k' = Some r' \<Longrightarrow> key r' = k'"
    and "lkp (keep_newest lkp assign key stamp m r) k =
      (if key r = k then newer stamp (lkp m k) r else lkp m k)"
  using assms
  by (auto simp: keep_newest_def newer_def ok_assign lkp_assign split: option.splits if_splits)

theorem fold_keep_newest:
  assumes "ok m" and "\<And>k r. lkp m k = Some r \<Longrightarrow> key r = k"
  shows "lkp (foldl (keep_newest lkp assign key stamp) m rs) k =
      foldl (newer stamp) (lkp m k) (filter (\<lambda>r. key r = k) rs) \<and>
    ok (foldl (keep_newest lkp assign key stamp) m rs)"
  using assms
proof (induction rs arbitrary: m)
  case Nil
  then show ?case by simp
next
  case (Cons r rs)
  let ?m = "keep_newest lkp assign key stamp m r"
  have m: "ok ?m" by (rule keep_newest_step(1) [OF Cons.prems])
  have key: "\<And>k r'. lkp ?m k = Some r' \<Longrightarrow> key r' = k"
    by (rule keep_newest_step(2) [OF Cons.prems])
  have lkp: "lkp ?m k = (if key r = k then newer stamp (lkp m k) r else lkp m k)"
    by (rule keep_newest_step(3) [OF Cons.prems])
  show ?case using Cons.IH [OF m key] by (simp add: lkp)
qed

lemmas fold_keep_newest_lkp = fold_keep_newest [THEN conjunct1]
lemmas fold_keep_newest_ok = fold_keep_newest [THEN conjunct2]

end

interpretation um: unordered_map um_empty um_find um_assign um_erase um_items um_ok
proof unfold_locales
  fix m :: "('k, 'v) umap" and k k' :: 'k and v :: 'v
  show "um_ok (um_empty :: ('k, 'v) umap)" by (simp add: um_ok_def um_empty_def)
  show "um_find (um_empty :: ('k, 'v) umap) k = None" by (simp add: um_find_def um_empty_def)
  assume ok: "um_ok m"
  show "um_ok (um_assign k v m)" using ok by (simp add: um_ok_def um_assign_def distinct_update)
  show "um_ok (um_erase k m)" using ok by (simp add: um_ok_def um_erase_def distinct_delete)
  show "um_find (um_assign k v m) k' = (if k' = k then Some v else um_find m k')"
    by (simp add: um_find_def um_assign_def update_conv')
  show "um_find (um_erase k m) k' = (if k' = k then None else um_find m k')"
    by (simp add: um_find_def um_erase_def delete_conv')
  show "((k, v) \<in> set (um_items m)) = (um_find m k = Some v)"
    using ok by (simp add: um_find_def um_items_def um_ok_def)
  show "distinct (map fst (um_items m))" using ok by (simp add: um_items_def um_ok_def)
qed

lemmas um_laws [simp] = um.lkp_empty um.lkp_assign um.lkp_erase um.ok_empty um.ok_assign um.ok_erase

text \<open>Two maps with the same lookups hold the same entries, in some order.\<close>

lemma um_items_mset:
  assumes "um_ok m" and "um_ok m'" and "um_find m = um_find m'"
  shows "mset (um_items m) = mset (um_items m')"
proof -
  have "set (um_items m) = set (um_items m')"
    using assms by (auto simp: um.items_lkp)
  then show ?thesis
    using assms by (simp add: set_eq_iff_mset_eq_distinct um.distinct_items)
qed

end
