(* ===== verification/Bytes.thy ===== *)
theory Bytes
  imports Prelude "HOL-Library.Sublist"
begin

text \<open>
  Byte-level vocabulary: little-endian integers as \<open>std::ofstream::write\<close> and
  \<open>std::ifstream::read\<close> (or \<open>memcpy\<close>) move them on the supported targets, arrays of
  them, the FNV-1a hash every file format uses, and two interfaces: a fixed-width value
  codec (\<open>byte_codec\<close>) and an append-only record log (\<open>record_log\<close>).
\<close>

unbundle bit_operations_syntax

section \<open>Little-endian integers\<close>

fun nat_le :: "nat \<Rightarrow> nat \<Rightarrow> bytes" where
  "nat_le 0 x = []"
| "nat_le (Suc n) x = word_of_nat x # nat_le n (x div 256)"

fun le_nat :: "bytes \<Rightarrow> nat" where
  "le_nat [] = 0"
| "le_nat (b # bs) = unat b + 256 * le_nat bs"

lemma length_nat_le [simp]: "length (nat_le n x) = n"
  by (induction n arbitrary: x) auto

lemma le_nat_nat_le [codec_simps]: "le_nat (nat_le n x) = x mod 256 ^ n"
proof (induction n arbitrary: x)
  case 0
  then show ?case by simp
next
  case (Suc n)
  have "unat (word_of_nat x :: u8) = x mod 256" by (simp add: unat_of_nat)
  then show ?case using Suc by (simp add: mod_mult2_eq)
qed

lemma le_nat_bound: "le_nat bs < 256 ^ length bs"
proof (induction bs)
  case Nil
  then show ?case by simp
next
  case (Cons b bs)
  have "unat b < 256" using unsigned_less[of b] by simp
  with Cons show ?case by simp
qed

lemma nat_le_le_nat: "nat_le (length bs) (le_nat bs) = bs"
proof (induction bs)
  case Nil
  then show ?case by simp
next
  case (Cons b bs)
  have b: "unat b < 256" using unsigned_less[of b] by simp
  then have "(unat b + 256 * le_nat bs) div 256 = le_nat bs" by simp
  moreover have "(word_of_nat (unat b + 256 * le_nat bs) :: u8) = b"
  proof (rule word_unat_eq_iff [THEN iffD2])
    show "unat (word_of_nat (unat b + 256 * le_nat bs) :: u8) = unat b"
      by (simp only: unat_of_nat) (simp add: b)
  qed
  ultimately show ?case using Cons by simp
qed

definition enc_word :: "'a::len word \<Rightarrow> bytes" where
  "enc_word w = nat_le (LENGTH('a) div 8) (unat w)"

definition dec_word :: "bytes \<Rightarrow> 'a::len word" where
  "dec_word bs = word_of_nat (le_nat bs)"

text \<open>A read past the end of the stream fails, as \<open>std::ifstream::read\<close> does.\<close>

definition get_word :: "bytes \<Rightarrow> ('a::len word \<times> bytes) option" where
  "get_word bs =
     (let n = LENGTH('a) div 8
      in if length bs < n then None else Some (dec_word (take n bs), drop n bs))"

lemma length_enc_word [simp]: "length (enc_word (w :: 'a::len word)) = LENGTH('a) div 8"
  by (simp add: enc_word_def)

lemma dec_enc_word:
  fixes w :: "'a::len word"
  assumes "LENGTH('a) = 8 * (LENGTH('a) div 8)"
  shows "dec_word (enc_word w) = w"
proof -
  have "256 ^ (LENGTH('a) div 8) = (2::nat) ^ LENGTH('a)"
    by (subst (2) assms) (simp add: power_mult)
  then have "unat w mod 256 ^ (LENGTH('a) div 8) = unat w"
    using unsigned_less[of w] by simp
  then show ?thesis by (simp add: dec_word_def enc_word_def le_nat_nat_le)
qed

lemma get_enc_word:
  fixes w :: "'a::len word"
  assumes "LENGTH('a) = 8 * (LENGTH('a) div 8)"
  shows "get_word (enc_word w @ bs) = Some (w, bs)"
  using dec_enc_word[OF assms] by (simp add: get_word_def Let_def)

lemma get_word_length:
  "get_word bs = Some (w :: 'a::len word, rest) \<Longrightarrow> length bs = LENGTH('a) div 8 + length rest"
  by (auto simp: get_word_def Let_def split: if_splits)

lemma get_word_extend:
  "get_word bs = Some (w, rest) \<Longrightarrow> get_word (bs @ s) = Some (w, rest @ s)"
  by (auto simp: get_word_def Let_def split: if_splits)

lemma get_word_bytes_gen:
  assumes "get_word bs = Some (w :: 'a::len word, rest)" and "LENGTH('a) = 8 * (LENGTH('a) div 8)"
  shows "bs = enc_word w @ rest"
proof -
  let ?n = "LENGTH('a) div 8"
  have n: "?n \<le> length bs" "w = dec_word (take ?n bs)" "rest = drop ?n bs"
    using assms(1) by (auto simp: get_word_def Let_def split: if_splits)
  have "le_nat (take ?n bs) < 256 ^ ?n" using le_nat_bound[of "take ?n bs"] n(1) by simp
  moreover have "256 ^ ?n = (2::nat) ^ LENGTH('a)"
    by (subst (2) assms(2)) (simp add: power_mult)
  ultimately have "unat w = le_nat (take ?n bs)"
    by (simp add: n(2) dec_word_def unat_of_nat)
  then have "enc_word w = take ?n bs"
    using nat_le_le_nat[of "take ?n bs"] n(1) by (simp add: enc_word_def)
  then show ?thesis by (simp add: n(3))
qed

text \<open>A value read is the value whose bytes stand at the front of the stream.\<close>

lemma get_word_bytes:
  "get_word bs = Some (w8 :: u8, rest) \<Longrightarrow> bs = enc_word w8 @ rest"
  "get_word bs = Some (w16 :: u16, rest) \<Longrightarrow> bs = enc_word w16 @ rest"
  "get_word bs = Some (w32 :: u32, rest) \<Longrightarrow> bs = enc_word w32 @ rest"
  "get_word bs = Some (w64 :: u64, rest) \<Longrightarrow> bs = enc_word w64 @ rest"
  by (erule get_word_bytes_gen; simp)+

section \<open>The value codec interface\<close>

fun get_many :: "(bytes \<Rightarrow> ('a \<times> bytes) option) \<Rightarrow> nat \<Rightarrow> bytes \<Rightarrow> ('a list \<times> bytes) option" where
  "get_many g 0 bs = Some ([], bs)"
| "get_many g (Suc n) bs =
     (case g bs of
        None \<Rightarrow> None
      | Some (x, rest) \<Rightarrow>
          (case get_many g n rest of None \<Rightarrow> None | Some (xs, rest') \<Rightarrow> Some (x # xs, rest')))"

lemma get_many_length: "get_many g n bs = Some (xs, rest) \<Longrightarrow> length xs = n"
  by (induction n arbitrary: bs xs rest) (auto split: option.splits)

locale byte_codec =
  fixes put :: "'a \<Rightarrow> bytes"
    and get :: "bytes \<Rightarrow> ('a \<times> bytes) option"
    and width :: nat
  assumes width_pos: "0 < width"
    and length_put: "length (put x) = width"
    and get_put: "get (put x @ bs) = Some (x, bs)"
    and get_width: "get bs = Some (x, rest) \<Longrightarrow> length bs = width + length rest"
    and get_extend: "get bs = Some (x, rest) \<Longrightarrow> get (bs @ s) = Some (x, rest @ s)"
begin

lemma get_short: "length bs < width \<Longrightarrow> get bs = None"
  by (cases "get bs") (auto dest: get_width)

lemma length_puts: "length (concat (map put xs)) = width * length xs"
  by (induction xs) (auto simp: length_put)

lemma get_many_puts: "get_many get (length xs) (concat (map put xs) @ bs) = Some (xs, bs)"
  by (induction xs) (auto simp: get_put)

lemma get_many_width:
  "get_many get n bs = Some (xs, rest) \<Longrightarrow> length bs = width * n + length rest"
  by (induction n arbitrary: bs xs rest) (fastforce dest: get_width split: option.splits)+

lemma get_many_extend:
  "get_many get n bs = Some (xs, rest) \<Longrightarrow> get_many get n (bs @ s) = Some (xs, rest @ s)"
proof (induction n arbitrary: bs xs rest)
  case 0
  then show ?case by simp
next
  case (Suc n)
  then obtain x r ys where "get bs = Some (x, r)" "get_many get n r = Some (ys, rest)" "xs = x # ys"
    by (auto split: option.splits)
  then show ?case using Suc.IH[of r ys rest] by (simp add: get_extend)
qed

lemma get_many_short: "length bs < width * n \<Longrightarrow> get_many get n bs = None"
  by (cases "get_many get n bs") (auto dest: get_many_width)

lemma get_puts_inj: "put x @ bs = put y @ bs' \<Longrightarrow> x = y"
  by (metis get_put option.inject prod.inject)

end

interpretation u8c: byte_codec "enc_word :: u8 \<Rightarrow> bytes" get_word 1
  by unfold_locales (auto simp: get_enc_word dest: get_word_length get_word_extend)

interpretation u16c: byte_codec "enc_word :: u16 \<Rightarrow> bytes" get_word 2
  by unfold_locales (auto simp: get_enc_word dest: get_word_length get_word_extend)

interpretation u32c: byte_codec "enc_word :: u32 \<Rightarrow> bytes" get_word 4
  by unfold_locales (auto simp: get_enc_word dest: get_word_length get_word_extend)

interpretation u64c: byte_codec "enc_word :: u64 \<Rightarrow> bytes" get_word 8
  by unfold_locales (auto simp: get_enc_word dest: get_word_length get_word_extend)

lemmas get_puts [codec_simps, simp] =
  u8c.get_put u16c.get_put u32c.get_put u64c.get_put u32c.get_many_puts u8c.get_many_puts

lemmas get_extends =
  u8c.get_extend u16c.get_extend u32c.get_extend u64c.get_extend
  u32c.get_many_extend u8c.get_many_extend

lemmas get_widths =
  u8c.get_width u16c.get_width u32c.get_width u64c.get_width
  u32c.get_many_width u8c.get_many_width

text \<open>
  A reader that never looks past what it consumes: the property composes over the
  sequential reads that a record parser is made of.
\<close>

definition local_reader :: "(bytes \<Rightarrow> ('a \<times> bytes) option) \<Rightarrow> bool" where
  "local_reader g \<longleftrightarrow>
     (\<forall>bs x rest s. g bs = Some (x, rest) \<longrightarrow> g (bs @ s) = Some (x, rest @ s))"

named_theorems reader_intros "composition of local readers"

lemma local_reader_get [reader_intros]: "local_reader get_word" "local_reader (get_many get_word n)"
proof -
  show "local_reader get_word" by (simp add: local_reader_def get_word_extend)
  have "get_many get_word n bs = Some (xs, rest) \<Longrightarrow>
    get_many get_word n (bs @ s) = Some (xs :: 'b word list, rest @ s)" for bs xs rest s
  proof (induction n arbitrary: bs xs rest)
    case 0
    then show ?case by simp
  next
    case (Suc n)
    then obtain x r ys where "get_word bs = Some (x, r)" "get_many get_word n r = Some (ys, rest)"
      "xs = x # ys" by (auto split: option.splits)
    then show ?case using Suc.IH[of r ys rest] by (simp add: get_word_extend)
  qed
  then show "local_reader (get_many get_word n :: bytes \<Rightarrow> ('b word list \<times> bytes) option)"
    by (simp add: local_reader_def)
qed

lemma local_reader_bind [reader_intros]:
  "local_reader g \<Longrightarrow> (\<And>x. local_reader (f x)) \<Longrightarrow>
   local_reader (\<lambda>bs. Option.bind (g bs) (case_prod f))"
  by (auto simp: local_reader_def bind_eq_Some_conv)

lemma local_reader_if [reader_intros]:
  "local_reader f \<Longrightarrow> local_reader g \<Longrightarrow> local_reader (\<lambda>bs. if c then f bs else g bs)"
  by (cases c) simp_all

lemma local_reader_return [reader_intros]:
  "local_reader (\<lambda>bs. None)" "local_reader (\<lambda>bs. Some (x, bs))"
  by (simp_all add: local_reader_def)

lemma local_readerD:
  "local_reader g \<Longrightarrow> g bs = Some (x, rest) \<Longrightarrow> g (bs @ s) = Some (x, rest @ s)"
  by (auto simp: local_reader_def)

text \<open>An array of 32-bit values (\<open>float\<close> bit patterns or node identifiers) in memory order.\<close>

definition words_bytes :: "u32 list \<Rightarrow> bytes" where
  "words_bytes xs = concat (map enc_word xs)"

lemma length_words_bytes [simp]: "length (words_bytes xs) = 4 * length xs"
  by (simp add: words_bytes_def u32c.length_puts)

lemma get_many_words_bytes [codec_simps, simp]:
  "get_many get_word (length xs) (words_bytes xs @ bs) = Some (xs, bs)"
  by (simp add: words_bytes_def)

section \<open>FNV-1a\<close>

definition fnv1a :: "u32 \<Rightarrow> bytes \<Rightarrow> u32" where
  "fnv1a seed bs = foldl (\<lambda>hash b. (hash XOR ucast b) * 16777619) seed bs"

lemma fnv1a_append: "fnv1a s (xs @ ys) = fnv1a (fnv1a s xs) ys"
  by (simp add: fnv1a_def)

section \<open>The record log interface\<close>

text \<open>
  An append-only log: \<open>enc\<close> is what one append writes, \<open>dec\<close> is one round of the replay
  loop and \<open>replay\<close> is the loop. The laws are those a provider must keep: a whole record
  is read back, a cut record is rejected, and replay stops at the first rejection.
\<close>

locale record_log =
  fixes enc :: "'r \<Rightarrow> bytes"
    and dec :: "bytes \<Rightarrow> ('r \<times> bytes) option"
    and replay :: "bytes \<Rightarrow> 'r list"
    and good :: "'r \<Rightarrow> bool"
  assumes dec_enc: "good r \<Longrightarrow> dec (enc r @ bs) = Some (r, bs)"
    and dec_nil: "dec [] = None"
    and dec_extend: "dec bs = Some (r, rest) \<Longrightarrow> dec (bs @ s) = Some (r, rest @ s)"
    and replay_eq: "replay bs = (case dec bs of None \<Rightarrow> [] | Some (r, rest) \<Rightarrow> r # replay rest)"
begin

lemma dec_cut:
  assumes "good r" and "strict_prefix p (enc r)"
  shows "dec p = None"
proof (rule ccontr)
  assume "dec p \<noteq> None"
  then obtain r' rest where p: "dec p = Some (r', rest)" by auto
  from assms(2) obtain s where s: "enc r = p @ s" "s \<noteq> []"
    by (auto simp: strict_prefix_def prefix_def)
  have "dec (enc r @ []) = Some (r, [])" by (rule dec_enc) (rule assms(1))
  with dec_extend[OF p, of s] s show False by simp
qed

lemma replay_append:
  "\<forall>r\<in>set rs. good r \<Longrightarrow> replay (concat (map enc rs) @ bs) = rs @ replay bs"
proof (induction rs)
  case Nil
  then show ?case by simp
next
  case (Cons r rs)
  then show ?case by (subst replay_eq) (simp add: dec_enc)
qed

lemma replay_rejected: "dec bs = None \<Longrightarrow> replay bs = []"
  by (simp add: replay_eq)

lemma replay_torn:
  assumes "\<forall>r\<in>set rs. good r" and "dec bs = None"
  shows "replay (concat (map enc rs) @ bs) = rs"
  using assms by (simp add: replay_append replay_rejected)

lemma replay_all: "\<forall>r\<in>set rs. good r \<Longrightarrow> replay (concat (map enc rs)) = rs"
  using replay_torn [of rs "[]"] by (simp add: dec_nil)

text \<open>
  A crash keeps some prefix of the bytes written. Replaying it yields exactly the records
  that are whole in that prefix, in the order they were appended.
\<close>

theorem replay_prefix:
  assumes "\<forall>r\<in>set rs. good r" and "prefix p (concat (map enc rs))"
  shows "\<exists>n\<le>length rs. replay p = take n rs \<and> prefix (concat (map enc (take n rs))) p \<and>
    (n < length rs \<longrightarrow> length p < length (concat (map enc (take (Suc n) rs))))"
  using assms
proof (induction rs arbitrary: p)
  case Nil
  then show ?case by (simp add: dec_nil replay_rejected)
next
  case (Cons r rs)
  then have good: "good r" and pre: "prefix p (enc r @ concat (map enc rs))" by simp_all
  show ?case
  proof (cases "prefix (enc r) p")
    case True
    then obtain q where q: "p = enc r @ q" by (auto simp: prefix_def)
    with pre have "prefix q (concat (map enc rs))" by simp
    with Cons.IH Cons.prems obtain n where n: "n \<le> length rs" "replay q = take n rs"
      "prefix (concat (map enc (take n rs))) q"
      "n < length rs \<longrightarrow> length q < length (concat (map enc (take (Suc n) rs)))"
      by auto
    have "replay p = r # replay q" by (subst replay_eq) (simp add: q dec_enc good)
    with n q show ?thesis by (intro exI[of _ "Suc n"]) auto
  next
    case False
    with pre have "strict_prefix p (enc r)" by (auto simp: strict_prefix_def prefix_append)
    with good have "replay p = []" and "length p < length (enc r)"
      by (simp_all add: dec_cut replay_rejected prefix_length_less)
    then show ?thesis by (intro exI[of _ 0]) auto
  qed
qed

end

end
