(* ===== verification/Disk.thy ===== *)
theory Disk
  imports Bytes
begin

text \<open>
  The part of \<open>std::filesystem\<close>, \<open>std::ofstream\<close> and \<open>std::ifstream\<close> the storage code
  uses. A disk maps paths to contents and carries the outcomes of the fallible calls that
  follow: an empty list means that every call succeeds, so the error branches of the code
  are branches of the model and can be run. An output stream keeps the bytes it has
  buffered apart from those that reached the file; a crash loses any suffix of them.
\<close>

datatype io_outcome = Done | Failed nat

record disk =
  files :: "string \<Rightarrow> bytes option"
  outcomes :: "io_outcome list"

definition next_outcome :: "disk \<Rightarrow> io_outcome \<times> disk" where
  "next_outcome d = (case outcomes d of [] \<Rightarrow> (Done, d) | r # rs \<Rightarrow> (r, d\<lparr>outcomes := rs\<rparr>))"

text \<open>A call that only reports success: \<open>create_directories\<close>, opening a file.\<close>

definition io_call :: "disk \<Rightarrow> bool \<times> disk" where
  "io_call d = (let (r, d') = next_outcome d in (r = Done, d'))"

text \<open>
  Paths are strings under the POSIX rules: \<open>dir / name\<close>, \<open>path::extension\<close> and
  \<open>path::replace_extension\<close>. The extension of a file name starts at its last dot, unless
  that dot is the first character or the name is a dot entry.
\<close>

definition is_absolute :: "string \<Rightarrow> bool" where
  "is_absolute p \<longleftrightarrow> p \<noteq> [] \<and> hd p = CHR ''/''"

definition path_join :: "string \<Rightarrow> string \<Rightarrow> string" where
  "path_join dir name =
     (if is_absolute name then name
      else if dir = [] \<or> last dir = CHR ''/'' then dir @ name
      else dir @ ''/'' @ name)"

definition path_filename :: "string \<Rightarrow> string" where
  "path_filename p = rev (takeWhile (\<lambda>c. c \<noteq> CHR ''/'') (rev p))"

definition path_extension :: "string \<Rightarrow> string" where
  "path_extension p =
     (let name = path_filename p;
          tail = rev (takeWhile (\<lambda>c. c \<noteq> CHR ''.'') (rev name));
          before = length name - length tail
      in if name = ''.'' \<or> name = ''..'' \<or> before \<le> 1 then [] else CHR ''.'' # tail)"

definition replace_extension :: "string \<Rightarrow> string \<Rightarrow> string" where
  "replace_extension p extension =
     (let stem = take (length p - length (path_extension p)) p
      in if extension = [] \<or> hd extension = CHR ''.'' then stem @ extension
         else stem @ ''.'' @ extension)"

definition file_exists :: "string \<Rightarrow> disk \<Rightarrow> bool" where
  "file_exists p d \<longleftrightarrow> files d p \<noteq> None"

definition put_file :: "string \<Rightarrow> bytes \<Rightarrow> disk \<Rightarrow> disk" where
  "put_file p bs d = d\<lparr>files := (files d)(p := Some bs)\<rparr>"

definition drop_file :: "string \<Rightarrow> disk \<Rightarrow> disk" where
  "drop_file p d = d\<lparr>files := (files d)(p := None)\<rparr>"

text \<open>Opening for reading and reading the whole content.\<close>

definition read_file :: "string \<Rightarrow> disk \<Rightarrow> bytes option \<times> disk" where
  "read_file p d = (let (ok, d') = io_call d in (if ok then files d' p else None, d'))"

text \<open>\<open>remove\<close> with an error code the callers ignore, and the atomic \<open>rename\<close>.\<close>

definition fs_remove :: "string \<Rightarrow> disk \<Rightarrow> disk" where
  "fs_remove p d = (let (ok, d') = io_call d in if ok then drop_file p d' else d')"

definition fs_rename :: "string \<Rightarrow> string \<Rightarrow> disk \<Rightarrow> bool \<times> disk" where
  "fs_rename a b d =
     (let (ok, d') = io_call d
      in if \<not> ok then (False, d')
         else case files d' a of
           None \<Rightarrow> (False, d')
         | Some bs \<Rightarrow> (True, put_file b bs (drop_file a d')))"

section \<open>Output streams\<close>

record ofstream =
  os_path :: string
  os_pending :: bytes
  os_good :: bool

definition file_bytes :: "string \<Rightarrow> disk \<Rightarrow> bytes" where
  "file_bytes p d = (case files d p of None \<Rightarrow> [] | Some bs \<Rightarrow> bs)"

definition os_open :: "bool \<Rightarrow> string \<Rightarrow> disk \<Rightarrow> ofstream \<times> disk" where
  "os_open trunc p d =
     (let (ok, d') = io_call d
      in if ok then (\<lparr>os_path = p, os_pending = [], os_good = True\<rparr>,
                     put_file p (if trunc then [] else file_bytes p d') d')
         else (\<lparr>os_path = p, os_pending = [], os_good = False\<rparr>, d'))"

definition os_write :: "bytes \<Rightarrow> ofstream \<Rightarrow> disk \<Rightarrow> ofstream \<times> disk" where
  "os_write bs os d =
     (if \<not> os_good os then (os, d)
      else case next_outcome d of
        (Done, d') \<Rightarrow> (os\<lparr>os_pending := os_pending os @ bs\<rparr>, d')
      | (Failed n, d') \<Rightarrow>
          (os\<lparr>os_pending := os_pending os @ take n bs, os_good := False\<rparr>, d'))"

fun os_writes :: "bytes list \<Rightarrow> ofstream \<Rightarrow> disk \<Rightarrow> ofstream \<times> disk" where
  "os_writes [] os d = (os, d)"
| "os_writes (bs # bss) os d = (let (os', d') = os_write bs os d in os_writes bss os' d')"

definition os_flush :: "ofstream \<Rightarrow> disk \<Rightarrow> ofstream \<times> disk" where
  "os_flush os d =
     (if \<not> os_good os then (os, d)
      else case next_outcome d of
        (Done, d') \<Rightarrow>
          (os\<lparr>os_pending := []\<rparr>, put_file (os_path os) (file_bytes (os_path os) d' @ os_pending os) d')
      | (Failed n, d') \<Rightarrow>
          (os\<lparr>os_pending := drop n (os_pending os), os_good := False\<rparr>,
           put_file (os_path os) (file_bytes (os_path os) d' @ take n (os_pending os)) d'))"

text \<open>The position of the next byte to write, and the destructor, whose errors nobody sees.\<close>

definition os_tellp :: "ofstream \<Rightarrow> disk \<Rightarrow> u64" where
  "os_tellp os d = word_of_nat (length (file_bytes (os_path os) d) + length (os_pending os))"

definition os_destroy :: "ofstream \<Rightarrow> disk \<Rightarrow> disk" where
  "os_destroy os d = snd (os_flush os d)"

text \<open>What a crash leaves of an open stream: some prefix of the buffered bytes is on disk.\<close>

definition crash_stream :: "nat \<Rightarrow> ofstream \<Rightarrow> disk \<Rightarrow> disk" where
  "crash_stream n os d =
     put_file (os_path os) (file_bytes (os_path os) d @ take n (os_pending os)) d"

section \<open>Lemmas\<close>

lemma put_file_simps [simp]:
  "files (put_file p bs d) = (files d)(p \<mapsto> bs)"
  "outcomes (put_file p bs d) = outcomes d"
  "files (drop_file p d) = (files d)(p := None)"
  "outcomes (drop_file p d) = outcomes d"
  by (simp_all add: put_file_def drop_file_def)

lemma file_bytes_put [simp]:
  "file_bytes p (put_file q bs d) = (if p = q then bs else file_bytes p d)"
  by (simp add: file_bytes_def)

lemma next_outcome_files [frame_simps]: "next_outcome d = (r, d') \<Longrightarrow> files d' = files d"
  by (auto simp: next_outcome_def split: list.splits)

lemma next_outcome_reliable [simp]: "outcomes d = [] \<Longrightarrow> next_outcome d = (Done, d)"
  by (simp add: next_outcome_def)

lemma io_call_reliable [simp]: "outcomes d = [] \<Longrightarrow> io_call d = (True, d)"
  by (simp add: io_call_def)

lemma io_call_files [frame_simps]: "io_call d = (ok, d') \<Longrightarrow> files d' = files d"
  by (auto simp: io_call_def dest: next_outcome_files split: prod.splits)

lemma read_file_reliable [simp]: "outcomes d = [] \<Longrightarrow> read_file p d = (files d p, d)"
  by (simp add: read_file_def)

lemma fs_remove_reliable [simp]: "outcomes d = [] \<Longrightarrow> fs_remove p d = drop_file p d"
  by (simp add: fs_remove_def)

lemma os_open_reliable [simp]:
  "outcomes d = [] \<Longrightarrow> os_open trunc p d =
    (\<lparr>os_path = p, os_pending = [], os_good = True\<rparr>, put_file p (if trunc then [] else file_bytes p d) d)"
  by (simp add: os_open_def)

lemma os_write_reliable [simp]:
  "outcomes d = [] \<Longrightarrow> os_good os \<Longrightarrow> os_write bs os d = (os\<lparr>os_pending := os_pending os @ bs\<rparr>, d)"
  by (simp add: os_write_def)

lemma os_writes_reliable [simp]:
  "outcomes d = [] \<Longrightarrow> os_good os \<Longrightarrow>
   os_writes bss os d = (os\<lparr>os_pending := os_pending os @ concat bss\<rparr>, d)"
  by (induction bss arbitrary: os) auto

lemma os_flush_reliable [simp]:
  "outcomes d = [] \<Longrightarrow> os_good os \<Longrightarrow> os_flush os d =
    (os\<lparr>os_pending := []\<rparr>, put_file (os_path os) (file_bytes (os_path os) d @ os_pending os) d)"
  by (simp add: os_flush_def)

lemma os_writes_bad: "\<not> os_good os \<Longrightarrow> os_writes bss os d = (os, d)"
  by (induction bss) (auto simp: os_write_def)

text \<open>
  Whatever the outcomes, a run of writes appends a prefix of the bytes to the buffer, and
  all of them when the stream is still good.
\<close>

lemma os_writes_prefix:
  assumes "os_writes bss os d = (os', d')" and "os_good os"
  shows "\<exists>p. prefix p (concat bss) \<and> os_pending os' = os_pending os @ p \<and>
      (os_good os' \<longrightarrow> p = concat bss) \<and> os_path os' = os_path os \<and> files d' = files d"
  using assms
proof (induction bss arbitrary: os d)
  case Nil
  then show ?case by simp
next
  case (Cons bs bss)
  obtain r d1 where r: "next_outcome d = (r, d1)" by (cases "next_outcome d")
  then have f: "files d1 = files d" by (rule next_outcome_files)
  show ?case
  proof (cases r)
    case Done
    let ?os = "os\<lparr>os_pending := os_pending os @ bs\<rparr>"
    have "os_writes bss ?os d1 = (os', d')" and "os_good ?os"
      using Cons.prems Done r by (simp_all add: os_write_def)
    from Cons.IH[OF this] obtain p where "prefix p (concat bss)" "os_pending os' = os_pending ?os @ p"
      "os_good os' \<longrightarrow> p = concat bss" "os_path os' = os_path ?os" "files d' = files d1" by blast
    then show ?thesis using f by (intro exI[of _ "bs @ p"]) auto
  next
    case (Failed n)
    then have "os' = os\<lparr>os_pending := os_pending os @ take n bs, os_good := False\<rparr> \<and> d' = d1"
      using Cons.prems r by (auto simp: os_write_def os_writes_bad)
    then show ?thesis using f by (intro exI[of _ "take n bs"]) (auto simp: take_is_prefix intro: prefix_prefix)
  qed
qed

definition empty_disk :: disk where
  "empty_disk = \<lparr>files = \<lambda>_. None, outcomes = []\<rparr>"

end
