(* ===== verification/JsonText.thy ===== *)
theory JsonText
  imports Disk
begin

text \<open>
  The text side of \<open>manifest.cpp\<close> and \<open>sstable.cpp\<close>: printing integers with
  \<open>operator<<\<close>, zero-padded table names, \<open>std::string::find\<close>, and the small scanner
  \<open>parse_json_integer\<close> both files share. Texts are strings; files hold their bytes.
\<close>

section \<open>Text as bytes\<close>

definition text_bytes :: "string \<Rightarrow> bytes" where
  "text_bytes s = map (\<lambda>c. word_of_nat (of_char c)) s"

definition bytes_text :: "bytes \<Rightarrow> string" where
  "bytes_text bs = map (\<lambda>b. char_of (unat b)) bs"

lemma bytes_text_bytes [simp]: "bytes_text (text_bytes s) = s"
proof -
  have "unat (word_of_nat (of_char c) :: u8) = of_char c" for c
    using nat_of_char_less_256[of c] by (simp add: unat_of_nat)
  then show ?thesis by (simp add: text_bytes_def bytes_text_def comp_def)
qed

section \<open>Decimal numbers\<close>

definition digit_char :: "nat \<Rightarrow> char" where
  "digit_char n = char_of (48 + n)"

fun show_nat :: "nat \<Rightarrow> string" where
  "show_nat n = (if n < 10 then [digit_char n] else show_nat (n div 10) @ [digit_char (n mod 10)])"

declare show_nat.simps [simp del]

definition show_int :: "int \<Rightarrow> string" where
  "show_int i = (if i < 0 then CHR ''-'' # show_nat (nat (- i)) else show_nat (nat i))"

definition is_digit :: "char \<Rightarrow> bool" where
  "is_digit c \<longleftrightarrow> 48 \<le> (of_char c :: nat) \<and> (of_char c :: nat) \<le> 57"

definition is_space :: "char \<Rightarrow> bool" where
  "is_space c \<longleftrightarrow> (of_char c :: nat) = 32 \<or> (9 \<le> (of_char c :: nat) \<and> (of_char c :: nat) \<le> 13)"

definition digits_value :: "string \<Rightarrow> nat" where
  "digits_value s = foldl (\<lambda>v c. 10 * v + (of_char c - 48)) 0 s"

lemma of_digit_char: "n < 10 \<Longrightarrow> (of_char (digit_char n) :: nat) = 48 + n"
  by (simp add: digit_char_def)

lemma is_digit_char: "n < 10 \<Longrightarrow> is_digit (digit_char n)"
  by (simp add: is_digit_def of_digit_char)

lemma show_nat_digits: "\<forall>c\<in>set (show_nat n). is_digit c"
  by (induction n rule: show_nat.induct) (subst show_nat.simps, auto simp: is_digit_char)

lemma show_nat_not_Nil [simp]: "show_nat n \<noteq> []"
  by (subst show_nat.simps) simp

lemma digits_value_show [simp]: "digits_value (show_nat n) = n"
proof (induction n rule: show_nat.induct)
  case (1 n)
  show ?case
  proof (cases "n < 10")
    case True
    then show ?thesis by (subst show_nat.simps) (simp add: digits_value_def of_digit_char)
  next
    case False
    then have "digits_value (show_nat n) = 10 * (n div 10) + n mod 10"
      using 1 by (subst show_nat.simps) (simp add: digits_value_def of_digit_char)
    then show ?thesis by simp
  qed
qed

text \<open>\<open>std::setw(width) << std::setfill('0')\<close>.\<close>

definition pad_zero :: "nat \<Rightarrow> string \<Rightarrow> string" where
  "pad_zero width s = replicate (width - length s) (CHR ''0'') @ s"

definition sstable_name :: "u64 \<Rightarrow> string" where
  "sstable_name sstable_id = ''sst_'' @ pad_zero 6 (show_nat (unat sstable_id))"

lemma digits_value_pad: "digits_value (replicate k (CHR ''0'') @ s) = digits_value s"
  by (induction k) (simp_all add: digits_value_def)

lemma sstable_name_inj: "sstable_name a = sstable_name b \<longleftrightarrow> a = b"
proof
  assume "sstable_name a = sstable_name b"
  then have "digits_value (pad_zero 6 (show_nat (unat a))) = digits_value (pad_zero 6 (show_nat (unat b)))"
    by (simp add: sstable_name_def)
  then show "a = b" by (simp add: pad_zero_def digits_value_pad word_unat_eq_iff)
qed simp

section \<open>Scanning\<close>

fun find_sub :: "string \<Rightarrow> string \<Rightarrow> string option" where
  "find_sub pat [] = (if pat = [] then Some [] else None)"
| "find_sub pat (c # s) =
     (if take (length pat) (c # s) = pat then Some (c # s) else find_sub pat s)"

definition quoted :: "string \<Rightarrow> string" where
  "quoted s = CHR 0x22 # s @ [CHR 0x22]"

text \<open>An optional minus sign.\<close>

definition split_minus :: "string \<Rightarrow> string \<times> string" where
  "split_minus s = (if s \<noteq> [] \<and> hd s = CHR ''-'' then (''-'', tl s) else ([], s))"

text \<open>
  \<open>std::from_chars\<close> for \<open>std::int64_t\<close>, on a text that is an optional minus sign followed
  by digits: no digits and values out of range are errors.
\<close>

definition signed_value :: "string \<Rightarrow> int" where
  "signed_value s =
     (let (sign, ds) = split_minus s
      in if sign = [] then int (digits_value ds) else - int (digits_value ds))"

definition from_chars_int64 :: "string \<Rightarrow> int option" where
  "from_chars_int64 s =
     (let v = signed_value s
      in if snd (split_minus s) = [] \<or> v < - (2 ^ 63) \<or> 2 ^ 63 \<le> v then None else Some v)"

definition parse_json_integer :: "string \<Rightarrow> string \<Rightarrow> int option" where
  "parse_json_integer text key =
     (case find_sub (quoted key) text of
        None \<Rightarrow> None
      | Some from_key \<Rightarrow>
          (case dropWhile (\<lambda>c. c \<noteq> CHR '':'') from_key of
             [] \<Rightarrow> None
           | _ # value_text \<Rightarrow>
               (let (sign, rest) = split_minus (dropWhile is_space value_text);
                    value = sign @ takeWhile is_digit rest
                in if value = [] then None else from_chars_int64 value)))"

section \<open>Reading back what was printed\<close>

lemma find_sub_skip: "CHR 0x22 \<notin> set a \<Longrightarrow> find_sub (quoted k) (a @ s) = find_sub (quoted k) s"
  by (induction a) (auto simp: quoted_def)

lemma find_sub_hit: "find_sub (quoted k) (quoted k @ s) = Some (quoted k @ s)"
  by (simp add: quoted_def)

text \<open>A quoted word other than the key, followed by a character the key does not start with.\<close>

lemma find_sub_other:
  assumes "CHR 0x22 \<notin> set x" and "CHR 0x22 \<notin> set k" and "x \<noteq> k" and "k \<noteq> []" and "hd k \<noteq> c"
  shows "find_sub (quoted k) (quoted x @ c # s) = find_sub (quoted k) (c # s)"
proof -
  have miss: "take (length (quoted k)) (quoted x @ c # s) \<noteq> quoted k"
  proof
    assume "take (length (quoted k)) (quoted x @ c # s) = quoted k"
    then obtain t where "quoted x @ c # s = quoted k @ t" by (metis append_take_drop_id)
    then have "x @ CHR 0x22 # c # s = k @ CHR 0x22 # t" by (simp add: quoted_def)
    then have "takeWhile (\<lambda>c. c \<noteq> CHR 0x22) (x @ CHR 0x22 # c # s) =
      takeWhile (\<lambda>c. c \<noteq> CHR 0x22) (k @ CHR 0x22 # t)" by (rule arg_cong)
    then have "x = k" using assms(1,2) by (subst (asm) (1 2) takeWhile_append2) auto
    then show False using assms(3) by simp
  qed
  obtain k0 k' where k: "k = k0 # k'" "k0 \<noteq> c" using assms(4,5) by (cases k) auto
  have "find_sub (quoted k) (quoted x @ c # s) = find_sub (quoted k) (x @ CHR 0x22 # c # s)"
    using miss by (simp add: quoted_def)
  also have "\<dots> = find_sub (quoted k) (CHR 0x22 # c # s)" by (rule find_sub_skip) (rule assms(1))
  also have "\<dots> = find_sub (quoted k) (c # s)" using k by (simp add: quoted_def)
  finally show ?thesis .
qed

lemma takeWhile_show: "\<not> is_digit c \<Longrightarrow> takeWhile is_digit (show_nat n @ c # s) = show_nat n"
  using show_nat_digits[of n] by (simp add: takeWhile_append2)

lemma dropWhile_show: "\<not> is_digit c \<Longrightarrow> dropWhile is_digit (show_nat n @ c # s) = c # s"
  using show_nat_digits[of n] by (simp add: dropWhile_append2)

lemma is_digit_facts:
  assumes "is_digit c"
  shows "\<not> is_space c" and "c \<noteq> CHR ''-''" and "c \<noteq> CHR 0x22" and "c \<noteq> CHR '':''"
  using assms by (auto simp: is_digit_def is_space_def)

lemma show_nat_Cons: obtains c s where "show_nat n = c # s" and "is_digit c"
  using show_nat_digits[of n] by (cases "show_nat n") auto

lemma split_minus_digit [simp]: "is_digit c \<Longrightarrow> split_minus (c # s) = ([], c # s)"
  using is_digit_facts(2)[of c] by (simp add: split_minus_def)

lemma split_minus_show [simp]: "split_minus (show_nat n @ s) = ([], show_nat n @ s)"
  using show_nat_Cons[of n] by (metis append_Cons split_minus_digit)

lemma signed_value_show [simp]: "signed_value (show_nat n) = int n"
  using split_minus_show[of n "[]"] by (simp add: signed_value_def)

lemma signed_value_show_int [simp]: "signed_value (show_int i) = i"
  by (simp add: show_int_def) (simp add: signed_value_def split_minus_def)

lemma from_chars_show:
  "from_chars_int64 (show_nat n) = (if n < 2 ^ 63 then Some (int n) else None)"
  using split_minus_show[of n "[]"] by (simp add: from_chars_int64_def)

lemma from_chars_show_int:
  "from_chars_int64 (show_int i) = (if - (2 ^ 63) \<le> i \<and> i < 2 ^ 63 then Some i else None)"
  using split_minus_show[of "nat i" "[]"] signed_value_show_int[of i]
  by (auto simp: from_chars_int64_def show_int_def split_minus_def)

section \<open>Lines of a JSON object\<close>

definition nl :: string where
  "nl = [CHR 0x0A]"

text \<open>One statement \<open>output << "  \"key\": " << value << end << "\n"\<close>.\<close>

definition json_line :: "nat \<Rightarrow> string \<Rightarrow> string \<Rightarrow> string \<Rightarrow> string" where
  "json_line indent key value end_text =
     replicate indent (CHR '' '') @ quoted key @ '': '' @ value @ end_text @ nl"

text \<open>Texts a quoted key cannot start in.\<close>

definition plain :: "string \<Rightarrow> bool" where
  "plain s \<longleftrightarrow> CHR 0x22 \<notin> set s"

definition json_key :: "string \<Rightarrow> bool" where
  "json_key k \<longleftrightarrow> k \<noteq> [] \<and> (\<forall>c\<in>set k. c \<noteq> CHR 0x22 \<and> c \<noteq> CHR '':'' \<and> c \<noteq> CHR '','' \<and> c \<noteq> CHR 0x0A)"

lemma json_key_hd: "json_key k \<Longrightarrow> hd k \<noteq> CHR '':'' \<and> hd k \<noteq> CHR '','' \<and> hd k \<noteq> CHR 0x0A"
  by (cases k) (auto simp: json_key_def)

lemma json_key_plain: "json_key k \<Longrightarrow> plain k"
  by (auto simp: json_key_def plain_def)

lemma plain_show [simp]: "plain (show_nat n)" "plain (show_int i)"
  using show_nat_digits is_digit_facts(3) by (fastforce simp: plain_def show_int_def)+

lemma plain_simps [simp]:
  "plain []" "plain nl" "plain (c # s) \<longleftrightarrow> c \<noteq> CHR 0x22 \<and> plain s"
  "plain (s @ t) \<longleftrightarrow> plain s \<and> plain t" "plain (replicate n c) \<longleftrightarrow> n = 0 \<or> c \<noteq> CHR 0x22"
  by (auto simp: plain_def nl_def)

lemma find_sub_plain: "plain a \<Longrightarrow> find_sub (quoted k) (a @ s) = find_sub (quoted k) s"
  by (simp add: find_sub_skip plain_def)

lemma find_sub_line_hit:
  "find_sub (quoted k) (json_line i k v e @ s) = Some (quoted k @ '': '' @ v @ e @ nl @ s)"
  using find_sub_hit[of k "'': '' @ v @ e @ nl @ s"] find_sub_plain[of "replicate i (CHR '' '')" k]
  by (simp add: json_line_def)

lemma find_sub_line_key:
  assumes "json_key k" and "plain x" and "x \<noteq> k"
  shows "find_sub (quoted k) (json_line i x v e @ s) = find_sub (quoted k) (v @ e @ nl @ s)"
proof -
  have "find_sub (quoted k) (json_line i x v e @ s) =
    find_sub (quoted k) (quoted x @ CHR '':'' # CHR '' '' # v @ e @ nl @ s)"
    using find_sub_plain[of "replicate i (CHR '' '')" k] by (simp add: json_line_def)
  also have "\<dots> = find_sub (quoted k) ('': '' @ v @ e @ nl @ s)"
    using assms json_key_hd[OF assms(1)] json_key_plain[OF assms(1)]
    by (subst find_sub_other) (auto simp: plain_def json_key_def)
  also have "\<dots> = find_sub (quoted k) (v @ e @ nl @ s)" by (rule find_sub_plain) simp
  finally show ?thesis .
qed

lemma find_sub_line_other:
  assumes "json_key k" and "plain x" and "x \<noteq> k" and "plain v" and "plain e"
  shows "find_sub (quoted k) (json_line i x v e @ s) = find_sub (quoted k) s"
  using find_sub_line_key[OF assms(1-3)] find_sub_plain[of "v @ e @ nl" k s] assms(4,5) by simp

lemma find_sub_line_text:
  assumes "json_key k" and "plain x" and "x \<noteq> k" and "plain v" and "v \<noteq> k" and "e \<in> {[], '',''}"
  shows "find_sub (quoted k) (json_line i x (quoted v) e @ s) = find_sub (quoted k) s"
proof -
  obtain c r where c: "e @ nl @ s = c # r @ s" "c = CHR '','' \<or> c = CHR 0x0A" "plain (c # r)"
    using assms(6) by (auto simp: nl_def)
  have "find_sub (quoted k) (json_line i x (quoted v) e @ s) = find_sub (quoted k) (quoted v @ c # r @ s)"
    using find_sub_line_key[OF assms(1-3), of i "quoted v" e s] by (simp only: c(1))
  also have "\<dots> = find_sub (quoted k) ((c # r) @ s)"
  proof -
    have "k \<noteq> []" using assms(1) by (simp add: json_key_def)
    moreover have "hd k \<noteq> c" using c(2) json_key_hd[OF assms(1)] by blast
    ultimately show ?thesis
      using find_sub_other[of v k c "r @ s"] assms(4,5) json_key_plain[OF assms(1)]
      by (simp only: plain_def append_Cons append_Nil) blast
  qed
  also have "\<dots> = find_sub (quoted k) s" by (rule find_sub_plain) (rule c(3))
  finally show ?thesis .
qed

lemmas find_sub_lines = find_sub_line_hit find_sub_line_other find_sub_line_text find_sub_plain

text \<open>What follows a value in the files: a comma or a line end, never a digit.\<close>

lemma minus_not_space: "\<not> is_space (CHR ''-'')"
  by (simp add: is_space_def)

lemma parse_json_line:
  assumes "find_sub (quoted k) text = Some (quoted k @ '': '' @ v @ e @ nl @ s)"
    and "json_key k" and "e \<in> {[], '',''}" and "v \<in> range show_nat \<union> range show_int"
  shows "parse_json_integer text k = from_chars_int64 v"
proof -
  obtain c r where c: "e @ nl @ s = c # r" "\<not> is_digit c"
    using assms(3) by (auto simp: nl_def is_digit_def)
  have "\<forall>c\<in>set (quoted k). c \<noteq> CHR '':''" using assms(2) by (auto simp: quoted_def json_key_def)
  then have key: "dropWhile (\<lambda>c. c \<noteq> CHR '':'') (quoted k @ CHR '':'' # CHR '' '' # v @ c # r) =
    CHR '':'' # CHR '' '' # v @ c # r"
    by (simp add: dropWhile_append2)
  obtain n where "v = show_nat n \<or> v = CHR ''-'' # show_nat n"
    using assms(4) by (auto simp: show_int_def)
  then obtain sign where v: "v = sign @ show_nat n" "split_minus (v @ c # r) = (sign, show_nat n @ c # r)"
  proof
    assume "v = show_nat n"
    then show thesis using that[of "[]"] by simp
  next
    assume "v = CHR ''-'' # show_nat n"
    then show thesis using that[of "''-''"] by (simp add: split_minus_def)
  qed
  have "dropWhile is_space (CHR '' '' # v @ c # r) = v @ c # r"
  proof -
    obtain d ds where d: "v = d # ds" "\<not> is_space d"
      using \<open>v = show_nat n \<or> v = CHR ''-'' # show_nat n\<close> show_nat_Cons[of n] is_digit_facts(1)
      minus_not_space by metis
    have "is_space (CHR '' '')" by (simp add: is_space_def)
    with d show ?thesis by simp
  qed
  then have "split_minus (dropWhile is_space (CHR '' '' # v @ c # r)) = (sign, show_nat n @ c # r)"
    using v(2) by (simp only:)
  moreover have "find_sub (quoted k) text = Some (quoted k @ CHR '':'' # CHR '' '' # v @ c # r)"
    using assms(1) by (simp only: c(1)) simp
  ultimately show ?thesis
    using v(1) key takeWhile_show[OF c(2), of n r]
    by (simp add: parse_json_integer_def del: dropWhile.simps)
qed

text \<open>The value of a key whose line the search reaches first.\<close>

lemma parse_json_number:
  assumes "\<exists>s. find_sub (quoted k) text = Some (quoted k @ '': '' @ v @ e @ nl @ s)"
    and "json_key k" and "e = [] \<or> e = '',''" and "v \<in> range show_nat \<union> range show_int"
  shows "parse_json_integer text k = from_chars_int64 v"
  using assms parse_json_line by blast

declare find_sub.simps [simp del]

end
