(* ===== verification/Manifest.thy ===== *)
theory Manifest
  imports JsonText
begin

text \<open>
  \<open>src/dynamic/manifest.cpp\<close>: the catalogue of the dynamic layer. \<open>save\<close> prints it to a
  temporary file and renames that over the old one; \<open>load\<close> scans the text for integer keys
  and, with a regular expression, for the table entries. The pattern has no two ways to
  match one text (a blank run, a digit run and a quoted text each end where a character of
  another class starts), so it is modelled as a left-to-right matcher.
\<close>

record manifest_entry =
  me_id :: u64
  me_level :: int
  me_base_path :: string

record manifest_data =
  md_version :: u32
  md_next_sequence_id :: u64
  md_next_sstable_id :: u64
  md_sstables :: "manifest_entry list"
  md_wal_checkpoint :: u64

definition default_manifest :: manifest_data where
  "default_manifest = \<lparr>md_version = 1, md_next_sequence_id = 1, md_next_sstable_id = 1,
     md_sstables = [], md_wal_checkpoint = 0\<rparr>"

definition kManifestVersion :: u32 where "kManifestVersion = 1"

section \<open>Saving\<close>

definition escape_json_string :: "string \<Rightarrow> string" where
  "escape_json_string value =
     concat (map (\<lambda>ch. if ch = CHR 0x5C \<or> ch = CHR 0x22 then [CHR 0x5C, ch] else [ch]) value)"

fun entries_text :: "manifest_entry list \<Rightarrow> string" where
  "entries_text [] = []"
| "entries_text (entry # es) =
     ''    {'' @ nl @
     json_line 6 ''id'' (show_nat (unat (me_id entry))) '','' @
     json_line 6 ''level'' (show_int (me_level entry)) '','' @
     json_line 6 ''base_path'' (quoted (escape_json_string (me_base_path entry))) [] @
     ''    }'' @ (if es = [] then nl else '','' @ nl) @ entries_text es"

definition manifest_text :: "manifest_data \<Rightarrow> string" where
  "manifest_text data =
     ''{'' @ nl @
     json_line 2 ''version'' (show_nat (unat kManifestVersion)) '','' @
     json_line 2 ''next_sequence_id'' (show_nat (unat (md_next_sequence_id data))) '','' @
     json_line 2 ''next_sstable_id'' (show_nat (unat (md_next_sstable_id data))) '','' @
     json_line 2 ''sstables'' ''['' [] @
     entries_text (md_sstables data) @
     ''  ],'' @ nl @
     json_line 2 ''wal_checkpoint'' (show_nat (unat (md_wal_checkpoint data))) [] @
     ''}'' @ nl"

text \<open>
  The stream is closed, and so flushed once more, before the rename; on Windows, where the
  first rename may fail on an existing target, the second attempt removes the target first.
\<close>

definition manifest_save :: "string \<Rightarrow> manifest_data \<Rightarrow> disk \<Rightarrow> bool \<times> disk" where
  "manifest_save path data d =
     (let (created, d) = io_call d
      in if \<not> created then (False, d)
      else (let tmp_path = path @ ''.tmp'';
                (output, d) = os_open True tmp_path d
      in if \<not> os_good output then (False, d)
      else (let (output, d) = os_write (text_bytes (manifest_text data)) output d;
                (output, d) = os_flush output d
      in if \<not> os_good output then (False, d)
      else (let (renamed, d) = fs_rename tmp_path path d
      in if renamed then (True, d)
      else (let d = fs_remove path d in fs_rename tmp_path path d)))))"

section \<open>Loading\<close>

definition expect :: "string \<Rightarrow> string \<Rightarrow> string option" where
  "expect p s = (if take (length p) s = p then Some (drop (length p) s) else None)"

definition skip_spaces :: "string \<Rightarrow> string" where
  "skip_spaces s = dropWhile is_space s"

definition match_digits :: "string \<Rightarrow> (string \<times> string) option" where
  "match_digits s =
     (let ds = takeWhile is_digit s in if ds = [] then None else Some (ds, dropWhile is_digit s))"

definition match_integer :: "string \<Rightarrow> (string \<times> string) option" where
  "match_integer s =
     (case expect ''-'' s of
        Some r \<Rightarrow> map_option (\<lambda>(ds, rest). (CHR ''-'' # ds, rest)) (match_digits r)
      | None \<Rightarrow> match_digits s)"

text \<open>\<open>"key"\<close>, blanks, a colon and blanks.\<close>

definition match_key :: "string \<Rightarrow> string \<Rightarrow> string option" where
  "match_key key s =
     Option.bind (expect (quoted key) s) (\<lambda>s.
     map_option skip_spaces (expect '':'' (skip_spaces s)))"

definition match_entry :: "string \<Rightarrow> ((string \<times> string \<times> string) \<times> string) option" where
  "match_entry s =
     Option.bind (expect ''{'' s) (\<lambda>s.
     Option.bind (match_key ''id'' (skip_spaces s)) (\<lambda>s.
     Option.bind (match_digits s) (\<lambda>(table_id, s).
     Option.bind (expect '','' (skip_spaces s)) (\<lambda>s.
     Option.bind (match_key ''level'' (skip_spaces s)) (\<lambda>s.
     Option.bind (match_integer s) (\<lambda>(level, s).
     Option.bind (expect '','' (skip_spaces s)) (\<lambda>s.
     Option.bind (match_key ''base_path'' (skip_spaces s)) (\<lambda>s.
     Option.bind (expect [CHR 0x22] s) (\<lambda>s.
     let base_path = takeWhile (\<lambda>c. c \<noteq> CHR 0x22) s in
     Option.bind (expect [CHR 0x22] (dropWhile (\<lambda>c. c \<noteq> CHR 0x22) s)) (\<lambda>s.
     Option.bind (expect ''}'' (skip_spaces s)) (\<lambda>s.
       Some ((table_id, level, base_path), s))))))))))))"

lemma expect_Some: "expect p s = Some r \<longleftrightarrow> s = p @ r"
  by (auto simp: expect_def) (metis append_take_drop_id)

lemma skip_spaces_shrinks: "length (skip_spaces s) \<le> length s"
  by (simp add: skip_spaces_def length_dropWhile_le)

lemma match_digits_shrinks: "match_digits s = Some (ds, r) \<Longrightarrow> length r \<le> length s"
  by (auto simp: match_digits_def Let_def length_dropWhile_le split: if_splits)

lemma match_integer_shrinks: "match_integer s = Some (ds, r) \<Longrightarrow> length r \<le> length s"
  by (auto simp: match_integer_def expect_Some dest!: match_digits_shrinks split: option.splits)

lemma match_key_shrinks: "match_key k s = Some r \<Longrightarrow> length r \<le> length s"
proof -
  assume "match_key k s = Some r"
  then obtain t u where t: "s = quoted k @ t" "skip_spaces t = '':'' @ u" "r = skip_spaces u"
    by (auto simp: match_key_def bind_eq_Some_conv expect_Some)
  show ?thesis using t skip_spaces_shrinks[of t] skip_spaces_shrinks[of u] by simp
qed

lemma match_entry_shrinks:
  assumes "match_entry s = Some (m, r)"
  shows "length r < length s"
proof -
  obtain s1 s2 s3 s4 s5 s6 s7 s8 s9 s10 tid level where m:
    "s = ''{'' @ s1" "match_key ''id'' (skip_spaces s1) = Some s2" "match_digits s2 = Some (tid, s3)"
    "skip_spaces s3 = '','' @ s4" "match_key ''level'' (skip_spaces s4) = Some s5"
    "match_integer s5 = Some (level, s6)" "skip_spaces s6 = '','' @ s7"
    "match_key ''base_path'' (skip_spaces s7) = Some s8" "s8 = [CHR 0x22] @ s9"
    "dropWhile (\<lambda>c. c \<noteq> CHR 0x22) s9 = [CHR 0x22] @ s10" "skip_spaces s10 = ''}'' @ r"
    using assms
    by (auto simp: match_entry_def bind_eq_Some_conv Let_def expect_Some)
  have "length r < length s10" using m(11) skip_spaces_shrinks[of s10] by simp
  also have "length s10 \<le> length s9"
    using m(10) length_dropWhile_le[of "\<lambda>c. c \<noteq> CHR 0x22" s9] by simp
  also have "\<dots> \<le> length s7"
    using m(9) match_key_shrinks[OF m(8)] skip_spaces_shrinks[of s7] by simp
  also have "\<dots> \<le> length s5"
    using m(7) skip_spaces_shrinks[of s6] match_integer_shrinks[OF m(6)] by simp
  also have "\<dots> \<le> length s3"
    using match_key_shrinks[OF m(5)] skip_spaces_shrinks[of s4] skip_spaces_shrinks[of s3] m(4) by simp
  also have "\<dots> \<le> length s"
    using match_digits_shrinks[OF m(3)] match_key_shrinks[OF m(2)] skip_spaces_shrinks[of s1] m(1) by simp
  finally show ?thesis .
qed

text \<open>\<open>std::sregex_iterator\<close>: the matches from left to right, without overlap.\<close>

function find_entries :: "string \<Rightarrow> (string \<times> string \<times> string) list" where
  "find_entries [] = []"
| "find_entries (c # s) =
     (case match_entry (c # s) of
        None \<Rightarrow> find_entries s
      | Some (m, rest) \<Rightarrow> m # find_entries rest)"
  by pat_completeness auto
termination
  by (relation "measure length") (auto dest: match_entry_shrinks)

definition stoull :: "string \<Rightarrow> u64 result" where
  "stoull s =
     (if 2 ^ 64 \<le> digits_value s then Inl (Out_of_range ''stoull'')
      else Inr (word_of_nat (digits_value s)))"

definition stoi :: "string \<Rightarrow> int result" where
  "stoi s =
     (if signed_value s < - (2 ^ 31) \<or> 2 ^ 31 \<le> signed_value s then Inl (Out_of_range ''stoi'')
      else Inr (signed_value s))"

fun load_entries :: "(string \<times> string \<times> string) list \<Rightarrow> manifest_entry list result" where
  "load_entries [] = Inr []"
| "load_entries ((id_text, level_text, base_path) # ms) =
     seq_result (stoull id_text) (\<lambda>entry_id.
     seq_result (stoi level_text) (\<lambda>level.
     seq_result (load_entries ms) (\<lambda>es.
       Inr (\<lparr>me_id = entry_id, me_level = level, me_base_path = base_path\<rparr> # es))))"

definition parse_manifest :: "string \<Rightarrow> manifest_data option result" where
  "parse_manifest text =
     (case (parse_json_integer text ''version'', parse_json_integer text ''next_sequence_id'',
            parse_json_integer text ''next_sstable_id'', parse_json_integer text ''wal_checkpoint'') of
        (Some version_value, Some next_sequence_value, Some next_sstable_value, Some checkpoint_value) \<Rightarrow>
          if version_value \<noteq> uint kManifestVersion \<or> next_sequence_value \<le> 0 \<or>
             next_sstable_value \<le> 0 \<or> checkpoint_value < 0
          then Inr None
          else seq_result (load_entries (find_entries text)) (\<lambda>sstables.
            Inr (Some \<lparr>md_version = word_of_int version_value,
              md_next_sequence_id = word_of_int next_sequence_value,
              md_next_sstable_id = word_of_int next_sstable_value,
              md_sstables = sstables, md_wal_checkpoint = word_of_int checkpoint_value\<rparr>))
      | _ \<Rightarrow> Inr None)"

definition manifest_load :: "string \<Rightarrow> disk \<Rightarrow> manifest_data option result \<times> disk" where
  "manifest_load path d =
     (if \<not> file_exists path d then (Inr (Some default_manifest), d)
      else (let (input, d) = read_file path d
            in case input of
                 None \<Rightarrow> (Inr None, d)
               | Some bs \<Rightarrow> (parse_manifest (bytes_text bs), d)))"

section \<open>Reading back a saved manifest\<close>

definition entry_good :: "manifest_entry \<Rightarrow> bool" where
  "entry_good e \<longleftrightarrow> - (2 ^ 31) \<le> me_level e \<and> me_level e < 2 ^ 31 \<and>
     (\<forall>c\<in>set (me_base_path e). c \<noteq> CHR 0x22 \<and> c \<noteq> CHR 0x5C) \<and> me_base_path e \<noteq> ''wal_checkpoint''"

definition manifest_good :: "manifest_data \<Rightarrow> bool" where
  "manifest_good data \<longleftrightarrow> md_version data = kManifestVersion \<and>
     0 < md_next_sequence_id data \<and> unat (md_next_sequence_id data) < 2 ^ 63 \<and>
     0 < md_next_sstable_id data \<and> unat (md_next_sstable_id data) < 2 ^ 63 \<and>
     unat (md_wal_checkpoint data) < 2 ^ 63 \<and> (\<forall>e\<in>set (md_sstables data). entry_good e)"

lemma escape_plain: "(\<forall>c\<in>set s. c \<noteq> CHR 0x22 \<and> c \<noteq> CHR 0x5C) \<Longrightarrow> escape_json_string s = s"
  by (induction s) (auto simp: escape_json_string_def)

lemma expect_simps [simp]: "expect p (p @ s) = Some s" "expect [c] (c # s) = Some s"
  by (simp_all add: expect_def)

lemma expect_hd: "expect (c # p) (c' # s) = (if c = c' then expect p s else None)" "expect (c # p) [] = None"
  by (auto simp: expect_def)

lemma skip_spaces_Cons: "skip_spaces (c # s) = (if is_space c then skip_spaces s else c # s)"
  by (simp add: skip_spaces_def)

lemma is_space_simps [simp]:
  "is_space (CHR '' '')" "is_space (CHR 0x0A)" "\<not> is_space (CHR '','')" "\<not> is_space (CHR '':'')"
  "\<not> is_space (CHR ''{'')" "\<not> is_space (CHR ''}'')" "\<not> is_space (CHR 0x22)" "\<not> is_space (CHR ''-'')"
  by (simp_all add: is_space_def)

lemma skip_spaces_replicate [simp]: "skip_spaces (replicate n (CHR '' '') @ s) = skip_spaces s"
  by (induction n) (simp_all add: skip_spaces_Cons)

lemma skip_spaces_quoted [simp]: "skip_spaces (quoted k @ s) = quoted k @ s"
  by (simp add: quoted_def skip_spaces_Cons)

lemma skip_spaces_show [simp]: "skip_spaces (show_nat n @ s) = show_nat n @ s"
  using show_nat_Cons[of n] is_digit_facts(1) by (metis append_Cons skip_spaces_Cons)

lemma skip_spaces_show_int [simp]: "skip_spaces (show_int i @ s) = show_int i @ s"
  by (simp add: show_int_def skip_spaces_Cons)

lemma match_digits_show [simp]:
  "\<not> is_digit c \<Longrightarrow> match_digits (show_nat n @ c # s) = Some (show_nat n, c # s)"
  by (simp add: match_digits_def takeWhile_show dropWhile_show)

lemma match_integer_show [simp]:
  "\<not> is_digit c \<Longrightarrow> match_integer (show_int i @ c # s) = Some (show_int i, c # s)"
proof -
  assume c: "\<not> is_digit c"
  have "expect ''-'' (show_nat n @ c # s) = None" for n
    using show_nat_Cons[of n] is_digit_facts(2) by (metis append_Cons expect_hd(1))
  with c show ?thesis by (simp add: match_integer_def show_int_def)
qed

lemma match_key_line:
  "match_key k (skip_spaces (json_line i k v e @ s)) = Some (skip_spaces (v @ e @ nl @ s))"
  by (simp add: json_line_def match_key_def skip_spaces_Cons)

lemma is_digit_simps [simp]: "\<not> is_digit (CHR '','')" "\<not> is_digit (CHR 0x0A)"
  by (simp_all add: is_digit_def)

text \<open>The text of one entry from its opening to its closing brace.\<close>

definition entry_body :: "manifest_entry \<Rightarrow> string" where
  "entry_body e = nl @ json_line 6 ''id'' (show_nat (unat (me_id e))) '','' @
     json_line 6 ''level'' (show_int (me_level e)) '','' @
     json_line 6 ''base_path'' (quoted (me_base_path e)) [] @ ''    }''"

lemma skip_nl [simp]: "skip_spaces (nl @ s) = skip_spaces s"
  by (simp add: nl_def skip_spaces_Cons)

lemma match_entry_body:
  assumes "entry_good e"
  shows "match_entry (''{'' @ entry_body e @ s) =
    Some ((show_nat (unat (me_id e)), show_int (me_level e), me_base_path e), s)"
proof -
  let ?q = "quoted (me_base_path e) @ nl @ ''    }'' @ s"
  have path: "\<forall>c\<in>set (me_base_path e). c \<noteq> CHR 0x22" using assms by (simp add: entry_good_def)
  have id: "match_key ''id'' (skip_spaces (entry_body e @ s)) =
    Some (show_nat (unat (me_id e)) @ '','' @ nl @
      json_line 6 ''level'' (show_int (me_level e)) '','' @
      json_line 6 ''base_path'' (quoted (me_base_path e)) [] @ ''    }'' @ s)"
    by (simp add: entry_body_def match_key_line)
  have level: "match_key ''level'' (skip_spaces (nl @ json_line 6 ''level'' (show_int (me_level e)) '','' @
      json_line 6 ''base_path'' (quoted (me_base_path e)) [] @ ''    }'' @ s)) =
    Some (show_int (me_level e) @ '','' @ nl @
      json_line 6 ''base_path'' (quoted (me_base_path e)) [] @ ''    }'' @ s)"
    by (simp add: match_key_line)
  have base: "match_key ''base_path'' (skip_spaces (nl @
      json_line 6 ''base_path'' (quoted (me_base_path e)) [] @ ''    }'' @ s)) = Some ?q"
    by (simp add: match_key_line)
  have tail: "takeWhile (\<lambda>c. c \<noteq> CHR 0x22) (me_base_path e @ CHR 0x22 # r) = me_base_path e"
    "dropWhile (\<lambda>c. c \<noteq> CHR 0x22) (me_base_path e @ CHR 0x22 # r) = CHR 0x22 # r" for r
    using path by (simp_all add: takeWhile_append2 dropWhile_append2)
  show ?thesis
    using id level base
    by (simp add: match_entry_def skip_spaces_Cons quoted_def tail)
qed

lemma match_entry_other: "c \<noteq> CHR ''{'' \<Longrightarrow> match_entry (c # s) = None"
  by (simp add: match_entry_def expect_hd)

lemma find_entries_skip: "CHR ''{'' \<notin> set a \<Longrightarrow> find_entries (a @ s) = find_entries s"
  by (induction a) (auto simp: match_entry_other)

lemma find_entries_none: "CHR ''{'' \<notin> set a \<Longrightarrow> find_entries a = []"
  using find_entries_skip[of a "[]"] by simp

lemma entries_text_good:
  "entry_good e \<Longrightarrow> entries_text (e # es) =
     ''    '' @ ''{'' @ entry_body e @ (if es = [] then nl else '','' @ nl) @ entries_text es"
  by (simp add: entry_good_def entry_body_def escape_plain)

lemma brace_free [simp]: "CHR ''{'' \<notin> set nl" "CHR ''{'' \<notin> set (show_nat n)"
  using show_nat_digits[of n] by (auto simp: nl_def is_digit_def)

lemma find_entries_entries:
  assumes "\<forall>e\<in>set es. entry_good e"
  shows "find_entries (entries_text es @ s) =
    map (\<lambda>e. (show_nat (unat (me_id e)), show_int (me_level e), me_base_path e)) es @ find_entries s"
  using assms
proof (induction es)
  case Nil
  then show ?case by simp
next
  case (Cons e es)
  let ?sep = "if es = [] then nl else '','' @ nl"
  have good: "entry_good e" using Cons.prems by simp
  have "entries_text (e # es) @ s =
    ''    '' @ CHR ''{'' # entry_body e @ ?sep @ entries_text es @ s"
    using entries_text_good[OF good, of es] by (simp del: entries_text.simps)
  then have "find_entries (entries_text (e # es) @ s) =
    find_entries (CHR ''{'' # entry_body e @ ?sep @ entries_text es @ s)"
    using find_entries_skip[of "''    ''"] by (simp only:) simp
  also have "\<dots> = (show_nat (unat (me_id e)), show_int (me_level e), me_base_path e) #
      find_entries (?sep @ entries_text es @ s)"
    using match_entry_body[OF good] by (subst find_entries.simps) simp
  also have "find_entries (?sep @ entries_text es @ s) = find_entries (entries_text es @ s)"
    by (rule find_entries_skip) simp
  finally show ?case using Cons by simp
qed

lemma load_entries_printed:
  assumes "\<forall>e\<in>set es. entry_good e"
  shows "load_entries (map (\<lambda>e. (show_nat (unat (me_id e)), show_int (me_level e), me_base_path e)) es) = Inr es"
  using assms
proof (induction es)
  case Nil
  then show ?case by simp
next
  case (Cons e es)
  have "unat (me_id e) < 2 ^ 64" using unsigned_less[of "me_id e"] by simp
  then show ?case
    using Cons by (simp add: stoull_def stoi_def entry_good_def)
qed

lemma match_entry_version: "match_entry (''{'' @ nl @ json_line 2 ''version'' v e @ s) = None"
proof -
  have "match_key ''id'' (skip_spaces (json_line 2 ''version'' v e @ s)) = None"
    by (simp add: json_line_def skip_spaces_Cons match_key_def) (simp add: quoted_def expect_hd)
  then show ?thesis by (simp add: match_entry_def)
qed

lemma find_entries_manifest:
  assumes "\<forall>e\<in>set (md_sstables data). entry_good e"
  shows "find_entries (manifest_text data) =
    map (\<lambda>e. (show_nat (unat (me_id e)), show_int (me_level e), me_base_path e)) (md_sstables data)"
proof -
  let ?a = "nl @ json_line 2 ''version'' (show_nat (unat kManifestVersion)) '','' @
     json_line 2 ''next_sequence_id'' (show_nat (unat (md_next_sequence_id data))) '','' @
     json_line 2 ''next_sstable_id'' (show_nat (unat (md_next_sstable_id data))) '','' @
     json_line 2 ''sstables'' ''['' []"
  let ?b = "''  ],'' @ nl @ json_line 2 ''wal_checkpoint'' (show_nat (unat (md_wal_checkpoint data))) [] @
     ''}'' @ nl"
  have split: "manifest_text data = CHR ''{'' # ?a @ entries_text (md_sstables data) @ ?b"
    by (simp add: manifest_text_def)
  have start: "find_entries (manifest_text data) = find_entries (?a @ entries_text (md_sstables data) @ ?b)"
    using match_entry_version unfolding split by (subst find_entries.simps) simp
  have head: "find_entries (?a @ entries_text (md_sstables data) @ ?b) =
    find_entries (entries_text (md_sstables data) @ ?b)"
    by (rule find_entries_skip) (simp add: json_line_def quoted_def)
  have tail: "find_entries ?b = []"
    by (rule find_entries_none) (simp add: json_line_def quoted_def)
  show ?thesis by (simp only: start head find_entries_entries[OF assms] tail append_Nil2)
qed

lemma find_sub_entries:
  assumes "\<forall>e\<in>set es. entry_good e"
  shows "find_sub (quoted ''wal_checkpoint'') (entries_text es @ s) = find_sub (quoted ''wal_checkpoint'') s"
  using assms
proof (induction es)
  case Nil
  then show ?case by simp
next
  case (Cons e es)
  then have "me_base_path e \<noteq> ''wal_checkpoint''" and "plain (me_base_path e)"
    and "escape_json_string (me_base_path e) = me_base_path e"
    by (auto simp: entry_good_def plain_def escape_plain)
  moreover have "json_key ''wal_checkpoint''" by (simp add: json_key_def)
  ultimately show ?case
    using Cons find_sub_plain[of "''    {''" "''wal_checkpoint''"] find_sub_plain[of "nl" "''wal_checkpoint''"]
      find_sub_plain[of "''    }''" "''wal_checkpoint''"] find_sub_plain[of "CHR '','' # nl" "''wal_checkpoint''"]
    by (simp add: find_sub_line_other find_sub_line_text)
qed

lemma parse_manifest_fields:
  assumes "manifest_good data"
  shows "parse_json_integer (manifest_text data) ''version'' = Some (uint kManifestVersion)"
    and "parse_json_integer (manifest_text data) ''next_sequence_id'' = Some (int (unat (md_next_sequence_id data)))"
    and "parse_json_integer (manifest_text data) ''next_sstable_id'' = Some (int (unat (md_next_sstable_id data)))"
    and "parse_json_integer (manifest_text data) ''wal_checkpoint'' = Some (int (unat (md_wal_checkpoint data)))"
proof -
  have keys: "json_key ''version''" "json_key ''next_sequence_id''" "json_key ''next_sstable_id''"
    "json_key ''wal_checkpoint''" by (simp_all add: json_key_def)
  have es: "\<forall>e\<in>set (md_sstables data). entry_good e" using assms by (simp add: manifest_good_def)
  have brace: "find_sub (quoted k) (CHR ''{'' # nl @ s) = find_sub (quoted k) s" for k s
    using find_sub_plain[of "''{'' @ nl" k s] by simp
  have bracket: "find_sub (quoted k) (CHR '' '' # CHR '' '' # CHR '']'' # CHR '','' # nl @ s) =
    find_sub (quoted k) s" for k s
    using find_sub_plain[of "''  ],'' @ nl" k s] by simp
  note lines = manifest_text_def brace bracket find_sub_line_hit find_sub_line_other keys
    find_sub_entries[OF es]
  have nums: "unat (md_next_sequence_id data) < 2 ^ 63" "unat (md_next_sstable_id data) < 2 ^ 63"
    "unat (md_wal_checkpoint data) < 2 ^ 63"
    using assms by (auto simp: manifest_good_def)
  show "parse_json_integer (manifest_text data) ''version'' = Some (uint kManifestVersion)"
    by (subst parse_json_number[where v = "show_nat (unat kManifestVersion)" and e = "'',''"])
      (simp_all add: lines from_chars_show kManifestVersion_def)
  show "parse_json_integer (manifest_text data) ''next_sequence_id'' = Some (int (unat (md_next_sequence_id data)))"
    by (subst parse_json_number[where v = "show_nat (unat (md_next_sequence_id data))" and e = "'',''"])
      (use nums in \<open>simp_all add: lines from_chars_show\<close>)
  show "parse_json_integer (manifest_text data) ''next_sstable_id'' = Some (int (unat (md_next_sstable_id data)))"
    by (subst parse_json_number[where v = "show_nat (unat (md_next_sstable_id data))" and e = "'',''"])
      (use nums in \<open>simp_all add: lines from_chars_show\<close>)
  show "parse_json_integer (manifest_text data) ''wal_checkpoint'' = Some (int (unat (md_wal_checkpoint data)))"
    by (subst parse_json_number[where v = "show_nat (unat (md_wal_checkpoint data))" and e = "[]"])
      (use nums in \<open>simp_all add: lines from_chars_show\<close>)
qed

lemma manifest_text_parses:
  assumes "manifest_good data"
  shows "parse_manifest (manifest_text data) = Inr (Some data)"
proof -
  have es: "\<forall>e\<in>set (md_sstables data). entry_good e" and v: "md_version data = kManifestVersion"
    and pos: "uint (md_next_sequence_id data) \<noteq> 0" "uint (md_next_sstable_id data) \<noteq> 0"
    using assms by (auto simp: manifest_good_def word_less_def)
  show ?thesis
    using pos v
    by (simp add: parse_manifest_def parse_manifest_fields[OF assms] find_entries_manifest[OF es]
        load_entries_printed[OF es])
qed


definition demo_manifest :: manifest_data where
  "demo_manifest = \<lparr>md_version = 1, md_next_sequence_id = 12, md_next_sstable_id = 3,
     md_sstables = [\<lparr>me_id = 1, me_level = -1, me_base_path = ''sstable/sst_000001''\<rparr>,
       \<lparr>me_id = 2, me_level = 0, me_base_path = ''sstable/sst_000002''\<rparr>], md_wal_checkpoint = 0\<rparr>"


lemma tmp_path [simp]: "path @ ''.tmp'' \<noteq> path" "path \<noteq> path @ ''.tmp''"
  by simp_all

lemma manifest_save_reliable:
  assumes "outcomes d = []"
  shows "manifest_save path data d = (True,
    d\<lparr>files := (files d)(path @ ''.tmp'' := None, path \<mapsto> text_bytes (manifest_text data))\<rparr>)"
  using assms by (simp add: manifest_save_def fs_rename_def Let_def put_file_def drop_file_def file_bytes_def)

lemma manifest_load_saved:
  assumes "outcomes d = []" and "manifest_good data"
    and "files d path = Some (text_bytes (manifest_text data))"
  shows "manifest_load path d = (Inr (Some data), d)"
  using assms by (simp add: manifest_load_def file_exists_def manifest_text_parses)

lemma os_stream_files:
  assumes "os_open trunc p d = (os, d')"
  shows "q \<noteq> p \<Longrightarrow> files d' q = files d q" and "os_path os = p" and "os_good os \<Longrightarrow> os_pending os = []"
  using assms io_call_files[of d]
  by (auto simp: os_open_def split: prod.splits if_splits)

lemma os_write_files:
  assumes "os_write bs os d = (os', d')"
  shows "files d' = files d" and "os_path os' = os_path os"
  using assms next_outcome_files[of d]
  by (auto simp: os_write_def split: prod.splits if_splits io_outcome.splits)

lemma os_flush_files:
  assumes "os_flush os d = (os', d')"
  shows "q \<noteq> os_path os \<Longrightarrow> files d' q = files d q" and "os_path os' = os_path os"
  using assms next_outcome_files[of d]
  by (auto simp: os_flush_def split: prod.splits if_splits io_outcome.splits)

lemma fs_rename_files:
  assumes "fs_rename a b d = (ok, d')"
  shows "\<not> ok \<Longrightarrow> files d' = files d" and "ok \<Longrightarrow> files d' = (files d)(a := None, b := files d a)"
    and "ok \<Longrightarrow> files d a \<noteq> None"
  using assms io_call_files[of d]
  by (auto simp: fs_rename_def split: prod.splits if_splits option.splits)

lemma fs_remove_files: "q \<noteq> p \<Longrightarrow> files (fs_remove p d) q = files d q"
  "files (fs_remove p d) p = files d p \<or> files (fs_remove p d) p = None"
proof -
  obtain ok d' where r: "io_call d = (ok, d')" by (cases "io_call d")
  then have "files d' = files d" by (rule io_call_files)
  then show "q \<noteq> p \<Longrightarrow> files (fs_remove p d) q = files d q"
    "files (fs_remove p d) p = files d p \<or> files (fs_remove p d) p = None"
    by (simp_all add: fs_remove_def r)
qed

text \<open>
  A save that returns false never leaves a half-written manifest: whatever the outcomes
  of the file system calls, the manifest file is the one before the call or is gone.
\<close>

theorem manifest_save_failed:
  assumes "manifest_save path data d = (False, d')"
  shows "files d' path = files d path \<or> files d' path = None"
proof -
  note stream = os_stream_files(1) os_write_files(1) os_flush_files(1)
  obtain c d1 where c: "io_call d = (c, d1)" by (cases "io_call d")
  obtain o2 d2 where o2: "os_open True (path @ ''.tmp'') d1 = (o2, d2)"
    by (cases "os_open True (path @ ''.tmp'') d1")
  obtain o3 d3 where o3: "os_write (text_bytes (manifest_text data)) o2 d2 = (o3, d3)"
    by (cases "os_write (text_bytes (manifest_text data)) o2 d2")
  obtain o4 d4 where o4: "os_flush o3 d3 = (o4, d4)" by (cases "os_flush o3 d3")
  have f1: "files d1 path = files d path" using io_call_files[OF c] by simp
  have f2: "files d2 path = files d path" using os_stream_files(1)[OF o2] f1 by simp
  have f4: "files d4 path = files d path"
    using os_flush_files(1)[OF o4, of path] os_write_files[OF o3] os_stream_files(2)[OF o2] f2 by simp
  obtain r5 d5 where r5: "fs_rename (path @ ''.tmp'') path d4 = (r5, d5)"
    by (cases "fs_rename (path @ ''.tmp'') path d4")
  note run = assms[unfolded manifest_save_def Let_def c o2 o3 o4 r5 prod.case]
  consider "\<not> c" | "c" "\<not> os_good o2" | "c" "os_good o2" "\<not> os_good o4" | "c" "os_good o2" "os_good o4"
    by blast
  then show ?thesis
  proof cases
    case 1
    with run f1 show ?thesis by simp
  next
    case 2
    with run f2 show ?thesis by simp
  next
    case 3
    with run f4 show ?thesis by simp
  next
    case 4
    with run have r: "\<not> r5" "fs_rename (path @ ''.tmp'') path (fs_remove path d5) = (False, d')"
      by (simp_all split: if_splits)
    then have "files d' path = files (fs_remove path d5) path" and "files d5 path = files d path"
      using fs_rename_files(1)[OF r(2)] fs_rename_files(1)[OF r5] f4 by simp_all
    then show ?thesis using fs_remove_files(2)[of path d5] by simp
  qed
qed

text \<open>
  C38: it can be gone. When the first rename fails and the file system keeps failing renames,
  the fallback has already deleted the old manifest, and the next load does not report an
  error: it returns the manifest of an empty store.
\<close>

theorem manifest_save_can_lose_manifest:
  assumes "outcomes d = [Done, Done, Done, Done, Failed a, Done, Failed b]"
  shows "\<exists>d'. manifest_save path data d = (False, d') \<and>
    manifest_load path d' = (Inr (Some default_manifest), d')"
  using assms
  by (simp add: manifest_save_def io_call_def next_outcome_def os_open_def os_write_def os_flush_def
      fs_rename_def fs_remove_def manifest_load_def file_exists_def Let_def)

theorem manifest_save_failed_witness:
  "\<exists>d'. (files d' ''m'' = Some [1] \<or> files d' ''m'' = None) \<and>
     manifest_save ''m'' demo_manifest \<lparr>files = [''m'' \<mapsto> [1]], outcomes = [Failed 0]\<rparr> = (False, d')"
proof -
  have s: "manifest_save ''m'' demo_manifest \<lparr>files = [''m'' \<mapsto> [1]], outcomes = [Failed 0]\<rparr> =
    (False, \<lparr>files = [''m'' \<mapsto> [1]], outcomes = []\<rparr>)"
    by (simp add: manifest_save_def io_call_def next_outcome_def)
  from manifest_save_failed[OF s] s show ?thesis by auto
qed

theorem manifest_save_can_lose_manifest_witness:
  "\<exists>d'. manifest_save ''m'' demo_manifest
       \<lparr>files = [''m'' \<mapsto> text_bytes (manifest_text demo_manifest)],
        outcomes = [Done, Done, Done, Done, Failed 0, Done, Failed 0]\<rparr> = (False, d') \<and>
     manifest_load ''m'' d' = (Inr (Some default_manifest), d')"
  by (rule manifest_save_can_lose_manifest) simp

end
