(* ===== verification/Floats.thy ===== *)
theory Floats
  imports Prelude
begin

text \<open>
  IEEE 754 arithmetic on bit patterns: \<open>float\<close> is binary32, \<open>double\<close> binary64, rounding
  to nearest, ties to even, as the supported compilers generate it without fast-math. A
  finite value is an integer number of units in the last place of the smallest subnormal
  number, so every operation is computed exactly on integers and rounded once. Every NaN
  result is the canonical quiet NaN: the payload of a NaN is not modelled. The order of
  non-NaN values is the order of an integer key, which is what the sorting and heap
  lemmas of the prelude need.
\<close>

section \<open>Formats\<close>

record fp_format =
  frac_bits :: nat
  ulp_scale :: nat
  inf_mag :: nat
  sign_val :: nat

definition binary32 :: fp_format where
  "binary32 = \<lparr>frac_bits = 23, ulp_scale = 149, inf_mag = 255 * 2 ^ 23, sign_val = 2 ^ 31\<rparr>"

definition binary64 :: fp_format where
  "binary64 = \<lparr>frac_bits = 52, ulp_scale = 1074, inf_mag = 2047 * 2 ^ 52, sign_val = 2 ^ 63\<rparr>"

definition fp_neg :: "fp_format \<Rightarrow> nat \<Rightarrow> bool" where
  "fp_neg F x \<longleftrightarrow> sign_val F \<le> x"

definition fp_mag :: "fp_format \<Rightarrow> nat \<Rightarrow> nat" where
  "fp_mag F x = x mod sign_val F"

definition fp_nan :: "fp_format \<Rightarrow> nat \<Rightarrow> bool" where
  "fp_nan F x \<longleftrightarrow> inf_mag F < fp_mag F x"

definition fp_inf :: "fp_format \<Rightarrow> nat \<Rightarrow> bool" where
  "fp_inf F x \<longleftrightarrow> fp_mag F x = inf_mag F"

definition fp_finite :: "fp_format \<Rightarrow> nat \<Rightarrow> bool" where
  "fp_finite F x \<longleftrightarrow> fp_mag F x < inf_mag F"

definition fp_make :: "fp_format \<Rightarrow> bool \<Rightarrow> nat \<Rightarrow> nat" where
  "fp_make F neg m = (if neg then sign_val F + m else m)"

definition fp_quiet_nan :: "fp_format \<Rightarrow> nat" where
  "fp_quiet_nan F = inf_mag F + 2 ^ (frac_bits F - 1)"

text \<open>The magnitude in units of the last place of the smallest subnormal.\<close>

definition fp_units :: "fp_format \<Rightarrow> nat \<Rightarrow> nat" where
  "fp_units F m =
     (let w = 2 ^ frac_bits F
      in if m < w then m else (w + m mod w) * 2 ^ (m div w - 1))"

definition fp_val :: "fp_format \<Rightarrow> nat \<Rightarrow> int" where
  "fp_val F x = (if fp_neg F x then - int (fp_units F (fp_mag F x)) else int (fp_units F (fp_mag F x)))"

section \<open>Rounding\<close>

fun bit_len :: "nat \<Rightarrow> nat" where
  "bit_len n = (if n = 0 then 0 else Suc (bit_len (n div 2)))"

declare bit_len.simps [simp del]

lemma bit_len_0 [simp]: "bit_len 0 = 0"
  by (subst bit_len.simps) simp

text \<open>The magnitude bits nearest to \<open>num / den\<close> units, ties to even, overflow to infinity.\<close>

definition fp_round :: "fp_format \<Rightarrow> nat \<Rightarrow> nat \<Rightarrow> nat" where
  "fp_round F num den =
     (let s = bit_len (num div den) - Suc (frac_bits F);
          d = den * 2 ^ s;
          r = num div d;
          t = 2 * (num mod d);
          r' = (if d < t \<or> (t = d \<and> odd r) then Suc r else r)
      in min (s * 2 ^ frac_bits F + r') (inf_mag F))"

section \<open>Operations\<close>

definition fp_add :: "fp_format \<Rightarrow> nat \<Rightarrow> nat \<Rightarrow> nat" where
  "fp_add F x y =
     (if fp_nan F x \<or> fp_nan F y then fp_quiet_nan F
      else if fp_inf F x then (if fp_inf F y \<and> fp_neg F x \<noteq> fp_neg F y then fp_quiet_nan F else x)
      else if fp_inf F y then y
      else (let v = fp_val F x + fp_val F y
            in if v = 0 then fp_make F (fp_neg F x \<and> fp_neg F y) 0
               else fp_make F (v < 0) (fp_round F (nat \<bar>v\<bar>) 1)))"

definition fp_negate :: "fp_format \<Rightarrow> nat \<Rightarrow> nat" where
  "fp_negate F x = fp_make F (\<not> fp_neg F x) (fp_mag F x)"

definition fp_sub :: "fp_format \<Rightarrow> nat \<Rightarrow> nat \<Rightarrow> nat" where
  "fp_sub F x y = fp_add F x (fp_negate F y)"

definition fp_mul :: "fp_format \<Rightarrow> nat \<Rightarrow> nat \<Rightarrow> nat" where
  "fp_mul F x y =
     (let s = (fp_neg F x \<noteq> fp_neg F y)
      in if fp_nan F x \<or> fp_nan F y then fp_quiet_nan F
         else if fp_inf F x \<or> fp_inf F y
           then (if fp_mag F x = 0 \<or> fp_mag F y = 0 then fp_quiet_nan F else fp_make F s (inf_mag F))
         else fp_make F s (fp_round F (fp_units F (fp_mag F x) * fp_units F (fp_mag F y))
                (2 ^ ulp_scale F)))"

definition fp_div :: "fp_format \<Rightarrow> nat \<Rightarrow> nat \<Rightarrow> nat" where
  "fp_div F x y =
     (let s = (fp_neg F x \<noteq> fp_neg F y)
      in if fp_nan F x \<or> fp_nan F y then fp_quiet_nan F
         else if fp_inf F x then (if fp_inf F y then fp_quiet_nan F else fp_make F s (inf_mag F))
         else if fp_inf F y then fp_make F s 0
         else if fp_mag F y = 0 then (if fp_mag F x = 0 then fp_quiet_nan F else fp_make F s (inf_mag F))
         else fp_make F s (fp_round F (fp_units F (fp_mag F x) * 2 ^ ulp_scale F)
                (fp_units F (fp_mag F y))))"

definition fp_of_nat :: "fp_format \<Rightarrow> nat \<Rightarrow> nat" where
  "fp_of_nat F n = fp_round F (n * 2 ^ ulp_scale F) 1"

definition fp_lt :: "fp_format \<Rightarrow> nat \<Rightarrow> nat \<Rightarrow> bool" where
  "fp_lt F x y \<longleftrightarrow> \<not> fp_nan F x \<and> \<not> fp_nan F y \<and> fp_val F x < fp_val F y"

definition fp_eq :: "fp_format \<Rightarrow> nat \<Rightarrow> nat \<Rightarrow> bool" where
  "fp_eq F x y \<longleftrightarrow> \<not> fp_nan F x \<and> \<not> fp_nan F y \<and> fp_val F x = fp_val F y"

section \<open>Order\<close>

lemma fp_units_Suc: "fp_units F m < fp_units F (Suc m)"
proof -
  let ?w = "2 ^ frac_bits F :: nat"
  have w: "0 < ?w" by simp
  show ?thesis
  proof (cases "m < ?w")
    case True
    then show ?thesis
      by (cases "Suc m = ?w") (auto simp: fp_units_def Let_def)
  next
    case False
    define e where "e = m div ?w"
    define f where "f = m mod ?w"
    have m: "m = e * ?w + f" unfolding e_def f_def by (rule div_mult_mod_eq [symmetric])
    have f: "f < ?w" by (simp add: f_def)
    have e: "0 < e" using False w by (simp add: e_def div_greater_zero_iff)
    show ?thesis
    proof (cases "Suc f = ?w")
      case True
      then have "Suc m = Suc e * ?w" using m by simp
      then have "Suc m mod ?w = 0" and "Suc m div ?w = Suc e" by simp_all
      then have "fp_units F (Suc m) = ?w * 2 ^ e"
        using False by (simp add: fp_units_def Let_def)
      moreover have "fp_units F m = (?w + f) * 2 ^ (e - 1)"
        using False by (simp add: fp_units_def Let_def e_def f_def)
      moreover have "(?w + f) * 2 ^ (e - 1) < (2 * ?w) * 2 ^ (e - 1)" using f by simp
      moreover have "(2 * ?w) * 2 ^ (e - 1) = ?w * 2 ^ e" using e by (cases e) simp_all
      ultimately show ?thesis by linarith
    next
      case False2: False
      then have "Suc f < ?w" using f by simp
      moreover have "Suc m = e * ?w + Suc f" using m by simp
      ultimately have eq: "Suc m = Suc f + e * ?w" and lt: "Suc f < ?w" by simp_all
      have "Suc m mod ?w = Suc f" unfolding eq using lt by (simp only: mod_mult_self1 mod_less)
      moreover have "Suc m div ?w = e"
        unfolding eq using lt w by (subst div_mult_self1) simp_all
      ultimately
      show ?thesis
        using False by (simp add: fp_units_def Let_def e_def f_def)
    qed
  qed
qed

lemma fp_units_mono: "fp_units F m < fp_units F m' \<longleftrightarrow> m < m'"
  using lift_Suc_mono_less_iff[of "fp_units F"] fp_units_Suc by blast

lemma fp_units_inj: "fp_units F m = fp_units F m' \<longleftrightarrow> m = m'"
  by (metis fp_units_mono linorder_neq_iff)

lemma fp_units_zero [simp]: "fp_units F 0 = 0"
  by (simp add: fp_units_def Let_def)

lemma fp_units_0_iff [simp]: "fp_units F m = 0 \<longleftrightarrow> m = 0"
  by (metis fp_units_inj fp_units_zero)

definition fp_key :: "fp_format \<Rightarrow> nat \<Rightarrow> int" where
  "fp_key F x = (if fp_neg F x then - int (fp_mag F x) else int (fp_mag F x))"

lemma fp_val_key: "fp_val F x < fp_val F y \<longleftrightarrow> fp_key F x < fp_key F y"
proof -
  have pos: "0 < fp_units F m \<longleftrightarrow> 0 < m" for m
    using fp_units_0_iff[of F m] by (metis gr0I less_numeral_extra(3))
  show ?thesis
    using fp_units_mono[of F "fp_mag F x" "fp_mag F y"] fp_units_mono[of F "fp_mag F y" "fp_mag F x"]
      pos[of "fp_mag F x"] pos[of "fp_mag F y"]
    by (auto simp: fp_val_def fp_key_def)
qed

lemma fp_lt_key [key_simps]:
  "\<not> fp_nan F x \<Longrightarrow> \<not> fp_nan F y \<Longrightarrow> fp_lt F x y \<longleftrightarrow> fp_key F x < fp_key F y"
  by (simp add: fp_lt_def fp_val_key)

lemma fp_eq_key [key_simps]:
  "\<not> fp_nan F x \<Longrightarrow> \<not> fp_nan F y \<Longrightarrow> fp_eq F x y \<longleftrightarrow> fp_key F x = fp_key F y"
  using fp_val_key[of F x y] fp_val_key[of F y x] by (auto simp: fp_eq_def)

section \<open>Results that cannot be NaN\<close>

definition fp_ok :: "fp_format \<Rightarrow> bool" where
  "fp_ok F \<longleftrightarrow> 0 < inf_mag F \<and> inf_mag F < sign_val F"

lemma fp_ok_formats [simp]: "fp_ok binary32" "fp_ok binary64"
  by (simp_all add: fp_ok_def binary32_def binary64_def)

lemma fp_round_le [simp]: "fp_round F num den \<le> inf_mag F"
  by (simp add: fp_round_def Let_def)

lemma fp_make_fields [simp]:
  assumes "fp_ok F" and "m \<le> inf_mag F"
  shows "fp_mag F (fp_make F s m) = m" and "fp_neg F (fp_make F s m) = s"
  using assms by (auto simp: fp_mag_def fp_make_def fp_neg_def fp_ok_def)

definition fp_nonneg :: "fp_format \<Rightarrow> nat \<Rightarrow> bool" where
  "fp_nonneg F x \<longleftrightarrow> \<not> fp_nan F x \<and> \<not> fp_neg F x"

lemma fp_nonneg_key: "fp_nonneg F x \<Longrightarrow> 0 \<le> fp_key F x"
  by (simp add: fp_nonneg_def fp_key_def)

lemma fp_nonneg_zero: "fp_ok F \<Longrightarrow> fp_nonneg F 0"
  by (auto simp: fp_nonneg_def fp_nan_def fp_mag_def fp_neg_def fp_ok_def)

lemma fp_finite_not_nan: "fp_finite F x \<Longrightarrow> \<not> fp_nan F x \<and> \<not> fp_inf F x"
  by (auto simp: fp_finite_def fp_nan_def fp_inf_def)

lemma fp_negate_fields:
  assumes "fp_ok F" and "fp_finite F y"
  shows "fp_finite F (fp_negate F y)" and "fp_val F (fp_negate F y) = - fp_val F y"
    and "fp_neg F (fp_negate F y) \<longleftrightarrow> \<not> fp_neg F y"
  using assms by (simp_all add: fp_finite_def fp_negate_def fp_val_def)

lemma fp_add_finite_not_nan:
  assumes "fp_ok F" and "fp_finite F x" and "fp_finite F y"
  shows "\<not> fp_nan F (fp_add F x y)"
  using assms fp_finite_not_nan[of F x] fp_finite_not_nan[of F y]
  by (auto simp: fp_add_def Let_def fp_nan_def not_less)

lemma fp_sub_finite_not_nan:
  assumes "fp_ok F" and "fp_finite F x" and "fp_finite F y"
  shows "\<not> fp_nan F (fp_sub F x y)"
  unfolding fp_sub_def by (intro fp_add_finite_not_nan assms fp_negate_fields)

lemma fp_sub_self:
  assumes "fp_ok F" and "fp_finite F x"
  shows "fp_sub F x x = 0"
  using assms fp_negate_fields[OF assms] fp_finite_not_nan[of F x]
    fp_finite_not_nan[of F "fp_negate F x"]
  by (auto simp: fp_sub_def fp_add_def Let_def fp_make_def)

lemma fp_mul_self_nonneg:
  assumes "fp_ok F" and "\<not> fp_nan F x"
  shows "fp_nonneg F (fp_mul F x x)"
  using assms by (auto simp: fp_nonneg_def fp_mul_def Let_def fp_inf_def fp_nan_def not_less fp_ok_def)

lemma fp_add_nonneg:
  assumes "fp_ok F" and "fp_nonneg F x" and "fp_nonneg F y"
  shows "fp_nonneg F (fp_add F x y)"
proof -
  have "0 \<le> fp_val F x + fp_val F y" using assms by (simp add: fp_nonneg_def fp_val_def)
  then have "\<not> fp_val F x + fp_val F y < 0" by simp
  then show ?thesis
    using assms by (simp add: fp_nonneg_def fp_add_def Let_def fp_nan_def not_less)
qed

lemma fp_add_zero_zero: "fp_ok F \<Longrightarrow> fp_add F 0 0 = 0"
  by (auto simp: fp_add_def fp_nan_def fp_inf_def fp_val_def fp_mag_def fp_neg_def fp_make_def fp_ok_def)

lemma fp_mul_zero_zero: "fp_ok F \<Longrightarrow> fp_mul F 0 0 = 0"
  by (auto simp: fp_mul_def fp_nan_def fp_inf_def fp_mag_def fp_neg_def fp_make_def fp_ok_def
      fp_round_def Let_def)

section \<open>Exactness of rounding\<close>

lemma bit_len_range: "2 ^ k \<le> n \<Longrightarrow> n < 2 ^ Suc k \<Longrightarrow> bit_len n = Suc k"
proof (induction k arbitrary: n)
  case 0
  then have "n = 1" by simp
  then show ?case by (simp add: bit_len.simps)
next
  case (Suc k)
  then have "bit_len (n div 2) = Suc k" by (intro Suc.IH) auto
  with Suc.prems show ?case by (subst bit_len.simps) auto
qed

lemma bit_len_small: "n < 2 ^ k \<Longrightarrow> bit_len n \<le> k"
proof (induction k arbitrary: n)
  case 0
  then show ?case by (simp add: bit_len.simps)
next
  case (Suc k)
  then have "bit_len (n div 2) \<le> k" by (intro Suc.IH) auto
  then show ?case by (subst bit_len.simps) auto
qed

text \<open>A representable number of units is not changed by rounding.\<close>

theorem fp_round_units:
  assumes "m \<le> inf_mag F"
  shows "fp_round F (fp_units F m) 1 = m"
proof -
  let ?w = "2 ^ frac_bits F :: nat"
  show ?thesis
  proof (cases "m < 2 * ?w")
    case True
    then have u: "fp_units F m = m" by (auto simp: fp_units_def Let_def div_if mod_if)
    have "bit_len m \<le> Suc (frac_bits F)" using True by (intro bit_len_small) simp
    then show ?thesis using assms by (simp add: fp_round_def u)
  next
    case False
    define e where "e = m div ?w - 1"
    define f where "f = m mod ?w"
    have "2 \<le> m div ?w" using False by (simp add: less_eq_div_iff_mult_less_eq)
    then have "Suc e = m div ?w" by (simp add: e_def)
    then have m: "m = Suc e * ?w + f" unfolding f_def by (metis div_mult_mod_eq)
    have f: "f < ?w" by (simp add: f_def)
    have u: "fp_units F m = (?w + f) * 2 ^ e"
      using False by (simp add: fp_units_def Let_def e_def f_def)
    have "bit_len ((?w + f) * 2 ^ e) = Suc (frac_bits F + e)"
      using f by (intro bit_len_range) (simp_all add: power_add)
    moreover have "e * ?w + (?w + f) = m" using m by simp
    ultimately show ?thesis using assms by (simp add: fp_round_def Let_def u)
  qed
qed

section \<open>\<open>float\<close>\<close>

definition f32_nan :: "f32 \<Rightarrow> bool" where "f32_nan x = fp_nan binary32 (unat x)"
definition f32_finite :: "f32 \<Rightarrow> bool" where "f32_finite x = fp_finite binary32 (unat x)"
definition f32_lt :: "f32 \<Rightarrow> f32 \<Rightarrow> bool" where "f32_lt x y = fp_lt binary32 (unat x) (unat y)"
definition f32_eq :: "f32 \<Rightarrow> f32 \<Rightarrow> bool" where "f32_eq x y = fp_eq binary32 (unat x) (unat y)"
definition f32_key :: "f32 \<Rightarrow> int" where "f32_key x = fp_key binary32 (unat x)"
definition f32_nonneg :: "f32 \<Rightarrow> bool" where "f32_nonneg x = fp_nonneg binary32 (unat x)"

definition f32_add :: "f32 \<Rightarrow> f32 \<Rightarrow> f32" where
  "f32_add x y = word_of_nat (fp_add binary32 (unat x) (unat y))"
definition f32_sub :: "f32 \<Rightarrow> f32 \<Rightarrow> f32" where
  "f32_sub x y = word_of_nat (fp_sub binary32 (unat x) (unat y))"
definition f32_mul :: "f32 \<Rightarrow> f32 \<Rightarrow> f32" where
  "f32_mul x y = word_of_nat (fp_mul binary32 (unat x) (unat y))"
definition f32_div :: "f32 \<Rightarrow> f32 \<Rightarrow> f32" where
  "f32_div x y = word_of_nat (fp_div binary32 (unat x) (unat y))"
definition f32_of_nat :: "nat \<Rightarrow> f32" where
  "f32_of_nat n = word_of_nat (fp_of_nat binary32 n)"

text \<open>\<open>std::numeric_limits<float>::max()\<close>, \<open>infinity()\<close>, and the constants 1.0f and -1.0f.\<close>

definition f32_max :: f32 where "f32_max = 0x7F7FFFFF"
definition f32_infinity :: f32 where "f32_infinity = 0x7F800000"
definition f32_one :: f32 where "f32_one = 0x3F800000"
definition f32_minus_one :: f32 where "f32_minus_one = 0xBF800000"

lemma fp_make_bound: "fp_ok F \<Longrightarrow> m \<le> inf_mag F \<Longrightarrow> fp_make F s m < 2 * sign_val F"
  by (auto simp: fp_make_def fp_ok_def)

lemma fp_add_bound:
  assumes "fp_ok F" and "fp_quiet_nan F < 2 * sign_val F" "x < 2 * sign_val F" "y < 2 * sign_val F"
  shows "fp_add F x y < 2 * sign_val F"
  using assms by (auto simp: fp_add_def Let_def fp_make_bound)

lemma fp_mul_bound:
  assumes "fp_ok F" and "fp_quiet_nan F < 2 * sign_val F"
  shows "fp_mul F x y < 2 * sign_val F"
  using assms by (auto simp: fp_mul_def Let_def fp_make_bound)

lemma fp_negate_bound:
  assumes "fp_ok F"
  shows "fp_negate F x < 2 * sign_val F"
proof -
  have "x mod sign_val F < sign_val F" using assms by (simp add: fp_ok_def)
  then show ?thesis by (simp add: fp_negate_def fp_make_def fp_mag_def)
qed

lemma unat_f32_ops:
  "unat (f32_add x y) = fp_add binary32 (unat x) (unat y)"
  "unat (f32_sub x y) = fp_sub binary32 (unat x) (unat y)"
  "unat (f32_mul x y) = fp_mul binary32 (unat x) (unat y)"
proof -
  have q: "fp_quiet_nan binary32 < 2 * sign_val binary32"
    by (simp add: fp_quiet_nan_def binary32_def)
  have s: "2 * sign_val binary32 = 2 ^ LENGTH(32)" by (simp add: binary32_def)
  have w: "unat (z :: f32) < 2 * sign_val binary32" for z
    unfolding s by (rule unsigned_less)
  have n: "n < 2 * sign_val binary32 \<Longrightarrow> unat (word_of_nat n :: f32) = n" for n
    unfolding s by (simp only: unat_of_nat mod_less)
  show "unat (f32_add x y) = fp_add binary32 (unat x) (unat y)"
    unfolding f32_add_def by (intro n fp_add_bound q w) simp
  show "unat (f32_sub x y) = fp_sub binary32 (unat x) (unat y)"
    unfolding f32_sub_def fp_sub_def by (intro n fp_add_bound q w fp_negate_bound) simp_all
  show "unat (f32_mul x y) = fp_mul binary32 (unat x) (unat y)"
    unfolding f32_mul_def by (intro n fp_mul_bound q) simp
qed

lemma f32_lt_key [key_simps]: "\<not> f32_nan x \<Longrightarrow> \<not> f32_nan y \<Longrightarrow> f32_lt x y \<longleftrightarrow> f32_key x < f32_key y"
  by (simp add: f32_lt_def f32_key_def f32_nan_def fp_lt_key)

lemma f32_eq_key [key_simps]: "\<not> f32_nan x \<Longrightarrow> \<not> f32_nan y \<Longrightarrow> f32_eq x y \<longleftrightarrow> f32_key x = f32_key y"
  by (simp add: f32_eq_def f32_key_def f32_nan_def fp_eq_key)

lemma f32_nonneg_not_nan: "f32_nonneg x \<Longrightarrow> \<not> f32_nan x"
  by (simp add: f32_nonneg_def f32_nan_def fp_nonneg_def)

lemma f32_nonneg_zero [simp]: "f32_nonneg 0"
  by (simp add: f32_nonneg_def fp_nonneg_zero)

lemma f32_nonneg_key: "f32_nonneg x \<Longrightarrow> 0 \<le> f32_key x"
  by (simp add: f32_nonneg_def f32_key_def fp_nonneg_key)

lemma f32_sub_finite: "f32_finite x \<Longrightarrow> f32_finite y \<Longrightarrow> \<not> f32_nan (f32_sub x y)"
  by (simp add: f32_finite_def f32_nan_def unat_f32_ops fp_sub_finite_not_nan)

lemma f32_mul_self: "\<not> f32_nan x \<Longrightarrow> f32_nonneg (f32_mul x x)"
  by (simp add: f32_nonneg_def f32_nan_def unat_f32_ops fp_mul_self_nonneg)

lemma f32_add_nonneg: "f32_nonneg x \<Longrightarrow> f32_nonneg y \<Longrightarrow> f32_nonneg (f32_add x y)"
  by (simp add: f32_nonneg_def unat_f32_ops fp_add_nonneg)

lemma f32_sub_self: "f32_finite x \<Longrightarrow> f32_sub x x = 0"
  by (simp add: f32_sub_def f32_finite_def fp_sub_self)

lemma f32_zero_ops [simp]: "f32_add 0 0 = 0" "f32_mul 0 0 = 0"
  by (simp_all add: f32_add_def f32_mul_def fp_add_zero_zero fp_mul_zero_zero)

section \<open>Conversions\<close>

text \<open>A value of one format as the nearest value of the other; widening is exact.\<close>

definition fp_convert :: "fp_format \<Rightarrow> fp_format \<Rightarrow> nat \<Rightarrow> nat" where
  "fp_convert F G x =
     (if fp_nan F x then fp_quiet_nan G
      else if fp_inf F x then fp_make G (fp_neg F x) (inf_mag G)
      else fp_make G (fp_neg F x) (fp_round G (fp_units F (fp_mag F x) * 2 ^ ulp_scale G) (2 ^ ulp_scale F)))"

definition f64_of_f32 :: "f32 \<Rightarrow> nat" where
  "f64_of_f32 x = fp_convert binary32 binary64 (unat x)"

definition f32_of_f64 :: "nat \<Rightarrow> f32" where
  "f32_of_f64 x = word_of_nat (fp_convert binary64 binary32 x)"

text \<open>\<open>std::abs\<close> of a double.\<close>

definition f64_abs :: "nat \<Rightarrow> nat" where
  "f64_abs x = fp_mag binary64 x"

end
