(* ===== verification/Distance.thy ===== *)
theory Distance
  imports Floats
begin

text \<open>
  \<open>include/core/types.h\<close> and \<open>src/core/brute_force.cpp\<close>: vector sets, search results and
  their order, the squared L2 distance with its vectorised branches, and the exact
  (brute force) top-k search that the approximate indexes are measured against.
\<close>

section \<open>Vector sets\<close>

record vector_set =
  vs_dim :: nat
  vs_values :: "f32 list"

definition vector_set_zeros :: "nat \<Rightarrow> nat \<Rightarrow> vector_set" where
  "vector_set_zeros n dimension =
     \<lparr>vs_dim = dimension, vs_values = replicate (n * dimension) 0\<rparr>"

definition vs_size :: "vector_set \<Rightarrow> nat" where
  "vs_size v = (if vs_dim v = 0 then 0 else length (vs_values v) div vs_dim v)"

definition vs_empty :: "vector_set \<Rightarrow> bool" where
  "vs_empty v \<longleftrightarrow> vs_size v = 0"

text \<open>The \<open>dim\<close> values a row pointer gives access to.\<close>

definition row_values :: "vector_set \<Rightarrow> nat \<Rightarrow> f32 list" where
  "row_values v i = take (vs_dim v) (drop (i * vs_dim v) (vs_values v))"

definition vs_row :: "vector_set \<Rightarrow> nat \<Rightarrow> f32 list result" where
  "vs_row v i =
     (if vs_size v \<le> i then Inl (Out_of_range ''VectorSet row index out of range'')
      else Inr (row_values v i))"

lemma row_values_length: "i < vs_size v \<Longrightarrow> length (row_values v i) = vs_dim v"
proof -
  assume i: "i < vs_size v"
  then have "Suc i * vs_dim v \<le> length (vs_values v)"
    by (auto simp: vs_size_def less_eq_div_iff_mult_less_eq Suc_le_eq split: if_splits)
      (metis Suc_leI bot_nat_0.not_eq_extremum div_times_less_eq_dividend le_trans mult_Suc mult_le_mono1)
  then show ?thesis by (simp add: row_values_def)
qed

lemma vs_size_zeros: "0 < d \<Longrightarrow> vs_size (vector_set_zeros n d) = n"
  by (simp add: vs_size_def vector_set_zeros_def)

section \<open>Search results and their order\<close>

record search_result =
  sr_id :: u32
  sr_distance :: f32

text \<open>The comparator every top-k list of the program is sorted with.\<close>

definition search_result_less :: "search_result \<Rightarrow> search_result \<Rightarrow> bool" where
  "search_result_less lhs rhs =
     (if f32_eq (sr_distance lhs) (sr_distance rhs) then sr_id lhs < sr_id rhs
      else f32_lt (sr_distance lhs) (sr_distance rhs))"

definition sr_valid :: "search_result \<Rightarrow> bool" where
  "sr_valid r \<longleftrightarrow> \<not> f32_nan (sr_distance r)"

text \<open>Distance first, then identifier, as one integer.\<close>

definition dist_id_key :: "f32 \<Rightarrow> u32 \<Rightarrow> int" where
  "dist_id_key d i = f32_key d * 2 ^ 32 + uint i"

definition sr_key :: "search_result \<Rightarrow> int" where
  "sr_key r = dist_id_key (sr_distance r) (sr_id r)"

lemma scaled_int_less:
  fixes a b i i' :: int
  assumes "0 \<le> i" "i < 4294967296" "0 \<le> i'" "i' < 4294967296"
  shows "a * 4294967296 + i < b * 4294967296 + i' \<longleftrightarrow> a < b \<or> (a = b \<and> i < i')"
proof -
  consider "a + 1 \<le> b" | "a = b" | "b + 1 \<le> a" by linarith
  then show ?thesis using assms by cases linarith+
qed

lemma dist_id_key_less:
  "dist_id_key d i < dist_id_key d' i' \<longleftrightarrow>
   f32_key d < f32_key d' \<or> (f32_key d = f32_key d' \<and> i < i')"
proof -
  have "uint i < 4294967296" and "uint i' < 4294967296"
    using unsigned_less[of i, where ?'a = int] unsigned_less[of i', where ?'a = int] by simp_all
  then show ?thesis
    using scaled_int_less[of "uint i" "uint i'" "f32_key d" "f32_key d'"]
    by (simp add: dist_id_key_def word_less_def)
qed

lemma dist_id_key_eq:
  "dist_id_key d i = dist_id_key d' i' \<longleftrightarrow> f32_key d = f32_key d' \<and> i = i'"
  using dist_id_key_less[of d i d' i'] dist_id_key_less[of d' i' d i]
  by (metis linorder_less_linear less_irrefl)

lemma dist_id_less:
  assumes "\<not> f32_nan d" and "\<not> f32_nan d'"
  shows "(if f32_eq d d' then i < i' else f32_lt d d') \<longleftrightarrow> dist_id_key d i < dist_id_key d' i'"
  using assms by (auto simp: dist_id_key_less f32_eq_key f32_lt_key)

interpretation sro: keyed_order search_result_less sr_key sr_valid
  by unfold_locales (simp add: search_result_less_def sr_valid_def sr_key_def dist_id_less)

lemma sr_key_inj: "distinct (map sr_id rs) \<Longrightarrow> inj_on sr_key (set rs)"
  by (auto simp: inj_on_def sr_key_def dist_id_key_eq distinct_map)

section \<open>Squared L2 distance\<close>

text \<open>
  The three compile-time branches: eight AVX lanes, four SSE2 lanes or none, then the
  lanes are added in order and a scalar loop handles the rest. A pointer argument is an
  option; the block it points to holds at least \<open>dim\<close> values, which is the caller's
  duty in the code as well.
\<close>

datatype simd = AVX | SSE2 | Scalar

fun simd_lanes :: "simd \<Rightarrow> nat" where
  "simd_lanes AVX = 8"
| "simd_lanes SSE2 = 4"
| "simd_lanes Scalar = 0"

definition square_diff :: "f32 \<Rightarrow> f32 \<Rightarrow> f32" where
  "square_diff x y = (let diff = f32_sub x y in f32_mul diff diff)"

function lane_loop :: "nat \<Rightarrow> f32 list \<Rightarrow> f32 list \<Rightarrow> nat \<Rightarrow> nat \<Rightarrow> f32 list \<Rightarrow> nat \<times> f32 list" where
  "lane_loop n lhs rhs dim i acc =
     (if 0 < n \<and> i + n \<le> dim
      then lane_loop n lhs rhs dim (i + n)
        (map (\<lambda>j. f32_add (acc ! j) (square_diff (lhs ! (i + j)) (rhs ! (i + j)))) [0..<n])
      else (i, acc))"
  by pat_completeness auto
termination
  by (relation "measure (\<lambda>(n, lhs, rhs, dim, i, acc). dim - i)") auto

declare lane_loop.simps [simp del]

function tail_loop :: "f32 list \<Rightarrow> f32 list \<Rightarrow> nat \<Rightarrow> nat \<Rightarrow> f32 \<Rightarrow> f32" where
  "tail_loop lhs rhs dim i distance =
     (if i < dim
      then tail_loop lhs rhs dim (Suc i) (f32_add distance (square_diff (lhs ! i) (rhs ! i)))
      else distance)"
  by pat_completeness auto
termination
  by (relation "measure (\<lambda>(lhs, rhs, dim, i, distance). dim - i)") auto

declare tail_loop.simps [simp del]

definition squared_l2_values :: "simd \<Rightarrow> f32 list \<Rightarrow> f32 list \<Rightarrow> nat \<Rightarrow> f32" where
  "squared_l2_values mode lhs rhs dim =
     (let n = simd_lanes mode;
          (i, acc) = lane_loop n lhs rhs dim 0 (replicate n 0)
      in tail_loop lhs rhs dim i (foldl f32_add 0 acc))"

definition squared_l2_on :: "simd \<Rightarrow> f32 list option \<Rightarrow> f32 list option \<Rightarrow> nat \<Rightarrow> f32 result" where
  "squared_l2_on mode lhs rhs dim =
     (case (lhs, rhs) of
        (Some l, Some r) \<Rightarrow> Inr (squared_l2_values mode l r dim)
      | _ \<Rightarrow> Inl (Runtime_error ''squared_l2 requires non-null vectors''))"

text \<open>
  The build of \<open>CMakeLists.txt\<close> passes no architecture flag, so on x86-64 the SSE2 branch
  is the one compiled; the components below use this instance.
\<close>

definition squared_l2 :: "f32 list \<Rightarrow> f32 list \<Rightarrow> nat \<Rightarrow> f32" where
  "squared_l2 = squared_l2_values SSE2"

definition finite_vector :: "nat \<Rightarrow> f32 list \<Rightarrow> bool" where
  "finite_vector dim v \<longleftrightarrow> (\<forall>i<dim. f32_finite (v ! i))"

lemma square_diff_nonneg: "f32_finite x \<Longrightarrow> f32_finite y \<Longrightarrow> f32_nonneg (square_diff x y)"
  by (simp add: square_diff_def Let_def f32_mul_self f32_sub_finite)

lemma square_diff_self: "f32_finite x \<Longrightarrow> square_diff x x = 0"
  by (simp add: square_diff_def Let_def f32_sub_self)

lemma tail_loop_nonneg:
  assumes "finite_vector dim l" and "finite_vector dim r" and "f32_nonneg d"
  shows "f32_nonneg (tail_loop l r dim i d)"
  using assms
proof (induction l r dim i d rule: tail_loop.induct)
  case (1 l r dim i d)
  show ?case
  proof (cases "i < dim")
    case True
    have "f32_nonneg (f32_add d (square_diff (l ! i) (r ! i)))"
      using True "1.prems" by (simp add: finite_vector_def f32_add_nonneg square_diff_nonneg)
    from "1.IH"[OF True "1.prems"(1,2) this] True show ?thesis
      by (simp only: tail_loop.simps [of l r dim i d] if_True)
  next
    case False
    with "1.prems" show ?thesis by (simp only: tail_loop.simps [of l r dim i d] if_False)
  qed
qed

lemma lane_loop_nonneg:
  assumes "finite_vector dim l" and "finite_vector dim r"
    and "length acc = n" and "\<forall>x\<in>set acc. f32_nonneg x"
  shows "\<forall>x\<in>set (snd (lane_loop n l r dim i acc)). f32_nonneg x"
  using assms
proof (induction n l r dim i acc rule: lane_loop.induct)
  case (1 n l r dim i acc)
  show ?case
  proof (cases "0 < n \<and> i + n \<le> dim")
    case True
    let ?acc = "map (\<lambda>j. f32_add (acc ! j) (square_diff (l ! (i + j)) (r ! (i + j)))) [0..<n]"
    have acc: "\<forall>x\<in>set ?acc. f32_nonneg x"
    proof
      fix x assume "x \<in> set ?acc"
      then obtain j where j: "j < n"
        "x = f32_add (acc ! j) (square_diff (l ! (i + j)) (r ! (i + j)))" by auto
      then show "f32_nonneg x"
        using True "1.prems" by (simp add: finite_vector_def f32_add_nonneg square_diff_nonneg)
    qed
    show ?thesis
      using "1.IH"[OF True "1.prems"(1,2) _ acc] True
      by (simp only: lane_loop.simps [of n l r dim i acc] if_True) simp
  next
    case False
    with "1.prems"(4) show ?thesis
      by (simp only: lane_loop.simps [of n l r dim i acc] if_False) simp
  qed
qed

lemma foldl_add_nonneg:
  "\<forall>x\<in>set xs. f32_nonneg x \<Longrightarrow> f32_nonneg d \<Longrightarrow> f32_nonneg (foldl f32_add d xs)"
  by (induction xs arbitrary: d) (auto intro: f32_add_nonneg)

lemma squared_l2_values_nonneg:
  assumes "finite_vector dim l" and "finite_vector dim r"
  shows "f32_nonneg (squared_l2_values mode l r dim)"
  using lane_loop_nonneg[OF assms, of "replicate (simd_lanes mode) 0" "simd_lanes mode" 0] assms
  by (auto simp: squared_l2_values_def Let_def split: prod.splits
      intro!: tail_loop_nonneg foldl_add_nonneg)

lemma squared_l2_valid:
  "finite_vector n q \<Longrightarrow> finite_vector n v \<Longrightarrow> \<not> f32_nan (squared_l2 q v n)"
  using squared_l2_values_nonneg[of n q v SSE2] by (simp add: squared_l2_def f32_nonneg_not_nan)

lemma tail_loop_self: "finite_vector dim v \<Longrightarrow> tail_loop v v dim i 0 = 0"
proof (induction "dim - i" arbitrary: i)
  case 0
  then show ?case by (subst tail_loop.simps) simp
next
  case (Suc n)
  then show ?case
    by (subst tail_loop.simps) (simp add: finite_vector_def square_diff_self)
qed

lemma lane_loop_self:
  "finite_vector dim v \<Longrightarrow> \<exists>j. lane_loop n v v dim i (replicate n 0) = (j, replicate n 0)"
proof (induction "dim - i" arbitrary: i rule: less_induct)
  case less
  show ?case
  proof (cases "0 < n \<and> i + n \<le> dim")
    case True
    have "map (\<lambda>j. f32_add (replicate n 0 ! j) (square_diff (v ! (i + j)) (v ! (i + j)))) [0..<n]
      = replicate n 0"
      using True less.prems
      by (intro nth_equalityI) (auto simp: finite_vector_def square_diff_self)
    then show ?thesis
      using True less.hyps[of "i + n"] less.prems by (subst lane_loop.simps) auto
  next
    case False
    then show ?thesis by (subst lane_loop.simps) auto
  qed
qed

lemma foldl_add_zeros: "foldl f32_add 0 (replicate n 0) = 0"
  by (induction n) auto

section \<open>The first closest of several candidates\<close>

text \<open>
  The scan all quantisers share: start from index 0 and \<open>FLT_MAX\<close>, keep a candidate that is
  strictly closer than the best so far.
\<close>

definition closest_index :: "(nat \<Rightarrow> f32) \<Rightarrow> nat \<Rightarrow> nat \<times> f32" where
  "closest_index distance_to n = foldl (\<lambda>(best, best_distance) c.
     let distance = distance_to c
     in if f32_lt distance best_distance then (c, distance) else (best, best_distance))
     (0, f32_max) [0..<n]"

lemma closest_index_less: "0 < n \<Longrightarrow> fst (closest_index f n) < n"
proof -
  have "fst (closest_index f n) = 0 \<or> fst (closest_index f n) < n" for n
    by (induction n) (auto simp: closest_index_def Let_def split: prod.splits)
  then show "0 < n \<Longrightarrow> fst (closest_index f n) < n" by (metis not_gr_zero)
qed

lemma fp_key_max: "fp_finite binary32 n \<Longrightarrow> fp_key binary32 n \<le> fp_key binary32 (unat f32_max)"
proof -
  assume "fp_finite binary32 n"
  then have "n mod 2147483648 < 2139095040"
    by (simp add: fp_finite_def fp_mag_def binary32_def)
  then have "int (n mod 2147483648) \<le> 2139095039" by linarith
  moreover have "fp_key binary32 (unat f32_max) = 2139095039"
    by (simp add: fp_key_def fp_mag_def fp_neg_def f32_max_def binary32_def)
  ultimately show ?thesis by (simp add: fp_key_def fp_mag_def binary32_def)
qed

lemma f32_key_max: "f32_finite x \<Longrightarrow> f32_key x \<le> f32_key f32_max"
  by (simp add: f32_finite_def f32_key_def fp_key_max)

lemma f32_finite_not_nan: "f32_finite x \<Longrightarrow> \<not> f32_nan x"
  using fp_finite_not_nan by (auto simp: f32_finite_def f32_nan_def)

lemma closest_index_best:
  assumes "\<forall>c<n. f32_finite (f c)"
  shows "\<not> f32_nan (snd (closest_index f n)) \<and> (\<forall>c<n. f32_key (snd (closest_index f n)) \<le> f32_key (f c)) \<and>
    (closest_index f n = (0, f32_max) \<or> snd (closest_index f n) = f (fst (closest_index f n)) \<and> fst (closest_index f n) < n)"
  using assms
proof (induction n)
  case 0
  have "\<not> f32_nan f32_max" by (simp add: f32_nan_def fp_nan_def fp_mag_def f32_max_def binary32_def)
  then show ?case by (simp add: closest_index_def)
next
  case (Suc n)
  obtain b d where b: "closest_index f n = (b, d)" by (cases "closest_index f n")
  have IH: "\<not> f32_nan d" "\<forall>c<n. f32_key d \<le> f32_key (f c)" "b = 0 \<and> d = f32_max \<or> d = f b \<and> b < n"
    using Suc b by auto
  have nn: "\<not> f32_nan (f n)" using Suc.prems f32_finite_not_nan by simp
  have step: "closest_index f (Suc n) = (if f32_key (f n) < f32_key d then (n, f n) else (b, d))"
    using b IH(1) nn by (simp add: closest_index_def f32_lt_key)
  show ?case
  proof (cases "f32_key (f n) < f32_key d")
    case True
    then show ?thesis using IH(2) nn unfolding step by (auto simp: less_Suc_eq intro: less_imp_le order_trans)
  next
    case False
    then show ?thesis using IH unfolding step by (auto simp: less_Suc_eq)
  qed
qed

text \<open>Among finite distances the scan finds a minimum.\<close>

lemma closest_index_min:
  assumes "\<forall>c<n. f32_finite (f c)" and "c < n"
  shows "f32_key (f (fst (closest_index f n))) \<le> f32_key (f c)"
proof -
  note best = closest_index_best[OF assms(1)]
  show ?thesis
  proof (cases "snd (closest_index f n) = f (fst (closest_index f n))")
    case True
    then show ?thesis using best assms(2) by metis
  next
    case False
    then have z: "closest_index f n = (0, f32_max)" using best by blast
    then have "f32_key f32_max \<le> f32_key (f c)" using best assms(2) by (metis snd_conv)
    moreover have "f32_key (f 0) \<le> f32_key f32_max" using assms by (intro f32_key_max) auto
    ultimately show ?thesis using z by simp
  qed
qed

text \<open>The distance of a finite vector to itself is exactly zero, in every branch.\<close>

lemma squared_l2_self:
  assumes "finite_vector dim v"
  shows "squared_l2_on mode (Some v) (Some v) dim = Inr 0"
proof -
  obtain j where "lane_loop (simd_lanes mode) v v dim 0 (replicate (simd_lanes mode) 0) =
    (j, replicate (simd_lanes mode) 0)"
    using lane_loop_self[OF assms] by blast
  then show ?thesis
    by (simp add: squared_l2_on_def squared_l2_values_def foldl_add_zeros tail_loop_self assms)
qed

lemma squared_l2_same [simp]: "finite_vector dim v \<Longrightarrow> squared_l2 v v dim = 0"
  using squared_l2_self[of dim v SSE2] by (simp add: squared_l2_on_def squared_l2_def)

lemma squared_l2_self_demo:
  "squared_l2_on AVX (Some [0x3f800000, 0x40000000]) (Some [0x3f800000, 0x40000000]) 2 = Inr 0"
  by (rule squared_l2_self)
    (auto simp: finite_vector_def f32_finite_def fp_finite_def fp_mag_def binary32_def less_2_cases_iff)

end
