(* ===== verification/DynRecord.thy ===== *)
theory DynRecord
  imports Bytes Distance
begin

text \<open>
  \<open>include/dynamic/dynamic_record.h\<close> and the record helpers that \<open>wal.cpp\<close>,
  \<open>sstable.cpp\<close>, \<open>compaction.cpp\<close> and \<open>dynamic_write_manager.cpp\<close> share: payload
  checksum, "keep the newest version" and the reads of a version history. The abstract
  specification of a history is \<open>newest_version\<close>: the version of a node a reader at a
  given sequence number must see.
\<close>

record dynamic_record =
  dr_seq :: u64
  dr_node :: node_id
  dr_dim :: u32
  dr_vector :: "f32 list"
  dr_neighbors :: "node_id list"
  dr_deleted :: bool

definition default_record :: dynamic_record where
  "default_record = \<lparr>dr_seq = 0, dr_node = 0, dr_dim = 0, dr_vector = [], dr_neighbors = [],
     dr_deleted = False\<rparr>"

section \<open>Payload checksum\<close>

definition checksum_bytes :: "bytes \<Rightarrow> u32" where
  "checksum_bytes bs = fnv1a 2166136261 bs"

definition checksum_payload :: "f32 list \<Rightarrow> node_id list \<Rightarrow> u32" where
  "checksum_payload vector neighbors =
     (let hash = (if vector = [] then 2166136261 else checksum_bytes (words_bytes vector))
      in if neighbors = [] then hash
         else (let neighbor_hash = checksum_bytes (words_bytes neighbors)
               in hash XOR (neighbor_hash + 0x9e3779b9 + push_bit 6 hash + drop_bit 2 hash)))"

section \<open>Version histories\<close>

definition record_id_less :: "dynamic_record \<Rightarrow> dynamic_record \<Rightarrow> bool" where
  "record_id_less lhs rhs \<longleftrightarrow> dr_node lhs < dr_node rhs"

text \<open>One round of the loop over an \<open>unordered_map\<close> from node to newest record.\<close>

definition latest_step :: "(node_id, dynamic_record) umap \<Rightarrow> dynamic_record \<Rightarrow> (node_id, dynamic_record) umap" where
  "latest_step latest record =
     (case um_find latest (dr_node record) of
        None \<Rightarrow> um_assign (dr_node record) record latest
      | Some found \<Rightarrow>
          if dr_seq found < dr_seq record then um_assign (dr_node record) record latest else latest)"

definition deduplicate_newest :: "dynamic_record list \<Rightarrow> dynamic_record list" where
  "deduplicate_newest records =
     (let latest = foldl latest_step um_empty records;
          output = map snd (um_items latest)
      in std_sort record_id_less output)"

definition visible_at :: "u64 \<Rightarrow> dynamic_record list \<Rightarrow> dynamic_record list" where
  "visible_at read_sequence records = filter (\<lambda>record. dr_seq record \<le> read_sequence) records"

definition deduplicate_newest_at :: "dynamic_record list \<Rightarrow> u64 \<Rightarrow> dynamic_record list" where
  "deduplicate_newest_at records read_sequence = deduplicate_newest (visible_at read_sequence records)"

fun unique_versions_from ::
  "(node_id \<times> u64) set \<Rightarrow> dynamic_record list \<Rightarrow> dynamic_record list" where
  "unique_versions_from seen [] = []"
| "unique_versions_from seen (record # records) =
     (let key = (dr_node record, dr_seq record)
      in if key \<in> seen then unique_versions_from seen records
         else record # unique_versions_from (insert key seen) records)"

definition unique_record_versions :: "dynamic_record list \<Rightarrow> dynamic_record list" where
  "unique_record_versions records = unique_versions_from {} records"

definition latest_record_from_history ::
  "dynamic_record list \<Rightarrow> node_id \<Rightarrow> u64 \<Rightarrow> bool \<Rightarrow> dynamic_record option" where
  "latest_record_from_history records node_id read_sequence include_deleted =
     (let (latest, found) = foldl (\<lambda>(latest, found) record.
            if dr_node record \<noteq> node_id \<or> read_sequence < dr_seq record then (latest, found)
            else if \<not> found \<or> dr_seq latest < dr_seq record then (record, True)
            else (latest, found)) (default_record, False) records
      in if \<not> found \<or> (dr_deleted latest \<and> \<not> include_deleted) then None else Some latest)"

fun erase_deleted :: "node_id list \<Rightarrow> (node_id, dynamic_record) umap \<Rightarrow> (node_id, dynamic_record) umap" where
  "erase_deleted [] latest = latest"
| "erase_deleted (k # ks) latest =
     erase_deleted ks
       (case um_find latest k of
          Some record \<Rightarrow> if dr_deleted record then um_erase k latest else latest
        | None \<Rightarrow> latest)"

definition latest_records_for_from_history ::
  "dynamic_record list \<Rightarrow> node_id list \<Rightarrow> u64 \<Rightarrow> bool \<Rightarrow> (node_id, dynamic_record) umap" where
  "latest_records_for_from_history records node_ids read_sequence include_deleted =
     (let wanted = set node_ids;
          latest = foldl (\<lambda>latest record.
            if read_sequence < dr_seq record \<or> dr_node record \<notin> wanted then latest
            else latest_step latest record) um_empty records
      in if include_deleted then latest
         else erase_deleted (map fst (um_items latest)) latest)"

section \<open>Specification and refinement\<close>

text \<open>
  The version of a node visible at a sequence number: among the records of that node with
  a sequence number not above it, the first one with the greatest sequence number.
\<close>

definition newest_version :: "dynamic_record list \<Rightarrow> u64 \<Rightarrow> node_id \<Rightarrow> dynamic_record option" where
  "newest_version records s k =
     foldl (newer dr_seq) None (filter (\<lambda>r. dr_node r = k) (visible_at s records))"

lemma newest_version_node:
  assumes "newest_version rs s k = Some r"
  shows "r \<in> set rs" and "dr_node r = k" and "dr_seq r \<le> s"
    and "\<And>x. x \<in> set rs \<Longrightarrow> dr_node x = k \<Longrightarrow> dr_seq x \<le> s \<Longrightarrow> dr_seq x \<le> dr_seq r"
  using newest_max[of dr_seq "filter (\<lambda>r. dr_node r = k) (visible_at s rs)" r] assms
  by (auto simp: newest_version_def visible_at_def)

lemma newest_version_None:
  "newest_version rs s k = None \<longleftrightarrow> (\<forall>r\<in>set rs. dr_node r = k \<longrightarrow> s < dr_seq r)"
  by (auto simp: newest_version_def visible_at_def filter_empty_conv not_le)

lemma latest_step_keep_newest: "latest_step = keep_newest um_find um_assign dr_node dr_seq"
  by (intro ext) (simp add: latest_step_def keep_newest_def split: option.splits)

lemma latest_fold:
  "um_find (foldl latest_step um_empty rs) k = foldl (newer dr_seq) None (filter (\<lambda>r. dr_node r = k) rs)"
  "um_ok (foldl latest_step um_empty rs)"
  unfolding latest_step_keep_newest
  using um.fold_keep_newest[of um_empty dr_node dr_seq rs k] by simp_all

definition dr_key :: "dynamic_record \<Rightarrow> int" where
  "dr_key r = uint (dr_node r)"

interpretation rid: keyed_order record_id_less dr_key "\<lambda>_. True"
  by unfold_locales (simp add: record_id_less_def dr_key_def word_less_def)

lemma visible_at_max [simp]: "visible_at (- 1) rs = rs"
  by (simp add: visible_at_def)

text \<open>A sorted, duplicate-free listing of a lookup function.\<close>

definition lists_versions :: "dynamic_record list \<Rightarrow> (node_id \<Rightarrow> dynamic_record option) \<Rightarrow> bool" where
  "lists_versions out f \<longleftrightarrow>
     set out = {r. f (dr_node r) = Some r} \<and> sorted (map dr_node out) \<and> distinct (map dr_node out)"

lemma dr_key_sorted: "sorted (map dr_key xs) \<longleftrightarrow> sorted (map dr_node xs)"
  by (simp add: sorted_wrt_map dr_key_def word_le_def)

lemma dr_key_inj: "distinct (map dr_node xs) \<Longrightarrow> inj_on dr_key (set xs)"
  by (simp add: distinct_map inj_on_def dr_key_def word_uint_eq_iff [symmetric])

lemma umap_values_listing:
  assumes "um_ok m" and "\<And>k r. um_find m k = Some r \<Longrightarrow> dr_node r = k"
  shows "lists_versions (std_sort record_id_less (map snd (um_items m))) (um_find m)"
proof -
  have keys: "map dr_node (map snd (um_items m)) = map fst (um_items m)"
    using assms by (auto simp: um.items_lkp[OF assms(1), symmetric])
  have "set (map snd (um_items m)) = {r. um_find m (dr_node r) = Some r}"
    using assms(2) by (auto simp: um.set_values[OF assms(1)] simp del: set_map)
  moreover have "distinct (map dr_node (map snd (um_items m)))"
    unfolding keys by (rule um.items_distinct[OF assms(1)])
  ultimately show ?thesis
    using rid.sorted_std_sort[of "map snd (um_items m)"]
    by (simp add: lists_versions_def dr_key_sorted)
qed

lemma lists_versions_unique:
  assumes "lists_versions xs f" and "lists_versions ys f"
  shows "xs = ys"
proof -
  have "mset xs = mset ys"
    using assms by (auto simp: lists_versions_def set_eq_iff_mset_eq_distinct [symmetric] distinct_map)
  moreover have "sorted (map dr_node ys)" and "inj_on dr_node (set xs)"
    using assms by (auto simp: lists_versions_def distinct_map)
  ultimately have "sort_key dr_node xs = ys" by (intro sort_key_inj_key_eq)
  then show ?thesis using assms(1) by (simp add: sort_key_id_if_sorted lists_versions_def)
qed

lemma latest_find_node:
  "um_find (foldl latest_step um_empty rs) k = Some r \<Longrightarrow> dr_node r = k"
  using newest_max(1)[of dr_seq "filter (\<lambda>r. dr_node r = k) rs" r] by (auto simp: latest_fold)

lemma deduplicate_newest_listing:
  "lists_versions (deduplicate_newest_at rs s) (newest_version rs s)"
  unfolding deduplicate_newest_at_def deduplicate_newest_def Let_def newest_version_def
    latest_fold(1) [symmetric]
  by (intro umap_values_listing latest_fold(2)) (rule latest_find_node)


text \<open>The iteration order of the hash map is not observable in the sorted output.\<close>

lemma deduplicate_order_irrelevant:
  assumes "um_ok m" and "um_find m = um_find (foldl latest_step um_empty rs)"
  shows "std_sort record_id_less (map snd (um_items m)) = deduplicate_newest rs"
proof -
  have "mset (um_items m) = mset (um_items (foldl latest_step um_empty rs))"
    using assms by (intro um_items_mset latest_fold(2))
  then have ms: "mset (map snd (um_items m)) = mset (map snd (um_items (foldl latest_step um_empty rs)))"
    by simp
  have "lists_versions (std_sort record_id_less (map snd (um_items m))) (um_find m)"
    using assms by (intro umap_values_listing) (auto dest: latest_find_node)
  then have "distinct (map dr_node (map snd (um_items m)))"
    by (simp add: lists_versions_def)
  then show ?thesis
    unfolding deduplicate_newest_def Let_def
    by (intro rid.std_sort_cong[OF ms] dr_key_inj) auto
qed

section \<open>Point lookups refine the specification\<close>

lemma latest_scan:
  "foldl (\<lambda>(latest, found) record.
      if dr_node record \<noteq> k \<or> s < dr_seq record then (latest, found)
      else if \<not> found \<or> dr_seq latest < dr_seq record then (record, True)
      else (latest, found)) (q, found) rs =
   (case foldl (newer dr_seq) (if found then Some q else None)
      (filter (\<lambda>r. dr_node r = k) (visible_at s rs)) of
      None \<Rightarrow> (q, found) | Some r \<Rightarrow> (r, True))"
proof (induction rs arbitrary: q found)
  case Nil
  then show ?case by (simp add: visible_at_def)
next
  case (Cons r rs)
  show ?case
  proof (cases "dr_node r \<noteq> k \<or> s < dr_seq r")
    case True
    then show ?thesis using Cons.IH[of q found] by (auto simp: visible_at_def)
  next
    case False
    then have vis: "filter (\<lambda>r. dr_node r = k) (visible_at s (r # rs)) =
      r # filter (\<lambda>r. dr_node r = k) (visible_at s rs)"
      by (simp add: visible_at_def not_less)
    show ?thesis
      using False Cons.IH[of r True] Cons.IH[of q found] newer_Some[of dr_seq r] newer_Some[of dr_seq q]
      by (cases found) (auto simp: vis split: option.splits)
  qed
qed

lemma latest_record_from_history_eq:
  "latest_record_from_history rs k s include_deleted =
   (case newest_version rs s k of
      None \<Rightarrow> None
    | Some r \<Rightarrow> if dr_deleted r \<and> \<not> include_deleted then None else Some r)"
  using latest_scan[of k s default_record False rs]
  by (auto simp: latest_record_from_history_def newest_version_def split: option.splits)

lemma latest_for_fold:
  "foldl (\<lambda>latest record.
      if s < dr_seq record \<or> dr_node record \<notin> W then latest else latest_step latest record) m rs =
   foldl latest_step m (filter (\<lambda>r. dr_node r \<in> W) (visible_at s rs))"
  by (induction rs arbitrary: m) (auto simp: visible_at_def)

lemma erase_deleted_find:
  assumes "um_ok m"
  shows "um_ok (erase_deleted ks m)"
    and "um_find (erase_deleted ks m) k =
      (case um_find m k of
         Some r \<Rightarrow> if k \<in> set ks \<and> dr_deleted r then None else Some r
       | None \<Rightarrow> None)"
  using assms by (induction ks arbitrary: m) (auto split: option.splits)

text \<open>The batched lookup answers every wanted node as the point lookup does, and no other.\<close>

lemma latest_records_for_eq:
  "um_find (latest_records_for_from_history rs ids s include_deleted) k =
   (if k \<in> set ids then latest_record_from_history rs k s include_deleted else None)"
  "um_ok (latest_records_for_from_history rs ids s include_deleted)"
proof -
  let ?m = "foldl latest_step um_empty (filter (\<lambda>r. dr_node r \<in> set ids) (visible_at s rs))"
  have ok: "um_ok ?m" by (rule latest_fold(2))
  have find: "um_find ?m j = (if j \<in> set ids then newest_version rs s j else None)" for j
  proof -
    have "filter (\<lambda>r. dr_node r = j) (filter (\<lambda>r. dr_node r \<in> set ids) (visible_at s rs)) =
      (if j \<in> set ids then filter (\<lambda>r. dr_node r = j) (visible_at s rs) else [])"
      by (auto simp: filter_empty_conv intro: filter_cong)
    then show ?thesis by (simp add: latest_fold(1) newest_version_def)
  qed
  have keys: "um_find ?m j \<noteq> None \<Longrightarrow> j \<in> set (map fst (um_items ?m))" for j
    using um.items_keys[OF ok] by force
  have res: "latest_records_for_from_history rs ids s include_deleted =
    (if include_deleted then ?m else erase_deleted (map fst (um_items ?m)) ?m)"
    by (simp add: latest_records_for_from_history_def Let_def latest_for_fold)
  show "um_ok (latest_records_for_from_history rs ids s include_deleted)"
    using ok by (simp add: res erase_deleted_find(1))
  show "um_find (latest_records_for_from_history rs ids s include_deleted) k =
    (if k \<in> set ids then latest_record_from_history rs k s include_deleted else None)"
    using keys[of k]
    by (auto simp: res erase_deleted_find(2)[OF ok] find latest_record_from_history_eq
        simp del: set_map split: option.splits)
qed

section \<open>Repeated versions\<close>

lemma unique_versions_newest:
  assumes "\<And>q. (k, q) \<in> S \<Longrightarrow> q \<le> s \<Longrightarrow> \<exists>a. acc = Some a \<and> q \<le> dr_seq a"
  shows "foldl (newer dr_seq) acc (filter (\<lambda>r. dr_node r = k) (visible_at s (unique_versions_from S rs))) =
    foldl (newer dr_seq) acc (filter (\<lambda>r. dr_node r = k) (visible_at s rs))"
  using assms
proof (induction rs arbitrary: S acc)
  case Nil
  then show ?case by simp
next
  case (Cons r rs)
  define v where "v \<longleftrightarrow> dr_node r = k \<and> dr_seq r \<le> s"
  let ?acc = "if v then newer dr_seq acc r else acc"
  have step: "foldl (newer dr_seq) acc (filter (\<lambda>r. dr_node r = k) (visible_at s (r # xs))) =
    foldl (newer dr_seq) ?acc (filter (\<lambda>r. dr_node r = k) (visible_at s xs))" for xs
    by (simp add: v_def visible_at_def)
  show ?case
  proof (cases "(dr_node r, dr_seq r) \<in> S")
    case True
    have "?acc = acc"
      using True Cons.prems[of "dr_seq r"] by (auto simp: v_def)
    then show ?thesis using True Cons.IH[OF Cons.prems] by (simp only: step) simp
  next
    case False
    have "\<exists>a. ?acc = Some a \<and> q \<le> dr_seq a"
      if q: "(k, q) \<in> insert (dr_node r, dr_seq r) S" "q \<le> s" for q
    proof (cases "q = dr_seq r \<and> dr_node r = k")
      case True
      then show ?thesis using q by (cases acc) (auto simp: v_def)
    next
      case False
      then obtain a where "acc = Some a" "q \<le> dr_seq a" using q Cons.prems by auto
      then show ?thesis by auto
    qed
    then show ?thesis
      using False Cons.IH[of "insert (dr_node r, dr_seq r) S" ?acc] by (simp only: step unique_versions_from.simps Let_def if_False)
  qed
qed

lemma newest_version_unique [simp]:
  "newest_version (unique_record_versions rs) s k = newest_version rs s k"
  unfolding newest_version_def unique_record_versions_def by (rule unique_versions_newest) simp

lemma deduplicate_unique [simp]:
  "deduplicate_newest_at (unique_record_versions rs) s = deduplicate_newest_at rs s"
proof (rule lists_versions_unique)
  show "lists_versions (deduplicate_newest_at (unique_record_versions rs) s) (newest_version rs s)"
    using deduplicate_newest_listing[of "unique_record_versions rs" s] by (simp add: lists_versions_def)
  show "lists_versions (deduplicate_newest_at rs s) (newest_version rs s)"
    by (rule deduplicate_newest_listing)
qed

section \<open>Snapshot stability\<close>

lemma newest_version_append_later:
  "\<forall>r\<in>set new. s < dr_seq r \<Longrightarrow> newest_version (rs @ new) s k = newest_version rs s k"
  by (simp add: newest_version_def visible_at_def filter_empty_conv not_le)

lemma newest_version_append_newer:
  assumes "\<forall>x\<in>set rs. dr_seq x < dr_seq r" and "dr_seq r \<le> s"
  shows "newest_version (rs @ [r]) s k =
    (if k = dr_node r then Some r else newest_version rs s k)"
proof (cases "k = dr_node r")
  case True
  show ?thesis
  proof (cases "newest_version rs s k")
    case None
    then show ?thesis using True assms(2) by (simp add: newest_version_def visible_at_def)
  next
    case (Some q)
    then have "dr_seq q < dr_seq r" using assms(1) newest_version_node(1) by blast
    with Some True assms(2) show ?thesis by (simp add: newest_version_def visible_at_def)
  qed
next
  case False
  then show ?thesis by (simp add: newest_version_def visible_at_def)
qed

text \<open>A record for concrete runs.\<close>

definition demo_record :: "u64 \<Rightarrow> dynamic_record" where
  "demo_record s = \<lparr>dr_seq = s, dr_node = 7, dr_dim = 2, dr_vector = [0x3f800000, 0x40000000],
     dr_neighbors = [1, 2], dr_deleted = False\<rparr>"

end
