(* ===== verification/MemTable.thy ===== *)
theory MemTable
  imports DynRecord
begin

text \<open>
  \<open>src/dynamic/memtable.cpp\<close>: the in-memory table holds the newest record of every node
  and an estimate of the bytes it occupies, an unsigned counter kept by addition and
  subtraction. Every method holds the table's mutex for its whole body, so one call is one
  atomic step.
\<close>

record mem_table =
  mt_flush_threshold_bytes :: u64
  mt_current_bytes :: u64
  mt_records :: "(node_id, dynamic_record) umap"

text \<open>\<open>sizeof(DynamicRecord)\<close> under the LP64 ABI: 8 + 4 + 4 + 24 + 24 + 1, padded to 72.\<close>

definition sizeof_DynamicRecord :: nat where
  "sizeof_DynamicRecord = 72"

definition estimate_record_bytes :: "dynamic_record \<Rightarrow> u64" where
  "estimate_record_bytes record =
     word_of_nat (sizeof_DynamicRecord + length (dr_vector record) * 4 + length (dr_neighbors record) * 4)"

definition MemTable :: "u64 \<Rightarrow> mem_table" where
  "MemTable flush_threshold_bytes =
     \<lparr>mt_flush_threshold_bytes = flush_threshold_bytes, mt_current_bytes = 0, mt_records = um_empty\<rparr>"

definition mt_insert :: "dynamic_record \<Rightarrow> mem_table \<Rightarrow> bool \<times> mem_table" where
  "mt_insert record t =
     (case um_find (mt_records t) (dr_node record) of
        Some existing \<Rightarrow>
          if dr_seq record \<le> dr_seq existing then (False, t)
          else (True, t\<lparr>
            mt_current_bytes := mt_current_bytes t - estimate_record_bytes existing + estimate_record_bytes record,
            mt_records := um_assign (dr_node record) record (mt_records t)\<rparr>)
      | None \<Rightarrow> (True, t\<lparr>
            mt_current_bytes := mt_current_bytes t + estimate_record_bytes record,
            mt_records := um_assign (dr_node record) record (mt_records t)\<rparr>))"

definition mt_get :: "mem_table \<Rightarrow> node_id \<Rightarrow> dynamic_record option" where
  "mt_get t node_id = um_find (mt_records t) node_id"

definition mt_contains :: "mem_table \<Rightarrow> node_id \<Rightarrow> bool" where
  "mt_contains t node_id \<longleftrightarrow> um_find (mt_records t) node_id \<noteq> None"

definition mt_snapshot :: "mem_table \<Rightarrow> dynamic_record list" where
  "mt_snapshot t = map snd (um_items (mt_records t))"

definition mt_clear :: "mem_table \<Rightarrow> mem_table" where
  "mt_clear t = t\<lparr>mt_records := um_empty, mt_current_bytes := 0\<rparr>"

definition mt_size :: "mem_table \<Rightarrow> nat" where
  "mt_size t = length (um_items (mt_records t))"

definition mt_bytes :: "mem_table \<Rightarrow> u64" where
  "mt_bytes t = mt_current_bytes t"

definition mt_should_flush :: "mem_table \<Rightarrow> bool" where
  "mt_should_flush t \<longleftrightarrow> mt_flush_threshold_bytes t \<le> mt_current_bytes t"

section \<open>Invariant\<close>

definition mt_total :: "mem_table \<Rightarrow> u64" where
  "mt_total t = sum_list (map (estimate_record_bytes \<circ> snd) (um_items (mt_records t)))"

definition mt_inv :: "mem_table \<Rightarrow> bool" where
  "mt_inv t \<longleftrightarrow> um_ok (mt_records t) \<and>
     (\<forall>k r. um_find (mt_records t) k = Some r \<longrightarrow> dr_node r = k) \<and> mt_current_bytes t = mt_total t"

lemma sum_list_update:
  fixes f :: "'k \<times> 'v \<Rightarrow> 'b::ab_group_add"
  assumes "um_ok m"
  shows "sum_list (map f (um_items (um_assign k v m))) =
    sum_list (map f (um_items m)) + f (k, v) -
      (case um_find m k of None \<Rightarrow> 0 | Some v' \<Rightarrow> f (k, v'))"
  using assms
proof (induction m)
  case Nil
  then show ?case by (simp add: um_items_def um_assign_def um_find_def)
next
  case (Cons x m)
  obtain k' v' where x: "x = (k', v')" by (cases x)
  show ?case
  proof (cases "k' = k")
    case True
    then have "map_of m k = None" using Cons.prems x by (simp add: um_ok_def map_of_eq_None_iff)
    then show ?thesis using True x by (simp add: um_items_def um_assign_def um_find_def)
  next
    case False
    then show ?thesis using Cons x by (simp add: um_items_def um_assign_def um_find_def um_ok_def)
  qed
qed

lemma mt_inv_MemTable: "mt_inv (MemTable n)"
  by (simp add: mt_inv_def MemTable_def mt_total_def um_items_def um_empty_def um_ok_def um_find_def)

lemma mt_inv_clear: "mt_inv (mt_clear t)"
  by (simp add: mt_inv_def mt_clear_def mt_total_def um_items_def um_empty_def um_ok_def um_find_def)

lemma mt_insert_records:
  "mt_records (snd (mt_insert r t)) = latest_step (mt_records t) r"
  by (auto simp: mt_insert_def latest_step_def not_less split: option.splits)

text \<open>
  Every insert keeps the table well formed: one entry per node, each under its own
  node, and the byte counter equal to the sum of the entries' estimates, although it is
  maintained by differences.
\<close>

lemma mt_insert_inv_step:
  assumes "mt_inv t"
  shows "mt_inv (snd (mt_insert r t))"
proof -
  have ok: "um_ok (mt_records t)" and find: "\<And>k r. um_find (mt_records t) k = Some r \<Longrightarrow> dr_node r = k"
    and total: "mt_current_bytes t = mt_total t"
    using assms by (auto simp: mt_inv_def)
  have upd: "sum_list (map (estimate_record_bytes \<circ> snd) (um_items (um_assign (dr_node r) r (mt_records t)))) =
    mt_total t + estimate_record_bytes r -
    (case um_find (mt_records t) (dr_node r) of None \<Rightarrow> 0 | Some q \<Rightarrow> estimate_record_bytes q)"
    using sum_list_update[OF ok, of "estimate_record_bytes \<circ> snd" "dr_node r" r]
    by (simp add: mt_total_def comp_def split: option.splits)
  show ?thesis
    using ok find total upd
    by (auto simp: mt_inv_def mt_insert_def mt_total_def split: option.splits)
qed

section \<open>What a table built by inserts holds\<close>

definition mt_insert_all :: "dynamic_record list \<Rightarrow> mem_table \<Rightarrow> mem_table" where
  "mt_insert_all rs t = foldl (\<lambda>t r. snd (mt_insert r t)) t rs"

lemma mt_insert_all_records:
  "mt_records (mt_insert_all rs t) = foldl latest_step (mt_records t) rs"
  unfolding mt_insert_all_def by (induction rs arbitrary: t) (simp_all add: mt_insert_records)

lemma mt_insert_all_inv: "mt_inv t \<Longrightarrow> mt_inv (mt_insert_all rs t)"
  unfolding mt_insert_all_def
  by (induction rs arbitrary: t) (simp_all add: mt_insert_inv_step)

text \<open>
  After any sequence of inserts into a fresh table, a lookup returns the newest version
  of the node, and nothing for a node that was never inserted.
\<close>

theorem mt_get_newest:
  "mt_get (mt_insert_all rs (MemTable n)) k = newest_version rs (- 1) k"
  by (simp add: mt_get_def mt_insert_all_records MemTable_def latest_fold newest_version_def)

lemma mt_insert_result:
  "fst (mt_insert r t) \<longleftrightarrow> (\<forall>q. mt_get t (dr_node r) = Some q \<longrightarrow> dr_seq q < dr_seq r)"
  by (auto simp: mt_insert_def mt_get_def not_le split: option.splits)

end
