(* ===== verification/Wal.thy ===== *)
theory Wal
  imports DynRecord Disk
begin

text \<open>
  \<open>src/dynamic/wal.cpp\<close>: the write-ahead log of the dynamic layer. One record is a header
  of 41 bytes (fields in the order \<open>write_header\<close> emits them) followed by the vector and
  the neighbour list; replay stops at the first record it cannot accept. The theory proves
  the log a \<open>record_log\<close>, so that crash recovery follows from the interface.
\<close>

section \<open>Record header\<close>

definition kWalRecordMagic :: u32 where "kWalRecordMagic = 0x41574c50"
definition kWalRecordVersion :: u16 where "kWalRecordVersion = 1"
definition kWalInsertOp :: u16 where "kWalInsertOp = 1"
definition kMaxPayloadBytes :: nat where "kMaxPayloadBytes = 512 * 1024 * 1024"

record wal_header =
  wh_magic :: u32
  wh_version :: u16
  wh_op_type :: u16
  wh_sequence_id :: u64
  wh_node_id :: u64
  wh_dim :: u32
  wh_vector_bytes :: u32
  wh_neighbor_count :: u32
  wh_deleted :: u8
  wh_payload_checksum :: u32

definition header_fields :: "wal_header \<Rightarrow> bytes list" where
  "header_fields h =
     [enc_word (wh_magic h), enc_word (wh_version h), enc_word (wh_op_type h),
      enc_word (wh_sequence_id h), enc_word (wh_node_id h), enc_word (wh_dim h),
      enc_word (wh_vector_bytes h), enc_word (wh_neighbor_count h), enc_word (wh_deleted h),
      enc_word (wh_payload_checksum h)]"

definition read_header :: "bytes \<Rightarrow> (wal_header \<times> bytes) option" where
  "read_header input =
     Option.bind (get_word input) (\<lambda>(magic, input).
     Option.bind (get_word input) (\<lambda>(version, input).
     Option.bind (get_word input) (\<lambda>(op_type, input).
     Option.bind (get_word input) (\<lambda>(sequence_id, input).
     Option.bind (get_word input) (\<lambda>(node_id, input).
     Option.bind (get_word input) (\<lambda>(dim, input).
     Option.bind (get_word input) (\<lambda>(vector_bytes, input).
     Option.bind (get_word input) (\<lambda>(neighbor_count, input).
     Option.bind (get_word input) (\<lambda>(deleted, input).
     Option.bind (get_word input) (\<lambda>(payload_checksum, input).
       Some (\<lparr>wh_magic = magic, wh_version = version, wh_op_type = op_type,
              wh_sequence_id = sequence_id, wh_node_id = node_id, wh_dim = dim,
              wh_vector_bytes = vector_bytes, wh_neighbor_count = neighbor_count,
              wh_deleted = deleted, wh_payload_checksum = payload_checksum\<rparr>, input)))))))))))"

definition header_shape_is_valid :: "wal_header \<Rightarrow> bool" where
  "header_shape_is_valid h \<longleftrightarrow>
     wh_magic h = kWalRecordMagic \<and> wh_version h = kWalRecordVersion \<and>
     wh_op_type h = kWalInsertOp \<and> wh_deleted h \<le> 1 \<and>
     unat (wh_dim h) \<le> (2 ^ 32 - 1) div 4 \<and>
     unat (wh_vector_bytes h) = unat (wh_dim h) * 4 \<and>
     unat (wh_vector_bytes h) + unat (wh_neighbor_count h) * 4 \<le> kMaxPayloadBytes"

definition node_id_fits :: "node_id \<Rightarrow> u64 \<Rightarrow> bool" where
  "node_id_fits node_id value \<longleftrightarrow> unat value \<le> 2 ^ 32 - 1 \<and> node_id = ucast value"

section \<open>Writer\<close>

record wal_writer =
  ww_output :: ofstream
  ww_closed :: bool

definition WalWriter :: "string \<Rightarrow> disk \<Rightarrow> wal_writer \<times> disk" where
  "WalWriter path d =
     (let (output, d') = os_open False path d
      in (\<lparr>ww_output = output, ww_closed = False\<rparr>, d'))"

definition record_shape_ok :: "dynamic_record \<Rightarrow> bool" where
  "record_shape_ok r \<longleftrightarrow>
     unat (dr_dim r) = length (dr_vector r) \<and> length (dr_vector r) \<le> (2 ^ 32 - 1) div 4 \<and>
     length (dr_neighbors r) \<le> 2 ^ 32 - 1"

definition wal_record_header :: "dynamic_record \<Rightarrow> wal_header" where
  "wal_record_header r =
     \<lparr>wh_magic = kWalRecordMagic, wh_version = kWalRecordVersion, wh_op_type = kWalInsertOp,
      wh_sequence_id = dr_seq r, wh_node_id = ucast (dr_node r), wh_dim = dr_dim r,
      wh_vector_bytes = word_of_nat (length (dr_vector r) * 4),
      wh_neighbor_count = word_of_nat (length (dr_neighbors r)),
      wh_deleted = (if dr_deleted r then 1 else 0),
      wh_payload_checksum = checksum_payload (dr_vector r) (dr_neighbors r)\<rparr>"

text \<open>The chunks one append hands to the stream, in order.\<close>

definition wal_chunks :: "dynamic_record \<Rightarrow> bytes list" where
  "wal_chunks r =
     header_fields (wal_record_header r) @
     (if dr_vector r = [] then [] else [words_bytes (dr_vector r)]) @
     (if dr_neighbors r = [] then [] else [words_bytes (dr_neighbors r)])"

definition wal_append :: "wal_writer \<Rightarrow> dynamic_record \<Rightarrow> disk \<Rightarrow> bool \<times> wal_writer \<times> disk" where
  "wal_append w r d =
     (if ww_closed w \<or> \<not> os_good (ww_output w) then (False, w, d)
      else if \<not> record_shape_ok r then (False, w, d)
      else (let (output, d') = os_writes (wal_chunks r) (ww_output w) d
            in (os_good output, w\<lparr>ww_output := output\<rparr>, d')))"

definition wal_sync :: "wal_writer \<Rightarrow> disk \<Rightarrow> bool \<times> wal_writer \<times> disk" where
  "wal_sync w d =
     (if ww_closed w \<or> \<not> os_good (ww_output w) then (False, w, d)
      else (let (output, d') = os_flush (ww_output w) d
            in (os_good output, w\<lparr>ww_output := output\<rparr>, d')))"

definition wal_close :: "wal_writer \<Rightarrow> disk \<Rightarrow> bool \<times> wal_writer \<times> disk" where
  "wal_close w d =
     (if ww_closed w then (True, w, d)
      else (let (ok, w', d') = wal_sync w d in (ok, w'\<lparr>ww_closed := True\<rparr>, d')))"

section \<open>Reader\<close>

text \<open>One round of the loop in \<open>WalReader::replay\<close>; \<open>None\<close> is its \<open>break\<close>.\<close>

definition wal_read_record :: "bytes \<Rightarrow> (dynamic_record \<times> bytes) option" where
  "wal_read_record input =
     Option.bind (read_header input) (\<lambda>(header, input).
       if \<not> header_shape_is_valid header then None
       else if \<not> node_id_fits (ucast (wh_node_id header)) (wh_node_id header) then None
       else
         Option.bind (get_many get_word (unat (wh_dim header)) input) (\<lambda>(vector, input).
         Option.bind (get_many get_word (unat (wh_neighbor_count header)) input) (\<lambda>(neighbors, input).
           if checksum_payload vector neighbors \<noteq> wh_payload_checksum header then None
           else Some (\<lparr>dr_seq = wh_sequence_id header, dr_node = ucast (wh_node_id header),
                  dr_dim = wh_dim header, dr_vector = vector, dr_neighbors = neighbors,
                  dr_deleted = (wh_deleted header \<noteq> 0)\<rparr>, input))))"

lemma read_header_width: "read_header bs = Some (h, rest) \<Longrightarrow> length bs = 41 + length rest"
  by (auto simp: read_header_def bind_eq_Some_conv dest!: get_widths)

lemma wal_read_record_shrinks:
  "wal_read_record bs = Some (r, rest) \<Longrightarrow> length rest < length bs"
  by (auto simp: wal_read_record_def bind_eq_Some_conv split: if_splits
      dest!: read_header_width get_widths)

function wal_replay_bytes :: "bytes \<Rightarrow> dynamic_record list" where
  "wal_replay_bytes input =
     (if input = [] then []
      else case wal_read_record input of
        None \<Rightarrow> []
      | Some (record, rest) \<Rightarrow> record # wal_replay_bytes rest)"
  by pat_completeness auto
termination
  by (relation "measure length") (auto dest: wal_read_record_shrinks)

declare wal_replay_bytes.simps [simp del]

definition wal_replay :: "string \<Rightarrow> disk \<Rightarrow> dynamic_record list \<times> disk" where
  "wal_replay path d =
     (let (input, d') = read_file path d
      in case input of None \<Rightarrow> ([], d') | Some bs \<Rightarrow> (wal_replay_bytes bs, d'))"

section \<open>The log keeps the interface\<close>

definition wal_encode :: "dynamic_record \<Rightarrow> bytes" where
  "wal_encode r = concat (wal_chunks r)"

definition wal_good :: "dynamic_record \<Rightarrow> bool" where
  "wal_good r \<longleftrightarrow> record_shape_ok r \<and>
     length (dr_vector r) * 4 + length (dr_neighbors r) * 4 \<le> kMaxPayloadBytes"

lemma wal_encode_eq:
  "wal_encode r = concat (header_fields (wal_record_header r)) @
     words_bytes (dr_vector r) @ words_bytes (dr_neighbors r)"
  by (simp add: wal_encode_def wal_chunks_def words_bytes_def)

lemma read_header_fields: "read_header (concat (header_fields h) @ bs) = Some (h, bs)"
  by (simp add: read_header_def header_fields_def)

lemma unat_of_len32: "n \<le> 2 ^ 32 - 1 \<Longrightarrow> unat (word_of_nat n :: u32) = n"
  by (simp add: unat_of_nat)

lemma wal_header_valid:
  assumes "wal_good r"
  shows "header_shape_is_valid (wal_record_header r)"
    and "unat (wh_dim (wal_record_header r)) = length (dr_vector r)"
    and "unat (wh_neighbor_count (wal_record_header r)) = length (dr_neighbors r)"
proof -
  have "length (dr_vector r) * 4 \<le> 2 ^ 32 - 1" and "length (dr_neighbors r) \<le> 2 ^ 32 - 1"
    using assms by (auto simp: wal_good_def record_shape_ok_def)
  then have v: "unat (word_of_nat (length (dr_vector r) * 4) :: u32) = length (dr_vector r) * 4"
    and n: "unat (word_of_nat (length (dr_neighbors r)) :: u32) = length (dr_neighbors r)"
    by (simp_all only: unat_of_len32)
  show "unat (wh_dim (wal_record_header r)) = length (dr_vector r)"
    using assms by (simp add: wal_record_header_def wal_good_def record_shape_ok_def)
  show "unat (wh_neighbor_count (wal_record_header r)) = length (dr_neighbors r)"
    using n by (simp add: wal_record_header_def)
  show "header_shape_is_valid (wal_record_header r)"
    unfolding header_shape_is_valid_def wal_record_header_def
    using assms v n by (simp add: wal_good_def record_shape_ok_def)
qed

lemma node_id_ucast [simp]: "node_id_fits n (ucast n)" "ucast (ucast n :: u64) = (n :: node_id)"
proof -
  show "ucast (ucast n :: u64) = (n :: node_id)" by (intro ucast_up_ucast_id) (simp add: is_up)
  have "uint (ucast n :: u64) = uint n" by (rule uint_up_ucast) (simp add: is_up)
  then have "unat (ucast n :: u64) = unat n" by (simp only: unat_eq_nat_uint)
  moreover have "unat n < 2 ^ 32" using unsigned_less[of n] by simp
  ultimately show "node_id_fits n (ucast n)"
    by (simp add: node_id_fits_def ucast_up_ucast_id is_up)
qed

lemma wal_read_encode:
  assumes "wal_good r"
  shows "wal_read_record (wal_encode r @ bs) = Some (r, bs)"
proof -
  have len: "unat (dr_dim r) = length (dr_vector r)"
    using assms by (simp add: wal_good_def record_shape_ok_def)
  have f: "wh_node_id (wal_record_header r) = ucast (dr_node r)"
    "wh_payload_checksum (wal_record_header r) = checksum_payload (dr_vector r) (dr_neighbors r)"
    "wh_sequence_id (wal_record_header r) = dr_seq r" "wh_dim (wal_record_header r) = dr_dim r"
    "(wh_deleted (wal_record_header r) \<noteq> 0) = dr_deleted r"
    by (simp_all add: wal_record_header_def)
  have "wal_read_record (concat (header_fields (wal_record_header r)) @
      words_bytes (dr_vector r) @ words_bytes (dr_neighbors r) @ bs) = Some (r, bs)"
    unfolding wal_read_record_def read_header_fields
    using wal_header_valid[OF assms] by (simp add: f len)
  then show ?thesis by (simp add: wal_encode_eq)
qed

lemma read_header_local [reader_intros]: "local_reader read_header"
  unfolding read_header_def by (intro reader_intros)

lemma wal_read_local: "local_reader wal_read_record"
  unfolding wal_read_record_def by (intro reader_intros)

interpretation wal: record_log wal_encode wal_read_record wal_replay_bytes wal_good
proof unfold_locales
  show nil: "wal_read_record [] = None"
    by (cases "wal_read_record []") (auto dest: wal_read_record_shrinks)
  show "wal_replay_bytes bs =
      (case wal_read_record bs of None \<Rightarrow> [] | Some (r, rest) \<Rightarrow> r # wal_replay_bytes rest)" for bs
    by (cases "bs = []") (simp_all add: wal_replay_bytes.simps[of bs] wal_replay_bytes.simps[of "[]"] nil)
qed (simp_all add: wal_read_encode local_readerD [OF wal_read_local])

section \<open>Appending and crashing\<close>

text \<open>A run of appends, each of which the caller saw succeed or not.\<close>

fun wal_append_all :: "wal_writer \<Rightarrow> dynamic_record list \<Rightarrow> disk \<Rightarrow> bool \<times> wal_writer \<times> disk" where
  "wal_append_all w [] d = (True, w, d)"
| "wal_append_all w (r # rs) d =
     (case wal_append w r d of
        (ok, w', d') \<Rightarrow> if ok then wal_append_all w' rs d' else (False, w', d'))"

lemma wal_append_True:
  assumes "wal_append w r d = (True, w', d')"
  shows "record_shape_ok r" and "files d' = files d"
    and "os_pending (ww_output w') = os_pending (ww_output w) @ wal_encode r"
    and "os_path (ww_output w') = os_path (ww_output w)" and "os_good (ww_output w')"
    and "ww_closed w' = ww_closed w"
proof -
  obtain os1 d1 where w: "os_writes (wal_chunks r) (ww_output w) d = (os1, d1)"
    by (cases "os_writes (wal_chunks r) (ww_output w) d")
  show "record_shape_ok r" using assms by (auto simp: wal_append_def split: if_splits)
  have o: "os_good (ww_output w)" "os_good os1" "w' = w\<lparr>ww_output := os1\<rparr>" "d' = d1"
    using assms w by (auto simp: wal_append_def split: if_splits)
  from os_writes_prefix[OF w o(1)] o show "files d' = files d"
    "os_pending (ww_output w') = os_pending (ww_output w) @ wal_encode r"
    "os_path (ww_output w') = os_path (ww_output w)" "os_good (ww_output w')"
    "ww_closed w' = ww_closed w"
    by (auto simp: wal_encode_def)
qed

lemma wal_append_all_True:
  assumes "wal_append_all w rs d = (True, w', d')"
  shows "\<forall>r\<in>set rs. record_shape_ok r"
    and "os_pending (ww_output w') = os_pending (ww_output w) @ concat (map wal_encode rs)"
    and "os_path (ww_output w') = os_path (ww_output w)" and "files d' = files d"
  using assms
  by (induction rs arbitrary: w d)
    (auto split: prod.splits if_splits dest: wal_append_True)

lemma wal_append_reliable:
  assumes "outcomes d = []" and "os_good (ww_output w)" and "\<not> ww_closed w" and "record_shape_ok r"
  shows "wal_append w r d =
    (True, w\<lparr>ww_output := (ww_output w)\<lparr>os_pending := os_pending (ww_output w) @ wal_encode r\<rparr>\<rparr>, d)"
  using assms by (simp add: wal_append_def wal_encode_def)

lemma file_bytes_crash [simp]:
  "file_bytes (os_path os) (crash_stream n os d) = file_bytes (os_path os) d @ take n (os_pending os)"
  by (simp add: crash_stream_def)

text \<open>
  C33: whatever part of the buffered bytes a crash leaves in the log file, replay returns
  the records logged before followed by a prefix of the records appended since, cut at a
  record boundary: never a record that was not appended, never a hole.
\<close>

theorem wal_crash_recovery:
  assumes "file_bytes path d = concat (map wal_encode old)"
    and "os_path (ww_output w) = path" and "os_pending (ww_output w) = []"
    and "\<forall>r\<in>set (old @ rs). wal_good r"
    and "wal_append_all w rs d = (True, w', d')"
  shows "\<exists>n\<le>length rs. wal_replay_bytes (file_bytes path (crash_stream m (ww_output w') d')) = old @ take n rs
    \<and> length (concat (map wal_encode (take n rs))) \<le> m
    \<and> (n < length rs \<longrightarrow> m < length (concat (map wal_encode (take (Suc n) rs))))"
proof -
  have w': "os_pending (ww_output w') = concat (map wal_encode rs)" "os_path (ww_output w') = path"
    and d': "files d' = files d"
    using wal_append_all_True(2-4)[OF assms(5)] assms(2,3) by simp_all
  let ?p = "take m (concat (map wal_encode rs))"
  have "file_bytes path (crash_stream m (ww_output w') d') = concat (map wal_encode old) @ ?p"
    using file_bytes_crash[of "ww_output w'" m d'] assms(1) w' d' by (simp add: file_bytes_def)
  then have r: "wal_replay_bytes (file_bytes path (crash_stream m (ww_output w') d')) =
    old @ wal_replay_bytes ?p"
    using assms(4) by (simp add: wal.replay_append)
  obtain n where n: "n \<le> length rs" "wal_replay_bytes ?p = take n rs"
    "prefix (concat (map wal_encode (take n rs))) ?p"
    "n < length rs \<longrightarrow> length ?p < length (concat (map wal_encode (take (Suc n) rs)))"
    using wal.replay_prefix[of rs ?p] assms(4) by (auto simp: take_is_prefix)
  have "m < length (concat (map wal_encode (take (Suc n) rs)))" if "n < length rs"
  proof -
    have "concat (map wal_encode rs) =
      concat (map wal_encode (take (Suc n) rs)) @ concat (map wal_encode (drop (Suc n) rs))"
      by (simp only: concat_append [symmetric] map_append [symmetric] append_take_drop_id)
    then have "length (concat (map wal_encode (take (Suc n) rs))) \<le> length (concat (map wal_encode rs))"
      by (simp only: length_append)
    moreover have "length ?p < length (concat (map wal_encode (take (Suc n) rs)))"
      using n(4) that by (rule mp)
    ultimately show ?thesis by (simp only: length_take min_def split: if_splits)
  qed
  moreover have "wal_replay_bytes (file_bytes path (crash_stream m (ww_output w') d')) = old @ take n rs"
    using r n(2) by (simp only:)
  moreover have "length (concat (map wal_encode (take n rs))) \<le> m"
    using prefix_length_le[OF n(3)] by (simp only: length_take)
  ultimately show ?thesis using n(1) by blast
qed

section \<open>What replay cannot see\<close>

text \<open>Every record starts with the same eight bytes, and replay accepts nothing else.\<close>

definition wal_prefix :: bytes where
  "wal_prefix = [0x50, 0x4c, 0x57, 0x41, 1, 0, 1, 0]"

lemma length_wal_prefix [simp]: "length wal_prefix = 8"
  by (simp add: wal_prefix_def)

lemma wal_prefix_fields:
  "enc_word kWalRecordMagic @ enc_word kWalRecordVersion @ enc_word kWalInsertOp = wal_prefix"
proof -
  have n: "(4::nat) = Suc (Suc (Suc (Suc 0)))" "(2::nat) = Suc (Suc 0)" by simp_all
  have "enc_word kWalRecordMagic = nat_le (Suc (Suc (Suc (Suc 0)))) 0x41574c50"
    and "enc_word kWalRecordVersion = nat_le (Suc (Suc 0)) 1"
    and "enc_word kWalInsertOp = nat_le (Suc (Suc 0)) 1"
    by (simp_all add: enc_word_def kWalRecordMagic_def kWalRecordVersion_def kWalInsertOp_def
        n [symmetric] del: nat_le.simps)
  then show ?thesis by (simp add: wal_prefix_def)
qed

lemma wal_encode_starts: "\<exists>rest. wal_encode r = wal_prefix @ rest \<and> 33 \<le> length rest"
  by (intro exI[of _ "drop 8 (wal_encode r)"])
    (simp add: wal_encode_eq header_fields_def wal_record_header_def wal_prefix_fields [symmetric])

lemma wal_read_starts:
  assumes "wal_read_record bs = Some (r, rest)"
  shows "\<exists>rest'. bs = wal_prefix @ rest'"
  using assms
  by (auto simp: wal_read_record_def read_header_def bind_eq_Some_conv header_shape_is_valid_def
      wal_prefix_fields [symmetric] dest!: get_word_bytes split: if_splits)

lemma os_flush_True:
  assumes "os_flush os d = (os', d')" and "os_good os'"
  shows "file_bytes (os_path os) d' = file_bytes (os_path os) d @ os_pending os"
    and "os_pending os' = []" and "os_path os' = os_path os"
  using assms next_outcome_files[of d]
  by (auto simp: os_flush_def file_bytes_def split: if_splits io_outcome.splits prod.splits)

lemma wal_sync_True:
  assumes "wal_sync w d = (True, w', d')"
  shows "file_bytes (os_path (ww_output w)) d' =
      file_bytes (os_path (ww_output w)) d @ os_pending (ww_output w)"
    and "os_pending (ww_output w') = []"
  using assms os_flush_True
  by (auto simp: wal_sync_def split: if_splits prod.splits)

lemma WalWriter_opens:
  assumes "WalWriter path d = (w, d')"
  shows "os_path (ww_output w) = path" and "os_pending (ww_output w) = []"
    and "file_bytes path d' = file_bytes path d" and "\<not> ww_closed w"
  using assms io_call_files[of d]
  by (auto simp: WalWriter_def os_open_def file_bytes_def split: if_splits prod.splits)

text \<open>Opening the log, appending and syncing: the file grows by exactly the appended records.\<close>

lemma wal_session_bytes:
  assumes "WalWriter path d = (w, d1)" and "wal_append_all w rs d1 = (True, w2, d2)"
    and "wal_sync w2 d2 = (True, w3, d3)"
  shows "file_bytes path d3 = file_bytes path d @ concat (map wal_encode rs)"
proof -
  note w = WalWriter_opens[OF assms(1)] and a = wal_append_all_True[OF assms(2)]
  have "os_path (ww_output w2) = path" and "os_pending (ww_output w2) = concat (map wal_encode rs)"
    using w a by simp_all
  moreover have "file_bytes path d2 = file_bytes path d"
    using w(3) a(4) by (simp add: file_bytes_def)
  ultimately show ?thesis using wal_sync_True(1)[OF assms(3)] by simp
qed

text \<open>
  A session that opens the log, appends records and sees the sync succeed is durable:
  replay returns the records of the earlier sessions and then those of this one.
\<close>

theorem wal_synced_session_durable:
  assumes "file_bytes path d = concat (map wal_encode old)" and "\<forall>r\<in>set (old @ rs). wal_good r"
    and "WalWriter path d = (w, d1)" and "wal_append_all w rs d1 = (True, w2, d2)"
    and "wal_sync w2 d2 = (True, w3, d3)"
  shows "wal_replay_bytes (file_bytes path d3) = old @ rs"
proof -
  have "file_bytes path d3 = concat (map wal_encode (old @ rs))"
    using wal_session_bytes[OF assms(3-5)] assms(1) by simp
  then show ?thesis using wal.replay_all[OF assms(2)] by (simp only:)
qed

lemma wal_prefix_shift:
  assumes "0 < n" and "n < 8"
  shows "take n wal_prefix @ wal_prefix @ x \<noteq> wal_prefix @ y"
proof -
  have "n \<in> {1, 2, 3, 4, 5, 6, 7}" using assms by auto
  then show ?thesis by (auto simp: wal_prefix_def)
qed

lemma wal_torn_read:
  assumes "wal_good r" and "0 < n" and "n < 8"
  shows "wal_read_record (take n (wal_encode r) @ concat (map wal_encode later)) = None"
proof (cases later)
  case Nil
  obtain rest where "wal_encode r = wal_prefix @ rest" "33 \<le> length rest"
    using wal_encode_starts by blast
  then have "n < length (wal_encode r)" using assms(3) by simp
  then have "strict_prefix (take n (wal_encode r)) (wal_encode r)"
    by (auto simp: strict_prefix_def take_is_prefix)
  then show ?thesis using wal.dec_cut[OF assms(1)] Nil by simp
next
  case (Cons r' rs)
  obtain a where a: "wal_encode r = wal_prefix @ a" using wal_encode_starts by blast
  obtain b where b: "wal_encode r' = wal_prefix @ b" using wal_encode_starts by blast
  have "take n (wal_encode r) = take n wal_prefix"
    using a assms(3) by simp
  then have eq: "take n (wal_encode r) @ concat (map wal_encode later) =
    take n wal_prefix @ wal_prefix @ b @ concat (map wal_encode rs)"
    by (simp add: Cons b)
  show ?thesis
  proof (rule ccontr)
    assume "wal_read_record (take n (wal_encode r) @ concat (map wal_encode later)) \<noteq> None"
    then obtain q rest where "wal_read_record (take n (wal_encode r) @ concat (map wal_encode later)) = Some (q, rest)"
      by auto
    from wal_read_starts[OF this] show False
      using wal_prefix_shift[OF assms(2,3)] by (simp only: eq) blast
  qed
qed

text \<open>
  C34: the writer appends after whatever the file holds. When a crash left the first bytes
  of a record, a later session whose appends and sync all succeeded is lost: replay
  returns the records before the torn one and none of the later ones.
\<close>

theorem wal_torn_tail_hides_later_records:
  assumes "file_bytes path d = concat (map wal_encode old) @ take n (wal_encode r)"
    and "\<forall>q\<in>set old. wal_good q" and "wal_good r" and "0 < n" and "n < 8"
    and "WalWriter path d = (w, d1)" and "wal_append_all w later d1 = (True, w2, d2)"
    and "wal_sync w2 d2 = (True, w3, d3)"
  shows "wal_replay_bytes (file_bytes path d3) = old"
proof -
  have "file_bytes path d3 =
    concat (map wal_encode old) @ take n (wal_encode r) @ concat (map wal_encode later)"
    using wal_session_bytes[OF assms(6-8)] assms(1) by simp
  then show ?thesis
    using wal.replay_torn[OF assms(2) wal_torn_read[OF assms(3-5)], of later] by (simp only:)
qed

section \<open>Sessions on a reliable disk\<close>

lemma demo_record_good: "wal_good (demo_record s)"
  by (simp add: wal_good_def record_shape_ok_def demo_record_def kMaxPayloadBytes_def)

lemma wal_append_all_reliable:
  assumes "outcomes d = []" and "os_good (ww_output w)" and "\<not> ww_closed w"
    and "\<forall>r\<in>set rs. record_shape_ok r"
  shows "wal_append_all w rs d = (True, w\<lparr>ww_output := (ww_output w)\<lparr>os_pending :=
    os_pending (ww_output w) @ concat (map wal_encode rs)\<rparr>\<rparr>, d)"
  using assms by (induction rs arbitrary: w) (simp_all add: wal_append_reliable)

lemma wal_session_reliable:
  assumes "outcomes d = []" and "\<forall>r\<in>set rs. record_shape_ok r"
  obtains w d1 w2 d2 w3 d3 where "WalWriter path d = (w, d1)"
    and "wal_append_all w rs d1 = (True, w2, d2)" and "wal_sync w2 d2 = (True, w3, d3)"
    and "os_pending (ww_output w) = []" and "os_path (ww_output w) = path" and "files d1 = (files d)(path \<mapsto> file_bytes path d)"
  using assms
  by (simp add: WalWriter_def wal_append_all_reliable wal_sync_def)

lemma length_demo_encode: "length (wal_encode (demo_record s)) = 57"
  by (simp add: wal_encode_eq header_fields_def demo_record_def)

theorem wal_crash_recovery_witness:
  "\<exists>(w :: wal_writer) (d :: disk).
     wal_replay_bytes (file_bytes ''wal'' (crash_stream 80 (ww_output w) d)) = [demo_record 1]"
proof -
  let ?rs = "[demo_record 1, demo_record 2]"
  obtain w d1 w2 d2 where s: "WalWriter ''wal'' empty_disk = (w, d1)"
    "wal_append_all w ?rs d1 = (True, w2, d2)"
    using demo_record_good
    by (rule_tac wal_session_reliable[of empty_disk ?rs "''wal''"]) (auto simp: empty_disk_def wal_good_def)
  have h1: "file_bytes ''wal'' d1 = concat (map wal_encode [])"
    using WalWriter_opens(3)[OF s(1)] by (simp add: file_bytes_def empty_disk_def)
  have h2: "\<forall>r\<in>set ([] @ ?rs). wal_good r" by (simp add: demo_record_good)
  from wal_crash_recovery[OF h1 WalWriter_opens(1,2)[OF s(1)] h2 s(2), of 80]
  obtain n where n: "n \<le> length ?rs" "length (concat (map wal_encode (take n ?rs))) \<le> 80"
    "n < length ?rs \<longrightarrow> 80 < length (concat (map wal_encode (take (Suc n) ?rs)))"
    "wal_replay_bytes (file_bytes ''wal'' (crash_stream 80 (ww_output w2) d2)) = [] @ take n ?rs"
    by blast
  consider "n = 0" | "n = 1" | "n = 2" using n(1) by fastforce
  then have "n = 1" using n(2,3) by cases (simp_all add: length_demo_encode)
  then have "wal_replay_bytes (file_bytes ''wal'' (crash_stream 80 (ww_output w2) d2)) = [demo_record 1]"
    using n(4) by simp
  then show ?thesis by blast
qed

theorem wal_synced_session_durable_witness:
  "\<exists>d :: disk. wal_replay_bytes (file_bytes ''wal'' d) = [demo_record 1, demo_record 2]"
proof -
  let ?rs = "[demo_record 1, demo_record 2]"
  obtain w d1 w2 d2 w3 d3 where s: "WalWriter ''wal'' empty_disk = (w, d1)"
    "wal_append_all w ?rs d1 = (True, w2, d2)" "wal_sync w2 d2 = (True, w3, d3)"
    using demo_record_good
    by (rule_tac wal_session_reliable[of empty_disk ?rs "''wal''"]) (auto simp: empty_disk_def wal_good_def)
  have "wal_replay_bytes (file_bytes ''wal'' d3) = [] @ ?rs"
    by (rule wal_synced_session_durable[OF _ _ s]) (simp_all add: file_bytes_def empty_disk_def demo_record_good)
  then show ?thesis by auto
qed

theorem wal_torn_tail_witness:
  "\<exists>(d :: disk) d3 w d1 w2 d2 w3. WalWriter ''wal'' d = (w, d1) \<and>
     wal_append_all w [demo_record 3, demo_record 4] d1 = (True, w2, d2) \<and>
     wal_sync w2 d2 = (True, w3, d3) \<and> wal_replay_bytes (file_bytes ''wal'' d3) = [demo_record 1]"
proof -
  let ?rs = "[demo_record 3, demo_record 4]"
  let ?d = "put_file ''wal'' (concat (map wal_encode [demo_record 1]) @ take 3 (wal_encode (demo_record 2))) empty_disk"
  obtain w d1 w2 d2 w3 d3 where s: "WalWriter ''wal'' ?d = (w, d1)"
    "wal_append_all w ?rs d1 = (True, w2, d2)" "wal_sync w2 d2 = (True, w3, d3)"
    using demo_record_good
    by (rule_tac wal_session_reliable[of ?d ?rs "''wal''"]) (auto simp: empty_disk_def wal_good_def)
  have "wal_replay_bytes (file_bytes ''wal'' d3) = [demo_record 1]"
    by (rule wal_torn_tail_hides_later_records[OF _ _ _ _ _ s, where n = 3 and r = "demo_record 2"])
      (simp_all add: demo_record_good)
  with s show ?thesis by blast
qed

end
