(* ===== verification/SSTable.thy ===== *)
theory SSTable
  imports DynRecord JsonText
begin

text \<open>
  \<open>src/dynamic/sstable.cpp\<close>: immutable tables of records. A table is three files: the data
  records, an index of node, sequence number and byte offset, and a JSON meta file. The
  theory shows that a written table answers point reads and scans with the newest version of
  every node it was given.
\<close>

definition kSSTableDataMagic :: u32 where "kSSTableDataMagic = 0x44535450"
definition kSSTableIndexMagic :: u32 where "kSSTableIndexMagic = 0x49535450"
definition kSSTableVersion :: u16 where "kSSTableVersion = 1"
definition kMaxRecordPayloadBytes :: nat where "kMaxRecordPayloadBytes = 512 * 1024 * 1024"

record data_record_header =
  dh_magic :: u32
  dh_version :: u16
  dh_deleted :: u8
  dh_sequence_id :: u64
  dh_node_id :: u64
  dh_dim :: u32
  dh_vector_bytes :: u32
  dh_neighbor_count :: u32
  dh_payload_checksum :: u32

definition normalize_base_path :: "string \<Rightarrow> string" where
  "normalize_base_path path =
     (if path_extension path \<in> {''.data'', ''.index'', ''.meta''} then replace_extension path []
      else path)"

section \<open>Data records\<close>

definition data_header_fields :: "data_record_header \<Rightarrow> bytes list" where
  "data_header_fields h =
     [enc_word (dh_magic h), enc_word (dh_version h), enc_word (dh_deleted h),
      enc_word (dh_sequence_id h), enc_word (dh_node_id h), enc_word (dh_dim h),
      enc_word (dh_vector_bytes h), enc_word (dh_neighbor_count h), enc_word (dh_payload_checksum h)]"

definition read_data_header :: "bytes \<Rightarrow> (data_record_header \<times> bytes) option" where
  "read_data_header input =
     Option.bind (get_word input) (\<lambda>(magic, input).
     Option.bind (get_word input) (\<lambda>(version, input).
     Option.bind (get_word input) (\<lambda>(deleted, input).
     Option.bind (get_word input) (\<lambda>(sequence_id, input).
     Option.bind (get_word input) (\<lambda>(node_id, input).
     Option.bind (get_word input) (\<lambda>(dim, input).
     Option.bind (get_word input) (\<lambda>(vector_bytes, input).
     Option.bind (get_word input) (\<lambda>(neighbor_count, input).
     Option.bind (get_word input) (\<lambda>(payload_checksum, input).
       Some (\<lparr>dh_magic = magic, dh_version = version, dh_deleted = deleted,
              dh_sequence_id = sequence_id, dh_node_id = node_id, dh_dim = dim,
              dh_vector_bytes = vector_bytes, dh_neighbor_count = neighbor_count,
              dh_payload_checksum = payload_checksum\<rparr>, input))))))))))"

definition data_header_is_valid :: "data_record_header \<Rightarrow> bool" where
  "data_header_is_valid h \<longleftrightarrow>
     dh_magic h = kSSTableDataMagic \<and> dh_version h = kSSTableVersion \<and> dh_deleted h \<le> 1 \<and>
     unat (dh_dim h) \<le> (2 ^ 32 - 1) div 4 \<and>
     unat (dh_vector_bytes h) = unat (dh_dim h) * 4 \<and>
     unat (dh_vector_bytes h) + unat (dh_neighbor_count h) * 4 \<le> kMaxRecordPayloadBytes \<and>
     unat (dh_node_id h) \<le> 2 ^ 32 - 1"

definition sst_record_ok :: "dynamic_record \<Rightarrow> bool" where
  "sst_record_ok record \<longleftrightarrow>
     unat (dr_dim record) = length (dr_vector record) \<and>
     length (dr_vector record) \<le> (2 ^ 32 - 1) div 4 \<and> length (dr_neighbors record) \<le> 2 ^ 32 - 1"

definition sst_record_header :: "dynamic_record \<Rightarrow> data_record_header" where
  "sst_record_header record =
     \<lparr>dh_magic = kSSTableDataMagic, dh_version = kSSTableVersion,
      dh_deleted = (if dr_deleted record then 1 else 0), dh_sequence_id = dr_seq record,
      dh_node_id = ucast (dr_node record), dh_dim = dr_dim record,
      dh_vector_bytes = word_of_nat (length (dr_vector record) * 4),
      dh_neighbor_count = word_of_nat (length (dr_neighbors record)),
      dh_payload_checksum = checksum_payload (dr_vector record) (dr_neighbors record)\<rparr>"

definition sst_chunks :: "dynamic_record \<Rightarrow> bytes list" where
  "sst_chunks record =
     data_header_fields (sst_record_header record) @
     (if dr_vector record = [] then [] else [words_bytes (dr_vector record)]) @
     (if dr_neighbors record = [] then [] else [words_bytes (dr_neighbors record)])"

definition write_record :: "ofstream \<Rightarrow> dynamic_record \<Rightarrow> disk \<Rightarrow> bool \<times> ofstream \<times> disk" where
  "write_record output record d =
     (if \<not> sst_record_ok record then (False, output, d)
      else (let (output, d) = os_writes (sst_chunks record) output d in (os_good output, output, d)))"

text \<open>What \<open>read_record_at\<close> makes of the bytes from the offset on.\<close>

definition decode_record :: "bytes \<Rightarrow> dynamic_record option" where
  "decode_record input =
     Option.bind (read_data_header input) (\<lambda>(header, input).
       if \<not> data_header_is_valid header then None
       else
         Option.bind (get_many get_word (unat (dh_dim header)) input) (\<lambda>(vector, input).
         Option.bind (get_many get_word (unat (dh_neighbor_count header)) input) (\<lambda>(neighbors, input).
           if checksum_payload vector neighbors \<noteq> dh_payload_checksum header then None
           else Some \<lparr>dr_seq = dh_sequence_id header, dr_node = ucast (dh_node_id header),
                  dr_dim = dh_dim header, dr_vector = vector, dr_neighbors = neighbors,
                  dr_deleted = (dh_deleted header \<noteq> 0)\<rparr>)))"

definition read_record_at :: "string \<Rightarrow> u64 \<Rightarrow> disk \<Rightarrow> dynamic_record option \<times> disk" where
  "read_record_at data_path offset d =
     (let (input, d) = read_file data_path d
      in case input of
           None \<Rightarrow> (None, d)
         | Some bs \<Rightarrow>
             if 2 ^ 63 \<le> unat offset then (None, d)
             else (decode_record (drop (unat offset) bs), d))"

definition deduplicate_records :: "dynamic_record list \<Rightarrow> dynamic_record list" where
  "deduplicate_records records =
     (let latest = foldl latest_step um_empty records;
          result = map snd (um_items latest)
      in std_sort record_id_less result)"

section \<open>Index and meta files\<close>

definition index_header_chunks :: "nat \<Rightarrow> bytes list" where
  "index_header_chunks record_count =
     [enc_word kSSTableIndexMagic, enc_word kSSTableVersion, enc_word (word_of_nat record_count :: u64)]"

definition read_index_header :: "bytes \<Rightarrow> (u64 \<times> bytes) option" where
  "read_index_header input =
     Option.bind (get_word input) (\<lambda>(magic, input).
     Option.bind (get_word input) (\<lambda>(version, input).
     Option.bind (get_word input) (\<lambda>(record_count, input).
       if magic = kSSTableIndexMagic \<and> version = kSSTableVersion then Some (record_count, input)
       else None)))"

definition index_entry_chunks :: "node_id \<Rightarrow> u64 \<Rightarrow> u64 \<Rightarrow> bytes list" where
  "index_entry_chunks node_id sequence_id offset =
     [enc_word (ucast node_id :: u64), enc_word sequence_id, enc_word offset]"

definition meta_text :: "u64 \<Rightarrow> int \<Rightarrow> nat \<Rightarrow> u64 \<Rightarrow> u64 \<Rightarrow> string" where
  "meta_text table_id level record_count min_sequence_id max_sequence_id =
     ''{'' @ nl @
     json_line 2 ''magic'' (quoted ''AM_P5_SSTABLE'') '','' @
     json_line 2 ''version'' (show_nat (unat kSSTableVersion)) '','' @
     json_line 2 ''sstable_id'' (show_nat (unat table_id)) '','' @
     json_line 2 ''level'' (show_int level) '','' @
     json_line 2 ''record_count'' (show_nat record_count) '','' @
     json_line 2 ''min_sequence_id'' (show_nat (unat min_sequence_id)) '','' @
     json_line 2 ''max_sequence_id'' (show_nat (unat max_sequence_id)) [] @
     ''}'' @ nl"

text \<open>The result is read before the destructor flushes the stream: a late error is not seen.\<close>

definition write_meta ::
  "string \<Rightarrow> u64 \<Rightarrow> int \<Rightarrow> nat \<Rightarrow> u64 \<Rightarrow> u64 \<Rightarrow> disk \<Rightarrow> bool \<times> disk" where
  "write_meta meta_path table_id level record_count min_sequence_id max_sequence_id d =
     (let (output, d) = os_open True meta_path d
      in if \<not> os_good output then (False, d)
         else (let (output, d) = os_write (text_bytes
                     (meta_text table_id level record_count min_sequence_id max_sequence_id)) output d
               in (os_good output, os_destroy output d)))"

record sst_meta =
  sm_id :: u64
  sm_level :: int
  sm_record_count :: u64
  sm_min_sequence_id :: u64
  sm_max_sequence_id :: u64

definition parse_meta :: "string \<Rightarrow> sst_meta option" where
  "parse_meta meta =
     (if find_sub (quoted ''AM_P5_SSTABLE'') meta = None then None
      else
        Option.bind (parse_json_integer meta ''version'') (\<lambda>version_value.
        if version_value \<noteq> uint kSSTableVersion then None else
        Option.bind (parse_json_integer meta ''sstable_id'') (\<lambda>id_value.
        Option.bind (parse_json_integer meta ''level'') (\<lambda>level_value.
        Option.bind (parse_json_integer meta ''record_count'') (\<lambda>count_value.
        Option.bind (parse_json_integer meta ''min_sequence_id'') (\<lambda>min_value.
        Option.bind (parse_json_integer meta ''max_sequence_id'') (\<lambda>max_value.
          if id_value < 0 \<or> count_value < 0 \<or> min_value < 0 \<or> max_value < 0 \<or>
             level_value < - (2 ^ 31) \<or> 2 ^ 31 - 1 < level_value
          then None
          else Some \<lparr>sm_id = word_of_int id_value, sm_level = level_value,
                 sm_record_count = word_of_int count_value,
                 sm_min_sequence_id = word_of_int min_value,
                 sm_max_sequence_id = word_of_int max_value\<rparr>)))))))"

definition load_meta :: "string \<Rightarrow> disk \<Rightarrow> sst_meta option \<times> disk" where
  "load_meta meta_path d =
     (let (input, d) = read_file meta_path d
      in (Option.bind input (\<lambda>bs. parse_meta (bytes_text bs)), d))"

section \<open>Writer\<close>

record sst_writer =
  sw_dir :: string
  sw_sstable_id :: u64
  sw_level :: int

text \<open>The loop over the records; the result says whether it ran to its end.\<close>

fun sst_write_records ::
  "dynamic_record list \<Rightarrow> ofstream \<Rightarrow> ofstream \<Rightarrow> disk \<Rightarrow> bool \<times> ofstream \<times> ofstream \<times> disk" where
  "sst_write_records [] data_output index_output d = (True, data_output, index_output, d)"
| "sst_write_records (record # records) data_output index_output d =
     (let offset = os_tellp data_output d;
          (ok, data_output, d) = write_record data_output record d
      in if \<not> ok then (False, data_output, index_output, d)
         else (let (index_output, d) = os_writes
                     (index_entry_chunks (dr_node record) (dr_seq record) offset) index_output d
               in if \<not> os_good index_output then (False, data_output, index_output, d)
                  else sst_write_records records data_output index_output d))"

definition min_max_sequence :: "dynamic_record list \<Rightarrow> u64 \<times> u64" where
  "min_max_sequence records =
     (case records of
        [] \<Rightarrow> (0, 0)
      | front # _ \<Rightarrow>
          foldl (\<lambda>(lo, hi) record. (min lo (dr_seq record), max hi (dr_seq record)))
            (dr_seq front, dr_seq front) records)"

definition sst_write :: "sst_writer \<Rightarrow> dynamic_record list \<Rightarrow> disk \<Rightarrow> bool \<times> disk" where
  "sst_write w records d =
     (let (created, d) = io_call d
      in if \<not> created then (False, d) else
      (let base_path = path_join (sw_dir w) (sstable_name (sw_sstable_id w));
           latest_records = deduplicate_records records;
           (min_sequence_id, max_sequence_id) = min_max_sequence latest_records;
           (data_output, d) = os_open True (replace_extension base_path ''.data'') d;
           (index_output, d) = os_open True (replace_extension base_path ''.index'') d
       in if \<not> os_good data_output \<or> \<not> os_good index_output
          then (False, os_destroy data_output (os_destroy index_output d)) else
      (let (index_output, d) = os_writes (index_header_chunks (length latest_records)) index_output d
       in if \<not> os_good index_output then (False, os_destroy data_output (os_destroy index_output d)) else
      (let (ok, data_output, index_output, d) = sst_write_records latest_records data_output index_output d
       in if \<not> ok then (False, os_destroy data_output (os_destroy index_output d)) else
      (let (data_output, d) = os_flush data_output d;
           (index_output, d) = os_flush index_output d
       in if \<not> os_good data_output \<or> \<not> os_good index_output
          then (False, os_destroy data_output (os_destroy index_output d))
          else write_meta (replace_extension base_path ''.meta'') (sw_sstable_id w) (sw_level w)
                 (length latest_records) min_sequence_id max_sequence_id d)))))"

section \<open>Reader\<close>

record index_entry =
  ie_sequence_id :: u64
  ie_offset :: u64

record sst_reader =
  st_data_path :: string
  st_index_path :: string
  st_meta_path :: string
  st_index :: "(node_id, index_entry) umap"
  st_meta :: sst_meta
  st_opened :: bool

definition SSTableReader :: "string \<Rightarrow> sst_reader" where
  "SSTableReader base_path =
     (let base = normalize_base_path base_path
      in \<lparr>st_data_path = replace_extension base ''.data'',
          st_index_path = replace_extension base ''.index'',
          st_meta_path = replace_extension base ''.meta'', st_index = um_empty,
          st_meta = \<lparr>sm_id = 0, sm_level = 0, sm_record_count = 0, sm_min_sequence_id = 0,
            sm_max_sequence_id = 0\<rparr>, st_opened = False\<rparr>)"

definition read_index_entry :: "bytes \<Rightarrow> ((u64 \<times> u64 \<times> u64) \<times> bytes) option" where
  "read_index_entry input =
     Option.bind (get_word input) (\<lambda>(node_id, input).
     Option.bind (get_word input) (\<lambda>(sequence_id, input).
     Option.bind (get_word input) (\<lambda>(offset, input).
       Some ((node_id, sequence_id, offset), input))))"

fun sst_read_index ::
  "nat \<Rightarrow> bytes \<Rightarrow> (node_id, index_entry) umap \<Rightarrow> bool \<times> (node_id, index_entry) umap" where
  "sst_read_index 0 input index = (True, index)"
| "sst_read_index (Suc n) input index =
     (case read_index_entry input of
        None \<Rightarrow> (False, index)
      | Some ((node_id, sequence_id, offset), input) \<Rightarrow>
          if 2 ^ 32 - 1 < unat node_id then (False, index)
          else sst_read_index n input
            (um_assign (ucast node_id) \<lparr>ie_sequence_id = sequence_id, ie_offset = offset\<rparr> index))"

definition sst_open :: "sst_reader \<Rightarrow> disk \<Rightarrow> bool \<times> sst_reader \<times> disk" where
  "sst_open t d =
     (let t = t\<lparr>st_index := um_empty, st_opened := False\<rparr>;
          (loaded, d) = load_meta (st_meta_path t) d
      in case loaded of
           None \<Rightarrow> (False, t, d)
         | Some loaded \<Rightarrow>
      (let t = t\<lparr>st_meta := loaded\<rparr>;
           (index_input, d) = read_file (st_index_path t) d
      in case Option.bind index_input read_index_header of
           None \<Rightarrow> (False, t, d)
         | Some (stored_count, input) \<Rightarrow>
             if stored_count \<noteq> sm_record_count (st_meta t) then (False, t, d) else
      (let (ok, index) = sst_read_index (unat stored_count) input um_empty;
           t = t\<lparr>st_index := index\<rparr>
      in if \<not> ok then (False, t, d) else
      (let (data_input, d) = read_file (st_data_path t) d
      in if data_input = None then (False, t, d)
         else (True, t\<lparr>st_opened := True\<rparr>, d)))))"

definition sst_get :: "sst_reader \<Rightarrow> node_id \<Rightarrow> disk \<Rightarrow> dynamic_record option \<times> disk" where
  "sst_get t node_id d =
     (if \<not> st_opened t then (None, d)
      else case um_find (st_index t) node_id of
        None \<Rightarrow> (None, d)
      | Some found \<Rightarrow>
          (let (read, d) = read_record_at (st_data_path t) (ie_offset found) d
           in case read of
                None \<Rightarrow> (None, d)
              | Some record \<Rightarrow>
                  if dr_node record \<noteq> node_id \<or> dr_seq record \<noteq> ie_sequence_id found then (None, d)
                  else (Some record, d)))"

fun sst_get_each :: "sst_reader \<Rightarrow> node_id list \<Rightarrow> disk \<Rightarrow> dynamic_record list \<times> disk" where
  "sst_get_each t [] d = ([], d)"
| "sst_get_each t (k # ks) d =
     (let (found, d) = sst_get t k d;
          (records, d) = sst_get_each t ks d
      in (case found of None \<Rightarrow> records | Some record \<Rightarrow> record # records, d))"

definition sst_scan_all :: "sst_reader \<Rightarrow> disk \<Rightarrow> dynamic_record list \<times> disk" where
  "sst_scan_all t d =
     (if \<not> st_opened t then ([], d)
      else (let (records, d) = sst_get_each t (map fst (um_items (st_index t))) d
            in (std_sort record_id_less records, d)))"

definition sst_id :: "sst_reader \<Rightarrow> u64" where
  "sst_id t = sm_id (st_meta t)"

definition sst_level :: "sst_reader \<Rightarrow> int" where
  "sst_level t = sm_level (st_meta t)"

definition sst_record_count :: "sst_reader \<Rightarrow> u64" where
  "sst_record_count t = sm_record_count (st_meta t)"

definition sst_max_sequence_id :: "sst_reader \<Rightarrow> u64" where
  "sst_max_sequence_id t = sm_max_sequence_id (st_meta t)"

section \<open>Reading back one record\<close>

definition sst_encode :: "dynamic_record \<Rightarrow> bytes" where
  "sst_encode r = concat (sst_chunks r)"

definition sst_good :: "dynamic_record \<Rightarrow> bool" where
  "sst_good r \<longleftrightarrow> sst_record_ok r \<and>
     length (dr_vector r) * 4 + length (dr_neighbors r) * 4 \<le> kMaxRecordPayloadBytes \<and>
     unat (dr_seq r) < 2 ^ 63"

lemma sst_encode_eq:
  "sst_encode r = concat (data_header_fields (sst_record_header r)) @
     words_bytes (dr_vector r) @ words_bytes (dr_neighbors r)"
  by (simp add: sst_encode_def sst_chunks_def words_bytes_def)

lemma read_data_header_fields: "read_data_header (concat (data_header_fields h) @ bs) = Some (h, bs)"
  by (simp add: read_data_header_def data_header_fields_def)

lemma unat_word_of_len:
  "n \<le> 2 ^ 32 - 1 \<Longrightarrow> unat (word_of_nat n :: u32) = n"
  by (simp add: unat_of_nat)

lemma unat_ucast_node [simp]: "unat (ucast n :: u64) = unat (n :: node_id)"
proof -
  have "uint (ucast n :: u64) = uint n" by (rule uint_up_ucast) (simp add: is_up)
  then show ?thesis by (simp only: unat_eq_nat_uint)
qed

lemma ucast_ucast_node [simp]: "ucast (ucast n :: u64) = (n :: node_id)"
  by (intro ucast_up_ucast_id) (simp add: is_up)

lemma unat_node_bound: "unat (n :: node_id) \<le> 2 ^ 32 - 1"
  using unsigned_less[of n, where ?'a = nat] by simp

lemma decode_encode:
  assumes "sst_good r"
  shows "decode_record (sst_encode r @ bs) = Some r"
proof -
  have len: "unat (dr_dim r) = length (dr_vector r)" "length (dr_vector r) \<le> (2 ^ 32 - 1) div 4"
    and n: "length (dr_neighbors r) \<le> 2 ^ 32 - 1"
    and p: "length (dr_vector r) * 4 + length (dr_neighbors r) * 4 \<le> kMaxRecordPayloadBytes"
    using assms by (auto simp: sst_good_def sst_record_ok_def)
  then have "length (dr_vector r) * 4 \<le> 2 ^ 32 - 1" by simp
  then have v: "unat (word_of_nat (length (dr_vector r) * 4) :: u32) = length (dr_vector r) * 4"
    by (rule unat_word_of_len)
  have nn: "unat (word_of_nat (length (dr_neighbors r)) :: u32) = length (dr_neighbors r)"
    using n by (rule unat_word_of_len)
  let ?h = "sst_record_header r"
  have h: "dh_node_id ?h = ucast (dr_node r)" "dh_sequence_id ?h = dr_seq r" "dh_dim ?h = dr_dim r"
    "dh_payload_checksum ?h = checksum_payload (dr_vector r) (dr_neighbors r)"
    "(dh_deleted ?h \<noteq> 0) = dr_deleted r" "unat (dh_neighbor_count ?h) = length (dr_neighbors r)"
    "unat (dh_vector_bytes ?h) = length (dr_vector r) * 4" "dh_deleted ?h \<le> 1"
    "dh_magic ?h = kSSTableDataMagic" "dh_version ?h = kSSTableVersion"
    using v nn by (simp_all add: sst_record_header_def)
  have "data_header_is_valid ?h"
    unfolding data_header_is_valid_def h using len p unat_node_bound[of "dr_node r"] by (simp add: h(8))
  then have "decode_record (concat (data_header_fields ?h) @
      words_bytes (dr_vector r) @ words_bytes (dr_neighbors r) @ bs) = Some r"
    unfolding decode_record_def read_data_header_fields by (simp add: h len)
  then show ?thesis by (simp add: sst_encode_eq)
qed

section \<open>What the writer leaves on disk\<close>

text \<open>Each record with the offset of its bytes.\<close>

fun layout :: "nat \<Rightarrow> dynamic_record list \<Rightarrow> (dynamic_record \<times> nat) list" where
  "layout offset [] = []"
| "layout offset (r # rs) = (r, offset) # layout (offset + length (sst_encode r)) rs"

definition entry_bytes :: "dynamic_record \<times> nat \<Rightarrow> bytes" where
  "entry_bytes = (\<lambda>(r, offset). concat (index_entry_chunks (dr_node r) (dr_seq r) (word_of_nat offset)))"

lemma layout_records [simp]: "map fst (layout n rs) = rs"
  by (induction rs arbitrary: n) auto

lemma layout_at:
  "(r, offset) \<in> set (layout n rs) \<Longrightarrow>
   \<exists>rest. drop (offset - n) (concat (map sst_encode rs)) = sst_encode r @ rest \<and> n \<le> offset"
proof (induction rs arbitrary: n)
  case Nil
  then show ?case by simp
next
  case (Cons q rs)
  show ?case
  proof (cases "(r, offset) = (q, n)")
    case True
    then show ?thesis by auto
  next
    case False
    then have "(r, offset) \<in> set (layout (n + length (sst_encode q)) rs)" using Cons.prems by auto
    from Cons.IH[OF this] show ?thesis by (auto simp: diff_diff_left)
  qed
qed

lemma layout_offset_bound:
  "(r, offset) \<in> set (layout n rs) \<Longrightarrow> offset \<le> n + length (concat (map sst_encode rs))"
  by (induction rs arbitrary: n) fastforce+

lemma sst_write_records_reliable:
  assumes "outcomes d = []" and "os_good data" and "os_good index" and "\<forall>r\<in>set rs. sst_record_ok r"
    and "file_bytes (os_path data) d = []"
  shows "sst_write_records rs data index d = (True,
    data\<lparr>os_pending := os_pending data @ concat (map sst_encode rs)\<rparr>,
    index\<lparr>os_pending := os_pending index @ concat (map entry_bytes (layout (length (os_pending data)) rs))\<rparr>, d)"
  using assms
proof (induction rs arbitrary: data index)
  case Nil
  then show ?case by simp
next
  case (Cons r rs)
  then show ?case
    by (simp add: Let_def write_record_def os_tellp_def sst_encode_def [symmetric] entry_bytes_def)
qed

lemma sst_read_index_layout:
  assumes "distinct (map dr_node (map fst es))" and "\<forall>(r, offset)\<in>set es. offset < 2 ^ 64" and "um_ok m"
  shows "\<exists>index. sst_read_index (length es) (concat (map entry_bytes es) @ bs) m = (True, index) \<and>
    um_ok index \<and> (\<forall>k. um_find index k =
      (case find (\<lambda>(r, offset). dr_node r = k) es of
         None \<Rightarrow> um_find m k
       | Some (r, offset) \<Rightarrow> Some \<lparr>ie_sequence_id = dr_seq r, ie_offset = word_of_nat offset\<rparr>))"
  using assms
proof (induction es arbitrary: m)
  case Nil
  then show ?case by simp
next
  case (Cons e es)
  obtain r offset where e: "e = (r, offset)" by (cases e)
  let ?m = "um_assign (dr_node r) \<lparr>ie_sequence_id = dr_seq r, ie_offset = word_of_nat offset\<rparr> m"
  have "read_index_entry (entry_bytes e @ concat (map entry_bytes es) @ bs) =
    Some ((ucast (dr_node r), dr_seq r, word_of_nat offset), concat (map entry_bytes es) @ bs)"
    by (simp add: e entry_bytes_def index_entry_chunks_def read_index_entry_def)
  then have step: "sst_read_index (length (e # es)) (concat (map entry_bytes (e # es)) @ bs) m =
    sst_read_index (length es) (concat (map entry_bytes es) @ bs) ?m"
    using unat_node_bound[of "dr_node r"] by (simp add: not_less)
  have ok: "um_ok ?m" using Cons.prems(3) by simp
  from Cons.IH[OF _ _ ok] Cons.prems obtain index where
    i: "sst_read_index (length es) (concat (map entry_bytes es) @ bs) ?m = (True, index)" "um_ok index"
    "\<And>k. um_find index k = (case find (\<lambda>(r, offset). dr_node r = k) es of
         None \<Rightarrow> um_find ?m k
       | Some (r, offset) \<Rightarrow> Some \<lparr>ie_sequence_id = dr_seq r, ie_offset = word_of_nat offset\<rparr>)"
    by auto
  have none: "find (\<lambda>(r, offset). dr_node r = dr_node q) es = None" if "dr_node q = dr_node r" for q
    using Cons.prems(1) that by (auto simp: e find_None_iff image_def)
  have "um_find index k = (case find (\<lambda>(r, offset). dr_node r = k) (e # es) of
         None \<Rightarrow> um_find m k
       | Some (r, offset) \<Rightarrow> Some \<lparr>ie_sequence_id = dr_seq r, ie_offset = word_of_nat offset\<rparr>)" for k
    using i(3)[of k] Cons.prems(3) none[of r] by (cases "dr_node r = k") (auto simp: e split: option.splits)
  then show ?case unfolding step using i(1,2) by blast
qed

lemma min_max_fold:
  fixes lo hi :: u64
  shows "foldl (\<lambda>(lo, hi) r. (min lo (dr_seq r), max hi (dr_seq r))) (lo, hi) rs =
    (fold (\<lambda>r. min (dr_seq r)) rs lo, fold (\<lambda>r. max (dr_seq r)) rs hi)"
  by (induction rs arbitrary: lo hi) (simp_all add: min.commute max.commute)

lemma fold_max_ge: "hi \<le> fold (\<lambda>r. max (dr_seq r)) rs (hi :: u64)"
  by (induction rs arbitrary: hi) (force intro: order_trans[OF max.cobounded2])+

lemma fold_max_all: "r \<in> set rs \<Longrightarrow> dr_seq r \<le> fold (\<lambda>r. max (dr_seq r)) rs (hi :: u64)"
proof (induction rs arbitrary: hi)
  case (Cons q rs)
  then show ?case
    using order_trans[OF max.cobounded1 fold_max_ge[of "max (dr_seq q) hi" rs]] by auto
qed simp

lemma fold_max_in: "fold (\<lambda>r. max (dr_seq r)) rs (hi :: u64) \<in> insert hi (dr_seq ` set rs)"
proof (induction rs arbitrary: hi)
  case (Cons q rs)
  show ?case using Cons[of "max (dr_seq q) hi"] by (auto simp: max_def split: if_splits)
qed simp

lemma fold_min_in:
  fixes lo :: u64
  shows "fold (\<lambda>r. min (dr_seq r)) rs lo \<in> insert lo (dr_seq ` set rs)"
proof (induction rs arbitrary: lo)
  case (Cons q rs)
  show ?case using Cons[of "min (dr_seq q) lo"] by (auto simp: min_def split: if_splits)
qed simp

lemma min_max_sequence_in:
  assumes "min_max_sequence rs = (lo, hi)"
  shows "lo \<in> insert 0 (dr_seq ` set rs)" and "hi \<in> insert 0 (dr_seq ` set rs)"
    and "r \<in> set rs \<Longrightarrow> dr_seq r \<le> hi"
proof -
  have "lo \<in> insert 0 (dr_seq ` set rs) \<and> hi \<in> insert 0 (dr_seq ` set rs) \<and>
    (r \<in> set rs \<longrightarrow> dr_seq r \<le> hi)"
  proof (cases rs)
    case Nil
    then show ?thesis using assms by (simp add: min_max_sequence_def)
  next
    case (Cons q qs)
    then have "lo = fold (\<lambda>r. min (dr_seq r)) rs (dr_seq q)" "hi = fold (\<lambda>r. max (dr_seq r)) rs (dr_seq q)"
      using assms by (simp_all only: min_max_sequence_def min_max_fold list.case prod.inject)
    then show ?thesis
      using fold_min_in[of rs "dr_seq q"] fold_max_in[of rs "dr_seq q"] fold_max_all[of r rs "dr_seq q"]
        Cons by auto
  qed
  then show "lo \<in> insert 0 (dr_seq ` set rs)" and "hi \<in> insert 0 (dr_seq ` set rs)"
    and "r \<in> set rs \<Longrightarrow> dr_seq r \<le> hi" by simp_all
qed

definition meta_good :: "sst_meta \<Rightarrow> bool" where
  "meta_good m \<longleftrightarrow> unat (sm_id m) < 2 ^ 63 \<and> - (2 ^ 31) \<le> sm_level m \<and> sm_level m < 2 ^ 31 \<and>
     unat (sm_record_count m) < 2 ^ 63 \<and> unat (sm_min_sequence_id m) < 2 ^ 63 \<and>
     unat (sm_max_sequence_id m) < 2 ^ 63"

definition meta_text_of :: "sst_meta \<Rightarrow> string" where
  "meta_text_of m = meta_text (sm_id m) (sm_level m) (unat (sm_record_count m))
     (sm_min_sequence_id m) (sm_max_sequence_id m)"

lemma parse_meta_text:
  assumes "meta_good m"
  shows "parse_meta (meta_text_of m) = Some m"
proof -
  let ?t = "meta_text_of m"
  have keys: "json_key ''AM_P5_SSTABLE''" "json_key ''version''" "json_key ''sstable_id''" "json_key ''level''"
    "json_key ''record_count''" "json_key ''min_sequence_id''" "json_key ''max_sequence_id''"
    by (simp_all add: json_key_def)
  have brace: "find_sub (quoted k) (CHR ''{'' # nl @ s) = find_sub (quoted k) s" for k s
    using find_sub_plain[of "''{'' @ nl" k s] by simp
  note lines = meta_text_of_def meta_text_def brace find_sub_line_hit find_sub_line_other
    find_sub_line_text keys
  have nums: "unat (sm_id m) < 2 ^ 63" "- (2 ^ 31) \<le> sm_level m" "sm_level m < 2 ^ 31"
    "unat (sm_record_count m) < 2 ^ 63" "unat (sm_min_sequence_id m) < 2 ^ 63"
    "unat (sm_max_sequence_id m) < 2 ^ 63"
    using assms by (auto simp: meta_good_def)
  have "find_sub (quoted ''AM_P5_SSTABLE'') ?t \<noteq> None"
    using find_sub_line_key[OF keys(1), of "''magic''"] find_sub_hit[of "''AM_P5_SSTABLE''"]
    by (simp add: meta_text_of_def meta_text_def brace)
  moreover have "parse_json_integer ?t ''version'' = Some (uint kSSTableVersion)"
    by (subst parse_json_number[where v = "show_nat (unat kSSTableVersion)" and e = "'',''"])
      (simp_all add: lines from_chars_show kSSTableVersion_def)
  moreover have "parse_json_integer ?t ''sstable_id'' = Some (int (unat (sm_id m)))"
    by (subst parse_json_number[where v = "show_nat (unat (sm_id m))" and e = "'',''"])
      (use nums in \<open>simp_all add: lines from_chars_show\<close>)
  moreover have "parse_json_integer ?t ''level'' = Some (sm_level m)"
    by (subst parse_json_number[where v = "show_int (sm_level m)" and e = "'',''"])
      (use nums in \<open>simp_all add: lines from_chars_show_int\<close>)
  moreover have "parse_json_integer ?t ''record_count'' = Some (int (unat (sm_record_count m)))"
    by (subst parse_json_number[where v = "show_nat (unat (sm_record_count m))" and e = "'',''"])
      (use nums in \<open>simp_all add: lines from_chars_show\<close>)
  moreover have "parse_json_integer ?t ''min_sequence_id'' = Some (int (unat (sm_min_sequence_id m)))"
    by (subst parse_json_number[where v = "show_nat (unat (sm_min_sequence_id m))" and e = "'',''"])
      (use nums in \<open>simp_all add: lines from_chars_show\<close>)
  moreover have "parse_json_integer ?t ''max_sequence_id'' = Some (int (unat (sm_max_sequence_id m)))"
    by (subst parse_json_number[where v = "show_nat (unat (sm_max_sequence_id m))" and e = "[]"])
      (use nums in \<open>simp_all add: lines from_chars_show\<close>)
  ultimately show ?thesis
    using nums by (simp add: parse_meta_def)
qed

section \<open>Table files\<close>

definition table_base :: "string \<Rightarrow> u64 \<Rightarrow> string" where
  "table_base dir table_id = path_join dir (sstable_name table_id)"

lemma sstable_name_chars: "c \<in> set (sstable_name i) \<Longrightarrow> c \<noteq> CHR ''/'' \<and> c \<noteq> CHR ''.'' \<and> c \<noteq> CHR 0x22 \<and> c \<noteq> CHR 0x5C"
  using show_nat_digits[of "unat i"] by (auto simp: sstable_name_def pad_zero_def is_digit_def split: if_splits)

lemma sstable_name_Cons: "\<exists>s. sstable_name i = CHR ''s'' # s"
  by (simp add: sstable_name_def)

lemma table_base_extension [simp]: "path_extension (table_base dir i) = []"
proof -
  let ?n = "sstable_name i"
  have all: "\<forall>c\<in>set (rev ?n). c \<noteq> CHR ''/''" "\<forall>c\<in>set (rev ?n). c \<noteq> CHR ''.''"
    using sstable_name_chars by auto
  have rel: "\<not> is_absolute ?n" using sstable_name_Cons[of i] by (auto simp: is_absolute_def)
  obtain a where a: "table_base dir i = a @ ?n" "a = [] \<or> last a = CHR ''/''"
    using rel by (cases "dir = [] \<or> last dir = CHR ''/''") (auto simp: table_base_def path_join_def)
  have "takeWhile (\<lambda>c. c \<noteq> CHR ''/'') (rev ?n @ rev a) = rev ?n"
  proof (cases "a = []")
    case True
    then show ?thesis using all(1) by (simp add: takeWhile_eq_all_conv)
  next
    case False
    then obtain b where "a = b @ ''/''" using a(2) by (metis append_butlast_last_id)
    then show ?thesis by (subst takeWhile_append2) (use all(1) in auto)
  qed
  then have name: "path_filename (table_base dir i) = ?n" by (simp add: path_filename_def a(1))
  have tail: "takeWhile (\<lambda>c. c \<noteq> CHR ''.'') (rev ?n) = rev ?n"
    using all(2) by (simp add: takeWhile_eq_all_conv)
  show ?thesis by (simp add: path_extension_def name tail)
qed

lemma table_files [simp]:
  "replace_extension (table_base dir i) ''.data'' = table_base dir i @ ''.data''"
  "replace_extension (table_base dir i) ''.index'' = table_base dir i @ ''.index''"
  "replace_extension (table_base dir i) ''.meta'' = table_base dir i @ ''.meta''"
  "normalize_base_path (table_base dir i) = table_base dir i"
  by (simp_all add: replace_extension_def normalize_base_path_def)

text \<open>The three files of a table with the given records and meta data.\<close>

definition put_table :: "string \<Rightarrow> dynamic_record list \<Rightarrow> sst_meta \<Rightarrow> disk \<Rightarrow> disk" where
  "put_table base rs m d = d\<lparr>files := (files d)
     (base @ ''.data'' \<mapsto> concat (map sst_encode rs),
      base @ ''.index'' \<mapsto> concat (index_header_chunks (length rs)) @ concat (map entry_bytes (layout 0 rs)),
      base @ ''.meta'' \<mapsto> text_bytes (meta_text_of m))\<rparr>"

definition holds_table :: "string \<Rightarrow> dynamic_record list \<Rightarrow> sst_meta \<Rightarrow> disk \<Rightarrow> bool" where
  "holds_table base rs m d \<longleftrightarrow>
     files d (base @ ''.data'') = Some (concat (map sst_encode rs)) \<and>
     files d (base @ ''.index'') = Some (concat (index_header_chunks (length rs)) @ concat (map entry_bytes (layout 0 rs))) \<and>
     files d (base @ ''.meta'') = Some (text_bytes (meta_text_of m))"

lemma holds_put_table [simp]: "holds_table base rs m (put_table base rs m d)"
  by (simp add: holds_table_def put_table_def)

lemma deduplicate_records_eq: "deduplicate_records rs = deduplicate_newest rs"
  by (simp add: deduplicate_records_def deduplicate_newest_def)

lemma deduplicate_set: "set (deduplicate_newest rs) \<subseteq> set rs"
proof
  fix r assume "r \<in> set (deduplicate_newest rs)"
  then have "newest_version rs (- 1) (dr_node r) = Some r"
    using deduplicate_newest_listing[of rs "- 1"] by (auto simp: deduplicate_newest_at_def lists_versions_def)
  then show "r \<in> set rs" by (rule newest_version_node(1))
qed

definition table_meta :: "u64 \<Rightarrow> int \<Rightarrow> dynamic_record list \<Rightarrow> sst_meta" where
  "table_meta table_id level rs =
     \<lparr>sm_id = table_id, sm_level = level, sm_record_count = word_of_nat (length rs),
      sm_min_sequence_id = fst (min_max_sequence rs), sm_max_sequence_id = snd (min_max_sequence rs)\<rparr>"

lemma nodes_bound:
  assumes "distinct (map dr_node rs)"
  shows "length rs \<le> 2 ^ 32"
proof -
  have "length rs = card (set (map dr_node rs))" using assms by (metis distinct_card length_map)
  also have "\<dots> \<le> card (UNIV :: node_id set)" by (intro card_mono) auto
  finally show ?thesis by (simp add: card_word)
qed

lemma deduplicate_distinct: "distinct (map dr_node (deduplicate_newest rs))" "sorted (map dr_node (deduplicate_newest rs))"
  using deduplicate_newest_listing[of rs "- 1"] by (simp_all add: deduplicate_newest_at_def lists_versions_def)

lemma sst_write_reliable:
  assumes "outcomes d = []" and "\<forall>r\<in>set rs. sst_record_ok r"
  shows "sst_write \<lparr>sw_dir = dir, sw_sstable_id = i, sw_level = level\<rparr> rs d =
    (True, put_table (table_base dir i) (deduplicate_newest rs) (table_meta i level (deduplicate_newest rs)) d)"
proof -
  let ?L = "deduplicate_newest rs" and ?b = "table_base dir i"
  obtain lo hi where mm: "min_max_sequence ?L = (lo, hi)" by (cases "min_max_sequence ?L")
  have ok: "\<forall>r\<in>set ?L. sst_record_ok r" using assms(2) deduplicate_set by blast
  have "length ?L < 2 ^ 64"
    using nodes_bound[OF deduplicate_distinct(1)[of rs]] by simp
  then have n: "unat (word_of_nat (length ?L) :: u64) = length ?L" by (simp add: unat_of_nat)
  show ?thesis
    using assms(1) sst_write_records_reliable[OF _ _ _ ok]
    by (simp add: sst_write_def Let_def table_base_def [symmetric] deduplicate_records_eq mm write_meta_def
        os_destroy_def put_table_def put_file_def file_bytes_def meta_text_of_def table_meta_def n fun_upd_twist)
qed

lemma read_index_header_chunks:
  "read_index_header (concat (index_header_chunks n) @ bs) = Some (word_of_nat n, bs)"
  by (simp add: read_index_header_def index_header_chunks_def)

text \<open>A reader opened on a table: what its index says of every node.\<close>

definition reader_of :: "sst_reader \<Rightarrow> string \<Rightarrow> dynamic_record list \<Rightarrow> sst_meta \<Rightarrow> bool" where
  "reader_of t base rs m \<longleftrightarrow> st_opened t \<and> st_data_path t = base @ ''.data'' \<and> st_meta t = m \<and>
     um_ok (st_index t) \<and> (\<forall>k. um_find (st_index t) k =
       map_option (\<lambda>(r, offset). \<lparr>ie_sequence_id = dr_seq r, ie_offset = word_of_nat offset\<rparr>)
         (find (\<lambda>(r, offset). dr_node r = k) (layout 0 rs)))"

definition table_good :: "dynamic_record list \<Rightarrow> sst_meta \<Rightarrow> bool" where
  "table_good rs m \<longleftrightarrow> (\<forall>r\<in>set rs. sst_good r) \<and> distinct (map dr_node rs) \<and> sorted (map dr_node rs) \<and>
     length (concat (map sst_encode rs)) < 2 ^ 63 \<and> meta_good m \<and> unat (sm_record_count m) = length rs"

lemma sst_open_table:
  assumes "outcomes d = []" and "holds_table (table_base dir i) rs m d" and "table_good rs m"
  shows "\<exists>t. sst_open (SSTableReader (table_base dir i)) d = (True, t, d) \<and>
    reader_of t (table_base dir i) rs m"
proof -
  let ?b = "table_base dir i"
  have dist: "distinct (map dr_node (map fst (layout 0 rs)))" using assms(3) by (simp add: table_good_def)
  have off: "\<forall>(r, offset)\<in>set (layout 0 rs). offset < 2 ^ 64"
    using layout_offset_bound[of _ _ 0 rs] assms(3) by (fastforce simp: table_good_def)
  have len: "length (layout 0 rs) = length rs" by (metis layout_records length_map)
  obtain index where i: "sst_read_index (length rs) (concat (map entry_bytes (layout 0 rs))) um_empty = (True, index)"
    "um_ok index" and lkp: "\<And>k. um_find index k =
      (case find (\<lambda>(r, offset). dr_node r = k) (layout 0 rs) of
         None \<Rightarrow> um_find um_empty k
       | Some (r, offset) \<Rightarrow> Some \<lparr>ie_sequence_id = dr_seq r, ie_offset = word_of_nat offset\<rparr>)"
    using sst_read_index_layout[OF dist off um.ok_empty, of "[]"] len by auto
  have i3: "um_find index k = map_option (\<lambda>(r, offset). \<lparr>ie_sequence_id = dr_seq r, ie_offset = word_of_nat offset\<rparr>)
         (find (\<lambda>(r, offset). dr_node r = k) (layout 0 rs))" for k
    by (simp add: lkp map_option_case split: option.splits prod.splits)
  have meta: "load_meta (?b @ ''.meta'') d = (Some m, d)"
    using assms by (simp add: load_meta_def holds_table_def parse_meta_text table_good_def)
  have count: "word_of_nat (length rs) = sm_record_count m"
  proof -
    have "length rs = unat (sm_record_count m)" using assms(3) by (simp add: table_good_def)
    then show ?thesis by simp
  qed
  show ?thesis
    using assms(1,2) i(1) meta count
    by (simp add: sst_open_def SSTableReader_def holds_table_def read_index_header_chunks Let_def
        reader_of_def i(2) i3 assms(3)[unfolded table_good_def])
qed

section \<open>Reading a table back\<close>

lemma find_layout:
  "find (\<lambda>(r, offset). dr_node r = k) (layout n rs) = None \<longleftrightarrow> find (\<lambda>r. dr_node r = k) rs = None"
  "find (\<lambda>(r, offset). dr_node r = k) (layout n rs) = Some (r, offset) \<Longrightarrow>
   find (\<lambda>r. dr_node r = k) rs = Some r \<and> (r, offset) \<in> set (layout n rs)"
  by (induction rs arbitrary: n) (auto split: if_splits)

lemma find_node:
  "find (\<lambda>r. dr_node r = k) rs = Some r \<Longrightarrow> r \<in> set rs \<and> dr_node r = k"
  by (auto simp: find_Some_iff)

lemma sst_get_table:
  assumes "reader_of t base rs m" and "holds_table base rs m d" and "table_good rs m" and "outcomes d = []"
  shows "sst_get t k d = (find (\<lambda>r. dr_node r = k) rs, d)"
proof (cases "find (\<lambda>(r, offset). dr_node r = k) (layout 0 rs)")
  case None
  then show ?thesis using assms(1) find_layout(1)[of k 0 rs] by (simp add: sst_get_def reader_of_def)
next
  case (Some e)
  obtain r offset where e: "e = (r, offset)" by (cases e)
  have f: "find (\<lambda>r. dr_node r = k) rs = Some r" "(r, offset) \<in> set (layout 0 rs)"
    using find_layout(2)[of k 0 rs r offset] Some e by simp_all
  obtain rest where rest: "drop offset (concat (map sst_encode rs)) = sst_encode r @ rest"
    using layout_at[OF f(2)] by auto
  have "offset < 2 ^ 63"
    using layout_offset_bound[OF f(2)] assms(3) by (simp add: table_good_def)
  then have off: "unat (word_of_nat offset :: u64) = offset" "offset < 2 ^ 63" by (simp_all add: unat_of_nat)
  have "sst_good r" using find_node[OF f(1)] assms(3) by (simp add: table_good_def)
  then have read: "read_record_at (base @ ''.data'') (word_of_nat offset) d = (Some r, d)"
    using assms(2,4) rest decode_encode[of r rest] off by (simp add: read_record_at_def holds_table_def)
  have lkp: "um_find (st_index t) k = Some \<lparr>ie_sequence_id = dr_seq r, ie_offset = word_of_nat offset\<rparr>"
    and t: "st_opened t" "st_data_path t = base @ ''.data''"
    using assms(1) Some e by (simp_all add: reader_of_def)
  show ?thesis
    using find_node[OF f(1)] by (simp add: sst_get_def lkp t read f(1))
qed

lemma sst_get_each_table:
  assumes "reader_of t base rs m" and "holds_table base rs m d" and "table_good rs m" and "outcomes d = []"
  shows "sst_get_each t ks d = (List.map_filter (\<lambda>k. find (\<lambda>r. dr_node r = k) rs) ks, d)"
  by (induction ks) (simp_all add: sst_get_table[OF assms] List.map_filter_simps split: option.splits)

lemma find_in_listing:
  assumes "distinct (map dr_node rs)" and "r \<in> set rs"
  shows "find (\<lambda>q. dr_node q = dr_node r) rs = Some r"
  using assms by (induction rs) force+

lemma map_filter_total: "\<forall>x\<in>set xs. f x \<noteq> None \<Longrightarrow> List.map_filter f xs = map (the \<circ> f) xs"
  by (induction xs) (auto simp: List.map_filter_simps)

lemma lists_versions_find:
  assumes "distinct (map dr_node rs)" and "sorted (map dr_node L)" and "distinct (map dr_node L)"
    and "set L = set rs"
  shows "lists_versions L (\<lambda>k. find (\<lambda>r. dr_node r = k) rs)"
proof -
  have "{r. find (\<lambda>q. dr_node q = dr_node r) rs = Some r} = set rs"
    using find_in_listing[OF assms(1)] find_node by blast
  then show ?thesis using assms(2-4) by (simp add: lists_versions_def)
qed

lemma sst_scan_table:
  assumes "reader_of t base rs m" and "holds_table base rs m d" and "table_good rs m" and "outcomes d = []"
  shows "sst_scan_all t d = (rs, d)"
proof -
  let ?ks = "map fst (um_items (st_index t))"
  let ?f = "\<lambda>k. find (\<lambda>r. dr_node r = k) rs"
  let ?out = "List.map_filter ?f ?ks"
  have ok: "um_ok (st_index t)" and dist: "distinct (map dr_node rs)" and sorted: "sorted (map dr_node rs)"
    using assms by (simp_all add: reader_of_def table_good_def)
  have "set ?ks = {k. um_find (st_index t) k \<noteq> None}" using um.items_keys[OF ok] by simp
  also have "\<dots> = dr_node ` set rs"
    using assms(1) find_layout(1)[of _ 0 rs] by (auto simp: reader_of_def find_None_iff)
  finally have ks: "set ?ks = dr_node ` set rs" .
  have all: "\<forall>k\<in>set ?ks. \<exists>r\<in>set rs. dr_node r = k \<and> ?f k = Some r"
    using find_in_listing[OF dist] unfolding ks by blast
  then have out: "?out = map (the \<circ> ?f) ?ks" by (intro map_filter_total) auto
  have "set ?out = (the \<circ> ?f) ` dr_node ` set rs" by (simp only: out set_map [of "the \<circ> ?f"] ks)
  also have "\<dots> = (\<lambda>r. r) ` set rs"
    unfolding image_image by (intro image_cong refl) (simp add: find_in_listing[OF dist])
  finally have out_set: "set ?out = set rs" by simp
  have "map dr_node ?out = map (\<lambda>k. k) ?ks"
    unfolding out map_map by (intro map_cong refl) (use all in auto)
  then have "map dr_node ?out = ?ks" by (simp only: map_ident)
  then have out_dist: "distinct (map dr_node ?out)" using um.items_distinct[OF ok] by (simp only:)
  have "lists_versions (std_sort record_id_less ?out) ?f"
  proof (rule lists_versions_find[OF dist])
    show "sorted (map dr_node (std_sort record_id_less ?out))"
      using rid.sorted_std_sort[of ?out] by (simp add: dr_key_sorted)
    show "distinct (map dr_node (std_sort record_id_less ?out))" using out_dist by (simp only: distinct_map_std_sort)
    show "set (std_sort record_id_less ?out) = set rs" by (simp only: set_std_sort out_set)
  qed
  moreover have "lists_versions rs ?f" by (rule lists_versions_find[OF dist sorted dist refl])
  ultimately have "std_sort record_id_less ?out = rs" by (rule lists_versions_unique)
  then show ?thesis
    using assms(1) by (simp add: sst_scan_all_def sst_get_each_table[OF assms] reader_of_def)
qed

lemma find_deduplicate: "find (\<lambda>r. dr_node r = k) (deduplicate_newest rs) = newest_version rs (- 1) k"
proof -
  have L: "lists_versions (deduplicate_newest rs) (newest_version rs (- 1))"
    using deduplicate_newest_listing[of rs "- 1"] by (simp add: deduplicate_newest_at_def)
  show ?thesis
  proof (cases "newest_version rs (- 1) k")
    case None
    then show ?thesis using L by (auto simp: lists_versions_def find_None_iff)
  next
    case (Some r)
    then have "r \<in> set (deduplicate_newest rs)" "dr_node r = k"
      using L newest_version_node(2)[OF Some] by (auto simp: lists_versions_def)
    then show ?thesis using find_in_listing[OF deduplicate_distinct(1), of r rs] Some by simp
  qed
qed

lemma newest_version_distinct:
  assumes "distinct (map dr_node rs)"
  shows "newest_version rs (- 1) k = find (\<lambda>r. dr_node r = k) rs"
proof -
  have "filter (\<lambda>r. dr_node r = k) rs = (case find (\<lambda>r. dr_node r = k) rs of None \<Rightarrow> [] | Some r \<Rightarrow> [r])"
    using assms by (induction rs)
      (auto simp: filter_empty_conv find_None_iff split: option.splits, (metis find_node image_eqI)+)
  then show ?thesis by (simp add: newest_version_def split: option.splits)
qed

lemma newest_version_set:
  assumes "distinct (map dr_node xs)" and "distinct (map dr_node ys)" and "set xs = set ys"
  shows "newest_version xs (- 1) k = newest_version ys (- 1) k"
proof -
  have "find (\<lambda>r. dr_node r = k) xs = find (\<lambda>r. dr_node r = k) ys"
  proof (cases "find (\<lambda>r. dr_node r = k) xs")
    case None
    then have "find (\<lambda>r. dr_node r = k) ys = None" using assms(3) by (auto simp: find_None_iff)
    with None show ?thesis by simp
  next
    case (Some r)
    then show ?thesis
      using find_node[OF Some] find_in_listing[OF assms(2), of r] assms(3) by simp
  qed
  then show ?thesis by (simp add: newest_version_distinct assms)
qed

lemma deduplicate_fixed:
  assumes "distinct (map dr_node rs)" and "sorted (map dr_node rs)"
  shows "deduplicate_newest rs = rs"
proof (rule lists_versions_unique)
  show "lists_versions (deduplicate_newest rs) (newest_version rs (- 1))"
    using deduplicate_newest_listing[of rs "- 1"] by (simp add: deduplicate_newest_at_def)
  show "lists_versions rs (newest_version rs (- 1))"
    using lists_versions_find[OF assms(1,2,1) refl] by (simp add: lists_versions_def newest_version_distinct assms)
qed

lemma deduplicate_idem [simp]: "deduplicate_newest (deduplicate_newest rs) = deduplicate_newest rs"
  by (rule deduplicate_fixed) (rule deduplicate_distinct)+

definition table_fits :: "dynamic_record list \<Rightarrow> bool" where
  "table_fits rs \<longleftrightarrow> (\<forall>r\<in>set rs. sst_good r) \<and>
     length (concat (map sst_encode (deduplicate_newest rs))) < 2 ^ 63"

lemma table_meta_good:
  assumes "table_fits rs" and "unat i < 2 ^ 63" and "- (2 ^ 31) \<le> level" and "level < 2 ^ 31"
  shows "table_good (deduplicate_newest rs) (table_meta i level (deduplicate_newest rs))"
proof -
  let ?L = "deduplicate_newest rs"
  obtain lo hi where mm: "min_max_sequence ?L = (lo, hi)" by (cases "min_max_sequence ?L")
  have good: "\<forall>r\<in>set ?L. sst_good r" using assms(1) deduplicate_set by (auto simp: table_fits_def)
  then have "unat lo < 2 ^ 63" "unat hi < 2 ^ 63"
    using min_max_sequence_in(1,2)[OF mm] by (auto simp: sst_good_def)
  moreover have n: "length ?L \<le> 2 ^ 32" by (rule nodes_bound) (rule deduplicate_distinct(1))
  then have "unat (word_of_nat (length ?L) :: u64) = length ?L" by (simp add: unat_of_nat)
  ultimately show ?thesis
    using assms good n deduplicate_distinct[of rs]
    by (simp add: table_good_def table_meta_def meta_good_def mm table_fits_def)
qed

text \<open>
  C3: what is written to a table is what every reader sees: opening it succeeds, a point
  read returns the newest version of its node (tombstones included) or nothing, and the scan
  returns all newest versions in node order.
\<close>

theorem sst_write_open_read:
  assumes "outcomes d = []" and "table_fits rs" and "unat i < 2 ^ 63"
    and "- (2 ^ 31) \<le> level" and "level < 2 ^ 31"
  shows "\<exists>d' t. sst_write \<lparr>sw_dir = dir, sw_sstable_id = i, sw_level = level\<rparr> rs d = (True, d') \<and>
    sst_open (SSTableReader (path_join dir (sstable_name i))) d' = (True, t, d') \<and>
    (\<forall>k. sst_get t k d' = (newest_version rs (- 1) k, d')) \<and>
    sst_scan_all t d' = (deduplicate_newest rs, d')"
proof -
  let ?L = "deduplicate_newest rs" and ?b = "table_base dir i"
  let ?m = "table_meta i level ?L"
  let ?d = "put_table ?b ?L ?m d"
  have good: "table_good ?L ?m" by (rule table_meta_good) (fact assms)+
  have w: "sst_write \<lparr>sw_dir = dir, sw_sstable_id = i, sw_level = level\<rparr> rs d = (True, ?d)"
    using assms(1,2) by (intro sst_write_reliable) (auto simp: table_fits_def sst_good_def)
  have o: "outcomes ?d = []" using assms(1) by (simp add: put_table_def)
  from sst_open_table[OF this holds_put_table good] obtain t where
    t: "sst_open (SSTableReader ?b) ?d = (True, t, ?d)" "reader_of t ?b ?L ?m" by blast
  have "sst_get t k ?d = (newest_version rs (- 1) k, ?d)" for k
    using sst_get_table[OF t(2) holds_put_table good o] by (simp add: find_deduplicate)
  then show ?thesis
    using w t(1) sst_scan_table[OF t(2) holds_put_table good o] by (auto simp: table_base_def)
qed

theorem sst_write_open_read_witness:
  "\<exists>d' t. sst_write \<lparr>sw_dir = ''sst'', sw_sstable_id = 1, sw_level = 0\<rparr> [demo_record 1] empty_disk = (True, d') \<and>
    sst_open (SSTableReader (path_join ''sst'' (sstable_name 1))) d' = (True, t, d') \<and>
    (\<forall>k. sst_get t k d' = (newest_version [demo_record 1] (- 1) k, d')) \<and>
    sst_scan_all t d' = (deduplicate_newest [demo_record 1], d')"
proof -
  have "deduplicate_newest [demo_record 1] = [demo_record 1]"
    by (rule deduplicate_fixed) simp_all
  then have "table_fits [demo_record 1]"
    by (simp add: table_fits_def sst_good_def sst_record_ok_def kMaxRecordPayloadBytes_def demo_record_def
        sst_encode_eq data_header_fields_def length_words_bytes)
  then show ?thesis by (intro sst_write_open_read) (simp_all add: empty_disk_def)
qed

end
