(* ===== verification/Compaction.thy ===== *)
theory Compaction
  imports SSTable
begin

text \<open>
  \<open>src/dynamic/compaction.cpp\<close>: a job reads all records of its input tables, keeps the
  newest version of every node and writes one output table.
\<close>

record compaction_input =
  ci_input_tables :: "sst_reader option list"
  ci_output_dir :: string
  ci_output_sstable_id :: u64
  ci_output_level :: int

record compaction_result =
  cr_success :: bool
  cr_output_base_path :: string
  cr_input_record_count :: nat
  cr_output_record_count :: nat

text \<open>
  The gathering loop: the count so far, and \<open>None\<close> for the early return at a null table.
\<close>

fun gather_tables ::
  "sst_reader option list \<Rightarrow> nat \<Rightarrow> dynamic_record list \<Rightarrow> disk \<Rightarrow> nat \<times> dynamic_record list option \<times> disk" where
  "gather_tables [] n records d = (n, Some records, d)"
| "gather_tables (None # tables) n records d = (n, None, d)"
| "gather_tables (Some t # tables) n records d =
     (let (table_records, d) = sst_scan_all t d
      in gather_tables tables (n + length table_records) (records @ table_records) d)"

definition compaction_run :: "compaction_input \<Rightarrow> disk \<Rightarrow> compaction_result \<times> disk" where
  "compaction_run input d =
     (let result = \<lparr>cr_success = False,
            cr_output_base_path = path_join (ci_output_dir input) (sstable_name (ci_output_sstable_id input)),
            cr_input_record_count = 0, cr_output_record_count = 0\<rparr>
      in if ci_input_tables input = [] then (result, d)
         else (case gather_tables (ci_input_tables input) 0 [] d of
             (n, None, d) \<Rightarrow> (result\<lparr>cr_input_record_count := n\<rparr>, d)
           | (n, Some records, d) \<Rightarrow>
               (let compacted = deduplicate_newest records;
                    (success, d) = sst_write \<lparr>sw_dir = ci_output_dir input,
                      sw_sstable_id = ci_output_sstable_id input,
                      sw_level = ci_output_level input\<rparr> compacted d
                in (result\<lparr>cr_success := success, cr_input_record_count := n,
                      cr_output_record_count := length compacted\<rparr>, d))))"

section \<open>Compaction keeps what readers see\<close>

text \<open>The newest version survives when a part of the history is replaced by its newest versions.\<close>

lemma newest_version_newer:
  "newest_version (xs @ ys) s k =
   (case newest_version xs s k of
      None \<Rightarrow> newest_version ys s k
    | Some q \<Rightarrow> (case newest_version ys s k of
        None \<Rightarrow> Some q | Some r \<Rightarrow> if dr_seq q < dr_seq r then Some r else Some q))"
proof -
  have step: "foldl (newer dr_seq) (Some q) rs =
    (case foldl (newer dr_seq) None rs of
        None \<Rightarrow> Some q | Some r \<Rightarrow> if dr_seq q < dr_seq r then Some r else Some q)" for q :: dynamic_record and rs
  proof (induction rs rule: rev_induct)
    case (snoc x rs)
    then show ?case by (auto simp: newer_def split: option.splits)
  qed simp
  show ?thesis
    by (simp add: newest_version_def visible_at_def step split: option.splits)
qed

lemma newest_version_append_cong:
  assumes "\<And>k. newest_version xs s k = newest_version xs' s k" and "\<And>k. newest_version ys s k = newest_version ys' s k"
  shows "newest_version (xs @ ys) s k = newest_version (xs' @ ys') s k"
  by (simp add: newest_version_newer assms cong: option.case_cong)

lemma newest_version_dedup [simp]: "newest_version (deduplicate_newest rs) (- 1) k = newest_version rs (- 1) k"
  by (simp add: find_deduplicate [symmetric])

lemma gather_tables_all:
  assumes "\<forall>(t, rs)\<in>set ts. sst_scan_all t d = (rs, d)"
  shows "gather_tables (map (Some \<circ> fst) ts) n acc d =
    (n + length (concat (map snd ts)), Some (acc @ concat (map snd ts)), d)"
  using assms by (induction ts arbitrary: n acc) auto

end
