(* ===== verification/BruteForce.thy ===== *)
theory BruteForce
  imports Distance
begin

text \<open>
  \<open>src/core/brute_force.cpp\<close>: \<open>search_memory_fast\<close>, its batch form and the index class
  around them. The bounded heap returns the exact \<open>k\<close> nearest vectors.
\<close>

definition base_result :: "vector_set \<Rightarrow> f32 list \<Rightarrow> nat \<Rightarrow> search_result" where
  "base_result base query i =
     \<lparr>sr_id = word_of_nat i, sr_distance = squared_l2 query (row_values base i) (vs_dim base)\<rparr>"

definition search_memory_fast :: "vector_set \<Rightarrow> f32 list option \<Rightarrow> nat \<Rightarrow> search_result list result" where
  "search_memory_fast base query k =
     (if vs_empty base
      then Inl (Runtime_error ''search_memory_fast requires non-empty base vectors'')
      else case query of
        None \<Rightarrow> Inl (Runtime_error ''search_memory_fast requires a non-null query'')
      | Some q \<Rightarrow>
          if k = 0 then Inr []
          else (let effective_k = min k (vs_size base);
                    heap = foldl (\<lambda>heap i. heap_step search_result_less effective_k heap (base_result base q i))
                      [] [0..<vs_size base];
                    results = rev heap
                in Inr (std_sort search_result_less results)))"

fun search_rows :: "vector_set \<Rightarrow> vector_set \<Rightarrow> nat \<Rightarrow> nat list \<Rightarrow> search_result list list result" where
  "search_rows base queries k [] = Inr []"
| "search_rows base queries k (i # is) =
     seq_result (vs_row queries i) (\<lambda>row.
     seq_result (search_memory_fast base (Some row) k) (\<lambda>r.
     seq_result (search_rows base queries k is) (\<lambda>rs. Inr (r # rs))))"

definition search_memory_fast_batch ::
  "vector_set \<Rightarrow> vector_set \<Rightarrow> nat \<Rightarrow> search_result list list result" where
  "search_memory_fast_batch base queries k =
     (if vs_dim queries \<noteq> vs_dim base
      then Inl (Runtime_error ''Query dimension does not match base dimension'')
      else search_rows base queries k [0..<vs_size queries])"

record brute_force_index =
  bf_base :: vector_set

definition BruteForceIndex :: "vector_set \<Rightarrow> brute_force_index result" where
  "BruteForceIndex base =
     (if vs_empty base
      then Inl (Runtime_error ''BruteForceIndex requires non-empty base vectors'')
      else Inr \<lparr>bf_base = base\<rparr>)"

definition bf_search_one :: "brute_force_index \<Rightarrow> f32 list option \<Rightarrow> nat \<Rightarrow> search_result list result" where
  "bf_search_one index query k = search_memory_fast (bf_base index) query k"

definition bf_search_batch :: "brute_force_index \<Rightarrow> vector_set \<Rightarrow> nat \<Rightarrow> search_result list list result" where
  "bf_search_batch index queries k = search_memory_fast_batch (bf_base index) queries k"

section \<open>Exactness\<close>

definition finite_base :: "vector_set \<Rightarrow> bool" where
  "finite_base base \<longleftrightarrow> (\<forall>i<vs_size base. finite_vector (vs_dim base) (row_values base i))"

definition all_results :: "vector_set \<Rightarrow> f32 list \<Rightarrow> search_result list" where
  "all_results base q = map (base_result base q) [0..<vs_size base]"

lemma base_result_valid:
  assumes "finite_base base" and "finite_vector (vs_dim base) q" and "i < vs_size base"
  shows "sr_valid (base_result base q i)"
  using assms squared_l2_values_nonneg[of "vs_dim base" q "row_values base i" SSE2]
  by (simp add: sr_valid_def base_result_def finite_base_def squared_l2_def f32_nonneg_not_nan)

lemma distinct_result_ids:
  assumes "vs_size base \<le> 2 ^ 32"
  shows "distinct (map sr_id (all_results base q))"
proof -
  have "inj_on (word_of_nat :: nat \<Rightarrow> u32) {0..<vs_size base}"
    using assms by (intro inj_onI) (auto simp: word_of_nat_eq_iff take_bit_nat_eq_self)
  then show ?thesis by (simp add: all_results_def distinct_map comp_def base_result_def)
qed

lemma search_memory_fast_sorted:
  assumes "finite_base base" and "finite_vector (vs_dim base) q"
    and "0 < vs_size base" and "vs_size base \<le> 2 ^ 32" and "0 < k"
  shows "search_memory_fast base (Some q) k = Inr (take k (sort_key sr_key (all_results base q)))"
proof -
  let ?R = "all_results base q"
  have valid: "\<forall>r\<in>set ?R. sr_valid r"
    using assms(1,2) by (auto simp: all_results_def base_result_valid)
  have inj: "inj_on sr_key (set ?R)" by (rule sr_key_inj) (rule distinct_result_ids [OF assms(4)])
  have "foldl (\<lambda>heap i. heap_step search_result_less k' heap (base_result base q i)) [] [0..<vs_size base]
    = foldl (heap_step search_result_less k') [] ?R" for k'
    by (simp add: all_results_def foldl_map)
  then have "search_memory_fast base (Some q) k =
    Inr (take (min k (vs_size base)) (sort_key sr_key ?R))"
    using assms(3,5) sro.heap_result[OF valid _ inj]
    by (simp add: search_memory_fast_def vs_empty_def Let_def)
  moreover have "length (sort_key sr_key ?R) = vs_size base" by (simp add: all_results_def)
  ultimately show ?thesis by (cases "k \<le> vs_size base") (simp_all add: min_def)
qed

text \<open>
  C39: with finite vectors and identifiers that fit 32 bits, the search returns exactly the
  first \<open>k\<close> of all vectors in the order of distance, then identifier.
\<close>

theorem search_memory_fast_exact:
  assumes "finite_base base" and "finite_vector (vs_dim base) q"
    and "0 < vs_size base" and "vs_size base \<le> 2 ^ 32" and "0 < k"
  shows "search_memory_fast base (Some q) k = Inr (take k (sort_key sr_key (all_results base q)))"
  using assms by (rule search_memory_fast_sorted)

definition demo_base :: vector_set where
  "demo_base = \<lparr>vs_dim = 1, vs_values = [0x3f800000, 0x40000000]\<rparr>"

theorem search_memory_fast_exact_witness:
  "search_memory_fast demo_base (Some [0x3f800000]) 1 =
    Inr (take 1 (sort_key sr_key (all_results demo_base [0x3f800000])))"
  by (rule search_memory_fast_exact)
    (auto simp: finite_base_def demo_base_def vs_size_def row_values_def finite_vector_def f32_finite_def
      fp_finite_def fp_mag_def binary32_def less_Suc_eq)

end
