(* ===== verification/DynManager.thy ===== *)
theory DynManager
  imports Manifest MemTable Wal Compaction BruteForce
begin

text \<open>
  \<open>src/dynamic/dynamic_write_manager.cpp\<close>: the manager of the dynamic layer. Writers hold
  one mutex for their whole call, so every operation is one step on the state; readers use
  the immutable view the last writer published. Operations take and return the disk, and
  follow the code through every failed call.
\<close>

record dynamic_write_options =
  do_dynamic_dir :: string
  do_memtable_flush_bytes :: u64
  do_dynamic_graph_degree :: nat
  do_enable_wal :: bool
  do_enable_auto_flush :: bool

record dynamic_snapshot =
  ds_read_sequence :: u64
  ds_records :: "dynamic_record list"
  ds_deleted_count :: nat

record dynamic_compaction_stats =
  cs_attempted :: bool
  cs_success :: bool
  cs_input_table_count :: nat
  cs_input_record_count :: nat
  cs_output_record_count :: nat
  cs_output_sstable_id :: u64

record dynamic_read_view =
  rv_opened :: bool
  rv_latest_sequence :: u64
  rv_history_records :: "dynamic_record list"

record manager =
  dm_options :: dynamic_write_options
  dm_manifest :: manifest_data
  dm_memtable :: mem_table
  dm_wal_writer :: "wal_writer option"
  dm_sstables :: "sst_reader list"
  dm_recent_records :: "dynamic_record list"
  dm_read_view :: "dynamic_read_view option"
  dm_latest_sequence :: u64
  dm_opened :: bool

definition DynamicWriteManager :: "dynamic_write_options \<Rightarrow> manager" where
  "DynamicWriteManager options =
     \<lparr>dm_options = options, dm_manifest = default_manifest,
      dm_memtable = MemTable (do_memtable_flush_bytes options), dm_wal_writer = None,
      dm_sstables = [], dm_recent_records = [], dm_read_view = None, dm_latest_sequence = 0,
      dm_opened = False\<rparr>"

section \<open>Paths\<close>

definition manifest_path :: "manager \<Rightarrow> string" where
  "manifest_path m = path_join (do_dynamic_dir (dm_options m)) ''manifest.json''"

definition wal_dir :: "manager \<Rightarrow> string" where
  "wal_dir m = path_join (do_dynamic_dir (dm_options m)) ''wal''"

definition wal_path :: "manager \<Rightarrow> string" where
  "wal_path m = path_join (wal_dir m) ''wal.log''"

definition sstable_dir :: "manager \<Rightarrow> string" where
  "sstable_dir m = path_join (do_dynamic_dir (dm_options m)) ''sstable''"

section \<open>Publishing and opening\<close>

definition last_sequence :: "manager \<Rightarrow> u64" where
  "last_sequence m =
     (let next = md_next_sequence_id (dm_manifest m) in if next = 0 then 0 else next - 1)"

definition publish_read_view_locked :: "manager \<Rightarrow> manager" where
  "publish_read_view_locked m =
     m\<lparr>dm_read_view := Some \<lparr>rv_opened = dm_opened m, rv_latest_sequence = last_sequence m,
          rv_history_records = unique_record_versions (dm_recent_records m)\<rparr>,
       dm_latest_sequence := last_sequence m\<rparr>"

text \<open>The loop over the manifest entries; \<open>False\<close> is its early return.\<close>

fun open_sstables ::
  "manifest_entry list \<Rightarrow> u64 \<Rightarrow> manager \<Rightarrow> disk \<Rightarrow> bool \<times> u64 \<times> manager \<times> disk" where
  "open_sstables [] max_loaded m d = (True, max_loaded, m, d)"
| "open_sstables (entry # es) max_loaded m d =
     (let base_path = (if is_absolute (me_base_path entry) then me_base_path entry
                       else path_join (do_dynamic_dir (dm_options m)) (me_base_path entry));
          (ok, reader, d) = sst_open (SSTableReader base_path) d
      in if \<not> ok then (False, max_loaded, m, d)
         else (let max_loaded = max max_loaded (sst_max_sequence_id reader);
                   (records, d) = sst_scan_all reader d;
                   max_loaded = foldl (\<lambda>v r. max v (dr_seq r)) max_loaded records
               in open_sstables es max_loaded
                    (m\<lparr>dm_recent_records := dm_recent_records m @ records,
                       dm_sstables := dm_sstables m @ [reader]\<rparr>) d))"

definition replay_into_memtable :: "dynamic_record list \<Rightarrow> manager \<Rightarrow> manager" where
  "replay_into_memtable records m =
     foldl (\<lambda>m r. m\<lparr>dm_memtable := snd (mt_insert r (dm_memtable m)),
                     dm_recent_records := dm_recent_records m @ [r]\<rparr>) m records"

definition raise_next_sequence :: "u64 \<Rightarrow> manager \<Rightarrow> manager" where
  "raise_next_sequence max_loaded m =
     m\<lparr>dm_manifest := (dm_manifest m)\<lparr>md_next_sequence_id :=
         max (md_next_sequence_id (dm_manifest m)) (max_loaded + 1)\<rparr>\<rparr>"

text \<open>
  The WAL part of \<open>open\<close>: replay, raise the sequence counter, open the writer and sync it.
\<close>

definition open_wal :: "u64 \<Rightarrow> manager \<Rightarrow> disk \<Rightarrow> bool \<times> manager \<times> disk" where
  "open_wal max_loaded m d =
     (let (records, d) = wal_replay (wal_path m) d;
          m = replay_into_memtable records m;
          max_wal = foldl (\<lambda>v r. max v (dr_seq r)) 0 records;
          m = raise_next_sequence (max max_loaded max_wal) m;
          (writer, d) = WalWriter (wal_path m) d;
          (ok, writer, d) = wal_sync writer d
      in (ok, m\<lparr>dm_wal_writer := Some writer\<rparr>, d))"

definition dm_open :: "manager \<Rightarrow> disk \<Rightarrow> bool result \<times> manager \<times> disk" where
  "dm_open m d =
     (if dm_opened m then (Inr True, m, d) else
     (let (created, d) = io_call d in if \<not> created then (Inr False, m, d) else
     (let (created, d) = io_call d in if \<not> created then (Inr False, m, d) else
     (let (created, d) = io_call d in if \<not> created then (Inr False, m, d) else
     (let (loaded, d) = manifest_load (manifest_path m) d
      in case loaded of
           Inl e \<Rightarrow> (Inl e, m, d)
         | Inr None \<Rightarrow> (Inr False, m, d)
         | Inr (Some manifest) \<Rightarrow>
     (let m = m\<lparr>dm_manifest := manifest, dm_sstables := [], dm_recent_records := []\<rparr>;
          (ok, max_loaded, m, d) = open_sstables (md_sstables manifest) 0 m d
      in if \<not> ok then (Inr False, m, d) else
     (let m = m\<lparr>dm_memtable := MemTable (do_memtable_flush_bytes (dm_options m))\<rparr>;
          (ok, m, d) = (if do_enable_wal (dm_options m) then open_wal max_loaded m d
                        else (True, raise_next_sequence max_loaded m, d))
      in if \<not> ok then (Inr False, m, d)
         else (Inr True, publish_read_view_locked (m\<lparr>dm_opened := True\<rparr>), d))))))))"

section \<open>Flush\<close>

definition rotate_wal_locked :: "manager \<Rightarrow> disk \<Rightarrow> bool \<times> manager \<times> disk" where
  "rotate_wal_locked m d =
     (if \<not> do_enable_wal (dm_options m) then (True, m, d)
      else (let (closed, writer, d) = (case dm_wal_writer m of
                  None \<Rightarrow> (True, None, d)
                | Some w \<Rightarrow> (let (ok, w, d) = wal_close w d in (ok, Some w, d)));
                m = m\<lparr>dm_wal_writer := writer\<rparr>
            in if \<not> closed then (False, m, d)
               else (let d = fs_remove (wal_path m) d;
                         (w, d) = WalWriter (wal_path m) d;
                         (ok, w, d) = wal_sync w d
                     in (ok, m\<lparr>dm_wal_writer := Some w\<rparr>, d))))"

definition flush_locked :: "manager \<Rightarrow> disk \<Rightarrow> bool \<times> manager \<times> disk" where
  "flush_locked m d =
     (let snapshot = mt_snapshot (dm_memtable m)
      in if snapshot = [] then (True, m, d) else
     (let sstable_id = md_next_sstable_id (dm_manifest m);
          (written, d) = sst_write \<lparr>sw_dir = sstable_dir m, sw_sstable_id = sstable_id, sw_level = 0\<rparr>
            snapshot d
      in if \<not> written then (False, m, d) else
     (let next_manifest = (dm_manifest m)\<lparr>
            md_sstables := md_sstables (dm_manifest m) @
              [\<lparr>me_id = sstable_id, me_level = 0,
                me_base_path = path_join ''sstable'' (sstable_name sstable_id)\<rparr>],
            md_next_sstable_id := md_next_sstable_id (dm_manifest m) + 1,
            md_wal_checkpoint := 0\<rparr>;
          (saved, d) = manifest_save (manifest_path m) next_manifest d
      in if \<not> saved then (False, m, d) else
     (let (ok, reader, d) = sst_open (SSTableReader (path_join (sstable_dir m) (sstable_name sstable_id))) d
      in if \<not> ok then (False, m, d)
         else rotate_wal_locked (m\<lparr>dm_manifest := next_manifest,
                dm_sstables := dm_sstables m @ [reader],
                dm_memtable := mt_clear (dm_memtable m)\<rparr>) d))))"

definition dm_flush :: "manager \<Rightarrow> disk \<Rightarrow> bool \<times> manager \<times> disk" where
  "dm_flush m d = (if \<not> dm_opened m then (False, m, d) else flush_locked m d)"

section \<open>Writes\<close>

definition collect_all_delta_records_locked :: "manager \<Rightarrow> u64 \<Rightarrow> dynamic_record list" where
  "collect_all_delta_records_locked m read_sequence =
     (if \<not> dm_opened m then []
      else deduplicate_newest (visible_at read_sequence (dm_recent_records m)))"

record scored_record =
  sc_record :: dynamic_record
  sc_distance :: f32

definition scored_less :: "scored_record \<Rightarrow> scored_record \<Rightarrow> bool" where
  "scored_less lhs rhs =
     (if f32_eq (sc_distance lhs) (sc_distance rhs)
      then dr_node (sc_record lhs) < dr_node (sc_record rhs)
      else f32_lt (sc_distance lhs) (sc_distance rhs))"

definition score_record :: "f32 list \<Rightarrow> u32 \<Rightarrow> dynamic_record \<Rightarrow> scored_record" where
  "score_record query dim record =
     \<lparr>sc_record = record, sc_distance = squared_l2 query (dr_vector record) (unat dim)\<rparr>"

definition usable_record :: "u32 \<Rightarrow> dynamic_record \<Rightarrow> bool" where
  "usable_record dim record \<longleftrightarrow>
     \<not> dr_deleted record \<and> dr_dim record = dim \<and> length (dr_vector record) = unat dim"

definition select_incremental_neighbors_locked :: "manager \<Rightarrow> node_id \<Rightarrow> f32 list \<Rightarrow> u32 \<Rightarrow> node_id list" where
  "select_incremental_neighbors_locked m node_id vector dim =
     (let degree = do_dynamic_graph_degree (dm_options m)
      in if degree = 0 then []
         else (let records = collect_all_delta_records_locked m (- 1);
                   candidates = map (score_record vector dim)
                     (filter (\<lambda>r. usable_record dim r \<and> dr_node r \<noteq> node_id) records);
                   candidates = take degree (std_sort scored_less candidates)
               in map (dr_node \<circ> sc_record) candidates))"

definition append_record_locked :: "dynamic_record \<Rightarrow> manager \<Rightarrow> disk \<Rightarrow> bool \<times> manager \<times> disk" where
  "append_record_locked record m d =
     (let (logged, m, d) =
            (if do_enable_wal (dm_options m)
             then (case dm_wal_writer m of
                     None \<Rightarrow> (False, m, d)
                   | Some w \<Rightarrow> (let (ok, w, d) = wal_append w record d
                               in (ok, m\<lparr>dm_wal_writer := Some w\<rparr>, d)))
             else (True, m, d))
      in if \<not> logged then (False, m, d) else
     (let (inserted, memtable) = mt_insert record (dm_memtable m)
      in if \<not> inserted then (False, m, d) else
     (let m = m\<lparr>dm_memtable := memtable, dm_recent_records := dm_recent_records m @ [record],
            dm_manifest := (dm_manifest m)\<lparr>md_next_sequence_id :=
              md_next_sequence_id (dm_manifest m) + 1\<rparr>\<rparr>;
          m = publish_read_view_locked m
      in if do_enable_auto_flush (dm_options m) \<and> mt_should_flush (dm_memtable m)
         then flush_locked m d
         else (True, m, d))))"

definition dm_insert :: "node_id \<Rightarrow> f32 list option \<Rightarrow> u32 \<Rightarrow> manager \<Rightarrow> disk \<Rightarrow> bool \<times> manager \<times> disk" where
  "dm_insert node_id vector dim m d =
     (case vector of
        None \<Rightarrow> (False, m, d)
      | Some vec \<Rightarrow>
          if dim = 0 then (False, m, d)
          else if \<not> dm_opened m then (False, m, d)
          else append_record_locked
            \<lparr>dr_seq = md_next_sequence_id (dm_manifest m), dr_node = node_id, dr_dim = dim,
             dr_vector = take (unat dim) vec,
             dr_neighbors = select_incremental_neighbors_locked m node_id vec dim,
             dr_deleted = False\<rparr> m d)"

definition dm_update :: "node_id \<Rightarrow> f32 list option \<Rightarrow> u32 \<Rightarrow> manager \<Rightarrow> disk \<Rightarrow> bool \<times> manager \<times> disk" where
  "dm_update node_id vector dim m d = dm_insert node_id vector dim m d"

definition dm_erase :: "node_id \<Rightarrow> manager \<Rightarrow> disk \<Rightarrow> bool \<times> manager \<times> disk" where
  "dm_erase node_id m d =
     (if \<not> dm_opened m then (False, m, d)
      else append_record_locked (default_record\<lparr>dr_seq := md_next_sequence_id (dm_manifest m),
             dr_node := node_id, dr_deleted := True\<rparr>) m d)"

section \<open>Compaction and close\<close>

definition remove_table_files :: "manager \<Rightarrow> u64 \<Rightarrow> disk \<Rightarrow> disk" where
  "remove_table_files m table_id d =
     (let base = path_join (sstable_dir m) (sstable_name table_id)
      in fs_remove (base @ ''.meta'') (fs_remove (base @ ''.index'') (fs_remove (base @ ''.data'') d)))"

definition dm_compact_once :: "manager \<Rightarrow> disk \<Rightarrow> bool \<times> dynamic_compaction_stats \<times> manager \<times> disk" where
  "dm_compact_once m d =
     (let local = \<lparr>cs_attempted = True, cs_success = False, cs_input_table_count = 0,
            cs_input_record_count = 0, cs_output_record_count = 0, cs_output_sstable_id = 0\<rparr>
      in if \<not> dm_opened m \<or> length (dm_sstables m) < 2 then (False, local, m, d) else
     (let output_id = md_next_sstable_id (dm_manifest m);
          (result, d) = compaction_run \<lparr>ci_input_tables = map Some (dm_sstables m),
            ci_output_dir = sstable_dir m, ci_output_sstable_id = output_id, ci_output_level = 1\<rparr> d;
          local = local\<lparr>cs_input_table_count := length (dm_sstables m),
            cs_output_sstable_id := output_id, cs_success := cr_success result,
            cs_input_record_count := cr_input_record_count result,
            cs_output_record_count := cr_output_record_count result\<rparr>
      in if \<not> cr_success result then (False, local, m, d) else
     (let (ok, reader, d) = sst_open (SSTableReader (cr_output_base_path result)) d
      in if \<not> ok then (False, local\<lparr>cs_success := False\<rparr>, m, d) else
     (let next_manifest = (dm_manifest m)\<lparr>
            md_sstables := [\<lparr>me_id = output_id, me_level = 1,
              me_base_path = path_join ''sstable'' (sstable_name output_id)\<rparr>],
            md_next_sstable_id := md_next_sstable_id (dm_manifest m) + 1\<rparr>;
          (saved, d) = manifest_save (manifest_path m) next_manifest d
      in if \<not> saved then (False, local\<lparr>cs_success := False\<rparr>, m, d)
         else (let d = foldl (\<lambda>d t. if sst_id t = output_id then d
                                    else remove_table_files m (sst_id t) d) d (dm_sstables m)
               in (True, local, m\<lparr>dm_manifest := next_manifest, dm_sstables := [reader]\<rparr>, d))))))"

definition dm_close :: "manager \<Rightarrow> disk \<Rightarrow> bool \<times> manager \<times> disk" where
  "dm_close m d =
     (let (saved, d) = (if dm_opened m then manifest_save (manifest_path m) (dm_manifest m) d else (True, d));
          (closed, d) = (case dm_wal_writer m of
              None \<Rightarrow> (True, d)
            | Some w \<Rightarrow> (let (ok, w, d) = wal_close w d in (ok, d)))
      in (saved \<and> closed,
          publish_read_view_locked (m\<lparr>dm_wal_writer := None, dm_opened := False\<rparr>), d))"

section \<open>Reads\<close>

definition load_read_view :: "manager \<Rightarrow> dynamic_read_view option" where
  "load_read_view m =
     (case dm_read_view m of None \<Rightarrow> None | Some view \<Rightarrow> if rv_opened view then Some view else None)"

definition dm_current_sequence :: "manager \<Rightarrow> u64" where
  "dm_current_sequence m = dm_latest_sequence m"

definition dm_latest_record :: "manager \<Rightarrow> node_id \<Rightarrow> u64 \<Rightarrow> bool \<Rightarrow> dynamic_record option" where
  "dm_latest_record m node_id read_sequence include_deleted =
     (case load_read_view m of
        None \<Rightarrow> None
      | Some view \<Rightarrow>
          latest_record_from_history (rv_history_records view) node_id read_sequence include_deleted)"

definition dm_latest_records_for ::
  "manager \<Rightarrow> node_id list \<Rightarrow> u64 \<Rightarrow> bool \<Rightarrow> (node_id, dynamic_record) umap" where
  "dm_latest_records_for m node_ids read_sequence include_deleted =
     (case load_read_view m of
        None \<Rightarrow> um_empty
      | Some view \<Rightarrow>
          latest_records_for_from_history (rv_history_records view) node_ids read_sequence include_deleted)"

definition dm_get :: "manager \<Rightarrow> node_id \<Rightarrow> dynamic_record option" where
  "dm_get m node_id = dm_latest_record m node_id (dm_current_sequence m) False"

definition dm_snapshot :: "manager \<Rightarrow> u64 \<Rightarrow> dynamic_snapshot" where
  "dm_snapshot m read_sequence =
     (case load_read_view m of
        None \<Rightarrow> \<lparr>ds_read_sequence = read_sequence, ds_records = [], ds_deleted_count = 0\<rparr>
      | Some view \<Rightarrow>
          (let records = deduplicate_newest_at (rv_history_records view) read_sequence
           in \<lparr>ds_read_sequence = read_sequence, ds_records = records,
               ds_deleted_count = foldl (\<lambda>n r. if dr_deleted r then n + 1 else n) 0 records\<rparr>))"

definition dm_latest_record_locked :: "manager \<Rightarrow> node_id \<Rightarrow> u64 \<Rightarrow> bool \<Rightarrow> dynamic_record option" where
  "dm_latest_record_locked m node_id read_sequence include_deleted =
     (case find (\<lambda>r. dr_node r = node_id) (collect_all_delta_records_locked m read_sequence) of
        None \<Rightarrow> None
      | Some found \<Rightarrow> if dr_deleted found \<and> \<not> include_deleted then None else Some found)"

definition dm_collect_all_delta_records_at :: "manager \<Rightarrow> u64 \<Rightarrow> dynamic_record list" where
  "dm_collect_all_delta_records_at m read_sequence =
     (case load_read_view m of
        None \<Rightarrow> []
      | Some view \<Rightarrow> deduplicate_newest_at (rv_history_records view) read_sequence)"

definition dm_collect_all_delta_records :: "manager \<Rightarrow> dynamic_record list" where
  "dm_collect_all_delta_records m = dm_collect_all_delta_records_at m (- 1)"

definition dm_search_delta_l2_at ::
  "manager \<Rightarrow> f32 list option \<Rightarrow> u32 \<Rightarrow> nat \<Rightarrow> u64 \<Rightarrow> dynamic_record list" where
  "dm_search_delta_l2_at m query dim topk read_sequence =
     (case query of
        None \<Rightarrow> []
      | Some q \<Rightarrow>
          if dim = 0 \<or> topk = 0 then []
          else (let records = dm_collect_all_delta_records_at m read_sequence;
                    scored = map (score_record q dim) (filter (usable_record dim) records);
                    scored = take topk (std_sort scored_less scored)
                in map sc_record scored))"

definition dm_search_delta_l2 :: "manager \<Rightarrow> f32 list option \<Rightarrow> u32 \<Rightarrow> nat \<Rightarrow> dynamic_record list" where
  "dm_search_delta_l2 m query dim topk = dm_search_delta_l2_at m query dim topk (- 1)"

text \<open>Overlaying the delta on the results of the base index.\<close>

definition overlay_record ::
  "f32 list \<Rightarrow> u32 \<Rightarrow> (node_id, search_result) umap \<Rightarrow> dynamic_record \<Rightarrow> (node_id, search_result) umap" where
  "overlay_record query dim by_id record =
     (if dr_deleted record then um_erase (dr_node record) by_id
      else if dr_dim record \<noteq> dim \<or> length (dr_vector record) \<noteq> unat dim then by_id
      else um_assign (dr_node record) \<lparr>sr_id = dr_node record,
             sr_distance = squared_l2 query (dr_vector record) (unat dim)\<rparr> by_id)"

definition merge_base_and_delta_l2 ::
  "search_result list \<Rightarrow> dynamic_record list \<Rightarrow> f32 list option \<Rightarrow> u32 \<Rightarrow> nat \<Rightarrow> search_result list" where
  "merge_base_and_delta_l2 base_results delta_records query dim topk =
     (case query of
        None \<Rightarrow> []
      | Some q \<Rightarrow>
          if dim = 0 \<or> topk = 0 then []
          else (let by_id = foldl (\<lambda>by_id result. um_assign (sr_id result) result by_id) um_empty base_results;
                    by_id = foldl (overlay_record q dim) by_id delta_records;
                    merged = map snd (um_items by_id)
                in take topk (std_sort search_result_less merged)))"

end
