(* ===== verification/DynReads.thy ===== *)
theory DynReads
  imports DynManager
begin

text \<open>
  What readers of the manager see. The invariant \<open>view_inv\<close> ties the published view to the
  records the manager keeps; every write, flush and compaction preserves it, whatever the
  file system does. From it follow read-your-writes, the isolation of snapshots, and the
  exactness of the delta search.
\<close>

section \<open>The part of the state readers depend on\<close>

definition same_view :: "manager \<Rightarrow> manager \<Rightarrow> bool" where
  "same_view m m' \<longleftrightarrow>
     dm_recent_records m' = dm_recent_records m \<and> dm_read_view m' = dm_read_view m \<and>
     dm_latest_sequence m' = dm_latest_sequence m \<and> dm_opened m' = dm_opened m \<and>
     dm_options m' = dm_options m \<and>
     md_next_sequence_id (dm_manifest m') = md_next_sequence_id (dm_manifest m)"

lemma same_view_refl [simp]: "same_view m m"
  by (simp add: same_view_def)

lemma same_view_trans: "same_view m m' \<Longrightarrow> same_view m' m'' \<Longrightarrow> same_view m m''"
  by (simp add: same_view_def)

lemma rotate_wal_view:
  assumes "rotate_wal_locked m d = (ok, m', d')"
  shows "same_view m m'"
proof -
  have "same_view m (m\<lparr>dm_wal_writer := w\<rparr>)" for w by (simp add: same_view_def)
  then show ?thesis
    using assms by (auto simp: rotate_wal_locked_def Let_def split: if_splits option.splits prod.splits)
qed

lemma flush_view:
  assumes "flush_locked m d = (ok, m', d')"
  shows "same_view m m'"
  using assms
  by (auto simp: flush_locked_def Let_def same_view_def split: if_splits prod.splits
      dest!: rotate_wal_view)

lemma dm_flush_view: "dm_flush m d = (ok, m', d') \<Longrightarrow> same_view m m'"
  by (auto simp: dm_flush_def dest: flush_view split: if_splits)

lemma compact_view:
  assumes "dm_compact_once m d = (ok, stats, m', d')"
  shows "same_view m m'"
  using assms
  by (auto simp: dm_compact_once_def Let_def same_view_def split: if_splits prod.splits)

text \<open>An append either leaves the view alone or publishes the record, even when it reports failure.\<close>

definition published :: "dynamic_record \<Rightarrow> manager \<Rightarrow> manager \<Rightarrow> bool" where
  "published r m m' \<longleftrightarrow>
     dm_recent_records m' = dm_recent_records m @ [r] \<and> dm_opened m' = dm_opened m \<and>
     dm_options m' = dm_options m \<and>
     md_next_sequence_id (dm_manifest m') = md_next_sequence_id (dm_manifest m) + 1 \<and>
     dm_latest_sequence m' = last_sequence m' \<and>
     dm_read_view m' = Some \<lparr>rv_opened = dm_opened m', rv_latest_sequence = last_sequence m',
       rv_history_records = unique_record_versions (dm_recent_records m')\<rparr>"

lemma published_same_view: "published r m m' \<Longrightarrow> same_view m' m'' \<Longrightarrow> published r m m''"
  by (simp add: published_def same_view_def last_sequence_def)

lemma append_view:
  assumes "append_record_locked r m d = (ok, m', d')"
  shows "published r m m' \<or> (\<not> ok \<and> same_view m m')"
proof -
  obtain logged m1 d1 where l: "(if do_enable_wal (dm_options m)
             then (case dm_wal_writer m of
                     None \<Rightarrow> (False, m, d)
                   | Some w \<Rightarrow> (let (ok, w, d) = wal_append w r d
                               in (ok, m\<lparr>dm_wal_writer := Some w\<rparr>, d)))
             else (True, m, d)) = (logged, m1, d1)" by (metis prod_cases3)
  then have m1: "same_view m m1" "dm_memtable m1 = dm_memtable m"
    by (auto simp: same_view_def split: if_splits option.splits prod.splits)
  obtain inserted t where t: "mt_insert r (dm_memtable m1) = (inserted, t)"
    by (cases "mt_insert r (dm_memtable m1)")
  let ?m2 = "publish_read_view_locked (m1\<lparr>dm_memtable := t,
      dm_recent_records := dm_recent_records m1 @ [r],
      dm_manifest := (dm_manifest m1)\<lparr>md_next_sequence_id := md_next_sequence_id (dm_manifest m1) + 1\<rparr>\<rparr>)"
  have p: "published r m ?m2"
    using m1(1) by (simp add: published_def same_view_def publish_read_view_locked_def last_sequence_def Let_def)
  have run: "(if \<not> logged then (False, m1, d1)
     else if \<not> inserted then (False, m1, d1)
     else if do_enable_auto_flush (dm_options ?m2) \<and> mt_should_flush (dm_memtable ?m2)
          then flush_locked ?m2 d1 else (True, ?m2, d1)) = (ok, m', d')"
    using assms unfolding append_record_locked_def l by (simp only: t Let_def prod.case)
  then show ?thesis
    using p m1(1) published_same_view[OF p] flush_view[of ?m2 d1 ok m' d']
    by (auto split: if_splits)
qed

section \<open>Invariant\<close>

definition view_inv :: "manager \<Rightarrow> bool" where
  "view_inv m \<longleftrightarrow> dm_opened m \<and>
     dm_read_view m = Some \<lparr>rv_opened = True, rv_latest_sequence = last_sequence m,
       rv_history_records = unique_record_versions (dm_recent_records m)\<rparr> \<and>
     dm_latest_sequence m = last_sequence m \<and> md_next_sequence_id (dm_manifest m) \<noteq> 0 \<and>
     (\<forall>r\<in>set (dm_recent_records m). dr_seq r < md_next_sequence_id (dm_manifest m))"

lemma view_inv_same: "view_inv m \<Longrightarrow> same_view m m' \<Longrightarrow> view_inv m'"
  by (simp add: view_inv_def same_view_def last_sequence_def)

lemma next_sequence_Suc: "(n :: u64) \<noteq> - 1 \<Longrightarrow> x \<le> n \<Longrightarrow> x < n + 1"
proof -
  assume n: "n \<noteq> - 1" and x: "x \<le> n"
  from n have "1 + n \<noteq> 0" by (metis add.commute add_eq_0_iff)
  then have "unat (n + 1) = Suc (unat n)" using unatSuc[of n] by (simp add: add.commute)
  with x show "x < n + 1" by (simp add: word_less_nat_alt word_le_nat_alt)
qed

lemma view_inv_published:
  assumes "view_inv m" and "published r m m'" and "dr_seq r = md_next_sequence_id (dm_manifest m)"
    and "md_next_sequence_id (dm_manifest m) \<noteq> - 1"
  shows "view_inv m'"
proof -
  let ?n = "md_next_sequence_id (dm_manifest m)"
  have rec: "dm_recent_records m' = dm_recent_records m @ [r]" and n: "md_next_sequence_id (dm_manifest m') = ?n + 1"
    using assms(2) by (simp_all add: published_def)
  have "\<forall>x\<in>set (dm_recent_records m). dr_seq x < ?n" using assms(1) by (simp add: view_inv_def)
  then have "\<forall>x\<in>set (dm_recent_records m'). dr_seq x \<le> ?n"
    using assms(3) by (simp add: rec less_imp_le)
  then have "\<forall>x\<in>set (dm_recent_records m'). dr_seq x < md_next_sequence_id (dm_manifest m')"
    using next_sequence_Suc[OF assms(4)] by (simp only: n) blast
  moreover have "md_next_sequence_id (dm_manifest m') \<noteq> 0"
    using next_sequence_Suc[OF assms(4) order_refl] by (auto simp: n)
  moreover have "dm_opened m'" using assms(1,2) by (simp add: view_inv_def published_def)
  ultimately show ?thesis using assms(2) by (simp add: view_inv_def published_def)
qed

lemma last_sequence_less:
  assumes "view_inv m"
  shows "s \<le> dm_current_sequence m \<longleftrightarrow> s < md_next_sequence_id (dm_manifest m)"
proof -
  let ?n = "md_next_sequence_id (dm_manifest m)"
  have n: "?n \<noteq> 0" using assms by (simp add: view_inv_def)
  then have "unat (?n - 1) = unat ?n - 1" by (rule unat_minus_one)
  moreover have "0 < unat ?n" using n by (simp add: unat_gt_0)
  ultimately show ?thesis
    using assms n by (auto simp: dm_current_sequence_def view_inv_def last_sequence_def Let_def
        word_less_nat_alt word_le_nat_alt)
qed

lemma view_inv_read:
  assumes "view_inv m"
  shows "load_read_view m = Some \<lparr>rv_opened = True, rv_latest_sequence = last_sequence m,
       rv_history_records = unique_record_versions (dm_recent_records m)\<rparr>"
  using assms by (simp add: view_inv_def load_read_view_def)

lemma newest_at_current:
  assumes "view_inv m"
  shows "newest_version (dm_recent_records m) (dm_current_sequence m) k =
    newest_version (dm_recent_records m) (- 1) k"
proof -
  have "visible_at (dm_current_sequence m) (dm_recent_records m) = dm_recent_records m"
    using assms last_sequence_less[OF assms] by (auto simp: visible_at_def view_inv_def filter_id_conv)
  then show ?thesis by (simp add: newest_version_def)
qed

section \<open>Point reads\<close>

lemma dm_latest_record_eq:
  assumes "view_inv m"
  shows "dm_latest_record m k s include_deleted =
    (case newest_version (dm_recent_records m) s k of
       None \<Rightarrow> None
     | Some r \<Rightarrow> if dr_deleted r \<and> \<not> include_deleted then None else Some r)"
  by (simp add: dm_latest_record_def view_inv_read[OF assms] latest_record_from_history_eq)

lemma dm_get_eq:
  assumes "view_inv m"
  shows "dm_get m k = (case newest_version (dm_recent_records m) (- 1) k of
       None \<Rightarrow> None
     | Some r \<Rightarrow> if dr_deleted r then None else Some r)"
  by (simp add: dm_get_def dm_latest_record_eq[OF assms] newest_at_current[OF assms] split: option.splits)

lemma dm_get_published:
  assumes "view_inv m" and "published r m m'" and "dr_seq r = md_next_sequence_id (dm_manifest m)"
    and "md_next_sequence_id (dm_manifest m) \<noteq> - 1"
  shows "dm_get m' k = (if k = dr_node r then if dr_deleted r then None else Some r else dm_get m k)"
proof -
  have inv: "view_inv m'" by (rule view_inv_published) (fact assms)+
  have "newest_version (dm_recent_records m') (- 1) k =
    (if k = dr_node r then Some r else newest_version (dm_recent_records m) (- 1) k)"
    using assms(1-3) by (simp add: published_def view_inv_def newest_version_append_newer)
  then show ?thesis by (simp add: dm_get_eq[OF inv] dm_get_eq[OF assms(1)])
qed

text \<open>The record an insert appends.\<close>

definition inserted_record :: "manager \<Rightarrow> node_id \<Rightarrow> f32 list \<Rightarrow> u32 \<Rightarrow> dynamic_record" where
  "inserted_record m k vec dim =
     \<lparr>dr_seq = md_next_sequence_id (dm_manifest m), dr_node = k, dr_dim = dim,
      dr_vector = take (unat dim) vec, dr_neighbors = select_incremental_neighbors_locked m k vec dim,
      dr_deleted = False\<rparr>"

definition erased_record :: "manager \<Rightarrow> node_id \<Rightarrow> dynamic_record" where
  "erased_record m k = default_record\<lparr>dr_seq := md_next_sequence_id (dm_manifest m),
     dr_node := k, dr_deleted := True\<rparr>"

lemma dm_insert_cases:
  assumes "dm_insert k v dim m d = (ok, m', d')"
  shows "(\<not> ok \<and> same_view m m') \<or> (\<exists>vec. v = Some vec \<and> published (inserted_record m k vec dim) m m')"
  using assms
  by (auto simp: dm_insert_def inserted_record_def dest!: append_view split: option.splits if_splits)

lemma dm_erase_cases:
  assumes "dm_erase k m d = (ok, m', d')"
  shows "(\<not> ok \<and> same_view m m') \<or> published (erased_record m k) m m'"
  using assms by (auto simp: dm_erase_def erased_record_def dest!: append_view split: if_splits)

lemma written_records [simp]:
  "dr_seq (inserted_record m k vec dim) = md_next_sequence_id (dm_manifest m)"
  "dr_node (inserted_record m k vec dim) = k" "\<not> dr_deleted (inserted_record m k vec dim)"
  "dr_seq (erased_record m k) = md_next_sequence_id (dm_manifest m)"
  "dr_node (erased_record m k) = k" "dr_deleted (erased_record m k)"
  by (simp_all add: inserted_record_def erased_record_def default_record_def)

text \<open>
  Once an insert returns true, every reader finds the new vector under its node with the
  next sequence number, and the answer for every other node is unchanged.
\<close>

theorem dm_insert_visible:
  assumes "view_inv m" and "md_next_sequence_id (dm_manifest m) \<noteq> - 1"
    and "dm_insert k (Some vec) dim m d = (True, m', d')"
  shows "dm_get m' q = (if q = k then Some (inserted_record m k vec dim) else dm_get m q)"
proof -
  have "published (inserted_record m k vec dim) m m'" using dm_insert_cases[OF assms(3)] by simp
  from dm_get_published[OF assms(1) this _ assms(2)] show ?thesis by simp
qed

text \<open>
  Once an erase returns true, no reader finds the node, and the answer for every other
  node is unchanged.
\<close>

theorem dm_erase_visible:
  assumes "view_inv m" and "md_next_sequence_id (dm_manifest m) \<noteq> - 1"
    and "dm_erase k m d = (True, m', d')"
  shows "dm_get m' q = (if q = k then None else dm_get m q)"
proof -
  have "published (erased_record m k) m m'" using dm_erase_cases[OF assms(3)] by simp
  from dm_get_published[OF assms(1) this _ assms(2)] show ?thesis by simp
qed

section \<open>Steps and snapshots\<close>

text \<open>
  One call of a writer, with any arguments and any file system behaviour. Writes are
  considered up to the wrap of the 64-bit sequence counter.
\<close>

inductive dm_step :: "manager \<times> disk \<Rightarrow> manager \<times> disk \<Rightarrow> bool" where
  step_insert: "dm_insert k v dim m d = (ok, m', d') \<Longrightarrow> md_next_sequence_id (dm_manifest m) \<noteq> - 1 \<Longrightarrow>
    dm_step (m, d) (m', d')"
| step_update: "dm_update k v dim m d = (ok, m', d') \<Longrightarrow> md_next_sequence_id (dm_manifest m) \<noteq> - 1 \<Longrightarrow>
    dm_step (m, d) (m', d')"
| step_erase: "dm_erase k m d = (ok, m', d') \<Longrightarrow> md_next_sequence_id (dm_manifest m) \<noteq> - 1 \<Longrightarrow>
    dm_step (m, d) (m', d')"
| step_flush: "dm_flush m d = (ok, m', d') \<Longrightarrow> dm_step (m, d) (m', d')"
| step_compact: "dm_compact_once m d = (ok, stats, m', d') \<Longrightarrow> dm_step (m, d) (m', d')"
| step_disk: "dm_step (m, d) (m, d')"

inductive_cases dm_stepE: "dm_step s s'"

definition grows :: "manager \<Rightarrow> manager \<Rightarrow> bool" where
  "grows m m' \<longleftrightarrow> (\<exists>new. dm_recent_records m' = dm_recent_records m @ new \<and>
     (\<forall>r\<in>set new. md_next_sequence_id (dm_manifest m) \<le> dr_seq r)) \<and>
     md_next_sequence_id (dm_manifest m) \<le> md_next_sequence_id (dm_manifest m')"

lemma grows_same: "same_view m m' \<Longrightarrow> grows m m'"
  by (simp add: grows_def same_view_def)

lemma grows_published:
  assumes "published r m m'" and "dr_seq r = md_next_sequence_id (dm_manifest m)"
    and "md_next_sequence_id (dm_manifest m) \<noteq> - 1"
  shows "grows m m'"
  using assms next_sequence_Suc[OF assms(3) order_refl]
  by (auto simp: grows_def published_def)

lemma grows_trans: "grows m m' \<Longrightarrow> grows m' m'' \<Longrightarrow> grows m m''"
  by (auto simp: grows_def) (metis append_assoc order_trans Un_iff set_append)

lemma step_view:
  assumes "dm_step (m, d) (m', d')" and "view_inv m"
  shows "view_inv m' \<and> grows m m'"
proof -
  consider "same_view m m'"
    | r where "published r m m'" "dr_seq r = md_next_sequence_id (dm_manifest m)"
      "md_next_sequence_id (dm_manifest m) \<noteq> - 1"
    using assms(1)
  proof (cases rule: dm_step.cases)
    case (step_insert k v dim ok)
    then show ?thesis using dm_insert_cases[OF step_insert(1)] that by fastforce
  next
    case (step_update k v dim ok)
    then show ?thesis using dm_insert_cases[of k v dim m d ok m' d'] that by (fastforce simp: dm_update_def)
  next
    case (step_erase k ok)
    then show ?thesis using dm_erase_cases[OF step_erase(1)] that by fastforce
  next
    case (step_flush ok)
    then show ?thesis using dm_flush_view that by blast
  next
    case (step_compact ok stats)
    then show ?thesis using compact_view that by blast
  next
    case step_disk
    then show ?thesis using that by simp
  qed
  then show ?thesis
  proof cases
    case 1
    then show ?thesis using assms(2) by (simp add: view_inv_same grows_same)
  next
    case 2
    then show ?thesis using assms(2) view_inv_published grows_published by blast
  qed
qed

lemma steps_view:
  assumes "dm_step\<^sup>*\<^sup>* (m, d) (m', d')" and "view_inv m"
  shows "view_inv m' \<and> grows m m'"
  using assms(1)
proof (induction "(m', d')" arbitrary: m' d' rule: rtranclp_induct)
  case base
  then show ?case using assms(2) by (simp add: grows_same)
next
  case (step y)
  obtain m1 d1 where y: "y = (m1, d1)" by (cases y)
  then have "view_inv m1" "grows m m1" using step.hyps(3) by simp_all
  then show ?case using step_view[of m1 d1 m' d'] step.hyps(2) grows_trans y by blast
qed

lemma newest_grows:
  assumes "view_inv m" and "grows m m'" and "s \<le> dm_current_sequence m"
  shows "newest_version (dm_recent_records m') s k = newest_version (dm_recent_records m) s k"
proof -
  have "s < md_next_sequence_id (dm_manifest m)" using assms(1,3) last_sequence_less by blast
  moreover obtain new where new: "dm_recent_records m' = dm_recent_records m @ new"
    "\<forall>r\<in>set new. md_next_sequence_id (dm_manifest m) \<le> dr_seq r"
    using assms(2) by (auto simp: grows_def)
  ultimately have "\<forall>r\<in>set new. s < dr_seq r" using less_le_trans by blast
  then show ?thesis by (simp add: new(1) newest_version_append_later)
qed

lemma deduplicate_at_cong:
  assumes "\<And>k. newest_version xs s k = newest_version ys s k"
  shows "deduplicate_newest_at xs s = deduplicate_newest_at ys s"
proof (rule lists_versions_unique)
  show "lists_versions (deduplicate_newest_at xs s) (newest_version xs s)"
    by (rule deduplicate_newest_listing)
  show "lists_versions (deduplicate_newest_at ys s) (newest_version xs s)"
    using deduplicate_newest_listing[of ys s] assms by (simp add: lists_versions_def)
qed

text \<open>
  C2: a snapshot is immutable. Whatever inserts, updates, erases, flushes and compactions
  run later, with whatever file system failures, a read at a sequence number that was
  current before returns the same records.
\<close>

theorem dm_snapshot_stable:
  assumes "view_inv m" and "dm_step\<^sup>*\<^sup>* (m, d) (m', d')" and "s \<le> dm_current_sequence m"
  shows "dm_snapshot m' s = dm_snapshot m s \<and>
    dm_latest_record m' k s include_deleted = dm_latest_record m k s include_deleted"
proof -
  have inv: "view_inv m'" "grows m m'" using steps_view[OF assms(2,1)] by simp_all
  note nv = newest_grows[OF assms(1) inv(2) assms(3)]
  have "deduplicate_newest_at (dm_recent_records m') s = deduplicate_newest_at (dm_recent_records m) s"
    by (rule deduplicate_at_cong) (rule nv)
  then show ?thesis
    by (simp add: dm_snapshot_def view_inv_read[OF inv(1)] view_inv_read[OF assms(1)]
        dm_latest_record_eq[OF inv(1)] dm_latest_record_eq[OF assms(1)] nv)
qed

section \<open>A failed call that took effect\<close>

lemma mt_insert_snapshot:
  assumes "um_ok (mt_records t)"
  shows "mt_snapshot (snd (mt_insert r t)) \<noteq> []"
proof -
  have "um_find (mt_records (snd (mt_insert r t))) (dr_node r) \<noteq> None"
    by (auto simp: mt_insert_def assms split: option.splits)
  then show ?thesis by (auto simp: mt_snapshot_def um_find_def um_items_def)
qed

text \<open>
  C36: a write reports the outcome of the flush it triggered, not its own. When the record
  was logged and inserted but the automatic flush fails at its first call, insert returns
  false and the record is nevertheless visible to every reader.
\<close>

theorem dm_insert_false_but_visible:
  assumes "view_inv m" and "md_next_sequence_id (dm_manifest m) \<noteq> - 1" and "dim \<noteq> 0"
    and "do_enable_wal (dm_options m)" and "do_enable_auto_flush (dm_options m)"
    and "dm_wal_writer m = Some w" and "wal_append w (inserted_record m k vec dim) d = (True, w', d1)"
    and "mt_insert (inserted_record m k vec dim) (dm_memtable m) = (True, t)" and "um_ok (mt_records (dm_memtable m))"
    and "mt_should_flush t" and "outcomes d1 = Failed n # os"
  shows "\<exists>m' d'. dm_insert k (Some vec) dim m d = (False, m', d') \<and>
    dm_get m' k = Some (inserted_record m k vec dim)"
proof -
  let ?r = "inserted_record m k vec dim"
  obtain m' d' ok where run: "dm_insert k (Some vec) dim m d = (ok, m', d')"
    by (cases "dm_insert k (Some vec) dim m d")
  have snap: "mt_snapshot t \<noteq> []" using mt_insert_snapshot[OF assms(9), of ?r] assms(8) by simp
  have open_m: "dm_opened m" using assms(1) by (simp add: view_inv_def)
  have flush: "\<exists>d''. flush_locked M d1 = (False, M, d'')" if "dm_memtable M = t" for M
    using that snap assms(11)
    by (simp add: flush_locked_def sst_write_def io_call_def next_outcome_def Let_def)
  have app: "append_record_locked ?r m d = (ok, m', d')"
    using run open_m assms(3) by (simp add: dm_insert_def inserted_record_def)
  let ?M = "publish_read_view_locked (m\<lparr>dm_wal_writer := Some w', dm_memtable := t,
      dm_recent_records := dm_recent_records m @ [?r],
      dm_manifest := (dm_manifest m)\<lparr>md_next_sequence_id := md_next_sequence_id (dm_manifest m) + 1\<rparr>\<rparr>)"
  have M: "dm_memtable ?M = t" "dm_options ?M = dm_options m" by (simp_all add: publish_read_view_locked_def)
  obtain d'' where f: "flush_locked ?M d1 = (False, ?M, d'')" using flush[OF M(1)] by blast
  have "append_record_locked ?r m d = flush_locked ?M d1"
    using assms(4-8,10) by (simp add: append_record_locked_def publish_read_view_locked_def Let_def)
  then have res: "ok = False" "m' = ?M" using app f by simp_all
  have "published ?r m ?M"
    by (simp add: published_def publish_read_view_locked_def last_sequence_def Let_def)
  from dm_get_published[OF assms(1) this _ assms(2)] show ?thesis using run res by auto
qed

section \<open>Delta search\<close>

definition scored_key :: "scored_record \<Rightarrow> int" where
  "scored_key s = dist_id_key (sc_distance s) (dr_node (sc_record s))"

interpretation sco: keyed_order scored_less scored_key "\<lambda>s. \<not> f32_nan (sc_distance s)"
  by unfold_locales (simp add: scored_less_def scored_key_def dist_id_less)

lemma insort_key_map: "insort_key f (g x) (map g xs) = map g (insort_key (f \<circ> g) x xs)"
  by (induction xs) auto

lemma sort_key_map: "sort_key f (map g xs) = map g (sort_key (f \<circ> g) xs)"
  by (induction xs) (auto simp: insort_key_map comp_def)

definition finite_record :: "u32 \<Rightarrow> dynamic_record \<Rightarrow> bool" where
  "finite_record dim r \<longleftrightarrow> (usable_record dim r \<longrightarrow> finite_vector (unat dim) (dr_vector r))"

definition delta_key :: "f32 list \<Rightarrow> u32 \<Rightarrow> dynamic_record \<Rightarrow> int" where
  "delta_key q dim r = dist_id_key (squared_l2 q (dr_vector r) (unat dim)) (dr_node r)"

lemma scored_top:
  assumes "finite_vector (unat dim) q" and "\<forall>r\<in>set rs. finite_vector (unat dim) (dr_vector r)"
  shows "map sc_record (take n (std_sort scored_less (map (score_record q dim) rs))) =
    take n (sort_key (delta_key q dim) rs)"
proof -
  have "std_sort scored_less (map (score_record q dim) rs) = sort_key scored_key (map (score_record q dim) rs)"
    using assms by (intro sco.std_sort_eq) (auto simp: score_record_def squared_l2_valid)
  also have "\<dots> = map (score_record q dim) (sort_key (delta_key q dim) rs)"
    by (simp add: sort_key_map comp_def scored_key_def score_record_def delta_key_def [abs_def])
  finally show ?thesis by (simp add: take_map comp_def score_record_def)
qed

text \<open>
  C25: the delta search is exact: it returns the first \<open>topk\<close>, by distance and then node, of
  the live records of the query's dimension among the newest versions visible at the
  sequence number.
\<close>

theorem dm_search_delta_exact:
  assumes "view_inv m" and "finite_vector (unat dim) q"
    and "\<forall>r\<in>set (dm_recent_records m). finite_record dim r" and "dim \<noteq> 0" and "topk \<noteq> 0"
  shows "\<exists>live. lists_versions live (newest_version (dm_recent_records m) s) \<and>
    dm_search_delta_l2_at m (Some q) dim topk s =
      take topk (sort_key (delta_key q dim)
        (filter (\<lambda>r. \<not> dr_deleted r \<and> dr_dim r = dim \<and> length (dr_vector r) = unat dim) live))"
proof -
  let ?L = "deduplicate_newest_at (dm_recent_records m) s"
  have "\<forall>r\<in>set ?L. r \<in> set (dm_recent_records m)"
    using deduplicate_newest_listing[of "dm_recent_records m" s] newest_version_node(1)
    by (auto simp: lists_versions_def)
  then have "\<forall>r\<in>set (filter (usable_record dim) ?L). finite_vector (unat dim) (dr_vector r)"
    using assms(3) by (auto simp: finite_record_def)
  then show ?thesis
    using scored_top[OF assms(2)] assms(4,5) deduplicate_newest_listing[of "dm_recent_records m" s]
    by (auto simp: dm_search_delta_l2_at_def dm_collect_all_delta_records_at_def view_inv_read[OF assms(1)]
        usable_record_def[abs_def])
qed

section \<open>Overlaying the delta on the base results\<close>

text \<open>What the merge must report for a node: the delta decides, else the base.\<close>

definition overlaid :: "search_result list \<Rightarrow> dynamic_record list \<Rightarrow> f32 list \<Rightarrow> u32 \<Rightarrow> node_id \<Rightarrow> search_result option" where
  "overlaid base delta q dim k =
     (case find (\<lambda>r. dr_node r = k) delta of
        None \<Rightarrow> find (\<lambda>b. sr_id b = k) base
      | Some r \<Rightarrow>
          if dr_deleted r then None
          else if dr_dim r \<noteq> dim \<or> length (dr_vector r) \<noteq> unat dim then find (\<lambda>b. sr_id b = k) base
          else Some \<lparr>sr_id = k, sr_distance = squared_l2 q (dr_vector r) (unat dim)\<rparr>)"

lemma base_fold:
  assumes "distinct (map sr_id base)" and "um_ok acc"
  shows "um_ok (foldl (\<lambda>by_id result. um_assign (sr_id result) result by_id) acc base) \<and>
    um_find (foldl (\<lambda>by_id result. um_assign (sr_id result) result by_id) acc base) k =
      (case find (\<lambda>b. sr_id b = k) base of None \<Rightarrow> um_find acc k | Some b \<Rightarrow> Some b)"
  using assms
proof (induction base arbitrary: acc)
  case (Cons b base)
  have none: "find (\<lambda>x. sr_id x = sr_id b) base = None"
    using Cons.prems(1) by (auto simp: find_None_iff) (metis image_eqI)
  have "um_ok (um_assign (sr_id b) b acc)" using Cons.prems by simp
  with Cons.IH[of "um_assign (sr_id b) b acc"] Cons.prems none
  show ?case by (auto split: option.splits)
qed simp

lemma overlay_step:
  assumes "um_ok acc"
  shows "um_ok (overlay_record q dim acc r)"
    and "um_find (overlay_record q dim acc r) k =
      (if dr_node r \<noteq> k then um_find acc k
       else if dr_deleted r then None
       else if dr_dim r \<noteq> dim \<or> length (dr_vector r) \<noteq> unat dim then um_find acc k
       else Some \<lparr>sr_id = k, sr_distance = squared_l2 q (dr_vector r) (unat dim)\<rparr>)"
  using assms by (auto simp: overlay_record_def)

text \<open>A delta may name a node twice when both entries are the same version.\<close>

definition one_version :: "dynamic_record list \<Rightarrow> bool" where
  "one_version delta \<longleftrightarrow> (\<forall>r\<in>set delta. \<forall>r'\<in>set delta. dr_node r = dr_node r' \<longrightarrow> r = r')"

lemma overlay_fold:
  assumes "one_version delta" and "um_ok acc"
  shows "um_ok (foldl (overlay_record q dim) acc delta) \<and>
    um_find (foldl (overlay_record q dim) acc delta) k =
      (case find (\<lambda>r. dr_node r = k) delta of
         None \<Rightarrow> um_find acc k
       | Some r \<Rightarrow> um_find (overlay_record q dim acc r) k)"
  using assms
proof (induction delta arbitrary: acc)
  case (Cons r delta)
  have same: "x = r" if "find (\<lambda>x. dr_node x = dr_node r) delta = Some x" for x
    using that Cons.prems(1) by (auto simp: find_Some_iff one_version_def)
  have one: "one_version delta" using Cons.prems(1) by (simp add: one_version_def)
  have ok: "um_ok (overlay_record q dim acc r)" using overlay_step(1) Cons.prems by blast
  have "um_find (overlay_record q dim (overlay_record q dim acc r) x) k = um_find (overlay_record q dim acc x) k"
    if "dr_node r \<noteq> k \<or> x = r" for x
    using that by (auto simp: overlay_step[OF ok] overlay_step[OF Cons.prems(2)])
  then show ?case
    using Cons.IH[OF one ok] same
    by (cases "dr_node r = k") (auto simp: overlay_step[OF Cons.prems(2)] split: option.splits)
qed simp

lemma overlay_result:
  assumes "distinct (map sr_id base)" and "one_version delta"
  shows "um_ok (foldl (overlay_record q dim)
    (foldl (\<lambda>by_id result. um_assign (sr_id result) result by_id) um_empty base) delta)" (is "um_ok ?m")
    and "um_find (foldl (overlay_record q dim)
    (foldl (\<lambda>by_id result. um_assign (sr_id result) result by_id) um_empty base) delta) k =
      overlaid base delta q dim k"
proof -
  let ?b = "foldl (\<lambda>by_id result. um_assign (sr_id result) result by_id) um_empty base"
  have ok: "um_ok ?b" using base_fold[OF assms(1) um.ok_empty] by blast
  have b: "um_find ?b k = find (\<lambda>b. sr_id b = k) base"
    using base_fold[OF assms(1) um.ok_empty, of k] by (simp split: option.splits)
  show "um_ok ?m" using overlay_fold[OF assms(2) ok] by blast
  have "dr_node r = k" if "find (\<lambda>r. dr_node r = k) delta = Some r" for r
    using that by (auto simp: find_Some_iff)
  then show "um_find ?m k = overlaid base delta q dim k"
    unfolding overlaid_def
    using overlay_fold[OF assms(2) ok, of q dim k]
    by (auto simp: overlay_step(2)[OF ok] b split: option.splits)
qed

lemma overlaid_id: "overlaid base delta q dim k = Some b \<Longrightarrow> sr_id b = k"
  by (auto simp: overlaid_def find_Some_iff split: option.splits if_splits)

lemma overlaid_valid:
  assumes "overlaid base delta q dim k = Some b" and "\<forall>b\<in>set base. sr_valid b"
    and "finite_vector (unat dim) q" and "\<forall>r\<in>set delta. finite_record dim r"
  shows "sr_valid b"
proof (cases "find (\<lambda>r. dr_node r = k) delta")
  case None
  then show ?thesis using assms(1,2) by (auto simp: overlaid_def find_Some_iff)
next
  case (Some r)
  then have "finite_record dim r" using assms(4) by (auto simp: find_Some_iff)
  then show ?thesis
    using assms(1-3) Some squared_l2_valid
    by (auto simp: overlaid_def sr_valid_def finite_record_def usable_record_def find_Some_iff split: if_splits)
qed

lemma merge_exact:
  assumes "distinct (map sr_id base)" and "one_version delta"
    and "\<forall>b\<in>set base. sr_valid b" and "finite_vector (unat dim) q"
    and "\<forall>r\<in>set delta. finite_record dim r" and "dim \<noteq> 0" and "topk \<noteq> 0"
  shows "\<exists>all. distinct (map sr_id all) \<and> set all = {b. overlaid base delta q dim (sr_id b) = Some b} \<and>
    merge_base_and_delta_l2 base delta (Some q) dim topk = take topk (sort_key sr_key all)"
proof -
  let ?m = "foldl (overlay_record q dim)
    (foldl (\<lambda>by_id result. um_assign (sr_id result) result by_id) um_empty base) delta"
  let ?all = "map snd (um_items ?m)"
  note m = overlay_result[OF assms(1,2), of q dim]
  have set_all: "set ?all = {b. overlaid base delta q dim (sr_id b) = Some b}"
    using overlaid_id by (fastforce simp: um.set_values[OF m(1)] m(2) simp del: set_map)
  have "map sr_id ?all = map fst (um_items ?m)"
    using overlaid_id by (auto simp: um.items_lkp[OF m(1)] m(2))
  then have dist: "distinct (map sr_id ?all)" using um.items_distinct[OF m(1)] by (simp only:)
  have "\<forall>b\<in>set ?all. sr_valid b"
    using overlaid_valid[OF _ assms(3-5)] unfolding set_all by blast
  then have "std_sort search_result_less ?all = sort_key sr_key ?all" by (rule sro.std_sort_eq)
  then have "merge_base_and_delta_l2 base delta (Some q) dim topk = take topk (sort_key sr_key ?all)"
    using assms(6,7) by (simp add: merge_base_and_delta_l2_def)
  then show ?thesis using dist set_all by blast
qed

text \<open>
  Merging is exact: the result is the first \<open>topk\<close>, by distance and then identifier, of
  the base results overlaid with the delta, where a delta record hides the base result of
  its node, a tombstone removes it, and a record of another dimension is ignored.
\<close>

theorem merge_base_and_delta_exact:
  assumes "distinct (map sr_id base)" and "distinct (map dr_node delta)"
    and "\<forall>b\<in>set base. sr_valid b" and "finite_vector (unat dim) q"
    and "\<forall>r\<in>set delta. finite_record dim r" and "dim \<noteq> 0" and "topk \<noteq> 0"
  shows "\<exists>all. distinct (map sr_id all) \<and> set all = {b. overlaid base delta q dim (sr_id b) = Some b} \<and>
    merge_base_and_delta_l2 base delta (Some q) dim topk = take topk (sort_key sr_key all)"
proof -
  have "one_version delta" using assms(2) by (auto simp: one_version_def distinct_map inj_on_def)
  from merge_exact[OF assms(1) this assms(3-7)] show ?thesis .
qed

section \<open>Concrete runs\<close>

definition demo_options :: "bool \<Rightarrow> u64 \<Rightarrow> dynamic_write_options" where
  "demo_options wal flush_bytes = \<lparr>do_dynamic_dir = ''dyn'', do_memtable_flush_bytes = flush_bytes,
     do_dynamic_graph_degree = 16, do_enable_wal = wal, do_enable_auto_flush = True\<rparr>"

text \<open>A manager just opened on an empty directory, and one that holds a record.\<close>

definition demo_manager :: "bool \<Rightarrow> u64 \<Rightarrow> dynamic_record list \<Rightarrow> manager" where
  "demo_manager wal flush_bytes records = publish_read_view_locked
     ((DynamicWriteManager (demo_options wal flush_bytes))\<lparr>dm_opened := True,
       dm_recent_records := records,
       dm_wal_writer := (if wal then Some \<lparr>ww_output = \<lparr>os_path = ''dyn/wal/wal.log'',
         os_pending = [], os_good = True\<rparr>, ww_closed = False\<rparr> else None),
       dm_manifest := default_manifest\<lparr>md_next_sequence_id := 5\<rparr>\<rparr>)"

lemma demo_manager_simps:
  "dm_options (demo_manager wal n rs) = demo_options wal n" "dm_opened (demo_manager wal n rs)"
  "dm_memtable (demo_manager wal n rs) = MemTable n" "dm_recent_records (demo_manager wal n rs) = rs"
  "md_next_sequence_id (dm_manifest (demo_manager wal n rs)) = 5"
  "dm_wal_writer (demo_manager wal n rs) = (if wal then Some \<lparr>ww_output = \<lparr>os_path = ''dyn/wal/wal.log'',
         os_pending = [], os_good = True\<rparr>, ww_closed = False\<rparr> else None)"
  by (simp_all add: demo_manager_def publish_read_view_locked_def DynamicWriteManager_def demo_options_def)

lemma demo_manager_inv: "\<forall>r\<in>set rs. dr_seq r < 5 \<Longrightarrow> view_inv (demo_manager wal n rs)"
  by (simp add: view_inv_def demo_manager_def publish_read_view_locked_def last_sequence_def Let_def)

lemma demo_append:
  assumes "dr_seq r = 5" and "length (dr_vector r) \<le> 1" and "dr_neighbors r = []"
  shows "\<exists>m'. append_record_locked r (demo_manager False 1000 rs) d = (True, m', d)"
proof -
  have "length (dr_vector r) = 0 \<or> length (dr_vector r) = 1" using assms(2) by linarith
  then have "estimate_record_bytes r < 1000"
    using assms(3) by (auto simp: estimate_record_bytes_def sizeof_DynamicRecord_def word_less_nat_alt unat_of_nat)
  then show ?thesis
    by (simp add: append_record_locked_def demo_manager_simps demo_options_def mt_insert_def MemTable_def
        publish_read_view_locked_def mt_should_flush_def Let_def linorder_not_le [symmetric])
qed

lemma demo_insert: "\<exists>m'. dm_insert 7 (Some [0x3f800000]) 1 (demo_manager False 1000 []) d = (True, m', d)"
proof -
  have "select_incremental_neighbors_locked (demo_manager False 1000 []) 7 [0x3f800000] 1 = []"
    by (simp add: select_incremental_neighbors_locked_def demo_manager_simps demo_options_def
        collect_all_delta_records_locked_def visible_at_def deduplicate_newest_def um_items_def um_empty_def Let_def)
  then show ?thesis by (simp add: dm_insert_def demo_manager_simps demo_append)
qed

theorem dm_insert_visible_witness:
  "\<exists>m' d'. dm_insert 7 (Some [0x3f800000]) 1 (demo_manager False 1000 []) empty_disk = (True, m', d') \<and>
     dm_get m' 7 = Some (inserted_record (demo_manager False 1000 []) 7 [0x3f800000] 1)"
proof -
  obtain m' where m': "dm_insert 7 (Some [0x3f800000]) 1 (demo_manager False 1000 []) empty_disk = (True, m', empty_disk)"
    using demo_insert by blast
  from dm_insert_visible[OF demo_manager_inv _ m', of 7] m' show ?thesis by (simp add: demo_manager_simps)
qed

theorem dm_erase_visible_witness:
  "\<exists>m' d'. dm_erase 7 (demo_manager False 1000 [demo_record 1]) empty_disk = (True, m', d') \<and>
     dm_get m' 7 = None"
proof -
  obtain m' where m': "dm_erase 7 (demo_manager False 1000 [demo_record 1]) empty_disk = (True, m', empty_disk)"
    using demo_append[of "default_record\<lparr>dr_seq := 5, dr_node := 7, dr_deleted := True\<rparr>" "[demo_record 1]" empty_disk]
    by (auto simp: dm_erase_def demo_manager_simps default_record_def)
  have "view_inv (demo_manager False 1000 [demo_record 1])"
    by (rule demo_manager_inv) (simp add: demo_record_def)
  from dm_erase_visible[OF this _ m', of 7] m' show ?thesis by (simp add: demo_manager_simps)
qed

theorem dm_snapshot_stable_witness:
  "\<exists>m' d'. dm_insert 7 (Some [0x3f800000]) 1 (demo_manager False 1000 []) empty_disk = (True, m', d') \<and>
     dm_snapshot m' 4 = dm_snapshot (demo_manager False 1000 []) 4"
proof -
  let ?m = "demo_manager False 1000 []"
  obtain m' where m': "dm_insert 7 (Some [0x3f800000]) 1 ?m empty_disk = (True, m', empty_disk)"
    using demo_insert by blast
  have "dm_step (?m, empty_disk) (m', empty_disk)"
    by (rule step_insert[OF m']) (simp add: demo_manager_simps)
  then have "dm_step\<^sup>*\<^sup>* (?m, empty_disk) (m', empty_disk)" by simp
  moreover have "view_inv ?m" by (rule demo_manager_inv) simp
  moreover have "4 \<le> dm_current_sequence ?m"
    by (simp add: dm_current_sequence_def demo_manager_def publish_read_view_locked_def last_sequence_def)
  ultimately have "dm_snapshot m' 4 = dm_snapshot ?m 4" using dm_snapshot_stable[of ?m empty_disk m' empty_disk 4] by blast
  then show ?thesis using m' by blast
qed

theorem dm_insert_false_but_visible_witness:
  "\<exists>m' d'. dm_insert 7 (Some [0x3f800000]) 1 (demo_manager True 0 [])
       \<lparr>files = \<lambda>_. None, outcomes = replicate 11 Done @ [Failed 0]\<rparr> = (False, m', d') \<and>
     dm_get m' 7 = Some (inserted_record (demo_manager True 0 []) 7 [0x3f800000] 1)"
proof -
  let ?m = "demo_manager True 0 []" and ?d = "\<lparr>files = \<lambda>_. None, outcomes = replicate 11 Done @ [Failed 0]\<rparr>"
  let ?r = "inserted_record ?m 7 [0x3f800000] 1"
  have r: "dr_vector ?r = [0x3f800000]" "dr_neighbors ?r = []" "dr_dim ?r = 1"
    by (simp_all add: inserted_record_def select_incremental_neighbors_locked_def demo_manager_simps demo_options_def
        collect_all_delta_records_locked_def visible_at_def deduplicate_newest_def um_items_def um_empty_def Let_def)
  obtain w where w: "dm_wal_writer ?m = Some w" "os_good (ww_output w)" "\<not> ww_closed w"
    by (simp add: demo_manager_simps)
  have out: "outcomes ?d = [Done, Done, Done, Done, Done, Done, Done, Done, Done, Done, Done, Failed 0]"
    by (simp add: numeral_eq_Suc)
  have "\<exists>w' d1. wal_append w ?r ?d = (True, w', d1) \<and> outcomes d1 = [Failed 0]"
    unfolding wal_append_def record_shape_ok_def wal_chunks_def header_fields_def
    using w out by (simp add: r os_write_def next_outcome_def)
  then obtain w' d1 where w': "wal_append w ?r ?d = (True, w', d1)" "outcomes d1 = [Failed 0]" by blast
  obtain t where t: "mt_insert ?r (dm_memtable ?m) = (True, t)" "mt_should_flush t"
    by (simp add: mt_insert_def demo_manager_simps MemTable_def mt_should_flush_def)
  show ?thesis
    by (rule dm_insert_false_but_visible[OF demo_manager_inv _ _ _ _ w(1) w'(1) t(1) _ t(2) w'(2)])
      (simp_all add: demo_manager_simps demo_options_def MemTable_def)
qed

lemma finite_one: "finite_vector 1 [0x3f800000]"
  by (simp add: finite_vector_def f32_finite_def fp_finite_def fp_mag_def binary32_def)

theorem dm_search_delta_exact_witness:
  "\<exists>live. lists_versions live (newest_version [\<lparr>dr_seq = 1, dr_node = 7, dr_dim = 1,
       dr_vector = [0x3f800000], dr_neighbors = [], dr_deleted = False\<rparr>] 4) \<and>
    dm_search_delta_l2_at (demo_manager False 1000 [\<lparr>dr_seq = 1, dr_node = 7, dr_dim = 1,
       dr_vector = [0x3f800000], dr_neighbors = [], dr_deleted = False\<rparr>]) (Some [0x3f800000]) 1 3 4 =
      take 3 (sort_key (delta_key [0x3f800000] 1) (filter (\<lambda>r. \<not> dr_deleted r \<and> dr_dim r = 1 \<and> length (dr_vector r) = unat (1 :: u32)) live))"
proof -
  let ?r = "\<lparr>dr_seq = 1, dr_node = 7, dr_dim = 1, dr_vector = [0x3f800000], dr_neighbors = [],
    dr_deleted = False\<rparr> :: dynamic_record"
  have "view_inv (demo_manager False 1000 [?r])" by (rule demo_manager_inv) simp
  from dm_search_delta_exact[OF this, of 1 "[0x3f800000]" 3 4] show ?thesis
    using finite_one by (simp add: demo_manager_simps finite_record_def)
qed

theorem merge_base_and_delta_exact_witness:
  "\<exists>all. distinct (map sr_id all) \<and>
    set all = {b. overlaid [\<lparr>sr_id = 1, sr_distance = 0x3f800000\<rparr>] [demo_record 1\<lparr>dr_deleted := True, dr_node := 1\<rparr>] [0x3f800000] 1 (sr_id b) = Some b} \<and>
    merge_base_and_delta_l2 [\<lparr>sr_id = 1, sr_distance = 0x3f800000\<rparr>] [demo_record 1\<lparr>dr_deleted := True, dr_node := 1\<rparr>]
      (Some [0x3f800000]) 1 3 = take 3 (sort_key sr_key all)"
  by (rule merge_base_and_delta_exact)
    (use finite_one in \<open>simp_all add: sr_valid_def f32_nan_def fp_nan_def fp_mag_def binary32_def finite_record_def usable_record_def\<close>)

end
