(* ===== verification/DynRecovery.thy ===== *)
theory DynRecovery
  imports DynReads
begin

text \<open>
  What survives a restart. The invariant \<open>durable\<close> relates the manager to its files: the
  manifest names the tables, every table file holds the records its reader serves, the log
  file and its buffer hold the records since the last flush. Opening the directory again,
  after a close or a crash, rebuilds a manager that answers from those records.
\<close>

section \<open>Paths of a store\<close>

definition dir_prefix :: "string \<Rightarrow> string" where
  "dir_prefix D = (if D = [] \<or> last D = CHR ''/'' then D else D @ ''/'')"

lemma path_join_prefix: "\<not> is_absolute name \<Longrightarrow> path_join D name = dir_prefix D @ name"
  by (simp add: path_join_def dir_prefix_def)

lemma dir_prefix_slash [simp]: "dir_prefix (xs @ ''/'') = xs @ ''/''"
  by (simp add: dir_prefix_def)

lemma rel_names [simp]:
  "\<not> is_absolute ''manifest.json''" "\<not> is_absolute ''wal''" "\<not> is_absolute ''wal.log''"
  "\<not> is_absolute ''sstable''" "\<not> is_absolute (sstable_name i)"
  "\<not> is_absolute (CHR ''s'' # s)" "\<not> is_absolute (CHR ''w'' # s)"
  using sstable_name_Cons[of i] by (auto simp: is_absolute_def)

lemma dir_prefix_name [simp]:
  "dir_prefix (D @ ''wal'') = D @ ''wal/''" "dir_prefix (D @ ''sstable'') = D @ ''sstable/''"
  by (simp_all add: dir_prefix_def)

lemma path_frame [simp]:
  "wal_path (m\<lparr>dm_manifest := a\<rparr>) = wal_path m" "wal_path (m\<lparr>dm_sstables := b\<rparr>) = wal_path m"
  "wal_path (m\<lparr>dm_recent_records := c\<rparr>) = wal_path m" "wal_path (m\<lparr>dm_memtable := e\<rparr>) = wal_path m"
  "wal_path (m\<lparr>dm_wal_writer := f\<rparr>) = wal_path m" "wal_path (m\<lparr>dm_opened := g\<rparr>) = wal_path m"
  by (simp_all add: wal_path_def wal_dir_def)

lemma store_paths:
  "manifest_path m = dir_prefix (do_dynamic_dir (dm_options m)) @ ''manifest.json''"
  "wal_path m = dir_prefix (do_dynamic_dir (dm_options m)) @ ''wal/wal.log''"
  "table_base (sstable_dir m) i = dir_prefix (do_dynamic_dir (dm_options m)) @ ''sstable/'' @ sstable_name i"
  "path_join (do_dynamic_dir (dm_options m)) (path_join ''sstable'' (sstable_name i)) =
    dir_prefix (do_dynamic_dir (dm_options m)) @ ''sstable/'' @ sstable_name i"
  using dir_prefix_name(2)[of "[]"]
  by (simp_all add: manifest_path_def wal_path_def wal_dir_def sstable_dir_def table_base_def
      path_join_prefix)

lemma table_path_inj:
  assumes "sstable_name i @ ''.'' @ x = sstable_name j @ ''.'' @ y"
  shows "i = j \<and> x = y"
proof -
  have "takeWhile (\<lambda>c. c \<noteq> CHR ''.'') (sstable_name i @ ''.'' @ x) = sstable_name i" for i x
    using sstable_name_chars[of _ i] by (subst takeWhile_append2) auto
  then have "sstable_name i = sstable_name j" by (metis assms)
  then show ?thesis using assms by (simp add: sstable_name_inj)
qed

section \<open>Tables of a store\<close>

record table_info =
  ti_reader :: sst_reader
  ti_id :: u64
  ti_level :: int
  ti_records :: "dynamic_record list"

definition ti_base :: "string \<Rightarrow> table_info \<Rightarrow> string" where
  "ti_base D ti = dir_prefix D @ ''sstable/'' @ sstable_name (ti_id ti)"

definition ti_meta :: "table_info \<Rightarrow> sst_meta" where
  "ti_meta ti = table_meta (ti_id ti) (ti_level ti) (ti_records ti)"

definition ti_entry :: "table_info \<Rightarrow> manifest_entry" where
  "ti_entry ti = \<lparr>me_id = ti_id ti, me_level = ti_level ti,
     me_base_path = path_join ''sstable'' (sstable_name (ti_id ti))\<rparr>"

text \<open>The table's files hold its records, and a reader opened on them serves them.\<close>

definition table_on_disk :: "string \<Rightarrow> disk \<Rightarrow> table_info \<Rightarrow> bool" where
  "table_on_disk D d ti \<longleftrightarrow> holds_table (ti_base D ti) (ti_records ti) (ti_meta ti) d \<and>
     table_good (ti_records ti) (ti_meta ti)"

definition table_served :: "string \<Rightarrow> disk \<Rightarrow> table_info \<Rightarrow> bool" where
  "table_served D d ti \<longleftrightarrow> table_on_disk D d ti \<and>
     reader_of (ti_reader ti) (ti_base D ti) (ti_records ti) (ti_meta ti)"

definition table_records :: "table_info list \<Rightarrow> dynamic_record list" where
  "table_records tis = concat (map ti_records tis)"

lemma table_served_scan:
  assumes "table_served D d ti" and "outcomes d = []"
  shows "sst_scan_all (ti_reader ti) d = (ti_records ti, d)"
  using assms sst_scan_table by (auto simp: table_served_def table_on_disk_def)

lemma table_base_prefix: "table_base (path_join D ''sstable'') i = dir_prefix D @ ''sstable/'' @ sstable_name i"
  by (simp add: table_base_def path_join_prefix)

lemma open_table:
  assumes "table_on_disk D d ti" and "outcomes d = []"
  shows "\<exists>t. sst_open (SSTableReader (ti_base D ti)) d = (True, t, d) \<and>
    reader_of t (ti_base D ti) (ti_records ti) (ti_meta ti)"
  using sst_open_table[OF assms(2), of "path_join D ''sstable''" "ti_id ti" "ti_records ti" "ti_meta ti"] assms(1)
  by (simp add: table_base_prefix ti_base_def table_on_disk_def)

lemma table_meta_max:
  assumes "r \<in> set rs"
  shows "dr_seq r \<le> sm_max_sequence_id (table_meta i level rs)"
  using min_max_sequence_in(3)[of rs "fst (min_max_sequence rs)" "snd (min_max_sequence rs)" r] assms
  by (simp add: table_meta_def)

lemma insert_replace: "b \<in> insert z S \<Longrightarrow> x \<in> insert a (insert b S) \<Longrightarrow> x \<in> insert a (insert z S)"
  by auto

lemma fold_max_two: "fold (\<lambda>r. max (dr_seq r)) rs (max a b :: u64) \<in> insert a (insert b (dr_seq ` set rs))"
proof (cases "a \<le> b")
  case True
  then show ?thesis using fold_max_in[of rs b] by (simp only: max_absorb2) blast
next
  case False
  then have "b \<le> a" by simp
  then show ?thesis using fold_max_in[of rs a] by (simp only: max_absorb1) blast
qed

lemma foldl_max_eq: "foldl (\<lambda>v r. max v (dr_seq r)) (hi :: u64) rs = fold (\<lambda>r. max (dr_seq r)) rs hi"
  by (induction rs arbitrary: hi) (simp_all add: max.commute)

lemma entry_path [simp]: "path_join ''sstable'' (sstable_name i) = ''sstable/'' @ sstable_name i"
  using path_join_prefix[of "sstable_name i" "''sstable''"] dir_prefix_name(2)[of "[]"] by simp

lemma open_sstables_all:
  assumes "\<forall>ti\<in>set tis. table_on_disk (do_dynamic_dir (dm_options m)) d ti" and "outcomes d = []"
  shows "\<exists>top readers. open_sstables (map ti_entry tis) lo m d =
      (True, top, m\<lparr>dm_recent_records := dm_recent_records m @ table_records tis,
         dm_sstables := dm_sstables m @ readers\<rparr>, d) \<and>
    lo \<le> top \<and> (\<forall>r\<in>set (table_records tis). dr_seq r \<le> top) \<and>
    top \<in> insert lo (insert 0 (dr_seq ` set (table_records tis))) \<and>
    list_all2 (\<lambda>t ti. reader_of t (ti_base (do_dynamic_dir (dm_options m)) ti) (ti_records ti) (ti_meta ti)) readers tis"
  using assms(1)
proof (induction tis arbitrary: lo m)
  case Nil
  then show ?case by (intro exI[of _ lo] exI[of _ "[]"]) (simp add: table_records_def)
next
  case (Cons ti tis)
  let ?D = "do_dynamic_dir (dm_options m)"
  obtain t where t: "sst_open (SSTableReader (ti_base ?D ti)) d = (True, t, d)"
    "reader_of t (ti_base ?D ti) (ti_records ti) (ti_meta ti)"
    using open_table[of ?D d ti] assms(2) Cons.prems by auto
  have scan: "sst_scan_all t d = (ti_records ti, d)"
    using sst_scan_table[OF t(2) _ _ assms(2)] Cons.prems by (simp add: table_on_disk_def)
  let ?lo = "foldl (\<lambda>v r. max v (dr_seq r)) (max lo (sst_max_sequence_id t)) (ti_records ti)"
  let ?m = "m\<lparr>dm_recent_records := dm_recent_records m @ ti_records ti, dm_sstables := dm_sstables m @ [t]\<rparr>"
  have max: "sst_max_sequence_id t = sm_max_sequence_id (ti_meta ti)"
    using t(2) by (simp add: sst_max_sequence_id_def reader_of_def)
  have "sm_max_sequence_id (ti_meta ti) \<in> insert 0 (dr_seq ` set (ti_records ti))"
    using min_max_sequence_in(2)[of "ti_records ti" "fst (min_max_sequence (ti_records ti))" "snd (min_max_sequence (ti_records ti))"]
    by (simp add: ti_meta_def table_meta_def)
  then have top_in: "sst_max_sequence_id t \<in> insert 0 (dr_seq ` set (ti_records ti))" by (simp only: max)
  then have lo_in: "?lo \<in> insert lo (insert 0 (dr_seq ` set (ti_records ti)))"
    using fold_max_two[of "ti_records ti" lo "sst_max_sequence_id t"]
    unfolding foldl_max_eq by (rule insert_replace)
  have lo_ge: "lo \<le> ?lo" "\<forall>r\<in>set (ti_records ti). dr_seq r \<le> ?lo"
    using fold_max_ge[of "max lo (sst_max_sequence_id t)" "ti_records ti"]
      fold_max_all[of _ "ti_records ti" "max lo (sst_max_sequence_id t)"]
    by (auto simp: foldl_max_eq)
  have step: "open_sstables (map ti_entry (ti # tis)) lo m d = open_sstables (map ti_entry tis) ?lo ?m d"
    using t(1) scan by (simp add: ti_entry_def ti_base_def store_paths path_join_prefix Let_def)
  obtain top readers where IH: "open_sstables (map ti_entry tis) ?lo ?m d =
      (True, top, ?m\<lparr>dm_recent_records := dm_recent_records ?m @ table_records tis,
         dm_sstables := dm_sstables ?m @ readers\<rparr>, d)"
    "?lo \<le> top" "\<forall>r\<in>set (table_records tis). dr_seq r \<le> top"
    "top \<in> insert ?lo (insert 0 (dr_seq ` set (table_records tis)))"
    "list_all2 (\<lambda>t ti. reader_of t (ti_base ?D ti) (ti_records ti) (ti_meta ti)) readers tis"
    using Cons.IH[of ?m ?lo] Cons.prems by auto
  have "top \<in> insert lo (insert 0 (dr_seq ` set (table_records (ti # tis))))"
    using IH(4) lo_in by (auto simp: table_records_def)
  moreover have "\<forall>r\<in>set (table_records (ti # tis)). dr_seq r \<le> top"
    using IH(2,3) lo_ge(2) order_trans by (fastforce simp: table_records_def)
  moreover have "list_all2 (\<lambda>t ti. reader_of t (ti_base ?D ti) (ti_records ti) (ti_meta ti)) (t # readers) (ti # tis)"
    using IH(5) t(2) by simp
  moreover have "open_sstables (map ti_entry (ti # tis)) lo m d =
      (True, top, m\<lparr>dm_recent_records := dm_recent_records m @ table_records (ti # tis),
         dm_sstables := dm_sstables m @ t # readers\<rparr>, d)"
    by (simp only: step IH(1)) (simp add: table_records_def)
  moreover have "lo \<le> top" using lo_ge(1) IH(2) by (rule order_trans)
  ultimately show ?case by blast
qed

section \<open>The durable state\<close>

definition catalogue_on_disk :: "manager \<Rightarrow> disk \<Rightarrow> bool" where
  "catalogue_on_disk m d \<longleftrightarrow>
     (\<exists>mf. md_sstables mf = md_sstables (dm_manifest m) \<and>
        md_next_sstable_id mf = md_next_sstable_id (dm_manifest m) \<and>
        md_next_sequence_id mf \<le> md_next_sequence_id (dm_manifest m) \<and> md_next_sequence_id mf \<noteq> 0 \<and>
        (files d (manifest_path m) = None \<and> mf = default_manifest \<or>
         files d (manifest_path m) = Some (text_bytes (manifest_text mf)) \<and> manifest_good mf))"

definition log_on_disk :: "manager \<Rightarrow> disk \<Rightarrow> dynamic_record list \<Rightarrow> bool" where
  "log_on_disk m d ws \<longleftrightarrow>
     (\<exists>w. dm_wal_writer m = Some w \<and> \<not> ww_closed w \<and> os_good (ww_output w) \<and>
        os_path (ww_output w) = wal_path m \<and>
        file_bytes (wal_path m) d @ os_pending (ww_output w) = concat (map wal_encode ws)) \<and>
     (\<forall>r\<in>set ws. wal_good r)"

text \<open>
  \<open>tis\<close> are the tables and \<open>ws\<close> the records logged since the last flush. A reader of the
  manager and a reader of tables and log must find the same newest versions.
\<close>

definition durable :: "manager \<Rightarrow> disk \<Rightarrow> table_info list \<Rightarrow> dynamic_record list \<Rightarrow> bool" where
  "durable m d tis ws \<longleftrightarrow> view_inv m \<and> do_enable_wal (dm_options m) \<and> outcomes d = [] \<and>
     unat (md_next_sequence_id (dm_manifest m)) < 2 ^ 63 \<and>
     md_version (dm_manifest m) = kManifestVersion \<and> unat (md_wal_checkpoint (dm_manifest m)) < 2 ^ 63 \<and>
     md_next_sstable_id (dm_manifest m) \<noteq> 0 \<and>
     catalogue_on_disk m d \<and> log_on_disk m d ws \<and>
     md_sstables (dm_manifest m) = map ti_entry tis \<and> dm_sstables m = map ti_reader tis \<and>
     (\<forall>ti\<in>set tis. table_served (do_dynamic_dir (dm_options m)) d ti \<and>
        unat (ti_id ti) < unat (md_next_sstable_id (dm_manifest m))) \<and>
     mt_records (dm_memtable m) = foldl latest_step um_empty ws \<and>
     (\<forall>r\<in>set (table_records tis @ ws). dr_seq r < md_next_sequence_id (dm_manifest m)) \<and>
     (\<forall>k. newest_version (dm_recent_records m) (- 1) k = newest_version (table_records tis @ ws) (- 1) k)"

section \<open>Opening\<close>

lemma put_file_twice: "put_file p a (put_file p b d) = put_file p a d"
  by (simp add: put_file_def)

lemma replay_into_recent:
  "dm_recent_records (replay_into_memtable rs m) = dm_recent_records m @ rs"
  "mt_records (dm_memtable (replay_into_memtable rs m)) = foldl latest_step (mt_records (dm_memtable m)) rs"
  "dm_options (replay_into_memtable rs m) = dm_options m"
  "dm_manifest (replay_into_memtable rs m) = dm_manifest m"
  "dm_sstables (replay_into_memtable rs m) = dm_sstables m"
  "dm_opened (replay_into_memtable rs m) = dm_opened m"
  unfolding replay_into_memtable_def
  by (induction rs arbitrary: m) (simp_all add: mt_insert_records)

lemma view_inv_opened:
  assumes "md_next_sequence_id (dm_manifest m) \<noteq> 0"
    and "\<forall>r\<in>set (dm_recent_records m). dr_seq r < md_next_sequence_id (dm_manifest m)"
  shows "view_inv (publish_read_view_locked (m\<lparr>dm_wal_writer := w, dm_opened := True\<rparr>))"
  using assms by (simp add: view_inv_def publish_read_view_locked_def Let_def last_sequence_def)

lemma next_above:
  assumes "unat (a :: u64) < 2 ^ 63" and "unat b < 2 ^ 63" and "x \<le> max a b"
  shows "x < max n (max a b + 1)" and "max n (max a b + 1) \<noteq> 0"
proof -
  have "unat (max a b) < 2 ^ 63" using assms(1,2) by (simp add: max_def)
  moreover have "unat (- 1 :: u64) = 2 ^ 64 - 1" by (simp add: unsigned_minus_1_eq_mask mask_eq_exp_minus_1)
  ultimately have "max a b \<noteq> - 1" by force
  from next_sequence_Suc[OF this assms(3)] show "x < max n (max a b + 1)" by (simp add: less_max_iff_disj)
  then show "max n (max a b + 1) \<noteq> 0" by auto
qed

text \<open>
  Opening a directory with a catalogue, its tables and a log of which some prefix of the
  bytes is present.
\<close>

lemma dm_open_store:
  assumes "outcomes d = []" and "do_enable_wal opts" and "m0 = DynamicWriteManager opts"
    and "files d (manifest_path m0) = None \<and> mf = default_manifest \<or>
      files d (manifest_path m0) = Some (text_bytes (manifest_text mf)) \<and> manifest_good mf"
    and "md_sstables mf = map ti_entry tis"
    and "\<forall>ti\<in>set tis. table_on_disk (do_dynamic_dir opts) d ti"
    and "wal_replay_bytes (file_bytes (wal_path m0) d) = rs"
    and "\<forall>r\<in>set (table_records tis @ rs). unat (dr_seq r) < 2 ^ 63"
  shows "\<exists>m readers. dm_open m0 d = (Inr True, m, put_file (wal_path m0) (file_bytes (wal_path m0) d) d) \<and>
    view_inv m \<and> dm_recent_records m = table_records tis @ rs \<and> dm_options m = opts \<and>
    (\<exists>x. dm_manifest m = mf\<lparr>md_next_sequence_id := max (md_next_sequence_id mf) (x + 1)\<rparr> \<and>
       x \<in> insert 0 (dr_seq ` set (table_records tis @ rs))) \<and>
    mt_records (dm_memtable m) = foldl latest_step um_empty rs \<and> dm_sstables m = readers \<and>
    list_all2 (\<lambda>t ti. reader_of t (ti_base (do_dynamic_dir opts) ti) (ti_records ti) (ti_meta ti)) readers tis \<and>
    dm_wal_writer m = Some \<lparr>ww_output = \<lparr>os_path = wal_path m0, os_pending = [], os_good = True\<rparr>, ww_closed = False\<rparr>"
proof -
  let ?D = "do_dynamic_dir opts"
  have m0: "\<not> dm_opened m0" "dm_options m0 = opts" using assms(3) by (simp_all add: DynamicWriteManager_def)
  have load: "manifest_load (manifest_path m0) d = (Inr (Some mf), d)"
    using assms(1,4) by (auto simp: manifest_load_def file_exists_def manifest_text_parses)
  let ?m1 = "m0\<lparr>dm_manifest := mf, dm_sstables := [], dm_recent_records := []\<rparr>"
  obtain top readers where os: "open_sstables (map ti_entry tis) 0 ?m1 d =
      (True, top, ?m1\<lparr>dm_recent_records := table_records tis, dm_sstables := readers\<rparr>, d)"
    "\<forall>r\<in>set (table_records tis). dr_seq r \<le> top"
    "top \<in> insert 0 (dr_seq ` set (table_records tis))"
    "list_all2 (\<lambda>t ti. reader_of t (ti_base ?D ti) (ti_records ti) (ti_meta ti)) readers tis"
    using open_sstables_all[of tis ?m1 d 0] assms(1,6) m0 by auto
  let ?m2 = "?m1\<lparr>dm_recent_records := table_records tis, dm_sstables := readers,
    dm_memtable := MemTable (do_memtable_flush_bytes opts)\<rparr>"
  have paths: "wal_path ?m2 = wal_path m0" "manifest_path ?m2 = manifest_path m0"
    by (simp_all add: store_paths)
  let ?w = "fold (\<lambda>r. max (dr_seq r)) rs 0"
  have top: "unat top < 2 ^ 63" using os(3) assms(8) by auto
  have w: "unat ?w < 2 ^ 63" using fold_max_in[of rs 0] assms(8) by auto
  have seqs: "dr_seq r \<le> max top ?w" if "r \<in> set (table_records tis @ rs)" for r
    using that os(2) fold_max_all[of r rs 0] by (auto simp: le_max_iff_disj)
  have replay: "wal_replay (wal_path m0) d = (rs, d)"
    using assms(1,7) wal.replay_rejected[OF wal.dec_nil]
    by (auto simp: wal_replay_def file_bytes_def split: option.splits)
  let ?m3 = "raise_next_sequence (max top ?w) (replay_into_memtable rs ?m2)"
  let ?d = "put_file (wal_path m0) (file_bytes (wal_path m0) d) d"
  have m3: "wal_path ?m3 = wal_path m0"
    by (simp add: store_paths raise_next_sequence_def replay_into_recent)
  let ?writer = "\<lparr>ww_output = \<lparr>os_path = wal_path m0, os_pending = [], os_good = True\<rparr>, ww_closed = False\<rparr>"
  have ow: "open_wal top ?m2 d = (True, ?m3\<lparr>dm_wal_writer := Some ?writer\<rparr>, ?d)"
    using assms(1) replay m3
    by (simp add: open_wal_def paths foldl_max_eq WalWriter_def wal_sync_def put_file_twice)
  let ?m = "publish_read_view_locked (?m3\<lparr>dm_wal_writer := Some ?writer, dm_opened := True\<rparr>)"
  have run: "dm_open m0 d = (Inr True, ?m, ?d)"
    using assms(1,2,5) m0 load os(1) ow by (simp add: dm_open_def)
  have rec: "dm_recent_records ?m3 = table_records tis @ rs"
    by (simp add: raise_next_sequence_def replay_into_recent)
  have nxt: "md_next_sequence_id (dm_manifest ?m3) = max (md_next_sequence_id mf) (max top ?w + 1)"
    by (simp add: raise_next_sequence_def replay_into_recent)
  have "view_inv ?m"
    by (rule view_inv_opened) (use next_above[OF top w] seqs in \<open>auto simp only: rec nxt\<close>)
  moreover have "max top ?w \<in> insert 0 (dr_seq ` set (table_records tis @ rs))"
    using os(3) fold_max_in[of rs 0] by (cases "top \<le> ?w") (auto simp only: max_absorb1 max_absorb2 linear not_le less_imp_le set_append image_Un insert_iff Un_iff)
  then have "\<exists>x. dm_manifest ?m = mf\<lparr>md_next_sequence_id := max (md_next_sequence_id mf) (x + 1)\<rparr> \<and>
      x \<in> insert 0 (dr_seq ` set (table_records tis @ rs))"
    by (intro exI[of _ "max top ?w"])
      (simp add: publish_read_view_locked_def Let_def raise_next_sequence_def replay_into_recent)
  moreover have "dm_recent_records ?m = table_records tis @ rs \<and> dm_options ?m = opts \<and>
      mt_records (dm_memtable ?m) = foldl latest_step um_empty rs \<and> dm_sstables ?m = readers \<and>
      dm_wal_writer ?m = Some ?writer"
    using m0(2)
    by (simp add: publish_read_view_locked_def Let_def raise_next_sequence_def replay_into_recent MemTable_def)
  ultimately show ?thesis using run os(4) by blast
qed

text \<open>What a crash keeps of the log: the records whose bytes are all in the file.\<close>

lemma log_prefix:
  assumes "log_on_disk m d ws" and "dm_wal_writer m = Some w"
  shows "\<exists>j\<le>length ws. wal_replay_bytes (file_bytes (wal_path m) (crash_stream n (ww_output w) d)) = take j ws \<and>
    (length (os_pending (ww_output w)) \<le> n \<longrightarrow> j = length ws)"
proof -
  have w: "os_path (ww_output w) = wal_path m"
    "file_bytes (wal_path m) d @ os_pending (ww_output w) = concat (map wal_encode ws)"
    and good: "\<forall>r\<in>set ws. wal_good r"
    using assms by (auto simp: log_on_disk_def)
  let ?p = "file_bytes (wal_path m) d @ take n (os_pending (ww_output w))"
  have bytes: "file_bytes (wal_path m) (crash_stream n (ww_output w) d) = ?p"
    using file_bytes_crash[of "ww_output w" n d] w(1) by simp
  have "prefix ?p (concat (map wal_encode ws))"
    unfolding w(2) [symmetric] by (simp add: take_is_prefix)
  from wal.replay_prefix[OF good this] obtain j where j: "j \<le> length ws" "wal_replay_bytes ?p = take j ws" by blast
  show ?thesis
  proof (cases "length (os_pending (ww_output w)) \<le> n")
    case True
    then have "wal_replay_bytes ?p = ws" using w(2) wal.replay_all[OF good] by simp
    then show ?thesis using bytes by (intro exI[of _ "length ws"]) simp
  next
    case False
    then show ?thesis using j bytes by auto
  qed
qed

lemma holds_table_put: "holds_table base rs m d \<Longrightarrow> p \<notin> {base @ ''.data'', base @ ''.index'', base @ ''.meta''} \<Longrightarrow>
  holds_table base rs m (put_file p bs d)"
  by (auto simp: holds_table_def)

lemma table_on_disk_wal:
  assumes "table_on_disk D d ti" and "p = dir_prefix D @ ''wal/wal.log''"
  shows "table_on_disk D (put_file p bs d) ti"
  using assms by (auto simp: table_on_disk_def ti_base_def intro!: holds_table_put)

text \<open>
  C1: a crash loses at most the tail of the log. Whatever part of the buffered log bytes
  reached the file, opening the directory again succeeds and every node answers with its
  newest version among all flushed tables and the first \<open>j\<close> records logged since the last
  flush; when the whole buffer reached the file, nothing is lost and every lookup answers as
  before the crash.
\<close>

theorem dm_crash_recovery:
  assumes "durable m d tis ws" and "dm_wal_writer m = Some w"
  shows "\<exists>m' d' j. dm_open (DynamicWriteManager (dm_options m)) (crash_stream n (ww_output w) d) = (Inr True, m', d') \<and>
    j \<le> length ws \<and>
    (\<forall>k. dm_get m' k = (case newest_version (table_records tis @ take j ws) (- 1) k of
       None \<Rightarrow> None | Some r \<Rightarrow> if dr_deleted r then None else Some r)) \<and>
    (length (os_pending (ww_output w)) \<le> n \<longrightarrow> (\<forall>k. dm_get m' k = dm_get m k))"
proof -
  let ?m0 = "DynamicWriteManager (dm_options m)" and ?d = "crash_stream n (ww_output w) d"
  let ?D = "do_dynamic_dir (dm_options m)"
  have log: "log_on_disk m d ws" and cat: "catalogue_on_disk m d" and inv: "view_inv m"
    and seqs: "\<forall>r\<in>set (table_records tis @ ws). dr_seq r < md_next_sequence_id (dm_manifest m)"
    and bound: "unat (md_next_sequence_id (dm_manifest m)) < 2 ^ 63"
    using assms(1) by (auto simp: durable_def)
  have opt: "dm_options ?m0 = dm_options m" by (simp add: DynamicWriteManager_def)
  have paths: "wal_path ?m0 = wal_path m" "manifest_path ?m0 = manifest_path m"
    by (simp_all add: store_paths opt)
  have wp: "os_path (ww_output w) = wal_path m" using log assms(2) by (auto simp: log_on_disk_def)
  obtain mf where mf: "md_sstables mf = map ti_entry tis"
    "files d (manifest_path m) = None \<and> mf = default_manifest \<or>
         files d (manifest_path m) = Some (text_bytes (manifest_text mf)) \<and> manifest_good mf"
    using cat assms(1) by (auto simp: catalogue_on_disk_def durable_def)
  have other: "files ?d (manifest_path m) = files d (manifest_path m)"
    using wp by (simp add: crash_stream_def store_paths)
  have tables: "\<forall>ti\<in>set tis. table_on_disk ?D ?d ti"
    using assms(1) wp by (auto simp: crash_stream_def durable_def table_served_def store_paths intro!: table_on_disk_wal)
  obtain j where j: "j \<le> length ws" "wal_replay_bytes (file_bytes (wal_path m) ?d) = take j ws"
    "length (os_pending (ww_output w)) \<le> n \<longrightarrow> j = length ws"
    using log_prefix[OF log assms(2), of n] by blast
  have small: "\<forall>r\<in>set (table_records tis @ take j ws). unat (dr_seq r) < 2 ^ 63"
    using seqs bound by (auto simp: word_less_nat_alt dest!: in_set_takeD) (meson less_trans UnI1 UnI2)+
  obtain m' where m': "dm_open ?m0 ?d = (Inr True, m', put_file (wal_path m) (file_bytes (wal_path m) ?d) ?d)"
    "view_inv m'" "dm_recent_records m' = table_records tis @ take j ws"
    using dm_open_store[of ?d "dm_options m" ?m0 mf tis "take j ws"] assms(1) other mf tables j(2) small
    by (auto simp: durable_def paths crash_stream_def)
  have "dm_get m' k = (case newest_version (table_records tis @ take j ws) (- 1) k of
       None \<Rightarrow> None | Some r \<Rightarrow> if dr_deleted r then None else Some r)" for k
    by (simp add: dm_get_eq[OF m'(2)] m'(3))
  moreover have "dm_get m k = (case newest_version (table_records tis @ ws) (- 1) k of
       None \<Rightarrow> None | Some r \<Rightarrow> if dr_deleted r then None else Some r)" for k
    using assms(1) by (simp add: dm_get_eq[OF inv] durable_def)
  ultimately show ?thesis using m'(1) j(1,3) by auto
qed

section \<open>Flushing\<close>

lemma table_frame:
  assumes "table_served D d ti"
    and "\<And>e. e \<in> {''.data'', ''.index'', ''.meta''} \<Longrightarrow> files d' (ti_base D ti @ e) = files d (ti_base D ti @ e)"
  shows "table_served D d' ti"
  using assms by (auto simp: table_served_def table_on_disk_def holds_table_def)

lemma snapshot_dedup:
  "deduplicate_newest (map snd (um_items (foldl latest_step um_empty ws))) = deduplicate_newest ws"
  (is "deduplicate_newest ?S = ?L")
proof (rule lists_versions_unique)
  have L: "lists_versions ?L (newest_version ws (- 1))"
    using deduplicate_newest_listing[of ws "- 1"] by (simp add: deduplicate_newest_at_def)
  have ms: "mset ?L = mset ?S" by (simp add: deduplicate_newest_def)
  have S1: "set ?S = set ?L" by (rule mset_eq_setD) (rule ms [symmetric])
  have "mset (map dr_node ?L) = mset (map dr_node ?S)" by (simp only: mset_map ms)
  then have S2: "distinct (map dr_node ?S)"
    using deduplicate_distinct(1)[of ws] mset_eq_imp_distinct_iff by blast
  have "newest_version ?S (- 1) k = newest_version ws (- 1) k" for k
    by (simp only: newest_version_set[OF S2 deduplicate_distinct(1) S1] newest_version_dedup)
  then show "lists_versions (deduplicate_newest ?S) (newest_version ws (- 1))"
    using deduplicate_newest_listing[of ?S "- 1"] by (simp add: deduplicate_newest_at_def lists_versions_def)
  show "lists_versions ?L (newest_version ws (- 1))" by (rule L)
qed

lemma sst_good_wal: "wal_good r \<Longrightarrow> unat (dr_seq r) < 2 ^ 63 \<Longrightarrow> sst_good r"
  by (auto simp: sst_good_def wal_good_def sst_record_ok_def record_shape_ok_def
      kMaxRecordPayloadBytes_def kMaxPayloadBytes_def)

lemma ti_base_dir: "ti_base (do_dynamic_dir (dm_options m)) ti = table_base (sstable_dir m) (ti_id ti)"
  by (simp add: ti_base_def store_paths)

text \<open>The table a flush or a compaction writes, once its reader is opened.\<close>

definition small_log :: "dynamic_record list \<Rightarrow> bool" where
  "small_log rs \<longleftrightarrow> length (concat (map sst_encode (deduplicate_newest rs))) < 2 ^ 63"

lemma written_table:
  assumes "outcomes d = []" and "\<forall>r\<in>set rs. sst_good r" and "small_log rs" and "unat i < 2 ^ 63"
    and "level = 0 \<or> level = 1" and "\<And>e. e \<in> {''.data'', ''.index'', ''.meta''} \<Longrightarrow>
      files d' (table_base dir i @ e) =
      files (put_table (table_base dir i) (deduplicate_newest rs) (table_meta i level (deduplicate_newest rs)) d)
        (table_base dir i @ e)" and "outcomes d' = []"
  shows "\<exists>t. sst_open (SSTableReader (table_base dir i)) d' = (True, t, d') \<and>
    holds_table (table_base dir i) (deduplicate_newest rs) (table_meta i level (deduplicate_newest rs)) d' \<and>
    table_good (deduplicate_newest rs) (table_meta i level (deduplicate_newest rs)) \<and>
    reader_of t (table_base dir i) (deduplicate_newest rs) (table_meta i level (deduplicate_newest rs))"
proof -
  let ?L = "deduplicate_newest rs" and ?b = "table_base dir i"
  have holds: "holds_table ?b ?L (table_meta i level ?L) d'"
    using holds_put_table[of ?b ?L "table_meta i level ?L" d] assms(6) by (simp add: holds_table_def)
  have good: "table_good ?L (table_meta i level ?L)"
    using assms(2-5) by (intro table_meta_good) (auto simp: table_fits_def small_log_def)
  show ?thesis using sst_open_table[OF assms(7) holds good] holds good by blast
qed

lemma entry_good_ti:
  assumes "table_served D d ti"
  shows "entry_good (ti_entry ti)"
proof -
  have "meta_good (ti_meta ti)" using assms by (auto simp: table_served_def table_on_disk_def table_good_def)
  then have "- (2 ^ 31) \<le> ti_level ti" "ti_level ti < 2 ^ 31"
    by (simp_all add: meta_good_def ti_meta_def table_meta_def)
  then show ?thesis
    using sstable_name_chars[of _ "ti_id ti"] by (auto simp: entry_good_def ti_entry_def)
qed

text \<open>Rotating the log: close, remove, reopen, sync.\<close>

lemma rotate_wal_reliable:
  assumes "outcomes d = []" and "do_enable_wal (dm_options m)" and "dm_wal_writer m = Some w"
    and "\<not> ww_closed w" and "os_good (ww_output w)" and "os_path (ww_output w) = wal_path m"
  shows "rotate_wal_locked m d = (True,
    m\<lparr>dm_wal_writer := Some \<lparr>ww_output = \<lparr>os_path = wal_path m, os_pending = [], os_good = True\<rparr>,
      ww_closed = False\<rparr>\<rparr>, put_file (wal_path m) [] d)"
  using assms
  by (simp add: rotate_wal_locked_def wal_close_def wal_sync_def WalWriter_def put_file_def drop_file_def
      file_bytes_def)

lemma table_paths_differ:
  assumes "j \<noteq> i" and "e \<in> {''.data'', ''.index'', ''.meta''}" and "e' \<in> {''.data'', ''.index'', ''.meta''}"
  shows "sstable_name j @ e \<noteq> sstable_name i @ e'"
proof
  assume eq: "sstable_name j @ e = sstable_name i @ e'"
  obtain x y where "e = ''.'' @ x" "e' = ''.'' @ y" using assms(2,3) by auto
  with eq have "sstable_name j @ ''.'' @ x = sstable_name i @ ''.'' @ y" by simp
  then show False using table_path_inj assms(1) by blast
qed

text \<open>The files a flush or a compaction writes leave the other tables alone.\<close>

lemma put_table_other:
  assumes "j \<noteq> i" and "e \<in> {''.data'', ''.index'', ''.meta''}"
  shows "files (put_table (P @ sstable_name i) rs m d) (P @ sstable_name j @ e) = files d (P @ sstable_name j @ e)"
  using table_paths_differ[OF assms(1), of e "''.data''"] table_paths_differ[OF assms(1), of e "''.index''"]
    table_paths_differ[OF assms(1), of e "''.meta''"] assms(2)
  by (simp add: put_table_def)

definition saved_manifest :: "manager \<Rightarrow> manifest_data \<Rightarrow> disk \<Rightarrow> disk" where
  "saved_manifest m mf d = d\<lparr>files := (files d)(manifest_path m @ ''.tmp'' := None,
     manifest_path m \<mapsto> text_bytes (manifest_text mf))\<rparr>"

lemma saved_manifest_files:
  "outcomes (saved_manifest m mf d) = outcomes d"
  "files (saved_manifest m mf d) (manifest_path m) = Some (text_bytes (manifest_text mf))"
  "files (saved_manifest m mf d) (dir_prefix (do_dynamic_dir (dm_options m)) @ CHR ''s'' # s) =
    files d (dir_prefix (do_dynamic_dir (dm_options m)) @ CHR ''s'' # s)"
  "files (saved_manifest m mf d) (dir_prefix (do_dynamic_dir (dm_options m)) @ CHR ''w'' # s) =
    files d (dir_prefix (do_dynamic_dir (dm_options m)) @ CHR ''w'' # s)"
  by (simp_all add: saved_manifest_def store_paths)

lemma manifest_good_next:
  assumes "durable m d tis ws" and "\<forall>ti\<in>set new. table_served (do_dynamic_dir (dm_options m)) d' ti"
    and "unat i < 2 ^ 63" and "i \<noteq> 0" and "c = md_wal_checkpoint (dm_manifest m) \<or> c = 0"
  shows "manifest_good ((dm_manifest m)\<lparr>md_sstables := map ti_entry new,
      md_next_sstable_id := i, md_wal_checkpoint := c\<rparr>)"
proof -
  have "md_next_sequence_id (dm_manifest m) \<noteq> 0" using assms(1) by (auto simp: durable_def view_inv_def)
  then show ?thesis
    using assms entry_good_ti
    by (auto simp: manifest_good_def durable_def word_gt_0)
qed

lemma mt_snapshot_fold:
  assumes "mt_records t = foldl latest_step um_empty ws"
  shows "mt_snapshot t = [] \<longleftrightarrow> ws = []" and "deduplicate_newest (mt_snapshot t) = deduplicate_newest ws"
    and "set (mt_snapshot t) = set (deduplicate_newest ws)"
proof -
  show "deduplicate_newest (mt_snapshot t) = deduplicate_newest ws"
    by (simp add: mt_snapshot_def assms snapshot_dedup)
  show s: "set (mt_snapshot t) = set (deduplicate_newest ws)"
    by (simp add: mt_snapshot_def assms deduplicate_newest_def)
  show "mt_snapshot t = [] \<longleftrightarrow> ws = []"
  proof
    assume "mt_snapshot t = []"
    then have "deduplicate_newest ws = []" using s by simp
    then have "newest_version ws (- 1) k = None" for k by (simp add: find_deduplicate [symmetric])
    then show "ws = []" using newest_version_None[of ws "- 1"] by (cases ws) auto
  next
    assume "ws = []"
    then show "mt_snapshot t = []" by (simp add: mt_snapshot_def assms um_items_def um_empty_def)
  qed
qed

lemma next_id_Suc: "unat (n :: u64) < 2 ^ 63 \<Longrightarrow> unat (n + 1) = Suc (unat n) \<and> n + 1 \<noteq> 0"
proof -
  assume n: "unat n < 2 ^ 63"
  then have "unat n + 1 < 2 ^ 64" by simp
  then have "unat (n + 1) = unat n + 1" by (simp add: unat_add_lem [THEN iffD1])
  then show ?thesis by auto
qed

lemma durable_tables:
  assumes "durable m d tis ws" and "ti \<in> set tis"
  shows "table_served (do_dynamic_dir (dm_options m)) d ti" and "ti_id ti \<noteq> md_next_sstable_id (dm_manifest m)"
    and "unat (ti_id ti) < unat (md_next_sstable_id (dm_manifest m))"
  using assms by (auto simp: durable_def)

lemma durable_writer:
  assumes "durable m d tis ws"
  obtains w where "dm_wal_writer m = Some w" and "\<not> ww_closed w" and "os_good (ww_output w)"
    and "os_path (ww_output w) = wal_path m"
    and "file_bytes (wal_path m) d @ os_pending (ww_output w) = concat (map wal_encode ws)"
  using assms by (auto simp: durable_def log_on_disk_def)

lemma newest_tables_snoc:
  "newest_version (table_records (tis @ [ti]) @ ys) s k =
   newest_version ((table_records tis @ ti_records ti) @ ys) s k"
  by (simp add: table_records_def)

lemma flush_durable:
  assumes "durable m d tis ws" and "ws \<noteq> []" and "small_log ws"
    and "unat (md_next_sstable_id (dm_manifest m)) < 2 ^ 63 - 1"
  shows "\<exists>m' d' ti. flush_locked m d = (True, m', d') \<and> durable m' d' (tis @ [ti]) [] \<and>
    ti_records ti = deduplicate_newest ws \<and> same_view m m'"
proof -
  let ?i = "md_next_sstable_id (dm_manifest m)" and ?L = "deduplicate_newest ws"
  let ?P = "dir_prefix (do_dynamic_dir (dm_options m))" and ?D = "do_dynamic_dir (dm_options m)"
  let ?b = "table_base (sstable_dir m) ?i" and ?meta = "table_meta ?i 0 ?L"
  have out: "outcomes d = []" and wal: "do_enable_wal (dm_options m)" and inv: "view_inv m"
    and logged: "\<forall>r\<in>set ws. wal_good r" and mt: "mt_records (dm_memtable m) = foldl latest_step um_empty ws"
    and seqs: "\<forall>r\<in>set (table_records tis @ ws). dr_seq r < md_next_sequence_id (dm_manifest m)"
    and bound: "unat (md_next_sequence_id (dm_manifest m)) < 2 ^ 63" and id0: "?i \<noteq> 0"
    and tabs: "md_sstables (dm_manifest m) = map ti_entry tis" "dm_sstables m = map ti_reader tis"
    using assms(1) by (auto simp: durable_def log_on_disk_def)
  note snap = mt_snapshot_fold[OF mt]
  have good: "\<forall>r\<in>set ws. sst_good r"
    using logged seqs bound by (auto simp: word_less_nat_alt intro!: sst_good_wal) (meson less_trans UnI2)
  have L_ws: "set ?L \<subseteq> set ws" by (rule deduplicate_set)
  let ?d1 = "put_table ?b ?L ?meta d"
  have w1: "sst_write \<lparr>sw_dir = sstable_dir m, sw_sstable_id = ?i, sw_level = 0\<rparr> (mt_snapshot (dm_memtable m)) d = (True, ?d1)"
  proof -
    have "\<forall>r\<in>set ?L. sst_record_ok r" using good L_ws by (auto simp: sst_good_def)
    then show ?thesis using sst_write_reliable[OF out, of "mt_snapshot (dm_memtable m)"] by (simp add: snap)
  qed
  have i63: "unat ?i < 2 ^ 63" using assms(4) by simp
  note isuc = next_id_Suc[OF i63]
  let ?ti = "\<lambda>t. \<lparr>ti_reader = t, ti_id = ?i, ti_level = 0, ti_records = ?L\<rparr>"
  let ?mf = "(dm_manifest m)\<lparr>md_sstables := map ti_entry tis @
      [\<lparr>me_id = ?i, me_level = 0, me_base_path = path_join ''sstable'' (sstable_name ?i)\<rparr>],
      md_next_sstable_id := ?i + 1, md_wal_checkpoint := 0\<rparr>"
  let ?d2 = "saved_manifest m ?mf ?d1"
  have save: "manifest_save (manifest_path m) ?mf ?d1 = (True, ?d2)"
    using out by (simp add: manifest_save_reliable saved_manifest_def put_table_def)
  have own: "files ?d2 (?b @ e) = files ?d1 (?b @ e)" for e
    by (simp add: store_paths saved_manifest_files)
  obtain t where t: "sst_open (SSTableReader ?b) ?d2 = (True, t, ?d2)" "holds_table ?b ?L ?meta ?d2"
    "table_good ?L ?meta" "reader_of t ?b ?L ?meta"
    using written_table[OF out good assms(3) i63, of 0 ?d2 "sstable_dir m"] own out
    by (auto simp: saved_manifest_files put_table_def)
  obtain w where w: "dm_wal_writer m = Some w" "\<not> ww_closed w" "os_good (ww_output w)"
    "os_path (ww_output w) = wal_path m" using durable_writer[OF assms(1)] by blast
  let ?m2 = "m\<lparr>dm_manifest := ?mf, dm_sstables := dm_sstables m @ [t], dm_memtable := mt_clear (dm_memtable m)\<rparr>"
  let ?w3 = "\<lparr>ww_output = \<lparr>os_path = wal_path m, os_pending = [], os_good = True\<rparr>, ww_closed = False\<rparr>"
  let ?m3 = "?m2\<lparr>dm_wal_writer := Some ?w3\<rparr>" and ?d3 = "put_file (wal_path m) [] ?d2"
  have rot: "rotate_wal_locked ?m2 ?d2 = (True, ?m3, ?d3)"
    using rotate_wal_reliable[of ?d2 ?m2 w] w out wal by (simp add: saved_manifest_files put_table_def)
  have run: "flush_locked m d = (True, ?m3, ?d3)"
    using snap(1) assms(2) w1 save t(1) rot tabs(1)
    by (simp add: flush_locked_def Let_def table_base_def)
  have view: "same_view m ?m3" using flush_view[OF run] .
  have f3: "files ?d3 (?P @ ''sstable/'' @ s) = files ?d1 (?P @ ''sstable/'' @ s)" for s
    by (simp add: saved_manifest_files store_paths)
  have served_old: "table_served ?D ?d3 ti" if "ti \<in> set tis" for ti
  proof (rule table_frame[OF durable_tables(1)[OF assms(1) that]])
    fix e assume "e \<in> {''.data'', ''.index'', ''.meta''}"
    with put_table_other[OF durable_tables(2)[OF assms(1) that] this, of "?P @ ''sstable/''" ?L ?meta d]
    show "files ?d3 (ti_base ?D ti @ e) = files d (ti_base ?D ti @ e)"
      using f3[of "sstable_name (ti_id ti) @ e"] by (simp add: ti_base_def store_paths)
  qed
  have served_new: "table_served ?D ?d3 (?ti t)"
    using t(2-4) f3[of "sstable_name ?i @ _"] own
    by (simp add: table_served_def table_on_disk_def ti_base_dir ti_meta_def holds_table_def store_paths)
  have "manifest_good ((dm_manifest m)\<lparr>md_sstables := map ti_entry (tis @ [?ti t]),
      md_next_sstable_id := ?i + 1, md_wal_checkpoint := 0\<rparr>)"
    by (rule manifest_good_next[OF assms(1), where d' = ?d3])
      (use served_old served_new isuc assms(4) in auto)
  then have mf_good: "manifest_good ?mf" by (simp add: ti_entry_def)
  have mp: "files ?d3 (manifest_path m) = Some (text_bytes (manifest_text ?mf))"
    using saved_manifest_files(2)[of m ?mf ?d1] by (simp add: store_paths)
  have "newest_version (dm_recent_records m) (- 1) k = newest_version (table_records (tis @ [?ti t]) @ []) (- 1) k" for k
    unfolding newest_tables_snoc
    using assms(1) newest_version_append_cong[of "table_records tis" "- 1" "table_records tis" ws ?L k]
    by (simp add: durable_def)
  moreover have "view_inv ?m3" by (rule view_inv_same[OF inv view])
  moreover have "catalogue_on_disk ?m3 ?d3"
    using mp mf_good inv unfolding catalogue_on_disk_def
    by (intro exI[of _ ?mf]) (simp add: view_inv_def manifest_path_def)
  moreover have "log_on_disk ?m3 ?d3 []" by (simp add: log_on_disk_def)
  moreover have "\<forall>ti\<in>set (tis @ [?ti t]). unat (ti_id ti) < unat (?i + 1)"
    using durable_tables(3)[OF assms(1)] isuc by (auto intro: less_SucI)
  moreover have "\<forall>r\<in>set (table_records (tis @ [?ti t]) @ []). dr_seq r < md_next_sequence_id (dm_manifest m)"
    using seqs L_ws by (auto simp: table_records_def)
  ultimately have "durable ?m3 ?d3 (tis @ [?ti t]) []"
    using assms(1) served_old served_new tabs isuc out
    by (auto simp: durable_def ti_entry_def saved_manifest_files put_table_def mt_clear_def)
  then show ?thesis using run view by fastforce
qed

section \<open>Appending\<close>

lemma newest_of_table:
  assumes "mt_records t = foldl latest_step um_empty ws"
  shows "mt_get t k = newest_version ws (- 1) k"
  by (simp add: mt_get_def assms latest_fold newest_version_def)

lemma append_durable:
  assumes "durable m d tis ws" and "wal_good r" and "dr_seq r = md_next_sequence_id (dm_manifest m)"
    and "unat (md_next_sequence_id (dm_manifest m)) < 2 ^ 63 - 1"
    and "small_log (ws @ [r])" and "unat (md_next_sstable_id (dm_manifest m)) < 2 ^ 63 - 1"
  shows "\<exists>m' d' tis' ws'. append_record_locked r m d = (True, m', d') \<and> durable m' d' tis' ws' \<and> published r m m' \<and>
    (tis' = tis \<and> ws' = ws @ [r] \<or>
     (\<exists>ti. tis' = tis @ [ti] \<and> ti_records ti = deduplicate_newest (ws @ [r]) \<and> ws' = []))"
proof -
  let ?n = "md_next_sequence_id (dm_manifest m)"
  have out: "outcomes d = []" and wal: "do_enable_wal (dm_options m)" and inv: "view_inv m"
    and logged: "\<forall>r\<in>set ws. wal_good r" and mt: "mt_records (dm_memtable m) = foldl latest_step um_empty ws"
    and seqs: "\<forall>r\<in>set (table_records tis @ ws). dr_seq r < ?n" and id0: "md_next_sstable_id (dm_manifest m) \<noteq> 0"
    using assms(1) by (auto simp: durable_def log_on_disk_def)
  obtain w where w: "dm_wal_writer m = Some w" "\<not> ww_closed w" "os_good (ww_output w)"
    "os_path (ww_output w) = wal_path m"
    "file_bytes (wal_path m) d @ os_pending (ww_output w) = concat (map wal_encode ws)"
    using durable_writer[OF assms(1)] by blast
  let ?w = "w\<lparr>ww_output := (ww_output w)\<lparr>os_pending := os_pending (ww_output w) @ wal_encode r\<rparr>\<rparr>"
  have app: "wal_append w r d = (True, ?w, d)"
    using assms(2) w out by (intro wal_append_reliable) (auto simp: wal_good_def)
  have "fst (mt_insert r (dm_memtable m))"
    unfolding mt_insert_result newest_of_table[OF mt]
    using seqs assms(3) newest_version_node(1)[of ws "- 1" "dr_node r"] by auto
  then obtain t where t: "mt_insert r (dm_memtable m) = (True, t)" by (cases "mt_insert r (dm_memtable m)") auto
  have t_rec: "mt_records t = foldl latest_step um_empty (ws @ [r])"
    using mt_insert_records[of r "dm_memtable m"] t mt by simp
  let ?m1 = "m\<lparr>dm_wal_writer := Some ?w, dm_memtable := t, dm_recent_records := dm_recent_records m @ [r],
      dm_manifest := (dm_manifest m)\<lparr>md_next_sequence_id := ?n + 1\<rparr>\<rparr>"
  let ?m = "publish_read_view_locked ?m1"
  have pub: "published r m ?m"
    by (simp add: published_def publish_read_view_locked_def last_sequence_def Let_def)
  have fields: "dm_options ?m = dm_options m" "dm_sstables ?m = dm_sstables m" "dm_memtable ?m = t"
    "dm_manifest ?m = (dm_manifest m)\<lparr>md_next_sequence_id := ?n + 1\<rparr>" "dm_wal_writer ?m = Some ?w"
    "dm_recent_records ?m = dm_recent_records m @ [r]"
    by (simp_all add: publish_read_view_locked_def Let_def)
  have paths: "wal_path ?m = wal_path m" "manifest_path ?m = manifest_path m"
    by (simp_all add: store_paths fields)
  have nsuc: "unat (?n + 1) = Suc (unat ?n)" "?n \<noteq> - 1" "?n < ?n + 1"
  proof -
    show "unat (?n + 1) = Suc (unat ?n)" using next_id_Suc[of ?n] assms(4) by simp
    then show "?n < ?n + 1" by (simp add: word_less_nat_alt)
    then show "?n \<noteq> - 1" by auto
  qed
  have inv': "view_inv ?m" by (rule view_inv_published[OF inv pub assms(3) nsuc(2)])
  have newest: "newest_version (dm_recent_records m @ [r]) (- 1) k = newest_version (table_records tis @ ws @ [r]) (- 1) k" for k
    using newest_version_append_cong[of "dm_recent_records m" "- 1" "table_records tis @ ws" "[r]" "[r]" k] assms(1)
    by (simp add: durable_def)
  have cat: "catalogue_on_disk ?m d"
  proof -
    have "catalogue_on_disk m d" using assms(1) by (simp add: durable_def)
    then obtain mf where mf: "md_sstables mf = md_sstables (dm_manifest m)"
      "md_next_sstable_id mf = md_next_sstable_id (dm_manifest m)"
      "md_next_sequence_id mf \<le> ?n" "md_next_sequence_id mf \<noteq> 0"
      "files d (manifest_path m) = None \<and> mf = default_manifest \<or>
       files d (manifest_path m) = Some (text_bytes (manifest_text mf)) \<and> manifest_good mf"
      unfolding catalogue_on_disk_def by blast
    have "md_next_sequence_id mf \<le> ?n + 1" using mf(3) nsuc(3) by (meson less_imp_le order_trans)
    then show ?thesis
      unfolding catalogue_on_disk_def fields paths using mf by (intro exI[of _ mf]) simp
  qed
  have dur: "durable ?m d tis (ws @ [r])"
  proof -
    have "\<forall>x\<in>set (table_records tis @ ws @ [r]). dr_seq x < ?n + 1"
      using seqs assms(3) nsuc(3) by (auto intro: less_trans)
    moreover have "log_on_disk ?m d (ws @ [r])"
      using w assms(2) logged by (auto simp: log_on_disk_def fields paths) 
    ultimately show ?thesis
      using assms(1,4) inv' cat newest t_rec nsuc(1) unfolding durable_def fields by simp
  qed
  have run: "append_record_locked r m d =
    (if do_enable_auto_flush (dm_options m) \<and> mt_should_flush t then flush_locked ?m d else (True, ?m, d))"
    using wal w(1) app t by (simp add: append_record_locked_def publish_read_view_locked_def Let_def)
  show ?thesis
  proof (cases "do_enable_auto_flush (dm_options m) \<and> mt_should_flush t")
    case True
    obtain m' d' ti where f: "flush_locked ?m d = (True, m', d')" "durable m' d' (tis @ [ti]) []"
      "ti_records ti = deduplicate_newest (ws @ [r])" "same_view ?m m'"
      using flush_durable[OF dur _ assms(5)] assms(6) by (auto simp: fields)
    then show ?thesis using run True published_same_view[OF pub f(4)] by auto
  next
    case False
    then show ?thesis using run dur pub by auto
  qed
qed

text \<open>
  C27: on a working disk an insert succeeds, keeps the store durable (tables, catalogue, log
  and memtable stay consistent, an automatic flush included), and is visible at once.
\<close>

theorem dm_insert_durable:
  assumes "durable m d tis ws" and "wal_good (inserted_record m k vec dim)" and "dim \<noteq> 0"
    and "small_log (ws @ [inserted_record m k vec dim])"
    and "unat (md_next_sequence_id (dm_manifest m)) < 2 ^ 63 - 1"
    and "unat (md_next_sstable_id (dm_manifest m)) < 2 ^ 63 - 1"
  shows "\<exists>m' d' tis' ws'. dm_insert k (Some vec) dim m d = (True, m', d') \<and> durable m' d' tis' ws' \<and>
    dm_get m' k = Some (inserted_record m k vec dim)"
proof -
  let ?r = "inserted_record m k vec dim"
  obtain m' d' tis' ws' where a: "append_record_locked ?r m d = (True, m', d')" "durable m' d' tis' ws'"
    using append_durable[OF assms(1,2) _ assms(5,4,6)] by auto
  have inv: "view_inv m" using assms(1) by (simp add: durable_def)
  then have run: "dm_insert k (Some vec) dim m d = (True, m', d')"
    using a(1) assms(3) by (simp add: dm_insert_def inserted_record_def view_inv_def)
  have p: "published ?r m m'" using dm_insert_cases[OF run] by auto
  have "md_next_sequence_id (dm_manifest m) \<noteq> - 1"
  proof
    assume "md_next_sequence_id (dm_manifest m) = - 1"
    moreover have "unat (- 1 :: u64) = 2 ^ 64 - 1" by (simp add: unsigned_minus_1_eq_mask mask_eq_exp_minus_1)
    ultimately show False using assms(5) by simp
  qed
  from dm_get_published[OF inv p _ this] run a(2) show ?thesis by auto
qed

text \<open>
  C26: on a working disk a flush moves the logged records into a table, empties the log and
  leaves the store durable, so that no crash can lose them any more, and no read changes.
\<close>

theorem dm_flush_durable:
  assumes "durable m d tis ws" and "ws \<noteq> []" and "small_log ws"
    and "unat (md_next_sstable_id (dm_manifest m)) < 2 ^ 63 - 1"
  shows "\<exists>m' d' tis'. dm_flush m d = (True, m', d') \<and> durable m' d' tis' [] \<and>
    (\<forall>s. dm_snapshot m' s = dm_snapshot m s)"
proof -
  obtain m' d' ti where f: "flush_locked m d = (True, m', d')" "durable m' d' (tis @ [ti]) []" "same_view m m'"
    using flush_durable[OF assms] by blast
  have "dm_opened m" using assms(1) by (simp add: durable_def view_inv_def)
  moreover have "dm_snapshot m' s = dm_snapshot m s" for s
    using f(3) by (simp add: dm_snapshot_def load_read_view_def same_view_def)
  ultimately show ?thesis using f by (auto simp: dm_flush_def)
qed

section \<open>Concrete stores\<close>

text \<open>An open store on an empty directory whose log buffer holds the records \<open>ws\<close>.\<close>

definition demo_store :: "dynamic_record list \<Rightarrow> manager" where
  "demo_store ws = publish_read_view_locked
     ((DynamicWriteManager (demo_options True 1000))\<lparr>dm_opened := True, dm_recent_records := ws,
       dm_memtable := foldl (\<lambda>t r. snd (mt_insert r t)) (MemTable 1000) ws,
       dm_wal_writer := Some \<lparr>ww_output = \<lparr>os_path = ''dyn/wal/wal.log'',
         os_pending = concat (map wal_encode ws), os_good = True\<rparr>, ww_closed = False\<rparr>,
       dm_manifest := default_manifest\<lparr>md_next_sequence_id := 5\<rparr>\<rparr>)"

lemma demo_store_simps:
  "dm_options (demo_store ws) = demo_options True 1000" "dm_recent_records (demo_store ws) = ws"
  "dm_manifest (demo_store ws) = default_manifest\<lparr>md_next_sequence_id := 5\<rparr>" "dm_sstables (demo_store ws) = []"
  "dm_memtable (demo_store ws) = foldl (\<lambda>t r. snd (mt_insert r t)) (MemTable 1000) ws"
  "dm_wal_writer (demo_store ws) = Some \<lparr>ww_output = \<lparr>os_path = ''dyn/wal/wal.log'',
         os_pending = concat (map wal_encode ws), os_good = True\<rparr>, ww_closed = False\<rparr>"
  by (simp_all add: demo_store_def publish_read_view_locked_def DynamicWriteManager_def demo_options_def)

lemma demo_store_durable:
  assumes "\<forall>r\<in>set ws. wal_good r \<and> dr_seq r < 5"
  shows "durable (demo_store ws) empty_disk [] ws"
proof -
  have "view_inv (demo_store ws)"
    using assms by (simp add: demo_store_def view_inv_def publish_read_view_locked_def last_sequence_def Let_def)
  moreover have path: "wal_path (demo_store ws) = ''dyn/wal/wal.log''"
    by (simp add: store_paths demo_store_simps demo_options_def dir_prefix_def)
  moreover have "catalogue_on_disk (demo_store ws) empty_disk"
    unfolding catalogue_on_disk_def
    by (rule exI[of _ default_manifest]) (simp add: demo_store_simps default_manifest_def empty_disk_def)
  moreover have "mt_records (foldl (\<lambda>t r. snd (mt_insert r t)) t ws) = foldl latest_step (mt_records t) ws" for t
    by (induction ws arbitrary: t) (simp_all add: mt_insert_records)
  ultimately show ?thesis using assms
    by (simp add: durable_def log_on_disk_def demo_store_simps demo_options_def empty_disk_def file_bytes_def
        default_manifest_def kManifestVersion_def table_records_def MemTable_def)
qed

lemma demo_record_wal_good: "wal_good (demo_record 1)" "dr_seq (demo_record 1) < 5" "sst_good (demo_record 1)"
  by (simp_all add: demo_record_def default_record_def wal_good_def record_shape_ok_def kMaxPayloadBytes_def
      sst_good_def sst_record_ok_def kMaxRecordPayloadBytes_def)

theorem dm_crash_recovery_witness:
  "\<exists>m' d' j. dm_open (DynamicWriteManager (demo_options True 1000))
      (crash_stream 10 (ww_output \<lparr>ww_output = \<lparr>os_path = ''dyn/wal/wal.log'',
         os_pending = concat (map wal_encode [demo_record 1]), os_good = True\<rparr>, ww_closed = False\<rparr>) empty_disk) = (Inr True, m', d') \<and>
    j \<le> length [demo_record 1] \<and>
    (\<forall>k. dm_get m' k = (case newest_version (table_records [] @ take j [demo_record 1]) (- 1) k of
       None \<Rightarrow> None | Some r \<Rightarrow> if dr_deleted r then None else Some r))"
proof -
  have "durable (demo_store [demo_record 1]) empty_disk [] [demo_record 1]"
    by (rule demo_store_durable) (simp add: demo_record_wal_good)
  from dm_crash_recovery[OF this, of _ 10] show ?thesis
    unfolding demo_store_simps by (metis (no_types, lifting))
qed

lemma demo_small: "length (dr_vector r) \<le> 2 \<Longrightarrow> length (dr_neighbors r) \<le> 2 \<Longrightarrow> small_log [r]"
proof -
  assume a: "length (dr_vector r) \<le> 2" "length (dr_neighbors r) \<le> 2"
  have "deduplicate_newest [r] = [r]"
    by (rule deduplicate_fixed) simp_all
  then show "small_log [r]"
    using a by (simp add: small_log_def sst_encode_eq data_header_fields_def length_words_bytes)
qed

theorem dm_insert_durable_witness:
  "\<exists>m' d' tis' ws'. dm_insert 9 (Some [0x3f800000]) 1 (demo_store []) empty_disk = (True, m', d') \<and>
    durable m' d' tis' ws' \<and> dm_get m' 9 = Some (inserted_record (demo_store []) 9 [0x3f800000] 1)"
proof -
  let ?r = "inserted_record (demo_store []) 9 [0x3f800000] 1"
  have sel: "select_incremental_neighbors_locked (demo_store []) 9 [0x3f800000] 1 = []"
    by (simp add: select_incremental_neighbors_locked_def demo_store_simps demo_options_def
        collect_all_delta_records_locked_def visible_at_def deduplicate_newest_def um_items_def um_empty_def Let_def)
  then have "wal_good ?r" "small_log [?r]"
    using demo_small[of ?r]
    by (simp_all add: wal_good_def record_shape_ok_def inserted_record_def kMaxPayloadBytes_def)
  moreover have "durable (demo_store []) empty_disk [] []" by (rule demo_store_durable) simp
  ultimately show ?thesis
    using dm_insert_durable[of "demo_store []" empty_disk "[]" "[]" 9 "[0x3f800000]" 1]
    by (simp add: demo_store_simps default_manifest_def)
qed

theorem dm_flush_durable_witness:
  "\<exists>m' d' tis'. dm_flush (demo_store [demo_record 1]) empty_disk = (True, m', d') \<and> durable m' d' tis' [] \<and>
    (\<forall>s. dm_snapshot m' s = dm_snapshot (demo_store [demo_record 1]) s)"
proof -
  have "durable (demo_store [demo_record 1]) empty_disk [] [demo_record 1]"
    by (rule demo_store_durable) (simp add: demo_record_wal_good)
  then show ?thesis
    by (rule dm_flush_durable) (simp_all add: demo_store_simps default_manifest_def demo_small demo_record_def)
qed

end
