(* ===== verification/PqEncoder.thy ===== *)
theory PqEncoder
  imports Distance
begin

text \<open>
  \<open>core/pq_encoder.h\<close> and \<open>src/core/pq_encoder.cpp\<close>: the product quantiser. A vector is
  cut into subspaces, each subspace has its own codebook, and a code names one centroid per
  subspace. The table of asymmetric distances is what the graph search ranks candidates
  with. \<open>pick i hi\<close> is the value of the \<open>i\<close>-th draw from
  \<open>std::uniform_int_distribution(0, hi)\<close>, whose mapping the standard leaves to the library.
\<close>

record pq_config =
  pc_subspaces :: nat
  pc_centroids :: nat
  pc_train_limit :: nat
  pc_iterations :: nat

record pq_stats =
  ps_vector_count :: nat
  ps_training_vectors :: nat
  ps_dim :: nat
  ps_subspaces :: nat
  ps_centroids :: nat
  ps_code_bytes :: nat
  ps_codebook_bytes :: nat

record pq_encoder =
  pe_subspaces :: nat
  pe_centroids :: nat
  pe_dim :: nat
  pe_offsets :: "nat list"
  pe_codebooks :: "f32 list"
  pe_codes :: "u8 list"

definition PQEncoder :: pq_encoder where
  "PQEncoder = \<lparr>pe_subspaces = 0, pe_centroids = 0, pe_dim = 0, pe_offsets = [], pe_codebooks = [],
     pe_codes = []\<rparr>"

definition pq_enabled :: "pq_encoder \<Rightarrow> bool" where
  "pq_enabled e \<longleftrightarrow> pe_codes e \<noteq> []"

definition pq_vector_count :: "pq_encoder \<Rightarrow> nat" where
  "pq_vector_count e = (if pe_subspaces e = 0 then 0 else length (pe_codes e) div pe_subspaces e)"

definition pe_code_bytes :: "pq_encoder \<Rightarrow> nat" where
  "pe_code_bytes e = length (pe_codes e)"

definition pe_codebook_bytes :: "pq_encoder \<Rightarrow> nat" where
  "pe_codebook_bytes e = length (pe_codebooks e) * 4"

definition validate_trained :: "pq_encoder \<Rightarrow> unit result" where
  "validate_trained e = throw_if (pe_subspaces e = 0 \<or> pe_centroids e = 0 \<or> pe_dim e = 0 \<or>
     length (pe_offsets e) \<noteq> pe_subspaces e + 1 \<or> pe_codebooks e = [])
     (Runtime_error ''PQ encoder has not been trained'')"

section \<open>Distances to centroids\<close>

text \<open>Value \<open>d\<close> of centroid \<open>c\<close> of subspace \<open>m\<close> in the flat codebook, and its position.\<close>

definition book_at :: "pq_encoder \<Rightarrow> nat \<Rightarrow> nat \<Rightarrow> nat \<Rightarrow> nat" where
  "book_at e m c d = (m * pe_centroids e + c) * pe_dim e + d"

definition subspace :: "pq_encoder \<Rightarrow> nat \<Rightarrow> nat list" where
  "subspace e m = [pe_offsets e ! m..<pe_offsets e ! (m + 1)]"

definition subspace_distance :: "pq_encoder \<Rightarrow> f32 list \<Rightarrow> nat \<Rightarrow> nat \<Rightarrow> f32" where
  "subspace_distance e vector m c = foldl (\<lambda>distance d.
     f32_add distance (square_diff (vector ! d) (pe_codebooks e ! book_at e m c d))) 0 (subspace e m)"

definition nearest_centroid :: "pq_encoder \<Rightarrow> f32 list \<Rightarrow> nat \<Rightarrow> nat" where
  "nearest_centroid e vector m = fst (closest_index (subspace_distance e vector m) (pe_centroids e))"

definition pq_encode :: "pq_encoder \<Rightarrow> f32 list \<Rightarrow> u8 list result" where
  "pq_encode e vector = seq_result (validate_trained e) (\<lambda>_.
     Inr (map (\<lambda>m. word_of_nat (nearest_centroid e vector m)) [0..<pe_subspaces e]))"

text \<open>The loop over the subspaces; a code beyond the codebook is an error.\<close>

fun decode_subspaces :: "pq_encoder \<Rightarrow> u8 list \<Rightarrow> nat list \<Rightarrow> f32 list \<Rightarrow> f32 list result" where
  "decode_subspaces e code [] decoded = Inr decoded"
| "decode_subspaces e code (m # ms) decoded =
     (let centroid_id = unat (code ! m)
      in if pe_centroids e \<le> centroid_id then Inl (Runtime_error ''Invalid PQ code centroid id'')
         else decode_subspaces e code ms
           (foldl (\<lambda>v d. v[d := pe_codebooks e ! book_at e m centroid_id d]) decoded (subspace e m)))"

definition pq_decode_code :: "pq_encoder \<Rightarrow> u8 list \<Rightarrow> f32 list result" where
  "pq_decode_code e code = seq_result (validate_trained e) (\<lambda>_.
     decode_subspaces e code [0..<pe_subspaces e] (replicate (pe_dim e) 0))"

definition pq_decode :: "pq_encoder \<Rightarrow> u32 \<Rightarrow> f32 list result" where
  "pq_decode e vec_id = seq_result (validate_trained e) (\<lambda>_.
     if pq_vector_count e \<le> unat vec_id then Inl (Runtime_error ''PQ decode id out of range'')
     else pq_decode_code e (drop (unat vec_id * pe_subspaces e) (pe_codes e)))"

definition build_adc_table :: "pq_encoder \<Rightarrow> f32 list \<Rightarrow> f32 list" where
  "build_adc_table e query =
     (if \<not> pq_enabled e then []
      else concat (map (\<lambda>m. map (subspace_distance e query m) [0..<pe_centroids e]) [0..<pe_subspaces e]))"

definition adc_distance :: "pq_encoder \<Rightarrow> u32 \<Rightarrow> f32 list \<Rightarrow> f32 result" where
  "adc_distance e vec_id table =
     (if \<not> pq_enabled e \<or> pq_vector_count e \<le> unat vec_id \<or> length table \<noteq> pe_subspaces e * pe_centroids e
      then Inl (Runtime_error ''Invalid PQ ADC lookup'')
      else (let offset = unat vec_id * pe_subspaces e
            in Inr (foldl (\<lambda>distance m.
                 f32_add distance (table ! (m * pe_centroids e + unat (pe_codes e ! (offset + m)))))
                 0 [0..<pe_subspaces e])))"

section \<open>Training\<close>

definition pq_config_valid :: "vector_set \<Rightarrow> pq_config \<Rightarrow> bool" where
  "pq_config_valid base config \<longleftrightarrow> \<not> (vs_empty base \<or> vs_dim base = 0 \<or> pc_subspaces config = 0 \<or>
     pc_centroids config < 2 \<or> 256 < pc_centroids config \<or> pc_train_limit config = 0 \<or>
     pc_iterations config = 0)"

definition pq_start :: "vector_set \<Rightarrow> pq_config \<Rightarrow> pq_encoder \<Rightarrow> pq_encoder" where
  "pq_start base config e =
     (let subspaces = min (pc_subspaces config) (vs_dim base)
      in e\<lparr>pe_subspaces := subspaces, pe_centroids := pc_centroids config, pe_dim := vs_dim base,
           pe_offsets := map (\<lambda>m. (m * vs_dim base) div subspaces) [0..<subspaces + 1],
           pe_codebooks := replicate (subspaces * pc_centroids config * vs_dim base) 0\<rparr>)"

definition sample_ids :: "vector_set \<Rightarrow> nat \<Rightarrow> nat list" where
  "sample_ids base sample_count =
     map (\<lambda>i. ((i * vs_size base) mod 2 ^ 64 div sample_count) mod 2 ^ 32) [0..<sample_count]"

definition copy_centroid :: "nat \<Rightarrow> nat \<Rightarrow> f32 list \<Rightarrow> pq_encoder \<Rightarrow> pq_encoder" where
  "copy_centroid m c row e = e\<lparr>pe_codebooks :=
     foldl (\<lambda>book d. book[book_at e m c d := row ! d]) (pe_codebooks e) (subspace e m)\<rparr>"

definition seed_centroids :: "vector_set \<Rightarrow> nat list \<Rightarrow> nat \<Rightarrow> pq_encoder \<Rightarrow> pq_encoder" where
  "seed_centroids base samples m e = foldl (\<lambda>e c.
     copy_centroid m c (row_values base (samples ! ((c * length samples) div pe_centroids e))) e)
     e [0..<pe_centroids e]"

text \<open>One pass over the samples: the sums and counts of the centroid each one is closest to.\<close>

definition accumulate_samples :: "vector_set \<Rightarrow> nat list \<Rightarrow> nat \<Rightarrow> pq_encoder \<Rightarrow> f32 list \<times> nat list" where
  "accumulate_samples base samples m e =
     (let begin = pe_offsets e ! m; width = pe_offsets e ! (m + 1) - begin
      in foldl (\<lambda>(sums, counts) sample.
           let row = row_values base sample; best = nearest_centroid e row m
           in (foldl (\<lambda>sums d. sums[best * width + (d - begin) :=
                 f32_add (sums ! (best * width + (d - begin))) (row ! d)]) sums (subspace e m),
               counts[best := counts ! best + 1]))
         (replicate (pe_centroids e * width) 0, replicate (pe_centroids e) 0) samples)"

definition update_centroid ::
  "(nat \<Rightarrow> nat \<Rightarrow> nat) \<Rightarrow> vector_set \<Rightarrow> nat list \<Rightarrow> nat \<Rightarrow> f32 list \<Rightarrow> nat list \<Rightarrow>
   pq_encoder \<times> nat \<Rightarrow> nat \<Rightarrow> pq_encoder \<times> nat" where
  "update_centroid pick base samples m sums counts = (\<lambda>(e, draws) c.
     let begin = pe_offsets e ! m; width = pe_offsets e ! (m + 1) - begin
     in if counts ! c = 0
        then (copy_centroid m c (row_values base (samples ! pick draws (length samples - 1))) e, draws + 1)
        else (e\<lparr>pe_codebooks := foldl (\<lambda>book d. book[book_at e m c d :=
                f32_div (sums ! (c * width + (d - begin))) (f32_of_nat (counts ! c))])
                (pe_codebooks e) (subspace e m)\<rparr>, draws))"

definition train_iteration ::
  "(nat \<Rightarrow> nat \<Rightarrow> nat) \<Rightarrow> vector_set \<Rightarrow> nat list \<Rightarrow> nat \<Rightarrow> pq_encoder \<times> nat \<Rightarrow> pq_encoder \<times> nat" where
  "train_iteration pick base samples m = (\<lambda>(e, draws).
     let (sums, counts) = accumulate_samples base samples m e
     in foldl (update_centroid pick base samples m sums counts) (e, draws) [0..<pe_centroids e])"

definition train_subspace ::
  "(nat \<Rightarrow> nat \<Rightarrow> nat) \<Rightarrow> vector_set \<Rightarrow> nat list \<Rightarrow> nat \<Rightarrow> pq_encoder \<times> nat \<Rightarrow> nat \<Rightarrow> pq_encoder \<times> nat" where
  "train_subspace pick base samples iterations = (\<lambda>(e, draws) m.
     (train_iteration pick base samples m ^^ iterations) (seed_centroids base samples m e, draws))"

fun encode_rows :: "pq_encoder \<Rightarrow> vector_set \<Rightarrow> nat list \<Rightarrow> u8 list result" where
  "encode_rows e base [] = Inr []"
| "encode_rows e base (i # is) =
     seq_result (vs_row base i) (\<lambda>row.
     seq_result (pq_encode e row) (\<lambda>code.
     seq_result (encode_rows e base is) (\<lambda>codes. Inr (code @ codes))))"

definition pq_train ::
  "(nat \<Rightarrow> nat \<Rightarrow> nat) \<Rightarrow> vector_set \<Rightarrow> pq_config \<Rightarrow> pq_encoder \<Rightarrow> (pq_encoder \<times> pq_stats) result" where
  "pq_train pick base config e =
     (if \<not> pq_config_valid base config
      then Inl (Runtime_error ''Invalid PQ training configuration'')
      else (let e = pq_start base config e;
                sample_count = min (vs_size base) (max (pe_centroids e) (pc_train_limit config));
                samples = sample_ids base sample_count;
                (e, draws) = foldl (train_subspace pick base samples (pc_iterations config)) (e, 0)
                  [0..<pe_subspaces e]
            in seq_result (encode_rows e base [0..<vs_size base]) (\<lambda>codes.
                 let e = e\<lparr>pe_codes := codes\<rparr>
                 in Inr (e, \<lparr>ps_vector_count = vs_size base, ps_training_vectors = sample_count,
                      ps_dim = pe_dim e, ps_subspaces = pe_subspaces e, ps_centroids = pe_centroids e,
                      ps_code_bytes = pe_code_bytes e, ps_codebook_bytes = pe_codebook_bytes e\<rparr>))))"

section \<open>The shape of a trained encoder\<close>

definition pq_shape :: "pq_encoder \<Rightarrow> bool" where
  "pq_shape e \<longleftrightarrow> 0 < pe_subspaces e \<and> pe_subspaces e \<le> pe_dim e \<and> 2 \<le> pe_centroids e \<and>
     pe_centroids e \<le> 256 \<and>
     pe_offsets e = map (\<lambda>m. (m * pe_dim e) div pe_subspaces e) [0..<pe_subspaces e + 1] \<and>
     length (pe_codebooks e) = pe_subspaces e * pe_centroids e * pe_dim e"

definition pq_trained :: "pq_encoder \<Rightarrow> bool" where
  "pq_trained e \<longleftrightarrow> pq_shape e \<and> length (pe_codes e) = pq_vector_count e * pe_subspaces e \<and>
     (\<forall>code\<in>set (pe_codes e). unat code < pe_centroids e)"

lemma validate_shape: "pq_shape e \<Longrightarrow> validate_trained e = Inr ()"
  by (auto simp: pq_shape_def validate_trained_def throw_if_def)

text \<open>Training only rewrites values of the codebook.\<close>

definition same_shape :: "pq_encoder \<Rightarrow> pq_encoder \<Rightarrow> bool" where
  "same_shape e e' \<longleftrightarrow> pe_subspaces e' = pe_subspaces e \<and> pe_centroids e' = pe_centroids e \<and>
     pe_dim e' = pe_dim e \<and> pe_offsets e' = pe_offsets e \<and>
     length (pe_codebooks e') = length (pe_codebooks e)"

lemma foldl_preserves:
  "P s \<Longrightarrow> (\<And>s x. x \<in> set xs \<Longrightarrow> P s \<Longrightarrow> P (step s x)) \<Longrightarrow> P (foldl step s xs)"
  by (induction xs arbitrary: s) auto

lemma foldl_update_length: "length (foldl (\<lambda>v d. v[f d := g d v]) v ds) = length v"
  by (induction ds arbitrary: v) auto

lemma foldl_update_nth:
  "i < length v \<Longrightarrow> foldl (\<lambda>v d. v[d := f d]) v ds ! i = (if i \<in> set ds then f i else v ! i)"
  by (induction ds arbitrary: v) (auto simp: nth_list_update)

lemma same_shape_copy: "same_shape e0 e \<Longrightarrow> same_shape e0 (copy_centroid m c row e)"
  by (simp add: same_shape_def copy_centroid_def foldl_update_length)

lemma same_shape_update:
  "same_shape e0 (fst s) \<Longrightarrow> same_shape e0 (fst (update_centroid pick base samples m sums counts s c))"
  by (cases s) (simp add: update_centroid_def Let_def copy_centroid_def same_shape_def foldl_update_length)

lemma same_shape_iteration:
  "same_shape e0 (fst s) \<Longrightarrow> same_shape e0 (fst (train_iteration pick base samples m s))"
  by (auto simp: train_iteration_def Let_def split: prod.splits
      intro!: foldl_preserves[where P = "\<lambda>s. same_shape e0 (fst s)"] same_shape_update)

lemma same_shape_subspace:
  "same_shape e0 (fst s) \<Longrightarrow> same_shape e0 (fst (train_subspace pick base samples n s m))"
proof -
  assume a: "same_shape e0 (fst s)"
  have "same_shape e0 (seed_centroids base samples m (fst s))"
    unfolding seed_centroids_def by (rule foldl_preserves) (use a same_shape_copy in auto)
  moreover have "same_shape e0 (fst s') \<Longrightarrow> same_shape e0 (fst ((train_iteration pick base samples m ^^ n) s'))" for s'
    by (induction n) (auto intro: same_shape_iteration)
  ultimately show ?thesis by (cases s) (simp add: train_subspace_def)
qed

lemma pq_start_shape:
  assumes "pq_config_valid base config"
  shows "pq_shape (pq_start base config e)"
  using assms by (auto simp: pq_shape_def pq_start_def pq_config_valid_def Let_def)

lemma pq_shape_same: "pq_shape e \<Longrightarrow> same_shape e e' \<Longrightarrow> pq_shape e'"
  by (simp add: pq_shape_def same_shape_def)

lemma nearest_centroid_less: "pq_shape e \<Longrightarrow> nearest_centroid e v m < pe_centroids e"
  unfolding nearest_centroid_def by (rule closest_index_less) (simp add: pq_shape_def)

lemma unat_code: "pq_shape e \<Longrightarrow> unat (word_of_nat (nearest_centroid e v m) :: u8) = nearest_centroid e v m"
  using nearest_centroid_less[of e v m] by (simp add: pq_shape_def unat_of_nat)

lemma encode_rows_ok:
  assumes "pq_shape e" and "\<forall>i\<in>set is. i < vs_size base"
  shows "\<exists>codes. encode_rows e base is = Inr codes \<and> length codes = length is * pe_subspaces e \<and>
    (\<forall>code\<in>set codes. unat code < pe_centroids e)"
  using assms(2)
  by (induction "is") (auto simp: vs_row_def pq_encode_def validate_shape[OF assms(1)] unat_code[OF assms(1)]
      nearest_centroid_less[OF assms(1)])

lemma pq_train_result:
  assumes "pq_config_valid base config"
  shows "\<exists>e' stats. pq_train pick base config e = Inr (e', stats) \<and> pq_trained e' \<and>
    pq_vector_count e' = vs_size base \<and> pe_dim e' = vs_dim base \<and>
    pe_subspaces e' = min (pc_subspaces config) (vs_dim base) \<and> pq_enabled e'"
proof -
  let ?e0 = "pq_start base config e"
  let ?n = "min (vs_size base) (max (pe_centroids ?e0) (pc_train_limit config))"
  let ?r = "foldl (train_subspace pick base (sample_ids base ?n) (pc_iterations config)) (?e0, 0)
    [0..<pe_subspaces ?e0]"
  obtain e1 draws where r: "?r = (e1, draws)" by (cases ?r)
  have "same_shape ?e0 (fst ?r)"
    by (rule foldl_preserves[where P = "\<lambda>s. same_shape ?e0 (fst s)"])
      (simp_all add: same_shape_subspace, simp add: same_shape_def)
  then have same: "same_shape ?e0 e1" by (simp only: r fst_conv)
  then have shape: "pq_shape e1" "pe_subspaces e1 = pe_subspaces ?e0" "pe_dim e1 = vs_dim base"
    using pq_shape_same[OF pq_start_shape[OF assms]] by (auto simp: same_shape_def pq_start_def Let_def)
  obtain codes where codes: "encode_rows e1 base [0..<vs_size base] = Inr codes"
    "length codes = vs_size base * pe_subspaces e1" "\<forall>code\<in>set codes. unat code < pe_centroids e1"
    using encode_rows_ok[OF shape(1), of "[0..<vs_size base]" base] by auto
  have pos: "0 < pe_subspaces e1" using shape(1) by (simp add: pq_shape_def)
  moreover have "0 < vs_size base" using assms by (simp add: pq_config_valid_def vs_empty_def)
  ultimately have ne: "codes \<noteq> []" using codes(2) by auto
  have "pq_trained (e1\<lparr>pe_codes := codes\<rparr>)" "pq_vector_count (e1\<lparr>pe_codes := codes\<rparr>) = vs_size base"
    using shape(1) codes(2,3) pos
    by (auto simp: pq_trained_def pq_vector_count_def pq_shape_def)
  moreover have "pe_subspaces ?e0 = min (pc_subspaces config) (vs_dim base)"
    by (simp add: pq_start_def Let_def)
  moreover have "\<exists>stats. pq_train pick base config e = Inr (e1\<lparr>pe_codes := codes\<rparr>, stats)"
    using assms codes(1) r by (simp add: pq_train_def Let_def)
  ultimately show ?thesis using shape(2,3) ne by (auto simp: pq_enabled_def)
qed

section \<open>Codes and distances\<close>

lemma subspaces_disjoint:
  assumes "pq_shape e" and "m < m'" and "m' < pe_subspaces e" and "d \<in> set (subspace e m)"
  shows "d \<notin> set (subspace e m')"
proof -
  have off: "pe_offsets e ! j = (j * pe_dim e) div pe_subspaces e" if "j \<le> pe_subspaces e" for j
    using that assms(1) by (simp add: pq_shape_def del: upt_Suc)
  have "pe_offsets e ! Suc m \<le> pe_offsets e ! m'"
    using assms(2,3) by (simp only: off) (simp add: off div_le_mono del: mult_Suc)
  then show ?thesis using assms(4) by (auto simp: subspace_def)
qed

lemma subspace_in_dim:
  assumes "pq_shape e" and "m < pe_subspaces e" and "d \<in> set (subspace e m)"
  shows "d < pe_dim e"
proof -
  have "pe_offsets e ! Suc m = (Suc m * pe_dim e) div pe_subspaces e"
    using assms(1,2) by (simp add: pq_shape_def del: upt_Suc)
  also have "\<dots> \<le> (pe_subspaces e * pe_dim e) div pe_subspaces e"
    using assms(2) by (intro div_le_mono mult_le_mono1) simp
  also have "\<dots> = pe_dim e" using assms(2) by simp
  finally show ?thesis using assms(3) by (simp add: subspace_def)
qed

lemma decode_subspaces_values:
  assumes "pq_shape e" and "distinct ms" and "\<forall>m\<in>set ms. m < pe_subspaces e \<and> unat (code ! m) < pe_centroids e"
    and "length decoded = pe_dim e"
  shows "\<exists>v. decode_subspaces e code ms decoded = Inr v \<and> length v = pe_dim e \<and>
    (\<forall>m\<in>set ms. \<forall>d\<in>set (subspace e m). v ! d = pe_codebooks e ! book_at e m (unat (code ! m)) d) \<and>
    (\<forall>d<pe_dim e. (\<forall>m\<in>set ms. d \<notin> set (subspace e m)) \<longrightarrow> v ! d = decoded ! d)"
  using assms(2-4)
proof (induction ms arbitrary: decoded)
  case Nil
  then show ?case by simp
next
  case (Cons m ms)
  let ?v = "foldl (\<lambda>v d. v[d := pe_codebooks e ! book_at e m (unat (code ! m)) d]) decoded (subspace e m)"
  have len: "length ?v = pe_dim e" using Cons.prems(3) by (simp add: foldl_update_length)
  obtain v where v: "decode_subspaces e code ms ?v = Inr v" "length v = pe_dim e"
    "\<forall>m\<in>set ms. \<forall>d\<in>set (subspace e m). v ! d = pe_codebooks e ! book_at e m (unat (code ! m)) d"
    "\<forall>d<pe_dim e. (\<forall>m\<in>set ms. d \<notin> set (subspace e m)) \<longrightarrow> v ! d = ?v ! d"
    using Cons.IH[OF _ _ len] Cons.prems by auto
  have m: "v ! d = pe_codebooks e ! book_at e m (unat (code ! m)) d" if d: "d \<in> set (subspace e m)" for d
  proof -
    have "d < pe_dim e" using subspace_in_dim[OF assms(1) _ d] Cons.prems by simp
    moreover have "\<forall>m'\<in>set ms. d \<notin> set (subspace e m')"
    proof
      fix m' assume "m' \<in> set ms"
      then have "m' \<noteq> m" "m' < pe_subspaces e" "m < pe_subspaces e" using Cons.prems by auto
      then show "d \<notin> set (subspace e m')"
        using subspaces_disjoint[OF assms(1), of m m' d] subspaces_disjoint[OF assms(1), of m' m d] d
        by (metis linorder_neqE_nat)
    qed
    ultimately show ?thesis using v(4) d Cons.prems(3) by (simp add: foldl_update_nth)
  qed
  have "v ! d = decoded ! d" if "d < pe_dim e" "\<forall>m'\<in>set (m # ms). d \<notin> set (subspace e m')" for d
    using v(4) that Cons.prems(3) by (simp add: foldl_update_nth)
  then show ?case using v(1-3) m Cons.prems by auto
qed

lemma concat_table_nth:
  "i < n \<Longrightarrow> j < k \<Longrightarrow> concat (map (\<lambda>i. map (f i) [0..<k]) [0..<n]) ! (i * k + j) = f i j"
proof (induction n)
  case (Suc n)
  have len: "length (concat (map (\<lambda>i. map (f i) [0..<k]) [0..<n])) = n * k"
    by (induction n) auto
  show ?case
  proof (cases "i = n")
    case True
    then show ?thesis using len Suc.prems by (simp add: nth_append)
  next
    case False
    then have i: "i < n" using Suc.prems by simp
    then have "i * k + j < Suc i * k" using Suc.prems by simp
    also have "\<dots> \<le> n * k" using i by (intro mult_le_mono1) simp
    finally show ?thesis using len Suc.IH[OF i] Suc.prems by (simp add: nth_append)
  qed
qed simp

lemma length_table: "length (concat (map (\<lambda>i. map (f i) [0..<k]) [0..<n])) = n * k"
  by (induction n) auto

text \<open>The distance of a query to a vector, subspace by subspace, in the order of the code.\<close>

definition subspace_sums :: "pq_encoder \<Rightarrow> f32 list \<Rightarrow> f32 list \<Rightarrow> f32" where
  "subspace_sums e query v = foldl f32_add 0 (map (\<lambda>m.
     foldl (\<lambda>s d. f32_add s (square_diff (query ! d) (v ! d))) 0 (subspace e m)) [0..<pe_subspaces e])"

lemma code_bounds:
  assumes "pq_trained e" and "unat i < pq_vector_count e" and "m < pe_subspaces e"
  shows "unat i * pe_subspaces e + m < length (pe_codes e)"
    "unat (pe_codes e ! (unat i * pe_subspaces e + m)) < pe_centroids e"
proof -
  have "unat i * pe_subspaces e + m < Suc (unat i) * pe_subspaces e" using assms(3) by simp
  also have "\<dots> \<le> pq_vector_count e * pe_subspaces e" using assms(2) by (intro mult_le_mono1) simp
  finally show b: "unat i * pe_subspaces e + m < length (pe_codes e)" using assms(1) by (simp add: pq_trained_def)
  then show "unat (pe_codes e ! (unat i * pe_subspaces e + m)) < pe_centroids e"
    using assms(1) by (simp add: pq_trained_def)
qed

text \<open>
  C32: asymmetric distances are exact. For an encoder that training produced, the table
  lookup returns, bit for bit, the distance between the query and the vector that decoding
  the stored code yields, summed subspace by subspace.
\<close>

theorem adc_distance_decoded:
  assumes "pq_trained e" and "pq_enabled e" and "unat i < pq_vector_count e"
  shows "\<exists>v. pq_decode e i = Inr v \<and> length v = pe_dim e \<and>
    adc_distance e i (build_adc_table e query) = Inr (subspace_sums e query v)"
proof -
  have shape: "pq_shape e" using assms(1) by (simp add: pq_trained_def)
  let ?code = "drop (unat i * pe_subspaces e) (pe_codes e)"
  have code: "?code ! m = pe_codes e ! (unat i * pe_subspaces e + m)" if "m < pe_subspaces e" for m
    using code_bounds(1)[OF assms(1,3) that] by simp
  obtain v where v: "pq_decode e i = Inr v" "length v = pe_dim e"
    "\<forall>m<pe_subspaces e. \<forall>d\<in>set (subspace e m). v ! d = pe_codebooks e ! book_at e m (unat (?code ! m)) d"
    using decode_subspaces_values[OF shape, of "[0..<pe_subspaces e]" ?code "replicate (pe_dim e) 0"]
      code_bounds(2)[OF assms(1,3)] code assms(3)
    by (auto simp: pq_decode_def pq_decode_code_def validate_shape[OF shape])
  let ?t = "build_adc_table e query"
  have t: "?t ! (m * pe_centroids e + unat (?code ! m)) =
      foldl (\<lambda>s d. f32_add s (square_diff (query ! d) (v ! d))) 0 (subspace e m)" if m: "m < pe_subspaces e" for m
  proof -
    have "?t ! (m * pe_centroids e + unat (?code ! m)) = subspace_distance e query m (unat (?code ! m))"
      using assms(2) m code_bounds(2)[OF assms(1,3) m] code[OF m]
      by (simp add: build_adc_table_def concat_table_nth)
    also have "\<dots> = foldl (\<lambda>s d. f32_add s (square_diff (query ! d) (v ! d))) 0 (subspace e m)"
      unfolding subspace_distance_def by (rule foldl_cong) (use v(3) m in auto)
    finally show ?thesis .
  qed
  have "foldl (\<lambda>s m. f32_add s (?t ! (m * pe_centroids e + unat (?code ! m)))) 0 [0..<pe_subspaces e] =
    subspace_sums e query v"
    unfolding subspace_sums_def foldl_map by (rule foldl_cong) (use t in auto)
  moreover have "foldl (\<lambda>s m. f32_add s (?t ! (m * pe_centroids e + unat (pe_codes e ! (unat i * pe_subspaces e + m)))))
      0 [0..<pe_subspaces e] =
    foldl (\<lambda>s m. f32_add s (?t ! (m * pe_centroids e + unat (?code ! m)))) 0 [0..<pe_subspaces e]"
    by (rule foldl_cong) (use code in auto)
  ultimately show ?thesis
    using v(1,2) assms(2,3) by (simp add: adc_distance_def Let_def build_adc_table_def length_table)
qed

text \<open>
  Training is total. A valid configuration always yields an encoder of the right shape:
  subspaces that cover the dimension, at most 256 centroids, one code per subspace and
  vector, and every code a centroid of its codebook, so that no later lookup leaves it.
\<close>

theorem pq_train_trained:
  assumes "pq_config_valid base config"
  shows "\<exists>e' stats. pq_train pick base config e = Inr (e', stats) \<and> pq_trained e' \<and>
    pq_vector_count e' = vs_size base \<and> pe_dim e' = vs_dim base \<and>
    pe_subspaces e' = min (pc_subspaces config) (vs_dim base)"
  using pq_train_result[OF assms, of pick e] by blast

text \<open>
  Encoding is optimal per subspace: no other centroid of the subspace is closer to the
  vector than the one the code names, when the distances are finite.
\<close>

theorem pq_encode_nearest:
  assumes "pq_shape e" and "\<forall>m<pe_subspaces e. \<forall>c<pe_centroids e. f32_finite (subspace_distance e v m c)"
  shows "\<exists>code. pq_encode e v = Inr code \<and> length code = pe_subspaces e \<and>
    (\<forall>m<pe_subspaces e. \<forall>c<pe_centroids e.
       f32_key (subspace_distance e v m (unat (code ! m))) \<le> f32_key (subspace_distance e v m c))"
  using closest_index_min assms
  by (simp add: pq_encode_def validate_shape unat_code) (simp add: nearest_centroid_def)

text \<open>With finite codebooks and queries no table entry and no sum of entries is a NaN.\<close>

definition finite_codebooks :: "pq_encoder \<Rightarrow> bool" where
  "finite_codebooks e \<longleftrightarrow> (\<forall>x\<in>set (pe_codebooks e). f32_finite x)"

lemma book_at_less:
  assumes "m < pe_subspaces e" and "c < pe_centroids e" and "d < pe_dim e"
  shows "book_at e m c d < pe_subspaces e * pe_centroids e * pe_dim e"
proof -
  have "(m * pe_centroids e + c) * pe_dim e + d < Suc (m * pe_centroids e + c) * pe_dim e" using assms(3) by simp
  also have "\<dots> \<le> Suc m * pe_centroids e * pe_dim e" using assms(2) by (intro mult_le_mono1) simp
  also have "\<dots> \<le> pe_subspaces e * pe_centroids e * pe_dim e" using assms(1) by (intro mult_le_mono1) simp
  finally show ?thesis by (simp add: book_at_def)
qed

lemma subspace_distance_nonneg:
  assumes "pq_shape e" and "finite_codebooks e" and "finite_vector (pe_dim e) q" and m: "m < pe_subspaces e" and c: "c < pe_centroids e"
  shows "f32_nonneg (subspace_distance e q m c)"
proof -
  have entry: "f32_nonneg (square_diff (q ! d) (pe_codebooks e ! book_at e m c d))" if "d \<in> set (subspace e m)" for d
  proof (rule square_diff_nonneg)
    have d: "d < pe_dim e" by (rule subspace_in_dim[OF assms(1) m that])
    then show "f32_finite (q ! d)" using assms(3) by (simp add: finite_vector_def)
    show "f32_finite (pe_codebooks e ! book_at e m c d)"
      using assms(1,2) book_at_less[OF m c d] by (simp add: finite_codebooks_def pq_shape_def)
  qed
  have "f32_nonneg (foldl f32_add 0 (map (\<lambda>d. square_diff (q ! d) (pe_codebooks e ! book_at e m c d)) (subspace e m)))"
    by (rule foldl_add_nonneg) (use entry in auto)
  then show ?thesis by (simp add: subspace_distance_def foldl_map)
qed

lemma adc_distance_nonneg:
  assumes "pq_trained e" and "finite_codebooks e" and "finite_vector (pe_dim e) q"
    and "adc_distance e i (build_adc_table e q) = Inr x"
  shows "f32_nonneg x"
proof -
  have enabled: "pq_enabled e" and i: "unat i < pq_vector_count e"
    using assms(4) by (auto simp: adc_distance_def split: if_splits)
  let ?at = "\<lambda>m. unat (pe_codes e ! (unat i * pe_subspaces e + m))"
  have x: "x = foldl f32_add 0 (map (\<lambda>m. build_adc_table e q ! (m * pe_centroids e + ?at m)) [0..<pe_subspaces e])"
    using assms(4) by (simp add: adc_distance_def foldl_map Let_def split: if_splits)
  have "f32_nonneg (build_adc_table e q ! (m * pe_centroids e + ?at m))" if m: "m < pe_subspaces e" for m
  proof -
    note c = code_bounds(2)[OF assms(1) i m]
    have "build_adc_table e q ! (m * pe_centroids e + ?at m) = subspace_distance e q m (?at m)"
      using enabled m c by (simp add: build_adc_table_def concat_table_nth)
    then show ?thesis using subspace_distance_nonneg[OF _ assms(2,3) m c] assms(1) by (simp add: pq_trained_def)
  qed
  then show ?thesis unfolding x by (intro foldl_add_nonneg) auto
qed

section \<open>Concrete encoders\<close>

definition demo_pq :: pq_encoder where
  "demo_pq = \<lparr>pe_subspaces = 1, pe_centroids = 2, pe_dim = 1, pe_offsets = [0, 1],
     pe_codebooks = [0x3f800000, 0x40000000], pe_codes = [1, 0]\<rparr>"

lemma demo_pq_trained: "pq_shape demo_pq" "pq_trained demo_pq" "pq_enabled demo_pq" "pq_vector_count demo_pq = 2"
  by (simp_all add: pq_trained_def pq_shape_def demo_pq_def pq_vector_count_def pq_enabled_def)

theorem adc_distance_decoded_witness:
  "\<exists>v. pq_decode demo_pq 1 = Inr v \<and> length v = pe_dim demo_pq \<and>
    adc_distance demo_pq 1 (build_adc_table demo_pq [0x40400000]) = Inr (subspace_sums demo_pq [0x40400000] v)"
  by (rule adc_distance_decoded) (simp_all add: demo_pq_trained)

theorem pq_train_trained_witness:
  "\<exists>e' stats. pq_train (\<lambda>i hi. hi) \<lparr>vs_dim = 2, vs_values = [1, 2, 3, 4]\<rparr>
      \<lparr>pc_subspaces = 8, pc_centroids = 2, pc_train_limit = 10, pc_iterations = 4\<rparr> PQEncoder = Inr (e', stats) \<and>
    pq_trained e' \<and> pq_vector_count e' = vs_size \<lparr>vs_dim = 2, vs_values = [1, 2, 3, 4]\<rparr> \<and>
    pe_dim e' = vs_dim \<lparr>vs_dim = 2, vs_values = [1, 2, 3, 4 :: f32]\<rparr> \<and>
    pe_subspaces e' = min (pc_subspaces \<lparr>pc_subspaces = 8, pc_centroids = 2, pc_train_limit = 10, pc_iterations = 4\<rparr>)
      (vs_dim \<lparr>vs_dim = 2, vs_values = [1, 2, 3, 4 :: f32]\<rparr>)"
  by (rule pq_train_trained) (simp add: pq_config_valid_def vs_empty_def vs_size_def)

theorem pq_encode_nearest_witness:
  "\<exists>code. pq_encode (demo_pq\<lparr>pe_codebooks := [0x3f800000, 0x3f800000]\<rparr>) [0x3f800000] = Inr code \<and>
    length code = pe_subspaces (demo_pq\<lparr>pe_codebooks := [0x3f800000, 0x3f800000]\<rparr>) \<and>
    (\<forall>m<pe_subspaces (demo_pq\<lparr>pe_codebooks := [0x3f800000, 0x3f800000]\<rparr>).
     \<forall>c<pe_centroids (demo_pq\<lparr>pe_codebooks := [0x3f800000, 0x3f800000]\<rparr>).
       f32_key (subspace_distance (demo_pq\<lparr>pe_codebooks := [0x3f800000, 0x3f800000]\<rparr>) [0x3f800000] m (unat (code ! m))) \<le>
       f32_key (subspace_distance (demo_pq\<lparr>pe_codebooks := [0x3f800000, 0x3f800000]\<rparr>) [0x3f800000] m c))"
proof (rule pq_encode_nearest)
  let ?e = "demo_pq\<lparr>pe_codebooks := [0x3f800000, 0x3f800000]\<rparr>"
  show "pq_shape ?e" by (simp add: pq_shape_def demo_pq_def)
  have "square_diff 0x3f800000 0x3f800000 = 0"
    by (rule square_diff_self) (simp add: f32_finite_def fp_finite_def fp_mag_def binary32_def)
  then show "\<forall>m<pe_subspaces ?e. \<forall>c<pe_centroids ?e. f32_finite (subspace_distance ?e [0x3f800000] m c)"
    by (auto simp: demo_pq_def less_2_cases_iff subspace_distance_def subspace_def book_at_def f32_finite_def
        fp_finite_def fp_mag_def binary32_def)
qed

end
