(* ===== verification/PageCodec.thy ===== *)
theory PageCodec
  imports PqEncoder Bytes
begin

text \<open>
  \<open>graph/disk_page_codec.h\<close> and \<open>src/graph/disk_page_codec.cpp\<close>: the page format of the
  packed graph. A page holds a header and four arrays over its slots (identifiers, degrees,
  vectors, neighbours) and, with a quantiser, the codes of the neighbours.
\<close>

section \<open>Loops that can throw\<close>

fun fold_result :: "('s \<Rightarrow> 'x \<Rightarrow> 's result) \<Rightarrow> 's \<Rightarrow> 'x list \<Rightarrow> 's result" where
  "fold_result f s [] = Inr s"
| "fold_result f s (x # xs) = seq_result (f s x) (\<lambda>s. fold_result f s xs)"

fun get_list :: "('x \<Rightarrow> nat \<Rightarrow> ('a \<times> nat) result) \<Rightarrow> 'x list \<Rightarrow> nat \<Rightarrow> ('a list \<times> nat) result" where
  "get_list f [] cursor = Inr ([], cursor)"
| "get_list f (x # xs) cursor = seq_result (f x cursor) (\<lambda>(v, cursor).
     seq_result (get_list f xs cursor) (\<lambda>(vs, cursor). Inr (v # vs, cursor)))"

section \<open>Sizes\<close>

text \<open>The fields of the index header; the code computes with them in 64 bits.\<close>

record graph_metadata =
  gm_vector_count :: nat
  gm_dim :: nat
  gm_degree :: nat
  gm_page_size :: nat
  gm_records_offset :: nat
  gm_directory_offset :: nat
  gm_page_count :: nat
  gm_nodes_per_page :: nat
  gm_neighbor_pq_code_bytes :: nat

definition graph_record_bytes :: "nat \<Rightarrow> nat \<Rightarrow> nat \<Rightarrow> nat" where
  "graph_record_bytes dim degree neighbor_pq_code_bytes =
     4 * 2 + dim * 4 + degree * 4 + degree * neighbor_pq_code_bytes"

definition align_up :: "u64 \<Rightarrow> u64 \<Rightarrow> u64" where
  "align_up value alignment =
     (if alignment = 0 then value
      else (let remainder = value mod alignment
            in if remainder = 0 then value else value + alignment - remainder))"

definition packed_nodes_per_page :: "nat \<Rightarrow> nat \<Rightarrow> nat \<Rightarrow> nat \<Rightarrow> nat" where
  "packed_nodes_per_page dim degree page_size neighbor_pq_code_bytes =
     (if page_size \<le> 4 * 2 then 0
      else (page_size - 4 * 2) div
        (4 * 2 + dim * 4 + degree * 4 + degree * neighbor_pq_code_bytes))"

section \<open>Encoding\<close>

text \<open>\<open>put_bytes\<close>: overwrite the page at the offset and advance.\<close>

definition put_bytes :: "bytes \<Rightarrow> bytes \<times> nat \<Rightarrow> (bytes \<times> nat) result" where
  "put_bytes bs = (\<lambda>(page, offset).
     if length page < offset + length bs then Inl (Runtime_error ''Graph node page overflow'')
     else Inr (take offset page @ bs @ drop (offset + length bs) page, offset + length bs))"

definition put_vector_slot :: "vector_set \<Rightarrow> u32 option \<Rightarrow> bytes \<times> nat \<Rightarrow> (bytes \<times> nat) result" where
  "put_vector_slot base node = (\<lambda>(page, offset).
     let width = vs_dim base * 4
     in if length page < offset + width
        then Inl (Runtime_error ''Packed vector block exceeds page size'')
        else case node of
          None \<Rightarrow> Inr (page, offset + width)
        | Some i \<Rightarrow> seq_result (vs_row base (unat i)) (\<lambda>row.
            Inr (take offset page @ words_bytes row @ drop (offset + width) page, offset + width)))"

definition neighbor_at :: "u32 list list \<Rightarrow> u32 option \<Rightarrow> nat \<Rightarrow> u32" where
  "neighbor_at graph node n =
     (case node of None \<Rightarrow> - 1 | Some i \<Rightarrow> if n < length (graph ! unat i) then graph ! unat i ! n else - 1)"

definition code_at :: "pq_encoder \<Rightarrow> u32 \<Rightarrow> nat \<Rightarrow> u8" where
  "code_at model neighbor b =
     (if neighbor \<noteq> - 1 then pe_codes model ! (unat neighbor * pe_subspaces model + b) else 0)"

text \<open>
  \<open>node slot\<close> is the node stored in a slot, \<open>None\<close> past the node count. A short last page
  has fewer nodes than slots; the subtraction that counts them wraps like \<open>std::size_t\<close>.
\<close>

definition page_node_count :: "nat \<Rightarrow> nat \<Rightarrow> nat \<Rightarrow> nat" where
  "page_node_count page_id nodes_per_page order_size =
     (let begin = page_id * nodes_per_page
      in (2 ^ 64 + min (begin + nodes_per_page) order_size - begin) mod 2 ^ 32)"

definition encode_packed_page ::
  "u32 \<Rightarrow> vector_set \<Rightarrow> u32 list list \<Rightarrow> u32 list \<Rightarrow> nat \<Rightarrow> nat \<Rightarrow> nat \<Rightarrow> pq_encoder option \<Rightarrow> bytes result" where
  "encode_packed_page page_id base graph order nodes_per_page page_size degree pq_model =
     (let pq_code_bytes = (case pq_model of None \<Rightarrow> 0 | Some m \<Rightarrow> if pq_enabled m then pe_subspaces m else 0);
          begin = unat page_id * nodes_per_page;
          node_count = page_node_count (unat page_id) nodes_per_page (length order);
          node = (\<lambda>slot. if slot < node_count then Some (order ! (begin + slot)) else None);
          slots = [0..<nodes_per_page]
      in if 0 < pq_code_bytes \<and> pq_vector_count (the pq_model) < vs_size base
         then Inl (Runtime_error ''PQ model does not cover packed graph base vectors'')
         else
           seq_result (put_bytes (enc_word page_id) (replicate page_size 0, 0)) (\<lambda>s.
           seq_result (put_bytes (enc_word (word_of_nat node_count :: u32)) s) (\<lambda>s.
           seq_result (fold_result (\<lambda>s slot.
             put_bytes (enc_word (case node slot of None \<Rightarrow> - 1 | Some i \<Rightarrow> i)) s) s slots) (\<lambda>s.
           seq_result (fold_result (\<lambda>s slot.
             put_bytes (enc_word (case node slot of None \<Rightarrow> 0
               | Some i \<Rightarrow> (word_of_nat (length (graph ! unat i)) :: u32))) s) s slots) (\<lambda>s.
           seq_result (fold_result (\<lambda>s slot. put_vector_slot base (node slot) s) s slots) (\<lambda>s.
           seq_result (fold_result (\<lambda>s slot. fold_result (\<lambda>s n.
             put_bytes (enc_word (neighbor_at graph (node slot) n)) s) s [0..<degree]) s slots) (\<lambda>s.
           seq_result (if 0 < pq_code_bytes
             then fold_result (\<lambda>s slot. fold_result (\<lambda>s n. fold_result (\<lambda>s b.
               put_bytes (enc_word (code_at (the pq_model) (neighbor_at graph (node slot) n) b)) s)
               s [0..<pq_code_bytes]) s [0..<degree]) s slots
             else Inr s) (\<lambda>(page, offset). Inr page))))))))"

section \<open>Decoding\<close>

record disk_node =
  dn_id :: u32
  dn_neighbors :: "u32 list"
  dn_neighbor_pq_codes :: "u8 list"
  dn_vector :: "f32 list"
  dn_vector_offset :: nat

record decoded_page =
  dp_page_id :: u32
  dp_bytes :: bytes
  dp_nodes :: "disk_node list"

definition get_bytes :: "bytes \<Rightarrow> nat \<Rightarrow> ('a::len word \<times> nat) result" where
  "get_bytes page offset =
     (case get_word (drop offset page) of
        None \<Rightarrow> Inl (Runtime_error ''Graph node page is truncated'')
      | Some (w, rest) \<Rightarrow> Inr (w, offset + LENGTH('a) div 8))"

definition get_vector_slot :: "graph_metadata \<Rightarrow> bytes \<Rightarrow> nat \<Rightarrow> (nat \<times> nat) result" where
  "get_vector_slot meta page cursor =
     (if length page < cursor + gm_dim meta * 4
      then Inl (Runtime_error ''Packed vector block is truncated'')
      else Inr (cursor, cursor + gm_dim meta * 4))"

definition stored_neighbors :: "u32 \<Rightarrow> u32 list \<Rightarrow> u32 list" where
  "stored_neighbors degree raw =
     map snd (filter (\<lambda>(n, neighbor). n < unat degree \<and> neighbor \<noteq> - 1) (enumerate 0 raw))"

text \<open>The first \<open>degrees[slot]\<close> codes of the slot; a degree beyond the slot's leaves zeros.\<close>

definition stored_codes :: "u32 \<Rightarrow> nat \<Rightarrow> u8 list \<Rightarrow> u8 list" where
  "stored_codes degree pq_code_bytes raw =
     (let n = unat degree * pq_code_bytes in take n raw @ replicate (n - length raw) 0)"

definition decode_packed_page :: "graph_metadata \<Rightarrow> u32 \<Rightarrow> bytes \<Rightarrow> decoded_page result" where
  "decode_packed_page meta page_id page =
     (let slots = [0..<gm_nodes_per_page meta]
      in seq_result (get_bytes page 0) (\<lambda>(stored_id :: u32, cursor).
         seq_result (get_bytes page cursor) (\<lambda>(node_count :: u32, cursor).
         if stored_id \<noteq> page_id \<or> gm_nodes_per_page meta < unat node_count
         then Inl (Runtime_error ''Corrupted packed graph page header'')
         else
           seq_result (get_list (\<lambda>_. get_bytes page) slots cursor) (\<lambda>(ids :: u32 list, cursor).
           seq_result (get_list (\<lambda>_. get_bytes page) slots cursor) (\<lambda>(degrees :: u32 list, cursor).
           seq_result (get_list (\<lambda>_. get_vector_slot meta page) slots cursor) (\<lambda>(offsets, cursor).
           seq_result (get_list (\<lambda>_. get_list (\<lambda>_. get_bytes page) [0..<gm_degree meta]) slots cursor)
             (\<lambda>(neighbors :: u32 list list, cursor).
           seq_result (if 0 < gm_neighbor_pq_code_bytes meta
             then get_list (\<lambda>_ cursor. get_list (\<lambda>_. get_list (\<lambda>_. get_bytes page)
                 [0..<gm_neighbor_pq_code_bytes meta]) [0..<gm_degree meta] cursor) slots cursor
             else Inr (replicate (gm_nodes_per_page meta) [], cursor)) (\<lambda>(codes :: u8 list list list, cursor).
           Inr \<lparr>dp_page_id = stored_id, dp_bytes = page,
             dp_nodes = map (\<lambda>slot. \<lparr>dn_id = ids ! slot,
               dn_neighbors = stored_neighbors (degrees ! slot) (neighbors ! slot),
               dn_neighbor_pq_codes = stored_codes (degrees ! slot) (gm_neighbor_pq_code_bytes meta) (concat (codes ! slot)),
               dn_vector = [], dn_vector_offset = offsets ! slot\<rparr>) [0..<unat node_count]\<rparr>))))))))"

definition find_node :: "decoded_page \<Rightarrow> u32 \<Rightarrow> disk_node result" where
  "find_node page node_id =
     (case find (\<lambda>node. dn_id node = node_id) (dp_nodes page) of
        None \<Rightarrow> Inl (Runtime_error ''Node is missing from packed page'')
      | Some node \<Rightarrow> Inr node)"

text \<open>The floats the pointer gives access to.\<close>

definition vector_data :: "graph_metadata \<Rightarrow> decoded_page \<Rightarrow> disk_node \<Rightarrow> f32 list result" where
  "vector_data meta page node =
     (if length (dp_bytes page) < dn_vector_offset node + gm_dim meta * 4
      then Inl (Runtime_error ''Packed node vector points outside page'')
      else case get_many get_word (gm_dim meta) (drop (dn_vector_offset node) (dp_bytes page)) of
        None \<Rightarrow> Inr [] | Some (v, _) \<Rightarrow> Inr v)"

section \<open>Sequential writers and readers\<close>

text \<open>
  \<open>writes f bs\<close>: on a page that is blank from the offset on, \<open>f\<close> appends \<open>bs\<close>.
  \<open>reads f page bs v\<close>: wherever \<open>bs\<close> stand at the cursor, \<open>f\<close> consumes them and returns \<open>v\<close>.
\<close>

definition writes :: "(bytes \<times> nat \<Rightarrow> (bytes \<times> nat) result) \<Rightarrow> bytes \<Rightarrow> bool" where
  "writes f bs \<longleftrightarrow> (\<forall>pre k. length bs \<le> k \<longrightarrow>
     f (pre @ replicate k 0, length pre) = Inr (pre @ bs @ replicate (k - length bs) 0, length pre + length bs))"

definition reads :: "(bytes \<Rightarrow> nat \<Rightarrow> ('a \<times> nat) result) \<Rightarrow> bytes \<Rightarrow> 'a \<Rightarrow> bool" where
  "reads f bs v \<longleftrightarrow> (\<forall>pre rest. f (pre @ bs @ rest) (length pre) = Inr (v, length pre + length bs))"

lemma writes_put: "writes (put_bytes bs) bs"
  by (auto simp: writes_def put_bytes_def)

lemma writesD: "writes f bs \<Longrightarrow> length bs \<le> k \<Longrightarrow>
  f (pre @ replicate k 0, length pre) = Inr (pre @ bs @ replicate (k - length bs) 0, length pre + length bs)"
  by (simp add: writes_def)

lemma writes_seq:
  assumes "writes f a" and "writes g b"
  shows "writes (\<lambda>s. seq_result (f s) g) (a @ b)"
  unfolding writes_def
proof (intro allI impI)
  fix pre and k :: nat
  assume k: "length (a @ b) \<le> k"
  show "seq_result (f (pre @ replicate k 0, length pre)) g =
    Inr (pre @ (a @ b) @ replicate (k - length (a @ b)) 0, length pre + length (a @ b))"
    using writesD[OF assms(1), of k pre] writesD[OF assms(2), of "k - length a" "pre @ a"] k
    by (simp add: diff_diff_left add.assoc)
qed

lemma writes_none: "writes Inr []"
  by (simp add: writes_def)

lemma writes_fold:
  assumes "\<And>x. x \<in> set xs \<Longrightarrow> writes (\<lambda>s. f s x) (c x)"
  shows "writes (\<lambda>s. fold_result f s xs) (concat (map c xs))"
  using assms
proof (induction xs)
  case Nil
  then show ?case using writes_none by simp
next
  case (Cons x xs)
  then show ?case using writes_seq[of "\<lambda>s. f s x" "c x" "\<lambda>s. fold_result f s xs" "concat (map c xs)"] by simp
qed

lemma readsD: "reads f bs v \<Longrightarrow> f (pre @ bs @ rest) (length pre) = Inr (v, length pre + length bs)"
  by (simp add: reads_def)

lemma reads_word:
  fixes w :: "'a::len word"
  assumes "LENGTH('a) = 8 * (LENGTH('a) div 8)"
  shows "reads get_bytes (enc_word w) w"
  using get_enc_word[OF assms] by (simp add: reads_def get_bytes_def)

lemma reads_list:
  assumes "list_all2 (\<lambda>x (b, v). reads (\<lambda>page. f page x) b v) xs bvs"
  shows "reads (\<lambda>page. get_list (f page) xs) (concat (map fst bvs)) (map snd bvs)"
  using assms
proof (induction xs bvs rule: list_all2_induct)
  case Nil
  then show ?case by (simp add: reads_def)
next
  case (Cons x xs bv bvs)
  obtain b v where bv: "bv = (b, v)" by (cases bv)
  show ?case
    unfolding reads_def
  proof (intro allI)
    fix pre rest
    have "f (pre @ b @ concat (map fst bvs) @ rest) x (length pre) = Inr (v, length pre + length b)"
      using Cons(1) readsD[of "\<lambda>page. f page x" b v pre "concat (map fst bvs) @ rest"] by (simp add: bv)
    moreover have "get_list (f (pre @ b @ concat (map fst bvs) @ rest)) xs (length pre + length b) =
      Inr (map snd bvs, length pre + length b + length (concat (map fst bvs)))"
      using readsD[OF Cons.IH, of "pre @ b" rest] by simp
    ultimately show "get_list (f (pre @ concat (map fst (bv # bvs)) @ rest)) (x # xs) (length pre) =
      Inr (map snd (bv # bvs), length pre + length (concat (map fst (bv # bvs))))"
      by (simp add: bv add.assoc)
  qed
qed

lemma reads_map:
  assumes "\<And>x. x \<in> set xs \<Longrightarrow> reads (\<lambda>page. f page x) (b x) (v x)"
  shows "reads (\<lambda>page. get_list (f page) xs) (concat (map b xs)) (map v xs)"
proof -
  have "list_all2 (\<lambda>x (b, v). reads (\<lambda>page. f page x) b v) xs (map (\<lambda>x. (b x, v x)) xs)"
    using assms by (simp add: list_all2_map2 list.rel_refl_strong)
  from reads_list[OF this] show ?thesis by (simp add: comp_def)
qed

section \<open>What is encoded is decoded\<close>

lemma filter_less_upt: "g \<le> d \<Longrightarrow> filter (\<lambda>n. n < g) [0..<d] = [0..<g]"
proof -
  assume g: "g \<le> d"
  have "filter (\<lambda>n. n < g) [0..<d] = filter (\<lambda>n. n < g) ([0..<g] @ [g..<d])"
    using g by (metis upt_add_eq_append le0 le_add_diff_inverse)
  also have "\<dots> = [0..<g]" by simp
  finally show ?thesis .
qed

lemma enumerate_upt: "enumerate 0 (map f [0..<d]) = map (\<lambda>n. (n, f n)) [0..<d]"
  by (rule nth_equalityI) (simp_all add: nth_enumerate_eq)

lemma stored_neighbors_raw:
  assumes "length g \<le> d" and "length g < 2 ^ 32" and "- 1 \<notin> set g"
  shows "stored_neighbors (word_of_nat (length g)) (map (\<lambda>n. if n < length g then g ! n else - 1) [0..<d]) = g"
proof -
  have u: "unat (word_of_nat (length g) :: u32) = length g" using assms(2) by (simp add: unat_of_nat)
  have "filter ((\<lambda>(n, neighbor). n < length g \<and> neighbor \<noteq> - 1) \<circ> (\<lambda>n. (n, if n < length g then g ! n else - 1))) [0..<d]
    = filter (\<lambda>n. n < length g) [0..<d]"
    using assms(3) by (intro filter_cong) (auto, metis nth_mem)
  then show ?thesis
    using assms(1)
    by (simp add: stored_neighbors_def u enumerate_upt filter_map filter_less_upt comp_def cong: map_cong)
      (rule nth_equalityI, simp_all)
qed

lemma take_concat_map:
  "(\<And>x. length (f x) = k) \<Longrightarrow> take (n * k) (concat (map f [0..<d])) = concat (map f [0..<min n d])"
proof (induction d)
  case (Suc d)
  have len: "length (concat (map f [0..<d])) = d * k" by (induction d) (auto simp: Suc.prems)
  show ?case
  proof (cases "n \<le> d")
    case True
    then have "n * k \<le> d * k" by simp
    then show ?thesis using True len Suc by (simp add: min_def)
  next
    case False
    then have "Suc d * k \<le> n * k" by (intro mult_le_mono1) simp
    moreover have "min n (Suc d) = Suc d" using False by simp
    ultimately show ?thesis using False len Suc.prems by simp
  qed
qed simp

lemma stored_codes_raw:
  assumes "g \<le> d" and "g < 2 ^ 32"
  shows "stored_codes (word_of_nat g) k (concat (map (\<lambda>n. map (f n) [0..<k]) [0..<d])) =
    concat (map (\<lambda>n. map (f n) [0..<k]) [0..<g])"
proof -
  have "unat (word_of_nat g :: u32) = g" using assms(2) by (simp add: unat_of_nat)
  moreover have "g * k \<le> d * k" using assms(1) by simp
  ultimately show ?thesis
    using assms(1) take_concat_map[of "\<lambda>n. map (f n) [0..<k]" k g d]
    by (simp add: stored_codes_def length_table min_def)
qed

lemma get_vector_slots:
  assumes "c + length xs * (gm_dim meta * 4) \<le> length page"
  shows "get_list (\<lambda>_. get_vector_slot meta page) xs c =
    Inr (map (\<lambda>i. c + i * (gm_dim meta * 4)) [0..<length xs], c + length xs * (gm_dim meta * 4))"
  using assms
proof (induction xs arbitrary: c)
  case Nil
  then show ?case by simp
next
  case (Cons x xs)
  let ?w = "gm_dim meta * 4"
  have "[0..<length (x # xs)] = 0 # map Suc [0..<length xs]"
    by (simp add: map_Suc_upt upt_conv_Cons del: upt_Suc)
  then show ?case
    using Cons.IH[of "c + ?w"] Cons.prems by (simp add: get_vector_slot_def comp_def add.assoc)
qed

lemma drop_concat_slot:
  assumes "\<And>x. length (V x) = w" and "i < n"
  shows "\<exists>rest. drop (i * w) (concat (map V [0..<n])) = V i @ rest"
proof -
  have "[0..<n] = [0..<i] @ i # [Suc i..<n]"
    using assms(2) by (metis upt_add_eq_append upt_conv_Cons le0 less_imp_le_nat le_add_diff_inverse)
  then have "concat (map V [0..<n]) = concat (map V [0..<i]) @ V i @ concat (map V [Suc i..<n])" by simp
  moreover have "length (concat (map V [0..<i])) = i * w" by (induction i) (auto simp: assms(1))
  ultimately show ?thesis by simp
qed

lemma seq_result_assoc: "seq_result (seq_result r f) g = seq_result r (\<lambda>x. seq_result (f x) g)"
  by (cases r) simp_all

lemma writes_vector_slot:
  assumes "\<And>i. node = Some i \<Longrightarrow> unat i < vs_size base"
  shows "writes (put_vector_slot base node)
    (case node of None \<Rightarrow> replicate (vs_dim base * 4) 0 | Some i \<Rightarrow> words_bytes (row_values base (unat i)))"
proof (cases node)
  case None
  have "k - w + w = k" "replicate k 0 = replicate w (0::u8) @ replicate (k - w) 0" if "w \<le> k" for w k :: nat
    using that by (simp_all add: replicate_add [symmetric])
  then show ?thesis using None by (auto simp: writes_def put_vector_slot_def Let_def mult.commute)
next
  case (Some i)
  then have i: "i = i" "unat i < vs_size base" using assms by auto
  then show ?thesis using Some row_values_length[OF i(2)]
    by (auto simp: writes_def put_vector_slot_def Let_def vs_row_def mult.commute)
qed

text \<open>The node of a slot, and the bytes of a page as the concatenation of its arrays.\<close>

definition slot_node :: "u32 list \<Rightarrow> nat \<Rightarrow> nat \<Rightarrow> nat \<Rightarrow> nat \<Rightarrow> u32 option" where
  "slot_node order page_id npp node_count slot =
     (if slot < node_count then Some (order ! (page_id * npp + slot)) else None)"

definition id_word :: "u32 option \<Rightarrow> u32" where
  "id_word node = (case node of None \<Rightarrow> - 1 | Some i \<Rightarrow> i)"

definition id_bytes :: "u32 option \<Rightarrow> bytes" where
  "id_bytes node = enc_word (id_word node)"

definition degree_word :: "u32 list list \<Rightarrow> u32 option \<Rightarrow> u32" where
  "degree_word graph node = (case node of None \<Rightarrow> 0 | Some i \<Rightarrow> word_of_nat (length (graph ! unat i)))"

definition vector_bytes :: "vector_set \<Rightarrow> u32 option \<Rightarrow> bytes" where
  "vector_bytes base node =
     (case node of None \<Rightarrow> replicate (vs_dim base * 4) 0 | Some i \<Rightarrow> words_bytes (row_values base (unat i)))"

definition neighbor_bytes :: "u32 list list \<Rightarrow> nat \<Rightarrow> u32 option \<Rightarrow> bytes" where
  "neighbor_bytes graph degree node = concat (map (\<lambda>n. enc_word (neighbor_at graph node n)) [0..<degree])"

definition node_codes :: "pq_encoder \<Rightarrow> nat \<Rightarrow> u32 list list \<Rightarrow> nat \<Rightarrow> u32 option \<Rightarrow> u8 list list" where
  "node_codes model k graph degree node =
     map (\<lambda>n. map (code_at model (neighbor_at graph node n)) [0..<k]) [0..<degree]"

definition node_code_bytes :: "pq_encoder \<Rightarrow> nat \<Rightarrow> u32 list list \<Rightarrow> nat \<Rightarrow> u32 option \<Rightarrow> bytes" where
  "node_code_bytes model k graph degree node =
     concat (map (\<lambda>n. concat (map (\<lambda>b. enc_word (code_at model (neighbor_at graph node n) b)) [0..<k])) [0..<degree])"

definition page_image ::
  "u32 \<Rightarrow> vector_set \<Rightarrow> u32 list list \<Rightarrow> pq_encoder \<Rightarrow> nat \<Rightarrow> nat \<Rightarrow> nat \<Rightarrow> nat \<Rightarrow> (nat \<Rightarrow> u32 option) \<Rightarrow> bytes" where
  "page_image page_id base graph model k degree npp node_count node =
     enc_word page_id @ enc_word (word_of_nat node_count :: u32) @
     concat (map (\<lambda>s. id_bytes (node s)) [0..<npp]) @
     concat (map (\<lambda>s. enc_word (degree_word graph (node s))) [0..<npp]) @
     concat (map (\<lambda>s. vector_bytes base (node s)) [0..<npp]) @
     concat (map (\<lambda>s. neighbor_bytes graph degree (node s)) [0..<npp]) @
     concat (map (\<lambda>s. node_code_bytes model k graph degree (node s)) [0..<npp])"

lemma concat_width: "(\<And>x. length (f x) = w) \<Longrightarrow> length (concat (map f xs)) = length xs * w"
  by (induction xs) auto

lemma slot_widths:
  assumes "\<And>i. node = Some i \<Longrightarrow> unat i < vs_size base"
  shows "length (id_bytes node) = 4" "length (vector_bytes base node) = vs_dim base * 4"
    "length (neighbor_bytes graph degree node) = degree * 4"
    "length (node_code_bytes model k graph degree node) = degree * k"
  using assms row_values_length
  by (auto simp: id_bytes_def vector_bytes_def neighbor_bytes_def node_code_bytes_def concat_width
      split: option.splits)

lemma page_image_length:
  assumes "\<And>s i. node s = Some i \<Longrightarrow> unat i < vs_size base"
  shows "length (page_image page_id base graph model k degree npp node_count node) =
    8 + npp * graph_record_bytes (vs_dim base) degree k"
  using slot_widths[OF assms]
  by (simp add: page_image_def concat_width graph_record_bytes_def algebra_simps)

lemma packed_pages_fit:
  assumes "npp \<le> packed_nodes_per_page dim degree page_size k" and "0 < npp"
  shows "8 + npp * graph_record_bytes dim degree k \<le> page_size"
proof -
  let ?w = "4 * 2 + dim * 4 + degree * 4 + degree * k"
  have big: "8 < page_size" using assms by (auto simp: packed_nodes_per_page_def split: if_splits)
  then have "npp * ?w \<le> (page_size - 8) div ?w * ?w"
    using assms(1) by (intro mult_le_mono1) (simp add: packed_nodes_per_page_def)
  also have "\<dots> \<le> page_size - 8" by simp
  finally show ?thesis using big by (simp add: graph_record_bytes_def)
qed

lemma encode_page_image:
  assumes "\<And>s i. node s = Some i \<Longrightarrow> unat i < vs_size base"
    and "k = (case pq_model of None \<Rightarrow> 0 | Some m \<Rightarrow> if pq_enabled m then pe_subspaces m else 0)"
    and "0 < k \<Longrightarrow> vs_size base \<le> pq_vector_count (the pq_model)"
    and "node_count = page_node_count (unat page_id) npp (length order)"
    and "node = slot_node order (unat page_id) npp node_count"
    and "8 + npp * graph_record_bytes (vs_dim base) degree k \<le> page_size"
  shows "encode_packed_page page_id base graph order npp page_size degree pq_model =
    Inr (page_image page_id base graph (the pq_model) k degree npp node_count node @
      replicate (page_size - (8 + npp * graph_record_bytes (vs_dim base) degree k)) 0)"
proof -
  have node: "node = (\<lambda>slot. if slot < node_count then Some (order ! (unat page_id * npp + slot)) else None)"
    by (simp add: assms(5) slot_node_def fun_eq_iff)
  let ?code = "\<lambda>s. if 0 < k
             then fold_result (\<lambda>s slot. fold_result (\<lambda>s n. fold_result (\<lambda>s b.
               put_bytes (enc_word (code_at (the pq_model) (neighbor_at graph (node slot) n) b)) s)
               s [0..<k]) s [0..<degree]) s [0..<npp]
             else Inr s"
  let ?chain = "\<lambda>s. seq_result (put_bytes (enc_word page_id) s) (\<lambda>s.
    seq_result (put_bytes (enc_word (word_of_nat node_count :: u32)) s) (\<lambda>s.
    seq_result (fold_result (\<lambda>s slot. put_bytes (id_bytes (node slot)) s) s [0..<npp]) (\<lambda>s.
    seq_result (fold_result (\<lambda>s slot. put_bytes (enc_word (degree_word graph (node slot))) s) s [0..<npp]) (\<lambda>s.
    seq_result (fold_result (\<lambda>s slot. put_vector_slot base (node slot) s) s [0..<npp]) (\<lambda>s.
    seq_result (fold_result (\<lambda>s slot. fold_result (\<lambda>s n.
      put_bytes (enc_word (neighbor_at graph (node slot) n)) s) s [0..<degree]) s [0..<npp]) ?code)))))"
  let ?image = "page_image page_id base graph (the pq_model) k degree npp node_count node"
  have vec: "writes (put_vector_slot base (node slot)) (vector_bytes base (node slot))" for slot
    unfolding vector_bytes_def by (rule writes_vector_slot) (use assms(1) in blast)
  have code: "writes ?code (concat (map (\<lambda>s. node_code_bytes (the pq_model) k graph degree (node s)) [0..<npp]))"
  proof (cases "0 < k")
    case True
    then show ?thesis
      by (simp add: node_code_bytes_def) (intro writes_fold writes_put)
  next
    case False
    have "concat (map (\<lambda>s. node_code_bytes (the pq_model) 0 graph degree (node s)) [0..<npp]) = []"
      by (auto simp: node_code_bytes_def)
    then have "writes Inr (concat (map (\<lambda>s. node_code_bytes (the pq_model) 0 graph degree (node s)) [0..<npp]))"
      by (simp only: writes_none)
    then show ?thesis using False by simp
  qed
  have "writes ?chain ?image"
    unfolding page_image_def
    by (intro writes_seq writes_put writes_fold code vec) (simp add: neighbor_bytes_def, intro writes_fold writes_put)
  then have "?chain (replicate page_size 0, 0) = Inr (?image @ replicate (page_size - length ?image) 0, length ?image)"
    using writesD[of ?chain ?image page_size "[]"] assms(6)
    by (simp add: page_image_length[OF assms(1)])
  moreover have "\<not> (0 < k \<and> pq_vector_count (the pq_model) < vs_size base)"
    using assms(3) by (cases "0 < k") (simp_all add: not_less)
  then have "encode_packed_page page_id base graph order npp page_size degree pq_model =
    seq_result (?chain (replicate page_size 0, 0)) (\<lambda>(page, offset). Inr page)"
    unfolding seq_result_assoc encode_packed_page_def Let_def assms(2) [symmetric] assms(4) [symmetric]
      id_bytes_def id_word_def degree_word_def node
    by (simp only: if_False)
  ultimately show ?thesis by (simp add: page_image_length[OF assms(1)])
qed

section \<open>The page round trip\<close>

definition page_good ::
  "graph_metadata \<Rightarrow> u32 \<Rightarrow> vector_set \<Rightarrow> u32 list list \<Rightarrow> u32 list \<Rightarrow> pq_encoder option \<Rightarrow> bool" where
  "page_good meta page_id base graph order pq_model \<longleftrightarrow>
     gm_dim meta = vs_dim base \<and> 0 < gm_nodes_per_page meta \<and>
     gm_nodes_per_page meta \<le>
       packed_nodes_per_page (gm_dim meta) (gm_degree meta) (gm_page_size meta) (gm_neighbor_pq_code_bytes meta) \<and>
     gm_neighbor_pq_code_bytes meta =
       (case pq_model of None \<Rightarrow> 0 | Some m \<Rightarrow> if pq_enabled m then pe_subspaces m else 0) \<and>
     (0 < gm_neighbor_pq_code_bytes meta \<longrightarrow> vs_size base \<le> pq_vector_count (the pq_model)) \<and>
     unat page_id * gm_nodes_per_page meta < length order \<and> length order < 2 ^ 32 \<and>
     (\<forall>i\<in>set order. unat i < vs_size base \<and> length (graph ! unat i) \<le> gm_degree meta \<and>
        length (graph ! unat i) < 2 ^ 32 \<and> - 1 \<notin> set (graph ! unat i))"

definition page_nodes :: "graph_metadata \<Rightarrow> u32 \<Rightarrow> u32 list \<Rightarrow> u32 list" where
  "page_nodes meta page_id order =
     take (gm_nodes_per_page meta) (drop (unat page_id * gm_nodes_per_page meta) order)"

lemma page_count_nodes:
  assumes "page_id * npp < n" and "n < 2 ^ 32"
  shows "page_node_count page_id npp n = min npp (n - page_id * npp)"
proof -
  have "min (page_id * npp + npp) n - page_id * npp = min npp (n - page_id * npp)"
    using assms(1) by linarith
  moreover have "2 ^ 64 + min (page_id * npp + npp) n - page_id * npp =
      2 ^ 64 + (min (page_id * npp + npp) n - page_id * npp)"
    using assms(1) by simp
  ultimately have "page_node_count page_id npp n = (2 ^ 64 + min npp (n - page_id * npp)) mod 2 ^ 32"
    by (simp only: page_node_count_def Let_def)
  moreover have "(2 ^ 64 + x) mod 2 ^ 32 = x" if "x < 2 ^ 32" for x :: nat
  proof -
    have "(2 ^ 64 + x) mod 2 ^ 32 = (x + 2 ^ 32 * 2 ^ 32) mod (2 ^ 32 :: nat)" by (simp add: add.commute)
    also have "\<dots> = x mod 2 ^ 32" by (rule mod_mult_self2)
    finally show ?thesis using that by simp
  qed
  moreover have "min npp (n - page_id * npp) < 2 ^ 32" using assms(2) by simp
  ultimately show ?thesis by simp
qed

lemma decode_page_image:
  assumes nodes: "\<And>s i. node s = Some i \<Longrightarrow> unat i < vs_size base"
    and dims: "gm_dim meta = vs_dim base" "gm_nodes_per_page meta = npp" "gm_degree meta = degree"
      "gm_neighbor_pq_code_bytes meta = k"
    and count: "node_count \<le> npp" "node_count < 2 ^ 32"
    and page: "page = page_image page_id base graph model k degree npp node_count node @ rest"
  shows "decode_packed_page meta page_id page = Inr \<lparr>dp_page_id = page_id, dp_bytes = page,
    dp_nodes = map (\<lambda>s. \<lparr>dn_id = id_word (node s),
      dn_neighbors = stored_neighbors (degree_word graph (node s)) (map (neighbor_at graph (node s)) [0..<degree]),
      dn_neighbor_pq_codes = stored_codes (degree_word graph (node s)) k
        (if 0 < k then concat (node_codes model k graph degree (node s)) else []),
      dn_vector = [], dn_vector_offset = 8 + npp * 8 + s * (vs_dim base * 4)\<rparr>) [0..<node_count]\<rparr>"
proof -
  let ?I = "concat (map (\<lambda>s. id_bytes (node s)) [0..<npp])"
  let ?D = "concat (map (\<lambda>s. enc_word (degree_word graph (node s))) [0..<npp])"
  let ?V = "concat (map (\<lambda>s. vector_bytes base (node s)) [0..<npp])"
  let ?N = "concat (map (\<lambda>s. neighbor_bytes graph degree (node s)) [0..<npp])"
  let ?C = "concat (map (\<lambda>s. node_code_bytes model k graph degree (node s)) [0..<npp])"
  let ?h = "enc_word page_id @ enc_word (word_of_nat node_count :: u32)"
  note w = slot_widths[OF nodes]
  have len: "length ?I = npp * 4" "length ?D = npp * 4" "length ?V = npp * (vs_dim base * 4)"
    "length ?N = npp * (degree * 4)" "length ?h = 8"
    by (simp_all add: concat_width w)
  have eq: "page = enc_word page_id @ enc_word (word_of_nat node_count :: u32) @ ?I @ ?D @ ?V @ ?N @ ?C @ rest"
    by (simp add: page page_image_def)
  have u32: "LENGTH(32) = 8 * (LENGTH(32) div 8)" and u8: "LENGTH(8) = 8 * (LENGTH(8) div 8)" by simp_all
  have pre: "length (?h @ ?I) = 8 + npp * 4" "length (?h @ ?I @ ?D @ ?V) = 8 + npp * 8 + npp * (vs_dim base * 4)"
    "length (?h @ ?I @ ?D @ ?V @ ?N) = 8 + npp * 8 + npp * (vs_dim base * 4) + npp * (degree * 4)"
    using len by simp_all
  have eq': "page = (?h @ ?I) @ ?D @ (?V @ ?N @ ?C @ rest)" "page = (?h @ ?I @ ?D @ ?V) @ ?N @ (?C @ rest)"
    "page = (?h @ ?I @ ?D @ ?V @ ?N) @ ?C @ rest"
    by (simp_all only: eq append_assoc)
  have c0: "get_bytes page 0 = Inr (page_id, 4)"
    using readsD[OF reads_word[OF u32], of "[]" page_id] by (simp add: eq)
  have c1: "get_bytes page 4 = Inr (word_of_nat node_count :: u32, 8)"
    using readsD[OF reads_word[OF u32], of "enc_word page_id" "word_of_nat node_count"] by (simp add: eq)
  have rI: "reads (\<lambda>page. get_list (\<lambda>_. get_bytes page) [0..<npp]) ?I
      (map (\<lambda>s. id_word (node s)) [0..<npp])"
    unfolding id_bytes_def by (rule reads_map) (rule reads_word[OF u32])
  have c2: "get_list (\<lambda>_. get_bytes page) [0..<npp] 8 =
      Inr (map (\<lambda>s. id_word (node s)) [0..<npp], 8 + npp * 4)"
    using readsD[OF rI, of ?h "?D @ ?V @ ?N @ ?C @ rest"] len by (simp add: eq)
  have rD: "reads (\<lambda>page. get_list (\<lambda>_. get_bytes page) [0..<npp]) ?D (map (\<lambda>s. degree_word graph (node s)) [0..<npp])"
    by (rule reads_map) (rule reads_word[OF u32])
  have c3: "get_list (\<lambda>_. get_bytes page) [0..<npp] (8 + npp * 4) =
      Inr (map (\<lambda>s. degree_word graph (node s)) [0..<npp], 8 + npp * 8)"
    using readsD[OF rD, of "?h @ ?I" "?V @ ?N @ ?C @ rest"] unfolding eq'(1) [symmetric] pre len by simp
  have c4: "get_list (\<lambda>_. get_vector_slot meta page) [0..<npp] (8 + npp * 8) =
      Inr (map (\<lambda>i. 8 + npp * 8 + i * (vs_dim base * 4)) [0..<npp], 8 + npp * 8 + npp * (vs_dim base * 4))"
    using get_vector_slots[of "8 + npp * 8" "[0..<npp]" meta page] len dims by (simp add: eq)
  have rN: "reads (\<lambda>page. get_list (\<lambda>_. get_list (\<lambda>_. get_bytes page) [0..<degree]) [0..<npp]) ?N
      (map (\<lambda>s. map (neighbor_at graph (node s)) [0..<degree]) [0..<npp])"
    unfolding neighbor_bytes_def by (intro reads_map reads_word[OF u32])
  have c5: "get_list (\<lambda>_. get_list (\<lambda>_. get_bytes page) [0..<degree]) [0..<npp] (8 + npp * 8 + npp * (vs_dim base * 4)) =
      Inr (map (\<lambda>s. map (neighbor_at graph (node s)) [0..<degree]) [0..<npp],
        8 + npp * 8 + npp * (vs_dim base * 4) + npp * (degree * 4))"
    using readsD[OF rN, of "?h @ ?I @ ?D @ ?V" "?C @ rest"] unfolding eq'(2) [symmetric] pre len by simp
  have rC: "reads (\<lambda>page. get_list (\<lambda>_. get_list (\<lambda>_. get_list (\<lambda>_. get_bytes page) [0..<k]) [0..<degree]) [0..<npp]) ?C
      (map (\<lambda>s. node_codes model k graph degree (node s)) [0..<npp])"
    unfolding node_code_bytes_def node_codes_def by (intro reads_map reads_word[OF u8])
  have c6: "\<exists>c. get_list (\<lambda>_. get_list (\<lambda>_. get_list (\<lambda>_. get_bytes page) [0..<k]) [0..<degree]) [0..<npp]
      (8 + npp * 8 + npp * (vs_dim base * 4) + npp * (degree * 4)) =
      Inr (map (\<lambda>s. node_codes model k graph degree (node s)) [0..<npp], c)"
    using readsD[OF rC, of "?h @ ?I @ ?D @ ?V @ ?N" rest] unfolding eq'(3) [symmetric] pre by blast
  have n: "unat (word_of_nat node_count :: u32) = node_count" using count(2) by (simp add: unat_of_nat)
  have le: "\<not> npp < node_count" using count(1) by simp
  show ?thesis
  proof (cases "0 < k")
    case True
    then show ?thesis using c0 c1 c2 c3 c4 c5 c6 n le count(1)
      by (auto simp: decode_packed_page_def Let_def dims cong: map_cong)
  next
    case False
    then show ?thesis using c0 c1 c2 c3 c4 c5 n le count(1)
      by (auto simp: decode_packed_page_def Let_def dims cong: map_cong)
  qed
qed

lemma vector_data_slot:
  assumes nodes: "\<And>s i. node s = Some i \<Longrightarrow> unat i < vs_size base"
    and "gm_dim meta = vs_dim base" and "s < npp" and "node s = Some i"
    and "dn_vector_offset dn = 8 + npp * 8 + s * (vs_dim base * 4)"
    and "dp_bytes dp = page_image page_id base graph model k degree npp node_count node @ rest"
  shows "vector_data meta dp dn = Inr (row_values base (unat i))"
proof -
  let ?I = "concat (map (\<lambda>s. id_bytes (node s)) [0..<npp])"
  let ?D = "concat (map (\<lambda>s. enc_word (degree_word graph (node s))) [0..<npp])"
  let ?V = "concat (map (\<lambda>s. vector_bytes base (node s)) [0..<npp])"
  let ?h = "enc_word page_id @ enc_word (word_of_nat node_count :: u32)"
  note w = slot_widths[OF nodes]
  have pre: "length (?h @ ?I @ ?D) = 8 + npp * 8" by (simp add: concat_width w)
  obtain tail where tail: "dp_bytes dp = (?h @ ?I @ ?D) @ ?V @ tail"
    by (simp add: assms(6) page_image_def)
  obtain more where "drop (s * (vs_dim base * 4)) ?V = vector_bytes base (node s) @ more"
    using drop_concat_slot[of "\<lambda>s. vector_bytes base (node s)" "vs_dim base * 4" s npp] w assms(3) by auto
  moreover have "s * (vs_dim base * 4) \<le> length ?V"
    using assms(3) by (simp add: concat_width w)
  ultimately have d: "drop (dn_vector_offset dn) (dp_bytes dp) = vector_bytes base (node s) @ more @ tail"
    unfolding tail assms(5) pre [symmetric] by simp
  then have "length (vector_bytes base (node s)) \<le> length (dp_bytes dp) - dn_vector_offset dn"
    by (metis length_append length_drop le_add1)
  moreover have "dn_vector_offset dn \<le> length (dp_bytes dp)"
    using mult_le_mono1[of s npp "vs_dim base * 4"] assms(3) unfolding tail assms(5) pre [symmetric]
    by (simp add: concat_width w trans_le_add1)
  ultimately have "\<not> length (dp_bytes dp) < dn_vector_offset dn + gm_dim meta * 4"
    using w(2)[of "node s"] assms(2) by simp
  moreover have "length (row_values base (unat i)) = vs_dim base"
    using row_values_length nodes[OF assms(4)] by simp
  then have "get_many get_word (gm_dim meta) (drop (dn_vector_offset dn) (dp_bytes dp)) =
      Some (row_values base (unat i), more @ tail)"
    using get_many_words_bytes[of "row_values base (unat i)"] assms(2,4)
    by (simp add: d vector_bytes_def)
  ultimately show ?thesis by (simp add: vector_data_def)
qed

text \<open>
  A page of the packed graph is read back as it was built: its size is the page size, and
  decoding yields the nodes of the page in order, each with its neighbours, its vector bit for
  bit and, with a quantiser, the codes of its neighbours in neighbour order.
\<close>

theorem packed_page_roundtrip:
  assumes "page_good meta page_id base graph order pq_model"
  shows "\<exists>page decoded. encode_packed_page page_id base graph order (gm_nodes_per_page meta)
      (gm_page_size meta) (gm_degree meta) pq_model = Inr page \<and> length page = gm_page_size meta \<and>
    decode_packed_page meta page_id page = Inr decoded \<and> dp_page_id decoded = page_id \<and>
    map dn_id (dp_nodes decoded) = page_nodes meta page_id order \<and>
    map dn_neighbors (dp_nodes decoded) = map (\<lambda>i. graph ! unat i) (page_nodes meta page_id order) \<and>
    map (vector_data meta decoded) (dp_nodes decoded) =
      map (\<lambda>i. Inr (row_values base (unat i))) (page_nodes meta page_id order) \<and>
    map dn_neighbor_pq_codes (dp_nodes decoded) =
      map (\<lambda>i. concat (map (\<lambda>neighbor. map (code_at (the pq_model) neighbor) [0..<gm_neighbor_pq_code_bytes meta])
        (graph ! unat i))) (page_nodes meta page_id order)"
proof -
  let ?npp = "gm_nodes_per_page meta" and ?k = "gm_neighbor_pq_code_bytes meta" and ?d = "gm_degree meta"
  let ?p = "unat page_id" and ?n = "min (gm_nodes_per_page meta) (length order - unat page_id * gm_nodes_per_page meta)"
  let ?node = "slot_node order ?p ?npp ?n"
  have dim: "gm_dim meta = vs_dim base" and pos: "0 < ?npp"
    and room: "?npp \<le> packed_nodes_per_page (gm_dim meta) ?d (gm_page_size meta) ?k"
    and k: "?k = (case pq_model of None \<Rightarrow> 0 | Some m \<Rightarrow> if pq_enabled m then pe_subspaces m else 0)"
    and cover: "0 < ?k \<Longrightarrow> vs_size base \<le> pq_vector_count (the pq_model)"
    and id: "?p * ?npp < length order" and small: "length order < 2 ^ 32"
    and entries: "\<forall>i\<in>set order. unat i < vs_size base \<and> length (graph ! unat i) \<le> ?d \<and>
        length (graph ! unat i) < 2 ^ 32 \<and> - 1 \<notin> set (graph ! unat i)"
    using assms unfolding page_good_def by blast+
  have count: "page_node_count ?p ?npp (length order) = ?n" by (rule page_count_nodes[OF id small])
  have at: "order ! (?p * ?npp + s) \<in> set order" if "s < ?n" for s
    using that id by (intro nth_mem) linarith
  have nodes: "unat i < vs_size base" if "?node s = Some i" for s i
    using that at entries by (auto simp: slot_node_def split: if_splits)
  have fit: "8 + ?npp * graph_record_bytes (vs_dim base) ?d ?k \<le> gm_page_size meta"
    using packed_pages_fit[OF room pos] by (simp only: dim)
  define page where "page = page_image page_id base graph (the pq_model) ?k ?d ?npp ?n ?node @
      replicate (gm_page_size meta - (8 + ?npp * graph_record_bytes (vs_dim base) ?d ?k)) 0"
  have enc: "encode_packed_page page_id base graph order ?npp (gm_page_size meta) ?d pq_model = Inr page"
    unfolding page_def
    by (rule encode_page_image[OF nodes k cover count [symmetric] refl fit])
  have len: "length page = gm_page_size meta"
    unfolding page_def using page_image_length[OF nodes] fit by simp
  have n32: "?n \<le> ?npp" "?n < 2 ^ 32" using small by simp_all
  define decoded where "decoded = \<lparr>dp_page_id = page_id, dp_bytes = page,
    dp_nodes = map (\<lambda>s. \<lparr>dn_id = id_word (?node s),
      dn_neighbors = stored_neighbors (degree_word graph (?node s)) (map (neighbor_at graph (?node s)) [0..<?d]),
      dn_neighbor_pq_codes = stored_codes (degree_word graph (?node s)) ?k
        (if 0 < ?k then concat (node_codes (the pq_model) ?k graph ?d (?node s)) else []),
      dn_vector = [], dn_vector_offset = 8 + ?npp * 8 + s * (vs_dim base * 4)\<rparr>) [0..<?n]\<rparr>"
  have dec: "decode_packed_page meta page_id page = Inr decoded"
    unfolding decoded_def by (rule decode_page_image[OF _ dim refl refl refl n32 page_def]) (erule nodes)
  have page_nodes: "page_nodes meta page_id order = map (\<lambda>s. order ! (?p * ?npp + s)) [0..<?n]"
    unfolding page_nodes_def by (rule nth_equalityI) (use id in auto)
  have node: "?node s = Some (order ! (?p * ?npp + s))" if "s < ?n" for s
    using that by (simp add: slot_node_def)
  have g: "length (graph ! unat (order ! (?p * ?npp + s))) \<le> ?d"
    "length (graph ! unat (order ! (?p * ?npp + s))) < 2 ^ 32" "- 1 \<notin> set (graph ! unat (order ! (?p * ?npp + s)))"
    if "s < ?n" for s
    using entries at[OF that] by auto
  have nb: "stored_neighbors (degree_word graph (?node s)) (map (neighbor_at graph (?node s)) [0..<?d]) =
      graph ! unat (order ! (?p * ?npp + s))" if "s < ?n" for s
    using stored_neighbors_raw[OF g[OF that]] by (simp add: node[OF that] degree_word_def neighbor_at_def [abs_def])
  have codes: "stored_codes (degree_word graph (?node s)) ?k
        (if 0 < ?k then concat (node_codes (the pq_model) ?k graph ?d (?node s)) else []) =
      concat (map (\<lambda>neighbor. map (code_at (the pq_model) neighbor) [0..<?k]) (graph ! unat (order ! (?p * ?npp + s))))"
    if "s < ?n" for s
  proof -
    let ?g = "graph ! unat (order ! (?p * ?npp + s))"
    have "stored_codes (degree_word graph (?node s)) ?k (concat (node_codes (the pq_model) ?k graph ?d (?node s))) =
      concat (map (\<lambda>n. map (code_at (the pq_model) (neighbor_at graph (?node s) n)) [0..<?k]) [0..<length ?g])"
      using stored_codes_raw[OF g(1,2)[OF that]] by (simp add: node[OF that] degree_word_def node_codes_def)
    also have "map (\<lambda>n. map (code_at (the pq_model) (neighbor_at graph (?node s) n)) [0..<?k]) [0..<length ?g] =
      map (\<lambda>neighbor. map (code_at (the pq_model) neighbor) [0..<?k]) ?g"
      by (rule nth_equalityI) (simp_all add: node[OF that] neighbor_at_def)
    finally show ?thesis
      by (auto simp: stored_codes_def) 
  qed
  have vec: "vector_data meta decoded (dp_nodes decoded ! s) = Inr (row_values base (unat (order ! (?p * ?npp + s))))"
    if "s < ?n" for s
  proof (rule vector_data_slot[where node = ?node and s = s and npp = ?npp])
    show "dp_bytes decoded = page_image page_id base graph (the pq_model) ?k ?d ?npp ?n ?node @
        replicate (gm_page_size meta - (8 + ?npp * graph_record_bytes (vs_dim base) ?d ?k)) 0"
      by (simp only: decoded_def page_def decoded_page.simps)
    show "dn_vector_offset (dp_nodes decoded ! s) = 8 + ?npp * 8 + s * (vs_dim base * 4)"
      using that by (simp add: decoded_def)
  qed (use nodes dim that node in auto)
  have "map (vector_data meta decoded) (dp_nodes decoded) =
      map (\<lambda>i. Inr (row_values base (unat i))) (page_nodes meta page_id order)"
    by (rule nth_equalityI) (use vec in \<open>auto simp: page_nodes decoded_def\<close>)
  moreover have "map dn_id (dp_nodes decoded) = page_nodes meta page_id order"
    using node by (simp add: decoded_def page_nodes id_word_def cong: map_cong)
  moreover have "map dn_neighbors (dp_nodes decoded) = map (\<lambda>i. graph ! unat i) (page_nodes meta page_id order)"
    using nb by (simp add: decoded_def page_nodes comp_def cong: map_cong)
  moreover have "map dn_neighbor_pq_codes (dp_nodes decoded) =
      map (\<lambda>i. concat (map (\<lambda>neighbor. map (code_at (the pq_model) neighbor) [0..<?k]) (graph ! unat i)))
        (page_nodes meta page_id order)"
    using codes by (simp add: decoded_def page_nodes comp_def cong: map_cong)
  ultimately show ?thesis using enc len dec by (simp add: decoded_def)
qed

definition demo_meta :: graph_metadata where
  "demo_meta = \<lparr>gm_vector_count = 2, gm_dim = 1, gm_degree = 1, gm_page_size = 64, gm_records_offset = 4096,
     gm_directory_offset = 4224, gm_page_count = 1, gm_nodes_per_page = 2, gm_neighbor_pq_code_bytes = 1\<rparr>"

definition demo_vectors :: vector_set where
  "demo_vectors = \<lparr>vs_dim = 1, vs_values = [0x3f800000, 0x40000000]\<rparr>"

theorem packed_page_roundtrip_witness:
  "\<exists>page decoded. encode_packed_page 0 demo_vectors [[1], [0]] [0, 1] (gm_nodes_per_page demo_meta)
      (gm_page_size demo_meta) (gm_degree demo_meta) (Some demo_pq) = Inr page \<and> length page = gm_page_size demo_meta \<and>
    decode_packed_page demo_meta 0 page = Inr decoded \<and> dp_page_id decoded = 0 \<and>
    map dn_id (dp_nodes decoded) = page_nodes demo_meta 0 [0, 1] \<and>
    map dn_neighbors (dp_nodes decoded) = map (\<lambda>i. [[1], [0]] ! unat i) (page_nodes demo_meta 0 [0, 1]) \<and>
    map (vector_data demo_meta decoded) (dp_nodes decoded) =
      map (\<lambda>i. Inr (row_values demo_vectors (unat i))) (page_nodes demo_meta 0 [0, 1]) \<and>
    map dn_neighbor_pq_codes (dp_nodes decoded) =
      map (\<lambda>i. concat (map (\<lambda>neighbor. map (code_at (the (Some demo_pq)) neighbor)
        [0..<gm_neighbor_pq_code_bytes demo_meta]) ([[1], [0]] ! unat i))) (page_nodes demo_meta 0 [0, 1])"
proof (rule packed_page_roundtrip)
  show "page_good demo_meta 0 demo_vectors [[1], [0]] [0, 1] (Some demo_pq)"
    by (simp add: page_good_def demo_meta_def demo_vectors_def vs_size_def packed_nodes_per_page_def
        demo_pq_def pq_enabled_def pq_vector_count_def)
qed

end
