(* ===== verification/PageReader.thy ===== *)
theory PageReader
  imports Disk
begin

text \<open>
  \<open>core/async_page_reader.h\<close>, \<open>src/core/async_page_reader.cpp\<close> and \<open>core/io_stats.h\<close> as
  they are compiled on Linux without liburing, the default of \<open>CMakeLists.txt\<close> when the
  library is not found: every mode ends in \<open>pread\<close> or \<open>O_DIRECT\<close> reads, batches are read at
  once and their results queue up until they are reaped.
\<close>

section \<open>Counters\<close>

text \<open>
  The statistics structure \<open>DiskGraphSearchStats\<close>, as a function from the names of its
  integer fields (the modelled ones) to their values. Times are not modelled.
\<close>

datatype counter =
    Io_submits | Submitted_reads | Io_submit_syscalls | Io_completions | Completed_reads
  | Sync_reads | Ssd_reads | Fallback_reads | P4_dedup_hits
  | Node_reads | Expanded | Visited | Page_requests | Cache_hits | Pinned_hits | Demand_reads
  | Unique_pages_touched | Unique_demand_pages | Duplicate_skipped
  | Page_requests_before_dedup | Page_requests_after_dedup
  | Page_cache_hits | Page_cache_misses | Page_cache_evictions | Page_cache_promotions
  | Page_cache_hub_requests | Page_cache_hub_hits | Page_cache_pins | Page_cache_pinned_eviction_skips
  | Distance_direct_calls | Page_dedup_requests | Page_dedup_hits | Duplicate_pages_eliminated
  | Batch_count | Batch_expanded | Max_batch_size | Beam_unique_pages | Beam_cached_or_pending_pages
  | Same_page_node_reuse | Rerank_reads | Pq_filter_accept_count

type_synonym search_stats = "counter \<Rightarrow> nat"

definition no_stats :: search_stats where
  "no_stats = (\<lambda>_. 0)"

definition bump :: "counter \<Rightarrow> nat \<Rightarrow> search_stats \<Rightarrow> search_stats" where
  "bump c n s = s(c := s c + n)"

fun bump_all :: "counter list \<Rightarrow> search_stats \<Rightarrow> search_stats" where
  "bump_all [] s = s"
| "bump_all (c # cs) s = bump_all cs (bump c 1 s)"

section \<open>The reader\<close>

record io_status =
  is_requested_mode :: string
  is_effective_mode :: string
  is_fallback_reason :: string
  is_direct_enabled :: bool
  is_io_uring_enabled :: bool
  is_batch_size :: nat
  is_depth :: nat

definition default_status :: io_status where
  "default_status = \<lparr>is_requested_mode = ''pread'', is_effective_mode = ''pread'', is_fallback_reason = [],
     is_direct_enabled = False, is_io_uring_enabled = False, is_batch_size = 1, is_depth = 1\<rparr>"

record read_request =
  rq_page_id :: u32
  rq_offset :: u64
  rq_bytes :: nat

record completed_read =
  cr_token :: u64
  cr_data :: bytes

record page_reader =
  pr_path :: string
  pr_page_size :: nat
  pr_status :: io_status
  pr_inline_completions :: "completed_read list"
  pr_next_token :: u64
  pr_fd_open :: bool

definition kDirectIoAlignment :: nat where
  "kDirectIoAlignment = 4096"

definition direct_io_layout_supported :: "page_reader \<Rightarrow> bool" where
  "direct_io_layout_supported r \<longleftrightarrow> pr_page_size r mod kDirectIoAlignment = 0"

definition close_native :: "page_reader \<Rightarrow> page_reader" where
  "close_native r = r\<lparr>pr_inline_completions := [], pr_fd_open := False\<rparr>"

text \<open>\<open>::open\<close>: it needs the file and can fail for reasons of the system.\<close>

definition try_open_linux_fd :: "page_reader \<Rightarrow> disk \<Rightarrow> bool \<times> page_reader \<times> disk" where
  "try_open_linux_fd r d =
     (let (ok, d) = io_call d; opened = (ok \<and> file_exists (pr_path r) d)
      in (opened, r\<lparr>pr_fd_open := opened\<rparr>, d))"

definition open_linux_fd :: "string \<Rightarrow> page_reader \<Rightarrow> disk \<Rightarrow> unit result \<times> page_reader \<times> disk" where
  "open_linux_fd error_prefix r d =
     (let (ok, r, d) = try_open_linux_fd r d
      in (throw_if (\<not> ok) (Runtime_error error_prefix), r, d))"

definition fallback_to_pread :: "string \<Rightarrow> page_reader \<Rightarrow> disk \<Rightarrow> unit result \<times> page_reader \<times> disk" where
  "fallback_to_pread reason r d =
     (let (opened, r, d) = open_linux_fd ''pread_fallback_open_failed_errno'' (close_native r) d
      in case opened of
           Inl e \<Rightarrow> (Inl e, r, d)
         | Inr _ \<Rightarrow> (Inr (), r\<lparr>pr_status := (pr_status r)\<lparr>is_effective_mode := ''pread'',
             is_direct_enabled := False, is_io_uring_enabled := False, is_fallback_reason := reason\<rparr>\<rparr>, d))"

definition reader_configure ::
  "string \<Rightarrow> nat \<Rightarrow> nat \<Rightarrow> page_reader \<Rightarrow> disk \<Rightarrow> unit result \<times> page_reader \<times> disk" where
  "reader_configure mode batch_size io_depth r d =
     (if mode \<notin> {''pread'', ''odirect'', ''io_uring''}
      then (Inl (Runtime_error ''Unsupported disk I/O mode''), r, d)
      else if batch_size = 0 then (Inl (Runtime_error ''Disk I/O batch size must be positive''), r, d)
      else if io_depth = 0 then (Inl (Runtime_error ''Disk I/O depth must be positive''), r, d)
      else (let r = (close_native r)\<lparr>pr_status := default_status\<lparr>is_requested_mode := mode,
                      is_batch_size := batch_size, is_depth := io_depth\<rparr>\<rparr>
            in if mode = ''pread'' then open_linux_fd ''pread_open_failed_errno'' r d
               else if mode = ''odirect''
               then (if \<not> direct_io_layout_supported r
                     then fallback_to_pread ''odirect_requires_4096_aligned_pages'' r d
                     else (let (ok, r, d) = try_open_linux_fd r d
                           in if \<not> ok then fallback_to_pread ''odirect_open_failed_errno'' r d
                              else (Inr (), r\<lparr>pr_status := (pr_status r)\<lparr>is_effective_mode := ''odirect'',
                                     is_direct_enabled := True\<rparr>\<rparr>, d)))
               else fallback_to_pread ''liburing_unavailable'' r d))"

definition AsyncPageReader :: "string \<Rightarrow> nat \<Rightarrow> disk \<Rightarrow> unit result \<times> page_reader \<times> disk" where
  "AsyncPageReader path page_size d = reader_configure ''pread'' 1 1
     \<lparr>pr_path = path, pr_page_size = page_size, pr_status = default_status, pr_inline_completions = [],
      pr_next_token = 1, pr_fd_open = False\<rparr> d"

definition async_enabled :: "page_reader \<Rightarrow> bool" where
  "async_enabled r \<longleftrightarrow> is_effective_mode (pr_status r) = ''io_uring''"

definition max_pending_reads :: "page_reader \<Rightarrow> nat" where
  "max_pending_reads r = (if async_enabled r then max 1 (is_depth (pr_status r)) else 0)"

definition pending_async_reads :: "page_reader \<Rightarrow> nat" where
  "pending_async_reads r = length (pr_inline_completions r)"

text \<open>
  \<open>::pread\<close> returns what the file holds at the offset, at most \<open>n\<close> bytes: less at the end of
  the file, and nothing when the call fails, as it does on the descriptor \<open>-1\<close> that a failed
  \<open>::open\<close> leaves.
\<close>

definition read_with_pread :: "nat \<Rightarrow> nat \<Rightarrow> page_reader \<Rightarrow> search_stats \<Rightarrow> disk \<Rightarrow> bytes option \<times> search_stats \<times> disk" where
  "read_with_pread n offset r s d =
     (let s = bump_all [Io_submits, Submitted_reads, Io_submit_syscalls, Sync_reads, Ssd_reads] s;
          s = (if is_requested_mode (pr_status r) \<noteq> is_effective_mode (pr_status r) then bump Fallback_reads 1 s else s);
          (ok, d) = io_call d
      in if \<not> ok \<or> \<not> pr_fd_open r then (None, s, d)
         else (let s = bump_all [Io_completions, Completed_reads] s;
                   data = take n (drop offset (file_bytes (pr_path r) d))
               in (if length data \<noteq> n then None else Some data, s, d)))"

definition reader_read :: "u64 \<Rightarrow> nat \<Rightarrow> page_reader \<Rightarrow> search_stats \<Rightarrow> disk \<Rightarrow> bytes result \<times> search_stats \<times> disk" where
  "reader_read offset n r s d =
     (if is_effective_mode (pr_status r) = ''odirect'' \<and> is_direct_enabled (pr_status r) \<and>
         (unat offset mod kDirectIoAlignment \<noteq> 0 \<or> n mod kDirectIoAlignment \<noteq> 0)
      then (Inl (Runtime_error ''Direct graph I/O requires aligned page offsets and lengths''), s, d)
      else (let (data, s, d) = read_with_pread n (unat offset) r s d
            in (case data of None \<Rightarrow> Inl (Runtime_error ''Graph page read failed'') | Some bs \<Rightarrow> Inr bs, s, d)))"

text \<open>The synchronous branch of \<open>batch_submit\<close>: each request is read before the next.\<close>

fun batch_submit ::
  "read_request list \<Rightarrow> page_reader \<Rightarrow> search_stats \<Rightarrow> disk \<Rightarrow>
   (u32 \<times> u64) list result \<times> page_reader \<times> search_stats \<times> disk" where
  "batch_submit [] r s d = (Inr [], r, s, d)"
| "batch_submit (request # requests) r s d =
     (let token = pr_next_token r;
          r = r\<lparr>pr_next_token := token + 1\<rparr>;
          (data, s, d) = reader_read (rq_offset request) (rq_bytes request) r s d
      in case data of
           Inl e \<Rightarrow> (Inl e, r, s, d)
         | Inr bs \<Rightarrow>
             (let r = r\<lparr>pr_inline_completions := pr_inline_completions r @ [\<lparr>cr_token = token, cr_data = bs\<rparr>]\<rparr>;
                  (submitted, r, s, d) = batch_submit requests r s d
              in (case submitted of Inl e \<Rightarrow> Inl e | Inr reads \<Rightarrow> Inr ((rq_page_id request, token) # reads), r, s, d)))"

definition reap_async_read :: "page_reader \<Rightarrow> completed_read option \<times> page_reader" where
  "reap_async_read r =
     (case pr_inline_completions r of
        [] \<Rightarrow> (None, r)
      | c # cs \<Rightarrow> (Some c, r\<lparr>pr_inline_completions := cs\<rparr>))"

section \<open>What a read returns\<close>

lemma bump_simps: "bump c n s c = s c + n" "c' \<noteq> c \<Longrightarrow> bump c n s c' = s c'"
  by (simp_all add: bump_def)

text \<open>The bytes of the file at a position, when they are all there.\<close>

definition file_slice :: "string \<Rightarrow> disk \<Rightarrow> nat \<Rightarrow> nat \<Rightarrow> bytes option" where
  "file_slice path d offset n =
     (let data = take n (drop offset (file_bytes path d)) in if length data = n then Some data else None)"

lemma reader_read_data:
  assumes "reader_read offset n r s d = (Inr bs, s', d')"
  shows "file_slice (pr_path r) d (unat offset) n = Some bs" "length bs = n" "files d' = files d" "pr_fd_open r"
  using assms io_call_files[of d]
  by (auto simp: reader_read_def read_with_pread_def file_slice_def file_bytes_def Let_def
      split: if_splits option.splits prod.splits)

text \<open>A reader whose file is not open reads nothing.\<close>

lemma reader_read_closed:
  assumes "\<not> pr_fd_open r"
  shows "\<exists>e s' d'. reader_read offset n r s d = (Inl e, s', d')"
proof -
  obtain data s' d' where "reader_read offset n r s d = (data, s', d')" by (cases "reader_read offset n r s d")
  then show ?thesis using assms reader_read_data(4)[of offset n r s d] by (cases data) auto
qed

lemma reader_read_frame:
  assumes "reader_read offset n r s d = (res, s', d')"
  shows "files d' = files d" "outcomes d = [] \<Longrightarrow> d' = d"
    "s' c = s c \<or> c \<in> {Io_submits, Submitted_reads, Io_submit_syscalls, Sync_reads, Ssd_reads,
       Fallback_reads, Io_completions, Completed_reads}"
  using assms io_call_files[of d]
  by (auto simp: reader_read_def read_with_pread_def Let_def bump_def
      split: if_splits option.splits prod.splits)

lemma reader_read_reliable:
  assumes "outcomes d = []" and "file_slice (pr_path r) d (unat offset) n = Some bs"
    and "is_direct_enabled (pr_status r) \<Longrightarrow> unat offset mod 4096 = 0 \<and> n mod 4096 = 0" and "pr_fd_open r"
  shows "\<exists>s'. reader_read offset n r s d = (Inr bs, s', d)"
  using assms
  by (auto simp: reader_read_def read_with_pread_def file_slice_def kDirectIoAlignment_def Let_def
      split: if_splits)

end
