(* ===== verification/GraphIndex.thy ===== *)
theory GraphIndex
  imports PageCodec PageReader
begin

text \<open>
  The packed index of \<open>graph/disk_graph_index.h\<close> and \<open>src/graph/disk_graph_index.cpp\<close>
  without its search: opening the file, reading pages, and the page cache with its
  replacement policies and pins. \<open>log1p\<close> of the C library, whose rounding is its own, is the
  argument \<open>lg\<close>: the bit pattern of \<open>log1p(double(hot_score))\<close>.
\<close>

section \<open>State\<close>

record cache_entry =
  ce_page :: decoded_page
  ce_last_access :: u64
  ce_frequency :: u64
  ce_protected_queue :: bool
  ce_hot_score :: u64
  ce_pin_count :: u64

record packed_index =
  pi_reader :: page_reader
  pi_metadata :: graph_metadata
  pi_node_to_page :: "u32 list"
  pi_cache_policy :: string
  pi_cache_capacity_pages :: nat
  pi_cache_protect_hot_pages :: bool
  pi_cache_hot_degree_threshold :: nat
  pi_cache_clock :: u64
  pi_page_cache :: "(u32, cache_entry) umap"
  pi_scratch_page :: "decoded_page option"
  pi_node_in_degrees :: "u32 list"
  pi_node_in_degrees_ready :: bool

section \<open>Opening\<close>

definition kPackedGraphMagic :: bytes where
  "kPackedGraphMagic = [65, 77, 70, 80, 86, 50, 0, 0]"

definition kPackedGraphVersion :: u32 where
  "kPackedGraphVersion = 2"

text \<open>\<open>read_value\<close>: the next field of the header.\<close>

definition read_value :: "bytes \<Rightarrow> ('a::len word \<times> bytes) result" where
  "read_value bs = (case get_word bs of
     None \<Rightarrow> Inl (Runtime_error ''Failed to read graph index header'') | Some wr \<Rightarrow> Inr wr)"

definition read_packed_metadata :: "bytes \<Rightarrow> graph_metadata result" where
  "read_packed_metadata bs =
     (if length bs < 8 \<or> take 8 bs \<noteq> kPackedGraphMagic
      then Inl (Runtime_error ''Invalid packed graph index magic'')
      else
        seq_result (read_value (drop 8 bs)) (\<lambda>(version :: u32, bs).
        if version \<noteq> kPackedGraphVersion
        then Inl (Runtime_error ''Unsupported packed graph index version'')
        else
          seq_result (read_value bs) (\<lambda>(vector_count :: u64, bs).
          seq_result (read_value bs) (\<lambda>(dim :: u32, bs).
          seq_result (read_value bs) (\<lambda>(degree :: u32, bs).
          seq_result (read_value bs) (\<lambda>(page_size :: u32, bs).
          seq_result (read_value bs) (\<lambda>(records_offset :: u64, bs).
          seq_result (read_value bs) (\<lambda>(directory_offset :: u64, bs).
          seq_result (read_value bs) (\<lambda>(page_count :: u64, bs).
          seq_result (read_value bs) (\<lambda>(nodes_per_page :: u32, bs).
          seq_result (read_value bs) (\<lambda>(neighbor_pq_code_bytes :: u32, bs).
          let meta = \<lparr>gm_vector_count = unat vector_count, gm_dim = unat dim, gm_degree = unat degree,
                gm_page_size = unat page_size, gm_records_offset = unat records_offset,
                gm_directory_offset = unat directory_offset, gm_page_count = unat page_count,
                gm_nodes_per_page = unat nodes_per_page,
                gm_neighbor_pq_code_bytes = unat neighbor_pq_code_bytes\<rparr>
          in if vector_count = 0 \<or> dim = 0 \<or> degree = 0 \<or> page_size = 0 \<or> page_count = 0 \<or> nodes_per_page = 0
             then Inl (Runtime_error ''Packed graph index metadata is invalid'')
             else if gm_page_size meta < graph_record_bytes (gm_dim meta) (gm_degree meta) (gm_neighbor_pq_code_bytes meta)
             then Inl (Runtime_error ''Packed graph node payload exceeds page size'')
             else Inr meta)))))))))))"

definition PackedDiskGraphIndex :: "string \<Rightarrow> disk \<Rightarrow> packed_index result \<times> disk" where
  "PackedDiskGraphIndex path d =
     (let (content, d) = read_file path d
      in case content of
           None \<Rightarrow> (Inl (Runtime_error ''Cannot open packed graph index''), d)
         | Some bs \<Rightarrow>
             (case read_packed_metadata bs of
                Inl e \<Rightarrow> (Inl e, d)
              | Inr meta \<Rightarrow>
                  (case get_many get_word (gm_vector_count meta) (drop (gm_directory_offset meta) bs) of
                     None \<Rightarrow> (Inl (Runtime_error ''Failed to read packed graph directory''), d)
                   | Some (directory, _) \<Rightarrow>
                       (let (opened, reader, d) = AsyncPageReader path (gm_page_size meta) d
                        in case opened of
                             Inl e \<Rightarrow> (Inl e, d)
                           | Inr _ \<Rightarrow> (Inr \<lparr>pi_reader = reader, pi_metadata = meta, pi_node_to_page = directory,
                               pi_cache_policy = ''none'', pi_cache_capacity_pages = 0,
                               pi_cache_protect_hot_pages = False, pi_cache_hot_degree_threshold = 0,
                               pi_cache_clock = 0, pi_page_cache = um_empty, pi_scratch_page = None,
                               pi_node_in_degrees = [], pi_node_in_degrees_ready = False\<rparr>, d)))))"

definition configure_io :: "string \<Rightarrow> nat \<Rightarrow> nat \<Rightarrow> packed_index \<Rightarrow> disk \<Rightarrow> unit result \<times> packed_index \<times> disk" where
  "configure_io mode batch_size io_depth idx d =
     (let (r, reader, d) = reader_configure mode batch_size io_depth (pi_reader idx) d
      in (r, idx\<lparr>pi_reader := reader\<rparr>, d))"

section \<open>Reading pages\<close>

definition page_offset :: "packed_index \<Rightarrow> u32 \<Rightarrow> u64" where
  "page_offset idx page_id =
     word_of_nat (gm_records_offset (pi_metadata idx)) + ucast page_id * word_of_nat (gm_page_size (pi_metadata idx))"

definition read_page :: "packed_index \<Rightarrow> u32 \<Rightarrow> search_stats \<Rightarrow> disk \<Rightarrow> decoded_page result \<times> search_stats \<times> disk" where
  "read_page idx page_id s d =
     (if gm_page_count (pi_metadata idx) \<le> unat page_id
      then (Inl (Runtime_error ''Packed page id out of range''), s, d)
      else (let (data, s, d) = reader_read (page_offset idx page_id) (gm_page_size (pi_metadata idx)) (pi_reader idx) s d
            in (seq_result data (decode_packed_page (pi_metadata idx) page_id), s, d)))"

text \<open>\<open>ensure_node_in_degrees\<close>: one pass over all pages; the counters of the pass are dropped.\<close>

definition count_neighbors :: "decoded_page \<Rightarrow> u32 list \<Rightarrow> u32 list" where
  "count_neighbors page degrees = foldl (\<lambda>degrees neighbor.
     if unat neighbor < length degrees then degrees[unat neighbor := degrees ! unat neighbor + 1] else degrees)
     degrees (concat (map dn_neighbors (dp_nodes page)))"

fun scan_in_degrees :: "packed_index \<Rightarrow> u32 list \<Rightarrow> nat list \<Rightarrow> search_stats \<Rightarrow> disk \<Rightarrow> u32 list result \<times> disk" where
  "scan_in_degrees idx degrees [] s d = (Inr degrees, d)"
| "scan_in_degrees idx degrees (p # ps) s d =
     (let (page, s, d) = read_page idx (word_of_nat p) s d
      in case page of
           Inl e \<Rightarrow> (Inl e, d)
         | Inr page \<Rightarrow> scan_in_degrees idx (count_neighbors page degrees) ps s d)"

definition ensure_node_in_degrees :: "packed_index \<Rightarrow> disk \<Rightarrow> unit result \<times> packed_index \<times> disk" where
  "ensure_node_in_degrees idx d =
     (if pi_node_in_degrees_ready idx then (Inr (), idx, d)
      else (let (degrees, d) = scan_in_degrees idx (replicate (gm_vector_count (pi_metadata idx)) 0)
                  [0..<gm_page_count (pi_metadata idx)] no_stats d
            in case degrees of
                 Inl e \<Rightarrow> (Inl e, idx, d)
               | Inr degrees \<Rightarrow> (Inr (), idx\<lparr>pi_node_in_degrees := degrees, pi_node_in_degrees_ready := True\<rparr>, d)))"

section \<open>Replacement\<close>

definition cache_enabled :: "packed_index \<Rightarrow> bool" where
  "cache_enabled idx \<longleftrightarrow> pi_cache_policy idx \<noteq> ''none'' \<and> 0 < pi_cache_capacity_pages idx"

definition is_two_queue_policy :: "packed_index \<Rightarrow> bool" where
  "is_two_queue_policy idx \<longleftrightarrow> pi_cache_policy idx \<in> {''2q'', ''graph-aware-2q'', ''agent''}"

definition is_graph_aware_cache_policy :: "packed_index \<Rightarrow> bool" where
  "is_graph_aware_cache_policy idx \<longleftrightarrow> pi_cache_policy idx \<in> {''graph-aware-2q'', ''agent''}"

definition page_hot_score :: "packed_index \<Rightarrow> decoded_page \<Rightarrow> u64" where
  "page_hot_score idx page =
     (if \<not> pi_cache_protect_hot_pages idx \<and> \<not> is_graph_aware_cache_policy idx then 0
      else foldl (\<lambda>score node.
        let importance = (if unat (dn_id node) < length (pi_node_in_degrees idx)
                          then ucast (pi_node_in_degrees idx ! unat (dn_id node))
                          else word_of_nat (length (dn_neighbors node))) :: u64
        in if pi_cache_hot_degree_threshold idx = 0 then score + importance
           else if word_of_nat (pi_cache_hot_degree_threshold idx) \<le> importance then score + 1
           else score) 0 (dp_nodes page))"

definition page_is_hub :: "packed_index \<Rightarrow> decoded_page \<Rightarrow> bool" where
  "page_is_hub idx page \<longleftrightarrow> 0 < page_hot_score idx page"

definition cache_entry_is_hub :: "cache_entry \<Rightarrow> bool" where
  "cache_entry_is_hub entry \<longleftrightarrow> 0 < ce_hot_score entry"

definition record_hub_cache_access :: "bool \<Rightarrow> bool \<Rightarrow> search_stats \<Rightarrow> search_stats" where
  "record_hub_cache_access hub_page hit s =
     (if \<not> hub_page then s
      else let s = bump Page_cache_hub_requests 1 s in if hit then bump Page_cache_hub_hits 1 s else s)"

text \<open>Scores are \<open>double\<close> bit patterns; \<open>dbl\<close> converts an integer.\<close>

definition dbl :: "nat \<Rightarrow> nat" where
  "dbl n = fp_of_nat binary64 n"

definition cache_score :: "(u64 \<Rightarrow> nat) \<Rightarrow> packed_index \<Rightarrow> cache_entry \<Rightarrow> nat" where
  "cache_score lg idx entry =
     (let queue_bonus = (if ce_protected_queue entry then dbl 1000000000 else 0);
          recency = dbl (unat (ce_last_access entry))
      in if pi_cache_policy idx = ''lru'' then recency
         else if pi_cache_policy idx = ''2q'' then fp_add binary64 queue_bonus recency
         else if is_graph_aware_cache_policy idx
         then (let hot_bonus = fp_mul binary64 (lg (ce_hot_score entry)) (dbl 64);
                   frequency = dbl (unat (min (ce_frequency entry) 16))
               in fp_add binary64 (fp_add binary64 (fp_add binary64 queue_bonus recency) hot_bonus)
                    (fp_mul binary64 frequency (dbl 4)))
         else (let frequency = dbl (unat (ce_frequency entry));
                   density = dbl (length (dp_nodes (ce_page entry)))
               in fp_add binary64 (fp_add binary64 (fp_mul binary64 frequency (dbl 1000)) recency)
                    (fp_mul binary64 density 0x3F847AE147AE147B)))"

text \<open>One round of the victim scan: pinned pages are passed over.\<close>

definition victim_step ::
  "(u64 \<Rightarrow> nat) \<Rightarrow> packed_index \<Rightarrow> (u32 \<times> cache_entry \<times> nat) option \<Rightarrow> u32 \<times> cache_entry \<Rightarrow>
   (u32 \<times> cache_entry \<times> nat) option" where
  "victim_step lg idx victim = (\<lambda>(page_id, entry).
     if 0 < ce_pin_count entry then victim
     else case victim of
       None \<Rightarrow> Some (page_id, entry, cache_score lg idx entry)
     | Some (victim_id, victim_entry, victim_score) \<Rightarrow>
         if is_two_queue_policy idx \<and> ce_protected_queue victim_entry \<noteq> ce_protected_queue entry
         then (if \<not> ce_protected_queue entry then Some (page_id, entry, cache_score lg idx entry) else victim)
         else (let score = cache_score lg idx entry
               in if fp_lt binary64 score victim_score \<or> (fp_eq binary64 score victim_score \<and> page_id < victim_id)
                  then Some (page_id, entry, score) else victim))"

definition evict_one_page_locked ::
  "(u64 \<Rightarrow> nat) \<Rightarrow> packed_index \<Rightarrow> search_stats \<Rightarrow> bool \<times> packed_index \<times> search_stats" where
  "evict_one_page_locked lg idx s =
     (if um_items (pi_page_cache idx) = [] then (False, idx, s)
      else case foldl (victim_step lg idx) None (um_items (pi_page_cache idx)) of
        None \<Rightarrow> (False, idx, bump Page_cache_pinned_eviction_skips 1 s)
      | Some (victim_id, _) \<Rightarrow>
          (True, idx\<lparr>pi_page_cache := um_erase victim_id (pi_page_cache idx)\<rparr>, bump Page_cache_evictions 1 s))"

section \<open>Cache operations\<close>

definition configure_cache ::
  "string \<Rightarrow> nat \<Rightarrow> bool \<Rightarrow> nat \<Rightarrow> packed_index \<Rightarrow> disk \<Rightarrow> unit result \<times> packed_index \<times> disk" where
  "configure_cache policy capacity_pages protect_hot_pages hot_degree_threshold idx d =
     (if policy \<notin> {''none'', ''lru'', ''2q'', ''graph-aware-2q'', ''agent''}
      then (Inl (Runtime_error ''Cache policy must be none, lru, 2q, or graph-aware-2q''), idx, d)
      else (let (ready, idx, d) =
                  (if policy \<in> {''graph-aware-2q'', ''agent''} \<or> protect_hot_pages
                   then ensure_node_in_degrees idx d else (Inr (), idx, d))
            in case ready of
                 Inl e \<Rightarrow> (Inl e, idx, d)
               | Inr _ \<Rightarrow>
                   (let idx = (if policy \<noteq> pi_cache_policy idx \<or> capacity_pages \<noteq> pi_cache_capacity_pages idx \<or>
                                  protect_hot_pages \<noteq> pi_cache_protect_hot_pages idx \<or>
                                  hot_degree_threshold \<noteq> pi_cache_hot_degree_threshold idx
                               then idx\<lparr>pi_page_cache := um_empty, pi_cache_clock := 0\<rparr> else idx)
                    in (Inr (), idx\<lparr>pi_cache_policy := policy, pi_cache_capacity_pages := capacity_pages,
                         pi_cache_protect_hot_pages := protect_hot_pages,
                         pi_cache_hot_degree_threshold := hot_degree_threshold\<rparr>, d))))"

definition is_pinned :: "packed_index \<Rightarrow> u32 \<Rightarrow> bool" where
  "is_pinned idx page_id =
     (case um_find (pi_page_cache idx) page_id of None \<Rightarrow> False | Some entry \<Rightarrow> 0 < ce_pin_count entry)"

definition pin_if_cached :: "u32 \<Rightarrow> packed_index \<Rightarrow> bool \<times> packed_index" where
  "pin_if_cached page_id idx =
     (case um_find (pi_page_cache idx) page_id of
        None \<Rightarrow> (False, idx)
      | Some entry \<Rightarrow> (True, idx\<lparr>pi_page_cache := um_assign page_id
          (entry\<lparr>ce_pin_count := ce_pin_count entry + 1\<rparr>) (pi_page_cache idx)\<rparr>))"

definition unpin_if_cached :: "u32 \<Rightarrow> packed_index \<Rightarrow> unit result \<times> packed_index" where
  "unpin_if_cached page_id idx =
     (case um_find (pi_page_cache idx) page_id of
        None \<Rightarrow> (Inr (), idx)
      | Some entry \<Rightarrow>
          if ce_pin_count entry = 0 then (Inl (Runtime_error ''Packed graph page pin underflow''), idx)
          else (Inr (), idx\<lparr>pi_page_cache := um_assign page_id
            (entry\<lparr>ce_pin_count := ce_pin_count entry - 1\<rparr>) (pi_page_cache idx)\<rparr>))"

text \<open>\<open>touch_entry\<close>: the bookkeeping of a hit.\<close>

definition touch_entry :: "packed_index \<Rightarrow> cache_entry \<Rightarrow> cache_entry" where
  "touch_entry idx entry = entry\<lparr>ce_last_access := pi_cache_clock idx + 1, ce_frequency := ce_frequency entry + 1\<rparr>"

definition promotes :: "packed_index \<Rightarrow> cache_entry \<Rightarrow> bool" where
  "promotes idx entry \<longleftrightarrow> is_two_queue_policy idx \<and> \<not> ce_protected_queue entry"

definition promote_entry :: "packed_index \<Rightarrow> cache_entry \<Rightarrow> cache_entry" where
  "promote_entry idx entry = (if promotes idx entry then entry\<lparr>ce_protected_queue := True\<rparr> else entry)"

definition lookup_cached_page ::
  "u32 \<Rightarrow> packed_index \<Rightarrow> search_stats \<Rightarrow> decoded_page option \<times> packed_index \<times> search_stats" where
  "lookup_cached_page page_id idx s =
     (if \<not> cache_enabled idx then (None, idx, s)
      else case um_find (pi_page_cache idx) page_id of
        None \<Rightarrow> (None, idx, s)
      | Some entry \<Rightarrow>
          (let s = bump_all [Page_cache_hits, Cache_hits] s;
               s = record_hub_cache_access (cache_entry_is_hub entry) True s;
               s = (if promotes idx entry then bump Page_cache_promotions 1 s else s)
           in (Some (ce_page entry),
               idx\<lparr>pi_cache_clock := pi_cache_clock idx + 1,
                   pi_page_cache := um_assign page_id (promote_entry idx (touch_entry idx entry)) (pi_page_cache idx)\<rparr>,
               s)))"

text \<open>\<open>insert_page\<close> is the end of \<open>store_cached_page\<close> and of \<open>load_page\<close>: make room, then emplace.\<close>

definition new_entry :: "packed_index \<Rightarrow> decoded_page \<Rightarrow> cache_entry" where
  "new_entry idx page = \<lparr>ce_page = page, ce_last_access = pi_cache_clock idx + 1, ce_frequency = 1,
     ce_protected_queue = False, ce_hot_score = page_hot_score idx page, ce_pin_count = 0\<rparr>"

definition insert_page ::
  "(u64 \<Rightarrow> nat) \<Rightarrow> u32 \<Rightarrow> decoded_page \<Rightarrow> packed_index \<Rightarrow> search_stats \<Rightarrow> decoded_page \<times> packed_index \<times> search_stats" where
  "insert_page lg page_id page idx s =
     (let (room, idx, s) = (if pi_cache_capacity_pages idx \<le> length (um_items (pi_page_cache idx))
                            then evict_one_page_locked lg idx s else (True, idx, s))
      in if \<not> room then (page, idx\<lparr>pi_scratch_page := Some page\<rparr>, s)
         else (page, idx\<lparr>pi_cache_clock := pi_cache_clock idx + 1,
                 pi_page_cache := um_assign page_id (new_entry idx page) (pi_page_cache idx)\<rparr>, s))"

definition store_cached_page ::
  "(u64 \<Rightarrow> nat) \<Rightarrow> decoded_page \<Rightarrow> packed_index \<Rightarrow> search_stats \<Rightarrow> decoded_page \<times> packed_index \<times> search_stats" where
  "store_cached_page lg page idx s =
     (if \<not> cache_enabled idx then (page, idx\<lparr>pi_scratch_page := Some page\<rparr>, s)
      else case um_find (pi_page_cache idx) (dp_page_id page) of
        Some entry \<Rightarrow>
          (let s = (if promotes idx entry then bump Page_cache_promotions 1 s else s);
               entry = promote_entry idx ((touch_entry idx entry)\<lparr>ce_page := page, ce_hot_score := page_hot_score idx page\<rparr>)
           in (page, idx\<lparr>pi_cache_clock := pi_cache_clock idx + 1,
                 pi_page_cache := um_assign (dp_page_id page) entry (pi_page_cache idx)\<rparr>, s))
      | None \<Rightarrow> insert_page lg (dp_page_id page) page idx s)"

definition load_page ::
  "(u64 \<Rightarrow> nat) \<Rightarrow> u32 \<Rightarrow> packed_index \<Rightarrow> search_stats \<Rightarrow> disk \<Rightarrow>
   decoded_page result \<times> packed_index \<times> search_stats \<times> disk" where
  "load_page lg page_id idx s d =
     (let s = bump_all [Page_requests, Page_requests_before_dedup] s;
          (cached, idx, s) = lookup_cached_page page_id idx s
      in case cached of
           Some page \<Rightarrow> (Inr page, idx, s, d)
         | None \<Rightarrow>
             (let s = bump_all [Page_cache_misses, Demand_reads, Node_reads, Page_requests_after_dedup] s;
                  (page, s, d) = read_page idx page_id s d
              in case page of
                   Inl e \<Rightarrow> (Inl e, idx, s, d)
                 | Inr page \<Rightarrow>
                     (let s = record_hub_cache_access (page_is_hub idx page) False s;
                          (page, idx, s) = (if \<not> cache_enabled idx
                            then (page, idx\<lparr>pi_scratch_page := Some page\<rparr>, s) else insert_page lg page_id page idx s)
                      in (Inr page, idx, s, d))))"

end
