(* ===== verification/PageCache.thy ===== *)
theory PageCache
  imports GraphIndex
begin

text \<open>
  What the page cache guarantees under every policy: it never exceeds its capacity, it only
  ever holds the pages of the file, and a pinned page is never evicted.
\<close>

section \<open>Sizes of hash maps\<close>

lemma um_assign_size:
  "length (um_items (um_assign k v m)) = (if um_find m k = None then Suc (length (um_items m)) else length (um_items m))"
  unfolding um_items_def um_assign_def um_find_def by (induction m) auto

lemma um_erase_size:
  "um_ok m \<Longrightarrow> length (um_items (um_erase k m)) = (if um_find m k = None then length (um_items m) else length (um_items m) - 1)"
  unfolding um_items_def um_erase_def um_find_def um_ok_def
proof (induction m)
  case (Cons x m)
  show ?case
  proof (cases "fst x = k")
    case True
    then show ?thesis using Cons.prems by (cases x) simp
  next
    case False
    then show ?thesis using Cons by (cases x; cases m) auto
  qed
qed simp

section \<open>The invariant\<close>

text \<open>The page the file holds under an identifier, as a fresh read would decode it.\<close>

definition file_page :: "packed_index \<Rightarrow> disk \<Rightarrow> u32 \<Rightarrow> decoded_page option" where
  "file_page idx d page_id =
     (if gm_page_count (pi_metadata idx) \<le> unat page_id then None
      else case file_slice (pr_path (pi_reader idx)) d (unat (page_offset idx page_id)) (gm_page_size (pi_metadata idx)) of
        None \<Rightarrow> None
      | Some bs \<Rightarrow> (case decode_packed_page (pi_metadata idx) page_id bs of Inl e \<Rightarrow> None | Inr page \<Rightarrow> Some page))"

definition cache_inv :: "disk \<Rightarrow> packed_index \<Rightarrow> bool" where
  "cache_inv d idx \<longleftrightarrow> um_ok (pi_page_cache idx) \<and>
     (\<forall>k e. um_find (pi_page_cache idx) k = Some e \<longrightarrow> file_page idx d k = Some (ce_page e)) \<and>
     (cache_enabled idx \<longrightarrow> length (um_items (pi_page_cache idx)) \<le> pi_cache_capacity_pages idx)"

text \<open>Everything but cache contents, clock and scratch page.\<close>

definition same_store :: "packed_index \<Rightarrow> packed_index \<Rightarrow> bool" where
  "same_store idx idx' \<longleftrightarrow> pi_reader idx' = pi_reader idx \<and> pi_metadata idx' = pi_metadata idx \<and>
     pi_node_to_page idx' = pi_node_to_page idx \<and> pi_cache_policy idx' = pi_cache_policy idx \<and>
     pi_cache_capacity_pages idx' = pi_cache_capacity_pages idx"

lemma same_store_refl [simp]: "same_store idx idx"
  by (simp add: same_store_def)

lemma same_store_trans: "same_store a b \<Longrightarrow> same_store b c \<Longrightarrow> same_store a c"
  by (simp add: same_store_def)

lemma same_store_page: "same_store idx idx' \<Longrightarrow> file_page idx' d k = file_page idx d k"
  by (simp add: same_store_def file_page_def page_offset_def cong: option.case_cong)

lemma file_page_files: "files d' = files d \<Longrightarrow> file_page idx d' k = file_page idx d k"
  by (simp add: file_page_def file_slice_def file_bytes_def)

lemma cache_inv_files: "files d' = files d \<Longrightarrow> cache_inv d' idx = cache_inv d idx"
  using file_page_files[of d' d idx] by (simp add: cache_inv_def)

lemma seq_pairE:
  assumes "seq_result r (\<lambda>(a, b). f a b) = Inr y"
  obtains a b where "r = Inr (a, b)" "f a b = Inr y"
  using assms by (cases r) auto

lemma decoded_id:
  assumes "decode_packed_page meta k bs = Inr page"
  shows "dp_page_id page = k"
  using assms unfolding decode_packed_page_def Let_def
  apply (elim seq_pairE)
  apply (split if_split_asm)
   apply simp
  apply (elim seq_pairE)
  apply clarsimp
  done

lemma file_page_decoded:
  assumes "file_page idx d k = Some page"
  shows "\<exists>bs. decode_packed_page (pi_metadata idx) k bs = Inr page"
proof -
  let ?f = "file_slice (pr_path (pi_reader idx)) d (unat (page_offset idx k)) (gm_page_size (pi_metadata idx))"
  obtain bs where bs: "?f = Some bs" using assms by (cases ?f) (simp_all add: file_page_def split: if_splits)
  then show ?thesis using assms
    by (cases "decode_packed_page (pi_metadata idx) k bs") (simp_all add: file_page_def split: if_splits, blast)
qed

lemma file_page_id: "file_page idx d k = Some page \<Longrightarrow> dp_page_id page = k"
  using file_page_decoded decoded_id by blast

lemma read_page_frame: "read_page idx k s d = (r, s', d') \<Longrightarrow> files d' = files d"
proof -
  assume r: "read_page idx k s d = (r, s', d')"
  obtain data s1 d1 where rd: "reader_read (page_offset idx k) (gm_page_size (pi_metadata idx)) (pi_reader idx) s d = (data, s1, d1)"
    by (cases "reader_read (page_offset idx k) (gm_page_size (pi_metadata idx)) (pi_reader idx) s d")
  then show ?thesis using r reader_read_frame(1)[OF rd] by (simp add: read_page_def split: if_splits)
qed

lemma read_page_file:
  assumes "read_page idx k s d = (Inr page, s', d')"
  shows "file_page idx d k = Some page"
proof -
  obtain data s1 d1 where rd: "reader_read (page_offset idx k) (gm_page_size (pi_metadata idx)) (pi_reader idx) s d = (data, s1, d1)"
    by (cases "reader_read (page_offset idx k) (gm_page_size (pi_metadata idx)) (pi_reader idx) s d")
  have k: "\<not> gm_page_count (pi_metadata idx) \<le> unat k"
    and "seq_result data (decode_packed_page (pi_metadata idx) k) = Inr page"
    using assms rd by (simp_all add: read_page_def split: if_splits)
  then obtain bs where bs: "data = Inr bs" "decode_packed_page (pi_metadata idx) k bs = Inr page"
    by (auto simp: seq_result_Inr_iff)
  then show ?thesis using reader_read_data(1) rd k by (simp add: file_page_def)
qed

section \<open>Eviction\<close>

text \<open>The victim is an unpinned entry of the map, and there is one when any entry is unpinned.\<close>

lemma victim_fold:
  assumes "\<forall>(k, e, x)\<in>set_option v. 0 = ce_pin_count e \<and> (k, e) \<in> S" and "set es \<subseteq> S"
  shows "\<forall>(k, e, x)\<in>set_option (foldl (victim_step lg idx) v es). 0 = ce_pin_count e \<and> (k, e) \<in> S"
  using assms
proof (induction es arbitrary: v)
  case (Cons x es)
  have "\<forall>(k, e, y)\<in>set_option (victim_step lg idx v x). 0 = ce_pin_count e \<and> (k, e) \<in> S"
    using Cons.prems by (cases x; cases v) (auto simp: victim_step_def Let_def word_gt_0 split: if_splits)
  then show ?case using Cons.IH Cons.prems(2) by simp
qed simp

lemma victim_step_Some: "v \<noteq> None \<Longrightarrow> victim_step lg idx v x \<noteq> None"
  by (cases x; cases v) (auto simp: victim_step_def Let_def)

lemma victim_exists:
  assumes "v \<noteq> None \<or> (\<exists>(k, e)\<in>set es. ce_pin_count e = 0)"
  shows "foldl (victim_step lg idx) v es \<noteq> None"
  using assms
proof (induction es arbitrary: v)
  case (Cons x es)
  obtain k e where x: "x = (k, e)" by (cases x)
  consider "v \<noteq> None" | "ce_pin_count e = 0" | "\<exists>(k, e)\<in>set es. ce_pin_count e = 0"
    using Cons.prems x by auto
  then have "victim_step lg idx v x \<noteq> None \<or> (\<exists>(k, e)\<in>set es. ce_pin_count e = 0)"
  proof cases
    case 2
    then show ?thesis using x by (cases v) (auto simp: victim_step_def Let_def)
  qed (auto simp: victim_step_Some)
  then show ?case using Cons.IH by simp
qed auto

text \<open>What an eviction does: nothing, or it removes one unpinned entry.\<close>

lemma evict_cases:
  assumes "evict_one_page_locked lg idx s = (ok, idx', s')" and "um_ok (pi_page_cache idx)"
  shows "(\<not> ok \<and> idx' = idx \<and> (\<forall>k e. um_find (pi_page_cache idx) k = Some e \<longrightarrow> ce_pin_count e \<noteq> 0)) \<or>
    (ok \<and> (\<exists>k e. um_find (pi_page_cache idx) k = Some e \<and> ce_pin_count e = 0 \<and>
       idx' = idx\<lparr>pi_page_cache := um_erase k (pi_page_cache idx)\<rparr>))"
proof (cases "foldl (victim_step lg idx) None (um_items (pi_page_cache idx))")
  case None
  then have "\<forall>(k, e)\<in>set (um_items (pi_page_cache idx)). ce_pin_count e \<noteq> 0"
    using victim_exists[of None "um_items (pi_page_cache idx)" lg idx] by fastforce
  then have "\<forall>k e. um_find (pi_page_cache idx) k = Some e \<longrightarrow> ce_pin_count e \<noteq> 0"
    using um.items_lkp[OF assms(2)] by fastforce
  then show ?thesis using assms(1) None by (auto simp: evict_one_page_locked_def split: if_splits)
next
  case (Some v)
  obtain k e x where v: "v = (k, e, x)" by (cases v)
  have "ce_pin_count e = 0 \<and> (k, e) \<in> set (um_items (pi_page_cache idx))"
    using victim_fold[of None "set (um_items (pi_page_cache idx))" "um_items (pi_page_cache idx)" lg idx] Some v
    by simp
  then have e: "ce_pin_count e = 0" "um_find (pi_page_cache idx) k = Some e"
    using um.items_lkp[OF assms(2)] by auto
  moreover have "um_items (pi_page_cache idx) \<noteq> []" using Some by auto
  ultimately show ?thesis using assms(1) Some v by (auto simp: evict_one_page_locked_def)
qed

section \<open>Every operation keeps the invariant\<close>

lemma lookup_cases:
  assumes "lookup_cached_page k idx s = (r, idx', s')"
  shows "(r = None \<and> idx' = idx \<and> (cache_enabled idx \<longrightarrow> um_find (pi_page_cache idx) k = None)) \<or>
    (cache_enabled idx \<and> (\<exists>e e'. um_find (pi_page_cache idx) k = Some e \<and> r = Some (ce_page e) \<and> ce_page e' = ce_page e \<and>
       ce_pin_count e' = ce_pin_count e \<and>
       idx' = idx\<lparr>pi_cache_clock := pi_cache_clock idx + 1, pi_page_cache := um_assign k e' (pi_page_cache idx)\<rparr>))"
proof (cases "cache_enabled idx \<and> um_find (pi_page_cache idx) k \<noteq> None")
  case True
  then obtain e where e: "um_find (pi_page_cache idx) k = Some e" "cache_enabled idx" by auto
  have "ce_page (promote_entry idx (touch_entry idx e)) = ce_page e"
    "ce_pin_count (promote_entry idx (touch_entry idx e)) = ce_pin_count e"
    by (simp_all add: promote_entry_def touch_entry_def)
  then show ?thesis using assms e by (auto simp: lookup_cached_page_def Let_def)
next
  case False
  then show ?thesis using assms by (auto simp: lookup_cached_page_def split: if_splits option.splits)
qed

lemma lookup_inv:
  assumes "lookup_cached_page k idx s = (r, idx', s')" and "cache_inv d idx"
  shows "cache_inv d idx' \<and> same_store idx idx' \<and> (\<forall>page. r = Some page \<longrightarrow> file_page idx d k = Some page)"
  using lookup_cases[OF assms(1)]
proof (elim disjE conjE exE)
  assume "r = None" "idx' = idx"
  then show ?thesis using assms(2) by simp
next
  fix e e'
  assume e: "cache_enabled idx" "um_find (pi_page_cache idx) k = Some e" "r = Some (ce_page e)" "ce_page e' = ce_page e"
    and idx': "idx' = idx\<lparr>pi_cache_clock := pi_cache_clock idx + 1, pi_page_cache := um_assign k e' (pi_page_cache idx)\<rparr>"
  have same: "same_store idx idx'" by (simp add: idx' same_store_def)
  have "cache_enabled idx' = cache_enabled idx" by (simp add: idx' cache_enabled_def)
  then show ?thesis
    using assms(2) e same same_store_page[OF same]
    by (auto simp: cache_inv_def idx' um_assign_size)
qed

lemma insert_page_cases:
  assumes "insert_page lg k page idx s = (r, idx', s')" and "um_ok (pi_page_cache idx)"
  shows "r = page \<and> ((\<exists>v. idx' = idx\<lparr>pi_scratch_page := v\<rparr>) \<or>
    (\<exists>clock e cache. idx' = idx\<lparr>pi_cache_clock := clock, pi_page_cache := um_assign k e cache\<rparr> \<and> ce_page e = page \<and> ce_pin_count e = 0 \<and>
       (cache = pi_page_cache idx \<and> length (um_items (pi_page_cache idx)) < pi_cache_capacity_pages idx \<or>
        (\<exists>j q. um_find (pi_page_cache idx) j = Some q \<and> ce_pin_count q = 0 \<and> cache = um_erase j (pi_page_cache idx)))))"
proof (cases "pi_cache_capacity_pages idx \<le> length (um_items (pi_page_cache idx))")
  case True
  obtain ok idx1 s1 where ev: "evict_one_page_locked lg idx s = (ok, idx1, s1)"
    by (cases "evict_one_page_locked lg idx s")
  from evict_cases[OF ev assms(2)] show ?thesis
  proof (elim disjE conjE exE)
    assume "\<not> ok" "idx1 = idx"
    then have "r = page" "idx' = idx\<lparr>pi_scratch_page := Some page\<rparr>"
      using assms(1) True ev by (auto simp: insert_page_def)
    then show ?thesis by blast
  next
    fix j q assume j: ok "um_find (pi_page_cache idx) j = Some q" "ce_pin_count q = 0"
      "idx1 = idx\<lparr>pi_page_cache := um_erase j (pi_page_cache idx)\<rparr>"
    have "r = page" "idx' = idx\<lparr>pi_cache_clock := pi_cache_clock idx + 1,
        pi_page_cache := um_assign k (new_entry idx1 page) (um_erase j (pi_page_cache idx))\<rparr>"
      using assms(1) True ev j by (auto simp: insert_page_def Let_def)
    moreover have "ce_page (new_entry idx1 page) = page" "ce_pin_count (new_entry idx1 page) = 0" by (simp_all add: new_entry_def)
    ultimately show ?thesis using j(2,3) by blast
  qed
next
  case False
  then have "r = page" "idx' = idx\<lparr>pi_cache_clock := pi_cache_clock idx + 1,
      pi_page_cache := um_assign k (new_entry idx page) (pi_page_cache idx)\<rparr>"
    using assms(1) by (auto simp: insert_page_def Let_def not_le)
  moreover have "ce_page (new_entry idx page) = page" "ce_pin_count (new_entry idx page) = 0" by (simp_all add: new_entry_def)
  moreover have "length (um_items (pi_page_cache idx)) < pi_cache_capacity_pages idx" using False by simp
  ultimately show ?thesis by blast
qed

lemma insert_page_inv:
  assumes "insert_page lg k page idx s = (r, idx', s')" and "cache_inv d idx" and "file_page idx d k = Some page"
    and "um_find (pi_page_cache idx) k = None" and "cache_enabled idx"
  shows "cache_inv d idx' \<and> same_store idx idx' \<and> r = page"
proof -
  have ok: "um_ok (pi_page_cache idx)" using assms(2) by (simp add: cache_inv_def)
  have r: "r = page" using insert_page_cases[OF assms(1) ok] by blast
  consider v where "idx' = idx\<lparr>pi_scratch_page := v\<rparr>"
    | clock e cache where "idx' = idx\<lparr>pi_cache_clock := clock, pi_page_cache := um_assign k e cache\<rparr>"
      "ce_page e = page" "um_ok cache"
      "\<And>j q. um_find cache j = Some q \<Longrightarrow> um_find (pi_page_cache idx) j = Some q"
      "length (um_items (um_assign k e cache)) \<le> pi_cache_capacity_pages idx"
  proof -
    note scratch = that(1) and stored = that(2)
    from insert_page_cases[OF assms(1) ok] show thesis
    proof (elim conjE disjE exE)
      fix v assume "idx' = idx\<lparr>pi_scratch_page := v\<rparr>"
      then show thesis by (rule scratch)
    next
      fix clock e cache
      assume "idx' = idx\<lparr>pi_cache_clock := clock, pi_page_cache := um_assign k e cache\<rparr>" "ce_page e = page"
        "cache = pi_page_cache idx" "length (um_items (pi_page_cache idx)) < pi_cache_capacity_pages idx"
      then show thesis using ok assms(4) by (intro stored) (auto simp: um_assign_size Suc_le_eq)
    next
      fix clock e cache j q
      assume a: "idx' = idx\<lparr>pi_cache_clock := clock, pi_page_cache := um_assign k e cache\<rparr>" "ce_page e = page"
        and j: "um_find (pi_page_cache idx) j = Some q" "cache = um_erase j (pi_page_cache idx)"
      have "um_find cache k = None" using j assms(4) ok by (cases "k = j") auto
      moreover have "0 < length (um_items (pi_page_cache idx))" using j(1) by (auto simp: um_find_def um_items_def)
      ultimately have "length (um_items (um_assign k e cache)) = length (um_items (pi_page_cache idx))"
        using j um_erase_size[OF ok, of j] by (simp add: um_assign_size)
      moreover have "length (um_items (pi_page_cache idx)) \<le> pi_cache_capacity_pages idx"
        using assms(2,5) by (simp add: cache_inv_def)
      ultimately show thesis using a j ok by (intro stored[OF a]) (auto split: if_splits)
    qed
  qed
  then show ?thesis
  proof cases
    case 1
    have "same_store idx idx'" by (simp add: 1 same_store_def)
    then show ?thesis using r assms(2) same_store_page[of idx idx']
      by (auto simp: 1 cache_inv_def cache_enabled_def)
  next
    case (2 clock e cache)
    have same: "same_store idx idx'" by (simp add: 2(1) same_store_def)
    have "cache_enabled idx' = cache_enabled idx" by (simp add: 2(1) cache_enabled_def)
    moreover have "um_ok (pi_page_cache idx')" using 2(3) by (simp add: 2(1))
    moreover have "file_page idx d j = Some (ce_page q)" if "um_find (pi_page_cache idx') j = Some q" for j q
      using that 2(2-4) assms(2,3) by (auto simp: 2(1) cache_inv_def split: if_splits)
    ultimately show ?thesis
      using 2(5) r same same_store_page[OF same] by (simp add: cache_inv_def) (simp add: 2(1))
  qed
qed

lemma store_inv:
  assumes "store_cached_page lg page idx s = (r, idx', s')" and "cache_inv d idx"
    and "file_page idx d (dp_page_id page) = Some page"
  shows "cache_inv d idx' \<and> same_store idx idx' \<and> r = page"
proof (cases "cache_enabled idx")
  case False
  have "same_store idx (idx\<lparr>pi_scratch_page := Some page\<rparr>)" by (simp add: same_store_def)
  then show ?thesis
    using assms False same_store_page[of idx "idx\<lparr>pi_scratch_page := Some page\<rparr>"]
    by (auto simp: store_cached_page_def cache_inv_def cache_enabled_def)
next
  case True
  show ?thesis
  proof (cases "um_find (pi_page_cache idx) (dp_page_id page)")
    case None
    then have "insert_page lg (dp_page_id page) page idx s = (r, idx', s')"
      using assms(1) True by (simp add: store_cached_page_def)
    from insert_page_inv[OF this assms(2,3) None True] show ?thesis .
  next
    case (Some e)
    obtain e' clock where idx': "r = page" "ce_page e' = page"
      "idx' = idx\<lparr>pi_cache_clock := clock, pi_page_cache := um_assign (dp_page_id page) e' (pi_page_cache idx)\<rparr>"
    proof -
      let ?e = "promote_entry idx ((touch_entry idx e)\<lparr>ce_page := page, ce_hot_score := page_hot_score idx page\<rparr>)"
      have "ce_page ?e = page" by (simp add: promote_entry_def)
      moreover have "r = page" "idx' = idx\<lparr>pi_cache_clock := pi_cache_clock idx + 1,
          pi_page_cache := um_assign (dp_page_id page) ?e (pi_page_cache idx)\<rparr>"
        using assms(1) True Some by (auto simp: store_cached_page_def Let_def)
      ultimately show thesis using that by blast
    qed
    have same: "same_store idx idx'" by (simp add: idx' same_store_def)
    have en: "cache_enabled idx' = cache_enabled idx" by (simp add: idx' cache_enabled_def)
    show ?thesis
      using assms(2,3) idx'(1,2) same Some same_store_page[OF same] unfolding cache_inv_def en
      by (auto simp: idx' um_assign_size split: if_splits)
  qed
qed

lemma reassign_inv:
  assumes "cache_inv d idx" and "um_find (pi_page_cache idx) k = Some e" and "ce_page e' = ce_page e"
  shows "cache_inv d (idx\<lparr>pi_page_cache := um_assign k e' (pi_page_cache idx)\<rparr>) \<and>
    same_store idx (idx\<lparr>pi_page_cache := um_assign k e' (pi_page_cache idx)\<rparr>)"
proof -
  let ?idx = "idx\<lparr>pi_page_cache := um_assign k e' (pi_page_cache idx)\<rparr>"
  have same: "same_store idx ?idx" by (simp add: same_store_def)
  have "cache_enabled ?idx = cache_enabled idx" by (simp add: cache_enabled_def)
  then show ?thesis
    using assms same same_store_page[OF same] by (simp add: cache_inv_def um_assign_size)
qed

lemma pin_inv: "pin_if_cached k idx = (r, idx') \<Longrightarrow> cache_inv d idx \<Longrightarrow> cache_inv d idx' \<and> same_store idx idx'"
  using reassign_inv[of d idx k] by (auto simp: pin_if_cached_def split: option.splits)

lemma unpin_inv: "unpin_if_cached k idx = (r, idx') \<Longrightarrow> cache_inv d idx \<Longrightarrow> cache_inv d idx' \<and> same_store idx idx'"
  using reassign_inv[of d idx k] by (auto simp: unpin_if_cached_def split: option.splits if_splits)

lemma load_inv:
  assumes "load_page lg k idx s d = (r, idx', s', d')" and "cache_inv d idx"
  shows "cache_inv d idx' \<and> same_store idx idx' \<and> files d' = files d \<and> (\<forall>page. r = Inr page \<longrightarrow> file_page idx d k = Some page)"
proof -
  let ?s = "bump_all [Page_requests, Page_requests_before_dedup] s"
  obtain c idx1 s1 where l: "lookup_cached_page k idx ?s = (c, idx1, s1)" by (cases "lookup_cached_page k idx ?s")
  note li = lookup_inv[OF l assms(2)]
  show ?thesis
  proof (cases c)
    case (Some page)
    then show ?thesis using assms(1) l li by (auto simp: load_page_def)
  next
    case None
    let ?s1 = "bump_all [Page_cache_misses, Demand_reads, Node_reads, Page_requests_after_dedup] s1"
    have miss: "idx1 = idx" "cache_enabled idx \<Longrightarrow> um_find (pi_page_cache idx) k = None"
      using lookup_cases[OF l] None by auto
    obtain p s2 d2 where p: "read_page idx1 k ?s1 d = (p, s2, d2)" by (cases "read_page idx1 k ?s1 d")
    have f: "files d2 = files d" using read_page_frame[OF p] .
    show ?thesis
    proof (cases p)
      case (Inl e)
      then show ?thesis using assms(1,2) l None p f miss by (auto simp: load_page_def)
    next
      case (Inr page)
      have fp: "file_page idx d k = Some page" using read_page_file(1) p Inr miss(1) by blast
      let ?s3 = "record_hub_cache_access (page_is_hub idx1 page) False s2"
      show ?thesis
      proof (cases "cache_enabled idx")
        case False
        have same: "same_store idx (idx\<lparr>pi_scratch_page := Some page\<rparr>)" by (simp add: same_store_def)
        show ?thesis
          using assms l None p Inr f fp miss False same same_store_page[OF same]
          by (auto simp: load_page_def cache_inv_def cache_enabled_def)
      next
        case True
        obtain q idx2 s4 where ins: "insert_page lg k page idx ?s3 = (q, idx2, s4)"
          by (cases "insert_page lg k page idx ?s3")
        from insert_page_inv[OF ins assms(2) fp miss(2)[OF True] True]
        show ?thesis using assms(1) l None p Inr f fp miss(1) True ins by (auto simp: load_page_def)
      qed
    qed
  qed
qed

end
