(* ===== verification/CacheRuns.thy ===== *)
theory CacheRuns
  imports PageCache
begin

text \<open>
  The page cache as a state machine over the index and the disk: any sequence of
  configurations, lookups, loads, stores, pins and unpins, with whatever I/O failures.
\<close>

section \<open>Steps\<close>

text \<open>
  The accesses of a search; a store is of a page that an earlier read decoded, as
  \<open>store_cached_page\<close> is only called with such pages.
\<close>

inductive cache_access :: "(u64 \<Rightarrow> nat) \<Rightarrow> packed_index \<times> disk \<Rightarrow> packed_index \<times> disk \<Rightarrow> bool"
  for lg :: "u64 \<Rightarrow> nat" where
  access_lookup: "lookup_cached_page k idx s = (r, idx', s') \<Longrightarrow> cache_access lg (idx, d) (idx', d)"
| access_load: "load_page lg k idx s d = (r, idx', s', d') \<Longrightarrow> cache_access lg (idx, d) (idx', d')"
| access_store: "read_page idx k s0 d0 = (Inr page, s1, d1) \<Longrightarrow> files d0 = files d \<Longrightarrow>
    store_cached_page lg page idx s = (page', idx', s') \<Longrightarrow> cache_access lg (idx, d) (idx', d)"

inductive cache_step :: "(u64 \<Rightarrow> nat) \<Rightarrow> packed_index \<times> disk \<Rightarrow> packed_index \<times> disk \<Rightarrow> bool"
  for lg :: "u64 \<Rightarrow> nat" where
  step_access: "cache_access lg c c' \<Longrightarrow> cache_step lg c c'"
| step_pin: "pin_if_cached k idx = (r, idx') \<Longrightarrow> cache_step lg (idx, d) (idx', d)"
| step_unpin: "unpin_if_cached k idx = (u, idx') \<Longrightarrow> cache_step lg (idx, d) (idx', d)"
| step_configure_io: "configure_io mode batch_size io_depth idx d = (u, idx', d') \<Longrightarrow> cache_step lg (idx, d) (idx', d')"
| step_configure_cache: "configure_cache policy capacity protect threshold idx d = (u, idx', d') \<Longrightarrow>
    cache_step lg (idx, d) (idx', d')"

text \<open>What a step keeps: the invariant, the bytes of every file, and what the file's pages are.\<close>

definition run_kept :: "packed_index \<times> disk \<Rightarrow> packed_index \<times> disk \<Rightarrow> bool" where
  "run_kept c c' \<longleftrightarrow> cache_inv (snd c') (fst c') \<and> files (snd c') = files (snd c) \<and>
     (\<forall>k. file_page (fst c') (snd c') k = file_page (fst c) (snd c) k)"

lemma file_page_same:
  "pi_metadata idx' = pi_metadata idx \<Longrightarrow> pr_path (pi_reader idx') = pr_path (pi_reader idx) \<Longrightarrow>
    file_page idx' d k = file_page idx d k"
  by (simp add: file_page_def page_offset_def cong: option.case_cong)

lemma run_keptI:
  assumes "cache_inv d idx'" and "files d' = files d"
    and "pi_metadata idx' = pi_metadata idx" and "pr_path (pi_reader idx') = pr_path (pi_reader idx)"
  shows "run_kept (idx, d) (idx', d')"
proof -
  have "file_page idx' d k = file_page idx d k" for k using assms(3,4) by (rule file_page_same)
  then show ?thesis
    using assms file_page_files[OF assms(2)] cache_inv_files[OF assms(2)] by (simp add: run_kept_def)
qed

lemma run_kept_store: "cache_inv d idx' \<and> same_store idx idx' \<Longrightarrow> files d' = files d \<Longrightarrow> run_kept (idx, d) (idx', d')"
  by (rule run_keptI) (simp_all add: same_store_def)

lemma run_kept_trans: "run_kept a b \<Longrightarrow> run_kept b c \<Longrightarrow> run_kept a c"
  by (simp add: run_kept_def)

section \<open>Each step keeps them\<close>

lemma access_kept:
  assumes "cache_access lg c c'" and "cache_inv (snd c) (fst c)"
  shows "run_kept c c'"
  using assms
proof cases
  case (access_lookup k idx s r idx' s' d)
  then show ?thesis using lookup_inv[of k idx s r idx' s' d] assms(2) by (simp add: run_kept_store)
next
  case (access_load k idx s d r idx' s' d')
  then show ?thesis using load_inv[OF access_load(3)] assms(2) by (simp add: run_kept_store)
next
  case (access_store idx k s0 d0 page s1 d1 d s page' idx' s')
  have "file_page idx d k = Some page"
    using read_page_file[OF access_store(3)] file_page_files[OF access_store(4), of idx] by simp
  moreover from this have "dp_page_id page = k" by (rule file_page_id)
  ultimately show ?thesis
    using store_inv[OF access_store(5), of d] assms(2) access_store(1,2) by (simp add: run_kept_store)
qed

lemma reader_configure_path:
  "reader_configure mode batch_size io_depth r d = (u, r', d') \<Longrightarrow> pr_path r' = pr_path r \<and> files d' = files d"
  using io_call_files[of d]
  by (auto simp: reader_configure_def Let_def fallback_to_pread_def open_linux_fd_def try_open_linux_fd_def
      close_native_def io_call_files split: if_splits prod.splits sum.splits)

lemma scan_frame: "scan_in_degrees idx degrees ps s d = (r, d') \<Longrightarrow> files d' = files d"
proof (induction idx degrees ps s d rule: scan_in_degrees.induct)
  case (2 idx degrees p ps s d)
  obtain page s1 d1 where rd: "read_page idx (word_of_nat p) s d = (page, s1, d1)"
    by (cases "read_page idx (word_of_nat p) s d")
  show ?case
    using 2 rd read_page_frame[OF rd] by (cases page) auto
qed simp

text \<open>The in-degrees decide scores only.\<close>

lemma ensure_frame:
  assumes "ensure_node_in_degrees idx d = (u, idx', d')"
  shows "files d' = files d \<and> (\<exists>degrees ready. idx' = idx\<lparr>pi_node_in_degrees := degrees, pi_node_in_degrees_ready := ready\<rparr>)"
proof (cases "pi_node_in_degrees_ready idx")
  case True
  then have "idx' = idx\<lparr>pi_node_in_degrees := pi_node_in_degrees idx, pi_node_in_degrees_ready := pi_node_in_degrees_ready idx\<rparr>"
    "d' = d" using assms by (simp_all add: ensure_node_in_degrees_def)
  then show ?thesis by blast
next
  case False
  obtain degrees d1 where sc: "scan_in_degrees idx (replicate (gm_vector_count (pi_metadata idx)) 0)
      [0..<gm_page_count (pi_metadata idx)] no_stats d = (degrees, d1)"
    by (cases "scan_in_degrees idx (replicate (gm_vector_count (pi_metadata idx)) 0)
      [0..<gm_page_count (pi_metadata idx)] no_stats d")
  have same: "idx = idx\<lparr>pi_node_in_degrees := pi_node_in_degrees idx, pi_node_in_degrees_ready := pi_node_in_degrees_ready idx\<rparr>"
    by simp
  show ?thesis
  proof (cases degrees)
    case (Inl e)
    then have "d' = d1" "idx' = idx" using assms False sc by (simp_all add: ensure_node_in_degrees_def)
    then show ?thesis using same scan_frame[OF sc] by blast
  next
    case (Inr l)
    then have "d' = d1" "idx' = idx\<lparr>pi_node_in_degrees := l, pi_node_in_degrees_ready := True\<rparr>"
      using assms False sc by (simp_all add: ensure_node_in_degrees_def)
    then show ?thesis using scan_frame[OF sc] by blast
  qed
qed

lemma configure_cache_kept:
  assumes "configure_cache policy capacity protect threshold idx d = (u, idx', d')" and "cache_inv d idx"
  shows "run_kept (idx, d) (idx', d')"
proof (cases "policy \<in> {''none'', ''lru'', ''2q'', ''graph-aware-2q'', ''agent''}")
  case False
  then show ?thesis using assms by (auto simp: configure_cache_def intro: run_keptI)
next
  case True
  define ready where "ready = (if policy \<in> {''graph-aware-2q'', ''agent''} \<or> protect then ensure_node_in_degrees idx d else (Inr (), idx, d))"
  obtain e idx1 d1 where rd: "ready = (e, idx1, d1)" by (cases ready)
  have idx1: "files d1 = files d \<and> (\<exists>degrees b. idx1 = idx\<lparr>pi_node_in_degrees := degrees, pi_node_in_degrees_ready := b\<rparr>)"
  proof (cases "policy \<in> {''graph-aware-2q'', ''agent''} \<or> protect")
    case True
    then show ?thesis using rd ensure_frame[of idx d e idx1 d1] by (simp only: ready_def if_True)
  next
    case False
    have "idx = idx\<lparr>pi_node_in_degrees := pi_node_in_degrees idx, pi_node_in_degrees_ready := pi_node_in_degrees_ready idx\<rparr>"
      by simp
    then show ?thesis using rd False by (simp only: ready_def if_False prod.inject) blast
  qed
  have same: "pi_metadata idx1 = pi_metadata idx" "pi_reader idx1 = pi_reader idx" "pi_page_cache idx1 = pi_page_cache idx"
    "pi_cache_policy idx1 = pi_cache_policy idx" "pi_cache_capacity_pages idx1 = pi_cache_capacity_pages idx"
    using idx1 by auto
  have inv1: "cache_inv d idx1"
    using assms(2) file_page_same[of idx1 idx d] by (simp add: cache_inv_def same cache_enabled_def)
  define cleared where "cleared = (if policy \<noteq> pi_cache_policy idx1 \<or> capacity \<noteq> pi_cache_capacity_pages idx1 \<or>
     protect \<noteq> pi_cache_protect_hot_pages idx1 \<or> threshold \<noteq> pi_cache_hot_degree_threshold idx1
     then idx1\<lparr>pi_page_cache := um_empty, pi_cache_clock := 0\<rparr> else idx1)"
  have "(case e of Inl er \<Rightarrow> (Inl er, idx1, d1) | Inr _ \<Rightarrow> (Inr (), cleared\<lparr>pi_cache_policy := policy,
      pi_cache_capacity_pages := capacity, pi_cache_protect_hot_pages := protect,
      pi_cache_hot_degree_threshold := threshold\<rparr>, d1)) = (u, idx', d')"
    using assms(1) True unfolding configure_cache_def ready_def[symmetric] rd cleared_def
    by (simp only: not_not if_False prod.case Let_def simp_thms)
  then have cases: "(idx' = idx1 \<or> idx' = cleared\<lparr>pi_cache_policy := policy, pi_cache_capacity_pages := capacity,
      pi_cache_protect_hot_pages := protect, pi_cache_hot_degree_threshold := threshold\<rparr>) \<and> d' = d1"
    by (cases e) auto
  let ?idx = "cleared\<lparr>pi_cache_policy := policy, pi_cache_capacity_pages := capacity,
      pi_cache_protect_hot_pages := protect, pi_cache_hot_degree_threshold := threshold\<rparr>"
  have page: "file_page ?idx d k = file_page idx1 d k" for k
    by (rule file_page_same) (simp_all add: cleared_def)
  have inv': "cache_inv d ?idx"
  proof (cases "policy = pi_cache_policy idx1 \<and> capacity = pi_cache_capacity_pages idx1 \<and>
      protect = pi_cache_protect_hot_pages idx1 \<and> threshold = pi_cache_hot_degree_threshold idx1")
    case True
    moreover from this have "cleared = idx1" by (simp add: cleared_def)
    ultimately show ?thesis using inv1 page by (simp add: cache_inv_def cache_enabled_def)
  next
    case False
    then have "pi_page_cache cleared = um_empty" by (auto simp: cleared_def)
    then show ?thesis by (simp add: cache_inv_def um_empty_def um_find_def um_items_def um_ok_def)
  qed
  show ?thesis
    using cases inv1 inv' idx1 same by (auto intro!: run_keptI simp: cleared_def)
qed

lemma step_kept:
  assumes "cache_step lg c c'" and "cache_inv (snd c) (fst c)"
  shows "run_kept c c'"
  using assms
proof cases
  case step_access
  then show ?thesis using access_kept assms(2) by blast
next
  case (step_pin k idx r idx' d)
  then show ?thesis using pin_inv[of k idx r idx' d] assms(2) by (simp add: run_kept_store)
next
  case (step_unpin k idx u idx' d)
  then show ?thesis using unpin_inv[of k idx u idx' d] assms(2) by (simp add: run_kept_store)
next
  case (step_configure_io mode batch_size io_depth idx d u idx' d')
  obtain u' r' d1 where rc: "reader_configure mode batch_size io_depth (pi_reader idx) d = (u', r', d1)"
    by (cases "reader_configure mode batch_size io_depth (pi_reader idx) d")
  then have idx': "idx' = idx\<lparr>pi_reader := r'\<rparr>" "d' = d1" using step_configure_io by (simp_all add: configure_io_def)
  note path = reader_configure_path[OF rc]
  have "file_page idx' d k = file_page idx d k" for k
    using path by (intro file_page_same) (simp_all add: idx')
  then have "cache_inv d idx'" using assms(2) step_configure_io(1)
    by (simp add: idx' cache_inv_def cache_enabled_def)
  then show ?thesis using path step_configure_io(1,2) by (auto intro!: run_keptI simp: idx')
next
  case (step_configure_cache policy capacity protect threshold idx d u idx' d')
  then show ?thesis using configure_cache_kept assms(2) by auto
qed

lemma run_keeps:
  assumes "(cache_step lg)\<^sup>*\<^sup>* c c'" and "cache_inv (snd c) (fst c)"
  shows "run_kept c c'"
  using assms
proof (induction rule: rtranclp_induct)
  case base
  then show ?case by (simp add: run_kept_def)
next
  case (step y z)
  then have y: "run_kept c y" by blast
  then have "run_kept y z" using step_kept[OF step(2)] by (simp add: run_kept_def)
  then show ?case using y run_kept_trans by blast
qed

lemma opened_inv:
  assumes "PackedDiskGraphIndex path d = (Inr idx, d')"
  shows "cache_inv d' idx" "files d' = files d"
proof -
  obtain content d1 where rf: "read_file path d = (content, d1)" by (cases "read_file path d")
  then obtain bs where content: "content = Some bs" using assms by (cases content) (auto simp: PackedDiskGraphIndex_def)
  obtain meta where meta: "read_packed_metadata bs = Inr meta"
    using assms rf content by (cases "read_packed_metadata bs") (auto simp: PackedDiskGraphIndex_def)
  obtain dr :: "u32 list \<times> bytes"
    where dr: "get_many get_word (gm_vector_count meta) (drop (gm_directory_offset meta) bs) = Some dr"
    using assms rf content meta
    by (cases "get_many get_word (gm_vector_count meta) (drop (gm_directory_offset meta) bs) :: (u32 list \<times> bytes) option")
      (auto simp: PackedDiskGraphIndex_def)
  obtain u r d2 where ar: "AsyncPageReader path (gm_page_size meta) d1 = (u, r, d2)"
    by (cases "AsyncPageReader path (gm_page_size meta) d1")
  have idx: "pi_page_cache idx = um_empty" "d' = d2"
    using assms rf content meta dr ar by (auto simp: PackedDiskGraphIndex_def split: prod.splits sum.splits)
  show "cache_inv d' idx"
    by (simp add: cache_inv_def idx(1) um_empty_def um_find_def um_items_def um_ok_def)
  have "files d1 = files d" using rf io_call_files[of d] by (auto simp: read_file_def split: prod.splits if_splits)
  moreover have "files d2 = files d1" using ar reader_configure_path by (auto simp: AsyncPageReader_def)
  ultimately show "files d' = files d" by (simp add: idx(2))
qed

section \<open>Pins\<close>

text \<open>The entry of \<open>k\<close> is there with the given number of pins.\<close>

definition pinned_at :: "u32 \<Rightarrow> u64 \<Rightarrow> packed_index \<Rightarrow> bool" where
  "pinned_at k n idx \<longleftrightarrow> n \<noteq> 0 \<and> um_ok (pi_page_cache idx) \<and>
     (\<exists>e. um_find (pi_page_cache idx) k = Some e \<and> ce_pin_count e = n)"

lemma pinned_reassign:
  assumes "pinned_at k n idx" and "um_find (pi_page_cache idx) j = Some e" and "ce_pin_count e' = ce_pin_count e"
    and "idx' = idx\<lparr>pi_cache_clock := clock, pi_page_cache := um_assign j e' (pi_page_cache idx)\<rparr>"
  shows "pinned_at k n idx'"
  using assms by (auto simp: pinned_at_def)

lemma lookup_pinned: "lookup_cached_page j idx s = (r, idx', s') \<Longrightarrow> pinned_at k n idx \<Longrightarrow> pinned_at k n idx'"
  using lookup_cases[of j idx s r idx' s'] pinned_reassign[of k n idx j] by blast

lemma insert_pinned:
  assumes "insert_page lg j page idx s = (r, idx', s')" and "pinned_at k n idx" and "um_find (pi_page_cache idx) j = None"
  shows "pinned_at k n idx'"
proof -
  obtain e where e: "um_find (pi_page_cache idx) k = Some e" "ce_pin_count e = n" "n \<noteq> 0" "um_ok (pi_page_cache idx)"
    using assms(2) by (auto simp: pinned_at_def)
  then have jk: "j \<noteq> k" using assms(3) by auto
  from insert_page_cases[OF assms(1) e(4)] show ?thesis
  proof (elim conjE disjE exE)
    fix v assume "idx' = idx\<lparr>pi_scratch_page := v\<rparr>"
    then show ?thesis using assms(2) by (simp add: pinned_at_def)
  next
    fix clock e' cache assume "idx' = idx\<lparr>pi_cache_clock := clock, pi_page_cache := um_assign j e' cache\<rparr>"
      "cache = pi_page_cache idx"
    then show ?thesis using e jk by (simp add: pinned_at_def)
  next
    fix clock e' cache i q
    assume "idx' = idx\<lparr>pi_cache_clock := clock, pi_page_cache := um_assign j e' cache\<rparr>"
      "um_find (pi_page_cache idx) i = Some q" "ce_pin_count q = 0" "cache = um_erase i (pi_page_cache idx)"
    moreover from this have "i \<noteq> k" using e by auto
    ultimately show ?thesis using e jk by (simp add: pinned_at_def)
  qed
qed

lemma load_pinned:
  assumes "load_page lg j idx s d = (r, idx', s', d')" and "pinned_at k n idx"
  shows "pinned_at k n idx'"
proof -
  let ?s = "bump_all [Page_requests, Page_requests_before_dedup] s"
  obtain c idx1 s1 where l: "lookup_cached_page j idx ?s = (c, idx1, s1)" by (cases "lookup_cached_page j idx ?s")
  have p1: "pinned_at k n idx1" by (rule lookup_pinned[OF l assms(2)])
  show ?thesis
  proof (cases c)
    case (Some page)
    then show ?thesis using assms(1) l p1 by (auto simp: load_page_def)
  next
    case None
    let ?s1 = "bump_all [Page_cache_misses, Demand_reads, Node_reads, Page_requests_after_dedup] s1"
    obtain p s2 d2 where p: "read_page idx1 j ?s1 d = (p, s2, d2)" by (cases "read_page idx1 j ?s1 d")
    show ?thesis
    proof (cases p)
      case (Inl e)
      then show ?thesis using assms(1) l None p p1 by (auto simp: load_page_def)
    next
      case (Inr page)
      let ?s3 = "record_hub_cache_access (page_is_hub idx1 page) False s2"
      obtain q idx2 s4 where ins: "insert_page lg j page idx1 ?s3 = (q, idx2, s4)"
        by (cases "insert_page lg j page idx1 ?s3")
      have "cache_enabled idx1 \<Longrightarrow> um_find (pi_page_cache idx1) j = None" using lookup_cases[OF l] None by auto
      then have "cache_enabled idx1 \<Longrightarrow> pinned_at k n idx2" using insert_pinned[OF ins p1] by simp
      moreover have "idx' = (if cache_enabled idx1 then idx2 else idx1\<lparr>pi_scratch_page := Some page\<rparr>)"
        using assms(1) l None p Inr ins by (cases "cache_enabled idx1") (simp_all add: load_page_def Let_def)
      ultimately show ?thesis using p1 by (cases "cache_enabled idx1") (simp_all add: pinned_at_def)
    qed
  qed
qed

lemma store_pinned:
  assumes "store_cached_page lg page idx s = (r, idx', s')" and "pinned_at k n idx"
  shows "pinned_at k n idx'"
proof (cases "cache_enabled idx")
  case False
  then show ?thesis using assms by (auto simp: store_cached_page_def pinned_at_def)
next
  case True
  show ?thesis
  proof (cases "um_find (pi_page_cache idx) (dp_page_id page)")
    case None
    then have "insert_page lg (dp_page_id page) page idx s = (r, idx', s')"
      using assms(1) True by (simp add: store_cached_page_def)
    then show ?thesis using insert_pinned assms(2) None by blast
  next
    case (Some e)
    let ?e = "promote_entry idx ((touch_entry idx e)\<lparr>ce_page := page, ce_hot_score := page_hot_score idx page\<rparr>)"
    have "ce_pin_count ?e = ce_pin_count e" by (simp add: promote_entry_def touch_entry_def)
    moreover have "idx' = idx\<lparr>pi_cache_clock := pi_cache_clock idx + 1,
        pi_page_cache := um_assign (dp_page_id page) ?e (pi_page_cache idx)\<rparr>"
      using assms(1) True Some by (auto simp: store_cached_page_def Let_def)
    ultimately show ?thesis using pinned_reassign[OF assms(2) Some] by blast
  qed
qed

lemma access_pinned: "cache_access lg c c' \<Longrightarrow> pinned_at k n (fst c) \<Longrightarrow> pinned_at k n (fst c')"
  by (induction rule: cache_access.induct) (auto intro: lookup_pinned load_pinned store_pinned)

section \<open>Properties\<close>

text \<open>
  C28: The cache is transparent and bounded. From a freshly opened index, after any sequence of
  cache and I/O configurations, lookups, loads, stores, pins and unpins with any I/O failures,
  a page that a load delivers is the page of the file as it was when the index was opened, and
  an enabled cache holds at most its capacity of pages.
\<close>

theorem page_cache_transparent:
  assumes "PackedDiskGraphIndex path d0 = (Inr idx0, d1)" and "(cache_step lg)\<^sup>*\<^sup>* (idx0, d1) (idx, d)"
  shows "(\<forall>page idx' s' d'. load_page lg k idx s d = (Inr page, idx', s', d') \<longrightarrow> file_page idx0 d0 k = Some page) \<and>
    (cache_enabled idx \<longrightarrow> length (um_items (pi_page_cache idx)) \<le> pi_cache_capacity_pages idx)"
proof -
  have kept: "run_kept (idx0, d1) (idx, d)" using run_keeps[OF assms(2)] opened_inv[OF assms(1)] by simp
  have "file_page idx0 d0 k = Some page" if "load_page lg k idx s d = (Inr page, idx', s', d')" for page idx' s' d'
    using load_inv[OF that] kept file_page_files[OF opened_inv(2)[OF assms(1)], of idx0] by (simp add: run_kept_def)
  moreover have "length (um_items (pi_page_cache idx)) \<le> pi_cache_capacity_pages idx" if "cache_enabled idx"
    using kept that by (simp add: run_kept_def cache_inv_def)
  ultimately show ?thesis by blast
qed

text \<open>A file of one page of one node, opened and read through a cache of one page.\<close>

definition demo_packed_file :: bytes where
  "demo_packed_file =
     [65, 77, 70, 80, 86, 50, 0, 0, 2, 0, 0, 0, 1, 0, 0, 0, 0, 0, 0, 0, 1, 0, 0, 0, 1, 0, 0, 0, 24, 0, 0,
     0, 64, 0, 0, 0, 0, 0, 0, 0, 88, 0, 0, 0, 0, 0, 0, 0, 1, 0, 0, 0, 0, 0, 0, 0, 1, 0, 0, 0, 0, 0, 0, 0,
     0, 0, 0, 0, 1, 0, 0, 0, 0, 0, 0, 0, 0, 0, 0, 0, 0, 0, 128, 63, 255, 255, 255, 255, 0, 0, 0, 0]"

definition demo_packed_disk :: disk where
  "demo_packed_disk = \<lparr>files = [''g'' \<mapsto> demo_packed_file], outcomes = []\<rparr>"


text \<open>
  A pinned page stays in the cache with its pins, under every replacement policy, whatever
  lookups, loads and stores follow and however full the cache is.
\<close>

theorem pinned_page_stays:
  assumes "(cache_access lg)\<^sup>*\<^sup>* (idx, d) (idx', d')" and "pinned_at k n idx"
  shows "is_pinned idx' k \<and> pinned_at k n idx'"
proof -
  have "pinned_at k n (fst c')" if "(cache_access lg)\<^sup>*\<^sup>* c c'" "pinned_at k n (fst c)" for c c'
    using that by (induction rule: rtranclp_induct) (auto intro: access_pinned)
  from this[OF assms(1)] have "pinned_at k n idx'" using assms(2) by simp
  then show ?thesis by (auto simp: pinned_at_def is_pinned_def word_gt_0)
qed

definition demo_index :: packed_index where
  "demo_index = \<lparr>
     pi_reader = \<lparr>pr_path = ''g'', pr_page_size = 24, pr_status = default_status\<lparr>is_requested_mode := ''pread''\<rparr>,
       pr_inline_completions = [], pr_next_token = 1, pr_fd_open = True\<rparr>,
     pi_metadata = \<lparr>gm_vector_count = 1, gm_dim = 1, gm_degree = 1, gm_page_size = 24, gm_records_offset = 64,
       gm_directory_offset = 88, gm_page_count = 1, gm_nodes_per_page = 1, gm_neighbor_pq_code_bytes = 0\<rparr>,
     pi_node_to_page = [0], pi_cache_policy = ''none'', pi_cache_capacity_pages = 0, pi_cache_protect_hot_pages = False,
     pi_cache_hot_degree_threshold = 0, pi_cache_clock = 0, pi_page_cache = um_empty, pi_scratch_page = None,
     pi_node_in_degrees = [], pi_node_in_degrees_ready = False\<rparr>"

definition demo_page :: decoded_page where
  "demo_page = \<lparr>dp_page_id = 0, dp_bytes = take 24 (drop 64 demo_packed_file),
     dp_nodes = [\<lparr>dn_id = 0, dn_neighbors = [], dn_neighbor_pq_codes = [], dn_vector = [], dn_vector_offset = 16\<rparr>]\<rparr>"

lemma demo_opened: "PackedDiskGraphIndex ''g'' demo_packed_disk = (Inr demo_index, demo_packed_disk)"
proof -
  have "fst (PackedDiskGraphIndex ''g'' demo_packed_disk) = Inr demo_index" by code_simp
  moreover have "outcomes (snd (PackedDiskGraphIndex ''g'' demo_packed_disk)) = []" by code_simp
  ultimately show ?thesis using opened_inv(2)[of "''g''" demo_packed_disk demo_index]
    by (cases "PackedDiskGraphIndex ''g'' demo_packed_disk") (auto simp: demo_packed_disk_def)
qed

abbreviation demo_cached :: packed_index where
  "demo_cached \<equiv> demo_index\<lparr>pi_cache_policy := ''lru'', pi_cache_capacity_pages := 1\<rparr>"

abbreviation demo_filled :: packed_index where
  "demo_filled \<equiv> demo_cached\<lparr>pi_cache_clock := 1, pi_page_cache := um_assign 0 (new_entry demo_cached demo_page) um_empty\<rparr>"

lemma demo_configured:
  "configure_cache ''lru'' 1 False 0 demo_index demo_packed_disk = (Inr (), demo_cached, demo_packed_disk)"
  by (simp add: configure_cache_def demo_index_def)

lemma demo_decoded: "decode_packed_page (pi_metadata demo_cached) 0 (dp_bytes demo_page) = Inr demo_page"
  by (simp add: decode_packed_page_def demo_index_def demo_page_def demo_packed_file_def get_bytes_def get_word_def
      dec_word_def get_vector_slot_def stored_neighbors_def stored_codes_def)

lemma demo_slice: "file_slice ''g'' demo_packed_disk 64 24 = Some (dp_bytes demo_page)"
  by (simp add: file_slice_def file_bytes_def demo_packed_disk_def demo_page_def demo_packed_file_def)

lemma demo_loaded:
  "\<exists>s. load_page (\<lambda>_. 0) 0 demo_cached no_stats demo_packed_disk = (Inr demo_page, demo_filled, s, demo_packed_disk)"
proof -
  let ?s = "bump_all [Page_cache_misses, Demand_reads, Node_reads, Page_requests_after_dedup]
    (bump_all [Page_requests, Page_requests_before_dedup] no_stats)"
  have "page_offset demo_cached 0 = 64" by (simp add: page_offset_def demo_index_def)
  then obtain s where "reader_read (page_offset demo_cached 0) 24 (pi_reader demo_cached) ?s demo_packed_disk =
      (Inr (dp_bytes demo_page), s, demo_packed_disk)"
    using reader_read_reliable[of demo_packed_disk "pi_reader demo_cached" 64 24 "dp_bytes demo_page" ?s] demo_slice
    by (auto simp: demo_packed_disk_def demo_index_def default_status_def)
  then have "read_page demo_cached 0 ?s demo_packed_disk = (Inr demo_page, s, demo_packed_disk)"
    using demo_decoded by (simp add: read_page_def demo_index_def)
  moreover have "lookup_cached_page 0 demo_cached s = (None, demo_cached, s)" for s
    by (simp add: lookup_cached_page_def demo_index_def um_find_def um_empty_def)
  moreover have "cache_enabled demo_cached" by (simp add: cache_enabled_def)
  moreover have "insert_page lg 0 demo_page demo_cached s = (demo_page, demo_filled, s)" for lg s
    by (simp add: insert_page_def demo_index_def um_empty_def um_items_def)
  ultimately show ?thesis by (simp add: load_page_def)
qed

theorem page_cache_transparent_witness: "file_page demo_index demo_packed_disk 0 = Some demo_page"
proof -
  have "(cache_step (\<lambda>_. 0))\<^sup>*\<^sup>* (demo_index, demo_packed_disk) (demo_cached, demo_packed_disk)"
    using demo_configured by (intro r_into_rtranclp step_configure_cache)
  from page_cache_transparent[OF demo_opened this] show ?thesis using demo_loaded by blast
qed

theorem pinned_page_stays_witness: "\<exists>idx. is_pinned idx 0 \<and> pinned_at 0 1 idx"
proof -
  let ?idx = "snd (pin_if_cached 0 demo_filled)"
  have pinned: "pinned_at 0 1 ?idx"
    by (simp add: pinned_at_def pin_if_cached_def um_ok_def new_entry_def um_assign_def um_find_def um_empty_def)
  let ?load = "load_page (\<lambda>_. 0) 0 ?idx no_stats demo_packed_disk"
  have "(cache_access (\<lambda>_. 0))\<^sup>*\<^sup>* (?idx, demo_packed_disk) (fst (snd ?load), snd (snd (snd ?load)))"
    by (intro r_into_rtranclp access_load[of _ 0 ?idx no_stats demo_packed_disk "fst ?load" _ "fst (snd (snd ?load))"]) simp
  from pinned_page_stays[OF this pinned] show ?thesis by blast
qed

end
