(* ===== verification/PrefetchPlanner.thy ===== *)
theory PrefetchPlanner
  imports GraphIndex
begin

text \<open>
  \<open>src/core/prefetch_planner.cpp\<close>: which pages to read ahead. The candidate nodes of a search
  step are gathered by page, pages at hand or planned before are ruled out, the others are scored
  by a boosted tree model, ranked and cut to the budget. Sizes are natural numbers; doubles are
  binary64 patterns. A tree of the model is walked node by node: a walk that never reaches a leaf
  is the value \<open>None\<close>.
\<close>

section \<open>Data\<close>

record prefetch_config =
  fc_policy :: string
  fc_prefetch_width :: nat
  fc_prefetch_depth :: nat
  fc_min_candidates_per_page :: nat
  fc_model_path :: string
  fc_prefetch_top_k :: nat
  fc_score_threshold :: nat
  fc_max_prefetch_inflight :: nat

record page_availability =
  av_cached :: bool
  av_ready :: bool
  av_pending :: bool
  av_materialized :: bool

datatype plan_counter =
    Plan_page_requests_before_dedup | Plan_dedup_requests | Plan_dedup_hits
  | Plan_skip_seen_before | Plan_skip_cached | Plan_skip_pending | Plan_skip_materialized
  | Plan_skip_budget_full | Plan_skip_low_page_reuse | Plan_skip_score_threshold | Plan_skip_inflight_full

type_synonym plan_stats = "plan_counter \<Rightarrow> nat"

definition plan_bump :: "plan_counter \<Rightarrow> plan_stats \<Rightarrow> plan_stats" where
  "plan_bump c stats = stats(c := stats c + 1)"

record planning_context =
  px_search_step :: nat
  px_visited_count :: nat
  px_frontier_size :: nat
  px_result_size :: nat
  px_current_candidate_distance :: nat
  px_worst_result_distance :: nat
  px_ef_search :: nat
  px_beam_width :: nat
  px_io_queue_depth :: nat
  px_max_prefetch_inflight :: nat
  px_min_candidates_per_page :: nat
  px_cache_pressure :: nat

record prefetch_feature =
  pf_page_id :: u32
  pf_num_candidates_on_page :: nat
  pf_min_pq_rank_on_page :: nat
  pf_avg_pq_rank_on_page :: nat
  pf_candidate_rank_span :: nat
  pf_contains_top1_candidate :: bool
  pf_contains_topk_candidate :: bool
  pf_is_cached :: bool
  pf_is_inflight :: bool
  pf_is_ready :: bool
  pf_is_materialized :: bool
  pf_search_step :: nat
  pf_visited_count :: nat
  pf_frontier_size :: nat
  pf_result_size :: nat
  pf_current_candidate_distance :: nat
  pf_worst_result_distance :: nat
  pf_ef_search :: nat
  pf_beam_width :: nat
  pf_io_queue_depth :: nat
  pf_max_prefetch_inflight :: nat
  pf_cache_pressure :: nat
  pf_score :: nat
  pf_rank :: nat
  pf_selected :: bool
  pf_skip_reason :: string

record prefetch_plan =
  pn_pages :: "u32 list"
  pn_candidates :: "prefetch_feature list"
  pn_stats :: plan_stats

record xgb_node =
  xn_leaf :: bool
  xn_feature :: string
  xn_threshold :: nat
  xn_yes :: int
  xn_no :: int
  xn_missing :: int
  xn_leaf_value :: nat

type_synonym xgb_tree = "(int, xgb_node) umap"

record prefetch_planner =
  pl_config :: prefetch_config
  pl_trees :: "xgb_tree list"
  pl_base_score :: nat
  pl_seen_pages :: "u32 set"

section \<open>Scores\<close>

definition finite_or_zero :: "nat \<Rightarrow> nat" where
  "finite_or_zero value = (if fp_finite binary64 value then value else 0)"

definition finite_or_negative_infinity :: "nat \<Rightarrow> nat" where
  "finite_or_negative_infinity value =
     (if fp_finite binary64 value then value else fp_make binary64 True (inf_mag binary64))"

definition dbl_bool :: "bool \<Rightarrow> nat" where
  "dbl_bool b = (if b then fp_of_nat binary64 1 else 0)"

definition feature_value :: "prefetch_feature \<Rightarrow> string \<Rightarrow> nat" where
  "feature_value f name =
     (if name = ''num_candidates_on_page'' then fp_of_nat binary64 (pf_num_candidates_on_page f)
      else if name = ''min_pq_rank_on_page'' then fp_of_nat binary64 (pf_min_pq_rank_on_page f)
      else if name = ''avg_pq_rank_on_page'' then pf_avg_pq_rank_on_page f
      else if name = ''candidate_rank_span'' then fp_of_nat binary64 (pf_candidate_rank_span f)
      else if name = ''contains_top1_candidate'' then dbl_bool (pf_contains_top1_candidate f)
      else if name = ''contains_topk_candidate'' then dbl_bool (pf_contains_topk_candidate f)
      else if name = ''is_cached'' then dbl_bool (pf_is_cached f)
      else if name = ''is_inflight'' then dbl_bool (pf_is_inflight f)
      else if name = ''is_ready'' then dbl_bool (pf_is_ready f)
      else if name = ''is_materialized'' then dbl_bool (pf_is_materialized f)
      else if name = ''search_step'' then fp_of_nat binary64 (pf_search_step f)
      else if name = ''visited_count'' then fp_of_nat binary64 (pf_visited_count f)
      else if name = ''frontier_size'' then fp_of_nat binary64 (pf_frontier_size f)
      else if name = ''result_size'' then fp_of_nat binary64 (pf_result_size f)
      else if name = ''current_candidate_distance'' then finite_or_zero (pf_current_candidate_distance f)
      else if name = ''worst_result_distance'' then finite_or_zero (pf_worst_result_distance f)
      else if name = ''ef_search'' then fp_of_nat binary64 (pf_ef_search f)
      else if name = ''beam_width'' then fp_of_nat binary64 (pf_beam_width f)
      else if name = ''io_queue_depth'' then fp_of_nat binary64 (pf_io_queue_depth f)
      else if name = ''max_prefetch_inflight'' then fp_of_nat binary64 (pf_max_prefetch_inflight f)
      else if name = ''cache_pressure'' then pf_cache_pressure f
      else 0)"

definition next_node :: "prefetch_feature \<Rightarrow> xgb_node \<Rightarrow> int" where
  "next_node f node =
     (let value = feature_value f (xn_feature node)
      in if \<not> fp_finite binary64 value then xn_missing node
         else if fp_lt binary64 value (xn_threshold node) then xn_yes node else xn_no node)"

text \<open>The inner loop; nothing bounds it.\<close>

partial_function (option) walk_tree :: "xgb_tree \<Rightarrow> prefetch_feature \<Rightarrow> int \<Rightarrow> nat result option" where
  "walk_tree tree f node_id =
     (case um_find tree node_id of
        None \<Rightarrow> Some (Inl (Runtime_error ''XGBoost prefetch model references missing node''))
      | Some node \<Rightarrow> if xn_leaf node then Some (Inr (xn_leaf_value node)) else walk_tree tree f (next_node f node))"

declare walk_tree.simps [code]

fun sum_trees :: "xgb_tree list \<Rightarrow> prefetch_feature \<Rightarrow> nat \<Rightarrow> nat result option" where
  "sum_trees [] f score = Some (Inr score)"
| "sum_trees (tree # trees) f score =
     (case walk_tree tree f 0 of
        None \<Rightarrow> None
      | Some (Inl e) \<Rightarrow> Some (Inl e)
      | Some (Inr leaf_value) \<Rightarrow> sum_trees trees f (fp_add binary64 score leaf_value))"

definition score_xgboost_model :: "prefetch_planner \<Rightarrow> prefetch_feature \<Rightarrow> nat result option" where
  "score_xgboost_model planner f = sum_trees (pl_trees planner) f (pl_base_score planner)"

section \<open>Gathering candidates by page\<close>

definition kTopCandidateCutoff :: nat where
  "kTopCandidateCutoff = 4"

record aggregate =
  ag_feature :: prefetch_feature
  ag_rank_sum :: nat
  ag_last_rank :: nat
  ag_eligible :: bool

definition new_feature :: "prefetch_config \<Rightarrow> planning_context \<Rightarrow> page_availability \<Rightarrow> u32 \<Rightarrow> nat \<Rightarrow> prefetch_feature" where
  "new_feature config context state page_id rank =
     \<lparr>pf_page_id = page_id, pf_num_candidates_on_page = 0, pf_min_pq_rank_on_page = rank, pf_avg_pq_rank_on_page = 0,
      pf_candidate_rank_span = 0, pf_contains_top1_candidate = False, pf_contains_topk_candidate = False,
      pf_is_cached = av_cached state, pf_is_inflight = av_pending state, pf_is_ready = av_ready state,
      pf_is_materialized = av_materialized state, pf_search_step = px_search_step context,
      pf_visited_count = px_visited_count context, pf_frontier_size = px_frontier_size context,
      pf_result_size = px_result_size context, pf_current_candidate_distance = px_current_candidate_distance context,
      pf_worst_result_distance = px_worst_result_distance context, pf_ef_search = px_ef_search context,
      pf_beam_width = px_beam_width context, pf_io_queue_depth = px_io_queue_depth context,
      pf_max_prefetch_inflight = (if px_max_prefetch_inflight context = 0 then fc_max_prefetch_inflight config
        else px_max_prefetch_inflight context),
      pf_cache_pressure = px_cache_pressure context, pf_score = 0, pf_rank = 0, pf_selected = False, pf_skip_reason = []\<rparr>"

text \<open>Why a page is not planned again: it is at hand or on its way, or an earlier plan had it.\<close>

definition ruled_out :: "page_availability \<Rightarrow> bool \<Rightarrow> (plan_counter \<times> string) option" where
  "ruled_out state seen =
     (if av_cached state then Some (Plan_skip_cached, ''cached'')
      else if av_pending state then Some (Plan_skip_pending, ''pending'')
      else if av_ready state \<or> av_materialized state then Some (Plan_skip_materialized, ''materialized'')
      else if seen then Some (Plan_skip_seen_before, ''seen_before'') else None)"

definition new_aggregate ::
  "prefetch_planner \<Rightarrow> planning_context \<Rightarrow> page_availability \<Rightarrow> u32 \<Rightarrow> nat \<Rightarrow> plan_stats \<Rightarrow> aggregate \<times> plan_stats" where
  "new_aggregate planner context state page_id rank stats =
     (let feature = new_feature (pl_config planner) context state page_id rank
      in case ruled_out state (page_id \<in> pl_seen_pages planner) of
           None \<Rightarrow> (\<lparr>ag_feature = feature, ag_rank_sum = 0, ag_last_rank = rank, ag_eligible = True\<rparr>, stats)
         | Some (skip, reason) \<Rightarrow>
             (\<lparr>ag_feature = feature\<lparr>pf_skip_reason := reason\<rparr>, ag_rank_sum = 0, ag_last_rank = rank, ag_eligible = False\<rparr>,
              plan_bump skip (plan_bump Plan_dedup_hits stats)))"

definition note_rank :: "nat \<Rightarrow> aggregate \<Rightarrow> aggregate" where
  "note_rank rank a =
     (let f = ag_feature a
      in a\<lparr>ag_rank_sum := ag_rank_sum a + rank, ag_last_rank := max (ag_last_rank a) rank,
         ag_feature := f\<lparr>pf_num_candidates_on_page := pf_num_candidates_on_page f + 1,
           pf_min_pq_rank_on_page := min (pf_min_pq_rank_on_page f) rank,
           pf_contains_top1_candidate := pf_contains_top1_candidate f \<or> rank = 0,
           pf_contains_topk_candidate := pf_contains_topk_candidate f \<or> rank < kTopCandidateCutoff\<rparr>\<rparr>)"

definition aggregate_step ::
  "prefetch_planner \<Rightarrow> (u32 \<Rightarrow> page_availability) \<Rightarrow> planning_context \<Rightarrow> plan_stats \<times> (u32, aggregate) umap \<Rightarrow> nat \<times> u32 \<Rightarrow>
   plan_stats \<times> (u32, aggregate) umap" where
  "aggregate_step planner availability context = (\<lambda>(stats, aggregates) (rank, page_id).
     let stats = plan_bump Plan_dedup_requests (plan_bump Plan_page_requests_before_dedup stats);
         (a, stats) = (case um_find aggregates page_id of
            Some a \<Rightarrow> (a, stats) | None \<Rightarrow> new_aggregate planner context (availability page_id) page_id rank stats)
     in (stats, um_assign page_id (note_rank rank a) aggregates))"

record page_candidate =
  cn_feature :: prefetch_feature
  cn_eligible :: bool

definition finish_aggregate :: "aggregate \<Rightarrow> page_candidate" where
  "finish_aggregate a =
     (let f = ag_feature a;
          f = (if 0 < pf_num_candidates_on_page f
               then f\<lparr>pf_avg_pq_rank_on_page := fp_div binary64 (fp_of_nat binary64 (ag_rank_sum a))
                   (fp_of_nat binary64 (pf_num_candidates_on_page f))\<rparr> else f)
      in \<lparr>cn_feature = f\<lparr>pf_candidate_rank_span := ag_last_rank a - pf_min_pq_rank_on_page f\<rparr>, cn_eligible = ag_eligible a\<rparr>)"

section \<open>Ranking and selecting\<close>

definition score_planned :: "prefetch_planner \<Rightarrow> page_candidate \<Rightarrow> page_candidate result option" where
  "score_planned planner c =
     (case score_xgboost_model planner (cn_feature c) of
        None \<Rightarrow> None
      | Some (Inl e) \<Rightarrow> Some (Inl e)
      | Some (Inr score) \<Rightarrow> Some (Inr (c\<lparr>cn_feature := (cn_feature c)\<lparr>pf_score := finite_or_negative_infinity score\<rparr>\<rparr>)))"

fun score_all :: "prefetch_planner \<Rightarrow> page_candidate list \<Rightarrow> page_candidate list result option" where
  "score_all planner [] = Some (Inr [])"
| "score_all planner (c # cs) =
     (case score_planned planner c of
        None \<Rightarrow> None
      | Some (Inl e) \<Rightarrow> Some (Inl e)
      | Some (Inr c) \<Rightarrow> map_option (\<lambda>r. seq_result r (\<lambda>cs. Inr (c # cs))) (score_all planner cs))"

definition candidate_before :: "page_candidate \<Rightarrow> page_candidate \<Rightarrow> bool" where
  "candidate_before lhs rhs =
     (let l = cn_feature lhs; r = cn_feature rhs
      in if \<not> fp_eq binary64 (pf_score l) (pf_score r) then fp_lt binary64 (pf_score r) (pf_score l)
         else if pf_num_candidates_on_page l \<noteq> pf_num_candidates_on_page r
         then pf_num_candidates_on_page r < pf_num_candidates_on_page l
         else if pf_min_pq_rank_on_page l \<noteq> pf_min_pq_rank_on_page r
         then pf_min_pq_rank_on_page l < pf_min_pq_rank_on_page r
         else pf_page_id l < pf_page_id r)"

text \<open>The bounds of one plan.\<close>

record plan_bounds =
  pb_limit :: nat
  pb_min_reuse :: nat
  pb_inflight_limit :: nat
  pb_base_inflight :: nat
  pb_score_threshold :: nat

definition planner_top_k :: "prefetch_config \<Rightarrow> nat" where
  "planner_top_k config = (if fc_prefetch_top_k config = 0 then fc_prefetch_width config else fc_prefetch_top_k config)"

definition plan_bounds_of :: "prefetch_config \<Rightarrow> planning_context \<Rightarrow> nat \<Rightarrow> plan_bounds" where
  "plan_bounds_of config context max_pages =
     \<lparr>pb_limit = (if max_pages = 0 then planner_top_k config else max_pages),
      pb_min_reuse = max 1 (if px_min_candidates_per_page context = 0 then fc_min_candidates_per_page config
        else px_min_candidates_per_page context),
      pb_inflight_limit = (if px_max_prefetch_inflight context = 0 then fc_max_prefetch_inflight config
        else if fc_max_prefetch_inflight config = 0 then px_max_prefetch_inflight context
        else min (px_max_prefetch_inflight context) (fc_max_prefetch_inflight config)),
      pb_base_inflight = px_io_queue_depth context, pb_score_threshold = fc_score_threshold config\<rparr>"

definition refusal :: "plan_bounds \<Rightarrow> nat \<Rightarrow> prefetch_feature \<Rightarrow> (plan_counter \<times> string) option" where
  "refusal bounds planned f =
     (if pf_num_candidates_on_page f < pb_min_reuse bounds then Some (Plan_skip_low_page_reuse, ''low_page_reuse'')
      else if fp_lt binary64 (pf_score f) (pb_score_threshold bounds) then Some (Plan_skip_score_threshold, ''score_threshold'')
      else if pb_limit bounds \<le> planned then Some (Plan_skip_budget_full, ''budget_full'')
      else if pb_inflight_limit bounds \<noteq> 0 \<and> pb_inflight_limit bounds \<le> pb_base_inflight bounds + planned
      then Some (Plan_skip_inflight_full, ''inflight_full'') else None)"

definition empty_plan :: prefetch_plan where
  "empty_plan = \<lparr>pn_pages = [], pn_candidates = [], pn_stats = (\<lambda>_. 0)\<rparr>"

text \<open>One turn of the selection loop; \<open>i\<close> counts from zero.\<close>

definition select_candidate :: "plan_bounds \<Rightarrow> prefetch_plan \<times> u32 set \<Rightarrow> nat \<times> page_candidate \<Rightarrow> prefetch_plan \<times> u32 set" where
  "select_candidate bounds = (\<lambda>(plan, seen) (i, c).
     let f = (cn_feature c)\<lparr>pf_rank := i + 1\<rparr>;
         add = (\<lambda>f plan. plan\<lparr>pn_candidates := pn_candidates plan @ [f]\<rparr>)
     in if \<not> cn_eligible c then (add f plan, seen)
        else case refusal bounds (length (pn_pages plan)) f of
               Some (skip, reason) \<Rightarrow>
                 (add (f\<lparr>pf_skip_reason := reason\<rparr>) (plan\<lparr>pn_stats := plan_bump skip (pn_stats plan)\<rparr>), seen)
             | None \<Rightarrow> (add (f\<lparr>pf_selected := True\<rparr>) (plan\<lparr>pn_pages := pn_pages plan @ [pf_page_id f]\<rparr>),
                 insert (pf_page_id f) seen))"

text \<open>The best page refused for low reuse alone, when nothing else was planned.\<close>

fun reuse_fallback ::
  "plan_bounds \<Rightarrow> prefetch_feature list \<Rightarrow> prefetch_feature list \<Rightarrow> prefetch_plan \<times> u32 set \<Rightarrow> prefetch_plan \<times> u32 set" where
  "reuse_fallback bounds passed [] (plan, seen) = (plan, seen)"
| "reuse_fallback bounds passed (f # fs) (plan, seen) =
     (if pf_skip_reason f \<noteq> ''low_page_reuse'' \<or> fp_lt binary64 (pf_score f) (pb_score_threshold bounds)
      then reuse_fallback bounds (passed @ [f]) fs (plan, seen)
      else if pb_inflight_limit bounds \<noteq> 0 \<and> pb_inflight_limit bounds \<le> pb_base_inflight bounds
      then (plan\<lparr>pn_stats := plan_bump Plan_skip_inflight_full (pn_stats plan)\<rparr>, seen)
      else (plan\<lparr>pn_candidates := passed @ f\<lparr>pf_skip_reason := [], pf_selected := True\<rparr> # fs,
              pn_pages := pn_pages plan @ [pf_page_id f],
              pn_stats := (pn_stats plan)(Plan_skip_low_page_reuse := pn_stats plan Plan_skip_low_page_reuse - 1)\<rparr>,
            insert (pf_page_id f) seen))"

definition rank_and_throttle ::
  "prefetch_planner \<Rightarrow> page_candidate list \<Rightarrow> nat \<Rightarrow> bool \<Rightarrow> planning_context \<Rightarrow> plan_stats \<Rightarrow>
   (prefetch_plan \<times> prefetch_planner) result option" where
  "rank_and_throttle planner candidates max_pages allow_low_reuse_fallback context stats =
     (if candidates = [] then Some (Inr (empty_plan\<lparr>pn_stats := stats\<rparr>, planner))
      else (let bounds = plan_bounds_of (pl_config planner) context max_pages
            in map_option (\<lambda>r. seq_result r (\<lambda>candidates.
                 let ranked = std_sort candidate_before candidates;
                     (plan, seen) = foldl (select_candidate bounds) (empty_plan\<lparr>pn_stats := stats\<rparr>, pl_seen_pages planner)
                       (enumerate 0 ranked);
                     (plan, seen) = (if pn_pages plan = [] \<and> allow_low_reuse_fallback
                        then reuse_fallback bounds [] (pn_candidates plan) (plan, seen) else (plan, seen))
                 in Inr (plan, planner\<lparr>pl_seen_pages := seen\<rparr>)))
               (score_all planner candidates)))"

section \<open>Planning\<close>

definition plan_coalesced_candidates ::
  "prefetch_planner \<Rightarrow> u32 list \<Rightarrow> (u32 \<Rightarrow> page_availability) \<Rightarrow> nat \<Rightarrow> bool \<Rightarrow> planning_context \<Rightarrow>
   (prefetch_plan \<times> prefetch_planner) result option" where
  "plan_coalesced_candidates planner page_ids availability max_pages allow_low_reuse_fallback context =
     (let (stats, aggregates) = foldl (aggregate_step planner availability context) (\<lambda>_. 0, um_empty) (enumerate 0 page_ids)
      in rank_and_throttle planner (map (finish_aggregate \<circ> snd) (um_items aggregates)) max_pages
           allow_low_reuse_fallback context stats)"

definition plan_candidates ::
  "prefetch_planner \<Rightarrow> u32 list \<Rightarrow> (u32 \<Rightarrow> page_availability) \<Rightarrow> nat \<Rightarrow> bool \<Rightarrow> planning_context \<Rightarrow>
   (prefetch_plan \<times> prefetch_planner) result option" where
  "plan_candidates planner page_ids availability max_pages allow_low_reuse_fallback context =
     (let limit = (if max_pages = 0 then planner_top_k (pl_config planner) else max_pages)
      in if limit = 0 \<or> fc_prefetch_depth (pl_config planner) = 0 then Some (Inr (empty_plan, planner))
         else plan_coalesced_candidates planner page_ids availability limit allow_low_reuse_fallback context)"

definition frontier_enabled :: "prefetch_planner \<Rightarrow> bool" where
  "frontier_enabled planner \<longleftrightarrow> fc_policy (pl_config planner) = ''xgboost''"

definition plan_frontier ::
  "prefetch_planner \<Rightarrow> u32 list \<Rightarrow> (u32 \<Rightarrow> page_availability) \<Rightarrow> planning_context \<Rightarrow>
   (prefetch_plan \<times> prefetch_planner) result option" where
  "plan_frontier planner page_ids availability context =
     (if \<not> frontier_enabled planner \<or> planner_top_k (pl_config planner) = 0 \<or> fc_prefetch_depth (pl_config planner) = 0
      then Some (Inr (empty_plan, planner))
      else plan_candidates planner page_ids availability 0 True context)"

section \<open>What is planned\<close>

definition plannable :: "prefetch_planner \<Rightarrow> (u32 \<Rightarrow> page_availability) \<Rightarrow> u32 \<Rightarrow> bool" where
  "plannable planner availability p \<longleftrightarrow>
     \<not> av_cached (availability p) \<and> \<not> av_pending (availability p) \<and> \<not> av_ready (availability p) \<and>
     \<not> av_materialized (availability p) \<and> p \<notin> pl_seen_pages planner"

lemma ruled_out_cases:
  "ruled_out (availability p) (p \<in> pl_seen_pages planner) = None \<longleftrightarrow> plannable planner availability p"
  "ruled_out state seen = Some (skip, reason) \<Longrightarrow> reason \<noteq> [] \<and> reason \<noteq> ''low_page_reuse''"
  by (auto simp: ruled_out_def plannable_def split: if_splits)

definition open_feature :: "prefetch_planner \<Rightarrow> (u32 \<Rightarrow> page_availability) \<Rightarrow> bool \<Rightarrow> prefetch_feature \<Rightarrow> bool" where
  "open_feature planner availability eligible f \<longleftrightarrow> \<not> pf_selected f \<and>
     (if eligible then pf_skip_reason f = [] \<and> plannable planner availability (pf_page_id f)
      else pf_skip_reason f \<noteq> [] \<and> pf_skip_reason f \<noteq> ''low_page_reuse'')"

definition aggregates_ok :: "prefetch_planner \<Rightarrow> (u32 \<Rightarrow> page_availability) \<Rightarrow> (u32, aggregate) umap \<Rightarrow> bool" where
  "aggregates_ok planner availability aggregates \<longleftrightarrow> um_ok aggregates \<and>
     (\<forall>p a. um_find aggregates p = Some a \<longrightarrow>
        pf_page_id (ag_feature a) = p \<and> open_feature planner availability (ag_eligible a) (ag_feature a))"

lemma new_aggregate_ok:
  assumes "new_aggregate planner context (availability p) p rank stats = (a, stats')"
  shows "pf_page_id (ag_feature a) = p \<and> open_feature planner availability (ag_eligible a) (ag_feature a)"
  using assms ruled_out_cases(1)[of availability p planner] ruled_out_cases(2)[of "availability p"]
  by (auto simp: new_aggregate_def new_feature_def open_feature_def Let_def split: option.splits)

lemma note_rank_ok [simp]:
  "pf_page_id (ag_feature (note_rank rank a)) = pf_page_id (ag_feature a)"
  "ag_eligible (note_rank rank a) = ag_eligible a"
  "open_feature planner availability e (ag_feature (note_rank rank a)) = open_feature planner availability e (ag_feature a)"
  by (simp_all add: note_rank_def open_feature_def Let_def)

lemma aggregate_step_ok:
  assumes "aggregates_ok planner availability m" and "aggregate_step planner availability context (stats, m) (rank, p) = (stats', m')"
  shows "aggregates_ok planner availability m' \<and> {q. um_find m' q \<noteq> None} = insert p {q. um_find m q \<noteq> None}"
proof -
  have ok: "um_ok m" using assms(1) by (simp add: aggregates_ok_def)
  obtain a where m': "m' = um_assign p (note_rank rank a) m"
    and a: "pf_page_id (ag_feature a) = p" "open_feature planner availability (ag_eligible a) (ag_feature a)"
  proof (cases "um_find m p")
    case None
    obtain b t where b: "new_aggregate planner context (availability p) p rank
        (plan_bump Plan_dedup_requests (plan_bump Plan_page_requests_before_dedup stats)) = (b, t)" by fastforce
    then show thesis using that[of b] assms(2) None new_aggregate_ok[of planner "context" availability p, OF b] by (simp add: aggregate_step_def Let_def)
  next
    case (Some b)
    then show thesis using that[of b] assms by (auto simp: aggregate_step_def aggregates_ok_def Let_def)
  qed
  show ?thesis using assms(1) a unfolding m' aggregates_ok_def
    by (auto simp: um.lkp_assign[OF ok] um.ok_assign[OF ok] split: if_splits)
qed

lemma aggregates_gathered:
  assumes "foldl (aggregate_step planner availability context) (stats, m) (enumerate k page_ids) = (stats', m')"
    and "aggregates_ok planner availability m"
  shows "aggregates_ok planner availability m' \<and> {q. um_find m' q \<noteq> None} = {q. um_find m q \<noteq> None} \<union> set page_ids"
  using assms
proof (induction page_ids arbitrary: k stats m)
  case (Cons p ps)
  obtain stats1 m1 where 1: "aggregate_step planner availability context (stats, m) (k, p) = (stats1, m1)" by fastforce
  note step = aggregate_step_ok[OF Cons.prems(2) 1]
  have "foldl (aggregate_step planner availability context) (stats1, m1) (enumerate (Suc k) ps) = (stats', m')"
    using Cons.prems(1) 1 by simp
  from Cons.IH[OF this] step show ?case by auto
qed simp

abbreviation cn_page :: "page_candidate \<Rightarrow> u32" where
  "cn_page c \<equiv> pf_page_id (cn_feature c)"

definition candidates_ok :: "prefetch_planner \<Rightarrow> (u32 \<Rightarrow> page_availability) \<Rightarrow> page_candidate list \<Rightarrow> bool" where
  "candidates_ok planner availability cs \<longleftrightarrow> distinct (map cn_page cs) \<and>
     (\<forall>c\<in>set cs. open_feature planner availability (cn_eligible c) (cn_feature c))"

lemma finish_aggregate_simps [simp]:
  "cn_page (finish_aggregate a) = pf_page_id (ag_feature a)" "cn_eligible (finish_aggregate a) = ag_eligible a"
  "open_feature planner availability e (cn_feature (finish_aggregate a)) = open_feature planner availability e (ag_feature a)"
  by (simp_all add: finish_aggregate_def open_feature_def Let_def)

lemma gathered_candidates:
  assumes "aggregates_ok planner availability m"
  shows "candidates_ok planner availability (map (finish_aggregate \<circ> snd) (um_items m)) \<and>
    set (map cn_page (map (finish_aggregate \<circ> snd) (um_items m))) = {q. um_find m q \<noteq> None}"
proof -
  have ok: "um_ok m" using assms by (simp add: aggregates_ok_def)
  have at: "pf_page_id (ag_feature (snd x)) = fst x \<and> open_feature planner availability (ag_eligible (snd x)) (ag_feature (snd x))"
    if "x \<in> set (um_items m)" for x
    using that assms um.items_lkp[OF ok, of "fst x" "snd x"] by (simp add: aggregates_ok_def)
  then have "map cn_page (map (finish_aggregate \<circ> snd) (um_items m)) = map fst (um_items m)" by simp
  moreover have "set (map fst (um_items m)) = {q. um_find m q \<noteq> None}"
  proof -
    have "set (map fst (um_items m)) = {q. \<exists>a. (q, a) \<in> set (um_items m)}" by force
    then show ?thesis by (simp add: um.items_lkp[OF ok])
  qed
  ultimately show ?thesis using at um.items_distinct[OF ok] unfolding candidates_ok_def by (auto simp del: map_map)
qed

text \<open>Scoring and sorting keep the candidates.\<close>

definition same_candidate :: "page_candidate \<Rightarrow> page_candidate \<Rightarrow> bool" where
  "same_candidate c c' \<longleftrightarrow> (\<exists>score. c' = c\<lparr>cn_feature := (cn_feature c)\<lparr>pf_score := score\<rparr>\<rparr> \<and> \<not> fp_nan binary64 score)"

lemma finite_not_nan: "\<not> fp_nan binary64 (finite_or_negative_infinity x)"
  by (simp add: finite_or_negative_infinity_def fp_finite_not_nan) (simp add: fp_nan_def)

lemma score_all_same: "score_all planner cs = Some (Inr cs') \<Longrightarrow> list_all2 same_candidate cs cs'"
proof (induction cs arbitrary: cs')
  case (Cons c cs)
  then show ?case
    by (auto simp: score_planned_def same_candidate_def finite_not_nan seq_result_Inr_iff split: option.splits sum.splits)
qed simp

lemma same_candidate_simps:
  assumes "same_candidate c c'"
  shows "cn_page c' = cn_page c" "cn_eligible c' = cn_eligible c" "\<not> fp_nan binary64 (pf_score (cn_feature c'))"
    "open_feature planner availability e (cn_feature c') = open_feature planner availability e (cn_feature c)"
  using assms by (auto simp: same_candidate_def open_feature_def)

lemma scored_candidates:
  assumes "list_all2 same_candidate cs cs'" and "candidates_ok planner availability cs"
  shows "candidates_ok planner availability cs'" "map cn_page cs' = map cn_page cs"
    "\<forall>c\<in>set cs'. \<not> fp_nan binary64 (pf_score (cn_feature c))"
proof -
  show pages: "map cn_page cs' = map cn_page cs"
    using assms(1) by (induction cs cs' rule: list_all2_induct) (simp_all add: same_candidate_simps(1))
  have each: "open_feature planner availability (cn_eligible c') (cn_feature c') \<and> \<not> fp_nan binary64 (pf_score (cn_feature c'))"
    if c': "c' \<in> set cs'" for c'
  proof -
    obtain j where "j < length cs'" "c' = cs' ! j" using c' by (auto simp: in_set_conv_nth)
    then have same: "same_candidate (cs ! j) c'" and "cs ! j \<in> set cs" using assms(1) by (auto simp: list_all2_conv_all_nth)
    then have "open_feature planner availability (cn_eligible (cs ! j)) (cn_feature (cs ! j))"
      using assms(2) by (simp add: candidates_ok_def)
    then show ?thesis using same_candidate_simps(2-4)[OF same] by simp
  qed
  show "candidates_ok planner availability cs'" using assms(2) each unfolding candidates_ok_def pages by blast
  show "\<forall>c\<in>set cs'. \<not> fp_nan binary64 (pf_score (cn_feature c))" using each by blast
qed

lemma ranked_in_order:
  assumes "candidates_ok planner availability cs"
  shows "candidates_ok planner availability (std_sort candidate_before cs)"
    "set (map cn_page (std_sort candidate_before cs)) = set (map cn_page cs)"
proof -
  have "mset (map cn_page (std_sort candidate_before cs)) = mset (map cn_page cs)" by simp
  from mset_eq_imp_distinct_iff[OF this] show "candidates_ok planner availability (std_sort candidate_before cs)"
    using assms by (simp add: candidates_ok_def)
qed simp

section \<open>What is selected\<close>

text \<open>
  \<open>settled\<close>: a candidate that has passed the selection is planned, with a page that may be planned
  and a score that passes the threshold, or it says why not.
\<close>

definition settled :: "prefetch_planner \<Rightarrow> (u32 \<Rightarrow> page_availability) \<Rightarrow> plan_bounds \<Rightarrow> prefetch_feature \<Rightarrow> bool" where
  "settled planner availability bounds f \<longleftrightarrow>
     (if pf_selected f then pf_skip_reason f = [] \<and> \<not> fp_lt binary64 (pf_score f) (pb_score_threshold bounds)
      else pf_skip_reason f \<noteq> []) \<and>
     (pf_selected f \<or> pf_skip_reason f = ''low_page_reuse'' \<longrightarrow> plannable planner availability (pf_page_id f))"

definition plan_inv ::
  "prefetch_planner \<Rightarrow> (u32 \<Rightarrow> page_availability) \<Rightarrow> plan_bounds \<Rightarrow> u32 list \<Rightarrow> prefetch_plan \<times> u32 set \<Rightarrow> bool" where
  "plan_inv planner availability bounds ids = (\<lambda>(plan, seen).
     map pf_page_id (pn_candidates plan) = ids \<and>
     pn_pages plan = map pf_page_id (filter pf_selected (pn_candidates plan)) \<and>
     (\<forall>f\<in>set (pn_candidates plan). settled planner availability bounds f) \<and>
     seen = pl_seen_pages planner \<union> set (pn_pages plan) \<and> length (pn_pages plan) \<le> pb_limit bounds \<and>
     (pb_inflight_limit bounds \<noteq> 0 \<and> pn_pages plan \<noteq> [] \<longrightarrow>
        pb_base_inflight bounds + length (pn_pages plan) \<le> pb_inflight_limit bounds))"

lemma refusal_reasons:
  "refusal bounds n f = Some (skip, reason) \<Longrightarrow> reason \<noteq> []"
  by (auto simp: refusal_def split: if_splits)

lemma refusal_None:
  "refusal bounds n f = None \<Longrightarrow> \<not> fp_lt binary64 (pf_score f) (pb_score_threshold bounds) \<and> n < pb_limit bounds \<and>
    (pb_inflight_limit bounds \<noteq> 0 \<longrightarrow> pb_base_inflight bounds + n < pb_inflight_limit bounds)"
  by (auto simp: refusal_def not_le split: if_splits)

lemma select_inv:
  assumes inv: "plan_inv planner availability bounds ids ps"
    and c: "open_feature planner availability (cn_eligible c) (cn_feature c)"
  shows "plan_inv planner availability bounds (ids @ [cn_page c]) (select_candidate bounds ps (i, c))"
proof -
  obtain plan seen where ps: "ps = (plan, seen)" by fastforce
  let ?f = "(cn_feature c)\<lparr>pf_rank := i + 1\<rparr>"
  show ?thesis
  proof (cases "cn_eligible c")
    case False
    then show ?thesis using inv c by (auto simp: ps select_candidate_def plan_inv_def settled_def open_feature_def Let_def)
  next
    case eligible: True
    have f: "\<not> pf_selected ?f" "pf_skip_reason ?f = []" "plannable planner availability (pf_page_id ?f)"
      using c eligible by (simp_all add: open_feature_def)
    show ?thesis
    proof (cases "refusal bounds (length (pn_pages plan)) ?f")
      case None
      then show ?thesis using inv eligible f refusal_None[OF None]
        by (auto simp: ps select_candidate_def plan_inv_def settled_def Let_def)
    next
      case (Some r)
      obtain skip reason where r: "r = (skip, reason)" by fastforce
      show ?thesis using inv eligible f refusal_reasons[OF Some[unfolded r]] Some r
        by (auto simp: ps select_candidate_def plan_inv_def settled_def Let_def)
    qed
  qed
qed

lemma select_all_inv:
  assumes "plan_inv planner availability bounds ids ps"
    and "\<forall>c\<in>set cs. open_feature planner availability (cn_eligible c) (cn_feature c)"
  shows "plan_inv planner availability bounds (ids @ map cn_page cs) (foldl (select_candidate bounds) ps (enumerate k cs))"
  using assms
proof (induction cs arbitrary: k ps ids)
  case (Cons c cs)
  show ?case using Cons.IH[OF select_inv[OF Cons.prems(1), of c k], of "Suc k"] Cons.prems(2) by simp
qed simp

lemma fallback_inv:
  assumes "plan_inv planner availability bounds ids (plan, seen)" and "pn_pages plan = []" and "0 < pb_limit bounds"
    and "pn_candidates plan = passed @ fs"
  shows "plan_inv planner availability bounds ids (reuse_fallback bounds passed fs (plan, seen))"
  using assms(4)
proof (induction fs arbitrary: passed)
  case (Cons f fs)
  show ?case
  proof (cases "pf_skip_reason f \<noteq> ''low_page_reuse'' \<or> fp_lt binary64 (pf_score f) (pb_score_threshold bounds)")
    case True
    then show ?thesis using Cons by simp
  next
    case False
    then show ?thesis using assms(1-3) Cons.prems
      by (auto simp: plan_inv_def settled_def filter_empty_conv)
  qed
qed (use assms(1) in simp)

lemma plan_candidates_inv:
  assumes "plan_candidates planner page_ids availability max_pages allow context = Some (Inr (plan, planner'))"
  shows "plan = empty_plan \<and> planner' = planner \<or>
    (\<exists>ids bounds. bounds = plan_bounds_of (pl_config planner) context max_pages \<and> 0 < pb_limit bounds \<and>
       distinct ids \<and> set ids = set page_ids \<and> plan_inv planner availability bounds ids (plan, pl_seen_pages planner') \<and>
       planner' = planner\<lparr>pl_seen_pages := pl_seen_pages planner'\<rparr>)"
proof -
  let ?limit = "if max_pages = 0 then planner_top_k (pl_config planner) else max_pages"
  show ?thesis
  proof (cases "?limit = 0 \<or> fc_prefetch_depth (pl_config planner) = 0")
    case True
    then show ?thesis using assms by (auto simp: plan_candidates_def Let_def)
  next
    case False
    define bounds where "bounds = plan_bounds_of (pl_config planner) context max_pages"
    have same_bounds: "plan_bounds_of (pl_config planner) context ?limit = bounds" and limit: "0 < pb_limit bounds"
      using False by (auto simp: plan_bounds_of_def bounds_def)
    obtain stats m where m: "foldl (aggregate_step planner availability context) (\<lambda>_. 0, um_empty) (enumerate 0 page_ids) = (stats, m)"
      by fastforce
    have "aggregates_ok planner availability (um_empty :: (u32, aggregate) umap)"
      by (simp add: aggregates_ok_def um.ok_empty um.lkp_empty)
    from aggregates_gathered[OF m this]
    have gathered: "aggregates_ok planner availability m" "{q. um_find m q \<noteq> None} = set page_ids" by (simp_all add: um.lkp_empty)
    let ?cs = "map (finish_aggregate \<circ> snd) (um_items m)"
    note cs = gathered_candidates[OF gathered(1), unfolded gathered(2)]
    have run: "rank_and_throttle planner ?cs ?limit allow context stats = Some (Inr (plan, planner'))"
      using assms False m by (simp add: plan_candidates_def plan_coalesced_candidates_def Let_def split: if_splits)
    show ?thesis
    proof (cases "?cs = []")
      case True
      then have "set page_ids = {}" using cs by simp
      then have "m = um_empty \<and> stats = (\<lambda>_. 0)" using m by simp
      then show ?thesis using run by (simp add: rank_and_throttle_def empty_plan_def um_items_def um_empty_def)
    next
      case ne: False
      obtain scored where scored: "score_all planner ?cs = Some (Inr scored)"
        using run ne by (auto simp: rank_and_throttle_def Let_def seq_result_Inr_iff)
      let ?ranked = "std_sort candidate_before scored"
      note same = scored_candidates[OF score_all_same[OF scored] conjunct1[OF cs]]
      note sorted = ranked_in_order[OF same(1)]
      have pages: "distinct (map cn_page ?ranked)" "set (map cn_page ?ranked) = set page_ids"
        using sorted same(2) cs by (simp_all add: candidates_ok_def)
      obtain plan1 seen1 where sel: "foldl (select_candidate bounds) (empty_plan\<lparr>pn_stats := stats\<rparr>, pl_seen_pages planner)
          (enumerate 0 ?ranked) = (plan1, seen1)" by fastforce
      have "plan_inv planner availability bounds [] (empty_plan\<lparr>pn_stats := stats\<rparr>, pl_seen_pages planner)"
        by (simp add: plan_inv_def empty_plan_def)
      from select_all_inv[OF this, of ?ranked 0] sorted(1) sel
      have inv1: "plan_inv planner availability bounds (map cn_page ?ranked) (plan1, seen1)" by (simp add: candidates_ok_def)
      obtain plan2 seen2 where fin: "(if pn_pages plan1 = [] \<and> allow
          then reuse_fallback bounds [] (pn_candidates plan1) (plan1, seen1) else (plan1, seen1)) = (plan2, seen2)" by fastforce
      have inv2: "plan_inv planner availability bounds (map cn_page ?ranked) (plan2, seen2)"
        using fin inv1 fallback_inv[OF inv1 _ limit, of "[]" "pn_candidates plan1"] by (auto split: if_splits)
      have "plan = plan2 \<and> planner' = planner\<lparr>pl_seen_pages := seen2\<rparr>"
        using run ne scored sel fin by (auto simp: rank_and_throttle_def same_bounds Let_def split: prod.splits)
      then show ?thesis using inv2 limit pages unfolding bounds_def[symmetric] by auto
    qed
  qed
qed

text \<open>
  C18: what a plan may hold. The pages of a plan are different pages of the request; none is
  cached, pending, ready or materialised, and none was in an earlier plan; they are at most the
  limit, and with the reads under way at most the bound on reads in flight. Every page of the
  request appears once among the candidates, selected with a score that passes the threshold or
  with a reason, and exactly the selected ones are planned and remembered.
\<close>

theorem planned_pages_valid:
  assumes "plan_candidates planner page_ids availability max_pages allow context = Some (Inr (plan, planner'))"
    and "bounds = plan_bounds_of (pl_config planner) context max_pages"
  shows "distinct (pn_pages plan) \<and> set (pn_pages plan) \<subseteq> set page_ids \<and>
    (\<forall>p\<in>set (pn_pages plan). plannable planner availability p) \<and>
    length (pn_pages plan) \<le> pb_limit bounds \<and>
    (pb_inflight_limit bounds \<noteq> 0 \<and> pn_pages plan \<noteq> [] \<longrightarrow>
       px_io_queue_depth context + length (pn_pages plan) \<le> pb_inflight_limit bounds) \<and>
    planner' = planner\<lparr>pl_seen_pages := pl_seen_pages planner \<union> set (pn_pages plan)\<rparr> \<and>
    (pn_candidates plan = [] \<or> distinct (map pf_page_id (pn_candidates plan)) \<and>
       set (map pf_page_id (pn_candidates plan)) = set page_ids) \<and>
    pn_pages plan = map pf_page_id (filter pf_selected (pn_candidates plan)) \<and>
    (\<forall>f\<in>set (pn_candidates plan). if pf_selected f then \<not> fp_lt binary64 (pf_score f) (fc_score_threshold (pl_config planner))
       else pf_skip_reason f \<noteq> [])"
  using plan_candidates_inv[OF assms(1)]
proof (elim disjE exE conjE)
  assume "plan = empty_plan" "planner' = planner"
  then show ?thesis by (simp add: empty_plan_def)
next
  fix ids bounds'
  assume b: "bounds' = plan_bounds_of (pl_config planner) context max_pages" and ids: "distinct ids" "set ids = set page_ids"
    and inv: "plan_inv planner availability bounds' ids (plan, pl_seen_pages planner')"
    and seen: "planner' = planner\<lparr>pl_seen_pages := pl_seen_pages planner'\<rparr>"
  have fixed: "pb_base_inflight bounds' = px_io_queue_depth context" "pb_score_threshold bounds' = fc_score_threshold (pl_config planner)"
    "bounds' = bounds" by (simp_all add: b plan_bounds_of_def assms(2))
  have all: "map pf_page_id (pn_candidates plan) = ids" and pages: "pn_pages plan = map pf_page_id (filter pf_selected (pn_candidates plan))"
    and each: "\<forall>f\<in>set (pn_candidates plan). settled planner availability bounds' f"
    and rest: "pl_seen_pages planner' = pl_seen_pages planner \<union> set (pn_pages plan)" "length (pn_pages plan) \<le> pb_limit bounds'"
      "pb_inflight_limit bounds' \<noteq> 0 \<and> pn_pages plan \<noteq> [] \<longrightarrow> pb_base_inflight bounds' + length (pn_pages plan) \<le> pb_inflight_limit bounds'"
    using inv unfolding plan_inv_def prod.case by blast+
  have "distinct (pn_pages plan)" unfolding pages using ids(1) all by (auto simp: distinct_map intro: inj_on_subset)
  moreover have "set (pn_pages plan) \<subseteq> set page_ids" unfolding pages ids(2)[symmetric] all[symmetric] by auto
  moreover have "\<forall>p\<in>set (pn_pages plan). plannable planner availability p" using each unfolding pages by (auto simp: settled_def)
  moreover have "\<forall>f\<in>set (pn_candidates plan). if pf_selected f then \<not> fp_lt binary64 (pf_score f) (fc_score_threshold (pl_config planner))
       else pf_skip_reason f \<noteq> []" using each fixed(2) by (auto simp: settled_def)
  ultimately show ?thesis using rest pages ids all seen fixed(1) unfolding fixed(3) by metis
qed

section \<open>Walks through the trees\<close>

text \<open>A tree as the trainer dumps it: a root, and children numbered after their parent.\<close>

definition tree_ok :: "xgb_tree \<Rightarrow> bool" where
  "tree_ok tree \<longleftrightarrow> um_find tree 0 \<noteq> None \<and>
     (\<forall>i node. um_find tree i = Some node \<and> \<not> xn_leaf node \<longrightarrow>
        (\<forall>j\<in>{xn_yes node, xn_no node, xn_missing node}. i < j \<and> um_find tree j \<noteq> None))"

lemma next_node_child: "next_node f node \<in> {xn_yes node, xn_no node, xn_missing node}"
  by (simp add: next_node_def Let_def)

lemma walk_ends:
  assumes "tree_ok tree" and "um_find tree i \<noteq> None"
  shows "\<exists>v. walk_tree tree f i = Some (Inr v)"
  using assms(2)
proof (induction "card {j. i < j \<and> um_find tree j \<noteq> None}" arbitrary: i rule: less_induct)
  case less
  obtain node where node: "um_find tree i = Some node" using less.prems by blast
  show ?case
  proof (cases "xn_leaf node")
    case True
    then show ?thesis using node by (subst walk_tree.simps) simp
  next
    case False
    let ?j = "next_node f node"
    have j: "i < ?j" "um_find tree ?j \<noteq> None"
      using assms(1) node False next_node_child[of f node] by (auto simp: tree_ok_def)
    have "finite {k. um_find tree k \<noteq> None}" unfolding um_find_def using finite_dom_map_of[of tree] by (simp add: dom_def)
    then have fin: "finite {k. i < k \<and> um_find tree k \<noteq> None}" by (rule finite_subset[rotated]) blast
    have "{k. ?j < k \<and> um_find tree k \<noteq> None} \<subset> {k. i < k \<and> um_find tree k \<noteq> None}" using j by auto
    from less.hyps[OF psubset_card_mono[OF fin this] j(2)] show ?thesis
      using node False by (subst walk_tree.simps) simp
  qed
qed

lemma sum_trees_ends: "\<forall>tree\<in>set trees. tree_ok tree \<Longrightarrow> \<exists>v. sum_trees trees f score = Some (Inr v)"
proof (induction trees arbitrary: score)
  case (Cons tree trees)
  then have ok: "tree_ok tree" by simp
  then obtain v where "walk_tree tree f 0 = Some (Inr v)" using walk_ends[OF ok, of 0 f] by (auto simp: tree_ok_def)
  then show ?case using Cons by simp
qed simp

lemma score_all_ends:
  assumes "\<forall>tree\<in>set (pl_trees planner). tree_ok tree"
  shows "\<exists>scored. score_all planner cs = Some (Inr scored)"
proof (induction cs)
  case (Cons c cs)
  obtain v where "score_xgboost_model planner (cn_feature c) = Some (Inr v)"
    using sum_trees_ends[OF assms] unfolding score_xgboost_model_def by blast
  then show ?case using Cons by (auto simp: score_planned_def)
qed simp

lemma plan_total:
  assumes "\<forall>tree\<in>set (pl_trees planner). tree_ok tree"
  shows "\<exists>plan planner'. plan_candidates planner page_ids availability max_pages allow context = Some (Inr (plan, planner'))"
proof -
  have ranked: "\<exists>plan planner'. rank_and_throttle planner cs limit allow context stats = Some (Inr (plan, planner'))" for cs limit stats
    using score_all_ends[OF assms, of cs] by (auto simp: rank_and_throttle_def Let_def split: prod.splits)
  show ?thesis by (auto simp: plan_candidates_def plan_coalesced_candidates_def Let_def ranked split: prod.splits)
qed

text \<open>
  C19: planning returns. With a model whose trees have a root and number every child after its
  parent, as the trainer writes them, every request yields a plan, without an exception.
\<close>

theorem plan_returns:
  assumes "\<forall>tree\<in>set (pl_trees planner). tree_ok tree"
  shows "\<exists>plan planner'. plan_candidates planner page_ids availability max_pages allow context = Some (Inr (plan, planner'))"
  using assms by (rule plan_total)

text \<open>A node that is its own child is never left.\<close>

lemma walk_self_loop:
  assumes "um_find tree i = Some node" and "\<not> xn_leaf node" and "xn_yes node = i" "xn_no node = i" "xn_missing node = i"
  shows "walk_tree tree f i = None"
proof -
  have "t = tree \<longrightarrow> j \<noteq> i" if "walk_tree t g j = Some r" for t g j r
  proof (rule walk_tree.raw_induct[where P = "\<lambda>t g j r. t = tree \<longrightarrow> j \<noteq> i", OF _ that])
    fix walk t g j r
    assume stays: "\<And>t g j r. walk t g j = Some r \<Longrightarrow> t = tree \<longrightarrow> j \<noteq> i"
      and step: "(case um_find t j of None \<Rightarrow> Some (Inl (Runtime_error ''XGBoost prefetch model references missing node''))
        | Some node \<Rightarrow> if xn_leaf node then Some (Inr (xn_leaf_value node)) else walk t g (next_node g node)) = Some r"
    have stay: "next_node g node = i" using assms(3-5) next_node_child[of g node] by simp
    show "t = tree \<longrightarrow> j \<noteq> i"
    proof (intro impI notI)
      assume at: "t = tree" "j = i"
      then have "walk tree g i = Some r" using step assms(1,2) stay by simp
      then show False using stays by blast
    qed
  qed
  then show ?thesis by (cases "walk_tree tree f i") auto
qed

end
