(* ===== verification/PrefetchModel.thy ===== *)
theory PrefetchModel
  imports PrefetchPlanner JsonText
begin

text \<open>
  The constructor of \<open>PrefetchPlanner\<close> and its parser for the text dump of a boosted tree model:
  one node per line, \<open>id:leaf=value\<close> or \<open>id:[feature<threshold] yes=a,no=b,missing=c\<close>, under
  headings \<open>booster[n]:\<close>; \<open>#\<close> starts a comment. \<open>std::stoi\<close> and \<open>std::stod\<close> throw on text without
  a number and on numbers out of range.
\<close>

section \<open>Numbers\<close>

text \<open>An optional sign.\<close>

definition split_sign :: "string \<Rightarrow> bool \<times> string" where
  "split_sign s = (case s of [] \<Rightarrow> (False, s)
     | c # cs \<Rightarrow> if c = CHR ''-'' then (True, cs) else if c = CHR ''+'' then (False, cs) else (False, s))"

definition std_stoi :: "string \<Rightarrow> int result" where
  "std_stoi s =
     (let (neg, rest) = split_sign (dropWhile is_space s);
          ds = takeWhile is_digit rest;
          v = (if neg then - int (digits_value ds) else int (digits_value ds))
      in if ds = [] then Inl (Invalid_argument ''stoi'')
         else if v < - (2 ^ 31) \<or> 2 ^ 31 \<le> v then Inl (Out_of_range ''stoi'') else Inr v)"

definition lower_char :: "char \<Rightarrow> char" where
  "lower_char c = (if 65 \<le> (of_char c :: nat) \<and> (of_char c :: nat) \<le> 90 then char_of ((of_char c :: nat) + 32) else c)"

definition has_word :: "string \<Rightarrow> string \<Rightarrow> bool" where
  "has_word w s \<longleftrightarrow> map lower_char (take (length w) s) = w"

definition is_hex :: "char \<Rightarrow> bool" where
  "is_hex c \<longleftrightarrow> is_digit c \<or> (97 \<le> (of_char (lower_char c) :: nat) \<and> (of_char (lower_char c) :: nat) \<le> 102)"

definition hex_value :: "string \<Rightarrow> nat" where
  "hex_value s = foldl (\<lambda>v c. 16 * v + (if is_digit c then of_char c - 48 else of_char (lower_char c) - 87)) 0 s"

text \<open>Digits with an optional point: all digits, how many stood after the point, and the rest.\<close>

definition split_point :: "(char \<Rightarrow> bool) \<Rightarrow> string \<Rightarrow> string \<times> nat \<times> string" where
  "split_point digit s =
     (let whole = takeWhile digit s; rest = dropWhile digit s
      in if rest \<noteq> [] \<and> hd rest = CHR ''.''
         then (let frac = takeWhile digit (tl rest) in (whole @ frac, length frac, dropWhile digit (tl rest)))
         else (whole, 0, rest))"

text \<open>An exponent that has no digits is no exponent.\<close>

definition exponent_after :: "char \<Rightarrow> string \<Rightarrow> int" where
  "exponent_after mark s =
     (if s = [] \<or> lower_char (hd s) \<noteq> mark then 0
      else (let (neg, rest) = split_sign (tl s); ds = takeWhile is_digit rest
            in if neg then - int (digits_value ds) else int (digits_value ds)))"

text \<open>
  The double nearest to \<open>m * base ^ e\<close>. Too large a number, or one so small that the result is
  subnormal and inexact, is out of range.
\<close>

definition nearest_double :: "bool \<Rightarrow> nat \<Rightarrow> nat \<Rightarrow> int \<Rightarrow> nat result" where
  "nearest_double neg base m e =
     (let num = (if 0 \<le> e then m * base ^ nat e else m);
          den = (if 0 \<le> e then 1 else base ^ nat (- e));
          r = fp_round binary64 (num * 2 ^ 1074) den
      in if r = inf_mag binary64 \<or> (num * 2 ^ 1076 < (2 ^ 54 - 1) * den \<and> num * 2 ^ 1074 mod den \<noteq> 0)
         then Inl (Out_of_range ''stod'') else Inr (fp_make binary64 neg r))"

definition std_stod :: "string \<Rightarrow> nat result" where
  "std_stod s =
     (let (neg, s) = split_sign (dropWhile is_space s)
      in if has_word ''inf'' s then Inr (fp_make binary64 neg (inf_mag binary64))
         else if has_word ''nan'' s then Inr (fp_make binary64 neg (fp_quiet_nan binary64))
         else if has_word ''0x'' s \<and> fst (split_point is_hex (drop 2 s)) \<noteq> []
         then (let (ds, k, rest) = split_point is_hex (drop 2 s)
               in nearest_double neg 2 (hex_value ds) (exponent_after CHR ''p'' rest - 4 * int k))
         else (let (ds, k, rest) = split_point is_digit s
               in if ds = [] then Inl (Invalid_argument ''stod'')
                  else nearest_double neg 10 (digits_value ds) (exponent_after CHR ''e'' rest - int k)))"

section \<open>Lines\<close>

definition trim :: "string \<Rightarrow> string" where
  "trim value = (let blank = (\<lambda>c. c \<in> set ('' '' @ [CHR 0x09, CHR 0x0D, CHR 0x0A]))
     in rev (dropWhile blank (rev (dropWhile blank value))))"

definition parse_int_after :: "string \<Rightarrow> string \<Rightarrow> int result" where
  "parse_int_after text key =
     (case find_sub key text of
        None \<Rightarrow> Inl (Runtime_error ''Malformed XGBoost model node'')
      | Some found \<Rightarrow> std_stoi (takeWhile (\<lambda>c. is_digit c \<or> c = CHR ''-'') (drop (length key) found)))"

definition parse_double_after :: "string \<Rightarrow> string \<Rightarrow> nat result" where
  "parse_double_after text key =
     (case find_sub key text of
        None \<Rightarrow> Inl (Runtime_error ''Malformed XGBoost model node'')
      | Some found \<Rightarrow>
          seq_result (std_stod (takeWhile (\<lambda>c. is_digit c \<or> c \<in> set ''-+.eE'') (drop (length key) found))) (\<lambda>value.
          if \<not> fp_finite binary64 value then Inl (Runtime_error ''XGBoost model contains a non-finite value'') else Inr value))"

definition find_char :: "char \<Rightarrow> string \<Rightarrow> nat \<Rightarrow> nat option" where
  "find_char c s i =
     (let passed = takeWhile (\<lambda>x. x \<noteq> c) (drop i s)
      in if i \<le> length s \<and> i + length passed < length s then Some (i + length passed) else None)"

definition starts_with :: "string \<Rightarrow> string \<Rightarrow> bool" where
  "starts_with p s \<longleftrightarrow> take (length p) s = p"

definition or_start :: "nat option \<Rightarrow> nat" where
  "or_start p = (case p of None \<Rightarrow> 0 | Some i \<Rightarrow> i)"

definition blank_node :: xgb_node where
  "blank_node = \<lparr>xn_leaf = False, xn_feature = [], xn_threshold = 0, xn_yes = - 1, xn_no = - 1, xn_missing = - 1, xn_leaf_value = 0\<rparr>"

definition parse_split :: "string \<Rightarrow> xgb_node result" where
  "parse_split body =
     (let open = find_char CHR ''['' body 0;
          split = find_char CHR ''<'' body (or_start open);
          close = find_char CHR '']'' body (or_start split)
      in case (open, split, close) of
           (Some open, Some split, Some close) \<Rightarrow>
             if split \<le> open + 1 \<or> close \<le> split + 1 then Inl (Runtime_error ''Malformed XGBoost split node'')
             else
               seq_result (std_stod (take (close - split - 1) (drop (split + 1) body))) (\<lambda>threshold.
               if \<not> fp_finite binary64 threshold then Inl (Runtime_error ''XGBoost split threshold must be finite'')
               else
                 seq_result (parse_int_after body ''yes='') (\<lambda>yes.
                 seq_result (parse_int_after body ''no='') (\<lambda>no.
                 seq_result (parse_int_after body ''missing='') (\<lambda>missing.
                 Inr (blank_node\<lparr>xn_feature := trim (take (split - open - 1) (drop (open + 1) body)),
                   xn_threshold := threshold, xn_yes := yes, xn_no := no, xn_missing := missing\<rparr>)))))
         | _ \<Rightarrow> Inl (Runtime_error ''Malformed XGBoost split node''))"

definition parse_node :: "string \<Rightarrow> xgb_node result" where
  "parse_node body =
     (if starts_with ''leaf='' body
      then seq_result (parse_double_after body ''leaf='') (\<lambda>value. Inr (blank_node\<lparr>xn_leaf := True, xn_leaf_value := value\<rparr>))
      else parse_split body)"

definition add_node :: "int \<Rightarrow> xgb_node \<Rightarrow> xgb_tree list \<Rightarrow> xgb_tree list" where
  "add_node node_id node trees =
     (let trees = (if trees = [] then [um_empty] else trees)
      in butlast trees @ [um_assign node_id node (last trees)])"

text \<open>One line of the file; the current tree is the last one.\<close>

definition model_line :: "xgb_tree list \<times> nat \<Rightarrow> string \<Rightarrow> (xgb_tree list \<times> nat) result" where
  "model_line = (\<lambda>(trees, base_score) line.
     let line = trim (takeWhile (\<lambda>c. c \<noteq> CHR ''#'') line)
     in if line = [] then Inr (trees, base_score)
        else if starts_with ''base_score='' line
        then seq_result (parse_double_after line ''base_score='') (\<lambda>score. Inr (trees, score))
        else if starts_with ''booster['' line \<or> starts_with ''tree['' line then Inr (trees @ [um_empty], base_score)
        else case find_char CHR '':'' line 0 of
               None \<Rightarrow> Inr (trees, base_score)
             | Some colon \<Rightarrow>
                 seq_result (std_stoi (trim (take colon line))) (\<lambda>node_id.
                 seq_result (parse_node (trim (drop (colon + 1) line))) (\<lambda>node.
                 Inr (add_node node_id node trees, base_score))))"

function split_lines :: "string \<Rightarrow> string list" where
  "split_lines s =
     (case dropWhile (\<lambda>c. c \<noteq> CHR 0x0A) s of
        [] \<Rightarrow> [s] | _ # rest \<Rightarrow> takeWhile (\<lambda>c. c \<noteq> CHR 0x0A) s # split_lines rest)"
  by auto
termination
proof (relation "measure length")
  fix s :: string and c rest
  assume "dropWhile (\<lambda>c. c \<noteq> CHR 0x0A) s = c # rest"
  then have "length (c # rest) \<le> length s" using length_dropWhile_le[of "\<lambda>c. c \<noteq> CHR 0x0A" s] by simp
  then show "(rest, s) \<in> measure length" by simp
qed simp

definition parse_model :: "string \<Rightarrow> (xgb_tree list \<times> nat) result" where
  "parse_model text =
     seq_result (fold_result model_line ([], 0) (split_lines text)) (\<lambda>(trees, base_score).
     if trees = [] then Inl (Runtime_error ''Prefetch XGBoost model has no trees'') else Inr (trees, base_score))"

definition load_xgboost_model :: "string \<Rightarrow> disk \<Rightarrow> (xgb_tree list \<times> nat) result \<times> disk" where
  "load_xgboost_model path d =
     (let (content, d) = read_file path d
      in (case content of None \<Rightarrow> Inl (Runtime_error ''Cannot open prefetch model'') | Some bs \<Rightarrow> parse_model (bytes_text bs), d))"

definition PrefetchPlanner :: "prefetch_config \<Rightarrow> disk \<Rightarrow> prefetch_planner result \<times> disk" where
  "PrefetchPlanner config d =
     (let planner = \<lparr>pl_config = config, pl_trees = [], pl_base_score = 0, pl_seen_pages = {}\<rparr>
      in if fc_policy config = ''xgboost'' \<and> fc_model_path config \<noteq> []
         then (let (model, d) = load_xgboost_model (fc_model_path config) d
               in (seq_result model (\<lambda>(trees, base_score). Inr (planner\<lparr>pl_trees := trees, pl_base_score := base_score\<rparr>)), d))
         else (Inr planner, d))"

section \<open>What a loaded model holds\<close>

definition node_finite :: "xgb_node \<Rightarrow> bool" where
  "node_finite node \<longleftrightarrow> fp_finite binary64 (xn_threshold node) \<and> fp_finite binary64 (xn_leaf_value node)"

definition trees_finite :: "xgb_tree list \<Rightarrow> bool" where
  "trees_finite trees \<longleftrightarrow> (\<forall>tree\<in>set trees. um_ok tree \<and> (\<forall>i node. um_find tree i = Some node \<longrightarrow> node_finite node))"

lemma zero_finite: "fp_finite binary64 0"
  by (simp add: fp_finite_def fp_mag_def binary64_def)

lemma parse_node_finite: "parse_node body = Inr node \<Longrightarrow> node_finite node"
  by (auto simp: parse_node_def parse_split_def parse_double_after_def node_finite_def blank_node_def zero_finite
      seq_result_Inr_iff Let_def split: if_splits option.splits)

lemma add_node_finite:
  assumes "trees_finite trees" and "node_finite node"
  shows "trees_finite (add_node i node trees)"
proof -
  have add: "trees_finite (ts @ [um_assign i node t])" if "trees_finite (ts @ [t])" for ts t
    using that assms(2) by (auto simp: trees_finite_def um.ok_assign um.lkp_assign split: if_splits)
  have "trees_finite ([] @ [um_empty])" by (simp add: trees_finite_def um.ok_empty um.lkp_empty)
  then show ?thesis using add[of "[]" um_empty] add[of "butlast trees" "last trees"] assms(1)
    by (simp add: add_node_def Let_def)
qed

lemma trees_finite_new: "trees_finite (trees @ [um_empty]) \<longleftrightarrow> trees_finite trees"
  by (auto simp: trees_finite_def um.ok_empty um.lkp_empty)

lemma model_line_finite:
  assumes "model_line (trees, base_score) line = Inr (trees', base_score')" and "trees_finite trees" and "fp_finite binary64 base_score"
  shows "trees_finite trees' \<and> fp_finite binary64 base_score'"
  using assms parse_node_finite
  by (auto simp: model_line_def parse_double_after_def trees_finite_new add_node_finite seq_result_Inr_iff Let_def
      split: if_splits option.splits)

text \<open>A model that loads has a tree, and all its numbers are finite.\<close>

lemma parse_model_finite:
  assumes "parse_model text = Inr (trees, base_score)"
  shows "trees \<noteq> [] \<and> trees_finite trees \<and> fp_finite binary64 base_score"
proof -
  have "trees_finite ts' \<and> fp_finite binary64 b'"
    if "fold_result model_line (ts, b) lines = Inr (ts', b')" "trees_finite ts" "fp_finite binary64 b" for lines ts b ts' b'
    using that
  proof (induction lines arbitrary: ts b)
    case (Cons line lines)
    then obtain ts1 b1 where 1: "model_line (ts, b) line = Inr (ts1, b1)" and 2: "fold_result model_line (ts1, b1) lines = Inr (ts', b')"
      by (auto simp: seq_result_Inr_iff)
    have "trees_finite ts1" "fp_finite binary64 b1" using model_line_finite[OF 1 Cons.prems(2,3)] by simp_all
    then show ?case by (rule Cons.IH[OF 2])
  qed simp
  then show ?thesis using assms zero_finite by (fastforce simp: parse_model_def seq_result_Inr_iff trees_finite_def split: if_splits)
qed

section \<open>A model that never answers\<close>

definition endless_node :: xgb_node where
  "endless_node = blank_node\<lparr>xn_feature := ''x'', xn_yes := 0, xn_no := 0, xn_missing := 0\<rparr>"

lemma nearest_double_zero: "nearest_double neg base 0 e = Inr (fp_make binary64 neg 0)"
proof -
  have "fp_round binary64 0 den = 0" for den by (simp add: fp_round_def Let_def)
  moreover have "inf_mag binary64 \<noteq> 0" by (simp add: binary64_def)
  ultimately show ?thesis by (simp add: nearest_double_def Let_def)
qed

lemma stod_zero: "std_stod ''0'' = Inr 0"
  by (simp add: std_stod_def nearest_double_zero split_point_def split_sign_def is_digit_def is_space_def has_word_def
      lower_char_def digits_value_def is_hex_def fp_make_def exponent_after_def)

lemma endless_line: "model_line ([], 0) ''0:[x<0] yes=0,no=0,missing=0'' = Inr ([[(0, endless_node)]], 0)"
  by (simp add: model_line_def trim_def starts_with_def find_char_def parse_node_def parse_split_def or_start_def stod_zero
      parse_int_after_def std_stoi_def split_sign_def is_digit_def is_space_def digits_value_def find_sub.simps add_node_def
      um_assign_def um_empty_def zero_finite blank_node_def endless_node_def Let_def)

lemma endless_model: "parse_model ''0:[x<0] yes=0,no=0,missing=0'' = Inr ([[(0, endless_node)]], 0)"
proof -
  have "split_lines ''0:[x<0] yes=0,no=0,missing=0'' = [''0:[x<0] yes=0,no=0,missing=0'']"
    by (subst split_lines.simps) simp
  then show ?thesis using endless_line by (simp add: parse_model_def)
qed

definition endless_config :: prefetch_config where
  "endless_config = \<lparr>fc_policy = ''xgboost'', fc_prefetch_width = 4, fc_prefetch_depth = 1, fc_min_candidates_per_page = 1,
     fc_model_path = ''m'', fc_prefetch_top_k = 0, fc_score_threshold = 0, fc_max_prefetch_inflight = 0\<rparr>"

definition endless_disk :: disk where
  "endless_disk = put_file ''m'' (text_bytes ''0:[x<0] yes=0,no=0,missing=0'') empty_disk"

text \<open>
  C20: a model file can hang every search that plans with it. The parser accepts a tree whose root
  is its own child: the constructor of the planner returns, and then every plan for at least one
  page walks that tree forever.
\<close>

theorem endless_model_accepted:
  "\<exists>planner. PrefetchPlanner endless_config endless_disk = (Inr planner, endless_disk) \<and>
    (\<forall>p ps availability k allow context. plan_candidates planner (p # ps) availability (Suc k) allow context = None)"
proof -
  let ?planner = "\<lparr>pl_config = endless_config, pl_trees = [[(0, endless_node)]], pl_base_score = 0, pl_seen_pages = {}\<rparr>"
  have "PrefetchPlanner endless_config endless_disk = (Inr ?planner, endless_disk)"
    by (simp add: PrefetchPlanner_def endless_config_def load_xgboost_model_def endless_disk_def empty_disk_def endless_model)
  moreover have loops: "walk_tree [(0, endless_node)] f 0 = None" for f
    by (rule walk_self_loop[where node = endless_node]) (simp_all add: um_find_def endless_node_def blank_node_def)
  have "score_all ?planner cs = None" if "cs \<noteq> []" for cs
    using that loops by (cases cs) (simp_all add: score_planned_def score_xgboost_model_def)
  moreover have "map (finish_aggregate \<circ> snd) (um_items m) \<noteq> []"
    if "foldl (aggregate_step ?planner availability ctx) (\<lambda>_. 0, um_empty) (enumerate 0 (p # ps)) = (stats, m)"
    for p ps availability ctx stats m
  proof -
    have "aggregates_ok ?planner availability (um_empty :: (u32, aggregate) umap)"
      by (simp add: aggregates_ok_def um.ok_empty um.lkp_empty)
    from aggregates_gathered[OF that this] have "aggregates_ok ?planner availability m" "p \<in> {q. um_find m q \<noteq> None}" by auto
    then show ?thesis using gathered_candidates by (metis empty_iff list.simps(8) set_empty)
  qed
  ultimately show ?thesis
    by (intro exI[of _ ?planner])
      (auto simp: plan_candidates_def plan_coalesced_candidates_def rank_and_throttle_def endless_config_def Let_def split: prod.splits)
qed

section \<open>A plan\<close>

definition demo_leaf :: xgb_node where
  "demo_leaf = blank_node\<lparr>xn_leaf := True\<rparr>"

definition demo_planner :: prefetch_planner where
  "demo_planner = \<lparr>pl_config = endless_config, pl_trees = [[(0, demo_leaf)]], pl_base_score = 0, pl_seen_pages = {9}\<rparr>"

definition demo_context :: planning_context where
  "demo_context = \<lparr>px_search_step = 0, px_visited_count = 0, px_frontier_size = 0, px_result_size = 0,
     px_current_candidate_distance = 0, px_worst_result_distance = 0, px_ef_search = 0, px_beam_width = 0,
     px_io_queue_depth = 1, px_max_prefetch_inflight = 2, px_min_candidates_per_page = 0, px_cache_pressure = 0\<rparr>"

definition demo_availability :: "u32 \<Rightarrow> page_availability" where
  "demo_availability p = \<lparr>av_cached = (p = 5), av_ready = False, av_pending = False, av_materialized = False\<rparr>"

theorem plan_returns_witness:
  "\<exists>plan planner'. plan_candidates demo_planner [7, 5, 7, 9] demo_availability 0 True demo_context = Some (Inr (plan, planner'))"
  by (rule plan_returns) (simp add: demo_planner_def tree_ok_def um_find_def demo_leaf_def)

theorem planned_pages_valid_witness:
  "\<exists>plan planner'. plan_candidates demo_planner [7, 5, 7, 9] demo_availability 0 True demo_context = Some (Inr (plan, planner')) \<and>
    distinct (pn_pages plan) \<and> set (pn_pages plan) \<subseteq> {7}"
proof -
  have "\<forall>tree\<in>set (pl_trees demo_planner). tree_ok tree"
    by (simp add: demo_planner_def tree_ok_def um_find_def demo_leaf_def)
  then obtain plan planner' where
    run: "plan_candidates demo_planner [7, 5, 7, 9] demo_availability 0 True demo_context = Some (Inr (plan, planner'))"
    using plan_total by blast
  have "set (pn_pages plan) \<subseteq> {7, 5, 9}" "\<forall>p\<in>set (pn_pages plan). plannable demo_planner demo_availability p" "distinct (pn_pages plan)"
    using planned_pages_valid[OF run refl] by auto
  moreover have "\<not> plannable demo_planner demo_availability 5" "\<not> plannable demo_planner demo_availability 9"
    by (simp_all add: plannable_def demo_planner_def demo_availability_def)
  ultimately show ?thesis using run by blast
qed

end
