(* ===== verification/QuerySession.thy ===== *)
theory QuerySession
  imports CacheRuns PrefetchModel
begin

text \<open>
  \<open>core/query_page_session.h\<close> and \<open>src/core/query_page_session.cpp\<close>: the pages and nodes a
  query has at hand, on the reader of a build without liburing. A session builds its prefetch
  planner first, which loads a model file when the configuration names one and throws when the
  file cannot be read. On this reader \<open>io_uring_enabled\<close> is never set, \<open>async_prefetch_\<close> is
  false, the planner is asked for no plan, and the maps of pending and ready prefetches and the
  prefetch trace stay empty, so the branches on them are left out.
\<close>

record graph_search_config =
  gc_top_k :: nat
  gc_search_width :: nat
  gc_beam_width :: nat
  gc_entry_count :: nat
  gc_seed_ids :: "u32 list"
  gc_early_stop :: bool
  gc_early_stop_min_expansions :: nat
  gc_adaptive_early_stop :: bool
  gc_early_stop_patience :: nat
  gc_early_stop_eps :: nat
  gc_min_expansions :: nat
  gc_pq_model :: "pq_encoder option"
  gc_adc_enable :: bool
  gc_rerank_topk :: nat
  gc_prefetch_width :: nat
  gc_prefetch_depth :: nat
  gc_prefetch_min_candidates_per_page :: nat
  gc_prefetch_policy :: string
  gc_prefetch_model_path :: string
  gc_prefetch_top_k :: nat
  gc_prefetch_score_threshold :: nat
  gc_prefetch_max_inflight :: nat
  gc_same_page_reuse :: bool

record session =
  qs_index :: packed_index
  qs_stats :: search_stats
  qs_disk :: disk
  qs_prefetch_planner :: prefetch_planner
  qs_async_prefetch :: bool
  qs_prefetch_budget_pages :: nat
  qs_demand_io_reserve_pages :: nat
  qs_finished :: bool
  qs_visited_pages :: "u32 list"
  qs_demand_pages :: "u32 list"
  qs_pinned_pages :: "u32 list"
  qs_owned_pages :: "(u32, decoded_page) umap"
  qs_materialized_pages :: "u32 list"
  qs_local_nodes :: "(u32, disk_node) umap"

text \<open>Operations run on a state and may throw; the state then stays as it was left.\<close>

type_synonym ('s, 'a) stateful = "'s \<Rightarrow> 'a result \<times> 's"
type_synonym 'a session_op = "(session, 'a) stateful"

definition ret :: "'a \<Rightarrow> ('s, 'a) stateful" where
  "ret x s = (Inr x, s)"

definition throws :: "cpp_error \<Rightarrow> ('s, 'a) stateful" where
  "throws e s = (Inl e, s)"

definition lift_result :: "'a result \<Rightarrow> ('s, 'a) stateful" where
  "lift_result r s = (r, s)"

definition then_do :: "('s, 'a) stateful \<Rightarrow> ('a \<Rightarrow> ('s, 'b) stateful) \<Rightarrow> ('s, 'b) stateful" where
  "then_do f g s = (case f s of (Inl e, s) \<Rightarrow> (Inl e, s) | (Inr x, s) \<Rightarrow> g x s)"

definition upd :: "('s \<Rightarrow> 's) \<Rightarrow> ('s, unit) stateful" where
  "upd f s = (Inr (), f s)"

fun for_each :: "('x \<Rightarrow> ('s, 'a) stateful) \<Rightarrow> 'x list \<Rightarrow> ('s, 'a list) stateful" where
  "for_each f [] = ret []"
| "for_each f (x # xs) = then_do (f x) (\<lambda>y. then_do (for_each f xs) (\<lambda>ys. ret (y # ys)))"

definition count_up :: "counter \<Rightarrow> nat \<Rightarrow> unit session_op" where
  "count_up c n = upd (\<lambda>s. s\<lparr>qs_stats := bump c n (qs_stats s)\<rparr>)"

definition count_all :: "counter list \<Rightarrow> unit session_op" where
  "count_all cs = upd (\<lambda>s. s\<lparr>qs_stats := bump_all cs (qs_stats s)\<rparr>)"

section \<open>Opening a session\<close>

definition session_async_prefetch_enabled :: "packed_index \<Rightarrow> graph_search_config \<Rightarrow> bool" where
  "session_async_prefetch_enabled idx config \<longleftrightarrow>
     is_io_uring_enabled (pr_status (pi_reader idx)) \<and> 0 < is_depth (pr_status (pi_reader idx)) \<and>
     0 < gc_prefetch_depth config \<and> gc_prefetch_policy config \<noteq> ''none''"

definition session_demand_io_reserve :: "packed_index \<Rightarrow> nat" where
  "session_demand_io_reserve idx =
     (let status = pr_status (pi_reader idx)
      in if \<not> is_io_uring_enabled status \<or> is_depth status = 0 then 1
         else (let io_depth = max 1 (is_depth status)
               in if io_depth \<le> 1 then 1
                  else max 1 (min (max 1 (is_batch_size status)) (max 1 (io_depth div 2)))))"

definition session_prefetch_budget :: "packed_index \<Rightarrow> graph_search_config \<Rightarrow> nat" where
  "session_prefetch_budget idx config =
     (if \<not> session_async_prefetch_enabled idx config then 0
      else (let io_depth = max 1 (is_depth (pr_status (pi_reader idx)));
                demand_reserve = session_demand_io_reserve idx
            in if io_depth \<le> demand_reserve then 0
               else (let width = max (gc_prefetch_width config) (gc_prefetch_top_k config);
                         width = (if width = 0 then max 1 (io_depth div 4) else width)
                     in min (width * max 1 (gc_prefetch_depth config)) (io_depth - demand_reserve))))"

definition session_prefetch_config :: "graph_search_config \<Rightarrow> prefetch_config" where
  "session_prefetch_config config = \<lparr>fc_policy = gc_prefetch_policy config, fc_prefetch_width = gc_prefetch_width config,
     fc_prefetch_depth = gc_prefetch_depth config,
     fc_min_candidates_per_page = gc_prefetch_min_candidates_per_page config,
     fc_model_path = gc_prefetch_model_path config, fc_prefetch_top_k = gc_prefetch_top_k config,
     fc_score_threshold = gc_prefetch_score_threshold config,
     fc_max_prefetch_inflight = gc_prefetch_max_inflight config\<rparr>"

text \<open>The constructor; when that of the planner throws, there is no session, only the disk.\<close>

definition QueryPageSession ::
  "packed_index \<Rightarrow> graph_search_config \<Rightarrow> search_stats \<Rightarrow> disk \<Rightarrow> session result \<times> disk" where
  "QueryPageSession idx config stats d =
     (let (planner, d) = PrefetchPlanner (session_prefetch_config config) d
      in (seq_result planner (\<lambda>planner. Inr \<lparr>qs_index = idx, qs_stats = stats, qs_disk = d, qs_prefetch_planner = planner,
            qs_async_prefetch = session_async_prefetch_enabled idx config,
            qs_prefetch_budget_pages = session_prefetch_budget idx config,
            qs_demand_io_reserve_pages = session_demand_io_reserve idx,
            qs_finished = False, qs_visited_pages = [], qs_demand_pages = [], qs_pinned_pages = [],
            qs_owned_pages = um_empty, qs_materialized_pages = [], qs_local_nodes = um_empty\<rparr>), d))"

section \<open>Pages and nodes at hand\<close>

text \<open>\<open>materialize_page\<close>: the nodes of a page are copied once, with their vectors.\<close>

definition materialize_node :: "decoded_page \<Rightarrow> disk_node \<Rightarrow> unit session_op" where
  "materialize_node page node s =
     (let local = (case um_find (qs_local_nodes s) (dn_id node) of None \<Rightarrow> node | Some found \<Rightarrow> found);
          s = s\<lparr>qs_local_nodes := um_assign (dn_id node) local (qs_local_nodes s)\<rparr>
      in if dn_vector local \<noteq> [] then (Inr (), s)
         else (case vector_data (pi_metadata (qs_index s)) page node of
                 Inl e \<Rightarrow> (Inl e, s)
               | Inr values \<Rightarrow> (Inr (), s\<lparr>qs_local_nodes :=
                   um_assign (dn_id node) (local\<lparr>dn_vector := values\<rparr>) (qs_local_nodes s)\<rparr>)))"

definition materialize_page :: "decoded_page \<Rightarrow> unit session_op" where
  "materialize_page page s =
     (if dp_page_id page \<in> set (qs_materialized_pages s) then (Inr (), s)
      else then_do (for_each (materialize_node page) (dp_nodes page)) (\<lambda>_. ret ())
             (s\<lparr>qs_materialized_pages := dp_page_id page # qs_materialized_pages s\<rparr>))"

definition try_get_cached_page :: "u32 \<Rightarrow> decoded_page option session_op" where
  "try_get_cached_page page_id s =
     (let (cached, idx, stats) = lookup_cached_page page_id (qs_index s) (qs_stats s)
      in (Inr cached, s\<lparr>qs_index := idx, qs_stats := stats\<rparr>))"

definition session_load_page :: "(u64 \<Rightarrow> nat) \<Rightarrow> u32 \<Rightarrow> decoded_page session_op" where
  "session_load_page lg page_id s =
     (let (page, idx, stats, d) = load_page lg page_id (qs_index s) (qs_stats s) (qs_disk s)
      in (page, s\<lparr>qs_index := idx, qs_stats := stats, qs_disk := d\<rparr>))"

text \<open>\<open>read_demand_page\<close> on a reader that is not asynchronous.\<close>

definition read_demand_page :: "u32 \<Rightarrow> decoded_page session_op" where
  "read_demand_page page_id s =
     (let (page, stats, d) = read_page (qs_index s) page_id (qs_stats s) (qs_disk s)
      in (page, s\<lparr>qs_stats := stats, qs_disk := d\<rparr>))"

text \<open>A page just read goes to the cache when it is enabled and else to the session.\<close>

definition keep_page :: "(u64 \<Rightarrow> nat) \<Rightarrow> u32 \<Rightarrow> decoded_page \<Rightarrow> decoded_page session_op" where
  "keep_page lg page_id page s =
     (let stats = record_hub_cache_access (page_is_hub (qs_index s) page) False (qs_stats s)
      in if cache_enabled (qs_index s)
         then (let (cached_page, idx, stats) = store_cached_page lg page (qs_index s) stats
               in then_do (materialize_page cached_page) (\<lambda>_. ret cached_page) (s\<lparr>qs_index := idx, qs_stats := stats\<rparr>))
         else then_do (materialize_page page) (\<lambda>_. ret page)
                (s\<lparr>qs_stats := stats, qs_owned_pages := um_assign page_id page (qs_owned_pages s)\<rparr>))"

definition get_or_load_page :: "(u64 \<Rightarrow> nat) \<Rightarrow> u32 \<Rightarrow> decoded_page session_op" where
  "get_or_load_page lg page_id s =
     (if gm_page_count (pi_metadata (qs_index s)) \<le> unat page_id
      then (Inl (Runtime_error ''Packed page id out of range''), s)
      else if qs_finished s
      then then_do (session_load_page lg page_id) (\<lambda>page. then_do (materialize_page page) (\<lambda>_. ret page)) s
      else
        (let s = s\<lparr>qs_visited_pages := List.insert page_id (qs_visited_pages s),
               qs_stats := bump_all [Page_requests, Page_requests_before_dedup] (qs_stats s)\<rparr>
         in case um_find (qs_owned_pages s) page_id of
              Some page \<Rightarrow> (Inr page, s\<lparr>qs_stats := bump Pinned_hits 1 (qs_stats s)\<rparr>)
            | None \<Rightarrow>
                then_do (try_get_cached_page page_id) (\<lambda>cached.
                case cached of
                  Some page \<Rightarrow> then_do (materialize_page page) (\<lambda>_. ret page)
                | None \<Rightarrow>
                    then_do (count_all [Page_cache_misses, Demand_reads, Node_reads, Page_requests_after_dedup]) (\<lambda>_.
                    then_do (upd (\<lambda>s. s\<lparr>qs_demand_pages := List.insert page_id (qs_demand_pages s)\<rparr>)) (\<lambda>_.
                    then_do (read_demand_page page_id) (keep_page lg page_id)))) s))"

definition page_for_node :: "u32 \<Rightarrow> session \<Rightarrow> u32 result" where
  "page_for_node node_id s =
     (if length (pi_node_to_page (qs_index s)) \<le> unat node_id
      then Inl (Runtime_error ''Packed graph node id out of range'')
      else Inr (pi_node_to_page (qs_index s) ! unat node_id))"

definition get_node :: "(u64 \<Rightarrow> nat) \<Rightarrow> u32 \<Rightarrow> bool \<Rightarrow> disk_node session_op" where
  "get_node lg node_id count_same_page_reuse s =
     (case um_find (qs_local_nodes s) node_id of
        Some node \<Rightarrow> (Inr node, if count_same_page_reuse
          then s\<lparr>qs_stats := bump Same_page_node_reuse 1 (qs_stats s)\<rparr> else s)
      | None \<Rightarrow>
          then_do (lift_result (page_for_node node_id s)) (\<lambda>page_id.
          then_do (get_or_load_page lg page_id) (\<lambda>_ s.
          case um_find (qs_local_nodes s) node_id of
            None \<Rightarrow> (Inl (Runtime_error ''Node is missing from packed page''), s)
          | Some node \<Rightarrow> (Inr node, s))) s)"

definition page_in_cache :: "session \<Rightarrow> u32 \<Rightarrow> bool" where
  "page_in_cache s page_id \<longleftrightarrow> cache_enabled (qs_index s) \<and> um_find (pi_page_cache (qs_index s)) page_id \<noteq> None"

definition page_ready_in_session :: "session \<Rightarrow> u32 \<Rightarrow> bool" where
  "page_ready_in_session s page_id \<longleftrightarrow>
     page_id \<in> set (qs_materialized_pages s) \<or> um_find (qs_owned_pages s) page_id \<noteq> None"

definition page_available_for_scheduling :: "session \<Rightarrow> u32 \<Rightarrow> bool" where
  "page_available_for_scheduling s page_id \<longleftrightarrow> page_ready_in_session s page_id \<or> page_in_cache s page_id"

section \<open>Batches\<close>

definition record_duplicate_skipped :: "nat \<Rightarrow> search_stats \<Rightarrow> search_stats" where
  "record_duplicate_skipped n stats =
     bump P4_dedup_hits n (bump Duplicate_skipped n (bump Duplicate_pages_eliminated n (bump Page_dedup_hits n stats)))"

definition materialize_available_page :: "u32 \<Rightarrow> bool session_op" where
  "materialize_available_page page_id s =
     (case um_find (qs_owned_pages s) page_id of
        Some page \<Rightarrow> then_do (count_up Pinned_hits 1) (\<lambda>_. then_do (materialize_page page) (\<lambda>_. ret True)) s
      | None \<Rightarrow>
          if page_id \<in> set (qs_materialized_pages s) then then_do (count_up Pinned_hits 1) (\<lambda>_. ret True) s
          else then_do (try_get_cached_page page_id) (\<lambda>cached. case cached of
                 Some page \<Rightarrow> then_do (materialize_page page) (\<lambda>_. ret True)
               | None \<Rightarrow> ret False) s)"

definition request_page :: "u32 \<Rightarrow> read_request list session_op" where
  "request_page page_id = then_do (materialize_available_page page_id) (\<lambda>available s.
     if available then (Inr [], s\<lparr>qs_stats := record_duplicate_skipped 1 (qs_stats s)\<rparr>)
     else (Inr [\<lparr>rq_page_id = page_id, rq_offset = page_offset (qs_index s) page_id,
                 rq_bytes = gm_page_size (pi_metadata (qs_index s))\<rparr>],
           s\<lparr>qs_stats := bump_all [Page_cache_misses, Demand_reads, Node_reads, Page_requests_after_dedup] (qs_stats s),
             qs_demand_pages := List.insert page_id (qs_demand_pages s)\<rparr>))"

definition session_batch_submit :: "read_request list \<Rightarrow> (u32 \<times> u64) list session_op" where
  "session_batch_submit requests s =
     (let (submitted, reader, stats, d) = batch_submit requests (pi_reader (qs_index s)) (qs_stats s) (qs_disk s)
      in (submitted, s\<lparr>qs_index := (qs_index s)\<lparr>pi_reader := reader\<rparr>, qs_stats := stats, qs_disk := d\<rparr>))"

definition session_reap :: "completed_read option session_op" where
  "session_reap s =
     (let (completed, reader) = reap_async_read (pi_reader (qs_index s))
      in (Inr completed, s\<lparr>qs_index := (qs_index s)\<lparr>pi_reader := reader\<rparr>\<rparr>))"

text \<open>
  The loop that waits for the submitted reads. Each round takes one completion from the
  reader's queue, so the number of queued completions bounds the rounds (\<open>bound\<close>, one more
  for the round that finds the queue empty); a completion of another batch is dropped, as
  \<open>consume_prefetch_completion\<close> does with unknown tokens.
\<close>

fun reap_batch :: "(u64 \<Rightarrow> nat) \<Rightarrow> nat \<Rightarrow> (u64 \<times> u32) list \<Rightarrow> unit session_op" where
  "reap_batch lg bound [] s = (Inr (), s)"
| "reap_batch lg 0 (t # ts) s = (Inl (Runtime_error ''Failed to wait for packed graph page batch''), s)"
| "reap_batch lg (Suc bound) (t # ts) s =
     then_do session_reap (\<lambda>completed.
     case completed of
       None \<Rightarrow> throws (Runtime_error ''Failed to wait for packed graph page batch'')
     | Some c \<Rightarrow>
         (case um_find (t # ts) (cr_token c) of
            None \<Rightarrow> reap_batch lg bound (t # ts)
          | Some page_id \<Rightarrow>
              then_do (\<lambda>s. (decode_packed_page (pi_metadata (qs_index s)) page_id (cr_data c), s)) (\<lambda>decoded.
              then_do (keep_page lg page_id decoded) (\<lambda>_.
              reap_batch lg bound (um_erase (cr_token c) (t # ts)))))) s"

definition load_missing_pages :: "(u64 \<Rightarrow> nat) \<Rightarrow> u32 list \<Rightarrow> unit session_op" where
  "load_missing_pages lg missing_pages =
     (if missing_pages = [] then ret ()
      else then_do (for_each request_page missing_pages) (\<lambda>requests.
        if concat requests = [] then ret ()
        else then_do (session_batch_submit (concat requests)) (\<lambda>submitted s.
          reap_batch lg (Suc (pending_async_reads (pi_reader (qs_index s)))) (map (\<lambda>(page_id, token). (token, page_id)) submitted) s)))"

definition ensure_pages_loaded_batch :: "(u64 \<Rightarrow> nat) \<Rightarrow> u32 list \<Rightarrow> unit session_op" where
  "ensure_pages_loaded_batch lg page_ids s =
     (if page_ids = [] then (Inr (), s)
      else if qs_finished s then then_do (for_each (get_or_load_page lg) page_ids) (\<lambda>_. ret ()) s
      else if \<exists>p\<in>set page_ids. gm_page_count (pi_metadata (qs_index s)) \<le> unat p
      then (Inl (Runtime_error ''Packed page id out of range''), s)
      else
        (let n = length page_ids; unique_pages = rev (remdups (rev page_ids));
             duplicate_count = n - length unique_pages;
             stats = bump Page_dedup_requests n (bump Page_requests_before_dedup n (bump Page_requests n (qs_stats s)));
             s = s\<lparr>qs_visited_pages := foldl (\<lambda>v p. List.insert p v) (qs_visited_pages s) page_ids,
                   qs_stats := record_duplicate_skipped duplicate_count stats\<rparr>
         in then_do (for_each (\<lambda>p. then_do (materialize_available_page p)
                (\<lambda>available. ret (if available then [] else [p]))) unique_pages) (\<lambda>missing.
            load_missing_pages lg (concat missing)) s))"

section \<open>Pins and the end of the query\<close>

definition pin_page :: "u32 \<Rightarrow> bool session_op" where
  "pin_page page_id s =
     (if page_id \<in> set (qs_pinned_pages s) then (Inr False, s)
      else (let (pinned, idx) = pin_if_cached page_id (qs_index s)
            in if \<not> pinned then (Inr False, s\<lparr>qs_index := idx\<rparr>)
               else (Inr True, s\<lparr>qs_index := idx, qs_pinned_pages := page_id # qs_pinned_pages s,
                      qs_stats := bump Page_cache_pins 1 (qs_stats s)\<rparr>)))"

definition unpin_page :: "u32 \<Rightarrow> unit session_op" where
  "unpin_page page_id s =
     (let (r, idx) = unpin_if_cached page_id (qs_index s) in (r, s\<lparr>qs_index := idx\<rparr>))"

definition unpin_all :: "unit session_op" where
  "unpin_all s = then_do (for_each unpin_page (qs_pinned_pages s)) (\<lambda>_. upd (\<lambda>s. s\<lparr>qs_pinned_pages := []\<rparr>)) s"

definition finish_query :: "unit session_op" where
  "finish_query s =
     (if qs_finished s then (Inr (), s)
      else (let stats = (qs_stats s)(Unique_pages_touched := length (qs_visited_pages s),
                  Unique_demand_pages := length (qs_demand_pages s))
            in then_do unpin_all (\<lambda>_. upd (\<lambda>s. s\<lparr>qs_finished := True\<rparr>)) (s\<lparr>qs_stats := stats\<rparr>)))"

end
