(* ===== verification/EntrySelector.thy ===== *)
theory EntrySelector
  imports Distance
begin

text \<open>
  \<open>graph/entry_selector.h\<close> and \<open>src/graph/entry_selector.cpp\<close>: the nodes a graph search
  starts from. Identifiers are kept at their 32 bits; \<open>std::size_t\<close> products of the
  even spacing wrap at 64 bits as written.
\<close>

datatype entry_strategy = SingleMedoid | EvenlySpaced | HybridMedoidHubsClusters

record entry_selection_config =
  es_strategy :: entry_strategy
  es_entry_count :: nat
  es_hub_count :: nat
  es_cluster_count :: nat
  es_cluster_train_limit :: nat
  es_cluster_iterations :: nat

definition parse_entry_strategy :: "string \<Rightarrow> entry_strategy result" where
  "parse_entry_strategy v =
     (if v = ''single-medoid'' \<or> v = ''single_medoid'' \<or> v = ''medoid'' then Inr SingleMedoid
      else if v = ''evenly-spaced'' \<or> v = ''evenly_spaced'' \<or> v = ''evenly'' then Inr EvenlySpaced
      else if v = ''hybrid'' \<or> v = ''medoid-hubs-clusters'' \<or> v = ''medoid_hubs_clusters''
      then Inr HybridMedoidHubsClusters
      else Inl (Runtime_error ''Invalid entry strategy: expected single-medoid, evenly-spaced, or hybrid''))"

fun entry_strategy_name :: "entry_strategy \<Rightarrow> string" where
  "entry_strategy_name SingleMedoid = ''single-medoid''"
| "entry_strategy_name EvenlySpaced = ''evenly-spaced''"
| "entry_strategy_name HybridMedoidHubsClusters = ''hybrid''"

section \<open>Pieces\<close>

text \<open>\<open>seen\<close> holds exactly the identifiers of \<open>out\<close> wherever the code passes both.\<close>

definition append_unique :: "u32 list \<Rightarrow> u32 \<Rightarrow> nat \<Rightarrow> u32 list" where
  "append_unique out i limit =
     (if limit \<le> length out then out else if i \<in> set out then out else out @ [i])"

definition squared_l2_to_vector :: "f32 list \<Rightarrow> f32 list \<Rightarrow> nat \<Rightarrow> f32" where
  "squared_l2_to_vector lhs rhs dim =
     foldl (\<lambda>distance d. f32_add distance (square_diff (lhs ! d) (rhs ! d))) 0 [0..<dim]"

definition hub_less :: "u32 list \<Rightarrow> u32 \<Rightarrow> u32 \<Rightarrow> bool" where
  "hub_less node_in_degrees lhs rhs =
     (let l = node_in_degrees ! unat lhs; r = node_in_degrees ! unat rhs
      in if l = r then lhs < rhs else r < l)"

definition select_hub_entries :: "u32 list \<Rightarrow> nat \<Rightarrow> nat \<Rightarrow> u32 list" where
  "select_hub_entries node_in_degrees n requested =
     (if requested = 0 \<or> n = 0 \<or> node_in_degrees = [] then []
      else take requested (std_sort (hub_less node_in_degrees)
             (map word_of_nat [0..<min (length node_in_degrees) n])))"

definition nearest_center :: "f32 list \<Rightarrow> f32 list \<Rightarrow> nat \<Rightarrow> nat \<Rightarrow> nat" where
  "nearest_center vector centroids centroid_count dim =
     fst (foldl (\<lambda>(best, best_distance) centroid.
       let distance = squared_l2_to_vector vector (drop (centroid * dim) centroids) dim
       in if f32_lt distance best_distance then (centroid, distance) else (best, best_distance))
       (0, f32_infinity) [0..<centroid_count])"

text \<open>
  The closest row of a scan: the first candidate is taken, a later one when it is closer, or
  as close with a smaller identifier.
\<close>

definition closer_row :: "(u32 \<times> f32) option \<Rightarrow> u32 \<Rightarrow> f32 \<Rightarrow> (u32 \<times> f32) option" where
  "closer_row best i distance =
     (case best of
        None \<Rightarrow> Some (i, distance)
      | Some (best_id, best_distance) \<Rightarrow>
          if f32_lt distance best_distance \<or> (f32_eq distance best_distance \<and> i < best_id)
          then Some (i, distance) else best)"

definition select_evenly_spaced_entries :: "nat \<Rightarrow> nat \<Rightarrow> u32 list result" where
  "select_evenly_spaced_entries n requested =
     (if n = 0 \<or> requested = 0 then Inr []
      else (let actual = min requested n;
                ids = map (\<lambda>i. if actual = 1 then 0 else (i * (n - 1)) mod 2 ^ 64 div (actual - 1)) [0..<actual]
            in if \<exists>i\<in>set ids. 2 ^ 32 \<le> i then Inl (Runtime_error ''Entry id exceeds uint32_t range'')
               else Inr (foldl (\<lambda>entries i. if word_of_nat i \<in> set entries then entries
                           else entries @ [word_of_nat i]) [] ids)))"

section \<open>Medoids\<close>

definition medoid_step :: "vector_set \<Rightarrow> f32 list \<Rightarrow> u32 \<times> f32 \<Rightarrow> nat \<Rightarrow> u32 \<times> f32" where
  "medoid_step base centroid = (\<lambda>(best_id, best_distance) row.
     let i = word_of_nat row; distance = squared_l2_to_vector (row_values base row) centroid (vs_dim base)
     in if f32_lt distance best_distance \<or> (f32_eq distance best_distance \<and> i < best_id)
        then (i, distance) else (best_id, best_distance))"

definition select_global_medoid :: "vector_set \<Rightarrow> u32 result" where
  "select_global_medoid base =
     (if vs_empty base then Inl (Runtime_error ''Cannot select a medoid from an empty base set'')
      else (let rows = [0..<vs_size base]; dims = [0..<vs_dim base];
                centroid = foldl (\<lambda>centroid row. map (\<lambda>d. f32_add (centroid ! d) (row_values base row ! d)) dims)
                  (replicate (vs_dim base) 0) rows;
                scale = f32_div f32_one (f32_of_nat (vs_size base));
                centroid = map (\<lambda>v. f32_mul v scale) centroid
            in Inr (fst (foldl (medoid_step base centroid) (0, f32_infinity) rows))))"

text \<open>\<open>select_cluster_medoids\<close>: k-means over samples, with sums in \<open>double\<close>.\<close>

definition seed_clusters :: "vector_set \<Rightarrow> u32 list \<Rightarrow> nat \<Rightarrow> f32 list" where
  "seed_clusters base samples centroid_count = concat (map (\<lambda>centroid.
     row_values base (unat (samples ! (if centroid_count = 1 then length samples div 2
       else (centroid * (length samples - 1)) div (centroid_count - 1))))) [0..<centroid_count])"

definition cluster_iteration ::
  "vector_set \<Rightarrow> u32 list \<Rightarrow> nat \<Rightarrow> f32 list \<times> nat list \<Rightarrow> f32 list \<times> nat list" where
  "cluster_iteration base samples centroid_count = (\<lambda>(centroids, _).
     let dim = vs_dim base;
         assignments = map (\<lambda>s. nearest_center (row_values base (unat s)) centroids centroid_count dim) samples;
         sums = foldl (\<lambda>sums (s, c). foldl (\<lambda>sums d. sums[c * dim + d :=
             fp_add binary64 (sums ! (c * dim + d)) (f64_of_f32 (row_values base (unat s) ! d))]) sums [0..<dim])
           (replicate (centroid_count * dim) 0) (zip samples assignments);
         counts = map (\<lambda>c. length (filter ((=) c) assignments)) [0..<centroid_count]
     in (foldl (\<lambda>centroids c. if counts ! c = 0 then centroids
           else foldl (\<lambda>centroids d. centroids[c * dim + d :=
             f32_of_f64 (fp_div binary64 (sums ! (c * dim + d)) (fp_of_nat binary64 (counts ! c)))])
             centroids [0..<dim]) centroids [0..<centroid_count], assignments))"

definition cluster_medoid ::
  "vector_set \<Rightarrow> u32 list \<Rightarrow> f32 list \<Rightarrow> nat list \<Rightarrow> u32 list \<Rightarrow> nat \<Rightarrow> u32 list" where
  "cluster_medoid base samples centroids assignments medoids centroid =
     (let center = take (vs_dim base) (drop (centroid * vs_dim base) centroids);
          best = foldl (\<lambda>best (s, c). if c \<noteq> centroid \<or> s \<in> set medoids then best
            else closer_row best s (squared_l2_to_vector (row_values base (unat s)) center (vs_dim base)))
            None (zip samples assignments)
      in case best of None \<Rightarrow> medoids | Some (best_id, _) \<Rightarrow> medoids @ [best_id])"

definition select_cluster_medoids :: "vector_set \<Rightarrow> nat \<Rightarrow> nat \<Rightarrow> nat \<Rightarrow> u32 list result" where
  "select_cluster_medoids base requested train_limit iterations =
     (if vs_empty base \<or> requested = 0 then Inr []
      else seq_result (select_evenly_spaced_entries (vs_size base)
          (min (vs_size base) (max requested train_limit))) (\<lambda>samples.
        let centroid_count = min requested (length samples)
        in if centroid_count = 0 then Inr []
           else (let (centroids, assignments) = (cluster_iteration base samples centroid_count ^^ iterations)
                   (seed_clusters base samples centroid_count, replicate (length samples) 0)
                 in Inr (foldl (cluster_medoid base samples centroids assignments) [] [0..<centroid_count]))))"

section \<open>Selection\<close>

text \<open>The loops that append one selection after the other.\<close>

definition append_all :: "nat \<Rightarrow> u32 list \<Rightarrow> u32 list \<Rightarrow> u32 list" where
  "append_all limit = foldl (\<lambda>entries i. append_unique entries i limit)"

definition hub_stage :: "vector_set \<Rightarrow> entry_selection_config \<Rightarrow> u32 list option \<Rightarrow> u32 \<Rightarrow> u32 list" where
  "hub_stage base config node_in_degrees medoid =
     (let limit = es_entry_count config; entries = append_all limit [] [medoid]
      in case node_in_degrees of None \<Rightarrow> entries
       | Some degrees \<Rightarrow> append_all limit entries (select_hub_entries degrees (vs_size base) (es_hub_count config)))"

definition cluster_budget :: "entry_selection_config \<Rightarrow> u32 list \<Rightarrow> nat" where
  "cluster_budget config entries =
     (let remaining_after_hubs = es_entry_count config - length entries
      in if es_cluster_count config = 0 then remaining_after_hubs
         else min (es_cluster_count config) remaining_after_hubs)"

definition fallback_stage :: "vector_set \<Rightarrow> nat \<Rightarrow> u32 list \<Rightarrow> u32 list result" where
  "fallback_stage base limit entries =
     (if length entries < limit
      then seq_result (select_evenly_spaced_entries (vs_size base) limit) (\<lambda>fallback. Inr (append_all limit entries fallback))
      else Inr entries)"

definition select_entry_points ::
  "vector_set \<Rightarrow> entry_selection_config \<Rightarrow> u32 list option \<Rightarrow> u32 list result" where
  "select_entry_points base config node_in_degrees =
     (if vs_empty base \<or> es_entry_count config = 0 then Inr []
      else case es_strategy config of
        SingleMedoid \<Rightarrow> seq_result (select_global_medoid base) (\<lambda>medoid. Inr [medoid])
      | EvenlySpaced \<Rightarrow> select_evenly_spaced_entries (vs_size base) (es_entry_count config)
      | HybridMedoidHubsClusters \<Rightarrow>
          seq_result (select_global_medoid base) (\<lambda>medoid.
          let entries = hub_stage base config node_in_degrees medoid
          in seq_result (select_cluster_medoids base (cluster_budget config entries)
               (es_cluster_train_limit config) (es_cluster_iterations config)) (\<lambda>medoids.
             fallback_stage base (es_entry_count config) (append_all (es_entry_count config) entries medoids))))"

section \<open>Even spacing\<close>

text \<open>Below 2^32 vectors nothing wraps, and the spacing is at least one.\<close>

lemma spaced_mono:
  fixes n a :: nat
  assumes "i < j" and "j \<le> a" and "a \<le> n" and "0 < a"
  shows "i * n div a < j * n div a"
proof -
  have "i * n div a + 1 = (i * n + a) div a" using div_add_self2[of a "i * n"] assms(4) by simp
  also have "\<dots> \<le> (j * n) div a"
    using assms by (intro div_le_mono) (metis Suc_leI add.commute add_le_mono1 mult_Suc mult_le_mono1 order_trans)
  finally show ?thesis by simp
qed

lemma append_new_distinct:
  "distinct (out @ ids) \<Longrightarrow> foldl (\<lambda>entries i. if i \<in> set entries then entries else entries @ [i]) out ids = out @ ids"
  by (induction ids arbitrary: out) auto

text \<open>The spaced identifiers as numbers.\<close>

definition spaced :: "nat \<Rightarrow> nat \<Rightarrow> nat list" where
  "spaced n actual = map (\<lambda>i. if actual = 1 then 0 else i * (n - 1) div (actual - 1)) [0..<actual]"

lemma spaced_less: "0 < n \<Longrightarrow> actual \<le> n \<Longrightarrow> i \<in> set (spaced n actual) \<Longrightarrow> i < n"
proof -
  assume n: "0 < n" "actual \<le> n" and i: "i \<in> set (spaced n actual)"
  then obtain j where j: "j < actual" "i = (if actual = 1 then 0 else j * (n - 1) div (actual - 1))"
    unfolding spaced_def set_map by (elim imageE) simp
  show ?thesis
  proof (cases "actual = 1")
    case False
    then have "j * (n - 1) div (actual - 1) \<le> (actual - 1) * (n - 1) div (actual - 1)"
      using j(1) by (intro div_le_mono mult_le_mono1) simp
    also have "\<dots> = n - 1" using False j(1) by simp
    finally show ?thesis using j False n by simp
  qed (use j n in simp)
qed

lemma spaced_sorted: "actual \<le> n \<Longrightarrow> sorted_wrt (<) (spaced n actual)"
proof (cases "actual = 1")
  case False
  assume "actual \<le> n"
  then show ?thesis
    using False spaced_mono[of _ _ "actual - 1" "n - 1"]
    by (auto simp: spaced_def sorted_wrt_map intro!: sorted_wrt_mono_rel[OF _ sorted_wrt_upt])
qed (simp add: spaced_def)

lemma spaced_distinct: "actual \<le> n \<Longrightarrow> distinct (spaced n actual)"
  using spaced_sorted strict_sorted_iff by blast

lemma unat_small: "i < 2 ^ 32 \<Longrightarrow> unat (word_of_nat i :: u32) = i"
  by (simp add: unat_of_nat)

lemma evenly_spaced_eq:
  assumes "n \<le> 2 ^ 32"
  shows "select_evenly_spaced_entries n requested = Inr (map word_of_nat (spaced n (min requested n)))"
proof (cases "n = 0 \<or> requested = 0")
  case True
  then show ?thesis by (auto simp: select_evenly_spaced_entries_def spaced_def)
next
  case False
  let ?a = "min requested n"
  have wrap: "i * (n - 1) mod 2 ^ 64 = i * (n - 1)" if "i < ?a" for i
  proof -
    have "i * (n - 1) < 2 ^ 32 * 2 ^ 32"
      using that assms False by (intro mult_strict_mono) auto
    then show ?thesis by simp
  qed
  then have ids: "map (\<lambda>i. if ?a = 1 then 0 else (i * (n - 1)) mod 2 ^ 64 div (?a - 1)) [0..<?a] = spaced n ?a"
    by (simp add: spaced_def)
  have less: "i < 2 ^ 32" if "i \<in> set (spaced n ?a)" for i
    using spaced_less[of n ?a i] that assms False by (simp del: set_map)
  have inj: "inj_on (word_of_nat :: nat \<Rightarrow> u32) (set (spaced n ?a))"
    using less unat_small by (intro inj_onI) metis
  have "distinct (map (word_of_nat :: nat \<Rightarrow> u32) (spaced n ?a))"
    using spaced_distinct[of ?a n] inj by (simp add: distinct_map)
  then have "foldl (\<lambda>entries i. if i \<in> set entries then entries else entries @ [i]) []
      (map (word_of_nat :: nat \<Rightarrow> u32) (spaced n ?a)) = map word_of_nat (spaced n ?a)"
    using append_new_distinct[of "[]"] by simp
  moreover have "\<not> (\<exists>i\<in>set (spaced n ?a). 2 ^ 32 \<le> i)" using less by (meson leD)
  ultimately show ?thesis
    using False unfolding select_evenly_spaced_entries_def Let_def ids by (simp add: foldl_map)
qed

lemma spaced_words:
  fixes requested :: nat
  assumes "n \<le> 2 ^ 32"
  defines "ids \<equiv> map (word_of_nat :: nat \<Rightarrow> u32) (spaced n (min requested n))"
  shows "distinct ids" "length ids = min requested n" "\<forall>i\<in>set ids. unat i < n"
proof -
  have less: "i < n" if "i \<in> set (spaced n (min requested n))" for i
    using that spaced_less[of n "min requested n" i] by (cases "n = 0") (auto simp: spaced_def)
  then have small: "unat (word_of_nat i :: u32) = i" if "i \<in> set (spaced n (min requested n))" for i
    using that assms(1) by (intro unat_small) (meson less_le_trans)
  then have "inj_on (word_of_nat :: nat \<Rightarrow> u32) (set (spaced n (min requested n)))"
    by (intro inj_onI) metis
  then show "distinct ids" using spaced_distinct[of "min requested n" n] by (simp add: ids_def distinct_map)
  show "length ids = min requested n" by (simp add: ids_def spaced_def)
  show "\<forall>i\<in>set ids. unat i < n" using less small by (auto simp: ids_def)
qed

section \<open>The entry points\<close>

definition entry_list :: "nat \<Rightarrow> u32 list \<Rightarrow> bool" where
  "entry_list n ids \<longleftrightarrow> distinct ids \<and> (\<forall>i\<in>set ids. unat i < n)"

text \<open>Adding identifiers one by one: nothing is lost until the limit is reached.\<close>

lemma add_entries:
  fixes limit :: nat
  defines "add \<equiv> append_all limit"
  assumes "entry_list n out" and "\<forall>i\<in>set ids. unat i < n" and "length out \<le> limit"
  shows "entry_list n (add out ids)" "length (add out ids) \<le> limit" "set out \<subseteq> set (add out ids)"
    "set ids \<subseteq> set (add out ids) \<or> length (add out ids) = limit"
proof -
  have "entry_list n (add out ids) \<and> length (add out ids) \<le> limit \<and> set out \<subseteq> set (add out ids) \<and>
      (set ids \<subseteq> set (add out ids) \<or> length (add out ids) = limit)"
    using assms(2-4)
  proof (induction ids arbitrary: out)
    case Nil
    then show ?case by (simp add: add_def append_all_def)
  next
    case (Cons i ids)
    let ?out = "append_unique out i limit"
    have step: "entry_list n ?out" "length ?out \<le> limit" "set out \<subseteq> set ?out" "i \<in> set ?out \<or> length ?out = limit"
      using Cons.prems by (auto simp: append_unique_def entry_list_def)
    note IH = Cons.IH[OF step(1) _ step(2)]
    have full: "add o' ids = o'" if "length o' = limit" for o'
      using that by (induction ids) (simp_all add: add_def append_all_def append_unique_def)
    show ?case
    proof (cases "length ?out = limit")
      case True
      then show ?thesis using step full[OF True] by (simp add: add_def append_all_def)
    next
      case False
      then show ?thesis using IH step Cons.prems(2) by (auto simp: add_def append_all_def)
    qed
  qed
  then show "entry_list n (add out ids)" "length (add out ids) \<le> limit" "set out \<subseteq> set (add out ids)"
    "set ids \<subseteq> set (add out ids) \<or> length (add out ids) = limit" by blast+
qed

lemma hubs_less:
  assumes "n \<le> 2 ^ 32"
  shows "\<forall>i\<in>set (select_hub_entries degrees n requested). unat i < n"
proof
  fix i assume "i \<in> set (select_hub_entries degrees n requested)"
  then have "i \<in> set (map (word_of_nat :: nat \<Rightarrow> u32) [0..<min (length degrees) n])"
    by (auto simp: select_hub_entries_def dest!: in_set_takeD split: if_splits)
  then obtain j where j: "j < n" "i = word_of_nat j" by auto
  then show "unat i < n" using assms unat_small[of j] by simp
qed

lemma medoid_less:
  assumes "vs_size base \<le> 2 ^ 32" and "select_global_medoid base = Inr m"
  shows "unat m < vs_size base"
proof -
  have pos: "0 < vs_size base" using assms(2) by (auto simp: select_global_medoid_def vs_empty_def split: if_splits)
  have "unat (fst (foldl (medoid_step base centroid) (0, f32_infinity) [0..<vs_size base])) < vs_size base" for centroid
  proof (rule foldl_inv[where P = "\<lambda>x :: u32 \<times> f32. unat (fst x) < vs_size base"])
    fix x :: "u32 \<times> f32" and row assume "row \<in> set [0..<vs_size base]" "unat (fst x) < vs_size base"
    then show "unat (fst (medoid_step base centroid x row)) < vs_size base"
      using unat_small[of row] assms(1) by (cases x) (simp add: medoid_step_def Let_def)
  qed (use pos in simp)
  then show ?thesis using assms(2) by (auto simp: select_global_medoid_def Let_def split: if_splits)
qed

lemma cluster_medoids_total:
  assumes "vs_size base \<le> 2 ^ 32"
  shows "\<exists>ids. select_cluster_medoids base requested limit iterations = Inr ids"
  unfolding select_cluster_medoids_def evenly_spaced_eq[OF assms] seq_result_simps Let_def case_prod_beta
  by (cases "vs_empty base \<or> requested = 0") simp_all

lemma cluster_medoids_less:
  assumes "vs_size base \<le> 2 ^ 32" and "select_cluster_medoids base requested limit iterations = Inr ids"
  shows "\<forall>i\<in>set ids. unat i < vs_size base"
proof -
  define samples :: "u32 list" where
    "samples = map word_of_nat (spaced (vs_size base) (min (min (vs_size base) (max requested limit)) (vs_size base)))"
  have samples: "\<forall>i\<in>set samples. unat i < vs_size base"
    using spaced_words(3)[OF assms(1), of "min (vs_size base) (max requested limit)"] by (simp only: samples_def)
  have one: "set (cluster_medoid base samples cs as medoids k) \<subseteq> set medoids \<union> set samples" for cs as medoids k
  proof -
    let ?f = "\<lambda>best (s, c). if c \<noteq> k \<or> s \<in> set medoids then best
      else closer_row best s (squared_l2_to_vector (row_values base (unat s)) (take (vs_dim base) (drop (k * vs_dim base) cs)) (vs_dim base))"
    have "set_option (map_option fst (foldl ?f None (zip samples as))) \<subseteq> set samples"
    proof (rule foldl_inv[where P = "\<lambda>b :: (u32 \<times> f32) option. set_option (map_option fst b) \<subseteq> set samples"])
      fix best :: "(u32 \<times> f32) option" and p
      assume p: "p \<in> set (zip samples as)" and best: "set_option (map_option fst best) \<subseteq> set samples"
      obtain s c where sc: "p = (s, c)" by (cases p)
      have "s \<in> set samples" using p sc by (auto dest: set_zip_leftD)
      then show "set_option (map_option fst (?f best p)) \<subseteq> set samples"
        using best unfolding sc by (cases best) (auto simp: closer_row_def split: if_split_asm)
    qed simp
    then show ?thesis by (auto simp: cluster_medoid_def Let_def split: option.splits)
  qed
  have "set (foldl (cluster_medoid base samples cs as) [] ks) \<subseteq> set samples" for cs as ks
    by (rule foldl_inv[where P = "\<lambda>m. set m \<subseteq> set samples"]) (use one in \<open>simp, blast\<close>)
  then have "set ids \<subseteq> set samples"
    using assms(2) unfolding select_cluster_medoids_def evenly_spaced_eq[OF assms(1)] samples_def[symmetric]
    by (auto simp: Let_def split: if_splits prod.splits)
  then show ?thesis using samples by blast
qed

lemma entry_list_full:
  assumes "entry_list n ids" and "entry_list n xs" and "length xs = min limit n" and "length ids \<le> limit"
    and "set xs \<subseteq> set ids \<or> length ids = limit"
  shows "length ids = min limit n"
proof -
  have "distinct (map unat ids)" "set (map unat ids) \<subseteq> {..<n}"
    using assms(1) by (auto simp: entry_list_def distinct_map inj_on_def word_unat_eq_iff)
  then have "length ids \<le> n" by (metis card_lessThan card_mono distinct_card finite_lessThan length_map)
  moreover have "min limit n \<le> length ids"
    using assms(5)
  proof
    assume "set xs \<subseteq> set ids"
    then have "card (set xs) \<le> card (set ids)" by (simp add: card_mono)
    then show ?thesis using assms(1-3) by (simp add: entry_list_def distinct_card)
  qed simp
  ultimately show ?thesis using assms(4) by simp
qed

text \<open>
  The hybrid strategy delivers exactly the number of entries asked for, or one per vector
  when there are fewer: all different and all valid nodes, whatever the in-degrees, cluster
  settings and vectors are.
\<close>

theorem hybrid_entries_complete:
  assumes "vs_size base \<le> 2 ^ 32" and "es_strategy config = HybridMedoidHubsClusters"
    and "select_entry_points base config degrees = Inr ids"
  shows "distinct ids \<and> (\<forall>i\<in>set ids. unat i < vs_size base) \<and>
    length ids = min (es_entry_count config) (vs_size base)"
proof (cases "vs_empty base \<or> es_entry_count config = 0")
  case True
  then show ?thesis using assms(3) by (auto simp: select_entry_points_def vs_empty_def)
next
  case False
  let ?n = "vs_size base" and ?limit = "es_entry_count config"
  obtain m where m: "select_global_medoid base = Inr m"
    using False by (simp add: select_global_medoid_def Let_def)
  let ?e2 = "hub_stage base config degrees m"
  obtain medoids where md: "select_cluster_medoids base (cluster_budget config ?e2) (es_cluster_train_limit config)
      (es_cluster_iterations config) = Inr medoids"
    using cluster_medoids_total[OF assms(1)] by blast
  let ?e3 = "append_all ?limit ?e2 medoids"
  define fallback :: "u32 list" where "fallback = map word_of_nat (spaced ?n (min ?limit ?n))"
  have ids: "ids = (if length ?e3 < ?limit then append_all ?limit ?e3 fallback else ?e3)"
    using assms(2,3) False
    by (simp add: select_entry_points_def m md fallback_stage_def evenly_spaced_eq[OF assms(1)] fallback_def Let_def split: if_splits)
  have empty: "entry_list ?n []" by (simp add: entry_list_def)
  have e1: "entry_list ?n (append_all ?limit [] [m])" "length (append_all ?limit [] [m]) \<le> ?limit"
    using add_entries(1,2)[OF empty, of "[m]" ?limit] medoid_less[OF assms(1) m] by simp_all
  have e2: "entry_list ?n ?e2" "length ?e2 \<le> ?limit"
    using e1 add_entries(1,2)[OF e1(1) hubs_less[OF assms(1)] e1(2)] by (auto simp: hub_stage_def Let_def split: option.splits)
  have e3: "entry_list ?n ?e3" "length ?e3 \<le> ?limit"
    using add_entries(1,2)[OF e2(1) cluster_medoids_less[OF assms(1) md] e2(2)] by simp_all
  note fb = spaced_words[OF assms(1), of ?limit, folded fallback_def]
  note add = add_entries[OF e3(1) fb(3) e3(2)]
  have final: "entry_list ?n ids" "length ids \<le> ?limit" "set fallback \<subseteq> set ids \<or> length ids = ?limit"
    using ids add e3 by (auto split: if_splits)
  have "entry_list ?n fallback" using fb by (simp add: entry_list_def)
  from entry_list_full[OF final(1) this fb(2) final(2,3)] show ?thesis
    using final(1) by (simp add: entry_list_def)
qed

theorem hybrid_entries_complete_witness:
  "\<exists>ids. select_entry_points \<lparr>vs_dim = 1, vs_values = [0, 0x3f800000, 0x40000000]\<rparr>
      \<lparr>es_strategy = HybridMedoidHubsClusters, es_entry_count = 2, es_hub_count = 1, es_cluster_count = 1,
       es_cluster_train_limit = 2, es_cluster_iterations = 1\<rparr> (Some [0, 2, 1]) = Inr ids \<and> length ids = 2"
proof -
  let ?base = "\<lparr>vs_dim = 1, vs_values = [0, 0x3f800000, 0x40000000]\<rparr>"
  let ?config = "\<lparr>es_strategy = HybridMedoidHubsClusters, es_entry_count = 2, es_hub_count = 1, es_cluster_count = 1,
       es_cluster_train_limit = 2, es_cluster_iterations = 1\<rparr>"
  obtain m where m: "select_global_medoid ?base = Inr m"
    by (simp add: select_global_medoid_def vs_empty_def vs_size_def Let_def)
  have size: "vs_size ?base \<le> 2 ^ 32" by (simp add: vs_size_def)
  obtain medoids where "select_cluster_medoids ?base (cluster_budget ?config (hub_stage ?base ?config (Some [0, 2, 1]) m)) 2 1 = Inr medoids"
    using cluster_medoids_total[OF size] by blast
  then obtain ids where ids: "select_entry_points ?base ?config (Some [0, 2, 1]) = Inr ids"
    using m evenly_spaced_eq[OF size]
    by (cases "length (append_all 2 (hub_stage ?base ?config (Some [0, 2, 1]) m) medoids) < 2")
      (auto simp: select_entry_points_def fallback_stage_def vs_empty_def vs_size_def Let_def)
  from hybrid_entries_complete[OF _ _ ids] show ?thesis using ids by (simp add: vs_size_def)
qed

end
