(* ===== verification/GraphSearch.thy ===== *)
theory GraphSearch
  imports QuerySession EntrySelector
begin

text \<open>
  The beam search of \<open>PackedDiskGraphIndex\<close> (\<open>src/graph/disk_graph_index.cpp\<close>): entry points,
  the candidate heap ranked by the product-quantised distance, expansion of one batch of
  nodes per round, early stops and the final exact ranking. \<open>expanded\<close> and \<open>batch_count\<close> of
  the statistics, which the code reads, are fields of the search state; the other counters
  stay in the session. As the reader is synchronous, no prefetch is issued.
\<close>

section \<open>Search state\<close>

record beam =
  bm_visited :: "u32 list"
  bm_candidates :: "search_result list"
  bm_best :: "search_result list"
  bm_stagnant_expansions :: nat
  bm_previous_worst_distance :: nat
  bm_expanded :: nat
  bm_batch_count :: nat

text \<open>What stays fixed during a search.\<close>

record search_setup =
  su_config :: graph_search_config
  su_adc_table :: "f32 list"
  su_effective_k :: nat
  su_result_capacity :: nat
  su_vector_count :: nat

definition closer_first :: "search_result \<Rightarrow> search_result \<Rightarrow> bool" where
  "closer_first lhs rhs =
     (if f32_eq (sr_distance lhs) (sr_distance rhs) then sr_id rhs < sr_id lhs
      else f32_lt (sr_distance rhs) (sr_distance lhs))"

text \<open>Popping the heap worst first, then sorting.\<close>

definition sorted_results :: "search_result list \<Rightarrow> search_result list" where
  "sorted_results heap = std_sort search_result_less (rev heap)"

definition candidate_distance :: "search_setup \<Rightarrow> u32 \<Rightarrow> f32 result" where
  "candidate_distance su i =
     (case gc_pq_model (su_config su) of
        None \<Rightarrow> Inl (Runtime_error ''Packed graph search requires PQ+ADC candidate generation'')
      | Some model \<Rightarrow>
          if su_adc_table su = [] then Inl (Runtime_error ''Packed graph search requires PQ+ADC candidate generation'')
          else adc_distance model i (su_adc_table su))"

fun score_ids :: "search_setup \<Rightarrow> u32 list \<Rightarrow> search_result list result" where
  "score_ids su [] = Inr []"
| "score_ids su (i # is) =
     seq_result (candidate_distance su i) (\<lambda>distance.
     seq_result (score_ids su is) (\<lambda>results. Inr (\<lparr>sr_id = i, sr_distance = distance\<rparr> # results)))"

definition rank_neighbors_by_distance :: "search_setup \<Rightarrow> u32 list \<Rightarrow> search_result list result" where
  "rank_neighbors_by_distance su node_ids =
     seq_result (score_ids su node_ids) (\<lambda>ranked. Inr (std_sort search_result_less ranked))"

definition add_best :: "search_setup \<Rightarrow> search_result \<Rightarrow> beam \<Rightarrow> beam" where
  "add_best su result b = b\<lparr>bm_best := heap_step search_result_less (su_result_capacity su) (bm_best b) result\<rparr>"

definition push_candidate :: "search_setup \<Rightarrow> beam \<Rightarrow> search_result \<Rightarrow> beam" where
  "push_candidate su b result =
     add_best su result (b\<lparr>bm_candidates := push_by closer_first result (bm_candidates b)\<rparr>)"

definition should_stop :: "search_setup \<Rightarrow> beam \<Rightarrow> search_result \<Rightarrow> bool" where
  "should_stop su b next \<longleftrightarrow>
     gc_early_stop (su_config su) \<and> su_result_capacity su \<le> length (bm_best b) \<and>
     gc_early_stop_min_expansions (su_config su) \<le> bm_expanded b \<and>
     f32_lt (sr_distance (last (bm_best b))) (sr_distance next)"

definition f64_infinity :: nat where
  "f64_infinity = inf_mag binary64"

definition update_adaptive_stop :: "search_setup \<Rightarrow> beam \<Rightarrow> beam" where
  "update_adaptive_stop su b =
     (if \<not> gc_adaptive_early_stop (su_config su) \<or> length (bm_best b) < su_result_capacity su then b
      else
        (let current = f64_of_f32 (sr_distance (last (bm_best b)));
             previous = bm_previous_worst_distance b;
             scale = (if fp_lt binary64 (dbl 1) (f64_abs previous) then f64_abs previous else dbl 1);
             improvement = (if fp_finite binary64 previous
                            then fp_div binary64 (fp_sub binary64 previous current) scale else f64_infinity)
         in b\<lparr>bm_stagnant_expansions := (if fp_lt binary64 (gc_early_stop_eps (su_config su)) improvement then 0
                  else bm_stagnant_expansions b + 1),
              bm_previous_worst_distance := current\<rparr>))"

section \<open>Starting a search\<close>

text \<open>Seeds that are nodes, each once; the visited set afterwards.\<close>

definition accept_node :: "nat \<Rightarrow> u32 list \<times> u32 list \<Rightarrow> u32 \<Rightarrow> u32 list \<times> u32 list" where
  "accept_node vector_count = (\<lambda>(accepted, visited) i.
     if vector_count \<le> unat i \<or> i \<in> set visited then (accepted, visited) else (accepted @ [i], i # visited))"

definition accept_nodes :: "nat \<Rightarrow> u32 list \<Rightarrow> u32 list \<Rightarrow> u32 list \<times> u32 list" where
  "accept_nodes vector_count visited ids = foldl (accept_node vector_count) ([], visited) ids"

definition empty_beam :: beam where
  "empty_beam = \<lparr>bm_visited = [], bm_candidates = [], bm_best = [], bm_stagnant_expansions = 0,
     bm_previous_worst_distance = f64_infinity, bm_expanded = 0, bm_batch_count = 0\<rparr>"

definition initialize_search_state :: "nat \<Rightarrow> f32 list \<Rightarrow> graph_search_config \<Rightarrow> (search_setup \<times> beam) result" where
  "initialize_search_state vector_count query config =
     (case gc_pq_model config of
        None \<Rightarrow> Inl (Runtime_error ''Packed graph search requires PQ+ADC; non-PQ candidate generation was removed'')
      | Some model \<Rightarrow>
          if \<not> gc_adc_enable config \<or> \<not> pq_enabled model
          then Inl (Runtime_error ''Packed graph search requires PQ+ADC; non-PQ candidate generation was removed'')
          else
            seq_result (if gc_seed_ids config = [] then select_evenly_spaced_entries vector_count (gc_entry_count config)
                        else Inr (gc_seed_ids config)) (\<lambda>entries.
            let (accepted, visited) = accept_nodes vector_count [] entries;
                effective_k = min (gc_top_k config) vector_count;
                su = \<lparr>su_config = config, su_adc_table = build_adc_table model query, su_effective_k = effective_k,
                      su_result_capacity = min (max effective_k (gc_rerank_topk config)) vector_count,
                      su_vector_count = vector_count\<rparr>
            in seq_result (rank_neighbors_by_distance su accepted) (\<lambda>ranked.
               Inr (su, foldl (push_candidate su) (empty_beam\<lparr>bm_visited := visited\<rparr>) ranked))))"

section \<open>Selecting and expanding a batch\<close>

definition update_frontier :: "search_setup \<Rightarrow> beam \<Rightarrow> bool" where
  "update_frontier su b \<longleftrightarrow>
     (gc_adaptive_early_stop (su_config su) \<and> gc_min_expansions (su_config su) \<le> bm_expanded b \<and>
      gc_early_stop_patience (su_config su) \<le> bm_stagnant_expansions b) \<or>
     (bm_candidates b \<noteq> [] \<and> should_stop su b (last (bm_candidates b)))"

fun pop_window :: "search_setup \<Rightarrow> nat \<Rightarrow> beam \<Rightarrow> search_result list \<times> beam" where
  "pop_window su 0 b = ([], b)"
| "pop_window su (Suc n) b =
     (if bm_candidates b = [] \<or> update_frontier su b then ([], b)
      else (let (window, b') = pop_window su n (b\<lparr>bm_candidates := butlast (bm_candidates b)\<rparr>)
            in (last (bm_candidates b) # window, b')))"

definition select_window :: "search_setup \<Rightarrow> nat \<Rightarrow> beam \<Rightarrow> search_result list \<times> beam" where
  "select_window su effective_beam_width b =
     pop_window su (min effective_beam_width (gc_search_width (su_config su) - bm_expanded b)) b"

text \<open>The pages of a window are looked up for the statistics.\<close>

definition select_candidate_batch ::
  "search_setup \<Rightarrow> nat \<Rightarrow> beam \<Rightarrow> (search_result list \<times> beam) session_op" where
  "select_candidate_batch su effective_beam_width b =
     (let (window, b') = select_window su effective_beam_width b
      in then_do (for_each (\<lambda>c. (\<lambda>s. (page_for_node (sr_id c) s, s))) window) (\<lambda>pages s.
           ret (window, b') (s\<lparr>qs_stats :=
             bump Beam_cached_or_pending_pages (length (remdups (filter (page_available_for_scheduling s) pages)))
               (bump Beam_unique_pages (length (remdups pages)) (qs_stats s))\<rparr>)))"

definition expand_node :: "(u64 \<Rightarrow> nat) \<Rightarrow> search_setup \<Rightarrow> beam \<Rightarrow> search_result \<Rightarrow> (search_result list \<times> beam) session_op" where
  "expand_node lg su b current =
     then_do (get_node lg (sr_id current) (gc_same_page_reuse (su_config su))) (\<lambda>node.
     then_do (\<lambda>s. (page_for_node (sr_id current) s, s)) (\<lambda>page_id.
     then_do (pin_page page_id) (\<lambda>_.
       let (new_neighbors, visited) = accept_nodes (su_vector_count su) (bm_visited b) (dn_neighbors node)
       in then_do (count_up Pq_filter_accept_count (length new_neighbors)) (\<lambda>_.
          then_do (lift_result (rank_neighbors_by_distance su new_neighbors)) (\<lambda>ranked.
          ret (ranked, b\<lparr>bm_visited := visited, bm_expanded := bm_expanded b + 1\<rparr>))))))"

fun expand_nodes ::
  "(u64 \<Rightarrow> nat) \<Rightarrow> search_setup \<Rightarrow> beam \<Rightarrow> search_result list \<Rightarrow> (search_result list list \<times> beam) session_op" where
  "expand_nodes lg su b [] = ret ([], b)"
| "expand_nodes lg su b (c # cs) =
     then_do (expand_node lg su b c) (\<lambda>(ranked, b).
     then_do (expand_nodes lg su b cs) (\<lambda>(rest, b). ret (ranked # rest, b)))"

definition push_ranked :: "search_setup \<Rightarrow> beam \<Rightarrow> search_result list \<Rightarrow> beam" where
  "push_ranked su b ranked = update_adaptive_stop su (foldl (push_candidate su) b ranked)"

definition expand_candidate_batch ::
  "(u64 \<Rightarrow> nat) \<Rightarrow> search_setup \<Rightarrow> search_result list \<Rightarrow> beam \<Rightarrow> beam session_op" where
  "expand_candidate_batch lg su batch b =
     then_do (expand_nodes lg su b batch) (\<lambda>(ranked_neighbors_by_candidate, b).
     ret (foldl (push_ranked su) b ranked_neighbors_by_candidate))"

section \<open>The search\<close>

text \<open>
  The main loop. Every round expands at least one node, so \<open>search_width\<close> rounds are enough;
  \<open>search_rounds_enough\<close> shows that the bound is never what ends the loop.
\<close>

definition search_continues :: "search_setup \<Rightarrow> beam \<Rightarrow> bool" where
  "search_continues su b \<longleftrightarrow> bm_candidates b \<noteq> [] \<and> bm_expanded b < gc_search_width (su_config su)"

definition count_batch :: "nat \<Rightarrow> unit session_op" where
  "count_batch n = upd (\<lambda>s. s\<lparr>qs_stats := (bump Batch_expanded n (qs_stats s))
     (Max_batch_size := max (qs_stats s Max_batch_size) n)\<rparr>)"

fun search_rounds :: "(u64 \<Rightarrow> nat) \<Rightarrow> search_setup \<Rightarrow> nat \<Rightarrow> nat \<Rightarrow> beam \<Rightarrow> beam session_op" where
  "search_rounds lg su width 0 b = ret b"
| "search_rounds lg su width (Suc n) b =
     (if \<not> search_continues su b then ret b
      else then_do (select_candidate_batch su width b) (\<lambda>(batch, b).
        if batch = [] then ret b
        else then_do (for_each (\<lambda>c. (\<lambda>s. (page_for_node (sr_id c) s, s))) batch) (\<lambda>page_ids.
          then_do (ensure_pages_loaded_batch lg page_ids) (\<lambda>_.
          then_do (count_batch (length batch)) (\<lambda>_.
          then_do (expand_candidate_batch lg su batch (b\<lparr>bm_batch_count := bm_batch_count b + 1\<rparr>)) (\<lambda>b.
          search_rounds lg su width n b))))))"

definition rerank_result :: "(u64 \<Rightarrow> nat) \<Rightarrow> f32 list \<Rightarrow> search_result \<Rightarrow> search_result session_op" where
  "rerank_result lg query result =
     then_do (\<lambda>s. (page_for_node (sr_id result) s, s)) (\<lambda>page_id.
     then_do (get_or_load_page lg page_id) (\<lambda>page.
     then_do (lift_result (find_node page (sr_id result))) (\<lambda>node.
     then_do (count_up Distance_direct_calls 1) (\<lambda>_.
     then_do (\<lambda>s. (vector_data (pi_metadata (qs_index s)) page node, s)) (\<lambda>values s.
     ret (result\<lparr>sr_distance := squared_l2 query values (gm_dim (pi_metadata (qs_index s)))\<rparr>) s)))))"

definition rerank_topk_results :: "(u64 \<Rightarrow> nat) \<Rightarrow> f32 list \<Rightarrow> search_result list \<Rightarrow> search_result list session_op" where
  "rerank_topk_results lg query topk s =
     (let reads_before_rerank = qs_stats s Node_reads
      in then_do (for_each (rerank_result lg query) topk) (\<lambda>topk s.
           (Inr (std_sort search_result_less topk),
            s\<lparr>qs_stats := bump Rerank_reads (qs_stats s Node_reads - reads_before_rerank) (qs_stats s)\<rparr>)) s)"

definition finalize_topk :: "(u64 \<Rightarrow> nat) \<Rightarrow> search_setup \<Rightarrow> f32 list \<Rightarrow> beam \<Rightarrow> search_result list session_op" where
  "finalize_topk lg su query b =
     then_do (upd (\<lambda>s. s\<lparr>qs_stats := (qs_stats s)(Visited := length (bm_visited b), Expanded := bm_expanded b,
         Batch_count := bm_batch_count b)\<rparr>)) (\<lambda>_.
     then_do (if su_adc_table su \<noteq> [] \<and> 0 < gc_rerank_topk (su_config su)
         then rerank_topk_results lg query (sorted_results (bm_best b))
         else ret (sorted_results (bm_best b))) (\<lambda>topk.
     then_do finish_query (\<lambda>_. ret (take (su_effective_k su) topk))))"

definition search_body :: "(u64 \<Rightarrow> nat) \<Rightarrow> f32 list \<Rightarrow> graph_search_config \<Rightarrow> search_result list session_op" where
  "search_body lg query config s =
     then_do (lift_result (initialize_search_state (gm_vector_count (pi_metadata (qs_index s))) query config))
       (\<lambda>(su, b).
        let width = max 1 (min (if gc_beam_width config = 0 then gc_search_width config else gc_beam_width config)
                       (gc_search_width config))
        in then_do (count_up Pq_filter_accept_count (length (bm_visited b))) (\<lambda>_.
           then_do (search_rounds lg su width (gc_search_width config) b) (finalize_topk lg su query))) s"

text \<open>
  \<open>search_one\<close>. When an exception leaves it, the destructor of the session finishes the query
  and swallows what that throws; when the session could not be built, there is none to finish.
\<close>

definition packed_search_one ::
  "(u64 \<Rightarrow> nat) \<Rightarrow> f32 list \<Rightarrow> graph_search_config \<Rightarrow> packed_index \<Rightarrow> disk \<Rightarrow>
   (search_result list \<times> search_stats) result \<times> packed_index \<times> disk" where
  "packed_search_one lg query config idx d =
     (if gc_top_k config = 0 \<or> gc_search_width config = 0 \<or> gc_entry_count config = 0
      then (Inl (Runtime_error ''Packed graph search top_k, search_width, and entry_count must be positive''), idx, d)
      else case QueryPageSession idx config no_stats d of
        (Inl e, d) \<Rightarrow> (Inl e, idx, d)
      | (Inr s, _) \<Rightarrow>
          (let (r, s) = search_body lg query config s;
               s = snd (finish_query s)
           in (seq_result r (\<lambda>topk. Inr (topk, qs_stats s)), qs_index s, qs_disk s)))"

end
