(* ===== verification/SessionLogic.thy ===== *)
theory SessionLogic
  imports GraphSearch
begin

text \<open>
  A small program logic for the operations of a session, and what each of them keeps: the
  cache holds the file's pages, a page is pinned exactly while the query holds it, the
  session's copies of pages and nodes are those of the file.
\<close>

section \<open>Specifications\<close>

text \<open>From \<open>P\<close>, a normal return establishes \<open>Q\<close> and an exception leaves \<open>E\<close>.\<close>

definition spec :: "(session \<Rightarrow> bool) \<Rightarrow> 'a session_op \<Rightarrow> ('a \<Rightarrow> session \<Rightarrow> bool) \<Rightarrow> (session \<Rightarrow> bool) \<Rightarrow> bool" where
  "spec P f Q E \<longleftrightarrow> (\<forall>s. P s \<longrightarrow> (case f s of (Inr x, s') \<Rightarrow> Q x s' | (Inl e, s') \<Rightarrow> E s'))"

named_theorems spec_rules "proof rules of the session logic"

lemma specI: "(\<And>s. P s \<Longrightarrow> case f s of (Inr x, s') \<Rightarrow> Q x s' | (Inl e, s') \<Rightarrow> E s') \<Longrightarrow> spec P f Q E"
  by (simp add: spec_def)

lemma specD: "spec P f Q E \<Longrightarrow> P s \<Longrightarrow> case f s of (Inr x, s') \<Rightarrow> Q x s' | (Inl e, s') \<Rightarrow> E s'"
  by (simp add: spec_def)

lemma spec_conseq:
  assumes "spec P' f Q' E'" and "\<And>s. P s \<Longrightarrow> P' s" and "\<And>x s. Q' x s \<Longrightarrow> Q x s" and "\<And>s. E' s \<Longrightarrow> E s"
  shows "spec P f Q E"
  using assms unfolding spec_def by (fastforce split: prod.splits sum.splits)

lemma spec_ret [spec_rules]: "(\<And>s. P s \<Longrightarrow> Q x s) \<Longrightarrow> spec P (ret x) Q E"
  by (simp add: spec_def ret_def)

lemma spec_lift [spec_rules]: "(\<And>s. P s \<Longrightarrow> case r of Inr x \<Rightarrow> Q x s | Inl e \<Rightarrow> E s) \<Longrightarrow> spec P (lift_result r) Q E"
  by (simp add: spec_def lift_result_def split: sum.splits)

lemma spec_upd [spec_rules]: "(\<And>s. P s \<Longrightarrow> Q () (f s)) \<Longrightarrow> spec P (upd f) Q E"
  by (simp add: spec_def upd_def)

lemma spec_then:
  assumes "spec P f R E" and "\<And>x. spec (R x) (g x) Q E"
  shows "spec P (then_do f g) Q E"
  using assms unfolding spec_def then_do_def by (fastforce split: prod.splits sum.splits)

lemma spec_bind:
  assumes "spec P f R E" and "\<And>x s. R x s \<Longrightarrow> case g x s of (Inr y, s') \<Rightarrow> Q y s' | (Inl e, s') \<Rightarrow> E s'"
  shows "spec P (then_do f g) Q E"
  by (rule spec_then[OF assms(1)]) (use assms(2) in \<open>simp add: spec_def\<close>)

lemma spec_pre: "(\<And>s0. P s0 \<Longrightarrow> spec (\<lambda>s. s = s0) f Q E) \<Longrightarrow> spec P f Q E"
  by (simp add: spec_def)

lemma spec_fact: "(F \<Longrightarrow> spec P f Q E) \<Longrightarrow> spec (\<lambda>s. P s \<and> F) f Q E"
  by (simp add: spec_def)

lemma spec_for_each:
  assumes "\<And>x. x \<in> set xs \<Longrightarrow> spec I (f x) (\<lambda>y s. I s \<and> K x y) E"
  shows "spec I (for_each f xs) (\<lambda>ys s. I s \<and> list_all2 K xs ys) E"
  using assms
proof (induction xs)
  case Nil
  then show ?case by (simp add: spec_def ret_def)
next
  case (Cons x xs)
  have "spec (\<lambda>s. I s \<and> K x y) (then_do (for_each f xs) (\<lambda>ys. ret (y # ys))) (\<lambda>ys s. I s \<and> list_all2 K (x # xs) ys) E" for y
  proof (rule spec_fact)
    assume y: "K x y"
    have "spec I (for_each f xs) (\<lambda>ys s. I s \<and> list_all2 K xs ys) E" using Cons by simp
    then show "spec I (then_do (for_each f xs) (\<lambda>ys. ret (y # ys))) (\<lambda>ys s. I s \<and> list_all2 K (x # xs) ys) E"
      by (rule spec_then) (use y in \<open>auto intro: spec_ret\<close>)
  qed
  then show ?case by (simp only: for_each.simps) (rule spec_then[OF Cons.prems], simp)
qed

section \<open>Pins\<close>

text \<open>Exactly the pages in \<open>ps\<close> are pinned, each once, and they are all cached.\<close>

definition pins_ok :: "u32 list \<Rightarrow> packed_index \<Rightarrow> bool" where
  "pins_ok ps idx \<longleftrightarrow> distinct ps \<and> um_ok (pi_page_cache idx) \<and>
     (\<forall>k\<in>set ps. um_find (pi_page_cache idx) k \<noteq> None) \<and>
     (\<forall>k e. um_find (pi_page_cache idx) k = Some e \<longrightarrow> ce_pin_count e = (if k \<in> set ps then 1 else 0))"

lemma pins_reassign:
  assumes "pins_ok ps idx" and "um_find (pi_page_cache idx) j = Some e" and "ce_pin_count e' = ce_pin_count e"
  shows "pins_ok ps (idx\<lparr>pi_cache_clock := clock, pi_page_cache := um_assign j e' (pi_page_cache idx)\<rparr>)"
  using assms by (auto simp: pins_ok_def)

lemma lookup_pins: "lookup_cached_page j idx s = (r, idx', s') \<Longrightarrow> pins_ok ps idx \<Longrightarrow> pins_ok ps idx'"
  using lookup_cases[of j idx s r idx' s'] pins_reassign[of ps idx j] by blast

lemma pins_scratch [simp]: "pins_ok ps (idx\<lparr>pi_scratch_page := v\<rparr>) = pins_ok ps idx"
  by (simp add: pins_ok_def)

lemma insert_pins:
  assumes "insert_page lg j page idx s = (r, idx', s')" and "pins_ok ps idx" and "um_find (pi_page_cache idx) j = None"
  shows "pins_ok ps idx'"
proof -
  have ok: "um_ok (pi_page_cache idx)" using assms(2) by (simp add: pins_ok_def)
  have j: "j \<notin> set ps" using assms(2,3) by (auto simp: pins_ok_def)
  from insert_page_cases[OF assms(1) ok] show ?thesis
  proof (elim conjE disjE exE)
    fix v assume "idx' = idx\<lparr>pi_scratch_page := v\<rparr>"
    then show ?thesis using assms(2) by simp
  next
    fix clock e' cache assume "idx' = idx\<lparr>pi_cache_clock := clock, pi_page_cache := um_assign j e' cache\<rparr>"
      "ce_pin_count e' = 0" "cache = pi_page_cache idx"
    then show ?thesis using assms(2) j by (auto simp: pins_ok_def)
  next
    fix clock e' cache i q
    assume a: "idx' = idx\<lparr>pi_cache_clock := clock, pi_page_cache := um_assign j e' cache\<rparr>" "ce_pin_count e' = 0"
      "um_find (pi_page_cache idx) i = Some q" "ce_pin_count q = 0" "cache = um_erase i (pi_page_cache idx)"
    then have "i \<notin> set ps" using assms(2) by (auto simp: pins_ok_def split: if_splits)
    then show ?thesis using a assms(2) j by (auto simp: pins_ok_def split: if_splits)
  qed
qed

lemma store_pins:
  assumes "store_cached_page lg page idx s = (r, idx', s')" and "pins_ok ps idx"
  shows "pins_ok ps idx'"
proof (cases "cache_enabled idx")
  case False
  then show ?thesis using assms by (auto simp: store_cached_page_def)
next
  case True
  show ?thesis
  proof (cases "um_find (pi_page_cache idx) (dp_page_id page)")
    case None
    then have "insert_page lg (dp_page_id page) page idx s = (r, idx', s')"
      using assms(1) True by (simp add: store_cached_page_def)
    then show ?thesis using insert_pins assms(2) None by blast
  next
    case (Some e)
    let ?e = "promote_entry idx ((touch_entry idx e)\<lparr>ce_page := page, ce_hot_score := page_hot_score idx page\<rparr>)"
    have "ce_pin_count ?e = ce_pin_count e" by (simp add: promote_entry_def touch_entry_def)
    moreover have "idx' = idx\<lparr>pi_cache_clock := pi_cache_clock idx + 1,
        pi_page_cache := um_assign (dp_page_id page) ?e (pi_page_cache idx)\<rparr>"
      using assms(1) True Some by (auto simp: store_cached_page_def Let_def)
    ultimately show ?thesis using pins_reassign[OF assms(2) Some] by simp
  qed
qed

lemma pin_pins:
  assumes "pin_if_cached k idx = (r, idx')" and "pins_ok ps idx" and "k \<notin> set ps"
  shows "if r then pins_ok (k # ps) idx' else idx' = idx"
  using assms by (auto simp: pin_if_cached_def pins_ok_def split: option.splits if_splits)

lemma unpin_pins:
  assumes "unpin_if_cached k idx = (r, idx')" and "pins_ok (k # ps) idx"
  shows "r = Inr () \<and> pins_ok ps idx'"
proof -
  have ok: "um_ok (pi_page_cache idx)" and k: "k \<notin> set ps" "distinct ps"
    and there: "\<And>j. j \<in> set ps \<Longrightarrow> um_find (pi_page_cache idx) j \<noteq> None"
    and pins: "\<And>j e. um_find (pi_page_cache idx) j = Some e \<Longrightarrow> ce_pin_count e = (if j \<in> insert k (set ps) then 1 else 0)"
    using assms(2) unfolding pins_ok_def by simp_all
  obtain e where e: "um_find (pi_page_cache idx) k = Some e" using assms(2) by (auto simp: pins_ok_def)
  have "ce_pin_count e = 1" using pins[OF e] by simp
  then have r: "r = Inr ()" and idx': "idx' = idx\<lparr>pi_page_cache := um_assign k (e\<lparr>ce_pin_count := 0\<rparr>) (pi_page_cache idx)\<rparr>"
    using assms(1) e by (simp_all add: unpin_if_cached_def)
  have "ce_pin_count q = (if j \<in> set ps then 1 else 0)" if "um_find (pi_page_cache idx') j = Some q" for j q
    using that pins[of j q] k(1) ok by (cases "j = k") (auto simp: idx' split: if_splits)
  then show ?thesis using r ok k(2) there by (simp add: pins_ok_def) (simp add: idx')
qed

section \<open>What holds throughout a query\<close>

text \<open>
  The index the query started on: its metadata and directory, and the pages of its file.
  \<open>file_node\<close> is the node of an identifier, on the page the directory names.
\<close>

definition file_node :: "packed_index \<Rightarrow> disk \<Rightarrow> u32 \<Rightarrow> disk_node option" where
  "file_node idx d i =
     (if length (pi_node_to_page idx) \<le> unat i then None
      else case file_page idx d (pi_node_to_page idx ! unat i) of
        None \<Rightarrow> None | Some page \<Rightarrow> find (\<lambda>node. dn_id node = i) (dp_nodes page))"

text \<open>The directory and the pages of the file agree.\<close>

definition directory_ok :: "packed_index \<Rightarrow> disk \<Rightarrow> bool" where
  "directory_ok idx d \<longleftrightarrow> length (pi_node_to_page idx) = gm_vector_count (pi_metadata idx) \<and> 0 < gm_dim (pi_metadata idx) \<and>
     (\<forall>p page. file_page idx d p = Some page \<longrightarrow> (\<forall>node\<in>set (dp_nodes page).
        unat (dn_id node) < length (pi_node_to_page idx) \<and> pi_node_to_page idx ! unat (dn_id node) = p))"

text \<open>The index after some steps of a query that began with index \<open>idx0\<close> on disk \<open>d0\<close>.\<close>

definition index_ok :: "packed_index \<Rightarrow> disk \<Rightarrow> session \<Rightarrow> bool" where
  "index_ok idx0 d0 s \<longleftrightarrow> cache_inv (qs_disk s) (qs_index s) \<and> files (qs_disk s) = files d0 \<and>
     pi_metadata (qs_index s) = pi_metadata idx0 \<and> pi_node_to_page (qs_index s) = pi_node_to_page idx0 \<and>
     pr_path (pi_reader (qs_index s)) = pr_path (pi_reader idx0) \<and>
     pr_status (pi_reader (qs_index s)) = pr_status (pi_reader idx0) \<and>
     pr_fd_open (pi_reader (qs_index s)) = pr_fd_open (pi_reader idx0) \<and>
     pins_ok (qs_pinned_pages s) (qs_index s)"

definition nodes_ok :: "packed_index \<Rightarrow> disk \<Rightarrow> (u32, disk_node) umap \<Rightarrow> bool" where
  "nodes_ok idx0 d0 local \<longleftrightarrow> um_ok local \<and> (\<forall>i node. um_find local i = Some node \<longrightarrow>
     (\<exists>values. map_option (dn_vector_update (\<lambda>_. values)) (file_node idx0 d0 i) = Some node \<and> values \<noteq> []))"

text \<open>The copies of pages and nodes; owned pages outside \<open>pending\<close> are materialised.\<close>

definition copies_ok :: "u32 set \<Rightarrow> packed_index \<Rightarrow> disk \<Rightarrow> session \<Rightarrow> bool" where
  "copies_ok pending idx0 d0 s \<longleftrightarrow> um_ok (qs_owned_pages s) \<and> nodes_ok idx0 d0 (qs_local_nodes s) \<and>
     (\<forall>k page. um_find (qs_owned_pages s) k = Some page \<longrightarrow>
        file_page idx0 d0 k = Some page \<and> k \<in> set (qs_materialized_pages s) \<union> pending) \<and>
     (\<forall>k page. k \<in> set (qs_materialized_pages s) \<longrightarrow> file_page idx0 d0 k = Some page \<longrightarrow>
        (\<forall>node\<in>set (dp_nodes page). um_find (qs_local_nodes s) (dn_id node) \<noteq> None))"

lemma index_page:
  assumes "index_ok idx0 d0 s"
  shows "file_page (qs_index s) (qs_disk s) k = file_page idx0 d0 k"
  using assms file_page_same[of "qs_index s" idx0 "qs_disk s" k] file_page_files[of "qs_disk s" d0 idx0 k]
  by (simp add: index_ok_def)

lemma index_okI:
  assumes "index_ok idx0 d0 s" and "same_store (qs_index s) (qs_index s')" and "cache_inv (qs_disk s') (qs_index s')"
    and "files (qs_disk s') = files (qs_disk s)" and "pins_ok (qs_pinned_pages s') (qs_index s')"
  shows "index_ok idx0 d0 s'"
  using assms by (simp add: index_ok_def same_store_def)

section \<open>Decoded pages\<close>

lemma get_list_all:
  assumes "get_list f xs c = Inr (vs, c')" and "\<And>x c v c'. f x c = Inr (v, c') \<Longrightarrow> P v"
  shows "length vs = length xs \<and> (\<forall>v\<in>set vs. P v)"
  using assms(1)
proof (induction xs arbitrary: c vs c')
  case (Cons x xs)
  obtain v c1 where v: "f x c = Inr (v, c1)" using Cons.prems by (cases "f x c") auto
  obtain ws c2 where ws: "get_list f xs c1 = Inr (ws, c2)" using Cons.prems v by (cases "get_list f xs c1") auto
  then have "vs = v # ws" using Cons.prems v by simp
  then show ?case using Cons.IH[OF ws] assms(2)[OF v] by simp
qed simp

lemma decoded_vectors:
  assumes "decode_packed_page meta k bs = Inr page"
  shows "dp_bytes page = bs \<and> (\<forall>node\<in>set (dp_nodes page). dn_vector node = [] \<and>
    dn_vector_offset node + gm_dim meta * 4 \<le> length bs)"
proof -
  let ?slots = "[0..<gm_nodes_per_page meta]"
  obtain stored c1 where 1: "get_bytes bs 0 = Inr (stored :: u32, c1)"
    using assms unfolding decode_packed_page_def Let_def by (elim seq_pairE)
  obtain n c2 where 2: "get_bytes bs c1 = Inr (n :: u32, c2)"
    using assms unfolding decode_packed_page_def Let_def 1 seq_result_simps prod.case by (elim seq_pairE)
  have ok: "stored = k" "unat n \<le> gm_nodes_per_page meta"
    using assms unfolding decode_packed_page_def Let_def 1 2 seq_result_simps prod.case by (auto split: if_split_asm)
  then have cond: "(stored \<noteq> k \<or> gm_nodes_per_page meta < unat n) = False" by simp
  note step = assms[unfolded decode_packed_page_def Let_def 1 2 seq_result_simps prod.case cond if_False]
  obtain ids c3 where 3: "get_list (\<lambda>_. get_bytes bs) ?slots c2 = Inr (ids :: u32 list, c3)"
    using step by (elim seq_pairE)
  obtain degrees c4 where 4: "get_list (\<lambda>_. get_bytes bs) ?slots c3 = Inr (degrees :: u32 list, c4)"
    using step unfolding 3 seq_result_simps prod.case by (elim seq_pairE)
  obtain offsets c5 where 5: "get_list (\<lambda>_. get_vector_slot meta bs) ?slots c4 = Inr (offsets, c5)"
    using step unfolding 3 4 seq_result_simps prod.case by (elim seq_pairE)
  have "length offsets = length ?slots \<and> (\<forall>v\<in>set offsets. v + gm_dim meta * 4 \<le> length bs)"
    by (rule get_list_all[OF 5]) (auto simp: get_vector_slot_def split: if_splits)
  then have off: "offsets ! j + gm_dim meta * 4 \<le> length bs" if "j < unat n" for j
    using that ok(2) by simp
  obtain ns cs where page: "page = \<lparr>dp_page_id = stored, dp_bytes = bs,
      dp_nodes = map (\<lambda>slot. \<lparr>dn_id = ids ! slot, dn_neighbors = ns slot, dn_neighbor_pq_codes = cs slot,
        dn_vector = [], dn_vector_offset = offsets ! slot\<rparr>) [0..<unat n]\<rparr>"
  proof -
    from step show thesis
      unfolding 3 4 5 seq_result_simps prod.case
      by (elim seq_pairE) (simp only: sum.inject, rule that, erule sym)
  qed
  show ?thesis using off by (auto simp: page)
qed

lemma get_many_enough: "4 * n \<le> length bs \<Longrightarrow> \<exists>xs rest. get_many get_word n bs = Some (xs :: u32 list, rest)"
proof (induction n arbitrary: bs)
  case (Suc n)
  then have "4 * n \<le> length (drop 4 bs)" by simp
  then obtain xs :: "u32 list" and rest where "get_many get_word n (drop 4 bs) = Some (xs, rest)"
    using Suc.IH by blast
  moreover have "get_word bs = Some (dec_word (take 4 bs) :: u32, drop 4 bs)"
    using Suc.prems by (simp add: get_word_def)
  ultimately show ?case by simp
qed simp

lemma file_page_vector:
  assumes "file_page idx d k = Some page" and "node \<in> set (dp_nodes page)" and "0 < gm_dim (pi_metadata idx)"
  shows "dn_vector node = [] \<and> (\<exists>values. vector_data (pi_metadata idx) page node = Inr values \<and> values \<noteq> [])"
proof -
  obtain bs where "decode_packed_page (pi_metadata idx) k bs = Inr page" using file_page_decoded[OF assms(1)] by blast
  note dec = decoded_vectors[OF this]
  let ?rest = "drop (dn_vector_offset node) (dp_bytes page)"
  have len: "dn_vector_offset node + gm_dim (pi_metadata idx) * 4 \<le> length (dp_bytes page)"
    using dec assms(2) by simp
  have "4 * gm_dim (pi_metadata idx) \<le> length ?rest" using len by simp
  then obtain v rest where v: "get_many get_word (gm_dim (pi_metadata idx)) ?rest = Some (v :: f32 list, rest)"
    using get_many_enough by blast
  then have "length v = gm_dim (pi_metadata idx)" by (rule get_many_length)
  then show ?thesis using dec assms(2,3) len v by (auto simp: vector_data_def)
qed

section \<open>The invariant of a query\<close>

text \<open>
  A query that has not ended, with \<open>Z\<close> holding of its reader. With \<open>reliable\<close>, no I/O call fails any more; the rules below then
  rule out exceptions for files that are complete (\<open>readable\<close>).
\<close>

definition query_but ::
  "(page_reader \<Rightarrow> bool) \<Rightarrow> u32 set \<Rightarrow> bool \<Rightarrow> packed_index \<Rightarrow> disk \<Rightarrow> session \<Rightarrow> bool" where
  "query_but Z pending reliable idx0 d0 s \<longleftrightarrow> index_ok idx0 d0 s \<and> copies_ok pending idx0 d0 s \<and> \<not> qs_finished s \<and>
     Z (pi_reader (qs_index s)) \<and> (reliable \<longrightarrow> outcomes (qs_disk s) = [])"

abbreviation query_ok :: "(page_reader \<Rightarrow> bool) \<Rightarrow> bool \<Rightarrow> packed_index \<Rightarrow> disk \<Rightarrow> session \<Rightarrow> bool" where
  "query_ok Z \<equiv> query_but Z {}"

definition readable :: "packed_index \<Rightarrow> disk \<Rightarrow> bool" where
  "readable idx d \<longleftrightarrow> pr_fd_open (pi_reader idx) \<and> (\<forall>p. unat p < gm_page_count (pi_metadata idx) \<longrightarrow> file_page idx d p \<noteq> None \<and>
     (is_direct_enabled (pr_status (pi_reader idx)) \<longrightarrow>
        unat (page_offset idx p) mod 4096 = 0 \<and> gm_page_size (pi_metadata idx) mod 4096 = 0))"

text \<open>What an exception leaves: the index is sound, and nothing was reliable or the file had a hole.\<close>

definition failed_ok :: "bool \<Rightarrow> packed_index \<Rightarrow> disk \<Rightarrow> session \<Rightarrow> bool" where
  "failed_ok reliable idx0 d0 s \<longleftrightarrow> index_ok idx0 d0 s \<and> \<not> qs_finished s \<and> \<not> reliable"

abbreviation keeps ::
  "(page_reader \<Rightarrow> bool) \<Rightarrow> bool \<Rightarrow> packed_index \<Rightarrow> disk \<Rightarrow> 'a session_op \<Rightarrow> ('a \<Rightarrow> bool) \<Rightarrow> bool" where
  "keeps Z reliable idx0 d0 f K \<equiv>
     spec (query_ok Z reliable idx0 d0) f (\<lambda>x s. query_ok Z reliable idx0 d0 s \<and> K x) (failed_ok reliable idx0 d0)"

lemma keeps_then:
  assumes "keeps Z R i d f K" and "\<And>x. K x \<Longrightarrow> keeps Z R i d (g x) L"
  shows "keeps Z R i d (then_do f g) L"
  by (rule spec_then[OF assms(1)]) (rule spec_fact, rule assms(2))

lemma keeps_ret: "K x \<Longrightarrow> keeps Z R i d (ret x) K"
  by (simp add: spec_ret)

lemma keeps_weaken: "keeps Z R i d f K \<Longrightarrow> (\<And>x. K x \<Longrightarrow> L x) \<Longrightarrow> keeps Z R i d f L"
  by (erule spec_conseq) auto

lemma keeps_for_each:
  assumes "\<And>x. x \<in> set xs \<Longrightarrow> keeps Z R i d (f x) (K x)"
  shows "keeps Z R i d (for_each f xs) (list_all2 K xs)"
  by (rule spec_for_each) (rule assms)

text \<open>Steps that change counters or the page lists only.\<close>

lemma query_ok_stats [simp]:
  "query_but Z P R i d (s\<lparr>qs_stats := x\<rparr>) = query_but Z P R i d s"
  "query_but Z P R i d (s\<lparr>qs_visited_pages := v\<rparr>) = query_but Z P R i d s"
  "query_but Z P R i d (s\<lparr>qs_demand_pages := v\<rparr>) = query_but Z P R i d s"
  by (simp_all add: query_but_def index_ok_def copies_ok_def )

lemma keeps_count: "K () \<Longrightarrow> keeps Z R i d (count_up c n) K" "K () \<Longrightarrow> keeps Z R i d (count_all cs) K"
  by (simp_all add: count_up_def count_all_def spec_upd)

text \<open>A step of the index that keeps the reader.\<close>

lemma query_ok_index:
  assumes "query_ok Z R i d s" and "same_store (qs_index s) idx" and "cache_inv (qs_disk s) idx"
    and "pins_ok (qs_pinned_pages s) idx"
  shows "query_ok Z R i d (s\<lparr>qs_index := idx\<rparr>)"
  using assms by (simp add: query_but_def index_ok_def copies_ok_def same_store_def)

lemma query_okD:
  assumes "query_ok Z R i d s"
  shows "cache_inv (qs_disk s) (qs_index s)" "pins_ok (qs_pinned_pages s) (qs_index s)"
    "pi_metadata (qs_index s) = pi_metadata i" "pi_node_to_page (qs_index s) = pi_node_to_page i"
    "copies_ok {} i d s" "index_ok i d s" "\<not> qs_finished s"
    "file_page (qs_index s) (qs_disk s) k = file_page i d k"
  using assms index_page[of i d s k] by (simp_all add: query_but_def index_ok_def)

section \<open>Materialised pages\<close>

lemma keeps_cached: "keeps Z R i d (try_get_cached_page k) (\<lambda>r. \<forall>page. r = Some page \<longrightarrow> file_page i d k = Some page)"
proof (rule specI)
  fix s assume s: "query_ok Z R i d s"
  obtain c idx stats where l: "lookup_cached_page k (qs_index s) (qs_stats s) = (c, idx, stats)"
    by (cases "lookup_cached_page k (qs_index s) (qs_stats s)")
  note li = lookup_inv[OF l query_okD(1)[OF s]]
  have "query_ok Z R i d (s\<lparr>qs_index := idx\<rparr>)"
    using li lookup_pins[OF l query_okD(2)[OF s]] by (intro query_ok_index[OF s]) auto
  then show "case try_get_cached_page k s of (Inl e, s') \<Rightarrow> failed_ok R i d s' |
      (Inr x, s') \<Rightarrow> query_ok Z R i d s' \<and> (\<forall>page. x = Some page \<longrightarrow> file_page i d k = Some page)"
    using li l query_okD(8)[OF s, of k]
    by (auto simp: try_get_cached_page_def query_but_def index_ok_def copies_ok_def )
qed

lemma file_node_on_page:
  assumes "directory_ok i d" and "file_page i d p = Some page" and "dp_nodes page = pre @ node # post"
    and "\<forall>n\<in>set pre. dn_id n \<noteq> dn_id node"
  shows "file_node i d (dn_id node) = Some node"
proof -
  have "unat (dn_id node) < length (pi_node_to_page i)" "pi_node_to_page i ! unat (dn_id node) = p"
    using assms(1-3) by (auto simp: directory_ok_def)
  moreover have "find (\<lambda>n. dn_id n = dn_id node) (pre @ node # post) = Some node"
    using assms(4) by (induction pre) auto
  ultimately show ?thesis using assms(2,3) by (simp add: file_node_def)
qed

lemma materialize_nodes:
  assumes dir: "directory_ok i d" and page: "file_page i d p = Some page" and "dp_nodes page = pre @ todo"
    and "nodes_ok i d (qs_local_nodes s)" and "pi_metadata (qs_index s) = pi_metadata i"
    and "\<forall>n\<in>set pre. um_find (qs_local_nodes s) (dn_id n) \<noteq> None"
  shows "\<exists>us local. for_each (materialize_node page) todo s = (Inr us, s\<lparr>qs_local_nodes := local\<rparr>) \<and> nodes_ok i d local \<and>
    (\<forall>n\<in>set (dp_nodes page). um_find local (dn_id n) \<noteq> None) \<and>
    (\<forall>k. um_find (qs_local_nodes s) k \<noteq> None \<longrightarrow> um_find local k \<noteq> None)"
  using assms(3-6)
proof (induction todo arbitrary: pre s)
  case Nil
  show ?case using Nil by (intro exI[of _ "[]"] exI[of _ "qs_local_nodes s"]) (simp add: ret_def)
next
  case (Cons node todo)
  have ok: "um_ok (qs_local_nodes s)" using Cons.prems(2) by (simp add: nodes_ok_def)
  have step: "\<exists>local. materialize_node page node s = (Inr (), s\<lparr>qs_local_nodes := local\<rparr>) \<and> nodes_ok i d local \<and>
      um_find local (dn_id node) \<noteq> None \<and> (\<forall>k. um_find (qs_local_nodes s) k \<noteq> None \<longrightarrow> um_find local k \<noteq> None)"
  proof (cases "um_find (qs_local_nodes s) (dn_id node)")
    case (Some found)
    let ?local = "um_assign (dn_id node) found (qs_local_nodes s)"
    obtain vs where "map_option (dn_vector_update (\<lambda>_. vs)) (file_node i d (dn_id node)) = Some found" "vs \<noteq> []"
      using Cons.prems(2) Some unfolding nodes_ok_def by blast
    then have "dn_vector found \<noteq> []" by auto
    then have "materialize_node page node s = (Inr (), s\<lparr>qs_local_nodes := ?local\<rparr>)"
      by (simp add: materialize_node_def Some Let_def)
    moreover have "nodes_ok i d ?local" using Cons.prems(2) Some ok by (auto simp: nodes_ok_def)
    ultimately show ?thesis using ok by (intro exI[of _ ?local]) auto
  next
    case None
    obtain vs where v: "vector_data (pi_metadata i) page node = Inr vs" "vs \<noteq> []" and empty: "dn_vector node = []"
      using file_page_vector[OF page, of node] Cons.prems(1) dir by (auto simp: directory_ok_def)
    let ?local = "um_assign (dn_id node) (node\<lparr>dn_vector := vs\<rparr>) (um_assign (dn_id node) node (qs_local_nodes s))"
    have "materialize_node page node s = (Inr (), s\<lparr>qs_local_nodes := ?local\<rparr>)"
      using v empty Cons.prems(3) by (simp add: materialize_node_def None Let_def)
    moreover have "file_node i d (dn_id node) = Some node"
      using None Cons.prems(4) by (intro file_node_on_page[OF dir page Cons.prems(1)]) auto
    then have "nodes_ok i d ?local" using Cons.prems(2) v(2) ok by (auto simp: nodes_ok_def)
    ultimately show ?thesis using ok by (intro exI[of _ ?local]) auto
  qed
  then obtain local where local: "materialize_node page node s = (Inr (), s\<lparr>qs_local_nodes := local\<rparr>)" "nodes_ok i d local"
      "um_find local (dn_id node) \<noteq> None" "\<forall>k. um_find (qs_local_nodes s) k \<noteq> None \<longrightarrow> um_find local k \<noteq> None"
    by blast
  have "\<exists>us local'. for_each (materialize_node page) todo (s\<lparr>qs_local_nodes := local\<rparr>) =
      (Inr us, s\<lparr>qs_local_nodes := local\<rparr>\<lparr>qs_local_nodes := local'\<rparr>) \<and> nodes_ok i d local' \<and>
      (\<forall>n\<in>set (dp_nodes page). um_find local' (dn_id n) \<noteq> None) \<and>
      (\<forall>k. um_find (qs_local_nodes (s\<lparr>qs_local_nodes := local\<rparr>)) k \<noteq> None \<longrightarrow> um_find local' k \<noteq> None)"
    using local Cons.prems by (intro Cons.IH[of "pre @ [node]"]) auto
  then obtain us local' where "for_each (materialize_node page) todo (s\<lparr>qs_local_nodes := local\<rparr>) =
      (Inr us, s\<lparr>qs_local_nodes := local'\<rparr>)" "nodes_ok i d local'"
      "\<forall>n\<in>set (dp_nodes page). um_find local' (dn_id n) \<noteq> None"
      "\<forall>k. um_find local k \<noteq> None \<longrightarrow> um_find local' k \<noteq> None"
    by auto
  moreover from this have "for_each (materialize_node page) (node # todo) s = (Inr (() # us), s\<lparr>qs_local_nodes := local'\<rparr>)"
    by (simp add: then_do_def local(1) ret_def)
  ultimately show ?case using local(4) by blast
qed

lemma materialize_kept:
  assumes dir: "directory_ok i d" and page: "file_page i d p = Some page"
  shows "spec (query_but Z {p} R i d) (materialize_page page)
    (\<lambda>_ s. query_ok Z R i d s \<and> p \<in> set (qs_materialized_pages s)) E"
proof (rule specI)
  fix s assume s: "query_but Z {p} R i d s"
  have p: "dp_page_id page = p" by (rule file_page_id[OF page])
  show "case materialize_page page s of (Inl e, s') \<Rightarrow> E s'
      | (Inr x, s') \<Rightarrow> query_ok Z R i d s' \<and> p \<in> set (qs_materialized_pages s')"
  proof (cases "p \<in> set (qs_materialized_pages s)")
    case True
    then have "query_ok Z R i d s" using s by (auto simp: query_but_def copies_ok_def)
    then show ?thesis using True by (simp add: materialize_page_def p)
  next
    case False
    let ?s = "s\<lparr>qs_materialized_pages := p # qs_materialized_pages s\<rparr>"
    have loc: "nodes_ok i d (qs_local_nodes s)" and meta: "pi_metadata (qs_index s) = pi_metadata i"
      using s by (simp_all add: query_but_def copies_ok_def index_ok_def)
    obtain us local where l: "for_each (materialize_node page) (dp_nodes page) ?s = (Inr us, ?s\<lparr>qs_local_nodes := local\<rparr>)"
        "nodes_ok i d local" "\<forall>n\<in>set (dp_nodes page). um_find local (dn_id n) \<noteq> None"
        "\<forall>k. um_find (qs_local_nodes s) k \<noteq> None \<longrightarrow> um_find local k \<noteq> None"
      using materialize_nodes[OF dir page, of "[]" "dp_nodes page" ?s] loc meta by auto
    have "query_ok Z R i d (?s\<lparr>qs_local_nodes := local\<rparr>)"
      using s l page by (auto simp: query_but_def index_ok_def  copies_ok_def)
    moreover have "materialize_page page s = (Inr (), ?s\<lparr>qs_local_nodes := local\<rparr>)"
      using False by (simp add: materialize_page_def p then_do_def l(1) ret_def)
    ultimately show ?thesis by simp
  qed
qed

end
