(* ===== verification/SessionOps.thy ===== *)
theory SessionOps
  imports SessionLogic
begin

text \<open>
  What the operations of a query page session do, in the logic of \<open>SessionLogic\<close>: pages and
  nodes are those of the file whatever the cache holds, batches only warm the session up,
  and the end of a query releases every pin.
\<close>

section \<open>Single pages\<close>

lemma query_ok_but: "query_ok Z R i d s \<Longrightarrow> query_but Z P R i d s"
  by (auto simp: query_but_def copies_ok_def)

lemma materialize_then:
  assumes "directory_ok i d" and "file_page i d p = Some page"
  shows "spec (query_but Z {p} R i d) (then_do (materialize_page page) (\<lambda>_. ret x))
    (\<lambda>r s. query_ok Z R i d s \<and> r = x \<and> p \<in> set (qs_materialized_pages s)) E"
  by (rule spec_then[OF materialize_kept[OF assms]]) (simp add: spec_ret)

lemma keep_page_kept:
  assumes dir: "directory_ok i d" and page: "file_page i d p = Some page"
  shows "spec (query_ok Z R i d) (keep_page lg p page)
    (\<lambda>r s. query_ok Z R i d s \<and> r = page \<and> p \<in> set (qs_materialized_pages s)) E"
proof (rule specI)
  fix s assume s: "query_ok Z R i d s"
  note q = query_okD[OF s]
  let ?stats = "record_hub_cache_access (page_is_hub (qs_index s) page) False (qs_stats s)"
  let ?mat = "\<lambda>t. then_do (materialize_page page) (\<lambda>_. ret page) t"
  note mat = materialize_then[OF dir page]
  show "case keep_page lg p page s of (Inl e, s') \<Rightarrow> E s' | (Inr r, s') \<Rightarrow>
      query_ok Z R i d s' \<and> r = page \<and> p \<in> set (qs_materialized_pages s')"
  proof (cases "cache_enabled (qs_index s)")
    case True
    obtain c idx stats where st: "store_cached_page lg page (qs_index s) ?stats = (c, idx, stats)"
      by (cases "store_cached_page lg page (qs_index s) ?stats")
    have id: "dp_page_id page = p" by (rule file_page_id[OF page])
    have inv: "cache_inv (qs_disk s) idx \<and> same_store (qs_index s) idx \<and> c = page"
      using store_inv[OF st q(1)] page q(8)[of p] id by simp
    have "query_ok Z R i d (s\<lparr>qs_index := idx\<rparr>)"
      using inv store_pins[OF st q(2)] by (intro query_ok_index[OF s]) auto
    then have "query_ok Z R i d (s\<lparr>qs_index := idx, qs_stats := stats\<rparr>)" by simp
    then have "query_but Z {p} R i d (s\<lparr>qs_index := idx, qs_stats := stats\<rparr>)" by (rule query_ok_but)
    from specD[OF mat this] show ?thesis using True st inv by (simp add: keep_page_def)
  next
    case False
    let ?t = "s\<lparr>qs_stats := ?stats, qs_owned_pages := um_assign p page (qs_owned_pages s)\<rparr>"
    have "query_but Z {p} R i d ?t"
      using s page by (auto simp: query_but_def copies_ok_def index_ok_def )
    from specD[OF mat this] show ?thesis using False by (simp add: keep_page_def)
  qed
qed

lemma read_page_total:
  assumes "outcomes d = []" and "file_page idx d p = Some page"
    and "is_direct_enabled (pr_status (pi_reader idx)) \<Longrightarrow>
      unat (page_offset idx p) mod 4096 = 0 \<and> gm_page_size (pi_metadata idx) mod 4096 = 0"
    and "pr_fd_open (pi_reader idx)"
  shows "\<exists>s'. read_page idx p s d = (Inr page, s', d)"
proof -
  let ?f = "file_slice (pr_path (pi_reader idx)) d (unat (page_offset idx p)) (gm_page_size (pi_metadata idx))"
  obtain bs where bs: "?f = Some bs" using assms(2) by (cases ?f) (simp_all add: file_page_def split: if_splits)
  then have dec: "decode_packed_page (pi_metadata idx) p bs = Inr page" and p: "\<not> gm_page_count (pi_metadata idx) \<le> unat p"
    using assms(2) by (auto simp: file_page_def split: if_splits sum.splits)
  from reader_read_reliable[OF assms(1) bs assms(3,4)] obtain s' where
    "reader_read (page_offset idx p) (gm_page_size (pi_metadata idx)) (pi_reader idx) s d = (Inr bs, s', d)" by blast
  then show ?thesis using dec p by (simp add: read_page_def)
qed

lemma page_offset_same: "pi_metadata idx' = pi_metadata idx \<Longrightarrow> page_offset idx' p = page_offset idx p"
  by (simp add: page_offset_def)

text \<open>A disk whose files are the same, and whose calls fail no more if they did not before.\<close>

lemma query_ok_disk:
  assumes "query_ok Z R i d s" and "files d' = files (qs_disk s)" and "R \<Longrightarrow> outcomes d' = []"
  shows "query_ok Z R i d (s\<lparr>qs_disk := d'\<rparr>)"
  using assms cache_inv_files[OF assms(2)] by (simp add: query_but_def index_ok_def copies_ok_def )

lemma read_demand_kept:
  assumes "R \<Longrightarrow> readable i d" and "unat p < gm_page_count (pi_metadata i)"
  shows "spec (query_ok Z R i d) (read_demand_page p) (\<lambda>page s. query_ok Z R i d s \<and> file_page i d p = Some page) (failed_ok R i d)"
proof (rule specI)
  fix s assume s: "query_ok Z R i d s"
  note q = query_okD[OF s]
  obtain page stats d' where rd: "read_page (qs_index s) p (qs_stats s) (qs_disk s) = (page, stats, d')"
    by (cases "read_page (qs_index s) p (qs_stats s) (qs_disk s)")
  have f: "files d' = files (qs_disk s)" by (rule read_page_frame[OF rd])
  have total: "page \<noteq> Inl e \<and> outcomes d' = []" if r: R for e
  proof -
    have out: "outcomes (qs_disk s) = []" using r s by (simp add: query_but_def)
    obtain pg where "file_page i d p = Some pg" using assms(1)[OF r] assms(2) unfolding readable_def by blast
    then have "\<exists>s'. read_page (qs_index s) p (qs_stats s) (qs_disk s) = (Inr pg, s', qs_disk s)"
      using assms(1)[OF r] assms(2) q(3,6) page_offset_same[OF q(3)]
      by (intro read_page_total[OF out]) (simp_all add: q(8) readable_def index_ok_def)
    then show ?thesis using rd out by auto
  qed
  let ?t = "s\<lparr>qs_stats := stats, qs_disk := d'\<rparr>"
  have "query_ok Z R i d (s\<lparr>qs_stats := stats\<rparr>)" using s by simp
  from query_ok_disk[OF this, of d'] have t: "query_ok Z R i d ?t" using f total by simp
  show "case read_demand_page p s of (Inl e, s') \<Rightarrow> failed_ok R i d s'
      | (Inr page, s') \<Rightarrow> query_ok Z R i d s' \<and> file_page i d p = Some page"
  proof (cases page)
    case (Inl e)
    then show ?thesis using t rd total by (auto simp: read_demand_page_def failed_ok_def query_but_def)
  next
    case (Inr pg)
    then have "file_page i d p = Some pg" using read_page_file[of "qs_index s" p] rd q(8)[of p] by simp
    then show ?thesis using t rd Inr by (simp add: read_demand_page_def)
  qed
qed

lemma get_or_load_kept:
  assumes dir: "directory_ok i d" and "R \<Longrightarrow> readable i d" and "R \<Longrightarrow> unat p < gm_page_count (pi_metadata i)"
  shows "spec (query_ok Z R i d) (get_or_load_page lg p)
    (\<lambda>page s. query_ok Z R i d s \<and> file_page i d p = Some page \<and> p \<in> set (qs_materialized_pages s)) (failed_ok R i d)"
    (is "spec _ _ ?Q _")
proof (rule specI)
  fix s assume s: "query_ok Z R i d s"
  note q = query_okD[OF s]
  show "case get_or_load_page lg p s of (Inl e, s') \<Rightarrow> failed_ok R i d s' | (Inr page, s') \<Rightarrow> ?Q page s'"
  proof (cases "gm_page_count (pi_metadata i) \<le> unat p")
    case True
    then show ?thesis using assms(3) q by (auto simp: get_or_load_page_def failed_ok_def)
  next
    case False
    let ?t = "s\<lparr>qs_visited_pages := List.insert p (qs_visited_pages s),
      qs_stats := bump_all [Page_requests, Page_requests_before_dedup] (qs_stats s)\<rparr>"
    have t: "query_ok Z R i d ?t" using s by simp
    show ?thesis
    proof (cases "um_find (qs_owned_pages s) p")
      case (Some page)
      then have "file_page i d p = Some page" "p \<in> set (qs_materialized_pages s)"
        using q(5) by (auto simp: copies_ok_def)
      then show ?thesis using False q t Some by (simp add: get_or_load_page_def)
    next
      case None
      let ?load = "\<lambda>cached. case cached of Some page \<Rightarrow> then_do (materialize_page page) (\<lambda>_. ret page)
        | None \<Rightarrow> then_do (count_all [Page_cache_misses, Demand_reads, Node_reads, Page_requests_after_dedup]) (\<lambda>_.
            then_do (upd (\<lambda>s. s\<lparr>qs_demand_pages := List.insert p (qs_demand_pages s)\<rparr>)) (\<lambda>_.
            then_do (read_demand_page p) (keep_page lg p)))"
      have hit: "spec (query_ok Z R i d) (then_do (materialize_page page) (\<lambda>_. ret page)) ?Q (failed_ok R i d)"
        if "file_page i d p = Some page" for page
        by (rule spec_conseq[OF materialize_then[OF dir that]]) (erule query_ok_but, use that in auto)
      have read: "spec (query_ok Z R i d) (then_do (read_demand_page p) (keep_page lg p)) ?Q (failed_ok R i d)"
      proof (rule spec_then[OF read_demand_kept], use assms(2) False in \<open>simp_all add: not_le\<close>)
        fix page
        show "spec (\<lambda>s. query_ok Z R i d s \<and> file_page i d p = Some page) (keep_page lg p page) ?Q (failed_ok R i d)"
          by (rule spec_fact, rule spec_conseq[OF keep_page_kept[OF dir]]) auto
      qed
      have miss: "spec (query_ok Z R i d) (?load None) ?Q (failed_ok R i d)"
        unfolding option.case count_all_def
        by (rule spec_then[OF spec_upd[where Q = "\<lambda>_. query_ok Z R i d"]], simp,
            rule spec_then[OF spec_upd[where Q = "\<lambda>_. query_ok Z R i d"]], simp, rule read)
      have "spec (query_ok Z R i d) (then_do (try_get_cached_page p) ?load) ?Q (failed_ok R i d)"
      proof (rule spec_then[OF keeps_cached], rule spec_fact)
        fix cached assume "\<forall>page. cached = Some page \<longrightarrow> file_page i d p = Some page"
        then show "spec (query_ok Z R i d) (?load cached) ?Q (failed_ok R i d)"
          using hit miss by (cases cached) auto
      qed
      from specD[OF this t] show ?thesis using False q None by (simp add: get_or_load_page_def)
    qed
  qed
qed

section \<open>Nodes and pins\<close>

text \<open>Every identifier below the vector count is on a page of the file.\<close>

definition complete :: "packed_index \<Rightarrow> disk \<Rightarrow> bool" where
  "complete i d \<longleftrightarrow> readable i d \<and> (\<forall>n. unat n < gm_vector_count (pi_metadata i) \<longrightarrow> file_node i d n \<noteq> None)"

lemma file_node_page:
  assumes "file_node i d n = Some node"
  shows "unat n < length (pi_node_to_page i)" "unat (pi_node_to_page i ! unat n) < gm_page_count (pi_metadata i)"
    "\<exists>page. file_page i d (pi_node_to_page i ! unat n) = Some page \<and> find (\<lambda>node. dn_id node = n) (dp_nodes page) = Some node"
  using assms by (auto simp: file_node_def file_page_def split: if_splits option.splits sum.splits)

lemma keeps_page_for:
  assumes "R \<Longrightarrow> unat n < length (pi_node_to_page i)"
  shows "keeps Z R i d (\<lambda>s. (page_for_node n s, s))
    (\<lambda>p. unat n < length (pi_node_to_page i) \<and> p = pi_node_to_page i ! unat n)"
proof (rule specI)
  fix s assume s: "query_ok Z R i d s"
  note q = query_okD[OF s]
  show "case (page_for_node n s, s) of (Inl e, s') \<Rightarrow> failed_ok R i d s' | (Inr p, s') \<Rightarrow>
      query_ok Z R i d s' \<and> unat n < length (pi_node_to_page i) \<and> p = pi_node_to_page i ! unat n"
    using s assms q by (auto simp: page_for_node_def failed_ok_def)
qed

lemma get_node_kept:
  assumes dir: "directory_ok i d" and R: "R \<Longrightarrow> readable i d" "R \<Longrightarrow> file_node i d n \<noteq> None"
  shows "keeps Z R i d (get_node lg n reuse)
    (\<lambda>node. \<exists>m. file_node i d n = Some m \<and> dn_neighbors node = dn_neighbors m)"
proof (rule specI)
  fix s assume s: "query_ok Z R i d s"
  let ?K = "\<lambda>node. \<exists>m. file_node i d n = Some m \<and> dn_neighbors node = dn_neighbors m"
  have found: "?K node" if "query_ok Z R i d t" "um_find (qs_local_nodes t) n = Some node" for t node
    using that query_okD(5)[OF that(1)] unfolding copies_ok_def nodes_ok_def by fastforce
  show "case get_node lg n reuse s of (Inl e, s') \<Rightarrow> failed_ok R i d s'
      | (Inr node, s') \<Rightarrow> query_ok Z R i d s' \<and> ?K node"
  proof (cases "um_find (qs_local_nodes s) n")
    case (Some node)
    then show ?thesis using found[OF s Some] s by (simp add: get_node_def)
  next
    case None
    let ?get = "then_do (lift_result (page_for_node n s)) (\<lambda>page_id.
          then_do (get_or_load_page lg page_id) (\<lambda>_ s.
          case um_find (qs_local_nodes s) n of
            None \<Rightarrow> (Inl (Runtime_error ''Node is missing from packed page''), s)
          | Some node \<Rightarrow> (Inr node, s)))"
    let ?p = "pi_node_to_page i ! unat n"
    have "spec (query_ok Z R i d) (then_do (get_or_load_page lg ?p) (\<lambda>_ s.
          case um_find (qs_local_nodes s) n of
            None \<Rightarrow> (Inl (Runtime_error ''Node is missing from packed page''), s)
          | Some node \<Rightarrow> (Inr node, s))) (\<lambda>node s. query_ok Z R i d s \<and> ?K node) (failed_ok R i d)"
    proof (rule spec_bind[OF get_or_load_kept[OF dir R(1)]])
      show "unat ?p < gm_page_count (pi_metadata i)" if R using R(2)[OF that] file_node_page(2) by blast
    next
      fix page t assume t: "query_ok Z R i d t \<and> file_page i d ?p = Some page \<and> ?p \<in> set (qs_materialized_pages t)"
      have "um_find (qs_local_nodes t) n \<noteq> None" if fn: "file_node i d n \<noteq> None"
      proof -
        obtain node pg where "file_page i d ?p = Some pg" "find (\<lambda>node. dn_id node = n) (dp_nodes pg) = Some node"
          using fn file_node_page(3) by blast
        then have "node \<in> set (dp_nodes page)" "dn_id node = n" using t by (auto simp: find_Some_iff)
        moreover have "copies_ok {} i d t" using t query_okD(5) by blast
        ultimately show ?thesis using t by (auto simp: copies_ok_def)
      qed
      then show "case case um_find (qs_local_nodes t) n of
            None \<Rightarrow> (Inl (Runtime_error ''Node is missing from packed page''), t)
          | Some node \<Rightarrow> (Inr node, t) of (Inl e, s') \<Rightarrow> failed_ok R i d s' | (Inr y, s') \<Rightarrow> query_ok Z R i d s' \<and> ?K y"
        using t found R(2) query_okD(6,7) by (auto simp: failed_ok_def split: option.splits)
    qed simp
    note load = specD[OF this s]
    have "case ?get s of (Inl e, s') \<Rightarrow> failed_ok R i d s' | (Inr node, s') \<Rightarrow> query_ok Z R i d s' \<and> ?K node"
    proof (cases "unat n < length (pi_node_to_page i)")
      case True
      then have "page_for_node n s = Inr ?p" using query_okD(4)[OF s] by (simp add: page_for_node_def)
      then show ?thesis using load unfolding then_do_def[of "lift_result _"] by (simp add: lift_result_def)
    next
      case False
      then have "\<not> R" using R(2) file_node_page(1) by blast
      then show ?thesis using False s query_okD(4,6,7)[OF s]
        by (simp add: then_do_def lift_result_def page_for_node_def failed_ok_def)
    qed
    then show ?thesis by (simp add: get_node_def None)
  qed
qed

lemma pin_page_kept: "keeps Z R i d (pin_page p) (\<lambda>_. True)"
proof (rule specI)
  fix s assume s: "query_ok Z R i d s"
  note q = query_okD[OF s]
  obtain b idx where pin: "pin_if_cached p (qs_index s) = (b, idx)" by (cases "pin_if_cached p (qs_index s)")
  note inv = pin_inv[OF pin q(1)]
  show "case pin_page p s of (Inl e, s') \<Rightarrow> failed_ok R i d s' | (Inr x, s') \<Rightarrow> query_ok Z R i d s' \<and> True"
  proof (cases "p \<in> set (qs_pinned_pages s)")
    case True
    then show ?thesis using s by (simp add: pin_page_def)
  next
    case False
    note pins = pin_pins[OF pin q(2) False]
    show ?thesis
    proof (cases b)
      case True
      then show ?thesis using s pin inv pins False
        by (simp add: pin_page_def query_but_def index_ok_def copies_ok_def same_store_def)
    next
      case f: False
      then show ?thesis using s pin pins False by (simp add: pin_page_def)
    qed
  qed
qed

section \<open>The end of a query\<close>

lemma unpin_pages:
  assumes "index_ok i d (s\<lparr>qs_pinned_pages := todo\<rparr>)"
  shows "\<exists>us idx. for_each unpin_page todo s = (Inr us, s\<lparr>qs_index := idx\<rparr>) \<and>
    index_ok i d (s\<lparr>qs_index := idx, qs_pinned_pages := []\<rparr>) \<and> pi_reader idx = pi_reader (qs_index s)"
  using assms
proof (induction todo arbitrary: s)
  case Nil
  have "s = s\<lparr>qs_index := qs_index s\<rparr>" by simp
  then show ?case using Nil by (intro exI[of _ "[]"] exI[of _ "qs_index s"]) (simp add: ret_def)
next
  case (Cons p todo)
  obtain r idx where u: "unpin_if_cached p (qs_index s) = (r, idx)" by (cases "unpin_if_cached p (qs_index s)")
  have prem: "cache_inv (qs_disk s) (qs_index s)" "pins_ok (p # todo) (qs_index s)"
    using Cons.prems by (simp_all add: index_ok_def)
  note pins = unpin_pins[OF u prem(2)] and inv = unpin_inv[OF u prem(1)]
  let ?t = "s\<lparr>qs_index := idx\<rparr>"
  have step: "unpin_page p s = (Inr (), ?t)" using u pins by (simp add: unpin_page_def)
  have "index_ok i d (?t\<lparr>qs_pinned_pages := todo\<rparr>)"
    using Cons.prems pins inv by (simp add: index_ok_def same_store_def)
  then obtain us idx' where us: "for_each unpin_page todo ?t = (Inr us, ?t\<lparr>qs_index := idx'\<rparr>)"
      "index_ok i d (?t\<lparr>qs_index := idx', qs_pinned_pages := []\<rparr>)" "pi_reader idx' = pi_reader (qs_index ?t)"
    using Cons.IH by blast
  have "for_each unpin_page (p # todo) s = (Inr (() # us), s\<lparr>qs_index := idx'\<rparr>)"
    by (simp add: then_do_def step us(1) ret_def)
  moreover have "index_ok i d (s\<lparr>qs_index := idx', qs_pinned_pages := []\<rparr>)" using us(2) by simp
  moreover have "pi_reader idx' = pi_reader (qs_index s)" using us(3) inv by (simp add: same_store_def)
  ultimately show ?case by blast
qed

text \<open>Ending a query never throws, keeps the reader as it is, and leaves no pin.\<close>

lemma finish_query_kept:
  assumes "index_ok i d s" and "\<not> qs_finished s"
  shows "\<exists>s'. finish_query s = (Inr (), s') \<and> index_ok i d s' \<and> qs_pinned_pages s' = [] \<and> qs_finished s' \<and>
    pi_reader (qs_index s') = pi_reader (qs_index s) \<and> qs_disk s' = qs_disk s"
proof -
  let ?s = "s\<lparr>qs_stats := (qs_stats s)(Unique_pages_touched := length (qs_visited_pages s),
      Unique_demand_pages := length (qs_demand_pages s))\<rparr>"
  have "index_ok i d (?s\<lparr>qs_pinned_pages := qs_pinned_pages ?s\<rparr>)" using assms(1) by (simp add: index_ok_def)
  from unpin_pages[OF this] obtain us idx where
    u: "for_each unpin_page (qs_pinned_pages ?s) ?s = (Inr us, ?s\<lparr>qs_index := idx\<rparr>)"
      "index_ok i d (?s\<lparr>qs_index := idx, qs_pinned_pages := []\<rparr>)" "pi_reader idx = pi_reader (qs_index ?s)" by blast
  let ?t = "?s\<lparr>qs_index := idx, qs_pinned_pages := [], qs_finished := True\<rparr>"
  have "finish_query s = (Inr (), ?t)"
    using assms(2) u(1) by (simp add: finish_query_def unpin_all_def then_do_def upd_def)
  moreover have "index_ok i d ?t" using u(2) by (simp add: index_ok_def)
  ultimately show ?thesis using u(3) by (intro exI[of _ ?t]) simp
qed

section \<open>Batches\<close>

lemma keeps_available:
  assumes "directory_ok i d"
  shows "keeps Z R i d (materialize_available_page p) (\<lambda>_. True)"
proof (rule specI)
  fix s assume s: "query_ok Z R i d s"
  note q = query_okD[OF s]
  have mat: "keeps Z R i d (then_do (materialize_page page) (\<lambda>_. ret x)) (\<lambda>_. True)"
    if "file_page i d p = Some page" for page and x :: bool
    by (rule spec_conseq[OF materialize_then[OF assms that]]) (erule query_ok_but, auto)
  have count: "keeps Z R i d (count_up Pinned_hits 1) (\<lambda>_. True)" by (rule keeps_count) simp
  show "case materialize_available_page p s of (Inl e, s') \<Rightarrow> failed_ok R i d s' | (Inr x, s') \<Rightarrow> query_ok Z R i d s' \<and> True"
  proof (cases "um_find (qs_owned_pages s) p")
    case (Some page)
    then have "file_page i d p = Some page" using q(5) by (simp add: copies_ok_def)
    then have "keeps Z R i d (then_do (count_up Pinned_hits 1) (\<lambda>_. then_do (materialize_page page) (\<lambda>_. ret True))) (\<lambda>_. True)"
      by (intro keeps_then[OF count] mat)
    from specD[OF this s] show ?thesis by (simp add: materialize_available_page_def Some)
  next
    case None
    have hit: "keeps Z R i d (then_do (count_up Pinned_hits 1) (\<lambda>_. ret True)) (\<lambda>_. True)"
      by (intro keeps_then[OF count] keeps_ret) simp
    have "keeps Z R i d (then_do (try_get_cached_page p) (\<lambda>cached. case cached of
        Some page \<Rightarrow> then_do (materialize_page page) (\<lambda>_. ret True) | None \<Rightarrow> ret False)) (\<lambda>_. True)"
      using mat by (intro keeps_then[OF keeps_cached]) (auto intro: spec_ret split: option.splits)
    from specD[OF this s] specD[OF hit s] show ?thesis by (simp add: materialize_available_page_def None)
  qed
qed

text \<open>Completions left over by a failed batch carry tokens that the reader will not give out soon.\<close>

definition idle :: "page_reader \<Rightarrow> bool" where
  "idle r \<longleftrightarrow> (\<forall>c\<in>set (pr_inline_completions r). \<forall>j < 2 ^ 32. cr_token c \<noteq> pr_next_token r + word_of_nat j)"

text \<open>The reads of \<open>pairs\<close> (token and page) are queued in order, behind completions that are not awaited.\<close>

definition answers :: "packed_index \<Rightarrow> disk \<Rightarrow> u64 \<times> u32 \<Rightarrow> completed_read \<Rightarrow> bool" where
  "answers i d = (\<lambda>(t, p) c. cr_token c = t \<and> unat p < gm_page_count (pi_metadata i) \<and>
     file_slice (pr_path (pi_reader i)) d (unat (page_offset i p)) (gm_page_size (pi_metadata i)) = Some (cr_data c))"

definition awaiting :: "packed_index \<Rightarrow> disk \<Rightarrow> (u64 \<times> u32) list \<Rightarrow> page_reader \<Rightarrow> bool" where
  "awaiting i d pairs r \<longleftrightarrow> distinct (map fst pairs) \<and> (\<exists>stale news. pr_inline_completions r = stale @ news \<and>
     (\<forall>c\<in>set stale. cr_token c \<notin> fst ` set pairs) \<and> list_all2 (answers i d) pairs news \<and> (pairs = [] \<longrightarrow> stale = []))"

definition request_ok :: "packed_index \<Rightarrow> read_request \<Rightarrow> bool" where
  "request_ok i rq \<longleftrightarrow> unat (rq_page_id rq) < gm_page_count (pi_metadata i) \<and>
     rq_offset rq = page_offset i (rq_page_id rq) \<and> rq_bytes rq = gm_page_size (pi_metadata i)"

lemma file_slice_cong: "files d = files d0 \<Longrightarrow> file_slice p d x n = file_slice p d0 x n"
  by (simp add: file_slice_def file_bytes_def)

lemma batch_submit_ok:
  assumes "batch_submit requests r s d = (res, r', s', d')" and "\<forall>rq\<in>set requests. request_ok i rq"
    and "files d = files d0" and "pr_path r = pr_path (pi_reader i)"
  shows "files d' = files d \<and> pr_path r' = pr_path r \<and> pr_status r' = pr_status r \<and> pr_fd_open r' = pr_fd_open r \<and>
    (\<forall>subs. res = Inr subs \<longrightarrow> map snd subs = map (\<lambda>j. pr_next_token r + word_of_nat j) [0..<length requests] \<and>
      (\<exists>news. pr_inline_completions r' = pr_inline_completions r @ news \<and>
         list_all2 (answers i d0) (map (\<lambda>(p, t). (t, p)) subs) news))"
  using assms
proof (induction requests arbitrary: r s d res)
  case Nil
  then show ?case by auto
next
  case (Cons rq requests)
  let ?r = "r\<lparr>pr_next_token := pr_next_token r + 1\<rparr>"
  obtain data s1 d1 where rd: "reader_read (rq_offset rq) (rq_bytes rq) ?r s d = (data, s1, d1)"
    by (cases "reader_read (rq_offset rq) (rq_bytes rq) ?r s d")
  have f1: "files d1 = files d" by (rule reader_read_frame(1)[OF rd])
  show ?case
  proof (cases data)
    case (Inl e)
    then show ?thesis using Cons.prems rd f1 by (auto simp: Let_def)
  next
    case (Inr bs)
    let ?c = "\<lparr>cr_token = pr_next_token r, cr_data = bs\<rparr>"
    let ?r2 = "?r\<lparr>pr_inline_completions := pr_inline_completions r @ [?c]\<rparr>"
    obtain res2 r3 s3 d3 where sub: "batch_submit requests ?r2 s1 d1 = (res2, r3, s3, d3)"
      by (cases "batch_submit requests ?r2 s1 d1")
    have step: "(res, r', s', d') =
        ((case res2 of Inl e \<Rightarrow> Inl e | Inr l \<Rightarrow> Inr ((rq_page_id rq, pr_next_token r) # l)), r3, s3, d3)"
      using Cons.prems(1) rd Inr sub by (cases res2) (auto simp: Let_def)
    then have out: "r' = r3" "d' = d3" "s' = s3"
      "res = (case res2 of Inl e \<Rightarrow> Inl e | Inr l \<Rightarrow> Inr ((rq_page_id rq, pr_next_token r) # l))" by auto
    have IH: "files d' = files d1 \<and> pr_path r' = pr_path ?r2 \<and> pr_status r' = pr_status ?r2 \<and> pr_fd_open r' = pr_fd_open ?r2 \<and>
      (\<forall>subs. res2 = Inr subs \<longrightarrow> map snd subs = map (\<lambda>j. pr_next_token ?r2 + word_of_nat j) [0..<length requests] \<and>
        (\<exists>news. pr_inline_completions r' = pr_inline_completions ?r2 @ news \<and>
           list_all2 (answers i d0) (map (\<lambda>(p, t). (t, p)) subs) news))"
      using Cons.prems f1 sub out by (intro Cons.IH[of ?r2 s1 d1 res2]) auto
    have "file_slice (pr_path r) d (unat (rq_offset rq)) (rq_bytes rq) = Some bs"
      using reader_read_data(1)[of "rq_offset rq" "rq_bytes rq" ?r s d bs s1 d1] rd Inr by simp
    then have ans: "answers i d0 (pr_next_token r, rq_page_id rq) ?c"
      using Cons.prems(2-4) file_slice_cong[of d d0] by (simp add: answers_def request_ok_def)
    have "map (\<lambda>j. pr_next_token r + word_of_nat j) [0..<length (rq # requests)] =
        pr_next_token r # map (\<lambda>j. (pr_next_token r + 1) + word_of_nat j) [0..<length requests]"
      by (simp add: upt_conv_Cons map_Suc_upt[symmetric] add_ac del: upt_Suc)
    then show ?thesis
      using IH f1 ans out(4) by (cases res2) auto
  qed
qed

lemma batch_submit_total:
  assumes "\<forall>rq\<in>set requests. file_slice (pr_path r) d (unat (rq_offset rq)) (rq_bytes rq) \<noteq> None \<and>
      (is_direct_enabled (pr_status r) \<longrightarrow> unat (rq_offset rq) mod 4096 = 0 \<and> rq_bytes rq mod 4096 = 0)"
    and "outcomes d = []" and "pr_fd_open r"
  shows "\<exists>subs r' s'. batch_submit requests r s d = (Inr subs, r', s', d)"
  using assms(1,3)
proof (induction requests arbitrary: r s)
  case (Cons rq requests)
  let ?r = "r\<lparr>pr_next_token := pr_next_token r + 1\<rparr>"
  obtain bs where "file_slice (pr_path ?r) d (unat (rq_offset rq)) (rq_bytes rq) = Some bs" using Cons.prems by auto
  then obtain s1 where "reader_read (rq_offset rq) (rq_bytes rq) ?r s d = (Inr bs, s1, d)"
    using reader_read_reliable[OF assms(2), of ?r] Cons.prems by fastforce
  moreover have "\<exists>subs r' s'. batch_submit requests
      (?r\<lparr>pr_inline_completions := pr_inline_completions r @ [\<lparr>cr_token = pr_next_token r, cr_data = bs\<rparr>]\<rparr>) s1 d = (Inr subs, r', s', d)"
    using Cons by simp
  ultimately show ?case by (auto simp: Let_def)
qed simp

end
