(* ===== verification/SessionBatch.thy ===== *)
theory SessionBatch
  imports SessionOps
begin

text \<open>
  Batches of page reads in the session: a batch that is submitted is reaped completely, in
  order, behind completions that an earlier batch may have left, and what it reads is kept
  as the file's pages.
\<close>

section \<open>A step of the reader\<close>

lemma file_page_reader: "pr_path r = pr_path (pi_reader idx) \<Longrightarrow> file_page (idx\<lparr>pi_reader := r\<rparr>) d k = file_page idx d k"
  by (simp add: file_page_def page_offset_def cong: option.case_cong)

lemma query_ok_reader:
  assumes "query_ok Z R i d s" and "pr_path r = pr_path (pi_reader (qs_index s))"
    and "pr_status r = pr_status (pi_reader (qs_index s))" and "pr_fd_open r = pr_fd_open (pi_reader (qs_index s))" and "W r"
  shows "query_ok W R i d (s\<lparr>qs_index := (qs_index s)\<lparr>pi_reader := r\<rparr>\<rparr>)"
  using assms file_page_reader[OF assms(2)]
  by (simp add: query_but_def index_ok_def copies_ok_def cache_inv_def pins_ok_def cache_enabled_def)

section \<open>Submitting\<close>

lemma distinct_tokens:
  fixes t :: u64
  assumes "n \<le> 2 ^ 32"
  shows "distinct (map (\<lambda>j. t + word_of_nat j) [0..<n])"
proof -
  have "inj_on (\<lambda>j. t + word_of_nat j) {0..<n}"
  proof (rule inj_onI)
    fix j k assume "j \<in> {0..<n}" "k \<in> {0..<n}" "t + word_of_nat j = t + word_of_nat k"
    moreover from this have "j < 2 ^ 64" "k < 2 ^ 64" using assms by simp_all
    ultimately show "j = k" by (simp add: word_of_nat_eq_iff take_bit_nat_eq_self)
  qed
  then show ?thesis by (simp add: distinct_map)
qed

lemma session_submit_kept:
  assumes reqs: "\<forall>rq\<in>set requests. request_ok i rq" "length requests \<le> 2 ^ 32" "requests \<noteq> []"
    and readable: "R \<Longrightarrow> readable i d"
  shows "spec (query_ok idle R i d) (session_batch_submit requests)
    (\<lambda>subs. query_ok (awaiting i d (map (\<lambda>(p, t). (t, p)) subs)) R i d) (failed_ok R i d)"
proof (rule specI)
  fix s assume s: "query_ok idle R i d s"
  note q = query_okD[OF s]
  let ?r = "pi_reader (qs_index s)"
  have path: "pr_path ?r = pr_path (pi_reader i)" "pr_status ?r = pr_status (pi_reader i)" "pr_fd_open ?r = pr_fd_open (pi_reader i)" and files: "files (qs_disk s) = files d"
    using q(6) by (simp_all add: index_ok_def)
  obtain res r' st d' where sub: "batch_submit requests ?r (qs_stats s) (qs_disk s) = (res, r', st, d')"
    by (cases "batch_submit requests ?r (qs_stats s) (qs_disk s)")
  note ok = batch_submit_ok[OF sub reqs(1) files path(1)]
  let ?s = "s\<lparr>qs_index := (qs_index s)\<lparr>pi_reader := r'\<rparr>, qs_stats := st, qs_disk := d'\<rparr>"
  have total: "(\<exists>subs. res = Inr subs) \<and> outcomes d' = []" if r: R
  proof -
    have out: "outcomes (qs_disk s) = []" using s r by (simp add: query_but_def)
    have "file_slice (pr_path ?r) (qs_disk s) (unat (rq_offset rq)) (rq_bytes rq) \<noteq> None \<and>
        (is_direct_enabled (pr_status ?r) \<longrightarrow> unat (rq_offset rq) mod 4096 = 0 \<and> rq_bytes rq mod 4096 = 0)"
      if "rq \<in> set requests" for rq
    proof -
      have rq: "request_ok i rq" using reqs(1) that by blast
      then have "file_page i d (rq_page_id rq) \<noteq> None" using readable[OF r] by (auto simp: readable_def request_ok_def)
      moreover have "\<not> (gm_page_count (pi_metadata i) \<le> unat (rq_page_id rq))" using rq by (simp add: request_ok_def)
      ultimately have "file_slice (pr_path (pi_reader i)) d (unat (page_offset i (rq_page_id rq))) (gm_page_size (pi_metadata i)) \<noteq> None"
        by (auto simp: file_page_def split: option.splits)
      then show ?thesis
        using readable[OF r] rq path file_slice_cong[OF files] unfolding readable_def request_ok_def by metis
    qed
    then show ?thesis using batch_submit_total[of requests ?r "qs_disk s" "qs_stats s"] sub out readable[OF r] path(3)
      by (auto simp: readable_def)
  qed
  have "query_ok W R i d ?s" if "W r'" for W :: "page_reader \<Rightarrow> bool"
  proof -
    have "query_ok W R i d (s\<lparr>qs_index := (qs_index s)\<lparr>pi_reader := r'\<rparr>\<rparr>)"
      using ok that by (intro query_ok_reader[OF s]) auto
    from query_ok_disk[OF this, of d'] ok total have
      "query_ok W R i d (s\<lparr>qs_index := (qs_index s)\<lparr>pi_reader := r'\<rparr>, qs_disk := d'\<rparr>)" by simp
    then have "query_ok W R i d (s\<lparr>qs_index := (qs_index s)\<lparr>pi_reader := r'\<rparr>, qs_disk := d'\<rparr>\<lparr>qs_stats := st\<rparr>)"
      by (simp only: query_ok_stats)
    moreover have "s\<lparr>qs_index := (qs_index s)\<lparr>pi_reader := r'\<rparr>, qs_disk := d'\<rparr>\<lparr>qs_stats := st\<rparr> = ?s" by simp
    ultimately show ?thesis by (simp only:)
  qed
  note kept = this
  show "case session_batch_submit requests s of (Inl e, s') \<Rightarrow> failed_ok R i d s'
      | (Inr subs, s') \<Rightarrow> query_ok (awaiting i d (map (\<lambda>(p, t). (t, p)) subs)) R i d s'"
  proof (cases res)
    case (Inl e)
    moreover have "\<not> R" using total Inl by blast
    moreover have "index_ok i d ?s" "\<not> qs_finished ?s" using query_okD(6,7)[OF kept[of "\<lambda>_. True"]] by simp_all
    ultimately show ?thesis using sub by (simp add: session_batch_submit_def failed_ok_def)
  next
    case (Inr subs)
    let ?pairs = "map (\<lambda>(p, t). (t, p)) subs"
    have snds: "map fst ?pairs = map snd subs" by (simp add: comp_def case_prod_unfold)
    have toks: "map snd subs = map (\<lambda>j. pr_next_token ?r + word_of_nat j) [0..<length requests]" using ok Inr by blast
    obtain news where news: "pr_inline_completions r' = pr_inline_completions ?r @ news" "list_all2 (answers i d) ?pairs news"
      using ok Inr by blast
    have "distinct (map fst ?pairs)" using distinct_tokens[OF reqs(2)] by (simp only: snds toks)
    moreover have "cr_token c \<notin> fst ` set ?pairs" if "c \<in> set (pr_inline_completions ?r)" for c
    proof -
      have "fst ` set ?pairs = set (map snd subs)" by (metis snds set_map)
      then have "fst ` set ?pairs = (\<lambda>j. pr_next_token ?r + word_of_nat j) ` {0..<length requests}" by (simp only: toks set_map set_upt)
      moreover have "\<forall>j < 2 ^ 32. cr_token c \<noteq> pr_next_token ?r + word_of_nat j"
        using s that unfolding query_but_def idle_def by blast
      then have "cr_token c \<noteq> pr_next_token ?r + word_of_nat j" if "j < length requests" for j
        using that reqs(2) by (meson less_le_trans)
      ultimately show ?thesis by (metis (no_types, lifting) atLeastLessThan_iff imageE)
    qed
    moreover have "?pairs \<noteq> []"
    proof -
      have "length subs = length requests" using arg_cong[OF toks, of length] by simp
      then show ?thesis using reqs(3) by auto
    qed
    ultimately have "awaiting i d ?pairs r'" using news unfolding awaiting_def by blast
    then have "query_ok (awaiting i d ?pairs) R i d ?s" by (intro kept)
    then show ?thesis using sub Inr by (simp add: session_batch_submit_def)
  qed
qed

section \<open>Reaping\<close>

lemma list_all2_pages: "list_all2 (answers i d) pairs news \<Longrightarrow> length pairs = length news"
  by (rule list_all2_lengthD)

lemma answers_page:
  assumes "answers i d (t, p) c" and "R \<Longrightarrow> readable i d"
  shows "case decode_packed_page (pi_metadata i) p (cr_data c) of
    Inl e \<Rightarrow> \<not> R | Inr page \<Rightarrow> file_page i d p = Some page"
proof -
  have a: "unat p < gm_page_count (pi_metadata i)"
    "file_slice (pr_path (pi_reader i)) d (unat (page_offset i p)) (gm_page_size (pi_metadata i)) = Some (cr_data c)"
    using assms(1) by (simp_all add: answers_def)
  then have "file_page i d p \<noteq> None" if R using assms(2)[OF that] unfolding readable_def by blast
  then show ?thesis using a by (auto simp: file_page_def split: sum.splits)
qed

lemma reap_batch_kept:
  assumes dir: "directory_ok i d" and readable: "R \<Longrightarrow> readable i d"
  shows "spec (\<lambda>s. query_ok (awaiting i d pairs) R i d s \<and> length (pr_inline_completions (pi_reader (qs_index s))) < bound)
    (reap_batch lg bound pairs) (\<lambda>_. query_ok idle R i d) (failed_ok R i d)"
proof (induction bound arbitrary: pairs)
  case 0
  then show ?case by (simp add: spec_def)
next
  case (Suc bound)
  show ?case
  proof (cases pairs)
    case Nil
    have "idle r" if "awaiting i d [] r" for r using that by (simp add: awaiting_def idle_def)
    then show ?thesis by (auto simp: spec_def Nil query_but_def)
  next
    case (Cons pt pairs')
    obtain t p where pt: "pt = (t, p)" by fastforce
    show ?thesis
    proof (rule specI)
      fix s assume s: "query_ok (awaiting i d pairs) R i d s \<and>
        length (pr_inline_completions (pi_reader (qs_index s))) < Suc bound"
      let ?r = "pi_reader (qs_index s)"
      have aw: "awaiting i d pairs ?r" using s by (simp add: query_but_def)
      then obtain stale news where split: "pr_inline_completions ?r = stale @ news"
        "\<forall>c\<in>set stale. cr_token c \<notin> fst ` set pairs" "list_all2 (answers i d) pairs news"
        and dist: "distinct (map fst pairs)" unfolding awaiting_def by blast
      obtain c cs where queue: "pr_inline_completions ?r = c # cs"
        using split(1,3) Cons by (metis append_is_Nil_conv list.exhaust list.distinct(1) list_all2_Nil2)
      let ?r' = "?r\<lparr>pr_inline_completions := cs\<rparr>"
      let ?t = "s\<lparr>qs_index := (qs_index s)\<lparr>pi_reader := ?r'\<rparr>\<rparr>"
      have reap: "session_reap s = (Inr (Some c), ?t)" by (simp add: session_reap_def reap_async_read_def queue)
      have t: "query_ok W R i d ?t" if "W ?r'" for W :: "page_reader \<Rightarrow> bool"
        using s that by (intro query_ok_reader[of "awaiting i d pairs"]) simp_all
      have len: "length cs < bound" using s queue by simp
      show "case reap_batch lg (Suc bound) pairs s of (Inl e, s') \<Rightarrow> failed_ok R i d s' | (Inr x, s') \<Rightarrow> query_ok idle R i d s'"
      proof (cases stale)
        case st: (Cons c' stale')
        then have c: "c' = c" "cs = stale' @ news" using queue split(1) by simp_all
        have none: "um_find pairs (cr_token c) = None"
          using split(2) st c by (auto simp: um_find_def map_of_eq_None_iff)
        have "awaiting i d pairs ?r'"
          using split dist st c Cons unfolding awaiting_def by (intro conjI exI[of _ stale'] exI[of _ news]) auto
        then have "query_ok (awaiting i d pairs) R i d ?t" by (intro t)
        with specD[OF Suc.IH[of pairs], of ?t] len
        have "case reap_batch lg bound pairs ?t of (Inl e, s') \<Rightarrow> failed_ok R i d s' | (Inr x, s') \<Rightarrow> query_ok idle R i d s'"
          by simp
        then show ?thesis using none by (simp add: Cons then_do_def reap)
      next
        case Nil
        then have ans: "answers i d (t, p) c" "list_all2 (answers i d) pairs' cs"
          using queue split(1,3) Cons pt by simp_all
        have tok: "cr_token c = t" using ans(1) by (simp add: answers_def)
        have some: "um_find pairs (cr_token c) = Some p" by (simp add: um_find_def Cons pt tok)
        have erase: "um_erase (cr_token c) pairs = pairs'"
          using dist by (auto simp: um_erase_def Cons pt tok intro!: delete_id)
        have "awaiting i d pairs' ?r'"
          using ans(2) dist Cons unfolding awaiting_def by (intro conjI exI[of _ "[]"] exI[of _ cs]) auto
        then have t': "query_ok (awaiting i d pairs') R i d ?t" by (intro t)
        have meta: "pi_metadata (qs_index ?t) = pi_metadata i" using query_okD(3)[OF t'] .
        note dec = answers_page[where R = R, OF ans(1) readable]
        have rest: "spec (\<lambda>s. query_ok (\<lambda>r. awaiting i d pairs' r \<and> length (pr_inline_completions r) < bound) R i d s)
            (reap_batch lg bound pairs') (\<lambda>_. query_ok idle R i d) (failed_ok R i d)"
          by (rule spec_conseq[OF Suc.IH]) (auto simp: query_but_def)
        show ?thesis
        proof (cases "decode_packed_page (pi_metadata i) p (cr_data c)")
          case (Inl e)
          then have "failed_ok R i d ?t" using dec query_okD(6,7)[OF t'] by (simp add: failed_ok_def)
          then show ?thesis using some Inl meta by (simp add: Cons then_do_def reap)
        next
          case (Inr page)
          then have page: "file_page i d p = Some page" using dec by simp
          have "spec (\<lambda>s. query_ok (\<lambda>r. awaiting i d pairs' r \<and> length (pr_inline_completions r) < bound) R i d s)
            (then_do (keep_page lg p page) (\<lambda>_. reap_batch lg bound pairs')) (\<lambda>_. query_ok idle R i d) (failed_ok R i d)"
            by (rule spec_then[OF keep_page_kept[OF dir page]], rule spec_conseq[OF rest]) auto
          moreover have "query_ok (\<lambda>r. awaiting i d pairs' r \<and> length (pr_inline_completions r) < bound) R i d ?t"
            using t' len by (simp add: query_but_def)
          ultimately have "case then_do (keep_page lg p page) (\<lambda>_. reap_batch lg bound pairs') ?t of
              (Inl e, s') \<Rightarrow> failed_ok R i d s' | (Inr x, s') \<Rightarrow> query_ok idle R i d s'" by (rule specD)
          then show ?thesis using some Inr meta erase by (simp add: Cons then_do_def[of session_reap] reap) (simp add: then_do_def)
        qed
      qed
    qed
  qed
qed

section \<open>Loading\<close>

lemma request_page_kept:
  assumes dir: "directory_ok i d" and "unat p < gm_page_count (pi_metadata i)"
  shows "keeps Z R i d (request_page p) (\<lambda>rqs. length rqs \<le> 1 \<and> (\<forall>rq\<in>set rqs. request_ok i rq))"
  unfolding request_page_def
proof (rule spec_bind[OF keeps_available[OF dir]])
  fix available s assume s: "query_ok Z R i d s \<and> True"
  then have "pi_metadata (qs_index s) = pi_metadata i" "page_offset (qs_index s) p = page_offset i p"
    using query_okD(3) page_offset_same by blast+
  then show "case if available then (Inr [], s\<lparr>qs_stats := record_duplicate_skipped 1 (qs_stats s)\<rparr>)
       else (Inr [\<lparr>rq_page_id = p, rq_offset = page_offset (qs_index s) p,
                 rq_bytes = gm_page_size (pi_metadata (qs_index s))\<rparr>],
             s\<lparr>qs_stats := bump_all [Page_cache_misses, Demand_reads, Node_reads, Page_requests_after_dedup] (qs_stats s),
               qs_demand_pages := List.insert p (qs_demand_pages s)\<rparr>)
    of (Inl e, s') \<Rightarrow> failed_ok R i d s'
     | (Inr rqs, s') \<Rightarrow> query_ok Z R i d s' \<and> length rqs \<le> 1 \<and> (\<forall>rq\<in>set rqs. request_ok i rq)"
    using s assms(2) by (cases available) (simp_all add: request_ok_def)
qed

lemma concat_short:
  "list_all2 (\<lambda>x ys. length ys \<le> (1::nat) \<and> (\<forall>y\<in>set ys. P y)) xs yss \<Longrightarrow>
    length (concat yss) \<le> length xs \<and> (\<forall>y\<in>set (concat yss). P y)"
  by (induction rule: list_all2_induct) auto

lemma load_missing_kept:
  assumes dir: "directory_ok i d" and readable: "R \<Longrightarrow> readable i d"
    and pages: "\<forall>p\<in>set pages. unat p < gm_page_count (pi_metadata i)" "length pages \<le> 2 ^ 32"
  shows "keeps idle R i d (load_missing_pages lg pages) (\<lambda>_. True)"
proof (cases "pages = []")
  case True
  then show ?thesis by (simp add: load_missing_pages_def spec_ret)
next
  case False
  have requests: "keeps idle R i d (for_each request_page pages)
      (list_all2 (\<lambda>p rqs. length rqs \<le> 1 \<and> (\<forall>rq\<in>set rqs. request_ok i rq)) pages)"
    using pages(1) by (intro keeps_for_each request_page_kept[OF dir]) blast
  have "keeps idle R i d (if concat rqs = [] then ret ()
      else then_do (session_batch_submit (concat rqs)) (\<lambda>submitted s.
        reap_batch lg (Suc (pending_async_reads (pi_reader (qs_index s)))) (map (\<lambda>(page_id, token). (token, page_id)) submitted) s))
      (\<lambda>_. True)"
    if "list_all2 (\<lambda>p rqs. length rqs \<le> 1 \<and> (\<forall>rq\<in>set rqs. request_ok i rq)) pages rqs" for rqs
  proof (cases "concat rqs = []")
    case True
    then show ?thesis by (simp add: spec_ret)
  next
    case False
    have rqs: "\<forall>rq\<in>set (concat rqs). request_ok i rq" "length (concat rqs) \<le> 2 ^ 32"
      using concat_short[OF that] pages(2) by auto
    have "spec (query_ok idle R i d) (then_do (session_batch_submit (concat rqs)) (\<lambda>submitted s.
        reap_batch lg (Suc (pending_async_reads (pi_reader (qs_index s)))) (map (\<lambda>(page_id, token). (token, page_id)) submitted) s))
        (\<lambda>_. query_ok idle R i d) (failed_ok R i d)"
    proof (rule spec_bind[OF session_submit_kept[OF rqs False readable]], assumption)
      fix subs s assume s: "query_ok (awaiting i d (map (\<lambda>(p, t). (t, p)) subs)) R i d s"
      show "case reap_batch lg (Suc (pending_async_reads (pi_reader (qs_index s)))) (map (\<lambda>(page_id, token). (token, page_id)) subs) s of
          (Inl e, s') \<Rightarrow> failed_ok R i d s' | (Inr x, s') \<Rightarrow> query_ok idle R i d s'"
        using s by (intro specD[OF reap_batch_kept[OF dir readable]]) (simp_all add: pending_async_reads_def)
    qed
    then show ?thesis using False by (simp add: if_not_P)
  qed
  then show ?thesis using False unfolding load_missing_pages_def by (simp only: if_False) (rule keeps_then[OF requests])
qed

lemma u32_list_length:
  fixes xs :: "u32 list"
  assumes "distinct xs"
  shows "length xs \<le> 2 ^ 32"
proof -
  have "length xs = card (set xs)" using assms by (simp add: distinct_card)
  also have "\<dots> \<le> card (UNIV :: u32 set)" by (intro card_mono) simp_all
  finally show ?thesis by (simp add: card_word)
qed

lemma foldl_keep: "(\<And>x s. I (f s x) = I s) \<Longrightarrow> I (foldl f s xs) = I s"
  by (induction xs arbitrary: s) simp_all

lemma ensure_pages_kept:
  assumes dir: "directory_ok i d" and readable: "R \<Longrightarrow> readable i d"
    and pages: "R \<Longrightarrow> \<forall>p\<in>set pages. unat p < gm_page_count (pi_metadata i)"
  shows "keeps idle R i d (ensure_pages_loaded_batch lg pages) (\<lambda>_. True)"
proof (rule specI)
  fix s assume s: "query_ok idle R i d s"
  note q = query_okD[OF s]
  let ?bad = "\<exists>p\<in>set pages. gm_page_count (pi_metadata i) \<le> unat p"
  show "case ensure_pages_loaded_batch lg pages s of (Inl e, s') \<Rightarrow> failed_ok R i d s' | (Inr x, s') \<Rightarrow> query_ok idle R i d s' \<and> True"
  proof (cases "pages = [] \<or> ?bad")
    case True
    have "\<not> R" if ?bad using that pages by (meson leD)
    then show ?thesis using True s q by (auto simp: ensure_pages_loaded_batch_def failed_ok_def)
  next
    case False
    let ?u = "rev (remdups (rev pages))"
    let ?avail = "\<lambda>p. then_do (materialize_available_page p) (\<lambda>available. ret (if available then [] else [p]))"
    have u: "set ?u = set pages" "distinct ?u" by simp_all
    have in_range: "\<forall>p\<in>set ?u. unat p < gm_page_count (pi_metadata i)" using False by (auto simp: not_le)
    have "keeps idle R i d (?avail p) (\<lambda>ps. length ps \<le> 1 \<and> (\<forall>q\<in>set ps. unat q < gm_page_count (pi_metadata i)))"
      if "p \<in> set ?u" for p
      using in_range that by (intro keeps_then[OF keeps_available[OF dir]] keeps_ret) auto
    then have "keeps idle R i d (for_each ?avail ?u) (list_all2 (\<lambda>p ps. length ps \<le> 1 \<and>
        (\<forall>q\<in>set ps. unat q < gm_page_count (pi_metadata i))) ?u)"
      by (intro keeps_for_each)
    then have all: "keeps idle R i d (then_do (for_each ?avail ?u) (\<lambda>missing. load_missing_pages lg (concat missing))) (\<lambda>_. True)"
    proof (rule keeps_then)
      fix missing :: "u32 list list" assume m: "list_all2 (\<lambda>p ps. length ps \<le> 1 \<and>
        (\<forall>q\<in>set ps. unat q < gm_page_count (pi_metadata i))) ?u missing"
      have "length (concat missing) \<le> 2 ^ 32" using concat_short[OF m] u32_list_length[OF u(2)] by linarith
      then show "keeps idle R i d (load_missing_pages lg (concat missing)) (\<lambda>_. True)"
        using concat_short[OF m] by (intro load_missing_kept[OF dir readable]) auto
    qed
    have "\<not> (\<exists>p\<in>set pages. gm_page_count (pi_metadata (qs_index s)) \<le> unat p)" "pages \<noteq> []" using False q(3) by auto
    then show ?thesis
      using q(7) s by (simp add: ensure_pages_loaded_batch_def Let_def) (rule specD[OF all], simp)
  qed
qed

end
