(* ===== verification/SearchRefines.thy ===== *)
theory SearchRefines
  imports SessionBatch
begin

text \<open>
  The beam search on a plain graph, without pages, cache, sessions or disk, and the proof that
  \<open>search_one\<close> computes exactly that on the graph its file holds: the result does not depend
  on the cache, its policy and contents, on the I/O mode or on how reads are batched.
\<close>

section \<open>The search on a graph\<close>

text \<open>\<open>nbrs\<close> gives the neighbours of a node and \<open>vec\<close> its vector.\<close>

definition graph_expand ::
  "search_setup \<Rightarrow> (u32 \<Rightarrow> u32 list) \<Rightarrow> beam \<Rightarrow> search_result \<Rightarrow> (search_result list \<times> beam) result" where
  "graph_expand su nbrs b c =
     (let (new_neighbors, visited) = accept_nodes (su_vector_count su) (bm_visited b) (nbrs (sr_id c))
      in seq_result (rank_neighbors_by_distance su new_neighbors) (\<lambda>ranked.
         Inr (ranked, b\<lparr>bm_visited := visited, bm_expanded := bm_expanded b + 1\<rparr>)))"

fun graph_expand_all ::
  "search_setup \<Rightarrow> (u32 \<Rightarrow> u32 list) \<Rightarrow> beam \<Rightarrow> search_result list \<Rightarrow> (search_result list list \<times> beam) result" where
  "graph_expand_all su nbrs b [] = Inr ([], b)"
| "graph_expand_all su nbrs b (c # cs) =
     seq_result (graph_expand su nbrs b c) (\<lambda>(ranked, b).
     seq_result (graph_expand_all su nbrs b cs) (\<lambda>(rest, b). Inr (ranked # rest, b)))"

definition graph_batch :: "search_setup \<Rightarrow> (u32 \<Rightarrow> u32 list) \<Rightarrow> search_result list \<Rightarrow> beam \<Rightarrow> beam result" where
  "graph_batch su nbrs batch b =
     seq_result (graph_expand_all su nbrs b batch) (\<lambda>(ranked, b). Inr (foldl (push_ranked su) b ranked))"

fun graph_rounds :: "search_setup \<Rightarrow> (u32 \<Rightarrow> u32 list) \<Rightarrow> nat \<Rightarrow> nat \<Rightarrow> beam \<Rightarrow> beam result" where
  "graph_rounds su nbrs width 0 b = Inr b"
| "graph_rounds su nbrs width (Suc n) b =
     (if \<not> search_continues su b then Inr b
      else let (batch, b) = select_window su width b
           in if batch = [] then Inr b
              else seq_result (graph_batch su nbrs batch (b\<lparr>bm_batch_count := bm_batch_count b + 1\<rparr>))
                     (graph_rounds su nbrs width n))"

definition graph_topk :: "search_setup \<Rightarrow> f32 list \<Rightarrow> nat \<Rightarrow> (u32 \<Rightarrow> f32 list) \<Rightarrow> beam \<Rightarrow> search_result list" where
  "graph_topk su query dim vec b =
     (let found = sorted_results (bm_best b)
      in take (su_effective_k su)
        (if su_adc_table su \<noteq> [] \<and> 0 < gc_rerank_topk (su_config su)
         then std_sort search_result_less
           (map (\<lambda>r. r\<lparr>sr_distance := squared_l2 query (vec (sr_id r)) dim\<rparr>) found)
         else found))"

definition graph_search ::
  "nat \<Rightarrow> nat \<Rightarrow> (u32 \<Rightarrow> u32 list) \<Rightarrow> (u32 \<Rightarrow> f32 list) \<Rightarrow> f32 list \<Rightarrow> graph_search_config \<Rightarrow> search_result list result" where
  "graph_search vector_count dim nbrs vec query config =
     (if gc_top_k config = 0 \<or> gc_search_width config = 0 \<or> gc_entry_count config = 0
      then Inl (Runtime_error ''Packed graph search top_k, search_width, and entry_count must be positive'')
      else seq_result (initialize_search_state vector_count query config) (\<lambda>(su, b).
        let width = max 1 (min (if gc_beam_width config = 0 then gc_search_width config else gc_beam_width config)
                       (gc_search_width config))
        in seq_result (graph_rounds su nbrs width (gc_search_width config) b)
             (\<lambda>b. Inr (graph_topk su query dim vec b))))"

text \<open>The graph of a file.\<close>

definition file_neighbors :: "packed_index \<Rightarrow> disk \<Rightarrow> u32 \<Rightarrow> u32 list" where
  "file_neighbors i d n = (case file_node i d n of None \<Rightarrow> [] | Some node \<Rightarrow> dn_neighbors node)"

definition file_vector :: "packed_index \<Rightarrow> disk \<Rightarrow> u32 \<Rightarrow> f32 list" where
  "file_vector i d n =
     (case file_page i d (pi_node_to_page i ! unat n) of
        None \<Rightarrow> []
      | Some page \<Rightarrow> (case seq_result (find_node page n) (vector_data (pi_metadata i) page) of
                       Inl e \<Rightarrow> [] | Inr values \<Rightarrow> values))"

section \<open>Identifiers in range\<close>

definition in_range :: "nat \<Rightarrow> search_result list \<Rightarrow> bool" where
  "in_range n cs \<longleftrightarrow> (\<forall>c\<in>set cs. unat (sr_id c) < n)"

lemma accept_nodes_new:
  "set (fst (accept_nodes n visited ids)) = {i \<in> set ids. unat i < n \<and> i \<notin> set visited}"
  "set (snd (accept_nodes n visited ids)) = set visited \<union> {i \<in> set ids. unat i < n}"
  "distinct (fst (accept_nodes n visited ids))"
  "distinct visited \<Longrightarrow> distinct (snd (accept_nodes n visited ids))"
proof -
  have "set (fst (foldl (accept_node n) (acc, vis) ids)) = set acc \<union> {i \<in> set ids. unat i < n \<and> i \<notin> set vis} \<and>
      set (snd (foldl (accept_node n) (acc, vis) ids)) = set vis \<union> {i \<in> set ids. unat i < n} \<and>
      (set acc \<subseteq> set vis \<and> distinct acc \<longrightarrow> distinct (fst (foldl (accept_node n) (acc, vis) ids))) \<and>
      (distinct vis \<longrightarrow> distinct (snd (foldl (accept_node n) (acc, vis) ids)))" if "set acc \<subseteq> set vis" for acc vis
    using that
  proof (induction ids arbitrary: acc vis)
    case (Cons i ids)
    show ?case
    proof (cases "n \<le> unat i \<or> i \<in> set vis")
      case True
      then show ?thesis using Cons.IH[OF Cons.prems] by (auto simp: accept_node_def)
    next
      case False
      have sub: "set (acc @ [i]) \<subseteq> set (i # vis)" using Cons.prems by auto
      have "i \<notin> set acc" using Cons.prems False by blast
      then show ?thesis using Cons.IH[OF sub] False by (auto simp: accept_node_def)
    qed
  qed auto
  from this[of "[]" visited]
  show "set (fst (accept_nodes n visited ids)) = {i \<in> set ids. unat i < n \<and> i \<notin> set visited}"
    "set (snd (accept_nodes n visited ids)) = set visited \<union> {i \<in> set ids. unat i < n}"
    "distinct (fst (accept_nodes n visited ids))"
    "distinct visited \<Longrightarrow> distinct (snd (accept_nodes n visited ids))"
    by (simp_all add: accept_nodes_def)
qed

lemma score_ids_ids: "score_ids su ids = Inr rs \<Longrightarrow> map sr_id rs = ids"
proof (induction ids arbitrary: rs)
  case (Cons i ids)
  then show ?case by (cases "candidate_distance su i"; cases "score_ids su ids") auto
qed simp

lemma rank_ids:
  assumes "rank_neighbors_by_distance su ids = Inr rs"
  shows "sr_id ` set rs = set ids" "mset (map sr_id rs) = mset ids"
proof -
  obtain rs' where rs': "score_ids su ids = Inr rs'" "rs = std_sort search_result_less rs'"
    using assms by (cases "score_ids su ids") (auto simp: rank_neighbors_by_distance_def)
  note ids = score_ids_ids[OF rs'(1)]
  then show "sr_id ` set rs = set ids" by (auto simp: rs'(2))
  show "mset (map sr_id rs) = mset ids" by (simp add: ids[symmetric] rs'(2))
qed

lemma push_sets:
  "set (bm_candidates (push_candidate su b c)) = insert c (set (bm_candidates b))"
  "set (bm_best (push_candidate su b c)) \<subseteq> insert c (set (bm_best b))"
  using set_heap_step[of search_result_less "su_result_capacity su" "bm_best b" c]
  by (simp_all add: push_candidate_def add_best_def)

lemma push_frame [simp]:
  "bm_visited (push_candidate su b c) = bm_visited b" "bm_expanded (push_candidate su b c) = bm_expanded b"
  "bm_batch_count (push_candidate su b c) = bm_batch_count b"
  by (simp_all add: push_candidate_def add_best_def)

lemma push_all_frame [simp]:
  "bm_visited (foldl (push_candidate su) b cs) = bm_visited b"
  "bm_expanded (foldl (push_candidate su) b cs) = bm_expanded b"
  "bm_batch_count (foldl (push_candidate su) b cs) = bm_batch_count b"
  by (induction cs arbitrary: b) simp_all

lemma adaptive_frame [simp]:
  "bm_visited (update_adaptive_stop su b) = bm_visited b" "bm_expanded (update_adaptive_stop su b) = bm_expanded b"
  "bm_candidates (update_adaptive_stop su b) = bm_candidates b" "bm_best (update_adaptive_stop su b) = bm_best b"
  by (simp_all add: update_adaptive_stop_def Let_def)

lemma push_all_sets:
  "set (bm_candidates (foldl (push_candidate su) b cs)) = set (bm_candidates b) \<union> set cs"
  "set (bm_best (foldl (push_candidate su) b cs)) \<subseteq> set (bm_best b) \<union> set cs"
proof -
  show "set (bm_candidates (foldl (push_candidate su) b cs)) = set (bm_candidates b) \<union> set cs"
    by (induction cs arbitrary: b) (auto simp: push_sets)
  show "set (bm_best (foldl (push_candidate su) b cs)) \<subseteq> set (bm_best b) \<union> set cs"
  proof (induction cs arbitrary: b)
    case (Cons c cs)
    then show ?case using Cons.IH[of "push_candidate su b c"] push_sets(2)[of su b c] by auto
  qed simp
qed

lemma ranked_frame [simp]:
  "bm_visited (foldl (push_ranked su) b rss) = bm_visited b"
  "bm_expanded (foldl (push_ranked su) b rss) = bm_expanded b"
  by (induction rss arbitrary: b) (simp_all add: push_ranked_def)

lemma ranked_sets:
  "set (bm_candidates (foldl (push_ranked su) b rss)) = set (bm_candidates b) \<union> set (concat rss)"
  "set (bm_best (foldl (push_ranked su) b rss)) \<subseteq> set (bm_best b) \<union> set (concat rss)"
proof -
  show "set (bm_candidates (foldl (push_ranked su) b rss)) = set (bm_candidates b) \<union> set (concat rss)"
    by (induction rss arbitrary: b) (auto simp: push_ranked_def push_all_sets)
  show "set (bm_best (foldl (push_ranked su) b rss)) \<subseteq> set (bm_best b) \<union> set (concat rss)"
  proof (induction rss arbitrary: b)
    case (Cons rs rss)
    then show ?case
      using Cons.IH[of "push_ranked su b rs"] push_all_sets(2)[of su b rs] by (fastforce simp: push_ranked_def)
  qed simp
qed

lemma pop_window_parts:
  assumes "pop_window su n b = (window, b')"
  shows "bm_candidates b = bm_candidates b' @ rev window" "b' = b\<lparr>bm_candidates := bm_candidates b'\<rparr>" "length window \<le> n"
proof -
  have "bm_candidates b = bm_candidates b' @ rev window \<and> b' = b\<lparr>bm_candidates := bm_candidates b'\<rparr> \<and> length window \<le> n"
    using assms
  proof (induction n arbitrary: b window b')
    case (Suc n)
    show ?case
    proof (cases "bm_candidates b = [] \<or> update_frontier su b")
      case True
      then show ?thesis using Suc.prems by auto
    next
      case False
      obtain w where w: "pop_window su n (b\<lparr>bm_candidates := butlast (bm_candidates b)\<rparr>) = (w, b')"
        "window = last (bm_candidates b) # w"
        using Suc.prems False by (auto split: prod.splits)
      from Suc.IH[OF w(1)] show ?thesis using w(2) False
        by simp (metis append_butlast_last_id append_assoc)
    qed
  qed simp
  then show "bm_candidates b = bm_candidates b' @ rev window" "b' = b\<lparr>bm_candidates := bm_candidates b'\<rparr>" "length window \<le> n"
    by blast+
qed

lemma seq_InrE:
  assumes "seq_result r f = Inr y"
  obtains x where "r = Inr x" "f x = Inr y"
  using assms by (cases r) auto

lemma graph_expand_parts:
  assumes "graph_expand su nbrs b c = Inr (rs, b')"
  shows "sr_id ` set rs = {i \<in> set (nbrs (sr_id c)). unat i < su_vector_count su \<and> i \<notin> set (bm_visited b)}"
    "distinct (map sr_id rs)"
    "set (bm_visited b') = set (bm_visited b) \<union> {i \<in> set (nbrs (sr_id c)). unat i < su_vector_count su}"
    "distinct (bm_visited b) \<Longrightarrow> distinct (bm_visited b')"
    "bm_candidates b' = bm_candidates b" "bm_best b' = bm_best b" "bm_expanded b' = bm_expanded b + 1"
    "\<exists>ids. score_ids su ids = Inr rs \<or> (\<exists>rs'. score_ids su ids = Inr rs' \<and> rs = std_sort search_result_less rs')"
proof -
  obtain new vis where acc: "accept_nodes (su_vector_count su) (bm_visited b) (nbrs (sr_id c)) = (new, vis)"
    by fastforce
  note an = accept_nodes_new[where n = "su_vector_count su" and visited = "bm_visited b" and ids = "nbrs (sr_id c)", unfolded acc fst_conv snd_conv]
  from assms obtain rs' where rk: "rank_neighbors_by_distance su new = Inr rs'"
    and eq: "rs' = rs" "b' = b\<lparr>bm_visited := vis, bm_expanded := bm_expanded b + 1\<rparr>"
    unfolding graph_expand_def acc prod.case Let_def by (elim seq_InrE) auto
  note ids = rank_ids[OF rk[unfolded eq]]
  show "sr_id ` set rs = {i \<in> set (nbrs (sr_id c)). unat i < su_vector_count su \<and> i \<notin> set (bm_visited b)}"
    using ids an by simp
  show "distinct (map sr_id rs)" using ids(2) an(3) mset_eq_imp_distinct_iff by blast
  show "\<exists>ids. score_ids su ids = Inr rs \<or> (\<exists>rs'. score_ids su ids = Inr rs' \<and> rs = std_sort search_result_less rs')"
    using rk unfolding eq rank_neighbors_by_distance_def by (elim seq_InrE) auto
  show "set (bm_visited b') = set (bm_visited b) \<union> {i \<in> set (nbrs (sr_id c)). unat i < su_vector_count su}"
    "distinct (bm_visited b) \<Longrightarrow> distinct (bm_visited b')"
    "bm_candidates b' = bm_candidates b" "bm_best b' = bm_best b" "bm_expanded b' = bm_expanded b + 1"
    using an eq by simp_all
qed

lemma graph_expand_all_parts:
  assumes "graph_expand_all su nbrs b cs = Inr (rss, b')"
  shows "in_range (su_vector_count su) (concat rss)" "bm_candidates b' = bm_candidates b" "bm_best b' = bm_best b"
    "bm_expanded b' = bm_expanded b + length cs"
proof -
  have "in_range (su_vector_count su) (concat rss) \<and> bm_candidates b' = bm_candidates b \<and> bm_best b' = bm_best b \<and>
    bm_expanded b' = bm_expanded b + length cs"
    using assms
  proof (induction cs arbitrary: b rss)
    case (Cons c cs)
    from Cons.prems obtain rs b1 rest where 1: "graph_expand su nbrs b c = Inr (rs, b1)"
      and 2: "graph_expand_all su nbrs b1 cs = Inr (rest, b')" "rss = rs # rest"
      by (auto elim!: seq_pairE)
    have "in_range (su_vector_count su) rs" using graph_expand_parts(1)[OF 1] by (auto simp: in_range_def)
    then show ?case using Cons.IH[OF 2(1)] graph_expand_parts(5-7)[OF 1] 2(2) by (auto simp: in_range_def)
  qed (simp add: in_range_def)
  then show "in_range (su_vector_count su) (concat rss)" "bm_candidates b' = bm_candidates b" "bm_best b' = bm_best b"
    "bm_expanded b' = bm_expanded b + length cs" by blast+
qed

lemma graph_batch_range:
  assumes "graph_batch su nbrs batch b = Inr b'" and "in_range (su_vector_count su) (bm_candidates b @ bm_best b)"
  shows "in_range (su_vector_count su) (bm_candidates b' @ bm_best b')" "bm_expanded b' = bm_expanded b + length batch"
proof -
  obtain rss b1 where e: "graph_expand_all su nbrs b batch = Inr (rss, b1)" "b' = foldl (push_ranked su) b1 rss"
    using assms(1) unfolding graph_batch_def by (auto elim!: seq_pairE)
  note parts = graph_expand_all_parts[OF e(1)]
  show "bm_expanded b' = bm_expanded b + length batch" using parts(4) by (simp add: e(2))
  show "in_range (su_vector_count su) (bm_candidates b' @ bm_best b')"
    using parts(1-3) ranked_sets[of su b1 rss] assms(2) unfolding in_range_def e(2) set_append by auto
qed

lemma select_range:
  assumes "select_window su width b = (batch, b')" and "in_range n (bm_candidates b @ bm_best b)"
  shows "in_range n batch" "in_range n (bm_candidates b' @ bm_best b')" "bm_expanded b' = bm_expanded b"
    "su' = su \<Longrightarrow> length batch \<le> min width (gc_search_width (su_config su) - bm_expanded b)"
proof -
  note p = pop_window_parts[OF assms(1)[unfolded select_window_def]]
  have "bm_best b' = bm_best b" "bm_expanded b' = bm_expanded b" by (subst p(2), simp)+
  then show "in_range n batch" "in_range n (bm_candidates b' @ bm_best b')" "bm_expanded b' = bm_expanded b"
    "su' = su \<Longrightarrow> length batch \<le> min width (gc_search_width (su_config su) - bm_expanded b)"
    using assms(2) p(1,3) by (auto simp: in_range_def)
qed

section \<open>Each stage computes its counterpart\<close>

lemma keeps_lift:
  assumes "\<And>e. R \<Longrightarrow> r \<noteq> Inl e"
  shows "keeps Z R i d (lift_result r) (\<lambda>x. r = Inr x)"
proof (rule spec_lift)
  fix s assume "query_ok Z R i d s"
  then show "case r of Inl e \<Rightarrow> failed_ok R i d s | Inr x \<Rightarrow> query_ok Z R i d s \<and> r = Inr x"
    using assms by (cases r) (auto simp: failed_ok_def query_okD(6,7))
qed

lemma expand_node_kept:
  assumes dir: "directory_ok i d" and R: "R \<Longrightarrow> complete i d" "R \<Longrightarrow> unat (sr_id c) < gm_vector_count (pi_metadata i)"
    and total: "\<And>e. R \<Longrightarrow> graph_expand su (file_neighbors i d) b c \<noteq> Inl e"
  shows "keeps Z R i d (expand_node lg su b c) (\<lambda>x. graph_expand su (file_neighbors i d) b c = Inr x)"
  unfolding expand_node_def
proof (rule keeps_then[OF get_node_kept[OF dir]])
  show "R \<Longrightarrow> readable i d" "R \<Longrightarrow> file_node i d (sr_id c) \<noteq> None" using R by (simp_all add: complete_def)
next
  fix node assume "\<exists>m. file_node i d (sr_id c) = Some m \<and> dn_neighbors node = dn_neighbors m"
  then have nbrs: "dn_neighbors node = file_neighbors i d (sr_id c)" by (auto simp: file_neighbors_def)
  obtain new vis where acc: "accept_nodes (su_vector_count su) (bm_visited b) (dn_neighbors node) = (new, vis)" by fastforce
  let ?b = "b\<lparr>bm_visited := vis, bm_expanded := bm_expanded b + 1\<rparr>"
  have ge: "graph_expand su (file_neighbors i d) b c =
      seq_result (rank_neighbors_by_distance su new) (\<lambda>ranked. Inr (ranked, ?b))"
    by (simp add: graph_expand_def nbrs[symmetric] acc)
  have "keeps Z R i d (lift_result (rank_neighbors_by_distance su new)) (\<lambda>x. rank_neighbors_by_distance su new = Inr x)"
    using total ge by (intro keeps_lift) (metis seq_result_simps(1))
  then have "keeps Z R i d (then_do (lift_result (rank_neighbors_by_distance su new)) (\<lambda>ranked. ret (ranked, ?b)))
      (\<lambda>x. graph_expand su (file_neighbors i d) b c = Inr x)"
    by (rule keeps_then) (simp add: keeps_ret ge)
  then have "keeps Z R i d (then_do (count_up Pq_filter_accept_count (length new)) (\<lambda>_.
      then_do (lift_result (rank_neighbors_by_distance su new)) (\<lambda>ranked. ret (ranked, ?b))))
      (\<lambda>x. graph_expand su (file_neighbors i d) b c = Inr x)"
    by (intro keeps_then[OF keeps_count(1)[of "\<lambda>_. True"]]) auto
  note count = this
  have dirlen: "R \<Longrightarrow> unat (sr_id c) < length (pi_node_to_page i)" using R(2) dir by (simp add: directory_ok_def)
  show "keeps Z R i d (then_do (\<lambda>s. (page_for_node (sr_id c) s, s)) (\<lambda>page_id. then_do (pin_page page_id) (\<lambda>_.
      let (new_neighbors, visited) = accept_nodes (su_vector_count su) (bm_visited b) (dn_neighbors node)
       in then_do (count_up Pq_filter_accept_count (length new_neighbors)) (\<lambda>_.
          then_do (lift_result (rank_neighbors_by_distance su new_neighbors)) (\<lambda>ranked.
          ret (ranked, b\<lparr>bm_visited := visited, bm_expanded := bm_expanded b + 1\<rparr>))))))
      (\<lambda>x. graph_expand su (file_neighbors i d) b c = Inr x)"
    unfolding acc Let_def prod.case
    by (rule keeps_then[OF keeps_page_for[OF dirlen]], assumption, rule keeps_then[OF pin_page_kept count])
qed

lemma expand_nodes_kept:
  assumes dir: "directory_ok i d" and "R \<Longrightarrow> complete i d" and "R \<Longrightarrow> in_range (gm_vector_count (pi_metadata i)) cs"
    and "\<And>e. R \<Longrightarrow> graph_expand_all su (file_neighbors i d) b cs \<noteq> Inl e"
  shows "keeps Z R i d (expand_nodes lg su b cs) (\<lambda>x. graph_expand_all su (file_neighbors i d) b cs = Inr x)"
  using assms(2-)
proof (induction cs arbitrary: b)
  case Nil
  then show ?case by (simp add: spec_ret)
next
  case (Cons c cs)
  let ?G = "file_neighbors i d"
  have first: "keeps Z R i d (expand_node lg su b c) (\<lambda>x. graph_expand su ?G b c = Inr x)"
  proof (rule expand_node_kept[OF dir Cons.prems(1)])
    show "unat (sr_id c) < gm_vector_count (pi_metadata i)" if R using Cons.prems(2)[OF that] by (simp add: in_range_def)
    show "graph_expand su ?G b c \<noteq> Inl e" if R for e using Cons.prems(3)[OF that, of e] by auto
  qed
  have "keeps Z R i d (then_do (expand_nodes lg su b1 cs) (\<lambda>(rest, b2). ret (rs # rest, b2)))
      (\<lambda>x. graph_expand_all su ?G b (c # cs) = Inr x)" if 1: "graph_expand su ?G b c = Inr (rs, b1)" for rs b1
  proof -
    have "keeps Z R i d (expand_nodes lg su b1 cs) (\<lambda>x. graph_expand_all su ?G b1 cs = Inr x)"
    proof (rule Cons.IH[OF Cons.prems(1)])
      show "in_range (gm_vector_count (pi_metadata i)) cs" if R using Cons.prems(2)[OF that] by (simp add: in_range_def)
      show "graph_expand_all su ?G b1 cs \<noteq> Inl e" if R for e using Cons.prems(3)[OF that, of e] 1 by auto
    qed
    then show ?thesis by (rule keeps_then) (auto simp: 1 intro: spec_ret)
  qed
  then show ?case unfolding expand_nodes.simps by (intro keeps_then[OF first]) (auto split: prod.splits)
qed

lemma expand_batch_kept:
  assumes "directory_ok i d" and "R \<Longrightarrow> complete i d" and "R \<Longrightarrow> in_range (gm_vector_count (pi_metadata i)) batch"
    and "\<And>e. R \<Longrightarrow> graph_batch su (file_neighbors i d) batch b \<noteq> Inl e"
  shows "keeps Z R i d (expand_candidate_batch lg su batch b) (\<lambda>x. graph_batch su (file_neighbors i d) batch b = Inr x)"
  unfolding expand_candidate_batch_def
proof (rule keeps_then[OF expand_nodes_kept[OF assms(1,2,3)]])
  show "graph_expand_all su (file_neighbors i d) b batch \<noteq> Inl e" if R for e
    using assms(4)[OF that, of e] by (auto simp: graph_batch_def)
  show "keeps Z R i d (case x of (rss, b) \<Rightarrow> ret (foldl (push_ranked su) b rss))
      (\<lambda>y. graph_batch su (file_neighbors i d) batch b = Inr y)"
    if "graph_expand_all su (file_neighbors i d) b batch = Inr x" for x
    using that by (cases x) (simp add: graph_batch_def spec_ret)
qed

lemma keeps_pages_for:
  assumes dir: "directory_ok i d" and "R \<Longrightarrow> in_range (gm_vector_count (pi_metadata i)) cs"
  shows "keeps Z R i d (for_each (\<lambda>c. (\<lambda>s. (page_for_node (sr_id c) s, s))) cs)
    (list_all2 (\<lambda>c p. unat (sr_id c) < length (pi_node_to_page i) \<and> p = pi_node_to_page i ! unat (sr_id c)) cs)"
  using assms by (intro keeps_for_each keeps_page_for) (auto simp: directory_ok_def in_range_def)

lemma select_batch_kept:
  assumes dir: "directory_ok i d" and R: "R \<Longrightarrow> in_range (gm_vector_count (pi_metadata i)) (bm_candidates b)"
  shows "keeps Z R i d (select_candidate_batch su width b) (\<lambda>x. x = select_window su width b)"
proof -
  obtain window b' where w: "select_window su width b = (window, b')" by fastforce
  have "in_range n window" if "in_range n (bm_candidates b)" for n
    using pop_window_parts(1)[OF w[unfolded select_window_def]] that by (auto simp: in_range_def)
  then have "keeps Z R i d (for_each (\<lambda>c. (\<lambda>s. (page_for_node (sr_id c) s, s))) window)
    (list_all2 (\<lambda>c p. unat (sr_id c) < length (pi_node_to_page i) \<and> p = pi_node_to_page i ! unat (sr_id c)) window)"
    using R by (intro keeps_pages_for[OF dir]) blast
  then show ?thesis
    unfolding select_candidate_batch_def w Let_def prod.case by (rule spec_bind) (simp add: ret_def)
qed

lemma pages_in_file:
  assumes "complete i d" and "in_range (gm_vector_count (pi_metadata i)) cs"
    and "list_all2 (\<lambda>c p. unat (sr_id c) < length (pi_node_to_page i) \<and> p = pi_node_to_page i ! unat (sr_id c)) cs ps"
  shows "\<forall>p\<in>set ps. unat p < gm_page_count (pi_metadata i)"
proof
  fix p assume "p \<in> set ps"
  then obtain j where "j < length ps" "p = ps ! j" by (auto simp: in_set_conv_nth)
  then have "j < length cs" "p = pi_node_to_page i ! unat (sr_id (cs ! j))" using assms(3) by (auto simp: list_all2_conv_all_nth)
  moreover from this have "file_node i d (sr_id (cs ! j)) \<noteq> None"
    using assms(1,2) by (auto simp: complete_def in_range_def)
  ultimately show "unat p < gm_page_count (pi_metadata i)" using file_node_page(2) by blast
qed

lemma search_rounds_kept:
  assumes dir: "directory_ok i d" and count: "su_vector_count su = gm_vector_count (pi_metadata i)"
    and R: "R \<Longrightarrow> complete i d" "R \<Longrightarrow> in_range (gm_vector_count (pi_metadata i)) (bm_candidates b @ bm_best b)"
    and total: "\<And>e. R \<Longrightarrow> graph_rounds su (file_neighbors i d) width n b \<noteq> Inl e"
  shows "keeps idle R i d (search_rounds lg su width n b)
    (\<lambda>x. graph_rounds su (file_neighbors i d) width n b = Inr x)"
  using assms(4,5)
proof (induction n arbitrary: b)
  case 0
  then show ?case by (simp add: spec_ret)
next
  case (Suc n)
  let ?G = "file_neighbors i d"
  show ?case
  proof (cases "search_continues su b")
    case False
    then show ?thesis by (simp add: spec_ret)
  next
    case True
    obtain batch b1 where w: "select_window su width b = (batch, b1)" by fastforce
    have rng: "in_range (gm_vector_count (pi_metadata i)) batch"
      "in_range (gm_vector_count (pi_metadata i)) (bm_candidates b1 @ bm_best b1)" if R
      using select_range(1,2)[OF w] Suc.prems(1)[OF that] by blast+
    have sel: "keeps idle R i d (select_candidate_batch su width b) (\<lambda>x. x = (batch, b1))"
      using Suc.prems(1) unfolding w[symmetric] by (intro select_batch_kept[OF dir]) (auto simp: in_range_def)
    show ?thesis
    proof (cases "batch = []")
      case True
      have "keeps idle R i d (then_do (select_candidate_batch su width b) (\<lambda>(batch, b). if batch = [] then ret b else X batch b))
          (\<lambda>x. graph_rounds su ?G width (Suc n) b = Inr x)" for X
        using True w \<open>search_continues su b\<close> by (intro keeps_then[OF sel]) (auto intro: spec_ret)
      then show ?thesis using \<open>search_continues su b\<close> by simp
    next
      case ne: False
      let ?b = "b1\<lparr>bm_batch_count := bm_batch_count b1 + 1\<rparr>"
      have eq: "graph_rounds su ?G width (Suc n) b = seq_result (graph_batch su ?G batch ?b) (graph_rounds su ?G width n)"
        using True ne w by simp
      have bt: "graph_batch su ?G batch ?b \<noteq> Inl e" if R for e using Suc.prems(2)[OF that, of e] eq by auto
      have step: "keeps idle R i d (expand_candidate_batch lg su batch ?b) (\<lambda>x. graph_batch su ?G batch ?b = Inr x)"
        by (rule expand_batch_kept[OF dir R(1) rng(1) bt])
      have rest: "keeps idle R i d (search_rounds lg su width n b2) (\<lambda>x. graph_rounds su ?G width (Suc n) b = Inr x)"
        if b2: "graph_batch su ?G batch ?b = Inr b2" for b2
      proof -
        have "keeps idle R i d (search_rounds lg su width n b2) (\<lambda>x. graph_rounds su ?G width n b2 = Inr x)"
        proof (rule Suc.IH)
          show "in_range (gm_vector_count (pi_metadata i)) (bm_candidates b2 @ bm_best b2)" if R
            using graph_batch_range(1)[OF b2] rng(2)[OF that] count by simp
          show "graph_rounds su ?G width n b2 \<noteq> Inl e" if R for e using Suc.prems(2)[OF that, of e] eq b2 by auto
        qed
        then show ?thesis by (rule keeps_weaken) (simp only: eq b2 seq_result_simps)
      qed
      have load: "keeps idle R i d (then_do (ensure_pages_loaded_batch lg ps) (\<lambda>_.
          then_do (count_batch (length batch)) (\<lambda>_.
          then_do (expand_candidate_batch lg su batch ?b) (search_rounds lg su width n))))
          (\<lambda>x. graph_rounds su ?G width (Suc n) b = Inr x)"
        if ps: "list_all2 (\<lambda>c p. unat (sr_id c) < length (pi_node_to_page i) \<and> p = pi_node_to_page i ! unat (sr_id c)) batch ps" for ps
      proof (rule keeps_then[OF ensure_pages_kept[OF dir]])
        show "readable i d" if R using R(1)[OF that] by (simp add: complete_def)
        show "\<forall>p\<in>set ps. unat p < gm_page_count (pi_metadata i)" if R
          by (rule pages_in_file[OF R(1)[OF that] rng(1)[OF that] ps])
        show "keeps idle R i d (then_do (count_batch (length batch)) (\<lambda>_.
            then_do (expand_candidate_batch lg su batch ?b) (search_rounds lg su width n)))
            (\<lambda>x. graph_rounds su ?G width (Suc n) b = Inr x)"
          unfolding count_batch_def
          by (rule spec_then[OF spec_upd[where Q = "\<lambda>_. query_ok idle R i d"]], simp, rule keeps_then[OF step rest])
      qed
      have "keeps idle R i d (then_do (for_each (\<lambda>c. (\<lambda>s. (page_for_node (sr_id c) s, s))) batch) (\<lambda>ps.
          then_do (ensure_pages_loaded_batch lg ps) (\<lambda>_. then_do (count_batch (length batch)) (\<lambda>_.
          then_do (expand_candidate_batch lg su batch ?b) (search_rounds lg su width n)))))
          (\<lambda>x. graph_rounds su ?G width (Suc n) b = Inr x)"
        by (rule keeps_then[OF keeps_pages_for[OF dir rng(1)] load])
      then have body: "keeps idle R i d (case x of (batch, b) \<Rightarrow> if batch = [] then ret b
          else then_do (for_each (\<lambda>c. (\<lambda>s. (page_for_node (sr_id c) s, s))) batch) (\<lambda>ps.
          then_do (ensure_pages_loaded_batch lg ps) (\<lambda>_. then_do (count_batch (length batch)) (\<lambda>_.
          then_do (expand_candidate_batch lg su batch (b\<lparr>bm_batch_count := bm_batch_count b + 1\<rparr>)) (search_rounds lg su width n)))))
          (\<lambda>x. graph_rounds su ?G width (Suc n) b = Inr x)" if "x = (batch, b1)" for x
        using that ne by (simp only: prod.case if_False)
      from keeps_then[OF sel body]
      show ?thesis using True by (simp del: graph_rounds.simps)
    qed
  qed
qed

lemma rerank_result_kept:
  assumes dir: "directory_ok i d" and R: "R \<Longrightarrow> complete i d" "R \<Longrightarrow> unat (sr_id r) < gm_vector_count (pi_metadata i)"
  shows "keeps Z R i d (rerank_result lg query r)
    (\<lambda>x. x = r\<lparr>sr_distance := squared_l2 query (file_vector i d (sr_id r)) (gm_dim (pi_metadata i))\<rparr>)"
  unfolding rerank_result_def
proof (rule keeps_then[OF keeps_page_for])
  show "unat (sr_id r) < length (pi_node_to_page i)" if R using R(2)[OF that] dir by (simp add: directory_ok_def)
next
  fix p assume p: "unat (sr_id r) < length (pi_node_to_page i) \<and> p = pi_node_to_page i ! unat (sr_id r)"
  let ?x = "r\<lparr>sr_distance := squared_l2 query (file_vector i d (sr_id r)) (gm_dim (pi_metadata i))\<rparr>"
  have node: "file_node i d (sr_id r) \<noteq> None" if R using R[OF that] by (simp add: complete_def)
  have load: "keeps Z R i d (get_or_load_page lg p) (\<lambda>page. file_page i d p = Some page)"
  proof (rule spec_conseq[OF get_or_load_kept[OF dir]])
    show "readable i d" if R using R(1)[OF that] by (simp add: complete_def)
    show "unat p < gm_page_count (pi_metadata i)" if R using file_node_page(2) node[OF that] p by blast
  qed auto
  show "keeps Z R i d (then_do (get_or_load_page lg p) (\<lambda>page.
      then_do (lift_result (find_node page (sr_id r))) (\<lambda>node. then_do (count_up Distance_direct_calls 1) (\<lambda>_.
      then_do (\<lambda>s. (vector_data (pi_metadata (qs_index s)) page node, s)) (\<lambda>values s.
      ret (r\<lparr>sr_distance := squared_l2 query values (gm_dim (pi_metadata (qs_index s)))\<rparr>) s))))) (\<lambda>x. x = ?x)"
  proof (rule keeps_then[OF load])
    fix page assume page: "file_page i d p = Some page"
    have find: "keeps Z R i d (lift_result (find_node page (sr_id r))) (\<lambda>node. find_node page (sr_id r) = Inr node)"
    proof (rule keeps_lift)
      show "find_node page (sr_id r) \<noteq> Inl e" if R for e
        using node[OF that] p page by (auto simp: file_node_def find_node_def)
    qed
    have dist: "keeps Z R i d (then_do (\<lambda>s. (vector_data (pi_metadata (qs_index s)) page node, s)) (\<lambda>values s.
        ret (r\<lparr>sr_distance := squared_l2 query values (gm_dim (pi_metadata (qs_index s)))\<rparr>) s)) (\<lambda>x. x = ?x)"
      if n: "find_node page (sr_id r) = Inr node" for node
    proof (rule specI)
      fix s assume s: "query_ok Z R i d s"
      have dim: "0 < gm_dim (pi_metadata i)" using dir by (simp add: directory_ok_def)
      have "node \<in> set (dp_nodes page)" using n by (auto simp: find_node_def find_Some_iff split: option.splits)
      then obtain vs where v: "vector_data (pi_metadata i) page node = Inr vs"
        using file_page_vector[OF page _ dim, of node] by blast
      then have "file_vector i d (sr_id r) = vs" using n page p by (simp add: file_vector_def)
      then show "case then_do (\<lambda>s. (vector_data (pi_metadata (qs_index s)) page node, s)) (\<lambda>values s.
          ret (r\<lparr>sr_distance := squared_l2 query values (gm_dim (pi_metadata (qs_index s)))\<rparr>) s) s of
          (Inl e, s') \<Rightarrow> failed_ok R i d s' | (Inr x, s') \<Rightarrow> query_ok Z R i d s' \<and> x = ?x"
        using s v query_okD(3)[OF s] by (simp add: then_do_def ret_def)
    qed
    show "keeps Z R i d (then_do (lift_result (find_node page (sr_id r))) (\<lambda>node.
        then_do (count_up Distance_direct_calls 1) (\<lambda>_.
        then_do (\<lambda>s. (vector_data (pi_metadata (qs_index s)) page node, s)) (\<lambda>values s.
        ret (r\<lparr>sr_distance := squared_l2 query values (gm_dim (pi_metadata (qs_index s)))\<rparr>) s)))) (\<lambda>x. x = ?x)"
      by (rule keeps_then[OF find], rule keeps_then[OF keeps_count(1)[of "\<lambda>_. True"] dist], simp_all)
  qed
qed

lemma list_all2_map_eq: "list_all2 (\<lambda>x y. y = f x) xs ys \<longleftrightarrow> ys = map f xs"
  by (auto simp: list_all2_conv_all_nth list_eq_iff_nth_eq)

lemma rerank_topk_kept:
  assumes dir: "directory_ok i d" and R: "R \<Longrightarrow> complete i d" "R \<Longrightarrow> in_range (gm_vector_count (pi_metadata i)) rs"
  shows "keeps Z R i d (rerank_topk_results lg query rs) (\<lambda>x. x = std_sort search_result_less
    (map (\<lambda>r. r\<lparr>sr_distance := squared_l2 query (file_vector i d (sr_id r)) (gm_dim (pi_metadata i))\<rparr>) rs))"
proof (rule specI)
  fix s assume s: "query_ok Z R i d s"
  let ?f = "\<lambda>r. r\<lparr>sr_distance := squared_l2 query (file_vector i d (sr_id r)) (gm_dim (pi_metadata i))\<rparr>"
  have all: "keeps Z R i d (for_each (rerank_result lg query) rs) (list_all2 (\<lambda>r x. x = ?f r) rs)"
    using R by (intro keeps_for_each rerank_result_kept[OF dir]) (auto simp: in_range_def)
  have "spec (query_ok Z R i d) (then_do (for_each (rerank_result lg query) rs) (\<lambda>topk t.
      (Inr (std_sort search_result_less topk),
       t\<lparr>qs_stats := bump Rerank_reads (qs_stats t Node_reads - qs_stats s Node_reads) (qs_stats t)\<rparr>)))
      (\<lambda>x t. query_ok Z R i d t \<and> x = std_sort search_result_less (map ?f rs)) (failed_ok R i d)"
    by (rule spec_bind[OF all]) (simp add: list_all2_map_eq)
  from specD[OF this s] show "case rerank_topk_results lg query rs s of (Inl e, s') \<Rightarrow> failed_ok R i d s'
      | (Inr x, s') \<Rightarrow> query_ok Z R i d s' \<and> x = std_sort search_result_less (map ?f rs)"
    by (simp add: rerank_topk_results_def Let_def)
qed

text \<open>A query that ended: nothing is pinned any more.\<close>

definition query_done :: "bool \<Rightarrow> packed_index \<Rightarrow> disk \<Rightarrow> session \<Rightarrow> bool" where
  "query_done reliable idx0 d0 s \<longleftrightarrow> index_ok idx0 d0 s \<and> qs_pinned_pages s = [] \<and> qs_finished s \<and>
     idle (pi_reader (qs_index s)) \<and> (reliable \<longrightarrow> outcomes (qs_disk s) = [])"

lemma finalize_kept:
  assumes dir: "directory_ok i d" and R: "R \<Longrightarrow> complete i d" "R \<Longrightarrow> in_range (gm_vector_count (pi_metadata i)) (bm_best b)"
  shows "spec (query_ok idle R i d) (finalize_topk lg su query b)
    (\<lambda>x s. query_done R i d s \<and> x = graph_topk su query (gm_dim (pi_metadata i)) (file_vector i d) b) (failed_ok R i d)"
proof -
  let ?found = "sorted_results (bm_best b)"
  let ?final = "if su_adc_table su \<noteq> [] \<and> 0 < gc_rerank_topk (su_config su)
         then std_sort search_result_less (map (\<lambda>r. r\<lparr>sr_distance :=
           squared_l2 query (file_vector i d (sr_id r)) (gm_dim (pi_metadata i))\<rparr>) ?found) else ?found"
  have "in_range (gm_vector_count (pi_metadata i)) ?found" if R
    using R(2)[OF that] by (simp add: in_range_def sorted_results_def)
  then have rank: "keeps idle R i d (if su_adc_table su \<noteq> [] \<and> 0 < gc_rerank_topk (su_config su)
         then rerank_topk_results lg query ?found else ret ?found) (\<lambda>x. x = ?final)"
    using rerank_topk_kept[OF dir R(1)] by (auto intro: spec_ret)
  have finish: "spec (\<lambda>s. query_ok idle R i d s \<and> x = ?final) (then_do finish_query (\<lambda>_. ret (take (su_effective_k su) x)))
      (\<lambda>x s. query_done R i d s \<and> x = graph_topk su query (gm_dim (pi_metadata i)) (file_vector i d) b) (failed_ok R i d)" for x
  proof (rule specI)
    fix s assume s: "query_ok idle R i d s \<and> x = ?final"
    then obtain s' where "finish_query s = (Inr (), s')" "index_ok i d s'" "qs_pinned_pages s' = []" "qs_finished s'"
      "pi_reader (qs_index s') = pi_reader (qs_index s)" "qs_disk s' = qs_disk s"
      using finish_query_kept[OF query_okD(6,7), of idle R i d s] by blast
    then show "case then_do finish_query (\<lambda>_. ret (take (su_effective_k su) x)) s of (Inl e, s') \<Rightarrow> failed_ok R i d s'
        | (Inr x, s') \<Rightarrow> query_done R i d s' \<and> x = graph_topk su query (gm_dim (pi_metadata i)) (file_vector i d) b"
      using s by (simp add: then_do_def ret_def query_done_def query_but_def graph_topk_def Let_def)
  qed
  show ?thesis unfolding finalize_topk_def
    by (rule spec_then[OF spec_upd[where Q = "\<lambda>_. query_ok idle R i d"]], simp, rule spec_then[OF rank finish])
qed

lemma graph_rounds_range:
  assumes "graph_rounds su nbrs width n b = Inr b'" and "in_range (su_vector_count su) (bm_candidates b @ bm_best b)"
  shows "in_range (su_vector_count su) (bm_candidates b' @ bm_best b')"
  using assms
proof (induction n arbitrary: b)
  case (Suc n)
  show ?case
  proof (cases "search_continues su b")
    case True
    obtain batch b1 where w: "select_window su width b = (batch, b1)" by fastforce
    note rng = select_range(2)[OF w Suc.prems(2)]
    show ?thesis
    proof (cases "batch = []")
      case True
      then show ?thesis using Suc.prems(1) w rng \<open>search_continues su b\<close> by simp
    next
      case False
      then obtain b2 where b2: "graph_batch su nbrs batch (b1\<lparr>bm_batch_count := bm_batch_count b1 + 1\<rparr>) = Inr b2"
        "graph_rounds su nbrs width n b2 = Inr b'"
        using Suc.prems(1) w True by (auto elim!: seq_InrE)
      show ?thesis using Suc.IH[OF b2(2)] graph_batch_range(1)[OF b2(1)] rng by simp
    qed
  qed (use Suc.prems in simp)
qed simp

section \<open>Starting and ending a search\<close>

lemma initialize_cases:
  assumes "initialize_search_state n query config = Inr (su, b)"
  obtains model entries ranked where "gc_pq_model config = Some model"
    "(if gc_seed_ids config = [] then select_evenly_spaced_entries n (gc_entry_count config)
      else Inr (gc_seed_ids config)) = Inr entries"
    "su = \<lparr>su_config = config, su_adc_table = build_adc_table model query,
        su_effective_k = min (gc_top_k config) n,
        su_result_capacity = min (max (min (gc_top_k config) n) (gc_rerank_topk config)) n, su_vector_count = n\<rparr>"
    "rank_neighbors_by_distance su (fst (accept_nodes n [] entries)) = Inr ranked"
    "b = foldl (push_candidate su) (empty_beam\<lparr>bm_visited := snd (accept_nodes n [] entries)\<rparr>) ranked"
proof -
  obtain model where m: "gc_pq_model config = Some model"
    using assms by (auto simp: initialize_search_state_def split: option.splits)
  have c: "(\<not> gc_adc_enable config \<or> \<not> pq_enabled model) = False"
    using assms unfolding initialize_search_state_def m option.case by (auto split: if_split_asm)
  from assms obtain entries where
    e: "(if gc_seed_ids config = [] then select_evenly_spaced_entries n (gc_entry_count config)
      else Inr (gc_seed_ids config)) = Inr entries" and
    rest: "(let (accepted, visited) = accept_nodes n [] entries;
              effective_k = min (gc_top_k config) n;
              su = \<lparr>su_config = config, su_adc_table = build_adc_table model query, su_effective_k = effective_k,
                    su_result_capacity = min (max effective_k (gc_rerank_topk config)) n,
                    su_vector_count = n\<rparr>
          in seq_result (rank_neighbors_by_distance su accepted) (\<lambda>ranked.
             Inr (su, foldl (push_candidate su) (empty_beam\<lparr>bm_visited := visited\<rparr>) ranked))) = Inr (su, b)"
    unfolding initialize_search_state_def m option.case c if_False by (elim seq_InrE)
  show thesis
    using rest unfolding Let_def case_prod_unfold
    by (elim seq_InrE) (rule that[OF m e], auto)
qed

lemma initialize_parts:
  assumes "initialize_search_state n query config = Inr (su, b)"
  shows "su_vector_count su = n" "su_config su = config" "in_range n (bm_candidates b @ bm_best b)"
    "su_effective_k su = min (gc_top_k config) n"
    "su_result_capacity su = min (max (min (gc_top_k config) n) (gc_rerank_topk config)) n"
proof -
  obtain model entries ranked where "gc_pq_model config = Some model"
    and e: "su = \<lparr>su_config = config, su_adc_table = build_adc_table model query,
        su_effective_k = min (gc_top_k config) n,
        su_result_capacity = min (max (min (gc_top_k config) n) (gc_rerank_topk config)) n, su_vector_count = n\<rparr>"
    and r: "rank_neighbors_by_distance su (fst (accept_nodes n [] entries)) = Inr ranked"
    and b: "b = foldl (push_candidate su) (empty_beam\<lparr>bm_visited := snd (accept_nodes n [] entries)\<rparr>) ranked"
    by (rule initialize_cases[OF assms])
  show "su_vector_count su = n" "su_config su = config" "su_effective_k su = min (gc_top_k config) n"
    "su_result_capacity su = min (max (min (gc_top_k config) n) (gc_rerank_topk config)) n" by (simp_all add: e)
  have "in_range n ranked"
    using rank_ids(1)[OF r] accept_nodes_new(1)[where n = n and visited = "[]" and ids = entries]
    by (fastforce simp: in_range_def)
  then show "in_range n (bm_candidates b @ bm_best b)"
    using push_all_sets[of su "empty_beam\<lparr>bm_visited := snd (accept_nodes n [] entries)\<rparr>" ranked]
    by (auto simp: in_range_def b empty_beam_def)
qed

lemma search_body_kept:
  fixes query :: "f32 list"
  assumes dir: "directory_ok i d" and R: "R \<Longrightarrow> complete i d"
    and pos: "0 < gc_top_k config" "0 < gc_search_width config" "0 < gc_entry_count config"
  defines "G \<equiv> graph_search (gm_vector_count (pi_metadata i)) (gm_dim (pi_metadata i)) (file_neighbors i d) (file_vector i d) query config"
  assumes total: "\<And>e. R \<Longrightarrow> G \<noteq> Inl e"
  shows "spec (query_ok idle R i d) (search_body lg query config) (\<lambda>x s. query_done R i d s \<and> G = Inr x) (failed_ok R i d)"
proof (rule specI)
  fix s assume s: "query_ok idle R i d s"
  let ?n = "gm_vector_count (pi_metadata i)"
  let ?init = "initialize_search_state ?n query config"
  let ?width = "max 1 (min (if gc_beam_width config = 0 then gc_search_width config else gc_beam_width config)
                       (gc_search_width config))"
  let ?body = "then_do (lift_result ?init) (\<lambda>(su, b).
        then_do (count_up Pq_filter_accept_count (length (bm_visited b))) (\<lambda>_.
        then_do (search_rounds lg su ?width (gc_search_width config) b) (finalize_topk lg su query)))"
  have G: "G = seq_result ?init (\<lambda>(su, b). seq_result (graph_rounds su (file_neighbors i d) ?width (gc_search_width config) b)
      (\<lambda>b. Inr (graph_topk su query (gm_dim (pi_metadata i)) (file_vector i d) b)))"
    using pos by (simp add: G_def graph_search_def Let_def)
  have init: "keeps idle R i d (lift_result ?init) (\<lambda>x. ?init = Inr x)"
  proof (rule keeps_lift)
    show "?init \<noteq> Inl e" if R for e using total[OF that, of e] unfolding G by auto
  qed
  have run: "spec (query_ok idle R i d) (then_do (count_up Pq_filter_accept_count (length (bm_visited b))) (\<lambda>_.
        then_do (search_rounds lg su ?width (gc_search_width config) b) (finalize_topk lg su query)))
      (\<lambda>x s. query_done R i d s \<and> G = Inr x) (failed_ok R i d)" if i: "?init = Inr (su, b)" for su b
  proof -
    note p = initialize_parts[OF i]
    let ?rounds = "graph_rounds su (file_neighbors i d) ?width (gc_search_width config) b"
    have rounds: "keeps idle R i d (search_rounds lg su ?width (gc_search_width config) b) (\<lambda>x. ?rounds = Inr x)"
    proof (rule search_rounds_kept[OF dir p(1) R p(3)])
      show "?rounds \<noteq> Inl e" if R for e using total[OF that, of e] G i by auto
    qed
    have "spec (\<lambda>s. query_ok idle R i d s \<and> ?rounds = Inr b') (finalize_topk lg su query b')
        (\<lambda>x s. query_done R i d s \<and> G = Inr x) (failed_ok R i d)" for b'
    proof (rule spec_fact)
      assume b': "?rounds = Inr b'"
      have rng: "in_range ?n (bm_best b')"
        using graph_rounds_range[OF b'] p(1,3) by (simp add: in_range_def)
      show "spec (query_ok idle R i d) (finalize_topk lg su query b') (\<lambda>x s. query_done R i d s \<and> G = Inr x) (failed_ok R i d)"
        by (rule spec_conseq[OF finalize_kept[OF dir R rng]]) (use G i b' in auto)
    qed
    then have "spec (query_ok idle R i d) (then_do (search_rounds lg su ?width (gc_search_width config) b) (finalize_topk lg su query))
      (\<lambda>x s. query_done R i d s \<and> G = Inr x) (failed_ok R i d)" by (rule spec_then[OF rounds])
    then show ?thesis unfolding count_up_def
      by (intro spec_then[OF spec_upd[where Q = "\<lambda>_. query_ok idle R i d"]]) simp_all
  qed
  have "spec (query_ok idle R i d) ?body (\<lambda>x s. query_done R i d s \<and> G = Inr x) (failed_ok R i d)"
    by (rule spec_then[OF init], rule spec_fact) (use run in \<open>auto split: prod.splits\<close>)
  from specD[OF this s] show "case search_body lg query config s of (Inl e, s') \<Rightarrow> failed_ok R i d s'
      | (Inr x, s') \<Rightarrow> query_done R i d s' \<and> G = Inr x"
    by (simp add: search_body_def query_okD(3)[OF s] Let_def)
qed

section \<open>\<open>search_one\<close>\<close>

text \<open>An index between queries: its cache is sound, nothing is pinned, no completion is awaited.\<close>

definition index_ready :: "packed_index \<Rightarrow> disk \<Rightarrow> bool" where
  "index_ready i d \<longleftrightarrow> directory_ok i d \<and> cache_inv d i \<and> pins_ok [] i \<and> idle (pi_reader i)"

text \<open>The index afterwards still serves the same file from the same place.\<close>

definition same_file :: "packed_index \<Rightarrow> packed_index \<Rightarrow> bool" where
  "same_file i i' \<longleftrightarrow> pi_metadata i' = pi_metadata i \<and> pi_node_to_page i' = pi_node_to_page i \<and>
     pr_path (pi_reader i') = pr_path (pi_reader i)"

abbreviation file_search :: "packed_index \<Rightarrow> disk \<Rightarrow> f32 list \<Rightarrow> graph_search_config \<Rightarrow> search_result list result" where
  "file_search i d \<equiv> graph_search (gm_vector_count (pi_metadata i)) (gm_dim (pi_metadata i)) (file_neighbors i d) (file_vector i d)"

text \<open>The prefetch model, where the configuration asks for one, is there and can be parsed.\<close>

definition model_loads :: "graph_search_config \<Rightarrow> disk \<Rightarrow> bool" where
  "model_loads config d \<longleftrightarrow> gc_prefetch_policy config \<noteq> ''xgboost'' \<or> gc_prefetch_model_path config = [] \<or>
     (case files d (gc_prefetch_model_path config) of None \<Rightarrow> False | Some bs \<Rightarrow> \<not> isl (parse_model (bytes_text bs)))"

lemma planner_opens:
  assumes "PrefetchPlanner (session_prefetch_config config) d = (planner, d')"
  shows "files d' = files d" and "outcomes d = [] \<Longrightarrow> d' = d \<and> isl planner = (\<not> model_loads config d)"
  using assms io_call_files[of d]
  by (auto simp: PrefetchPlanner_def session_prefetch_config_def load_xgboost_model_def read_file_def model_loads_def Let_def
      seq_result_def split: if_splits prod.splits sum.splits option.splits)

lemma session_start:
  assumes "index_ready i d" and "R \<Longrightarrow> outcomes d = [] \<and> model_loads config d"
    and "QueryPageSession i config no_stats d = (session, d')"
  shows "case session of Inr s \<Rightarrow> query_ok idle R i d s | Inl e \<Rightarrow> \<not> R \<and> files d' = files d"
proof -
  obtain planner d1 where p: "PrefetchPlanner (session_prefetch_config config) d = (planner, d1)" by fastforce
  note opens = planner_opens[OF p]
  have "cache_inv d1 i" using assms(1) cache_inv_files[OF opens(1)] by (simp add: index_ready_def)
  then show ?thesis
    using assms p opens
    by (cases planner) (auto simp: index_ready_def QueryPageSession_def query_but_def index_ok_def copies_ok_def nodes_ok_def)
qed

text \<open>Whatever happens, the index is sound and unpinned afterwards.\<close>

lemma body_run:
  assumes dir: "directory_ok i d" and s: "query_ok idle R i d s"
    and run: "search_body lg query config s = (x, s1)" "s2 = snd (finish_query s1)"
    and pos: "0 < gc_top_k config" "0 < gc_search_width config" "0 < gc_entry_count config"
    and R: "R \<Longrightarrow> complete i d" "\<And>e. R \<Longrightarrow> file_search i d query config \<noteq> Inl e"
  shows "cache_inv (qs_disk s2) (qs_index s2) \<and> pins_ok [] (qs_index s2) \<and> files (qs_disk s2) = files d \<and> same_file i (qs_index s2) \<and>
    (case x of Inr topk \<Rightarrow> file_search i d query config = Inr topk \<and> idle (pi_reader (qs_index s2)) \<and> (R \<longrightarrow> outcomes (qs_disk s2) = [])
     | Inl e \<Rightarrow> \<not> R)"
proof -
  have spec: "spec (query_ok idle R i d) (search_body lg query config)
      (\<lambda>x s. query_done R i d s \<and> file_search i d query config = Inr x) (failed_ok R i d)"
    by (rule search_body_kept[OF dir R(1) pos R(2)])
  note after = specD[OF spec s, unfolded run(1) prod.case]
  show ?thesis
  proof (cases x)
    case (Inl e)
    then have f: "failed_ok R i d s1" using after by simp
    then obtain t where t: "finish_query s1 = (Inr (), t)" "index_ok i d t" "qs_pinned_pages t = []"
      using finish_query_kept[of i d s1] by (auto simp: failed_ok_def)
    have "\<not> R" using f by (simp add: failed_ok_def)
    then show ?thesis using t Inl run(2) by (simp add: index_ok_def same_file_def)
  next
    case (Inr topk)
    then have q: "query_done R i d s1" "file_search i d query config = Inr topk" using after by simp_all
    have fin: "s2 = s1" using q(1) run(2) by (simp add: finish_query_def query_done_def)
    show ?thesis using q unfolding fin Inr by (auto simp: query_done_def index_ok_def same_file_def)
  qed
qed

lemma search_run:
  assumes ready: "index_ready i d" and run: "packed_search_one lg query config i d = (r, i', d')"
    and R: "R \<Longrightarrow> complete i d" "R \<Longrightarrow> outcomes d = [] \<and> model_loads config d"
      "\<And>e. R \<Longrightarrow> file_search i d query config \<noteq> Inl e"
  shows "cache_inv d' i' \<and> pins_ok [] i' \<and> files d' = files d \<and> same_file i i' \<and>
    (case r of Inr (topk, stats) \<Rightarrow> file_search i d query config = Inr topk \<and> idle (pi_reader i') \<and> (R \<longrightarrow> outcomes d' = [])
     | Inl e \<Rightarrow> \<not> R)"
proof (cases "gc_top_k config = 0 \<or> gc_search_width config = 0 \<or> gc_entry_count config = 0")
  case True
  have "\<not> R" using R(3) True by (auto simp: graph_search_def)
  then show ?thesis using run True ready by (auto simp: packed_search_one_def index_ready_def same_file_def)
next
  case False
  have pos: "0 < gc_top_k config" "0 < gc_search_width config" "0 < gc_entry_count config" using False by simp_all
  obtain session d0 where session: "QueryPageSession i config no_stats d = (session, d0)" by fastforce
  note start = session_start[OF ready R(2) session]
  have dir: "directory_ok i d" using ready by (simp add: index_ready_def)
  show ?thesis
  proof (cases session)
    case (Inl e)
    then have "r = Inl e" "i' = i" "d' = d0" using run False session by (auto simp: packed_search_one_def)
    then show ?thesis
      using start Inl ready cache_inv_files[of d0 d i] by (auto simp: index_ready_def same_file_def)
  next
    case (Inr s)
    obtain x s1 where body: "search_body lg query config s = (x, s1)" by fastforce
    have s: "query_ok idle R i d s" using start Inr by simp
    have out: "r = seq_result x (\<lambda>topk. Inr (topk, qs_stats (snd (finish_query s1))))"
      "i' = qs_index (snd (finish_query s1))" "d' = qs_disk (snd (finish_query s1))"
      using run False session Inr body by (auto simp: packed_search_one_def Let_def)
    show ?thesis
      using body_run[OF dir s body refl pos R(1,3)] out by (cases x) simp_all
  qed
qed

end
