(* ===== verification/SearchBeam.thy ===== *)
theory SearchBeam
  imports SearchRefines
begin

text \<open>
  The invariant of the beam: which nodes were visited, which of them wait in the candidate heap,
  and what the result heap keeps. Between the expansion of a batch and the pushes that follow
  it, nodes are neither candidates nor done; the invariant carries them along.
\<close>

section \<open>Reachable nodes\<close>

inductive reachable :: "nat \<Rightarrow> (u32 \<Rightarrow> u32 list) \<Rightarrow> u32 set \<Rightarrow> u32 \<Rightarrow> bool" for n nbrs roots where
  root: "v \<in> roots \<Longrightarrow> unat v < n \<Longrightarrow> reachable n nbrs roots v"
| edge: "reachable n nbrs roots v \<Longrightarrow> w \<in> set (nbrs v) \<Longrightarrow> unat w < n \<Longrightarrow> reachable n nbrs roots w"

lemma reachable_range: "reachable n nbrs roots v \<Longrightarrow> unat v < n"
  by (induction rule: reachable.induct) simp_all

text \<open>A set with the roots that is closed under the edges holds every reachable node.\<close>

lemma reachable_closed:
  assumes "reachable n nbrs roots v" and "\<forall>v\<in>roots. unat v < n \<longrightarrow> v \<in> V"
    and "\<forall>v\<in>V. \<forall>w\<in>set (nbrs v). unat w < n \<longrightarrow> w \<in> V"
  shows "v \<in> V"
  using assms by (induction rule: reachable.induct) auto

section \<open>The invariant\<close>

text \<open>
  \<open>todo\<close> are the popped candidates that wait for their expansion, \<open>new\<close> the scored neighbours
  that wait to be pushed.
\<close>

definition beam_mid ::
  "search_setup \<Rightarrow> (u32 \<Rightarrow> u32 list) \<Rightarrow> u32 set \<Rightarrow> search_result list \<Rightarrow> search_result list \<Rightarrow> beam \<Rightarrow> bool" where
  "beam_mid su nbrs roots todo new b \<longleftrightarrow>
     (let V = set (bm_visited b); open = bm_candidates b @ todo @ new; kept = bm_best b @ new; n = su_vector_count su
      in distinct (bm_visited b) \<and> (\<forall>v\<in>V. reachable n nbrs roots v) \<and> (\<forall>v\<in>roots. unat v < n \<longrightarrow> v \<in> V) \<and>
         distinct (map sr_id open) \<and> sr_id ` set open \<subseteq> V \<and>
         distinct (map sr_id kept) \<and> sr_id ` set kept \<subseteq> V \<and> (n \<le> su_result_capacity su \<longrightarrow> sr_id ` set kept = V) \<and>
         length (bm_best b) \<le> su_result_capacity su \<and>
         bm_expanded b + length open = length (bm_visited b) \<and>
         (\<forall>v\<in>V. v \<in> sr_id ` set open \<or> (\<forall>w\<in>set (nbrs v). unat w < n \<longrightarrow> w \<in> V)) \<and>
         (bm_visited b \<noteq> [] \<longrightarrow> su_adc_table su \<noteq> []))"

abbreviation beam_inv :: "search_setup \<Rightarrow> (u32 \<Rightarrow> u32 list) \<Rightarrow> u32 set \<Rightarrow> beam \<Rightarrow> bool" where
  "beam_inv su nbrs roots \<equiv> beam_mid su nbrs roots [] []"

lemma beam_mid_cong:
  assumes "bm_visited b' = bm_visited b" and "bm_candidates b' = bm_candidates b" and "bm_best b' = bm_best b"
    and "bm_expanded b' = bm_expanded b"
  shows "beam_mid su nbrs roots todo new b' = beam_mid su nbrs roots todo new b"
  using assms by (simp add: beam_mid_def)

lemma beam_count [simp]:
  "beam_mid su nbrs roots todo new (b\<lparr>bm_batch_count := k\<rparr>) = beam_mid su nbrs roots todo new b"
  "beam_mid su nbrs roots todo new (update_adaptive_stop su b) = beam_mid su nbrs roots todo new b"
  by (rule beam_mid_cong; simp)+

lemma select_beam:
  assumes "select_window su width b = (window, b')" and "beam_inv su nbrs roots b"
  shows "beam_mid su nbrs roots window [] b'"
proof -
  note p = pop_window_parts[OF assms(1)[unfolded select_window_def]]
  have f: "bm_visited b' = bm_visited b" "bm_best b' = bm_best b" "bm_expanded b' = bm_expanded b"
    by (subst p(2), simp)+
  have rev: "distinct (map sr_id (xs @ rev window)) = distinct (map sr_id (xs @ window))" for xs
    by (simp add: rev_map[symmetric])
  show ?thesis using assms(2) rev[of "bm_candidates b'"] unfolding beam_mid_def Let_def p(1) f
    by (simp add: ac_simps del: map_append distinct_append)
qed

lemma ids_append: "distinct (map f (xs @ ys)) \<longleftrightarrow> distinct (map f xs) \<and> distinct (map f ys) \<and> f ` set xs \<inter> f ` set ys = {}"
  by simp

lemma image_append: "f ` set (xs @ ys) = f ` set xs \<union> f ` set ys"
  by (simp add: image_Un)

lemma disjoint_subset: "A \<subseteq> B \<Longrightarrow> B \<inter> C = {} \<Longrightarrow> A \<inter> C = {}"
  by blast

lemma expand_beam:
  assumes "graph_expand su nbrs b c = Inr (rs, b')" and inv: "beam_mid su nbrs roots (c # todo) new b"
  shows "beam_mid su nbrs roots todo (new @ rs) b'"
proof -
  let ?n = "su_vector_count su" and ?V = "set (bm_visited b)"
  note g = graph_expand_parts[OF assms(1)]
  let ?X = "bm_candidates b @ todo @ new"
  have dV: "distinct (bm_visited b)" and reach: "\<forall>v\<in>?V. reachable ?n nbrs roots v"
    and roots: "\<forall>v\<in>roots. unat v < ?n \<longrightarrow> v \<in> ?V"
    and X: "distinct (map sr_id ?X)" "sr_id ` set ?X \<subseteq> ?V" and c: "sr_id c \<in> ?V"
    and kept: "distinct (map sr_id (bm_best b @ new))" "sr_id ` set (bm_best b @ new) \<subseteq> ?V"
      "?n \<le> su_result_capacity su \<longrightarrow> sr_id ` set (bm_best b @ new) = ?V"
    and cap: "length (bm_best b) \<le> su_result_capacity su"
    and count: "bm_expanded b + Suc (length ?X) = length (bm_visited b)"
    and waits: "\<forall>v\<in>?V. v \<in> insert (sr_id c) (sr_id ` set ?X) \<or> (\<forall>w\<in>set (nbrs v). unat w < ?n \<longrightarrow> w \<in> ?V)"
    and table: "bm_visited b \<noteq> [] \<longrightarrow> su_adc_table su \<noteq> []"
    using inv unfolding beam_mid_def Let_def by (simp_all add: image_Un ac_simps)
  have dV': "distinct (bm_visited b')" using g(4) dV .
  have disj: "sr_id ` set rs \<inter> ?V = {}" using g(1) by auto
  have V': "set (bm_visited b') = ?V \<union> sr_id ` set rs" using g(1,3) by auto
  have "card (set (bm_visited b')) = card ?V + card (sr_id ` set rs)"
    unfolding V' using disj by (intro card_Un_disjoint) auto
  moreover have "card (sr_id ` set rs) = length rs" using distinct_card[OF g(2)] by simp
  ultimately have len: "length (bm_visited b') = length (bm_visited b) + length rs"
    using distinct_card[OF dV'] distinct_card[OF dV] by simp
  have "reachable ?n nbrs roots w" if "w \<in> sr_id ` set rs" for w
    using that reach c unfolding g(1) by (auto intro: edge)
  then have 1: "\<forall>v\<in>set (bm_visited b'). reachable ?n nbrs roots v" using reach V' by blast
  have 2: "\<forall>v\<in>roots. unat v < ?n \<longrightarrow> v \<in> set (bm_visited b')" using roots V' by blast
  let ?K = "bm_best b @ new"
  have 3: "distinct (map sr_id (?X @ rs))" "sr_id ` set (?X @ rs) \<subseteq> set (bm_visited b')"
    using X disj g(2) unfolding ids_append[of sr_id ?X rs] image_append[of sr_id ?X rs] V' by blast+
  have 4: "distinct (map sr_id (?K @ rs))" "sr_id ` set (?K @ rs) \<subseteq> set (bm_visited b')"
    "?n \<le> su_result_capacity su \<longrightarrow> sr_id ` set (?K @ rs) = set (bm_visited b')"
    using kept disj g(2) unfolding ids_append[of sr_id ?K rs] image_append[of sr_id ?K rs] V' by blast+
  have closed: "\<forall>w\<in>set (nbrs (sr_id c)). unat w < ?n \<longrightarrow> w \<in> set (bm_visited b')" using g(3) by blast
  then have 5: "\<forall>v\<in>set (bm_visited b'). v \<in> sr_id ` set (?X @ rs) \<or>
      (\<forall>w\<in>set (nbrs v). unat w < ?n \<longrightarrow> w \<in> set (bm_visited b'))"
  proof (intro ballI)
    fix v assume "v \<in> set (bm_visited b')"
    then consider "v \<in> sr_id ` set rs" | "v \<in> ?V" using V' by blast
    then show "v \<in> sr_id ` set (?X @ rs) \<or> (\<forall>w\<in>set (nbrs v). unat w < ?n \<longrightarrow> w \<in> set (bm_visited b'))"
    proof cases
      case 1
      then show ?thesis unfolding image_append[of sr_id ?X rs] by blast
    next
      case 2
      then have "v = sr_id c \<or> v \<in> sr_id ` set ?X \<or> (\<forall>w\<in>set (nbrs v). unat w < ?n \<longrightarrow> w \<in> ?V)"
        using waits by blast
      then show ?thesis using closed unfolding image_append[of sr_id ?X rs] V' by (elim disjE) simp_all
    qed
  qed
  have 6: "su_adc_table su \<noteq> []" using table c by auto
  have 7: "bm_expanded b + 1 + length (?X @ rs) = length (bm_visited b')" using count len by simp
  show ?thesis
    unfolding beam_mid_def Let_def g(5-7) using dV' 1 2 3 4 5 6 7 cap by (simp only: append_assoc simp_thms)
qed

lemma expand_all_beam:
  assumes "graph_expand_all su nbrs b cs = Inr (rss, b')" and "beam_mid su nbrs roots cs new b"
  shows "beam_mid su nbrs roots [] (new @ concat rss) b'"
  using assms
proof (induction cs arbitrary: b rss new)
  case (Cons c cs)
  from Cons.prems(1) obtain rs b1 rest where 1: "graph_expand su nbrs b c = Inr (rs, b1)"
    and 2: "graph_expand_all su nbrs b1 cs = Inr (rest, b')" "rss = rs # rest"
    by (auto elim!: seq_pairE)
  from Cons.IH[OF 2(1) expand_beam[OF 1 Cons.prems(2)]] show ?case by (simp add: 2(2))
qed simp

lemma push_by_distinct [simp]: "distinct (map f (push_by lt x h)) = distinct (map f (x # h))"
proof -
  have "mset (map f (push_by lt x h)) = mset (map f (x # h))" by simp
  then show ?thesis by (rule mset_eq_imp_distinct_iff)
qed

lemma heap_step_keeps:
  assumes "distinct (map f (x # h))"
  shows "distinct (map f (heap_step lt k h x))" "length h \<le> k \<Longrightarrow> length (heap_step lt k h x) \<le> k"
    "length h < k \<Longrightarrow> set (heap_step lt k h x) = insert x (set h)"
proof -
  have "distinct (map f (x # butlast h))"
    using assms by (auto simp: map_butlast distinct_butlast dest: in_set_butlastD)
  then show "distinct (map f (heap_step lt k h x))" using assms by (auto simp: heap_step_def)
qed (auto simp: heap_step_def)

text \<open>As many identifiers below \<open>n\<close> as there are numbers.\<close>

lemma short_ids:
  fixes ids :: "u32 list"
  assumes "distinct ids" and "\<forall>i\<in>set ids. unat i < n"
  shows "length ids \<le> n"
proof -
  have "length ids = card (unat ` set ids)"
    using assms(1) by (simp add: distinct_card card_image word_unat_eq_iff inj_on_def)
  also have "\<dots> \<le> card {0..<n}" using assms(2) by (intro card_mono) auto
  finally show ?thesis by simp
qed

lemma push_beam:
  assumes inv: "beam_mid su nbrs roots [] (p # ps) b"
  shows "beam_mid su nbrs roots [] ps (push_candidate su b p)"
proof -
  let ?n = "su_vector_count su" and ?best = "heap_step search_result_less (su_result_capacity su) (bm_best b) p"
  have f: "bm_candidates (push_candidate su b p) = push_by closer_first p (bm_candidates b)"
    "bm_best (push_candidate su b p) = ?best" by (simp_all add: push_candidate_def add_best_def)
  have d: "distinct (map sr_id (bm_best b @ p # ps))" and sub: "sr_id ` set (bm_best b @ p # ps) \<subseteq> set (bm_visited b)"
    and V: "\<forall>v\<in>set (bm_visited b). unat v < ?n" and cap: "length (bm_best b) \<le> su_result_capacity su"
    and dc: "distinct (map sr_id (bm_candidates b @ p # ps))"
    using inv reachable_range by (auto simp: beam_mid_def Let_def)
  have dist: "distinct (map sr_id (p # bm_best b))" using d by auto
  note h = heap_step_keeps[OF dist, where lt = search_result_less and k = "su_result_capacity su"]
  have sub_best: "sr_id ` set ?best \<subseteq> insert (sr_id p) (sr_id ` set (bm_best b))"
    using set_heap_step[of search_result_less "su_result_capacity su" "bm_best b" p] by blast
  have apart: "insert (sr_id p) (sr_id ` set (bm_best b)) \<inter> sr_id ` set ps = {}" "distinct (map sr_id ps)"
    and in_V: "insert (sr_id p) (sr_id ` set (bm_best b)) \<subseteq> set (bm_visited b)" "sr_id ` set ps \<subseteq> set (bm_visited b)"
    using d sub by auto
  have "sr_id ` set ?best \<inter> sr_id ` set ps = {}" using sub_best apart(1) by (rule disjoint_subset)
  moreover have "sr_id ` set ?best \<subseteq> set (bm_visited b)" using sub_best in_V(1) by (rule subset_trans)
  ultimately have "distinct (map sr_id (?best @ ps)) \<and> sr_id ` set (?best @ ps) \<subseteq> set (bm_visited b)"
    unfolding ids_append[of sr_id ?best ps] image_append[of sr_id ?best ps] using h(1) apart(2) in_V(2)
    by (intro conjI Un_least)
  then have kept: "distinct (map sr_id (?best @ ps))" "sr_id ` set (?best @ ps) \<subseteq> set (bm_visited b)" by blast+
  have full: "sr_id ` set (?best @ ps) = set (bm_visited b)" if "?n \<le> su_result_capacity su"
  proof -
    have "length (map sr_id (bm_best b @ p # ps)) \<le> ?n" using d sub V by (intro short_ids) auto
    then have "set ?best = insert p (set (bm_best b))" using that h(3) by simp
    moreover have "sr_id ` set (bm_best b @ p # ps) = set (bm_visited b)"
      using inv that by (simp add: beam_mid_def Let_def)
    ultimately show ?thesis by auto
  qed
  let ?open = "bm_candidates b @ [] @ p # ps" and ?open' = "push_by closer_first p (bm_candidates b) @ [] @ ps"
  have opened: "distinct (map sr_id ?open')" using dc by auto
  have same: "set ?open' = set ?open" "length ?open' = length ?open" by auto
  have rest: "distinct (bm_visited b)" "\<forall>v\<in>set (bm_visited b). reachable ?n nbrs roots v"
    "\<forall>v\<in>roots. unat v < ?n \<longrightarrow> v \<in> set (bm_visited b)" "sr_id ` set ?open \<subseteq> set (bm_visited b)"
    "bm_expanded b + length ?open = length (bm_visited b)"
    "\<forall>v\<in>set (bm_visited b). v \<in> sr_id ` set ?open \<or> (\<forall>w\<in>set (nbrs v). unat w < ?n \<longrightarrow> w \<in> set (bm_visited b))"
    "bm_visited b \<noteq> [] \<longrightarrow> su_adc_table su \<noteq> []"
    using inv unfolding beam_mid_def Let_def by - (elim conjE, assumption)+
  have "?n \<le> su_result_capacity su \<longrightarrow> sr_id ` set (?best @ ps) = set (bm_visited b)" using full by (rule impI)
  then show ?thesis
    unfolding beam_mid_def Let_def f push_frame same using rest kept opened h(2)[OF cap] by (intro conjI)
qed

lemma push_all_beam:
  "beam_mid su nbrs roots [] (rs @ new) b \<Longrightarrow> beam_mid su nbrs roots [] new (foldl (push_candidate su) b rs)"
  by (induction rs arbitrary: b) (auto intro: push_beam)

lemma push_ranked_beam:
  "beam_mid su nbrs roots [] (concat rss) b \<Longrightarrow> beam_inv su nbrs roots (foldl (push_ranked su) b rss)"
  by (induction rss arbitrary: b) (simp_all add: push_ranked_def push_all_beam)

lemma batch_beam:
  assumes "select_window su width b = (batch, b1)" and "graph_batch su nbrs batch (b1\<lparr>bm_batch_count := k\<rparr>) = Inr b'"
    and "beam_inv su nbrs roots b"
  shows "beam_inv su nbrs roots b'"
proof -
  obtain rss b2 where e: "graph_expand_all su nbrs (b1\<lparr>bm_batch_count := k\<rparr>) batch = Inr (rss, b2)"
    "b' = foldl (push_ranked su) b2 rss"
    using assms(2) unfolding graph_batch_def by (auto elim!: seq_pairE)
  have "beam_mid su nbrs roots batch [] (b1\<lparr>bm_batch_count := k\<rparr>)" using select_beam[OF assms(1,3)] by simp
  from expand_all_beam[OF e(1) this] show ?thesis by (simp add: e(2) push_ranked_beam)
qed

section \<open>From the start to the end\<close>

lemma empty_beam_simps [simp]:
  "bm_candidates empty_beam = []" "bm_best empty_beam = []" "bm_expanded empty_beam = 0"
  by (simp_all add: empty_beam_def)

definition entry_nodes :: "nat \<Rightarrow> graph_search_config \<Rightarrow> u32 list" where
  "entry_nodes n config =
     (if gc_seed_ids config = [] then map word_of_nat (spaced n (min (gc_entry_count config) n)) else gc_seed_ids config)"

lemma start_beam:
  assumes "rank_neighbors_by_distance su (fst (accept_nodes (su_vector_count su) [] entries)) = Inr ranked"
  shows "beam_inv su nbrs (set entries)
    (foldl (push_candidate su) (empty_beam\<lparr>bm_visited := snd (accept_nodes (su_vector_count su) [] entries)\<rparr>) ranked)"
proof -
  let ?n = "su_vector_count su"
  let ?b = "empty_beam\<lparr>bm_visited := snd (accept_nodes ?n [] entries)\<rparr>"
  note a = accept_nodes_new[where n = ?n and visited = "[]" and ids = entries]
  note r = rank_ids[OF assms]
  have sets: "sr_id ` set ranked = set (snd (accept_nodes ?n [] entries))" using r(1) a(1,2) by simp
  have d: "distinct (map sr_id ranked)" using r(2) a(3) mset_eq_imp_distinct_iff by blast
  have dv: "distinct (snd (accept_nodes ?n [] entries))" using a(4) by simp
  have "length (map sr_id ranked) = length (snd (accept_nodes ?n [] entries))"
    using distinct_card[OF d] distinct_card[OF dv] sets by simp
  moreover have "su_adc_table su \<noteq> []" if ne: "snd (accept_nodes ?n [] entries) \<noteq> []"
  proof -
    have "set (fst (accept_nodes ?n [] entries)) = set (snd (accept_nodes ?n [] entries))" using a(1,2) by simp
    then have "fst (accept_nodes ?n [] entries) \<noteq> []" using ne by (metis set_empty)
    then obtain i ids where "fst (accept_nodes ?n [] entries) = i # ids" by (meson neq_Nil_conv)
    then show ?thesis using assms unfolding rank_neighbors_by_distance_def
      by (auto simp: candidate_distance_def split: option.splits elim!: seq_InrE)
  qed
  moreover have "\<forall>v\<in>set (snd (accept_nodes ?n [] entries)). reachable ?n nbrs (set entries) v"
    using a(2) by (auto intro: root)
  ultimately have "beam_mid su nbrs (set entries) [] (ranked @ []) ?b"
    using sets d dv a(2) unfolding beam_mid_def Let_def by auto
  then show ?thesis by (rule push_all_beam)
qed

text \<open>Every round expands a node, so the bound on the rounds is never what ends the loop.\<close>

lemma rounds_beam:
  assumes "graph_rounds su nbrs width n b = Inr b'" and "beam_inv su nbrs roots b" and "0 < width"
    and "gc_search_width (su_config su) \<le> bm_expanded b + n"
  shows "beam_inv su nbrs roots b' \<and> (\<not> search_continues su b' \<or> update_frontier su b')"
  using assms
proof (induction n arbitrary: b)
  case 0
  then show ?case by (auto simp: search_continues_def)
next
  case (Suc n)
  show ?case
  proof (cases "search_continues su b")
    case False
    then show ?thesis using Suc.prems by auto
  next
    case True
    obtain batch b1 where w: "select_window su width b = (batch, b1)" by fastforce
    show ?thesis
    proof (cases "batch = []")
      case empty: True
      obtain k where k: "min width (gc_search_width (su_config su) - bm_expanded b) = Suc k"
        using True Suc.prems(3) by (cases "min width (gc_search_width (su_config su) - bm_expanded b)") (auto simp: search_continues_def)
      have pw: "pop_window su (Suc k) b = ([], b1)" using w empty unfolding select_window_def k by simp
      have "bm_candidates b \<noteq> []" using True by (simp add: search_continues_def)
      then have "update_frontier su b \<and> b1 = b" using pw by (auto split: if_splits prod.splits)
      then show ?thesis using Suc.prems(1,2) True w empty by auto
    next
      case False
      obtain b2 where b2: "graph_batch su nbrs batch (b1\<lparr>bm_batch_count := bm_batch_count b1 + 1\<rparr>) = Inr b2"
        "graph_rounds su nbrs width n b2 = Inr b'"
        using Suc.prems(1) w True False by (auto elim!: seq_InrE)
      have inv: "beam_inv su nbrs roots b2" by (rule batch_beam[OF w b2(1) Suc.prems(2)])
      have rng: "in_range (su_vector_count su) (bm_candidates b @ bm_best b)"
        using Suc.prems(2) reachable_range by (fastforce simp: beam_mid_def Let_def in_range_def)
      have "bm_expanded b2 = bm_expanded b + length batch"
        using graph_batch_range(2)[OF b2(1)] select_range(2,3)[OF w rng] by simp
      moreover have "0 < length batch" using False by simp
      ultimately have "gc_search_width (su_config su) \<le> bm_expanded b2 + n" using Suc.prems(4) by linarith
      from Suc.IH[OF b2(2) inv Suc.prems(3) this] show ?thesis .
    qed
  qed
qed

lemma initialize_beam:
  assumes "initialize_search_state n query config = Inr (su, b)" and "n \<le> 2 ^ 32"
  shows "beam_inv su nbrs (set (entry_nodes n config)) b"
proof (rule initialize_cases[OF assms(1)])
  fix model entries ranked
  assume e: "(if gc_seed_ids config = [] then select_evenly_spaced_entries n (gc_entry_count config)
      else Inr (gc_seed_ids config)) = Inr entries"
    and su: "su = \<lparr>su_config = config, su_adc_table = build_adc_table model query,
        su_effective_k = min (gc_top_k config) n,
        su_result_capacity = min (max (min (gc_top_k config) n) (gc_rerank_topk config)) n, su_vector_count = n\<rparr>"
    and r: "rank_neighbors_by_distance su (fst (accept_nodes n [] entries)) = Inr ranked"
    and b: "b = foldl (push_candidate su) (empty_beam\<lparr>bm_visited := snd (accept_nodes n [] entries)\<rparr>) ranked"
  have n: "su_vector_count su = n" by (simp add: su)
  have "entries = entry_nodes n config"
    using e evenly_spaced_eq[OF assms(2)] by (auto simp: entry_nodes_def split: if_splits)
  then show ?thesis using start_beam[of su entries ranked nbrs, unfolded n, OF r] unfolding b by simp
qed

text \<open>What a finished search delivers, before the results are cut to the number asked for.\<close>

lemma found_results:
  assumes "graph_search n dim nbrs vec query config = Inr topk" and "n \<le> 2 ^ 32"
  obtains su b where "su_vector_count su = n" "su_config su = config" "topk = graph_topk su query dim vec b"
    "su_effective_k su = min (gc_top_k config) n"
    "su_result_capacity su = min (max (min (gc_top_k config) n) (gc_rerank_topk config)) n"
    "beam_inv su nbrs (set (entry_nodes n config)) b" "\<not> search_continues su b \<or> update_frontier su b"
proof -
  let ?width = "max 1 (min (if gc_beam_width config = 0 then gc_search_width config else gc_beam_width config)
                       (gc_search_width config))"
  have "\<not> (gc_top_k config = 0 \<or> gc_search_width config = 0 \<or> gc_entry_count config = 0)"
    using assms(1) by (auto simp: graph_search_def split: if_splits)
  then obtain su b0 b where i: "initialize_search_state n query config = Inr (su, b0)"
    and r: "graph_rounds su nbrs ?width (gc_search_width config) b0 = Inr b" and t: "topk = graph_topk su query dim vec b"
    using assms(1) by (auto simp: graph_search_def Let_def elim!: seq_pairE seq_InrE)
  note p = initialize_parts[OF i]
  have "gc_search_width (su_config su) \<le> bm_expanded b0 + gc_search_width config" by (simp add: p(2))
  from rounds_beam[OF r initialize_beam[OF i assms(2)] _ this]
  show thesis by (intro that[OF p(1,2) t p(4,5)]) simp_all
qed

end
