(* ===== verification/SearchProps.thy ===== *)
theory SearchProps
  imports SearchBeam
begin

text \<open>
  What the packed graph search guarantees: it computes the beam search on the graph of its file
  under any I/O failures, it returns when the file is complete, its results are well formed,
  its rounds are bounded, and a beam as wide as the graph finds the exact nearest neighbours.
\<close>

section \<open>The search returns\<close>

text \<open>A quantiser with codes for every node of the graph.\<close>

definition covers :: "pq_encoder \<Rightarrow> nat \<Rightarrow> bool" where
  "covers model n \<longleftrightarrow> pq_shape model \<and> pq_enabled model \<and> n \<le> pq_vector_count model"

definition setup_ok :: "search_setup \<Rightarrow> bool" where
  "setup_ok su \<longleftrightarrow> (\<exists>model query. gc_pq_model (su_config su) = Some model \<and> covers model (su_vector_count su) \<and>
     su_adc_table su = build_adc_table model query)"

lemma adc_table_length: "pq_enabled e \<Longrightarrow> length (build_adc_table e query) = pe_subspaces e * pe_centroids e"
  by (simp add: build_adc_table_def length_concat comp_def sum_list_triv)

lemma distance_total:
  assumes "setup_ok su" and "unat i < su_vector_count su"
  shows "\<exists>x. candidate_distance su i = Inr x"
proof -
  obtain model query where m: "gc_pq_model (su_config su) = Some model" "covers model (su_vector_count su)"
      "su_adc_table su = build_adc_table model query"
    using assms(1) by (auto simp: setup_ok_def)
  then have len: "length (su_adc_table su) = pe_subspaces model * pe_centroids model"
    by (simp add: covers_def adc_table_length)
  then have "su_adc_table su \<noteq> []" using m(2) by (auto simp: covers_def pq_shape_def)
  then show ?thesis using m(1,2) len assms(2) by (simp add: candidate_distance_def adc_distance_def covers_def Let_def)
qed

lemma rank_total:
  assumes "setup_ok su" and "\<forall>i\<in>set ids. unat i < su_vector_count su"
  shows "\<exists>rs. rank_neighbors_by_distance su ids = Inr rs"
proof -
  have "\<exists>rs. score_ids su ids = Inr rs"
    using assms(2)
  proof (induction ids)
    case (Cons i ids)
    then show ?case using distance_total[OF assms(1), of i] by auto
  qed simp
  then show ?thesis by (auto simp: rank_neighbors_by_distance_def)
qed

lemma expand_total: "setup_ok su \<Longrightarrow> \<exists>x. graph_expand su nbrs b c = Inr x"
proof -
  assume su: "setup_ok su"
  obtain new vis where acc: "accept_nodes (su_vector_count su) (bm_visited b) (nbrs (sr_id c)) = (new, vis)" by fastforce
  have "\<forall>i\<in>set new. unat i < su_vector_count su"
    using accept_nodes_new(1)[where n = "su_vector_count su" and visited = "bm_visited b" and ids = "nbrs (sr_id c)"] acc by simp
  from rank_total[OF su this] show ?thesis by (auto simp: graph_expand_def acc)
qed

lemma batch_total: "setup_ok su \<Longrightarrow> \<exists>x. graph_batch su nbrs batch b = Inr x"
proof -
  assume su: "setup_ok su"
  have "\<exists>x. graph_expand_all su nbrs b batch = Inr x"
  proof (induction batch arbitrary: b)
    case (Cons c cs)
    obtain rs b1 where 1: "graph_expand su nbrs b c = Inr (rs, b1)" using expand_total[OF su] by fastforce
    obtain rest b2 where "graph_expand_all su nbrs b1 cs = Inr (rest, b2)" using Cons by fastforce
    then show ?case using 1 by simp
  qed simp
  then show ?thesis by (auto simp: graph_batch_def)
qed

lemma rounds_total: "setup_ok su \<Longrightarrow> \<exists>x. graph_rounds su nbrs width n b = Inr x"
proof (induction n arbitrary: b)
  case (Suc n)
  obtain batch b1 where w: "select_window su width b = (batch, b1)" by fastforce
  obtain b2 where b2: "graph_batch su nbrs batch (b1\<lparr>bm_batch_count := bm_batch_count b1 + 1\<rparr>) = Inr b2"
    using batch_total[OF Suc.prems] by blast
  obtain x where "graph_rounds su nbrs width n b2 = Inr x" using Suc by blast
  then show ?case using w b2 by auto
qed simp

definition config_ok :: "graph_search_config \<Rightarrow> nat \<Rightarrow> bool" where
  "config_ok config n \<longleftrightarrow> 0 < gc_top_k config \<and> 0 < gc_search_width config \<and> 0 < gc_entry_count config \<and>
     gc_adc_enable config \<and> n \<le> 2 ^ 32 \<and> (\<exists>model. gc_pq_model config = Some model \<and> covers model n)"

text \<open>How a search that may start does start.\<close>

lemma initialize_ok:
  fixes query :: "f32 list"
  assumes "config_ok config n" and "gc_pq_model config = Some model"
  defines "entries \<equiv> if gc_seed_ids config = [] then map word_of_nat (spaced n (min (gc_entry_count config) n)) else gc_seed_ids config"
    and "su \<equiv> \<lparr>su_config = config, su_adc_table = build_adc_table model query,
        su_effective_k = min (gc_top_k config) n,
        su_result_capacity = min (max (min (gc_top_k config) n) (gc_rerank_topk config)) n, su_vector_count = n\<rparr>"
  shows "setup_ok su" "\<exists>ranked. rank_neighbors_by_distance su (fst (accept_nodes n [] entries)) = Inr ranked \<and>
    initialize_search_state n query config =
      Inr (su, foldl (push_candidate su) (empty_beam\<lparr>bm_visited := snd (accept_nodes n [] entries)\<rparr>) ranked)"
proof -
  have c: "gc_adc_enable config" "pq_enabled model" "n \<le> 2 ^ 32" "covers model n"
    using assms(1,2) by (auto simp: config_ok_def covers_def)
  show su: "setup_ok su" using assms(2) c(4) by (auto simp: setup_ok_def su_def)
  have "\<forall>i\<in>set (fst (accept_nodes n [] entries)). unat i < su_vector_count su"
    using accept_nodes_new(1)[where n = n and visited = "[]" and ids = entries] by (simp add: su_def)
  from rank_total[OF su this] obtain ranked where r: "rank_neighbors_by_distance su (fst (accept_nodes n [] entries)) = Inr ranked"
    by blast
  have e: "(if gc_seed_ids config = [] then select_evenly_spaced_entries n (gc_entry_count config) else Inr (gc_seed_ids config)) = Inr entries"
    using evenly_spaced_eq[OF c(3)] by (simp add: entries_def)
  have "initialize_search_state n query config =
      Inr (su, foldl (push_candidate su) (empty_beam\<lparr>bm_visited := snd (accept_nodes n [] entries)\<rparr>) ranked)"
    unfolding initialize_search_state_def assms(2) option.case e
    using c(1,2) r by (simp add: Let_def case_prod_unfold su_def)
  then show "\<exists>ranked. rank_neighbors_by_distance su (fst (accept_nodes n [] entries)) = Inr ranked \<and>
    initialize_search_state n query config =
      Inr (su, foldl (push_candidate su) (empty_beam\<lparr>bm_visited := snd (accept_nodes n [] entries)\<rparr>) ranked)"
    using r by blast
qed

lemma graph_search_total:
  assumes "config_ok config n"
  shows "\<exists>topk. graph_search n dim nbrs vec query config = Inr topk"
proof -
  obtain model where m: "gc_pq_model config = Some model" using assms by (auto simp: config_ok_def)
  note i = initialize_ok[OF assms m, of query]
  let ?su = "\<lparr>su_config = config, su_adc_table = build_adc_table model query,
        su_effective_k = min (gc_top_k config) n,
        su_result_capacity = min (max (min (gc_top_k config) n) (gc_rerank_topk config)) n, su_vector_count = n\<rparr>"
  obtain b where b: "initialize_search_state n query config = Inr (?su, b)" using i(2) by blast
  let ?width = "max 1 (min (if gc_beam_width config = 0 then gc_search_width config else gc_beam_width config)
                       (gc_search_width config))"
  obtain b' where "graph_rounds ?su nbrs ?width (gc_search_width config) b = Inr b'" using rounds_total[OF i(1)] by blast
  then show ?thesis using assms b by (simp add: graph_search_def config_ok_def Let_def)
qed

lemma same_file_search:
  assumes "same_file i i'" and "files d' = files d"
  shows "file_page i' d' k = file_page i d k" "file_node i' d' n = file_node i d n"
    "directory_ok i' d' = directory_ok i d"
proof -
  have p: "file_page i' d' k = file_page i d k" for k
    using assms file_page_same[of i' i d' k] file_page_files[of d' d i k] by (simp add: same_file_def)
  then show "file_page i' d' k = file_page i d k" .
  show "file_node i' d' n = file_node i d n" using assms(1) p by (simp add: file_node_def same_file_def)
  show "directory_ok i' d' = directory_ok i d" using assms(1) p by (simp add: directory_ok_def same_file_def)
qed

text \<open>
  C6: the packed search is the beam search on the graph of its file. Whatever the cache holds,
  whatever its policy and capacity are, with direct or buffered I/O, and whichever I/O calls
  fail: when \<open>search_one\<close> returns results, they are those of the search on the plain graph that
  the file holds, and the index is ready for the next query; when it throws, the index still
  caches only pages of the file and no page stays pinned. The file is not changed.
\<close>

theorem search_one_refines:
  assumes "index_ready i d" and "packed_search_one lg query config i d = (r, i', d')"
  shows "files d' = files d \<and> cache_inv d' i' \<and> pins_ok [] i' \<and>
    (\<forall>topk stats. r = Inr (topk, stats) \<longrightarrow> file_search i d query config = Inr topk \<and> index_ready i' d')"
proof -
  note run = search_run[OF assms, of False, simplified]
  then have "directory_ok i' d'" using same_file_search(3)[of i i' d' d] assms(1) by (simp add: index_ready_def)
  then show ?thesis using run by (auto simp: index_ready_def)
qed

lemma search_returns:
  assumes "index_ready i d" and "outcomes d = []" and "complete i d"
    and "config_ok config (gm_vector_count (pi_metadata i))" and "model_loads config d"
  shows "\<exists>topk stats i' d'. packed_search_one lg query config i d = (Inr (topk, stats), i', d') \<and>
    file_search i d query config = Inr topk"
proof -
  obtain r i' d' where run: "packed_search_one lg query config i d = (r, i', d')"
    by (cases "packed_search_one lg query config i d")
  obtain topk where "file_search i d query config = Inr topk" using graph_search_total[OF assms(4)] by blast
  then have "case r of Inr (topk, stats) \<Rightarrow> file_search i d query config = Inr topk | Inl e \<Rightarrow> False"
    using search_run[OF assms(1) run, of True] assms(2,3,5) by (auto split: sum.splits)
  then show ?thesis using run by (auto split: sum.splits)
qed

text \<open>Without its prefetch model the search ends before it begins.\<close>

lemma search_without_model:
  assumes "outcomes d = []" and "config_ok config n" and "\<not> model_loads config d"
  shows "\<exists>e. packed_search_one lg query config i d = (Inl e, i, d)"
proof -
  obtain planner d' where p: "PrefetchPlanner (session_prefetch_config config) d = (planner, d')" by fastforce
  from planner_opens(2)[OF this assms(1)] obtain e where "planner = Inl e" "d' = d" using assms(3) by (cases planner) auto
  then have "QueryPageSession i config no_stats d = (Inl e, d)" using p by (simp add: QueryPageSession_def)
  then show ?thesis using assms(2) by (simp add: packed_search_one_def config_ok_def)
qed

text \<open>
  C8: when a search returns. On a disk whose calls succeed, with an open file that holds every
  node (\<open>complete\<close>), a trained quantiser that has codes for all of them and positive parameters,
  the prefetch model decides. When the configuration asks for none, or names a file that holds
  one that can be parsed (\<open>model_loads\<close>), \<open>search_one\<close> throws nothing and returns the results of
  the search on the graph. Otherwise it throws, and leaves the index and the disk as they were.
\<close>

theorem search_one_returns:
  assumes "index_ready i d" and "outcomes d = []" and "complete i d"
    and "config_ok config (gm_vector_count (pi_metadata i))"
  shows "if model_loads config d
    then \<exists>topk stats i' d'. packed_search_one lg query config i d = (Inr (topk, stats), i', d') \<and>
      file_search i d query config = Inr topk
    else \<exists>e. packed_search_one lg query config i d = (Inl e, i, d)"
  using search_returns[OF assms, of lg query] search_without_model[OF assms(2,4), of lg query i] by simp

section \<open>What the results are\<close>

definition exact_result :: "f32 list \<Rightarrow> (u32 \<Rightarrow> f32 list) \<Rightarrow> nat \<Rightarrow> u32 \<Rightarrow> search_result" where
  "exact_result query vec dim v = \<lparr>sr_id = v, sr_distance = squared_l2 query (vec v) dim\<rparr>"

lemma exact_result_simps [simp]:
  "sr_id (exact_result query vec dim v) = v"
  "sr_distance (exact_result query vec dim v) = squared_l2 query (vec v) dim"
  by (simp_all add: exact_result_def)

lemma exact_valid:
  "finite_vector dim query \<Longrightarrow> finite_vector dim (vec v) \<Longrightarrow> sr_valid (exact_result query vec dim v)"
  by (simp add: sr_valid_def squared_l2_valid)

text \<open>With reranking the results are the exact ones of the kept nodes, sorted and cut.\<close>

lemma reranked_topk:
  assumes "beam_inv su nbrs roots b" and "0 < gc_rerank_topk (su_config su)"
  shows "graph_topk su query dim vec b = take (su_effective_k su)
    (std_sort search_result_less (map (exact_result query vec dim) (map sr_id (sorted_results (bm_best b)))))"
proof -
  have eq: "r\<lparr>sr_distance := squared_l2 query (vec (sr_id r)) dim\<rparr> = exact_result query vec dim (sr_id r)" for r :: search_result
    by (simp add: exact_result_def)
  have "bm_best b = []" if "su_adc_table su = []" using assms(1) that by (auto simp: beam_mid_def Let_def)
  then show ?thesis using assms(2) by (auto simp: graph_topk_def Let_def eq comp_def sorted_results_def)
qed

lemma found_ids:
  assumes "beam_inv su nbrs roots b"
  shows "distinct (map sr_id (sorted_results (bm_best b)))" "set (map sr_id (sorted_results (bm_best b))) = sr_id ` set (bm_best b)"
    "\<forall>v\<in>sr_id ` set (bm_best b). reachable (su_vector_count su) nbrs roots v"
proof -
  have "distinct (map sr_id (bm_best b))" and sub: "sr_id ` set (bm_best b) \<subseteq> set (bm_visited b)"
    and reach: "\<forall>v\<in>set (bm_visited b). reachable (su_vector_count su) nbrs roots v"
    using assms by (auto simp: beam_mid_def Let_def)
  then show "distinct (map sr_id (sorted_results (bm_best b)))" by (simp add: sorted_results_def rev_map[symmetric])
  show "set (map sr_id (sorted_results (bm_best b))) = sr_id ` set (bm_best b)" by (simp add: sorted_results_def)
  show "\<forall>v\<in>sr_id ` set (bm_best b). reachable (su_vector_count su) nbrs roots v" using sub reach by blast
qed

lemma topk_ids:
  assumes "beam_inv su nbrs roots b"
  shows "distinct (map sr_id (graph_topk su query dim vec b))" "length (graph_topk su query dim vec b) \<le> su_effective_k su"
    "sr_id ` set (graph_topk su query dim vec b) \<subseteq> sr_id ` set (bm_best b)"
proof -
  let ?found = "sorted_results (bm_best b)"
  let ?all = "if su_adc_table su \<noteq> [] \<and> 0 < gc_rerank_topk (su_config su)
         then std_sort search_result_less (map (\<lambda>r. r\<lparr>sr_distance := squared_l2 query (vec (sr_id r)) dim\<rparr>) ?found)
         else ?found"
  have t: "graph_topk su query dim vec b = take (su_effective_k su) ?all" by (simp add: graph_topk_def Let_def)
  have m: "mset (map sr_id ?all) = mset (map sr_id ?found)" by (simp add: image_mset.compositionality comp_def)
  have "distinct (map sr_id ?all)" "set (map sr_id ?all) = sr_id ` set (bm_best b)"
    using found_ids(1,2)[OF assms] unfolding mset_eq_imp_distinct_iff[OF m] mset_eq_setD[OF m] by simp_all
  note all = this
  show "distinct (map sr_id (graph_topk su query dim vec b))" "length (graph_topk su query dim vec b) \<le> su_effective_k su"
    unfolding t take_map[symmetric] using all(1) by (simp_all only: distinct_take length_take min.cobounded2)
  have "sr_id ` set (take (su_effective_k su) ?all) \<subseteq> sr_id ` set ?all" by (intro image_mono set_take_subset)
  then show "sr_id ` set (graph_topk su query dim vec b) \<subseteq> sr_id ` set (bm_best b)"
    unfolding t using all(2) by (simp only: set_map)
qed

text \<open>Results of a search on a graph.\<close>

lemma graph_results:
  assumes run: "graph_search n dim nbrs vec query config = Inr topk" and n: "n \<le> 2 ^ 32"
  shows "distinct (map sr_id topk)" "length topk \<le> min (gc_top_k config) n"
    "r \<in> set topk \<Longrightarrow> reachable n nbrs (set (entry_nodes n config)) (sr_id r)"
    "0 < gc_rerank_topk config \<Longrightarrow> r \<in> set topk \<Longrightarrow> r = exact_result query vec dim (sr_id r)"
    "0 < gc_rerank_topk config \<Longrightarrow> finite_vector dim query \<Longrightarrow>
      \<forall>v. reachable n nbrs (set (entry_nodes n config)) v \<longrightarrow> finite_vector dim (vec v) \<Longrightarrow> sorted (map sr_key topk)"
proof (rule_tac [!] found_results[OF run n])
  fix su b
  assume s: "su_vector_count su = n" "su_config su = config" and t: "topk = graph_topk su query dim vec b"
    and k: "su_effective_k su = min (gc_top_k config) n" and inv: "beam_inv su nbrs (set (entry_nodes n config)) b"
  note ids = topk_ids[OF inv, of query dim vec, folded t]
  note f = found_ids[OF inv, unfolded s]
  show "distinct (map sr_id topk)" "length topk \<le> min (gc_top_k config) n" using ids k by simp_all
  show "reachable n nbrs (set (entry_nodes n config)) (sr_id r)" if "r \<in> set topk" using that ids(3) f(3) by blast
  let ?L = "map (exact_result query vec dim) (map sr_id (sorted_results (bm_best b)))"
  have exact: "topk = take (min (gc_top_k config) n) (std_sort search_result_less ?L)" if "0 < gc_rerank_topk config"
    using reranked_topk[OF inv, of query dim vec] that unfolding t s k by simp
  show "r = exact_result query vec dim (sr_id r)" if "0 < gc_rerank_topk config" "r \<in> set topk"
  proof -
    have "r \<in> set ?L" using in_set_takeD[of r "min (gc_top_k config) n" "std_sort search_result_less ?L"] exact[OF that(1)] that(2) by simp
    then show ?thesis by auto
  qed
  show "sorted (map sr_key topk)" if pos: "0 < gc_rerank_topk config" and fin: "finite_vector dim query"
    "\<forall>v. reachable n nbrs (set (entry_nodes n config)) v \<longrightarrow> finite_vector dim (vec v)"
  proof -
    have "sr_valid (exact_result query vec dim v)" if v: "v \<in> sr_id ` set (bm_best b)" for v
      using v f(3) fin by (intro exact_valid) blast+
    then have "\<forall>r\<in>set ?L. sr_valid r" using f(2) unfolding set_map[of "exact_result query vec dim"] by blast
    from sro.sorted_std_sort[OF this] show ?thesis unfolding exact[OF pos] by (simp add: take_map[symmetric] sorted_wrt_take)
  qed
qed

text \<open>Without reranking they carry the approximate distances the quantiser gave them.\<close>

abbreviation scored :: "search_setup \<Rightarrow> search_result \<Rightarrow> bool" where
  "scored su r \<equiv> candidate_distance su (sr_id r) = Inr (sr_distance r)"

lemma score_ids_scored: "score_ids su ids = Inr rs \<Longrightarrow> \<forall>r\<in>set rs. scored su r"
proof (induction ids arbitrary: rs)
  case (Cons i ids)
  then show ?case by (cases "candidate_distance su i"; cases "score_ids su ids") auto
qed simp

lemma rank_scored: "rank_neighbors_by_distance su ids = Inr rs \<Longrightarrow> \<forall>r\<in>set rs. scored su r"
  using score_ids_scored by (auto simp: rank_neighbors_by_distance_def elim!: seq_InrE)

lemma expand_all_scored:
  "graph_expand_all su nbrs b cs = Inr (rss, b') \<Longrightarrow> \<forall>r\<in>set (concat rss). scored su r"
proof (induction cs arbitrary: b rss)
  case (Cons c cs)
  from Cons.prems obtain rs b1 rest where 1: "graph_expand su nbrs b c = Inr (rs, b1)"
    and 2: "graph_expand_all su nbrs b1 cs = Inr (rest, b')" "rss = rs # rest"
    by (auto elim!: seq_pairE)
  have "\<forall>r\<in>set rs. scored su r" using graph_expand_parts(8)[OF 1] score_ids_scored by auto
  then show ?case using Cons.IH[OF 2(1)] by (auto simp: 2(2))
qed simp

lemma push_ranked_best: "set (bm_best (foldl (push_ranked su) b rss)) \<subseteq> set (bm_best b) \<union> set (concat rss)"
proof (induction rss arbitrary: b)
  case (Cons rs rss)
  have "set (bm_best (push_ranked su b rs)) \<subseteq> set (bm_best b) \<union> set rs"
    using push_all_sets(2)[of su b rs] by (simp add: push_ranked_def)
  then show ?case using Cons[of "push_ranked su b rs"] by auto
qed simp

lemma rounds_scored:
  "graph_rounds su nbrs width n b = Inr b' \<Longrightarrow> \<forall>r\<in>set (bm_best b). scored su r \<Longrightarrow> \<forall>r\<in>set (bm_best b'). scored su r"
proof (induction n arbitrary: b)
  case (Suc n)
  obtain batch b1 where w: "select_window su width b = (batch, b1)" by fastforce
  have best: "bm_best b1 = bm_best b"
    using pop_window_parts(2)[OF w[unfolded select_window_def]] by (metis beam.select_convs(3) beam.surjective beam.update_convs(2))
  show ?case
  proof (cases "search_continues su b \<and> batch \<noteq> []")
    case False
    then show ?thesis using Suc.prems w best by (auto split: if_splits)
  next
    case True
    then obtain b2 where b2: "graph_batch su nbrs batch (b1\<lparr>bm_batch_count := bm_batch_count b1 + 1\<rparr>) = Inr b2"
      "graph_rounds su nbrs width n b2 = Inr b'"
      using Suc.prems(1) w by (auto elim!: seq_InrE)
    obtain rss b3 where e: "graph_expand_all su nbrs (b1\<lparr>bm_batch_count := bm_batch_count b1 + 1\<rparr>) batch = Inr (rss, b3)"
      "b2 = foldl (push_ranked su) b3 rss"
      using b2(1) unfolding graph_batch_def by (auto elim!: seq_pairE)
    have "bm_best b3 = bm_best b" using graph_expand_all_parts(3)[OF e(1)] best by simp
    then have "\<forall>r\<in>set (bm_best b2). scored su r"
      using push_ranked_best[of su b3 rss] expand_all_scored[OF e(1)] Suc.prems(2) by (auto simp: e(2))
    from Suc.IH[OF b2(2) this] show ?thesis .
  qed
qed simp

lemma graph_search_scored:
  assumes "graph_search n dim nbrs vec query config = Inr topk" and "gc_rerank_topk config = 0"
  shows "\<exists>model. gc_pq_model config = Some model \<and>
    (\<forall>r\<in>set topk. adc_distance model (sr_id r) (build_adc_table model query) = Inr (sr_distance r))"
proof -
  let ?width = "max 1 (min (if gc_beam_width config = 0 then gc_search_width config else gc_beam_width config)
                       (gc_search_width config))"
  obtain su b0 b where i: "initialize_search_state n query config = Inr (su, b0)"
    and r: "graph_rounds su nbrs ?width (gc_search_width config) b0 = Inr b" and t: "topk = graph_topk su query dim vec b"
    using assms(1) by (auto simp: graph_search_def Let_def split: if_splits elim!: seq_pairE seq_InrE)
  obtain model entries ranked where m: "gc_pq_model config = Some model"
    and su: "su = \<lparr>su_config = config, su_adc_table = build_adc_table model query,
        su_effective_k = min (gc_top_k config) n,
        su_result_capacity = min (max (min (gc_top_k config) n) (gc_rerank_topk config)) n, su_vector_count = n\<rparr>"
    and rk: "rank_neighbors_by_distance su (fst (accept_nodes n [] entries)) = Inr ranked"
    and b0: "b0 = foldl (push_candidate su) (empty_beam\<lparr>bm_visited := snd (accept_nodes n [] entries)\<rparr>) ranked"
    by (rule initialize_cases[OF i])
  have "\<forall>r\<in>set (bm_best b0). scored su r"
    using push_all_sets(2)[of su "empty_beam\<lparr>bm_visited := snd (accept_nodes n [] entries)\<rparr>" ranked] rank_scored[OF rk]
    by (auto simp: b0)
  then have best: "\<forall>r\<in>set (bm_best b). scored su r" by (rule rounds_scored[OF r])
  have "set topk \<subseteq> set (bm_best b)"
    using set_take_subset[of "su_effective_k su" "sorted_results (bm_best b)"] assms(2)
    by (auto simp: t graph_topk_def sorted_results_def Let_def su)
  then have "scored su r" if "r \<in> set topk" for r using best that by blast
  then have "adc_distance model (sr_id r) (build_adc_table model query) = Inr (sr_distance r)" if "r \<in> set topk" for r
    using that m by (fastforce simp: candidate_distance_def su split: if_splits)
  then show ?thesis using m by blast
qed

text \<open>
  C9: results are well formed. What \<open>search_one\<close> returns names different nodes that can be
  reached from the entry points, at most \<open>top_k\<close> of them and at most as many as there are; with
  reranking every distance is the exact one of the node's vector on disk, and for finite
  vectors the results are sorted by distance, then identifier.
\<close>

theorem search_one_results:
  assumes "index_ready i d" and "packed_search_one lg query config i d = (Inr (topk, stats), i', d')"
    and "n = gm_vector_count (pi_metadata i)" and "n \<le> 2 ^ 32"
  shows "distinct (map sr_id topk) \<and> length topk \<le> min (gc_top_k config) n \<and>
    (\<forall>r\<in>set topk. reachable n (file_neighbors i d) (set (entry_nodes n config)) (sr_id r)) \<and>
    (0 < gc_rerank_topk config \<longrightarrow>
       (\<forall>r\<in>set topk. sr_distance r = squared_l2 query (file_vector i d (sr_id r)) (gm_dim (pi_metadata i))) \<and>
       (finite_vector (gm_dim (pi_metadata i)) query \<and>
        (\<forall>v. reachable n (file_neighbors i d) (set (entry_nodes n config)) v \<longrightarrow>
           finite_vector (gm_dim (pi_metadata i)) (file_vector i d v)) \<longrightarrow> sorted (map sr_key topk)))"
proof -
  have "file_search i d query config = Inr topk" using search_run[OF assms(1,2), of False] by simp
  note r = graph_results[OF this[folded assms(3)] assms(4)]
  have "sr_distance x = squared_l2 query (file_vector i d (sr_id x)) (gm_dim (pi_metadata i))"
    if "0 < gc_rerank_topk config" "x \<in> set topk" for x
    using arg_cong[OF r(4)[OF that], of sr_distance] by simp
  then show ?thesis using r(1,2,3,5) by blast
qed

section \<open>A beam as wide as the graph\<close>

lemma exhaustive_beam:
  assumes inv: "beam_inv su nbrs roots b" and stop: "\<not> search_continues su b \<or> update_frontier su b"
    and off: "\<not> gc_early_stop (su_config su)" "\<not> gc_adaptive_early_stop (su_config su)"
    and wide: "su_vector_count su \<le> gc_search_width (su_config su)" "su_vector_count su \<le> su_result_capacity su"
  shows "sr_id ` set (bm_best b) = {v. reachable (su_vector_count su) nbrs roots v}"
proof -
  let ?n = "su_vector_count su" and ?V = "set (bm_visited b)"
  have d: "distinct (bm_visited b)" and reach: "\<forall>v\<in>?V. reachable ?n nbrs roots v"
    and roots: "\<forall>v\<in>roots. unat v < ?n \<longrightarrow> v \<in> ?V" and best: "sr_id ` set (bm_best b) = ?V"
    and count: "bm_expanded b + length (bm_candidates b) = length (bm_visited b)"
    and waits: "\<forall>v\<in>?V. v \<in> sr_id ` set (bm_candidates b) \<or> (\<forall>w\<in>set (nbrs v). unat w < ?n \<longrightarrow> w \<in> ?V)"
    using inv wide(2) unfolding beam_mid_def Let_def by simp_all
  have "length (bm_visited b) \<le> ?n" using d reach reachable_range by (intro short_ids) blast+
  then have "bm_candidates b = []"
    using stop off wide(1) count
    by (cases "bm_candidates b") (auto simp: search_continues_def update_frontier_def should_stop_def)
  then have closed: "\<forall>v\<in>?V. \<forall>w\<in>set (nbrs v). unat w < ?n \<longrightarrow> w \<in> ?V" using waits by simp
  have "v \<in> ?V" if "reachable ?n nbrs roots v" for v by (rule reachable_closed[OF that roots closed])
  then show ?thesis using reach unfolding best by blast
qed

text \<open>
  C7: a beam as wide as the graph is exact. Without early stops, with a search width and a
  reranking depth of at least the number of nodes, and finite vectors, \<open>search_one\<close> returns
  exactly the first \<open>top_k\<close> of all nodes that can be reached from the entry points, by their
  exact distance to the query, then identifier: the product quantiser, the heaps and the batch
  order have no influence.
\<close>

theorem exhaustive_search_exact:
  assumes "index_ready i d" and "packed_search_one lg query config i d = (Inr (topk, stats), i', d')"
    and "n = gm_vector_count (pi_metadata i)" and "n \<le> 2 ^ 32" and "dim = gm_dim (pi_metadata i)"
    and "\<not> gc_early_stop config" and "\<not> gc_adaptive_early_stop config"
    and "n \<le> gc_search_width config" and "n \<le> gc_rerank_topk config" and "0 < gc_rerank_topk config"
    and "finite_vector dim query"
    and "\<forall>v. reachable n (file_neighbors i d) (set (entry_nodes n config)) v \<longrightarrow> finite_vector dim (file_vector i d v)"
  shows "\<exists>nodes. distinct nodes \<and> set nodes = {v. reachable n (file_neighbors i d) (set (entry_nodes n config)) v} \<and>
    topk = take (gc_top_k config) (sort_key sr_key (map (exact_result query (file_vector i d) dim) nodes))"
proof -
  have run: "graph_search n dim (file_neighbors i d) (file_vector i d) query config = Inr topk"
    using search_run[OF assms(1,2), of False] assms(3,5) by simp
  show ?thesis
  proof (rule found_results[OF run assms(4)])
    fix su b
    assume s: "su_vector_count su = n" "su_config su = config" and t: "topk = graph_topk su query dim (file_vector i d) b"
      and k: "su_effective_k su = min (gc_top_k config) n"
      and c: "su_result_capacity su = min (max (min (gc_top_k config) n) (gc_rerank_topk config)) n"
      and inv: "beam_inv su (file_neighbors i d) (set (entry_nodes n config)) b"
      and stop: "\<not> search_continues su b \<or> update_frontier su b"
    let ?nodes = "map sr_id (sorted_results (bm_best b))"
    let ?L = "map (exact_result query (file_vector i d) dim) ?nodes"
    have ids: "sr_id ` set (bm_best b) = {v. reachable n (file_neighbors i d) (set (entry_nodes n config)) v}"
      using exhaustive_beam[OF inv stop] assms(6-9) s c by simp
    note f = found_ids[OF inv, unfolded s]
    have "sr_valid (exact_result query (file_vector i d) dim v)" if "v \<in> set ?nodes" for v
      using that f(2) ids assms(11,12) by (intro exact_valid) auto
    then have "\<forall>r\<in>set ?L. sr_valid r" unfolding set_map[of "exact_result query (file_vector i d) dim"] by blast
    then have sort: "std_sort search_result_less ?L = sort_key sr_key ?L" by (rule sro.std_sort_eq)
    have "length ?nodes \<le> n" using f reachable_range by (intro short_ids) (simp, blast)
    then have "take (min (gc_top_k config) n) (sort_key sr_key ?L) = take (gc_top_k config) (sort_key sr_key ?L)"
      by (simp add: min_def)
    then have "topk = take (gc_top_k config) (sort_key sr_key ?L)"
      using reranked_topk[OF inv, of query dim "file_vector i d"] assms(10) s k t sort by simp
    then show ?thesis using f(1,2) ids by (intro exI[of _ ?nodes]) simp
  qed
qed

section \<open>The rounds\<close>

lemma then_do_cong: "(\<And>x t. f s = (Inr x, t) \<Longrightarrow> g x t = h x t) \<Longrightarrow> then_do f g s = then_do f h s"
  by (auto simp: then_do_def split: prod.splits sum.splits)

lemma then_do_InrE:
  assumes "then_do f g s = (Inr y, t)"
  obtains x s1 where "f s = (Inr x, s1)" "g x s1 = (Inr y, t)"
  using assms by (auto simp: then_do_def split: prod.splits sum.splits)

lemma expand_nodes_count:
  "expand_nodes lg su b cs s = (Inr (rss, b'), t) \<Longrightarrow> bm_expanded b' = bm_expanded b + length cs"
proof (induction cs arbitrary: b s rss b' t)
  case (Cons c cs)
  from Cons.prems obtain rs b1 s1 rest where 1: "expand_node lg su b c s = (Inr (rs, b1), s1)"
    and 2: "expand_nodes lg su b1 cs s1 = (Inr (rest, b'), t)"
    by (auto simp: ret_def elim!: then_do_InrE)
  have "bm_expanded b1 = bm_expanded b + 1"
    using 1 by (auto simp: expand_node_def ret_def Let_def case_prod_unfold elim!: then_do_InrE)
  then show ?case using Cons.IH[OF 2] by simp
qed (simp add: ret_def)

lemma expand_batch_count:
  "expand_candidate_batch lg su batch b s = (Inr b', t) \<Longrightarrow> bm_expanded b' = bm_expanded b + length batch"
  by (auto simp: expand_candidate_batch_def ret_def elim!: then_do_InrE) (erule expand_nodes_count)

lemma select_batch_count:
  assumes "select_candidate_batch su width b s = (Inr (batch, b'), t)"
  shows "bm_expanded b' = bm_expanded b"
proof -
  obtain w b1 where w: "select_window su width b = (w, b1)" by fastforce
  then have "b' = b1" using assms by (auto simp: select_candidate_batch_def ret_def elim!: then_do_InrE)
  then show ?thesis using pop_window_parts(2)[OF w[unfolded select_window_def]] by (metis beam.select_convs(6) beam.surjective beam.update_convs(2))
qed

lemma rounds_enough:
  "gc_search_width (su_config su) \<le> bm_expanded b + n \<Longrightarrow>
    search_rounds lg su width (n + m) b s = search_rounds lg su width n b s"
proof (induction n arbitrary: b s)
  case 0
  then show ?case by (cases m) (simp_all add: search_continues_def)
next
  case (Suc n)
  have "search_rounds lg su width (n + m) b2 t = search_rounds lg su width n b2 t"
    if "select_candidate_batch su width b s = (Inr (batch, b1), s1)" "batch \<noteq> []"
      "expand_candidate_batch lg su batch (b1\<lparr>bm_batch_count := bm_batch_count b1 + 1\<rparr>) s2 = (Inr b2, t)"
    for batch b1 s1 s2 b2 t
  proof (rule Suc.IH)
    have "bm_expanded b2 = bm_expanded b + length batch"
      using expand_batch_count[OF that(3)] select_batch_count[OF that(1)] by simp
    then show "gc_search_width (su_config su) \<le> bm_expanded b2 + n" using that(2) Suc.prems by (cases batch) simp_all
  qed
  then show ?case by (auto intro!: then_do_cong)
qed

text \<open>
  C10: the loop of \<open>search_one\<close> is bounded. Every round that does not end the search expands at
  least one node, so \<open>search_width\<close> rounds are enough: with any number of further rounds the
  search does the same, in results, state and exceptions.
\<close>

theorem search_rounds_enough:
  "search_rounds lg su width (gc_search_width (su_config su) + m) b s =
   search_rounds lg su width (gc_search_width (su_config su)) b s"
  by (rule rounds_enough) simp

section \<open>A search on a small file\<close>

definition demo_search_config :: graph_search_config where
  "demo_search_config = \<lparr>gc_top_k = 1, gc_search_width = 2, gc_beam_width = 0, gc_entry_count = 1, gc_seed_ids = [0],
     gc_early_stop = False, gc_early_stop_min_expansions = 0, gc_adaptive_early_stop = False, gc_early_stop_patience = 0,
     gc_early_stop_eps = 0, gc_min_expansions = 0, gc_pq_model = Some demo_pq, gc_adc_enable = True, gc_rerank_topk = 1,
     gc_prefetch_width = 0, gc_prefetch_depth = 0, gc_prefetch_min_candidates_per_page = 2, gc_prefetch_policy = ''none'',
     gc_prefetch_model_path = [], gc_prefetch_top_k = 0, gc_prefetch_score_threshold = 0xFFF0000000000000,
     gc_prefetch_max_inflight = 0, gc_same_page_reuse = False\<rparr>"

definition demo_model_config :: graph_search_config where
  "demo_model_config = demo_search_config\<lparr>gc_prefetch_policy := ''xgboost'', gc_prefetch_model_path := ''model.txt''\<rparr>"

lemma demo_meta_simps [simp]:
  "gm_page_count (pi_metadata demo_index) = 1" "gm_vector_count (pi_metadata demo_index) = 1"
  "gm_dim (pi_metadata demo_index) = 1" "pi_node_to_page demo_index = [0]"
  by (simp_all add: demo_index_def)

lemma demo_file_page: "file_page demo_index demo_packed_disk p = (if p = 0 then Some demo_page else None)"
proof (cases "p = 0")
  case True
  have "page_offset demo_index 0 = 64" by (simp add: page_offset_def demo_index_def)
  moreover have "decode_packed_page (pi_metadata demo_index) 0 (dp_bytes demo_page) = Inr demo_page"
    using demo_decoded by simp
  ultimately show ?thesis using True demo_slice by (simp add: file_page_def demo_index_def)
next
  case False
  then have "unat p \<noteq> 0" by (simp add: unat_eq_zero)
  then show ?thesis using False by (simp add: file_page_def demo_index_def)
qed

lemma demo_ready: "index_ready demo_index demo_packed_disk"
proof -
  have "directory_ok demo_index demo_packed_disk" by (auto simp: directory_ok_def demo_file_page demo_page_def)
  moreover have "cache_inv demo_packed_disk demo_index" using opened_inv(1)[OF demo_opened] by simp
  moreover have "pins_ok [] demo_index" "idle (pi_reader demo_index)" by (simp_all add: pins_ok_def idle_def demo_index_def)
  ultimately show ?thesis by (simp add: index_ready_def)
qed

lemma demo_complete: "complete demo_index demo_packed_disk"
proof -
  have "n = 0" if "unat n < 1" for n :: u32 using that by (simp add: unat_eq_zero)
  then show ?thesis
    by (auto simp: complete_def readable_def demo_file_page file_node_def demo_page_def)
      (simp_all add: demo_index_def default_status_def)
qed

lemma demo_config: "config_ok demo_search_config 1" "config_ok demo_model_config 1"
  by (simp_all add: config_ok_def demo_search_config_def demo_model_config_def covers_def demo_pq_trained)

lemma demo_models: "model_loads demo_search_config d" "\<not> model_loads demo_model_config demo_packed_disk"
  by (simp_all add: model_loads_def demo_search_config_def demo_model_config_def demo_packed_disk_def)

lemma demo_returns:
  "\<exists>topk stats i' d'. packed_search_one lg query demo_search_config demo_index demo_packed_disk = (Inr (topk, stats), i', d')"
  using search_returns[OF demo_ready _ demo_complete, of demo_search_config] demo_config demo_models
  by (simp add: demo_packed_disk_def) blast

lemma demo_finite:
  "finite_vector 1 [0x40000000]" "unat v < 1 \<Longrightarrow> finite_vector 1 (file_vector demo_index demo_packed_disk v)"
proof -
  show "finite_vector 1 [0x40000000]" by (simp add: finite_vector_def f32_finite_def fp_finite_def fp_mag_def binary32_def)
  have "file_vector demo_index demo_packed_disk 0 = [0x3f800000]"
    by (simp add: file_vector_def demo_file_page demo_page_def find_node_def vector_data_def demo_packed_file_def
        get_word_def dec_word_def)
  then show "finite_vector 1 (file_vector demo_index demo_packed_disk v)" if "unat v < 1"
    using that by (simp add: unat_eq_zero finite_vector_def f32_finite_def fp_finite_def fp_mag_def binary32_def)
qed

theorem search_one_refines_witness:
  "\<exists>r i' d'. packed_search_one (\<lambda>_. 0) [0x40000000] demo_search_config demo_index demo_packed_disk = (r, i', d') \<and>
    files d' = files demo_packed_disk \<and> cache_inv d' i' \<and> pins_ok [] i' \<and>
    (\<forall>topk stats. r = Inr (topk, stats) \<longrightarrow>
      file_search demo_index demo_packed_disk [0x40000000] demo_search_config = Inr topk \<and> index_ready i' d')"
proof -
  obtain r i' d' where "packed_search_one (\<lambda>_. 0) [0x40000000] demo_search_config demo_index demo_packed_disk = (r, i', d')"
    using prod_cases3 by blast
  with search_one_refines[OF demo_ready this] show ?thesis by blast
qed

theorem search_one_returns_witness:
  "(\<exists>topk stats i' d'. packed_search_one (\<lambda>_. 0) [0x40000000] demo_search_config demo_index demo_packed_disk =
      (Inr (topk, stats), i', d') \<and>
    file_search demo_index demo_packed_disk [0x40000000] demo_search_config = Inr topk) \<and>
   (\<exists>e. packed_search_one (\<lambda>_. 0) [0x40000000] demo_model_config demo_index demo_packed_disk =
      (Inl e, demo_index, demo_packed_disk))"
proof -
  have out: "outcomes demo_packed_disk = []" by (simp add: demo_packed_disk_def)
  note runs = search_one_returns[OF demo_ready out demo_complete, of _ "\<lambda>_. 0" "[0x40000000]", unfolded demo_meta_simps(2)]
  show ?thesis
    using runs[OF demo_config(1)] runs[OF demo_config(2)] demo_models(1)[of demo_packed_disk] demo_models(2) by simp
qed

theorem search_one_results_witness:
  "\<exists>topk stats i' d'. packed_search_one (\<lambda>_. 0) [0x40000000] demo_search_config demo_index demo_packed_disk =
      (Inr (topk, stats), i', d') \<and> length topk \<le> 1 \<and> sorted (map sr_key topk)"
proof -
  obtain topk stats i' d' where run: "packed_search_one (\<lambda>_. 0) [0x40000000] demo_search_config demo_index demo_packed_disk =
      (Inr (topk, stats), i', d')" using demo_returns by blast
  have pos: "0 < gc_rerank_topk demo_search_config" by (simp add: demo_search_config_def)
  have "1 \<le> (2 :: nat) ^ 32" by simp
  note s = search_one_results[OF demo_ready run demo_meta_simps(2)[symmetric] this]
  have "finite_vector 1 (file_vector demo_index demo_packed_disk v)"
    if "reachable 1 (file_neighbors demo_index demo_packed_disk) (set (entry_nodes 1 demo_search_config)) v" for v
    using reachable_range[OF that] by (rule demo_finite(2))
  then have "sorted (map sr_key topk)" using s pos demo_finite(1) unfolding demo_meta_simps by blast
  then show ?thesis using s run by auto
qed

theorem exhaustive_search_exact_witness:
  "\<exists>topk stats i' d' nodes. packed_search_one (\<lambda>_. 0) [0x40000000] demo_search_config demo_index demo_packed_disk =
      (Inr (topk, stats), i', d') \<and> distinct nodes \<and>
    set nodes = {v. reachable 1 (file_neighbors demo_index demo_packed_disk) (set (entry_nodes 1 demo_search_config)) v} \<and>
    topk = take 1 (sort_key sr_key (map (exact_result [0x40000000] (file_vector demo_index demo_packed_disk) 1) nodes))"
proof -
  obtain topk stats i' d' where run: "packed_search_one (\<lambda>_. 0) [0x40000000] demo_search_config demo_index demo_packed_disk =
      (Inr (topk, stats), i', d')" using demo_returns by blast
  have "\<forall>v. reachable 1 (file_neighbors demo_index demo_packed_disk) (set (entry_nodes 1 demo_search_config)) v \<longrightarrow>
      finite_vector 1 (file_vector demo_index demo_packed_disk v)"
    using reachable_range demo_finite(2) by blast
  moreover have "gc_top_k demo_search_config = 1" by (simp add: demo_search_config_def)
  ultimately show ?thesis
    using exhaustive_search_exact[OF demo_ready run demo_meta_simps(2)[symmetric] _ demo_meta_simps(3)[symmetric]]
      run demo_finite(1) by (simp add: demo_search_config_def)
qed

end
