(* ===== verification/Engine.thy ===== *)
theory Engine
  imports DynReads SearchProps BruteForce
begin

text \<open>
  \<open>engine/storage_engine.h\<close> and \<open>src/engine/storage_engine.cpp\<close>: the engines a client uses. The
  packed graph engine searches the base index and overlays the records of the dynamic write
  manager at one sequence number. Timings are not modelled. The manager is shared with
  writers, so a search gets it as each of its three accesses finds it.
\<close>

section \<open>The interface and the engine in memory\<close>

record engine_search_result =
  er_topk :: "search_result list"
  er_used_graph_path :: bool
  er_dynamic_read_sequence :: u64
  er_graph :: search_stats

definition storage_engine_insert :: "u32 \<Rightarrow> f32 list option \<Rightarrow> unit result" where
  "storage_engine_insert i vector = Inl (Runtime_error ''StorageEngine insert is not implemented'')"

definition storage_engine_update :: "u32 \<Rightarrow> f32 list option \<Rightarrow> unit result" where
  "storage_engine_update i vector = Inl (Runtime_error ''StorageEngine update is not implemented'')"

definition storage_engine_erase :: "u32 \<Rightarrow> unit result" where
  "storage_engine_erase i = Inl (Runtime_error ''StorageEngine erase is not implemented'')"

definition ExactMemoryEngine :: "vector_set \<Rightarrow> brute_force_index result" where
  "ExactMemoryEngine base = BruteForceIndex base"

definition exact_engine_search_one :: "brute_force_index \<Rightarrow> f32 list option \<Rightarrow> nat \<Rightarrow> engine_search_result result" where
  "exact_engine_search_one index query top_k =
     seq_result (bf_search_one index query top_k) (\<lambda>topk.
       Inr \<lparr>er_topk = topk, er_used_graph_path = False, er_dynamic_read_sequence = 0, er_graph = no_stats\<rparr>)"

section \<open>The packed graph engine\<close>

record packed_engine_config =
  ec_index_path :: string
  ec_cache_policy :: string
  ec_io_mode :: string
  ec_cache_pages :: nat
  ec_io_batch_size :: nat
  ec_io_depth :: nat
  ec_protect_hot_pages :: bool
  ec_hot_degree_threshold :: nat
  ec_search :: graph_search_config

record packed_engine =
  eg_config :: packed_engine_config
  eg_index :: packed_index

definition PackedGraphEngine :: "packed_engine_config \<Rightarrow> disk \<Rightarrow> packed_engine result \<times> disk" where
  "PackedGraphEngine config d =
     (case PackedDiskGraphIndex (ec_index_path config) d of
        (Inl e, d) \<Rightarrow> (Inl e, d)
      | (Inr idx, d) \<Rightarrow>
     (case configure_cache (ec_cache_policy config) (ec_cache_pages config) (ec_protect_hot_pages config)
             (ec_hot_degree_threshold config) idx d of
        (Inl e, idx, d) \<Rightarrow> (Inl e, d)
      | (Inr _, idx, d) \<Rightarrow>
     (case configure_io (ec_io_mode config) (ec_io_batch_size config) (ec_io_depth config) idx d of
        (Inl e, idx, d) \<Rightarrow> (Inl e, d)
      | (Inr _, idx, d) \<Rightarrow> (Inr \<lparr>eg_config = config, eg_index = idx\<rparr>, d))))"

definition engine_dim :: "packed_engine \<Rightarrow> u32" where
  "engine_dim eng = word_of_nat (gm_dim (pi_metadata (eg_index eng)))"

text \<open>
  The overlay: \<open>m1\<close> is the manager when the records of the base results are looked up, \<open>m2\<close>
  when the delta is searched.
\<close>

definition overlay_base ::
  "manager \<Rightarrow> manager \<Rightarrow> f32 list \<Rightarrow> u32 \<Rightarrow> nat \<Rightarrow> u64 \<Rightarrow> search_result list \<Rightarrow> search_result list" where
  "overlay_base m1 m2 query dim top_k read_sequence base =
     (let base_ids = map sr_id base;
          latest_base_records = dm_latest_records_for m1 base_ids read_sequence True;
          delta_records = dm_search_delta_l2_at m2 (Some query) dim top_k read_sequence;
          delta_records = delta_records @ map snd (um_items latest_base_records)
      in merge_base_and_delta_l2 base delta_records (Some query) dim top_k)"

definition packed_engine_search_one ::
  "(u64 \<Rightarrow> nat) \<Rightarrow> f32 list \<Rightarrow> nat \<Rightarrow> packed_engine \<Rightarrow> (manager \<times> manager \<times> manager) option \<Rightarrow> disk \<Rightarrow>
   engine_search_result result \<times> packed_engine \<times> disk" where
  "packed_engine_search_one lg query top_k eng dynamic d =
     (let search = (ec_search (eg_config eng))\<lparr>gc_top_k := top_k\<rparr>;
          read_sequence = (case dynamic of None \<Rightarrow> 0 | Some (m0, _) \<Rightarrow> dm_current_sequence m0);
          (r, idx, d) = packed_search_one lg query search (eg_index eng) d
      in (seq_result r (\<lambda>(topk, stats).
            Inr \<lparr>er_topk = (case dynamic of
                   None \<Rightarrow> topk
                 | Some (_, m1, m2) \<Rightarrow> overlay_base m1 m2 query (engine_dim eng) top_k read_sequence topk),
                 er_used_graph_path = True, er_dynamic_read_sequence = read_sequence, er_graph = stats\<rparr>),
          eng\<lparr>eg_index := idx\<rparr>, d))"

definition packed_engine_insert ::
  "u32 \<Rightarrow> f32 list option \<Rightarrow> packed_engine \<Rightarrow> manager option \<Rightarrow> disk \<Rightarrow> unit result \<times> manager option \<times> disk" where
  "packed_engine_insert i vector eng dynamic d =
     (case dynamic of
        None \<Rightarrow> (Inl (Runtime_error ''PackedGraphEngine insert requires DynamicWriteManager''), None, d)
      | Some m \<Rightarrow> (let (ok, m, d) = dm_insert i vector (engine_dim eng) m d
                  in (if ok then Inr () else Inl (Runtime_error ''PackedGraphEngine insert failed''), Some m, d)))"

definition packed_engine_update ::
  "u32 \<Rightarrow> f32 list option \<Rightarrow> packed_engine \<Rightarrow> manager option \<Rightarrow> disk \<Rightarrow> unit result \<times> manager option \<times> disk" where
  "packed_engine_update i vector eng dynamic d =
     (case dynamic of
        None \<Rightarrow> (Inl (Runtime_error ''PackedGraphEngine update requires DynamicWriteManager''), None, d)
      | Some m \<Rightarrow> (let (ok, m, d) = dm_update i vector (engine_dim eng) m d
                  in (if ok then Inr () else Inl (Runtime_error ''PackedGraphEngine update failed''), Some m, d)))"

definition packed_engine_erase ::
  "u32 \<Rightarrow> packed_engine \<Rightarrow> manager option \<Rightarrow> disk \<Rightarrow> unit result \<times> manager option \<times> disk" where
  "packed_engine_erase i eng dynamic d =
     (case dynamic of
        None \<Rightarrow> (Inl (Runtime_error ''PackedGraphEngine erase requires DynamicWriteManager''), None, d)
      | Some m \<Rightarrow> (let (ok, m, d) = dm_erase i m d
                  in (if ok then Inr () else Inl (Runtime_error ''PackedGraphEngine erase failed''), Some m, d)))"

section \<open>The overlay sees the whole delta\<close>

definition delta_result :: "f32 list \<Rightarrow> u32 \<Rightarrow> dynamic_record \<Rightarrow> search_result" where
  "delta_result q dim r = \<lparr>sr_id = dr_node r, sr_distance = squared_l2 q (dr_vector r) (unat dim)\<rparr>"

lemma delta_result_key: "sr_key (delta_result q dim r) = delta_key q dim r"
  by (simp add: sr_key_def delta_key_def delta_result_def)

lemma find_one_version:
  assumes "one_version rs" and "r \<in> set rs"
  shows "find (\<lambda>x. dr_node x = dr_node r) rs = Some r"
proof (cases "find (\<lambda>x. dr_node x = dr_node r) rs")
  case None
  then show ?thesis using assms(2) by (auto simp: find_None_iff)
next
  case (Some x)
  then have "x \<in> set rs" "dr_node x = dr_node r" by (auto simp: find_Some_iff)
  then show ?thesis using Some assms by (auto simp: one_version_def)
qed

lemma find_node_None: "find (\<lambda>x. dr_node x = k) rs = None \<longleftrightarrow> k \<notin> dr_node ` set rs"
  by (auto simp: find_None_iff)

lemma find_node_sub:
  assumes "one_version rs" and "set xs \<subseteq> set rs" and "find (\<lambda>x. dr_node x = k) xs = Some r"
  shows "find (\<lambda>x. dr_node x = k) rs = Some r"
proof -
  have "r \<in> set xs" "dr_node r = k" using assms(3) by (auto simp: find_Some_iff)
  then show ?thesis using find_one_version[OF assms(1), of r] assms(2) by auto
qed

text \<open>
  A part of the delta that holds the versions of all base results decides as the whole delta
  does, except for live records of other nodes that it leaves out.
\<close>

lemma overlaid_part:
  assumes "one_version rs" and "set xs \<subseteq> set rs" and "\<forall>r\<in>set rs. dr_node r \<in> sr_id ` set base \<longrightarrow> r \<in> set xs"
  shows "overlaid base xs q dim k = Some b \<Longrightarrow> overlaid base rs q dim k = Some b"
    and "overlaid base rs q dim k = Some b \<Longrightarrow> overlaid base xs q dim k \<noteq> Some b \<Longrightarrow>
      \<exists>r\<in>set rs - set xs. usable_record dim r \<and> b = delta_result q dim r"
proof -
  have same: "overlaid base xs q dim k = overlaid base rs q dim k" if "find (\<lambda>x. dr_node x = k) xs \<noteq> None"
    using that find_node_sub[OF assms(1,2)] by (auto simp: overlaid_def)
  have left: "overlaid base xs q dim k = overlaid base rs q dim k \<or>
      (find (\<lambda>b. sr_id b = k) base = None \<and> (\<exists>r\<in>set rs - set xs. find (\<lambda>x. dr_node x = k) rs = Some r))"
    if none: "find (\<lambda>x. dr_node x = k) xs = None"
  proof (cases "find (\<lambda>x. dr_node x = k) rs")
    case None
    then show ?thesis using none by (simp add: overlaid_def)
  next
    case (Some r)
    then have r: "r \<in> set rs" "dr_node r = k" by (auto simp: find_Some_iff)
    then have "r \<notin> set xs" using none by (auto simp: find_node_None)
    then have "k \<notin> sr_id ` set base" using assms(3) r by auto
    then have "find (\<lambda>b. sr_id b = k) base = None" unfolding find_None_iff by blast
    then show ?thesis using Some r \<open>r \<notin> set xs\<close> by blast
  qed
  show "overlaid base rs q dim k = Some b" if o: "overlaid base xs q dim k = Some b"
  proof (cases "find (\<lambda>x. dr_node x = k) xs")
    case None
    then show ?thesis using left o by (auto simp: overlaid_def)
  qed (use same o in simp)
  show "\<exists>r\<in>set rs - set xs. usable_record dim r \<and> b = delta_result q dim r"
    if o: "overlaid base rs q dim k = Some b" "overlaid base xs q dim k \<noteq> Some b"
  proof -
    from same left o obtain r where r: "r \<in> set rs - set xs" "find (\<lambda>x. dr_node x = k) rs = Some r"
        "find (\<lambda>b. sr_id b = k) base = None" by metis
    then have "dr_node r = k" by (auto simp: find_Some_iff)
    then have "usable_record dim r \<and> b = delta_result q dim r"
      using o(1) r(2,3) by (auto simp: overlaid_def usable_record_def delta_result_def split: if_splits)
    then show ?thesis using r(1) by blast
  qed
qed

lemma overlaid_usable:
  assumes "one_version xs" and "r \<in> set xs" and "usable_record dim r"
  shows "overlaid base xs q dim (dr_node r) = Some (delta_result q dim r)"
  using find_one_version[OF assms(1,2)] assms(3) by (simp add: overlaid_def usable_record_def delta_result_def)

text \<open>
  The core of the overlay: the \<open>k\<close> nearest live records and the versions of the base results
  decide the first \<open>k\<close> merged results as the whole delta does.
\<close>

lemma merge_cut:
  fixes q :: "f32 list" and L :: "dynamic_record list" and k :: nat and dim :: u32
  defines "D \<equiv> take k (sort_key (delta_key q dim) (filter (usable_record dim) L))"
  assumes base: "distinct (map sr_id base)" "\<forall>b\<in>set base. sr_valid b"
    and L: "distinct (map dr_node L)" "\<forall>r\<in>set L. finite_record dim r"
    and X: "set X = {r \<in> set L. dr_node r \<in> sr_id ` set base}"
    and fin: "finite_vector (unat dim) q" and pos: "dim \<noteq> 0" "k \<noteq> 0"
  shows "merge_base_and_delta_l2 base (D @ X) (Some q) dim k = merge_base_and_delta_l2 base L (Some q) dim k"
proof -
  let ?U = "filter (usable_record dim) L"
  have one: "one_version L" using L(1) by (auto simp: one_version_def distinct_map inj_on_def)
  have DU: "set D \<subseteq> set ?U" using set_take_subset[of k "sort_key (delta_key q dim) ?U"] by (simp add: D_def)
  then have sub: "set (D @ X) \<subseteq> set L" using X by auto
  have one': "one_version (D @ X)" using one sub unfolding one_version_def by blast
  have XL: "\<forall>r\<in>set L. dr_node r \<in> sr_id ` set base \<longrightarrow> r \<in> set (D @ X)" using X by auto
  have fin': "\<forall>r\<in>set (D @ X). finite_record dim r" using L(2) sub by blast
  note part = overlaid_part[OF one sub XL, of q dim]
  obtain as where as: "distinct (map sr_id as)" "set as = {b. overlaid base L q dim (sr_id b) = Some b}"
      "merge_base_and_delta_l2 base L (Some q) dim k = take k (sort_key sr_key as)"
    using merge_exact[OF base(1) one base(2) fin L(2) pos] by blast
  obtain bs where bs: "distinct (map sr_id bs)" "set bs = {b. overlaid base (D @ X) q dim (sr_id b) = Some b}"
      "merge_base_and_delta_l2 base (D @ X) (Some q) dim k = take k (sort_key sr_key bs)"
    using merge_exact[OF base(1) one' base(2) fin fin' pos] by blast
  have "distinct D" "inj_on (delta_result q dim) (set D)"
  proof -
    have "distinct ?U" "inj_on dr_node (set L)" using L(1) by (simp_all add: distinct_map)
    then show "distinct D" by (simp add: D_def)
    show "inj_on (delta_result q dim) (set D)"
      using \<open>inj_on dr_node (set L)\<close> DU by (auto simp: inj_on_def delta_result_def)
  qed
  have many: "k \<le> length (filter (\<lambda>x. sr_key x < sr_key c) bs)" if c: "c \<in> set as - set bs" for c
  proof -
    obtain r where r: "r \<in> set L - set (D @ X)" "usable_record dim r" "c = delta_result q dim r"
      using part(2)[of "sr_id c" c] c as(2) bs(2) by blast
    have rU: "r \<in> set ?U" "r \<notin> set D" using r by simp_all
    note cut = take_sort_cut[OF rU(1) rU(2)[unfolded D_def], folded D_def]
    have less: "delta_key q dim y < delta_key q dim r" if y: "y \<in> set D" for y
    proof -
      have "dr_node y \<noteq> dr_node r" using L(1) y DU rU by (auto simp: distinct_map inj_on_def)
      then have "delta_key q dim y \<noteq> delta_key q dim r" by (simp add: delta_key_def dist_id_key_eq)
      then show ?thesis using cut(2)[OF y] by simp
    qed
    have "delta_result q dim y \<in> set bs" if y: "y \<in> set D" for y
      using overlaid_usable[OF one', of y dim base q] y DU bs(2) by (auto simp: delta_result_def)
    then have "delta_result q dim ` set D \<subseteq> set (filter (\<lambda>x. sr_key x < sr_key c) bs)"
      using less by (auto simp: r(3) delta_result_key)
    from card_mono[OF finite_set this] have "card (set D) \<le> card (set (filter (\<lambda>x. sr_key x < sr_key c) bs))"
      by (simp only: card_image[OF \<open>inj_on (delta_result q dim) (set D)\<close>])
    also have "\<dots> \<le> length (filter (\<lambda>x. sr_key x < sr_key c) bs)" by (rule card_length)
    finally show ?thesis using cut(1) \<open>distinct D\<close> by (simp add: distinct_card)
  qed
  have "set bs \<subseteq> set as" using part(1) as(2) bs(2) by blast
  moreover have "distinct as" "distinct bs" using as(1) bs(1) by (simp_all add: distinct_map)
  ultimately show ?thesis
    unfolding as(3) bs(3) using take_sort_subset[of as sr_key bs k] sr_key_inj[OF as(1)] many by auto
qed

section \<open>What an engine search returns\<close>

lemma newest_steps:
  assumes "view_inv m" and "dm_step\<^sup>*\<^sup>* (m, d) (m', d')"
  shows "newest_version (dm_recent_records m') (dm_current_sequence m) k =
    newest_version (dm_recent_records m) (dm_current_sequence m) k"
  using newest_grows[OF assms(1)] steps_view[OF assms(2,1)] by blast

lemma latest_values:
  assumes "view_inv m" and "lists_versions L (newest_version (dm_recent_records m) s)"
  shows "set (map snd (um_items (dm_latest_records_for m ids s True))) = {r \<in> set L. dr_node r \<in> set ids}"
proof -
  let ?f = "newest_version (dm_recent_records m) s"
  let ?M = "latest_records_for_from_history (unique_record_versions (dm_recent_records m)) ids s True"
  have M: "dm_latest_records_for m ids s True = ?M"
    by (simp add: dm_latest_records_for_def view_inv_read[OF assms(1)])
  have find: "um_find ?M k = (if k \<in> set ids then ?f k else None)" for k
    by (simp add: latest_records_for_eq(1) latest_record_from_history_eq split: option.splits)
  have "set (map snd (um_items ?M)) = {r. \<exists>k. um_find ?M k = Some r}"
    by (rule um.set_values[OF latest_records_for_eq(2)])
  also have "\<dots> = {r. ?f (dr_node r) = Some r \<and> dr_node r \<in> set ids}"
  proof (rule set_eqI)
    fix r
    have "dr_node r = k" if "?f k = Some r" for k using newest_version_node(2)[OF that] .
    then show "r \<in> {r. \<exists>k. um_find ?M k = Some r} \<longleftrightarrow> r \<in> {r. ?f (dr_node r) = Some r \<and> dr_node r \<in> set ids}"
      by (auto simp: find)
  qed
  finally show ?thesis unfolding M using assms(2) by (simp only: lists_versions_def mem_Collect_eq)
qed

text \<open>The manager may grow between the three accesses: the records at the sequence number stay.\<close>

lemma overlay_exact:
  fixes q :: "f32 list"
  assumes inv: "view_inv m0" and steps: "dm_step\<^sup>*\<^sup>* (m0, d0) (m1, d1)" "dm_step\<^sup>*\<^sup>* (m1, d1) (m2, d2)"
    and base: "distinct (map sr_id base)" "\<forall>b\<in>set base. sr_valid b"
    and fin: "finite_vector (unat dim) q" "\<forall>r\<in>set (dm_recent_records m0). finite_record dim r"
    and pos: "dim \<noteq> 0" "k \<noteq> 0"
  shows "\<exists>live all. lists_versions live (newest_version (dm_recent_records m0) (dm_current_sequence m0)) \<and>
    distinct (map sr_id all) \<and> set all = {b. overlaid base live q dim (sr_id b) = Some b} \<and>
    overlay_base m1 m2 q dim k (dm_current_sequence m0) base = take k (sort_key sr_key all)"
proof -
  let ?s = "dm_current_sequence m0"
  let ?f = "newest_version (dm_recent_records m0) ?s"
  have inv1: "view_inv m1" using steps_view[OF steps(1) inv] by blast
  have inv2: "view_inv m2" using steps_view[OF steps(2) inv1] by blast
  have steps2: "dm_step\<^sup>*\<^sup>* (m0, d0) (m2, d2)" using steps by simp
  let ?L = "deduplicate_newest_at (dm_recent_records m2) ?s"
  have f1: "newest_version (dm_recent_records m1) ?s = ?f" and f2: "newest_version (dm_recent_records m2) ?s = ?f"
    using newest_steps[OF inv steps(1)] newest_steps[OF inv steps2] by (auto intro: ext)
  have L: "lists_versions ?L ?f" using deduplicate_newest_listing[of "dm_recent_records m2" ?s] by (simp add: f2)
  then have distL: "distinct (map dr_node ?L)" by (simp add: lists_versions_def)
  then have one: "one_version ?L" by (auto simp: one_version_def distinct_map inj_on_def)
  have "r \<in> set (dm_recent_records m0)" if r: "r \<in> set ?L" for r
    using r L newest_version_node(1)[of "dm_recent_records m0" ?s "dr_node r" r] by (simp add: lists_versions_def)
  then have finL: "\<forall>r\<in>set ?L. finite_record dim r" using fin(2) by blast
  then have "\<forall>r\<in>set (filter (usable_record dim) ?L). finite_vector (unat dim) (dr_vector r)"
    by (auto simp: finite_record_def)
  note top = scored_top[OF fin(1) this]
  let ?X = "map snd (um_items (dm_latest_records_for m1 (map sr_id base) ?s True))"
  have X: "set ?X = {r \<in> set ?L. dr_node r \<in> sr_id ` set base}"
    using latest_values[OF inv1, of ?L ?s "map sr_id base"] L unfolding f1 set_map[of sr_id] by blast
  have "dm_search_delta_l2_at m2 (Some q) dim k ?s = take k (sort_key (delta_key q dim) (filter (usable_record dim) ?L))"
    using pos top by (simp add: dm_search_delta_l2_at_def dm_collect_all_delta_records_at_def view_inv_read[OF inv2])
  then have "overlay_base m1 m2 q dim k ?s base = merge_base_and_delta_l2 base ?L (Some q) dim k"
    using merge_cut[OF base distL finL X fin(1) pos] by (simp add: overlay_base_def)
  then show ?thesis using merge_exact[OF base(1) one base(2) fin(1) finL pos] L by (intro exI[of _ ?L]) simp
qed

text \<open>
  The data of a query has finite components: the query, the vectors on disk that it can reach and
  the records of the manager. The index has the shape of a file. An engine that does not rerank
  reports distances of its quantiser, which then is one that training produced for vectors of the
  index's dimension, with finite codebooks.
\<close>

definition engine_config_at :: "packed_engine \<Rightarrow> nat \<Rightarrow> graph_search_config" where
  "engine_config_at eng k = (ec_search (eg_config eng))\<lparr>gc_top_k := k\<rparr>"

definition engine_reaches :: "packed_engine \<Rightarrow> disk \<Rightarrow> u32 \<Rightarrow> bool" where
  "engine_reaches eng d v \<longleftrightarrow> reachable (gm_vector_count (pi_metadata (eg_index eng))) (file_neighbors (eg_index eng) d)
     (set (entry_nodes (gm_vector_count (pi_metadata (eg_index eng))) (ec_search (eg_config eng)))) v"

definition distances_finite :: "packed_engine \<Rightarrow> bool" where
  "distances_finite eng \<longleftrightarrow> 0 < gc_rerank_topk (ec_search (eg_config eng)) \<or>
     (case gc_pq_model (ec_search (eg_config eng)) of None \<Rightarrow> False
      | Some model \<Rightarrow> pq_trained model \<and> pe_dim model = unat (engine_dim eng) \<and> finite_codebooks model)"

definition engine_query_ok :: "packed_engine \<Rightarrow> f32 list \<Rightarrow> manager \<Rightarrow> disk \<Rightarrow> bool" where
  "engine_query_ok eng q m d \<longleftrightarrow>
     index_ready (eg_index eng) d \<and> gm_vector_count (pi_metadata (eg_index eng)) \<le> 2 ^ 32 \<and>
     engine_dim eng \<noteq> 0 \<and> gm_dim (pi_metadata (eg_index eng)) = unat (engine_dim eng) \<and>
     distances_finite eng \<and> finite_vector (unat (engine_dim eng)) q \<and>
     (\<forall>v. engine_reaches eng d v \<longrightarrow> finite_vector (unat (engine_dim eng)) (file_vector (eg_index eng) d v)) \<and>
     view_inv m \<and> (\<forall>r\<in>set (dm_recent_records m). finite_record (engine_dim eng) r)"

lemma entry_nodes_top [simp]: "entry_nodes n (config\<lparr>gc_top_k := k\<rparr>) = entry_nodes n config"
  by (simp add: entry_nodes_def)

text \<open>
  A result of the base search: a node the search can reach, with the exact distance of its vector
  on disk when the engine reranks, and with the quantiser's distance when it does not.
\<close>

definition base_found :: "packed_engine \<Rightarrow> disk \<Rightarrow> f32 list \<Rightarrow> search_result \<Rightarrow> bool" where
  "base_found eng d q b \<longleftrightarrow> engine_reaches eng d (sr_id b) \<and>
     (if 0 < gc_rerank_topk (ec_search (eg_config eng))
      then sr_distance b = squared_l2 q (file_vector (eg_index eng) d (sr_id b)) (unat (engine_dim eng))
      else case gc_pq_model (ec_search (eg_config eng)) of None \<Rightarrow> False
        | Some model \<Rightarrow> adc_distance model (sr_id b) (build_adc_table model q) = Inr (sr_distance b))"

lemma base_found_valid:
  assumes "engine_query_ok eng q m d" and "base_found eng d q b"
  shows "sr_valid b"
proof (cases "0 < gc_rerank_topk (ec_search (eg_config eng))")
  case True
  then show ?thesis
    using assms by (auto simp: base_found_def engine_query_ok_def sr_valid_def squared_l2_valid)
next
  case False
  then obtain model where m: "gc_pq_model (ec_search (eg_config eng)) = Some model" "pq_trained model"
      "pe_dim model = unat (engine_dim eng)" "finite_codebooks model"
    using assms(1) by (auto simp: engine_query_ok_def distances_finite_def split: option.splits)
  have "finite_vector (pe_dim model) q" using assms(1) m(3) by (simp add: engine_query_ok_def)
  moreover have "adc_distance model (sr_id b) (build_adc_table model q) = Inr (sr_distance b)"
    using assms(2) False m(1) by (simp add: base_found_def)
  ultimately show ?thesis
    using adc_distance_nonneg[OF m(2,4)] by (simp add: sr_valid_def f32_nonneg_not_nan)
qed

lemma engine_base:
  assumes ok: "engine_query_ok eng q m0 d"
    and run: "packed_search_one lg q (engine_config_at eng k) (eg_index eng) d = (Inr (base, stats), i', d')"
  shows "file_search (eg_index eng) d q (engine_config_at eng k) = Inr base" "k \<noteq> 0" "distinct (map sr_id base)"
    "\<forall>b\<in>set base. base_found eng d q b"
proof -
  have ready: "index_ready (eg_index eng) d" and n: "gm_vector_count (pi_metadata (eg_index eng)) \<le> 2 ^ 32"
    and dim: "gm_dim (pi_metadata (eg_index eng)) = unat (engine_dim eng)"
    using ok by (simp_all add: engine_query_ok_def)
  show search: "file_search (eg_index eng) d q (engine_config_at eng k) = Inr base"
    using search_run[OF ready run, of False] by simp
  then show "k \<noteq> 0" by (auto simp: graph_search_def engine_config_at_def split: if_splits)
  note r = graph_results[OF search n]
  show "distinct (map sr_id base)" by (rule r(1))
  have config: "gc_rerank_topk (engine_config_at eng k) = gc_rerank_topk (ec_search (eg_config eng))"
    "gc_pq_model (engine_config_at eng k) = gc_pq_model (ec_search (eg_config eng))"
    by (simp_all add: engine_config_at_def)
  have reach: "engine_reaches eng d (sr_id b)" if "b \<in> set base" for b
    using r(3)[OF that] by (simp add: engine_reaches_def engine_config_at_def)
  show "\<forall>b\<in>set base. base_found eng d q b"
  proof (cases "0 < gc_rerank_topk (ec_search (eg_config eng))")
    case True
    have "sr_distance b = squared_l2 q (file_vector (eg_index eng) d (sr_id b)) (unat (engine_dim eng))" if "b \<in> set base" for b
      using arg_cong[OF r(4)[unfolded config(1), OF True that], of sr_distance] unfolding dim by simp
    then show ?thesis using reach True by (simp add: base_found_def)
  next
    case False
    then show ?thesis
      using reach graph_search_scored[OF search, unfolded config] by (auto simp: base_found_def)
  qed
qed

lemma engine_overlay:
  assumes ok: "engine_query_ok eng q m0 d" and steps: "dm_step\<^sup>*\<^sup>* (m0, e0) (m1, e1)" "dm_step\<^sup>*\<^sup>* (m1, e1) (m2, e2)"
    and run: "packed_engine_search_one lg q k eng (Some (m0, m1, m2)) d = (Inr res, eng', d')"
  obtains base live all where "file_search (eg_index eng) d q (engine_config_at eng k) = Inr base"
    "lists_versions live (newest_version (dm_recent_records m0) (dm_current_sequence m0))"
    "distinct (map sr_id all)" "set all = {b. overlaid base live q (engine_dim eng) (sr_id b) = Some b}"
    "er_topk res = take k (sort_key sr_key all)" "er_dynamic_read_sequence res = dm_current_sequence m0" "k \<noteq> 0"
    "\<forall>b\<in>set base. base_found eng d q b"
proof -
  obtain base stats i' where base: "packed_search_one lg q (engine_config_at eng k) (eg_index eng) d = (Inr (base, stats), i', d')"
    and res: "er_topk res = overlay_base m1 m2 q (engine_dim eng) k (dm_current_sequence m0) base"
      "er_dynamic_read_sequence res = dm_current_sequence m0"
    using run by (auto simp: packed_engine_search_one_def engine_config_at_def Let_def seq_result_def
        split: prod.splits sum.splits)
  note b = engine_base[OF ok base]
  have valid: "\<forall>b\<in>set base. sr_valid b" using b(4) base_found_valid[OF ok] by blast
  have m: "view_inv m0" "finite_vector (unat (engine_dim eng)) q" "engine_dim eng \<noteq> 0"
      "\<forall>r\<in>set (dm_recent_records m0). finite_record (engine_dim eng) r"
    using ok by (simp_all add: engine_query_ok_def)
  from overlay_exact[OF m(1) steps b(3) valid m(2,4,3) b(2)]
  obtain live all where o: "lists_versions live (newest_version (dm_recent_records m0) (dm_current_sequence m0))"
    "distinct (map sr_id all)" "set all = {b. overlaid base live q (engine_dim eng) (sr_id b) = Some b}"
    "overlay_base m1 m2 q (engine_dim eng) k (dm_current_sequence m0) base = take k (sort_key sr_key all)" by blast
  from that[OF b(1) o(1-3)] show ?thesis using o(4) res b(2,4) by simp
qed

text \<open>
  C4: an engine search is exact on base and delta. While other threads insert, update, erase,
  flush and compact between its three accesses to the manager, and whatever their file system
  calls do, and with or without reranking, \<open>search_one\<close> returns the first \<open>top_k\<close>, by distance then identifier, of the beam
  search results on the base graph overlaid with all the newest records visible at one sequence
  number, the one it reports. Cutting the delta to \<open>top_k\<close> and looking up only the base
  results' records loses nothing.
\<close>

theorem engine_search_exact:
  assumes "engine_query_ok eng q m0 d" and "dm_step\<^sup>*\<^sup>* (m0, e0) (m1, e1)" and "dm_step\<^sup>*\<^sup>* (m1, e1) (m2, e2)"
    and "packed_engine_search_one lg q k eng (Some (m0, m1, m2)) d = (Inr res, eng', d')"
  shows "\<exists>base live all. file_search (eg_index eng) d q (engine_config_at eng k) = Inr base \<and>
    lists_versions live (newest_version (dm_recent_records m0) (dm_current_sequence m0)) \<and>
    distinct (map sr_id all) \<and> set all = {b. overlaid base live q (engine_dim eng) (sr_id b) = Some b} \<and>
    er_topk res = take k (sort_key sr_key all) \<and> er_dynamic_read_sequence res = dm_current_sequence m0"
proof -
  obtain base live all where "file_search (eg_index eng) d q (engine_config_at eng k) = Inr base"
    "lists_versions live (newest_version (dm_recent_records m0) (dm_current_sequence m0))"
    "distinct (map sr_id all)" "set all = {b. overlaid base live q (engine_dim eng) (sr_id b) = Some b}"
    "er_topk res = take k (sort_key sr_key all)" "er_dynamic_read_sequence res = dm_current_sequence m0"
    by (rule engine_overlay[OF assms])
  then show ?thesis by blast
qed

lemma fresh_from_overlay:
  assumes live: "lists_versions live (newest_version rs s)"
    and all: "set all = {b. overlaid base live q dim (sr_id b) = Some b}" and topk: "topk = take k (sort_key sr_key all)"
  shows "b \<in> set topk \<Longrightarrow> newest_version rs s (sr_id b) = None \<Longrightarrow> b \<in> set base"
    and "b \<in> set topk \<Longrightarrow> newest_version rs s (sr_id b) = Some r \<Longrightarrow>
      \<not> dr_deleted r \<and> (if usable_record dim r then b = delta_result q dim r else b \<in> set base)"
    and "newest_version rs s (dr_node r) = Some r \<Longrightarrow> usable_record dim r \<Longrightarrow> delta_result q dim r \<notin> set topk \<Longrightarrow>
      length topk = k \<and> (\<forall>b\<in>set topk. sr_key b \<le> delta_key q dim r)"
proof -
  have one: "one_version live" using live by (auto simp: lists_versions_def one_version_def distinct_map inj_on_def)
  have mem: "r \<in> set live \<longleftrightarrow> newest_version rs s (dr_node r) = Some r" for r using live by (simp add: lists_versions_def)
  have sub: "b \<in> set topk \<Longrightarrow> overlaid base live q dim (sr_id b) = Some b"
    using set_take_subset[of k "sort_key sr_key all"] all by (auto simp: topk)
  have find: "find (\<lambda>x. dr_node x = j) live = newest_version rs s j" for j
  proof (cases "newest_version rs s j")
    case None
    then show ?thesis using mem by (auto simp: find_node_None)
  next
    case (Some r)
    then have "dr_node r = j" "r \<in> set live" using newest_version_node(2)[OF Some] mem[of r] by simp_all
    then show ?thesis using find_one_version[OF one, of r] Some by simp
  qed
  show "b \<in> set base" if "b \<in> set topk" "newest_version rs s (sr_id b) = None"
    using sub[OF that(1)] that(2) by (auto simp: overlaid_def find find_Some_iff)
  show "\<not> dr_deleted r \<and> (if usable_record dim r then b = delta_result q dim r else b \<in> set base)"
    if "b \<in> set topk" "newest_version rs s (sr_id b) = Some r"
    using sub[OF that(1)] that(2) newest_version_node(2)[OF that(2)]
    by (auto simp: overlaid_def find usable_record_def delta_result_def find_Some_iff split: if_splits)
  show "length topk = k \<and> (\<forall>b\<in>set topk. sr_key b \<le> delta_key q dim r)"
    if r: "newest_version rs s (dr_node r) = Some r" "usable_record dim r" "delta_result q dim r \<notin> set topk"
  proof -
    have "overlaid base live q dim (dr_node r) = Some (delta_result q dim r)"
      using overlaid_usable[OF one _ r(2)] mem r(1) by blast
    then have "delta_result q dim r \<in> set all" using all by (simp add: delta_result_def)
    from take_sort_cut[OF this r(3)[unfolded topk], folded topk] show ?thesis by (simp add: delta_result_key)
  qed
qed

text \<open>
  C5: an engine search is fresh. Under the same interference, with or without reranking, every
  result is decided by the newest record of its node that is visible at the search's sequence
  number. A node without a record, and a node whose newest record is live but not of the index's
  dimension, is reported as the base search found it: it can be reached, and its distance is the
  exact one of its vector on disk when the engine reranks, the quantiser's when it does not
  (\<open>base_found\<close>). A node whose newest record is a tombstone is not reported. A node whose newest
  record is a vector of the index's dimension is reported with the exact distance of that vector;
  and such a vector that is not reported is behind \<open>top_k\<close> results that are.
\<close>

theorem engine_search_fresh:
  assumes "engine_query_ok eng q m0 d" and "dm_step\<^sup>*\<^sup>* (m0, e0) (m1, e1)" and "dm_step\<^sup>*\<^sup>* (m1, e1) (m2, e2)"
    and "packed_engine_search_one lg q k eng (Some (m0, m1, m2)) d = (Inr res, eng', d')"
    and "newest = newest_version (dm_recent_records m0) (dm_current_sequence m0)" and "dim = engine_dim eng"
  shows "(\<forall>b\<in>set (er_topk res). case newest (sr_id b) of
      None \<Rightarrow> base_found eng d q b
    | Some r \<Rightarrow> \<not> dr_deleted r \<and> (if usable_record dim r then b = delta_result q dim r else base_found eng d q b)) \<and>
    (\<forall>r. newest (dr_node r) = Some r \<and> usable_record dim r \<and> delta_result q dim r \<notin> set (er_topk res) \<longrightarrow>
      length (er_topk res) = k \<and> (\<forall>b\<in>set (er_topk res). sr_key b \<le> delta_key q dim r))"
proof (rule engine_overlay[OF assms(1-4)])
  fix base live all
  assume live: "lists_versions live (newest_version (dm_recent_records m0) (dm_current_sequence m0))"
    and all: "set all = {b. overlaid base live q (engine_dim eng) (sr_id b) = Some b}"
    and topk: "er_topk res = take k (sort_key sr_key all)"
    and base: "\<forall>b\<in>set base. base_found eng d q b"
  note f = fresh_from_overlay[OF live all topk, folded assms(5,6)]
  have "case newest (sr_id b) of
      None \<Rightarrow> base_found eng d q b
    | Some r \<Rightarrow> \<not> dr_deleted r \<and> (if usable_record dim r then b = delta_result q dim r else base_found eng d q b)"
    if b: "b \<in> set (er_topk res)" for b
    using f(1)[OF b] f(2)[OF b] base by (cases "newest (sr_id b)") (auto split: if_splits)
  then show ?thesis using f(3) by blast
qed

section \<open>Reading one's own writes\<close>

lemma newest_published:
  assumes "view_inv m" and "view_inv m'" and "published r m m'" and "dr_seq r = md_next_sequence_id (dm_manifest m)"
  shows "newest_version (dm_recent_records m') (dm_current_sequence m') (dr_node r) = Some r"
proof -
  have "newest_version (dm_recent_records m') (- 1) (dr_node r) = Some r"
    using assms by (simp add: published_def view_inv_def newest_version_append_newer)
  then show ?thesis by (simp add: newest_at_current[OF assms(2)])
qed

lemma engine_insert_published:
  assumes "packed_engine_insert i v eng (Some m) e = (Inr u, Some m', e')"
  shows "\<exists>vec. v = Some vec \<and> published (inserted_record m i vec (engine_dim eng)) m m'"
  using assms dm_insert_cases[of i v "engine_dim eng" m e]
  by (auto simp: packed_engine_insert_def Let_def split: prod.splits if_splits)

lemma engine_erase_published:
  assumes "packed_engine_erase i eng (Some m) e = (Inr u, Some m', e')"
  shows "published (erased_record m i) m m'"
  using assms dm_erase_cases[of i m e]
  by (auto simp: packed_engine_erase_def Let_def split: prod.splits if_splits)

text \<open>
  C23: an inserted vector is found. After \<open>insert\<close> returns, a search reports the node with its
  distance to the new vector, or \<open>top_k\<close> results that come before it, although other threads
  write while the search runs.
\<close>

theorem engine_insert_found:
  assumes "view_inv m" and "packed_engine_insert i (Some vec) eng (Some m) e = (Inr (), Some m0, e0)"
    and "length vec = unat (engine_dim eng)"
    and "engine_query_ok eng q m0 d" and "dm_step\<^sup>*\<^sup>* (m0, e0) (m1, e1)" and "dm_step\<^sup>*\<^sup>* (m1, e1) (m2, e2)"
    and "packed_engine_search_one lg q k eng (Some (m0, m1, m2)) d = (Inr res, eng', d')"
    and "b = \<lparr>sr_id = i, sr_distance = squared_l2 q vec (unat (engine_dim eng))\<rparr>"
  shows "b \<in> set (er_topk res) \<or> (length (er_topk res) = k \<and> (\<forall>x\<in>set (er_topk res). sr_key x \<le> sr_key b))"
proof (rule engine_overlay[OF assms(4-7)])
  fix base live all
  assume live: "lists_versions live (newest_version (dm_recent_records m0) (dm_current_sequence m0))"
    and all: "set all = {b. overlaid base live q (engine_dim eng) (sr_id b) = Some b}"
    and topk: "er_topk res = take k (sort_key sr_key all)"
  let ?r = "inserted_record m i vec (engine_dim eng)"
  have "published ?r m m0" using engine_insert_published[OF assms(2)] by simp
  from newest_published[OF assms(1) _ this] assms(4)
  have n: "newest_version (dm_recent_records m0) (dm_current_sequence m0) (dr_node ?r) = Some ?r"
    by (simp add: engine_query_ok_def)
  have u: "usable_record (engine_dim eng) ?r" using assms(3) by (simp add: usable_record_def inserted_record_def)
  have b: "delta_result q (engine_dim eng) ?r = b"
    using assms(3,8) by (simp add: delta_result_def inserted_record_def)
  from fresh_from_overlay(3)[OF live all topk n u] show ?thesis
    unfolding b delta_result_key[of q "engine_dim eng" ?r, symmetric] by blast
qed

text \<open>
  C24: an erased node is gone. After \<open>erase\<close> returns, no search reports the node, although other
  threads write while the search runs, and even where the base index still holds it.
\<close>

theorem engine_erase_gone:
  assumes "view_inv m" and "packed_engine_erase i eng (Some m) e = (Inr (), Some m0, e0)"
    and "engine_query_ok eng q m0 d" and "dm_step\<^sup>*\<^sup>* (m0, e0) (m1, e1)" and "dm_step\<^sup>*\<^sup>* (m1, e1) (m2, e2)"
    and "packed_engine_search_one lg q k eng (Some (m0, m1, m2)) d = (Inr res, eng', d')"
  shows "i \<notin> sr_id ` set (er_topk res)"
proof (rule engine_overlay[OF assms(3-6)])
  fix base live all
  assume live: "lists_versions live (newest_version (dm_recent_records m0) (dm_current_sequence m0))"
    and all: "set all = {b. overlaid base live q (engine_dim eng) (sr_id b) = Some b}"
    and topk: "er_topk res = take k (sort_key sr_key all)"
  have "published (erased_record m i) m m0" using engine_erase_published[OF assms(2)] by simp
  from newest_published[OF assms(1) _ this] assms(3)
  have "newest_version (dm_recent_records m0) (dm_current_sequence m0) i = Some (erased_record m i)"
    by (simp add: engine_query_ok_def)
  then show ?thesis using fresh_from_overlay(2)[OF live all topk] by fastforce
qed

section \<open>Concrete runs\<close>

definition demo_engine :: packed_engine where
  "demo_engine = \<lparr>eg_config = \<lparr>ec_index_path = ''index'', ec_cache_policy = ''none'', ec_io_mode = ''sync'',
     ec_cache_pages = 0, ec_io_batch_size = 1, ec_io_depth = 1, ec_protect_hot_pages = False,
     ec_hot_degree_threshold = 0, ec_search = demo_search_config\<rparr>, eg_index = demo_index\<rparr>"

definition demo_plain_engine :: packed_engine where
  "demo_plain_engine = demo_engine\<lparr>eg_config := (eg_config demo_engine)
     \<lparr>ec_search := demo_search_config\<lparr>gc_rerank_topk := 0\<rparr>\<rparr>\<rparr>"

lemma demo_engine_simps [simp]:
  "eg_index demo_engine = demo_index" "engine_dim demo_engine = 1" "ec_search (eg_config demo_engine) = demo_search_config"
  "eg_index demo_plain_engine = demo_index" "engine_dim demo_plain_engine = 1"
  "ec_search (eg_config demo_plain_engine) = demo_search_config\<lparr>gc_rerank_topk := 0\<rparr>"
  by (simp_all add: demo_engine_def demo_plain_engine_def engine_dim_def)

text \<open>Queries to the small file, with reranking and without.\<close>

lemma demo_engine_ok:
  assumes "view_inv m" and "\<forall>r\<in>set (dm_recent_records m). dr_vector r = [0x3f800000] \<or> dr_deleted r \<or> dr_dim r \<noteq> 1"
    and "eng = demo_engine \<or> eng = demo_plain_engine"
  shows "engine_query_ok eng [0x40000000] m demo_packed_disk"
proof -
  have eng: "eg_index eng = demo_index" "engine_dim eng = 1" using assms(3) by auto
  have "finite_vector 1 (file_vector demo_index demo_packed_disk v)" if "engine_reaches eng demo_packed_disk v" for v
    using reachable_range[of 1 _ _ v] that eng(1) by (intro demo_finite(2)) (simp add: engine_reaches_def)
  moreover have "finite_record 1 r" if "r \<in> set (dm_recent_records m)" for r
    using assms(2) that finite_one by (auto simp: finite_record_def usable_record_def)
  moreover have "finite_codebooks demo_pq" "pe_dim demo_pq = 1"
    by (simp_all add: finite_codebooks_def demo_pq_def f32_finite_def fp_finite_def fp_mag_def binary32_def)
  then have "distances_finite eng"
    using assms(3) demo_pq_trained(2) by (auto simp: distances_finite_def demo_search_config_def)
  ultimately show ?thesis
    using assms(1) demo_ready demo_finite(1) by (simp add: engine_query_ok_def eng)
qed

lemma demo_engine_returns:
  assumes "eng = demo_engine \<or> eng = demo_plain_engine" and "0 < k"
  shows "\<exists>res eng' d'. packed_engine_search_one (\<lambda>_. 0) [0x40000000] k eng dynamic demo_packed_disk = (Inr res, eng', d')"
proof -
  let ?config = "(ec_search (eg_config eng))\<lparr>gc_top_k := k\<rparr>"
  have config: "config_ok ?config 1" "model_loads ?config demo_packed_disk" and idx: "eg_index eng = demo_index"
    using assms demo_config(1) demo_models(1)[of demo_packed_disk] by (auto simp: config_ok_def model_loads_def)
  have "\<exists>topk stats i' d'. packed_search_one (\<lambda>_. 0) [0x40000000] ?config demo_index demo_packed_disk = (Inr (topk, stats), i', d')"
    using search_returns[OF demo_ready _ demo_complete, of ?config] config by (simp add: demo_packed_disk_def) blast
  then show ?thesis unfolding idx[symmetric] by (auto simp: packed_engine_search_one_def Let_def)
qed

lemma demo_engine_runs:
  "\<exists>res eng' d'. packed_engine_search_one (\<lambda>_. 0) [0x40000000] 1 demo_engine dynamic demo_packed_disk = (Inr res, eng', d')"
  by (rule demo_engine_returns) simp_all

theorem engine_search_exact_witness:
  "\<exists>res eng' d' base live all. packed_engine_search_one (\<lambda>_. 0) [0x40000000] 1 demo_engine
      (Some (demo_manager False 1000 [], demo_manager False 1000 [], demo_manager False 1000 [])) demo_packed_disk =
      (Inr res, eng', d') \<and>
    file_search demo_index demo_packed_disk [0x40000000] (engine_config_at demo_engine 1) = Inr base \<and>
    set all = {b. overlaid base live [0x40000000] 1 (sr_id b) = Some b} \<and> er_topk res = take 1 (sort_key sr_key all)"
proof -
  let ?m = "demo_manager False 1000 []"
  obtain res eng' d' where run: "packed_engine_search_one (\<lambda>_. 0) [0x40000000] 1 demo_engine (Some (?m, ?m, ?m)) demo_packed_disk =
      (Inr res, eng', d')" using demo_engine_runs by blast
  have "engine_query_ok demo_engine [0x40000000] ?m demo_packed_disk"
    by (rule demo_engine_ok) (simp_all add: demo_manager_inv demo_manager_simps)
  from engine_search_exact[OF this rtranclp.rtrancl_refl rtranclp.rtrancl_refl run] run show ?thesis by auto
qed

text \<open>
  A manager with an erased and inserted node 7, an erased node 5, and a vector of two dimensions
  for node 0, which the index holds with one.
\<close>

definition demo_history :: "dynamic_record list" where
  "demo_history =
     [default_record\<lparr>dr_seq := 1, dr_node := 7, dr_deleted := True\<rparr>,
      default_record\<lparr>dr_seq := 2, dr_node := 7, dr_dim := 1, dr_vector := [0x3f800000]\<rparr>,
      default_record\<lparr>dr_seq := 3, dr_node := 5, dr_deleted := True\<rparr>,
      (demo_record 4)\<lparr>dr_node := 0\<rparr>]"

lemma demo_newest:
  "newest_version demo_history 4 7 = Some (default_record\<lparr>dr_seq := 2, dr_node := 7, dr_dim := 1, dr_vector := [0x3f800000]\<rparr>)"
  "newest_version demo_history 4 5 = Some (default_record\<lparr>dr_seq := 3, dr_node := 5, dr_deleted := True\<rparr>)"
  "newest_version demo_history 4 0 = Some ((demo_record 4)\<lparr>dr_node := 0\<rparr>)"
  "k \<notin> {0, 5, 7} \<Longrightarrow> newest_version demo_history 4 k = None"
  by (simp_all add: newest_version_def visible_at_def demo_history_def demo_record_def default_record_def newer_def)

text \<open>What a search for two results on that manager returns.\<close>

definition demo_fresh :: "packed_engine \<Rightarrow> bool" where
  "demo_fresh eng \<longleftrightarrow> (\<exists>res eng' d'. packed_engine_search_one (\<lambda>_. 0) [0x40000000] 2 eng
      (Some (demo_manager False 1000 demo_history, demo_manager False 1000 demo_history, demo_manager False 1000 demo_history))
      demo_packed_disk = (Inr res, eng', d') \<and>
    (\<forall>b\<in>set (er_topk res). sr_id b \<noteq> 5 \<and> (sr_id b = 0 \<longrightarrow> base_found eng demo_packed_disk [0x40000000] b) \<and>
      (sr_id b = 7 \<longrightarrow> sr_distance b = squared_l2 [0x40000000] [0x3f800000] 1)) \<and>
    (7 \<in> sr_id ` set (er_topk res) \<or> length (er_topk res) = 2))"

theorem engine_search_fresh_witness: "demo_fresh demo_engine \<and> demo_fresh demo_plain_engine"
proof -
  have "demo_fresh eng" if eng: "eng = demo_engine \<or> eng = demo_plain_engine" for eng
  proof -
    let ?m = "demo_manager False 1000 demo_history"
    let ?r = "default_record\<lparr>dr_seq := 2, dr_node := 7, dr_dim := 1, dr_vector := [0x3f800000]\<rparr>"
    have dim: "engine_dim eng = 1" using eng by auto
    obtain res eng' d' where run: "packed_engine_search_one (\<lambda>_. 0) [0x40000000] 2 eng (Some (?m, ?m, ?m)) demo_packed_disk =
        (Inr res, eng', d')" using demo_engine_returns[of eng 2 "Some (?m, ?m, ?m)"] eng by auto
    have ok: "engine_query_ok eng [0x40000000] ?m demo_packed_disk"
      by (rule demo_engine_ok) (use eng in \<open>auto simp: demo_manager_inv demo_manager_simps demo_history_def demo_record_def default_record_def\<close>)
    have "newest_version demo_history 4 = newest_version (dm_recent_records ?m) (dm_current_sequence ?m)"
      by (simp add: demo_manager_simps dm_current_sequence_def demo_manager_def publish_read_view_locked_def last_sequence_def)
    note fresh = engine_search_fresh[OF ok rtranclp.rtrancl_refl rtranclp.rtrancl_refl run this dim[symmetric]]
    have r: "newest_version demo_history 4 (dr_node ?r) = Some ?r" "usable_record 1 ?r"
      by (simp_all add: demo_newest(1) usable_record_def default_record_def)
    have "7 \<in> sr_id ` set (er_topk res) \<or> length (er_topk res) = 2"
      using conjunct2[OF fresh] r by (force simp: delta_result_def default_record_def)
    moreover have "\<not> usable_record 1 ((demo_record 4)\<lparr>dr_node := 0\<rparr>)" by (simp add: usable_record_def demo_record_def)
    then have "sr_id b \<noteq> 5 \<and> (sr_id b = 0 \<longrightarrow> base_found eng demo_packed_disk [0x40000000] b) \<and>
        (sr_id b = 7 \<longrightarrow> sr_distance b = squared_l2 [0x40000000] [0x3f800000] 1)" if "b \<in> set (er_topk res)" for b
      using bspec[OF conjunct1[OF fresh] that] r demo_newest by (auto simp: delta_result_def default_record_def)
    ultimately show ?thesis unfolding demo_fresh_def using run by blast
  qed
  then show ?thesis by blast
qed

theorem engine_insert_found_witness:
  "\<exists>m0 e0 res eng' d'. packed_engine_insert 7 (Some [0x3f800000]) demo_engine (Some (demo_manager False 1000 [])) empty_disk =
      (Inr (), Some m0, e0) \<and>
    packed_engine_search_one (\<lambda>_. 0) [0x40000000] 1 demo_engine (Some (m0, m0, m0)) demo_packed_disk = (Inr res, eng', d') \<and>
    (\<lparr>sr_id = 7, sr_distance = squared_l2 [0x40000000] [0x3f800000] 1\<rparr> \<in> set (er_topk res) \<or> length (er_topk res) = 1)"
proof -
  let ?m = "demo_manager False 1000 []"
  obtain m0 where ins: "dm_insert 7 (Some [0x3f800000]) 1 ?m empty_disk = (True, m0, empty_disk)" using demo_insert by blast
  then have eng: "packed_engine_insert 7 (Some [0x3f800000]) demo_engine (Some ?m) empty_disk = (Inr (), Some m0, empty_disk)"
    by (simp add: packed_engine_insert_def)
  have inv: "view_inv ?m" by (simp add: demo_manager_inv)
  have pub: "published (inserted_record ?m 7 [0x3f800000] 1) ?m m0" using dm_insert_cases[OF ins] by simp
  have "view_inv m0" using view_inv_published[OF inv pub] by (simp add: demo_manager_simps)
  moreover have "dm_recent_records m0 = [inserted_record ?m 7 [0x3f800000] 1]"
    using pub by (simp add: published_def demo_manager_simps)
  ultimately have ok: "engine_query_ok demo_engine [0x40000000] m0 demo_packed_disk"
    by (intro demo_engine_ok) (simp_all add: inserted_record_def)
  obtain res eng' d' where run: "packed_engine_search_one (\<lambda>_. 0) [0x40000000] 1 demo_engine (Some (m0, m0, m0)) demo_packed_disk =
      (Inr res, eng', d')" using demo_engine_runs by blast
  from engine_insert_found[OF inv eng _ ok rtranclp.rtrancl_refl rtranclp.rtrancl_refl run refl] eng run show ?thesis by auto
qed

theorem engine_erase_gone_witness:
  "\<exists>m0 e0 res eng' d'. packed_engine_erase 0 demo_engine (Some (demo_manager False 1000 [])) empty_disk = (Inr (), Some m0, e0) \<and>
    packed_engine_search_one (\<lambda>_. 0) [0x40000000] 1 demo_engine (Some (m0, m0, m0)) demo_packed_disk = (Inr res, eng', d') \<and>
    0 \<notin> sr_id ` set (er_topk res)"
proof -
  let ?m = "demo_manager False 1000 []"
  obtain m0 where ers: "dm_erase 0 ?m empty_disk = (True, m0, empty_disk)"
    using demo_append[of "default_record\<lparr>dr_seq := 5, dr_node := 0, dr_deleted := True\<rparr>" "[]" empty_disk]
    by (auto simp: dm_erase_def demo_manager_simps default_record_def)
  then have eng: "packed_engine_erase 0 demo_engine (Some ?m) empty_disk = (Inr (), Some m0, empty_disk)"
    by (simp add: packed_engine_erase_def)
  have inv: "view_inv ?m" by (simp add: demo_manager_inv)
  have pub: "published (erased_record ?m 0) ?m m0" using dm_erase_cases[OF ers] by simp
  have "view_inv m0" using view_inv_published[OF inv pub] by (simp add: demo_manager_simps)
  moreover have "dm_recent_records m0 = [erased_record ?m 0]"
    using pub by (simp add: published_def demo_manager_simps)
  ultimately have ok: "engine_query_ok demo_engine [0x40000000] m0 demo_packed_disk"
    by (intro demo_engine_ok) simp_all
  obtain res eng' d' where run: "packed_engine_search_one (\<lambda>_. 0) [0x40000000] 1 demo_engine (Some (m0, m0, m0)) demo_packed_disk =
      (Inr res, eng', d')" using demo_engine_runs by blast
  from engine_erase_gone[OF inv eng ok rtranclp.rtrancl_refl rtranclp.rtrancl_refl run] eng run show ?thesis by blast
qed

end
