(* ===== verification/LsmDelta.thy ===== *)
theory LsmDelta
  imports BruteForce
begin

text \<open>
  The delta indexes of \<open>storage/lsm_tree.h\<close> and \<open>src/storage/lsm_tree.cpp\<close>: the flat index with
  an active and a sealed block, the inverted file index that is trained again as it grows, and
  \<open>merge_topk\<close>. Vectors lie one after the other in a list of values, as in the code.
\<close>

section \<open>Blocks of values\<close>

definition block :: "nat \<Rightarrow> f32 list \<Rightarrow> nat \<Rightarrow> f32 list" where
  "block dim values i = take dim (drop (i * dim) values)"

definition put_block :: "nat \<Rightarrow> nat \<Rightarrow> f32 list \<Rightarrow> f32 list \<Rightarrow> f32 list" where
  "put_block dim i row values = take (i * dim) values @ take dim row @ drop (Suc i * dim) values"

section \<open>The flat index\<close>

record delta_flat =
  df_dim :: nat
  df_active_ids :: "u32 list"
  df_active_values :: "f32 list"
  df_sealed_ids :: "u32 list"
  df_sealed_values :: "f32 list"

definition DeltaFlatIndex :: "nat \<Rightarrow> delta_flat result" where
  "DeltaFlatIndex dim =
     (if dim = 0 then Inl (Runtime_error ''DeltaFlatIndex dimension must be positive'')
      else Inr \<lparr>df_dim = dim, df_active_ids = [], df_active_values = [], df_sealed_ids = [], df_sealed_values = []\<rparr>)"

definition flat_insert :: "u32 \<Rightarrow> f32 list \<Rightarrow> delta_flat \<Rightarrow> delta_flat" where
  "flat_insert i vector idx = idx\<lparr>df_active_ids := df_active_ids idx @ [i],
     df_active_values := df_active_values idx @ take (df_dim idx) vector\<rparr>"

definition compact_active_to_sealed :: "nat \<Rightarrow> delta_flat \<Rightarrow> nat \<times> delta_flat" where
  "compact_active_to_sealed max_vectors idx =
     (let moved = min max_vectors (length (df_active_ids idx))
      in if moved = 0 then (0, idx)
         else (moved, idx\<lparr>
           df_sealed_ids := df_sealed_ids idx @ take moved (df_active_ids idx),
           df_sealed_values := df_sealed_values idx @ take (moved * df_dim idx) (df_active_values idx),
           df_active_ids := drop moved (df_active_ids idx),
           df_active_values := drop (moved * df_dim idx) (df_active_values idx)\<rparr>))"

definition block_result :: "nat \<Rightarrow> f32 list \<Rightarrow> u32 list \<Rightarrow> f32 list \<Rightarrow> nat \<Rightarrow> search_result" where
  "block_result dim query ids values i =
     \<lparr>sr_id = ids ! i, sr_distance = squared_l2 query (block dim values i) dim\<rparr>"

text \<open>The bounded heap over a block; \<open>heap\<close> holds what earlier blocks left.\<close>

definition scan_block ::
  "nat \<Rightarrow> f32 list \<Rightarrow> nat \<Rightarrow> search_result list \<Rightarrow> u32 list \<times> f32 list \<Rightarrow> search_result list" where
  "scan_block dim query k = (\<lambda>heap (ids, values).
     foldl (\<lambda>heap i. heap_step search_result_less k heap (block_result dim query ids values i)) heap [0..<length ids])"

definition sorted_heap :: "search_result list \<Rightarrow> search_result list" where
  "sorted_heap heap = std_sort search_result_less (rev heap)"

definition search_block :: "nat \<Rightarrow> u32 list \<Rightarrow> f32 list \<Rightarrow> f32 list \<Rightarrow> nat \<Rightarrow> search_result list" where
  "search_block dim ids values query k =
     (if k = 0 \<or> ids = [] then []
      else sorted_heap (scan_block dim query (min k (length ids)) [] (ids, values)))"

definition keep_best :: "(u32, f32) umap \<Rightarrow> search_result \<Rightarrow> (u32, f32) umap" where
  "keep_best best_by_id value =
     (case um_find best_by_id (sr_id value) of
        None \<Rightarrow> um_assign (sr_id value) (sr_distance value) best_by_id
      | Some found \<Rightarrow> if f32_lt (sr_distance value) found
                      then um_assign (sr_id value) (sr_distance value) best_by_id else best_by_id)"

definition merge_topk :: "search_result list \<Rightarrow> search_result list \<Rightarrow> nat \<Rightarrow> search_result list" where
  "merge_topk lhs rhs k =
     (if k = 0 then []
      else (let best_by_id = foldl keep_best (foldl keep_best um_empty lhs) rhs;
                merged = map (\<lambda>(i, distance). \<lparr>sr_id = i, sr_distance = distance\<rparr>) (um_items best_by_id)
            in take k (std_sort search_result_less merged)))"

definition flat_search_one :: "delta_flat \<Rightarrow> f32 list \<Rightarrow> nat \<Rightarrow> search_result list" where
  "flat_search_one idx query k =
     (let active = search_block (df_dim idx) (df_active_ids idx) (df_active_values idx) query k;
          sealed = search_block (df_dim idx) (df_sealed_ids idx) (df_sealed_values idx) query k
      in merge_topk active sealed k)"

section \<open>The inverted file index\<close>

record delta_ivf =
  dv_dim :: nat
  dv_centroid_count :: nat
  dv_probe_count :: nat
  dv_train_iterations :: nat
  dv_rebuild_interval :: nat
  dv_initialized_centroids :: nat
  dv_size :: nat
  dv_dirty_since_rebuild :: nat
  dv_centroids :: "f32 list"
  dv_all_ids :: "u32 list"
  dv_all_values :: "f32 list"
  dv_bucket_ids :: "u32 list list"
  dv_bucket_values :: "f32 list list"

definition DeltaIvfFlatIndex :: "nat \<Rightarrow> nat \<Rightarrow> nat \<Rightarrow> nat \<Rightarrow> nat \<Rightarrow> delta_ivf result" where
  "DeltaIvfFlatIndex dim centroid_count probe_count train_iterations rebuild_interval =
     (if dim = 0 then Inl (Runtime_error ''DeltaIvfFlatIndex dimension must be positive'')
      else if centroid_count = 0 then Inl (Runtime_error ''Delta IVF centroid count must be positive'')
      else if probe_count = 0 then Inl (Runtime_error ''Delta IVF probe count must be positive'')
      else if train_iterations = 0 then Inl (Runtime_error ''Delta IVF train iterations must be positive'')
      else if rebuild_interval = 0 then Inl (Runtime_error ''Delta IVF rebuild interval must be positive'')
      else Inr \<lparr>dv_dim = dim, dv_centroid_count = centroid_count, dv_probe_count = probe_count,
        dv_train_iterations = train_iterations, dv_rebuild_interval = rebuild_interval,
        dv_initialized_centroids = 0, dv_size = 0, dv_dirty_since_rebuild = 0,
        dv_centroids = replicate (centroid_count * dim) 0, dv_all_ids = [], dv_all_values = [],
        dv_bucket_ids = replicate centroid_count [], dv_bucket_values = replicate centroid_count []\<rparr>)"

definition stored_vector :: "delta_ivf \<Rightarrow> nat \<Rightarrow> f32 list" where
  "stored_vector idx i = block (dv_dim idx) (dv_all_values idx) i"

definition centroid_at :: "delta_ivf \<Rightarrow> nat \<Rightarrow> f32 list" where
  "centroid_at idx c = block (dv_dim idx) (dv_centroids idx) c"

definition set_centroid :: "nat \<Rightarrow> f32 list \<Rightarrow> delta_ivf \<Rightarrow> delta_ivf" where
  "set_centroid c row idx = idx\<lparr>dv_centroids := put_block (dv_dim idx) c row (dv_centroids idx)\<rparr>"

definition nearest_centroid_in_range :: "delta_ivf \<Rightarrow> f32 list \<Rightarrow> nat \<Rightarrow> nat" where
  "nearest_centroid_in_range idx vector centroid_count =
     fst (closest_index (\<lambda>c. squared_l2 vector (centroid_at idx c) (dv_dim idx)) centroid_count)"

definition ivf_nearest_centroid :: "delta_ivf \<Rightarrow> f32 list \<Rightarrow> nat" where
  "ivf_nearest_centroid idx vector =
     (if dv_initialized_centroids idx = 0 then 0
      else nearest_centroid_in_range idx vector (dv_initialized_centroids idx))"

text \<open>The scan for a farthest vector, with a strict comparison from \<open>-1.0f\<close>.\<close>

definition farthest_index :: "(nat \<Rightarrow> f32) \<Rightarrow> nat \<Rightarrow> nat" where
  "farthest_index distance_to n = fst (foldl (\<lambda>(farthest, farthest_distance) i.
     let distance = distance_to i
     in if f32_lt farthest_distance distance then (i, distance) else (farthest, farthest_distance))
     (0, f32_minus_one) [0..<n])"

definition f32_min :: "f32 \<Rightarrow> f32 \<Rightarrow> f32" where
  "f32_min a b = (if f32_lt b a then b else a)"

definition next_centroid :: "delta_ivf \<times> f32 list \<Rightarrow> nat \<Rightarrow> delta_ivf \<times> f32 list" where
  "next_centroid = (\<lambda>(idx, nearest_distances) c.
     let nearest_distances = map (\<lambda>i. f32_min (nearest_distances ! i)
           (squared_l2 (stored_vector idx i) (centroid_at idx (c - 1)) (dv_dim idx))) [0..<dv_size idx];
         farthest = farthest_index (\<lambda>i. nearest_distances ! i) (dv_size idx)
     in (set_centroid c (stored_vector idx farthest) idx, nearest_distances))"

definition initialize_centroids :: "nat \<Rightarrow> delta_ivf \<Rightarrow> delta_ivf" where
  "initialize_centroids effective_centroids idx =
     (if effective_centroids = 0 then idx
      else fst (foldl next_centroid
        (set_centroid 0 (stored_vector idx 0) idx, replicate (dv_size idx) f32_max) [1..<effective_centroids]))"

text \<open>One pass over the vectors: their centroids, and the sums and counts of each centroid.\<close>

definition assign_vector ::
  "delta_ivf \<Rightarrow> nat list \<times> f32 list \<times> nat list \<Rightarrow> nat \<Rightarrow> nat list \<times> f32 list \<times> nat list" where
  "assign_vector idx = (\<lambda>(assignments, sums, counts) i.
     let bucket = nearest_centroid_in_range idx (stored_vector idx i) (dv_initialized_centroids idx);
         vector = stored_vector idx i
     in (assignments[i := bucket],
         foldl (\<lambda>sums d. sums[bucket * dv_dim idx + d := f32_add (sums ! (bucket * dv_dim idx + d)) (vector ! d)])
           sums [0..<dv_dim idx],
         counts[bucket := counts ! bucket + 1]))"

definition ivf_update_centroid :: "nat list \<Rightarrow> f32 list \<Rightarrow> nat list \<Rightarrow> delta_ivf \<Rightarrow> nat \<Rightarrow> delta_ivf" where
  "ivf_update_centroid assignments sums counts idx c =
     (if counts ! c = 0
      then set_centroid c (stored_vector idx (farthest_index
        (\<lambda>i. squared_l2 (stored_vector idx i) (centroid_at idx (assignments ! i)) (dv_dim idx)) (dv_size idx))) idx
      else (let scale = f32_div f32_one (f32_of_nat (counts ! c))
            in set_centroid c (map (\<lambda>d. f32_mul (sums ! (c * dv_dim idx + d)) scale) [0..<dv_dim idx]) idx))"

definition ivf_train_step :: "delta_ivf \<times> nat list \<Rightarrow> delta_ivf \<times> nat list" where
  "ivf_train_step = (\<lambda>(idx, assignments).
     let (assignments, sums, counts) = foldl (assign_vector idx)
           (assignments, replicate (dv_initialized_centroids idx * dv_dim idx) 0,
            replicate (dv_initialized_centroids idx) 0) [0..<dv_size idx]
     in (foldl (ivf_update_centroid assignments sums counts) idx [0..<dv_initialized_centroids idx], assignments))"

definition add_to_bucket :: "nat \<Rightarrow> u32 \<Rightarrow> f32 list \<Rightarrow> delta_ivf \<Rightarrow> delta_ivf" where
  "add_to_bucket bucket i vector idx = idx\<lparr>
     dv_bucket_ids := (dv_bucket_ids idx)[bucket := dv_bucket_ids idx ! bucket @ [i]],
     dv_bucket_values := (dv_bucket_values idx)[bucket := dv_bucket_values idx ! bucket @ take (dv_dim idx) vector]\<rparr>"

definition fill_bucket :: "delta_ivf \<Rightarrow> nat \<Rightarrow> delta_ivf" where
  "fill_bucket idx i =
     add_to_bucket (nearest_centroid_in_range idx (stored_vector idx i) (dv_initialized_centroids idx))
       (dv_all_ids idx ! i) (stored_vector idx i) idx"

definition rebuild :: "delta_ivf \<Rightarrow> delta_ivf" where
  "rebuild idx =
     (if dv_size idx = 0 then idx
      else (let idx = idx\<lparr>dv_initialized_centroids := min (dv_centroid_count idx) (dv_size idx)\<rparr>;
                idx = initialize_centroids (dv_initialized_centroids idx) idx;
                (idx, _) = (ivf_train_step ^^ dv_train_iterations idx) (idx, replicate (dv_size idx) 0);
                idx = idx\<lparr>dv_bucket_ids := map (\<lambda>_. []) (dv_bucket_ids idx),
                          dv_bucket_values := map (\<lambda>_. []) (dv_bucket_values idx)\<rparr>;
                idx = foldl fill_bucket idx [0..<dv_size idx]
            in idx\<lparr>dv_dirty_since_rebuild := 0\<rparr>))"

definition ivf_insert :: "u32 \<Rightarrow> f32 list \<Rightarrow> delta_ivf \<Rightarrow> delta_ivf" where
  "ivf_insert i vector idx =
     (let idx = idx\<lparr>dv_all_ids := dv_all_ids idx @ [i],
            dv_all_values := dv_all_values idx @ take (dv_dim idx) vector,
            dv_size := dv_size idx + 1, dv_dirty_since_rebuild := dv_dirty_since_rebuild idx + 1\<rparr>
      in if dv_size idx \<le> dv_centroid_count idx \<or> dv_rebuild_interval idx \<le> dv_dirty_since_rebuild idx
         then rebuild idx
         else add_to_bucket (ivf_nearest_centroid idx vector) i vector idx)"

definition closest_centroids :: "delta_ivf \<Rightarrow> f32 list \<Rightarrow> nat list" where
  "closest_centroids idx query =
     (let scored = std_sort search_result_less (map (\<lambda>c. \<lparr>sr_id = word_of_nat c,
            sr_distance = squared_l2 query (centroid_at idx c) (dv_dim idx)\<rparr>) [0..<dv_initialized_centroids idx]);
          probes = min (dv_probe_count idx) (min (dv_initialized_centroids idx) (length scored))
      in map (\<lambda>r. unat (sr_id r)) (take probes scored))"

definition ivf_search_one :: "delta_ivf \<Rightarrow> f32 list \<Rightarrow> nat \<Rightarrow> search_result list" where
  "ivf_search_one idx query k =
     (if k = 0 \<or> dv_size idx = 0 \<or> dv_initialized_centroids idx = 0 then []
      else sorted_heap (foldl (scan_block (dv_dim idx) query k) []
        (map (\<lambda>bucket. (dv_bucket_ids idx ! bucket, dv_bucket_values idx ! bucket)) (closest_centroids idx query))))"

section \<open>Entries\<close>

text \<open>What a block holds, as a list of identifiers with their vectors.\<close>

type_synonym entry = "u32 \<times> f32 list"

definition entry_result :: "nat \<Rightarrow> f32 list \<Rightarrow> entry \<Rightarrow> search_result" where
  "entry_result dim query = (\<lambda>(i, v). \<lparr>sr_id = i, sr_distance = squared_l2 query v dim\<rparr>)"

definition rows_ok :: "nat \<Rightarrow> entry list \<Rightarrow> bool" where
  "rows_ok dim es \<longleftrightarrow> (\<forall>(i, v)\<in>set es. length v = dim)"

definition finite_entries :: "nat \<Rightarrow> entry list \<Rightarrow> bool" where
  "finite_entries dim es \<longleftrightarrow> (\<forall>(i, v)\<in>set es. length v = dim \<and> finite_vector dim v)"

lemma finite_rows: "finite_entries dim es \<Longrightarrow> rows_ok dim es"
  by (auto simp: finite_entries_def rows_ok_def)

lemma rows_ok_simps [simp]:
  "rows_ok dim []" "rows_ok dim (e # es) \<longleftrightarrow> length (snd e) = dim \<and> rows_ok dim es"
  "rows_ok dim (es @ es') \<longleftrightarrow> rows_ok dim es \<and> rows_ok dim es'"
  by (auto simp: rows_ok_def split: prod.splits)

lemma length_values: "rows_ok dim es \<Longrightarrow> length (concat (map snd es)) = length es * dim"
  by (induction es) auto

lemma take_values: "rows_ok dim es \<Longrightarrow> take (n * dim) (concat (map snd es)) = concat (map snd (take n es))"
proof (induction es arbitrary: n)
  case (Cons e es)
  then show ?case by (cases n) auto
qed simp

lemma drop_values: "rows_ok dim es \<Longrightarrow> drop (n * dim) (concat (map snd es)) = concat (map snd (drop n es))"
proof (induction es arbitrary: n)
  case (Cons e es)
  then show ?case by (cases n) auto
qed simp

lemma block_values:
  assumes "rows_ok dim es" and "i < length es"
  shows "block dim (concat (map snd es)) i = snd (es ! i)"
proof -
  have "drop i es = es ! i # drop (Suc i) es" using assms(2) by (simp add: Cons_nth_drop_Suc)
  moreover have "length (snd (es ! i)) = dim" using assms nth_mem by (fastforce simp: rows_ok_def)
  ultimately show ?thesis using drop_values[OF assms(1), of i] by (simp add: block_def)
qed

lemma entry_result_id [simp]: "sr_id (entry_result dim query e) = fst e"
  by (simp add: entry_result_def split: prod.splits)

lemma entry_results_ids [simp]: "map sr_id (map (entry_result dim query) es) = map fst es"
  by simp

lemma entry_results_valid:
  assumes "finite_entries dim es" and "finite_vector dim q"
  shows "\<forall>r\<in>set (map (entry_result dim q) es). sr_valid r"
  using assms squared_l2_valid by (fastforce simp: finite_entries_def entry_result_def sr_valid_def)

lemma scan_entries:
  assumes "rows_ok dim es"
  shows "scan_block dim q k heap (map fst es, concat (map snd es)) =
    foldl (heap_step search_result_less k) heap (map (entry_result dim q) es)"
proof -
  have "block_result dim q (map fst es) (concat (map snd es)) i = map (entry_result dim q) es ! i" if "i < length es" for i
    using that block_values[OF assms that] by (simp add: block_result_def entry_result_def split: prod.splits)
  then have "map (block_result dim q (map fst es) (concat (map snd es))) [0..<length es] = map (entry_result dim q) es"
    by (intro nth_equalityI) simp_all
  moreover have "scan_block dim q k heap (map fst es, concat (map snd es)) =
      foldl (heap_step search_result_less k) heap (map (block_result dim q (map fst es) (concat (map snd es))) [0..<length es])"
    by (simp add: scan_block_def foldl_map)
  ultimately show ?thesis by simp
qed

lemma search_block_exact:
  assumes es: "finite_entries dim es" "distinct (map fst es)" and q: "finite_vector dim q"
  shows "search_block dim (map fst es) (concat (map snd es)) q k =
    take k (sort_key sr_key (map (entry_result dim q) es))"
proof (cases "k = 0 \<or> es = []")
  case False
  let ?R = "map (entry_result dim q) es"
  have "inj_on sr_key (set ?R)" using es(2) by (intro sr_key_inj) (simp add: comp_def)
  from sro.heap_result[OF entry_results_valid[OF es(1) q] _ this, of "min k (length es)"] False
  have "search_block dim (map fst es) (concat (map snd es)) q k = take (min k (length es)) (sort_key sr_key ?R)"
    by (simp add: search_block_def sorted_heap_def scan_entries[OF finite_rows[OF es(1)]])
  also have "\<dots> = take k (sort_key sr_key ?R)" by (simp add: min_def)
  finally show ?thesis .
qed (auto simp: search_block_def)

section \<open>Merging\<close>

lemma keep_best_fresh:
  assumes "distinct (map sr_id xs)" and "um_ok m" and "\<forall>x\<in>set xs. um_find m (sr_id x) = None"
  shows "um_ok (foldl keep_best m xs) \<and> um_find (foldl keep_best m xs) i =
    (case find (\<lambda>x. sr_id x = i) xs of None \<Rightarrow> um_find m i | Some x \<Rightarrow> Some (sr_distance x))"
  using assms
proof (induction xs arbitrary: m)
  case (Cons x xs)
  let ?m = "um_assign (sr_id x) (sr_distance x) m"
  have step: "keep_best m x = ?m" using Cons.prems(3) by (simp add: keep_best_def)
  have "\<forall>y\<in>set xs. um_find ?m (sr_id y) = None" using Cons.prems by (auto simp: image_iff)
  from Cons.IH[OF _ _ this] Cons.prems
  have IH: "um_ok (foldl keep_best ?m xs) \<and> um_find (foldl keep_best ?m xs) i =
    (case find (\<lambda>x. sr_id x = i) xs of None \<Rightarrow> um_find ?m i | Some x \<Rightarrow> Some (sr_distance x))" by simp
  have "find (\<lambda>y. sr_id y = sr_id x) xs = None" using Cons.prems(1) by (auto simp: find_None_iff image_iff)
  then show ?case using IH Cons.prems(2) by (auto simp: step split: option.splits)
qed simp

lemma find_distinct: "distinct (map f xs) \<Longrightarrow> find (\<lambda>x. f x = i) xs = Some x \<longleftrightarrow> x \<in> set xs \<and> f x = i"
  by (induction xs) (auto simp: image_iff)

lemma keep_best_items:
  assumes "distinct (map sr_id zs)"
  shows "mset (map (\<lambda>(i, distance). \<lparr>sr_id = i, sr_distance = distance\<rparr>) (um_items (foldl keep_best um_empty zs))) = mset zs"
proof -
  let ?m = "foldl keep_best um_empty zs" and ?res = "\<lambda>(i, distance). \<lparr>sr_id = i, sr_distance = distance\<rparr>"
  have m: "um_ok ?m" "um_find ?m i = (case find (\<lambda>x. sr_id x = i) zs of None \<Rightarrow> None | Some x \<Rightarrow> Some (sr_distance x))" for i
    using keep_best_fresh[OF assms um.ok_empty, of i] by (simp_all split: option.splits)
  have "(i, d) \<in> set (um_items ?m) \<longleftrightarrow> (\<exists>x. find (\<lambda>x. sr_id x = i) zs = Some x \<and> sr_distance x = d)" for i d
    by (simp add: um.items_lkp[OF m(1)] m(2) split: option.splits)
  also have "(\<exists>x. find (\<lambda>x. sr_id x = i) zs = Some x \<and> sr_distance x = d) \<longleftrightarrow> \<lparr>sr_id = i, sr_distance = d\<rparr> \<in> set zs" for i d
    unfolding find_distinct[OF assms] by (metis search_result.surjective search_result.simps(1,2) old.unit.exhaust)
  finally have mem: "(i, d) \<in> set (um_items ?m) \<longleftrightarrow> \<lparr>sr_id = i, sr_distance = d\<rparr> \<in> set zs" for i d .
  have "r \<in> set (map ?res (um_items ?m)) \<longleftrightarrow> r \<in> set zs" for r
  proof -
    have "r = ?res (sr_id r, sr_distance r)" by simp
    moreover have "r \<in> set zs \<longleftrightarrow> (sr_id r, sr_distance r) \<in> set (um_items ?m)" using mem[of "sr_id r" "sr_distance r"] by (cases r) simp
    ultimately have "r \<in> set zs \<Longrightarrow> r \<in> ?res ` set (um_items ?m)" by (metis imageI)
    moreover have "r \<in> ?res ` set (um_items ?m) \<Longrightarrow> r \<in> set zs" using mem by auto
    ultimately show ?thesis unfolding set_map by blast
  qed
  then have "set (map ?res (um_items ?m)) = set zs" by blast
  moreover have "map sr_id (map ?res (um_items ?m)) = map fst (um_items ?m)" by auto
  then have "distinct (map ?res (um_items ?m))" using um.items_distinct[OF m(1)] by (metis distinct_map)
  moreover have "distinct zs" using assms by (simp add: distinct_map)
  ultimately show ?thesis by (simp only: set_eq_iff_mset_eq_distinct)
qed

lemma merge_topk_exact:
  assumes "distinct (map sr_id (xs @ ys))" and "\<forall>x\<in>set (xs @ ys). sr_valid x"
  shows "merge_topk xs ys k = take k (sort_key sr_key (xs @ ys))"
proof (cases "k = 0")
  case False
  let ?all = "map (\<lambda>(i, distance). \<lparr>sr_id = i, sr_distance = distance\<rparr>)
    (um_items (foldl keep_best (foldl keep_best um_empty xs) ys))"
  have ms: "mset ?all = mset (xs @ ys)" using keep_best_items[OF assms(1)] by (simp only: foldl_append)
  have "std_sort search_result_less ?all = std_sort search_result_less (xs @ ys)"
    using sr_key_inj[OF assms(1)] assms(2) unfolding mset_eq_setD[OF ms, symmetric] by (intro sro.std_sort_cong ms)
  also have "\<dots> = sort_key sr_key (xs @ ys)" by (rule sro.std_sort_eq[OF assms(2)])
  finally show ?thesis using False by (simp add: merge_topk_def Let_def)
qed (simp add: merge_topk_def)

section \<open>The flat index is exact\<close>

datatype flat_op = Flat_insert u32 "f32 list" | Flat_compact nat

fun flat_step :: "delta_flat \<Rightarrow> flat_op \<Rightarrow> delta_flat" where
  "flat_step idx (Flat_insert i v) = flat_insert i v idx"
| "flat_step idx (Flat_compact n) = snd (compact_active_to_sealed n idx)"

fun flat_inserted :: "flat_op list \<Rightarrow> entry list" where
  "flat_inserted [] = []"
| "flat_inserted (Flat_insert i v # ops) = (i, v) # flat_inserted ops"
| "flat_inserted (Flat_compact n # ops) = flat_inserted ops"

lemma flat_inserted_append [simp]: "flat_inserted (xs @ ys) = flat_inserted xs @ flat_inserted ys"
  by (induction xs rule: flat_inserted.induct) simp_all

text \<open>The sealed block holds the entries inserted first, the active block the rest.\<close>

definition flat_holds :: "delta_flat \<Rightarrow> entry list \<Rightarrow> entry list \<Rightarrow> bool" where
  "flat_holds idx sealed active \<longleftrightarrow>
     df_sealed_ids idx = map fst sealed \<and> df_sealed_values idx = concat (map snd sealed) \<and>
     df_active_ids idx = map fst active \<and> df_active_values idx = concat (map snd active)"

lemma compact_holds:
  assumes "flat_holds idx sealed active" and "rows_ok (df_dim idx) active"
  shows "\<exists>n. flat_holds (snd (compact_active_to_sealed m idx)) (sealed @ take n active) (drop n active)"
  using assms
  by (intro exI[of _ "min m (length active)"])
    (auto simp: flat_holds_def compact_active_to_sealed_def take_values drop_values take_map drop_map Let_def)

lemma flat_run:
  assumes "DeltaFlatIndex dim = Inr idx" and "rows_ok dim (flat_inserted ops)"
  shows "\<exists>sealed active. flat_inserted ops = sealed @ active \<and> flat_holds (foldl flat_step idx ops) sealed active \<and>
    df_dim (foldl flat_step idx ops) = dim"
  using assms(2)
proof (induction ops rule: rev_induct)
  case Nil
  then show ?case using assms(1) by (auto simp: DeltaFlatIndex_def flat_holds_def split: if_splits)
next
  case (snoc op ops)
  let ?idx = "foldl flat_step idx ops"
  obtain sealed active where h: "flat_inserted ops = sealed @ active" "flat_holds ?idx sealed active" "df_dim ?idx = dim"
    using snoc by auto
  show ?case
  proof (cases op)
    case (Flat_insert i v)
    then have "flat_holds (flat_step ?idx op) sealed (active @ [(i, v)])"
      using h snoc.prems by (simp add: flat_holds_def flat_insert_def)
    then show ?thesis using Flat_insert h by (intro exI[of _ sealed] exI[of _ "active @ [(i, v)]"]) (simp add: flat_insert_def)
  next
    case (Flat_compact m)
    have "rows_ok (df_dim ?idx) active" using h snoc.prems Flat_compact by simp
    from compact_holds[OF h(2) this, of m] obtain n where
      n: "flat_holds (snd (compact_active_to_sealed m ?idx)) (sealed @ take n active) (drop n active)" by blast
    have "df_dim (snd (compact_active_to_sealed m ?idx)) = dim" using h(3) by (simp add: compact_active_to_sealed_def Let_def)
    then show ?thesis using n h Flat_compact by (intro exI[of _ "sealed @ take n active"] exI[of _ "drop n active"]) simp
  qed
qed

text \<open>Cutting two parts and merging them is cutting the whole.\<close>

lemma take_sort_parts:
  fixes key :: "'a \<Rightarrow> 'b::linorder"
  assumes "distinct (xs @ ys)" and "inj_on key (set (xs @ ys))"
  shows "take k (sort_key key (take k (sort_key key xs) @ take k (sort_key key ys))) = take k (sort_key key (xs @ ys))"
proof -
  let ?X = "take k (sort_key key xs)" and ?Y = "take k (sort_key key ys)"
  have sub: "set ?X \<subseteq> set xs" "set ?Y \<subseteq> set ys" using set_take_subset set_sort by metis+
  have behind: "k \<le> length (filter (\<lambda>x. key x < key c) (take k (sort_key key zs)))"
    if c: "c \<in> set zs" "c \<notin> set (take k (sort_key key zs))" and zs: "set zs \<subseteq> set (xs @ ys)" for c zs
  proof -
    have "key x < key c" if x: "x \<in> set (take k (sort_key key zs))" for x
    proof -
      have "x \<in> set zs" using x set_take_subset[of k "sort_key key zs"] by auto
      then have "key x \<noteq> key c" using assms(2) zs c x by (metis inj_on_eq_iff subset_iff)
      then show ?thesis using take_sort_cut(2)[OF c x] by simp
    qed
    then have "filter (\<lambda>x. key x < key c) (take k (sort_key key zs)) = take k (sort_key key zs)" by (simp add: filter_id_conv)
    then show ?thesis using take_sort_cut(1)[OF c] by simp
  qed
  have "\<forall>c\<in>set (xs @ ys) - set (?X @ ?Y). k \<le> length (filter (\<lambda>x. key x < key c) (?X @ ?Y))"
  proof
    fix c
    assume c: "c \<in> set (xs @ ys) - set (?X @ ?Y)"
    show "k \<le> length (filter (\<lambda>x. key x < key c) (?X @ ?Y))"
  proof (cases "c \<in> set xs")
    case True
    then show ?thesis using behind[of c xs] c by simp
  next
    case False
    then show ?thesis using behind[of c ys] c by simp
  qed
  qed
  moreover have "distinct (?X @ ?Y)" "set (?X @ ?Y) \<subseteq> set (xs @ ys)" using sub assms(1) by auto
  ultimately have "take k (sort_key key (xs @ ys)) = take k (sort_key key (?X @ ?Y))"
    by (intro take_sort_subset[OF assms])
  then show ?thesis by simp
qed

text \<open>
  The flat delta index is exact. After any inserts of different identifiers, with compactions
  from the active into the sealed block at any time, a search returns exactly the first \<open>k\<close> of all
  inserted vectors by distance, then identifier.
\<close>

theorem flat_search_exact:
  assumes "DeltaFlatIndex dim = Inr idx" and "finite_entries dim (flat_inserted ops)"
    and "distinct (map fst (flat_inserted ops))" and "finite_vector dim q"
  shows "flat_search_one (foldl flat_step idx ops) q k =
    take k (sort_key sr_key (map (entry_result dim q) (flat_inserted ops)))"
proof -
  obtain sealed active where h: "flat_inserted ops = sealed @ active" "flat_holds (foldl flat_step idx ops) sealed active"
      "df_dim (foldl flat_step idx ops) = dim"
    using flat_run[OF assms(1) finite_rows[OF assms(2)]] by blast
  let ?S = "map (entry_result dim q) sealed" and ?A = "map (entry_result dim q) active"
  have fin: "finite_entries dim sealed" "finite_entries dim active" and dist: "distinct (map fst sealed)" "distinct (map fst active)"
    using assms(2,3) by (auto simp: h(1) finite_entries_def)
  have ids: "distinct (map sr_id (?A @ ?S))" using assms(3) by (auto simp: h(1) comp_def)
  have valid: "\<forall>r\<in>set (?A @ ?S). sr_valid r" using entry_results_valid[OF fin(1) assms(4)] entry_results_valid[OF fin(2) assms(4)] by auto
  let ?a = "take k (sort_key sr_key ?A)" and ?s = "take k (sort_key sr_key ?S)"
  have sub: "set (?a @ ?s) \<subseteq> set (?A @ ?S)"
    using set_take_subset[of k "sort_key sr_key ?A"] set_take_subset[of k "sort_key sr_key ?S"] by auto
  have cut: "distinct (map sr_id (take k (sort_key sr_key R))) \<and> sr_id ` set (take k (sort_key sr_key R)) \<subseteq> sr_id ` set R"
    if "distinct (map sr_id R)" for R
    using that set_take_subset[of k "sort_key sr_key R"] by (auto simp: take_map[symmetric] distinct_map)
  have "distinct (map sr_id ?A)" "distinct (map sr_id ?S)" "sr_id ` set ?A \<inter> sr_id ` set ?S = {}"
    using ids by (simp_all add: image_image)
  then have ids': "distinct (map sr_id (?a @ ?s))"
    using cut[of ?A] cut[of ?S] unfolding map_append distinct_append set_map[of sr_id] by blast
  have "flat_search_one (foldl flat_step idx ops) q k = merge_topk ?a ?s k"
    using h(2,3) search_block_exact[OF fin(1) dist(1) assms(4)] search_block_exact[OF fin(2) dist(2) assms(4)]
    by (simp add: flat_search_one_def flat_holds_def Let_def)
  also have "\<dots> = take k (sort_key sr_key (?a @ ?s))" using valid sub by (intro merge_topk_exact[OF ids']) blast
  also have "\<dots> = take k (sort_key sr_key (?A @ ?S))"
    using ids sr_key_inj[OF ids] by (intro take_sort_parts) (simp_all only: distinct_map)
  also have "sort_key sr_key (?A @ ?S) = sort_key sr_key (?S @ ?A)"
    using sr_key_inj[OF ids] by (intro sort_key_mset) simp_all
  finally show ?thesis by (simp add: h(1))
qed

section \<open>The inverted file index\<close>

text \<open>Training moves centroids and nothing else.\<close>

definition moved_centroids :: "delta_ivf \<Rightarrow> delta_ivf \<Rightarrow> bool" where
  "moved_centroids idx idx' \<longleftrightarrow> idx' = idx\<lparr>dv_centroids := dv_centroids idx'\<rparr>"

lemma moved_refl [simp]: "moved_centroids idx idx"
  by (simp add: moved_centroids_def)

lemma moved_trans: "moved_centroids a b \<Longrightarrow> moved_centroids b c \<Longrightarrow> moved_centroids a c"
  by (cases a, cases b, cases c) (simp add: moved_centroids_def)

lemma moved_set [simp]: "moved_centroids idx (set_centroid c row idx)"
  by (cases idx) (simp add: moved_centroids_def set_centroid_def)

lemma moved_foldl: "(\<And>s x. moved_centroids s (step s x)) \<Longrightarrow> moved_centroids s (foldl step s xs)"
  by (induction xs arbitrary: s) (auto intro: moved_trans)

lemma moved_initialize: "moved_centroids idx (initialize_centroids n idx)"
proof -
  have "moved_centroids a (fst (foldl next_centroid (a, ds) cs))" for a ds cs
    by (induction cs arbitrary: a ds) (auto simp: next_centroid_def Let_def intro: moved_trans[OF moved_set])
  then show ?thesis by (auto simp: initialize_centroids_def intro: moved_trans[OF moved_set])
qed

lemma moved_train: "moved_centroids idx (fst ((ivf_train_step ^^ n) (idx, assignments)))"
proof -
  have step: "moved_centroids (fst s) (fst (ivf_train_step s))" for s
    by (auto simp: ivf_train_step_def ivf_update_centroid_def Let_def split: prod.split intro!: moved_foldl)
  show ?thesis
  proof (induction n)
    case (Suc n)
    then show ?case using step moved_trans by auto
  qed simp
qed

lemma moved_simps:
  assumes "moved_centroids idx idx'"
  shows "dv_dim idx' = dv_dim idx" "dv_centroid_count idx' = dv_centroid_count idx" "dv_size idx' = dv_size idx"
    "dv_probe_count idx' = dv_probe_count idx" "dv_initialized_centroids idx' = dv_initialized_centroids idx"
    "dv_all_ids idx' = dv_all_ids idx" "dv_all_values idx' = dv_all_values idx"
    "dv_bucket_ids idx' = dv_bucket_ids idx" "dv_bucket_values idx' = dv_bucket_values idx"
  by (subst assms[unfolded moved_centroids_def], simp)+

text \<open>Every bucket holds the entries whose nearest centroid is its own, in the order they came.\<close>

definition bucket_entries :: "delta_ivf \<Rightarrow> nat \<Rightarrow> entry list \<Rightarrow> entry list" where
  "bucket_entries idx b es = filter (\<lambda>e. ivf_nearest_centroid idx (snd e) = b) es"

definition buckets_hold :: "delta_ivf \<Rightarrow> entry list \<Rightarrow> bool" where
  "buckets_hold idx es \<longleftrightarrow>
     length (dv_bucket_ids idx) = dv_centroid_count idx \<and> length (dv_bucket_values idx) = dv_centroid_count idx \<and>
     (\<forall>b<dv_centroid_count idx. dv_bucket_ids idx ! b = map fst (bucket_entries idx b es) \<and>
        dv_bucket_values idx ! b = concat (map snd (bucket_entries idx b es)))"

definition ivf_holds :: "delta_ivf \<Rightarrow> entry list \<Rightarrow> bool" where
  "ivf_holds idx es \<longleftrightarrow> dv_all_ids idx = map fst es \<and> dv_all_values idx = concat (map snd es) \<and>
     dv_size idx = length es \<and> 0 < dv_centroid_count idx \<and>
     dv_initialized_centroids idx = min (dv_centroid_count idx) (dv_size idx) \<and> buckets_hold idx es"

lemma nearest_less:
  assumes "0 < dv_initialized_centroids idx"
  shows "ivf_nearest_centroid idx v < dv_initialized_centroids idx"
  using assms closest_index_less by (simp add: ivf_nearest_centroid_def nearest_centroid_in_range_def)

lemma nearest_cong:
  "dv_dim idx' = dv_dim idx \<Longrightarrow> dv_centroids idx' = dv_centroids idx \<Longrightarrow>
   dv_initialized_centroids idx' = dv_initialized_centroids idx \<Longrightarrow>
   ivf_nearest_centroid idx' v = ivf_nearest_centroid idx v"
  by (simp add: ivf_nearest_centroid_def nearest_centroid_in_range_def centroid_at_def)

lemma add_to_bucket_simps [simp]:
  "dv_dim (add_to_bucket b i v idx) = dv_dim idx" "dv_centroid_count (add_to_bucket b i v idx) = dv_centroid_count idx"
  "dv_size (add_to_bucket b i v idx) = dv_size idx" "dv_all_ids (add_to_bucket b i v idx) = dv_all_ids idx"
  "dv_all_values (add_to_bucket b i v idx) = dv_all_values idx" "dv_centroids (add_to_bucket b i v idx) = dv_centroids idx"
  "dv_initialized_centroids (add_to_bucket b i v idx) = dv_initialized_centroids idx"
  "dv_probe_count (add_to_bucket b i v idx) = dv_probe_count idx"
  by (simp_all add: add_to_bucket_def)

lemma add_to_bucket_holds:
  assumes "buckets_hold idx es" and "length v = dv_dim idx" and "ivf_nearest_centroid idx v < dv_centroid_count idx"
  shows "buckets_hold (add_to_bucket (ivf_nearest_centroid idx v) i v idx) (es @ [(i, v)])"
proof -
  let ?b = "ivf_nearest_centroid idx v"
  have "bucket_entries (add_to_bucket ?b i v idx) c (es @ [(i, v)]) =
      bucket_entries idx c es @ (if c = ?b then [(i, v)] else [])" for c
    by (auto simp: bucket_entries_def nearest_cong[of "add_to_bucket ?b i v idx" idx])
  then show ?thesis using assms by (auto simp: buckets_hold_def add_to_bucket_def)
qed

lemma fill_buckets:
  assumes "buckets_hold idx []" and "rows_ok (dv_dim idx) es" and "0 < dv_initialized_centroids idx"
    and "dv_initialized_centroids idx \<le> dv_centroid_count idx"
    and "dv_all_ids idx = map fst es" and "dv_all_values idx = concat (map snd es)" and "n \<le> length es"
  shows "buckets_hold (foldl fill_bucket idx [0..<n]) (take n es) \<and>
    foldl fill_bucket idx [0..<n] = idx\<lparr>dv_bucket_ids := dv_bucket_ids (foldl fill_bucket idx [0..<n]),
      dv_bucket_values := dv_bucket_values (foldl fill_bucket idx [0..<n])\<rparr>"
  using assms(7)
proof (induction n)
  case 0
  then show ?case using assms(1) by simp
next
  case (Suc n)
  let ?f = "foldl fill_bucket idx [0..<n]"
  have IH: "buckets_hold ?f (take n es)" and fr: "?f = idx\<lparr>dv_bucket_ids := dv_bucket_ids ?f, dv_bucket_values := dv_bucket_values ?f\<rparr>"
    using Suc by auto
  have f: "dv_dim ?f = dv_dim idx" "dv_all_ids ?f = map fst es" "dv_all_values ?f = concat (map snd es)"
      "dv_initialized_centroids ?f = dv_initialized_centroids idx" "dv_centroid_count ?f = dv_centroid_count idx"
    using assms(5,6) by (subst fr, simp)+
  obtain i v where e: "es ! n = (i, v)" by (cases "es ! n")
  have v: "length v = dv_dim idx" "stored_vector ?f n = v"
    using assms(2) Suc.prems e block_values[OF assms(2), of n] nth_mem[of n es]
    by (auto simp: rows_ok_def stored_vector_def f)
  have "ivf_nearest_centroid ?f v < dv_centroid_count ?f"
    using nearest_less[of ?f v] assms(3,4) by (simp add: f)
  from add_to_bucket_holds[OF IH _ this, of i] v(1)
  have "buckets_hold (add_to_bucket (ivf_nearest_centroid ?f v) i v ?f) (take n es @ [(i, v)])" by (simp add: f)
  moreover have "fill_bucket ?f n = add_to_bucket (ivf_nearest_centroid ?f v) i v ?f"
    using assms(3) Suc.prems e by (simp add: fill_bucket_def ivf_nearest_centroid_def v(2) f)
  moreover have "take (Suc n) es = take n es @ [(i, v)]" using Suc.prems e by (simp add: take_Suc_conv_app_nth)
  moreover have "add_to_bucket b i v ?f = idx\<lparr>dv_bucket_ids := dv_bucket_ids (add_to_bucket b i v ?f),
      dv_bucket_values := dv_bucket_values (add_to_bucket b i v ?f)\<rparr>" for b
    by (subst fr) (simp add: add_to_bucket_def f(1))
  ultimately show ?case by simp
qed

lemma rebuild_holds:
  assumes "rows_ok (dv_dim idx) es" and "dv_all_ids idx = map fst es" and "dv_all_values idx = concat (map snd es)"
    and "dv_size idx = length es" and "es \<noteq> []" and "0 < dv_centroid_count idx"
    and "length (dv_bucket_ids idx) = dv_centroid_count idx" and "length (dv_bucket_values idx) = dv_centroid_count idx"
  shows "ivf_holds (rebuild idx) es \<and> dv_dim (rebuild idx) = dv_dim idx \<and>
    dv_centroid_count (rebuild idx) = dv_centroid_count idx \<and> dv_probe_count (rebuild idx) = dv_probe_count idx"
proof -
  let ?n = "min (dv_centroid_count idx) (length es)"
  let ?a = "idx\<lparr>dv_initialized_centroids := ?n\<rparr>"
  let ?b = "initialize_centroids ?n ?a"
  define c where "c = fst ((ivf_train_step ^^ dv_train_iterations ?b) (?b, replicate (dv_size ?b) 0))"
  have ac: "moved_centroids ?a c" unfolding c_def by (rule moved_trans[OF moved_initialize moved_train])
  note m = moved_simps[OF ac]
  let ?d = "c\<lparr>dv_bucket_ids := map (\<lambda>_. []) (dv_bucket_ids c), dv_bucket_values := map (\<lambda>_. []) (dv_bucket_values c)\<rparr>"
  have empty: "buckets_hold ?d []" using assms(7,8) by (simp add: buckets_hold_def bucket_entries_def m)
  have pos: "0 < ?n" using assms(5,6) by simp
  note fill = fill_buckets[OF empty, of es "length es", simplified, unfolded m]
  have hold: "buckets_hold (foldl fill_bucket ?d [0..<length es]) es"
    and frame: "foldl fill_bucket ?d [0..<length es] = ?d\<lparr>dv_bucket_ids := dv_bucket_ids (foldl fill_bucket ?d [0..<length es]),
      dv_bucket_values := dv_bucket_values (foldl fill_bucket ?d [0..<length es])\<rparr>"
    using fill_buckets[OF empty, of es "length es"] assms(1-3) pos by (simp_all add: m)
  let ?e = "foldl fill_bucket ?d [0..<length es]"
  have e: "dv_dim ?e = dv_dim idx" "dv_centroid_count ?e = dv_centroid_count idx" "dv_probe_count ?e = dv_probe_count idx"
      "dv_all_ids ?e = map fst es" "dv_all_values ?e = concat (map snd es)" "dv_size ?e = length es"
      "dv_initialized_centroids ?e = ?n"
    using assms(2-4) by (subst frame, simp add: m)+
  have r: "rebuild idx = ?e\<lparr>dv_dirty_since_rebuild := 0\<rparr>"
    using assms(4,5) m(3) moved_simps(3)[OF moved_initialize, of ?n ?a]
    by (simp add: rebuild_def Let_def c_def case_prod_unfold)
  have "buckets_hold (?e\<lparr>dv_dirty_since_rebuild := 0\<rparr>) es"
    using hold nearest_cong[of "?e\<lparr>dv_dirty_since_rebuild := 0\<rparr>" ?e] by (simp add: buckets_hold_def bucket_entries_def)
  then show ?thesis using e assms(6) by (simp add: r ivf_holds_def)
qed

lemma ivf_insert_holds:
  assumes "ivf_holds idx es" and "rows_ok (dv_dim idx) es" and "length v = dv_dim idx"
  shows "ivf_holds (ivf_insert i v idx) (es @ [(i, v)]) \<and> dv_dim (ivf_insert i v idx) = dv_dim idx \<and>
    dv_centroid_count (ivf_insert i v idx) = dv_centroid_count idx \<and> dv_probe_count (ivf_insert i v idx) = dv_probe_count idx"
proof -
  let ?idx = "idx\<lparr>dv_all_ids := dv_all_ids idx @ [i], dv_all_values := dv_all_values idx @ take (dv_dim idx) v,
            dv_size := dv_size idx + 1, dv_dirty_since_rebuild := dv_dirty_since_rebuild idx + 1\<rparr>"
  have data: "dv_all_ids ?idx = map fst (es @ [(i, v)])" "dv_all_values ?idx = concat (map snd (es @ [(i, v)]))"
      "dv_size ?idx = length (es @ [(i, v)])" "0 < dv_centroid_count ?idx"
    using assms by (simp_all add: ivf_holds_def)
  have b: "buckets_hold idx es" "dv_initialized_centroids idx = min (dv_centroid_count idx) (length es)"
    using assms(1) by (simp_all add: ivf_holds_def)
  show ?thesis
  proof (cases "dv_size ?idx \<le> dv_centroid_count ?idx \<or> dv_rebuild_interval ?idx \<le> dv_dirty_since_rebuild ?idx")
    case True
    then have "ivf_insert i v idx = rebuild ?idx" by (simp add: ivf_insert_def Let_def)
    then show ?thesis using rebuild_holds[of ?idx "es @ [(i, v)]"] data assms b(1) by (simp add: buckets_hold_def)
  next
    case False
    then have ins: "ivf_insert i v idx = add_to_bucket (ivf_nearest_centroid ?idx v) i v ?idx" by (simp add: ivf_insert_def Let_def)
    have count: "dv_centroid_count idx \<le> length es" using False data(3) by simp
    have near: "ivf_nearest_centroid ?idx = ivf_nearest_centroid idx" by (intro ext nearest_cong) simp_all
    have hold: "buckets_hold ?idx es" using b(1) unfolding buckets_hold_def bucket_entries_def near by simp
    have "ivf_nearest_centroid ?idx v < dv_centroid_count ?idx"
      using nearest_less[of ?idx v] data(4) b(2) count by simp
    from add_to_bucket_holds[OF hold _ this, of i] assms(3)
    show ?thesis using data b(2) count by (simp add: ins ivf_holds_def)
  qed
qed

definition ivf_run :: "delta_ivf \<Rightarrow> entry list \<Rightarrow> delta_ivf" where
  "ivf_run idx es = foldl (\<lambda>idx (i, v). ivf_insert i v idx) idx es"

lemma ivf_run_holds:
  assumes "DeltaIvfFlatIndex dim centroid_count probe_count iterations interval = Inr idx" and "rows_ok dim es"
  shows "ivf_holds (ivf_run idx es) es \<and> dv_dim (ivf_run idx es) = dim \<and>
    dv_centroid_count (ivf_run idx es) = centroid_count \<and> dv_probe_count (ivf_run idx es) = probe_count"
  using assms(2)
proof (induction es rule: rev_induct)
  case Nil
  show ?case using assms(1)
    by (auto simp: DeltaIvfFlatIndex_def ivf_run_def ivf_holds_def buckets_hold_def bucket_entries_def split: if_splits)
next
  case (snoc e es)
  obtain i v where e: "e = (i, v)" by (cases e)
  then show ?case using snoc ivf_insert_holds[of "ivf_run idx es" es v i] by (simp add: ivf_run_def)
qed

lemma closest_centroids_ids:
  assumes "dv_initialized_centroids idx \<le> 2 ^ 32"
  shows "distinct (closest_centroids idx q)" "set (closest_centroids idx q) \<subseteq> {..<dv_initialized_centroids idx}"
    "dv_initialized_centroids idx \<le> dv_probe_count idx \<Longrightarrow> set (closest_centroids idx q) = {..<dv_initialized_centroids idx}"
proof -
  let ?n = "dv_initialized_centroids idx"
  let ?scored = "map (\<lambda>c. \<lparr>sr_id = word_of_nat c, sr_distance = squared_l2 q (centroid_at idx c) (dv_dim idx)\<rparr>) [0..<?n]"
  let ?order = "map (\<lambda>r. unat (sr_id r)) (std_sort search_result_less ?scored)"
  have "mset ?order = image_mset (\<lambda>r. unat (sr_id r)) (mset ?scored)" by simp
  also have "\<dots> = mset (map (\<lambda>c. unat (word_of_nat c :: u32)) [0..<?n])" by (simp add: image_mset.compositionality comp_def)
  also have "map (\<lambda>c. unat (word_of_nat c :: u32)) [0..<?n] = [0..<?n]"
    using assms by (intro map_idI) (simp add: unat_of_nat)
  finally have ms: "mset ?order = mset [0..<?n]" .
  have take: "closest_centroids idx q = take (min (dv_probe_count idx) ?n) ?order"
    by (simp add: closest_centroids_def Let_def take_map)
  have order: "distinct ?order" "set ?order = {..<?n}"
    using mset_eq_imp_distinct_iff[OF ms] mset_eq_setD[OF ms] by (simp_all add: atLeast0LessThan)
  show "distinct (closest_centroids idx q)" using order(1) by (simp only: take distinct_take)
  show "set (closest_centroids idx q) \<subseteq> {..<?n}" unfolding take order(2)[symmetric] by (rule set_take_subset)
  show "set (closest_centroids idx q) = {..<?n}" if "?n \<le> dv_probe_count idx" using order(2) that by (simp add: take)
qed

lemma scan_buckets:
  assumes "\<forall>b\<in>set cs. rows_ok dim (B b)"
  shows "foldl (scan_block dim q k) heap (map (\<lambda>b. (map fst (B b), concat (map snd (B b)))) cs) =
    foldl (heap_step search_result_less k) heap (map (entry_result dim q) (concat (map B cs)))"
  using assms by (induction cs arbitrary: heap) (simp_all add: scan_entries)

lemma mset_buckets:
  assumes "distinct cs"
  shows "mset (concat (map (\<lambda>b. filter (\<lambda>e. f e = b) es) cs)) = mset (filter (\<lambda>e. f e \<in> set cs) es)"
  using assms
proof (induction cs)
  case (Cons c cs)
  have "mset (filter (\<lambda>e. f e = c) es) + mset (filter (\<lambda>e. f e \<in> set cs) es) = mset (filter (\<lambda>e. f e \<in> set (c # cs)) es)"
    using Cons.prems by (induction es) auto
  then show ?case using Cons by simp
qed simp

text \<open>
  C40: the inverted file index is exact on the lists it probes. After any inserts of different
  identifiers, with the rebuilds they trigger, a search returns exactly the first \<open>k\<close> of the
  vectors whose nearest centroid is among the probed ones, and with as many probes as
  centroids the first \<open>k\<close> of all vectors: no rebuild loses or repeats a vector.
\<close>

theorem ivf_search_exact:
  assumes "DeltaIvfFlatIndex dim centroid_count probe_count iterations interval = Inr idx0"
    and "centroid_count \<le> 2 ^ 32" and "idx = ivf_run idx0 es"
    and "finite_entries dim es" and "distinct (map fst es)" and "finite_vector dim q"
  shows "ivf_search_one idx q k = take k (sort_key sr_key (map (entry_result dim q)
      (filter (\<lambda>e. ivf_nearest_centroid idx (snd e) \<in> set (closest_centroids idx q)) es))) \<and>
    (centroid_count \<le> probe_count \<longrightarrow>
      ivf_search_one idx q k = take k (sort_key sr_key (map (entry_result dim q) es)))"
proof -
  note run = ivf_run_holds[OF assms(1) finite_rows[OF assms(4)], folded assms(3)]
  have idx: "dv_dim idx = dim" "dv_centroid_count idx = centroid_count" "dv_probe_count idx = probe_count"
      "dv_size idx = length es" "dv_initialized_centroids idx = min centroid_count (length es)"
      "buckets_hold idx es" "0 < centroid_count"
    using run by (simp_all add: ivf_holds_def)
  let ?cs = "closest_centroids idx q" and ?near = "\<lambda>e. ivf_nearest_centroid idx (snd e)"
  let ?found = "filter (\<lambda>e. ?near e \<in> set ?cs) es"
  have init: "dv_initialized_centroids idx \<le> 2 ^ 32" using assms(2) by (simp add: idx)
  note cs = closest_centroids_ids[OF init, of q]
  have exact: "ivf_search_one idx q k = take k (sort_key sr_key (map (entry_result dim q) ?found))"
  proof (cases "k = 0 \<or> es = []")
    case False
    let ?B = "\<lambda>b. filter (\<lambda>e. ?near e = b) es"
    let ?all = "concat (map ?B ?cs)"
    have "(dv_bucket_ids idx ! b, dv_bucket_values idx ! b) = (map fst (?B b), concat (map snd (?B b)))" if "b \<in> set ?cs" for b
      using that cs(2) idx by (auto simp: buckets_hold_def bucket_entries_def)
    then have lists: "map (\<lambda>b. (dv_bucket_ids idx ! b, dv_bucket_values idx ! b)) ?cs =
        map (\<lambda>b. (map fst (?B b), concat (map snd (?B b)))) ?cs" by simp
    have rows: "\<forall>b\<in>set ?cs. rows_ok dim (?B b)" using assms(4) by (auto simp: finite_entries_def rows_ok_def)
    have ms: "mset ?all = mset ?found" by (rule mset_buckets[OF cs(1)])
    have "mset (map fst ?all) = mset (map fst ?found)" unfolding mset_map ms ..
    from iffD2[OF mset_eq_imp_distinct_iff[OF this] distinct_map_filter[OF assms(5)]]
    have "distinct (map fst ?all)" .
    then have ids: "distinct (map sr_id (map (entry_result dim q) ?all))" unfolding entry_results_ids .
    have "finite_entries dim ?all" using assms(4) mset_eq_setD[OF ms] by (auto simp: finite_entries_def)
    note heap = sro.heap_result[OF entry_results_valid[OF this assms(6)] _ sr_key_inj[OF ids], of k]
    have "dv_initialized_centroids idx \<noteq> 0" using False idx(5,7) by (cases es) simp_all
    then have "ivf_search_one idx q k = take k (sort_key sr_key (map (entry_result dim q) ?all))"
      using False idx(1,4) heap by (simp add: ivf_search_one_def sorted_heap_def lists scan_buckets[OF rows] del: map_concat)
    moreover have "mset (map (entry_result dim q) ?all) = mset (map (entry_result dim q) ?found)" unfolding mset_map ms ..
    from sort_key_mset[OF this sr_key_inj[OF ids]]
    have "sort_key sr_key (map (entry_result dim q) ?all) = sort_key sr_key (map (entry_result dim q) ?found)" .
    ultimately show ?thesis by (simp only:)
  qed (auto simp: ivf_search_one_def idx)
  moreover have "?found = es" if probe: "centroid_count \<le> probe_count"
  proof (cases "es = []")
    case False
    then have "ivf_nearest_centroid idx v \<in> set ?cs" for v using nearest_less[of idx v] cs(3) probe by (simp add: idx)
    then show ?thesis unfolding filter_id_conv by blast
  qed simp
  ultimately show ?thesis by simp
qed

section \<open>Concrete runs\<close>

theorem flat_search_exact_witness:
  "\<exists>idx. DeltaFlatIndex 1 = Inr idx \<and>
    flat_search_one (foldl flat_step idx [Flat_insert 7 [0x3f800000], Flat_compact 1, Flat_insert 3 [0x3f800000]]) [0x3f800000] 1 =
      take 1 (sort_key sr_key (map (entry_result 1 [0x3f800000]) [(7, [0x3f800000]), (3, [0x3f800000])]))"
proof -
  have f: "finite_vector 1 [0x3f800000]"
    by (simp add: finite_vector_def f32_finite_def fp_finite_def fp_mag_def binary32_def)
  obtain idx where idx: "DeltaFlatIndex 1 = Inr idx" by (simp add: DeltaFlatIndex_def)
  from flat_search_exact[OF idx, of "[Flat_insert 7 [0x3f800000], Flat_compact 1, Flat_insert 3 [0x3f800000]]" "[0x3f800000]" 1]
  show ?thesis using f idx by (simp add: finite_entries_def)
qed

text \<open>One probe of two centroids, then as many probes as centroids.\<close>

theorem ivf_search_exact_witness:
  "\<exists>idx idx2. DeltaIvfFlatIndex 1 2 1 1 1 = Inr idx \<and> DeltaIvfFlatIndex 1 2 2 1 1 = Inr idx2 \<and>
    ivf_search_one (ivf_run idx [(7, [0x3f800000]), (3, [0x3f800000])]) [0x3f800000] 1 =
      take 1 (sort_key sr_key (map (entry_result 1 [0x3f800000])
        (filter (\<lambda>e. ivf_nearest_centroid (ivf_run idx [(7, [0x3f800000]), (3, [0x3f800000])]) (snd e) \<in>
           set (closest_centroids (ivf_run idx [(7, [0x3f800000]), (3, [0x3f800000])]) [0x3f800000]))
         [(7, [0x3f800000]), (3, [0x3f800000])]))) \<and>
    ivf_search_one (ivf_run idx2 [(7, [0x3f800000]), (3, [0x3f800000])]) [0x3f800000] 1 =
      take 1 (sort_key sr_key (map (entry_result 1 [0x3f800000]) [(7, [0x3f800000]), (3, [0x3f800000])]))"
proof -
  have f: "finite_vector 1 [0x3f800000]"
    by (simp add: finite_vector_def f32_finite_def fp_finite_def fp_mag_def binary32_def)
  obtain idx idx2 where idx: "DeltaIvfFlatIndex 1 2 1 1 1 = Inr idx" and idx2: "DeltaIvfFlatIndex 1 2 2 1 1 = Inr idx2"
    by (simp add: DeltaIvfFlatIndex_def)
  have es: "finite_entries 1 [(7, [0x3f800000]), (3, [0x3f800000])]" "distinct (map fst [(7 :: u32, [0x3f800000 :: f32]), (3, [0x3f800000])])"
    using f by (simp_all add: finite_entries_def)
  have "(2 :: nat) \<le> 2 ^ 32" "(2 :: nat) \<le> 2" by simp_all
  note one = conjunct1[OF ivf_search_exact[OF idx this(1) refl es f, of 1]]
    and two = mp[OF conjunct2[OF ivf_search_exact[OF idx2 this(1) refl es f, of 1]] this(2)]
  show ?thesis by (rule exI[of _ idx], rule exI[of _ idx2], intro conjI, rule idx, rule idx2, rule one, rule two)
qed

end
