(* ===== verification/LsmWal.thy ===== *)
theory LsmWal
  imports Distance Disk
begin

text \<open>
  The log of the delta indexes in \<open>storage/lsm_tree.h\<close> and \<open>src/storage/lsm_tree.cpp\<close>: a header
  and insert and delete records. Unlike the log of the dynamic layer, its replay throws at the
  first record it cannot read, after it has handed the earlier ones to the callbacks. A replay
  is modelled as the list of callback invocations and the result.
\<close>

section \<open>Statistics\<close>

record lsm_wal_stats =
  ls_records :: nat
  ls_bytes :: nat

record lsm_replay_stats =
  lr_records :: nat
  lr_inserts :: nat
  lr_deletes :: nat
  lr_bytes :: nat
  lr_dim :: u32
  lr_max_id :: u32
  lr_has_records :: bool

definition kLsmWalMagic :: bytes where
  "kLsmWalMagic = [0x41, 0x4D, 0x46, 0x57, 0x41, 0x4C, 0x56, 0x35]"

definition kLsmWalVersion :: u32 where "kLsmWalVersion = 5"
definition kLsmInsertRecord :: u32 where "kLsmInsertRecord = 1"
definition kLsmDeleteRecord :: u32 where "kLsmDeleteRecord = 2"

section \<open>Writer\<close>

record lsm_wal_writer =
  lw_path :: string
  lw_dim :: nat
  lw_output :: ofstream
  lw_stats :: lsm_wal_stats

text \<open>\<open>write_value\<close>: a write whose failure throws.\<close>

definition lsm_write_value :: "bytes \<Rightarrow> ofstream \<Rightarrow> disk \<Rightarrow> unit result \<times> ofstream \<times> disk" where
  "lsm_write_value bs output d =
     (let (output, d) = os_write bs output d
      in (throw_if (\<not> os_good output) (Runtime_error ''Failed to write WAL''), output, d))"

fun lsm_write_values :: "bytes list \<Rightarrow> ofstream \<Rightarrow> disk \<Rightarrow> unit result \<times> ofstream \<times> disk" where
  "lsm_write_values [] output d = (Inr (), output, d)"
| "lsm_write_values (bs # bss) output d =
     (case lsm_write_value bs output d of
        (Inl e, output, d) \<Rightarrow> (Inl e, output, d)
      | (Inr _, output, d) \<Rightarrow> lsm_write_values bss output d)"

definition write_wal_header :: "ofstream \<Rightarrow> nat \<Rightarrow> lsm_wal_stats \<Rightarrow> disk \<Rightarrow> lsm_wal_stats result \<times> ofstream \<times> disk" where
  "write_wal_header output dim stats d =
     (let (output, d) = os_write kLsmWalMagic output d;
          (written, output, d) = lsm_write_values [enc_word kLsmWalVersion, enc_word (word_of_nat dim :: u32)] output d
      in (seq_result written (\<lambda>_. Inr (stats\<lparr>ls_bytes := ls_bytes stats + 16\<rparr>)), output, d))"

text \<open>
  The constructor. When it throws, the stream is destroyed, which flushes what it holds.
\<close>

definition LsmWalWriter :: "string \<Rightarrow> nat \<Rightarrow> bool \<Rightarrow> lsm_wal_stats \<Rightarrow> disk \<Rightarrow> lsm_wal_writer result \<times> disk" where
  "LsmWalWriter path dim appending initial_stats d =
     (if dim = 0 then (Inl (Runtime_error ''WAL dimension must be positive''), d)
      else (let (output, d) = os_open (\<not> appending) path d
            in if \<not> os_good output then (Inl (Runtime_error ''Cannot create WAL file''), d)
               else if \<not> appending \<or> ls_bytes initial_stats = 0
               then (case write_wal_header output dim \<lparr>ls_records = 0, ls_bytes = 0\<rparr> d of
                       (Inl e, output, d) \<Rightarrow> (Inl e, os_destroy output d)
                     | (Inr stats, output, d) \<Rightarrow>
                         (Inr \<lparr>lw_path = path, lw_dim = dim, lw_output = output, lw_stats = stats\<rparr>, d))
               else (Inr \<lparr>lw_path = path, lw_dim = dim, lw_output = output, lw_stats = initial_stats\<rparr>, d)))"

definition count_append :: "nat \<Rightarrow> lsm_wal_stats \<Rightarrow> lsm_wal_stats" where
  "count_append n stats = \<lparr>ls_records = ls_records stats + 1, ls_bytes = ls_bytes stats + n\<rparr>"

definition append_insert :: "u32 \<Rightarrow> f32 list \<Rightarrow> lsm_wal_writer \<Rightarrow> disk \<Rightarrow> unit result \<times> lsm_wal_writer \<times> disk" where
  "append_insert i vector w d =
     (let bytes = word_of_nat (lw_dim w * 4) :: u32
      in case lsm_write_values [enc_word kLsmInsertRecord, enc_word i, enc_word (word_of_nat (lw_dim w) :: u32),
                enc_word bytes] (lw_output w) d of
           (Inl e, output, d) \<Rightarrow> (Inl e, w\<lparr>lw_output := output\<rparr>, d)
         | (Inr _, output, d) \<Rightarrow>
             (let (output, d) = os_write (take (unat bytes) (words_bytes vector)) output d;
                  w = w\<lparr>lw_output := output\<rparr>
              in if \<not> os_good output then (Inl (Runtime_error ''Failed to append insert record to WAL''), w, d)
                 else (Inr (), w\<lparr>lw_stats := count_append (16 + unat bytes) (lw_stats w)\<rparr>, d)))"

definition append_delete :: "u32 \<Rightarrow> lsm_wal_writer \<Rightarrow> disk \<Rightarrow> unit result \<times> lsm_wal_writer \<times> disk" where
  "append_delete i w d =
     (case lsm_write_values [enc_word kLsmDeleteRecord, enc_word i, enc_word (word_of_nat (lw_dim w) :: u32),
             enc_word (0 :: u32)] (lw_output w) d of
        (Inl e, output, d) \<Rightarrow> (Inl e, w\<lparr>lw_output := output\<rparr>, d)
      | (Inr _, output, d) \<Rightarrow> (Inr (), w\<lparr>lw_output := output, lw_stats := count_append 16 (lw_stats w)\<rparr>, d))"

definition lsm_wal_flush :: "lsm_wal_writer \<Rightarrow> disk \<Rightarrow> unit result \<times> lsm_wal_writer \<times> disk" where
  "lsm_wal_flush w d =
     (let (output, d) = os_flush (lw_output w) d
      in (throw_if (\<not> os_good output) (Runtime_error ''Failed to flush WAL''), w\<lparr>lw_output := output\<rparr>, d))"

section \<open>Replay\<close>

datatype lsm_event = On_insert u32 "f32 list" | On_delete u32

definition lsm_read_value :: "bytes \<Rightarrow> ('a::len word \<times> bytes) result" where
  "lsm_read_value bs =
     (case get_word bs of None \<Rightarrow> Inl (Runtime_error ''Failed to read WAL'') | Some x \<Rightarrow> Inr x)"

text \<open>One round of the loop: the callback it makes and the rest of the input.\<close>

definition lsm_round :: "u32 \<Rightarrow> bytes \<Rightarrow> (lsm_event \<times> bytes) result" where
  "lsm_round dim input =
     seq_result (lsm_read_value input) (\<lambda>(record_type :: u32, input).
     seq_result (lsm_read_value input) (\<lambda>(i :: u32, input).
     seq_result (lsm_read_value input) (\<lambda>(record_dim :: u32, input).
     seq_result (lsm_read_value input) (\<lambda>(bytes :: u32, input).
       if record_type \<noteq> kLsmInsertRecord \<and> record_type \<noteq> kLsmDeleteRecord
       then Inl (Runtime_error ''Unsupported WAL record type'')
       else if record_dim \<noteq> dim then Inl (Runtime_error ''Invalid WAL record dimension'')
       else if record_type = kLsmDeleteRecord
       then (if bytes \<noteq> 0 then Inl (Runtime_error ''Invalid WAL delete record shape'') else Inr (On_delete i, input))
       else if unat bytes \<noteq> unat dim * 4 then Inl (Runtime_error ''Invalid WAL insert record shape'')
       else (case get_many get_word (unat dim) input of
               None \<Rightarrow> Inl (Runtime_error ''Truncated WAL insert vector'')
             | Some (vector, input) \<Rightarrow> Inr (On_insert i vector, input))))))"

definition count_event :: "u32 \<Rightarrow> lsm_event \<Rightarrow> lsm_replay_stats \<Rightarrow> lsm_replay_stats" where
  "count_event dim event stats =
     (let records = lr_records stats + 1;
          i = (case event of On_insert i v \<Rightarrow> i | On_delete i \<Rightarrow> i);
          stats = stats\<lparr>lr_records := records, lr_has_records := True,
                    lr_max_id := if records = 1 then i else max (lr_max_id stats) i\<rparr>
      in case event of
           On_insert i v \<Rightarrow> stats\<lparr>lr_inserts := lr_inserts stats + 1, lr_bytes := lr_bytes stats + 16 + unat dim * 4\<rparr>
         | On_delete i \<Rightarrow> stats\<lparr>lr_deletes := lr_deletes stats + 1, lr_bytes := lr_bytes stats + 16\<rparr>)"

lemma lsm_read_value_width: "lsm_read_value bs = Inr (w :: u32, rest) \<Longrightarrow> length bs = 4 + length rest"
  by (auto simp: lsm_read_value_def split: option.splits dest: get_word_length)

lemma lsm_round_shrinks: "lsm_round dim bs = Inr (e, rest) \<Longrightarrow> length rest < length bs"
  by (auto simp: lsm_round_def result_iffs split: if_splits option.splits dest!: lsm_read_value_width get_widths)

function lsm_rounds :: "u32 \<Rightarrow> bytes \<Rightarrow> lsm_replay_stats \<Rightarrow> lsm_event list \<times> lsm_replay_stats result" where
  "lsm_rounds dim input stats =
     (if input = [] then ([], Inr stats)
      else case lsm_round dim input of
        Inl e \<Rightarrow> ([], Inl e)
      | Inr (event, rest) \<Rightarrow>
          (let (events, r) = lsm_rounds dim rest (count_event dim event stats) in (event # events, r)))"
  by pat_completeness auto
termination
  by (relation "measure (\<lambda>(dim, input, stats). length input)") (auto dest: lsm_round_shrinks)

declare lsm_rounds.simps [simp del]

definition lsm_replay_bytes :: "nat \<Rightarrow> bytes \<Rightarrow> lsm_event list \<times> lsm_replay_stats result" where
  "lsm_replay_bytes expected_dim input =
     (if length input < 8 \<or> take 8 input \<noteq> kLsmWalMagic then ([], Inl (Runtime_error ''Invalid WAL magic''))
      else case seq_result (lsm_read_value (drop 8 input)) (\<lambda>(version :: u32, input).
             seq_result (throw_if (version \<noteq> kLsmWalVersion) (Runtime_error ''Unsupported WAL version'')) (\<lambda>_.
             seq_result (lsm_read_value input) (\<lambda>(dim :: u32, input).
             seq_result (throw_if (unat dim \<noteq> expected_dim)
               (Runtime_error ''WAL dimension does not match current dataset'')) (\<lambda>_. Inr (dim, input))))) of
        Inl e \<Rightarrow> ([], Inl e)
      | Inr (dim, input) \<Rightarrow> lsm_rounds dim input
          \<lparr>lr_records = 0, lr_inserts = 0, lr_deletes = 0, lr_bytes = 16, lr_dim = dim, lr_max_id = 0,
           lr_has_records = False\<rparr>)"

definition replay_wal_records :: "string \<Rightarrow> nat \<Rightarrow> disk \<Rightarrow> (lsm_event list \<times> lsm_replay_stats result) \<times> disk" where
  "replay_wal_records path expected_dim d =
     (if expected_dim = 0 then (([], Inl (Runtime_error ''WAL replay dimension must be positive'')), d)
      else (let (input, d) = read_file path d
            in case input of
                 None \<Rightarrow> (([], Inl (Runtime_error ''Cannot open WAL file for replay'')), d)
               | Some bs \<Rightarrow> (lsm_replay_bytes expected_dim bs, d)))"

text \<open>\<open>replay_wal_inserts\<close>: the deletes reach a callback that does nothing.\<close>

definition replay_wal_inserts :: "string \<Rightarrow> nat \<Rightarrow> disk \<Rightarrow> (lsm_event list \<times> lsm_replay_stats result) \<times> disk" where
  "replay_wal_inserts path expected_dim d =
     (let ((events, r), d) = replay_wal_records path expected_dim d
      in ((filter (\<lambda>e. case e of On_insert i v \<Rightarrow> True | On_delete i \<Rightarrow> False) events, r), d))"

section \<open>The log is a record log\<close>

definition event_bytes :: "u32 \<Rightarrow> lsm_event \<Rightarrow> bytes" where
  "event_bytes dim event = (case event of
     On_insert i v \<Rightarrow> enc_word kLsmInsertRecord @ enc_word i @ enc_word dim @ enc_word (dim * 4) @ words_bytes v
   | On_delete i \<Rightarrow> enc_word kLsmDeleteRecord @ enc_word i @ enc_word dim @ enc_word (0 :: u32))"

definition event_ok :: "u32 \<Rightarrow> lsm_event \<Rightarrow> bool" where
  "event_ok dim event \<longleftrightarrow> unat dim * 4 < 2 ^ 32 \<and> (case event of On_insert i v \<Rightarrow> length v = unat dim | On_delete i \<Rightarrow> True)"

definition read_event :: "u32 \<Rightarrow> bytes \<Rightarrow> (lsm_event \<times> bytes) option" where
  "read_event dim input = (case lsm_round dim input of Inl e \<Rightarrow> None | Inr x \<Rightarrow> Some x)"

definition replayed :: "u32 \<Rightarrow> lsm_replay_stats \<Rightarrow> bytes \<Rightarrow> lsm_event list" where
  "replayed dim stats input = fst (lsm_rounds dim input stats)"

lemma lsm_read_value_enc [simp]: "lsm_read_value (enc_word (w :: u32) @ bs) = Inr (w, bs)"
  by (simp add: lsm_read_value_def)

lemma kinds_differ [simp]: "kLsmInsertRecord \<noteq> kLsmDeleteRecord" "kLsmDeleteRecord \<noteq> kLsmInsertRecord"
  by (simp_all add: kLsmInsertRecord_def kLsmDeleteRecord_def)

lemma read_event_bytes:
  assumes "event_ok dim event"
  shows "lsm_round dim (event_bytes dim event @ bs) = Inr (event, bs)"
proof (cases event)
  case (On_insert i v)
  then have len: "length v = unat dim" "unat (dim * 4) = unat dim * 4"
    using assms by (simp_all add: event_ok_def unat_mult_lem[THEN iffD1])
  then have "get_many get_word (unat dim) (words_bytes v @ bs) = Some (v, bs)" using get_many_words_bytes[of v bs] by simp
  then show ?thesis using On_insert len(2) by (simp add: lsm_round_def event_bytes_def)
next
  case (On_delete i)
  then show ?thesis by (simp add: lsm_round_def event_bytes_def)
qed

lemma lsm_read_value_local: "lsm_read_value bs = Inr (w, rest) \<Longrightarrow> lsm_read_value (bs @ s) = Inr (w, rest @ s)"
  by (auto simp: lsm_read_value_def get_word_extend split: option.splits)

lemma lsm_round_local: "lsm_round dim bs = Inr (e, rest) \<Longrightarrow> lsm_round dim (bs @ s) = Inr (e, rest @ s)"
proof -
  assume run: "lsm_round dim bs = Inr (e, rest)"
  then obtain t b1 i b2 rd b3 n b4 where r: "lsm_read_value bs = Inr (t :: u32, b1)" "lsm_read_value b1 = Inr (i :: u32, b2)"
      "lsm_read_value b2 = Inr (rd :: u32, b3)" "lsm_read_value b3 = Inr (n :: u32, b4)"
    by (auto simp: lsm_round_def seq_result_Inr_iff)
  note r' = r[THEN lsm_read_value_local, of s]
  have v: "get_many get_word (unat dim) (b4 @ s) = Some (v, rest' @ s)"
    if "get_many get_word (unat dim) b4 = Some (v :: f32 list, rest')" for v rest'
    by (rule local_readerD[OF local_reader_get(2) that])
  show ?thesis using run v by (auto simp: lsm_round_def r r' split: if_splits option.splits)
qed

lemma lsm_round_nil: "lsm_round dim [] = Inl (Runtime_error ''Failed to read WAL'')"
  by (simp add: lsm_round_def lsm_read_value_def get_word_def)

lemma replayed_eq:
  "replayed dim stats bs = (case read_event dim bs of None \<Rightarrow> [] | Some (e, rest) \<Rightarrow> e # replayed dim (count_event dim e stats) rest)"
  by (cases "bs = []") (auto simp: replayed_def read_event_def lsm_rounds.simps[of dim bs] lsm_round_nil
      lsm_rounds.simps[of dim "[]"] Let_def split: sum.splits prod.splits)

text \<open>The events delivered do not depend on the counters.\<close>

lemma replayed_stats: "replayed dim stats bs = replayed dim stats' bs"
proof (induction "length bs" arbitrary: bs stats stats' rule: less_induct)
  case less
  show ?case
  proof (cases "read_event dim bs")
    case None
    then show ?thesis by (simp add: replayed_eq[of dim _ bs])
  next
    case (Some x)
    obtain e rest where x: "x = (e, rest)" by (cases x)
    then have "length rest < length bs" using Some lsm_round_shrinks[of dim bs e rest] by (simp add: read_event_def split: sum.splits)
    from less[OF this] show ?thesis using Some x by (simp add: replayed_eq[of dim _ bs])
  qed
qed

definition no_replay_stats :: "u32 \<Rightarrow> lsm_replay_stats" where
  "no_replay_stats dim = \<lparr>lr_records = 0, lr_inserts = 0, lr_deletes = 0, lr_bytes = 16, lr_dim = dim,
     lr_max_id = 0, lr_has_records = False\<rparr>"

definition replay_of :: "u32 \<Rightarrow> bytes \<Rightarrow> lsm_event list" where
  "replay_of dim bs = replayed dim (no_replay_stats dim) bs"

interpretation lsm: record_log "event_bytes dim" "read_event dim" "replay_of dim" "event_ok dim" for dim
proof unfold_locales
  show "replay_of dim bs = (case read_event dim bs of None \<Rightarrow> [] | Some (e, rest) \<Rightarrow> e # replay_of dim rest)" for bs
    by (subst replay_of_def, subst replayed_eq) (auto simp: replay_of_def replayed_stats split: option.splits)
qed (auto simp: read_event_def read_event_bytes lsm_round_nil lsm_round_local split: sum.splits)

section \<open>Replaying a cut log\<close>

definition lsm_header :: "nat \<Rightarrow> bytes" where
  "lsm_header dim = kLsmWalMagic @ enc_word kLsmWalVersion @ enc_word (word_of_nat dim :: u32)"

definition lsm_log :: "nat \<Rightarrow> lsm_event list \<Rightarrow> bytes" where
  "lsm_log dim events = lsm_header dim @ concat (map (event_bytes (word_of_nat dim)) events)"

lemma length_header [simp]: "length (lsm_header dim) = 16" "length kLsmWalMagic = 8"
  by (simp_all add: lsm_header_def kLsmWalMagic_def)

lemma count_events:
  "lr_records (foldl (\<lambda>st e. count_event dim e st) st es) = lr_records st + length es"
  by (induction es arbitrary: st) (auto simp: count_event_def Let_def split: lsm_event.split)

lemma lsm_rounds_eq:
  assumes "\<forall>e\<in>set es. event_ok dim e"
  shows "lsm_rounds dim (concat (map (event_bytes dim) es) @ bs) st =
    (case lsm_rounds dim bs (foldl (\<lambda>st e. count_event dim e st) st es) of (evs, r) \<Rightarrow> (es @ evs, r))"
  using assms
proof (induction es arbitrary: st)
  case (Cons e es)
  have "event_bytes dim e \<noteq> []"
    using read_event_bytes[of dim e "[]"] Cons.prems by (auto simp: lsm_round_nil)
  then show ?case
    using Cons by (subst lsm_rounds.simps) (simp add: read_event_bytes Let_def split: prod.splits)
qed simp

text \<open>
  A log cut anywhere: the whole records are delivered, and the replay throws unless the cut is
  between two records.
\<close>

lemma lsm_rounds_cut:
  assumes "\<forall>e\<in>set es. event_ok dim e" and "prefix p (concat (map (event_bytes dim) es))"
  shows "\<exists>n\<le>length es. fst (lsm_rounds dim p st) = take n es \<and>
    prefix (concat (map (event_bytes dim) (take n es))) p \<and>
    (n < length es \<longrightarrow> length p < length (concat (map (event_bytes dim) (take (Suc n) es)))) \<and>
    (case snd (lsm_rounds dim p st) of
       Inr stats \<Rightarrow> lr_records stats = lr_records st + n \<and> p = concat (map (event_bytes dim) (take n es))
     | Inl e \<Rightarrow> p \<noteq> concat (map (event_bytes dim) (take n es)))"
proof -
  obtain n where n: "n \<le> length es" "replay_of dim p = take n es" "prefix (concat (map (event_bytes dim) (take n es))) p"
    "n < length es \<longrightarrow> length p < length (concat (map (event_bytes dim) (take (Suc n) es)))"
    using lsm.replay_prefix[OF assms] by blast
  obtain q where q: "p = concat (map (event_bytes dim) (take n es)) @ q" using n(3) by (auto simp: prefix_def)
  have ok: "\<forall>e\<in>set (take n es). event_ok dim e" using assms(1) by (meson in_set_takeD)
  let ?st = "foldl (\<lambda>st e. count_event dim e st) st (take n es)"
  have r: "lsm_rounds dim p st = (case lsm_rounds dim q ?st of (evs, r) \<Rightarrow> (take n es @ evs, r))"
    unfolding q by (rule lsm_rounds_eq[OF ok])
  have "replay_of dim q = []" using n(2) lsm.replay_append[OF ok, of q] by (simp add: q)
  then have none: "read_event dim q = None" by (subst (asm) lsm.replay_eq) (auto split: option.splits)
  have records: "lr_records ?st = lr_records st + n" using n(1) by (simp add: count_events)
  show ?thesis
  proof (cases "q = []")
    case True
    then have "lsm_rounds dim p st = (take n es, Inr ?st)" using r by (simp add: lsm_rounds.simps)
    then show ?thesis using n records True q by (intro exI[of _ n]) simp
  next
    case False
    then obtain e where "lsm_rounds dim q ?st = ([], Inl e)"
      using none by (auto simp: lsm_rounds.simps[of dim q] read_event_def split: sum.splits)
    then show ?thesis using n r False q by (intro exI[of _ n]) simp
  qed
qed

lemma lsm_replay_short:
  assumes "prefix bs (lsm_header dim)" and "length bs < 16"
  shows "\<exists>e. lsm_replay_bytes dim bs = ([], Inl e)"
proof (cases "length bs < 8")
  case False
  obtain c where c: "lsm_header dim = bs @ c" using assms(1) by (auto simp: prefix_def)
  have "take 8 bs = take 8 (bs @ c)" using False by simp
  also have "\<dots> = kLsmWalMagic" unfolding c[symmetric] by (simp add: lsm_header_def)
  finally have magic: "take 8 bs = kLsmWalMagic" .
  have "lsm_read_value (drop 8 bs) = Inr (v :: u32, b) \<Longrightarrow> \<exists>e. lsm_read_value b = (Inl e :: (u32 \<times> bytes) result)" for v b
    using lsm_read_value_width[of "drop 8 bs" v b] assms(2) False
    by (auto simp: lsm_read_value_def get_word_def split: option.splits if_splits)
  then have "\<exists>e. seq_result (lsm_read_value (drop 8 bs)) (\<lambda>(version :: u32, input).
             seq_result (throw_if (version \<noteq> kLsmWalVersion) (Runtime_error ''Unsupported WAL version'')) (\<lambda>_.
             seq_result (lsm_read_value input) (\<lambda>(dim' :: u32, input).
             seq_result (throw_if (unat dim' \<noteq> dim)
               (Runtime_error ''WAL dimension does not match current dataset'')) (\<lambda>_. Inr (dim', input))))) = Inl e"
    by (cases "lsm_read_value (drop 8 bs) :: (u32 \<times> bytes) result") (fastforce simp: throw_if_def)+
  then show ?thesis using False magic by (auto simp: lsm_replay_bytes_def)
qed (simp add: lsm_replay_bytes_def)

lemma lsm_replay_header:
  assumes "dim < 2 ^ 32"
  shows "lsm_replay_bytes dim (lsm_header dim @ bs) = lsm_rounds (word_of_nat dim) bs (no_replay_stats (word_of_nat dim))"
  using assms by (simp add: lsm_replay_bytes_def lsm_header_def no_replay_stats_def unat_of_nat)

lemma lsm_replay_cut:
  assumes es: "\<forall>e\<in>set es. event_ok (word_of_nat dim) e" and dim: "dim < 2 ^ 32" and p: "prefix bs (lsm_log dim es)"
  shows "\<exists>n\<le>length es. fst (lsm_replay_bytes dim bs) = take n es \<and>
    (n < length es \<longrightarrow> length bs < length (lsm_log dim (take (Suc n) es))) \<and>
    (case snd (lsm_replay_bytes dim bs) of
       Inr stats \<Rightarrow> lr_records stats = n \<and> bs = lsm_log dim (take n es)
     | Inl e \<Rightarrow> bs \<noteq> lsm_log dim (take n es))"
proof (cases "length bs < 16")
  case True
  have "prefix (lsm_header dim) (lsm_log dim es)" by (simp add: lsm_log_def)
  then have "prefix bs (lsm_header dim)" using prefix_length_prefix[OF p] True by simp
  from lsm_replay_short[OF this True] obtain e where e: "lsm_replay_bytes dim bs = ([], Inl e)" by blast
  have len: "length bs < length (lsm_log dim (take n es))" for n using True by (simp add: lsm_log_def)
  show ?thesis using e len[of 0] len[of "Suc 0"] by (intro exI[of _ 0]) auto
next
  case False
  have "prefix (lsm_header dim) bs" using prefix_length_prefix[of "lsm_header dim" "lsm_log dim es" bs] p False by (simp add: lsm_log_def)
  then obtain q where q: "bs = lsm_header dim @ q" by (auto simp: prefix_def)
  then have "prefix q (concat (map (event_bytes (word_of_nat dim)) es))" using p by (simp add: lsm_log_def)
  from lsm_rounds_cut[OF es this, of "no_replay_stats (word_of_nat dim)"] show ?thesis
    by (auto simp: q lsm_replay_header[OF dim] lsm_log_def no_replay_stats_def split: sum.splits)
qed

section \<open>Sessions\<close>

fun lsm_append :: "lsm_event \<Rightarrow> lsm_wal_writer \<Rightarrow> disk \<Rightarrow> unit result \<times> lsm_wal_writer \<times> disk" where
  "lsm_append (On_insert i v) w d = append_insert i v w d"
| "lsm_append (On_delete i) w d = append_delete i w d"

fun lsm_append_all :: "lsm_event list \<Rightarrow> lsm_wal_writer \<Rightarrow> disk \<Rightarrow> unit result \<times> lsm_wal_writer \<times> disk" where
  "lsm_append_all [] w d = (Inr (), w, d)"
| "lsm_append_all (e # es) w d =
     (case lsm_append e w d of (Inl x, w, d) \<Rightarrow> (Inl x, w, d) | (Inr _, w, d) \<Rightarrow> lsm_append_all es w d)"

lemma os_write_good:
  assumes "os_write bs os d = (os', d')" and "os_good os'"
  shows "os_good os" "os' = os\<lparr>os_pending := os_pending os @ bs\<rparr>" "files d' = files d"
  using assms by (auto simp: os_write_def split: if_splits prod.splits io_outcome.splits dest: next_outcome_files)

lemma lsm_write_value_done:
  assumes "lsm_write_value bs os d = (Inr u, os', d')"
  shows "os_good os'" "os' = os\<lparr>os_pending := os_pending os @ bs\<rparr>" "files d' = files d"
  using assms os_write_good by (auto simp: lsm_write_value_def throw_if_Inr_iff split: prod.splits)

lemma lsm_write_values_done:
  assumes "lsm_write_values bss os d = (Inr u, os', d')" and "bss \<noteq> []"
  shows "os_good os' \<and> os' = os\<lparr>os_pending := os_pending os @ concat bss\<rparr> \<and> files d' = files d"
  using assms
proof (induction bss arbitrary: os d)
  case (Cons bs bss)
  obtain os1 d1 where 1: "lsm_write_value bs os d = (Inr (), os1, d1)" and 2: "lsm_write_values bss os1 d1 = (Inr u, os', d')"
    using Cons.prems(1) by (auto split: prod.splits sum.splits)
  note w = lsm_write_value_done[OF 1]
  show ?case
  proof (cases "bss = []")
    case True
    then show ?thesis using 2 w by simp
  next
    case False
    then show ?thesis using Cons.IH[OF 2] w by simp
  qed
qed simp

lemma lsm_append_done:
  assumes "lsm_append e w d = (Inr u, w', d')" and "event_ok (word_of_nat (lw_dim w)) e" and "lw_dim w * 4 < 2 ^ 32"
  shows "os_pending (lw_output w') = os_pending (lw_output w) @ event_bytes (word_of_nat (lw_dim w)) e"
    "os_path (lw_output w') = os_path (lw_output w)" "lw_dim w' = lw_dim w" "files d' = files d"
proof -
  have dim: "unat (word_of_nat (lw_dim w) :: u32) = lw_dim w" "unat (word_of_nat (lw_dim w * 4) :: u32) = lw_dim w * 4"
    using assms(3) by (simp_all add: unat_of_nat del: of_nat_mult)
  have "os_pending (lw_output w') = os_pending (lw_output w) @ event_bytes (word_of_nat (lw_dim w)) e \<and>
    os_path (lw_output w') = os_path (lw_output w) \<and> lw_dim w' = lw_dim w \<and> files d' = files d"
  proof (cases e)
    case (On_insert i v)
    let ?n = "word_of_nat (lw_dim w * 4) :: u32"
    obtain os1 d1 where 1: "lsm_write_values [enc_word kLsmInsertRecord, enc_word i, enc_word (word_of_nat (lw_dim w) :: u32),
        enc_word ?n] (lw_output w) d = (Inr (), os1, d1)"
      and 2: "os_write (take (unat ?n) (words_bytes v)) os1 d1 = (lw_output w', d')" "os_good (lw_output w')"
      and w': "lw_dim w' = lw_dim w"
      using assms(1) On_insert by (auto simp: append_insert_def Let_def simp del: lsm_write_values.simps of_nat_mult
          split: prod.splits sum.splits if_splits)
    have "length v = lw_dim w" using assms(2) On_insert dim(1) by (simp add: event_ok_def)
    then have "take (unat ?n) (words_bytes v) = words_bytes v" by (simp add: dim(2) del: of_nat_mult)
    then show ?thesis
      using lsm_write_values_done[OF 1] os_write_good[OF 2] w' On_insert by (simp add: event_bytes_def mult.commute)
  next
    case (On_delete i)
    obtain os1 where 1: "lsm_write_values [enc_word kLsmDeleteRecord, enc_word i, enc_word (word_of_nat (lw_dim w) :: u32),
        enc_word (0 :: u32)] (lw_output w) d = (Inr (), os1, d')"
      and w': "w' = w\<lparr>lw_output := os1, lw_stats := count_append 16 (lw_stats w)\<rparr>"
      using assms(1) On_delete by (auto simp: append_delete_def simp del: lsm_write_values.simps split: prod.splits sum.splits)
    then show ?thesis using lsm_write_values_done[OF 1] On_delete by (simp add: event_bytes_def)
  qed
  then show "os_pending (lw_output w') = os_pending (lw_output w) @ event_bytes (word_of_nat (lw_dim w)) e"
    "os_path (lw_output w') = os_path (lw_output w)" "lw_dim w' = lw_dim w" "files d' = files d" by simp_all
qed

lemma lsm_append_all_done:
  assumes "lsm_append_all es w d = (Inr u, w', d')" and "\<forall>e\<in>set es. event_ok (word_of_nat (lw_dim w)) e"
    and "lw_dim w * 4 < 2 ^ 32"
  shows "os_pending (lw_output w') = os_pending (lw_output w) @ concat (map (event_bytes (word_of_nat (lw_dim w))) es)
    \<and> os_path (lw_output w') = os_path (lw_output w) \<and> files d' = files d"
  using assms
proof (induction es arbitrary: w d)
  case (Cons e es)
  obtain w1 d1 where 1: "lsm_append e w d = (Inr (), w1, d1)" and 2: "lsm_append_all es w1 d1 = (Inr u, w', d')"
    using Cons.prems(1) by (auto split: prod.splits sum.splits)
  have e: "event_ok (word_of_nat (lw_dim w)) e" using Cons.prems(2) by simp
  note s = lsm_append_done[OF 1 e Cons.prems(3)]
  then show ?case using Cons.IH[OF 2] Cons.prems(2,3) by simp
qed simp

lemma LsmWalWriter_done:
  assumes "LsmWalWriter path dim appending st d = (Inr w, d')"
    and "if appending \<and> ls_bytes st \<noteq> 0 then file_bytes path d = lsm_log dim old else old = [] \<and> (appending \<longrightarrow> file_bytes path d = [])"
  shows "file_bytes path d' @ os_pending (lw_output w) = lsm_log dim old" "os_path (lw_output w) = path" "lw_dim w = dim"
    "length (file_bytes path d') = (if appending \<and> ls_bytes st \<noteq> 0 then length (lsm_log dim old) else 0)"
proof -
  obtain os d1 where o: "os_open (\<not> appending) path d = (os, d1)" by fastforce
  have good: "os_good os" and dim: "dim \<noteq> 0"
    using assms(1) o by (auto simp: LsmWalWriter_def split: if_splits)
  have os: "os = \<lparr>os_path = path, os_pending = [], os_good = True\<rparr>"
      "file_bytes path d1 = (if appending then file_bytes path d else [])"
    using o good by (auto simp: os_open_def file_bytes_def frame_simps split: prod.splits if_splits)
  have "file_bytes path d' @ os_pending (lw_output w) = lsm_log dim old \<and> os_path (lw_output w) = path \<and> lw_dim w = dim \<and>
    length (file_bytes path d') = (if appending \<and> ls_bytes st \<noteq> 0 then length (lsm_log dim old) else 0)"
  proof (cases "appending \<and> ls_bytes st \<noteq> 0")
    case True
    then show ?thesis using assms o good dim os by (auto simp: LsmWalWriter_def)
  next
    case False
    let ?start = "\<lparr>ls_records = 0, ls_bytes = 0\<rparr> :: lsm_wal_stats"
    obtain os2 d2 where 2: "os_write kLsmWalMagic os d1 = (os2, d2)" by fastforce
    obtain os3 stats where 3: "lsm_write_values [enc_word kLsmWalVersion, enc_word (word_of_nat dim :: u32)] os2 d2 = (Inr (), os3, d')"
      and w: "w = \<lparr>lw_path = path, lw_dim = dim, lw_output = os3, lw_stats = stats\<rparr>"
      using assms(1) False o good dim 2
      by (auto simp: LsmWalWriter_def write_wal_header_def seq_result_Inr_iff simp del: lsm_write_values.simps split: prod.splits sum.splits)
    note v = lsm_write_values_done[OF 3]
    have "os_good os2" using 3 by (auto simp: lsm_write_value_def os_write_def throw_if_def split: prod.splits sum.splits if_splits)
    note m = os_write_good[OF 2 this]
    have "file_bytes path d' = file_bytes path d1" using v m(3) by (simp add: file_bytes_def)
    then show ?thesis using v m False os assms(2) by (auto simp: w lsm_log_def lsm_header_def)
  qed
  then show "file_bytes path d' @ os_pending (lw_output w) = lsm_log dim old" "os_path (lw_output w) = path" "lw_dim w = dim"
    "length (file_bytes path d') = (if appending \<and> ls_bytes st \<noteq> 0 then length (lsm_log dim old) else 0)" by blast+
qed

text \<open>
  C35: the delta log after a crash. A session starts a log, or continues one; its appends
  succeed, and then a crash keeps any part of the buffered bytes. Replay hands exactly the whole
  records on disk to the callbacks, in order, the earlier sessions' among them, and it throws
  exactly when the cut is not between two records.
\<close>

theorem lsm_wal_crash_recovery:
  assumes "LsmWalWriter path dim appending st d = (Inr w, d1)" and "lsm_append_all es w d1 = (Inr (), w', d2)"
    and "if appending \<and> ls_bytes st \<noteq> 0 then file_bytes path d = lsm_log dim old else old = [] \<and> (appending \<longrightarrow> file_bytes path d = [])"
    and "\<forall>e\<in>set (old @ es). event_ok (word_of_nat dim) e" and "dim * 4 < 2 ^ 32"
    and "bs = file_bytes path (crash_stream m (lw_output w') d2)"
  shows "\<exists>n. length old \<le> n \<and> n \<le> length (old @ es) \<and> fst (lsm_replay_bytes dim bs) = take n (old @ es) \<and>
    (n < length (old @ es) \<longrightarrow> length bs < length (lsm_log dim (take (Suc n) (old @ es)))) \<and>
    (case snd (lsm_replay_bytes dim bs) of
       Inr stats \<Rightarrow> lr_records stats = n \<and> bs = lsm_log dim (take n (old @ es))
     | Inl e \<Rightarrow> bs \<noteq> lsm_log dim (take n (old @ es)))"
proof -
  note o = LsmWalWriter_done[OF assms(1,3)]
  have "\<forall>e\<in>set es. event_ok (word_of_nat (lw_dim w)) e" "lw_dim w * 4 < 2 ^ 32" using assms(4,5) o(3) by simp_all
  note a = lsm_append_all_done[OF assms(2) this]
  then have f: "file_bytes path d2 = file_bytes path d1" "os_path (lw_output w') = path" using o(2) by (simp_all add: file_bytes_def)
  have whole: "file_bytes path d2 @ os_pending (lw_output w') = lsm_log dim (old @ es)"
  proof -
    have "file_bytes path d2 @ os_pending (lw_output w') =
      (file_bytes path d1 @ os_pending (lw_output w)) @ concat (map (event_bytes (word_of_nat dim)) es)"
      using a f o(3) by simp
    then show ?thesis using o(1) by (simp add: lsm_log_def)
  qed
  have bs: "bs = file_bytes path d2 @ take m (os_pending (lw_output w'))"
    using assms(6) f(2) by (simp add: crash_stream_def)
  have "prefix bs (lsm_log dim (old @ es))"
    unfolding bs whole[symmetric] by (simp add: take_is_prefix)
  from lsm_replay_cut[OF assms(4) _ this] assms(5)
  obtain n where n: "n \<le> length (old @ es)" "fst (lsm_replay_bytes dim bs) = take n (old @ es)"
    "n < length (old @ es) \<longrightarrow> length bs < length (lsm_log dim (take (Suc n) (old @ es)))"
    "case snd (lsm_replay_bytes dim bs) of
       Inr stats \<Rightarrow> lr_records stats = n \<and> bs = lsm_log dim (take n (old @ es))
     | Inl e \<Rightarrow> bs \<noteq> lsm_log dim (take n (old @ es))" by auto
  have "length old \<le> n"
  proof (rule ccontr)
    assume less: "\<not> length old \<le> n"
    then have "old \<noteq> []" by auto
    then have kept: "length (lsm_log dim old) \<le> length bs" using o(4) assms(3) f(1) bs by (auto split: if_splits)
    have "take (Suc n) (old @ es) = take (Suc n) old" using less by simp
    moreover have "length (lsm_log dim (take (Suc n) old)) \<le> length (lsm_log dim old)"
    proof -
      have "lsm_log dim old = lsm_log dim (take (Suc n) old) @ concat (map (event_bytes (word_of_nat dim)) (drop (Suc n) old))"
        unfolding lsm_log_def append_assoc concat_append[symmetric] map_append[symmetric] append_take_drop_id ..
      then show ?thesis by simp
    qed
    ultimately show False using n(3) less kept by simp
  qed
  then show ?thesis using n by blast
qed

section \<open>A concrete run\<close>

theorem lsm_wal_crash_recovery_witness:
  "\<exists>w d1 w' d2 n. LsmWalWriter ''w'' 1 False \<lparr>ls_records = 0, ls_bytes = 0\<rparr> empty_disk = (Inr w, d1) \<and>
    lsm_append_all [On_insert 7 [0x3f800000], On_delete 7] w d1 = (Inr (), w', d2) \<and> n \<le> 2 \<and>
    fst (lsm_replay_bytes 1 (file_bytes ''w'' (crash_stream 40 (lw_output w') d2))) = take n [On_insert 7 [0x3f800000], On_delete 7]"
proof -
  obtain w d1 where w: "LsmWalWriter ''w'' 1 False \<lparr>ls_records = 0, ls_bytes = 0\<rparr> empty_disk = (Inr w, d1)"
    "os_good (lw_output w)" "outcomes d1 = []"
    by (simp add: LsmWalWriter_def write_wal_header_def empty_disk_def lsm_write_value_def)
  obtain w' d2 where a: "lsm_append_all [On_insert 7 [0x3f800000], On_delete 7] w d1 = (Inr (), w', d2)"
    using w(2,3) by (simp add: append_insert_def append_delete_def lsm_write_value_def Let_def)
  have "\<forall>e\<in>set ([] @ [On_insert 7 [0x3f800000], On_delete 7]). event_ok (word_of_nat 1) e" by (simp add: event_ok_def)
  from lsm_wal_crash_recovery[OF w(1) a _ this, of "file_bytes ''w'' (crash_stream 40 (lw_output w') d2)" 40]
  obtain n where "n \<le> length ([] @ [On_insert 7 [0x3f800000], On_delete 7])"
    "fst (lsm_replay_bytes 1 (file_bytes ''w'' (crash_stream 40 (lw_output w') d2))) =
      take n ([] @ [On_insert 7 [0x3f800000], On_delete 7])" by auto
  then have "n \<le> 2 \<and> fst (lsm_replay_bytes 1 (file_bytes ''w'' (crash_stream 40 (lw_output w') d2))) =
      take n [On_insert 7 [0x3f800000], On_delete 7]" unfolding append_Nil by (simp add: numeral_2_eq_2)
  then show ?thesis using w(1) a by blast
qed

end
