(* ===== verification/DiskRecord.thy ===== *)
theory DiskRecord
  imports Distance Disk
begin

text \<open>
  \<open>storage/disk_record.h\<close> and \<open>src/storage/disk_record.cpp\<close>: one node per 4096-byte page, with a
  header of 32 bytes, the vector, the neighbours, their quantiser codes and a checksum of the
  payload, and the header page of the index file. A buffer argument is an option, where \<open>None\<close>
  is the null pointer.
\<close>

section \<open>Headers\<close>

definition kDiskIndexPageSize :: nat where "kDiskIndexPageSize = 4096"
definition kDiskIndexFileMagic :: u32 where "kDiskIndexFileMagic = 0x58444941"
definition kDiskNodeRecordMagic :: u32 where "kDiskNodeRecordMagic = 0x52444941"
definition kDiskIndexVersion :: u32 where "kDiskIndexVersion = 1"

record index_file_header =
  ih_magic :: u32
  ih_version :: u32
  ih_dim :: u32
  ih_max_degree :: u32
  ih_num_nodes :: u64
  ih_record_size :: u64
  ih_header_size :: u64
  ih_entry_node :: u64

record node_record_header =
  nh_magic :: u32
  nh_node_id :: u32
  nh_degree :: u16
  nh_dim :: u16
  nh_neighbor_pq_code_bytes :: u16
  nh_flags :: u16
  nh_checksum :: u32
  nh_vector_offset :: u32
  nh_neighbors_offset :: u32
  nh_payload_bytes :: u32

record node_record =
  nr_node_id :: u32
  nr_degree :: u16
  nr_dim :: u16
  nr_neighbor_pq_code_bytes :: u16
  nr_vector :: "f32 list"
  nr_neighbors :: "u32 list"
  nr_neighbor_pq_codes :: "u8 list"

text \<open>The objects in memory order: fields without padding, little endian.\<close>

definition node_header_bytes :: "node_record_header \<Rightarrow> bytes" where
  "node_header_bytes h =
     enc_word (nh_magic h) @ enc_word (nh_node_id h) @ enc_word (nh_degree h) @ enc_word (nh_dim h) @
     enc_word (nh_neighbor_pq_code_bytes h) @ enc_word (nh_flags h) @ enc_word (nh_checksum h) @
     enc_word (nh_vector_offset h) @ enc_word (nh_neighbors_offset h) @ enc_word (nh_payload_bytes h)"

definition index_header_bytes :: "index_file_header \<Rightarrow> bytes" where
  "index_header_bytes h =
     enc_word (ih_magic h) @ enc_word (ih_version h) @ enc_word (ih_dim h) @ enc_word (ih_max_degree h) @
     enc_word (ih_num_nodes h) @ enc_word (ih_record_size h) @ enc_word (ih_header_size h) @
     enc_word (ih_entry_node h) @ replicate (kDiskIndexPageSize - 48) 0"

definition field_at :: "nat \<Rightarrow> bytes \<Rightarrow> 'a::len word" where
  "field_at k bs = dec_word (take (LENGTH('a) div 8) (drop k bs))"

definition node_header_of :: "bytes \<Rightarrow> node_record_header" where
  "node_header_of bs = \<lparr>nh_magic = field_at 0 bs, nh_node_id = field_at 4 bs, nh_degree = field_at 8 bs,
     nh_dim = field_at 10 bs, nh_neighbor_pq_code_bytes = field_at 12 bs, nh_flags = field_at 14 bs,
     nh_checksum = field_at 16 bs, nh_vector_offset = field_at 20 bs, nh_neighbors_offset = field_at 24 bs,
     nh_payload_bytes = field_at 28 bs\<rparr>"

definition index_header_of :: "bytes \<Rightarrow> index_file_header" where
  "index_header_of bs = \<lparr>ih_magic = field_at 0 bs, ih_version = field_at 4 bs, ih_dim = field_at 8 bs,
     ih_max_degree = field_at 12 bs, ih_num_nodes = field_at 16 bs, ih_record_size = field_at 24 bs,
     ih_header_size = field_at 32 bs, ih_entry_node = field_at 40 bs\<rparr>"

section \<open>Shapes\<close>

definition payload_checksum :: "bytes \<Rightarrow> nat \<Rightarrow> bytes \<Rightarrow> nat \<Rightarrow> bytes \<Rightarrow> nat \<Rightarrow> u32" where
  "payload_checksum vector dim neighbors degree codes code_bytes =
     (let hash = 2166136261;
          hash = (if 0 < dim then fnv1a hash (take (dim * 4) vector) else hash);
          hash = (if 0 < degree then fnv1a hash (take (degree * 4) neighbors) else hash);
          pq_bytes = degree * code_bytes
      in if 0 < pq_bytes then fnv1a hash (take pq_bytes codes) else hash)"

definition require_exact_page :: "nat \<Rightarrow> unit result" where
  "require_exact_page buffer_bytes =
     throw_if (buffer_bytes \<noteq> kDiskIndexPageSize) (Runtime_error ''Disk record buffer must be exactly 4096 bytes'')"

definition disk_record_bytes :: "u32 \<Rightarrow> u32 \<Rightarrow> u16 \<Rightarrow> nat result" where
  "disk_record_bytes dim degree code_bytes =
     (let total = 32 + unat dim * 4 + unat degree * 4 + unat degree * unat code_bytes
      in if 2 ^ 64 - 1 < total then Inl (Runtime_error ''Disk record size overflows size_t'') else Inr total)"

definition validate_disk_record_shape :: "u32 \<Rightarrow> u32 \<Rightarrow> u16 \<Rightarrow> unit result" where
  "validate_disk_record_shape dim degree code_bytes =
     (if dim = 0 then Inl (Runtime_error ''Disk record dimension must be positive'')
      else if 2 ^ 16 - 1 < unat dim then Inl (Runtime_error ''Disk record dimension exceeds header limit'')
      else if 2 ^ 16 - 1 < unat degree then Inl (Runtime_error ''Disk record degree exceeds header limit'')
      else seq_result (disk_record_bytes dim degree code_bytes) (\<lambda>total.
        throw_if (kDiskIndexPageSize < total) (Runtime_error ''Disk record payload exceeds 4096 bytes'')))"

definition make_index_file_header :: "u32 \<Rightarrow> u32 \<Rightarrow> u64 \<Rightarrow> u64 \<Rightarrow> index_file_header result" where
  "make_index_file_header dim max_degree num_nodes entry_node =
     seq_result (validate_disk_record_shape dim max_degree 0) (\<lambda>_.
       if 0 < num_nodes \<and> num_nodes \<le> entry_node then Inl (Runtime_error ''Disk index entry node is out of range'')
       else Inr \<lparr>ih_magic = kDiskIndexFileMagic, ih_version = kDiskIndexVersion, ih_dim = dim,
         ih_max_degree = max_degree, ih_num_nodes = num_nodes, ih_record_size = word_of_nat kDiskIndexPageSize,
         ih_header_size = word_of_nat kDiskIndexPageSize, ih_entry_node = entry_node\<rparr>)"

definition validate_index_file_header :: "index_file_header \<Rightarrow> unit result" where
  "validate_index_file_header h =
     (if ih_magic h \<noteq> kDiskIndexFileMagic then Inl (Runtime_error ''Invalid disk index magic'')
      else if ih_version h \<noteq> kDiskIndexVersion then Inl (Runtime_error ''Unsupported disk index version'')
      else if ih_record_size h \<noteq> word_of_nat kDiskIndexPageSize \<or> ih_header_size h \<noteq> word_of_nat kDiskIndexPageSize
      then Inl (Runtime_error ''Disk index uses an unsupported page size'')
      else seq_result (validate_disk_record_shape (ih_dim h) (ih_max_degree h) 0) (\<lambda>_.
        throw_if (0 < ih_num_nodes h \<and> ih_num_nodes h \<le> ih_entry_node h)
          (Runtime_error ''Disk index entry node is out of range'')))"

definition disk_record_offset :: "u32 \<Rightarrow> index_file_header \<Rightarrow> u64 result" where
  "disk_record_offset node_id h =
     seq_result (validate_index_file_header h) (\<lambda>_.
       if ih_num_nodes h \<le> ucast node_id then Inl (Out_of_range ''Disk index node id is out of range'')
       else (let max_node_offset = - 1 - ih_header_size h
             in if ih_record_size h \<noteq> 0 \<and> max_node_offset div ih_record_size h < ucast node_id
                then Inl (Runtime_error ''Disk index record offset overflows uint64_t'')
                else Inr (ih_header_size h + ucast node_id * ih_record_size h)))"

section \<open>Records\<close>

definition put_page_bytes :: "nat \<Rightarrow> bytes \<Rightarrow> bytes \<Rightarrow> bytes" where
  "put_page_bytes k bs page = take k page @ bs @ drop (k + length bs) page"

definition encode_node_record ::
  "u32 \<Rightarrow> f32 list option \<Rightarrow> u32 \<Rightarrow> u32 list \<Rightarrow> bytes option \<Rightarrow> nat \<Rightarrow> u8 list \<Rightarrow> u16 \<Rightarrow> bytes result" where
  "encode_node_record node_id vector dim neighbors buffer buffer_bytes codes code_bytes =
     seq_result (require_exact_page buffer_bytes) (\<lambda>_.
     case buffer of None \<Rightarrow> Inl (Runtime_error ''Disk record buffer is null'') | Some _ \<Rightarrow>
     (case vector of None \<Rightarrow> Inl (Runtime_error ''Disk record vector is null'') | Some vec \<Rightarrow>
     (let degree = word_of_nat (length neighbors) :: u32
      in seq_result (validate_disk_record_shape dim degree code_bytes) (\<lambda>_.
         if length codes \<noteq> unat degree * unat code_bytes
         then Inl (Runtime_error ''Disk record neighbor PQ code payload has wrong size'')
         else
          (let page = replicate buffer_bytes 0;
               vector_bytes = words_bytes (take (unat dim) vec);
               degree16 = word_of_nat (length neighbors) :: u16;
               vector_offset = 32 :: u32;
               neighbors_offset = vector_offset + word_of_nat (unat dim * 4);
               codes_offset = neighbors_offset + word_of_nat (length neighbors * 4);
               checksum = payload_checksum vector_bytes (unat dim) (words_bytes neighbors) (unat degree16)
                 codes (unat code_bytes)
           in seq_result (disk_record_bytes dim (ucast degree16) code_bytes) (\<lambda>payload_bytes.
                let header = \<lparr>nh_magic = kDiskNodeRecordMagic, nh_node_id = node_id, nh_degree = degree16,
                      nh_dim = ucast dim, nh_neighbor_pq_code_bytes = code_bytes, nh_flags = 0, nh_checksum = checksum,
                      nh_vector_offset = vector_offset, nh_neighbors_offset = neighbors_offset,
                      nh_payload_bytes = word_of_nat payload_bytes\<rparr>;
                    page = put_page_bytes 0 (node_header_bytes header) page;
                    page = put_page_bytes (unat vector_offset) vector_bytes page;
                    page = (if neighbors = [] then page else put_page_bytes (unat neighbors_offset) (words_bytes neighbors) page);
                    page = (if codes = [] then page else put_page_bytes (unat codes_offset) codes page)
                in Inr page))))))"

text \<open>Copying an array of 32-bit values out of a page.\<close>

fun read_words :: "nat \<Rightarrow> bytes \<Rightarrow> u32 list" where
  "read_words 0 bs = []"
| "read_words (Suc n) bs = dec_word (take 4 bs) # read_words n (drop 4 bs)"

definition decode_node_record :: "bytes option \<Rightarrow> nat \<Rightarrow> node_record result" where
  "decode_node_record buffer buffer_bytes =
     seq_result (require_exact_page buffer_bytes) (\<lambda>_.
     case buffer of None \<Rightarrow> Inl (Runtime_error ''Disk record buffer is null'') | Some page \<Rightarrow>
     (let h = node_header_of page
      in if nh_magic h \<noteq> kDiskNodeRecordMagic then Inl (Runtime_error ''Invalid disk node record magic'')
         else seq_result (validate_disk_record_shape (ucast (nh_dim h)) (ucast (nh_degree h)) (nh_neighbor_pq_code_bytes h)) (\<lambda>_.
         let vector_offset = 32 :: u32;
             neighbors_offset = vector_offset + word_of_nat (unat (nh_dim h) * 4);
             codes_offset = neighbors_offset + word_of_nat (unat (nh_degree h) * 4)
         in seq_result (disk_record_bytes (ucast (nh_dim h)) (ucast (nh_degree h)) (nh_neighbor_pq_code_bytes h)) (\<lambda>payload_bytes.
         if nh_vector_offset h \<noteq> vector_offset \<or> nh_neighbors_offset h \<noteq> neighbors_offset \<or>
            nh_payload_bytes h \<noteq> word_of_nat payload_bytes
         then Inl (Runtime_error ''Disk node record layout is inconsistent'')
         else
          (let checksum = payload_checksum (drop (unat (nh_vector_offset h)) page) (unat (nh_dim h))
                 (drop (unat (nh_neighbors_offset h)) page) (unat (nh_degree h))
                 (drop (unat codes_offset) page) (unat (nh_neighbor_pq_code_bytes h))
           in if checksum \<noteq> nh_checksum h then Inl (Runtime_error ''Disk node record checksum mismatch'')
              else Inr \<lparr>nr_node_id = nh_node_id h, nr_degree = nh_degree h, nr_dim = nh_dim h,
                nr_neighbor_pq_code_bytes = nh_neighbor_pq_code_bytes h,
                nr_vector = read_words (unat (nh_dim h)) (drop (unat (nh_vector_offset h)) page),
                nr_neighbors = read_words (unat (nh_degree h)) (drop (unat (nh_neighbors_offset h)) page),
                nr_neighbor_pq_codes = take
                  (unat (nh_degree h) * unat (nh_neighbor_pq_code_bytes h)) (drop (unat codes_offset) page)\<rparr>)))))"

text \<open>\<open>allocate_aligned_buffer\<close>: zeroed memory, or an exception; \<open>ok\<close> is whether memory was found.\<close>

definition allocate_aligned_buffer :: "bool \<Rightarrow> nat \<Rightarrow> bytes result" where
  "allocate_aligned_buffer ok n =
     (if n = 0 \<or> n mod kDiskIndexPageSize \<noteq> 0
      then Inl (Runtime_error ''Aligned buffer size must be a positive 4KB multiple'')
      else if \<not> ok then Inl (Runtime_error ''Failed to allocate aligned disk buffer'')
      else Inr (replicate n 0))"

section \<open>Headers are read back\<close>

lemma dec_enc [simp]:
  "dec_word (enc_word (a :: u8)) = a" "dec_word (enc_word (b :: u16)) = b"
  "dec_word (enc_word (c :: u32)) = c" "dec_word (enc_word (d :: u64)) = d"
  by (rule dec_enc_word; simp)+

lemma node_header_read [simp]:
  "length (node_header_bytes h) = 32" "node_header_of (node_header_bytes h @ bs) = h"
  by (simp_all add: node_header_bytes_def node_header_of_def field_at_def)

lemma index_header_read [simp]:
  "length (index_header_bytes h) = 4096" "index_header_of (index_header_bytes h) = h"
  by (simp_all add: index_header_bytes_def index_header_of_def field_at_def kDiskIndexPageSize_def)

lemma read_words_bytes [simp]: "read_words (length xs) (words_bytes xs @ bs) = xs"
  by (induction xs) (simp_all add: words_bytes_def)

section \<open>Encoding and decoding\<close>

lemma put_page_bytes_end:
  assumes "length done = k" and "length bs \<le> n"
  shows "put_page_bytes k bs (done @ replicate n 0) = (done @ bs) @ replicate (n - length bs) 0"
  using assms by (simp add: put_page_bytes_def)

text \<open>The page an encoded record fills.\<close>

definition record_header :: "u32 \<Rightarrow> f32 list \<Rightarrow> u32 list \<Rightarrow> u8 list \<Rightarrow> u16 \<Rightarrow> node_record_header" where
  "record_header node_id vec neighbors codes code_bytes =
     \<lparr>nh_magic = kDiskNodeRecordMagic, nh_node_id = node_id, nh_degree = word_of_nat (length neighbors),
      nh_dim = word_of_nat (length vec), nh_neighbor_pq_code_bytes = code_bytes, nh_flags = 0,
      nh_checksum = fnv1a 2166136261 (words_bytes vec @ words_bytes neighbors @ codes),
      nh_vector_offset = 32, nh_neighbors_offset = word_of_nat (32 + length vec * 4),
      nh_payload_bytes = word_of_nat (32 + length vec * 4 + length neighbors * 4 + length codes)\<rparr>"

definition record_payload :: "f32 list \<Rightarrow> u32 list \<Rightarrow> u8 list \<Rightarrow> bytes" where
  "record_payload vec neighbors codes = words_bytes vec @ words_bytes neighbors @ codes"

definition record_page :: "u32 \<Rightarrow> f32 list \<Rightarrow> u32 list \<Rightarrow> u8 list \<Rightarrow> u16 \<Rightarrow> bytes" where
  "record_page node_id vec neighbors codes code_bytes =
     node_header_bytes (record_header node_id vec neighbors codes code_bytes) @
     record_payload vec neighbors codes @
     replicate (4096 - (32 + length (record_payload vec neighbors codes))) 0"

definition record_fits :: "f32 list \<Rightarrow> u32 list \<Rightarrow> u8 list \<Rightarrow> u16 \<Rightarrow> bool" where
  "record_fits vec neighbors codes code_bytes \<longleftrightarrow> vec \<noteq> [] \<and> length codes = length neighbors * unat code_bytes \<and>
     32 + length vec * 4 + length neighbors * 4 + length codes \<le> 4096"

lemma record_page_length [simp]: "record_fits vec neighbors codes code_bytes \<Longrightarrow> length (record_page i vec neighbors codes code_bytes) = 4096"
  by (simp add: record_page_def record_payload_def record_fits_def)

lemma small_words:
  "n \<le> 4096 \<Longrightarrow> unat (word_of_nat n :: u32) = n" "n \<le> 4096 \<Longrightarrow> unat (word_of_nat n :: u16) = n"
  "n \<le> 4096 \<Longrightarrow> ucast (word_of_nat n :: u16) = (word_of_nat n :: u32)"
  "n \<le> 4096 \<Longrightarrow> ucast (word_of_nat n :: u32) = (word_of_nat n :: u16)"
  by (simp_all add: unat_of_nat word_eq_iff_unsigned unsigned_ucast_eq unsigned_of_nat take_bit_eq_mod)

lemma shape_valid:
  assumes "record_fits vec neighbors codes code_bytes"
  shows "validate_disk_record_shape (word_of_nat (length vec)) (word_of_nat (length neighbors)) code_bytes = Inr ()"
    "disk_record_bytes (word_of_nat (length vec)) (word_of_nat (length neighbors)) code_bytes =
      Inr (32 + length vec * 4 + length neighbors * 4 + length codes)"
proof -
  have n: "length vec \<le> 4096" "length neighbors \<le> 4096" "length vec \<noteq> 0" using assms by (auto simp: record_fits_def)
  show b: "disk_record_bytes (word_of_nat (length vec)) (word_of_nat (length neighbors)) code_bytes =
      Inr (32 + length vec * 4 + length neighbors * 4 + length codes)"
    using n assms by (simp add: disk_record_bytes_def small_words record_fits_def)
  have "(word_of_nat (length vec) :: u32) \<noteq> 0" using n small_words(1)[of "length vec"] by (metis unat_0)
  then show "validate_disk_record_shape (word_of_nat (length vec)) (word_of_nat (length neighbors)) code_bytes = Inr ()"
    using n assms b by (simp add: validate_disk_record_shape_def small_words record_fits_def kDiskIndexPageSize_def)
qed

lemma words_bytes_Nil [simp]: "words_bytes [] = []"
  by (simp add: words_bytes_def)

lemma payload_checksum_eq:
  assumes "length a = dim * 4" and "length b = degree * 4" and "length c = degree * m"
  shows "payload_checksum (a @ xs) dim (b @ ys) degree (c @ zs) m = fnv1a 2166136261 (a @ b @ c)"
proof -
  have empty: "fnv1a h [] = h" for h by (simp add: fnv1a_def)
  have "dim = 0 \<Longrightarrow> a = []" "degree = 0 \<Longrightarrow> b = []" "degree * m = 0 \<Longrightarrow> c = []" using assms by auto
  then show ?thesis using assms by (auto simp: payload_checksum_def fnv1a_append empty Let_def)
qed

lemma encode_page:
  assumes v: "v = take (unat dim) vec" "unat dim \<le> length vec" and fits: "record_fits v neighbors codes code_bytes"
  shows "encode_node_record i (Some vec) dim neighbors (Some buf) 4096 codes code_bytes =
    Inr (record_page i v neighbors codes code_bytes)"
proof -
  have len: "unat dim = length v" using v by simp
  have d: "dim = word_of_nat (length v)" using len[symmetric] by simp
  have n: "length v \<le> 4096" "length neighbors \<le> 4096" "v \<noteq> []" "length codes = length neighbors * unat code_bytes"
    and le: "32 + length v * 4 + length neighbors * 4 + length codes \<le> 4096"
    using fits by (auto simp: record_fits_def)
  note shape = shape_valid[OF fits]
  have checksum: "payload_checksum (words_bytes v) (length v) (words_bytes neighbors) (length neighbors) codes (unat code_bytes) =
      fnv1a 2166136261 (words_bytes v @ words_bytes neighbors @ codes)"
    using payload_checksum_eq[of "words_bytes v" "length v" "words_bytes neighbors" "length neighbors" codes "unat code_bytes" "[]" "[]" "[]"]
      n(4) by simp
  have code_len: "(length codes \<noteq> length neighbors * unat code_bytes) = False" using n(4) by simp
  have off: "unat (32 :: u32) = 32" "unat (32 + word_of_nat (length v * 4) :: u32) = 32 + length v * 4"
    "unat (32 + word_of_nat (length v * 4) + word_of_nat (length neighbors * 4) :: u32) = 32 + length v * 4 + length neighbors * 4"
    using small_words(1)[of "32 + length v * 4"] small_words(1)[of "32 + length v * 4 + length neighbors * 4"] le by simp_all
  let ?h = "node_header_bytes (record_header i v neighbors codes code_bytes)"
  let ?p = "?h @ words_bytes v @ replicate (4096 - 32 - length v * 4) 0"
  let ?q = "?h @ words_bytes v @ words_bytes neighbors @ replicate (4096 - 32 - length v * 4 - length neighbors * 4) 0"
  have p: "put_page_bytes 32 (words_bytes v) (put_page_bytes 0 ?h (replicate 4096 0)) = ?p" using le by (simp add: put_page_bytes_def)
  have q: "(if neighbors = [] then ?p else put_page_bytes (32 + length v * 4) (words_bytes neighbors) ?p) = ?q"
    using le by (auto simp: put_page_bytes_def)
  have r: "(if codes = [] then ?q else put_page_bytes (32 + length v * 4 + length neighbors * 4) codes ?q) =
      record_page i v neighbors codes code_bytes"
    using le by (auto simp: put_page_bytes_def record_page_def record_payload_def)
  have h: "\<lparr>nh_magic = kDiskNodeRecordMagic, nh_node_id = i, nh_degree = word_of_nat (length neighbors),
      nh_dim = ucast dim, nh_neighbor_pq_code_bytes = code_bytes, nh_flags = 0,
      nh_checksum = fnv1a 2166136261 (words_bytes v @ words_bytes neighbors @ codes),
      nh_vector_offset = 32, nh_neighbors_offset = 32 + word_of_nat (length v * 4),
      nh_payload_bytes = word_of_nat (32 + length v * 4 + length neighbors * 4 + length codes)\<rparr> =
      record_header i v neighbors codes code_bytes"
    by (simp add: record_header_def small_words(4)[OF n(1), folded d])
  have step: "encode_node_record i (Some vec) dim neighbors (Some buf) 4096 codes code_bytes =
    (let page = put_page_bytes 32 (words_bytes v) (put_page_bytes 0 ?h (replicate 4096 0));
         page = (if neighbors = [] then page else put_page_bytes (32 + length v * 4) (words_bytes neighbors) page);
         page = (if codes = [] then page else put_page_bytes (32 + length v * 4 + length neighbors * 4) codes page)
     in Inr page)"
    unfolding encode_node_record_def require_exact_page_def kDiskIndexPageSize_def option.case v(1)[symmetric]
    unfolding len
    by (simp only: shape[folded d] checksum off h code_len small_words(1,2,3)[OF n(2)] Let_def option.case seq_result_simps
        throw_if_simps refl not_True_eq_False if_False)
  show ?thesis unfolding step Let_def p q r ..
qed

text \<open>A page with the header of a record and any payload of the same size.\<close>

lemma decode_payload:
  assumes fits: "record_fits v neighbors codes code_bytes"
    and P: "P = pv @ pn @ pc" "length pv = length v * 4" "length pn = length neighbors * 4" "length pc = length codes"
  shows "decode_node_record (Some (node_header_bytes (record_header i v neighbors codes code_bytes) @ P @ zeros)) 4096 =
    (if fnv1a 2166136261 P \<noteq> fnv1a 2166136261 (record_payload v neighbors codes)
     then Inl (Runtime_error ''Disk node record checksum mismatch'')
     else Inr \<lparr>nr_node_id = i, nr_degree = word_of_nat (length neighbors), nr_dim = word_of_nat (length v),
      nr_neighbor_pq_code_bytes = code_bytes, nr_vector = read_words (length v) (P @ zeros),
      nr_neighbors = read_words (length neighbors) (pn @ pc @ zeros), nr_neighbor_pq_codes = pc\<rparr>)"
proof -
  have n: "length v \<le> 4096" "length neighbors \<le> 4096" "v \<noteq> []" "length codes = length neighbors * unat code_bytes"
    and le: "32 + length v * 4 + length neighbors * 4 + length codes \<le> 4096"
    using fits by (auto simp: record_fits_def)
  define page where "page = node_header_bytes (record_header i v neighbors codes code_bytes) @ P @ zeros"
  note shape = shape_valid[OF fits]
  have h: "node_header_of page = record_header i v neighbors codes code_bytes" by (simp add: page_def)
  have off: "unat (32 :: u32) = 32" "unat (32 + word_of_nat (length v * 4) :: u32) = 32 + length v * 4"
    "unat (32 + word_of_nat (length v * 4) + word_of_nat (length neighbors * 4) :: u32) = 32 + length v * 4 + length neighbors * 4"
    using small_words(1)[of "32 + length v * 4"] small_words(1)[of "32 + length v * 4 + length neighbors * 4"] le by simp_all
  have sum: "word_of_nat (32 + length v * 4) = (32 + word_of_nat (length v * 4) :: u32)" by simp
  have parts: "drop 32 page = P @ zeros" "drop (32 + length v * 4) page = pn @ pc @ zeros"
    "drop (32 + length v * 4 + length neighbors * 4) page = pc @ zeros"
    using P by (simp_all add: page_def)
  have checksum: "payload_checksum (P @ zeros) (length v) (pn @ pc @ zeros) (length neighbors) (pc @ zeros) (unat code_bytes) =
      fnv1a 2166136261 P"
    using payload_checksum_eq[of pv "length v" pn "length neighbors" pc "unat code_bytes" "pn @ pc @ zeros" "pc @ zeros" zeros] P n(4) by simp
  have codes: "take (length neighbors * unat code_bytes) (pc @ zeros) = pc" using P(4) n(4) by simp
  show ?thesis
    unfolding decode_node_record_def require_exact_page_def kDiskIndexPageSize_def Let_def option.case page_def[symmetric] h
    by (simp only: record_header_def node_record_header.simps small_words(2,3)[OF n(1)] small_words(2,3)[OF n(2)] shape off sum parts
        checksum codes record_payload_def seq_result_simps throw_if_simps refl not_True_eq_False if_False simp_thms)
qed

lemma decode_page:
  assumes fits: "record_fits v neighbors codes code_bytes"
  shows "decode_node_record (Some (record_page i v neighbors codes code_bytes)) 4096 =
    Inr \<lparr>nr_node_id = i, nr_degree = word_of_nat (length neighbors), nr_dim = word_of_nat (length v),
      nr_neighbor_pq_code_bytes = code_bytes, nr_vector = v, nr_neighbors = neighbors, nr_neighbor_pq_codes = codes\<rparr>"
  unfolding record_page_def
  by (subst decode_payload[OF fits, where pv = "words_bytes v" and pn = "words_bytes neighbors" and pc = codes])
    (simp_all add: record_payload_def)

text \<open>Encoding succeeds exactly on records that fit a page.\<close>

lemma encode_cases:
  assumes "encode_node_record i (Some vec) dim neighbors (Some buf) 4096 codes code_bytes = Inr page"
    and "unat dim \<le> length vec" and "length neighbors < 2 ^ 32"
  shows "record_fits (take (unat dim) vec) neighbors codes code_bytes \<and>
    page = record_page i (take (unat dim) vec) neighbors codes code_bytes"
proof -
  have len: "unat (word_of_nat (length neighbors) :: u32) = length neighbors" using assms(3) by (simp add: unat_of_nat)
  have c: "validate_disk_record_shape dim (word_of_nat (length neighbors)) code_bytes = Inr ()"
      "length codes = length neighbors * unat code_bytes"
    using assms(1) by (auto simp: encode_node_record_def seq_result_Inr_iff len Let_def split: if_splits)
  then have "record_fits (take (unat dim) vec) neighbors codes code_bytes"
    using assms(2) by (auto simp: validate_disk_record_shape_def disk_record_bytes_def result_iffs record_fits_def len
        kDiskIndexPageSize_def unat_eq_zero split: if_splits)
  then show ?thesis using encode_page[OF refl assms(2)] assms(1) by simp
qed

section \<open>Corruption\<close>

lemma xor_inj: "(a :: u32) XOR h = b XOR h \<longleftrightarrow> a = b"
  by (metis xor.assoc xor_self_eq xor.right_neutral)

text \<open>One step is injective in the hash and in the byte: the prime has an inverse.\<close>

lemma fnv_step:
  "(h XOR ucast (b :: u8)) * 16777619 = (h' XOR ucast b) * 16777619 \<Longrightarrow> h = (h' :: u32)"
  "(h XOR ucast b) * 16777619 = (h XOR ucast c) * 16777619 \<Longrightarrow> b = (c :: u8)"
proof -
  have inv: "x = y" if "x * 16777619 = y * (16777619 :: u32)" for x y
  proof -
    have "(16777619 :: u32) * 899433627 = 1" by simp
    then have "(x * 16777619) * 899433627 = x" "(y * 16777619) * 899433627 = y" by (simp_all only: mult.assoc mult_1_right)
    then show ?thesis using that by metis
  qed
  show "h = h'" if "(h XOR ucast b) * 16777619 = (h' XOR ucast b) * 16777619"
    using inv[OF that] by (simp add: xor_inj)
  show "b = c" if "(h XOR ucast b) * 16777619 = (h XOR ucast c) * 16777619"
  proof -
    have "(ucast b :: u32) = ucast c" using inv[OF that] xor_inj by (metis xor.commute)
    moreover have "(ucast (ucast x :: u32) :: u8) = x" for x :: u8 by (intro ucast_up_ucast_id) (simp add: is_up)
    ultimately show ?thesis by metis
  qed
qed

lemma fnv_inj: "fnv1a h xs = fnv1a h' xs \<Longrightarrow> h = h'"
  by (induction xs arbitrary: h h') (auto simp: fnv1a_def dest: fnv_step(1))

lemma fnv_one_byte:
  assumes "k < length xs" and "b \<noteq> xs ! k"
  shows "fnv1a h (xs[k := b]) \<noteq> fnv1a h xs"
proof
  assume eq: "fnv1a h (xs[k := b]) = fnv1a h xs"
  let ?h = "fnv1a h (take k xs)"
  have "fnv1a h (xs[k := b]) = fnv1a ((?h XOR ucast b) * 16777619) (drop (Suc k) xs)"
    using assms(1) by (simp add: upd_conv_take_nth_drop fnv1a_def)
  moreover have "fnv1a h xs = fnv1a ((?h XOR ucast (xs ! k)) * 16777619) (drop (Suc k) xs)"
    by (subst id_take_nth_drop[OF assms(1)]) (simp add: fnv1a_def)
  ultimately have "(?h XOR ucast b) * 16777619 = (?h XOR ucast (xs ! k)) * 16777619" using eq fnv_inj by metis
  then show False using fnv_step(2) assms(2) by blast
qed

text \<open>
  C30: a damaged record is noticed. Whatever record \<open>encode_node_record\<close> writes is read back
  as it was, and changing any one byte of its vector, neighbours or codes makes
  \<open>decode_node_record\<close> throw the checksum error.
\<close>

theorem record_corruption_detected:
  assumes "encode_node_record i (Some vec) dim neighbors (Some buf) 4096 codes code_bytes = Inr page"
    and "unat dim \<le> length vec" and "length neighbors < 2 ^ 32"
  shows "decode_node_record (Some page) 4096 =
      Inr \<lparr>nr_node_id = i, nr_degree = word_of_nat (length neighbors), nr_dim = word_of_nat (unat dim),
        nr_neighbor_pq_code_bytes = code_bytes, nr_vector = take (unat dim) vec, nr_neighbors = neighbors,
        nr_neighbor_pq_codes = codes\<rparr> \<and>
    (\<forall>k b. 32 \<le> k \<longrightarrow> k < 32 + unat dim * 4 + length neighbors * 4 + length codes \<longrightarrow> b \<noteq> page ! k \<longrightarrow>
      decode_node_record (Some (page[k := b])) 4096 = Inl (Runtime_error ''Disk node record checksum mismatch''))"
proof -
  let ?v = "take (unat dim) vec"
  have fits: "record_fits ?v neighbors codes code_bytes" and page: "page = record_page i ?v neighbors codes code_bytes"
    using encode_cases[OF assms] by simp_all
  have len: "length ?v = unat dim" using assms(2) by simp
  have "decode_node_record (Some (page[k := b])) 4096 = Inl (Runtime_error ''Disk node record checksum mismatch'')"
    if k: "32 \<le> k" "k < 32 + unat dim * 4 + length neighbors * 4 + length codes" "b \<noteq> page ! k" for k b
  proof -
    define P where "P = record_payload ?v neighbors codes"
    define zeros where "zeros = (replicate (4096 - (32 + length P)) 0 :: bytes)"
    define H where "H = node_header_bytes (record_header i ?v neighbors codes code_bytes)"
    have lenP: "length P = length ?v * 4 + length neighbors * 4 + length codes" by (simp add: P_def record_payload_def)
    have lenH: "length H = 32" by (simp add: H_def)
    have pg: "page = H @ P @ zeros" by (simp add: page record_page_def P_def zeros_def H_def)
    have at: "k - 32 < length P" using k(1,2) lenP len by simp
    let ?P = "P[k - 32 := b]"
    have upd: "page[k := b] = H @ ?P @ zeros" using k(1) at by (simp add: pg list_update_append lenH)
    have "b \<noteq> P ! (k - 32)" using k(1,3) at by (simp add: pg nth_append lenH)
    from fnv_one_byte[OF at this] have ne: "fnv1a 2166136261 ?P \<noteq> fnv1a 2166136261 P" .
    have split: "?P = take (length ?v * 4) ?P @ take (length neighbors * 4) (drop (length ?v * 4) ?P) @
        drop (length ?v * 4 + length neighbors * 4) ?P"
      using append_take_drop_id[of "length neighbors * 4" "drop (length ?v * 4) ?P"] by (simp add: add.commute)
    have parts: "length (take (length ?v * 4) ?P) = length ?v * 4"
      "length (take (length neighbors * 4) (drop (length ?v * 4) ?P)) = length neighbors * 4"
      "length (drop (length ?v * 4 + length neighbors * 4) ?P) = length codes" using lenP by simp_all
    show ?thesis
      unfolding upd H_def decode_payload[OF fits split parts, of i zeros] P_def[symmetric] using ne by (simp only: if_True simp_thms)
  qed
  then show ?thesis using decode_page[OF fits] len by (simp add: page)
qed

theorem record_corruption_detected_witness:
  "\<exists>page. encode_node_record 3 (Some [5, 6]) 2 [8] (Some []) 4096 [9] 1 = Inr page \<and>
    (\<exists>node. decode_node_record (Some page) 4096 = Inr node \<and> nr_vector node = [5, 6] \<and> nr_neighbors node = [8]) \<and>
    (\<forall>b. b \<noteq> page ! 40 \<longrightarrow>
      decode_node_record (Some (page[40 := b])) 4096 = Inl (Runtime_error ''Disk node record checksum mismatch''))"
proof -
  let ?page = "record_page 3 [5, 6] [8] [9] 1"
  have run: "encode_node_record 3 (Some [5, 6]) 2 [8] (Some []) 4096 [9] 1 = Inr ?page"
    by (rule encode_page) (simp_all add: record_fits_def)
  note found = record_corruption_detected[OF run]
  show ?thesis
  proof (intro exI conjI allI impI)
    show "encode_node_record 3 (Some [5, 6]) 2 [8] (Some []) 4096 [9] 1 = Inr ?page" by (rule run)
    show "decode_node_record (Some (?page[40 := b])) 4096 = Inl (Runtime_error ''Disk node record checksum mismatch'')"
      if "b \<noteq> ?page ! 40" for b
      using found that by simp
    show "decode_node_record (Some ?page) 4096 = Inr \<lparr>nr_node_id = 3, nr_degree = 1, nr_dim = 2,
        nr_neighbor_pq_code_bytes = 1, nr_vector = [5, 6], nr_neighbors = [8], nr_neighbor_pq_codes = [9]\<rparr>"
      using found by simp
  qed simp_all
qed

end
