(* ===== verification/DiskIndex.thy ===== *)
theory DiskIndex
  imports DiskRecord
begin

text \<open>
  \<open>storage/disk_index_writer.h\<close>, \<open>storage/disk_index_reader.h\<close> and their sources, on Linux with
  direct I/O: an index file is a header page followed by one page per node. The stream branches
  of other systems are not modelled.
\<close>

section \<open>Positioned reads and writes\<close>

text \<open>
  The loop over \<open>::pwrite\<close>: it writes everything, or some prefix and then fails; with direct I/O
  a partial write is an error of its own. A write behind
  the end of the file leaves zeros in between.
\<close>

definition write_at :: "nat \<Rightarrow> bytes \<Rightarrow> bytes \<Rightarrow> bytes" where
  "write_at k bs content = take k (content @ replicate (k - length content) 0) @ bs @ drop (k + length bs) content"

definition off_t_ok :: "u64 \<Rightarrow> nat \<Rightarrow> bool" where
  "off_t_ok offset n \<longleftrightarrow> unat offset \<le> 2 ^ 63 - 1 \<and> n \<le> 2 ^ 63 - 1 - unat offset"

definition write_posix_page :: "bool \<Rightarrow> string \<Rightarrow> bytes \<Rightarrow> u64 \<Rightarrow> disk \<Rightarrow> unit result \<times> disk" where
  "write_posix_page direct path buffer offset d =
     (if \<not> off_t_ok offset (length buffer) then (Inl (Runtime_error ''Disk index offset exceeds off_t range''), d)
      else case next_outcome d of
        (Done, d) \<Rightarrow> (Inr (), put_file path (write_at (unat offset) buffer (file_bytes path d)) d)
      | (Failed n, d) \<Rightarrow> (Inl (Runtime_error
            (if direct \<and> 0 < n then ''Short O_DIRECT write while writing disk index'' else ''Failed to write disk index'')),
          put_file path (write_at (unat offset) (take n buffer) (file_bytes path d)) d))"

definition read_posix_page :: "bool \<Rightarrow> string \<Rightarrow> nat \<Rightarrow> u64 \<Rightarrow> disk \<Rightarrow> bytes result \<times> disk" where
  "read_posix_page direct path n offset d =
     (if \<not> off_t_ok offset n then (Inl (Runtime_error ''Disk index offset exceeds off_t range''), d)
      else (let (ok, d) = io_call d; got = take n (drop (unat offset) (file_bytes path d))
            in if \<not> ok then (Inl (Runtime_error ''Failed to read disk index''), d)
               else if length got < n
               then (Inl (Runtime_error (if direct \<and> got \<noteq> [] then ''Short O_DIRECT read while reading disk index''
                 else ''Short read while reading disk index'')), d)
               else (Inr got, d)))"

section \<open>Writer\<close>

record index_writer =
  xw_path :: string
  xw_dim :: u32
  xw_max_degree :: u32
  xw_use_direct_io :: bool
  xw_header_written :: bool
  xw_closed :: bool
  xw_fd_open :: bool
  xw_header :: index_file_header

definition default_index_header :: index_file_header where
  "default_index_header = \<lparr>ih_magic = kDiskIndexFileMagic, ih_version = kDiskIndexVersion, ih_dim = 0, ih_max_degree = 0,
     ih_num_nodes = 0, ih_record_size = word_of_nat kDiskIndexPageSize, ih_header_size = word_of_nat kDiskIndexPageSize,
     ih_entry_node = 0\<rparr>"

definition DiskIndexWriter :: "string \<Rightarrow> u32 \<Rightarrow> u32 \<Rightarrow> bool \<Rightarrow> disk \<Rightarrow> index_writer result \<times> disk" where
  "DiskIndexWriter path dim max_degree use_direct_io d =
     (case validate_disk_record_shape dim max_degree 0 of
        Inl e \<Rightarrow> (Inl e, d)
      | Inr _ \<Rightarrow>
          (let (ok, d) = io_call d
           in if \<not> ok then (Inl (Runtime_error ''Cannot create disk index''), d)
              else (Inr \<lparr>xw_path = path, xw_dim = dim, xw_max_degree = max_degree, xw_use_direct_io = use_direct_io,
                     xw_header_written = False, xw_closed = False, xw_fd_open = True,
                     xw_header = default_index_header\<rparr>, put_file path [] d)))"

definition write_page_at :: "bytes \<Rightarrow> u64 \<Rightarrow> index_writer \<Rightarrow> disk \<Rightarrow> unit result \<times> disk" where
  "write_page_at buffer offset w d = write_posix_page (xw_use_direct_io w) (xw_path w) buffer offset d"

definition index_write_header :: "u64 \<Rightarrow> u64 \<Rightarrow> index_writer \<Rightarrow> disk \<Rightarrow> unit result \<times> index_writer \<times> disk" where
  "index_write_header num_nodes entry_node w d =
     (if xw_closed w then (Inl (Runtime_error ''Cannot write to closed disk index writer''), w, d)
      else case make_index_file_header (xw_dim w) (xw_max_degree w) num_nodes entry_node of
        Inl e \<Rightarrow> (Inl e, w, d)
      | Inr header \<Rightarrow>
          (let w = w\<lparr>xw_header := header\<rparr>
           in case allocate_aligned_buffer True kDiskIndexPageSize of
                Inl e \<Rightarrow> (Inl e, w, d)
              | Inr page \<Rightarrow>
                  (case write_page_at (put_page_bytes 0 (index_header_bytes header) page) 0 w d of
                     (Inl e, d) \<Rightarrow> (Inl e, w, d)
                   | (Inr _, d) \<Rightarrow> (Inr (), w\<lparr>xw_header_written := True\<rparr>, d))))"

definition index_write_node ::
  "u32 \<Rightarrow> f32 list option \<Rightarrow> u32 \<Rightarrow> u32 list \<Rightarrow> u8 list \<Rightarrow> u16 \<Rightarrow> index_writer \<Rightarrow> disk \<Rightarrow> unit result \<times> disk" where
  "index_write_node node_id vector dim neighbors codes code_bytes w d =
     (if xw_closed w then (Inl (Runtime_error ''Cannot write to closed disk index writer''), d)
      else if \<not> xw_header_written w then (Inl (Runtime_error ''Disk index header must be written before records''), d)
      else if dim \<noteq> xw_dim w then (Inl (Runtime_error ''Disk node dimension does not match index header''), d)
      else if unat (xw_max_degree w) < length neighbors
      then (Inl (Runtime_error ''Disk node degree exceeds index max_degree''), d)
      else case seq_result (allocate_aligned_buffer True kDiskIndexPageSize) (\<lambda>page.
             seq_result (encode_node_record node_id vector dim neighbors (Some page) kDiskIndexPageSize codes code_bytes) (\<lambda>page.
             seq_result (disk_record_offset node_id (xw_header w)) (\<lambda>offset. Inr (page, offset)))) of
        Inl e \<Rightarrow> (Inl e, d)
      | Inr (page, offset) \<Rightarrow> write_page_at page offset w d)"

definition index_writer_close :: "index_writer \<Rightarrow> disk \<Rightarrow> unit result \<times> index_writer \<times> disk" where
  "index_writer_close w d =
     (if xw_closed w then (Inr (), w, d)
      else if xw_fd_open w
      then (let (synced, d) = io_call d; w' = w\<lparr>xw_fd_open := False, xw_closed := True\<rparr>
            in if \<not> synced then (Inl (Runtime_error ''Failed to fsync disk index''), w', d)
               else (let (closed, d) = io_call d
                     in (throw_if (\<not> closed) (Runtime_error ''Failed to close disk index''), w', d)))
      else (Inr (), w\<lparr>xw_closed := True\<rparr>, d))"

section \<open>Reader\<close>

record index_reader =
  xr_path :: string
  xr_use_direct_io :: bool
  xr_closed :: bool
  xr_fd_open :: bool
  xr_header :: index_file_header

definition DiskIndexReader :: "string \<Rightarrow> bool \<Rightarrow> disk \<Rightarrow> index_reader result \<times> disk" where
  "DiskIndexReader path use_direct_io d =
     (let (ok, d) = io_call d
      in if \<not> ok \<or> \<not> file_exists path d then (Inl (Runtime_error ''Cannot open disk index''), d)
         else case read_posix_page use_direct_io path kDiskIndexPageSize 0 d of
           (Inl e, d) \<Rightarrow> (Inl e, d)
         | (Inr page, d) \<Rightarrow>
             (let header = index_header_of page
              in (seq_result (validate_index_file_header header) (\<lambda>_.
                    Inr \<lparr>xr_path = path, xr_use_direct_io = use_direct_io, xr_closed = False, xr_fd_open = True,
                      xr_header = header\<rparr>), d)))"

text \<open>The buffer is null, or it is aligned to a page or not.\<close>

definition read_node_into :: "u32 \<Rightarrow> bool option \<Rightarrow> index_reader \<Rightarrow> disk \<Rightarrow> bytes result \<times> disk" where
  "read_node_into node_id aligned_buffer r d =
     (if xr_closed r then (Inl (Runtime_error ''Cannot read from closed disk index reader''), d)
      else case aligned_buffer of
        None \<Rightarrow> (Inl (Runtime_error ''Disk index read buffer is null''), d)
      | Some aligned \<Rightarrow>
          if xr_use_direct_io r \<and> \<not> aligned then (Inl (Runtime_error ''O_DIRECT buffer is not 4096-byte aligned''), d)
          else case disk_record_offset node_id (xr_header r) of
            Inl e \<Rightarrow> (Inl e, d)
          | Inr offset \<Rightarrow> read_posix_page (xr_use_direct_io r) (xr_path r) kDiskIndexPageSize offset d)"

definition index_read_node :: "u32 \<Rightarrow> index_reader \<Rightarrow> disk \<Rightarrow> node_record result \<times> disk" where
  "index_read_node node_id r d =
     (case allocate_aligned_buffer True kDiskIndexPageSize of
        Inl e \<Rightarrow> (Inl e, d)
      | Inr _ \<Rightarrow>
     (case read_node_into node_id (Some True) r d of
        (Inl e, d) \<Rightarrow> (Inl e, d)
      | (Inr page, d) \<Rightarrow>
          (seq_result (decode_node_record (Some page) kDiskIndexPageSize) (\<lambda>record.
             if nr_node_id record \<noteq> node_id then Inl (Runtime_error ''Disk node id does not match requested offset'')
             else if ucast (nr_dim record) \<noteq> ih_dim (xr_header r)
             then Inl (Runtime_error ''Disk node dimension does not match header'')
             else if ih_max_degree (xr_header r) < ucast (nr_degree record)
             then Inl (Runtime_error ''Disk node degree exceeds header max_degree'')
             else Inr record), d)))"

definition index_reader_close :: "index_reader \<Rightarrow> disk \<Rightarrow> unit result \<times> index_reader \<times> disk" where
  "index_reader_close r d =
     (if xr_closed r then (Inr (), r, d)
      else if xr_fd_open r
      then (let (ok, d) = io_call d
            in (throw_if (\<not> ok) (Runtime_error ''Failed to close disk index''), r\<lparr>xr_fd_open := False, xr_closed := True\<rparr>, d))
      else (Inr (), r\<lparr>xr_closed := True\<rparr>, d))"

section \<open>The pages of a file\<close>

lemma write_at_nth:
  assumes "i < length (write_at k bs c)"
  shows "write_at k bs c ! i = (if k \<le> i \<and> i < k + length bs then bs ! (i - k) else if i < length c then c ! i else 0)"
  using assms by (auto simp: write_at_def nth_append min_def not_less)

lemma length_write_at [simp]: "length (write_at k bs c) = max (length c) (k + length bs)"
  by (simp add: write_at_def)

definition page_start :: "u32 \<Rightarrow> nat" where
  "page_start i = 4096 + unat i * 4096"

definition page_holds :: "bytes \<Rightarrow> u32 \<Rightarrow> bytes \<Rightarrow> bool" where
  "page_holds c i page \<longleftrightarrow> page_start i + 4096 \<le> length c \<and> take 4096 (drop (page_start i) c) = page"

definition page_blank :: "bytes \<Rightarrow> u32 \<Rightarrow> bool" where
  "page_blank c i \<longleftrightarrow> (\<forall>k<length c. page_start i \<le> k \<longrightarrow> k < page_start i + 4096 \<longrightarrow> c ! k = 0)"

lemma page_holds_nth:
  "length page = 4096 \<Longrightarrow> page_holds c i page \<longleftrightarrow>
    page_start i + 4096 \<le> length c \<and> (\<forall>k<4096. c ! (page_start i + k) = page ! k)"
  by (auto simp: page_holds_def list_eq_iff_nth_eq)

lemma pages_disjoint: "i \<noteq> j \<Longrightarrow> page_start i + 4096 \<le> page_start j \<or> page_start j + 4096 \<le> page_start i"
proof -
  assume "i \<noteq> j"
  then have "unat i \<noteq> unat j" by (simp only: word_unat_eq_iff) simp
  then show ?thesis unfolding page_start_def by linarith
qed

lemma write_page:
  assumes "length page = 4096"
  shows "page_holds (write_at (page_start j) page c) j page"
    and "i \<noteq> j \<Longrightarrow> length p = 4096 \<Longrightarrow> page_holds c i p \<Longrightarrow> page_holds (write_at (page_start j) page c) i p"
    and "i \<noteq> j \<Longrightarrow> page_blank c i \<Longrightarrow> page_blank (write_at (page_start j) page c) i"
    and "4096 \<le> length c \<Longrightarrow> take 4096 (write_at (page_start j) page c) = take 4096 c"
proof -
  show "page_holds (write_at (page_start j) page c) j page"
    using assms by (simp add: page_holds_nth write_at_nth)
  show "page_holds (write_at (page_start j) page c) i p" if "i \<noteq> j" "length p = 4096" "page_holds c i p"
    using assms that pages_disjoint[OF that(1)] by (auto simp: page_holds_nth write_at_nth)
  show "page_blank (write_at (page_start j) page c) i" if "i \<noteq> j" "page_blank c i"
    using assms that(2) pages_disjoint[OF that(1)] by (auto simp: page_blank_def write_at_nth)
  show "take 4096 (write_at (page_start j) page c) = take 4096 c" if "4096 \<le> length c"
    using that by (simp add: write_at_def page_start_def)
qed

section \<open>Writing an index and reading it back\<close>

text \<open>A node as the builder hands it over: identifier, vector, neighbours, codes, bytes per code.\<close>

type_synonym node_input = "u32 \<times> f32 list \<times> u32 list \<times> u8 list \<times> u16"

fun index_write_nodes :: "node_input list \<Rightarrow> index_writer \<Rightarrow> disk \<Rightarrow> unit result \<times> disk" where
  "index_write_nodes [] w d = (Inr (), d)"
| "index_write_nodes ((i, vec, neighbors, codes, code_bytes) # nodes) w d =
     (case index_write_node i (Some vec) (xw_dim w) neighbors codes code_bytes w d of
        (Inl e, d) \<Rightarrow> (Inl e, d)
      | (Inr _, d) \<Rightarrow> index_write_nodes nodes w d)"

definition input_record :: "node_input \<Rightarrow> node_record" where
  "input_record = (\<lambda>(i, vec, neighbors, codes, code_bytes).
     \<lparr>nr_node_id = i, nr_degree = word_of_nat (length neighbors), nr_dim = word_of_nat (length vec),
      nr_neighbor_pq_code_bytes = code_bytes, nr_vector = vec, nr_neighbors = neighbors, nr_neighbor_pq_codes = codes\<rparr>)"

definition input_page :: "node_input \<Rightarrow> bytes" where
  "input_page = (\<lambda>(i, vec, neighbors, codes, code_bytes). record_page i vec neighbors codes code_bytes)"

text \<open>The last input for a node counts.\<close>

definition last_inputs :: "node_input list \<Rightarrow> u32 \<Rightarrow> node_input option" where
  "last_inputs nodes = map_of (rev (map (\<lambda>node. (fst node, node)) nodes))"

definition input_ok :: "index_file_header \<Rightarrow> node_input \<Rightarrow> bool" where
  "input_ok h = (\<lambda>(i, vec, neighbors, codes, code_bytes). record_fits vec neighbors codes code_bytes \<and>
     length vec = unat (ih_dim h) \<and> length neighbors \<le> unat (ih_max_degree h) \<and> ucast i < ih_num_nodes h)"

definition index_holds :: "index_file_header \<Rightarrow> (u32 \<Rightarrow> node_input option) \<Rightarrow> bytes \<Rightarrow> bool" where
  "index_holds h m c \<longleftrightarrow> 4096 \<le> length c \<and> take 4096 c = index_header_bytes h \<and>
     (\<forall>i. case m i of None \<Rightarrow> page_blank c i
        | Some node \<Rightarrow> fst node = i \<and> input_ok h node \<and> page_holds c i (input_page node))"

definition header_valid :: "index_file_header \<Rightarrow> bool" where
  "header_valid h \<longleftrightarrow> validate_index_file_header h = Inr () \<and> ih_record_size h = 4096 \<and> ih_header_size h = 4096"

lemma input_page_length: "input_ok h node \<Longrightarrow> length (input_page node) = 4096"
  by (auto simp: input_ok_def input_page_def split: prod.splits)

lemma make_header_valid:
  assumes "make_index_file_header dim max_degree n entry = Inr h"
  shows "header_valid h" "ih_dim h = dim" "ih_max_degree h = max_degree" "ih_num_nodes h = n"
  using assms by (auto simp: make_index_file_header_def header_valid_def validate_index_file_header_def result_iffs
      kDiskIndexPageSize_def throw_if_def split: if_splits)

lemma record_offset:
  assumes "header_valid h"
  shows "disk_record_offset i h =
    (if ih_num_nodes h \<le> ucast i then Inl (Out_of_range ''Disk index node id is out of range'')
     else Inr (word_of_nat (page_start i)))"
    and "unat (word_of_nat (page_start i) :: u64) = page_start i" and "off_t_ok (word_of_nat (page_start i)) 4096"
proof -
  have i: "unat i < 2 ^ 32" using unsigned_less[of i] by simp
  then show u: "unat (word_of_nat (page_start i) :: u64) = page_start i"
    by (simp only: unat_of_nat page_start_def) simp
  show "off_t_ok (word_of_nat (page_start i)) 4096" unfolding off_t_ok_def u using i by (simp add: page_start_def)
  have "(ucast i :: u64) = word_of_nat (unat i)" by simp
  then have off: "4096 + ucast i * 4096 = (word_of_nat (page_start i) :: u64)" by (simp add: page_start_def)
  have ui: "unat (ucast i :: u64) = unat i" using i by (simp add: unsigned_ucast_eq take_bit_eq_mod)
  have "\<not> (- 1 - 4096) div 4096 < (ucast i :: u64)"
    using i by (simp add: word_less_nat_alt ui unat_div)
  then show "disk_record_offset i h =
    (if ih_num_nodes h \<le> ucast i then Inl (Out_of_range ''Disk index node id is out of range'')
     else Inr (word_of_nat (page_start i)))"
    using assms off by (simp add: disk_record_offset_def header_valid_def Let_def)
qed

lemma write_posix_page_done:
  assumes "write_posix_page direct path buffer offset d = (Inr u, d')"
  shows "file_bytes path d' = write_at (unat offset) buffer (file_bytes path d)" "file_exists path d'"
  using assms by (auto simp: write_posix_page_def file_exists_def file_bytes_def dest: next_outcome_files
      split: if_splits prod.splits io_outcome.splits)

lemma index_write_node_done:
  assumes run: "index_write_node i (Some vec) (xw_dim w) neighbors codes code_bytes w d = (Inr u, d')"
    and h: "header_valid (xw_header w)" "ih_dim (xw_header w) = xw_dim w" "ih_max_degree (xw_header w) = xw_max_degree w"
    and len: "length vec = unat (xw_dim w)"
  shows "input_ok (xw_header w) (i, vec, neighbors, codes, code_bytes)"
    "file_bytes (xw_path w) d' = write_at (page_start i) (record_page i vec neighbors codes code_bytes) (file_bytes (xw_path w) d)"
    "file_exists (xw_path w) d'"
proof -
  have degree: "length neighbors \<le> unat (xw_max_degree w)" using run by (auto simp: index_write_node_def split: if_splits)
  moreover have "unat (xw_max_degree w) < 2 ^ 32" using unsigned_less[of "xw_max_degree w"] by simp
  ultimately have small: "length neighbors < 2 ^ 32" by linarith
  obtain page offset where page: "encode_node_record i (Some vec) (xw_dim w) neighbors (Some (replicate 4096 0)) 4096 codes code_bytes = Inr page"
    and offset: "disk_record_offset i (xw_header w) = Inr offset"
    and written: "write_posix_page (xw_use_direct_io w) (xw_path w) page offset d = (Inr u, d')"
    using run by (auto simp: index_write_node_def allocate_aligned_buffer_def kDiskIndexPageSize_def write_page_at_def
        seq_result_Inr_iff split: if_splits sum.splits prod.splits)
  have rec: "record_fits vec neighbors codes code_bytes" "page = record_page i vec neighbors codes code_bytes"
    using encode_cases[OF page _ small] len by simp_all
  have off: "ucast i < ih_num_nodes (xw_header w)" "offset = word_of_nat (page_start i)"
    using offset record_offset(1)[OF h(1), of i] by (auto split: if_splits)
  show "input_ok (xw_header w) (i, vec, neighbors, codes, code_bytes)" using rec(1) off(1) degree len h by (simp add: input_ok_def)
  show "file_bytes (xw_path w) d' = write_at (page_start i) (record_page i vec neighbors codes code_bytes) (file_bytes (xw_path w) d)"
    "file_exists (xw_path w) d'"
    using write_posix_page_done[OF written] record_offset(2)[OF h(1), of i] by (simp_all only: off(2) rec(2))
qed

lemma holds_write:
  assumes "index_holds h m c" and "input_ok h node"
  shows "index_holds h (m(fst node \<mapsto> node)) (write_at (page_start (fst node)) (input_page node) c)"
proof -
  note len = input_page_length[OF assms(2)]
  have other: "case m i of None \<Rightarrow> page_blank (write_at (page_start (fst node)) (input_page node) c) i
    | Some n \<Rightarrow> fst n = i \<and> input_ok h n \<and> page_holds (write_at (page_start (fst node)) (input_page node) c) i (input_page n)"
    if "i \<noteq> fst node" for i
  proof -
    have m: "case m i of None \<Rightarrow> page_blank c i | Some n \<Rightarrow> fst n = i \<and> input_ok h n \<and> page_holds c i (input_page n)"
      using assms(1) by (simp add: index_holds_def)
    show ?thesis
      using m that write_page(2)[OF len that input_page_length] write_page(3)[OF len that] by (auto split: option.splits)
  qed
  have "4096 \<le> length c" "take 4096 c = index_header_bytes h" using assms(1) by (simp_all add: index_holds_def)
  then show ?thesis
    using other write_page(1)[OF len] write_page(4)[OF len] assms(2) by (auto simp: index_holds_def)
qed

lemma index_write_nodes_done:
  assumes "index_write_nodes nodes w d = (Inr u, d')"
    and h: "header_valid (xw_header w)" "ih_dim (xw_header w) = xw_dim w" "ih_max_degree (xw_header w) = xw_max_degree w"
    and len: "\<forall>(i, vec, rest)\<in>set nodes. length vec = unat (xw_dim w)"
    and holds: "index_holds (xw_header w) m (file_bytes (xw_path w) d)" and ex: "file_exists (xw_path w) d"
  shows "index_holds (xw_header w) (m ++ last_inputs nodes) (file_bytes (xw_path w) d') \<and> file_exists (xw_path w) d'"
  using assms(1) len holds ex
proof (induction nodes arbitrary: d m)
  case Nil
  then show ?case by (simp add: last_inputs_def)
next
  case (Cons node nodes)
  obtain i vec neighbors codes code_bytes where node: "node = (i, vec, neighbors, codes, code_bytes)" by (cases node)
  obtain d1 where 1: "index_write_node i (Some vec) (xw_dim w) neighbors codes code_bytes w d = (Inr (), d1)"
    and 2: "index_write_nodes nodes w d1 = (Inr u, d')"
    using Cons.prems(1) by (auto simp: node split: prod.splits sum.splits)
  have "length vec = unat (xw_dim w)" using Cons.prems(2) by (simp add: node)
  note wr = index_write_node_done[OF 1 h this]
  have one: "index_holds (xw_header w) (m(fst node \<mapsto> node)) (file_bytes (xw_path w) d1)"
    using holds_write[OF Cons.prems(3) wr(1)] wr(2) by (simp add: node input_page_def)
  have "\<forall>(i, vec, rest)\<in>set nodes. length vec = unat (xw_dim w)" using Cons.prems(2) by simp
  note Cons.IH[OF 2 this one wr(3)]
  moreover have "m(fst node \<mapsto> node) ++ last_inputs nodes = m ++ last_inputs (node # nodes)"
    by (rule ext) (simp add: last_inputs_def map_add_def map_of_append split: option.split)
  ultimately show ?case by (simp only:)
qed

lemma index_write_header_done:
  assumes "DiskIndexWriter path dim max_degree direct d = (Inr w, d1)" and "index_write_header n entry w d1 = (Inr u, w', d2)"
  shows "header_valid (xw_header w')" "ih_dim (xw_header w') = xw_dim w'" "ih_max_degree (xw_header w') = xw_max_degree w'"
    "ih_num_nodes (xw_header w') = n" "xw_dim w' = dim" "xw_path w' = path"
    "index_holds (xw_header w') Map.empty (file_bytes path d2)" "file_exists path d2"
proof -
  have w: "xw_path w = path" "xw_dim w = dim" "xw_max_degree w = max_degree" "file_bytes path d1 = []"
    using assms(1) by (auto simp: DiskIndexWriter_def split: sum.splits prod.splits if_splits)
  have page: "put_page_bytes 0 (index_header_bytes h) (replicate 4096 0) = index_header_bytes h" for h by (simp add: put_page_bytes_def)
  obtain h where h: "make_index_file_header dim max_degree n entry = Inr h"
    and written: "write_posix_page (xw_use_direct_io w) path (index_header_bytes h) 0 d1 = (Inr (), d2)"
    and w': "xw_header w' = h" "xw_dim w' = dim" "xw_path w' = path" "xw_max_degree w' = max_degree"
    using assms(2) w by (auto simp: index_write_header_def allocate_aligned_buffer_def kDiskIndexPageSize_def write_page_at_def page Let_def
        split: if_splits sum.splits prod.splits)
  note hv = make_header_valid[OF h]
  show "header_valid (xw_header w')" "ih_dim (xw_header w') = xw_dim w'" "ih_max_degree (xw_header w') = xw_max_degree w'"
    "ih_num_nodes (xw_header w') = n" "xw_dim w' = dim" "xw_path w' = path"
    using hv w' by simp_all
  have "file_bytes path d2 = index_header_bytes h"
    using write_posix_page_done(1)[OF written] w(4) by (simp add: write_at_def)
  then show "index_holds (xw_header w') Map.empty (file_bytes path d2)"
    by (simp add: index_holds_def w' page_blank_def page_start_def)
  show "file_exists path d2" by (rule write_posix_page_done(2)[OF written])
qed

lemma index_close_done:
  "index_writer_close w d = (Inr u, w', d') \<Longrightarrow> files d' = files d"
  by (auto simp: index_writer_close_def Let_def dest!: io_call_files split: if_splits prod.splits)

text \<open>Reading a page on a working disk.\<close>

lemma read_page_reliable:
  assumes "outcomes d = []" and "header_valid h"
  shows "read_posix_page direct path 4096 (word_of_nat (page_start i)) d =
    (let got = take 4096 (drop (page_start i) (file_bytes path d))
     in (if length got < 4096 then Inl (Runtime_error (if direct \<and> got \<noteq> [] then ''Short O_DIRECT read while reading disk index''
          else ''Short read while reading disk index'')) else Inr got, d))"
  using record_offset(2,3)[OF assms(2), of i] assms(1) by (simp add: read_posix_page_def Let_def)

lemma take_four:
  "4 \<le> length xs \<Longrightarrow> take 4 xs = [xs ! 0, xs ! 1, xs ! 2, xs ! 3]"
  by (auto simp: numeral_eq_Suc Suc_le_length_iff)

lemma blank_not_a_record:
  assumes "page_blank c i" and "length (take 4096 (drop (page_start i) c)) = 4096"
  shows "decode_node_record (Some (take 4096 (drop (page_start i) c))) 4096 = Inl (Runtime_error ''Invalid disk node record magic'')"
proof -
  have zero: "c ! (page_start i + k) = 0" if "k < 4" for k
    using assms that by (auto simp: page_blank_def)
  have "take 4 (drop (page_start i) c) =
      [c ! (page_start i + 0), c ! (page_start i + 1), c ! (page_start i + 2), c ! (page_start i + 3)]"
    using assms(2) take_four[of "drop (page_start i) c"] by simp
  then have four: "take 4 (drop (page_start i) c) = [0, 0, 0, 0]" using zero[of 0] zero[of 1] zero[of 2] zero[of 3] by simp
  have "nh_magic (node_header_of (take 4096 (drop (page_start i) c))) = dec_word [0, 0, 0, 0]"
    by (simp add: node_header_of_def field_at_def min_def four)
  then have "nh_magic (node_header_of (take 4096 (drop (page_start i) c))) \<noteq> kDiskNodeRecordMagic"
    by (simp add: dec_word_def kDiskNodeRecordMagic_def)
  then show ?thesis by (simp add: decode_node_record_def require_exact_page_def kDiskIndexPageSize_def Let_def)
qed

lemma index_reader_open:
  assumes "index_holds h m (file_bytes path d)" and "file_exists path d" and "outcomes d = []" and "header_valid h"
  shows "DiskIndexReader path direct d =
    (Inr \<lparr>xr_path = path, xr_use_direct_io = direct, xr_closed = False, xr_fd_open = True, xr_header = h\<rparr>, d)"
proof -
  have "take 4096 (file_bytes path d) = index_header_bytes h" "4096 \<le> length (file_bytes path d)"
    using assms(1) by (simp_all add: index_holds_def)
  then have "read_posix_page direct path 4096 0 d = (Inr (index_header_bytes h), d)"
    using assms(3) by (simp add: read_posix_page_def off_t_ok_def)
  then show ?thesis using assms(2-4) by (simp add: DiskIndexReader_def kDiskIndexPageSize_def header_valid_def)
qed

lemma index_read_held:
  assumes holds: "index_holds h m (file_bytes path d)" and d: "outcomes d = []" and h: "header_valid h"
    and r: "r = \<lparr>xr_path = path, xr_use_direct_io = direct, xr_closed = False, xr_fd_open = True, xr_header = h\<rparr>"
  shows "case m i of
      Some node \<Rightarrow> index_read_node i r d = (Inr (input_record node), d)
    | None \<Rightarrow> \<exists>e. index_read_node i r d = (Inl e, d)"
proof -
  let ?got = "take 4096 (drop (page_start i) (file_bytes path d))"
  have read: "read_node_into i (Some True) r d = (if ih_num_nodes h \<le> ucast i
      then (Inl (Out_of_range ''Disk index node id is out of range''), d)
      else (if length ?got < 4096 then Inl (Runtime_error (if direct \<and> ?got \<noteq> []
          then ''Short O_DIRECT read while reading disk index'' else ''Short read while reading disk index''))
        else Inr ?got, d))"
    using record_offset(1)[OF h, of i] read_page_reliable[OF d h, of direct path i]
    by (simp add: read_node_into_def r kDiskIndexPageSize_def Let_def)
  have at: "case m i of None \<Rightarrow> page_blank (file_bytes path d) i
      | Some n \<Rightarrow> fst n = i \<and> input_ok h n \<and> page_holds (file_bytes path d) i (input_page n)"
    using holds unfolding index_holds_def by blast
  show ?thesis
  proof (cases "m i")
    case None
    with at have "page_blank (file_bytes path d) i" by simp
    then show ?thesis
      using None read blank_not_a_record[of "file_bytes path d" i]
      by (cases "length ?got < 4096")
        (auto simp: index_read_node_def allocate_aligned_buffer_def kDiskIndexPageSize_def seq_result_def split: if_splits)
  next
    case (Some node)
    obtain vec neighbors codes code_bytes where node: "node = (i, vec, neighbors, codes, code_bytes)"
      and ok: "input_ok h node" and page: "page_holds (file_bytes path d) i (input_page node)"
      using at Some by (cases node) auto
    have fits: "record_fits vec neighbors codes code_bytes" and len: "length vec = unat (ih_dim h)"
      and degree: "length neighbors \<le> unat (ih_max_degree h)" and i: "ucast i < ih_num_nodes h"
      using ok by (simp_all add: input_ok_def node)
    have got: "?got = record_page i vec neighbors codes code_bytes" "\<not> length ?got < 4096"
      using page record_page_length[OF fits] by (auto simp: page_holds_def node input_page_def)
    have small: "length vec \<le> 4096" "length neighbors \<le> 4096" using fits by (auto simp: record_fits_def)
    have "(ucast (word_of_nat (length vec) :: u16) :: u32) = ih_dim h"
      by (rule trans[OF small_words(3)[OF small(1)]]) (simp add: len)
    moreover have "\<not> ih_max_degree h < ucast (word_of_nat (length neighbors) :: u16)"
      unfolding small_words(3)[OF small(2)] word_less_nat_alt small_words(1)[OF small(2)] using degree by simp
    ultimately show ?thesis
      using Some read i decode_page[OF fits, of i] got
      by (simp add: index_read_node_def allocate_aligned_buffer_def kDiskIndexPageSize_def node input_record_def r not_le)
  qed
qed

text \<open>On a disk without faults, a session that hands over good nodes succeeds.\<close>

lemma index_write_node_reliable:
  assumes w: "\<not> xw_closed w" "xw_header_written w" "header_valid (xw_header w)" "ih_max_degree (xw_header w) = xw_max_degree w"
    "ih_dim (xw_header w) = xw_dim w"
    and ok: "input_ok (xw_header w) (i, vec, neighbors, codes, code_bytes)" and d: "outcomes d = []"
  shows "index_write_node i (Some vec) (xw_dim w) neighbors codes code_bytes w d =
    (Inr (), put_file (xw_path w) (write_at (page_start i) (record_page i vec neighbors codes code_bytes)
       (file_bytes (xw_path w) d)) d)"
proof -
  have fits: "record_fits vec neighbors codes code_bytes" and len: "length vec = unat (xw_dim w)"
    and degree: "length neighbors \<le> unat (xw_max_degree w)" and i: "ucast i < ih_num_nodes (xw_header w)"
    using ok w(4,5) by (simp_all add: input_ok_def)
  have page: "encode_node_record i (Some vec) (xw_dim w) neighbors (Some (replicate 4096 0)) 4096 codes code_bytes =
      Inr (record_page i vec neighbors codes code_bytes)"
    by (rule encode_page[OF _ _ fits]) (simp_all add: len[symmetric])
  show ?thesis
    using w(1,2) degree i page record_offset[OF w(3), of i] d record_page_length[OF fits]
    by (simp add: index_write_node_def allocate_aligned_buffer_def kDiskIndexPageSize_def write_page_at_def
        write_posix_page_def not_le)
qed

lemma index_write_nodes_reliable:
  assumes w: "\<not> xw_closed w" "xw_header_written w" "header_valid (xw_header w)" "ih_max_degree (xw_header w) = xw_max_degree w"
    "ih_dim (xw_header w) = xw_dim w"
    and "\<forall>node\<in>set nodes. input_ok (xw_header w) node" and "outcomes d = []"
  shows "\<exists>d'. index_write_nodes nodes w d = (Inr (), d') \<and> outcomes d' = []"
  using assms(6,7)
proof (induction nodes arbitrary: d)
  case (Cons node nodes)
  obtain i vec neighbors codes code_bytes where node: "node = (i, vec, neighbors, codes, code_bytes)" by (cases node)
  have "input_ok (xw_header w) (i, vec, neighbors, codes, code_bytes)" using Cons.prems(1) node by simp
  from index_write_node_reliable[OF w this Cons.prems(2)] show ?case using Cons by (simp add: node)
qed simp

text \<open>
  C31: an index is read back as it was written. When creating it, writing the header and the nodes, in
  any order and more than once, and closing it all succeed, then on a working disk the reader opens
  it and returns for every node the record written last, and throws for every other node.
\<close>

theorem disk_index_roundtrip:
  assumes "DiskIndexWriter path dim max_degree direct d0 = (Inr w0, d1)"
    and "index_write_header n entry w0 d1 = (Inr (), w, d2)"
    and "index_write_nodes nodes w d2 = (Inr (), d3)"
    and "index_writer_close w d3 = (Inr (), w', d4)"
    and "\<forall>(i, vec, rest)\<in>set nodes. length vec = unat dim"
    and "files d = files d4" and "outcomes d = []"
  shows "\<exists>r. DiskIndexReader path direct' d = (Inr r, d) \<and>
    (\<forall>i. case last_inputs nodes i of
       Some node \<Rightarrow> index_read_node i r d = (Inr (input_record node), d)
     | None \<Rightarrow> \<exists>e. index_read_node i r d = (Inl e, d))"
proof -
  note w = index_write_header_done[OF assms(1,2)]
  have holds: "index_holds (xw_header w) Map.empty (file_bytes (xw_path w) d2)" and ex: "file_exists (xw_path w) d2"
    and len: "\<forall>(i, vec, rest)\<in>set nodes. length vec = unat (xw_dim w)" using w assms(5) by simp_all
  have "index_holds (xw_header w) (last_inputs nodes) (file_bytes path d3)" "file_exists path d3"
    using index_write_nodes_done[OF assms(3) w(1,2,3) len holds ex] w(6) by simp_all
  moreover have "files d = files d3" using index_close_done[OF assms(4)] assms(6) by simp
  ultimately have stored: "index_holds (xw_header w) (last_inputs nodes) (file_bytes path d)" "file_exists path d"
    by (simp_all add: file_bytes_def file_exists_def)
  show ?thesis
    using index_reader_open[OF stored assms(7) w(1)] index_read_held[OF stored(1) assms(7) w(1) refl] by fast
qed

theorem disk_index_roundtrip_witness:
  "\<exists>d r. DiskIndexReader ''index'' True d = (Inr r, d) \<and>
    index_read_node 1 r d = (Inr (input_record (1, [7], [0], [3], 1)), d) \<and>
    (\<exists>e. index_read_node 0 r d = (Inl e, d))"
proof -
  let ?d = "\<lparr>files = Map.empty, outcomes = []\<rparr>" and ?nodes = "[(1, [5], [], [], 0), (1, [7], [0], [3], 1)] :: node_input list"
  obtain w0 d1 where open_run: "DiskIndexWriter ''index'' 1 2 True ?d = (Inr w0, d1)" and d1: "outcomes d1 = []"
    and w0: "xw_dim w0 = 1" "xw_max_degree w0 = 2" "\<not> xw_closed w0" "xw_path w0 = ''index''"
    by (simp add: DiskIndexWriter_def validate_disk_record_shape_def disk_record_bytes_def throw_if_def kDiskIndexPageSize_def)
  obtain w d2 where header_run: "index_write_header 2 0 w0 d1 = (Inr (), w, d2)" and d2: "outcomes d2 = []"
    and w: "\<not> xw_closed w" "xw_header_written w" "xw_max_degree w = 2"
    using w0 d1
    by (simp add: index_write_header_def make_index_file_header_def validate_disk_record_shape_def disk_record_bytes_def
        throw_if_def kDiskIndexPageSize_def allocate_aligned_buffer_def write_page_at_def write_posix_page_def off_t_ok_def put_page_bytes_def)
  note hv = index_write_header_done[OF open_run header_run]
  have "\<forall>node\<in>set ?nodes. input_ok (xw_header w) node"
    using hv(2,3,4,5) w(3) by (simp add: input_ok_def record_fits_def)
  from index_write_nodes_reliable[OF w(1,2) hv(1) hv(3) hv(2) this d2]
  obtain d3 where nodes_run: "index_write_nodes ?nodes w d2 = (Inr (), d3)" and d3: "outcomes d3 = []" by auto
  obtain w' where close_run: "index_writer_close w d3 = (Inr (), w', d3)"
    using w(1) d3 by (cases "xw_fd_open w") (simp_all add: index_writer_close_def throw_if_def)
  have len: "\<forall>(i, vec, rest)\<in>set ?nodes. length vec = unat (1 :: u32)" by simp
  obtain r where r: "DiskIndexReader ''index'' True d3 = (Inr r, d3)"
    and nodes: "\<forall>i. case last_inputs ?nodes i of
       Some node \<Rightarrow> index_read_node i r d3 = (Inr (input_record node), d3)
     | None \<Rightarrow> \<exists>e. index_read_node i r d3 = (Inl e, d3)"
    using disk_index_roundtrip[OF open_run header_run nodes_run close_run len refl d3, of True] by blast
  have "index_read_node 1 r d3 = (Inr (input_record (1, [7], [0], [3], 1)), d3)"
    using nodes[rule_format, of 1] by (simp add: last_inputs_def)
  moreover have "\<exists>e. index_read_node 0 r d3 = (Inl e, d3)"
    using nodes[rule_format, of 0] by (simp add: last_inputs_def)
  ultimately show ?thesis using r by blast
qed

end
