(* ===== verification/VamanaBuilder.thy ===== *)
theory VamanaBuilder
  imports BruteForce Bytes
begin

text \<open>
  \<open>graph/vamana_builder.h\<close> and \<open>src/graph/vamana_builder.cpp\<close>: construction of the proximity graph
  that the packed index stores. Every node is searched for in the graph built so far, its
  candidates are pruned, and reverse edges are added. The order of insertion comes from
  \<open>std::shuffle\<close> with a \<open>std::mt19937\<close>, whose result the standard leaves open: it is the argument
  \<open>shuffle\<close>, which maps a seed and a list to a list. The thread-local marks of the search are
  state that one search hands to the next.
\<close>

section \<open>Data\<close>

record vamana_config =
  vc_max_degree :: nat
  vc_search_width :: nat
  vc_alpha :: nat
  vc_seed :: u32
  vc_add_reverse_edges :: bool
  vc_deleted_ids :: "u32 list"

record vamana_stats =
  vt_medoid :: u32
  vt_reverse_edges_added :: nat
  vt_reverse_prune_count :: nat
  vt_prune_count :: nat
  vt_avg_degree :: nat
  vt_max_degree :: nat
  vt_candidate_avg :: nat
  vt_candidate_p95 :: nat
  vt_candidate_p99 :: nat
  vt_candidate_counts :: "nat list"

definition no_vamana_stats :: vamana_stats where
  "no_vamana_stats = \<lparr>vt_medoid = 0, vt_reverse_edges_added = 0, vt_reverse_prune_count = 0, vt_prune_count = 0,
     vt_avg_degree = 0, vt_max_degree = 0, vt_candidate_avg = 0, vt_candidate_p95 = 0, vt_candidate_p99 = 0,
     vt_candidate_counts = []\<rparr>"

type_synonym adjacency = "u32 list list"

record vamana_graph =
  vg_medoid :: u32
  vg_adjacency :: adjacency
  vg_stats :: vamana_stats

record candidate =
  cd_id :: u32
  cd_distance :: f32

definition candidate_closer_first :: "candidate \<Rightarrow> candidate \<Rightarrow> bool" where
  "candidate_closer_first lhs rhs =
     (if f32_eq (cd_distance lhs) (cd_distance rhs) then cd_id rhs < cd_id lhs
      else f32_lt (cd_distance rhs) (cd_distance lhs))"

definition closer_candidate :: "candidate \<Rightarrow> candidate \<Rightarrow> bool" where
  "closer_candidate lhs rhs =
     (if f32_eq (cd_distance lhs) (cd_distance rhs) then cd_id lhs < cd_id rhs
      else f32_lt (cd_distance lhs) (cd_distance rhs))"

definition mix_u32 :: "u32 \<Rightarrow> u32" where
  "mix_u32 value =
     (let value = value XOR drop_bit 16 value;
          value = value * 0x7feb352d;
          value = value XOR drop_bit 15 value;
          value = value * 0x846ca68b
      in value XOR drop_bit 16 value)"

definition contains_id :: "u32 list \<Rightarrow> u32 \<Rightarrow> bool" where
  "contains_id ids target \<longleftrightarrow> target \<in> set ids"

text \<open>The mask is empty when nothing is deleted.\<close>

definition is_deleted :: "bool list \<Rightarrow> nat \<Rightarrow> bool" where
  "is_deleted deleted i \<longleftrightarrow> deleted \<noteq> [] \<and> (length deleted \<le> i \<or> deleted ! i)"

definition unique_step :: "u32 \<Rightarrow> bool list \<Rightarrow> u32 list \<times> u32 set \<Rightarrow> u32 \<Rightarrow> u32 list \<times> u32 set" where
  "unique_step excluded deleted = (\<lambda>(output, seen) i.
     if i = excluded \<or> is_deleted deleted (unat i) then (output, seen)
     else if i \<in> seen then (output, seen) else (output @ [i], insert i seen))"

definition unique_ids :: "u32 list \<Rightarrow> u32 \<Rightarrow> bool list \<Rightarrow> u32 list" where
  "unique_ids ids excluded deleted = fst (foldl (unique_step excluded deleted) ([], {}) ids)"

definition VamanaBuilder :: "vamana_config \<Rightarrow> vamana_config result" where
  "VamanaBuilder config =
     (if vc_max_degree config = 0 then Inl (Runtime_error ''Vamana max_degree must be positive'')
      else if vc_search_width config = 0 then Inl (Runtime_error ''Vamana search_width must be positive'')
      else if fp_lt binary64 (vc_alpha config) (fp_of_nat binary64 1)
      then Inl (Runtime_error ''Vamana alpha must be at least 1.0'')
      else Inr config)"

definition deleted_mask :: "vamana_config \<Rightarrow> nat \<Rightarrow> bool list" where
  "deleted_mask config n =
     (if vc_deleted_ids config = [] then []
      else foldl (\<lambda>deleted i. if unat i < n then deleted[unat i := True] else deleted)
        (replicate n False) (vc_deleted_ids config))"

section \<open>Medoid\<close>

definition add_row :: "vector_set \<Rightarrow> bool list \<Rightarrow> f32 list \<times> nat \<Rightarrow> nat \<Rightarrow> f32 list \<times> nat" where
  "add_row base deleted = (\<lambda>(centroid, valid_count) i.
     if is_deleted deleted i then (centroid, valid_count)
     else (foldl (\<lambda>centroid d. centroid[d := f32_add (centroid ! d) (row_values base i ! d)]) centroid [0..<vs_dim base],
           valid_count + 1))"

definition vamana_medoid_step ::
  "vector_set \<Rightarrow> bool list \<Rightarrow> f32 list \<Rightarrow> u32 \<times> f32 \<Rightarrow> nat \<Rightarrow> u32 \<times> f32" where
  "vamana_medoid_step base deleted centroid = (\<lambda>(best, best_distance) i.
     if is_deleted deleted i then (best, best_distance)
     else (let distance = squared_l2 (row_values base i) centroid (vs_dim base)
           in if f32_lt distance best_distance \<or>
                 (f32_eq distance best_distance \<and> (word_of_nat i :: u32) < best)
              then (word_of_nat i, distance) else (best, best_distance)))"

definition find_medoid :: "vamana_config \<Rightarrow> vector_set \<Rightarrow> u32 result" where
  "find_medoid config base =
     (if vs_empty base \<or> vs_dim base = 0 then Inl (Runtime_error ''Cannot compute medoid for empty vectors'')
      else (let deleted = deleted_mask config (vs_size base);
                (centroid, valid_count) = foldl (add_row base deleted) (replicate (vs_dim base) 0, 0) [0..<vs_size base]
            in if valid_count = 0
               then Inl (Runtime_error ''Cannot compute Vamana medoid: all nodes are deleted'')
               else (let scale = f32_div f32_one (f32_of_nat valid_count);
                         centroid = map (\<lambda>value. f32_mul value scale) centroid;
                         (best, _) = foldl (vamana_medoid_step base deleted centroid) (- 1, f32_max) [0..<vs_size base]
                     in if best = - 1 then Inl (Runtime_error ''Cannot compute Vamana medoid: no valid nodes'')
                        else Inr best)))"

section \<open>Search for candidates\<close>

text \<open>A node is visited when its mark is the current epoch; a new search only advances the epoch.\<close>

record epoch_marks =
  em_visited_epoch :: "u32 list"
  em_current_epoch :: u32

definition next_epoch :: "nat \<Rightarrow> epoch_marks \<Rightarrow> epoch_marks" where
  "next_epoch n em =
     (let em = (if length (em_visited_epoch em) < n then em\<lparr>em_visited_epoch := replicate n 0\<rparr> else em);
          em = (if em_current_epoch em = - 1
                then em\<lparr>em_visited_epoch := replicate (length (em_visited_epoch em)) 0, em_current_epoch := 0\<rparr> else em)
      in em\<lparr>em_current_epoch := em_current_epoch em + 1\<rparr>)"

record construction =
  cs_marks :: epoch_marks
  cs_frontier :: "candidate list"
  cs_explored :: "candidate list"

definition push_node ::
  "vector_set \<Rightarrow> bool list \<Rightarrow> f32 list \<Rightarrow> nat \<Rightarrow> u32 \<Rightarrow> u32 \<Rightarrow> construction \<Rightarrow> construction" where
  "push_node base deleted query n excluded i st =
     (if n \<le> unat i \<or> i = excluded \<or> is_deleted deleted (unat i) then st
      else if em_visited_epoch (cs_marks st) ! unat i = em_current_epoch (cs_marks st) then st
      else st\<lparr>cs_marks := (cs_marks st)\<lparr>em_visited_epoch :=
                 (em_visited_epoch (cs_marks st))[unat i := em_current_epoch (cs_marks st)]\<rparr>,
              cs_frontier := push_by candidate_closer_first
                \<lparr>cd_id = i, cd_distance = squared_l2 query (row_values base (unat i)) (vs_dim base)\<rparr> (cs_frontier st)\<rparr>)"

text \<open>The loop runs while fewer than \<open>search_width\<close> nodes are explored; the argument counts down.\<close>

fun explore :: "(u32 \<Rightarrow> construction \<Rightarrow> construction) \<Rightarrow> adjacency \<Rightarrow> nat \<Rightarrow> construction \<Rightarrow> construction" where
  "explore push graph 0 st = st"
| "explore push graph (Suc left) st =
     (if cs_frontier st = [] then st
      else (let current = last (cs_frontier st);
                st = st\<lparr>cs_frontier := butlast (cs_frontier st), cs_explored := cs_explored st @ [current]\<rparr>
            in explore push graph left (fold push (graph ! unat (cd_id current)) st)))"

definition first_available :: "(u32 \<Rightarrow> construction \<Rightarrow> construction) \<Rightarrow> nat \<Rightarrow> construction \<Rightarrow> construction" where
  "first_available push n st =
     foldl (\<lambda>st i. if cs_frontier st = [] then push (word_of_nat i) st else st) st [0..<n]"

definition search_for_construction ::
  "vamana_config \<Rightarrow> vector_set \<Rightarrow> adjacency \<Rightarrow> f32 list \<Rightarrow> u32 \<Rightarrow> u32 \<Rightarrow> epoch_marks \<Rightarrow> u32 list result \<times> epoch_marks" where
  "search_for_construction config base graph query entry_id excluded_id em =
     (if length graph \<noteq> vs_size base then (Inl (Runtime_error ''Vamana construction graph size mismatch''), em)
      else (let deleted = deleted_mask config (vs_size base)
            in case (if length graph \<le> unat entry_id \<or> is_deleted deleted (unat entry_id)
                     then find_medoid config base else Inr entry_id) of
                 Inl e \<Rightarrow> (Inl e, em)
               | Inr entry_id \<Rightarrow>
                   (let push = push_node base deleted query (length graph) excluded_id;
                        st = \<lparr>cs_marks = next_epoch (length graph) em, cs_frontier = [], cs_explored = []\<rparr>;
                        st = push entry_id st;
                        st = (if cs_frontier st = [] then first_available push (length graph) st else st);
                        st = explore push graph (vc_search_width config) st
                    in (Inr (map cd_id (std_sort closer_candidate (cs_explored st))), cs_marks st))))"

section \<open>Pruning\<close>

fun measure_all :: "vector_set \<Rightarrow> f32 list \<Rightarrow> u32 list \<Rightarrow> candidate list result" where
  "measure_all base source [] = Inr []"
| "measure_all base source (i # ids) =
     seq_result (vs_row base (unat i)) (\<lambda>row.
     seq_result (measure_all base source ids) (\<lambda>pool.
       Inr (\<lparr>cd_id = i, cd_distance = squared_l2 source row (vs_dim base)\<rparr> # pool)))"

definition stays :: "vector_set \<Rightarrow> nat \<Rightarrow> candidate \<Rightarrow> candidate \<Rightarrow> bool" where
  "stays base alpha_sq picked candidate =
     (let between = squared_l2 (row_values base (unat (cd_id picked))) (row_values base (unat (cd_id candidate))) (vs_dim base)
      in fp_lt binary64 (f64_of_f32 (cd_distance candidate)) (fp_mul binary64 alpha_sq (f64_of_f32 between)))"

text \<open>The loop runs while fewer than \<open>effective_degree\<close> nodes are picked; the argument counts down.\<close>

fun prune_loop :: "vector_set \<Rightarrow> nat \<Rightarrow> nat \<Rightarrow> candidate list \<Rightarrow> u32 list \<Rightarrow> u32 list" where
  "prune_loop base alpha_sq 0 pool output = output"
| "prune_loop base alpha_sq (Suc left) [] output = output"
| "prune_loop base alpha_sq (Suc left) (picked # pool) output =
     prune_loop base alpha_sq left (filter (stays base alpha_sq picked) pool) (output @ [cd_id picked])"

definition robust_prune :: "vamana_config \<Rightarrow> vector_set \<Rightarrow> u32 \<Rightarrow> u32 list \<Rightarrow> u32 list result" where
  "robust_prune config base i candidates =
     (if vs_size base \<le> unat i then Inl (Runtime_error ''Vamana robust_prune node id out of range'')
      else (let deleted = deleted_mask config (vs_size base); effective_degree = min (vc_max_degree config) (vs_size base - 1)
            in if is_deleted deleted (unat i) then Inr []
               else if effective_degree = 0 then Inr []
               else seq_result (vs_row base (unat i)) (\<lambda>source.
                 seq_result (measure_all base source (unique_ids candidates i deleted)) (\<lambda>pool.
                   let alpha_sq = fp_mul binary64 (vc_alpha config) (vc_alpha config)
                   in Inr (prune_loop base alpha_sq effective_degree (std_sort closer_candidate pool) [])))))"

section \<open>Insertion\<close>

text \<open>What an insertion reads and writes: the graph, the statistics, if any, and the marks.\<close>

record vamana_state =
  va_graph :: adjacency
  va_stats :: "vamana_stats option"
  va_marks :: epoch_marks

definition count_stats :: "(vamana_stats \<Rightarrow> vamana_stats) \<Rightarrow> vamana_state \<Rightarrow> vamana_state" where
  "count_stats f s = s\<lparr>va_stats := map_option f (va_stats s)\<rparr>"

definition set_neighbors :: "u32 \<Rightarrow> u32 list \<Rightarrow> vamana_state \<Rightarrow> vamana_state" where
  "set_neighbors i neighbors s = s\<lparr>va_graph := (va_graph s)[unat i := neighbors]\<rparr>"

definition add_reverse_edge ::
  "vamana_config \<Rightarrow> vector_set \<Rightarrow> u32 \<Rightarrow> u32 \<Rightarrow> vamana_state \<Rightarrow> unit result \<times> vamana_state" where
  "add_reverse_edge config base source target s =
     (let graph = va_graph s; deleted = deleted_mask config (vs_size base)
      in if length graph \<le> unat target \<or> length graph \<le> unat source \<or> source = target then (Inr (), s)
         else if is_deleted deleted (unat source) \<or> is_deleted deleted (unat target) \<or>
              contains_id (graph ! unat target) source then (Inr (), s)
         else if length (graph ! unat target) < vc_max_degree config
         then (Inr (), count_stats (\<lambda>t. t\<lparr>vt_reverse_edges_added := vt_reverse_edges_added t + 1\<rparr>)
                 (set_neighbors target (graph ! unat target @ [source]) s))
         else (let candidates = graph ! unat target @ [source];
                   s = count_stats (\<lambda>t. t\<lparr>vt_reverse_prune_count := vt_reverse_prune_count t + 1,
                         vt_prune_count := vt_prune_count t + 1\<rparr>) s
               in case robust_prune config base target candidates of
                    Inl e \<Rightarrow> (Inl e, s)
                  | Inr pruned \<Rightarrow>
                      (let s = (if contains_id pruned source
                                then count_stats (\<lambda>t. t\<lparr>vt_reverse_edges_added := vt_reverse_edges_added t + 1\<rparr>) s else s)
                       in (Inr (), set_neighbors target pruned s))))"

fun add_reverse_edges ::
  "vamana_config \<Rightarrow> vector_set \<Rightarrow> u32 \<Rightarrow> u32 list \<Rightarrow> vamana_state \<Rightarrow> unit result \<times> vamana_state" where
  "add_reverse_edges config base source [] s = (Inr (), s)"
| "add_reverse_edges config base source (target # targets) s =
     (case add_reverse_edge config base source target s of
        (Inl e, s) \<Rightarrow> (Inl e, s)
      | (Inr _, s) \<Rightarrow> add_reverse_edges config base source targets s)"

definition vamana_insert ::
  "vamana_config \<Rightarrow> vector_set \<Rightarrow> u32 \<Rightarrow> u32 \<Rightarrow> vamana_state \<Rightarrow> unit result \<times> vamana_state" where
  "vamana_insert config base i entry_id s =
     (if length (va_graph s) \<noteq> vs_size base then (Inl (Runtime_error ''Vamana insert graph size mismatch''), s)
      else if length (va_graph s) \<le> unat i then (Inl (Runtime_error ''Vamana insert node id out of range''), s)
      else (let deleted = deleted_mask config (vs_size base)
            in if is_deleted deleted (unat i) then (Inr (), set_neighbors i [] s)
               else case search_for_construction config base (va_graph s) (row_values base (unat i)) entry_id i (va_marks s) of
                 (Inl e, em) \<Rightarrow> (Inl e, s\<lparr>va_marks := em\<rparr>)
               | (Inr found, em) \<Rightarrow>
                   (let s = s\<lparr>va_marks := em\<rparr>;
                        candidates = unique_ids (found @ va_graph s ! unat i) i deleted;
                        s = count_stats (\<lambda>t. t\<lparr>vt_candidate_counts := vt_candidate_counts t @ [length candidates],
                              vt_prune_count := vt_prune_count t + 1\<rparr>) s
                    in case robust_prune config base i candidates of
                         Inl e \<Rightarrow> (Inl e, s)
                       | Inr neighbors \<Rightarrow>
                           (let s = set_neighbors i neighbors s
                            in if \<not> vc_add_reverse_edges config then (Inr (), s)
                               else add_reverse_edges config base i neighbors s))))"

section \<open>Building\<close>

definition initial_candidates :: "vamana_config \<Rightarrow> nat \<Rightarrow> nat \<Rightarrow> u32 list" where
  "initial_candidates config n i =
     (let ring_degree = min (vc_max_degree config) (n - 1);
          random_degree = max ring_degree (min (vc_search_width config) (n - 1));
          seed = mix_u32 (vc_seed config XOR word_of_nat i)
      in concat (map (\<lambda>offset. [word_of_nat ((i + offset) mod n), word_of_nat ((i + n - offset) mod n)]) [1..<Suc ring_degree]) @
         map (\<lambda>r. word_of_nat (unat (mix_u32 (seed + word_of_nat (r * 0x9e3779b9))) mod n)) [0..<random_degree])"

definition initial_graph :: "vamana_config \<Rightarrow> vector_set \<Rightarrow> bool list \<Rightarrow> adjacency" where
  "initial_graph config base deleted =
     (let n = vs_size base
      in if n \<le> 1 then replicate n []
         else map (\<lambda>i. if is_deleted deleted i then []
                else take (vc_max_degree config)
                  (unique_ids (initial_candidates config n i) (word_of_nat i) deleted)) [0..<n])"

definition build_order :: "(u32 \<Rightarrow> u32 list \<Rightarrow> u32 list) \<Rightarrow> vamana_config \<Rightarrow> nat \<Rightarrow> u32 list" where
  "build_order shuffle config n = shuffle (vc_seed config XOR 0x9e3779b9) (map word_of_nat [0..<n])"

text \<open>Conversion of a finite, non-negative \<open>double\<close> to \<open>std::size_t\<close>.\<close>

definition f64_to_size :: "nat \<Rightarrow> nat" where
  "f64_to_size x = fp_units binary64 (fp_mag binary64 x) div 2 ^ ulp_scale binary64"

definition count_percentile :: "nat list \<Rightarrow> nat \<Rightarrow> nat" where
  "count_percentile xs p =
     (let dbl = fp_of_nat binary64;
          pos = fp_mul binary64 (fp_sub binary64 (dbl (length xs)) (dbl 1)) p;
          lower = f64_to_size pos;
          upper = min (lower + 1) (length xs - 1);
          fraction = fp_sub binary64 pos (dbl lower)
      in fp_add binary64 (fp_mul binary64 (dbl (xs ! lower)) (fp_sub binary64 (dbl 1) fraction))
           (fp_mul binary64 (dbl (xs ! upper)) fraction))"

definition finalize_stats :: "adjacency \<Rightarrow> vamana_stats \<Rightarrow> vamana_stats" where
  "finalize_stats graph stats =
     (if graph = [] then stats
      else (let dbl = fp_of_nat binary64;
                stats = stats\<lparr>vt_avg_degree := fp_div binary64 (dbl (sum_list (map length graph))) (dbl (length graph)),
                  vt_max_degree := foldl (\<lambda>m neighbors. max m (length neighbors)) 0 graph\<rparr>
            in if vt_candidate_counts stats = [] then stats
               else (let sorted_counts = sort (vt_candidate_counts stats)
                     in stats\<lparr>vt_candidate_avg := fp_div binary64 (dbl (sum_list sorted_counts)) (dbl (length sorted_counts)),
                          vt_candidate_p95 := count_percentile sorted_counts 0x3FEE666666666666,
                          vt_candidate_p99 := count_percentile sorted_counts 0x3FEFAE147AE147AE\<rparr>)))"

fun insert_all ::
  "vamana_config \<Rightarrow> vector_set \<Rightarrow> u32 \<Rightarrow> u32 list \<Rightarrow> vamana_state \<Rightarrow> unit result \<times> vamana_state" where
  "insert_all config base medoid [] s = (Inr (), s)"
| "insert_all config base medoid (i # order) s =
     (if is_deleted (deleted_mask config (vs_size base)) (unat i)
      then insert_all config base medoid order (set_neighbors i [] s)
      else case vamana_insert config base i medoid s of
             (Inl e, s) \<Rightarrow> (Inl e, s)
           | (Inr _, s) \<Rightarrow> insert_all config base medoid order s)"

definition vamana_build ::
  "(u32 \<Rightarrow> u32 list \<Rightarrow> u32 list) \<Rightarrow> vamana_config \<Rightarrow> vector_set \<Rightarrow> epoch_marks \<Rightarrow> vamana_graph result \<times> epoch_marks" where
  "vamana_build shuffle config base em =
     (if vs_empty base \<or> vs_dim base = 0 then (Inl (Runtime_error ''VamanaBuilder requires non-empty vectors''), em)
      else if 2 ^ 32 - 1 < vs_size base then (Inl (Runtime_error ''VamanaBuilder supports at most uint32_t ids''), em)
      else case find_medoid config base of
        Inl e \<Rightarrow> (Inl e, em)
      | Inr medoid \<Rightarrow>
          (let graph = initial_graph config base (deleted_mask config (vs_size base));
               order = build_order shuffle config (vs_size base)
           in case insert_all config base medoid order
                     \<lparr>va_graph = graph, va_stats = Some (no_vamana_stats\<lparr>vt_medoid := medoid\<rparr>), va_marks = em\<rparr> of
                (Inl e, s) \<Rightarrow> (Inl e, va_marks s)
              | (Inr _, s) \<Rightarrow> (Inr \<lparr>vg_medoid = medoid, vg_adjacency = va_graph s,
                    vg_stats = finalize_stats (va_graph s) (the (va_stats s))\<rparr>, va_marks s)))"

section \<open>Candidates in order\<close>

definition cd_key :: "candidate \<Rightarrow> int" where
  "cd_key c = dist_id_key (cd_distance c) (cd_id c)"

definition cd_valid :: "candidate \<Rightarrow> bool" where
  "cd_valid c \<longleftrightarrow> \<not> f32_nan (cd_distance c)"

interpretation cdo: keyed_order closer_candidate cd_key cd_valid
  by unfold_locales (simp add: closer_candidate_def cd_valid_def cd_key_def dist_id_less)

lemma cd_key_inj: "distinct (map cd_id cs) \<Longrightarrow> inj_on cd_key (set cs)"
  by (auto simp: inj_on_def cd_key_def dist_id_key_eq distinct_map)

lemma unique_fold:
  assumes "distinct out" and "set out = seen"
  shows "distinct (fst (foldl (unique_step x deleted) (out, seen) ids)) \<and>
    set (fst (foldl (unique_step x deleted) (out, seen) ids)) =
      seen \<union> {i \<in> set ids. i \<noteq> x \<and> \<not> is_deleted deleted (unat i)}"
  using assms
proof (induction ids arbitrary: out seen)
  case (Cons i ids)
  show ?case
  proof (cases "i = x \<or> is_deleted deleted (unat i) \<or> i \<in> seen")
    case True
    then have "unique_step x deleted (out, seen) i = (out, seen)" by (auto simp: unique_step_def)
    then show ?thesis using Cons.IH[OF Cons.prems] True by auto
  next
    case False
    then have step: "unique_step x deleted (out, seen) i = (out @ [i], insert i seen)" by (auto simp: unique_step_def)
    have "distinct (out @ [i])" "set (out @ [i]) = insert i seen" using False Cons.prems by auto
    from Cons.IH[OF this] False show ?thesis by (auto simp: step)
  qed
qed simp

lemma unique_ids [simp]:
  "distinct (unique_ids ids x deleted)"
  "set (unique_ids ids x deleted) = {i \<in> set ids. i \<noteq> x \<and> \<not> is_deleted deleted (unat i)}"
  using unique_fold[of "[]" "{}" x deleted ids] by (auto simp: unique_ids_def)

definition measured :: "vector_set \<Rightarrow> f32 list \<Rightarrow> u32 \<Rightarrow> candidate" where
  "measured base q i = \<lparr>cd_id = i, cd_distance = squared_l2 q (row_values base (unat i)) (vs_dim base)\<rparr>"

lemma measured_id [simp]: "cd_id (measured base q i) = i" "cd_id \<circ> measured base q = (\<lambda>i. i)"
  by (auto simp: measured_def)

lemma measure_all_eq:
  "measure_all base q ids =
    (if \<forall>i\<in>set ids. unat i < vs_size base then Inr (map (measured base q) ids)
     else Inl (Out_of_range ''VectorSet row index out of range''))"
  by (induction ids) (auto simp: vs_row_def measured_def not_le)

lemma prune_loop_picks:
  "\<exists>ps. prune_loop base a left pool out = out @ map cd_id ps \<and> subseq ps pool \<and> length ps \<le> left \<and>
    (sorted_wrt L pool \<longrightarrow> sorted_wrt (\<lambda>p c. L p c \<and> stays base a p c) ps \<and>
      (\<forall>c\<in>set pool - set ps. (\<exists>p\<in>set ps. L p c \<and> \<not> stays base a p c) \<or> length ps = left \<and> (\<forall>p\<in>set ps. L p c)))"
proof (induction base a left pool out rule: prune_loop.induct)
  case (3 base a left picked pool out)
  then obtain ps where ps: "prune_loop base a left (filter (stays base a picked) pool) (out @ [cd_id picked]) =
      (out @ [cd_id picked]) @ map cd_id ps" "subseq ps (filter (stays base a picked) pool)" "length ps \<le> left"
    and spec: "sorted_wrt L (filter (stays base a picked) pool) \<longrightarrow> sorted_wrt (\<lambda>p c. L p c \<and> stays base a p c) ps \<and>
      (\<forall>c\<in>set (filter (stays base a picked) pool) - set ps.
        (\<exists>p\<in>set ps. L p c \<and> \<not> stays base a p c) \<or> length ps = left \<and> (\<forall>p\<in>set ps. L p c))" by blast
  have sub: "set ps \<subseteq> set (filter (stays base a picked) pool)" using ps(2) by (auto simp: subseq_conv_nths dest: in_set_nthsD)
  have "subseq ps pool" by (rule subseq_order.order_trans[OF ps(2) subseq_filter_left])
  then have "subseq (picked # ps) (picked # pool)" by simp
  then show ?case
    using ps(1,3) spec sub by (intro exI[of _ "picked # ps"]) (auto simp: sorted_wrt_filter)
qed (simp_all)

definition alive :: "vamana_config \<Rightarrow> vector_set \<Rightarrow> u32 \<Rightarrow> bool" where
  "alive config base i \<longleftrightarrow> unat i < vs_size base \<and> \<not> is_deleted (deleted_mask config (vs_size base)) (unat i)"

definition prune_pool :: "vamana_config \<Rightarrow> vector_set \<Rightarrow> u32 \<Rightarrow> u32 list \<Rightarrow> candidate list" where
  "prune_pool config base i cands = std_sort closer_candidate (map (measured base (row_values base (unat i)))
     (unique_ids cands i (deleted_mask config (vs_size base))))"

text \<open>
  A prune of a live node returns, or throws when a candidate has no row; what it picks comes
  from the sorted pool.
\<close>

lemma robust_prune_cases:
  assumes "alive config base i"
  shows "robust_prune config base i cands =
    (if min (vc_max_degree config) (vs_size base - 1) = 0 then Inr []
     else if \<forall>c\<in>set cands. c \<noteq> i \<and> \<not> is_deleted (deleted_mask config (vs_size base)) (unat c) \<longrightarrow> unat c < vs_size base
     then Inr (prune_loop base (fp_mul binary64 (vc_alpha config) (vc_alpha config))
       (min (vc_max_degree config) (vs_size base - 1)) (prune_pool config base i cands) [])
     else Inl (Out_of_range ''VectorSet row index out of range''))"
  using assms by (auto simp: robust_prune_def alive_def measure_all_eq vs_row_def prune_pool_def Let_def)

lemma prune_pool_ids [simp]:
  "distinct (map cd_id (prune_pool config base i cands))"
  "cd_id ` set (prune_pool config base i cands) =
    {c \<in> set cands. c \<noteq> i \<and> \<not> is_deleted (deleted_mask config (vs_size base)) (unat c)}"
  by (auto simp: prune_pool_def image_image)

lemma subseq_distinct_map:
  assumes "subseq xs ys" and "distinct (map f ys)"
  shows "distinct (map f xs)"
proof -
  have "subseq (map f xs) (map f ys)" using assms(1) by (rule subseq_map)
  then show ?thesis using assms(2) by (auto simp: subseq_conv_nths distinct_nthsI)
qed

lemma subseq_set: "subseq xs ys \<Longrightarrow> set xs \<subseteq> set ys"
  by (auto simp: subseq_conv_nths dest: in_set_nthsD)

definition neighbors_ok :: "vamana_config \<Rightarrow> vector_set \<Rightarrow> nat \<Rightarrow> u32 list \<Rightarrow> bool" where
  "neighbors_ok config base i neighbors \<longleftrightarrow> distinct neighbors \<and> length neighbors \<le> vc_max_degree config \<and>
     (is_deleted (deleted_mask config (vs_size base)) i \<longrightarrow> neighbors = []) \<and>
     (\<forall>j\<in>set neighbors. alive config base j \<and> unat j \<noteq> i)"

lemma neighbors_ok_Nil [simp]: "neighbors_ok config base i []"
  by (simp add: neighbors_ok_def)

lemma robust_prune_ok:
  assumes "alive config base i" and "\<forall>c\<in>set cands. unat c < vs_size base"
  shows "\<exists>out. robust_prune config base i cands = Inr out \<and> neighbors_ok config base (unat i) out \<and> set out \<subseteq> set cands"
proof -
  let ?pool = "prune_pool config base i cands" and ?k = "min (vc_max_degree config) (vs_size base - 1)"
  let ?a = "fp_mul binary64 (vc_alpha config) (vc_alpha config)"
  obtain ps where ps: "prune_loop base ?a ?k ?pool [] = map cd_id ps" "subseq ps ?pool" "length ps \<le> ?k"
    using prune_loop_picks[of base ?a ?k ?pool "[]" "\<lambda>x y. True"] by auto
  have "distinct (map cd_id ps)" by (rule subseq_distinct_map[OF ps(2)]) simp
  moreover have "cd_id ` set ps \<subseteq> {c \<in> set cands. c \<noteq> i \<and> \<not> is_deleted (deleted_mask config (vs_size base)) (unat c)}"
    using image_mono[OF subseq_set[OF ps(2)], of cd_id] by simp
  ultimately show ?thesis
    using assms ps(1,3) by (auto simp: robust_prune_cases neighbors_ok_def alive_def subset_iff unsigned_word_eqI)
qed

section \<open>Well-formed graphs\<close>

definition vamana_wf :: "vamana_config \<Rightarrow> vector_set \<Rightarrow> adjacency \<Rightarrow> bool" where
  "vamana_wf config base graph \<longleftrightarrow> length graph = vs_size base \<and>
     (\<forall>i<vs_size base. neighbors_ok config base i (graph ! i))"

lemma wf_update:
  "vamana_wf config base graph \<Longrightarrow> neighbors_ok config base (unat i) neighbors \<Longrightarrow>
   vamana_wf config base (graph[unat i := neighbors])"
  by (cases "unat i < length graph") (auto simp: vamana_wf_def nth_list_update list_update_beyond)

lemma wf_neighbors: "vamana_wf config base graph \<Longrightarrow> unat i < vs_size base \<Longrightarrow> neighbors_ok config base (unat i) (graph ! unat i)"
  by (simp add: vamana_wf_def)

lemma state_simps [simp]:
  "va_graph (count_stats f s) = va_graph s" "va_marks (count_stats f s) = va_marks s"
  "va_stats (count_stats f s) = map_option f (va_stats s)"
  "va_graph (set_neighbors i xs s) = (va_graph s)[unat i := xs]" "va_marks (set_neighbors i xs s) = va_marks s"
  "va_stats (set_neighbors i xs s) = va_stats s"
  by (simp_all add: count_stats_def set_neighbors_def)

text \<open>What later steps leave alone: the list of candidate counts.\<close>

definition counts_of :: "vamana_state \<Rightarrow> nat list option" where
  "counts_of s = map_option vt_candidate_counts (va_stats s)"

lemma counts_simps [simp]:
  "counts_of (set_neighbors i xs s) = counts_of s"
  "(\<And>t. vt_candidate_counts (f t) = vt_candidate_counts t) \<Longrightarrow> counts_of (count_stats f s) = counts_of s"
  "counts_of (s\<lparr>va_marks := em\<rparr>) = counts_of s"
  by (simp_all add: counts_of_def set_neighbors_def count_stats_def option.map_comp comp_def)

lemma add_reverse_edge_ok:
  assumes wf: "vamana_wf config base (va_graph s)"
  shows "\<exists>s'. add_reverse_edge config base source target s = (Inr (), s') \<and> vamana_wf config base (va_graph s') \<and>
    counts_of s' = counts_of s \<and> va_marks s' = va_marks s"
proof -
  let ?g = "va_graph s" and ?mask = "deleted_mask config (vs_size base)"
  have len: "length ?g = vs_size base" using wf by (simp add: vamana_wf_def)
  show ?thesis
  proof (cases "length ?g \<le> unat target \<or> length ?g \<le> unat source \<or> source = target \<or> is_deleted ?mask (unat source) \<or>
      is_deleted ?mask (unat target) \<or> contains_id (?g ! unat target) source")
    case True
    then show ?thesis using wf by (auto simp: add_reverse_edge_def Let_def)
  next
    case False
    then have alive: "alive config base source" "alive config base target" and new: "source \<notin> set (?g ! unat target)" "source \<noteq> target"
      by (auto simp: alive_def len contains_id_def)
    have old: "neighbors_ok config base (unat target) (?g ! unat target)" using wf_neighbors[OF wf, of target] alive(2) by (simp add: alive_def)
    show ?thesis
    proof (cases "length (?g ! unat target) < vc_max_degree config")
      case True
      then have "neighbors_ok config base (unat target) (?g ! unat target @ [source])"
        using old alive new by (auto simp: neighbors_ok_def alive_def dest: unsigned_word_eqI)
      then show ?thesis using False True wf_update[OF wf] by (simp add: add_reverse_edge_def Let_def)
    next
      case full: False
      have "\<forall>c\<in>set (?g ! unat target @ [source]). unat c < vs_size base"
        using old alive(1) by (auto simp: neighbors_ok_def alive_def)
      from robust_prune_ok[OF alive(2) this] obtain out where
        "robust_prune config base target (?g ! unat target @ [source]) = Inr out" "neighbors_ok config base (unat target) out" by blast
      then show ?thesis using False full wf_update[OF wf] by (simp add: add_reverse_edge_def Let_def)
    qed
  qed
qed

lemma add_reverse_edges_ok:
  assumes "vamana_wf config base (va_graph s)"
  shows "\<exists>s'. add_reverse_edges config base source targets s = (Inr (), s') \<and> vamana_wf config base (va_graph s') \<and>
    counts_of s' = counts_of s \<and> va_marks s' = va_marks s"
  using assms
proof (induction targets arbitrary: s)
  case (Cons target targets)
  obtain s1 where s1: "add_reverse_edge config base source target s = (Inr (), s1)" "vamana_wf config base (va_graph s1)"
    "counts_of s1 = counts_of s" "va_marks s1 = va_marks s" using add_reverse_edge_ok[OF Cons.prems] by blast
  from Cons.IH[OF s1(2)] s1 show ?case by auto
qed simp

section \<open>The search finds what is reachable\<close>

text \<open>Nodes a search may visit, and what it can reach from its start through them.\<close>

definition available :: "vamana_config \<Rightarrow> vector_set \<Rightarrow> u32 \<Rightarrow> u32 \<Rightarrow> bool" where
  "available config base excluded i \<longleftrightarrow> alive config base i \<and> i \<noteq> excluded"

inductive_set construction_reach :: "(u32 \<Rightarrow> bool) \<Rightarrow> adjacency \<Rightarrow> u32 \<Rightarrow> u32 set"
  for ok :: "u32 \<Rightarrow> bool" and graph :: adjacency and start :: u32 where
  "start \<in> construction_reach ok graph start"
| "i \<in> construction_reach ok graph start \<Longrightarrow> j \<in> set (graph ! unat i) \<Longrightarrow> ok j \<Longrightarrow> j \<in> construction_reach ok graph start"

text \<open>A search starts at its entry point, or at the first available node.\<close>

definition search_start :: "(u32 \<Rightarrow> bool) \<Rightarrow> nat \<Rightarrow> u32 \<Rightarrow> u32 option" where
  "search_start ok n entry = (if ok entry then Some entry else find ok (map word_of_nat [0..<n]))"

definition found :: "construction \<Rightarrow> candidate list" where
  "found st = cs_frontier st @ cs_explored st"

definition marked :: "construction \<Rightarrow> u32 \<Rightarrow> bool" where
  "marked st i \<longleftrightarrow> em_visited_epoch (cs_marks st) ! unat i = em_current_epoch (cs_marks st)"

text \<open>No mark lies in the future, so the next epoch starts with no node visited.\<close>

definition epoch_ok :: "epoch_marks \<Rightarrow> bool" where
  "epoch_ok em \<longleftrightarrow> (\<forall>m\<in>set (em_visited_epoch em). m \<le> em_current_epoch em)"

definition marks_ok :: "nat \<Rightarrow> epoch_marks \<Rightarrow> bool" where
  "marks_ok n em \<longleftrightarrow> n \<le> length (em_visited_epoch em) \<and> epoch_ok em"

lemma next_epoch_ok:
  assumes "epoch_ok em"
  shows "marks_ok n (next_epoch n em)" and "i < n \<Longrightarrow> em_visited_epoch (next_epoch n em) ! i \<noteq> em_current_epoch (next_epoch n em)"
proof -
  define em1 where "em1 = (if length (em_visited_epoch em) < n then em\<lparr>em_visited_epoch := replicate n 0\<rparr> else em)"
  define em2 where "em2 = (if em_current_epoch em1 = - 1
    then em1\<lparr>em_visited_epoch := replicate (length (em_visited_epoch em1)) 0, em_current_epoch := 0\<rparr> else em1)"
  have next_em: "next_epoch n em = em2\<lparr>em_current_epoch := em_current_epoch em2 + 1\<rparr>"
    by (simp add: next_epoch_def em1_def em2_def Let_def)
  have "n \<le> length (em_visited_epoch em2)" "epoch_ok em2" "em_current_epoch em2 \<noteq> - 1"
    using assms by (auto simp: em2_def em1_def epoch_ok_def)
  moreover have "m < c + 1" if "m \<le> c" "c \<noteq> - 1" for m c :: u32
    using that unatSuc[of c] by (auto simp: word_less_nat_alt word_le_nat_alt add.commute eq_neg_iff_add_eq_0)
  ultimately have small: "\<forall>m\<in>set (em_visited_epoch em2). m < em_current_epoch em2 + 1" and len: "n \<le> length (em_visited_epoch em2)"
    by (auto simp: epoch_ok_def)
  show "marks_ok n (next_epoch n em)" using small len by (auto simp: next_em marks_ok_def epoch_ok_def intro: less_imp_le)
  show "em_visited_epoch (next_epoch n em) ! i \<noteq> em_current_epoch (next_epoch n em)" if "i < n"
  proof -
    have "em_visited_epoch em2 ! i \<in> set (em_visited_epoch em2)" using that len by simp
    then have "em_visited_epoch em2 ! i < em_current_epoch em2 + 1" using small by blast
    then show ?thesis by (simp add: next_em)
  qed
qed

definition search_inv :: "(u32 \<Rightarrow> bool) \<Rightarrow> nat \<Rightarrow> (u32 \<Rightarrow> f32) \<Rightarrow> u32 set \<Rightarrow> construction \<Rightarrow> bool" where
  "search_inv ok n dist R st \<longleftrightarrow> distinct (map cd_id (found st)) \<and> marks_ok n (cs_marks st) \<and>
     (\<forall>i. ok i \<longrightarrow> (marked st i \<longleftrightarrow> i \<in> cd_id ` set (found st))) \<and>
     (\<forall>c\<in>set (found st). ok (cd_id c) \<and> cd_id c \<in> R \<and> cd_distance c = dist (cd_id c))"

text \<open>What the search needs of a push: it ignores unavailable nodes and visits available ones once.\<close>

definition pushes :: "(u32 \<Rightarrow> bool) \<Rightarrow> nat \<Rightarrow> (u32 \<Rightarrow> f32) \<Rightarrow> (u32 \<Rightarrow> construction \<Rightarrow> construction) \<Rightarrow> bool" where
  "pushes ok n dist push \<longleftrightarrow> (\<forall>i. ok i \<longrightarrow> unat i < n) \<and>
     (\<forall>i st. push i st = (if ok i \<and> \<not> marked st i
        then st\<lparr>cs_marks := (cs_marks st)\<lparr>em_visited_epoch := (em_visited_epoch (cs_marks st))[unat i := em_current_epoch (cs_marks st)]\<rparr>,
                cs_frontier := push_by candidate_closer_first \<lparr>cd_id = i, cd_distance = dist i\<rparr> (cs_frontier st)\<rparr>
        else st))"

lemma push_node_pushes:
  "pushes (available config base x) (vs_size base) (\<lambda>i. squared_l2 q (row_values base (unat i)) (vs_dim base))
    (push_node base (deleted_mask config (vs_size base)) q (vs_size base) x)"
  by (auto simp: pushes_def push_node_def available_def alive_def marked_def)

lemma push_one:
  assumes push: "pushes ok n dist push" and inv: "search_inv ok n dist R st" and i: "ok i \<longrightarrow> i \<in> R"
  shows "search_inv ok n dist R (push i st)" and "cs_explored (push i st) = cs_explored st"
    and "cd_id ` set (found (push i st)) = cd_id ` set (found st) \<union> {j. j = i \<and> ok i}"
proof -
  have n: "ok j \<Longrightarrow> unat j < n" for j using push by (simp add: pushes_def)
  let ?em = "cs_marks st"
  have step: "push i st = (if ok i \<and> \<not> marked st i
      then st\<lparr>cs_marks := ?em\<lparr>em_visited_epoch := (em_visited_epoch ?em)[unat i := em_current_epoch ?em]\<rparr>,
              cs_frontier := push_by candidate_closer_first \<lparr>cd_id = i, cd_distance = dist i\<rparr> (cs_frontier st)\<rparr>
      else st)" using push by (simp add: pushes_def)
  show "cs_explored (push i st) = cs_explored st" by (simp add: step)
  have "search_inv ok n dist R (push i st) \<and> cd_id ` set (found (push i st)) = cd_id ` set (found st) \<union> {j. j = i \<and> ok i}"
  proof (cases "ok i \<and> \<not> marked st i")
    case False
    then show ?thesis using inv by (auto simp: step search_inv_def)
  next
    case True
    then have fresh: "i \<notin> cd_id ` set (found st)" using inv by (auto simp: search_inv_def)
    have len: "unat i < length (em_visited_epoch ?em)" using n[of i] True inv by (auto simp: search_inv_def marks_ok_def)
    have ms: "mset (map cd_id (found (push i st))) = mset (i # map cd_id (found st))"
      using True by (simp add: step found_def)
    have "distinct (i # map cd_id (found st))" using fresh inv by (simp add: search_inv_def)
    then have ids: "distinct (map cd_id (found (push i st)))" by (rule iffD2[OF mset_eq_imp_distinct_iff[OF ms]])
    have set: "set (found (push i st)) = insert \<lparr>cd_id = i, cd_distance = dist i\<rparr> (set (found st))"
      using True by (simp add: step found_def)
    have marks: "marked (push i st) j \<longleftrightarrow> marked st j \<or> j = i" if "ok j" for j
      using True len n[OF that] inv
      by (auto simp: marked_def step nth_list_update word_unat_eq_iff search_inv_def marks_ok_def)
    have "marks_ok n (cs_marks (push i st))"
      using True inv set_update_subset_insert[of "em_visited_epoch ?em" "unat i" "em_current_epoch ?em"]
      by (auto simp: step search_inv_def marks_ok_def epoch_ok_def)
    then show ?thesis using ids set marks inv True i by (auto simp: search_inv_def)
  qed
  then show "search_inv ok n dist R (push i st)"
    "cd_id ` set (found (push i st)) = cd_id ` set (found st) \<union> {j. j = i \<and> ok i}" by blast+
qed

lemma push_all:
  assumes push: "pushes ok n dist push" and inv: "search_inv ok n dist R st" and "\<forall>i\<in>set ids. ok i \<longrightarrow> i \<in> R"
  shows "search_inv ok n dist R (fold push ids st) \<and> cs_explored (fold push ids st) = cs_explored st \<and>
    cd_id ` set (found (fold push ids st)) = cd_id ` set (found st) \<union> {j \<in> set ids. ok j}"
  using assms(2,3)
proof (induction ids arbitrary: st)
  case (Cons i ids)
  note one = push_one[OF push Cons.prems(1), of i]
  have "ok i \<longrightarrow> i \<in> R" using Cons.prems(2) by simp
  from Cons.IH[OF one(1)[OF this]] one(2,3)[OF this] Cons.prems(2) show ?case by auto
qed simp

text \<open>Exploring: everything next to an explored node is found.\<close>

definition explored_closed :: "(u32 \<Rightarrow> bool) \<Rightarrow> adjacency \<Rightarrow> construction \<Rightarrow> bool" where
  "explored_closed ok graph st \<longleftrightarrow>
     (\<forall>c\<in>set (cs_explored st). \<forall>j\<in>set (graph ! unat (cd_id c)). ok j \<longrightarrow> j \<in> cd_id ` set (found st))"

lemma explore_finds:
  assumes push: "pushes ok n dist push" and "search_inv ok n dist (construction_reach ok graph start) st"
    and "explored_closed ok graph st"
  shows "search_inv ok n dist (construction_reach ok graph start) (explore push graph left st) \<and>
    explored_closed ok graph (explore push graph left st) \<and>
    cd_id ` set (found st) \<subseteq> cd_id ` set (found (explore push graph left st)) \<and>
    length (cs_explored (explore push graph left st)) \<le> length (cs_explored st) + left \<and>
    (length (cs_explored (explore push graph left st)) < length (cs_explored st) + left \<longrightarrow>
      cs_frontier (explore push graph left st) = [])"
  using assms(2,3)
proof (induction left arbitrary: st)
  case (Suc left)
  show ?case
  proof (cases "cs_frontier st = []")
    case False
    define current where "current = last (cs_frontier st)"
    define st1 where "st1 = st\<lparr>cs_frontier := butlast (cs_frontier st), cs_explored := cs_explored st @ [current]\<rparr>"
    let ?R = "construction_reach ok graph start"
    have front: "cs_frontier st = butlast (cs_frontier st) @ [current]" using False by (simp add: current_def)
    have ms: "mset (found st1) = mset (found st)"
      by (simp add: found_def st1_def) (metis (no_types) front mset_append union_commute add_mset_add_single mset_single_iff_right)
    then have set1: "set (found st1) = set (found st)" by (metis set_mset_mset)
    have "distinct (map cd_id (found st1))"
      using Suc.prems(1) ms by (metis mset_map mset_eq_imp_distinct_iff search_inv_def)
    then have inv1: "search_inv ok n dist ?R st1"
      using Suc.prems(1) set1 by (simp add: search_inv_def marked_def st1_def)
    have current: "current \<in> set (found st)" using False by (simp add: current_def found_def)
    then have "\<forall>j\<in>set (graph ! unat (cd_id current)). ok j \<longrightarrow> j \<in> ?R"
      using Suc.prems(1) construction_reach.intros(2) by (fastforce simp: search_inv_def)
    note all = push_all[OF push inv1 this]
    let ?st = "fold push (graph ! unat (cd_id current)) st1"
    have "explored_closed ok graph ?st"
      using Suc.prems(2) all set1 by (auto simp: explored_closed_def st1_def)
    note IH = Suc.IH[OF conjunct1[OF all] this]
    have run: "explore push graph (Suc left) st = explore push graph left ?st"
      using False by (simp add: st1_def current_def Let_def)
    have "cs_explored ?st = cs_explored st @ [current]" using all by (simp add: st1_def)
    then show ?thesis using IH all set1 unfolding run by auto
  qed (use Suc.prems in simp)
qed simp

lemma first_available_eq:
  assumes push: "pushes ok n dist push" and "cs_frontier st = []" and "\<forall>i. ok i \<longrightarrow> \<not> marked st i"
  shows "first_available push m st =
    (case find ok (map word_of_nat [0..<m]) of None \<Rightarrow> st | Some i \<Rightarrow> push i st)"
proof -
  have stuck: "foldl (\<lambda>st i. if cs_frontier st = [] then push (word_of_nat i) st else st) st' xs = st'"
    if "cs_frontier st' \<noteq> []" for st' and xs :: "nat list" using that by (induction xs) auto
  have skip: "push i st = st" if "\<not> ok i" for i using push that by (simp add: pushes_def)
  have taken: "cs_frontier (push i st) \<noteq> []" if "ok i" for i
  proof -
    have "cs_frontier (push i st) = push_by candidate_closer_first \<lparr>cd_id = i, cd_distance = dist i\<rparr> (cs_frontier st)"
      using push that assms(3) by (simp add: pushes_def)
    then show ?thesis by (metis length_0_conv length_push_by nat.distinct(1))
  qed
  have "foldl (\<lambda>st i. if cs_frontier st = [] then push (word_of_nat i) st else st) st xs =
    (case find ok (map word_of_nat xs) of None \<Rightarrow> st | Some i \<Rightarrow> push i st)" for xs
    using assms(2) stuck skip taken by (induction xs) auto
  then show ?thesis by (simp add: first_available_def)
qed

text \<open>From the first push to the end of the loop.\<close>

lemma construction_run:
  assumes push: "pushes ok n dist push" and em: "marks_ok n em"
    and fresh: "\<forall>i. ok i \<longrightarrow> em_visited_epoch em ! unat i \<noteq> em_current_epoch em"
    and st: "st = \<lparr>cs_marks = em, cs_frontier = [], cs_explored = []\<rparr>"
    and run: "st' = explore push graph width
      (if cs_frontier (push entry st) = [] then first_available push n (push entry st) else push entry st)"
  shows "epoch_ok (cs_marks st') \<and> distinct (map cd_id (cs_explored st')) \<and> length (cs_explored st') \<le> width \<and>
    (\<forall>c\<in>set (cs_explored st'). ok (cd_id c) \<and> cd_distance c = dist (cd_id c)) \<and>
    (case search_start ok n entry of None \<Rightarrow> cs_explored st' = []
     | Some s \<Rightarrow> cd_id ` set (cs_explored st') \<subseteq> construction_reach ok graph s \<and>
         (length (cs_explored st') < width \<longrightarrow> cd_id ` set (cs_explored st') = construction_reach ok graph s))"
proof -
  have unmarked: "\<forall>i. ok i \<longrightarrow> \<not> marked st i" using fresh by (simp add: marked_def st)
  have ok_n: "ok i \<Longrightarrow> unat i < n" for i using push by (simp add: pushes_def)
  have inv0: "search_inv ok n dist R st" for R
    using em unmarked by (simp add: search_inv_def found_def st)
  let ?st = "if cs_frontier (push entry st) = [] then first_available push n (push entry st) else push entry st"
  have skip: "push i st = st" if "\<not> ok i" for i using push that by (simp add: pushes_def)
  have nonempty: "cs_frontier (push i st) \<noteq> [] \<longleftrightarrow> ok i" for i
  proof (cases "ok i")
    case True
    then show ?thesis using push_one(2,3)[OF push inv0[of UNIV], of i] by (auto simp: found_def st)
  qed (simp add: skip, simp add: st)
  have start: "?st = (case search_start ok n entry of None \<Rightarrow> st | Some i \<Rightarrow> push i st)"
    using nonempty[of entry] skip[of entry] first_available_eq[OF push _ unmarked, of n] st
    by (auto simp: search_start_def)
  show ?thesis
  proof (cases "search_start ok n entry")
    case None
    then have "st' = st" using start run st by (cases width) simp_all
    then show ?thesis using None em st by (simp add: marks_ok_def)
  next
    case (Some s)
    let ?R = "construction_reach ok graph s"
    have ok_s: "ok s" using Some by (auto simp: search_start_def find_Some_iff split: if_splits)
    have "ok s \<longrightarrow> s \<in> ?R" by (simp add: construction_reach.intros(1))
    note one = push_one[OF push inv0 this]
    have closed: "explored_closed ok graph (push s st)" using one(2) by (simp add: explored_closed_def st)
    have run': "st' = explore push graph width (push s st)" using run start Some by simp
    note ran = explore_finds[OF push one(1) closed, of width, folded run']
    have expl: "cs_explored (push s st) = []" using one(2) by (simp add: st)
    have inv: "search_inv ok n dist ?R st'" using ran by blast
    have "cd_id ` set (cs_explored st') \<subseteq> ?R" using inv by (auto simp: search_inv_def found_def)
    moreover have "?R \<subseteq> cd_id ` set (cs_explored st')" if "length (cs_explored st') < width"
    proof -
      have all: "found st' = cs_explored st'" using ran that expl by (simp add: found_def)
      have "i \<in> cd_id ` set (cs_explored st')" if "i \<in> ?R" for i
        using that
      proof (induction rule: construction_reach.induct)
        case 1
        show ?case using one(3) ran all ok_s by auto
      next
        case (2 i j)
        then show ?case using ran all by (auto simp: explored_closed_def)
      qed
      then show ?thesis by blast
    qed
    ultimately show ?thesis
      using Some inv ran expl by (auto simp: search_inv_def found_def marks_ok_def)
  qed
qed

definition row_distance :: "vector_set \<Rightarrow> f32 list \<Rightarrow> u32 \<Rightarrow> f32" where
  "row_distance base q i = squared_l2 q (row_values base (unat i)) (vs_dim base)"

lemma measured_valid:
  "finite_base base \<Longrightarrow> finite_vector (vs_dim base) q \<Longrightarrow> unat i < vs_size base \<Longrightarrow> \<not> f32_nan (row_distance base q i)"
  using squared_l2_valid by (auto simp: finite_base_def row_distance_def)

text \<open>Sorted candidates are in strict order of distance, then identifier.\<close>

lemma sorted_candidates:
  assumes "distinct (map cd_id cs)" and "\<forall>c\<in>set cs. cd_valid c"
  shows "sorted_wrt (\<lambda>a b. cd_key a < cd_key b) (std_sort closer_candidate cs)"
proof -
  have "sorted (map cd_key (sort_key cd_key cs))" by simp
  moreover have "distinct (map cd_key (sort_key cd_key cs))"
    using assms(1) cd_key_inj[OF assms(1)] by (simp add: distinct_map)
  ultimately have "sorted_wrt (<) (map cd_key (sort_key cd_key cs))" by (simp add: strict_sorted_iff)
  then show ?thesis by (simp add: cdo.std_sort_eq[OF assms(2)] sorted_wrt_map)
qed

lemma search_run_eq:
  assumes "length graph = vs_size base" and "alive config base entry"
    and "st' = (let push = push_node base (deleted_mask config (vs_size base)) q (vs_size base) excluded;
        st = push entry \<lparr>cs_marks = next_epoch (vs_size base) em, cs_frontier = [], cs_explored = []\<rparr>
      in explore push graph (vc_search_width config) (if cs_frontier st = [] then first_available push (vs_size base) st else st))"
  shows "search_for_construction config base graph q entry excluded em =
    (Inr (map cd_id (std_sort closer_candidate (cs_explored st'))), cs_marks st')"
  using assms by (simp add: search_for_construction_def alive_def Let_def)

lemma search_parts:
  assumes "length graph = vs_size base" and "alive config base entry" and "epoch_ok em"
  shows "\<exists>cs em'. search_for_construction config base graph q entry excluded em =
      (Inr (map cd_id (std_sort closer_candidate cs)), em') \<and> epoch_ok em' \<and> distinct (map cd_id cs) \<and>
    length cs \<le> vc_search_width config \<and>
    (\<forall>c\<in>set cs. available config base excluded (cd_id c) \<and> cd_distance c = row_distance base q (cd_id c)) \<and>
    (case search_start (available config base excluded) (vs_size base) entry of None \<Rightarrow> cs = []
     | Some s \<Rightarrow> cd_id ` set cs \<subseteq> construction_reach (available config base excluded) graph s \<and>
         (length cs < vc_search_width config \<longrightarrow>
           cd_id ` set cs = construction_reach (available config base excluded) graph s))"
proof -
  have fresh: "\<forall>i. available config base excluded i \<longrightarrow> em_visited_epoch (next_epoch (vs_size base) em) ! unat i \<noteq>
      em_current_epoch (next_epoch (vs_size base) em)"
    using next_epoch_ok(2)[OF assms(3)] by (simp add: available_def alive_def)
  define st' where "st' = (let push = push_node base (deleted_mask config (vs_size base)) q (vs_size base) excluded;
        st = push entry \<lparr>cs_marks = next_epoch (vs_size base) em, cs_frontier = [], cs_explored = []\<rparr>
      in explore push graph (vc_search_width config) (if cs_frontier st = [] then first_available push (vs_size base) st else st))"
  note run = construction_run[OF push_node_pushes next_epoch_ok(1)[OF assms(3)] fresh refl st'_def[unfolded Let_def],
      folded row_distance_def]
  show ?thesis
    by (rule exI[of _ "cs_explored st'"], rule exI[of _ "cs_marks st'"])
      (use search_run_eq[OF assms(1,2) st'_def] run in simp)
qed

text \<open>
  C16: what the construction search returns. Whatever marks earlier searches left, it finds
  available nodes in strict order of distance and identifier, at most \<open>search_width\<close> of them, all
  of them reachable from its start, and when it finds fewer it has found everything reachable.
\<close>

theorem construction_search_complete:
  assumes "search_for_construction config base graph q entry excluded em = (Inr ids, em')"
    and "length graph = vs_size base" and "alive config base entry" and "epoch_ok em"
    and "finite_base base" and "finite_vector (vs_dim base) q"
  shows "epoch_ok em' \<and> length ids \<le> vc_search_width config \<and> (\<forall>i\<in>set ids. available config base excluded i) \<and>
    sorted_wrt (\<lambda>i j. dist_id_key (row_distance base q i) i < dist_id_key (row_distance base q j) j) ids \<and>
    (case search_start (available config base excluded) (vs_size base) entry of None \<Rightarrow> ids = []
     | Some s \<Rightarrow> set ids \<subseteq> construction_reach (available config base excluded) graph s \<and>
         (length ids < vc_search_width config \<longrightarrow> set ids = construction_reach (available config base excluded) graph s))"
proof -
  obtain cs where cs: "ids = map cd_id (std_sort closer_candidate cs)" "epoch_ok em'" "distinct (map cd_id cs)"
    "length cs \<le> vc_search_width config"
    "\<forall>c\<in>set cs. available config base excluded (cd_id c) \<and> cd_distance c = row_distance base q (cd_id c)"
    and reach: "case search_start (available config base excluded) (vs_size base) entry of None \<Rightarrow> cs = []
     | Some s \<Rightarrow> cd_id ` set cs \<subseteq> construction_reach (available config base excluded) graph s \<and>
         (length cs < vc_search_width config \<longrightarrow>
           cd_id ` set cs = construction_reach (available config base excluded) graph s)"
    using search_parts[OF assms(2-4), of q excluded] assms(1) by auto
  have "\<forall>c\<in>set cs. cd_valid c"
    using cs(5) measured_valid[OF assms(5,6)] by (auto simp: cd_valid_def available_def alive_def)
  from sorted_candidates[OF cs(3) this]
  have "sorted_wrt (\<lambda>i j. dist_id_key (row_distance base q i) i < dist_id_key (row_distance base q j) j) ids"
    unfolding cs(1) sorted_wrt_map using cs(5) by (elim sorted_wrt_mono_rel[rotated]) (auto simp: cd_key_def)
  then show ?thesis using cs reach by (auto split: option.splits)
qed

section \<open>What a prune picks\<close>

definition prune_before :: "vector_set \<Rightarrow> u32 \<Rightarrow> u32 \<Rightarrow> u32 \<Rightarrow> bool" where
  "prune_before base i p c \<longleftrightarrow>
     dist_id_key (row_distance base (row_values base (unat i)) p) p < dist_id_key (row_distance base (row_values base (unat i)) c) c"

text \<open>\<open>p\<close> hides \<open>c\<close> from \<open>i\<close>: the squared distance between them, scaled, is at most that of \<open>c\<close>.\<close>

definition occludes :: "vamana_config \<Rightarrow> vector_set \<Rightarrow> u32 \<Rightarrow> u32 \<Rightarrow> u32 \<Rightarrow> bool" where
  "occludes config base i p c \<longleftrightarrow>
     \<not> fp_lt binary64 (f64_of_f32 (row_distance base (row_values base (unat i)) c))
        (fp_mul binary64 (fp_mul binary64 (vc_alpha config) (vc_alpha config))
           (f64_of_f32 (row_distance base (row_values base (unat p)) c)))"

text \<open>
  C15: the robust prune. What it returns are live candidates in order of distance, at most the
  degree bound, none hidden by an earlier one; and every candidate left out is hidden by a closer
  picked one, unless the bound is reached and everything picked is closer.
\<close>

theorem robust_prune_picks:
  assumes "robust_prune config base i cands = Inr picked" and "alive config base i" and "finite_base base"
    and "1 < vs_size base" and "0 < vc_max_degree config"
  shows "set picked \<subseteq> {c \<in> set cands. available config base i c} \<and>
    length picked \<le> min (vc_max_degree config) (vs_size base - 1) \<and>
    sorted_wrt (\<lambda>p c. prune_before base i p c \<and> \<not> occludes config base i p c) picked \<and>
    (\<forall>c\<in>set cands. available config base i c \<longrightarrow> c \<in> set picked \<or>
      (\<exists>p\<in>set picked. prune_before base i p c \<and> occludes config base i p c) \<or>
      length picked = min (vc_max_degree config) (vs_size base - 1) \<and> (\<forall>p\<in>set picked. prune_before base i p c))"
proof -
  let ?pool = "prune_pool config base i cands" and ?k = "min (vc_max_degree config) (vs_size base - 1)"
  let ?a = "fp_mul binary64 (vc_alpha config) (vc_alpha config)" and ?q = "row_values base (unat i)"
  let ?L = "\<lambda>a b. cd_key a < cd_key b"
  have in_range: "\<forall>c\<in>set cands. c \<noteq> i \<and> \<not> is_deleted (deleted_mask config (vs_size base)) (unat c) \<longrightarrow> unat c < vs_size base"
    and run: "prune_loop base ?a ?k ?pool [] = picked"
    using assms(1,4,5) by (auto simp: robust_prune_cases[OF assms(2)] split: if_splits)
  have cand: "c \<in> set ?pool \<longleftrightarrow> c = measured base ?q (cd_id c) \<and> cd_id c \<in> set cands \<and> available config base i (cd_id c)" for c
    using in_range by (force simp: prune_pool_def available_def alive_def)
  have fin: "finite_vector (vs_dim base) ?q" using assms(2,3) by (simp add: finite_base_def alive_def)
  have dist: "cd_distance c = row_distance base ?q (cd_id c)" if "c \<in> set ?pool" for c
    using cand[of c] that by (metis candidate.select_convs(2) measured_def row_distance_def)
  have valid: "cd_valid c" if "c \<in> set ?pool" for c
    using dist[OF that] that measured_valid[OF assms(3) fin] by (simp add: cand cd_valid_def available_def alive_def)
  have sorted: "sorted_wrt ?L ?pool"
    unfolding prune_pool_def using valid by (intro sorted_candidates) (auto simp: prune_pool_def comp_def)
  obtain ps where ps: "picked = map cd_id ps" "subseq ps ?pool" "length ps \<le> ?k"
    and spec: "sorted_wrt (\<lambda>p c. ?L p c \<and> stays base ?a p c) ps"
    and rest: "\<forall>c\<in>set ?pool - set ps. (\<exists>p\<in>set ps. ?L p c \<and> \<not> stays base ?a p c) \<or> length ps = ?k \<and> (\<forall>p\<in>set ps. ?L p c)"
    using prune_loop_picks[of base ?a ?k ?pool "[]" ?L] sorted run by auto
  have sub: "set ps \<subseteq> set ?pool" by (rule subseq_set[OF ps(2)])
  have before: "?L p c \<longleftrightarrow> prune_before base i (cd_id p) (cd_id c)" if "p \<in> set ?pool" "c \<in> set ?pool" for p c
    using dist[OF that(1)] dist[OF that(2)] by (simp add: prune_before_def cd_key_def)
  have hidden: "stays base ?a p c \<longleftrightarrow> \<not> occludes config base i (cd_id p) (cd_id c)" if "p \<in> set ?pool" "c \<in> set ?pool" for p c
    using dist[OF that(2)] by (simp add: stays_def occludes_def row_distance_def)
  have "set picked \<subseteq> {c \<in> set cands. available config base i c}" using sub cand by (auto simp: ps(1))
  moreover have "sorted_wrt (\<lambda>p c. prune_before base i p c \<and> \<not> occludes config base i p c) picked"
    unfolding ps(1) sorted_wrt_map using spec sub
    by (elim sorted_wrt_mono_rel[rotated]) (auto simp: before hidden subset_iff)
  moreover have "c \<in> set picked \<or> (\<exists>p\<in>set picked. prune_before base i p c \<and> occludes config base i p c) \<or>
      length picked = ?k \<and> (\<forall>p\<in>set picked. prune_before base i p c)"
    if c: "c \<in> set cands" "available config base i c" for c
  proof -
    have mem: "measured base ?q c \<in> set ?pool" using c by (simp add: cand)
    show ?thesis
    proof (cases "measured base ?q c \<in> set ps")
      case True
      then show ?thesis using ps(1) by force
    next
      case False
      have same: "?L p (measured base ?q c) \<longleftrightarrow> prune_before base i (cd_id p) c"
        "stays base ?a p (measured base ?q c) \<longleftrightarrow> \<not> occludes config base i (cd_id p) c" if "p \<in> set ps" for p
        using sub that before[OF _ mem, of p] hidden[OF _ mem, of p] by auto
      have "(\<exists>p\<in>set ps. ?L p (measured base ?q c) \<and> \<not> stays base ?a p (measured base ?q c)) \<or>
          length ps = ?k \<and> (\<forall>p\<in>set ps. ?L p (measured base ?q c))"
        using rest mem False by blast
      then have "(\<exists>p\<in>set ps. prune_before base i (cd_id p) c \<and> occludes config base i (cd_id p) c) \<or>
          length ps = ?k \<and> (\<forall>p\<in>set ps. prune_before base i (cd_id p) c)"
        using same by blast
      then show ?thesis unfolding ps(1) by auto
    qed
  qed
  ultimately show ?thesis using ps(1,3) by auto
qed

section \<open>Building the graph\<close>

lemma vamana_insert_ok:
  assumes wf: "vamana_wf config base (va_graph s)" and em: "epoch_ok (va_marks s)"
    and i: "alive config base i" and entry: "alive config base entry"
  shows "\<exists>s' c. vamana_insert config base i entry s = (Inr (), s') \<and> vamana_wf config base (va_graph s') \<and>
    epoch_ok (va_marks s') \<and> counts_of s' = map_option (\<lambda>cs. cs @ [c]) (counts_of s)"
proof -
  have len: "length (va_graph s) = vs_size base" using wf by (simp add: vamana_wf_def)
  let ?mask = "deleted_mask config (vs_size base)"
  obtain cs em' where search: "search_for_construction config base (va_graph s) (row_values base (unat i)) entry i (va_marks s) =
      (Inr (map cd_id (std_sort closer_candidate cs)), em')" and em': "epoch_ok em'"
    and cs: "\<forall>c\<in>set cs. available config base i (cd_id c)"
    using search_parts[OF len entry em, of "row_values base (unat i)" i] by blast
  define cands where "cands = unique_ids (map cd_id (std_sort closer_candidate cs) @ va_graph s ! unat i) i ?mask"
  have "neighbors_ok config base (unat i) (va_graph s ! unat i)" using wf_neighbors[OF wf, of i] i by (simp add: alive_def)
  then have "\<forall>c\<in>set cands. unat c < vs_size base"
    using cs by (auto simp: cands_def neighbors_ok_def available_def alive_def)
  from robust_prune_ok[OF i this] obtain out where out: "robust_prune config base i cands = Inr out"
    "neighbors_ok config base (unat i) out" by blast
  define s1 where "s1 = set_neighbors i out (count_stats (\<lambda>t. t\<lparr>vt_candidate_counts := vt_candidate_counts t @ [length cands],
    vt_prune_count := vt_prune_count t + 1\<rparr>) (s\<lparr>va_marks := em'\<rparr>))"
  have s1: "vamana_wf config base (va_graph s1)" "va_marks s1 = em'"
    "counts_of s1 = map_option (\<lambda>cs. cs @ [length cands]) (counts_of s)"
    using wf_update[OF wf out(2)] by (simp_all add: s1_def counts_of_def option.map_comp comp_def)
  have run: "vamana_insert config base i entry s =
    (if \<not> vc_add_reverse_edges config then (Inr (), s1) else add_reverse_edges config base i out s1)"
    using len i search out(1) by (simp add: vamana_insert_def alive_def Let_def s1_def cands_def)
  show ?thesis
    using run s1 em' add_reverse_edges_ok[OF s1(1), of i out]
    by (cases "vc_add_reverse_edges config") (auto intro!: exI[of _ "length cands"])
qed

text \<open>
  The states an insertion order goes through: each node of the order is inserted, from the
  medoid, into the graph that the nodes before it have left.
\<close>

inductive inserted_in_turn :: "vamana_config \<Rightarrow> vector_set \<Rightarrow> u32 \<Rightarrow> u32 list \<Rightarrow> vamana_state \<Rightarrow> vamana_state \<Rightarrow> bool"
  for config base medoid where
  in_turn_none: "inserted_in_turn config base medoid [] s s"
| in_turn_next: "vamana_insert config base i medoid s = (Inr (), s1) \<Longrightarrow>
    inserted_in_turn config base medoid order s1 s2 \<Longrightarrow> inserted_in_turn config base medoid (i # order) s s2"

text \<open>Clearing the list of a deleted node, as the loop does, changes nothing in a well-formed graph.\<close>

lemma clear_deleted:
  assumes "vamana_wf config base (va_graph s)" and "unat i < vs_size base" and "\<not> alive config base i"
  shows "set_neighbors i [] s = s"
proof -
  have "va_graph s ! unat i = []"
    using wf_neighbors[OF assms(1,2)] assms(2,3) by (simp add: neighbors_ok_def alive_def)
  then have "(va_graph s)[unat i := []] = va_graph s" by (metis list_update_id)
  then show ?thesis by (simp add: set_neighbors_def)
qed

lemma insert_all_ok:
  assumes "vamana_wf config base (va_graph s)" and "epoch_ok (va_marks s)" and "alive config base medoid"
    and "\<forall>i\<in>set order. unat i < vs_size base" and "counts_of s = Some counts"
  shows "\<exists>s' added. insert_all config base medoid order s = (Inr (), s') \<and> vamana_wf config base (va_graph s') \<and>
    epoch_ok (va_marks s') \<and> counts_of s' = Some (counts @ added) \<and>
    length added = length (filter (alive config base) order) \<and>
    inserted_in_turn config base medoid (filter (alive config base) order) s s'"
  using assms(1,2,4,5)
proof (induction order arbitrary: s counts)
  case (Cons i order)
  show ?case
  proof (cases "alive config base i")
    case False
    then have del: "is_deleted (deleted_mask config (vs_size base)) (unat i)" using Cons.prems(3) by (simp add: alive_def)
    have "set_neighbors i [] s = s" using clear_deleted[OF Cons.prems(1) _ False] Cons.prems(3) by simp
    then show ?thesis using Cons.IH[OF Cons.prems(1,2) _ Cons.prems(4)] Cons.prems(3) del False by simp
  next
    case True
    obtain s1 c where s1: "vamana_insert config base i medoid s = (Inr (), s1)" "vamana_wf config base (va_graph s1)"
      "epoch_ok (va_marks s1)" "counts_of s1 = map_option (\<lambda>cs. cs @ [c]) (counts_of s)"
      using vamana_insert_ok[OF Cons.prems(1,2) True assms(3)] by blast
    have "counts_of s1 = Some (counts @ [c])" using s1(4) Cons.prems(4) by simp
    from Cons.IH[OF s1(2,3) _ this] Cons.prems(3) obtain s' added where
      "insert_all config base medoid order s1 = (Inr (), s')" "vamana_wf config base (va_graph s')" "epoch_ok (va_marks s')"
      "counts_of s' = Some (counts @ c # added)" "length added = length (filter (alive config base) order)"
      "inserted_in_turn config base medoid (filter (alive config base) order) s1 s'" by auto
    moreover have "\<not> is_deleted (deleted_mask config (vs_size base)) (unat i)" using True by (simp add: alive_def)
    ultimately show ?thesis
      using s1(1) True in_turn_next[OF s1(1)] by (intro exI[of _ s'] exI[of _ "c # added"]) simp
  qed
qed (simp add: in_turn_none)

lemma unat_index: "i < vs_size base \<Longrightarrow> vs_size base \<le> 2 ^ 32 - 1 \<Longrightarrow> unat (word_of_nat i :: u32) = i"
  by (simp add: unat_of_nat)

lemma find_medoid_alive:
  assumes "find_medoid config base = Inr m" and "vs_size base \<le> 2 ^ 32 - 1"
  shows "alive config base m" and "\<not> vs_empty base" and "vs_dim base \<noteq> 0"
proof -
  obtain centroid d d' where m: "foldl (vamana_medoid_step base (deleted_mask config (vs_size base)) centroid) (- 1, d) [0..<vs_size base] = (m, d')"
    "m \<noteq> - 1" and "\<not> vs_empty base \<and> vs_dim base \<noteq> 0"
    using assms(1) by (auto simp: find_medoid_def Let_def split: if_splits prod.splits)
  then show "\<not> vs_empty base" "vs_dim base \<noteq> 0" by simp_all
  let ?P = "\<lambda>acc. fst acc = - 1 \<or> alive config base (fst acc)"
  have "?P (foldl (vamana_medoid_step base (deleted_mask config (vs_size base)) centroid) (- 1, d) [0..<vs_size base])"
    by (rule foldl_inv) (use assms(2) in \<open>auto simp: vamana_medoid_step_def alive_def Let_def unat_index split: prod.splits\<close>)
  then show "alive config base m" using m by simp
qed

lemma initial_candidates_range:
  assumes "0 < n" and "n \<le> 2 ^ 32 - 1"
  shows "\<forall>c\<in>set (initial_candidates config n i). unat c < n"
proof -
  have "unat (word_of_nat (k mod n) :: u32) < n" for k
    using le_less_trans[OF mod_less_eq_dividend mod_less_divisor[OF assms(1), of k]] by (simp add: unat_of_nat)
  then show ?thesis by (auto simp: initial_candidates_def Let_def)
qed

lemma initial_graph_wf:
  assumes "vs_size base \<le> 2 ^ 32 - 1"
  shows "vamana_wf config base (initial_graph config base (deleted_mask config (vs_size base)))"
proof (cases "vs_size base \<le> 1")
  case False
  have "neighbors_ok config base i (take (vc_max_degree config)
      (unique_ids (initial_candidates config (vs_size base) i) (word_of_nat i) (deleted_mask config (vs_size base))))"
    if i: "i < vs_size base" "\<not> is_deleted (deleted_mask config (vs_size base)) i" for i
  proof -
    have "0 < vs_size base" using False by simp
    note range = initial_candidates_range[OF this assms, of config i]
    have "alive config base c \<and> unat c \<noteq> i"
      if "c \<in> set (take (vc_max_degree config)
        (unique_ids (initial_candidates config (vs_size base) i) (word_of_nat i) (deleted_mask config (vs_size base))))" for c
    proof -
      have "c \<in> set (initial_candidates config (vs_size base) i)" "c \<noteq> word_of_nat i"
        "\<not> is_deleted (deleted_mask config (vs_size base)) (unat c)"
        using in_set_takeD[OF that] by simp_all
      then show ?thesis using range by (auto simp: alive_def)
    qed
    then show ?thesis using i by (simp add: neighbors_ok_def)
  qed
  then show ?thesis using False by (auto simp: vamana_wf_def initial_graph_def Let_def)
qed (auto simp: vamana_wf_def initial_graph_def Let_def)

text \<open>The state the insertions start from.\<close>

definition vamana_start :: "vamana_config \<Rightarrow> vector_set \<Rightarrow> u32 \<Rightarrow> epoch_marks \<Rightarrow> vamana_state" where
  "vamana_start config base medoid em =
     \<lparr>va_graph = initial_graph config base (deleted_mask config (vs_size base)),
      va_stats = Some (no_vamana_stats\<lparr>vt_medoid := medoid\<rparr>), va_marks = em\<rparr>"

lemma build_order_mset:
  "(\<And>seed xs. mset (shuffle seed xs) = mset xs) \<Longrightarrow>
    mset (build_order shuffle config n) = mset (map word_of_nat [0..<n])"
  by (simp add: build_order_def)

lemma build_order_range:
  assumes "vs_size base \<le> 2 ^ 32 - 1" and "\<And>seed xs. mset (shuffle seed xs) = mset xs"
  shows "\<forall>i\<in>set (build_order shuffle config (vs_size base)). unat i < vs_size base"
    and "distinct (filter (alive config base) (build_order shuffle config (vs_size base)))"
    and "set (filter (alive config base) (build_order shuffle config (vs_size base))) = {i. alive config base i}"
proof -
  let ?order = "build_order shuffle config (vs_size base)"
  note order = build_order_mset[of shuffle config "vs_size base", OF assms(2)]
  then have set: "set ?order = word_of_nat ` {0..<vs_size base}" by (metis set_mset_mset set_map set_upt)
  then show "\<forall>i\<in>set ?order. unat i < vs_size base" using assms(1) by (auto simp: unat_index)
  have "inj_on (word_of_nat :: nat \<Rightarrow> u32) {0..<vs_size base}"
    using assms(1) by (intro inj_onI) (metis atLeastLessThan_iff unat_index)
  then have "distinct ?order"
    unfolding mset_eq_imp_distinct_iff[OF order] by (simp add: distinct_map)
  then show "distinct (filter (alive config base) ?order)" by simp
  have "i \<in> set ?order" if "alive config base i" for i
    unfolding set using that by (intro image_eqI[of _ _ "unat i"]) (simp_all add: alive_def)
  then show "set (filter (alive config base) ?order) = {i. alive config base i}" by auto
qed

lemma build_run:
  assumes "find_medoid config base = Inr m" and "vs_size base \<le> 2 ^ 32 - 1"
    and "\<And>seed xs. mset (shuffle seed xs) = mset xs" and "epoch_ok em"
  shows "\<exists>g em' s. vamana_build shuffle config base em = (Inr g, em') \<and> epoch_ok em' \<and> vg_medoid g = m \<and>
    vamana_wf config base (vg_adjacency g) \<and> length (vt_candidate_counts (vg_stats g)) =
      length (filter (alive config base) (build_order shuffle config (vs_size base))) \<and>
    inserted_in_turn config base m (filter (alive config base) (build_order shuffle config (vs_size base)))
      (vamana_start config base m em) s \<and> vg_adjacency g = va_graph s"
proof -
  note m = find_medoid_alive[OF assms(1,2)]
  let ?order = "build_order shuffle config (vs_size base)" and ?s = "vamana_start config base m em"
  note range = build_order_range(1)[of base shuffle config, OF assms(2,3)]
  have "vamana_wf config base (va_graph ?s)" "epoch_ok (va_marks ?s)" "counts_of ?s = Some []"
    using initial_graph_wf[OF assms(2), of config] assms(4)
    by (simp_all add: counts_of_def no_vamana_stats_def vamana_start_def)
  from insert_all_ok[OF this(1,2) m(1) range this(3)]
  obtain s' added where run: "insert_all config base m ?order ?s = (Inr (), s')" "vamana_wf config base (va_graph s')"
    "epoch_ok (va_marks s')" "counts_of s' = Some added" "length added = length (filter (alive config base) ?order)"
    "inserted_in_turn config base m (filter (alive config base) ?order) ?s s'" by auto
  obtain stats where stats: "va_stats s' = Some stats" "vt_candidate_counts stats = added"
    using run(4) by (auto simp: counts_of_def)
  have "vt_candidate_counts (finalize_stats (va_graph s') stats) = added"
    using stats(2) by (simp add: finalize_stats_def Let_def)
  then show ?thesis
    using m assms(1,2) run(2-6) run(1)[unfolded vamana_start_def] stats(1) by (auto simp: vamana_build_def)
qed

lemma build_order_alive:
  assumes "vs_size base \<le> 2 ^ 32 - 1" and "\<And>seed xs. mset (shuffle seed xs) = mset xs"
  shows "length (filter (alive config base) (build_order shuffle config (vs_size base))) =
    length (filter (\<lambda>i. \<not> is_deleted (deleted_mask config (vs_size base)) i) [0..<vs_size base])"
proof -
  let ?order = "build_order shuffle config (vs_size base)"
  have "length (filter (alive config base) ?order) = length (filter (alive config base) (map word_of_nat [0..<vs_size base]))"
    using build_order_mset[of shuffle config "vs_size base", OF assms(2)] by (metis mset_filter size_mset)
  also have "\<dots> = length (filter (alive config base \<circ> word_of_nat) [0..<vs_size base])" by (simp add: filter_map)
  also have "filter (alive config base \<circ> word_of_nat) [0..<vs_size base] =
      filter (\<lambda>i. \<not> is_deleted (deleted_mask config (vs_size base)) i) [0..<vs_size base]"
    using assms(1) by (intro filter_cong) (auto simp: alive_def unat_index)
  finally show ?thesis .
qed

text \<open>
  C14: the builder. When a medoid exists, building returns for every insertion order, and the
  graph is well formed: one list per node, without repetitions, of at most \<open>max_degree\<close> live other
  nodes, empty for deleted nodes; the medoid is live. The graph is what the initial graph becomes
  when every live node is inserted exactly once, in the order of the shuffle: \<open>order\<close> holds each
  live node once and no other, each of its nodes is inserted into the graph the nodes before it
  left (\<open>inserted_in_turn\<close>), and one candidate count is recorded for each.
\<close>

theorem vamana_build_wf:
  assumes "find_medoid config base = Inr m" and "vs_size base \<le> 2 ^ 32 - 1"
    and "\<And>seed xs. mset (shuffle seed xs) = mset xs" and "epoch_ok em"
  shows "\<exists>g em'. vamana_build shuffle config base em = (Inr g, em') \<and> epoch_ok em' \<and> vg_medoid g = m \<and>
    alive config base m \<and> vamana_wf config base (vg_adjacency g) \<and>
    length (vt_candidate_counts (vg_stats g)) =
      length (filter (\<lambda>i. \<not> is_deleted (deleted_mask config (vs_size base)) i) [0..<vs_size base]) \<and>
    (\<exists>order s. order = filter (alive config base) (build_order shuffle config (vs_size base)) \<and>
      distinct order \<and> set order = {i. alive config base i} \<and>
      inserted_in_turn config base m order (vamana_start config base m em) s \<and> vg_adjacency g = va_graph s)"
proof -
  obtain g em' s where g: "vamana_build shuffle config base em = (Inr g, em')" "epoch_ok em'" "vg_medoid g = m"
    "vamana_wf config base (vg_adjacency g)" "length (vt_candidate_counts (vg_stats g)) =
      length (filter (alive config base) (build_order shuffle config (vs_size base)))"
    "inserted_in_turn config base m (filter (alive config base) (build_order shuffle config (vs_size base)))
      (vamana_start config base m em) s" "vg_adjacency g = va_graph s"
    using build_run[of config base m shuffle em, OF assms] by blast
  note order = build_order_range(2,3)[of base shuffle config, OF assms(2,3)]
  have "length (vt_candidate_counts (vg_stats g)) =
      length (filter (\<lambda>i. \<not> is_deleted (deleted_mask config (vs_size base)) i) [0..<vs_size base])"
    using g(5) build_order_alive[of base shuffle config, OF assms(2,3)] by simp
  then show ?thesis using g(1-4,6,7) order find_medoid_alive(1)[OF assms(1,2)] by blast
qed

section \<open>A concrete base\<close>

definition vamana_demo_vectors :: vector_set where
  "vamana_demo_vectors = \<lparr>vs_dim = 1, vs_values = [0, 0]\<rparr>"

definition demo_vamana :: vamana_config where
  "demo_vamana = \<lparr>vc_max_degree = 2, vc_search_width = 4, vc_alpha = 0x3FF3333333333333, vc_seed = 42,
     vc_add_reverse_edges = True, vc_deleted_ids = []\<rparr>"

lemma vamana_demo_simps [simp]:
  "vs_size vamana_demo_vectors = 2" "vs_dim vamana_demo_vectors = 1" "deleted_mask demo_vamana n = []" "\<not> is_deleted [] i"
  "vc_search_width demo_vamana = 4" "vc_max_degree demo_vamana = 2"
  by (simp_all add: vamana_demo_vectors_def demo_vamana_def vs_size_def deleted_mask_def is_deleted_def)

lemma vamana_demo_row [simp]: "i < 2 \<Longrightarrow> row_values vamana_demo_vectors i = [0]"
  by (auto simp: row_values_def vamana_demo_vectors_def less_2_cases_iff)

lemma vamana_demo_finite [simp]: "finite_vector (Suc 0) [0]" "finite_base vamana_demo_vectors"
  by (simp_all add: finite_base_def finite_vector_def f32_finite_def fp_finite_def fp_mag_def binary32_def)

lemma vamana_demo_alive [simp]: "alive demo_vamana vamana_demo_vectors i \<longleftrightarrow> unat i < 2"
  by (simp add: alive_def)

lemma vamana_demo_medoid: "find_medoid demo_vamana vamana_demo_vectors = Inr 0"
proof -
  have two: "[0..<2] = [0, Suc 0]" by (simp add: numeral_2_eq_2)
  have scale: "f32_div f32_one (f32_of_nat (Suc (Suc 0))) = 0x3F000000"
    by (simp add: f32_div_def f32_one_def f32_of_nat_def fp_of_nat_def fp_div_def fp_nan_def fp_inf_def fp_neg_def
        fp_mag_def fp_units_def fp_make_def fp_round_def binary32_def bit_len.simps Let_def flip: numeral_2_eq_2)
  have zero: "f32_mul 0 0x3F000000 = 0"
    by (simp add: f32_mul_def fp_mul_def fp_nan_def fp_inf_def fp_neg_def fp_mag_def fp_units_def fp_make_def
        fp_round_def binary32_def bit_len.simps Let_def)
  have lt: "f32_lt 0 f32_max" "\<not> f32_lt 0 0"
    by (simp_all add: f32_lt_def fp_lt_def fp_nan_def fp_val_def fp_neg_def fp_mag_def fp_units_def f32_max_def binary32_def Let_def)
  show ?thesis
    by (simp add: find_medoid_def vs_empty_def add_row_def vamana_medoid_step_def two scale zero lt)
qed

theorem vamana_build_wf_witness:
  "\<exists>g em' s. vamana_build (\<lambda>seed. rev) demo_vamana vamana_demo_vectors \<lparr>em_visited_epoch = [], em_current_epoch = 0\<rparr> = (Inr g, em') \<and>
    vamana_wf demo_vamana vamana_demo_vectors (vg_adjacency g) \<and> length (vt_candidate_counts (vg_stats g)) = 2 \<and>
    inserted_in_turn demo_vamana vamana_demo_vectors 0 [1, 0]
      (vamana_start demo_vamana vamana_demo_vectors 0 \<lparr>em_visited_epoch = [], em_current_epoch = 0\<rparr>) s \<and> vg_adjacency g = va_graph s"
proof -
  have "filter (alive demo_vamana vamana_demo_vectors) (build_order (\<lambda>seed. rev) demo_vamana (vs_size vamana_demo_vectors)) = [1, 0]"
    by (simp add: build_order_def numeral_2_eq_2)
  then show ?thesis
    using vamana_build_wf[OF vamana_demo_medoid, of "\<lambda>seed. rev" "\<lparr>em_visited_epoch = [], em_current_epoch = 0\<rparr>"]
    by (auto simp: epoch_ok_def)
qed

theorem robust_prune_picks_witness:
  "\<exists>picked. robust_prune demo_vamana vamana_demo_vectors 0 [1, 1, 0] = Inr picked \<and> set picked = {1}"
proof -
  have alive: "alive demo_vamana vamana_demo_vectors 0" by simp
  obtain picked where run: "robust_prune demo_vamana vamana_demo_vectors 0 [1, 1, 0] = Inr picked"
    using robust_prune_ok[OF alive, of "[1, 1, 0]"] by auto
  note picks = robust_prune_picks[OF run alive]
  then have sub: "set picked \<subseteq> {1}" by (auto simp: available_def)
  then have "1 \<in> set picked"
    using picks by (cases picked) (auto simp: available_def prune_before_def)
  with sub show ?thesis using run by blast
qed

theorem construction_search_complete_witness:
  "\<exists>ids em'. search_for_construction demo_vamana vamana_demo_vectors [[1], [0]] [0] 0 7 \<lparr>em_visited_epoch = [], em_current_epoch = 0\<rparr> =
      (Inr ids, em') \<and> {0, 1} \<subseteq> set ids"
proof -
  let ?em = "\<lparr>em_visited_epoch = [], em_current_epoch = 0\<rparr>" and ?ok = "available demo_vamana vamana_demo_vectors 7"
  have pre: "length [[1], [0]] = vs_size vamana_demo_vectors" "alive demo_vamana vamana_demo_vectors 0" "epoch_ok ?em"
    by (simp_all add: epoch_ok_def)
  obtain ids em' where run: "search_for_construction demo_vamana vamana_demo_vectors [[1], [0]] [0] 0 7 ?em = (Inr ids, em')"
    using search_parts[OF pre] by blast
  have start: "search_start ?ok (vs_size vamana_demo_vectors) 0 = Some 0" by (simp add: search_start_def available_def)
  note found = construction_search_complete[OF run pre, unfolded start option.case]
  have ids: "distinct ids" "set ids \<subseteq> {0, 1}"
  proof -
    have "sorted_wrt (<) (map (\<lambda>i. dist_id_key (row_distance vamana_demo_vectors [0] i) i) ids)"
      using found by (simp add: sorted_wrt_map)
    then show "distinct ids" by (simp add: strict_sorted_iff distinct_map)
    have "i = 0 \<or> i = 1" if "unat i < 2" for i :: u32
      using that by (metis less_2_cases unat_eq_zero unat_1 word_unat_eq_iff One_nat_def)
    then show "set ids \<subseteq> {0, 1}" using found by (auto simp: available_def)
  qed
  have "card (set ids) \<le> card {0 :: u32, 1}" by (rule card_mono) (use ids in simp_all)
  then have "length ids < 4" using distinct_card[OF ids(1)] by simp
  then have "set ids = construction_reach ?ok [[1], [0]] 0" using found by simp
  moreover have "0 \<in> construction_reach ?ok [[1], [0]] 0" by (rule construction_reach.intros(1))
  moreover from this have "1 \<in> construction_reach ?ok [[1], [0]] 0"
    by (rule construction_reach.intros(2)) (simp_all add: available_def)
  ultimately show ?thesis using run by auto
qed

end
