(* ===== verification/BuildGraph.thy ===== *)
theory BuildGraph
  imports VamanaBuilder PqEncoder
begin

text \<open>
  The first half of \<open>src/graph/disk_graph_builder.cpp\<close>: the policies that build the proximity graph
  of an index (exact, random projections, locality sensitive hashing, Vamana), reverse edges and
  the patch for deleted nodes. What the generators of the standard library give is a parameter:
  \<open>br_draw seed k\<close> is the \<open>k\<close>-th draw of \<open>std::uniform_int_distribution(0, 1)\<close> from a
  \<open>std::mt19937\<close> with that seed, \<open>br_shuffle\<close> what \<open>std::shuffle\<close> makes of a list.
\<close>

section \<open>Configuration\<close>

record build_random =
  br_draw :: "u32 \<Rightarrow> nat \<Rightarrow> nat"
  br_shuffle :: "u32 \<Rightarrow> u32 list \<Rightarrow> u32 list"

record build_stats =
  bt_hotpath_train_queries :: nat
  bt_hotpath_unique_visited_nodes :: nat
  bt_hotpath_top_node_visit_count :: nat
  bt_reverse_edges_added :: nat
  bt_reverse_prune_count :: nat
  bt_avg_degree :: nat
  bt_max_degree :: nat
  bt_graph_candidate_avg :: nat
  bt_graph_candidate_p95 :: nat
  bt_graph_candidate_p99 :: nat
  bt_candidate_counts :: "nat list"

text \<open>The statistics the configuration points to are handed on separately, as an option.\<close>

record build_config =
  bc_degree :: nat
  bc_page_size :: nat
  bc_build_policy :: string
  bc_packing_strategy :: string
  bc_random_seed :: u32
  bc_approx_projections :: nat
  bc_approx_window :: nat
  bc_approx_random_samples :: nat
  bc_approx_candidate_limit :: nat
  bc_reverse_edge_patch :: bool
  bc_prune_passes :: nat
  bc_lsh_tables :: nat
  bc_lsh_bits :: nat
  bc_lsh_probe_radius :: nat
  bc_lsh_bucket_limit :: nat
  bc_robust_prune_alpha :: nat
  bc_deleted_ids :: "u32 list"
  bc_coaccess_sessions :: nat
  bc_coaccess_trace_length :: nat
  bc_hotpath_queries :: "vector_set option"
  bc_pq_model :: "pq_encoder option"
  bc_hotpath_train_queries :: nat
  bc_hotpath_search_width :: nat
  bc_hotpath_entry_count :: nat

definition is_candidate_build_policy :: "build_config \<Rightarrow> bool" where
  "is_candidate_build_policy config \<longleftrightarrow>
     bc_build_policy config \<in> {''approx-rp'', ''lsh-rp'', ''lsh-vamana'', ''vamana''}"

definition validate_build_policy :: "build_config \<Rightarrow> unit result" where
  "validate_build_policy config =
     seq_result (throw_if (bc_build_policy config \<noteq> ''exact'' \<and> \<not> is_candidate_build_policy config)
       (Runtime_error ''--graph-build-policy must be exact, approx-rp, lsh-rp, lsh-vamana, or vamana'')) (\<lambda>_.
     seq_result (if is_candidate_build_policy config \<and> bc_build_policy config \<noteq> ''vamana''
       then (if bc_approx_projections config = 0 then Inl (Runtime_error ''--approx-projections must be positive'')
             else if bc_approx_window config = 0 then Inl (Runtime_error ''--approx-window must be positive'')
             else if bc_approx_candidate_limit config \<noteq> 0 \<and> bc_approx_candidate_limit config < bc_degree config
             then Inl (Runtime_error ''--approx-candidate-limit must be 0 or at least --graph-degree'')
             else Inr ())
       else Inr ()) (\<lambda>_.
     seq_result (if bc_build_policy config = ''lsh-rp'' \<or> bc_build_policy config = ''lsh-vamana''
       then (if bc_lsh_tables config = 0 then Inl (Runtime_error ''--lsh-tables must be positive'')
             else if bc_lsh_bits config = 0 \<or> 24 < bc_lsh_bits config
             then Inl (Runtime_error ''--lsh-bits must be between 1 and 24'')
             else if 1 < bc_lsh_probe_radius config
             then Inl (Runtime_error ''--lsh-probe-radius currently supports only 0 or 1'')
             else if bc_lsh_bucket_limit config = 0 then Inl (Runtime_error ''--lsh-bucket-limit must be positive'')
             else Inr ())
       else Inr ()) (\<lambda>_.
     throw_if (fp_lt binary64 (bc_robust_prune_alpha config) (fp_of_nat binary64 1))
       (Runtime_error ''--robust-prune-alpha must be at least 1.0''))))"

text \<open>Unlike the Vamana builder's, this mask always has an entry for each node.\<close>

definition build_deleted_mask :: "nat \<Rightarrow> u32 list \<Rightarrow> bool list" where
  "build_deleted_mask n deleted_ids =
     foldl (\<lambda>deleted i. if unat i < n then deleted[unat i := True] else deleted) (replicate n False) deleted_ids"

section \<open>Exact neighbours\<close>

text \<open>A \<open>NeighborCandidate\<close> has the fields of a \<open>Candidate\<close>; both comparators order by distance, then identifier.\<close>

definition exact_step ::
  "vector_set \<Rightarrow> nat \<Rightarrow> bool list \<Rightarrow> nat \<Rightarrow> candidate list \<Rightarrow> nat \<Rightarrow> candidate list" where
  "exact_step base i deleted effective_degree heap other =
     (if other = i \<or> (other < length deleted \<and> deleted ! other) then heap
      else heap_step closer_candidate effective_degree heap
        \<lparr>cd_id = word_of_nat other,
         cd_distance = squared_l2 (row_values base i) (row_values base other) (vs_dim base)\<rparr>)"

definition exact_neighbors :: "vector_set \<Rightarrow> nat \<Rightarrow> nat \<Rightarrow> bool list \<Rightarrow> u32 list" where
  "exact_neighbors base i degree deleted =
     (let effective_degree = (if vs_size base = 0 then 0 else min degree (vs_size base - 1))
      in if length deleted \<le> i \<or> deleted ! i then []
         else map cd_id (std_sort closer_candidate
           (rev (foldl (exact_step base i deleted effective_degree) [] [0..<vs_size base]))))"

definition build_exact_graph :: "vector_set \<Rightarrow> nat \<Rightarrow> bool list \<Rightarrow> adjacency" where
  "build_exact_graph base degree deleted = map (\<lambda>i. exact_neighbors base i degree deleted) [0..<vs_size base]"

section \<open>Random projections\<close>

definition projection_score :: "f32 list \<Rightarrow> f32 list \<Rightarrow> nat \<Rightarrow> f32" where
  "projection_score row plane dim = foldl (\<lambda>score d. f32_add score (f32_mul (row ! d) (plane ! d))) 0 [0..<dim]"

text \<open>A plane made of the draws from number \<open>first\<close> on.\<close>

definition sign_plane :: "build_random \<Rightarrow> u32 \<Rightarrow> nat \<Rightarrow> nat \<Rightarrow> f32 list" where
  "sign_plane rnd seed first n = map (\<lambda>k. if br_draw rnd seed (first + k) = 0 then f32_minus_one else f32_one) [0..<n]"

record projection_index =
  pi_orders :: "u32 list list"
  pi_positions :: "u32 list list"

text \<open>One projection; a \<open>ProjectionItem\<close> is a candidate whose distance is its score.\<close>

definition projection_order :: "build_random \<Rightarrow> build_config \<Rightarrow> vector_set \<Rightarrow> nat \<Rightarrow> u32 list" where
  "projection_order rnd config base p =
     (let plane = sign_plane rnd (bc_random_seed config) (p * vs_dim base) (vs_dim base)
      in map cd_id (std_sort closer_candidate (map (\<lambda>i. \<lparr>cd_id = word_of_nat i,
           cd_distance = projection_score (row_values base i) plane (vs_dim base)\<rparr>) [0..<vs_size base])))"

definition build_projection_index :: "build_random \<Rightarrow> build_config \<Rightarrow> vector_set \<Rightarrow> projection_index" where
  "build_projection_index rnd config base =
     (let orders = map (projection_order rnd config base) [0..<bc_approx_projections config]
      in \<lparr>pi_orders = orders,
          pi_positions = map (\<lambda>order. foldl (\<lambda>positions rank. positions[unat (order ! rank) := word_of_nat rank])
            (replicate (vs_size base) 0) [0..<length order]) orders\<rparr>)"

section \<open>Candidates\<close>

definition add_candidate :: "u32 \<Rightarrow> nat \<Rightarrow> u32 list \<Rightarrow> u32 \<Rightarrow> u32 list" where
  "add_candidate self n candidates candidate =
     (if candidate \<noteq> self \<and> unat candidate < n then candidates @ [candidate] else candidates)"

definition add_projection_candidates ::
  "u32 \<Rightarrow> projection_index \<Rightarrow> build_config \<Rightarrow> nat \<Rightarrow> u32 list \<Rightarrow> u32 list" where
  "add_projection_candidates self projections config n candidates =
     foldl (\<lambda>candidates p.
         let rank = unat (pi_positions projections ! p ! unat self);
             first = (if bc_approx_window config < rank then rank - bc_approx_window config else 0);
             stop = min n (rank + bc_approx_window config + 1)
         in foldl (\<lambda>candidates k. add_candidate self n candidates (pi_orders projections ! p ! k)) candidates [first..<stop])
       candidates [0..<length (pi_orders projections)]"

definition add_deterministic_samples :: "u32 \<Rightarrow> build_config \<Rightarrow> nat \<Rightarrow> u32 list \<Rightarrow> u32 list" where
  "add_deterministic_samples self config n candidates =
     (if n \<le> 1 then candidates
      else (let seed = mix_u32 (bc_random_seed config XOR self);
                candidates = foldl (\<lambda>candidates k. add_candidate self n candidates
                    (word_of_nat (unat (mix_u32 (seed + word_of_nat (k * 0x9e3779b9))) mod n)))
                  candidates [0..<bc_approx_random_samples config];
                ring = min (bc_approx_window config) (n - 1)
            in foldl (\<lambda>candidates offset.
                 add_candidate self n
                   (add_candidate self n candidates (word_of_nat ((unat self + offset) mod n)))
                   (word_of_nat ((unat self + n - offset) mod n)))
               candidates [1..<Suc ring]))"

definition deduplicate_and_limit ::
  "build_random \<Rightarrow> u32 list \<Rightarrow> u32 \<Rightarrow> build_config \<Rightarrow> nat \<Rightarrow> bool list \<Rightarrow> u32 list" where
  "deduplicate_and_limit rnd candidates self config n deleted =
     (let candidates = filter (\<lambda>i. \<not> (i = self \<or> n \<le> unat i \<or> (unat i < length deleted \<and> deleted ! unat i))) candidates;
          candidates = remdups_adj (sort candidates)
      in if bc_approx_candidate_limit config \<noteq> 0 \<and> bc_approx_candidate_limit config < length candidates
         then take (bc_approx_candidate_limit config)
           (br_shuffle rnd (mix_u32 (bc_random_seed config XOR self XOR 0xa77c0de)) candidates)
         else candidates)"

text \<open>The pool of both selections: candidates that are other live nodes, with their distances.\<close>

definition live_pool :: "vector_set \<Rightarrow> u32 \<Rightarrow> u32 list \<Rightarrow> bool list \<Rightarrow> candidate list" where
  "live_pool base self candidates deleted =
     map (measured base (row_values base (unat self)))
       (filter (\<lambda>c. \<not> (c = self \<or> vs_size base \<le> unat c \<or> length deleted \<le> unat c \<or> deleted ! unat c)) candidates)"

text \<open>\<open>std::nth_element\<close> moves the smallest elements to the front; the final sort then orders them.\<close>

definition nearest_neighbors_from_candidates ::
  "vector_set \<Rightarrow> u32 \<Rightarrow> u32 list \<Rightarrow> nat \<Rightarrow> bool list \<Rightarrow> u32 list" where
  "nearest_neighbors_from_candidates base self candidates degree deleted =
     (let effective_degree = min degree (vs_size base - 1)
      in if effective_degree = 0 \<or> length deleted \<le> unat self \<or> deleted ! unat self then []
         else map cd_id (take effective_degree (std_sort closer_candidate (live_pool base self candidates deleted))))"

definition robust_prune_neighbors ::
  "vector_set \<Rightarrow> u32 \<Rightarrow> u32 list \<Rightarrow> nat \<Rightarrow> nat \<Rightarrow> bool list \<Rightarrow> u32 list" where
  "robust_prune_neighbors base self candidates degree alpha deleted =
     (let effective_degree = min degree (vs_size base - 1)
      in if effective_degree = 0 \<or> length deleted \<le> unat self \<or> deleted ! unat self then []
         else prune_loop base (fp_mul binary64 alpha alpha) effective_degree
           (std_sort closer_candidate (live_pool base self candidates deleted)) [])"

definition record_candidate_count :: "nat \<Rightarrow> build_stats option \<Rightarrow> build_stats option" where
  "record_candidate_count n stats = map_option (\<lambda>t. t\<lparr>bt_candidate_counts := bt_candidate_counts t @ [n]\<rparr>) stats"

definition unique_valid_candidates :: "u32 list \<Rightarrow> u32 \<Rightarrow> nat \<Rightarrow> bool list \<Rightarrow> u32 list" where
  "unique_valid_candidates ids self n deleted =
     remdups_adj (sort (filter (\<lambda>i. i \<noteq> self \<and> unat i < n \<and> unat i < length deleted \<and> \<not> deleted ! unat i) ids))"

section \<open>Reverse edges\<close>

definition note_reverse ::
  "nat \<Rightarrow> nat \<Rightarrow> bool list \<Rightarrow> adjacency \<Rightarrow> adjacency \<times> nat \<Rightarrow> u32 \<Rightarrow> adjacency \<times> nat" where
  "note_reverse i n deleted graph = (\<lambda>(reverse, added) neighbor.
     if unat neighbor < n \<and> unat neighbor < length deleted \<and> \<not> deleted ! unat neighbor
     then (reverse[unat neighbor := reverse ! unat neighbor @ [word_of_nat i]],
           if contains_id (graph ! unat neighbor) (word_of_nat i) then added else added + 1)
     else (reverse, added))"

definition reverse_step ::
  "nat \<Rightarrow> bool list \<Rightarrow> adjacency \<times> adjacency \<times> nat \<Rightarrow> nat \<Rightarrow> adjacency \<times> adjacency \<times> nat" where
  "reverse_step n deleted = (\<lambda>(graph, reverse, added) i.
     if i < length deleted \<and> deleted ! i then (graph[i := []], reverse, added)
     else (graph, foldl (note_reverse i n deleted graph) (reverse, added) (graph ! i)))"

definition rebuild_step ::
  "vector_set \<Rightarrow> nat \<Rightarrow> bool list \<Rightarrow> adjacency \<Rightarrow> adjacency \<Rightarrow> nat \<Rightarrow> adjacency" where
  "rebuild_step base degree deleted reverse graph i =
     (if i < length deleted \<and> deleted ! i then graph[i := []]
      else if reverse ! i = [] then graph
      else graph[i := nearest_neighbors_from_candidates base (word_of_nat i)
             (remdups_adj (sort (graph ! i @ reverse ! i))) degree deleted])"

definition add_reverse_edges_batch ::
  "vector_set \<Rightarrow> nat \<Rightarrow> bool list \<Rightarrow> adjacency \<Rightarrow> nat \<times> adjacency" where
  "add_reverse_edges_batch base degree deleted graph =
     (let n = length graph;
          (graph, reverse, added) = foldl (reverse_step n deleted) (graph, replicate n [], 0) [0..<n]
      in (added, foldl (rebuild_step base degree deleted reverse) graph [0..<n]))"

record reverse_patch_stats =
  rp_reverse_edges_added :: nat
  rp_reverse_prune_count :: nat

definition reverse_edges :: "bool list \<Rightarrow> adjacency \<Rightarrow> (u32 \<times> u32) list" where
  "reverse_edges deleted graph = concat (map (\<lambda>source.
     if length deleted \<le> source \<or> deleted ! source then []
     else map (Pair (word_of_nat source)) (filter (\<lambda>target. unat target < length graph \<and> unat target < length deleted \<and>
       \<not> deleted ! unat target \<and> unat target \<noteq> source) (graph ! source))) [0..<length graph])"

definition patch_edge ::
  "vector_set \<Rightarrow> nat \<Rightarrow> nat \<Rightarrow> bool list \<Rightarrow> reverse_patch_stats \<times> adjacency \<Rightarrow> u32 \<times> u32 \<Rightarrow> reverse_patch_stats \<times> adjacency" where
  "patch_edge base degree alpha deleted = (\<lambda>(stats, graph) (source, target).
     if contains_id (graph ! unat target) source then (stats, graph)
     else if length (graph ! unat target) < degree
     then (stats\<lparr>rp_reverse_edges_added := rp_reverse_edges_added stats + 1\<rparr>,
           graph[unat target := graph ! unat target @ [source]])
     else (let candidates = unique_valid_candidates (graph ! unat target @ [source]) target (length graph) deleted;
               stats = stats\<lparr>rp_reverse_prune_count := rp_reverse_prune_count stats + 1\<rparr>;
               pruned = robust_prune_neighbors base target candidates degree alpha deleted;
               stats = (if contains_id pruned source
                        then stats\<lparr>rp_reverse_edges_added := rp_reverse_edges_added stats + 1\<rparr> else stats)
           in (stats, graph[unat target := pruned])))"

definition add_reverse_edges_vamana ::
  "vector_set \<Rightarrow> nat \<Rightarrow> nat \<Rightarrow> bool list \<Rightarrow> adjacency \<Rightarrow> reverse_patch_stats \<times> adjacency" where
  "add_reverse_edges_vamana base degree alpha deleted graph =
     foldl (patch_edge base degree alpha deleted)
       (\<lparr>rp_reverse_edges_added = 0, rp_reverse_prune_count = 0\<rparr>, graph) (reverse_edges deleted graph)"

definition prune_overfull_nodes ::
  "vector_set \<Rightarrow> nat \<Rightarrow> nat \<Rightarrow> bool list \<Rightarrow> adjacency \<Rightarrow> nat \<times> adjacency" where
  "prune_overfull_nodes base degree alpha deleted graph =
     foldl (\<lambda>(prunes, graph) i.
         if length deleted \<le> i \<or> deleted ! i \<or> length (graph ! i) \<le> degree then (prunes, graph)
         else (prunes + 1, graph[i := robust_prune_neighbors base (word_of_nat i)
                 (unique_valid_candidates (graph ! i) (word_of_nat i) (length graph) deleted) degree alpha deleted]))
       (0, graph) [0..<length graph]"

section \<open>Deleted nodes\<close>

text \<open>The live nodes that point to each deleted node.\<close>

definition note_incoming :: "bool list \<Rightarrow> adjacency \<Rightarrow> adjacency \<Rightarrow> nat \<Rightarrow> adjacency" where
  "note_incoming deleted graph incoming source =
     (if source < length deleted \<and> deleted ! source then incoming
      else foldl (\<lambda>incoming target.
        if unat target < length deleted \<and> deleted ! unat target
        then incoming[unat target := incoming ! unat target @ [word_of_nat source]] else incoming) incoming (graph ! source))"

record delete_patch =
  dp_patch_candidates :: adjacency
  dp_affected :: "u32 list"
  dp_affected_mask :: "bool list"
  dp_deleted_nodes :: "u32 list"

definition note_affected :: "u32 list \<Rightarrow> u32 list \<Rightarrow> delete_patch \<Rightarrow> u32 \<Rightarrow> delete_patch" where
  "note_affected out_neighbors in_neighbors dp source =
     (if length (dp_patch_candidates dp) \<le> unat source then dp
      else (let dp = (if \<not> dp_affected_mask dp ! unat source
              then dp\<lparr>dp_affected_mask := (dp_affected_mask dp)[unat source := True], dp_affected := dp_affected dp @ [source]\<rparr>
              else dp)
            in dp\<lparr>dp_patch_candidates := (dp_patch_candidates dp)[unat source :=
                 dp_patch_candidates dp ! unat source @ out_neighbors @ in_neighbors]\<rparr>))"

definition patch_deleted :: "bool list \<Rightarrow> adjacency \<Rightarrow> adjacency \<Rightarrow> delete_patch \<Rightarrow> nat \<Rightarrow> delete_patch" where
  "patch_deleted deleted graph incoming dp deleted_id =
     (if \<not> deleted ! deleted_id then dp
      else (let dp = dp\<lparr>dp_deleted_nodes := dp_deleted_nodes dp @ [word_of_nat deleted_id]\<rparr>;
                live = (\<lambda>i. unat i < length deleted \<and> \<not> deleted ! unat i);
                out_neighbors = filter live (graph ! deleted_id);
                in_neighbors = filter live (incoming ! deleted_id)
            in foldl (note_affected out_neighbors in_neighbors) dp in_neighbors))"

definition reconnect ::
  "vector_set \<Rightarrow> nat \<Rightarrow> nat \<Rightarrow> bool list \<Rightarrow> adjacency \<Rightarrow> adjacency \<Rightarrow> u32 \<Rightarrow> adjacency" where
  "reconnect base degree alpha deleted patch_candidates graph source =
     (let candidates = filter (\<lambda>i. unat i < length deleted \<and> \<not> deleted ! unat i) (graph ! unat source) @
            patch_candidates ! unat source
      in graph[unat source := robust_prune_neighbors base source (remdups_adj (sort candidates)) degree alpha deleted])"

definition apply_freshvamana_delete_patch ::
  "vector_set \<Rightarrow> nat \<Rightarrow> nat \<Rightarrow> bool list \<Rightarrow> adjacency \<Rightarrow> adjacency" where
  "apply_freshvamana_delete_patch base degree alpha deleted graph =
     (if deleted = [] then graph
      else (let incoming = foldl (note_incoming deleted graph) (replicate (length graph) []) [0..<length graph];
                dp = foldl (patch_deleted deleted graph incoming)
                  \<lparr>dp_patch_candidates = replicate (length graph) [], dp_affected = [],
                   dp_affected_mask = replicate (length graph) False, dp_deleted_nodes = []\<rparr> [0..<length deleted];
                graph = foldl (reconnect base degree alpha deleted (dp_patch_candidates dp)) graph (dp_affected dp)
            in foldl (\<lambda>graph i. if unat i < length graph then graph[unat i := []] else graph) graph (dp_deleted_nodes dp)))"

section \<open>Locality sensitive hashing\<close>

record lsh_table =
  lt_signatures :: "u32 list"
  lt_ids_by_bucket :: "u32 list"
  lt_offsets :: "u32 list"

record lsh_index =
  li_bits :: nat
  li_tables :: "lsh_table list"

definition compute_lsh_signature :: "f32 list \<Rightarrow> f32 list \<Rightarrow> nat \<Rightarrow> nat \<Rightarrow> nat \<Rightarrow> u32" where
  "compute_lsh_signature row planes table bits dim =
     (let table_offset = table * bits * dim
      in foldl (\<lambda>signature bit.
           let score = projection_score row (drop (table_offset + bit * dim) planes) dim
           in if f32_lt 0 score \<or> f32_eq 0 score then signature OR push_bit bit 1 else signature) 0 [0..<bits])"

text \<open>One table: count, turn the counts into offsets, then place the identifiers.\<close>

definition lsh_count :: "u32 list \<Rightarrow> u32 \<Rightarrow> u32 list" where
  "lsh_count offsets signature = offsets[unat (signature + 1) := offsets ! unat (signature + 1) + 1]"

definition lsh_place :: "u32 list \<Rightarrow> u32 list \<times> u32 list \<Rightarrow> nat \<Rightarrow> u32 list \<times> u32 list" where
  "lsh_place signatures = (\<lambda>(ids_by_bucket, cursor) i.
     let signature = unat (signatures ! i)
     in (ids_by_bucket[unat (cursor ! signature) := word_of_nat i], cursor[signature := cursor ! signature + 1]))"

definition build_lsh_table :: "build_config \<Rightarrow> vector_set \<Rightarrow> f32 list \<Rightarrow> nat \<Rightarrow> lsh_table" where
  "build_lsh_table config base planes t =
     (let bucket_count = 2 ^ bc_lsh_bits config;
          signatures = map (\<lambda>i. compute_lsh_signature (row_values base i) planes t (bc_lsh_bits config) (vs_dim base)) [0..<vs_size base];
          offsets = foldl lsh_count (replicate (bucket_count + 1) 0) signatures;
          offsets = foldl (\<lambda>offsets bucket. offsets[bucket := offsets ! bucket + offsets ! (bucket - 1)]) offsets [1..<length offsets];
          (ids_by_bucket, _) = foldl (lsh_place signatures) (replicate (vs_size base) 0, offsets) [0..<vs_size base]
      in \<lparr>lt_signatures = signatures, lt_ids_by_bucket = ids_by_bucket, lt_offsets = offsets\<rparr>)"

definition build_lsh_index :: "build_random \<Rightarrow> build_config \<Rightarrow> vector_set \<Rightarrow> lsh_index" where
  "build_lsh_index rnd config base =
     (let planes = sign_plane rnd (bc_random_seed config XOR 0x51f15eed) 0
            (bc_lsh_tables config * bc_lsh_bits config * vs_dim base)
      in \<lparr>li_bits = bc_lsh_bits config, li_tables = map (build_lsh_table config base planes) [0..<bc_lsh_tables config]\<rparr>)"

definition add_lsh_bucket_candidates :: "u32 \<Rightarrow> lsh_table \<Rightarrow> u32 \<Rightarrow> build_config \<Rightarrow> u32 list \<Rightarrow> u32 list" where
  "add_lsh_bucket_candidates self table signature config candidates =
     (if length (lt_offsets table) \<le> unat (signature + 1) then candidates
      else (let first = lt_offsets table ! unat signature;
                stop = lt_offsets table ! unat (signature + 1);
                size = stop - first
            in if unat size \<le> bc_lsh_bucket_limit config
               then candidates @ map (\<lambda>k. lt_ids_by_bucket table ! k) [unat first..<unat stop]
               else (let seed = mix_u32 (self XOR signature XOR 0x15a4e35)
                     in candidates @ map (\<lambda>k. lt_ids_by_bucket table ! unat (first + mix_u32 (seed + word_of_nat k) mod size))
                          [0..<bc_lsh_bucket_limit config])))"

definition add_lsh_candidates :: "u32 \<Rightarrow> lsh_index \<Rightarrow> build_config \<Rightarrow> u32 list \<Rightarrow> u32 list" where
  "add_lsh_candidates self index config candidates =
     (let mask = (if bc_lsh_bits config = 32 then - 1 else push_bit (bc_lsh_bits config) 1 - 1)
      in foldl (\<lambda>candidates table.
           let signature = (lt_signatures table ! unat self) AND mask;
               candidates = add_lsh_bucket_candidates self table signature config candidates
           in if bc_lsh_probe_radius config = 1
              then foldl (\<lambda>candidates bit. add_lsh_bucket_candidates self table (signature XOR push_bit bit 1) config candidates)
                     candidates [0..<bc_lsh_bits config]
              else candidates) candidates (li_tables index))"

section \<open>Building\<close>

definition count_build :: "(build_stats \<Rightarrow> build_stats) \<Rightarrow> build_stats option \<Rightarrow> build_stats option" where
  "count_build f stats = map_option f stats"

definition batch_pass :: "vector_set \<Rightarrow> build_config \<Rightarrow> bool list \<Rightarrow> adjacency \<times> build_stats option \<Rightarrow> adjacency \<times> build_stats option" where
  "batch_pass base config deleted = (\<lambda>(graph, stats).
     let (added, graph) = add_reverse_edges_batch base (bc_degree config) deleted graph
     in (graph, count_build (\<lambda>t. t\<lparr>bt_reverse_edges_added := bt_reverse_edges_added t + added\<rparr>) stats))"

definition vamana_pass :: "vector_set \<Rightarrow> build_config \<Rightarrow> bool list \<Rightarrow> adjacency \<times> build_stats option \<Rightarrow> adjacency \<times> build_stats option" where
  "vamana_pass base config deleted = (\<lambda>(graph, stats).
     let (patch, graph) = add_reverse_edges_vamana base (bc_degree config) (bc_robust_prune_alpha config) deleted graph;
         (overfull_prunes, graph) = prune_overfull_nodes base (bc_degree config) (bc_robust_prune_alpha config) deleted graph
     in (graph, count_build (\<lambda>t. t\<lparr>bt_reverse_edges_added := bt_reverse_edges_added t + rp_reverse_edges_added patch,
          bt_reverse_prune_count := bt_reverse_prune_count t + (rp_reverse_prune_count patch + overfull_prunes)\<rparr>) stats))"

text \<open>The passes over reverse edges at the end of both builders.\<close>

definition reverse_passes ::
  "(adjacency \<times> build_stats option \<Rightarrow> adjacency \<times> build_stats option) \<Rightarrow> build_config \<Rightarrow>
   adjacency \<times> build_stats option \<Rightarrow> adjacency \<times> build_stats option" where
  "reverse_passes pass config state =
     (if bc_reverse_edge_patch config then (pass ^^ max 1 (bc_prune_passes config)) state else state)"

text \<open>One node: its candidates, then the selection of its neighbours.\<close>

definition connect_node ::
  "(u32 \<Rightarrow> u32 list) \<Rightarrow> (u32 \<Rightarrow> u32 list \<Rightarrow> u32 list) \<Rightarrow> bool list \<Rightarrow> adjacency \<times> build_stats option \<Rightarrow> nat \<Rightarrow> adjacency \<times> build_stats option" where
  "connect_node candidates_of select deleted = (\<lambda>(graph, stats) i.
     if i < length deleted \<and> deleted ! i then (graph, stats)
     else (let self = word_of_nat i; candidates = candidates_of self
           in (graph[i := select self candidates], record_candidate_count (length candidates) stats)))"

definition build_approx_projection_graph ::
  "build_random \<Rightarrow> vector_set \<Rightarrow> build_config \<Rightarrow> bool list \<Rightarrow> build_stats option \<Rightarrow> adjacency \<times> build_stats option" where
  "build_approx_projection_graph rnd base config deleted stats =
     (let projections = build_projection_index rnd config base;
          n = vs_size base;
          candidates_of = (\<lambda>self. deduplicate_and_limit rnd
            (add_deterministic_samples self config n (add_projection_candidates self projections config n []))
            self config n deleted);
          select = (\<lambda>self candidates. robust_prune_neighbors base self candidates (bc_degree config)
            (bc_robust_prune_alpha config) deleted);
          state = foldl (connect_node candidates_of select deleted) (replicate n [], stats) [0..<n]
      in reverse_passes (batch_pass base config deleted) config state)"

definition build_lsh_projection_graph ::
  "build_random \<Rightarrow> vector_set \<Rightarrow> build_config \<Rightarrow> bool list \<Rightarrow> build_stats option \<Rightarrow> adjacency \<times> build_stats option" where
  "build_lsh_projection_graph rnd base config deleted stats =
     (let index = build_lsh_index rnd config base;
          n = vs_size base;
          candidates_of = (\<lambda>self. deduplicate_and_limit rnd
            (add_deterministic_samples self config n (add_lsh_candidates self index config [])) self config n deleted);
          select = (\<lambda>self candidates.
            if bc_build_policy config = ''lsh-vamana''
            then robust_prune_neighbors base self candidates (bc_degree config) (bc_robust_prune_alpha config) deleted
            else nearest_neighbors_from_candidates base self candidates (bc_degree config) deleted);
          state = foldl (connect_node candidates_of select deleted) (replicate n [], stats) [0..<n]
      in reverse_passes (if bc_build_policy config = ''lsh-vamana'' then vamana_pass base config deleted
           else batch_pass base config deleted) config state)"

definition vamana_config_of :: "build_config \<Rightarrow> vamana_config" where
  "vamana_config_of config = \<lparr>vc_max_degree = bc_degree config,
     vc_search_width = (if bc_approx_candidate_limit config = 0 then max (bc_degree config * 8) 200
       else max (bc_approx_candidate_limit config) (bc_degree config)),
     vc_alpha = bc_robust_prune_alpha config, vc_seed = bc_random_seed config,
     vc_add_reverse_edges = bc_reverse_edge_patch config, vc_deleted_ids = bc_deleted_ids config\<rparr>"

definition summarize_build :: "adjacency \<Rightarrow> build_stats \<Rightarrow> build_stats" where
  "summarize_build graph stats =
     (if graph = [] then stats
      else (let dbl = fp_of_nat binary64;
                stats = stats\<lparr>bt_avg_degree := fp_div binary64 (dbl (sum_list (map length graph))) (dbl (length graph)),
                  bt_max_degree := foldl (\<lambda>m neighbors. max m (length neighbors)) 0 graph\<rparr>
            in if bt_candidate_counts stats = [] then stats
               else (let sorted_counts = sort (bt_candidate_counts stats)
                     in stats\<lparr>bt_graph_candidate_avg := fp_div binary64 (dbl (sum_list sorted_counts)) (dbl (length sorted_counts)),
                          bt_graph_candidate_p95 := count_percentile sorted_counts 0x3FEE666666666666,
                          bt_graph_candidate_p99 := count_percentile sorted_counts 0x3FEFAE147AE147AE\<rparr>)))"

definition build_graph ::
  "build_random \<Rightarrow> vector_set \<Rightarrow> build_config \<Rightarrow> build_stats option \<Rightarrow> epoch_marks \<Rightarrow>
   adjacency result \<times> build_stats option \<times> epoch_marks" where
  "build_graph rnd base config stats em =
     (case validate_build_policy config of
        Inl e \<Rightarrow> (Inl e, stats, em)
      | Inr _ \<Rightarrow>
     (let n = vs_size base;
          deleted = build_deleted_mask n (bc_deleted_ids config);
          no_deleted = replicate n False;
          (built, em) = (if bc_build_policy config = ''exact''
              then (Inr (build_exact_graph base (bc_degree config) no_deleted, stats), em)
            else if bc_build_policy config = ''vamana''
              then (case VamanaBuilder (vamana_config_of config) of
                      Inl e \<Rightarrow> (Inl e, em)
                    | Inr vamana \<Rightarrow>
                        (case vamana_build (br_shuffle rnd) vamana base em of
                           (Inl e, em) \<Rightarrow> (Inl e, em)
                         | (Inr g, em) \<Rightarrow> (Inr (vg_adjacency g, count_build (\<lambda>t.
                             t\<lparr>bt_reverse_edges_added := bt_reverse_edges_added t + vt_reverse_edges_added (vg_stats g),
                               bt_reverse_prune_count := bt_reverse_prune_count t + vt_reverse_prune_count (vg_stats g),
                               bt_candidate_counts := bt_candidate_counts t @ vt_candidate_counts (vg_stats g)\<rparr>) stats), em)))
            else if bc_build_policy config = ''approx-rp''
              then (Inr (build_approx_projection_graph rnd base config no_deleted stats), em)
            else (Inr (build_lsh_projection_graph rnd base config no_deleted stats), em))
      in case built of
           Inl e \<Rightarrow> (Inl e, stats, em)
         | Inr (graph, stats) \<Rightarrow>
             (let graph = (if bc_deleted_ids config \<noteq> [] \<and> bc_build_policy config \<noteq> ''vamana''
                  then apply_freshvamana_delete_patch base (bc_degree config) (bc_robust_prune_alpha config) deleted graph
                  else graph)
              in (Inr graph, count_build (summarize_build graph) stats, em))))"

end
