(* ===== verification/BuildProps.thy ===== *)
theory BuildProps
  imports BuildGraph
begin

text \<open>
  What \<open>build_graph\<close> promises the writers of the index files, for every build policy: one
  neighbour list per node, without repetitions, within the degree, made of other live nodes.
\<close>

section \<open>Well-formed adjacency\<close>

definition mask_ids :: "bool list \<Rightarrow> u32 set" where
  "mask_ids deleted = {c. unat c < length deleted \<and> deleted ! unat c}"

definition list_ok :: "nat \<Rightarrow> nat \<Rightarrow> u32 set \<Rightarrow> nat \<Rightarrow> u32 list \<Rightarrow> bool" where
  "list_ok n degree dead i xs \<longleftrightarrow> distinct xs \<and> length xs \<le> degree \<and>
     (\<forall>c\<in>set xs. unat c < n \<and> unat c \<noteq> i \<and> c \<notin> dead) \<and> (word_of_nat i \<in> dead \<longrightarrow> xs = [])"

definition graph_ok :: "nat \<Rightarrow> nat \<Rightarrow> u32 set \<Rightarrow> adjacency \<Rightarrow> bool" where
  "graph_ok n degree dead graph \<longleftrightarrow> length graph = n \<and> (\<forall>i<n. list_ok n degree dead i (graph ! i))"

lemma list_ok_Nil [simp]: "list_ok n degree dead i []"
  by (simp add: list_ok_def)

lemma graph_ok_empty [simp]: "graph_ok n degree dead (replicate n [])"
  by (simp add: graph_ok_def)

lemma graph_ok_length: "graph_ok n degree dead graph \<Longrightarrow> length graph = n"
  by (simp add: graph_ok_def)

lemma graph_ok_nth: "graph_ok n degree dead graph \<Longrightarrow> i < n \<Longrightarrow> list_ok n degree dead i (graph ! i)"
  by (simp add: graph_ok_def)

lemma graph_ok_update:
  "graph_ok n degree dead graph \<Longrightarrow> list_ok n degree dead i xs \<Longrightarrow> graph_ok n degree dead (graph[i := xs])"
  by (cases "i < length graph") (auto simp: graph_ok_def nth_list_update)

lemma mask_no_deleted [simp]: "mask_ids (replicate n False) = {}"
  by (auto simp: mask_ids_def)

lemma mask_fold:
  "length (foldl (\<lambda>deleted i. if unat i < n then deleted[unat i := True] else deleted) bits ids) = length bits \<and>
   (length bits = n \<longrightarrow> mask_ids (foldl (\<lambda>deleted i. if unat i < n then deleted[unat i := True] else deleted) bits ids) =
     mask_ids bits \<union> {i \<in> set ids. unat i < n})"
proof (induction ids arbitrary: bits)
  case (Cons i ids)
  have "length bits = n \<Longrightarrow> unat i < n \<Longrightarrow> mask_ids (bits[unat i := True]) = insert i (mask_ids bits)"
    by (auto simp: mask_ids_def nth_list_update dest: unsigned_word_eqI split: if_splits)
  with Cons[of bits] Cons[of "bits[unat i := True]"] show ?case by auto
qed simp

lemma build_deleted_mask_ids [simp]:
  "length (build_deleted_mask n ids) = n" "mask_ids (build_deleted_mask n ids) = {i \<in> set ids. unat i < n}"
  using mask_fold[of n "replicate n False" ids] by (simp_all add: build_deleted_mask_def)

section \<open>Selections\<close>

lemma live_pool_ids [simp]:
  "map cd_id (live_pool base self candidates deleted) =
    filter (\<lambda>c. c \<noteq> self \<and> unat c < vs_size base \<and> unat c < length deleted \<and> \<not> deleted ! unat c) candidates"
  by (simp add: live_pool_def not_le)

lemma live_pool_set:
  "cd_id ` set (live_pool base self candidates deleted) =
    {c \<in> set candidates. c \<noteq> self \<and> unat c < vs_size base \<and> unat c < length deleted \<and> \<not> deleted ! unat c}"
  by (auto simp: live_pool_def not_le image_image)

lemma sorted_pool:
  assumes "subseq ps (std_sort closer_candidate (live_pool base self candidates deleted))" and "length deleted = vs_size base"
    and "distinct candidates"
  shows "distinct (map cd_id ps)"
    and "\<forall>c\<in>set (map cd_id ps). c \<in> set candidates \<and> c \<noteq> self \<and> unat c < vs_size base \<and> c \<notin> mask_ids deleted"
proof -
  show "distinct (map cd_id ps)"
    by (rule subseq_distinct_map[OF assms(1)]) (simp add: assms(3))
  have "c \<in> cd_id ` set (live_pool base self candidates deleted)" if "c \<in> set (map cd_id ps)" for c
    using subseq_set[OF assms(1)] that by auto
  then show "\<forall>c\<in>set (map cd_id ps). c \<in> set candidates \<and> c \<noteq> self \<and> unat c < vs_size base \<and> c \<notin> mask_ids deleted"
    using assms(2) by (auto simp: mask_ids_def live_pool_set simp del: set_map)
qed

lemma selected_ok:
  assumes "subseq ps (std_sort closer_candidate (live_pool base self candidates deleted))" and "length deleted = vs_size base"
    and "distinct candidates" and "length ps \<le> degree" and "self \<notin> mask_ids deleted"
  shows "list_ok (vs_size base) degree (mask_ids deleted) (unat self) (map cd_id ps)"
  using sorted_pool[OF assms(1-3)] assms(4,5) by (auto simp: list_ok_def dest: unsigned_word_eqI)

lemma nearest_ok:
  assumes "length deleted = vs_size base" and "distinct candidates"
  shows "list_ok (vs_size base) degree (mask_ids deleted) (unat self)
    (nearest_neighbors_from_candidates base self candidates degree deleted)"
proof (cases "min degree (vs_size base - 1) = 0 \<or> length deleted \<le> unat self \<or> deleted ! unat self")
  case False
  then have "self \<notin> mask_ids deleted" by (simp add: mask_ids_def)
  moreover have "subseq (take k xs) xs" for k and xs :: "candidate list"
    by (metis append_take_drop_id subseq_rev_drop_many subseq_order.refl list_emb_append2 subseq_append' prefix_imp_subseq take_is_prefix)
  ultimately show ?thesis
    using False selected_ok[OF _ assms, of _ self degree] by (simp add: nearest_neighbors_from_candidates_def Let_def)
qed (simp add: nearest_neighbors_from_candidates_def Let_def)

lemma prune_ok:
  assumes "length deleted = vs_size base" and "distinct candidates"
  shows "list_ok (vs_size base) degree (mask_ids deleted) (unat self)
    (robust_prune_neighbors base self candidates degree alpha deleted)"
proof (cases "min degree (vs_size base - 1) = 0 \<or> length deleted \<le> unat self \<or> deleted ! unat self")
  case False
  let ?pool = "std_sort closer_candidate (live_pool base self candidates deleted)"
  obtain ps where ps: "prune_loop base (fp_mul binary64 alpha alpha) (min degree (vs_size base - 1)) ?pool [] = map cd_id ps"
    "subseq ps ?pool" "length ps \<le> min degree (vs_size base - 1)"
    using prune_loop_picks[of base "fp_mul binary64 alpha alpha" "min degree (vs_size base - 1)" ?pool "[]" "\<lambda>x y. True"] by auto
  have "self \<notin> mask_ids deleted" using False by (simp add: mask_ids_def)
  then show ?thesis
    using False ps selected_ok[OF ps(2) assms, of degree] by (simp add: robust_prune_neighbors_def Let_def)
qed (simp add: robust_prune_neighbors_def Let_def)

lemma distinct_sorted_adj: "sorted xs \<Longrightarrow> distinct (remdups_adj xs)"
  by (induction xs rule: remdups_adj.induct) force+

lemma sorted_ids [simp]:
  "distinct (remdups_adj (sort (xs :: u32 list)))" "set (remdups_adj (sort xs)) = set xs"
  by (simp_all add: distinct_sorted_adj)

lemma distinct_shuffled:
  assumes "\<And>seed xs. mset (br_shuffle rnd seed xs) = mset xs"
  shows "distinct (br_shuffle rnd seed xs) \<longleftrightarrow> distinct xs"
  using mset_eq_imp_distinct_iff[OF assms] .

lemma unique_valid_distinct [simp]: "distinct (unique_valid_candidates ids self n deleted)"
  by (simp add: unique_valid_candidates_def)

lemma dedup_limit_distinct [simp]:
  assumes "\<And>seed xs. mset (br_shuffle rnd seed xs) = mset xs"
  shows "distinct (deduplicate_and_limit rnd candidates self config n deleted)"
  by (simp add: deduplicate_and_limit_def Let_def distinct_shuffled[OF assms])

section \<open>Reverse edges\<close>

lemma index_word: "i < n \<Longrightarrow> n \<le> 2 ^ 32 - 1 \<Longrightarrow> unat (word_of_nat i :: u32) = i"
  by (simp add: unat_of_nat)

lemmas nearest_ok_at = nearest_ok[where self = "word_of_nat i" for i]
lemmas prune_ok_at = prune_ok[where self = "word_of_nat i" for i]

lemma reverse_step_ok:
  assumes "graph_ok n degree dead graph"
  shows "graph_ok n degree dead (fst (foldl (reverse_step n deleted) (graph, reverse, added) is))"
  by (rule foldl_inv) (auto simp: assms reverse_step_def intro: graph_ok_update split: prod.splits)

lemma add_reverse_edges_batch_ok:
  assumes ok: "graph_ok (vs_size base) degree (mask_ids deleted) graph" and len: "length deleted = vs_size base"
    and n: "vs_size base \<le> 2 ^ 32 - 1"
  shows "graph_ok (vs_size base) degree (mask_ids deleted) (snd (add_reverse_edges_batch base degree deleted graph))"
proof -
  obtain g reverse added where first: "foldl (reverse_step (length graph) deleted) (graph, replicate (length graph) [], 0) [0..<length graph] =
    (g, reverse, added)" by (metis prod_cases3)
  have "graph_ok (vs_size base) degree (mask_ids deleted) g"
    using reverse_step_ok[OF ok, of deleted "replicate (length graph) []" 0 "[0..<length graph]"] first graph_ok_length[OF ok] by simp
  then have "graph_ok (vs_size base) degree (mask_ids deleted)
      (foldl (rebuild_step base degree deleted reverse) g [0..<length graph])"
  proof (rule foldl_inv)
    fix i g' assume "i \<in> set [0..<length graph]" and g': "graph_ok (vs_size base) degree (mask_ids deleted) g'"
    then have "unat (word_of_nat i :: u32) = i" using graph_ok_length[OF ok] n by (simp add: index_word)
    then show "graph_ok (vs_size base) degree (mask_ids deleted) (rebuild_step base degree deleted reverse g' i)"
      using g' nearest_ok_at[OF len, of "remdups_adj (sort (g' ! i @ reverse ! i))" degree i]
      by (auto simp: rebuild_step_def simp del: sort_append intro!: graph_ok_update)
  qed
  then show ?thesis by (simp add: add_reverse_edges_batch_def first Let_def)
qed

lemma reverse_edges_targets:
  "(source, target) \<in> set (reverse_edges deleted graph) \<Longrightarrow> length graph \<le> 2 ^ 32 - 1 \<Longrightarrow>
   unat source < length graph \<and> unat target < length graph \<and> source \<notin> mask_ids deleted \<and> target \<notin> mask_ids deleted \<and>
   source \<noteq> target"
  by (auto simp: reverse_edges_def mask_ids_def index_word split: if_splits)

lemma patch_edge_ok:
  assumes ok: "graph_ok (vs_size base) degree (mask_ids deleted) graph" and len: "length deleted = vs_size base"
    and edge: "unat source < vs_size base" "unat target < vs_size base" "source \<notin> mask_ids deleted"
      "target \<notin> mask_ids deleted" "source \<noteq> target"
  shows "graph_ok (vs_size base) degree (mask_ids deleted) (snd (patch_edge base degree alpha deleted (stats, graph) (source, target)))"
proof -
  note old = graph_ok_nth[OF ok edge(2)]
  have "source \<notin> set (graph ! unat target) \<Longrightarrow> length (graph ! unat target) < degree \<Longrightarrow>
      list_ok (vs_size base) degree (mask_ids deleted) (unat target) (graph ! unat target @ [source])"
    using old edge by (auto simp: list_ok_def dest: unsigned_word_eqI)
  then show ?thesis
    using ok prune_ok[OF len] by (auto simp: patch_edge_def contains_id_def Let_def intro!: graph_ok_update)
qed

lemma add_reverse_edges_vamana_ok:
  assumes ok: "graph_ok (vs_size base) degree (mask_ids deleted) graph" and len: "length deleted = vs_size base"
    and n: "vs_size base \<le> 2 ^ 32 - 1"
  shows "graph_ok (vs_size base) degree (mask_ids deleted) (snd (add_reverse_edges_vamana base degree alpha deleted graph))"
  unfolding add_reverse_edges_vamana_def
proof (rule foldl_inv[where P = "\<lambda>s. graph_ok (vs_size base) degree (mask_ids deleted) (snd s)"])
  fix s :: "reverse_patch_stats \<times> adjacency" and e assume e: "e \<in> set (reverse_edges deleted graph)" and s: "graph_ok (vs_size base) degree (mask_ids deleted) (snd s)"
  obtain source target where [simp]: "e = (source, target)" by (cases e)
  note edge = reverse_edges_targets[of source target deleted graph]
  show "graph_ok (vs_size base) degree (mask_ids deleted) (snd (patch_edge base degree alpha deleted s e))"
    using patch_edge_ok[OF s len, of source target alpha "fst s"] edge e n graph_ok_length[OF ok] by simp
qed (simp add: ok)

lemma prune_overfull_ok:
  assumes ok: "graph_ok (vs_size base) degree (mask_ids deleted) graph" and len: "length deleted = vs_size base"
    and n: "vs_size base \<le> 2 ^ 32 - 1"
  shows "graph_ok (vs_size base) degree (mask_ids deleted) (snd (prune_overfull_nodes base degree alpha deleted graph))"
  unfolding prune_overfull_nodes_def
proof (rule foldl_inv[where P = "\<lambda>s. graph_ok (vs_size base) degree (mask_ids deleted) (snd s)"], goal_cases)
  case (2 s i)
  then have i: "unat (word_of_nat i :: u32) = i" using n graph_ok_length[OF ok] by (simp add: index_word)
  show ?case
    using 2(2) prune_ok_at[OF len, of "unique_valid_candidates (snd s ! i) (word_of_nat i) (length (snd s)) deleted" degree i alpha]
    by (auto simp: i intro!: graph_ok_update split: prod.splits)
qed (simp add: ok)

section \<open>Deleted nodes\<close>

text \<open>A loop that replaces the lists of the nodes it is given, in any order.\<close>

lemma fold_update:
  assumes "\<And>g c. c \<in> set cs \<Longrightarrow> step g c = g[unat c := f g c]" and "\<And>g c. c \<in> set cs \<Longrightarrow> P (unat c) (f g c)"
  shows "length (foldl step g cs) = length g \<and> (\<forall>i<length g. if i \<in> unat ` set cs then P i (foldl step g cs ! i)
    else foldl step g cs ! i = g ! i)"
  using assms
proof (induction cs arbitrary: g)
  case (Cons c cs)
  have step: "step g c = g[unat c := f g c]" by (rule Cons.prems) simp
  let ?g = "g[unat c := f g c]"
  have ih: "length (foldl step ?g cs) = length ?g \<and> (\<forall>i<length ?g. if i \<in> unat ` set cs
      then P i (foldl step ?g cs ! i) else foldl step ?g cs ! i = ?g ! i)"
    by (rule Cons.IH) (use Cons.prems in simp_all)
  have "P (unat c) (f g c)" by (rule Cons.prems) simp
  then have "if i \<in> unat ` set (c # cs) then P i (foldl step ?g cs ! i) else foldl step ?g cs ! i = g ! i" if "i < length g" for i
    using ih that by (cases "i \<in> unat ` set cs") (auto simp: nth_list_update)
  then show ?case using ih by (simp add: step)
qed simp

lemma note_incoming_targets:
  "length (foldl (\<lambda>incoming target. if unat target < length deleted \<and> deleted ! unat target
     then incoming[unat target := incoming ! unat target @ [s]] else incoming) inc ts) = length inc \<and>
   (\<forall>t<length inc. set (inc ! t) \<subseteq> set (foldl (\<lambda>incoming target. if unat target < length deleted \<and> deleted ! unat target
     then incoming[unat target := incoming ! unat target @ [s]] else incoming) inc ts ! t)) \<and>
   (\<forall>t\<in>set ts. t \<in> mask_ids deleted \<and> unat t < length inc \<longrightarrow>
     s \<in> set (foldl (\<lambda>incoming target. if unat target < length deleted \<and> deleted ! unat target
       then incoming[unat target := incoming ! unat target @ [s]] else incoming) inc ts ! unat t))"
proof (induction ts arbitrary: inc)
  case (Cons t ts)
  show ?case
  proof (cases "unat t < length deleted \<and> deleted ! unat t")
    case True
    have "set (inc ! k) \<subseteq> set (inc[unat t := inc ! unat t @ [s]] ! k)" if "k < length inc" for k
      using that by (cases "k = unat t") auto
    moreover have "unat t < length inc \<Longrightarrow> s \<in> set (inc[unat t := inc ! unat t @ [s]] ! unat t)" by simp
    ultimately show ?thesis using Cons.IH[of "inc[unat t := inc ! unat t @ [s]]"] True by fastforce
  qed (use Cons.IH[of inc] in \<open>auto simp: mask_ids_def\<close>)
qed simp

lemma note_incoming_step:
  "length (note_incoming deleted graph inc s) = length inc"
  "t < length inc \<Longrightarrow> set (inc ! t) \<subseteq> set (note_incoming deleted graph inc s ! t)"
  "\<lbrakk>\<not> (s < length deleted \<and> deleted ! s); c \<in> set (graph ! s); c \<in> mask_ids deleted; unat c < length inc\<rbrakk> \<Longrightarrow>
   word_of_nat s \<in> set (note_incoming deleted graph inc s ! unat c)"
  using note_incoming_targets[of deleted "word_of_nat s" inc "graph ! s"] by (auto simp: note_incoming_def)

lemma incoming_complete:
  "length (foldl (note_incoming deleted graph) inc ss) = length inc \<and>
   (\<forall>t<length inc. set (inc ! t) \<subseteq> set (foldl (note_incoming deleted graph) inc ss ! t)) \<and>
   (\<forall>s\<in>set ss. \<forall>t\<in>set (graph ! s). \<not> (s < length deleted \<and> deleted ! s) \<and> t \<in> mask_ids deleted \<and> unat t < length inc \<longrightarrow>
     word_of_nat s \<in> set (foldl (note_incoming deleted graph) inc ss ! unat t))"
proof (induction ss arbitrary: inc)
  case (Cons s ss)
  from Cons.IH[of "note_incoming deleted graph inc s"] show ?case
    using note_incoming_step[where deleted = deleted and graph = graph and inc = inc and s = s] by simp blast
qed simp

definition patch_inv :: "nat \<Rightarrow> delete_patch \<Rightarrow> bool" where
  "patch_inv n dp \<longleftrightarrow> length (dp_patch_candidates dp) = n \<and> length (dp_affected_mask dp) = n \<and>
     (\<forall>c. unat c < n \<and> dp_affected_mask dp ! unat c \<longrightarrow> c \<in> set (dp_affected dp))"

lemma note_affected_step:
  assumes "patch_inv n dp"
  shows "patch_inv n (note_affected out ins dp c)" and "set (dp_affected dp) \<subseteq> set (dp_affected (note_affected out ins dp c))"
    and "unat c < n \<Longrightarrow> c \<in> set (dp_affected (note_affected out ins dp c))"
    and "dp_deleted_nodes (note_affected out ins dp c) = dp_deleted_nodes dp"
  using assms
  by (auto simp: note_affected_def patch_inv_def Let_def nth_list_update dest: unsigned_word_eqI split: if_splits)

lemma note_affected_all:
  assumes "patch_inv n dp"
  shows "patch_inv n (foldl (note_affected out ins) dp cs) \<and>
    set (dp_affected dp) \<union> {c \<in> set cs. unat c < n} \<subseteq> set (dp_affected (foldl (note_affected out ins) dp cs)) \<and>
    dp_deleted_nodes (foldl (note_affected out ins) dp cs) = dp_deleted_nodes dp"
  using assms
proof (induction cs arbitrary: dp)
  case (Cons c cs)
  note step = note_affected_step[OF Cons.prems, where out = out and ins = ins and c = c]
  from Cons.IH[OF step(1)] step show ?case by auto
qed simp

lemma patch_deleted_all:
  assumes "patch_inv n dp"
  shows "patch_inv n (foldl (patch_deleted deleted graph incoming) dp ds) \<and>
    set (dp_affected dp) \<union> {c. \<exists>d\<in>set ds. deleted ! d \<and> c \<in> set (incoming ! d) \<and> unat c < n \<and> unat c < length deleted \<and>
      c \<notin> mask_ids deleted} \<subseteq> set (dp_affected (foldl (patch_deleted deleted graph incoming) dp ds)) \<and>
    dp_deleted_nodes (foldl (patch_deleted deleted graph incoming) dp ds) =
      dp_deleted_nodes dp @ map word_of_nat (filter (\<lambda>d. deleted ! d) ds)"
  using assms
proof (induction ds arbitrary: dp)
  case (Cons d ds)
  show ?case
  proof (cases "deleted ! d")
    case False
    then show ?thesis using Cons by (auto simp: patch_deleted_def)
  next
    case True
    let ?live = "\<lambda>i. unat i < length deleted \<and> \<not> deleted ! unat i"
    have "patch_inv n (dp\<lparr>dp_deleted_nodes := dp_deleted_nodes dp @ [word_of_nat d]\<rparr>)"
      using Cons.prems by (simp add: patch_inv_def)
    note all = note_affected_all[OF this, of "filter ?live (graph ! d)" "filter ?live (incoming ! d)" "filter ?live (incoming ! d)"]
    have step: "patch_deleted deleted graph incoming dp d = foldl (note_affected (filter ?live (graph ! d)) (filter ?live (incoming ! d)))
        (dp\<lparr>dp_deleted_nodes := dp_deleted_nodes dp @ [word_of_nat d]\<rparr>) (filter ?live (incoming ! d))"
      using True by (simp add: patch_deleted_def Let_def)
    from Cons.IH[of "patch_deleted deleted graph incoming dp d"] all True show ?thesis
      by (auto simp: step mask_ids_def)
  qed
qed simp

text \<open>
  The patch for deleted nodes: from a graph that ignores deletions it makes one in which no list
  names a deleted node and deleted nodes have no neighbours.
\<close>

lemma delete_patch_ok:
  assumes ok: "graph_ok (vs_size base) degree {} graph" and len: "length deleted = vs_size base"
    and n: "vs_size base \<le> 2 ^ 32 - 1"
  shows "graph_ok (vs_size base) degree (mask_ids deleted) (apply_freshvamana_delete_patch base degree alpha deleted graph)"
proof (cases "deleted = []")
  case True
  then show ?thesis using ok len by (simp add: apply_freshvamana_delete_patch_def mask_ids_def)
next
  case False
  let ?n = "vs_size base"
  define incoming where "incoming = foldl (note_incoming deleted graph) (replicate ?n []) [0..<?n]"
  define dp where "dp = foldl (patch_deleted deleted graph incoming) \<lparr>dp_patch_candidates = replicate ?n [], dp_affected = [],
    dp_affected_mask = replicate ?n False, dp_deleted_nodes = []\<rparr> [0..<?n]"
  define graph1 where "graph1 = foldl (reconnect base degree alpha deleted (dp_patch_candidates dp)) graph (dp_affected dp)"
  note glen = graph_ok_length[OF ok]
  have "patch_inv ?n \<lparr>dp_patch_candidates = replicate ?n [], dp_affected = [],
    dp_affected_mask = replicate ?n False, dp_deleted_nodes = []\<rparr>" by (simp add: patch_inv_def)
  from patch_deleted_all[OF this, of deleted graph incoming "[0..<?n]"]
  have affected: "\<And>c d. d < ?n \<Longrightarrow> deleted ! d \<Longrightarrow> c \<in> set (incoming ! d) \<Longrightarrow> unat c < ?n \<Longrightarrow> c \<notin> mask_ids deleted \<Longrightarrow>
      c \<in> set (dp_affected dp)"
    and dead: "dp_deleted_nodes dp = map word_of_nat (filter (\<lambda>d. deleted ! d) [0..<?n])"
    unfolding dp_def[symmetric] by (fastforce simp: len)+
  have pointed: "word_of_nat i \<in> set (dp_affected dp)"
    if "i < ?n" "\<not> deleted ! i" "c \<in> set (graph ! i)" "c \<in> mask_ids deleted" for i c
  proof -
    have "unat c < ?n" "deleted ! unat c" using that(4) by (auto simp: mask_ids_def len)
    moreover have "word_of_nat i \<in> set (incoming ! unat c)"
      using incoming_complete[of deleted graph "replicate ?n []" "[0..<?n]"] that \<open>unat c < ?n\<close> by (simp add: incoming_def)
    ultimately show ?thesis
      using affected that(1,2) n by (simp add: mask_ids_def index_word)
  qed
  have graph1: "length graph1 = ?n" "\<And>i. i < ?n \<Longrightarrow> if i \<in> unat ` set (dp_affected dp)
      then list_ok ?n degree (mask_ids deleted) i (graph1 ! i) else graph1 ! i = graph ! i"
    using fold_update[of "dp_affected dp" "reconnect base degree alpha deleted (dp_patch_candidates dp)" _
        "list_ok ?n degree (mask_ids deleted)" graph, OF reconnect_def[unfolded Let_def]] prune_ok[OF len]
    by (simp_all add: graph1_def glen)
  let ?clear = "\<lambda>graph i. if unat i < length graph then graph[unat i := []] else graph"
  let ?dead = "dp_deleted_nodes dp"
  have "apply_freshvamana_delete_patch base degree alpha deleted graph = foldl ?clear graph1 ?dead"
    using False by (simp add: apply_freshvamana_delete_patch_def Let_def graph1_def dp_def incoming_def glen len)
  moreover have "length (foldl ?clear graph1 ?dead) = length graph1 \<and> (\<forall>i<length graph1. if i \<in> unat ` set ?dead
      then foldl ?clear graph1 ?dead ! i = [] else foldl ?clear graph1 ?dead ! i = graph1 ! i)"
    by (rule fold_update[where P = "\<lambda>i xs. xs = []"]) (auto simp: list_update_beyond)
  moreover have "unat ` set ?dead = {i. i < ?n \<and> deleted ! i}"
    using n by (force simp: dead image_image index_word)
  moreover have "list_ok ?n degree (mask_ids deleted) i (graph1 ! i)" if i: "i < ?n" "\<not> deleted ! i" for i
  proof (cases "i \<in> unat ` set (dp_affected dp)")
    case False
    then have "word_of_nat i \<notin> set (dp_affected dp)" using i n by (metis image_eqI index_word)
    then have "\<forall>c\<in>set (graph ! i). c \<notin> mask_ids deleted" using pointed i by blast
    then show ?thesis
      using graph1(2)[OF i(1)] False graph_ok_nth[OF ok i(1)] i n by (auto simp: list_ok_def mask_ids_def index_word)
  qed (use graph1(2)[OF i(1)] in simp)
  ultimately show ?thesis using graph1(1) by (auto simp: graph_ok_def split: if_splits)
qed

section \<open>The exact policy\<close>

lemma heap_step_mset:
  "mset (heap_step lt k h x) \<subseteq># add_mset x (mset h) \<and> (length h \<le> k \<longrightarrow> length (heap_step lt k h x) \<le> k)"
proof (cases "h = []")
  case False
  then have "mset h = add_mset (last h) (mset (butlast h))"
    by (cases h rule: rev_cases) simp_all
  moreover have "length (butlast h) < length h" using False by simp
  ultimately show ?thesis by (auto simp: heap_step_def)
qed (simp add: heap_step_def)

lemma fold_heap_step:
  "mset (foldl (heap_step lt k) h xs) \<subseteq># mset h + mset xs \<and> (length h \<le> k \<longrightarrow> length (foldl (heap_step lt k) h xs) \<le> k)"
proof (induction xs arbitrary: h)
  case (Cons x xs)
  have "mset (foldl (heap_step lt k) (heap_step lt k h x) xs) \<subseteq># mset (heap_step lt k h x) + mset xs"
    using Cons by blast
  also have "\<dots> \<subseteq># mset h + mset (x # xs)"
    using heap_step_mset[of lt k h x] by (simp add: subset_mset.add_right_mono)
  finally show ?case using Cons[of "heap_step lt k h x"] heap_step_mset[of lt k h x] by simp
qed simp

lemma distinct_mset_part:
  assumes "mset xs \<subseteq># mset ys" and "distinct ys"
  shows "distinct xs"
proof -
  obtain zs where "mset ys = mset (xs @ zs)" using assms(1) by (metis ex_mset mset_append mset_subset_eq_exists_conv)
  then show ?thesis using assms(2) by (metis distinct_append mset_eq_imp_distinct_iff)
qed

definition other_nodes :: "vector_set \<Rightarrow> nat \<Rightarrow> candidate list" where
  "other_nodes base i = map (\<lambda>j. measured base (row_values base i) (word_of_nat j)) (filter (\<lambda>j. j \<noteq> i) [0..<vs_size base])"

lemma exact_fold:
  assumes "vs_size base \<le> 2 ^ 32 - 1" and "set js \<subseteq> {0..<vs_size base}"
  shows "foldl (exact_step base i (replicate n False) k) h js =
    foldl (heap_step closer_candidate k) h
      (map (\<lambda>j. measured base (row_values base i) (word_of_nat j)) (filter (\<lambda>j. j \<noteq> i) js))"
  using assms(2) by (induction js arbitrary: h) (auto simp: exact_step_def measured_def index_word[OF _ assms(1)])

lemma exact_neighbors_heap:
  assumes "vs_size base \<le> 2 ^ 32 - 1" and "i < vs_size base"
  shows "exact_neighbors base i degree (replicate (vs_size base) False) =
    map cd_id (std_sort closer_candidate (rev (foldl (heap_step closer_candidate (min degree (vs_size base - 1))) [] (other_nodes base i))))"
  using assms by (simp add: exact_neighbors_def exact_fold other_nodes_def Let_def)

lemma other_nodes_ids:
  assumes "vs_size base \<le> 2 ^ 32 - 1"
  shows "distinct (map cd_id (other_nodes base i))" and "c \<in> cd_id ` set (other_nodes base i) \<longleftrightarrow> unat c < vs_size base \<and> unat c \<noteq> i"
proof -
  show "distinct (map cd_id (other_nodes base i))"
    using assms by (auto simp: other_nodes_def distinct_map inj_on_def comp_def dest!: arg_cong[where f = unat] simp: index_word)
  have "unat c < vs_size base \<Longrightarrow> c = word_of_nat (unat c)" by simp
  then show "c \<in> cd_id ` set (other_nodes base i) \<longleftrightarrow> unat c < vs_size base \<and> unat c \<noteq> i"
    using assms by (force simp: other_nodes_def image_image index_word)
qed

lemma exact_graph_ok:
  assumes n: "vs_size base \<le> 2 ^ 32 - 1"
  shows "graph_ok (vs_size base) degree {} (build_exact_graph base degree (replicate (vs_size base) False))"
proof -
  have "list_ok (vs_size base) degree {} i (exact_neighbors base i degree (replicate (vs_size base) False))" if "i < vs_size base" for i
  proof -
    let ?heap = "foldl (heap_step closer_candidate (min degree (vs_size base - 1))) [] (other_nodes base i)"
    have heap: "mset ?heap \<subseteq># mset (other_nodes base i)" "length ?heap \<le> degree"
      using fold_heap_step[of closer_candidate "min degree (vs_size base - 1)" "[]" "other_nodes base i"] by auto
    then have "set ?heap \<subseteq> set (other_nodes base i)" by (metis set_mset_mset set_mset_mono)
    then have ids: "\<forall>c\<in>cd_id ` set ?heap. unat c < vs_size base \<and> unat c \<noteq> i" using other_nodes_ids(2)[OF n, of _ i] by blast
    have "mset (map cd_id ?heap) \<subseteq># mset (map cd_id (other_nodes base i))"
      using image_mset_subseteq_mono[OF heap(1), of cd_id] by simp
    then have "distinct (map cd_id ?heap)"
      using other_nodes_ids(1)[OF n, of i] by (rule distinct_mset_part)
    then show ?thesis
      using ids heap(2) that n by (simp add: exact_neighbors_heap list_ok_def rev_map[symmetric])
  qed
  then show ?thesis by (simp add: graph_ok_def build_exact_graph_def)
qed

text \<open>For finite vectors the list holds exactly the nearest other nodes, nearest first.\<close>

lemma exact_neighbors_nearest:
  assumes "finite_base base" and "vs_size base \<le> 2 ^ 32 - 1" and "i < vs_size base" and "0 < degree"
  shows "exact_neighbors base i degree (replicate (vs_size base) False) =
    map cd_id (take (min degree (vs_size base - 1)) (sort_key cd_key (other_nodes base i)))"
proof (cases "vs_size base = 1")
  case True
  then have "other_nodes base i = []" using assms(3) by (simp add: other_nodes_def)
  then show ?thesis using assms by (simp add: exact_neighbors_heap)
next
  case False
  have "\<forall>c\<in>set (other_nodes base i). cd_valid c"
    using assms(1,3) by (auto simp: other_nodes_def measured_def cd_valid_def finite_base_def index_word[OF _ assms(2)] squared_l2_valid)
  moreover have "inj_on cd_key (set (other_nodes base i))" by (rule cd_key_inj) (rule other_nodes_ids(1)[OF assms(2)])
  ultimately show ?thesis
    using False assms by (simp add: exact_neighbors_heap cdo.heap_result)
qed

section \<open>Candidate policies\<close>

lemma connect_ok:
  assumes "\<And>i. i < n \<Longrightarrow> list_ok n degree dead i (select (word_of_nat i) (candidates_of (word_of_nat i)))"
  shows "graph_ok n degree dead (fst (foldl (connect_node candidates_of select deleted) (replicate n [], stats) [0..<n]))"
  by (rule foldl_inv[where P = "\<lambda>s. graph_ok n degree dead (fst s)"])
    (use assms in \<open>auto simp: connect_node_def Let_def intro!: graph_ok_update split: prod.splits\<close>)

lemma passes_ok:
  assumes "graph_ok n degree dead (fst s)" and "\<And>s. graph_ok n degree dead (fst s) \<Longrightarrow> graph_ok n degree dead (fst (pass s))"
  shows "graph_ok n degree dead (fst (reverse_passes pass config s))"
proof -
  have "graph_ok n degree dead (fst ((pass ^^ k) s))" for k by (induction k) (use assms in simp_all)
  then show ?thesis using assms(1) by (simp add: reverse_passes_def)
qed

lemma batch_pass_ok:
  assumes "graph_ok (vs_size base) (bc_degree config) (mask_ids deleted) (fst s)" and "length deleted = vs_size base"
    and "vs_size base \<le> 2 ^ 32 - 1"
  shows "graph_ok (vs_size base) (bc_degree config) (mask_ids deleted) (fst (batch_pass base config deleted s))"
  using add_reverse_edges_batch_ok[OF assms] by (cases s) (simp add: batch_pass_def case_prod_unfold Let_def)

lemma vamana_pass_ok:
  assumes "graph_ok (vs_size base) (bc_degree config) (mask_ids deleted) (fst s)" and "length deleted = vs_size base"
    and "vs_size base \<le> 2 ^ 32 - 1"
  shows "graph_ok (vs_size base) (bc_degree config) (mask_ids deleted) (fst (vamana_pass base config deleted s))"
  using prune_overfull_ok[OF add_reverse_edges_vamana_ok[OF assms] assms(2,3)]
  by (cases s) (simp add: vamana_pass_def case_prod_unfold Let_def)

lemma selections_ok:
  assumes "\<And>seed xs. mset (br_shuffle rnd seed xs) = mset xs" and "length deleted = vs_size base"
    and "i < vs_size base" and "vs_size base \<le> 2 ^ 32 - 1"
  shows "list_ok (vs_size base) degree (mask_ids deleted) i (robust_prune_neighbors base (word_of_nat i)
      (deduplicate_and_limit rnd cs self config m marks) degree alpha deleted)"
    and "list_ok (vs_size base) degree (mask_ids deleted) i (nearest_neighbors_from_candidates base (word_of_nat i)
      (deduplicate_and_limit rnd cs self config m marks) degree deleted)"
  using prune_ok_at[OF assms(2) dedup_limit_distinct[OF assms(1)], where i = i]
    nearest_ok_at[OF assms(2) dedup_limit_distinct[OF assms(1)], where i = i] index_word[OF assms(3,4)] by auto

lemma approx_graph_ok:
  assumes "\<And>seed xs. mset (br_shuffle rnd seed xs) = mset xs" and "length deleted = vs_size base" and "vs_size base \<le> 2 ^ 32 - 1"
  shows "graph_ok (vs_size base) (bc_degree config) (mask_ids deleted)
    (fst (build_approx_projection_graph rnd base config deleted stats))"
  unfolding build_approx_projection_graph_def Let_def
  by (intro passes_ok connect_ok) (auto intro: selections_ok batch_pass_ok assms)

lemma lsh_graph_ok:
  assumes "\<And>seed xs. mset (br_shuffle rnd seed xs) = mset xs" and "length deleted = vs_size base" and "vs_size base \<le> 2 ^ 32 - 1"
  shows "graph_ok (vs_size base) (bc_degree config) (mask_ids deleted)
    (fst (build_lsh_projection_graph rnd base config deleted stats))"
  unfolding build_lsh_projection_graph_def Let_def
  by (intro passes_ok connect_ok) (auto intro: selections_ok batch_pass_ok vamana_pass_ok assms)

section \<open>Every policy\<close>

lemma vamana_mask:
  "deleted_mask (vamana_config_of config) n = (if bc_deleted_ids config = [] then [] else build_deleted_mask n (bc_deleted_ids config))"
  by (simp add: deleted_mask_def build_deleted_mask_def vamana_config_of_def)

lemma vamana_alive:
  assumes "unat c < n"
  shows "is_deleted (deleted_mask (vamana_config_of config) n) (unat c) \<longleftrightarrow> c \<in> set (bc_deleted_ids config)"
proof -
  have "c \<in> mask_ids (build_deleted_mask n (bc_deleted_ids config)) \<longleftrightarrow> c \<in> set (bc_deleted_ids config)" using assms by simp
  then show ?thesis using assms
    by (auto simp: vamana_mask is_deleted_def mask_ids_def dest: arg_cong[where f = length])
qed

lemma vamana_wf_graph:
  assumes "vamana_wf (vamana_config_of config) base graph" and "vs_size base \<le> 2 ^ 32 - 1"
  shows "graph_ok (vs_size base) (bc_degree config) (set (bc_deleted_ids config)) graph"
proof -
  have "is_deleted (deleted_mask (vamana_config_of config) (vs_size base)) i \<longleftrightarrow> word_of_nat i \<in> set (bc_deleted_ids config)"
    if "i < vs_size base" for i
    using vamana_alive[of "word_of_nat i" "vs_size base" config] that by (simp add: index_word[OF that assms(2)])
  moreover have "vc_max_degree (vamana_config_of config) = bc_degree config" by (simp add: vamana_config_of_def)
  ultimately show ?thesis
    using assms(1) by (simp add: vamana_wf_def graph_ok_def neighbors_ok_def list_ok_def alive_def) (metis vamana_alive)
qed

lemma graph_ok_range:
  assumes "graph_ok n degree {i \<in> dead. unat i < n} graph" and "n \<le> 2 ^ 32 - 1"
  shows "graph_ok n degree dead graph"
  using assms by (auto simp: graph_ok_def list_ok_def index_word)

lemma vamana_config_ok:
  assumes "validate_build_policy config = Inr ()" and "0 < bc_degree config"
  shows "VamanaBuilder (vamana_config_of config) = Inr (vamana_config_of config)"
  using assms by (auto simp: VamanaBuilder_def vamana_config_of_def validate_build_policy_def result_iffs)

lemma build_graph_ok:
  assumes "validate_build_policy config = Inr ()" and "0 < bc_degree config" and "vs_size base \<le> 2 ^ 32 - 1"
    and "\<And>seed xs. mset (br_shuffle rnd seed xs) = mset xs" and "epoch_ok em"
    and "bc_build_policy config = ''vamana'' \<Longrightarrow> \<exists>m. find_medoid (vamana_config_of config) base = Inr m"
  shows "\<exists>graph stats' em'. build_graph rnd base config stats em = (Inr graph, stats', em') \<and> epoch_ok em' \<and>
    graph_ok (vs_size base) (bc_degree config) (set (bc_deleted_ids config)) graph"
proof (cases "bc_build_policy config = ''vamana''")
  case True
  obtain m where "find_medoid (vamana_config_of config) base = Inr m" using assms(6) True by blast
  from build_run[of _ base m "br_shuffle rnd" em, OF this assms(3,4,5)] obtain g em' where g: "vamana_build (br_shuffle rnd) (vamana_config_of config) base em = (Inr g, em')"
    "epoch_ok em'" "vamana_wf (vamana_config_of config) base (vg_adjacency g)" by blast
  then show ?thesis
    using True vamana_wf_graph[OF g(3) assms(3)] by (simp add: build_graph_def assms(1) vamana_config_ok[OF assms(1,2)] Let_def)
next
  case False
  let ?no = "replicate (vs_size base) False" and ?mask = "build_deleted_mask (vs_size base) (bc_deleted_ids config)"
  obtain graph stats1 where built: "(if bc_build_policy config = ''exact'' then (build_exact_graph base (bc_degree config) ?no, stats)
      else if bc_build_policy config = ''approx-rp'' then build_approx_projection_graph rnd base config ?no stats
      else build_lsh_projection_graph rnd base config ?no stats) = (graph, stats1)" by fastforce
  then have ok: "graph_ok (vs_size base) (bc_degree config) {} graph"
    using exact_graph_ok[OF assms(3)] approx_graph_ok[OF assms(4) _ assms(3), of ?no] lsh_graph_ok[OF assms(4) _ assms(3), of ?no]
    by (auto split: if_splits) (metis fst_conv)+
  note patched = delete_patch_ok[OF ok _ assms(3), of ?mask]
  define final where "final = (if bc_deleted_ids config \<noteq> []
    then apply_freshvamana_delete_patch base (bc_degree config) (bc_robust_prune_alpha config) ?mask graph else graph)"
  have "graph_ok (vs_size base) (bc_degree config) {i \<in> set (bc_deleted_ids config). unat i < vs_size base} final"
    using patched ok by (simp add: final_def)
  from graph_ok_range[OF this assms(3)]
  have final: "graph_ok (vs_size base) (bc_degree config) (set (bc_deleted_ids config)) final" .
  have "build_graph rnd base config stats em = (Inr final, count_build (summarize_build final) stats1, em)"
    using False built by (auto simp: build_graph_def assms(1) Let_def final_def split: if_splits)
  then show ?thesis using final assms(5) by blast
qed

text \<open>
  C12: building a graph. When the configuration is valid and the degree positive, every policy
  returns a graph with one list per node: without repetitions, of at most \<open>degree\<close> other nodes,
  none of them deleted, and empty for deleted nodes. The Vamana policy needs a live node.
\<close>

theorem build_graph_wf:
  assumes "validate_build_policy config = Inr ()" and "0 < bc_degree config" and "vs_size base \<le> 2 ^ 32 - 1"
    and "\<And>seed xs. mset (br_shuffle rnd seed xs) = mset xs" and "epoch_ok em"
    and "bc_build_policy config = ''vamana'' \<Longrightarrow> \<exists>m. find_medoid (vamana_config_of config) base = Inr m"
  shows "\<exists>graph stats' em'. build_graph rnd base config stats em = (Inr graph, stats', em') \<and> epoch_ok em' \<and>
    graph_ok (vs_size base) (bc_degree config) (set (bc_deleted_ids config)) graph"
  using assms by (rule build_graph_ok)

definition demo_build :: build_config where
  "demo_build = \<lparr>bc_degree = 2, bc_page_size = 4096, bc_build_policy = ''lsh-vamana'', bc_packing_strategy = ''bfs'',
     bc_random_seed = 42, bc_approx_projections = 8, bc_approx_window = 64, bc_approx_random_samples = 4,
     bc_approx_candidate_limit = 0, bc_reverse_edge_patch = True, bc_prune_passes = 2, bc_lsh_tables = 2, bc_lsh_bits = 3,
     bc_lsh_probe_radius = 1, bc_lsh_bucket_limit = 4, bc_robust_prune_alpha = fp_of_nat binary64 1, bc_deleted_ids = [1],
     bc_coaccess_sessions = 4, bc_coaccess_trace_length = 3, bc_hotpath_queries = None, bc_pq_model = None,
     bc_hotpath_train_queries = 0, bc_hotpath_search_width = 8, bc_hotpath_entry_count = 1\<rparr>"

lemma demo_build_valid: "validate_build_policy demo_build = Inr ()"
  by (simp add: validate_build_policy_def is_candidate_build_policy_def demo_build_def fp_lt_def)

theorem build_graph_wf_witness:
  "\<exists>graph stats' em'. build_graph \<lparr>br_draw = (\<lambda>seed k. k mod 2), br_shuffle = (\<lambda>seed. rev)\<rparr> vamana_demo_vectors demo_build None
      \<lparr>em_visited_epoch = [], em_current_epoch = 0\<rparr> = (Inr graph, stats', em') \<and> graph_ok 2 2 {1} graph"
  using build_graph_wf[OF demo_build_valid, of vamana_demo_vectors "\<lparr>br_draw = (\<lambda>seed k. k mod 2), br_shuffle = (\<lambda>seed. rev)\<rparr>"
      "\<lparr>em_visited_epoch = [], em_current_epoch = 0\<rparr>" None]
  by (auto simp: epoch_ok_def demo_build_def)

end
