(* ===== verification/BuildOrder.thy ===== *)
theory BuildOrder
  imports BuildProps
begin

text \<open>
  The orders in which \<open>src/graph/disk_graph_builder.cpp\<close> packs nodes into pages: random, breadth
  first, by simulated co-access and by the visits of training queries. Each is a permutation of
  the nodes, which is what lets every node find a page.
\<close>

section \<open>Entry points, natural and random order\<close>

definition entry_points :: "nat \<Rightarrow> nat \<Rightarrow> u32 list" where
  "entry_points n requested =
     (if n = 0 \<or> requested = 0 then []
      else (let actual = min requested n
            in fst (foldl (\<lambda>(entries, seen) i.
                 let id32 = (if actual = 1 then 0 else word_of_nat ((i * (n - 1)) div (actual - 1))) :: u32
                 in if id32 \<in> seen then (entries, seen) else (entries @ [id32], insert id32 seen)) ([], {}) [0..<actual])))"

definition natural_order :: "nat \<Rightarrow> u32 list" where
  "natural_order n = map word_of_nat [0..<n]"

definition random_order :: "build_random \<Rightarrow> nat \<Rightarrow> u32 \<Rightarrow> u32 list" where
  "random_order rnd n seed = br_shuffle rnd seed (natural_order n)"

section \<open>Breadth first\<close>

definition visit :: "bool list \<times> u32 list \<Rightarrow> u32 \<Rightarrow> bool list \<times> u32 list" where
  "visit = (\<lambda>(seen, queue) neighbor.
     if unat neighbor < length seen \<and> \<not> seen ! unat neighbor
     then (seen[unat neighbor := True], queue @ [neighbor]) else (seen, queue))"

definition unseen :: "bool list \<Rightarrow> nat" where
  "unseen seen = length (filter Not seen)"

lemma unseen_update: "i < length seen \<Longrightarrow> \<not> seen ! i \<Longrightarrow> Suc (unseen (seen[i := True])) = unseen seen"
  by (induction seen arbitrary: i) (auto simp: unseen_def nth_Cons split: nat.splits)

lemma visit_measure:
  "unseen (fst (foldl visit (seen, queue) ns)) + length (snd (foldl visit (seen, queue) ns)) = unseen seen + length queue"
proof (induction ns arbitrary: seen queue)
  case (Cons i ns)
  show ?case
  proof (cases "unat i < length seen \<and> \<not> seen ! unat i")
    case True
    then show ?thesis using Cons.IH[of "seen[unat i := True]" "queue @ [i]"] unseen_update[of "unat i" seen] by (simp add: visit_def)
  qed (use Cons.IH[of seen queue] in \<open>auto simp: visit_def\<close>)
qed simp

text \<open>A step takes one node from the queue and adds one for each node it marks as seen.\<close>

function bfs_loop :: "adjacency \<Rightarrow> bool list \<Rightarrow> u32 list \<Rightarrow> u32 list \<Rightarrow> bool list \<times> u32 list" where
  "bfs_loop graph seen [] order = (seen, order)"
| "bfs_loop graph seen (current # queue) order =
     (let (seen, queue) = foldl visit (seen, queue) (graph ! unat current)
      in bfs_loop graph seen queue (order @ [current]))"
  by pat_completeness auto
termination
proof (relation "measure (\<lambda>(graph, seen, queue, order). unseen seen + length queue)")
  fix graph :: adjacency and seen and current :: u32 and queue order x seen' queue'
  assume "x = foldl visit (seen, queue) (graph ! unat current)" "(seen', queue') = x"
  then have "foldl visit (seen, queue) (graph ! unat current) = (seen', queue')" by simp
  then have "unseen seen' + length queue' = unseen seen + length queue"
    using visit_measure[of seen queue "graph ! unat current"] by simp
  then show "((graph, seen', queue', order @ [current]), graph, seen, current # queue, order)
      \<in> measure (\<lambda>(graph, seen, queue, order). unseen seen + length queue)" by simp
qed simp

definition bfs_order :: "adjacency \<Rightarrow> u32 list" where
  "bfs_order graph = snd (foldl (\<lambda>(seen, order) start.
     if seen ! start then (seen, order)
     else bfs_loop graph (seen[start := True]) [word_of_nat start] order)
     (replicate (length graph) False, []) [0..<length graph])"

section \<open>Simulated co-access\<close>

definition pair_key :: "u32 \<Rightarrow> u32 \<Rightarrow> u64" where
  "pair_key lhs rhs = push_bit 32 (ucast (min lhs rhs)) OR ucast (max lhs rhs)"

type_synonym access_counts = "nat list \<times> (u64, nat) umap"

text \<open>\<open>coaccess[key] += weight\<close>; a new entry starts at zero.\<close>

definition add_weight :: "u64 \<Rightarrow> nat \<Rightarrow> (u64, nat) umap \<Rightarrow> (u64, nat) umap" where
  "add_weight key weight coaccess =
     um_assign key (fp_add binary64 (case um_find coaccess key of None \<Rightarrow> 0 | Some w \<Rightarrow> w) (fp_of_nat binary64 weight)) coaccess"

text \<open>One session walks at most \<open>trace_length\<close> steps; the first argument counts them down.\<close>

fun trace_session ::
  "nat \<Rightarrow> adjacency \<Rightarrow> nat \<Rightarrow> nat \<Rightarrow> u32 \<Rightarrow> u32 \<Rightarrow> access_counts \<Rightarrow> access_counts" where
  "trace_session 0 graph s step current previous (hotness, coaccess) = (hotness, coaccess)"
| "trace_session (Suc left) graph s step current previous (hotness, coaccess) =
     (let hotness = hotness[unat current := fp_add binary64 (hotness ! unat current) (fp_of_nat binary64 2)];
          coaccess = (if previous \<noteq> - 1 then add_weight (pair_key previous current) 4 coaccess else coaccess);
          neighbors = graph ! unat current;
          coaccess = foldl (\<lambda>coaccess neighbor. add_weight (pair_key current neighbor) 1 coaccess) coaccess (take 4 neighbors)
      in if neighbors = [] then (hotness, coaccess)
         else trace_session left graph s (step + 1) (neighbors ! ((step + s) mod length neighbors)) current (hotness, coaccess))"

definition simulate_sessions :: "adjacency \<Rightarrow> nat \<Rightarrow> nat \<Rightarrow> access_counts" where
  "simulate_sessions graph sessions trace_length =
     foldl (\<lambda>counts s. trace_session trace_length graph s 0 (word_of_nat ((s * length graph) div sessions)) (- 1) counts)
       (replicate (length graph) (fp_of_nat binary64 1), um_empty) [0..<sessions]"

record placement =
  pl_placed :: "bool list"
  pl_remaining :: nat
  pl_next_unplaced :: nat
  pl_order :: "u32 list"

definition take_next_unplaced :: "placement \<Rightarrow> u32 \<times> placement" where
  "take_next_unplaced s =
     (let next_unplaced = pl_next_unplaced s + length (takeWhile (\<lambda>b. b) (drop (pl_next_unplaced s) (pl_placed s)))
      in (if length (pl_placed s) \<le> next_unplaced then - 1 else word_of_nat next_unplaced,
          s\<lparr>pl_next_unplaced := next_unplaced\<rparr>))"

definition score_for_page :: "adjacency \<Rightarrow> access_counts \<Rightarrow> u32 \<Rightarrow> u32 list \<Rightarrow> nat" where
  "score_for_page graph = (\<lambda>(hotness, coaccess) candidate page_nodes.
     foldl (\<lambda>score page_node.
       let score = (case um_find coaccess (pair_key candidate page_node) of None \<Rightarrow> score
             | Some w \<Rightarrow> fp_add binary64 score (fp_mul binary64 w (fp_of_nat binary64 20)))
       in if contains_id (graph ! unat candidate) page_node \<or> contains_id (graph ! unat page_node) candidate
          then fp_add binary64 score (fp_of_nat binary64 10) else score)
       (fp_mul binary64 (hotness ! unat candidate) 0x3F50624DD2F1A9FC) page_nodes)"

definition page_candidates :: "adjacency \<Rightarrow> bool list \<Rightarrow> u32 list \<Rightarrow> u32 list" where
  "page_candidates graph placed page_nodes =
     remdups_adj (sort (filter (\<lambda>neighbor. unat neighbor < length placed \<and> \<not> placed ! unat neighbor)
       (concat (map (\<lambda>page_node. graph ! unat page_node) page_nodes))))"

text \<open>The best score starts at -1; the sentinel \<open>- 1\<close> says that there is no candidate.\<close>

definition best_candidate :: "adjacency \<Rightarrow> access_counts \<Rightarrow> bool list \<Rightarrow> u32 list \<Rightarrow> u32" where
  "best_candidate graph counts placed page_nodes =
     fst (foldl (\<lambda>(best, best_score) candidate.
       let score = score_for_page graph counts candidate page_nodes
       in if fp_lt binary64 best_score score then (candidate, score) else (best, best_score))
       (- 1, 0xBFF0000000000000) (page_candidates graph placed page_nodes))"

definition place_node :: "u32 \<Rightarrow> placement \<Rightarrow> placement" where
  "place_node i s = s\<lparr>pl_placed := (pl_placed s)[unat i := True], pl_remaining := pl_remaining s - 1, pl_order := pl_order s @ [i]\<rparr>"

text \<open>The inner loop; its first argument is \<open>remaining\<close>, which falls by one with every node placed.\<close>

fun fill_page :: "nat \<Rightarrow> adjacency \<Rightarrow> access_counts \<Rightarrow> nat \<Rightarrow> u32 list \<Rightarrow> placement \<Rightarrow> placement" where
  "fill_page 0 graph counts nodes_per_page page_nodes s = s"
| "fill_page (Suc left) graph counts nodes_per_page page_nodes s =
     (if nodes_per_page \<le> length page_nodes then s
      else (let best = best_candidate graph counts (pl_placed s) page_nodes;
                (best, s) = (if best = - 1 then take_next_unplaced s else (best, s))
            in if best = - 1 then s
               else fill_page left graph counts nodes_per_page (page_nodes @ [best]) (place_node best s)))"

lemma take_next_remaining: "take_next_unplaced s = (i, s') \<Longrightarrow> pl_remaining s' = pl_remaining s"
  by (auto simp: take_next_unplaced_def Let_def)

lemma fill_page_remaining: "pl_remaining (fill_page left graph counts npp page_nodes s) \<le> pl_remaining s"
proof (induction left arbitrary: page_nodes s)
  case (Suc left)
  have "pl_remaining (fill_page left graph counts npp ns (place_node b s')) \<le> pl_remaining s'" for ns b s'
    using Suc.IH[of ns "place_node b s'"] by (simp add: place_node_def)
  then show ?case by (auto simp: Let_def dest: take_next_remaining split: prod.splits) (metis take_next_remaining)+
qed simp

function place_pages :: "adjacency \<Rightarrow> access_counts \<Rightarrow> nat \<Rightarrow> placement \<Rightarrow> placement" where
  "place_pages graph counts nodes_per_page s =
     (if pl_remaining s = 0 then s
      else (let (anchor, s) = take_next_unplaced s
            in if anchor = - 1 then s
               else (let s = place_node anchor s
                     in place_pages graph counts nodes_per_page
                          (fill_page (pl_remaining s) graph counts nodes_per_page [anchor] s))))"
  by pat_completeness auto
termination
proof (relation "measure (\<lambda>(graph, counts, npp, s). pl_remaining s)")
  fix graph :: adjacency and counts npp s x anchor s1 s2
  assume *: "pl_remaining s \<noteq> 0" "x = take_next_unplaced s" "(anchor, s1) = x" "s2 = place_node anchor s1"
  then have "pl_remaining s1 = pl_remaining s" by (metis take_next_remaining)
  then have "pl_remaining s2 < pl_remaining s" using *(1,4) by (simp add: place_node_def)
  then show "((graph, counts, npp, fill_page (pl_remaining s2) graph counts npp [anchor] s2), graph, counts, npp, s)
      \<in> measure (\<lambda>(graph, counts, npp, s). pl_remaining s)"
    using fill_page_remaining[of "pl_remaining s2" graph counts npp "[anchor]" s2] by simp
qed simp

definition coaccess_order :: "adjacency \<Rightarrow> nat \<Rightarrow> nat \<Rightarrow> nat \<Rightarrow> u32 list" where
  "coaccess_order graph nodes_per_page sessions trace_length =
     (if graph = [] then []
      else (let sessions = max 1 (min sessions (length graph));
                trace_length = max 1 trace_length;
                counts = simulate_sessions graph sessions trace_length
            in pl_order (place_pages graph counts nodes_per_page
                 \<lparr>pl_placed = replicate (length graph) False, pl_remaining = length graph, pl_next_unplaced = 0, pl_order = []\<rparr>)))"

section \<open>Visits of training queries\<close>

text \<open>The comparator \<open>CloserFirst\<close> of this file.\<close>

definition build_closer_first :: "search_result \<Rightarrow> search_result \<Rightarrow> bool" where
  "build_closer_first lhs rhs =
     (if f32_eq (sr_distance lhs) (sr_distance rhs) then sr_id rhs < sr_id lhs
      else f32_lt (sr_distance rhs) (sr_distance lhs))"

record hot_walk =
  hw_visited :: "bool list"
  hw_visit_count :: "nat list"
  hw_candidates :: "search_result list"

definition hot_visit :: "vector_set \<Rightarrow> f32 list \<Rightarrow> nat \<Rightarrow> hot_walk \<Rightarrow> u32 \<Rightarrow> hot_walk" where
  "hot_visit base query n w i =
     (if n \<le> unat i \<or> hw_visited w ! unat i then w
      else w\<lparr>hw_visited := (hw_visited w)[unat i := True],
             hw_visit_count := (hw_visit_count w)[unat i := hw_visit_count w ! unat i + 1],
             hw_candidates := push_by build_closer_first
               \<lparr>sr_id = i, sr_distance = squared_l2 query (row_values base (unat i)) (vs_dim base)\<rparr> (hw_candidates w)\<rparr>)"

text \<open>At most \<open>hotpath_search_width\<close> nodes are expanded; the first argument counts them down.\<close>

fun hot_expand :: "nat \<Rightarrow> vector_set \<Rightarrow> f32 list \<Rightarrow> adjacency \<Rightarrow> hot_walk \<Rightarrow> hot_walk" where
  "hot_expand 0 base query graph w = w"
| "hot_expand (Suc left) base query graph w =
     (if hw_candidates w = [] then w
      else (let current = last (hw_candidates w);
                w = w\<lparr>hw_candidates := butlast (hw_candidates w)\<rparr>
            in hot_expand left base query graph
                 (foldl (hot_visit base query (length graph)) w (graph ! unat (sr_id current)))))"

definition hot_query :: "vector_set \<Rightarrow> adjacency \<Rightarrow> build_config \<Rightarrow> u32 list \<Rightarrow> vector_set \<Rightarrow> nat list \<Rightarrow> nat \<Rightarrow> nat list" where
  "hot_query base graph config entries queries visit_count query_id =
     (let query = row_values queries query_id;
          w = foldl (hot_visit base query (length graph))
            \<lparr>hw_visited = replicate (length graph) False, hw_visit_count = visit_count, hw_candidates = []\<rparr> entries
      in hw_visit_count (hot_expand (bc_hotpath_search_width config) base query graph w))"

definition hotter :: "nat list \<Rightarrow> u32 \<Rightarrow> u32 \<Rightarrow> bool" where
  "hotter visit_count lhs rhs =
     (if visit_count ! unat lhs = visit_count ! unat rhs then lhs < rhs
      else visit_count ! unat rhs < visit_count ! unat lhs)"

definition hotpath_order ::
  "vector_set \<Rightarrow> adjacency \<Rightarrow> build_config \<Rightarrow> build_stats option \<Rightarrow> u32 list result \<times> build_stats option" where
  "hotpath_order base graph config stats =
     (case bc_hotpath_queries config of
        None \<Rightarrow> (Inl (Runtime_error ''hotpath packing requires sampled queries during index build''), stats)
      | Some queries \<Rightarrow>
          if vs_empty queries
          then (Inl (Runtime_error ''hotpath packing requires sampled queries during index build''), stats)
          else if vs_dim queries \<noteq> vs_dim base
          then (Inl (Runtime_error ''hotpath query dimension does not match base''), stats)
          else (let train_queries = min (bc_hotpath_train_queries config) (vs_size queries);
                    entries = entry_points (length graph) (bc_hotpath_entry_count config);
                    visit_count = foldl (hot_query base graph config entries queries) (replicate (length graph) 0) [0..<train_queries]
                in (Inr (std_sort (hotter visit_count) (natural_order (length graph))),
                    count_build (\<lambda>t. t\<lparr>bt_hotpath_train_queries := train_queries,
                      bt_hotpath_unique_visited_nodes := length (filter (\<lambda>n. n \<noteq> 0) visit_count),
                      bt_hotpath_top_node_visit_count := foldl max 0 visit_count\<rparr>) stats)))"

definition packed_order ::
  "build_random \<Rightarrow> vector_set \<Rightarrow> adjacency \<Rightarrow> build_config \<Rightarrow> nat \<Rightarrow> build_stats option \<Rightarrow> u32 list result \<times> build_stats option" where
  "packed_order rnd base graph config nodes_per_page stats =
     (if bc_packing_strategy config = ''random'' then (Inr (random_order rnd (length graph) (bc_random_seed config)), stats)
      else if bc_packing_strategy config = ''bfs'' then (Inr (bfs_order graph), stats)
      else if bc_packing_strategy config = ''coaccess''
      then (Inr (coaccess_order graph nodes_per_page (bc_coaccess_sessions config) (bc_coaccess_trace_length config)), stats)
      else if bc_packing_strategy config = ''hotpath'' then hotpath_order base graph config stats
      else (Inl (Runtime_error ''Unknown packing strategy''), stats))"

section \<open>Every order is a permutation\<close>

text \<open>A list of nodes that agrees with the marks of a search, and a list of all nodes.\<close>

definition marks_agree :: "nat \<Rightarrow> bool list \<Rightarrow> u32 list \<Rightarrow> bool" where
  "marks_agree n marks order \<longleftrightarrow> length marks = n \<and> distinct order \<and> (\<forall>c. c \<in> set order \<longleftrightarrow> unat c < n \<and> marks ! unat c)"

definition packs_all :: "nat \<Rightarrow> u32 list \<Rightarrow> bool" where
  "packs_all n order \<longleftrightarrow> distinct order \<and> set order = {c. unat c < n}"

lemma marks_agree_start [simp]: "marks_agree n (replicate n False) []"
  by (auto simp: marks_agree_def)

lemma marks_agree_add:
  assumes "marks_agree n marks order" and "unat c < n" and "\<not> marks ! unat c"
  shows "marks_agree n (marks[unat c := True]) (order @ [c])"
  using assms by (auto simp: marks_agree_def nth_list_update dest: unsigned_word_eqI)

lemma packs_natural:
  assumes "n \<le> 2 ^ 32 - 1"
  shows "packs_all n (natural_order n)"
proof -
  have "c \<in> word_of_nat ` {0..<n}" if "unat c < n" for c :: u32
    using that by (intro image_eqI[of _ _ "unat c"]) auto
  then show ?thesis
    using assms by (auto simp: packs_all_def natural_order_def distinct_map inj_on_def index_word dest!: arg_cong[where f = unat])
qed

lemma packs_mset: "packs_all n xs \<Longrightarrow> mset ys = mset xs \<Longrightarrow> packs_all n ys"
  by (metis packs_all_def mset_eq_imp_distinct_iff mset_eq_setD)

lemma packs_length: "packs_all n xs \<Longrightarrow> n \<le> 2 ^ 32 - 1 \<Longrightarrow> length xs = n"
  using packs_natural[of n] by (auto simp: packs_all_def natural_order_def dest!: distinct_card)

lemma visit_agree:
  assumes "marks_agree n seen (order @ queue)" and "foldl visit (seen, queue) ns = (seen', queue')"
  shows "marks_agree n seen' (order @ queue') \<and> set queue \<subseteq> set queue'"
  using assms
proof (induction ns arbitrary: seen queue)
  case (Cons c ns)
  show ?case
  proof (cases "unat c < n \<and> \<not> seen ! unat c")
    case True
    moreover from this have "marks_agree n (seen[unat c := True]) (order @ queue @ [c])"
      using marks_agree_add[OF Cons.prems(1), of c] by simp
    moreover have "length seen = n" using Cons.prems(1) by (simp add: marks_agree_def)
    ultimately show ?thesis using Cons.IH[of "seen[unat c := True]" "queue @ [c]"] Cons.prems(2) by (simp add: visit_def)
  next
    case False
    moreover have "length seen = n" using Cons.prems(1) by (simp add: marks_agree_def)
    ultimately have "visit (seen, queue) c = (seen, queue)" by (auto simp: visit_def)
    then show ?thesis using Cons by simp
  qed
qed simp

lemma bfs_loop_agree:
  assumes "marks_agree n seen (order @ queue)" and "bfs_loop graph seen queue order = (seen', order')"
  shows "marks_agree n seen' order' \<and> set order \<union> set queue \<subseteq> set order'"
  using assms
proof (induction graph seen queue order rule: bfs_loop.induct)
  case (2 graph seen current queue order)
  obtain seen1 queue1 where step: "foldl visit (seen, queue) (graph ! unat current) = (seen1, queue1)" by fastforce
  have "marks_agree n seen ((order @ [current]) @ queue)" using 2(2) by simp
  note agree = visit_agree[OF this step, THEN conjunct1] visit_agree[OF this step, THEN conjunct2]
  have "bfs_loop graph seen1 queue1 (order @ [current]) = (seen', order')" using 2(3) by (simp add: step)
  from 2(1)[OF step[symmetric] refl agree(1) this] agree(2) show ?case by auto
qed simp

lemma bfs_order_covers:
  assumes "length graph \<le> 2 ^ 32 - 1"
  shows "packs_all (length graph) (bfs_order graph)"
proof -
  let ?step = "\<lambda>(seen, order) start. if seen ! start then (seen, order)
     else bfs_loop graph (seen[start := True]) [word_of_nat start] order"
  have "marks_agree (length graph) seen' order' \<and> set order \<subseteq> set order' \<and> (\<forall>i\<in>set starts. word_of_nat i \<in> set order')"
    if "marks_agree (length graph) seen order" "foldl ?step (seen, order) starts = (seen', order')" "set starts \<subseteq> {0..<length graph}"
    for seen order seen' order' starts
    using that
  proof (induction starts arbitrary: seen order)
    case (Cons i starts)
    then have i: "unat (word_of_nat i :: u32) = i" "i < length graph" using assms by (simp_all add: index_word[OF _ assms])
    show ?case
    proof (cases "seen ! i")
      case True
      then have "word_of_nat i \<in> set order" using Cons.prems(1) i by (simp add: marks_agree_def)
      then show ?thesis using Cons.IH[OF Cons.prems(1)] Cons.prems True by auto
    next
      case False
      obtain seen1 order1 where run: "bfs_loop graph (seen[i := True]) [word_of_nat i] order = (seen1, order1)" by fastforce
      have "marks_agree (length graph) (seen[i := True]) (order @ [word_of_nat i])"
        using marks_agree_add[OF Cons.prems(1), of "word_of_nat i"] False i by simp
      note one = bfs_loop_agree[OF this run]
      from Cons.IH[of seen1 order1] one Cons.prems False run show ?thesis by auto
    qed
  qed auto
  note all = this
  obtain seen order where run: "foldl ?step (replicate (length graph) False, []) [0..<length graph] = (seen, order)" by fastforce
  have "c \<in> set order" if "unat c < length graph" for c
  proof -
    have "\<forall>i\<in>{0..<length graph}. word_of_nat i \<in> set order" using all[OF _ run] by simp
    from bspec[OF this, of "unat c"] have "word_of_nat (unat c) \<in> set order" using that by simp
    then show ?thesis by simp
  qed
  then show ?thesis
    using all[OF _ run] run by (auto simp: bfs_order_def packs_all_def marks_agree_def)
qed

text \<open>Co-access: the marks, the number of nodes left, and the first node that may be unplaced.\<close>

definition placement_ok :: "nat \<Rightarrow> placement \<Rightarrow> bool" where
  "placement_ok n s \<longleftrightarrow> marks_agree n (pl_placed s) (pl_order s) \<and> pl_remaining s = unseen (pl_placed s) \<and>
     pl_next_unplaced s \<le> n \<and> (\<forall>k<pl_next_unplaced s. pl_placed s ! k)"

lemma unseen_zero: "unseen seen = 0 \<longleftrightarrow> (\<forall>i<length seen. seen ! i)"
  by (auto simp: unseen_def filter_empty_conv all_set_conv_all_nth)

lemma take_next_ok:
  assumes ok: "placement_ok n s" and "0 < pl_remaining s" and n: "n \<le> 2 ^ 32 - 1" and run: "take_next_unplaced s = (i, s')"
  shows "i \<noteq> - 1 \<and> unat i < n \<and> \<not> pl_placed s' ! unat i \<and> placement_ok n s' \<and> pl_remaining s' = pl_remaining s"
proof -
  let ?tail = "drop (pl_next_unplaced s) (pl_placed s)"
  define k where "k = pl_next_unplaced s + length (takeWhile (\<lambda>b. b) ?tail)"
  have len: "length (pl_placed s) = n" and next_le: "pl_next_unplaced s \<le> n" using ok by (simp_all add: placement_ok_def marks_agree_def)
  have before: "pl_placed s ! j" if "j < k" for j
  proof (cases "j < pl_next_unplaced s")
    case False
    then have j: "j - pl_next_unplaced s < length (takeWhile (\<lambda>b. b) ?tail)" using that by (simp add: k_def)
    then have "?tail ! (j - pl_next_unplaced s)" by (metis nth_mem set_takeWhileD takeWhile_nth)
    then show ?thesis using False len next_le by simp
  qed (use ok in \<open>simp add: placement_ok_def\<close>)
  have k_le: "k \<le> n" using length_takeWhile_le[of "\<lambda>b. b" ?tail] len next_le by (simp add: k_def)
  have "k < n"
  proof (rule ccontr)
    assume "\<not> k < n"
    then have "unseen (pl_placed s) = 0" using before k_le len by (simp add: unseen_zero)
    then show False using assms(1,2) by (simp add: placement_ok_def)
  qed
  then have "length (takeWhile (\<lambda>b. b) ?tail) < length ?tail" using len by (simp add: k_def)
  then have "\<not> ?tail ! length (takeWhile (\<lambda>b. b) ?tail)" by (rule nth_length_takeWhile)
  then have free: "\<not> pl_placed s ! k" using len next_le by (simp add: k_def)
  have word: "unat (word_of_nat k :: u32) = k" using \<open>k < n\<close> n by (simp add: index_word)
  have "(word_of_nat k :: u32) \<noteq> - 1"
  proof
    assume "(word_of_nat k :: u32) = - 1"
    then have "k = unat (- 1 :: u32)" using word by simp
    then show False using \<open>k < n\<close> n by (simp add: unsigned_minus_1_eq_mask mask_eq_exp_minus_1)
  qed
  moreover have "i = word_of_nat k" "s' = s\<lparr>pl_next_unplaced := k\<rparr>"
    using run \<open>k < n\<close> len by (simp_all add: take_next_unplaced_def k_def[symmetric] Let_def)
  ultimately show ?thesis using \<open>k < n\<close> free before ok word by (simp add: placement_ok_def)
qed

lemma place_node_ok:
  assumes "placement_ok n s" and "unat i < n" and "\<not> pl_placed s ! unat i"
  shows "placement_ok n (place_node i s)" and "Suc (pl_remaining (place_node i s)) = pl_remaining s"
proof -
  have "length (pl_placed s) = n" using assms(1) by (simp add: placement_ok_def marks_agree_def)
  then have count: "Suc (unseen ((pl_placed s)[unat i := True])) = pl_remaining s"
    using assms unseen_update[of "unat i" "pl_placed s"] by (simp add: placement_ok_def)
  show "placement_ok n (place_node i s)"
    using assms marks_agree_add[of n "pl_placed s" "pl_order s" i] count \<open>length (pl_placed s) = n\<close>
    by (auto simp: placement_ok_def place_node_def nth_list_update)
  show "Suc (pl_remaining (place_node i s)) = pl_remaining s" using count by (simp add: place_node_def)
qed

lemma best_candidate_free:
  assumes "best_candidate graph counts placed page_nodes \<noteq> - 1"
  shows "unat (best_candidate graph counts placed page_nodes) < length placed \<and>
    \<not> placed ! unat (best_candidate graph counts placed page_nodes)"
proof -
  let ?step = "\<lambda>(best, best_score) candidate. let score = score_for_page graph counts candidate page_nodes
     in if fp_lt binary64 best_score score then (candidate, score) else (best, best_score)"
  have "fst (foldl ?step (- 1, 0xBFF0000000000000) (page_candidates graph placed page_nodes)) = - 1 \<or>
      fst (foldl ?step (- 1, 0xBFF0000000000000) (page_candidates graph placed page_nodes)) \<in> set (page_candidates graph placed page_nodes)"
    by (rule foldl_inv[where P = "\<lambda>p. fst p = - 1 \<or> fst p \<in> set (page_candidates graph placed page_nodes)"])
      (auto simp: Let_def split: prod.splits)
  then have "best_candidate graph counts placed page_nodes \<in> set (page_candidates graph placed page_nodes)"
    using assms by (simp add: best_candidate_def)
  then show ?thesis by (auto simp: page_candidates_def)
qed

lemma fill_page_ok:
  assumes "placement_ok n s" and "left = pl_remaining s" and "n \<le> 2 ^ 32 - 1"
  shows "placement_ok n (fill_page left graph counts npp page_nodes s)"
  using assms(1,2)
proof (induction left arbitrary: page_nodes s)
  case (Suc left)
  show ?case
  proof (cases "npp \<le> length page_nodes")
    case False
    obtain b s1 where pick: "(let best = best_candidate graph counts (pl_placed s) page_nodes
        in if best = - 1 then take_next_unplaced s else (best, s)) = (b, s1)" by (meson surj_pair)
    have len: "length (pl_placed s) = n" using Suc.prems(1) by (simp add: placement_ok_def marks_agree_def)
    have "b \<noteq> - 1 \<and> unat b < n \<and> \<not> pl_placed s1 ! unat b \<and> placement_ok n s1 \<and> pl_remaining s1 = pl_remaining s"
    proof (cases "best_candidate graph counts (pl_placed s) page_nodes = - 1")
      case True
      then have "take_next_unplaced s = (b, s1)" using pick by simp
      from take_next_ok[OF Suc.prems(1) _ assms(3) this] Suc.prems(2) show ?thesis by simp
    next
      case False
      then show ?thesis using pick best_candidate_free[OF False] Suc.prems(1) len by auto
    qed
    then show ?thesis
      using pick place_node_ok[of n s1 b] Suc.IH[of "place_node b s1" "page_nodes @ [b]"] Suc.prems(2)[symmetric] False
      by (auto simp: Let_def)
  qed (use Suc.prems(1) in simp)
qed simp

lemma place_pages_ok:
  assumes "placement_ok n s" and "n \<le> 2 ^ 32 - 1"
  shows "placement_ok n (place_pages graph counts npp s) \<and> pl_remaining (place_pages graph counts npp s) = 0"
  using assms(1)
proof (induction graph counts npp s rule: place_pages.induct)
  case (1 graph counts npp s)
  show ?case
  proof (cases "pl_remaining s = 0")
    case True
    then show ?thesis using 1(2) by (subst (1 2) place_pages.simps) simp
  next
    case False
    obtain i s1 where run: "take_next_unplaced s = (i, s1)" by fastforce
    have i: "i \<noteq> - 1" "unat i < n" "\<not> pl_placed s1 ! unat i" "placement_ok n s1"
      using take_next_ok[OF 1(2) _ assms(2) run] False by auto
    note placed = place_node_ok(1)[OF i(4,2,3)]
    from 1(1)[OF False run[symmetric] refl i(1) refl fill_page_ok[OF placed refl assms(2)]]
    show ?thesis using False run i(1) by (subst (1 2) place_pages.simps) (simp add: Let_def)
  qed
qed

lemma coaccess_order_covers:
  assumes "length graph \<le> 2 ^ 32 - 1"
  shows "packs_all (length graph) (coaccess_order graph npp sessions trace_length)"
proof (cases "graph = []")
  case False
  let ?start = "\<lparr>pl_placed = replicate (length graph) False, pl_remaining = length graph, pl_next_unplaced = 0, pl_order = []\<rparr>"
  have "placement_ok (length graph) ?start" by (simp add: placement_ok_def unseen_def)
  note ok = place_pages_ok[OF this assms]
  obtain counts where order: "coaccess_order graph npp sessions trace_length = pl_order (place_pages graph counts npp ?start)"
    using False by (auto simp: coaccess_order_def Let_def)
  obtain s where s: "place_pages graph counts npp ?start = s" by blast
  have "placement_ok (length graph) s" "pl_remaining s = 0" using ok[of graph counts npp] s by simp_all
  then show ?thesis unfolding order s by (auto simp: placement_ok_def marks_agree_def packs_all_def unseen_zero)
qed (simp add: coaccess_order_def packs_all_def)

lemma packed_order_perm:
  assumes "packed_order rnd base graph config nodes_per_page stats = (Inr order, stats')" and "length graph \<le> 2 ^ 32 - 1"
    and "\<And>seed xs. mset (br_shuffle rnd seed xs) = mset xs"
  shows "packs_all (length graph) order"
proof -
  have "packs_all (length graph) (random_order rnd (length graph) seed)" for seed
    unfolding random_order_def by (rule packs_mset[OF packs_natural[OF assms(2)] assms(3)])
  moreover have "packs_all (length graph) (std_sort lt (natural_order (length graph)))" for lt
    by (rule packs_mset[OF packs_natural[OF assms(2)]]) simp
  ultimately show ?thesis
    using assms(1) bfs_order_covers[OF assms(2)] coaccess_order_covers[OF assms(2)]
    by (auto simp: packed_order_def hotpath_order_def Let_def split: if_splits option.splits)
qed

text \<open>
  C13: packing. Whatever the strategy, the order in which the nodes of a graph are packed holds
  every node exactly once, so no build fails for nodes without a page.
\<close>

theorem packed_order_covers:
  assumes "packed_order rnd base graph config nodes_per_page stats = (Inr order, stats')" and "length graph \<le> 2 ^ 32 - 1"
    and "\<And>seed xs. mset (br_shuffle rnd seed xs) = mset xs"
  shows "distinct order \<and> set order = {c. unat c < length graph} \<and> length order = length graph"
  using packed_order_perm[OF assms] packs_length[OF _ assms(2)] by (auto simp: packs_all_def)

theorem packed_order_covers_witness:
  "\<exists>order. packed_order \<lparr>br_draw = (\<lambda>seed k. 0), br_shuffle = (\<lambda>seed. rev)\<rparr> vamana_demo_vectors [[2], [], [0, 1]] demo_build 4 None =
      (Inr order, None) \<and> distinct order \<and> set order = {c. unat c < length [[2], [], [0, 1 :: u32]]} \<and>
    length order = length [[2], [], [0, 1 :: u32]]"
proof -
  let ?graph = "[[2], [], [0, 1]] :: adjacency" and ?rnd = "\<lparr>br_draw = (\<lambda>seed k. 0), br_shuffle = (\<lambda>seed. rev)\<rparr>"
  have "bfs_order ?graph = [0, 2, 1]" by code_simp
  then have run: "packed_order ?rnd vamana_demo_vectors ?graph demo_build 4 None = (Inr [0, 2, 1], None)"
    by (simp add: packed_order_def demo_build_def)
  show ?thesis by (intro exI conjI, rule run) (use packed_order_covers[OF run] in simp_all)
qed

end
