(* ===== verification/PackedBuild.thy ===== *)
theory PackedBuild
  imports BuildOrder GraphIndex
begin

text \<open>
  \<open>PackedDiskGraphBuilder::build\<close> of \<open>src/graph/disk_graph_builder.cpp\<close>: it checks the
  configuration, builds the graph, orders the nodes, and writes header, directory and pages. The
  main result composes the parts: the file it leaves opens in \<open>PackedDiskGraphIndex\<close> and every
  node is read back as it was built.
\<close>

section \<open>The builder\<close>

definition model_code_bytes :: "pq_encoder option \<Rightarrow> nat" where
  "model_code_bytes pq_model = (case pq_model of None \<Rightarrow> 0 | Some m \<Rightarrow> if pq_enabled m then pe_subspaces m else 0)"

definition check_packed_build :: "vector_set \<Rightarrow> build_config \<Rightarrow> nat result" where
  "check_packed_build base config =
     (if vs_empty base then Inl (Runtime_error ''Cannot build packed graph index for empty base vectors'')
      else if 2 ^ 32 - 1 < vs_size base
      then Inl (Runtime_error ''V2 packed graph index supports at most uint32_t ids'')
      else if bc_degree config = 0 then Inl (Runtime_error ''Graph degree must be positive'')
      else if bc_page_size config < 4096 then Inl (Runtime_error ''Page size must be at least 4096 bytes in V2'')
      else (let pq_code_bytes = model_code_bytes (bc_pq_model config)
            in if 0 < pq_code_bytes \<and> pq_vector_count (the (bc_pq_model config)) < vs_size base
               then Inl (Runtime_error ''PQ model does not cover packed graph base vectors'')
               else (let nodes_per_page = packed_nodes_per_page (vs_dim base) (bc_degree config) (bc_page_size config) pq_code_bytes
                     in if nodes_per_page = 0 then Inl (Runtime_error ''Packed page cannot hold even one node'')
                        else Inr nodes_per_page)))"

definition kRecordsOffset :: nat where
  "kRecordsOffset = 4096"

definition node_directory :: "u32 list \<Rightarrow> nat \<Rightarrow> nat \<Rightarrow> u32 list" where
  "node_directory order nodes_per_page n =
     foldl (\<lambda>node_to_page position. node_to_page[unat (order ! position) := word_of_nat (position div nodes_per_page)])
       (replicate n 0) [0..<length order]"

text \<open>The header fields in the order they are written.\<close>

definition packed_header :: "graph_metadata \<Rightarrow> bytes list" where
  "packed_header meta =
     [kPackedGraphMagic, enc_word kPackedGraphVersion,
      enc_word (word_of_nat (gm_vector_count meta) :: u64), enc_word (word_of_nat (gm_dim meta) :: u32),
      enc_word (word_of_nat (gm_degree meta) :: u32), enc_word (word_of_nat (gm_page_size meta) :: u32),
      enc_word (word_of_nat (gm_records_offset meta) :: u64), enc_word (word_of_nat (gm_directory_offset meta) :: u64),
      enc_word (word_of_nat (gm_page_count meta) :: u64), enc_word (word_of_nat (gm_nodes_per_page meta) :: u32),
      enc_word (word_of_nat (gm_neighbor_pq_code_bytes meta) :: u32)]"

text \<open>\<open>tellp\<close> answers -1 on a stream that has failed.\<close>

definition stream_pos :: "ofstream \<Rightarrow> disk \<Rightarrow> u64" where
  "stream_pos os d = (if os_good os then os_tellp os d else - 1)"

fun write_pages ::
  "vector_set \<Rightarrow> adjacency \<Rightarrow> u32 list \<Rightarrow> nat \<Rightarrow> build_config \<Rightarrow> nat list \<Rightarrow> ofstream \<Rightarrow> disk \<Rightarrow> unit result \<times> ofstream \<times> disk" where
  "write_pages base graph order nodes_per_page config [] os d = (Inr (), os, d)"
| "write_pages base graph order nodes_per_page config (page_id # page_ids) os d =
     (case encode_packed_page (word_of_nat page_id) base graph order nodes_per_page (bc_page_size config)
             (bc_degree config) (bc_pq_model config) of
        Inl e \<Rightarrow> (Inl e, os, d)
      | Inr page \<Rightarrow>
          (let (os, d) = os_write page os d
           in if \<not> os_good os then (Inl (Runtime_error ''Failed while writing packed graph page''), os, d)
              else write_pages base graph order nodes_per_page config page_ids os d))"

definition write_packed_file ::
  "vector_set \<Rightarrow> adjacency \<Rightarrow> u32 list \<Rightarrow> graph_metadata \<Rightarrow> build_config \<Rightarrow> ofstream \<Rightarrow> disk \<Rightarrow> unit result \<times> ofstream \<times> disk" where
  "write_packed_file base graph order meta config os d =
     (let (os, d) = os_writes (packed_header meta) os d;
          header_pos = stream_pos os d
      in if \<not> os_good os then (Inl (Runtime_error ''Failed to write graph index''), os, d)
         else if word_of_nat kRecordsOffset < header_pos
         then (Inl (Runtime_error ''Packed graph header exceeds reserved header page''), os, d)
         else (let (os, d) = os_write (replicate (kRecordsOffset - unat header_pos) 0) os d;
                   (os, d) = os_write (words_bytes (node_directory order (gm_nodes_per_page meta) (vs_size base))) os d;
                   after_directory = stream_pos os d
               in if word_of_nat (gm_records_offset meta) < after_directory
                  then (Inl (Runtime_error ''Packed graph directory exceeds records offset''), os, d)
                  else (let (os, d) = os_write (replicate (gm_records_offset meta - unat after_directory) 0) os d
                        in write_pages base graph order (gm_nodes_per_page meta) config [0..<gm_page_count meta] os d)))"

definition packed_metadata :: "vector_set \<Rightarrow> build_config \<Rightarrow> nat \<Rightarrow> graph_metadata" where
  "packed_metadata base config nodes_per_page =
     \<lparr>gm_vector_count = vs_size base, gm_dim = vs_dim base, gm_degree = bc_degree config, gm_page_size = bc_page_size config,
      gm_records_offset = unat (align_up (word_of_nat (kRecordsOffset + vs_size base * 4)) (word_of_nat (bc_page_size config))),
      gm_directory_offset = kRecordsOffset, gm_page_count = (vs_size base + nodes_per_page - 1) div nodes_per_page,
      gm_nodes_per_page = nodes_per_page, gm_neighbor_pq_code_bytes = model_code_bytes (bc_pq_model config)\<rparr>"

text \<open>An exception leaves through the stream's destructor too.\<close>

definition packed_build ::
  "build_random \<Rightarrow> vector_set \<Rightarrow> string \<Rightarrow> build_config \<Rightarrow> build_stats option \<Rightarrow> epoch_marks \<Rightarrow> disk \<Rightarrow>
   unit result \<times> build_stats option \<times> epoch_marks \<times> disk" where
  "packed_build rnd base path config stats em d =
     (case check_packed_build base config of
        Inl e \<Rightarrow> (Inl e, stats, em, d)
      | Inr nodes_per_page \<Rightarrow>
     (case build_graph rnd base config stats em of
        (Inl e, stats, em) \<Rightarrow> (Inl e, stats, em, d)
      | (Inr graph, stats, em) \<Rightarrow>
     (case packed_order rnd base graph config nodes_per_page stats of
        (Inl e, stats) \<Rightarrow> (Inl e, stats, em, d)
      | (Inr order, stats) \<Rightarrow>
          if length order \<noteq> vs_size base then (Inl (Runtime_error ''Packed order does not cover all nodes''), stats, em, d)
          else (let meta = packed_metadata base config nodes_per_page
                in if 2 ^ 32 - 1 < gm_page_count meta
                   then (Inl (Runtime_error ''Too many packed pages for V2 directory''), stats, em, d)
                   else (let (os, d) = os_open True path d
                         in if \<not> os_good os then (Inl (Runtime_error ''Cannot create packed graph index''), stats, em, d)
                            else (let (result, os, d) = write_packed_file base graph order meta config os d
                                  in (result, stats, em, os_destroy os d)))))))"

section \<open>The bytes of the file\<close>

definition header_fits :: "graph_metadata \<Rightarrow> bool" where
  "header_fits meta \<longleftrightarrow> 0 < gm_vector_count meta \<and> gm_vector_count meta < 2 ^ 32 \<and> 0 < gm_dim meta \<and> gm_dim meta < 2 ^ 32 \<and>
     0 < gm_degree meta \<and> gm_degree meta < 2 ^ 32 \<and> 0 < gm_page_size meta \<and> gm_page_size meta < 2 ^ 32 \<and>
     gm_records_offset meta < 2 ^ 64 \<and> gm_directory_offset meta < 2 ^ 64 \<and> 0 < gm_page_count meta \<and>
     gm_page_count meta < 2 ^ 32 \<and> 0 < gm_nodes_per_page meta \<and> gm_nodes_per_page meta < 2 ^ 32 \<and>
     gm_neighbor_pq_code_bytes meta < 2 ^ 32 \<and>
     graph_record_bytes (gm_dim meta) (gm_degree meta) (gm_neighbor_pq_code_bytes meta) \<le> gm_page_size meta"

lemma unat_word:
  "n < 2 ^ 32 \<Longrightarrow> unat (word_of_nat n :: u32) = n" "n < 2 ^ 64 \<Longrightarrow> unat (word_of_nat n :: u64) = n"
  by (simp_all add: unat_of_nat)

lemma word_nonzero:
  "0 < n \<Longrightarrow> n < 2 ^ 32 \<Longrightarrow> (word_of_nat n :: u32) \<noteq> 0" "0 < n \<Longrightarrow> n < 2 ^ 64 \<Longrightarrow> (word_of_nat n :: u64) \<noteq> 0"
  using unat_word[of n] by (metis less_numeral_extra(3) unat_0)+

lemma read_value_enc [simp]:
  "read_value (enc_word (w :: u32) @ bs) = Inr (w, bs)" "read_value (enc_word (v :: u64) @ bs) = Inr (v, bs)"
  by (simp_all add: read_value_def)

lemma header_read:
  assumes "header_fits meta"
  shows "read_packed_metadata (concat (packed_header meta) @ rest) = Inr meta"
proof -
  have magic: "length kPackedGraphMagic = 8" by (simp add: kPackedGraphMagic_def)
  have bounds: "gm_vector_count meta < 2 ^ 64" "gm_page_count meta < 2 ^ 64" using assms by (auto simp: header_fits_def)
  have nz: "(word_of_nat (gm_vector_count meta) :: u64) \<noteq> 0" "(word_of_nat (gm_dim meta) :: u32) \<noteq> 0"
    "(word_of_nat (gm_degree meta) :: u32) \<noteq> 0" "(word_of_nat (gm_page_size meta) :: u32) \<noteq> 0"
    "(word_of_nat (gm_page_count meta) :: u64) \<noteq> 0" "(word_of_nat (gm_nodes_per_page meta) :: u32) \<noteq> 0"
    by (simp_all only: word_nonzero assms[unfolded header_fits_def] bounds simp_thms)
  have same: "unat (word_of_nat (gm_vector_count meta) :: u64) = gm_vector_count meta" "unat (word_of_nat (gm_dim meta) :: u32) = gm_dim meta"
    "unat (word_of_nat (gm_degree meta) :: u32) = gm_degree meta" "unat (word_of_nat (gm_page_size meta) :: u32) = gm_page_size meta"
    "unat (word_of_nat (gm_records_offset meta) :: u64) = gm_records_offset meta"
    "unat (word_of_nat (gm_directory_offset meta) :: u64) = gm_directory_offset meta"
    "unat (word_of_nat (gm_page_count meta) :: u64) = gm_page_count meta"
    "unat (word_of_nat (gm_nodes_per_page meta) :: u32) = gm_nodes_per_page meta"
    "unat (word_of_nat (gm_neighbor_pq_code_bytes meta) :: u32) = gm_neighbor_pq_code_bytes meta"
    using assms bounds by (auto simp only: header_fits_def intro!: unat_word)
  have "\<not> gm_page_size meta < graph_record_bytes (gm_dim meta) (gm_degree meta) (gm_neighbor_pq_code_bytes meta)"
    using assms by (simp add: header_fits_def)
  then show ?thesis using magic nz same by (simp add: read_packed_metadata_def packed_header_def Let_def)
qed

lemma header_length: "length (concat (packed_header meta)) = 64"
  by (simp add: packed_header_def kPackedGraphMagic_def)

lemma write_pages_reliable:
  assumes "outcomes d = []" and "os_good os"
    and "\<forall>p\<in>set ps. encode_packed_page (word_of_nat p) base graph order npp (bc_page_size config) (bc_degree config) (bc_pq_model config) = Inr (page p)"
  shows "write_pages base graph order npp config ps os d = (Inr (), os\<lparr>os_pending := os_pending os @ concat (map page ps)\<rparr>, d)"
  using assms by (induction ps arbitrary: os) simp_all

definition packed_image :: "vector_set \<Rightarrow> u32 list \<Rightarrow> graph_metadata \<Rightarrow> (nat \<Rightarrow> bytes) \<Rightarrow> bytes" where
  "packed_image base order meta page = concat (packed_header meta) @ replicate (kRecordsOffset - 64) 0 @
     words_bytes (node_directory order (gm_nodes_per_page meta) (vs_size base)) @
     replicate (gm_records_offset meta - (kRecordsOffset + 4 * vs_size base)) 0 @ concat (map page [0..<gm_page_count meta])"

lemma node_directory_fold:
  "length (foldl (\<lambda>m position. m[unat (order ! position) := word_of_nat (position div npp)]) m ks) = length m"
  by (induction ks arbitrary: m) simp_all

lemma length_node_directory [simp]: "length (node_directory order npp n) = n"
  by (simp add: node_directory_def node_directory_fold)

lemma node_directory_at:
  assumes "distinct order" and "\<forall>c\<in>set order. unat c < n" and "k < length order"
  shows "node_directory order npp n ! unat (order ! k) = word_of_nat (k div npp)"
proof -
  have "j \<le> length order \<Longrightarrow> k < j \<Longrightarrow>
      foldl (\<lambda>m position. m[unat (order ! position) := word_of_nat (position div npp)]) (replicate n 0) [0..<j] ! unat (order ! k) =
      word_of_nat (k div npp)" for j
  proof (induction j)
    case (Suc j)
    have "unat (order ! k) < n" using assms(2,3) by simp
    moreover have "k \<noteq> j \<Longrightarrow> unat (order ! j) \<noteq> unat (order ! k)"
      using assms(1,3) Suc.prems by (auto simp: nth_eq_iff_index_eq dest: unsigned_word_eqI)
    ultimately show ?case using Suc by (cases "k = j") (simp_all add: node_directory_fold)
  qed simp
  from this[of "length order"] show ?thesis using assms(3) by (simp add: node_directory_def)
qed

lemma write_packed_reliable:
  assumes d: "outcomes d = []" "file_bytes path d = []" and n: "vs_size base < 2 ^ 32"
    and off: "kRecordsOffset + 4 * vs_size base \<le> gm_records_offset meta" "gm_records_offset meta < 2 ^ 64"
    and pages: "\<forall>p<gm_page_count meta. encode_packed_page (word_of_nat p) base graph order (gm_nodes_per_page meta)
      (bc_page_size config) (bc_degree config) (bc_pq_model config) = Inr (page p)"
  shows "write_packed_file base graph order meta config \<lparr>os_path = path, os_pending = [], os_good = True\<rparr> d =
    (Inr (), \<lparr>os_path = path, os_pending = packed_image base order meta page, os_good = True\<rparr>, d)"
proof -
  have four: "unat (word_of_nat (4096 + 4 * vs_size base) :: u64) = 4096 + 4 * vs_size base"
    using n by (intro unat_word) simp
  have offset: "unat (word_of_nat (gm_records_offset meta) :: u64) = gm_records_offset meta" by (rule unat_word(2)[OF off(2)])
  have "\<not> (word_of_nat (gm_records_offset meta) :: u64) < word_of_nat (4096 + 4 * vs_size base)"
    unfolding word_less_nat_alt offset four using off(1) by (simp add: kRecordsOffset_def)
  then show ?thesis
    using d header_length[of meta] four write_pages_reliable[OF d(1), where ps = "[0..<gm_page_count meta]" and page = page] pages
    by (simp add: write_packed_file_def stream_pos_def os_tellp_def kRecordsOffset_def packed_image_def Let_def)
qed

section \<open>Offsets\<close>

lemma align_up_bounds:
  assumes "v < 2 ^ 40" and "0 < a" and "a < 2 ^ 32"
  shows "v \<le> unat (align_up (word_of_nat v) (word_of_nat a))" and "unat (align_up (word_of_nat v) (word_of_nat a)) < 2 ^ 41"
proof -
  have v: "unat (word_of_nat v :: u64) = v" and a: "unat (word_of_nat a :: u64) = a" using assms by (auto intro!: unat_word)
  have a0: "(word_of_nat a :: u64) \<noteq> 0" using assms by (intro word_nonzero) simp_all
  have rem: "(word_of_nat v :: u64) mod word_of_nat a = word_of_nat (v mod a)"
  proof -
    have "v mod a < 2 ^ 64" using assms(1) by (intro le_less_trans[OF mod_less_eq_dividend]) simp
    then show ?thesis by (simp add: word_unat_eq_iff unat_mod_distrib v a unat_word)
  qed
  have le: "v mod a \<le> v + a" by (meson mod_less_eq_dividend trans_le_add1)
  have "(word_of_nat v + word_of_nat a - word_of_nat (v mod a) :: u64) = word_of_nat (v + a - v mod a)"
    using le by simp
  moreover have "unat (word_of_nat (v + a - v mod a) :: u64) = v + a - v mod a" using assms by (intro unat_word) simp
  moreover have "v mod a < a" using assms(2) by simp
  ultimately have "unat (align_up (word_of_nat v) (word_of_nat a)) \<in> {v, v + a - v mod a}" "v mod a < a"
    using a0 v by (auto simp: align_up_def rem Let_def)
  moreover from this(2) have "v \<le> v + a - v mod a" "v + a - v mod a < 2 ^ 41" "v < 2 ^ 41"
    using assms(1,3) by simp_all
  ultimately show "v \<le> unat (align_up (word_of_nat v) (word_of_nat a))" "unat (align_up (word_of_nat v) (word_of_nat a)) < 2 ^ 41"
    by auto
qed

lemma page_position:
  assumes "0 < (npp :: nat)" and "k < n"
  shows "k div npp < (n + npp - 1) div npp"
proof -
  have "Suc (k div npp) * npp \<le> n + npp - 1"
    unfolding mult_Suc using assms div_times_less_eq_dividend[of k npp] by arith
  then show ?thesis using assms(1) by (simp add: less_eq_Suc_le less_eq_div_iff_mult_less_eq)
qed

lemma page_in_order:
  assumes "0 < (npp :: nat)" and "p < (n + npp - 1) div npp"
  shows "p * npp < n"
proof -
  have "Suc p * npp \<le> n + npp - 1" using assms by (simp add: less_eq_Suc_le less_eq_div_iff_mult_less_eq)
  then show ?thesis using assms(1) by simp
qed

lemma page_count_le:
  assumes "0 < (npp :: nat)" and "0 < n"
  shows "(n + npp - 1) div npp \<le> n" and "0 < (n + npp - 1) div npp"
proof -
  show "0 < (n + npp - 1) div npp" using page_position[OF assms] by simp
  then obtain p where p: "(n + npp - 1) div npp = Suc p" by (cases "(n + npp - 1) div npp") simp_all
  have "p * npp < n" using page_in_order[OF assms(1), of p n] p by simp
  moreover have "p \<le> p * npp" using assms(1) by simp
  ultimately show "(n + npp - 1) div npp \<le> n" using p by linarith
qed

section \<open>Opening and reading back\<close>

lemma packed_file_opens:
  assumes d: "outcomes d = []" "files d path = Some (packed_image base order meta page)" and fits: "header_fits meta"
    and meta: "gm_directory_offset meta = kRecordsOffset" "gm_vector_count meta = vs_size base"
  shows "\<exists>idx. PackedDiskGraphIndex path d = (Inr idx, d) \<and> pi_metadata idx = meta \<and> pr_path (pi_reader idx) = path \<and>
    pi_node_to_page idx = node_directory order (gm_nodes_per_page meta) (vs_size base) \<and>
    \<not> is_direct_enabled (pr_status (pi_reader idx)) \<and> pr_fd_open (pi_reader idx)"
proof -
  let ?dir = "node_directory order (gm_nodes_per_page meta) (vs_size base)"
  have "drop kRecordsOffset (packed_image base order meta page) =
      words_bytes ?dir @ replicate (gm_records_offset meta - (kRecordsOffset + 4 * vs_size base)) 0 @ concat (map page [0..<gm_page_count meta])"
    using header_length[of meta] by (simp add: packed_image_def kRecordsOffset_def)
  then have dir: "\<exists>rest. get_many get_word (vs_size base) (drop kRecordsOffset (packed_image base order meta page)) = Some (?dir, rest)"
    using get_many_words_bytes[of ?dir] by simp
  have header: "read_packed_metadata (packed_image base order meta page) = Inr meta"
    unfolding packed_image_def by (rule header_read[OF fits])
  show ?thesis
    using d header dir meta
    by (auto simp: PackedDiskGraphIndex_def AsyncPageReader_def reader_configure_def open_linux_fd_def try_open_linux_fd_def
        close_native_def file_exists_def default_status_def Let_def)
qed

lemma packed_page_slice:
  assumes "files d path = Some (packed_image base order meta page)" and "\<forall>p<gm_page_count meta. length (page p) = gm_page_size meta"
    and "kRecordsOffset + 4 * vs_size base \<le> gm_records_offset meta" and "p < gm_page_count meta"
  shows "file_slice path d (gm_records_offset meta + p * gm_page_size meta) (gm_page_size meta) = Some (page p)"
proof -
  define pad where "pad q = (if q < gm_page_count meta then page q else replicate (gm_page_size meta) 0)" for q
  have "concat (map page [0..<gm_page_count meta]) = concat (map pad [0..<gm_page_count meta])"
    by (intro arg_cong[where f = concat] map_cong) (simp_all add: pad_def)
  moreover have "length (pad q) = gm_page_size meta" for q using assms(2) by (simp add: pad_def)
  ultimately obtain rest where rest: "drop (p * gm_page_size meta) (concat (map page [0..<gm_page_count meta])) = page p @ rest"
    using drop_concat_slot[of pad "gm_page_size meta" p "gm_page_count meta"] assms(4) by (auto simp: pad_def)
  have "drop (gm_records_offset meta) (packed_image base order meta page) = concat (map page [0..<gm_page_count meta])"
    using header_length[of meta] assms(3) by (simp add: packed_image_def kRecordsOffset_def)
  then have "drop (gm_records_offset meta + p * gm_page_size meta) (packed_image base order meta page) = page p @ rest"
    using rest by (metis drop_drop add.commute)
  then show ?thesis using assms(1,2,4) by (simp add: file_slice_def file_bytes_def)
qed

lemma find_node_found:
  assumes "map dn_id (dp_nodes page) = ids" and "i \<in> set ids"
  shows "\<exists>k. find_node page i = Inr (dp_nodes page ! k) \<and> k < length ids \<and> ids ! k = i"
proof -
  have len: "length (dp_nodes page) = length ids" using arg_cong[OF assms(1), of length] by simp
  have nth: "dn_id (dp_nodes page ! j) = ids ! j" if "j < length (dp_nodes page)" for j
    using nth_map[OF that, of dn_id] by (simp only: assms(1))
  obtain k where k: "k < length ids" "ids ! k = i" using assms(2) by (metis in_set_conv_nth)
  show ?thesis
  proof (cases "find (\<lambda>node. dn_id node = i) (dp_nodes page)")
    case None
    then have "dn_id (dp_nodes page ! k) \<noteq> i" using k len by (simp add: find_None_iff)
    moreover have "dn_id (dp_nodes page ! k) = ids ! k" using nth[of k] k(1) len by simp
    ultimately show ?thesis using k(2) by simp
  next
    case (Some node)
    from iffD1[OF find_Some_iff this] obtain j
      where j: "j < length (dp_nodes page)" "dn_id (dp_nodes page ! j) = i" "node = dp_nodes page ! j" by blast
    have "find_node page i = Inr (dp_nodes page ! j)" by (simp add: find_node_def Some j(3))
    moreover have "ids ! j = i" using nth[OF j(1)] j(2) by simp
    ultimately show ?thesis using j(1) len by (intro exI[of _ j]) simp
  qed
qed

text \<open>What the packing needs besides the graph, and the metadata of a valid build.\<close>

definition packing_ready :: "vector_set \<Rightarrow> build_config \<Rightarrow> bool" where
  "packing_ready base config \<longleftrightarrow> bc_packing_strategy config \<in> {''random'', ''bfs'', ''coaccess''} \<or>
     bc_packing_strategy config = ''hotpath'' \<and>
     (\<exists>queries. bc_hotpath_queries config = Some queries \<and> \<not> vs_empty queries \<and> vs_dim queries = vs_dim base)"

lemma packed_order_returns:
  assumes "packing_ready base config"
  shows "\<exists>order stats'. packed_order rnd base graph config npp stats = (Inr order, stats')"
  using assms by (auto simp: packing_ready_def packed_order_def hotpath_order_def Let_def)

lemma check_packed_facts:
  assumes "check_packed_build base config = Inr npp"
  shows "0 < vs_size base" "vs_size base \<le> 2 ^ 32 - 1" "0 < bc_degree config" "4096 \<le> bc_page_size config" "0 < npp" "0 < vs_dim base"
    and "npp = packed_nodes_per_page (vs_dim base) (bc_degree config) (bc_page_size config) (model_code_bytes (bc_pq_model config))"
    and "0 < model_code_bytes (bc_pq_model config) \<Longrightarrow> vs_size base \<le> pq_vector_count (the (bc_pq_model config))"
  using assms by (auto simp: check_packed_build_def vs_empty_def vs_size_def Let_def split: if_splits)

lemma packed_metadata_fits:
  assumes "check_packed_build base config = Inr npp" and "bc_page_size config < 2 ^ 32"
  shows "header_fits (packed_metadata base config npp)"
    and "kRecordsOffset + 4 * vs_size base \<le> gm_records_offset (packed_metadata base config npp)"
    and "gm_records_offset (packed_metadata base config npp) < 2 ^ 41"
proof -
  note facts = check_packed_facts[OF assms(1)]
  let ?r = "4 * 2 + vs_dim base * 4 + bc_degree config * 4 + bc_degree config * model_code_bytes (bc_pq_model config)"
  have npp: "npp = (bc_page_size config - 4 * 2) div ?r" using facts(4,7) by (simp add: packed_nodes_per_page_def)
  then have rec: "?r \<le> bc_page_size config - 4 * 2" using facts(5) by (metis div_less not_le less_numeral_extra(3))
  have small: "npp \<le> bc_page_size config" unfolding npp by (meson div_le_dividend diff_le_self order.trans)
  have "model_code_bytes (bc_pq_model config) \<le> bc_degree config * model_code_bytes (bc_pq_model config)" using facts(3) by simp
  then have fields: "vs_dim base < 2 ^ 32" "bc_degree config < 2 ^ 32" "model_code_bytes (bc_pq_model config) < 2 ^ 32"
    using rec assms(2) by linarith+
  have "kRecordsOffset + vs_size base * 4 < 2 ^ 40" using facts(2) by (simp add: kRecordsOffset_def)
  note off = align_up_bounds[OF this, of "bc_page_size config"]
  have offset: "kRecordsOffset + vs_size base * 4 \<le> gm_records_offset (packed_metadata base config npp)"
    "gm_records_offset (packed_metadata base config npp) < 2 ^ 41"
    using off facts(4) assms(2) by (simp_all add: packed_metadata_def)
  then show "kRecordsOffset + 4 * vs_size base \<le> gm_records_offset (packed_metadata base config npp)"
    "gm_records_offset (packed_metadata base config npp) < 2 ^ 41" by simp_all
  have count: "gm_page_count (packed_metadata base config npp) \<le> vs_size base" "0 < gm_page_count (packed_metadata base config npp)"
    using page_count_le[OF facts(5,1)] by (simp_all add: packed_metadata_def)
  have "graph_record_bytes (vs_dim base) (bc_degree config) (model_code_bytes (bc_pq_model config)) \<le> bc_page_size config"
    unfolding graph_record_bytes_def using rec by linarith
  moreover have "0 < bc_page_size config" "npp < 2 ^ 32" "vs_size base < 2 ^ 32" using facts(2,4) small assms(2) by simp_all
  moreover have "gm_records_offset (packed_metadata base config npp) < 2 ^ 64" "gm_page_count (packed_metadata base config npp) < 2 ^ 32"
    using offset(2) count(1) facts(2) by simp_all
  moreover have "gm_directory_offset (packed_metadata base config npp) < 2 ^ 64"
    by (simp add: packed_metadata_def kRecordsOffset_def)
  ultimately show "header_fits (packed_metadata base config npp)"
    using facts fields count(2) assms(2) unfolding header_fits_def by (simp add: packed_metadata_def)
qed

lemma packed_pages_good:
  assumes "check_packed_build base config = Inr npp" and "distinct order" and "set order = {c. unat c < vs_size base}"
    and "length order = vs_size base" and "graph_ok (vs_size base) (bc_degree config) dead graph"
    and "bc_page_size config < 2 ^ 32" and "p < gm_page_count (packed_metadata base config npp)"
  shows "page_good (packed_metadata base config npp) (word_of_nat p) base graph order (bc_pq_model config)"
proof -
  note facts = check_packed_facts[OF assms(1)] and fits = packed_metadata_fits[OF assms(1,6)]
  have "unat (word_of_nat p :: u32) = p" using assms(7) fits(1) by (intro unat_word) (simp add: header_fits_def)
  moreover have "p * npp < vs_size base" using page_in_order[OF facts(5)] assms(7) by (simp add: packed_metadata_def)
  moreover have "length (graph ! i) \<le> bc_degree config" "- 1 \<notin> set (graph ! i)" if "i < vs_size base" for i
  proof -
    have ok: "list_ok (vs_size base) (bc_degree config) dead i (graph ! i)" by (rule graph_ok_nth[OF assms(5) that])
    then show "length (graph ! i) \<le> bc_degree config" by (simp add: list_ok_def)
    have "unat (- 1 :: u32) = 2 ^ 32 - 1" by (simp add: unsigned_minus_1_eq_mask mask_eq_exp_minus_1)
    then show "- 1 \<notin> set (graph ! i)" using ok facts(2) by (auto simp: list_ok_def)
  qed
  moreover have "bc_degree config < 2 ^ 32" using fits(1) by (simp add: header_fits_def packed_metadata_def)
  ultimately show ?thesis
    using facts assms(3,4) by (auto simp: page_good_def packed_metadata_def model_code_bytes_def intro: le_less_trans)
qed

definition node_read_back ::
  "vector_set \<Rightarrow> adjacency \<Rightarrow> pq_encoder option \<Rightarrow> packed_index \<Rightarrow> disk \<Rightarrow> nat \<Rightarrow> bool" where
  "node_read_back base graph pq_model idx d i \<longleftrightarrow> (\<forall>s. \<exists>page node s'.
     read_page idx (pi_node_to_page idx ! i) s d = (Inr page, s', d) \<and> find_node page (word_of_nat i) = Inr node \<and>
     dn_neighbors node = graph ! i \<and> vector_data (pi_metadata idx) page node = Inr (row_values base i) \<and>
     dn_neighbor_pq_codes node =
       concat (map (\<lambda>neighbor. map (code_at (the pq_model) neighbor) [0..<model_code_bytes pq_model]) (graph ! i)))"

lemma page_offset_unat:
  assumes "gm_records_offset meta + gm_page_count meta * gm_page_size meta < 2 ^ 64" and "p < gm_page_count meta"
    and "gm_page_count meta < 2 ^ 32" and "pi_metadata idx = meta"
  shows "unat (page_offset idx (word_of_nat p)) = gm_records_offset meta + p * gm_page_size meta"
proof -
  have p: "unat (word_of_nat p :: u32) = p" using assms(2,3) by (intro unat_word) simp
  then have "page_offset idx (word_of_nat p) = word_of_nat (gm_records_offset meta + p * gm_page_size meta)"
    using of_nat_unat[of "word_of_nat p :: u32", where 'a = "64 word"] by (simp add: page_offset_def assms(4))
  moreover have "p * gm_page_size meta \<le> gm_page_count meta * gm_page_size meta" using assms(2) by simp
  then have "gm_records_offset meta + p * gm_page_size meta < 2 ^ 64" using assms(1) by linarith
  ultimately show ?thesis by (simp only: unat_word(2))
qed

lemma node_reads:
  assumes check: "check_packed_build base config = Inr npp" and order: "distinct order" "set order = {c. unat c < vs_size base}"
      "length order = vs_size base" and graph: "graph_ok (vs_size base) (bc_degree config) dead graph"
    and small: "bc_page_size config < 2 ^ 32" and meta: "meta = packed_metadata base config npp"
    and file_end: "gm_records_offset meta + gm_page_count meta * gm_page_size meta < 2 ^ 64"
    and d: "outcomes d = []" "files d path = Some (packed_image base order meta page)"
    and idx: "pi_metadata idx = meta" "pr_path (pi_reader idx) = path"
      "pi_node_to_page idx = node_directory order npp (vs_size base)" "\<not> is_direct_enabled (pr_status (pi_reader idx)) \<and> pr_fd_open (pi_reader idx)"
    and pages: "\<forall>p<gm_page_count meta. encode_packed_page (word_of_nat p) base graph order npp
      (bc_page_size config) (bc_degree config) (bc_pq_model config) = Inr (page p)"
    and i: "i < vs_size base"
  shows "node_read_back base graph (bc_pq_model config) idx d i"
proof -
  note facts = check_packed_facts[OF check] and fits = packed_metadata_fits[OF check small, folded meta]
  have fields: "gm_nodes_per_page meta = npp" "gm_page_size meta = bc_page_size config" "gm_degree meta = bc_degree config"
    "gm_neighbor_pq_code_bytes meta = model_code_bytes (bc_pq_model config)"
    "gm_page_count meta = (vs_size base + npp - 1) div npp" by (simp_all add: meta packed_metadata_def)
  have count: "gm_page_count meta < 2 ^ 32" using fits(1) by (simp add: header_fits_def)
  have i_word: "unat (word_of_nat i :: u32) = i" using i facts(2) by (simp add: index_word)
  then have "word_of_nat i \<in> set order" using i order(2) by simp
  then obtain k where k: "k < length order" "order ! k = word_of_nat i" by (metis in_set_conv_nth)
  define p where "p = k div npp"
  have p: "p < gm_page_count meta" using page_position[OF facts(5)] k(1) order(3) by (simp add: p_def fields)
  have p_word: "unat (word_of_nat p :: u32) = p" using p count by (intro unat_word) simp
  have "node_directory order npp (vs_size base) ! unat (order ! k) = word_of_nat (k div npp)"
    by (rule node_directory_at[OF order(1) _ k(1)]) (use order(2) in blast)
  then have at: "pi_node_to_page idx ! i = word_of_nat p" using k(2) i_word by (simp add: idx(3) p_def)
  have roundtrip: "\<exists>decoded. length (page q) = gm_page_size meta \<and> decode_packed_page meta (word_of_nat q) (page q) = Inr decoded \<and>
      map dn_id (dp_nodes decoded) = page_nodes meta (word_of_nat q) order \<and>
      map dn_neighbors (dp_nodes decoded) = map (\<lambda>i. graph ! unat i) (page_nodes meta (word_of_nat q) order) \<and>
      map (vector_data meta decoded) (dp_nodes decoded) = map (\<lambda>i. Inr (row_values base (unat i))) (page_nodes meta (word_of_nat q) order) \<and>
      map dn_neighbor_pq_codes (dp_nodes decoded) =
        map (\<lambda>i. concat (map (\<lambda>neighbor. map (code_at (the (bc_pq_model config)) neighbor) [0..<gm_neighbor_pq_code_bytes meta])
          (graph ! unat i))) (page_nodes meta (word_of_nat q) order)" if q: "q < gm_page_count meta" for q
  proof -
    have "page_good meta (word_of_nat q) base graph order (bc_pq_model config)"
      using packed_pages_good[OF check order graph small] q by (simp add: meta)
    from packed_page_roundtrip[OF this] pages q show ?thesis by (auto simp: fields(1-3))
  qed
  from roundtrip[OF p] obtain decoded where
    dec: "decode_packed_page meta (word_of_nat p) (page p) = Inr decoded"
    and ids: "map dn_id (dp_nodes decoded) = page_nodes meta (word_of_nat p) order"
    and neighbors: "map dn_neighbors (dp_nodes decoded) = map (\<lambda>i. graph ! unat i) (page_nodes meta (word_of_nat p) order)"
    and vectors: "map (vector_data meta decoded) (dp_nodes decoded) = map (\<lambda>i. Inr (row_values base (unat i))) (page_nodes meta (word_of_nat p) order)"
    and codes: "map dn_neighbor_pq_codes (dp_nodes decoded) =
        map (\<lambda>i. concat (map (\<lambda>neighbor. map (code_at (the (bc_pq_model config)) neighbor) [0..<gm_neighbor_pq_code_bytes meta])
          (graph ! unat i))) (page_nodes meta (word_of_nat p) order)" by blast
  have "p * npp + k mod npp = k" by (simp add: p_def)
  then have "page_nodes meta (word_of_nat p) order ! (k mod npp) = word_of_nat i" "k mod npp < length (page_nodes meta (word_of_nat p) order)"
    using k facts(5) \<open>p * npp + k mod npp = k\<close> by (simp_all add: page_nodes_def fields p_word)
  then have "word_of_nat i \<in> set (page_nodes meta (word_of_nat p) order)" by (metis nth_mem)
  from find_node_found[OF ids this] obtain j where j: "find_node decoded (word_of_nat i) = Inr (dp_nodes decoded ! j)"
    "j < length (page_nodes meta (word_of_nat p) order)" "page_nodes meta (word_of_nat p) order ! j = word_of_nat i" by blast
  have len: "j < length (dp_nodes decoded)" using arg_cong[OF ids, of length] j(2) by simp
  have node: "dn_neighbors (dp_nodes decoded ! j) = graph ! i" "vector_data meta decoded (dp_nodes decoded ! j) = Inr (row_values base i)"
    "dn_neighbor_pq_codes (dp_nodes decoded ! j) =
      concat (map (\<lambda>neighbor. map (code_at (the (bc_pq_model config)) neighbor) [0..<model_code_bytes (bc_pq_model config)]) (graph ! i))"
    using nth_map[OF len, of dn_neighbors] nth_map[OF len, of "vector_data meta decoded"] nth_map[OF len, of dn_neighbor_pq_codes]
      neighbors vectors codes j(2,3) i_word fields(4) by simp_all
  have "file_slice path d (gm_records_offset meta + p * gm_page_size meta) (gm_page_size meta) = Some (page p)"
    by (rule packed_page_slice[OF d(2) _ fits(2) p]) (use roundtrip in blast)
  then have "file_slice (pr_path (pi_reader idx)) d (unat (page_offset idx (word_of_nat p))) (gm_page_size meta) = Some (page p)"
    by (simp add: idx(2) page_offset_unat[OF file_end p count idx(1)])
  note slice = this
  have "\<exists>s'. read_page idx (word_of_nat p) s d = (Inr decoded, s', d)" for s
  proof -
    obtain s' where "reader_read (page_offset idx (word_of_nat p)) (gm_page_size meta) (pi_reader idx) s d = (Inr (page p), s', d)"
      using reader_read_reliable[OF d(1) slice, of s] idx(4) by blast
    then show ?thesis using p p_word dec idx(1) by (simp add: read_page_def)
  qed
  then show ?thesis unfolding node_read_back_def at using j(1) node idx(1) by (intro allI) metis
qed

lemma build_parts:
  assumes check: "check_packed_build base config = Inr npp" and ready: "packing_ready base config"
    and perm: "\<And>seed xs. mset (br_shuffle rnd seed xs) = mset xs" and small: "bc_page_size config < 2 ^ 32"
    and built: "build_graph rnd base config stats em = (Inr graph, stats1, em')"
    and ok: "graph_ok (vs_size base) (bc_degree config) (set (bc_deleted_ids config)) graph"
    and d: "outcomes d = []"
  shows "\<exists>order stats2 page d'. packed_build rnd base path config stats em d = (Inr (), stats2, em', d') \<and> outcomes d' = [] \<and>
    files d' path = Some (packed_image base order (packed_metadata base config npp) page) \<and> distinct order \<and>
    set order = {c. unat c < vs_size base} \<and> length order = vs_size base \<and>
    (\<forall>p<gm_page_count (packed_metadata base config npp). encode_packed_page (word_of_nat p) base graph order npp
      (bc_page_size config) (bc_degree config) (bc_pq_model config) = Inr (page p))"
proof -
  note facts = check_packed_facts[OF check] and fits = packed_metadata_fits[OF check small]
  let ?meta = "packed_metadata base config npp"
  obtain order stats2 where order: "packed_order rnd base graph config npp stats1 = (Inr order, stats2)"
    using packed_order_returns[OF ready] by blast
  have len: "length graph = vs_size base" by (rule graph_ok_length[OF ok])
  have "packs_all (length graph) order" by (rule packed_order_perm[OF order _ perm]) (use len facts(2) in simp)
  then have all: "distinct order" "set order = {c. unat c < vs_size base}" "length order = vs_size base"
    using packs_length[of "length graph" order] facts(2) len by (simp_all add: packs_all_def)
  have "\<exists>bs. encode_packed_page (word_of_nat p) base graph order npp (bc_page_size config) (bc_degree config) (bc_pq_model config) = Inr bs"
    if "p < gm_page_count ?meta" for p
    using packed_page_roundtrip[OF packed_pages_good[OF check all ok small that]] by (auto simp: packed_metadata_def)
  then obtain page where pages: "\<forall>p<gm_page_count ?meta. encode_packed_page (word_of_nat p) base graph order npp
      (bc_page_size config) (bc_degree config) (bc_pq_model config) = Inr (page p)" by metis
  have npp: "gm_nodes_per_page ?meta = npp" by (simp add: packed_metadata_def)
  have bounds: "vs_size base < 2 ^ 32" "gm_records_offset ?meta < 2 ^ 64" "\<not> 2 ^ 32 - 1 < gm_page_count ?meta"
    using facts(2) fits(1) by (simp_all add: header_fits_def)
  note written = write_packed_reliable[of "put_file path [] d" path base ?meta graph order config page, OF _ _ bounds(1) fits(2) bounds(2)]
  have "write_packed_file base graph order ?meta config \<lparr>os_path = path, os_pending = [], os_good = True\<rparr> (put_file path [] d) =
      (Inr (), \<lparr>os_path = path, os_pending = packed_image base order ?meta page, os_good = True\<rparr>, put_file path [] d)"
    by (rule written) (use d pages npp in simp_all)
  then have "packed_build rnd base path config stats em d =
      (Inr (), stats2, em', put_file path (packed_image base order ?meta page) (put_file path [] d))"
    using check built order all(3) bounds(3) d by (simp add: packed_build_def os_destroy_def Let_def)
  then show ?thesis using d all pages by auto
qed

text \<open>
  C11: building and opening. On a disk that does not fail, for a valid configuration and whatever
  graph and packing policy, the packed builder returns, its file opens in \<open>PackedDiskGraphIndex\<close>
  with the metadata of the build, the graph is well formed, and every node is read back from the
  page the directory names: its neighbours, its vector bit for bit, the codes of its neighbours.
\<close>

theorem packed_build_opens:
  assumes "check_packed_build base config = Inr npp" and "validate_build_policy config = Inr ()" and "packing_ready base config"
    and "\<And>seed xs. mset (br_shuffle rnd seed xs) = mset xs" and "epoch_ok em"
    and "bc_build_policy config = ''vamana'' \<Longrightarrow> \<exists>m. find_medoid (vamana_config_of config) base = Inr m"
    and "bc_page_size config < 2 ^ 32" and "outcomes d = []"
    and "gm_records_offset (packed_metadata base config npp) +
      gm_page_count (packed_metadata base config npp) * bc_page_size config < 2 ^ 64"
  shows "\<exists>graph stats1 em' stats2 d' idx. build_graph rnd base config stats em = (Inr graph, stats1, em') \<and>
    graph_ok (vs_size base) (bc_degree config) (set (bc_deleted_ids config)) graph \<and>
    packed_build rnd base path config stats em d = (Inr (), stats2, em', d') \<and>
    PackedDiskGraphIndex path d' = (Inr idx, d') \<and> pi_metadata idx = packed_metadata base config npp \<and>
    (\<forall>i<vs_size base. node_read_back base graph (bc_pq_model config) idx d' i)"
proof -
  note facts = check_packed_facts[OF assms(1)] and fits = packed_metadata_fits[OF assms(1,7)]
  let ?meta = "packed_metadata base config npp"
  obtain graph stats1 em' where built: "build_graph rnd base config stats em = (Inr graph, stats1, em')"
    "graph_ok (vs_size base) (bc_degree config) (set (bc_deleted_ids config)) graph"
    using build_graph_ok[OF assms(2) facts(3,2) assms(4-6)] by blast
  obtain order stats2 page d' where parts: "packed_build rnd base path config stats em d = (Inr (), stats2, em', d')"
    "outcomes d' = []" "files d' path = Some (packed_image base order ?meta page)" "distinct order"
    "set order = {c. unat c < vs_size base}" "length order = vs_size base"
    "\<forall>p<gm_page_count ?meta. encode_packed_page (word_of_nat p) base graph order npp
      (bc_page_size config) (bc_degree config) (bc_pq_model config) = Inr (page p)"
    using build_parts[OF assms(1,3,4,7) built assms(8)] by blast
  have meta: "gm_directory_offset ?meta = kRecordsOffset" "gm_vector_count ?meta = vs_size base" "gm_nodes_per_page ?meta = npp"
    "gm_page_size ?meta = bc_page_size config" by (simp_all add: packed_metadata_def)
  obtain idx where idx: "PackedDiskGraphIndex path d' = (Inr idx, d')" "pi_metadata idx = ?meta" "pr_path (pi_reader idx) = path"
    "pi_node_to_page idx = node_directory order npp (vs_size base)" "\<not> is_direct_enabled (pr_status (pi_reader idx)) \<and> pr_fd_open (pi_reader idx)"
    using packed_file_opens[OF parts(2,3) fits(1) meta(1,2)] meta(3) by auto
  have "node_read_back base graph (bc_pq_model config) idx d' i" if "i < vs_size base" for i
    by (rule node_reads[OF assms(1) parts(4-6) built(2) assms(7) refl _ parts(2,3) idx(2-5) parts(7) that])
      (use assms(9) meta(4) in simp)
  then show ?thesis using built parts(1) idx(1,2) by blast
qed

section \<open>A concrete build\<close>

lemma demo_build_checks: "check_packed_build vamana_demo_vectors demo_build = Inr 204"
  by (simp add: check_packed_build_def demo_build_def vs_empty_def model_code_bytes_def packed_nodes_per_page_def)

lemma demo_build_meta:
  "gm_page_count (packed_metadata vamana_demo_vectors demo_build 204) = 1"
  "gm_records_offset (packed_metadata vamana_demo_vectors demo_build 204) = 8192"
proof -
  have "unat (align_up 4104 4096) = 8192" by code_simp
  then show "gm_records_offset (packed_metadata vamana_demo_vectors demo_build 204) = 8192"
    by (simp add: packed_metadata_def kRecordsOffset_def demo_build_def)
qed (simp add: packed_metadata_def)

theorem packed_build_opens_witness:
  "\<exists>graph stats1 em' stats2 d' idx.
    build_graph \<lparr>br_draw = (\<lambda>seed k. k mod 2), br_shuffle = (\<lambda>seed. rev)\<rparr> vamana_demo_vectors demo_build None
      \<lparr>em_visited_epoch = [], em_current_epoch = 0\<rparr> = (Inr graph, stats1, em') \<and> graph_ok 2 2 {1} graph \<and>
    packed_build \<lparr>br_draw = (\<lambda>seed k. k mod 2), br_shuffle = (\<lambda>seed. rev)\<rparr> vamana_demo_vectors ''g.bin'' demo_build None
      \<lparr>em_visited_epoch = [], em_current_epoch = 0\<rparr> empty_disk = (Inr (), stats2, em', d') \<and>
    PackedDiskGraphIndex ''g.bin'' d' = (Inr idx, d') \<and>
    pi_metadata idx = packed_metadata vamana_demo_vectors demo_build 204 \<and>
    (\<forall>i<2. node_read_back vamana_demo_vectors graph None idx d' i)"
proof -
  let ?rnd = "\<lparr>br_draw = (\<lambda>seed k. k mod 2), br_shuffle = (\<lambda>seed. rev)\<rparr>"
  have perm: "\<And>seed xs. mset (br_shuffle ?rnd seed xs) = mset xs" by simp
  have config: "bc_page_size demo_build = 4096" "bc_build_policy demo_build = ''lsh-vamana''" "bc_pq_model demo_build = None"
    "bc_degree demo_build = 2" "bc_deleted_ids demo_build = [1]" by (simp_all add: demo_build_def)
  have "packing_ready vamana_demo_vectors demo_build" by (simp add: packing_ready_def demo_build_def)
  from packed_build_opens[OF demo_build_checks demo_build_valid this perm, of "\<lparr>em_visited_epoch = [], em_current_epoch = 0\<rparr>" empty_disk
      None "''g.bin''"]
  show ?thesis by (simp add: epoch_ok_def empty_disk_def config demo_build_meta)
qed

end
