(* ===== verification/NaiveIndex.thy ===== *)
theory NaiveIndex
  imports PackedBuild SearchProps
begin

text \<open>
  The one-page-per-node graph index: \<open>NaiveDiskGraphBuilder::build\<close> of
  \<open>src/graph/disk_graph_builder.cpp\<close> and \<open>src/graph/naive_disk_graph_index.cpp\<close>. It has no
  page cache and no sessions; a query keeps the nodes it has read. Its search shares the beam of
  \<open>GraphSearch\<close> but scores, pushes and expands one node at a time, with exact distances when
  there is no quantiser.
\<close>

section \<open>The builder\<close>

definition kMagic :: bytes where
  "kMagic = [65, 77, 70, 71, 86, 49, 0, 0]"

definition kVersion :: u32 where
  "kVersion = 1"

definition check_naive_build :: "vector_set \<Rightarrow> build_config \<Rightarrow> nat result" where
  "check_naive_build base config =
     (if vs_empty base then Inl (Runtime_error ''Cannot build graph index for empty base vectors'')
      else if 2 ^ 32 - 1 < vs_size base then Inl (Runtime_error ''V1 graph index supports at most uint32_t ids'')
      else if bc_degree config = 0 then Inl (Runtime_error ''Graph degree must be positive'')
      else if bc_page_size config < kRecordsOffset
      then Inl (Runtime_error ''Page size must be at least 4096 bytes in V1'')
      else (let pq_code_bytes = model_code_bytes (bc_pq_model config)
            in if 0 < pq_code_bytes \<and> pq_vector_count (the (bc_pq_model config)) < vs_size base
               then Inl (Runtime_error ''PQ model does not cover graph base vectors'')
               else if bc_page_size config < graph_record_bytes (vs_dim base) (bc_degree config) pq_code_bytes
               then Inl (Runtime_error ''Node record does not fit in configured page size'')
               else Inr pq_code_bytes))"

definition naive_header :: "vector_set \<Rightarrow> build_config \<Rightarrow> nat \<Rightarrow> bytes list" where
  "naive_header base config pq_code_bytes =
     [kMagic, enc_word kVersion, enc_word (word_of_nat (vs_size base) :: u64),
      enc_word (word_of_nat (vs_dim base) :: u32), enc_word (word_of_nat (bc_degree config) :: u32),
      enc_word (word_of_nat (bc_page_size config) :: u32), enc_word (word_of_nat kRecordsOffset :: u64),
      enc_word (word_of_nat pq_code_bytes :: u32)]"

text \<open>The vector is copied without a check: the record fits the page.\<close>

definition put_row :: "vector_set \<Rightarrow> nat \<Rightarrow> bytes \<times> nat \<Rightarrow> (bytes \<times> nat) result" where
  "put_row base i = (\<lambda>(page, offset).
     seq_result (vs_row base i) (\<lambda>row.
       Inr (take offset page @ words_bytes row @ drop (offset + vs_dim base * 4) page, offset + vs_dim base * 4)))"

definition encode_naive_page :: "vector_set \<Rightarrow> adjacency \<Rightarrow> build_config \<Rightarrow> nat \<Rightarrow> nat \<Rightarrow> bytes result" where
  "encode_naive_page base graph config pq_code_bytes i =
     (let node = Some (word_of_nat i :: u32)
      in seq_result (put_bytes (enc_word (word_of_nat i :: u32)) (replicate (bc_page_size config) 0, 0)) (\<lambda>s.
         seq_result (put_bytes (enc_word (word_of_nat (length (graph ! i)) :: u32)) s) (\<lambda>s.
         seq_result (put_row base i s) (\<lambda>s.
         seq_result (fold_result (\<lambda>s n. put_bytes (enc_word (neighbor_at graph node n)) s) s [0..<bc_degree config]) (\<lambda>s.
         seq_result (if 0 < pq_code_bytes
           then fold_result (\<lambda>s n. fold_result (\<lambda>s b.
             put_bytes (enc_word (code_at (the (bc_pq_model config)) (neighbor_at graph node n) b)) s)
             s [0..<pq_code_bytes]) s [0..<bc_degree config]
           else Inr s) (\<lambda>(page, offset). Inr page))))))"

fun write_nodes ::
  "vector_set \<Rightarrow> adjacency \<Rightarrow> build_config \<Rightarrow> nat \<Rightarrow> nat list \<Rightarrow> ofstream \<Rightarrow> disk \<Rightarrow> unit result \<times> ofstream \<times> disk" where
  "write_nodes base graph config pq_code_bytes [] os d = (Inr (), os, d)"
| "write_nodes base graph config pq_code_bytes (i # is) os d =
     (case encode_naive_page base graph config pq_code_bytes i of
        Inl e \<Rightarrow> (Inl e, os, d)
      | Inr page \<Rightarrow>
          (let (os, d) = os_write page os d
           in if \<not> os_good os then (Inl (Runtime_error ''Failed while writing graph node page''), os, d)
              else write_nodes base graph config pq_code_bytes is os d))"

definition write_naive_file ::
  "vector_set \<Rightarrow> adjacency \<Rightarrow> build_config \<Rightarrow> nat \<Rightarrow> ofstream \<Rightarrow> disk \<Rightarrow> unit result \<times> ofstream \<times> disk" where
  "write_naive_file base graph config pq_code_bytes os d =
     (let (os, d) = os_writes (naive_header base config pq_code_bytes) os d;
          header_pos = stream_pos os d
      in if \<not> os_good os then (Inl (Runtime_error ''Failed to write graph index''), os, d)
         else if word_of_nat kRecordsOffset < header_pos
         then (Inl (Runtime_error ''Graph header exceeds reserved header page''), os, d)
         else (let (os, d) = os_write (replicate (kRecordsOffset - unat header_pos) 0) os d
               in write_nodes base graph config pq_code_bytes [0..<vs_size base] os d))"

definition naive_build ::
  "build_random \<Rightarrow> vector_set \<Rightarrow> string \<Rightarrow> build_config \<Rightarrow> epoch_marks \<Rightarrow> disk \<Rightarrow> unit result \<times> epoch_marks \<times> disk" where
  "naive_build rnd base path config em d =
     (case check_naive_build base config of
        Inl e \<Rightarrow> (Inl e, em, d)
      | Inr pq_code_bytes \<Rightarrow>
     (case build_graph rnd base config None em of
        (Inl e, _, em) \<Rightarrow> (Inl e, em, d)
      | (Inr graph, _, em) \<Rightarrow>
          (let (os, d) = os_open True path d
           in if \<not> os_good os then (Inl (Runtime_error ''Cannot create graph index''), em, d)
              else (let (result, os, d) = write_naive_file base graph config pq_code_bytes os d
                    in (result, em, os_destroy os d)))))"

section \<open>The index\<close>

record naive_index =
  ni_reader :: page_reader
  ni_metadata :: graph_metadata

definition read_naive_metadata :: "bytes \<Rightarrow> graph_metadata result" where
  "read_naive_metadata bs =
     (if length bs < 8 \<or> take 8 bs \<noteq> kMagic then Inl (Runtime_error ''Invalid graph index magic'')
      else
        seq_result (read_value (drop 8 bs)) (\<lambda>(version :: u32, bs).
        if version \<noteq> kVersion then Inl (Runtime_error ''Unsupported graph index version'')
        else
          seq_result (read_value bs) (\<lambda>(vector_count :: u64, bs).
          seq_result (read_value bs) (\<lambda>(dim :: u32, bs).
          seq_result (read_value bs) (\<lambda>(degree :: u32, bs).
          seq_result (read_value bs) (\<lambda>(page_size :: u32, bs).
          seq_result (read_value bs) (\<lambda>(records_offset :: u64, bs).
          seq_result (read_value bs) (\<lambda>(neighbor_pq_code_bytes :: u32, bs).
          let meta = \<lparr>gm_vector_count = unat vector_count, gm_dim = unat dim, gm_degree = unat degree,
                gm_page_size = unat page_size, gm_records_offset = unat records_offset, gm_directory_offset = 0,
                gm_page_count = unat vector_count, gm_nodes_per_page = 1,
                gm_neighbor_pq_code_bytes = unat neighbor_pq_code_bytes\<rparr>
          in if vector_count = 0 \<or> dim = 0 \<or> degree = 0 \<or> page_size = 0
             then Inl (Runtime_error ''Graph index metadata is invalid'')
             else if gm_page_size meta < graph_record_bytes (gm_dim meta) (gm_degree meta) (gm_neighbor_pq_code_bytes meta)
             then Inl (Runtime_error ''Graph index record is larger than page size'')
             else Inr meta))))))))"

definition NaiveDiskGraphIndex :: "string \<Rightarrow> disk \<Rightarrow> naive_index result \<times> disk" where
  "NaiveDiskGraphIndex path d =
     (let (content, d) = read_file path d
      in case content of
           None \<Rightarrow> (Inl (Runtime_error ''Cannot open graph index''), d)
         | Some bs \<Rightarrow>
             (case read_naive_metadata bs of
                Inl e \<Rightarrow> (Inl e, d)
              | Inr meta \<Rightarrow>
                  (let (opened, reader, d) = AsyncPageReader path (gm_page_size meta) d
                   in case opened of
                        Inl e \<Rightarrow> (Inl e, d)
                      | Inr _ \<Rightarrow> (Inr \<lparr>ni_reader = reader, ni_metadata = meta\<rparr>, d))))"

definition naive_configure_io :: "string \<Rightarrow> nat \<Rightarrow> nat \<Rightarrow> naive_index \<Rightarrow> disk \<Rightarrow> unit result \<times> naive_index \<times> disk" where
  "naive_configure_io mode batch_size io_depth idx d =
     (let (r, reader, d) = reader_configure mode batch_size io_depth (ni_reader idx) d
      in (r, idx\<lparr>ni_reader := reader\<rparr>, d))"

text \<open>
  The body of \<open>read_node\<close> after the page is read. The vector is copied without a check; the
  constructor has made sure that it lies inside the page.
\<close>

definition decode_naive_node :: "graph_metadata \<Rightarrow> u32 \<Rightarrow> bytes \<Rightarrow> disk_node result" where
  "decode_naive_node meta node_id page =
     seq_result (get_bytes page 0) (\<lambda>(stored_id :: u32, cursor).
     seq_result (get_bytes page cursor) (\<lambda>(degree :: u32, cursor).
     if stored_id \<noteq> node_id \<or> gm_degree meta < unat degree then Inl (Runtime_error ''Corrupted graph node page'')
     else
       seq_result (get_list (\<lambda>_. get_bytes page) [0..<gm_dim meta] cursor) (\<lambda>(vector :: f32 list, cursor).
       seq_result (get_list (\<lambda>_. get_bytes page) [0..<gm_degree meta] cursor) (\<lambda>(neighbors :: u32 list, cursor).
       seq_result (if 0 < gm_neighbor_pq_code_bytes meta
         then get_list (\<lambda>_. get_list (\<lambda>_. get_bytes page) [0..<gm_neighbor_pq_code_bytes meta]) [0..<gm_degree meta] cursor
         else Inr ([], cursor)) (\<lambda>(codes :: u8 list list, cursor).
       Inr \<lparr>dn_id = stored_id, dn_neighbors = stored_neighbors degree neighbors,
         dn_neighbor_pq_codes = stored_codes degree (gm_neighbor_pq_code_bytes meta) (concat codes),
         dn_vector = vector, dn_vector_offset = 0\<rparr>)))))"

definition naive_offset :: "naive_index \<Rightarrow> u32 \<Rightarrow> u64" where
  "naive_offset idx node_id =
     word_of_nat (gm_records_offset (ni_metadata idx)) + ucast node_id * word_of_nat (gm_page_size (ni_metadata idx))"

definition naive_read_node :: "naive_index \<Rightarrow> u32 \<Rightarrow> search_stats \<Rightarrow> disk \<Rightarrow> disk_node result \<times> search_stats \<times> disk" where
  "naive_read_node idx node_id s d =
     (if gm_vector_count (ni_metadata idx) \<le> unat node_id
      then (Inl (Runtime_error ''Graph node id out of range''), s, d)
      else (let s = bump_all [Page_requests, Page_requests_before_dedup, Page_requests_after_dedup,
                  Page_cache_misses, Demand_reads] s;
                (page, s, d) = reader_read (naive_offset idx node_id) (gm_page_size (ni_metadata idx)) (ni_reader idx) s d
            in (seq_result page (decode_naive_node (ni_metadata idx) node_id), s, d)))"

section \<open>The search\<close>

text \<open>What a query changes: the counters, the nodes it has read, and the disk.\<close>

record naive_run =
  nr_index :: naive_index
  nr_stats :: search_stats
  nr_local_nodes :: "(u32, disk_node) umap"
  nr_disk :: disk

type_synonym 'a naive_op = "(naive_run, 'a) stateful"

definition load_node :: "u32 \<Rightarrow> disk_node naive_op" where
  "load_node node_id s =
     (case um_find (nr_local_nodes s) node_id of
        Some node \<Rightarrow> (Inr node, s)
      | None \<Rightarrow>
          (let (read, stats, d) = naive_read_node (nr_index s) node_id (nr_stats s) (nr_disk s);
               s = s\<lparr>nr_stats := stats, nr_disk := d\<rparr>
           in case read of
                Inl e \<Rightarrow> (Inl e, s)
              | Inr node \<Rightarrow> (Inr node, s\<lparr>nr_stats := bump Node_reads 1 stats,
                  nr_local_nodes := um_assign node_id node (nr_local_nodes s)\<rparr>)))"

definition naive_count :: "counter \<Rightarrow> nat \<Rightarrow> unit naive_op" where
  "naive_count c n = upd (\<lambda>s. s\<lparr>nr_stats := bump c n (nr_stats s)\<rparr>)"

definition naive_exact_distance :: "f32 list \<Rightarrow> u32 \<Rightarrow> f32 naive_op" where
  "naive_exact_distance query node_id =
     then_do (load_node node_id) (\<lambda>node s.
       ret (squared_l2 query (dn_vector node) (gm_dim (ni_metadata (nr_index s)))) s)"

definition naive_candidate_distance :: "search_setup \<Rightarrow> f32 list \<Rightarrow> u32 \<Rightarrow> f32 naive_op" where
  "naive_candidate_distance su query node_id =
     (if su_adc_table su \<noteq> []
      then then_do (naive_count Pq_filter_accept_count 1) (\<lambda>_.
             lift_result (adc_distance (the (gc_pq_model (su_config su))) node_id (su_adc_table su)))
      else naive_exact_distance query node_id)"

text \<open>Entry points and neighbours are treated alike: out of range or seen before, they are skipped.\<close>

definition visit_node :: "search_setup \<Rightarrow> f32 list \<Rightarrow> beam \<Rightarrow> u32 \<Rightarrow> beam naive_op" where
  "visit_node su query b node_id =
     (if su_vector_count su \<le> unat node_id \<or> node_id \<in> set (bm_visited b) then ret b
      else then_do (naive_candidate_distance su query node_id) (\<lambda>distance.
        ret (push_candidate su (b\<lparr>bm_visited := node_id # bm_visited b\<rparr>) \<lparr>sr_id = node_id, sr_distance = distance\<rparr>)))"

fun visit_nodes :: "search_setup \<Rightarrow> f32 list \<Rightarrow> beam \<Rightarrow> u32 list \<Rightarrow> beam naive_op" where
  "visit_nodes su query b [] = ret b"
| "visit_nodes su query b (i # is) = then_do (visit_node su query b i) (\<lambda>b. visit_nodes su query b is)"

definition naive_expand :: "search_setup \<Rightarrow> f32 list \<Rightarrow> beam \<Rightarrow> beam naive_op" where
  "naive_expand su query b =
     (let current = last (bm_candidates b)
      in then_do (load_node (sr_id current)) (\<lambda>node.
         then_do (visit_nodes su query (b\<lparr>bm_candidates := butlast (bm_candidates b), bm_expanded := bm_expanded b + 1\<rparr>)
           (dn_neighbors node)) (\<lambda>b. ret (update_adaptive_stop su b))))"

text \<open>
  One round of at most \<open>width\<close> expansions; the number of them and the beam. An early stop drops
  the candidates, which also ends the outer loop.
\<close>

fun naive_round :: "search_setup \<Rightarrow> f32 list \<Rightarrow> nat \<Rightarrow> beam \<Rightarrow> (nat \<times> beam) naive_op" where
  "naive_round su query 0 b = ret (0, b)"
| "naive_round su query (Suc n) b =
     (if \<not> search_continues su b then ret (0, b)
      else if update_frontier su b then ret (0, b\<lparr>bm_candidates := []\<rparr>)
      else then_do (naive_expand su query b) (\<lambda>b.
           then_do (naive_round su query n b) (\<lambda>(expanded, b). ret (Suc expanded, b))))"

definition naive_count_batch :: "nat \<Rightarrow> unit naive_op" where
  "naive_count_batch n = upd (\<lambda>s. if n = 0 then s else s\<lparr>nr_stats :=
     (bump_all [Batch_count] (bump Batch_expanded n (nr_stats s)))(Max_batch_size := max (nr_stats s Max_batch_size) n)\<rparr>)"

text \<open>Every round expands a node or drops the candidates: \<open>search_width\<close> rounds are enough.\<close>

fun naive_rounds :: "search_setup \<Rightarrow> f32 list \<Rightarrow> nat \<Rightarrow> nat \<Rightarrow> beam \<Rightarrow> beam naive_op" where
  "naive_rounds su query width 0 b = ret b"
| "naive_rounds su query width (Suc n) b =
     (if \<not> search_continues su b then ret b
      else then_do (naive_round su query width b) (\<lambda>(expanded, b).
           then_do (naive_count_batch expanded) (\<lambda>_. naive_rounds su query width n b)))"

definition naive_setup :: "nat \<Rightarrow> f32 list \<Rightarrow> graph_search_config \<Rightarrow> search_setup" where
  "naive_setup vector_count query config =
     (let effective_k = min (gc_top_k config) vector_count
      in \<lparr>su_config = config,
          su_adc_table = (case gc_pq_model config of None \<Rightarrow> [] | Some model \<Rightarrow>
            if gc_adc_enable config then build_adc_table model query else []),
          su_effective_k = effective_k, su_result_capacity = min (max effective_k (gc_rerank_topk config)) vector_count,
          su_vector_count = vector_count\<rparr>)"

definition naive_entries :: "nat \<Rightarrow> graph_search_config \<Rightarrow> u32 list" where
  "naive_entries vector_count config =
     (if gc_seed_ids config = [] then entry_points vector_count (gc_entry_count config) else gc_seed_ids config)"

definition naive_rerank :: "f32 list \<Rightarrow> search_result list \<Rightarrow> search_result list naive_op" where
  "naive_rerank query topk s =
     (let reads_before_rerank = nr_stats s Node_reads
      in then_do (for_each (\<lambda>result. then_do (naive_exact_distance query (sr_id result)) (\<lambda>distance.
             ret (result\<lparr>sr_distance := distance\<rparr>))) topk) (\<lambda>topk s.
           (Inr (std_sort search_result_less topk),
            s\<lparr>nr_stats := bump Rerank_reads (nr_stats s Node_reads - reads_before_rerank) (nr_stats s)\<rparr>)) s)"

definition naive_finish :: "search_setup \<Rightarrow> f32 list \<Rightarrow> beam \<Rightarrow> search_result list naive_op" where
  "naive_finish su query b =
     then_do (upd (\<lambda>s. s\<lparr>nr_stats := (nr_stats s)(Visited := length (bm_visited b), Expanded := bm_expanded b)\<rparr>)) (\<lambda>_.
     then_do (if su_adc_table su \<noteq> [] \<and> 0 < gc_rerank_topk (su_config su)
         then naive_rerank query (sorted_results (bm_best b)) else ret (sorted_results (bm_best b))) (\<lambda>topk.
     ret (take (su_effective_k su) topk)))"

definition beam_width_of :: "graph_search_config \<Rightarrow> nat" where
  "beam_width_of config =
     max 1 (min (if gc_beam_width config = 0 then gc_search_width config else gc_beam_width config) (gc_search_width config))"

definition naive_search_body :: "f32 list \<Rightarrow> graph_search_config \<Rightarrow> search_result list naive_op" where
  "naive_search_body query config s =
     (let n = gm_vector_count (ni_metadata (nr_index s)); su = naive_setup n query config
      in then_do (visit_nodes su query empty_beam (naive_entries n config)) (\<lambda>b.
         then_do (naive_rounds su query (beam_width_of config) (gc_search_width config) b) (naive_finish su query)) s)"

definition naive_search_one ::
  "f32 list \<Rightarrow> graph_search_config \<Rightarrow> naive_index \<Rightarrow> disk \<Rightarrow> (search_result list \<times> search_stats) result \<times> disk" where
  "naive_search_one query config idx d =
     (if gc_top_k config = 0 \<or> gc_search_width config = 0 \<or> gc_entry_count config = 0
      then (Inl (Runtime_error ''Graph search top_k, search_width, and entry_count must be positive''), d)
      else (let (r, s) = naive_search_body query config
                  \<lparr>nr_index = idx, nr_stats = no_stats, nr_local_nodes = um_empty, nr_disk = d\<rparr>
            in (seq_result r (\<lambda>topk. Inr (topk, nr_stats s)), nr_disk s)))"

section \<open>The bytes of a node page\<close>

definition naive_image :: "vector_set \<Rightarrow> adjacency \<Rightarrow> build_config \<Rightarrow> nat \<Rightarrow> nat \<Rightarrow> bytes" where
  "naive_image base graph config k i =
     (let node = Some (word_of_nat i :: u32)
      in enc_word (word_of_nat i :: u32) @ enc_word (word_of_nat (length (graph ! i)) :: u32) @
         words_bytes (row_values base i) @ neighbor_bytes graph (bc_degree config) node @
         node_code_bytes (the (bc_pq_model config)) k graph (bc_degree config) node)"

definition naive_page :: "vector_set \<Rightarrow> adjacency \<Rightarrow> build_config \<Rightarrow> nat \<Rightarrow> nat \<Rightarrow> bytes" where
  "naive_page base graph config k i =
     naive_image base graph config k i @
     replicate (bc_page_size config - graph_record_bytes (vs_dim base) (bc_degree config) k) 0"

lemma writes_row:
  assumes "i < vs_size base"
  shows "writes (put_row base i) (words_bytes (row_values base i))"
  using assms row_values_length[OF assms] by (auto simp: writes_def put_row_def vs_row_def mult.commute)

lemma writes_codes:
  "writes (\<lambda>s. if 0 < k then fold_result (\<lambda>s n. fold_result (\<lambda>s b.
      put_bytes (enc_word (code_at model (neighbor_at graph node n) b)) s) s [0..<k]) s [0..<degree] else Inr s)
    (node_code_bytes model k graph degree node)"
proof (cases "0 < k")
  case True
  then show ?thesis by (simp add: node_code_bytes_def) (intro writes_fold writes_put)
next
  case False
  have "node_code_bytes model 0 graph degree node = []" by (simp add: node_code_bytes_def)
  then show ?thesis using False writes_none by simp
qed

lemma length_naive_image:
  assumes "i < vs_size base"
  shows "length (naive_image base graph config k i) = graph_record_bytes (vs_dim base) (bc_degree config) k"
proof -
  have "length (neighbor_bytes graph (bc_degree config) (Some (word_of_nat i :: u32))) = bc_degree config * 4"
    "length (node_code_bytes model k graph (bc_degree config) (Some (word_of_nat i :: u32))) = bc_degree config * k" for model
    by (simp_all add: neighbor_bytes_def node_code_bytes_def concat_width)
  then show ?thesis using row_values_length[OF assms] by (simp add: naive_image_def Let_def graph_record_bytes_def)
qed

lemma encode_naive_image:
  assumes "i < vs_size base" and "graph_record_bytes (vs_dim base) (bc_degree config) k \<le> bc_page_size config"
  shows "encode_naive_page base graph config k i = Inr (naive_page base graph config k i)"
proof -
  let ?node = "Some (word_of_nat i :: u32)"
  let ?chain = "\<lambda>s. seq_result (put_bytes (enc_word (word_of_nat i :: u32)) s) (\<lambda>s.
    seq_result (put_bytes (enc_word (word_of_nat (length (graph ! i)) :: u32)) s) (\<lambda>s.
    seq_result (put_row base i s) (\<lambda>s.
    seq_result (fold_result (\<lambda>s n. put_bytes (enc_word (neighbor_at graph ?node n)) s) s [0..<bc_degree config]) (\<lambda>s.
    if 0 < k then fold_result (\<lambda>s n. fold_result (\<lambda>s b.
        put_bytes (enc_word (code_at (the (bc_pq_model config)) (neighbor_at graph ?node n) b)) s) s [0..<k]) s [0..<bc_degree config]
      else Inr s))))"
  have "writes (\<lambda>s. fold_result (\<lambda>s n. put_bytes (enc_word (neighbor_at graph ?node n)) s) s [0..<bc_degree config])
      (neighbor_bytes graph (bc_degree config) ?node)"
    unfolding neighbor_bytes_def by (intro writes_fold writes_put)
  then have "writes ?chain (naive_image base graph config k i)"
    unfolding naive_image_def Let_def using assms(1) by (intro writes_seq writes_put writes_row writes_codes)
  from writesD[OF this, of "bc_page_size config" "[]"]
  have "?chain (replicate (bc_page_size config) 0, 0) =
      Inr (naive_page base graph config k i, graph_record_bytes (vs_dim base) (bc_degree config) k)"
    using assms length_naive_image[OF assms(1)] by (simp add: naive_page_def)
  then show ?thesis by (simp add: encode_naive_page_def Let_def seq_result_assoc [symmetric])
qed

lemma length_naive_page:
  assumes "i < vs_size base" and "graph_record_bytes (vs_dim base) (bc_degree config) k \<le> bc_page_size config"
  shows "length (naive_page base graph config k i) = bc_page_size config"
  using assms by (simp add: naive_page_def length_naive_image)

lemma reads_words:
  "reads (\<lambda>page. get_list (\<lambda>_. get_bytes page) [0..<length ws]) (words_bytes ws) (ws :: u32 list)"
proof -
  have "reads (\<lambda>page. get_list (\<lambda>_. get_bytes page) [0..<length ws]) (concat (map (\<lambda>n. enc_word (ws ! n)) [0..<length ws]))
      (map (\<lambda>n. ws ! n) [0..<length ws])"
    by (intro reads_map reads_word) simp
  moreover have "map (\<lambda>n. enc_word (ws ! n)) [0..<length ws] = map enc_word ws" by (rule nth_equalityI) simp_all
  ultimately show ?thesis by (simp add: words_bytes_def map_nth)
qed

text \<open>The node that was built, as \<open>read_node\<close> returns it.\<close>

definition built_node :: "vector_set \<Rightarrow> adjacency \<Rightarrow> pq_encoder option \<Rightarrow> nat \<Rightarrow> disk_node" where
  "built_node base graph pq_model i = \<lparr>dn_id = word_of_nat i, dn_neighbors = graph ! i,
     dn_neighbor_pq_codes =
       concat (map (\<lambda>neighbor. map (code_at (the pq_model) neighbor) [0..<model_code_bytes pq_model]) (graph ! i)),
     dn_vector = row_values base i, dn_vector_offset = 0\<rparr>"

lemma decode_built_node:
  assumes i: "i < vs_size base" and small: "vs_size base < 2 ^ 32" "bc_degree config < 2 ^ 32"
    and k: "k = model_code_bytes (bc_pq_model config)"
    and g: "length (graph ! i) \<le> bc_degree config" "- 1 \<notin> set (graph ! i)"
    and meta: "gm_dim meta = vs_dim base" "gm_degree meta = bc_degree config" "gm_neighbor_pq_code_bytes meta = k"
  shows "decode_naive_node meta (word_of_nat i) (naive_page base graph config k i) =
    Inr (built_node base graph (bc_pq_model config) i)"
proof -
  let ?node = "Some (word_of_nat i :: u32)" and ?d = "bc_degree config" and ?m = "the (bc_pq_model config)"
  let ?V = "words_bytes (row_values base i)" and ?N = "neighbor_bytes graph (bc_degree config) (Some (word_of_nat i :: u32))"
    and ?C = "node_code_bytes (the (bc_pq_model config)) k graph (bc_degree config) (Some (word_of_nat i :: u32))"
  let ?h = "enc_word (word_of_nat i :: u32) @ enc_word (word_of_nat (length (graph ! i)) :: u32)"
  let ?page = "naive_page base graph config k i"
  obtain rest where page: "?page = ?h @ ?V @ ?N @ ?C @ rest"
    by (simp add: naive_page_def naive_image_def Let_def)
  have u32: "LENGTH(32) = 8 * (LENGTH(32) div 8)" and u8: "LENGTH(8) = 8 * (LENGTH(8) div 8)" by simp_all
  have at: "unat (word_of_nat i :: u32) = i" using i small(1) by (intro unat_word) simp
  have deg: "unat (word_of_nat (length (graph ! i)) :: u32) = length (graph ! i)" using g(1) small(2) by (intro unat_word) simp
  have len: "length (row_values base i) = vs_dim base" by (rule row_values_length[OF i])
  have lenN: "length ?N = ?d * 4" by (simp add: neighbor_bytes_def concat_width)
  have c0: "get_bytes ?page 0 = Inr (word_of_nat i :: u32, 4)"
    using readsD[OF reads_word[OF u32], of "[]" "word_of_nat i"] by (simp add: page)
  have c1: "get_bytes ?page 4 = Inr (word_of_nat (length (graph ! i)) :: u32, 8)"
    using readsD[OF reads_word[OF u32], of "enc_word (word_of_nat i :: u32)" "word_of_nat (length (graph ! i))"] by (simp add: page)
  have c2: "get_list (\<lambda>_. get_bytes ?page) [0..<vs_dim base] 8 = Inr (row_values base i, 8 + 4 * vs_dim base)"
    using readsD[OF reads_words[of "row_values base i"], of ?h "?N @ ?C @ rest"] by (simp add: page len)
  have rN: "reads (\<lambda>page. get_list (\<lambda>_. get_bytes page) [0..<?d]) ?N (map (neighbor_at graph ?node) [0..<?d])"
    unfolding neighbor_bytes_def by (intro reads_map reads_word[OF u32])
  have c3: "get_list (\<lambda>_. get_bytes ?page) [0..<?d] (8 + 4 * vs_dim base) =
      Inr (map (neighbor_at graph ?node) [0..<?d], 8 + 4 * vs_dim base + ?d * 4)"
    using readsD[OF rN, of "?h @ ?V" "?C @ rest"] by (simp add: page len lenN)
  have rC: "reads (\<lambda>page. get_list (\<lambda>_. get_list (\<lambda>_. get_bytes page) [0..<k]) [0..<?d]) ?C (node_codes ?m k graph ?d ?node)"
    unfolding node_code_bytes_def node_codes_def by (intro reads_map reads_word[OF u8])
  have c4: "\<exists>c. get_list (\<lambda>_. get_list (\<lambda>_. get_bytes ?page) [0..<k]) [0..<?d] (8 + 4 * vs_dim base + ?d * 4) =
      Inr (node_codes ?m k graph ?d ?node, c)"
    using readsD[OF rC, of "?h @ ?V @ ?N" rest] by (simp add: page len lenN add.assoc)
  have nbrs: "neighbor_at graph ?node = (\<lambda>n. if n < length (graph ! i) then graph ! i ! n else - 1)"
    by (simp add: neighbor_at_def at fun_eq_iff)
  have stored: "stored_neighbors (word_of_nat (length (graph ! i))) (map (neighbor_at graph ?node) [0..<?d]) = graph ! i"
    unfolding nbrs by (rule stored_neighbors_raw[OF g(1) _ g(2)]) (use g(1) small(2) in simp)
  have "map (\<lambda>n. map (code_at ?m (neighbor_at graph ?node n)) [0..<k]) [0..<length (graph ! i)] =
      map (\<lambda>neighbor. map (code_at ?m neighbor) [0..<k]) (graph ! i)"
    by (rule nth_equalityI) (simp_all add: nbrs)
  then have codes: "stored_codes (word_of_nat (length (graph ! i))) k (concat (node_codes ?m k graph ?d ?node)) =
      concat (map (\<lambda>neighbor. map (code_at ?m neighbor) [0..<k]) (graph ! i))"
    using stored_codes_raw[OF g(1), where k = k and f = "\<lambda>n. code_at ?m (neighbor_at graph ?node n)"] g(1) small(2)
    by (simp add: node_codes_def)
  have none: "stored_codes d 0 [] = []" for d by (simp add: stored_codes_def)
  show ?thesis
    using c0 c1 c2 c3 c4 g(1) stored codes none
    by (cases "0 < k") (auto simp: decode_naive_node_def meta deg built_node_def k)
qed

section \<open>Building and opening\<close>

definition naive_metadata :: "vector_set \<Rightarrow> build_config \<Rightarrow> nat \<Rightarrow> graph_metadata" where
  "naive_metadata base config k =
     \<lparr>gm_vector_count = vs_size base, gm_dim = vs_dim base, gm_degree = bc_degree config,
      gm_page_size = bc_page_size config, gm_records_offset = kRecordsOffset, gm_directory_offset = 0,
      gm_page_count = vs_size base, gm_nodes_per_page = 1, gm_neighbor_pq_code_bytes = k\<rparr>"

definition naive_file :: "vector_set \<Rightarrow> adjacency \<Rightarrow> build_config \<Rightarrow> nat \<Rightarrow> bytes" where
  "naive_file base graph config k =
     concat (naive_header base config k) @ replicate (kRecordsOffset - 44) 0 @
     concat (map (naive_page base graph config k) [0..<vs_size base])"

lemma check_naive_facts:
  assumes "check_naive_build base config = Inr k"
  shows "0 < vs_size base" "vs_size base < 2 ^ 32" "0 < bc_degree config" "0 < vs_dim base" "4096 \<le> bc_page_size config"
    "graph_record_bytes (vs_dim base) (bc_degree config) k \<le> bc_page_size config" "k = model_code_bytes (bc_pq_model config)"
    "vs_dim base \<le> bc_page_size config" "bc_degree config \<le> bc_page_size config" "k \<le> bc_page_size config"
proof -
  show facts: "0 < vs_size base" "vs_size base < 2 ^ 32" "0 < bc_degree config" "0 < vs_dim base" "4096 \<le> bc_page_size config"
    and rec: "graph_record_bytes (vs_dim base) (bc_degree config) k \<le> bc_page_size config"
    and "k = model_code_bytes (bc_pq_model config)"
    using assms by (auto simp: check_naive_build_def kRecordsOffset_def vs_empty_def vs_size_def Let_def split: if_splits)
  have "k \<le> bc_degree config * k" using facts(3) by simp
  then show "vs_dim base \<le> bc_page_size config" "bc_degree config \<le> bc_page_size config" "k \<le> bc_page_size config"
    using rec unfolding graph_record_bytes_def by linarith+
qed

lemma naive_header_length: "length (concat (naive_header base config k)) = 44"
  by (simp add: naive_header_def kMagic_def)

lemma naive_header_read:
  assumes check: "check_naive_build base config = Inr k" and small: "bc_page_size config < 2 ^ 32"
  shows "read_naive_metadata (concat (naive_header base config k) @ rest) = Inr (naive_metadata base config k)"
proof -
  note f = check_naive_facts[OF check]
  have magic: "length kMagic = 8" by (simp add: kMagic_def)
  have b: "vs_size base < 2 ^ 64" "vs_dim base < 2 ^ 32" "bc_degree config < 2 ^ 32" "k < 2 ^ 32" "(4096 :: nat) < 2 ^ 64"
    "0 < bc_page_size config" using f(2,5,8-10) small by simp_all
  note nz = word_nonzero(2)[OF f(1) b(1)] word_nonzero(1)[OF f(4) b(2)] word_nonzero(1)[OF f(3) b(3)] word_nonzero(1)[OF b(6) small]
  note same = unat_word(2)[OF b(1)] unat_word(1)[OF b(2)] unat_word(1)[OF b(3)] unat_word(1)[OF small] unat_word(1)[OF b(4)]
  have "\<not> bc_page_size config < graph_record_bytes (vs_dim base) (bc_degree config) k" using f(6) by simp
  then show ?thesis using magic nz same
    by (simp add: read_naive_metadata_def naive_header_def naive_metadata_def kRecordsOffset_def Let_def)
qed

lemma write_nodes_reliable:
  assumes "outcomes d = []" and "os_good os" and "\<forall>i\<in>set is. encode_naive_page base graph config k i = Inr (page i)"
  shows "write_nodes base graph config k is os d = (Inr (), os\<lparr>os_pending := os_pending os @ concat (map page is)\<rparr>, d)"
  using assms by (induction "is" arbitrary: os) simp_all

lemma naive_build_reliable:
  assumes check: "check_naive_build base config = Inr k" and built: "build_graph rnd base config None em = (Inr graph, st, em')"
    and d: "outcomes d = []"
  shows "\<exists>d'. naive_build rnd base path config em d = (Inr (), em', d') \<and> outcomes d' = [] \<and>
    files d' path = Some (naive_file base graph config k)"
proof -
  note f = check_naive_facts[OF check]
  let ?os = "\<lparr>os_path = path, os_pending = concat (naive_header base config k) @ replicate 4052 0, os_good = True\<rparr>"
  have pages: "\<forall>i\<in>set [0..<vs_size base]. encode_naive_page base graph config k i = Inr (naive_page base graph config k i)"
    using encode_naive_image f(6) by simp
  have "unat (word_of_nat 44 :: u64) = 44" by simp
  then have "write_naive_file base graph config k \<lparr>os_path = path, os_pending = [], os_good = True\<rparr> (put_file path [] d) =
      (Inr (), \<lparr>os_path = path, os_pending = naive_file base graph config k, os_good = True\<rparr>, put_file path [] d)"
    using d naive_header_length[of base config k] write_nodes_reliable[OF _ _ pages, of "put_file path [] d" ?os]
    by (simp add: write_naive_file_def stream_pos_def os_tellp_def kRecordsOffset_def naive_file_def Let_def)
  then have "naive_build rnd base path config em d =
      (Inr (), em', put_file path (naive_file base graph config k) (put_file path [] d))"
    using check built d by (simp add: naive_build_def os_destroy_def Let_def)
  then show ?thesis using d by simp
qed

lemma naive_file_opens:
  assumes check: "check_naive_build base config = Inr k" and small: "bc_page_size config < 2 ^ 32"
    and d: "outcomes d = []" "files d path = Some (naive_file base graph config k)"
  shows "\<exists>idx. NaiveDiskGraphIndex path d = (Inr idx, d) \<and> ni_metadata idx = naive_metadata base config k \<and>
    pr_path (ni_reader idx) = path \<and> \<not> is_direct_enabled (pr_status (ni_reader idx)) \<and> pr_fd_open (ni_reader idx)"
proof -
  have "read_naive_metadata (naive_file base graph config k) = Inr (naive_metadata base config k)"
    unfolding naive_file_def by (rule naive_header_read[OF check small])
  then show ?thesis using d
    by (auto simp: NaiveDiskGraphIndex_def AsyncPageReader_def reader_configure_def open_linux_fd_def try_open_linux_fd_def
        close_native_def file_exists_def default_status_def Let_def)
qed

lemma naive_page_slice:
  assumes check: "check_naive_build base config = Inr k" and content: "files d path = Some (naive_file base graph config k)"
    and i: "i < vs_size base"
  shows "file_slice path d (kRecordsOffset + i * bc_page_size config) (bc_page_size config) = Some (naive_page base graph config k i)"
proof -
  note f = check_naive_facts[OF check]
  define pad where "pad j = (if j < vs_size base then naive_page base graph config k j else replicate (bc_page_size config) 0)" for j
  have "concat (map (naive_page base graph config k) [0..<vs_size base]) = concat (map pad [0..<vs_size base])"
    by (intro arg_cong[where f = concat] map_cong) (simp_all add: pad_def)
  moreover have "length (pad j) = bc_page_size config" for j using f(6) by (simp add: pad_def length_naive_page)
  ultimately obtain rest where rest: "drop (i * bc_page_size config) (concat (map (naive_page base graph config k) [0..<vs_size base])) =
      naive_page base graph config k i @ rest"
    using drop_concat_slot[of pad "bc_page_size config" i "vs_size base"] i by (auto simp: pad_def)
  have "drop kRecordsOffset (naive_file base graph config k) = concat (map (naive_page base graph config k) [0..<vs_size base])"
    using naive_header_length[of base config k] by (simp add: naive_file_def kRecordsOffset_def)
  then have "drop (kRecordsOffset + i * bc_page_size config) (naive_file base graph config k) = naive_page base graph config k i @ rest"
    using rest by (metis drop_drop add.commute)
  then show ?thesis using content length_naive_page[OF i f(6), where graph = graph] by (simp add: file_slice_def file_bytes_def)
qed

definition node_on_disk :: "naive_index \<Rightarrow> disk \<Rightarrow> u32 \<Rightarrow> disk_node \<Rightarrow> bool" where
  "node_on_disk idx d i node \<longleftrightarrow> (\<forall>s. \<exists>s'. naive_read_node idx i s d = (Inr node, s', d))"

lemma naive_node_reads:
  assumes check: "check_naive_build base config = Inr k" and small: "bc_page_size config < 2 ^ 32"
    and graph: "graph_ok (vs_size base) (bc_degree config) dead graph"
    and d: "outcomes d = []" "files d path = Some (naive_file base graph config k)"
    and idx: "ni_metadata idx = naive_metadata base config k" "pr_path (ni_reader idx) = path"
      "\<not> is_direct_enabled (pr_status (ni_reader idx)) \<and> pr_fd_open (ni_reader idx)"
    and i: "i < vs_size base"
  shows "node_on_disk idx d (word_of_nat i) (built_node base graph (bc_pq_model config) i)"
proof -
  note f = check_naive_facts[OF check]
  have at: "unat (word_of_nat i :: u32) = i" using i f(2) by (intro unat_word) simp
  have "i * bc_page_size config \<le> (2 ^ 32 - 1) * (2 ^ 32 - 1)" using i f(2) small by (intro mult_le_mono) simp_all
  then have bound: "kRecordsOffset + i * bc_page_size config < 2 ^ 64" by (simp add: kRecordsOffset_def)
  have "naive_offset idx (word_of_nat i) = word_of_nat (kRecordsOffset + i * bc_page_size config)"
    using at of_nat_unat[of "word_of_nat i :: u32", where 'a = "64 word"] by (simp add: naive_offset_def idx(1) naive_metadata_def)
  then have offset: "unat (naive_offset idx (word_of_nat i)) = kRecordsOffset + i * bc_page_size config"
    using unat_word(2)[OF bound] by simp
  have slice: "file_slice (pr_path (ni_reader idx)) d (unat (naive_offset idx (word_of_nat i))) (bc_page_size config) =
      Some (naive_page base graph config k i)"
    unfolding offset idx(2) by (rule naive_page_slice[OF check d(2) i])
  have ok: "list_ok (vs_size base) (bc_degree config) dead i (graph ! i)" by (rule graph_ok_nth[OF graph i])
  have "unat (- 1 :: u32) = 2 ^ 32 - 1" by (simp add: unsigned_minus_1_eq_mask mask_eq_exp_minus_1)
  then have g: "length (graph ! i) \<le> bc_degree config" "- 1 \<notin> set (graph ! i)"
    using ok f(2) by (auto simp: list_ok_def)
  have degree: "bc_degree config < 2 ^ 32" using f(9) small by simp
  have decoded: "decode_naive_node (ni_metadata idx) (word_of_nat i) (naive_page base graph config k i) =
      Inr (built_node base graph (bc_pq_model config) i)"
    by (rule decode_built_node[OF i f(2) degree f(7) g]) (simp_all add: idx(1) naive_metadata_def)
  show ?thesis unfolding node_on_disk_def
  proof
    fix s
    let ?s = "bump_all [Page_requests, Page_requests_before_dedup, Page_requests_after_dedup, Page_cache_misses, Demand_reads] s"
    obtain s' where "reader_read (naive_offset idx (word_of_nat i)) (bc_page_size config) (ni_reader idx) ?s d =
        (Inr (naive_page base graph config k i), s', d)"
      using reader_read_reliable[OF d(1) slice, of ?s] idx(3) by blast
    then show "\<exists>s'. naive_read_node idx (word_of_nat i) s d = (Inr (built_node base graph (bc_pq_model config) i), s', d)"
      using decoded i at idx(1) by (simp add: naive_read_node_def naive_metadata_def)
  qed
qed

lemma naive_build_runs:
  assumes "check_naive_build base config = Inr k" and "validate_build_policy config = Inr ()"
    and "\<And>seed xs. mset (br_shuffle rnd seed xs) = mset xs" and "epoch_ok em"
    and "bc_build_policy config = ''vamana'' \<Longrightarrow> \<exists>m. find_medoid (vamana_config_of config) base = Inr m"
    and "bc_page_size config < 2 ^ 32" and "outcomes d = []"
  obtains graph st em' d' idx where "build_graph rnd base config None em = (Inr graph, st, em')"
    "graph_ok (vs_size base) (bc_degree config) (set (bc_deleted_ids config)) graph"
    "naive_build rnd base path config em d = (Inr (), em', d')" "outcomes d' = []"
    "NaiveDiskGraphIndex path d' = (Inr idx, d')" "ni_metadata idx = naive_metadata base config k"
    "\<forall>i<vs_size base. node_on_disk idx d' (word_of_nat i) (built_node base graph (bc_pq_model config) i)"
proof -
  note f = check_naive_facts[OF assms(1)]
  have n: "vs_size base \<le> 2 ^ 32 - 1" using f(2) by simp
  obtain graph st em' where built: "build_graph rnd base config None em = (Inr graph, st, em')"
    "graph_ok (vs_size base) (bc_degree config) (set (bc_deleted_ids config)) graph"
    using build_graph_ok[OF assms(2) f(3) n assms(3-5)] by blast
  obtain d' where d': "naive_build rnd base path config em d = (Inr (), em', d')" "outcomes d' = []"
    "files d' path = Some (naive_file base graph config k)"
    using naive_build_reliable[OF assms(1) built(1) assms(7)] by blast
  obtain idx where idx: "NaiveDiskGraphIndex path d' = (Inr idx, d')" "ni_metadata idx = naive_metadata base config k"
    "pr_path (ni_reader idx) = path" "\<not> is_direct_enabled (pr_status (ni_reader idx)) \<and> pr_fd_open (ni_reader idx)"
    using naive_file_opens[OF assms(1,6) d'(2,3)] by blast
  have "\<forall>i<vs_size base. node_on_disk idx d' (word_of_nat i) (built_node base graph (bc_pq_model config) i)"
    using naive_node_reads[OF assms(1,6) built(2) d'(2,3) idx(2-4)] by blast
  then show thesis using that built d'(1,2) idx(1,2) by blast
qed

end
