(* ===== verification/NaiveSearch.thy ===== *)
theory NaiveSearch
  imports NaiveIndex
begin

text \<open>
  The search of \<open>NaiveDiskGraphIndex\<close> against a search on a plain graph: no counters, no memo of
  read nodes, no rounds. Errors are included: a node that cannot be read ends both searches with
  the same exception. The main result composes builder, index and brute force: without a
  quantiser, a search as wide as the graph returns what \<open>search_memory_fast\<close> returns.
\<close>

section \<open>The search on a graph\<close>

text \<open>\<open>look\<close> gives a node or the exception of reading it.\<close>

definition walk_exact :: "f32 list \<Rightarrow> nat \<Rightarrow> (u32 \<Rightarrow> disk_node result) \<Rightarrow> u32 \<Rightarrow> f32 result" where
  "walk_exact query dim look i = seq_result (look i) (\<lambda>node. Inr (squared_l2 query (dn_vector node) dim))"

definition walk_distance :: "search_setup \<Rightarrow> f32 list \<Rightarrow> nat \<Rightarrow> (u32 \<Rightarrow> disk_node result) \<Rightarrow> u32 \<Rightarrow> f32 result" where
  "walk_distance su query dim look i =
     (if su_adc_table su \<noteq> [] then adc_distance (the (gc_pq_model (su_config su))) i (su_adc_table su)
      else walk_exact query dim look i)"

definition walk_visit :: "search_setup \<Rightarrow> (u32 \<Rightarrow> f32 result) \<Rightarrow> beam \<Rightarrow> u32 \<Rightarrow> beam result" where
  "walk_visit su dist b i =
     (if su_vector_count su \<le> unat i \<or> i \<in> set (bm_visited b) then Inr b
      else seq_result (dist i) (\<lambda>distance.
        Inr (push_candidate su (b\<lparr>bm_visited := i # bm_visited b\<rparr>) \<lparr>sr_id = i, sr_distance = distance\<rparr>)))"

definition walk_step :: "search_setup \<Rightarrow> (u32 \<Rightarrow> disk_node result) \<Rightarrow> (u32 \<Rightarrow> f32 result) \<Rightarrow> beam \<Rightarrow> beam result" where
  "walk_step su look dist b =
     seq_result (look (sr_id (last (bm_candidates b)))) (\<lambda>node.
     seq_result (fold_result (walk_visit su dist)
         (b\<lparr>bm_candidates := butlast (bm_candidates b), bm_expanded := bm_expanded b + 1\<rparr>) (dn_neighbors node))
       (\<lambda>b. Inr (update_adaptive_stop su b)))"

fun walk :: "search_setup \<Rightarrow> (u32 \<Rightarrow> disk_node result) \<Rightarrow> (u32 \<Rightarrow> f32 result) \<Rightarrow> nat \<Rightarrow> beam \<Rightarrow> beam result" where
  "walk su look dist 0 b = Inr b"
| "walk su look dist (Suc n) b =
     (if \<not> search_continues su b then Inr b
      else if update_frontier su b then Inr (b\<lparr>bm_candidates := []\<rparr>)
      else seq_result (walk_step su look dist b) (walk su look dist n))"

fun walk_rerank :: "(u32 \<Rightarrow> f32 result) \<Rightarrow> search_result list \<Rightarrow> search_result list result" where
  "walk_rerank exact [] = Inr []"
| "walk_rerank exact (r # rs) = seq_result (exact (sr_id r)) (\<lambda>distance.
     seq_result (walk_rerank exact rs) (\<lambda>rs. Inr (r\<lparr>sr_distance := distance\<rparr> # rs)))"

definition walk_topk :: "search_setup \<Rightarrow> f32 list \<Rightarrow> nat \<Rightarrow> (u32 \<Rightarrow> disk_node result) \<Rightarrow> beam \<Rightarrow> search_result list result" where
  "walk_topk su query dim look b =
     seq_result (if su_adc_table su \<noteq> [] \<and> 0 < gc_rerank_topk (su_config su)
         then seq_result (walk_rerank (walk_exact query dim look) (sorted_results (bm_best b)))
           (\<lambda>topk. Inr (std_sort search_result_less topk))
         else Inr (sorted_results (bm_best b)))
       (\<lambda>topk. Inr (take (su_effective_k su) topk))"

definition walk_search ::
  "nat \<Rightarrow> nat \<Rightarrow> (u32 \<Rightarrow> disk_node result) \<Rightarrow> f32 list \<Rightarrow> graph_search_config \<Rightarrow> search_result list result" where
  "walk_search n dim look query config =
     (if gc_top_k config = 0 \<or> gc_search_width config = 0 \<or> gc_entry_count config = 0
      then Inl (Runtime_error ''Graph search top_k, search_width, and entry_count must be positive'')
      else (let su = naive_setup n query config; dist = walk_distance su query dim look
            in seq_result (fold_result (walk_visit su dist) empty_beam (naive_entries n config)) (\<lambda>b.
               seq_result (walk su look dist (gc_search_width config) b) (walk_topk su query dim look))))"

section \<open>Runs that only read\<close>

text \<open>
  On a disk that does not fail, reading a node always ends the same way. \<open>computes idx d f r\<close>:
  from any state of a query on it, \<open>f\<close> ends with \<open>r\<close> and in such a state.
\<close>

definition naive_look :: "naive_index \<Rightarrow> disk \<Rightarrow> u32 \<Rightarrow> disk_node result" where
  "naive_look idx d i = fst (naive_read_node idx i no_stats d)"

lemma naive_read_reliable:
  assumes "outcomes d = []"
  shows "\<exists>s'. naive_read_node idx i s d = (naive_look idx d i, s', d)"
  using assms
  by (auto simp: naive_look_def naive_read_node_def reader_read_def read_with_pread_def Let_def io_call_def)

definition run_of :: "naive_index \<Rightarrow> disk \<Rightarrow> naive_run \<Rightarrow> bool" where
  "run_of idx d s \<longleftrightarrow> nr_index s = idx \<and> nr_disk s = d \<and> um_ok (nr_local_nodes s) \<and>
     (\<forall>i node. um_find (nr_local_nodes s) i = Some node \<longrightarrow> naive_look idx d i = Inr node)"

definition computes :: "naive_index \<Rightarrow> disk \<Rightarrow> 'a naive_op \<Rightarrow> 'a result \<Rightarrow> bool" where
  "computes idx d f r \<longleftrightarrow> (\<forall>s. run_of idx d s \<longrightarrow> (\<exists>s'. f s = (r, s') \<and> run_of idx d s'))"

lemma computesD: "computes idx d f r \<Longrightarrow> run_of idx d s \<Longrightarrow> \<exists>s'. f s = (r, s') \<and> run_of idx d s'"
  by (simp add: computes_def)

lemma computes_ret [intro]: "computes idx d (ret x) (Inr x)"
  by (simp add: computes_def ret_def)

lemma computes_lift [intro]: "computes idx d (lift_result r) r"
  by (simp add: computes_def lift_result_def)

lemma computes_then [intro]:
  assumes "computes idx d f r" and "\<And>x. r = Inr x \<Longrightarrow> computes idx d (g x) (h x)"
  shows "computes idx d (then_do f g) (seq_result r h)"
  unfolding computes_def
proof (intro allI impI)
  fix s assume "run_of idx d s"
  with assms(1) obtain s1 where 1: "f s = (r, s1)" "run_of idx d s1" using computesD by blast
  show "\<exists>s'. then_do f g s = (seq_result r h, s') \<and> run_of idx d s'"
    using computesD[OF assms(2) 1(2)] 1 by (cases r) (simp_all add: then_do_def)
qed

lemma computes_silent [intro]:
  assumes "computes idx d f (Inr ())" and "computes idx d (g ()) r"
  shows "computes idx d (then_do f g) r"
  using computes_then[of idx d f "Inr ()" g "\<lambda>_. r"] assms by simp

lemma computes_upd:
  assumes "\<And>s. nr_index (f s) = nr_index s" "\<And>s. nr_disk (f s) = nr_disk s" "\<And>s. nr_local_nodes (f s) = nr_local_nodes s"
  shows "computes idx d (upd f) (Inr ())"
  using assms by (simp add: computes_def run_of_def upd_def)

lemma computes_count [intro]:
  "computes idx d (naive_count c n) (Inr ())" "computes idx d (naive_count_batch n) (Inr ())"
  unfolding naive_count_def naive_count_batch_def by (rule computes_upd; simp)+

lemma computes_load [intro]:
  assumes "outcomes d = []"
  shows "computes idx d (load_node i) (naive_look idx d i)"
  unfolding computes_def
proof (intro allI impI)
  fix s assume s: "run_of idx d s"
  show "\<exists>s'. load_node i s = (naive_look idx d i, s') \<and> run_of idx d s'"
  proof (cases "um_find (nr_local_nodes s) i")
    case (Some node)
    then show ?thesis using s by (simp add: load_node_def run_of_def)
  next
    case None
    obtain t where t: "naive_read_node (nr_index s) i (nr_stats s) (nr_disk s) = (naive_look idx d i, t, d)"
      using naive_read_reliable[OF assms, of idx i "nr_stats s"] s by (auto simp: run_of_def)
    show ?thesis using s None t
      by (cases "naive_look idx d i") (auto simp: load_node_def run_of_def um.lkp_assign um.ok_assign)
  qed
qed

lemma computes_exact [intro]:
  assumes "outcomes d = []"
  shows "computes idx d (naive_exact_distance query i) (walk_exact query (gm_dim (ni_metadata idx)) (naive_look idx d) i)"
proof -
  have "computes idx d (\<lambda>s. ret (squared_l2 query (dn_vector node) (gm_dim (ni_metadata (nr_index s)))) s)
      (Inr (squared_l2 query (dn_vector node) (gm_dim (ni_metadata idx))))" for node
    by (simp add: computes_def ret_def run_of_def)
  then show ?thesis unfolding naive_exact_distance_def walk_exact_def using assms by blast
qed

section \<open>The search computes the walk\<close>

lemma computes_distance [intro]:
  assumes "outcomes d = []"
  shows "computes idx d (naive_candidate_distance su query i)
    (walk_distance su query (gm_dim (ni_metadata idx)) (naive_look idx d) i)"
  using assms by (auto simp: naive_candidate_distance_def walk_distance_def)

lemma computes_visit [intro]:
  assumes "outcomes d = []" and "dist = walk_distance su query (gm_dim (ni_metadata idx)) (naive_look idx d)"
  shows "computes idx d (visit_node su query b i) (walk_visit su dist b i)"
  unfolding visit_node_def walk_visit_def assms(2) by (simp, intro conjI impI computes_then computes_ret computes_distance assms(1))

lemma computes_visits [intro]:
  assumes "outcomes d = []" and "dist = walk_distance su query (gm_dim (ni_metadata idx)) (naive_look idx d)"
  shows "computes idx d (visit_nodes su query b is) (fold_result (walk_visit su dist) b is)"
  by (induction "is" arbitrary: b) (auto intro: computes_visit[OF assms])

lemma computes_expand [intro]:
  assumes "outcomes d = []" and "dist = walk_distance su query (gm_dim (ni_metadata idx)) (naive_look idx d)"
  shows "computes idx d (naive_expand su query b) (walk_step su (naive_look idx d) dist b)"
  unfolding naive_expand_def walk_step_def Let_def
  by (intro computes_then computes_load computes_visits computes_ret assms)

lemma visit_frame:
  assumes "fold_result (walk_visit su dist) b is = Inr b'"
  shows "bm_expanded b' = bm_expanded b" "bm_batch_count b' = bm_batch_count b"
  using assms by (induction "is" arbitrary: b) (auto simp: walk_visit_def push_candidate_def add_best_def elim!: seq_InrE split: if_splits)

lemma step_expanded: "walk_step su look dist b = Inr b' \<Longrightarrow> bm_expanded b' = bm_expanded b + 1"
  by (auto simp: walk_step_def elim!: seq_InrE dest: visit_frame)

lemma walk_expanded: "walk su look dist n b = Inr b' \<Longrightarrow> bm_expanded b \<le> bm_expanded b'"
  by (induction n arbitrary: b) (auto split: if_splits elim!: seq_InrE dest!: step_expanded, force)

lemma walk_stopped: "\<not> search_continues su b \<Longrightarrow> walk su look dist n b = Inr b"
  by (cases n) simp_all

text \<open>Walking on from where a walk ended; the search width bounds every walk.\<close>

lemma walk_add: "walk su look dist (n + m) b = seq_result (walk su look dist n b) (walk su look dist m)"
proof (induction n arbitrary: b)
  case (Suc n)
  have "walk su look dist (n + m) = (\<lambda>b. seq_result (walk su look dist n b) (walk su look dist m))" using Suc.IH by blast
  moreover have "\<not> search_continues su (b\<lparr>bm_candidates := []\<rparr>)" by (simp add: search_continues_def)
  ultimately show ?case by (simp add: walk_stopped seq_result_assoc)
qed simp

lemma walk_enough:
  assumes "gc_search_width (su_config su) \<le> bm_expanded b + n"
  shows "walk su look dist (n + m) b = walk su look dist n b"
  using assms
proof (induction n arbitrary: b)
  case 0
  then show ?case by (intro trans[OF walk_stopped]) (simp_all add: search_continues_def)
next
  case (Suc n)
  have "walk su look dist (n + m) b' = walk su look dist n b'" if "walk_step su look dist b = Inr b'" for b'
    using Suc step_expanded[OF that] by simp
  then show ?case by (cases "walk_step su look dist b") simp_all
qed

lemma computes_round [intro]:
  assumes "outcomes d = []" and "dist = walk_distance su query (gm_dim (ni_metadata idx)) (naive_look idx d)"
  shows "computes idx d (naive_round su query n b)
    (seq_result (walk su (naive_look idx d) dist n b) (\<lambda>b'. Inr (bm_expanded b' - bm_expanded b, b')))"
proof (induction n arbitrary: b)
  case 0
  show ?case by (simp add: computes_ret)
next
  case (Suc n)
  let ?look = "naive_look idx d"
  have step: "computes idx d
      (then_do (naive_expand su query b) (\<lambda>b. then_do (naive_round su query n b) (\<lambda>(expanded, b). ret (Suc expanded, b))))
      (seq_result (walk_step su ?look dist b) (\<lambda>b1. seq_result (seq_result (walk su ?look dist n b1)
         (\<lambda>b'. Inr (bm_expanded b' - bm_expanded b1, b'))) (\<lambda>(expanded, b). Inr (Suc expanded, b))))"
    by (intro computes_then computes_expand Suc.IH assms) (simp add: case_prod_unfold computes_ret)
  have "seq_result (walk_step su ?look dist b) (\<lambda>b1. seq_result (seq_result (walk su ?look dist n b1)
         (\<lambda>b'. Inr (bm_expanded b' - bm_expanded b1, b'))) (\<lambda>(expanded, b). Inr (Suc expanded, b))) =
      seq_result (seq_result (walk_step su ?look dist b) (walk su ?look dist n)) (\<lambda>b'. Inr (bm_expanded b' - bm_expanded b, b'))"
  proof (cases "walk_step su ?look dist b")
    case (Inr b1)
    then show ?thesis using step_expanded[OF Inr] walk_expanded[of su ?look dist n b1]
      by (cases "walk su ?look dist n b1") auto
  qed simp
  then show ?case using step by (auto simp: computes_ret)
qed

lemma computes_rounds:
  assumes "outcomes d = []" and "dist = walk_distance su query (gm_dim (ni_metadata idx)) (naive_look idx d)"
    and "0 < width" and "bm_candidates b = [] \<or> gc_search_width (su_config su) \<le> bm_expanded b + n"
  shows "computes idx d (naive_rounds su query width n b)
    (walk su (naive_look idx d) dist (gc_search_width (su_config su)) b)"
  using assms(4)
proof (induction n arbitrary: b)
  case 0
  then have "\<not> search_continues su b" by (auto simp: search_continues_def)
  then show ?case by (simp add: walk_stopped computes_ret)
next
  case (Suc n)
  let ?look = "naive_look idx d" and ?W = "gc_search_width (su_config su)"
  show ?case
  proof (cases "search_continues su b")
    case False
    then show ?thesis by (simp add: walk_stopped computes_ret)
  next
    case True
    have next_round: "computes idx d (naive_rounds su query width n b') (walk su ?look dist ?W b')"
      if walked: "walk su ?look dist width b = Inr b'" for b'
    proof (rule Suc.IH)
      obtain w where w: "width = Suc w" using assms(3) by (cases width) simp_all
      show "bm_candidates b' = [] \<or> ?W \<le> bm_expanded b' + n"
      proof (cases "update_frontier su b")
        case True
        then show ?thesis using walked \<open>search_continues su b\<close> by (auto simp: w)
      next
        case False
        then obtain b1 where "walk_step su ?look dist b = Inr b1" "walk su ?look dist w b1 = Inr b'"
          using walked \<open>search_continues su b\<close> by (auto simp: w elim!: seq_InrE)
        then have "bm_expanded b + 1 \<le> bm_expanded b'" using step_expanded walk_expanded by metis
        then show ?thesis using Suc.prems \<open>search_continues su b\<close> by (auto simp: search_continues_def)
      qed
    qed
    have "computes idx d (naive_rounds su query width (Suc n) b)
      (seq_result (seq_result (walk su ?look dist width b) (\<lambda>b'. Inr (bm_expanded b' - bm_expanded b, b')))
        (\<lambda>(expanded, b). walk su ?look dist ?W b))"
      using True next_round by (auto intro!: computes_then computes_round assms computes_silent computes_count elim!: seq_InrE)
    also have "seq_result (seq_result (walk su ?look dist width b) (\<lambda>b'. Inr (bm_expanded b' - bm_expanded b, b')))
        (\<lambda>(expanded, b). walk su ?look dist ?W b) = walk su ?look dist (width + ?W) b"
      by (simp add: walk_add seq_result_assoc)
    also have "\<dots> = walk su ?look dist ?W b" using walk_enough[of su b ?W ?look dist width] by (simp add: add.commute)
    finally show ?thesis .
  qed
qed

lemma computes_finish [intro]:
  assumes "outcomes d = []"
  shows "computes idx d (naive_finish su query b) (walk_topk su query (gm_dim (ni_metadata idx)) (naive_look idx d) b)"
proof -
  let ?exact = "walk_exact query (gm_dim (ni_metadata idx)) (naive_look idx d)"
  have each: "computes idx d (for_each (\<lambda>result. then_do (naive_exact_distance query (sr_id result)) (\<lambda>distance.
      ret (result\<lparr>sr_distance := distance\<rparr>))) rs) (walk_rerank ?exact rs)" for rs
  proof (induction rs)
    case (Cons r rs)
    have "computes idx d (for_each (\<lambda>result. then_do (naive_exact_distance query (sr_id result)) (\<lambda>distance.
        ret (result\<lparr>sr_distance := distance\<rparr>))) (r # rs))
      (seq_result (seq_result (?exact (sr_id r)) (\<lambda>distance. Inr (r\<lparr>sr_distance := distance\<rparr>)))
        (\<lambda>y. seq_result (walk_rerank ?exact rs) (\<lambda>ys. Inr (y # ys))))"
      unfolding for_each.simps by (intro computes_then computes_exact computes_ret Cons.IH assms)
    then show ?case by (simp add: seq_result_assoc)
  qed auto
  have sort: "computes idx d (\<lambda>s. (Inr (std_sort search_result_less topk), s\<lparr>nr_stats := f s\<rparr>)) (Inr (std_sort search_result_less topk))"
    for topk f by (simp add: computes_def run_of_def)
  have rerank: "computes idx d (naive_rerank query rs) (seq_result (walk_rerank ?exact rs) (\<lambda>topk. Inr (std_sort search_result_less topk)))" for rs
    unfolding computes_def naive_rerank_def Let_def
    by (intro allI impI computesD[OF computes_then[OF each sort]])
  have "computes idx d (upd (\<lambda>s. s\<lparr>nr_stats := (nr_stats s)(Visited := v, Expanded := e)\<rparr>)) (Inr ())" for v e
    by (rule computes_upd) simp_all
  then show ?thesis unfolding naive_finish_def walk_topk_def using rerank
    by (intro computes_silent computes_then) auto
qed

lemma naive_search_walks:
  assumes "outcomes d = []"
  shows "\<exists>stats. naive_search_one query config idx d =
    (seq_result (walk_search (gm_vector_count (ni_metadata idx)) (gm_dim (ni_metadata idx)) (naive_look idx d) query config)
       (\<lambda>topk. Inr (topk, stats)), d)"
proof (cases "gc_top_k config = 0 \<or> gc_search_width config = 0 \<or> gc_entry_count config = 0")
  case True
  then show ?thesis by (simp add: naive_search_one_def walk_search_def)
next
  case False
  let ?n = "gm_vector_count (ni_metadata idx)"
  let ?su = "naive_setup ?n query config"
  let ?dist = "walk_distance ?su query (gm_dim (ni_metadata idx)) (naive_look idx d)"
  let ?s = "\<lparr>nr_index = idx, nr_stats = no_stats, nr_local_nodes = um_empty, nr_disk = d\<rparr>"
  let ?r = "walk_search ?n (gm_dim (ni_metadata idx)) (naive_look idx d) query config"
  have W: "gc_search_width (su_config ?su) = gc_search_width config" by (simp add: naive_setup_def Let_def)
  have rounds: "computes idx d (naive_rounds ?su query (beam_width_of config) (gc_search_width config) b)
      (walk ?su (naive_look idx d) ?dist (gc_search_width config) b)" for b
    using computes_rounds[OF assms refl, of "beam_width_of config" b ?su "gc_search_width config" idx query]
    by (simp add: W beam_width_of_def)
  have "computes idx d (\<lambda>s. then_do (visit_nodes ?su query empty_beam (naive_entries ?n config)) (\<lambda>b.
      then_do (naive_rounds ?su query (beam_width_of config) (gc_search_width config) b) (naive_finish ?su query)) s)
    (seq_result (fold_result (walk_visit ?su ?dist) empty_beam (naive_entries ?n config)) (\<lambda>b.
      seq_result (walk ?su (naive_look idx d) ?dist (gc_search_width config) b)
        (walk_topk ?su query (gm_dim (ni_metadata idx)) (naive_look idx d))))"
    by (intro computes_then computes_visits computes_finish rounds assms refl)
  then have "computes idx d (\<lambda>s. then_do (visit_nodes ?su query empty_beam (naive_entries ?n config)) (\<lambda>b.
      then_do (naive_rounds ?su query (beam_width_of config) (gc_search_width config) b) (naive_finish ?su query)) s) ?r"
    using False by (simp add: walk_search_def Let_def)
  moreover have "run_of idx d ?s" by (simp add: run_of_def um.lkp_empty um.ok_empty)
  ultimately obtain s' where "naive_search_body query config ?s = (?r, s')" "run_of idx d s'"
    using computesD by (fastforce simp: naive_search_body_def Let_def)
  then show ?thesis using False by (auto simp: naive_search_one_def run_of_def)
qed

section \<open>Exhaustive walks with exact distances\<close>

text \<open>
  Every visited node was scored exactly and offered to the result heap; it waits as a candidate,
  is being expanded (\<open>S\<close>), or all its neighbours have been visited.
\<close>

definition walk_inv ::
  "search_setup \<Rightarrow> f32 list \<Rightarrow> nat \<Rightarrow> (u32 \<Rightarrow> disk_node) \<Rightarrow> u32 set \<Rightarrow> u32 set \<Rightarrow> beam \<Rightarrow> bool" where
  "walk_inv su query dim node roots S b \<longleftrightarrow>
     (let V = set (bm_visited b); n = su_vector_count su
      in distinct (bm_visited b) \<and> (\<forall>v\<in>V. reachable n (dn_neighbors \<circ> node) roots v) \<and>
         bm_best b = foldl (heap_step search_result_less (su_result_capacity su)) []
           (map (exact_result query (dn_vector \<circ> node) dim) (rev (bm_visited b))) \<and>
         sr_id ` set (bm_candidates b) \<subseteq> V \<and> bm_expanded b + length (bm_candidates b) = length (bm_visited b) \<and>
         (\<forall>v\<in>V. v \<in> sr_id ` set (bm_candidates b) \<or> v \<in> S \<or> (\<forall>w\<in>set (dn_neighbors (node v)). unat w < n \<longrightarrow> w \<in> V)))"

definition exact_setup :: "search_setup \<Rightarrow> f32 list \<Rightarrow> nat \<Rightarrow> (u32 \<Rightarrow> disk_node) \<Rightarrow> (u32 \<Rightarrow> f32 result) \<Rightarrow> bool" where
  "exact_setup su query dim node dist \<longleftrightarrow> su_adc_table su = [] \<and>
     (\<forall>i. unat i < su_vector_count su \<longrightarrow> dist i = Inr (squared_l2 query (dn_vector (node i)) dim)) \<and>
     \<not> gc_early_stop (su_config su) \<and> \<not> gc_adaptive_early_stop (su_config su)"

lemma visit_inv:
  assumes ex: "exact_setup su query dim node dist" and inv: "walk_inv su query dim node roots S b"
    and i: "unat i < su_vector_count su \<Longrightarrow> reachable (su_vector_count su) (dn_neighbors \<circ> node) roots i"
  shows "\<exists>b'. walk_visit su dist b i = Inr b' \<and> walk_inv su query dim node roots S b' \<and>
    set (bm_visited b) \<subseteq> set (bm_visited b') \<and> (unat i < su_vector_count su \<longrightarrow> i \<in> set (bm_visited b'))"
proof (cases "su_vector_count su \<le> unat i \<or> i \<in> set (bm_visited b)")
  case True
  then show ?thesis using inv by (auto simp: walk_visit_def)
next
  case False
  let ?r = "exact_result query (dn_vector \<circ> node) dim i"
  let ?b = "push_candidate su (b\<lparr>bm_visited := i # bm_visited b\<rparr>) ?r"
  have f: "bm_visited ?b = i # bm_visited b" "bm_candidates ?b = push_by closer_first ?r (bm_candidates b)"
    "bm_best ?b = heap_step search_result_less (su_result_capacity su) (bm_best b) ?r" "bm_expanded ?b = bm_expanded b"
    by (simp_all add: push_candidate_def add_best_def)
  have "walk_visit su dist b i = Inr ?b"
    using False ex by (simp add: walk_visit_def exact_setup_def exact_result_def)
  moreover have "walk_inv su query dim node roots S ?b"
    using inv i False unfolding walk_inv_def Let_def f by (simp add: image_insert) blast
  ultimately show ?thesis using f(1) by auto
qed

lemma visits_inv:
  assumes ex: "exact_setup su query dim node dist" and inv: "walk_inv su query dim node roots S b"
    and "\<forall>i\<in>set is. unat i < su_vector_count su \<longrightarrow> reachable (su_vector_count su) (dn_neighbors \<circ> node) roots i"
  shows "\<exists>b'. fold_result (walk_visit su dist) b is = Inr b' \<and> walk_inv su query dim node roots S b' \<and>
    set (bm_visited b) \<subseteq> set (bm_visited b') \<and> (\<forall>i\<in>set is. unat i < su_vector_count su \<longrightarrow> i \<in> set (bm_visited b'))"
  using inv assms(3)
proof (induction "is" arbitrary: b)
  case (Cons i ids)
  obtain b1 where 1: "walk_visit su dist b i = Inr b1" "walk_inv su query dim node roots S b1"
    "set (bm_visited b) \<subseteq> set (bm_visited b1)" "unat i < su_vector_count su \<longrightarrow> i \<in> set (bm_visited b1)"
    using visit_inv[OF ex Cons.prems(1), of i] Cons.prems(2) by auto
  obtain b2 where "fold_result (walk_visit su dist) b1 ids = Inr b2" "walk_inv su query dim node roots S b2"
    "set (bm_visited b1) \<subseteq> set (bm_visited b2)" "\<forall>i\<in>set ids. unat i < su_vector_count su \<longrightarrow> i \<in> set (bm_visited b2)"
    using Cons.IH[OF 1(2)] Cons.prems(2) by auto
  then show ?case using 1 by auto
qed simp

lemma step_inv:
  assumes ex: "exact_setup su query dim node dist" and look: "\<forall>i. unat i < su_vector_count su \<longrightarrow> look i = Inr (node i)"
    and inv: "walk_inv su query dim node roots {} b" and go: "search_continues su b"
  shows "\<exists>b'. walk_step su look dist b = Inr b' \<and> walk_inv su query dim node roots {} b' \<and>
    set (bm_visited b) \<subseteq> set (bm_visited b')"
proof -
  let ?n = "su_vector_count su" and ?c = "last (bm_candidates b)"
  let ?b = "b\<lparr>bm_candidates := butlast (bm_candidates b), bm_expanded := bm_expanded b + 1\<rparr>"
  have ne: "bm_candidates b \<noteq> []" using go by (simp add: search_continues_def)
  then have split: "set (bm_candidates b) = insert ?c (set (butlast (bm_candidates b)))"
    by (metis append_butlast_last_id set_append list.simps(15) Un_insert_right empty_set sup_bot_right)
  have "sr_id ?c \<in> set (bm_visited b)" using inv split unfolding walk_inv_def Let_def by auto
  then have c: "reachable ?n (dn_neighbors \<circ> node) roots (sr_id ?c)" using inv by (simp add: walk_inv_def Let_def)
  then have at: "look (sr_id ?c) = Inr (node (sr_id ?c))" using look reachable_range by blast
  have "Suc (bm_expanded b + (length (bm_candidates b) - Suc 0)) = bm_expanded b + length (bm_candidates b)"
    using ne by (cases "bm_candidates b") simp_all
  then have "walk_inv su query dim node roots {sr_id ?c} ?b"
    using inv ne split unfolding walk_inv_def Let_def by (auto simp: image_iff)
  moreover have "\<forall>i\<in>set (dn_neighbors (node (sr_id ?c))). unat i < ?n \<longrightarrow> reachable ?n (dn_neighbors \<circ> node) roots i"
    using c by (auto intro: edge)
  ultimately obtain b' where b': "fold_result (walk_visit su dist) ?b (dn_neighbors (node (sr_id ?c))) = Inr b'"
    "walk_inv su query dim node roots {sr_id ?c} b'" "set (bm_visited b) \<subseteq> set (bm_visited b')"
    "\<forall>i\<in>set (dn_neighbors (node (sr_id ?c))). unat i < ?n \<longrightarrow> i \<in> set (bm_visited b')"
    using visits_inv[OF ex] by fastforce
  have "walk_inv su query dim node roots {} b'"
    using b'(2,4) unfolding walk_inv_def Let_def by auto
  moreover have "update_adaptive_stop su b' = b'" using ex by (simp add: exact_setup_def update_adaptive_stop_def)
  ultimately show ?thesis using b'(1,3) at by (simp add: walk_step_def)
qed

lemma walk_inv_kept:
  assumes ex: "exact_setup su query dim node dist" and look: "\<forall>i. unat i < su_vector_count su \<longrightarrow> look i = Inr (node i)"
    and inv: "walk_inv su query dim node roots {} b" and fuel: "gc_search_width (su_config su) \<le> bm_expanded b + k"
  shows "\<exists>b'. walk su look dist k b = Inr b' \<and> walk_inv su query dim node roots {} b' \<and> \<not> search_continues su b' \<and>
    set (bm_visited b) \<subseteq> set (bm_visited b')"
  using inv fuel
proof (induction k arbitrary: b)
  case 0
  then show ?case by (auto simp: search_continues_def)
next
  case (Suc k)
  show ?case
  proof (cases "search_continues su b")
    case True
    obtain b1 where 1: "walk_step su look dist b = Inr b1" "walk_inv su query dim node roots {} b1"
      "set (bm_visited b) \<subseteq> set (bm_visited b1)" using step_inv[OF ex look Suc.prems(1) True] by blast
    have "gc_search_width (su_config su) \<le> bm_expanded b1 + k" using Suc.prems(2) step_expanded[OF 1(1)] by simp
    from Suc.IH[OF 1(2) this] obtain b2 where "walk su look dist k b1 = Inr b2" "walk_inv su query dim node roots {} b2"
      "\<not> search_continues su b2" "set (bm_visited b1) \<subseteq> set (bm_visited b2)" by blast
    moreover have "\<not> update_frontier su b" using ex by (simp add: exact_setup_def update_frontier_def should_stop_def)
    ultimately show ?thesis using True 1(1,3) by auto
  qed (use Suc.prems in auto)
qed

text \<open>A walk as wide as the graph visits what can be reached.\<close>

lemma walk_visits_reachable:
  assumes inv: "walk_inv su query dim node roots {} b" and stop: "\<not> search_continues su b"
    and wide: "su_vector_count su \<le> gc_search_width (su_config su)"
    and roots: "\<forall>v\<in>roots. unat v < su_vector_count su \<longrightarrow> v \<in> set (bm_visited b)"
  shows "set (bm_visited b) = {v. reachable (su_vector_count su) (dn_neighbors \<circ> node) roots v}"
proof -
  let ?n = "su_vector_count su"
  have d: "distinct (bm_visited b)" and reach: "\<forall>v\<in>set (bm_visited b). reachable ?n (dn_neighbors \<circ> node) roots v"
    and count: "bm_expanded b + length (bm_candidates b) = length (bm_visited b)"
    and waits: "\<forall>v\<in>set (bm_visited b). v \<in> sr_id ` set (bm_candidates b) \<or>
      (\<forall>w\<in>set (dn_neighbors (node v)). unat w < ?n \<longrightarrow> w \<in> set (bm_visited b))"
    using inv by (simp_all add: walk_inv_def Let_def)
  have "length (bm_visited b) \<le> ?n" using d reach reachable_range by (intro short_ids) blast+
  then have "bm_candidates b = []"
    using stop wide count by (cases "bm_candidates b") (auto simp: search_continues_def)
  then have "\<forall>v\<in>set (bm_visited b). \<forall>w\<in>set ((dn_neighbors \<circ> node) v). unat w < ?n \<longrightarrow> w \<in> set (bm_visited b)"
    using waits by simp
  then show ?thesis using reach reachable_closed[OF _ roots] by blast
qed

definition exact_search :: "nat \<Rightarrow> graph_search_config \<Rightarrow> bool" where
  "exact_search n config \<longleftrightarrow> 0 < gc_top_k config \<and> 0 < gc_entry_count config \<and> 0 < gc_search_width config \<and>
     n \<le> gc_search_width config \<and> \<not> gc_early_stop config \<and> \<not> gc_adaptive_early_stop config \<and>
     (gc_adc_enable config \<longrightarrow> gc_pq_model config = None)"

lemma exhaustive_walk:
  assumes look: "\<forall>i. unat i < n \<longrightarrow> look i = Inr (node i)" and config: "exact_search n config"
    and n: "0 < n" "n \<le> 2 ^ 32" and fin: "finite_vector dim query" "\<forall>i. unat i < n \<longrightarrow> finite_vector dim (dn_vector (node i))"
  shows "\<exists>nodes. distinct nodes \<and> set nodes = {v. reachable n (dn_neighbors \<circ> node) (set (naive_entries n config)) v} \<and>
    walk_search n dim look query config =
      Inr (take (gc_top_k config) (sort_key sr_key (map (exact_result query (dn_vector \<circ> node) dim) nodes)))"
proof -
  let ?su = "naive_setup n query config" and ?roots = "set (naive_entries n config)"
  let ?dist = "walk_distance ?su query dim look" and ?exact = "exact_result query (dn_vector \<circ> node) dim"
  have su: "su_vector_count ?su = n" "su_config ?su = config" "su_effective_k ?su = min (gc_top_k config) n"
    "su_result_capacity ?su = min (max (min (gc_top_k config) n) (gc_rerank_topk config)) n" "su_adc_table ?su = []"
    using config by (auto simp: naive_setup_def exact_search_def Let_def split: option.splits)
  have ex: "exact_setup ?su query dim node ?dist"
    using config look by (simp add: exact_setup_def su walk_distance_def walk_exact_def exact_search_def)
  have start: "walk_inv ?su query dim node ?roots {} empty_beam"
    by (simp add: walk_inv_def empty_beam_def)
  have "\<forall>i\<in>?roots. unat i < su_vector_count ?su \<longrightarrow> reachable (su_vector_count ?su) (dn_neighbors \<circ> node) ?roots i"
    by (auto intro: root)
  from visits_inv[OF ex start this] obtain b0 where b0: "fold_result (walk_visit ?su ?dist) empty_beam (naive_entries n config) = Inr b0"
    "walk_inv ?su query dim node ?roots {} b0" "\<forall>i\<in>?roots. unat i < n \<longrightarrow> i \<in> set (bm_visited b0)" unfolding su by blast
  obtain b where b: "walk ?su look ?dist (gc_search_width config) b0 = Inr b" "walk_inv ?su query dim node ?roots {} b"
    "\<not> search_continues ?su b" "set (bm_visited b0) \<subseteq> set (bm_visited b)"
    using walk_inv_kept[OF ex _ b0(2), of look "gc_search_width config"] look unfolding su by auto
  let ?nodes = "rev (bm_visited b)" and ?L = "map ?exact (rev (bm_visited b))"
  have d: "distinct ?nodes" and best: "bm_best b = foldl (heap_step search_result_less (su_result_capacity ?su)) [] ?L"
    using b(2) by (simp_all add: walk_inv_def Let_def)
  have nodes: "set ?nodes = {v. reachable n (dn_neighbors \<circ> node) ?roots v}"
    using walk_visits_reachable[OF b(2,3)] b0(3) b(4) config by (auto simp: su exact_search_def)
  have inj: "inj_on sr_key (set ?L)" by (rule sr_key_inj) (use d in \<open>simp add: comp_def\<close>)
  have valid: "\<forall>r\<in>set ?L. sr_valid r"
    using nodes reachable_range fin by (auto intro!: exact_valid)
  have cap: "0 < su_result_capacity ?su" using config n(1) by (simp add: su exact_search_def less_max_iff_disj)
  have found: "sorted_results (bm_best b) = take (su_result_capacity ?su) (sort_key sr_key ?L)"
    unfolding sorted_results_def best by (rule sro.heap_result[OF valid cap inj])
  have "length ?nodes \<le> n" using d nodes reachable_range by (intro short_ids) blast+
  then have "length (sort_key sr_key ?L) \<le> n" by simp
  then have "take (su_effective_k ?su) (sorted_results (bm_best b)) = take (gc_top_k config) (sort_key sr_key ?L)"
    unfolding found by (simp add: su min_def)
  then have "walk_search n dim look query config = Inr (take (gc_top_k config) (sort_key sr_key ?L))"
    using b0(1) b(1) config by (simp add: walk_search_def walk_topk_def su exact_search_def Let_def)
  then show ?thesis using d nodes by (intro exI[of _ ?nodes]) simp
qed

section \<open>Build, open, search\<close>

lemma word_of_unat: "word_of_nat (unat (w :: u32)) = w"
  by simp

lemma all_results_nodes:
  assumes "vs_size base < 2 ^ 32" and "distinct nodes" and "set nodes = {v. unat v < vs_size base}"
  shows "sort_key sr_key (map (exact_result query (\<lambda>v. row_values base (unat v)) (vs_dim base)) nodes) =
    sort_key sr_key (all_results base query)"
proof -
  let ?exact = "exact_result query (\<lambda>v. row_values base (unat v)) (vs_dim base)"
  let ?ids = "map (word_of_nat :: nat \<Rightarrow> u32) [0..<vs_size base]"
  have at: "unat (word_of_nat i :: u32) = i" if "i < vs_size base" for i using that assms(1) by (intro unat_word) simp
  have all: "all_results base query = map ?exact ?ids"
    by (simp add: all_results_def base_result_def exact_result_def at)
  have "distinct ?ids" using at by (simp add: distinct_map inj_on_def) (metis atLeastLessThan_iff)
  moreover have "set ?ids = set nodes"
    unfolding assms(3) using at by (auto simp: image_iff) (metis atLeastLessThan_iff le0 word_of_unat)
  ultimately have "mset ?ids = mset nodes" using assms(2) set_eq_iff_mset_eq_distinct by blast
  then have m: "mset (map ?exact nodes) = mset (sort_key sr_key (map ?exact ?ids))" by (simp only: mset_map mset_sort)
  have "inj_on sr_key (set (map ?exact nodes))" by (rule sr_key_inj) (use assms(2) in \<open>simp add: comp_def\<close>)
  from sort_key_inj_key_eq[OF m this] show ?thesis by (simp add: all)
qed

text \<open>
  Building and opening the one-page-per-node index. On a disk that does not fail, for a valid
  configuration and whatever graph policy, the builder returns, its file opens in
  \<open>NaiveDiskGraphIndex\<close> with the metadata of the build, and \<open>read_node\<close> returns every node as it
  was built: its neighbours, its vector bit for bit, the codes of its neighbours.
\<close>

lemma naive_build_opens:
  assumes "check_naive_build base config = Inr k" and "validate_build_policy config = Inr ()"
    and "\<And>seed xs. mset (br_shuffle rnd seed xs) = mset xs" and "epoch_ok em"
    and "bc_build_policy config = ''vamana'' \<Longrightarrow> \<exists>m. find_medoid (vamana_config_of config) base = Inr m"
    and "bc_page_size config < 2 ^ 32" and "outcomes d = []"
  shows "\<exists>graph st em' d' idx. build_graph rnd base config None em = (Inr graph, st, em') \<and>
    naive_build rnd base path config em d = (Inr (), em', d') \<and> NaiveDiskGraphIndex path d' = (Inr idx, d') \<and>
    ni_metadata idx = naive_metadata base config k \<and>
    (\<forall>i<vs_size base. node_on_disk idx d' (word_of_nat i) (built_node base graph (bc_pq_model config) i))"
  using naive_build_runs[OF assms, of path] by metis

text \<open>
  \<open>NaiveDiskGraphIndex::search_one\<close> computes the walk on the graph its file holds. On a disk
  that does not fail, whatever the file and the configuration, it returns what the walk returns or
  throws the exception the walk ends with, and leaves the disk alone; the beam width, the rounds
  and the nodes kept from earlier reads change only the counters.
\<close>

theorem naive_search_refines:
  assumes "outcomes d = []"
  shows "\<exists>stats. naive_search_one query config idx d =
    (seq_result (walk_search (gm_vector_count (ni_metadata idx)) (gm_dim (ni_metadata idx)) (naive_look idx d) query config)
       (\<lambda>topk. Inr (topk, stats)), d)"
  using assms by (rule naive_search_walks)

text \<open>
  C17: builder, index and brute force agree. Build the one-page-per-node index over finite vectors
  and open it; then a search without quantiser and early stops, as wide as the graph, from entry
  points that reach every node, returns exactly what \<open>search_memory_fast\<close> returns for the vectors.
\<close>

theorem naive_search_brute_force:
  assumes "check_naive_build base config = Inr k" and "validate_build_policy config = Inr ()"
    and "\<And>seed xs. mset (br_shuffle rnd seed xs) = mset xs" and "epoch_ok em"
    and "bc_build_policy config = ''vamana'' \<Longrightarrow> \<exists>m. find_medoid (vamana_config_of config) base = Inr m"
    and "bc_page_size config < 2 ^ 32" and "outcomes d = []"
    and built: "build_graph rnd base config None em = (Inr graph, st, em')"
    and reach: "\<And>v. unat v < vs_size base \<Longrightarrow>
      reachable (vs_size base) (\<lambda>v. graph ! unat v) (set (naive_entries (vs_size base) search)) v"
    and search: "exact_search (vs_size base) search"
    and fin: "finite_base base" "finite_vector (vs_dim base) query"
  shows "\<exists>d' idx stats. naive_build rnd base path config em d = (Inr (), em', d') \<and>
    NaiveDiskGraphIndex path d' = (Inr idx, d') \<and>
    naive_search_one query search idx d' =
      (seq_result (search_memory_fast base (Some query) (gc_top_k search)) (\<lambda>topk. Inr (topk, stats)), d')"
proof (rule naive_build_runs[OF assms(1-7), of path])
  note f = check_naive_facts[OF assms(1)]
  fix graph' st' em1 d' idx
  assume b: "build_graph rnd base config None em = (Inr graph', st', em1)"
    and w: "naive_build rnd base path config em d = (Inr (), em1, d')" "outcomes d' = []" "NaiveDiskGraphIndex path d' = (Inr idx, d')"
    and meta: "ni_metadata idx = naive_metadata base config k"
    and nodes: "\<forall>i<vs_size base. node_on_disk idx d' (word_of_nat i) (built_node base graph' (bc_pq_model config) i)"
  have g: "graph' = graph" "em1 = em'" using b built by simp_all
  let ?n = "vs_size base" and ?node = "\<lambda>v :: u32. built_node base graph (bc_pq_model config) (unat v)"
  have dims: "gm_vector_count (ni_metadata idx) = ?n" "gm_dim (ni_metadata idx) = vs_dim base"
    by (simp_all add: meta naive_metadata_def)
  have look: "\<forall>i. unat i < ?n \<longrightarrow> naive_look idx d' i = Inr (?node i)"
  proof (intro allI impI)
    fix i :: u32
    assume i: "unat i < ?n"
    then have "node_on_disk idx d' i (?node i)" using nodes[unfolded g] by (metis word_of_unat)
    then obtain s' where "naive_read_node idx i no_stats d' = (Inr (?node i), s', d')" unfolding node_on_disk_def by blast
    then show "naive_look idx d' i = Inr (?node i)" by (simp add: naive_look_def)
  qed
  have parts: "dn_neighbors \<circ> ?node = (\<lambda>v. graph ! unat v)" "dn_vector \<circ> ?node = (\<lambda>v. row_values base (unat v))"
    by (simp_all add: built_node_def fun_eq_iff)
  have "\<forall>i. unat i < ?n \<longrightarrow> finite_vector (vs_dim base) (dn_vector (?node i))"
    using fin(1) by (simp add: built_node_def finite_base_def)
  from exhaustive_walk[OF look search f(1) less_imp_le[OF f(2)] fin(2) this, unfolded parts]
  obtain ids where ids: "distinct ids" "set ids = {v. reachable ?n (\<lambda>v. graph ! unat v) (set (naive_entries ?n search)) v}"
    "walk_search ?n (vs_dim base) (naive_look idx d') query search = Inr (take (gc_top_k search)
      (sort_key sr_key (map (exact_result query (\<lambda>v. row_values base (unat v)) (vs_dim base)) ids)))" by blast
  have "set ids = {v. unat v < ?n}" unfolding ids(2) using reach reachable_range by blast
  note sorted = all_results_nodes[OF f(2) ids(1) this]
  have k: "0 < gc_top_k search" using search by (simp add: exact_search_def)
  have "search_memory_fast base (Some query) (gc_top_k search) =
      walk_search ?n (vs_dim base) (naive_look idx d') query search"
    using search_memory_fast_sorted[OF fin f(1) less_imp_le[OF f(2)] k] by (simp add: ids(3) sorted)
  then show ?thesis using naive_search_walks[OF w(2), of query search idx, unfolded dims] w g(2) by auto
qed

section \<open>A concrete build and search\<close>

lemma demo_naive_checks: "check_naive_build vamana_demo_vectors demo_build = Inr 0"
  by (simp add: check_naive_build_def demo_build_def vs_empty_def model_code_bytes_def kRecordsOffset_def
      graph_record_bytes_def vamana_demo_vectors_def vs_size_def)

definition demo_naive_search :: graph_search_config where
  "demo_naive_search = demo_search_config\<lparr>gc_top_k := 2, gc_entry_count := 2, gc_seed_ids := [],
     gc_adc_enable := False, gc_rerank_topk := 0\<rparr>"

lemma demo_naive_exact: "exact_search 2 demo_naive_search"
  by (simp add: exact_search_def demo_naive_search_def demo_search_config_def)

lemma demo_naive_entries: "set (naive_entries 2 demo_naive_search) = {0, 1}"
proof -
  have "[0..<2] = [0, 1 :: nat]" by (simp add: upt_rec)
  then show ?thesis by (auto simp: naive_entries_def entry_points_def demo_naive_search_def Let_def)
qed

lemma demo_naive_reach:
  "unat v < 2 \<Longrightarrow> reachable 2 nbrs (set (naive_entries 2 demo_naive_search)) v"
  unfolding demo_naive_entries by (rule root) (auto simp: less_2_cases_iff word_unat_eq_iff)

lemma naive_build_opens_instance:
  "\<exists>graph st em' d' idx.
    build_graph \<lparr>br_draw = (\<lambda>seed k. k mod 2), br_shuffle = (\<lambda>seed. rev)\<rparr> vamana_demo_vectors demo_build None
      \<lparr>em_visited_epoch = [], em_current_epoch = 0\<rparr> = (Inr graph, st, em') \<and>
    naive_build \<lparr>br_draw = (\<lambda>seed k. k mod 2), br_shuffle = (\<lambda>seed. rev)\<rparr> vamana_demo_vectors ''v1.bin'' demo_build
      \<lparr>em_visited_epoch = [], em_current_epoch = 0\<rparr> empty_disk = (Inr (), em', d') \<and>
    NaiveDiskGraphIndex ''v1.bin'' d' = (Inr idx, d') \<and> ni_metadata idx = naive_metadata vamana_demo_vectors demo_build 0 \<and>
    (\<forall>i<2. node_on_disk idx d' (word_of_nat i) (built_node vamana_demo_vectors graph None i))"
proof -
  let ?rnd = "\<lparr>br_draw = (\<lambda>seed k. k mod 2), br_shuffle = (\<lambda>seed. rev)\<rparr>"
  have perm: "\<And>seed xs. mset (br_shuffle ?rnd seed xs) = mset xs" by simp
  from naive_build_opens[OF demo_naive_checks demo_build_valid perm, of "\<lparr>em_visited_epoch = [], em_current_epoch = 0\<rparr>" empty_disk
      "''v1.bin''"]
  show ?thesis by (simp add: epoch_ok_def empty_disk_def demo_build_def)
qed

theorem naive_search_refines_witness:
  "\<exists>stats. naive_search_one [0] demo_naive_search
      \<lparr>ni_reader = pi_reader demo_index, ni_metadata = naive_metadata vamana_demo_vectors demo_build 0\<rparr> empty_disk =
    (seq_result (walk_search 2 1 (naive_look
        \<lparr>ni_reader = pi_reader demo_index, ni_metadata = naive_metadata vamana_demo_vectors demo_build 0\<rparr> empty_disk)
       [0] demo_naive_search) (\<lambda>topk. Inr (topk, stats)), empty_disk)"
  using naive_search_refines[of empty_disk "[0]" demo_naive_search
      "\<lparr>ni_reader = pi_reader demo_index, ni_metadata = naive_metadata vamana_demo_vectors demo_build 0\<rparr>"]
  by (simp add: empty_disk_def naive_metadata_def)

theorem naive_search_brute_force_witness:
  "\<exists>em' d' idx stats.
    naive_build \<lparr>br_draw = (\<lambda>seed k. k mod 2), br_shuffle = (\<lambda>seed. rev)\<rparr> vamana_demo_vectors ''v1.bin'' demo_build
      \<lparr>em_visited_epoch = [], em_current_epoch = 0\<rparr> empty_disk = (Inr (), em', d') \<and>
    NaiveDiskGraphIndex ''v1.bin'' d' = (Inr idx, d') \<and>
    naive_search_one [0] demo_naive_search idx d' =
      (seq_result (search_memory_fast vamana_demo_vectors (Some [0]) 2) (\<lambda>topk. Inr (topk, stats)), d')"
proof -
  let ?rnd = "\<lparr>br_draw = (\<lambda>seed k. k mod 2), br_shuffle = (\<lambda>seed. rev)\<rparr>"
    and ?em = "\<lparr>em_visited_epoch = [], em_current_epoch = 0\<rparr>"
  have perm: "\<And>seed xs. mset (br_shuffle ?rnd seed xs) = mset xs" by simp
  have ready: "epoch_ok ?em" "outcomes empty_disk = []" "bc_page_size demo_build < 2 ^ 32"
    "bc_build_policy demo_build \<noteq> ''vamana''" "0 < bc_degree demo_build"
    by (simp_all add: epoch_ok_def empty_disk_def demo_build_def)
  obtain graph st em' where built: "build_graph ?rnd vamana_demo_vectors demo_build None ?em = (Inr graph, st, em')"
    using build_graph_ok[OF demo_build_valid ready(5) _ perm ready(1), of vamana_demo_vectors None] ready(4) by auto
  have dims: "vs_size vamana_demo_vectors = 2" "vs_dim vamana_demo_vectors = 1" by simp_all
  have top: "gc_top_k demo_naive_search = 2" by (simp add: demo_naive_search_def)
  show ?thesis
    using naive_search_brute_force[OF demo_naive_checks demo_build_valid perm ready(1) _ ready(3,2) built, of demo_naive_search "[0]"
        "''v1.bin''", unfolded dims top]
      ready(4) demo_naive_reach demo_naive_exact vamana_demo_finite by auto
qed

end
