(* ===== verification/Dataset.thy ===== *)
theory Dataset
  imports BruteForce Disk
begin

text \<open>
  \<open>src/data/dataset.cpp\<close>: the readers of \<open>fvecs\<close> and \<open>ivecs\<close> files, synthetic data, and the
  loader that checks base vectors, queries and ground truth against each other. An open stream is
  the rest of its file: seeking past the end leaves nothing to read, and is no error. The numbers
  that the distributions of the C++ library draw from a seeded generator are parameters.
\<close>

section \<open>Records of a vector file\<close>

definition read_i32 :: "bytes \<Rightarrow> (int \<times> bytes) result" where
  "read_i32 bs =
     (case get_word bs of None \<Rightarrow> Inl (Runtime_error ''Failed to read int32'') | Some (w :: u32, bs) \<Rightarrow> Inr (sint w, bs))"

definition validate_positive_dim :: "int \<Rightarrow> unit result" where
  "validate_positive_dim dim = throw_if (dim \<le> 0 \<or> 1000000 < dim) (Runtime_error ''Invalid vector dimension'')"

definition validate_consistent_dim :: "nat \<Rightarrow> nat \<Rightarrow> nat result" where
  "validate_consistent_dim expected_dim dim =
     (if expected_dim = 0 then Inr dim
      else if expected_dim \<noteq> dim then Inl (Runtime_error ''Inconsistent vector dimension'') else Inr expected_dim)"

definition record_dim :: "bytes \<Rightarrow> (nat \<times> bytes) result" where
  "record_dim bs =
     seq_result (read_i32 bs) (\<lambda>(dim_i32, bs).
     seq_result (validate_positive_dim dim_i32) (\<lambda>_. Inr (nat dim_i32, bs)))"

definition skip_payload :: "nat \<Rightarrow> bytes \<Rightarrow> bytes" where
  "skip_payload n bs = drop n bs"

fun skip_fvecs :: "nat \<Rightarrow> nat \<Rightarrow> bytes \<Rightarrow> (nat \<times> bytes) result" where
  "skip_fvecs 0 expected_dim bs = Inr (expected_dim, bs)"
| "skip_fvecs (Suc offset) expected_dim bs =
     (if bs = [] then Inl (Runtime_error ''Query offset exceeds fvecs record count'')
      else
        seq_result (record_dim bs) (\<lambda>(dim, bs).
        seq_result (validate_consistent_dim expected_dim dim) (\<lambda>expected_dim.
        skip_fvecs offset expected_dim (skip_payload (dim * 4) bs))))"

text \<open>One record: its payload must be there in full.\<close>

definition read_row :: "nat \<Rightarrow> bytes \<Rightarrow> string \<Rightarrow> (u32 list \<times> bytes) result" where
  "read_row dim bs message =
     (case get_many get_word dim bs of None \<Rightarrow> Inl (Runtime_error message) | Some row \<Rightarrow> Inr row)"

definition read_fvec :: "nat \<Rightarrow> bytes \<Rightarrow> (nat \<times> f32 list \<times> bytes) result" where
  "read_fvec expected_dim bs =
     seq_result (record_dim bs) (\<lambda>(dim, bs).
     seq_result (validate_consistent_dim expected_dim dim) (\<lambda>expected_dim.
     seq_result (read_row dim bs ''Truncated fvecs payload'') (\<lambda>(row, bs). Inr (expected_dim, row, bs))))"

lemma record_dim_length: "record_dim bs = Inr (dim, rest) \<Longrightarrow> length bs = 4 + length rest"
  by (auto simp: record_dim_def read_i32_def seq_result_Inr_iff dest!: get_word_length split: option.splits)

lemma read_row_length: "read_row dim bs message = Inr (row, rest) \<Longrightarrow> length bs = 4 * dim + length rest"
  by (auto simp: read_row_def dest!: u32c.get_many_width split: option.splits)

lemma read_fvec_shorter: "read_fvec e bs = Inr (e', row, rest) \<Longrightarrow> length rest < length bs"
  by (fastforce simp: read_fvec_def seq_result_Inr_iff dest: record_dim_length read_row_length)

function read_fvecs :: "nat \<Rightarrow> nat \<Rightarrow> nat \<Rightarrow> f32 list list \<Rightarrow> bytes \<Rightarrow> f32 list list result" where
  "read_fvecs limit n expected_dim rows bs =
     (if bs = [] \<or> (limit \<noteq> 0 \<and> limit \<le> n) then Inr rows
      else case read_fvec expected_dim bs of
             Inl e \<Rightarrow> Inl e
           | Inr (expected_dim, row, bs) \<Rightarrow> read_fvecs limit (n + 1) expected_dim (rows @ [row]) bs)"
  by auto
termination by (relation "measure (\<lambda>(_, _, _, _, bs). length bs)") (auto dest: read_fvec_shorter)

declare read_fvecs.simps [simp del]

definition rows_set :: "f32 list list \<Rightarrow> vector_set" where
  "rows_set rows = \<lparr>vs_dim = (if rows = [] then 0 else length (hd rows)), vs_values = concat rows\<rparr>"

definition load_fvecs :: "string \<Rightarrow> nat \<Rightarrow> nat \<Rightarrow> disk \<Rightarrow> vector_set result \<times> disk" where
  "load_fvecs path limit offset d =
     (let (content, d) = read_file path d
      in (case content of
            None \<Rightarrow> Inl (Runtime_error ''Cannot open fvecs file'')
          | Some bs \<Rightarrow>
              seq_result (skip_fvecs offset 0 bs) (\<lambda>(expected_dim, bs).
              seq_result (read_fvecs limit 0 expected_dim [] bs) (\<lambda>rows. Inr (rows_set rows))), d))"

fun skip_ivecs :: "nat \<Rightarrow> bytes \<Rightarrow> bytes result" where
  "skip_ivecs 0 bs = Inr bs"
| "skip_ivecs (Suc offset) bs =
     (if bs = [] then Inl (Runtime_error ''Query offset exceeds ivecs record count'')
      else seq_result (record_dim bs) (\<lambda>(dim, bs). skip_ivecs offset (skip_payload (dim * 4) bs)))"

definition read_ivec :: "bytes \<Rightarrow> (u32 list \<times> bytes) result" where
  "read_ivec bs = seq_result (record_dim bs) (\<lambda>(dim, bs). read_row dim bs ''Truncated ivecs payload'')"

lemma read_ivec_shorter: "read_ivec bs = Inr (row, rest) \<Longrightarrow> length rest < length bs"
  by (fastforce simp: read_ivec_def seq_result_Inr_iff dest: record_dim_length read_row_length)

function read_ivecs :: "nat \<Rightarrow> u32 list list \<Rightarrow> bytes \<Rightarrow> u32 list list result" where
  "read_ivecs limit output bs =
     (if bs = [] \<or> (limit \<noteq> 0 \<and> limit \<le> length output) then Inr output
      else case read_ivec bs of Inl e \<Rightarrow> Inl e | Inr (row, bs) \<Rightarrow> read_ivecs limit (output @ [row]) bs)"
  by auto
termination by (relation "measure (\<lambda>(_, _, bs). length bs)") (auto dest: read_ivec_shorter)

declare read_ivecs.simps [simp del]

definition load_ivecs :: "string \<Rightarrow> nat \<Rightarrow> nat \<Rightarrow> disk \<Rightarrow> u32 list list result \<times> disk" where
  "load_ivecs path limit offset d =
     (let (content, d) = read_file path d
      in (case content of
            None \<Rightarrow> Inl (Runtime_error ''Cannot open ivecs file'')
          | Some bs \<Rightarrow> seq_result (skip_ivecs offset bs) (read_ivecs limit []), d))"

section \<open>Synthetic data\<close>

record synthetic_config =
  yc_base_count :: nat
  yc_query_count :: nat
  yc_dim :: nat
  yc_clusters :: nat
  yc_workload :: string
  yc_session_length :: nat
  yc_seed :: u32

text \<open>
  What the generator gives, which is seeded by the configuration and whose draws are taken in one sequence: the value of a cluster centre, of the noise of a base value, of
  the noise and the drift of a query value, and the cluster picked for a query.
\<close>

record synthetic_draws =
  yd_center :: "synthetic_config \<Rightarrow> nat \<Rightarrow> nat \<Rightarrow> f32"
  yd_point_noise :: "synthetic_config \<Rightarrow> nat \<Rightarrow> nat \<Rightarrow> f32"
  yd_query_noise :: "synthetic_config \<Rightarrow> nat \<Rightarrow> nat \<Rightarrow> f32"
  yd_session_drift :: "synthetic_config \<Rightarrow> nat \<Rightarrow> nat \<Rightarrow> f32"
  yd_cluster_pick :: "synthetic_config \<Rightarrow> nat \<Rightarrow> nat"

definition synthetic_base_row :: "synthetic_draws \<Rightarrow> synthetic_config \<Rightarrow> nat \<Rightarrow> f32 list" where
  "synthetic_base_row draws config i =
     map (\<lambda>d. f32_add (yd_center draws config (i mod yc_clusters config) d) (yd_point_noise draws config i d))
       [0..<yc_dim config]"

definition query_cluster :: "synthetic_draws \<Rightarrow> synthetic_config \<Rightarrow> nat \<Rightarrow> nat" where
  "query_cluster draws config i =
     (if yc_workload config = ''agent'' then (i div max 1 (yc_session_length config)) mod yc_clusters config
      else yd_cluster_pick draws config i)"

definition synthetic_query_row :: "synthetic_draws \<Rightarrow> synthetic_config \<Rightarrow> nat \<Rightarrow> f32 list" where
  "synthetic_query_row draws config i =
     map (\<lambda>d. let value = f32_add (yd_center draws config (query_cluster draws config i) d)
                  (yd_query_noise draws config i d)
          in if yc_workload config = ''agent'' then f32_add value (yd_session_drift draws config i d) else value)
       [0..<yc_dim config]"

definition generate_synthetic :: "synthetic_draws \<Rightarrow> synthetic_config \<Rightarrow> (vector_set \<times> vector_set) result" where
  "generate_synthetic draws config =
     (if yc_base_count config = 0 \<or> yc_query_count config = 0 \<or> yc_dim config = 0 \<or> yc_clusters config = 0
      then Inl (Runtime_error ''Synthetic counts, dimension, and clusters must be positive'')
      else if yc_workload config \<notin> {''agent'', ''random''}
      then Inl (Runtime_error ''Synthetic workload must be random or agent'')
      else Inr (\<lparr>vs_dim = yc_dim config, vs_values = concat (map (synthetic_base_row draws config) [0..<yc_base_count config])\<rparr>,
                \<lparr>vs_dim = yc_dim config, vs_values = concat (map (synthetic_query_row draws config) [0..<yc_query_count config])\<rparr>))"

definition slice_vectors :: "vector_set \<Rightarrow> nat \<Rightarrow> nat \<Rightarrow> vector_set result" where
  "slice_vectors input offset limit =
     (let total = vs_size input
      in if offset = 0 \<and> (limit = 0 \<or> total \<le> limit) then Inr input
         else if total < offset then Inl (Runtime_error ''Query offset exceeds available synthetic queries'')
         else (let available = total - offset;
                   n = (if limit = 0 then available else min limit available)
               in Inr \<lparr>vs_dim = vs_dim input,
                    vs_values = take (n * vs_dim input) (drop (offset * vs_dim input) (vs_values input))\<rparr>))"

section \<open>Loading\<close>

record dataset_paths =
  dp_base :: string
  dp_query :: string
  dp_truth :: string
  dp_sift_dir :: string

record dataset_config =
  dc_synthetic :: bool
  dc_paths :: dataset_paths
  dc_base_limit :: nat
  dc_query_offset :: nat
  dc_query_limit :: nat
  dc_synthetic_config :: synthetic_config

record loaded_dataset =
  ld_base :: vector_set
  ld_queries :: vector_set
  ld_truth :: "u32 list list"
  ld_mode :: string
  ld_truth_source :: string
  ld_truth_from_file :: bool

definition resolve_sift_paths :: "string \<Rightarrow> dataset_paths result" where
  "resolve_sift_paths sift_dir =
     (if sift_dir = [] then Inl (Runtime_error ''SIFT directory path must not be empty'')
      else (let dir = (if last sift_dir \<in> {CHR ''/'', CHR 0x5C} then sift_dir else sift_dir @ ''/'')
            in Inr \<lparr>dp_base = dir @ ''sift_base.fvecs'', dp_query = dir @ ''sift_query.fvecs'',
                 dp_truth = dir @ ''sift_groundtruth.ivecs'', dp_sift_dir = sift_dir\<rparr>))"

definition or_else :: "string \<Rightarrow> string \<Rightarrow> string" where
  "or_else s t = (if s = [] then t else s)"

definition complete_paths :: "dataset_paths \<Rightarrow> dataset_paths result" where
  "complete_paths paths =
     (if dp_sift_dir paths = [] then Inr paths
      else seq_result (resolve_sift_paths (dp_sift_dir paths)) (\<lambda>sift.
        Inr \<lparr>dp_base = or_else (dp_base paths) (dp_base sift), dp_query = or_else (dp_query paths) (dp_query sift),
          dp_truth = or_else (dp_truth paths) (dp_truth sift), dp_sift_dir = dp_sift_dir paths\<rparr>))"

definition load_synthetic :: "synthetic_draws \<Rightarrow> dataset_config \<Rightarrow> loaded_dataset result" where
  "load_synthetic draws config =
     (let sc = dc_synthetic_config config;
          sc = (if 0 < dc_query_limit config
                then sc\<lparr>yc_query_count := max (yc_query_count sc) (dc_query_offset config + dc_query_limit config)\<rparr> else sc)
      in seq_result (generate_synthetic draws sc) (\<lambda>(base, queries).
         seq_result (slice_vectors queries (dc_query_offset config) (dc_query_limit config)) (\<lambda>queries.
         Inr \<lparr>ld_base = base, ld_queries = queries, ld_truth = [], ld_mode = ''synthetic'', ld_truth_source = ''none'',
           ld_truth_from_file = False\<rparr>)))"

definition check_vectors :: "vector_set \<Rightarrow> vector_set \<Rightarrow> unit result" where
  "check_vectors base queries =
     (if vs_empty base then Inl (Runtime_error ''Loaded base dataset is empty'')
      else if vs_empty queries then Inl (Runtime_error ''Loaded query dataset is empty'')
      else if vs_dim base \<noteq> vs_dim queries then Inl (Runtime_error ''Base and query dimensions do not match'') else Inr ())"

definition check_truth :: "vector_set \<Rightarrow> vector_set \<Rightarrow> u32 list list \<Rightarrow> unit result" where
  "check_truth base queries truth =
     (if length truth \<noteq> vs_size queries then Inl (Runtime_error ''Ground-truth query count does not match loaded queries'')
      else if \<exists>row\<in>set truth. \<exists>i\<in>set row. vs_size base \<le> unat i
      then Inl (Runtime_error ''Ground-truth id exceeds loaded base count'') else Inr ())"

definition load_truth :: "string \<Rightarrow> nat \<Rightarrow> loaded_dataset \<Rightarrow> disk \<Rightarrow> loaded_dataset result \<times> disk" where
  "load_truth path offset loaded d =
     (if path = [] then (Inr loaded, d)
      else (let (truth, d) = load_ivecs path (vs_size (ld_queries loaded)) offset d
            in (seq_result truth (\<lambda>truth.
                seq_result (check_truth (ld_base loaded) (ld_queries loaded) truth) (\<lambda>_.
                Inr (loaded\<lparr>ld_truth := truth, ld_truth_source := path, ld_truth_from_file := True\<rparr>))), d)))"

definition load_files :: "dataset_config \<Rightarrow> disk \<Rightarrow> loaded_dataset result \<times> disk" where
  "load_files config d =
     (case complete_paths (dc_paths config) of
        Inl e \<Rightarrow> (Inl e, d)
      | Inr paths \<Rightarrow>
          if dp_base paths = [] \<or> dp_query paths = []
          then (Inl (Runtime_error ''Dataset loading requires base and query fvecs paths''), d)
          else (case load_fvecs (dp_base paths) (dc_base_limit config) 0 d of
                  (Inl e, d) \<Rightarrow> (Inl e, d)
                | (Inr base, d) \<Rightarrow>
               (case load_fvecs (dp_query paths) (dc_query_limit config) (dc_query_offset config) d of
                  (Inl e, d) \<Rightarrow> (Inl e, d)
                | (Inr queries, d) \<Rightarrow>
               (case check_vectors base queries of
                  Inl e \<Rightarrow> (Inl e, d)
                | Inr _ \<Rightarrow> load_truth (dp_truth paths) (dc_query_offset config)
                    \<lparr>ld_base = base, ld_queries = queries, ld_truth = [],
                     ld_mode = (if dp_sift_dir paths = [] then ''fvecs'' else ''sift''), ld_truth_source = ''none'',
                     ld_truth_from_file = False\<rparr> d))))"

definition load_dataset :: "synthetic_draws \<Rightarrow> dataset_config \<Rightarrow> disk \<Rightarrow> loaded_dataset result \<times> disk" where
  "load_dataset draws config d =
     (if dc_synthetic config then (load_synthetic draws config, d) else load_files config d)"

section \<open>Reading back a vector file\<close>

definition fvecs_file :: "nat \<Rightarrow> f32 list list \<Rightarrow> bytes" where
  "fvecs_file dim rows = concat (map (\<lambda>row. enc_word (word_of_nat dim :: u32) @ words_bytes row) rows)"

definition fvec_rows_ok :: "nat \<Rightarrow> f32 list list \<Rightarrow> bool" where
  "fvec_rows_ok dim rows \<longleftrightarrow> 0 < dim \<and> dim \<le> 1000000 \<and> (\<forall>row\<in>set rows. length row = dim)"

definition picked_rows :: "nat \<Rightarrow> 'a list \<Rightarrow> 'a list" where
  "picked_rows limit rows = (if limit = 0 then rows else take limit rows)"

lemma fvecs_file_simps [simp]:
  "fvecs_file dim [] = []" "fvecs_file dim (row # rows) = enc_word (word_of_nat dim :: u32) @ words_bytes row @ fvecs_file dim rows"
  by (simp_all add: fvecs_file_def)

lemma enc_word_nonempty [simp]: "enc_word (w :: u32) \<noteq> []"
proof -
  have "length (enc_word w) = 4" by simp
  then show ?thesis by (metis list.size(3) zero_neq_numeral)
qed

lemma record_dim_enc:
  assumes "0 < dim" and "dim \<le> 1000000"
  shows "record_dim (enc_word (word_of_nat dim :: u32) @ bs) = Inr (dim, bs)"
proof -
  have "sint (word_of_nat dim :: u32) = int dim"
    using assms by (simp add: signed_of_nat signed_take_bit_int_eq_self)
  then show ?thesis using assms
    by (simp add: record_dim_def read_i32_def validate_positive_dim_def throw_if_def)
qed

lemma read_row_enc: "length row = dim \<Longrightarrow> read_row dim (words_bytes row @ bs) message = Inr (row, bs)"
  using get_many_words_bytes[of row bs] by (simp add: read_row_def)

lemma consistent_dim: "e \<in> {0, dim} \<Longrightarrow> validate_consistent_dim e dim = Inr dim"
  by (auto simp: validate_consistent_dim_def)

lemma skip_fvecs_file:
  assumes "fvec_rows_ok dim rows" and "e \<in> {0, dim}"
  shows "skip_fvecs k e (fvecs_file dim rows) =
    (if length rows < k then Inl (Runtime_error ''Query offset exceeds fvecs record count'')
     else Inr (if k = 0 then e else dim, fvecs_file dim (drop k rows)))"
  using assms
proof (induction k arbitrary: e rows)
  case (Suc k)
  show ?case
  proof (cases rows)
    case (Cons row rest)
    have "fvec_rows_ok dim rest" "0 < dim" "dim \<le> 1000000" "length row = dim" using Suc.prems(1) by (simp_all add: Cons fvec_rows_ok_def)
    then show ?thesis using Suc.IH[of rest dim] Suc.prems(2)
      by (simp add: Cons record_dim_enc consistent_dim skip_payload_def)
  qed simp
qed simp

lemma read_fvecs_file:
  assumes "fvec_rows_ok dim rows" and "e \<in> {0, dim}"
  shows "read_fvecs limit n e acc (fvecs_file dim rows) = Inr (acc @ (if limit = 0 then rows else take (limit - n) rows))"
  using assms
proof (induction rows arbitrary: n e acc)
  case (Cons row rows)
  then have row: "fvec_rows_ok dim rows" "0 < dim" "dim \<le> 1000000" "length row = dim" by (simp_all add: fvec_rows_ok_def)
  show ?case
  proof (cases "limit \<noteq> 0 \<and> limit \<le> n")
    case False
    have "read_fvec e (fvecs_file dim (row # rows)) = Inr (dim, row, fvecs_file dim rows)"
      using row Cons.prems(2) by (simp add: read_fvec_def record_dim_enc consistent_dim read_row_enc)
    moreover have "limit \<noteq> 0 \<Longrightarrow> limit - n = Suc (limit - Suc n)" using False by linarith
    ultimately show ?thesis using False Cons.IH[OF row(1), of dim "n + 1" "acc @ [row]"]
      by (subst read_fvecs.simps) auto
  qed (simp add: read_fvecs.simps)
qed (simp add: read_fvecs.simps)

text \<open>
  C22: reading back a vector file. For a file of rows of one dimension in range, and whatever limit
  and offset, the loader returns exactly the rows from the offset on, at most as many as the limit
  where there is one, bit for bit and in order; an offset past the last record is an error.
\<close>

theorem load_fvecs_roundtrip:
  assumes "fvec_rows_ok dim rows" and "outcomes d = []" and "files d path = Some (fvecs_file dim rows)"
  shows "load_fvecs path limit offset d =
    (if length rows < offset then Inl (Runtime_error ''Query offset exceeds fvecs record count'')
     else Inr (rows_set (picked_rows limit (drop offset rows))), d)"
proof -
  have "fvec_rows_ok dim (drop offset rows)" using assms(1) by (auto simp: fvec_rows_ok_def dest: in_set_dropD)
  then show ?thesis
    using assms(2,3) skip_fvecs_file[OF assms(1), of 0 offset] read_fvecs_file[of dim "drop offset rows" _ limit 0 "[]"]
    by (simp add: load_fvecs_def picked_rows_def)
qed

text \<open>A truncated record is an error when it is read, not when it is skipped: the stream then just ends.\<close>

lemma truncated_skip_unnoticed:
  assumes "0 < dim" and "dim \<le> 1000000" and "length part < 4 * dim" and "outcomes d = []"
    and "files d path = Some (enc_word (word_of_nat dim :: u32) @ part)"
  shows "load_fvecs path limit 1 d = (Inr (rows_set []), d)" and
    "load_fvecs path limit 0 d = (Inl (Runtime_error ''Truncated fvecs payload''), d)"
proof -
  have short: "read_row dim part message = Inl (Runtime_error message)" for message
    using u32c.get_many_short[of part dim] assms(3) by (simp add: read_row_def)
  have "skip_fvecs 1 0 (enc_word (word_of_nat dim :: u32) @ part) = Inr (dim, [])"
    using assms(1-3) by (simp add: record_dim_enc validate_consistent_dim_def skip_payload_def)
  then show "load_fvecs path limit 1 d = (Inr (rows_set []), d)"
    using assms(4,5) by (simp add: load_fvecs_def read_fvecs.simps)
  have "read_fvec 0 (enc_word (word_of_nat dim :: u32) @ part) = Inl (Runtime_error ''Truncated fvecs payload'')"
    using assms(1,2) short by (simp add: read_fvec_def record_dim_enc validate_consistent_dim_def)
  then show "load_fvecs path limit 0 d = (Inl (Runtime_error ''Truncated fvecs payload''), d)"
    using assms(4,5) by (auto simp: load_fvecs_def read_fvecs.simps)
qed

section \<open>What a loaded dataset is\<close>

lemma synthetic_sizes:
  "length (concat (map (synthetic_base_row draws config) [0..<n])) = n * yc_dim config"
  "length (concat (map (synthetic_query_row draws config) [0..<n])) = n * yc_dim config"
  by (induction n) (simp_all add: synthetic_base_row_def synthetic_query_row_def)

lemma load_synthetic_sizes:
  assumes "load_synthetic draws config = Inr loaded"
  shows "0 < vs_size (ld_base loaded) \<and> vs_dim (ld_base loaded) = vs_dim (ld_queries loaded) \<and> \<not> ld_truth_from_file loaded"
proof -
  obtain sc base queries sliced where 1: "generate_synthetic draws sc = Inr (base, queries)"
    and 2: "slice_vectors queries (dc_query_offset config) (dc_query_limit config) = Inr sliced"
    and 3: "ld_base loaded = base" "ld_queries loaded = sliced" "\<not> ld_truth_from_file loaded"
    using assms by (auto simp: load_synthetic_def Let_def seq_result_Inr_iff)
  have "0 < vs_size base" "vs_dim base = vs_dim queries"
    using 1 by (auto simp: generate_synthetic_def vs_size_def synthetic_sizes split: if_splits)
  moreover have "vs_dim sliced = vs_dim queries" using 2 by (auto simp: slice_vectors_def Let_def split: if_splits)
  ultimately show ?thesis using 3 by simp
qed

lemma load_truth_checked:
  assumes "load_truth path offset loaded d = (Inr loaded', d')" and "\<not> ld_truth_from_file loaded"
  shows "ld_base loaded' = ld_base loaded \<and> ld_queries loaded' = ld_queries loaded \<and>
    (ld_truth_from_file loaded' \<longrightarrow> length (ld_truth loaded') = vs_size (ld_queries loaded) \<and>
      (\<forall>row\<in>set (ld_truth loaded'). \<forall>i\<in>set row. unat i < vs_size (ld_base loaded)))"
  using assms by (auto simp: load_truth_def check_truth_def seq_result_Inr_iff Let_def not_le split: if_splits prod.splits)

lemma load_files_checked:
  assumes "load_files config d = (Inr loaded, d')"
  obtains base queries path offset mode d1 where "check_vectors base queries = Inr ()"
    "load_truth path offset \<lparr>ld_base = base, ld_queries = queries, ld_truth = [], ld_mode = mode, ld_truth_source = ''none'',
      ld_truth_from_file = False\<rparr> d1 = (Inr loaded, d')"
  using assms unfolding load_files_def by (simp split: sum.splits prod.splits if_splits)

text \<open>
  A loaded dataset is consistent. Base and queries are not empty unless the queries asked for
  lie past the synthetic ones, they have the same dimension, and ground truth from a file has one
  row per query and names only base vectors.
\<close>

theorem load_dataset_consistent:
  assumes "load_dataset draws config d = (Inr loaded, d')"
  shows "0 < vs_size (ld_base loaded) \<and> vs_dim (ld_base loaded) = vs_dim (ld_queries loaded) \<and>
    (\<not> dc_synthetic config \<longrightarrow> 0 < vs_size (ld_queries loaded)) \<and>
    (ld_truth_from_file loaded \<longrightarrow> length (ld_truth loaded) = vs_size (ld_queries loaded) \<and>
      (\<forall>row\<in>set (ld_truth loaded). \<forall>i\<in>set row. unat i < vs_size (ld_base loaded)))"
proof (cases "dc_synthetic config")
  case True
  then have "load_synthetic draws config = Inr loaded" using assms by (simp add: load_dataset_def)
  then show ?thesis using True load_synthetic_sizes by blast
next
  case False
  then have "load_files config d = (Inr loaded, d')" using assms by (simp add: load_dataset_def)
  then show ?thesis
  proof (rule load_files_checked)
    fix base queries path offset mode d1
    let ?l = "\<lparr>ld_base = base, ld_queries = queries, ld_truth = [], ld_mode = mode, ld_truth_source = ''none'',
      ld_truth_from_file = False\<rparr>"
    assume "check_vectors base queries = Inr ()" and t: "load_truth path offset ?l d1 = (Inr loaded, d')"
    then have "0 < vs_size base" "0 < vs_size queries" "vs_dim base = vs_dim queries"
      by (auto simp: check_vectors_def vs_empty_def split: if_splits)
    then show ?thesis using load_truth_checked[OF t] by simp
  qed
qed

theorem load_fvecs_roundtrip_witness:
  "load_fvecs ''q.fvecs'' 1 1 (put_file ''q.fvecs'' (fvecs_file 2 [[1, 2], [3, 4], [5, 6]]) empty_disk) =
    (Inr \<lparr>vs_dim = 2, vs_values = [3, 4]\<rparr>, put_file ''q.fvecs'' (fvecs_file 2 [[1, 2], [3, 4], [5, 6]]) empty_disk)"
  using load_fvecs_roundtrip[of 2 "[[1, 2], [3, 4], [5, 6]]" "put_file ''q.fvecs'' (fvecs_file 2 [[1, 2], [3, 4], [5, 6]]) empty_disk"
      "''q.fvecs''" 1 1]
  by (simp add: fvec_rows_ok_def empty_disk_def rows_set_def picked_rows_def)

end
