(* ===== verification/UringReader.thy ===== *)
theory UringReader
  imports PageReader
begin

text \<open>
  \<open>src/core/async_page_reader.cpp\<close> as it is compiled with liburing. The reader is the one of
  \<open>PageReader\<close> with a ring, a pool of aligned buffers and the buffers of the reads in flight.
  liburing and the kernel behind it are a parameter: a record of functions on a state of their
  own. Memory allocation succeeds, and of the counters those of \<open>PageReader\<close> are kept.
\<close>

section \<open>The interface of liburing\<close>

text \<open>A read that is handed to the ring: descriptor (by path), offset, length, buffer and tag.\<close>

record sqe =
  se_path :: string
  se_offset :: u64
  se_bytes :: nat
  se_buffer :: nat
  se_user_data :: u64

text \<open>
  \<open>lu_queue_read\<close> is \<open>io_uring_get_sqe\<close> with \<open>io_uring_prep_read\<close>, and fails when the queue is
  full; \<open>lu_pop_cqe\<close> is \<open>io_uring_wait_cqe\<close> or \<open>io_uring_peek_cqe\<close> with \<open>io_uring_cqe_seen\<close>, and
  gives the return code and, where there is one, the tag and result of a completion;
  \<open>lu_buffer\<close> is the memory of a buffer.
\<close>

record 'k liburing =
  lu_queue_init :: "nat \<Rightarrow> 'k \<Rightarrow> int \<times> 'k"
  lu_queue_exit :: "'k \<Rightarrow> 'k"
  lu_queue_read :: "sqe \<Rightarrow> 'k \<Rightarrow> bool \<times> 'k"
  lu_submit :: "'k \<Rightarrow> int \<times> 'k"
  lu_pop_cqe :: "bool \<Rightarrow> 'k \<Rightarrow> int \<times> (u64 \<times> int) option \<times> 'k"
  lu_buffer :: "'k \<Rightarrow> nat \<Rightarrow> bytes"

section \<open>The pool of buffers\<close>

record buffer_pool =
  bp_capacity :: nat
  bp_free_list :: "nat list"

definition pool_reset :: "nat \<Rightarrow> nat \<Rightarrow> buffer_pool" where
  "pool_reset n bytes_each =
     (if n = 0 \<or> bytes_each = 0 then \<lparr>bp_capacity = 0, bp_free_list = []\<rparr> else \<lparr>bp_capacity = n, bp_free_list = [0..<n]\<rparr>)"

definition pool_acquire :: "buffer_pool \<Rightarrow> (nat \<times> buffer_pool) option" where
  "pool_acquire pool =
     (if bp_free_list pool = [] then None
      else Some (last (bp_free_list pool), pool\<lparr>bp_free_list := butlast (bp_free_list pool)\<rparr>))"

definition pool_release :: "nat \<Rightarrow> buffer_pool \<Rightarrow> buffer_pool result" where
  "pool_release i pool =
     (if bp_capacity pool \<le> i then Inl (Runtime_error ''Invalid graph I/O buffer pool release'')
      else Inr (pool\<lparr>bp_free_list := bp_free_list pool @ [i]\<rparr>))"

section \<open>The ring\<close>

record 'k lib_uring =
  lr_opened :: bool
  lr_next_user_data :: u64
  lr_queued_submissions :: nat
  lr_kernel :: 'k

definition ring_close :: "'k liburing \<Rightarrow> 'k lib_uring \<Rightarrow> 'k lib_uring" where
  "ring_close lu ring =
     (if lr_opened ring
      then ring\<lparr>lr_opened := False, lr_queued_submissions := 0, lr_kernel := lu_queue_exit lu (lr_kernel ring)\<rparr>
      else ring\<lparr>lr_queued_submissions := 0\<rparr>)"

definition ring_open :: "'k liburing \<Rightarrow> nat \<Rightarrow> 'k lib_uring \<Rightarrow> bool \<times> 'k lib_uring" where
  "ring_open lu entries ring =
     (let ring = ring_close lu ring;
          (rc, k) = lu_queue_init lu (max 1 (min entries 4096)) (lr_kernel ring)
      in if rc < 0 then (False, ring\<lparr>lr_kernel := k\<rparr>)
         else (True, ring\<lparr>lr_opened := True, lr_queued_submissions := 0, lr_next_user_data := 1, lr_kernel := k\<rparr>))"

text \<open>The length of a read is cast to 32 bits, here and where its result is checked.\<close>

definition u32_of_bytes :: "nat \<Rightarrow> nat" where
  "u32_of_bytes n = unat (word_of_nat n :: u32)"

definition ring_queue_read :: "'k liburing \<Rightarrow> sqe \<Rightarrow> 'k lib_uring \<Rightarrow> bool \<times> 'k lib_uring" where
  "ring_queue_read lu sq ring =
     (let (ok, k) = lu_queue_read lu (sq\<lparr>se_bytes := u32_of_bytes (se_bytes sq)\<rparr>) (lr_kernel ring)
      in (ok, ring\<lparr>lr_kernel := k, lr_queued_submissions := lr_queued_submissions ring + (if ok then 1 else 0)\<rparr>))"

text \<open>Submitting until nothing is queued: whether it worked, and the number of calls that did.\<close>

function submit_queued :: "'k liburing \<Rightarrow> nat \<Rightarrow> 'k lib_uring \<Rightarrow> bool \<times> nat \<times> 'k lib_uring" where
  "submit_queued lu calls ring =
     (if lr_queued_submissions ring = 0 then (True, calls, ring)
      else (let (submitted, k) = lu_submit lu (lr_kernel ring); ring = ring\<lparr>lr_kernel := k\<rparr>
            in if submitted \<le> 0 then (False, calls, ring)
               else submit_queued lu (calls + 1)
                      (ring\<lparr>lr_queued_submissions := lr_queued_submissions ring - nat submitted\<rparr>)))"
  by auto
termination by (relation "measure (\<lambda>(_, _, ring). lr_queued_submissions ring)") auto

declare submit_queued.simps [simp del]

text \<open>A return code of \<open>- EAGAIN\<close> means that nothing has completed, and is no error.\<close>

definition kEAGAIN :: int where
  "kEAGAIN = 11"

definition pop_completion :: "'k liburing \<Rightarrow> bool \<Rightarrow> 'k lib_uring \<Rightarrow> (u64 \<times> int) option result \<times> 'k lib_uring" where
  "pop_completion lu wait ring =
     (let (rc, cqe, k) = lu_pop_cqe lu wait (lr_kernel ring)
      in (if rc < 0 \<and> rc \<noteq> - kEAGAIN then Inl (Runtime_error ''io_uring_wait_cqe_failed'')
          else if rc < 0 then Inr None else Inr cqe, ring\<lparr>lr_kernel := k\<rparr>))"

definition as_int :: "nat \<Rightarrow> int" where
  "as_int n = sint (word_of_nat n :: u32)"

text \<open>
  \<open>LibUring::read\<close> drops completions until its own arrives; nothing bounds their number, and a
  ring that never delivers it is the value \<open>None\<close>.
\<close>

partial_function (option) ring_await :: "'k liburing \<Rightarrow> u64 \<Rightarrow> 'k lib_uring \<Rightarrow> (int option \<times> 'k lib_uring) option" where
  "ring_await lu user_data ring =
     (case pop_completion lu True ring of
        (Inr (Some (t, res)), ring) \<Rightarrow> if t = user_data then Some (Some res, ring) else ring_await lu user_data ring
      | (_, ring) \<Rightarrow> Some (None, ring))"

declare ring_await.simps [code]

definition ring_read ::
  "'k liburing \<Rightarrow> string \<Rightarrow> u64 \<Rightarrow> nat \<Rightarrow> nat \<Rightarrow> 'k lib_uring \<Rightarrow> search_stats \<Rightarrow>
   (bytes option \<times> 'k lib_uring \<times> search_stats) option" where
  "ring_read lu path offset buffer n ring s =
     (let user_data = lr_next_user_data ring; ring = ring\<lparr>lr_next_user_data := user_data + 1\<rparr>;
          (queued, ring) = ring_queue_read lu \<lparr>se_path = path, se_offset = offset, se_bytes = n, se_buffer = buffer,
            se_user_data = user_data\<rparr> ring
      in if \<not> queued then Some (None, ring, s)
         else (let (ok, calls, ring) = submit_queued lu 0 ring
               in if \<not> ok then Some (None, ring, s)
                  else (let s = bump Io_submit_syscalls calls (bump_all [Io_submits, Submitted_reads] s)
                        in map_option (\<lambda>(res, ring). case res of
                             None \<Rightarrow> (None, ring, s)
                           | Some res \<Rightarrow> (if res \<noteq> as_int n then None else Some (take n (lu_buffer lu (lr_kernel ring) buffer)),
                               ring, bump_all [Io_completions, Completed_reads] s)) (ring_await lu user_data ring))))"

section \<open>The reader\<close>

record async_buffer =
  ab_bytes :: nat
  ab_index :: nat

record 'k uring =
  ur_async_buffers :: "(u64, async_buffer) umap"
  ur_pool :: "buffer_pool option"
  ur_ring :: "'k lib_uring"

text \<open>
  \<open>close_native\<close> waits for the reads in flight. Completions of other reads do not count, so again
  nothing bounds the loop.
\<close>

partial_function (option) drain_ring ::
  "'k liburing \<Rightarrow> (u64, async_buffer) umap \<Rightarrow> 'k lib_uring \<Rightarrow> 'k lib_uring option" where
  "drain_ring lu buffers ring =
     (if um_items buffers = [] then Some ring
      else case pop_completion lu True ring of
             (Inr (Some (t, res)), ring) \<Rightarrow> drain_ring lu (um_erase t buffers) ring
           | (_, ring) \<Rightarrow> Some ring)"

declare drain_ring.simps [code]

definition uring_close_native :: "'k liburing \<Rightarrow> page_reader \<Rightarrow> 'k uring \<Rightarrow> (page_reader \<times> 'k uring) option" where
  "uring_close_native lu r u =
     map_option (\<lambda>ring. (close_native r, \<lparr>ur_async_buffers = um_empty, ur_pool = None, ur_ring = ring_close lu ring\<rparr>))
       (drain_ring lu (ur_async_buffers u) (ur_ring u))"

definition uring_fallback ::
  "'k liburing \<Rightarrow> string \<Rightarrow> page_reader \<Rightarrow> 'k uring \<Rightarrow> disk \<Rightarrow> (unit result \<times> page_reader \<times> 'k uring \<times> disk) option" where
  "uring_fallback lu reason r u d =
     map_option (\<lambda>(r, u). let (opened, r, d) = fallback_to_pread reason r d in (opened, r, u, d)) (uring_close_native lu r u)"

definition uring_configure ::
  "'k liburing \<Rightarrow> string \<Rightarrow> nat \<Rightarrow> nat \<Rightarrow> page_reader \<Rightarrow> 'k uring \<Rightarrow> disk \<Rightarrow>
   (unit result \<times> page_reader \<times> 'k uring \<times> disk) option" where
  "uring_configure lu mode batch_size io_depth r u d =
     (if mode \<notin> {''pread'', ''odirect'', ''io_uring''}
      then Some (Inl (Runtime_error ''Unsupported disk I/O mode''), r, u, d)
      else if batch_size = 0 then Some (Inl (Runtime_error ''Disk I/O batch size must be positive''), r, u, d)
      else if io_depth = 0 then Some (Inl (Runtime_error ''Disk I/O depth must be positive''), r, u, d)
      else if mode \<noteq> ''io_uring''
      then map_option (\<lambda>(r, u). let (done, r, d) = reader_configure mode batch_size io_depth r d in (done, r, u, d))
             (uring_close_native lu r u)
      else case uring_close_native lu r u of
             None \<Rightarrow> None
           | Some (r, u) \<Rightarrow>
               (let r = r\<lparr>pr_status := default_status\<lparr>is_requested_mode := mode, is_batch_size := batch_size, is_depth := io_depth\<rparr>\<rparr>
                in if \<not> direct_io_layout_supported r
                   then uring_fallback lu ''io_uring_requires_4096_aligned_pages'' r u d
                   else (let (opened, r, d) = try_open_linux_fd r d
                         in if \<not> opened then uring_fallback lu ''io_uring_odirect_open_failed_errno'' r u d
                            else (let (ok, ring) = ring_open lu io_depth (ur_ring u); u = u\<lparr>ur_ring := ring\<rparr>
                                  in if \<not> ok then uring_fallback lu ''io_uring_queue_init_failed_errno'' r u d
                                     else Some (Inr (), r\<lparr>pr_status := (pr_status r)\<lparr>is_effective_mode := ''io_uring'',
                                            is_direct_enabled := True, is_io_uring_enabled := True\<rparr>\<rparr>,
                                            u\<lparr>ur_pool := Some (pool_reset io_depth (pr_page_size r))\<rparr>, d)))))"

definition uring_pending :: "page_reader \<Rightarrow> 'k uring \<Rightarrow> nat" where
  "uring_pending r u = length (um_items (ur_async_buffers u)) + length (pr_inline_completions r)"

definition unaligned :: "page_reader \<Rightarrow> u64 \<Rightarrow> nat \<Rightarrow> bool" where
  "unaligned r offset n \<longleftrightarrow> is_direct_enabled (pr_status r) \<and>
     (unat offset mod kDirectIoAlignment \<noteq> 0 \<or> n mod kDirectIoAlignment \<noteq> 0)"

definition start_async_read ::
  "'k liburing \<Rightarrow> u64 \<Rightarrow> nat \<Rightarrow> page_reader \<Rightarrow> 'k uring \<Rightarrow> search_stats \<Rightarrow>
   u64 result \<times> page_reader \<times> 'k uring \<times> search_stats" where
  "start_async_read lu offset n r u s =
     (if \<not> async_enabled r then (Inl (Runtime_error ''Async graph reads require io_uring mode''), r, u, s)
      else if unaligned r offset n
      then (Inl (Runtime_error ''Direct graph I/O requires aligned page offsets and lengths''), r, u, s)
      else case ur_pool u of
        None \<Rightarrow> (Inl (Runtime_error ''Graph async I/O buffer pool is not initialized''), r, u, s)
      | Some pool \<Rightarrow>
          if bp_capacity pool = 0
          then (Inl (Runtime_error ''Graph async I/O buffer pool is not initialized''), r, u, s)
          else case pool_acquire pool of
            None \<Rightarrow> (Inl (Runtime_error ''Graph async I/O buffer pool is exhausted''), r, u, s)
          | Some (i, pool) \<Rightarrow>
              (let token = pr_next_token r; r = r\<lparr>pr_next_token := token + 1\<rparr>;
                   (queued, ring) = ring_queue_read lu \<lparr>se_path = pr_path r, se_offset = offset, se_bytes = n,
                     se_buffer = i, se_user_data = token\<rparr> (ur_ring u);
                   u = u\<lparr>ur_ring := ring, ur_pool := Some pool\<rparr>
               in if \<not> queued
                  then (case pool_release i pool of
                          Inl e \<Rightarrow> (Inl e, r, u, s)
                        | Inr pool \<Rightarrow> (Inl (Runtime_error ''Graph page async read failed''), r, u\<lparr>ur_pool := Some pool\<rparr>, s))
                  else (Inr token, r, u\<lparr>ur_async_buffers :=
                          (if um_find (ur_async_buffers u) token = None
                           then um_assign token \<lparr>ab_bytes = n, ab_index = i\<rparr> (ur_async_buffers u) else ur_async_buffers u)\<rparr>,
                        bump_all [Io_submits, Submitted_reads, Ssd_reads] s)))"

definition submit_async_reads ::
  "'k liburing \<Rightarrow> page_reader \<Rightarrow> 'k uring \<Rightarrow> search_stats \<Rightarrow> unit result \<times> 'k uring \<times> search_stats" where
  "submit_async_reads lu r u s =
     (if \<not> async_enabled r then (Inr (), u, s)
      else (let (ok, calls, ring) = submit_queued lu 0 (ur_ring u); u = u\<lparr>ur_ring := ring\<rparr>
            in if \<not> ok then (Inl (Runtime_error ''Graph page async submit failed''), u, s)
               else (Inr (), u, bump Io_submit_syscalls calls s)))"

text \<open>The loop of \<open>batch_submit\<close>: \<open>queued\<close> reads since the last submission.\<close>

fun submit_requests ::
  "'k liburing \<Rightarrow> nat \<Rightarrow> nat \<Rightarrow> read_request list \<Rightarrow> page_reader \<Rightarrow> 'k uring \<Rightarrow> search_stats \<Rightarrow>
   (u32 \<times> u64) list result \<times> page_reader \<times> 'k uring \<times> search_stats" where
  "submit_requests lu limit queued [] r u s =
     (if 0 < queued then (let (ok, u, s) = submit_async_reads lu r u s in (seq_result ok (\<lambda>_. Inr []), r, u, s))
      else (Inr [], r, u, s))"
| "submit_requests lu limit queued (rq # rqs) r u s =
     (case start_async_read lu (rq_offset rq) (rq_bytes rq) r u s of
        (Inl e, r, u, s) \<Rightarrow> (Inl e, r, u, s)
      | (Inr token, r, u, s) \<Rightarrow>
          (let (ok, u, s, queued) = (if limit \<le> queued + 1
                 then (case submit_async_reads lu r u s of (ok, u, s) \<Rightarrow> (ok, u, s, 0)) else (Inr (), u, s, queued + 1))
           in case ok of
                Inl e \<Rightarrow> (Inl e, r, u, s)
              | Inr _ \<Rightarrow>
                  (let (submitted, r, u, s) = submit_requests lu limit queued rqs r u s
                   in (seq_result submitted (\<lambda>reads. Inr ((rq_page_id rq, token) # reads)), r, u, s))))"

definition uring_batch_submit ::
  "'k liburing \<Rightarrow> read_request list \<Rightarrow> page_reader \<Rightarrow> 'k uring \<Rightarrow> search_stats \<Rightarrow> disk \<Rightarrow>
   (u32 \<times> u64) list result \<times> page_reader \<times> 'k uring \<times> search_stats \<times> disk" where
  "uring_batch_submit lu requests r u s d =
     (if requests = [] then (Inr [], r, u, s, d)
      else if \<not> async_enabled r
      then (let (submitted, r, s, d) = batch_submit requests r s d in (submitted, r, u, s, d))
      else (let limit = max 1 (min (is_batch_size (pr_status r)) (max 1 (max_pending_reads r)));
                (submitted, r, u, s) = submit_requests lu limit 0 requests r u s
            in (submitted, r, u, s, d)))"

definition uring_reap ::
  "'k liburing \<Rightarrow> bool \<Rightarrow> page_reader \<Rightarrow> 'k uring \<Rightarrow> search_stats \<Rightarrow>
   completed_read option result \<times> page_reader \<times> 'k uring \<times> search_stats" where
  "uring_reap lu wait r u s =
     (case reap_async_read r of
        (Some c, r) \<Rightarrow> (Inr (Some c), r, u, s)
      | (None, r) \<Rightarrow>
          if \<not> async_enabled r then (Inr None, r, u, s)
          else (case pop_completion lu wait (ur_ring u) of
            (Inl e, ring) \<Rightarrow> (Inl (Runtime_error ''Graph page async wait failed''), r, u\<lparr>ur_ring := ring\<rparr>, s)
          | (Inr None, ring) \<Rightarrow> (Inr None, r, u\<lparr>ur_ring := ring\<rparr>, s)
          | (Inr (Some (token, res)), ring) \<Rightarrow>
              (let u = u\<lparr>ur_ring := ring\<rparr>
               in case um_find (ur_async_buffers u) token of
                    None \<Rightarrow> (Inl (Runtime_error ''Unknown graph async completion token''), r, u, s)
                  | Some buffer \<Rightarrow>
                      (let u = u\<lparr>ur_async_buffers := um_erase token (ur_async_buffers u)\<rparr>;
                           s = bump_all [Io_completions, Completed_reads] s;
                           data = take (ab_bytes buffer) (lu_buffer lu (lr_kernel ring) (ab_index buffer));
                           released = (case ur_pool u of None \<Rightarrow> Inr None
                             | Some pool \<Rightarrow> seq_result (pool_release (ab_index buffer) pool) (\<lambda>pool. Inr (Some pool)))
                       in case released of
                            Inl e \<Rightarrow> (Inl e, r, u, s)
                          | Inr pool \<Rightarrow>
                              (if res \<noteq> as_int (ab_bytes buffer) then Inl (Runtime_error ''Graph page async read failed'')
                               else Inr (Some \<lparr>cr_token = token, cr_data = data\<rparr>), r, u\<lparr>ur_pool := pool\<rparr>, s)))))"

text \<open>\<open>read\<close>; its buffer is not one of the pool.\<close>

definition uring_read ::
  "'k liburing \<Rightarrow> u64 \<Rightarrow> nat \<Rightarrow> page_reader \<Rightarrow> 'k uring \<Rightarrow> search_stats \<Rightarrow> disk \<Rightarrow>
   (bytes result \<times> 'k uring \<times> search_stats \<times> disk) option" where
  "uring_read lu offset n r u s d =
     (if \<not> async_enabled r then (let (data, s, d) = reader_read offset n r s d in Some (data, u, s, d))
      else if um_items (ur_async_buffers u) \<noteq> []
      then Some (Inl (Runtime_error ''Cannot perform synchronous io_uring read with pending async reads''), u, s, d)
      else if unaligned r offset n
      then Some (Inl (Runtime_error ''Direct graph I/O requires aligned page offsets and lengths''), u, s, d)
      else map_option (\<lambda>(data, ring, s).
             (case data of None \<Rightarrow> Inl (Runtime_error ''Graph page read failed'') | Some bs \<Rightarrow> Inr bs,
              u\<lparr>ur_ring := ring\<rparr>, bump_all [Sync_reads, Ssd_reads] s, d))
           (ring_read lu (pr_path r) offset (case ur_pool u of None \<Rightarrow> 0 | Some pool \<Rightarrow> bp_capacity pool) n (ur_ring u) s))"

end
