(* ===== verification/UringReads.thy ===== *)
theory UringReads
  imports UringReader
begin

text \<open>
  What the reader of \<open>UringReader\<close> guarantees on a ring that keeps its documented contract: a
  buffer of the pool is free or belongs to one read in flight, and a completion that is handed
  out carries the bytes of the file that its read asked for, whatever the order of completions.
\<close>

section \<open>Maps as lists of items\<close>

lemma um_items_new: "um_find m k = None \<Longrightarrow> um_items (um_assign k v m) = um_items m @ [(k, v)]"
  unfolding um_find_def um_items_def um_assign_def by (induction m) (auto split: if_splits)

lemma um_items_erase:
  assumes "um_ok m" and "um_find m k = Some v"
  shows "mset (um_items m) = add_mset (k, v) (mset (um_items (um_erase k m)))"
proof -
  have "set (um_items m) = insert (k, v) (set (um_items (um_erase k m)))"
    using um.items_lkp[OF assms(1)] um.items_lkp[OF um.ok_erase[OF assms(1)]] assms by (auto split: if_splits)
  moreover have "distinct (um_items m)" "distinct (um_items (um_erase k m))" "(k, v) \<notin> set (um_items (um_erase k m))"
    using um.distinct_items[OF assms(1)] um.distinct_items[OF um.ok_erase[OF assms(1)]]
      um.items_lkp[OF um.ok_erase[OF assms(1)]] assms(1) by (auto simp: distinct_map)
  ultimately show ?thesis by (metis distinct.simps(2) list.set(2) mset.simps(2) set_eq_iff_mset_eq_distinct)
qed

section \<open>The contract of the ring\<close>

text \<open>
  \<open>flying k\<close> are the reads the ring has accepted and not yet reported. Accepting a read adds it,
  submitting changes nothing, a ring that is set up has none, and a completion reports one of them; when it reports the full
  length and no other accepted read uses the buffer, the buffer holds the bytes of the file. The
  order in which reads are reported, and whether they succeed, is left open.
\<close>

definition kernel_ok :: "'k liburing \<Rightarrow> ('k \<Rightarrow> sqe set) \<Rightarrow> disk \<Rightarrow> bool" where
  "kernel_ok lu flying d \<longleftrightarrow>
     (\<forall>sq k. flying (snd (lu_queue_read lu sq k)) = (if fst (lu_queue_read lu sq k) then insert sq (flying k) else flying k)) \<and>
     (\<forall>k. flying (snd (lu_submit lu k)) = flying k) \<and>
     (\<forall>n k. 0 \<le> fst (lu_queue_init lu n k) \<longrightarrow> flying (snd (lu_queue_init lu n k)) = {}) \<and>
     (\<forall>wait k rc cqe k'. lu_pop_cqe lu wait k = (rc, cqe, k') \<longrightarrow>
        (if rc < 0 \<or> cqe = None then flying k' = flying k
         else \<exists>sq\<in>flying k. flying k' = flying k - {sq} \<and> fst (the cqe) = se_user_data sq \<and>
           (snd (the cqe) = int (se_bytes sq) \<and> (\<forall>other\<in>flying k. se_buffer other = se_buffer sq \<longrightarrow> other = sq) \<longrightarrow>
              file_slice (se_path sq) d (unat (se_offset sq)) (se_bytes sq) =
                Some (take (se_bytes sq) (lu_buffer lu k' (se_buffer sq))))))"

definition flying_in :: "('k \<Rightarrow> sqe set) \<Rightarrow> 'k uring \<Rightarrow> sqe set" where
  "flying_in flying u = flying (lr_kernel (ur_ring u))"

section \<open>Who owns a buffer\<close>

definition owned :: "buffer_pool \<Rightarrow> (u64, async_buffer) umap \<Rightarrow> bool" where
  "owned pool buffers \<longleftrightarrow>
     mset (bp_free_list pool) + mset (map (ab_index \<circ> snd) (um_items buffers)) = mset [0..<bp_capacity pool]"

lemma owned_acquire:
  assumes "owned pool buffers" and "pool_acquire pool = Some (i, pool')" and "um_find buffers t = None"
  shows "owned pool' (um_assign t \<lparr>ab_bytes = n, ab_index = i\<rparr> buffers)" "bp_capacity pool' = bp_capacity pool"
    "i < bp_capacity pool" "owned pool buffers \<Longrightarrow> i \<notin> ab_index ` snd ` set (um_items buffers)"
proof -
  have free: "bp_free_list pool = bp_free_list pool' @ [i]" and cap: "bp_capacity pool' = bp_capacity pool"
    using assms(2) by (auto simp: pool_acquire_def split: if_splits)
  show "owned pool' (um_assign t \<lparr>ab_bytes = n, ab_index = i\<rparr> buffers)" "bp_capacity pool' = bp_capacity pool"
    using assms(1,3) cap by (simp_all add: owned_def um_items_new free)
  have all: "mset (bp_free_list pool) + mset (map (ab_index \<circ> snd) (um_items buffers)) = mset [0..<bp_capacity pool]"
    using assms(1) by (simp only: owned_def)
  have "i \<in># mset [0..<bp_capacity pool]" unfolding all[symmetric] by (simp add: free)
  then show "i < bp_capacity pool" by simp
  have "distinct (bp_free_list pool @ map (ab_index \<circ> snd) (um_items buffers))"
    using all by (metis distinct_upt mset_append mset_eq_imp_distinct_iff)
  then show "i \<notin> ab_index ` snd ` set (um_items buffers)" by (force simp: free)
qed

lemma owned_release:
  assumes "owned pool buffers" and "um_ok buffers" and "um_find buffers t = Some b"
  shows "\<exists>pool'. pool_release (ab_index b) pool = Inr pool' \<and> owned pool' (um_erase t buffers) \<and> bp_capacity pool' = bp_capacity pool"
proof -
  note m = um_items_erase[OF assms(2,3)]
  have all: "mset (bp_free_list pool) + mset (map (ab_index \<circ> snd) (um_items buffers)) = mset [0..<bp_capacity pool]"
    using assms(1) by (simp only: owned_def)
  have "(t, b) \<in> set (um_items buffers)" using um.items_lkp[OF assms(2)] assms(3) by simp
  then have "ab_index b \<in># mset (map (ab_index \<circ> snd) (um_items buffers))" by force
  then have "ab_index b \<in># mset [0..<bp_capacity pool]" unfolding all[symmetric] by simp
  then have "ab_index b < bp_capacity pool" by simp
  moreover have "mset (map (ab_index \<circ> snd) (um_items buffers)) =
      add_mset (ab_index b) (mset (map (ab_index \<circ> snd) (um_items (um_erase t buffers))))" by (simp add: m)
  ultimately show ?thesis using all by (simp add: pool_release_def owned_def)
qed

lemma owned_apart:
  assumes "owned pool buffers" and "um_ok buffers" and "um_find buffers t = Some b" and "um_find buffers t' = Some b'"
    and "ab_index b = ab_index b'"
  shows "t = t'"
proof (rule ccontr)
  assume ne: "t \<noteq> t'"
  have "distinct (bp_free_list pool @ map (ab_index \<circ> snd) (um_items buffers))"
    using assms(1) unfolding owned_def by (metis distinct_upt mset_append mset_eq_imp_distinct_iff)
  then have "inj_on (ab_index \<circ> snd) (set (um_items buffers))" by (simp add: distinct_map)
  moreover have "(t, b) \<in> set (um_items buffers)" "(t', b') \<in> set (um_items buffers)"
    using um.items_lkp[OF assms(2)] assms(3,4) by auto
  ultimately have "(t, b) = (t', b')" using assms(5) by (metis comp_apply inj_onD snd_conv)
  then show False using ne by simp
qed

section \<open>The invariant of a reader in \<open>io_uring\<close> mode\<close>

definition uring_inv :: "('k \<Rightarrow> sqe set) \<Rightarrow> page_reader \<Rightarrow> 'k uring \<Rightarrow> bool" where
  "uring_inv flying r u \<longleftrightarrow> async_enabled r \<and> pr_inline_completions r = [] \<and> um_ok (ur_async_buffers u) \<and>
     (\<exists>pool. ur_pool u = Some pool \<and> owned pool (ur_async_buffers u) \<and>
        bp_capacity pool = (if pr_page_size r = 0 then 0 else is_depth (pr_status r))) \<and> inj_on se_user_data (flying_in flying u) \<and>
     (\<forall>sq\<in>flying_in flying u. \<exists>n. se_bytes sq = u32_of_bytes n \<and>
        um_find (ur_async_buffers u) (se_user_data sq) = Some \<lparr>ab_bytes = n, ab_index = se_buffer sq\<rparr>) \<and>
     (\<forall>t b. um_find (ur_async_buffers u) t = Some b \<longrightarrow> t \<in> se_user_data ` flying_in flying u \<and> unat t < unat (pr_next_token r))"

text \<open>A later moment of the same reader: reads in flight are old ones or have newer tokens.\<close>

definition later :: "('k \<Rightarrow> sqe set) \<Rightarrow> page_reader \<times> 'k uring \<Rightarrow> page_reader \<times> 'k uring \<Rightarrow> bool" where
  "later flying = (\<lambda>(r, u) (r', u'). pr_path r' = pr_path r \<and> pr_status r' = pr_status r \<and> pr_page_size r' = pr_page_size r \<and>
     unat (pr_next_token r) \<le> unat (pr_next_token r') \<and>
     (\<forall>sq\<in>flying_in flying u'. sq \<in> flying_in flying u \<or> unat (pr_next_token r) \<le> unat (se_user_data sq)) \<and>
     (\<forall>t b. um_find (ur_async_buffers u') t = Some b \<longrightarrow>
        um_find (ur_async_buffers u) t = Some b \<or> unat (pr_next_token r) \<le> unat t))"

lemma later_refl [simp]: "later flying x x"
  by (simp add: later_def split: prod.splits)

lemma later_trans: "later flying x y \<Longrightarrow> later flying y z \<Longrightarrow> later flying x z"
  unfolding later_def by (fastforce split: prod.splits)

text \<open>The reads that carry the token \<open>t\<close> ask for \<open>n\<close> bytes at \<open>offset\<close>.\<close>

definition aimed :: "('k \<Rightarrow> sqe set) \<Rightarrow> page_reader \<Rightarrow> 'k uring \<Rightarrow> u64 \<Rightarrow> u64 \<Rightarrow> nat \<Rightarrow> bool" where
  "aimed flying r u t offset n \<longleftrightarrow> unat t < unat (pr_next_token r) \<and>
     (\<forall>sq\<in>flying_in flying u. se_user_data sq = t \<longrightarrow> se_path sq = pr_path r \<and> se_offset sq = offset) \<and>
     (\<forall>b. um_find (ur_async_buffers u) t = Some b \<longrightarrow> ab_bytes b = n)"

lemma aimed_later: "aimed flying r u t offset n \<Longrightarrow> later flying (r, u) (r', u') \<Longrightarrow> aimed flying r' u' t offset n"
  unfolding aimed_def later_def by fastforce

section \<open>Steps\<close>

lemma start_kept:
  assumes k: "kernel_ok lu flying d" and inv: "uring_inv flying r u" and room: "unat (pr_next_token r) + 1 < 2 ^ 64"
    and run: "start_async_read lu offset n r u s = (res, r', u', s')"
  shows "uring_inv flying r' u' \<and> later flying (r, u) (r', u') \<and> unat (pr_next_token r') \<le> unat (pr_next_token r) + 1 \<and>
    (\<forall>t. res = Inr t \<longrightarrow> t = pr_next_token r \<and> aimed flying r' u' t offset n)"
proof -
  obtain pool where pool: "ur_pool u = Some pool" "owned pool (ur_async_buffers u)"
      "bp_capacity pool = (if pr_page_size r = 0 then 0 else is_depth (pr_status r))" using inv by (auto simp: uring_inv_def)
  show ?thesis
  proof (cases "unaligned r offset n \<or> bp_capacity pool = 0 \<or> pool_acquire pool = None")
    case True
    then show ?thesis using run inv pool(1) by (auto simp: start_async_read_def uring_inv_def split: if_splits)
  next
    case False
    then obtain i pool1 where acq: "pool_acquire pool = Some (i, pool1)" by auto
    let ?t = "pr_next_token r" and ?r = "r\<lparr>pr_next_token := pr_next_token r + 1\<rparr>"
    let ?sq = "\<lparr>se_path = pr_path r, se_offset = offset, se_bytes = u32_of_bytes n, se_buffer = i, se_user_data = ?t\<rparr>"
    have next1: "unat (?t + 1) = unat ?t + 1" using room by (simp add: unat_word_ariths)
    have fresh: "um_find (ur_async_buffers u) ?t = None"
      using inv unfolding uring_inv_def by (metis less_irrefl not_Some_eq)
    obtain ok kern where q: "lu_queue_read lu ?sq (lr_kernel (ur_ring u)) = (ok, kern)" by fastforce
    have fly: "flying kern = (if ok then insert ?sq (flying_in flying u) else flying_in flying u)"
      using k q unfolding kernel_ok_def flying_in_def by (metis fst_conv snd_conv)
    let ?ring = "(ur_ring u)\<lparr>lr_kernel := kern, lr_queued_submissions := lr_queued_submissions (ur_ring u) + (if ok then 1 else 0)\<rparr>"
    show ?thesis
    proof (cases ok)
      case ok: False
      have "i < bp_capacity pool1" using owned_acquire(2,3)[OF pool(2) acq fresh] by simp
      moreover have "pool1\<lparr>bp_free_list := bp_free_list pool1 @ [i]\<rparr> = pool"
        using acq by (auto simp: pool_acquire_def split: if_splits)
      ultimately have "pool_release i pool1 = Inr pool" by (simp add: pool_release_def)
      then have out: "res = Inl (Runtime_error ''Graph page async read failed'')" "r' = ?r"
        "u' = u\<lparr>ur_ring := ?ring, ur_pool := Some pool\<rparr>"
        using run inv False pool(1) acq q ok
        by (auto simp: start_async_read_def uring_inv_def ring_queue_read_def Let_def)
      have fl: "flying_in flying u' = flying_in flying u" using fly ok by (simp add: out flying_in_def)
      have "uring_inv flying r' u'" unfolding uring_inv_def fl using inv pool next1
        by (auto simp: out uring_inv_def async_enabled_def less_Suc_eq)
      moreover have "later flying (r, u) (r', u')" unfolding later_def prod.case fl using next1 by (auto simp: out)
      ultimately show ?thesis using next1 by (simp add: out)
    next
      case ok: True
      have out: "res = Inr ?t" "r' = ?r" "u' = u\<lparr>ur_ring := ?ring, ur_pool := Some pool1,
          ur_async_buffers := um_assign ?t \<lparr>ab_bytes = n, ab_index = i\<rparr> (ur_async_buffers u)\<rparr>"
        using run inv False pool(1) acq q ok fresh
        by (auto simp: start_async_read_def uring_inv_def ring_queue_read_def Let_def)
      have fl: "flying_in flying u' = insert ?sq (flying_in flying u)" using fly ok by (simp add: out flying_in_def)
      have new: "\<forall>q\<in>flying_in flying u. se_user_data q \<noteq> ?t"
        using inv fresh unfolding uring_inv_def by (metis option.distinct(1))
      then have inj: "inj_on se_user_data (insert ?sq (flying_in flying u))"
        using inv by (auto simp: uring_inv_def inj_on_insert)
      note own = owned_acquire(1)[OF pool(2) acq fresh, of n] owned_acquire(2)[OF pool(2) acq fresh] pool(3)
      have "uring_inv flying r' u'"
        unfolding uring_inv_def fl using inv own new next1 inj
        by (auto simp: uring_inv_def out async_enabled_def less_Suc_eq)
      moreover have ok: "um_ok (ur_async_buffers u)" using inv by (simp add: uring_inv_def)
      then have "later flying (r, u) (r', u')" using next1 unfolding later_def prod.case fl by (auto simp: out)
      moreover have "aimed flying r' u' ?t offset n" using ok new next1 unfolding aimed_def fl by (auto simp: out)
      ultimately show ?thesis using next1 out by simp
    qed
  qed
qed

lemma submit_queued_flying:
  assumes "kernel_ok lu flying d" and "submit_queued lu calls ring = (ok, calls', ring')"
  shows "flying (lr_kernel ring') = flying (lr_kernel ring)"
  using assms
proof (induction lu calls ring rule: submit_queued.induct)
  case (1 lu calls ring)
  obtain n kern where s: "lu_submit lu (lr_kernel ring) = (n, kern)" by fastforce
  have f: "flying kern = flying (lr_kernel ring)" using "1.prems"(1) s unfolding kernel_ok_def by (metis snd_conv)
  note step = "1.prems"(2)[unfolded submit_queued.simps[of lu calls ring] s Let_def prod.case]
  show ?case
  proof (cases "lr_queued_submissions ring = 0 \<or> n \<le> 0")
    case True
    then have "ring' = ring \<or> ring' = ring\<lparr>lr_kernel := kern\<rparr>"
      using step by (cases "lr_queued_submissions ring = 0") simp_all
    then show ?thesis
    proof
      assume "ring' = ring\<lparr>lr_kernel := kern\<rparr>"
      then show ?thesis by (simp add: f)
    qed simp
  next
    case False
    then have "submit_queued lu (calls + 1)
        (ring\<lparr>lr_kernel := kern, lr_queued_submissions := lr_queued_submissions ring - nat n\<rparr>) = (ok, calls', ring')"
      using step by simp
    then show ?thesis using "1.IH"[OF _ refl s[symmetric] refl _ "1.prems"(1)] False f by simp
  qed
qed

lemma submit_kept:
  assumes "kernel_ok lu flying d" and "uring_inv flying r u" and "submit_async_reads lu r u s = (res, u', s')"
  shows "uring_inv flying r u' \<and> later flying (r, u) (r, u') \<and> flying_in flying u' = flying_in flying u \<and>
    ur_async_buffers u' = ur_async_buffers u"
proof -
  obtain ok calls ring where q: "submit_queued lu 0 (ur_ring u) = (ok, calls, ring)" by (cases "submit_queued lu 0 (ur_ring u)")
  have u': "u' = u\<lparr>ur_ring := ring\<rparr>"
    using assms(2,3) q by (auto simp: submit_async_reads_def uring_inv_def Let_def split: if_splits)
  have "flying_in flying u' = flying_in flying u"
    using submit_queued_flying[OF assms(1) q] by (simp add: u' flying_in_def)
  then show ?thesis using assms(2) by (auto simp: uring_inv_def later_def u')
qed

text \<open>A batch of requests: their tokens in order, each aimed at what its request asks for.\<close>

lemma requests_kept:
  assumes k: "kernel_ok lu flying d" and "uring_inv flying r u" and "unat (pr_next_token r) + length rqs < 2 ^ 64"
    and "submit_requests lu limit queued rqs r u s = (res, r', u', s')"
  shows "uring_inv flying r' u' \<and> later flying (r, u) (r', u') \<and> unat (pr_next_token r') \<le> unat (pr_next_token r) + length rqs \<and>
    (\<forall>subs. res = Inr subs \<longrightarrow>
      map (\<lambda>(p, t). (p, unat t)) subs = map (\<lambda>j. (rq_page_id (rqs ! j), unat (pr_next_token r) + j)) [0..<length rqs] \<and>
      (\<forall>j < length rqs. aimed flying r' u' (snd (subs ! j)) (rq_offset (rqs ! j)) (rq_bytes (rqs ! j))))"
  using assms(2-)
proof (induction rqs arbitrary: queued r u s res r' u' s')
  case Nil
  obtain ok u1 s1 where sub: "submit_async_reads lu r u s = (ok, u1, s1)" by (cases "submit_async_reads lu r u s")
  have "r' = r \<and> (u' = u \<or> u' = u1) \<and> (\<forall>subs. res = Inr subs \<longrightarrow> subs = [])"
    using Nil.prems(3) sub by (cases "0 < queued"; cases ok) auto
  then show ?case using Nil.prems(1) submit_kept[OF k Nil.prems(1) sub] by auto
next
  case (Cons rq rqs)
  obtain st r1 u1 s1 where st: "start_async_read lu (rq_offset rq) (rq_bytes rq) r u s = (st, r1, u1, s1)"
    by (cases "start_async_read lu (rq_offset rq) (rq_bytes rq) r u s")
  have room: "unat (pr_next_token r) + 1 < 2 ^ 64" using Cons.prems(2) by simp
  note started = start_kept[OF k Cons.prems(1) room st]
  show ?case
  proof (cases st)
    case (Inl e)
    then show ?thesis using Cons.prems(3) st started by auto
  next
    case (Inr t)
    have t: "t = pr_next_token r" "aimed flying r1 u1 t (rq_offset rq) (rq_bytes rq)" using started Inr by blast+
    obtain ok u2 s2 q2 where sub: "(if limit \<le> queued + 1
        then (case submit_async_reads lu r1 u1 s1 of (ok, u, s) \<Rightarrow> (ok, u, s, 0)) else (Inr (), u1, s1, queued + 1)) = (ok, u2, s2, q2)"
      by (metis prod_cases4)
    have two: "uring_inv flying r1 u2" "later flying (r1, u1) (r1, u2)"
      using started submit_kept[OF k, of r1 u1 s1] sub by (auto split: if_splits prod.splits)
    show ?thesis
    proof (cases ok)
      case (Inl e)
      have "res = Inl e" "r' = r1" "u' = u2" using Cons.prems(3) st \<open>st = Inr t\<close> sub Inl by simp_all
      then show ?thesis using two started later_trans by fastforce
    next
      case okr: (Inr x)
      have next1: "unat (pr_next_token r1) \<le> unat (pr_next_token r) + 1" "unat (pr_next_token r) + 1 \<le> unat (pr_next_token r1)"
        using started t by (auto simp: aimed_def)
      obtain res2 r3 u3 s3 where rest: "submit_requests lu limit q2 rqs r1 u2 s2 = (res2, r3, u3, s3)"
        by (cases "submit_requests lu limit q2 rqs r1 u2 s2")
      have out: "res = seq_result res2 (\<lambda>reads. Inr ((rq_page_id rq, t) # reads))" "r' = r3" "u' = u3"
        using Cons.prems(3) st \<open>st = Inr t\<close> sub okr rest by simp_all
      have "unat (pr_next_token r1) + length rqs < 2 ^ 64" using next1 Cons.prems(2) by simp
      note IH = Cons.IH[OF two(1) this rest]
      have lat: "later flying (r1, u1) (r3, u3)" using IH two(2) later_trans by blast
      have "later flying (r, u) (r3, u3)" using started lat later_trans by blast
      moreover have "map (\<lambda>(p, t). (p, unat t)) subs =
            map (\<lambda>j. (rq_page_id ((rq # rqs) ! j), unat (pr_next_token r) + j)) [0..<length (rq # rqs)] \<and>
          (\<forall>j < length (rq # rqs). aimed flying r3 u3 (snd (subs ! j)) (rq_offset ((rq # rqs) ! j)) (rq_bytes ((rq # rqs) ! j)))"
        if subs: "res = Inr subs" for subs
      proof -
        obtain reads where reads: "res2 = Inr reads" "subs = (rq_page_id rq, t) # reads" using subs out(1) by (cases res2) auto
        have tail: "map (\<lambda>(p, t). (p, unat t)) reads = map (\<lambda>j. (rq_page_id (rqs ! j), unat (pr_next_token r1) + j)) [0..<length rqs]"
          "\<forall>j < length rqs. aimed flying r3 u3 (snd (reads ! j)) (rq_offset (rqs ! j)) (rq_bytes (rqs ! j))"
          using IH reads(1) by blast+
        have "map (\<lambda>j. (rq_page_id ((rq # rqs) ! j), unat (pr_next_token r) + j)) [0..<length (rq # rqs)] =
            (rq_page_id rq, unat (pr_next_token r)) # map (\<lambda>j. (rq_page_id (rqs ! j), unat (pr_next_token r1) + j)) [0..<length rqs]"
          using next1 by (simp add: upt_conv_Cons map_Suc_upt[symmetric] del: upt_Suc)
        moreover have "aimed flying r3 u3 (snd (subs ! j)) (rq_offset ((rq # rqs) ! j)) (rq_bytes ((rq # rqs) ! j))"
          if "j < length (rq # rqs)" for j
          using that tail(2) aimed_later[OF t(2) lat] by (cases j) (simp_all add: reads(2))
        ultimately show ?thesis using tail(1) t(1) reads(2) by simp
      qed
      moreover have "unat (pr_next_token r3) \<le> unat (pr_next_token r) + length (rq # rqs)" using IH next1 by simp
      ultimately show ?thesis using IH out(2,3) by blast
    qed
  qed
qed

lemma batch_kept:
  assumes "kernel_ok lu flying d" and "uring_inv flying r u" and "unat (pr_next_token r) + length rqs < 2 ^ 64"
    and "uring_batch_submit lu rqs r u s d0 = (res, r', u', s', d')"
  shows "uring_inv flying r' u' \<and> later flying (r, u) (r', u') \<and> unat (pr_next_token r') \<le> unat (pr_next_token r) + length rqs \<and>
    d' = d0 \<and> (\<forall>subs. res = Inr subs \<longrightarrow>
      map (\<lambda>(p, t). (p, unat t)) subs = map (\<lambda>j. (rq_page_id (rqs ! j), unat (pr_next_token r) + j)) [0..<length rqs] \<and>
      (\<forall>j < length rqs. aimed flying r' u' (snd (subs ! j)) (rq_offset (rqs ! j)) (rq_bytes (rqs ! j))))"
proof (cases "rqs = []")
  case True
  then show ?thesis using assms(2,4) by (auto simp: uring_batch_submit_def)
next
  case False
  let ?limit = "max 1 (min (is_batch_size (pr_status r)) (max 1 (max_pending_reads r)))"
  obtain res1 r1 u1 s1 where run: "submit_requests lu ?limit 0 rqs r u s = (res1, r1, u1, s1)"
    by (cases "submit_requests lu ?limit 0 rqs r u s")
  have "res = res1 \<and> r' = r1 \<and> u' = u1 \<and> d' = d0"
    using assms(2,4) False run by (simp add: uring_batch_submit_def uring_inv_def Let_def)
  then show ?thesis using requests_kept[OF assms(1-3) run] by simp
qed

lemma as_int_small: "n < 2 ^ 31 \<Longrightarrow> as_int n = int n"
  by (simp add: as_int_def signed_of_nat signed_take_bit_int_eq_self)

lemma u32_of_bytes_small: "n < 2 ^ 31 \<Longrightarrow> u32_of_bytes n = n"
  by (simp add: u32_of_bytes_def unsigned_of_nat take_bit_nat_eq_self)

text \<open>
  Reaping: the invariant is kept, one read less is in flight, and a completion that is handed out
  carries the bytes its read asked for.
\<close>

lemma reap_kept:
  assumes k: "kernel_ok lu flying d" and inv: "uring_inv flying r u" and run: "uring_reap lu wait r u s = (res, r', u', s')"
  shows "uring_inv flying r' u' \<and> later flying (r, u) (r', u') \<and> r' = r \<and>
    (\<forall>c. res = Inr (Some c) \<longrightarrow> uring_pending r' u' < uring_pending r u \<and>
       (\<forall>offset n. aimed flying r u (cr_token c) offset n \<and> n < 2 ^ 31 \<longrightarrow>
          file_slice (pr_path r) d (unat offset) n = Some (cr_data c)) \<and>
       um_find (ur_async_buffers u) (cr_token c) \<noteq> None \<and> um_find (ur_async_buffers u') (cr_token c) = None)"
proof -
  have inl: "reap_async_read r = (None, r)" "async_enabled r" using inv by (simp_all add: reap_async_read_def uring_inv_def)
  obtain rc cqe kern where pop: "lu_pop_cqe lu wait (lr_kernel (ur_ring u)) = (rc, cqe, kern)"
    by (cases "lu_pop_cqe lu wait (lr_kernel (ur_ring u))")
  let ?ring = "(ur_ring u)\<lparr>lr_kernel := kern\<rparr>"
  have law: "if rc < 0 \<or> cqe = None then flying kern = flying_in flying u
      else \<exists>sq\<in>flying_in flying u. flying kern = flying_in flying u - {sq} \<and> fst (the cqe) = se_user_data sq \<and>
        (snd (the cqe) = int (se_bytes sq) \<and> (\<forall>other\<in>flying_in flying u. se_buffer other = se_buffer sq \<longrightarrow> other = sq) \<longrightarrow>
           file_slice (se_path sq) d (unat (se_offset sq)) (se_bytes sq) =
             Some (take (se_bytes sq) (lu_buffer lu kern (se_buffer sq))))"
    using k pop unfolding kernel_ok_def flying_in_def by blast
  show ?thesis
  proof (cases "rc < 0 \<or> cqe = None")
    case True
    then have "r' = r \<and> u' = u\<lparr>ur_ring := ?ring\<rparr> \<and> (\<forall>c. res \<noteq> Inr (Some c))"
      using run by (auto simp: uring_reap_def inl pop_completion_def pop split: if_splits)
    moreover have "flying_in flying (u\<lparr>ur_ring := ?ring\<rparr>) = flying_in flying u"
      using law True by (simp add: flying_in_def)
    ultimately show ?thesis using inv by (auto simp: uring_inv_def later_def)
  next
    case False
    have "\<exists>sq\<in>flying_in flying u. flying kern = flying_in flying u - {sq} \<and> fst (the cqe) = se_user_data sq \<and>
        (snd (the cqe) = int (se_bytes sq) \<and> (\<forall>other\<in>flying_in flying u. se_buffer other = se_buffer sq \<longrightarrow> other = sq) \<longrightarrow>
           file_slice (se_path sq) d (unat (se_offset sq)) (se_bytes sq) =
             Some (take (se_bytes sq) (lu_buffer lu kern (se_buffer sq))))"
      using law unfolding if_not_P[OF False] .
    then obtain sq where sq: "sq \<in> flying_in flying u" "flying kern = flying_in flying u - {sq}" "fst (the cqe) = se_user_data sq"
      "snd (the cqe) = int (se_bytes sq) \<and> (\<forall>other\<in>flying_in flying u. se_buffer other = se_buffer sq \<longrightarrow> other = sq) \<longrightarrow>
        file_slice (se_path sq) d (unat (se_offset sq)) (se_bytes sq) = Some (take (se_bytes sq) (lu_buffer lu kern (se_buffer sq)))"
      by (elim bexE conjE)
    let ?t = "se_user_data sq"
    have known: "\<exists>n. se_bytes q = u32_of_bytes n \<and> um_find (ur_async_buffers u) (se_user_data q) = Some \<lparr>ab_bytes = n, ab_index = se_buffer q\<rparr>"
      if "q \<in> flying_in flying u" for q using inv that by (simp add: uring_inv_def)
    obtain m where m: "se_bytes sq = u32_of_bytes m"
      "um_find (ur_async_buffers u) ?t = Some \<lparr>ab_bytes = m, ab_index = se_buffer sq\<rparr>" using known[OF sq(1)] by blast
    have ok: "um_ok (ur_async_buffers u)" and inj: "inj_on se_user_data (flying_in flying u)" using inv by (simp_all add: uring_inv_def)
    obtain pool where pool: "ur_pool u = Some pool" "owned pool (ur_async_buffers u)"
      "bp_capacity pool = (if pr_page_size r = 0 then 0 else is_depth (pr_status r))" using inv by (auto simp: uring_inv_def)
    obtain pool' where rel: "pool_release (se_buffer sq) pool = Inr pool'" "owned pool' (um_erase ?t (ur_async_buffers u))"
      "bp_capacity pool' = bp_capacity pool"
      using owned_release[OF pool(2) ok m(2)] by auto
    let ?u = "u\<lparr>ur_ring := ?ring, ur_async_buffers := um_erase ?t (ur_async_buffers u), ur_pool := Some pool'\<rparr>"
    have out: "r' = r \<and> u' = ?u \<and> res = (if snd (the cqe) \<noteq> as_int m
        then Inl (Runtime_error ''Graph page async read failed'')
        else Inr (Some \<lparr>cr_token = ?t, cr_data = take m (lu_buffer lu kern (se_buffer sq))\<rparr>))"
      using run False m(2) rel(1) pool(1) sq(3)
      by (auto simp: uring_reap_def inl pop_completion_def pop Let_def)
    have fl: "flying_in flying ?u = flying_in flying u - {sq}" using sq(2) by (simp add: flying_in_def)
    have others: "se_user_data q \<noteq> ?t" if "q \<in> flying_in flying u - {sq}" for q using that inj sq(1) by (auto dest: inj_onD)
    have "uring_inv flying r ?u"
      unfolding uring_inv_def fl using inv rel(2,3) pool(3) others
      by (auto simp: uring_inv_def intro: inj_on_diff)
    moreover have "later flying (r, u) (r, ?u)" unfolding later_def prod.case fl using ok by auto
    moreover have "uring_pending r ?u < uring_pending r u"
      using arg_cong[OF um_items_erase[OF ok m(2)], of size] by (simp add: uring_pending_def)
    moreover have "file_slice (pr_path r) d (unat offset) n = Some (take m (lu_buffer lu kern (se_buffer sq)))"
      if "aimed flying r u ?t offset n" "n < 2 ^ 31" "snd (the cqe) = as_int m" for offset n
    proof -
      have a: "se_path sq = pr_path r" "se_offset sq = offset" "m = n" using that(1) sq(1) m(2) by (auto simp: aimed_def)
      have "se_bytes sq = n" using m(1) that(2) by (simp add: a u32_of_bytes_small)
      note a = a this
      have "other = sq" if other: "other \<in> flying_in flying u" "se_buffer other = se_buffer sq" for other
      proof -
        obtain m' where "um_find (ur_async_buffers u) (se_user_data other) = Some \<lparr>ab_bytes = m', ab_index = se_buffer other\<rparr>"
          using known[OF other(1)] by blast
        then have "se_user_data other = ?t" using owned_apart[OF pool(2) ok _ m(2)] other(2) by auto
        then show ?thesis using inj other(1) sq(1) by (auto dest: inj_onD)
      qed
      then show ?thesis using sq(4) that(2,3) as_int_small[OF that(2)] by (simp add: a)
    qed
    moreover have "um_find (ur_async_buffers u) ?t \<noteq> None \<and> um_find (ur_async_buffers ?u) ?t = None" using m(2) ok by simp
    ultimately show ?thesis using out by (auto split: if_splits)
  qed
qed

end
