(* ===== verification/UringRuns.thy ===== *)
theory UringRuns
  imports UringReads
begin

text \<open>
  Whole runs of the reader of \<open>UringReader\<close>: any sequence of batches and reaps on a freshly
  configured reader, with the exceptions it throws; and a ring to run it on.
\<close>

section \<open>Configuring\<close>

lemma close_native_shape:
  "uring_close_native lu r u = Some (r', u') \<Longrightarrow> r' = close_native r \<and> ur_async_buffers u' = um_empty"
  by (auto simp: uring_close_native_def)

lemma fallback_disabled: "fallback_to_pread reason r d = (Inr x, r', d') \<Longrightarrow> \<not> is_io_uring_enabled (pr_status r')"
  by (auto simp: fallback_to_pread_def Let_def split: prod.splits sum.splits)

lemma uring_fallback_disabled:
  assumes "uring_fallback lu reason r u d = Some (Inr x, r', u', d')"
  shows "\<not> is_io_uring_enabled (pr_status r')"
proof -
  obtain r1 u1 where "uring_close_native lu r u = Some (r1, u1)"
    using assms by (cases "uring_close_native lu r u") (auto simp: uring_fallback_def)
  then show ?thesis using assms fallback_disabled[of reason r1 d]
    by (cases "fallback_to_pread reason r1 d") (auto simp: uring_fallback_def)
qed

lemma ring_open_empty:
  assumes "kernel_ok lu flying d" and "ring_open lu n ring = (True, ring')"
  shows "flying (lr_kernel ring') = {}"
proof -
  let ?n = "max 1 (min n 4096)" and ?k = "lr_kernel (ring_close lu ring)"
  obtain rc k where q: "lu_queue_init lu ?n ?k = (rc, k)" by fastforce
  have "0 \<le> rc" "lr_kernel ring' = k" using assms(2) q by (auto simp: ring_open_def Let_def split: if_splits)
  then show ?thesis using assms(1) q unfolding kernel_ok_def by (metis fst_conv snd_conv)
qed

lemma pool_reset_owned: "owned (pool_reset n b) um_empty" "bp_capacity (pool_reset n b) = (if b = 0 then 0 else n)"
  by (auto simp: owned_def pool_reset_def um_items_def um_empty_def)

lemma configured_inv:
  assumes k: "kernel_ok lu flying d"
    and run: "uring_configure lu ''io_uring'' batch_size io_depth r0 u0 d0 = Some (Inr (), r, u, d1)"
    and on: "is_io_uring_enabled (pr_status r)"
  shows "uring_inv flying r u" "is_depth (pr_status r) = io_depth" "pr_path r = pr_path r0" "pr_page_size r = pr_page_size r0"
    "pr_next_token r = pr_next_token r0"
proof -
  have sizes: "batch_size \<noteq> 0 \<and> io_depth \<noteq> 0" using run by (simp add: uring_configure_def split: if_splits)
  have "uring_close_native lu r0 u0 \<noteq> None" using run sizes by (intro notI) (simp add: uring_configure_def)
  then obtain u1 where close: "uring_close_native lu r0 u0 = Some (close_native r0, u1)" "ur_async_buffers u1 = um_empty"
    using close_native_shape[of lu r0 u0] by (metis not_Some_eq surj_pair)
  let ?r = "(close_native r0)\<lparr>pr_status := default_status\<lparr>is_requested_mode := ''io_uring'', is_batch_size := batch_size, is_depth := io_depth\<rparr>\<rparr>"
  obtain opened r2 d2 where opn: "try_open_linux_fd ?r d0 = (opened, r2, d2)" by (cases "try_open_linux_fd ?r d0")
  obtain ok ring where ring: "ring_open lu io_depth (ur_ring u1) = (ok, ring)" by (cases "ring_open lu io_depth (ur_ring u1)")
  let ?done = "r2\<lparr>pr_status := (pr_status r2)\<lparr>is_effective_mode := ''io_uring'', is_direct_enabled := True, is_io_uring_enabled := True\<rparr>\<rparr>"
    and ?u = "u1\<lparr>ur_ring := ring, ur_pool := Some (pool_reset io_depth (pr_page_size r2))\<rparr>"
  have "uring_configure lu ''io_uring'' batch_size io_depth r0 u0 d0 =
     (if \<not> direct_io_layout_supported ?r then uring_fallback lu ''io_uring_requires_4096_aligned_pages'' ?r u1 d0
      else if \<not> opened then uring_fallback lu ''io_uring_odirect_open_failed_errno'' r2 u1 d2
      else if \<not> ok then uring_fallback lu ''io_uring_queue_init_failed_errno'' r2 (u1\<lparr>ur_ring := ring\<rparr>) d2
      else Some (Inr (), ?done, ?u, d2))"
    unfolding uring_configure_def by (simp add: sizes close(1) opn ring)
  then have oks: "opened" "ok" and out: "r = ?done" "u = ?u"
    using run on uring_fallback_disabled[of lu _ _ _ _ "()" r u d1] by (metis option.inject prod.inject)+
  have r2: "pr_status r2 = pr_status ?r" "pr_inline_completions r2 = []" "pr_path r2 = pr_path r0" "pr_page_size r2 = pr_page_size r0"
    "pr_next_token r2 = pr_next_token r0"
    using opn by (auto simp: try_open_linux_fd_def close_native_def Let_def split: prod.splits)
  have fl: "flying_in flying u = {}" using ring_open_empty[OF k] ring oks(2) by (simp add: flying_in_def out)
  show "uring_inv flying r u"
    unfolding uring_inv_def fl using close(2) r2 by (simp add: out async_enabled_def pool_reset_owned)
  show "is_depth (pr_status r) = io_depth" "pr_path r = pr_path r0" "pr_page_size r = pr_page_size r0"
    "pr_next_token r = pr_next_token r0" using r2 by (simp_all add: out)
qed

section \<open>Runs\<close>

datatype uring_call = Submit "read_request list" | Reap bool

datatype uring_event = Sent read_request u64 | Got completed_read | Threw cpp_error

fun uring_step ::
  "'k liburing \<Rightarrow> uring_call \<Rightarrow> page_reader \<Rightarrow> 'k uring \<Rightarrow> search_stats \<Rightarrow> disk \<Rightarrow>
   uring_event list \<times> page_reader \<times> 'k uring \<times> search_stats \<times> disk" where
  "uring_step lu (Submit rqs) r u s d =
     (case uring_batch_submit lu rqs r u s d of
        (Inl e, x) \<Rightarrow> ([Threw e], x)
      | (Inr submitted, x) \<Rightarrow> (map (\<lambda>(rq, _, t). Sent rq t) (zip rqs submitted), x))"
| "uring_step lu (Reap wait) r u s d =
     (case uring_reap lu wait r u s of
        (Inl e, r, u, s) \<Rightarrow> ([Threw e], r, u, s, d)
      | (Inr None, r, u, s) \<Rightarrow> ([], r, u, s, d)
      | (Inr (Some c), r, u, s) \<Rightarrow> ([Got c], r, u, s, d))"

fun uring_run ::
  "'k liburing \<Rightarrow> uring_call list \<Rightarrow> page_reader \<Rightarrow> 'k uring \<Rightarrow> search_stats \<Rightarrow> disk \<Rightarrow>
   uring_event list \<times> page_reader \<times> 'k uring \<times> search_stats \<times> disk" where
  "uring_run lu [] r u s d = ([], r, u, s, d)"
| "uring_run lu (c # cs) r u s d =
     (case uring_step lu c r u s d of
        (events, r, u, s, d) \<Rightarrow> (case uring_run lu cs r u s d of (events', x) \<Rightarrow> (events @ events', x)))"

fun call_reads :: "uring_call \<Rightarrow> nat" where
  "call_reads (Submit rqs) = length rqs"
| "call_reads (Reap _) = 0"

fun sent_tokens :: "uring_event list \<Rightarrow> u64 list" where
  "sent_tokens [] = []"
| "sent_tokens (Sent _ t # es) = t # sent_tokens es"
| "sent_tokens (_ # es) = sent_tokens es"

fun got_tokens :: "uring_event list \<Rightarrow> u64 list" where
  "got_tokens [] = []"
| "got_tokens (Got c # es) = cr_token c # got_tokens es"
| "got_tokens (_ # es) = got_tokens es"

lemma tokens_append [simp]:
  "sent_tokens (es @ es') = sent_tokens es @ sent_tokens es'" "got_tokens (es @ es') = got_tokens es @ got_tokens es'"
  by (induction es rule: sent_tokens.induct; simp)+

lemma got_tokens_set: "t \<in> set (got_tokens es) \<longleftrightarrow> (\<exists>c. Got c \<in> set es \<and> cr_token c = t)"
  by (induction es rule: got_tokens.induct) auto

lemma sent_tokens_set: "t \<in> set (sent_tokens es) \<longleftrightarrow> (\<exists>rq. Sent rq t \<in> set es)"
  by (induction es rule: sent_tokens.induct) auto

lemma sent_tokens_zip: "length rqs = length subs \<Longrightarrow> sent_tokens (map (\<lambda>(rq, _, t). Sent rq t) (zip rqs subs)) = map snd subs"
  by (induction rqs subs rule: list_induct2) (auto split: prod.splits)

lemma got_tokens_none: "(\<And>c. Got c \<notin> set es) \<Longrightarrow> got_tokens es = []"
  by (induction es rule: got_tokens.induct) auto

text \<open>
  One step: events name tokens in the order of their reads, a completed token was in flight and
  is not any more, and what was sent is aimed at what was asked for.
\<close>

definition carries :: "disk \<Rightarrow> string \<Rightarrow> read_request \<Rightarrow> completed_read \<Rightarrow> bool" where
  "carries d path rq c \<longleftrightarrow> (rq_bytes rq < 2 ^ 31 \<longrightarrow> file_slice path d (unat (rq_offset rq)) (rq_bytes rq) = Some (cr_data c))"

lemma uring_step_kept:
  assumes k: "kernel_ok lu flying d" and inv: "uring_inv flying r u" and room: "unat (pr_next_token r) + call_reads call < 2 ^ 64"
    and run: "uring_step lu call r u s d0 = (es, r', u', s', d')"
  shows "uring_inv flying r' u' \<and> later flying (r, u) (r', u') \<and> unat (pr_next_token r') \<le> unat (pr_next_token r) + call_reads call \<and>
    distinct (sent_tokens es) \<and> distinct (got_tokens es) \<and>
    (\<forall>rq t. Sent rq t \<in> set es \<longrightarrow> unat (pr_next_token r) \<le> unat t \<and> aimed flying r' u' t (rq_offset rq) (rq_bytes rq)) \<and>
    (\<forall>c. Got c \<in> set es \<longrightarrow> um_find (ur_async_buffers u) (cr_token c) \<noteq> None \<and> um_find (ur_async_buffers u') (cr_token c) = None \<and>
       (\<forall>rq. aimed flying r u (cr_token c) (rq_offset rq) (rq_bytes rq) \<longrightarrow> carries d (pr_path r) rq c))"
proof (cases call)
  case (Submit rqs)
  obtain res r1 u1 s1 d1 where b: "uring_batch_submit lu rqs r u s d0 = (res, r1, u1, s1, d1)"
    by (cases "uring_batch_submit lu rqs r u s d0")
  have "unat (pr_next_token r) + length rqs < 2 ^ 64" using room Submit by simp
  note kept = batch_kept[OF k inv this b]
  show ?thesis
  proof (cases res)
    case (Inl e)
    then have "es = [Threw e] \<and> r' = r1 \<and> u' = u1" using run b Submit by simp
    then show ?thesis using kept Submit by auto
  next
    case (Inr subs)
    have toks: "map (\<lambda>(p, t). (p, unat t)) subs = map (\<lambda>j. (rq_page_id (rqs ! j), unat (pr_next_token r) + j)) [0..<length rqs]"
      "\<forall>j < length rqs. aimed flying r1 u1 (snd (subs ! j)) (rq_offset (rqs ! j)) (rq_bytes (rqs ! j))" using kept Inr by blast+
    have n: "length subs = length rqs" using arg_cong[OF toks(1), of length] by simp
    have tok: "unat (snd (subs ! j)) = unat (pr_next_token r) + j" if "j < length rqs" for j
      using arg_cong[OF toks(1), of "\<lambda>xs. xs ! j"] that n by (simp add: case_prod_unfold)
    have es: "es = map (\<lambda>(rq, _, t). Sent rq t) (zip rqs subs)" "r' = r1" "u' = u1" using run b Submit Inr by simp_all
    have "sent_tokens (map (\<lambda>(rq, _, t). Sent rq t) (zip rqs subs)) = map snd subs" using n by (simp add: sent_tokens_zip)
    moreover have "distinct (map snd subs)" using tok n by (simp add: distinct_conv_nth) (metis add_left_cancel)
    moreover have "\<forall>c. Got c \<notin> set es" by (auto simp: es)
    moreover from this have "got_tokens es = []" by (simp add: got_tokens_none)
    moreover have "unat (pr_next_token r) \<le> unat t \<and> aimed flying r1 u1 t (rq_offset rq) (rq_bytes rq)" if "Sent rq t \<in> set es" for rq t
    proof -
      have "\<exists>p. (rq, p, t) \<in> set (zip rqs subs)" using that unfolding es(1) by auto
      then obtain j where "j < length rqs" "rqs ! j = rq" "snd (subs ! j) = t"
        using n unfolding in_set_zip by (metis fst_conv snd_conv)
      then show ?thesis using tok[of j] toks(2) by auto
    qed
    ultimately show ?thesis using kept es Submit by auto
  qed
next
  case (Reap wait)
  obtain res r1 u1 s1 where b: "uring_reap lu wait r u s = (res, r1, u1, s1)" by (cases "uring_reap lu wait r u s")
  note kept = reap_kept[OF k inv b]
  show ?thesis
  proof (cases "\<exists>c. res = Inr (Some c)")
    case True
    then obtain c where c: "res = Inr (Some c)" by blast
    then have "es = [Got c] \<and> r' = r1 \<and> u' = u1" using run b Reap by simp
    then show ?thesis using kept c by (auto simp: carries_def)
  next
    case False
    then have "sent_tokens es = [] \<and> got_tokens es = [] \<and> (\<forall>e\<in>set es. \<exists>x. e = Threw x) \<and> r' = r1 \<and> u' = u1"
      using run b Reap by (auto split: sum.splits option.splits)
    then show ?thesis using kept by auto
  qed
qed

lemma token_old: "uring_inv flying r u \<Longrightarrow> um_find (ur_async_buffers u) t \<noteq> None \<Longrightarrow> unat t < unat (pr_next_token r)"
  by (auto simp: uring_inv_def)

lemma uring_run_kept:
  assumes k: "kernel_ok lu flying d" and "uring_inv flying r u"
    and "unat (pr_next_token r) + sum_list (map call_reads calls) < 2 ^ 64"
    and "uring_run lu calls r u s d0 = (es, r', u', s', d')"
  shows "uring_inv flying r' u' \<and> later flying (r, u) (r', u') \<and> distinct (sent_tokens es) \<and> distinct (got_tokens es) \<and>
    (\<forall>rq t. Sent rq t \<in> set es \<longrightarrow> unat (pr_next_token r) \<le> unat t) \<and>
    (\<forall>c. Got c \<in> set es \<longrightarrow> um_find (ur_async_buffers u) (cr_token c) \<noteq> None \<or> unat (pr_next_token r) \<le> unat (cr_token c)) \<and>
    (\<forall>rq c. Got c \<in> set es \<longrightarrow> Sent rq (cr_token c) \<in> set es \<or> aimed flying r u (cr_token c) (rq_offset rq) (rq_bytes rq) \<longrightarrow>
       carries d (pr_path r) rq c)"
  using assms(2-)
proof (induction calls arbitrary: r u s d0 es r' u' s' d')
  case Nil
  then show ?case by simp
next
  case (Cons call calls)
  obtain es1 r1 u1 s1 d1 where one: "uring_step lu call r u s d0 = (es1, r1, u1, s1, d1)" by (cases "uring_step lu call r u s d0")
  obtain es2 r2 u2 s2 d2 where two: "uring_run lu calls r1 u1 s1 d1 = (es2, r2, u2, s2, d2)" by (cases "uring_run lu calls r1 u1 s1 d1")
  have out: "es = es1 @ es2" "r' = r2" "u' = u2" using Cons.prems(3) one two by simp_all
  have room: "unat (pr_next_token r) + call_reads call < 2 ^ 64" using Cons.prems(2) by simp
  note k1 = uring_step_kept[OF k Cons.prems(1) room one]
  have inv1: "uring_inv flying r1 u1" and lat1: "later flying (r, u) (r1, u1)"
    and next1: "unat (pr_next_token r1) \<le> unat (pr_next_token r) + call_reads call" using k1 by blast+
  have up: "unat (pr_next_token r) \<le> unat (pr_next_token r1)" and path: "pr_path r1 = pr_path r" using lat1 by (simp_all add: later_def)
  have sent1: "unat (pr_next_token r) \<le> unat t \<and> unat t < unat (pr_next_token r1) \<and> aimed flying r1 u1 t (rq_offset rq) (rq_bytes rq)"
    if "Sent rq t \<in> set es1" for rq t using that k1 by (auto simp: aimed_def)
  have got1: "um_find (ur_async_buffers u) (cr_token c) \<noteq> None \<and> um_find (ur_async_buffers u1) (cr_token c) = None \<and>
      unat (cr_token c) < unat (pr_next_token r) \<and>
      (\<forall>rq. aimed flying r u (cr_token c) (rq_offset rq) (rq_bytes rq) \<longrightarrow> carries d (pr_path r) rq c)"
    if "Got c \<in> set es1" for c using that k1 token_old[OF Cons.prems(1)] by blast
  have "unat (pr_next_token r1) + sum_list (map call_reads calls) < 2 ^ 64" using next1 Cons.prems(2) by simp
  note k2 = Cons.IH[OF inv1 this two]
  have sent2: "unat (pr_next_token r1) \<le> unat t" if "Sent rq t \<in> set es2" for rq t using that k2 by blast
  have got2: "um_find (ur_async_buffers u1) (cr_token c) \<noteq> None \<or> unat (pr_next_token r1) \<le> unat (cr_token c)"
    "Sent rq (cr_token c) \<in> set es2 \<or> aimed flying r1 u1 (cr_token c) (rq_offset rq) (rq_bytes rq) \<Longrightarrow> carries d (pr_path r) rq c"
    if "Got c \<in> set es2" for c rq using that k2 path by auto
  have d1: "distinct (sent_tokens es)"
  proof -
    have "set (sent_tokens es1) \<inter> set (sent_tokens es2) = {}" using sent1 sent2 by (fastforce simp: sent_tokens_set)
    then show ?thesis using k1 k2 by (simp add: out)
  qed
  have d2: "distinct (got_tokens es)"
  proof -
    have "cr_token c \<noteq> cr_token c'" if "Got c \<in> set es1" "Got c' \<in> set es2" for c c'
      using got1[OF that(1)] got2(1)[OF that(2)] up by auto
    then have "set (got_tokens es1) \<inter> set (got_tokens es2) = {}" unfolding set_eq_iff Int_iff got_tokens_set by (metis empty_iff)
    then show ?thesis using k1 k2 by (simp add: out)
  qed
  have "carries d (pr_path r) rq c"
    if "Got c \<in> set es" "Sent rq (cr_token c) \<in> set es \<or> aimed flying r u (cr_token c) (rq_offset rq) (rq_bytes rq)" for rq c
  proof (cases "Got c \<in> set es1")
    case True
    then have "Sent rq (cr_token c) \<notin> set es" using got1[OF True] sent1 sent2 up by (fastforce simp: out)
    then show ?thesis using that(2) got1[OF True] by blast
  next
    case False
    then have two: "Got c \<in> set es2" using that(1) by (simp add: out)
    have "Sent rq (cr_token c) \<in> set es2 \<or> aimed flying r1 u1 (cr_token c) (rq_offset rq) (rq_bytes rq)"
      using that(2) sent1 aimed_later[OF _ lat1] by (auto simp: out)
    then show ?thesis by (rule got2(2)[OF two])
  qed
  moreover have "um_find (ur_async_buffers u) (cr_token c) \<noteq> None \<or> unat (pr_next_token r) \<le> unat (cr_token c)"
    if "Got c \<in> set es" for c
  proof (cases "Got c \<in> set es1")
    case False
    then have "Got c \<in> set es2" using that by (simp add: out)
    from got2(1)[OF this] show ?thesis using lat1 up unfolding later_def prod.case by fastforce
  qed (use got1 in blast)
  moreover have "unat (pr_next_token r) \<le> unat t" if "Sent rq t \<in> set es" for rq t
    using that sent1 sent2 up by (fastforce simp: out)
  ultimately show ?case using d1 d2 later_trans[OF lat1] k2 out by blast
qed

section \<open>A ring\<close>

text \<open>
  A ring that keeps the contract: reads complete in the order of their submission or in the
  opposite one, their bytes arrive with the completion, and the first waits may be interrupted by
  a signal (\<open>- EINTR\<close>).
\<close>

record demo_ring =
  dr_flying :: "sqe list"
  dr_newest_first :: bool
  dr_interrupts :: nat
  dr_memory :: "nat \<Rightarrow> bytes"

definition demo_uring_complete :: "disk \<Rightarrow> sqe \<Rightarrow> demo_ring \<Rightarrow> int \<times> (u64 \<times> int) option \<times> demo_ring" where
  "demo_uring_complete d sq k =
     (let k = k\<lparr>dr_flying := removeAll sq (dr_flying k)\<rparr>
      in case file_slice (se_path sq) d (unat (se_offset sq)) (se_bytes sq) of
           None \<Rightarrow> (0, Some (se_user_data sq, - 5), k)
         | Some data \<Rightarrow> (0, Some (se_user_data sq, int (se_bytes sq)), k\<lparr>dr_memory := (dr_memory k)(se_buffer sq := data)\<rparr>))"

definition demo_pop :: "disk \<Rightarrow> demo_ring \<Rightarrow> int \<times> (u64 \<times> int) option \<times> demo_ring" where
  "demo_pop d k =
     (if 0 < dr_interrupts k then (- 4, None, k\<lparr>dr_interrupts := dr_interrupts k - 1\<rparr>)
      else if dr_flying k = [] then (- kEAGAIN, None, k)
      else demo_uring_complete d (if dr_newest_first k then hd (dr_flying k) else last (dr_flying k)) k)"

definition demo_uring :: "disk \<Rightarrow> demo_ring liburing" where
  "demo_uring d =
     \<lparr>lu_queue_init = (\<lambda>_ k. (0, k\<lparr>dr_flying := []\<rparr>)), lu_queue_exit = (\<lambda>k. k\<lparr>dr_flying := []\<rparr>),
      lu_queue_read = (\<lambda>sq k. (True, k\<lparr>dr_flying := sq # dr_flying k\<rparr>)), lu_submit = (\<lambda>k. (1, k)),
      lu_pop_cqe = (\<lambda>_. demo_pop d), lu_buffer = dr_memory\<rparr>"

lemma demo_kernel_ok: "kernel_ok (demo_uring d) (\<lambda>k. set (dr_flying k)) d"
proof -
  have "(if rc < 0 \<or> cqe = None then set (dr_flying k') = set (dr_flying k)
      else \<exists>sq\<in>set (dr_flying k). set (dr_flying k') = set (dr_flying k) - {sq} \<and> fst (the cqe) = se_user_data sq \<and>
        (snd (the cqe) = int (se_bytes sq) \<and> (\<forall>other\<in>set (dr_flying k). se_buffer other = se_buffer sq \<longrightarrow> other = sq) \<longrightarrow>
           file_slice (se_path sq) d (unat (se_offset sq)) (se_bytes sq) = Some (take (se_bytes sq) (dr_memory k' (se_buffer sq)))))"
    if pop: "demo_pop d k = (rc, cqe, k')" for k rc cqe k'
  proof (cases "0 < dr_interrupts k \<or> dr_flying k = []")
    case True
    then show ?thesis using pop by (auto simp: demo_pop_def kEAGAIN_def split: if_splits)
  next
    case False
    let ?sq = "if dr_newest_first k then hd (dr_flying k) else last (dr_flying k)"
    have mem: "?sq \<in> set (dr_flying k)" using False by simp
    have full: "take n data = data" if "file_slice p d' offset n = Some data" for p d' offset n data
      using that by (auto simp: file_slice_def Let_def split: if_splits)
    have "demo_uring_complete d ?sq k = (rc, cqe, k')" using pop False by (simp add: demo_pop_def)
    then show ?thesis using mem full
      by (cases "file_slice (se_path ?sq) d (unat (se_offset ?sq)) (se_bytes ?sq)")
        (auto simp: demo_uring_complete_def Let_def simp del: if_split intro!: bexI[of _ ?sq])
  qed
  then show ?thesis unfolding kernel_ok_def demo_uring_def by auto
qed

definition two_pages :: disk where
  "two_pages = \<lparr>files = (\<lambda>_. Some (replicate 4096 7 @ replicate 4096 9)), outcomes = []\<rparr>"

lemma two_pages_slice:
  "file_slice p two_pages 0 4096 = Some (replicate 4096 7)" "file_slice p two_pages 4096 4096 = Some (replicate 4096 9)"
  by (simp_all add: file_slice_def file_bytes_def two_pages_def)

definition fresh_reader :: page_reader where
  "fresh_reader = \<lparr>pr_path = ''index'', pr_page_size = 4096, pr_status = default_status, pr_inline_completions = [],
     pr_next_token = 1, pr_fd_open = True\<rparr>"

definition fresh_uring :: "bool \<Rightarrow> nat \<Rightarrow> demo_ring uring" where
  "fresh_uring newest_first interrupts =
     \<lparr>ur_async_buffers = um_empty, ur_pool = None, ur_ring = \<lparr>lr_opened = False, lr_next_user_data = 1,
      lr_queued_submissions = 0, lr_kernel = \<lparr>dr_flying = [], dr_newest_first = newest_first, dr_interrupts = interrupts,
        dr_memory = (\<lambda>_. replicate 4096 0)\<rparr>\<rparr>\<rparr>"

definition ready_reader :: page_reader where
  "ready_reader = fresh_reader\<lparr>pr_status := \<lparr>is_requested_mode = ''io_uring'', is_effective_mode = ''io_uring'',
     is_fallback_reason = [], is_direct_enabled = True, is_io_uring_enabled = True, is_batch_size = 2, is_depth = 2\<rparr>\<rparr>"

definition ready_uring :: "bool \<Rightarrow> nat \<Rightarrow> demo_ring uring" where
  "ready_uring newest_first interrupts =
     (fresh_uring newest_first interrupts)\<lparr>ur_pool := Some \<lparr>bp_capacity = 2, bp_free_list = [0, 1]\<rparr>,
       ur_ring := (ur_ring (fresh_uring newest_first interrupts))\<lparr>lr_opened := True\<rparr>\<rparr>"

lemma demo_uring_configured:
  "uring_configure (demo_uring two_pages) ''io_uring'' 2 2 fresh_reader (fresh_uring newest_first interrupts) two_pages =
     Some (Inr (), ready_reader, ready_uring newest_first interrupts, two_pages)"
proof -
  have d: "outcomes two_pages = []" "file_exists p two_pages" for p by (simp_all add: two_pages_def file_exists_def)
  have "drain_ring lu um_empty ring = Some ring" for lu :: "demo_ring liburing" and ring
    by (simp add: drain_ring.simps um_items_def um_empty_def)
  then have "uring_close_native (demo_uring two_pages) fresh_reader (fresh_uring newest_first interrupts) =
      Some (fresh_reader\<lparr>pr_fd_open := False\<rparr>, fresh_uring newest_first interrupts)"
    by (simp add: uring_close_native_def close_native_def ring_close_def fresh_reader_def fresh_uring_def)
  then show ?thesis
    by (simp add: uring_configure_def direct_io_layout_supported_def kDirectIoAlignment_def try_open_linux_fd_def d
        ring_open_def ring_close_def demo_uring_def fresh_reader_def fresh_uring_def ready_reader_def ready_uring_def
        default_status_def pool_reset_def numeral_2_eq_2)
qed

definition ask :: "u32 \<Rightarrow> read_request" where
  "ask p = \<lparr>rq_page_id = p, rq_offset = ucast p * 4096, rq_bytes = 4096\<rparr>"

lemmas demo_run_eval = kEAGAIN_def ready_reader_def ready_uring_def fresh_reader_def fresh_uring_def ask_def demo_uring_def demo_pop_def
  demo_uring_complete_def uring_batch_submit_def async_enabled_def max_pending_reads_def start_async_read_def unaligned_def
  kDirectIoAlignment_def pool_acquire_def pool_release_def ring_queue_read_def u32_of_bytes_def submit_async_reads_def
  submit_queued.simps uring_reap_def reap_async_read_def pop_completion_def as_int_def um_empty_def um_find_def um_assign_def
  um_erase_def um_items_def two_pages_slice unsigned_of_nat take_bit_nat_eq_self

text \<open>Two pages are asked for and the second arrives first.\<close>

lemma demo_run:
  "fst (uring_run (demo_uring two_pages) [Submit [ask 0, ask 1], Reap True, Reap False] ready_reader (ready_uring True 0) no_stats two_pages) =
     [Sent (ask 0) 1, Sent (ask 1) 2, Got \<lparr>cr_token = 2, cr_data = replicate 4096 9\<rparr>, Got \<lparr>cr_token = 1, cr_data = replicate 4096 7\<rparr>]"
  by (simp add: demo_run_eval)

section \<open>Properties\<close>

text \<open>
  C29: On a freshly configured ring, in any sequence of batches and reaps with the exceptions they
  throw, and whatever the order in which the kernel completes reads and whichever of them fail: no
  token is given twice and none completes twice; the completion of a token that a batch returned
  carries the bytes of the file that were asked for under it; and at every moment each buffer of
  the pool is either free or belongs to exactly one read in flight.
\<close>

theorem uring_completions_exact:
  assumes "kernel_ok lu flying d"
    and "uring_configure lu ''io_uring'' batch_size io_depth r0 u0 d0 = Some (Inr (), r, u, d1)"
    and "is_io_uring_enabled (pr_status r)"
    and "unat (pr_next_token r0) + sum_list (map call_reads calls) < 2 ^ 64"
    and "uring_run lu calls r u s d1 = (events, r', u', s', d')"
  shows "distinct (sent_tokens events) \<and> distinct (got_tokens events) \<and>
    (\<forall>rq c. Sent rq (cr_token c) \<in> set events \<and> Got c \<in> set events \<and> rq_bytes rq < 2 ^ 31 \<longrightarrow>
       file_slice (pr_path r0) d (unat (rq_offset rq)) (rq_bytes rq) = Some (cr_data c)) \<and>
    (\<exists>pool. ur_pool u' = Some pool \<and> mset (bp_free_list pool) + mset (map (ab_index \<circ> snd) (um_items (ur_async_buffers u'))) =
       mset [0..<(if pr_page_size r0 = 0 then 0 else io_depth)])"
proof -
  note start = configured_inv[OF assms(1-3)]
  have "unat (pr_next_token r) + sum_list (map call_reads calls) < 2 ^ 64" using assms(4) start(5) by simp
  note kept = uring_run_kept[OF assms(1) start(1) this assms(5)]
  have "\<exists>pool. ur_pool u' = Some pool \<and> owned pool (ur_async_buffers u') \<and>
      bp_capacity pool = (if pr_page_size r' = 0 then 0 else is_depth (pr_status r'))"
    using kept by (simp add: uring_inv_def)
  moreover have "pr_page_size r' = pr_page_size r0 \<and> is_depth (pr_status r') = io_depth"
    using kept start(2,4) by (simp add: later_def)
  ultimately show ?thesis using kept start(3) by (auto simp: carries_def owned_def)
qed

theorem uring_completions_exact_witness:
  "\<exists>events. fst (uring_run (demo_uring two_pages) [Submit [ask 0, ask 1], Reap True, Reap False]
        ready_reader (ready_uring True 0) no_stats two_pages) = events \<and>
     got_tokens events = [2, 1] \<and> distinct (got_tokens events) \<and>
     file_slice ''index'' two_pages (unat (rq_offset (ask 1))) (rq_bytes (ask 1)) = Some (replicate 4096 9)"
proof -
  let ?calls = "[Submit [ask 0, ask 1], Reap True, Reap False]"
  obtain events r u s d where run: "uring_run (demo_uring two_pages) ?calls ready_reader (ready_uring True 0) no_stats two_pages =
      (events, r, u, s, d)" by (cases "uring_run (demo_uring two_pages) ?calls ready_reader (ready_uring True 0) no_stats two_pages")
  have events: "events = [Sent (ask 0) 1, Sent (ask 1) 2, Got \<lparr>cr_token = 2, cr_data = replicate 4096 9\<rparr>,
      Got \<lparr>cr_token = 1, cr_data = replicate 4096 7\<rparr>]" using demo_run run by simp
  have "is_io_uring_enabled (pr_status ready_reader)" "unat (pr_next_token fresh_reader) + sum_list (map call_reads ?calls) < 2 ^ 64"
    by (simp_all add: ready_reader_def fresh_reader_def)
  note exact = uring_completions_exact[OF demo_kernel_ok demo_uring_configured this run]
  have "Sent (ask 1) 2 \<in> set events \<and> Got \<lparr>cr_token = 2, cr_data = replicate 4096 9\<rparr> \<in> set events \<and> rq_bytes (ask 1) < 2 ^ 31"
    by (simp add: events ask_def)
  then have "file_slice (pr_path fresh_reader) two_pages (unat (rq_offset (ask 1))) (rq_bytes (ask 1)) = Some (replicate 4096 9)"
    using exact by (metis completed_read.select_convs)
  then show ?thesis using exact run events by (auto simp: fresh_reader_def)
qed

text \<open>
  C21: A synchronous read whose wait is interrupted by a signal throws and stays in flight under a
  tag of its own counter. The next batch can give the same number as a token, and the completion
  of the old read is then handed out for the new one: on a ring that keeps its contract a reap
  returns bytes that are not those of the page that was asked for.
\<close>

theorem uring_interrupted_read_confuses:
  "\<exists>(lu :: demo_ring liburing) flying u0 u1 r u2 s2 c.
     kernel_ok lu flying two_pages \<and>
     uring_configure lu ''io_uring'' 2 2 fresh_reader u0 two_pages = Some (Inr (), r, u1, two_pages) \<and>
     is_io_uring_enabled (pr_status r) \<and>
     uring_read lu 0 4096 r u1 no_stats two_pages = Some (Inl (Runtime_error ''Graph page read failed''), u2, s2, two_pages) \<and>
     fst (uring_run lu [Submit [ask 1], Reap True] r u2 s2 two_pages) = [Sent (ask 1) (cr_token c), Got c] \<and>
     file_slice (pr_path r) two_pages (unat (rq_offset (ask 1))) (rq_bytes (ask 1)) \<noteq> Some (cr_data c)"
proof -
  let ?lu = "demo_uring two_pages" and ?u1 = "ready_uring False 1"
  let ?u2 = "ready_uring False 0\<lparr>ur_ring := \<lparr>lr_opened = True, lr_next_user_data = 2, lr_queued_submissions = 0,
    lr_kernel = \<lparr>dr_flying = [\<lparr>se_path = ''index'', se_offset = 0, se_bytes = 4096, se_buffer = 2, se_user_data = 1\<rparr>],
      dr_newest_first = False, dr_interrupts = 0, dr_memory = (\<lambda>_. replicate 4096 0)\<rparr>\<rparr>\<rparr>"
  obtain s2 where read: "uring_read ?lu 0 4096 ready_reader ?u1 no_stats two_pages =
      Some (Inl (Runtime_error ''Graph page read failed''), ?u2, s2, two_pages)"
    by (simp add: uring_read_def ring_read_def ring_await.simps demo_run_eval)
  have after: "fst (uring_run ?lu [Submit [ask 1], Reap True] ready_reader ?u2 s2 two_pages) =
      [Sent (ask 1) 1, Got \<lparr>cr_token = 1, cr_data = replicate 4096 0\<rparr>]"
    by (simp add: demo_run_eval)
  show ?thesis
  proof (intro exI conjI)
    show "kernel_ok ?lu (\<lambda>k. set (dr_flying k)) two_pages" by (rule demo_kernel_ok)
    show "uring_configure ?lu ''io_uring'' 2 2 fresh_reader (fresh_uring False 1) two_pages = Some (Inr (), ready_reader, ?u1, two_pages)"
      by (rule demo_uring_configured)
    show "is_io_uring_enabled (pr_status ready_reader)" by (simp add: ready_reader_def)
    show "uring_read ?lu 0 4096 ready_reader ?u1 no_stats two_pages =
        Some (Inl (Runtime_error ''Graph page read failed''), ?u2, s2, two_pages)" by (rule read)
    show "fst (uring_run ?lu [Submit [ask 1], Reap True] ready_reader ?u2 s2 two_pages) =
        [Sent (ask 1) (cr_token \<lparr>cr_token = 1, cr_data = replicate 4096 0\<rparr>), Got \<lparr>cr_token = 1, cr_data = replicate 4096 0\<rparr>]"
      using after by (simp only: completed_read.select_convs)
    show "file_slice (pr_path ready_reader) two_pages (unat (rq_offset (ask 1))) (rq_bytes (ask 1)) \<noteq>
        Some (cr_data \<lparr>cr_token = 1, cr_data = replicate 4096 0\<rparr>)"
      by (simp add: ask_def two_pages_slice replicate_eq_replicate)
  qed
qed

end
