(* ===== verification/Spec2Isabelle.thy ===== *)
theory Spec2Isabelle
  imports DynRecovery PqEncoder Engine LsmDelta LsmWal DiskIndex VamanaBuilder PackedBuild
    NaiveSearch PrefetchModel Dataset UringRuns
begin

text \<open>
  A verification development for agent-aware, a vector search store for agent memories.

  \<^bold>\<open>The program.\<close> A base index of full-precision vectors lies in pages of a packed graph file.
  The builder (\<open>src/graph/disk_graph_builder.cpp\<close>, \<open>src/graph/vamana_builder.cpp\<close>) computes a
  neighbour graph, orders the nodes and writes the file; the index
  (\<open>src/graph/disk_graph_index.cpp\<close>) answers queries by a beam search over it, which reads pages
  through a shared cache and one session per query (\<open>src/core/query_page_session.cpp\<close>,
  \<open>src/core/async_page_reader.cpp\<close>) and ranks candidates by a product quantiser
  (\<open>src/core/pq_encoder.cpp\<close>). A dynamic layer (\<open>src/dynamic/\<close>) takes inserts, updates and
  erases after the base was built: a write-ahead log, a memtable, sorted tables on disk with a
  manifest, compaction. The engine (\<open>src/engine/storage_engine.cpp\<close>) merges the answer of the
  base index with the records of the dynamic layer that are visible at one sequence number. Beside
  these stand the delta index of \<open>src/storage/lsm_tree.cpp\<close>, the record index of
  \<open>src/storage/\<close>, the one-page-per-node index of \<open>src/graph/naive_disk_graph_index.cpp\<close>, the
  prefetch planner and the readers of vector files.

  \<^bold>\<open>Theories and sources.\<close>
  \<^item> \<open>Prelude\<close>: results of operations that throw, hash maps as association lists with distinct
    keys (\<open>um_find\<close> and its laws, a locale with an interpretation), \<open>std::sort\<close> and priority
    queues (the locale of orders given by a key). \<open>Bytes\<close>: little-endian words, FNV-1a, reading
    of packed fields. \<open>Floats\<close>: IEEE binary32 and binary64 arithmetic on bit patterns, rounding
    to nearest even. \<open>Disk\<close>: files, streams with a buffer, I/O calls that fail. \<open>JsonText\<close>:
    printing and scanning of numbers and quoted strings.
  \<^item> \<open>Distance\<close>, \<open>BruteForce\<close>: \<open>core/types.h\<close>, \<open>src/core/brute_force.cpp\<close> and the order of
    results. \<open>Dataset\<close>: \<open>src/data/dataset.cpp\<close>.
  \<^item> \<open>DynRecord\<close>, \<open>Wal\<close>, \<open>MemTable\<close>, \<open>Manifest\<close>, \<open>SSTable\<close>, \<open>Compaction\<close>, \<open>DynManager\<close>: the
    files of \<open>src/dynamic/\<close> of the same names, \<open>DynManager\<close> being
    \<open>dynamic_write_manager.cpp\<close>. \<open>DynReads\<close> holds what its readers see, \<open>DynRecovery\<close> what a
    restart finds.
  \<^item> \<open>PqEncoder\<close>: \<open>src/core/pq_encoder.cpp\<close>. \<open>PageCodec\<close>: \<open>src/graph/disk_page_codec.cpp\<close>.
    \<open>PageReader\<close>: \<open>src/core/async_page_reader.cpp\<close> without liburing; \<open>UringReader\<close>: the same
    file with it, \<open>UringReads\<close> and \<open>UringRuns\<close>: what its completions carry. \<open>GraphIndex\<close>, \<open>PageCache\<close>, \<open>CacheRuns\<close>: the
    metadata and the page cache of \<open>src/graph/disk_graph_index.cpp\<close>, and runs of cache accesses.
    \<open>QuerySession\<close>: \<open>src/core/query_page_session.cpp\<close>, which builds its prefetch planner when a
    query starts and fails with it. \<open>GraphSearch\<close>: the beam search.
    \<open>SessionLogic\<close>, \<open>SessionOps\<close>, \<open>SessionBatch\<close>: a small program logic for sessions and its
    rules. \<open>SearchRefines\<close>, \<open>SearchBeam\<close>, \<open>SearchProps\<close>: the search on a plain graph, that
    \<open>search_one\<close> refines it, and what it finds. \<open>EntrySelector\<close>: \<open>src/graph/entry_selector.cpp\<close>.
  \<^item> \<open>VamanaBuilder\<close>: \<open>src/graph/vamana_builder.cpp\<close>. \<open>BuildGraph\<close>, \<open>BuildProps\<close>: the graph
    policies of \<open>src/graph/disk_graph_builder.cpp\<close>; \<open>BuildOrder\<close>: its packing orders;
    \<open>PackedBuild\<close>: its writer of packed files. \<open>NaiveIndex\<close>, \<open>NaiveSearch\<close>: its other writer and
    \<open>src/graph/naive_disk_graph_index.cpp\<close>.
  \<^item> \<open>LsmDelta\<close>, \<open>LsmWal\<close>: \<open>src/storage/lsm_tree.cpp\<close>. \<open>DiskRecord\<close>, \<open>DiskIndex\<close>:
    \<open>src/storage/disk_record.cpp\<close>, \<open>disk_index_writer.cpp\<close> and \<open>disk_index_reader.cpp\<close>.
    \<open>PrefetchPlanner\<close>, \<open>PrefetchModel\<close>: \<open>src/core/prefetch_planner.cpp\<close>. \<open>Engine\<close>:
    \<open>src/engine/storage_engine.cpp\<close>.

  \<^bold>\<open>How code is modelled.\<close> A class is a record, an operation a function from the state to a result
  and the state it leaves; an exception is the left value of a sum, with the fixed part of its
  message, and the state is the one at the throw. Widths are kept where they matter: identifiers,
  page numbers, tokens, sequence numbers and checksums are words; sizes are natural numbers on an
  LP64 system. Floats are bit patterns, so equalities of distances are bit for bit. Hash maps are
  association lists in the order of insertion; no theorem depends on that order. Every operation
  of the write manager holds its mutex, so threads are sequences of whole operations
  (\<open>dm_step\<close>), and the engine theorems let other writers in between any two of its accesses to
  the manager. The modelled build is Linux on x86-64 with SSE2 and without liburing, the default
  where the library is not installed; only the page reader is modelled for both builds. The
  compiler does not contract multiplications and additions.

  \<^bold>\<open>The disk.\<close> A disk has files and a script of outcomes: each I/O call takes the next outcome and
  fails if it says so, and after the script all calls succeed. Theorems with a free disk hold for
  every pattern of failures; an empty script is a disk that works. A crash keeps any prefix of the
  bytes that a stream had buffered.

  \<^bold>\<open>What the lemmas show.\<close> For the dynamic layer: what each reader finds after each write, that
  snapshots are stable, that tables, log, manifest and compaction keep what was written, and what
  a crash at any point leaves. For the packed index: that the cache and the sessions are
  transparent, so that \<open>search_one\<close> is the beam search on the graph of the file, that this search
  ends, is exact when it is wide enough, and returns what it says; that every builder yields a
  well-formed graph, every packing order a permutation, and the file opens with exactly what was
  put in. For the engine: that a search is the merge of the base answer with the newest visible
  records, whether or not it reranks (without reranking the base answer carries the distances of
  the quantiser). For the small components: round trips, exactness against the brute-force reference,
  termination, and the errors the findings name.

  \<^bold>\<open>Loops and bounds.\<close> Structural loops are primitive recursions. \<open>search_rounds\<close> and
  \<open>naive_rounds\<close> carry \<open>search_width\<close> as the number of rounds, and \<open>search_rounds_enough\<close> shows
  that more changes nothing, since each round expands a node or ends the loop. \<open>explore\<close>,
  \<open>prune_loop\<close>, \<open>trace_session\<close>, \<open>fill_page\<close> and \<open>hot_expand\<close> count down what their loop
  consumes; \<open>reap_batch\<close> counts down the completions in the queue. \<open>bfs_loop\<close>, \<open>place_pages\<close>,
  \<open>read_fvecs\<close> and the replay loops end by measures. \<open>walk_tree\<close> follows a tree of the prefetch
  model that may be cyclic: it is a partial function whose value \<open>None\<close> is a walk that never ends;
  \<open>plan_returns\<close> shows when it ends and \<open>endless_model_accepted\<close> that it need not.
  \<open>submit_queued\<close> ends since every call that works takes a read; \<open>ring_await\<close> and \<open>drain_ring\<close> wait
  for completions that may never come, which is their value \<open>None\<close>.

  \<^bold>\<open>Parameters.\<close> What the C++ library draws or computes outside the language's definition is an
  argument of the model: the logarithm in the cache score (\<open>lg\<close>), the draws and shuffles of the
  builder (\<open>br_draw\<close>, \<open>br_shuffle\<close>, which permutes), the samples of quantiser training
  (\<open>pick\<close>), the draws of synthetic data (\<open>synthetic_draws\<close>). liburing and the kernel are a record
  of functions on a state of their own (\<open>liburing\<close>); \<open>kernel_ok\<close> is their documented contract, and
  \<open>demo_uring\<close> a ring that keeps it.

  \<^bold>\<open>Not modelled.\<close> The two benchmark programs, which only drive the components and report times;
  elapsed times in statistics; the branches for Windows; in the session and the search the branches
  that need liburing, among them the prefetches and their trace, which the modelled build never
  takes (the planner, its construction at the start of a query, and the reader they call are
  modelled); exhaustion of memory.
\<close>

end
